(* ===== verification/Prelude.thy ===== *)
theory Prelude
  imports Main
begin

text \<open>
  Shared vocabulary of the development: dotted names as strings, the insertion-ordered set of
  the \<open>starlark_map\<close> crate (\<open>SmallSet\<close>) as a duplicate-free list, hash-map multi-maps as partial
  functions into lists, and the generic facts about them that the component theories use. The
  collections \<open>name_simps\<close>, \<open>small_set_simps\<close> and \<open>multi_map_simps\<close> are handed to
  \<open>simp\<close> and \<open>auto\<close> by the proofs of the components.
\<close>

type_synonym modname = string
type_synonym text_range = "nat \<times> nat"

named_theorems name_simps \<open>facts about dotted names\<close>
named_theorems small_set_simps \<open>facts about insertion-ordered sets\<close>
named_theorems multi_map_simps \<open>facts about maps into lists and sets\<close>

abbreviation dot :: char where
  "dot \<equiv> CHR ''.''"

section \<open>Lists\<close>

text \<open>The first element satisfying a predicate, as \<open>Iterator::find\<close> returns it.\<close>

fun find_first :: "('a \<Rightarrow> bool) \<Rightarrow> 'a list \<Rightarrow> 'a option" where
  "find_first P [] = None"
| "find_first P (x # xs) = (if P x then Some x else find_first P xs)"

lemma find_first_None_iff: "find_first P xs = None \<longleftrightarrow> (\<forall>x\<in>set xs. \<not> P x)"
  by (induction xs) auto

lemma find_first_SomeD: "find_first P xs = Some x \<Longrightarrow> x \<in> set xs \<and> P x"
  by (induction xs) (auto split: if_splits)

lemma find_first_split:
  "find_first P xs = Some x \<Longrightarrow> \<exists>us vs. xs = us @ x # vs \<and> P x \<and> (\<forall>u\<in>set us. \<not> P u)"
proof (induction xs)
  case (Cons y ys)
  show ?case
  proof (cases "P y")
    case True
    with Cons.prems show ?thesis by (intro exI [of _ "[]"] exI [of _ ys]) auto
  next
    case False
    with Cons.prems have "find_first P ys = Some x" by simp
    then obtain us vs where "ys = us @ x # vs" "P x" "\<forall>u\<in>set us. \<not> P u"
      using Cons.IH by blast
    with False show ?thesis by (intro exI [of _ "y # us"] exI [of _ vs]) auto
  qed
qed simp

lemma find_first_cong [fundef_cong]:
  "xs = ys \<Longrightarrow> (\<And>x. x \<in> set ys \<Longrightarrow> P x = Q x) \<Longrightarrow> find_first P xs = find_first Q ys"
  by (induction xs arbitrary: ys) auto

section \<open>Insertion-ordered sets\<close>

definition small_insert :: "'a \<Rightarrow> 'a list \<Rightarrow> 'a list" where
  "small_insert x xs = (if x \<in> set xs then xs else xs @ [x])"

definition small_extend :: "'a list \<Rightarrow> 'a list \<Rightarrow> 'a list" where
  "small_extend xs ys = foldl (\<lambda>acc y. small_insert y acc) xs ys"

lemma set_small_insert [simp, small_set_simps]: "set (small_insert x xs) = insert x (set xs)"
  by (auto simp: small_insert_def)

lemma distinct_small_insert [simp, small_set_simps]:
  "distinct (small_insert x xs) \<longleftrightarrow> distinct xs"
  by (auto simp: small_insert_def)

lemma small_extend_Nil [simp, small_set_simps]: "small_extend xs [] = xs"
  by (simp add: small_extend_def)

lemma small_extend_Cons [small_set_simps]:
  "small_extend xs (y # ys) = small_extend (small_insert y xs) ys"
  by (simp add: small_extend_def)

lemma set_small_extend [simp, small_set_simps]: "set (small_extend xs ys) = set xs \<union> set ys"
  by (induction ys arbitrary: xs) (auto simp: small_extend_Cons)

lemma distinct_small_extend [simp, small_set_simps]:
  "distinct (small_extend xs ys) \<longleftrightarrow> distinct xs"
  by (induction ys arbitrary: xs) (auto simp: small_extend_Cons)

lemma small_extend_eq_Nil [simp]: "small_extend xs ys = [] \<longleftrightarrow> xs = [] \<and> ys = []"
  using set_small_extend [of xs ys] by (metis Un_empty set_empty2)

lemma small_extend_prefix: "\<exists>new. small_extend xs ys = xs @ new"
proof (induction ys arbitrary: xs)
  case (Cons y ys)
  obtain new where "small_extend (small_insert y xs) ys = small_insert y xs @ new"
    using Cons.IH by blast
  then show ?case by (auto simp: small_extend_Cons small_insert_def split: if_splits)
qed simp

lemma small_extend_absorb: "set ys \<subseteq> set xs \<Longrightarrow> small_extend xs ys = xs"
  by (induction ys) (auto simp: small_extend_Cons small_insert_def)

section \<open>Maps into lists\<close>

text \<open>\<open>entry(k).or_default().push(v)\<close> and the reading \<open>get(k)\<close> that defaults to empty.\<close>

definition push_entry :: "'k \<Rightarrow> 'v \<Rightarrow> ('k \<rightharpoonup> 'v list) \<Rightarrow> ('k \<rightharpoonup> 'v list)" where
  "push_entry k v m = m(k \<mapsto> (case m k of None \<Rightarrow> [] | Some vs \<Rightarrow> vs) @ [v])"

definition entries :: "('k \<rightharpoonup> 'v list) \<Rightarrow> 'k \<Rightarrow> 'v list" where
  "entries m k = (case m k of None \<Rightarrow> [] | Some vs \<Rightarrow> vs)"

lemma entries_empty [simp, multi_map_simps]: "entries Map.empty k = []"
  by (simp add: entries_def)

lemma entries_push_entry [simp, multi_map_simps]:
  "entries (push_entry k v m) k' = (if k' = k then entries m k @ [v] else entries m k')"
  by (simp add: entries_def push_entry_def)

lemma dom_push_entry [simp, multi_map_simps]: "dom (push_entry k v m) = insert k (dom m)"
  by (auto simp: push_entry_def)

text \<open>\<open>entry(k).or_default().insert(v)\<close> for a map into sets.\<close>

definition add_entry :: "'k \<Rightarrow> 'v \<Rightarrow> ('k \<rightharpoonup> 'v set) \<Rightarrow> ('k \<rightharpoonup> 'v set)" where
  "add_entry k v m = m(k \<mapsto> insert v (case m k of None \<Rightarrow> {} | Some vs \<Rightarrow> vs))"

definition members :: "('k \<rightharpoonup> 'v set) \<Rightarrow> 'k \<Rightarrow> 'v set" where
  "members m k = (case m k of None \<Rightarrow> {} | Some vs \<Rightarrow> vs)"

lemma members_empty [simp, multi_map_simps]: "members Map.empty k = {}"
  by (simp add: members_def)

lemma members_add_entry [simp, multi_map_simps]:
  "members (add_entry k v m) k' = (if k' = k then insert v (members m k) else members m k')"
  by (simp add: members_def add_entry_def)

lemma dom_add_entry [simp, multi_map_simps]: "dom (add_entry k v m) = insert k (dom m)"
  by (auto simp: add_entry_def)

section \<open>Hash maps into vectors, executable\<close>

text \<open>
  A hash map into vectors whose emptiness or keys the code inspects is an association list with
  distinct keys; \<^const>\<open>map_of\<close> reads it. \<open>amap_extend\<close> is
  \<open>entry(k).or_default().extend(vs)\<close>: it creates the entry even when \<open>vs\<close> is empty.
\<close>

fun amap_extend :: "'k \<Rightarrow> 'v list \<Rightarrow> ('k \<times> 'v list) list \<Rightarrow> ('k \<times> 'v list) list" where
  "amap_extend k vs [] = [(k, vs)]"
| "amap_extend k vs ((k', us) # m) =
     (if k' = k then (k', us @ vs) # m else (k', us) # amap_extend k vs m)"

definition amap_push :: "'k \<Rightarrow> 'v \<Rightarrow> ('k \<times> 'v list) list \<Rightarrow> ('k \<times> 'v list) list" where
  "amap_push k v m = amap_extend k [v] m"

definition amap_get :: "('k \<times> 'v list) list \<Rightarrow> 'k \<Rightarrow> 'v list" where
  "amap_get m k = (case map_of m k of None \<Rightarrow> [] | Some vs \<Rightarrow> vs)"

lemma map_of_amap_extend [multi_map_simps]:
  "map_of (amap_extend k vs m) k' =
     (if k' = k then Some (amap_get m k @ vs) else map_of m k')"
  by (induction k vs m rule: amap_extend.induct) (auto simp: amap_get_def)

lemma amap_get_extend [simp, multi_map_simps]:
  "amap_get (amap_extend k vs m) k' = (if k' = k then amap_get m k @ vs else amap_get m k')"
  by (simp add: amap_get_def map_of_amap_extend)

lemma keys_amap_extend [simp, multi_map_simps]:
  "fst ` set (amap_extend k vs m) = insert k (fst ` set m)"
  by (induction k vs m rule: amap_extend.induct) auto

lemma distinct_amap_extend [simp, multi_map_simps]:
  "distinct (map fst m) \<Longrightarrow> distinct (map fst (amap_extend k vs m))"
  by (induction k vs m rule: amap_extend.induct) auto

lemma amap_get_Nil [simp, multi_map_simps]: "amap_get [] k = []"
  by (simp add: amap_get_def)

text \<open>\<open>entry(k).or_default().insert(v)\<close> for a map into sets kept as lists.\<close>

fun smap_insert :: "'k \<Rightarrow> 'v \<Rightarrow> ('k \<times> 'v list) list \<Rightarrow> ('k \<times> 'v list) list" where
  "smap_insert k v [] = [(k, [v])]"
| "smap_insert k v ((k', us) # m) =
     (if k' = k then (k', small_insert v us) # m else (k', us) # smap_insert k v m)"

lemma amap_get_smap_insert [simp, multi_map_simps]:
  "amap_get (smap_insert k v m) k' = (if k' = k then small_insert v (amap_get m k) else amap_get m k')"
  by (induction k v m rule: smap_insert.induct) (auto simp: amap_get_def small_insert_def)

lemma keys_smap_insert [simp, multi_map_simps]:
  "fst ` set (smap_insert k v m) = insert k (fst ` set m)"
  by (induction k v m rule: smap_insert.induct) auto

lemma distinct_smap_insert [simp, multi_map_simps]:
  "distinct (map fst m) \<Longrightarrow> distinct (map fst (smap_insert k v m))"
  by (induction k v m rule: smap_insert.induct) auto

lemma set_map_filter: "set (List.map_filter f xs) = {y. \<exists>x\<in>set xs. f x = Some y}"
  by (induction xs) (auto split: option.splits)

end
