(* ===== verification/Names.thy ===== *)
theory Names
  imports Prelude
begin

text \<open>
  Dotted names: the \<open>ModuleNameExt\<close> operations of \<open>src/traits.rs\<close> and the two
  searches for the enclosing module of a name in \<open>src/names.rs\<close>. A \<open>ModuleName\<close> is an
  interned string, so it is modelled by its text; positions count the characters of the text.
\<close>

section \<open>Searching for dots\<close>

text \<open>\<open>str::rfind('.')\<close>: the position of the last dot.\<close>

fun rfind_from :: "nat \<Rightarrow> string \<Rightarrow> nat option \<Rightarrow> nat option" where
  "rfind_from i [] found = found"
| "rfind_from i (c # cs) found = rfind_from (Suc i) cs (if c = dot then Some i else found)"

definition rfind_dot :: "string \<Rightarrow> nat option" where
  "rfind_dot s = rfind_from 0 s None"

lemma rfind_from_spec:
  "rfind_from i s found =
     (if dot \<in> set s then map_option (\<lambda>p. i + p) (rfind_from 0 s None) else found)"
proof (induction s arbitrary: i found)
  case (Cons c cs)
  have 1: "rfind_from (Suc i) cs f =
      (if dot \<in> set cs then map_option (\<lambda>p. Suc i + p) (rfind_from 0 cs None) else f)" for i f
    by (rule Cons.IH)
  show ?case
    by (cases "rfind_from 0 cs None") (auto simp: 1)
qed simp

lemma rfind_dot_Cons:
  "rfind_dot (c # cs) =
     (case rfind_dot cs of None \<Rightarrow> (if c = dot then Some 0 else None) | Some p \<Rightarrow> Some (Suc p))"
proof -
  have "rfind_from 0 cs None = None" if "dot \<notin> set cs"
    using that rfind_from_spec [of 0 cs None] by simp
  moreover have "rfind_from 0 cs None \<noteq> None" if "dot \<in> set cs"
    using that by (induction cs) (auto simp: rfind_from_spec [of "Suc 0"])
  ultimately show ?thesis
    by (cases "dot \<in> set cs")
      (auto simp: rfind_dot_def rfind_from_spec [of "Suc 0"] split: option.splits)
qed

lemma rfind_dot_Nil [simp]: "rfind_dot [] = None"
  by (simp add: rfind_dot_def)

lemma rfind_dot_None [name_simps]: "rfind_dot s = None \<longleftrightarrow> dot \<notin> set s"
  by (induction s) (auto simp: rfind_dot_Cons split: option.splits)

lemma rfind_dot_append: "dot \<notin> set v \<Longrightarrow> rfind_dot (u @ dot # v) = Some (length u)"
  using rfind_dot_None [of v]
  by (induction u) (auto simp: rfind_dot_Cons split: option.splits)

lemma rfind_dot_SomeD:
  "rfind_dot s = Some p \<Longrightarrow>
     p < length s \<and> s = take p s @ dot # drop (Suc p) s \<and> dot \<notin> set (drop (Suc p) s)"
proof (induction s arbitrary: p)
  case (Cons c cs)
  then show ?case
    by (cases "rfind_dot cs")
      (auto simp: rfind_dot_Cons rfind_dot_None split: if_splits)
qed simp

section \<open>The operations of the trait\<close>

definition append_str :: "modname \<Rightarrow> string \<Rightarrow> modname" where
  "append_str self other = self @ [dot] @ other"

definition concat_names :: "modname \<Rightarrow> modname \<Rightarrow> modname" where
  "concat_names self other = append_str self other"

definition split_attr :: "modname \<Rightarrow> (modname \<times> string) option" where
  "split_attr self =
     (case rfind_dot self of
        None \<Rightarrow> None
      | Some p \<Rightarrow> Some (take p self, drop (Suc p) self))"

text \<open>
  \<open>ParentIter\<close>: the state is the end of the prefix still to be searched. \<open>parents_from\<close>
  unrolls the iterator from a state; every step moves the end strictly to the left.
\<close>

function parents_from :: "string \<Rightarrow> nat \<Rightarrow> (modname \<times> nat) list" where
  "parents_from s e =
     (case rfind_dot (take e s) of
        None \<Rightarrow> []
      | Some p \<Rightarrow> (take p s, p) # parents_from s p)"
  by pat_completeness auto
termination
  by (relation "measure snd") (auto dest: rfind_dot_SomeD)

declare parents_from.simps [simp del]

definition iter_parents :: "modname \<Rightarrow> (modname \<times> nat) list" where
  "iter_parents self = parents_from self (length self)"

definition strip_prefix :: "string \<Rightarrow> string \<Rightarrow> string option" where
  "strip_prefix pre s =
     (if take (length pre) s = pre then Some (drop (length pre) s) else None)"

definition is_ancestor_of :: "modname \<Rightarrow> modname \<Rightarrow> bool" where
  "is_ancestor_of self module =
     (case strip_prefix self module of
        None \<Rightarrow> False
      | Some rest \<Rightarrow> (case rest of [] \<Rightarrow> False | c # _ \<Rightarrow> c = dot))"

section \<open>The enclosing module of a name\<close>

definition enclosing_module ::
  "string \<Rightarrow> (modname \<Rightarrow> bool) \<Rightarrow> (modname \<times> string) option" where
  "enclosing_module name is_module =
     map_option (\<lambda>(m, dot_pos). (m, drop (dot_pos + 1) name))
       (find_first (\<lambda>(parent, _). is_module parent) (iter_parents name))"

text \<open>The loop of \<open>enclosing_module_str\<close>, with its variable \<open>end\<close> as the argument.\<close>

function enclosing_loop ::
  "string \<Rightarrow> (string \<Rightarrow> bool) \<Rightarrow> nat \<Rightarrow> (modname \<times> string) option" where
  "enclosing_loop name is_module e =
     (case rfind_dot (take e name) of
        None \<Rightarrow> None
      | Some pos \<Rightarrow>
          if is_module (take pos name) then Some (take pos name, drop (pos + 1) name)
          else enclosing_loop name is_module pos)"
  by pat_completeness auto
termination
  by (relation "measure (\<lambda>(_, _, e). e)") (auto dest: rfind_dot_SomeD)

declare enclosing_loop.simps [simp del]

definition enclosing_module_str ::
  "string \<Rightarrow> (string \<Rightarrow> bool) \<Rightarrow> (modname \<times> string) option" where
  "enclosing_module_str name is_module = enclosing_loop name is_module (length name)"

section \<open>Facts\<close>

lemma is_ancestor_of_iff [name_simps]:
  "is_ancestor_of p m \<longleftrightarrow> (\<exists>rest. m = append_str p rest)"
proof
  assume "is_ancestor_of p m"
  then obtain rest where "take (length p) m = p" "drop (length p) m = dot # rest"
    by (auto simp: is_ancestor_of_def strip_prefix_def split: option.splits list.splits if_splits)
  then have "m = p @ dot # rest" by (metis append_take_drop_id)
  then show "\<exists>rest. m = append_str p rest" by (auto simp: append_str_def)
qed (auto simp: is_ancestor_of_def strip_prefix_def append_str_def)

lemma split_attr_append [name_simps]:
  "dot \<notin> set a \<Longrightarrow> split_attr (append_str m a) = Some (m, a)"
  by (simp add: split_attr_def append_str_def rfind_dot_append)

lemma split_attr_SomeD:
  "split_attr n = Some (m, a) \<Longrightarrow> n = append_str m a \<and> dot \<notin> set a"
  by (auto simp: split_attr_def append_str_def dest: rfind_dot_SomeD split: option.splits)

lemma is_ancestor_of_trans:
  "is_ancestor_of a b \<Longrightarrow> is_ancestor_of b c \<Longrightarrow> is_ancestor_of a c"
  by (auto simp: name_simps append_str_def)

lemma is_ancestor_of_irrefl [simp]: "\<not> is_ancestor_of a a"
  by (auto simp: name_simps append_str_def)

lemma is_ancestor_of_length: "is_ancestor_of a b \<Longrightarrow> length a < length b"
  by (auto simp: name_simps append_str_def)

text \<open>
  The parents found from an end \<open>e\<close> are the positions below \<open>e\<close> that hold a dot, from
  the right, so the ancestors come longest first.
\<close>

lemma parents_from_eq:
  "e \<le> length s \<Longrightarrow>
     parents_from s e = map (\<lambda>p. (take p s, p)) (rev (filter (\<lambda>p. s ! p = dot) [0..<e]))"
proof (induction s e rule: parents_from.induct)
  case (1 s e)
  show ?case
  proof (cases "rfind_dot (take e s)")
    case None
    with "1.prems" have "\<forall>p<e. s ! p \<noteq> dot"
      unfolding rfind_dot_None by (metis in_set_conv_nth length_take min.absorb2 nth_take)
    then have "filter (\<lambda>p. s ! p = dot) [0..<e] = []" by (auto simp: filter_empty_conv)
    with None show ?thesis by (simp add: parents_from.simps [of s e])
  next
    case (Some p)
    note d = rfind_dot_SomeD [OF Some]
    from d "1.prems" have pe: "p < e" by simp
    have at: "s ! p = dot"
      using d pe "1.prems" by (metis nth_append_length nth_take length_take min.absorb2 less_imp_le)
    have after: "s ! q \<noteq> dot" if "p < q" "q < e" for q
    proof -
      have "take e s ! q \<in> set (drop (Suc p) (take e s))"
        using that "1.prems"
        by (auto simp: in_set_conv_nth intro!: exI [of _ "q - Suc p"])
      with d that show ?thesis by auto
    qed
    have split: "[0..<e] = [0..<p] @ p # [Suc p..<e]"
      using pe by (metis le0 less_imp_le_nat upt_add_eq_append le_add_diff_inverse add_0 upt_conv_Cons)
    have none: "filter (\<lambda>p. s ! p = dot) [Suc p..<e] = []"
      using after by (auto simp: filter_empty_conv)
    have "parents_from s p = map (\<lambda>p. (take p s, p)) (rev (filter (\<lambda>p. s ! p = dot) [0..<p]))"
      using "1.IH" [OF Some] pe "1.prems" by simp
    with Some at none show ?thesis
      by (simp add: parents_from.simps [of s e] split)
  qed
qed

lemma iter_parents_eq:
  "iter_parents s = map (\<lambda>p. (take p s, p)) (rev (filter (\<lambda>p. s ! p = dot) [0..<length s]))"
  by (simp add: iter_parents_def parents_from_eq)

lemma iter_parents_ancestors:
  "fst ` set (iter_parents m) = {p. is_ancestor_of p m}"
proof -
  have "(\<exists>q<length m. m ! q = dot \<and> p = take q m) \<longleftrightarrow> (\<exists>rest. m = append_str p rest)" for p
  proof
    assume "\<exists>q<length m. m ! q = dot \<and> p = take q m"
    then obtain q where "q < length m" "m ! q = dot" "p = take q m" by blast
    then have "m = p @ dot # drop (Suc q) m" by (metis id_take_nth_drop)
    then show "\<exists>rest. m = append_str p rest" by (auto simp: append_str_def)
  next
    assume "\<exists>rest. m = append_str p rest"
    then obtain rest where "m = p @ dot # rest" by (auto simp: append_str_def)
    then show "\<exists>q<length m. m ! q = dot \<and> p = take q m"
      by (intro exI [of _ "length p"]) auto
  qed
  then show ?thesis
    by (auto simp: iter_parents_eq name_simps image_image)
qed

lemma enclosing_loop_eq:
  "enclosing_loop name P e =
     map_option (\<lambda>(m, p). (m, drop (p + 1) name))
       (find_first (\<lambda>(parent, _). P parent) (parents_from name e))"
proof (induction name P e rule: enclosing_loop.induct)
  case (1 name P e)
  then show ?case
    by (cases "rfind_dot (take e name)")
      (auto simp: enclosing_loop.simps [of name P e] parents_from.simps [of name e])
qed

section \<open>What the enclosing module is\<close>

lemma enclosing_module_str_eq: "enclosing_module_str name P = enclosing_module name P"
  by (simp add: enclosing_module_str_def enclosing_module_def enclosing_loop_eq iter_parents_def)

lemma iter_parents_entry:
  "(m, p) \<in> set (iter_parents name) \<longleftrightarrow> is_ancestor_of m name \<and> p = length m"
proof -
  have "(m, p) \<in> set (iter_parents name) \<longleftrightarrow> m \<in> fst ` set (iter_parents name) \<and> p = length m"
    by (auto simp: iter_parents_eq image_iff)
  then show ?thesis by (simp add: iter_parents_ancestors)
qed

lemma iter_parents_sorted:
  "sorted_wrt (\<lambda>(_, p) (_, q). q < p) (iter_parents name)"
proof -
  have "sorted_wrt (<) (filter (\<lambda>p. name ! p = dot) [0..<length name])"
    by (intro sorted_wrt_filter) (simp add: strict_sorted_iff [symmetric])
  then show ?thesis
    by (simp add: iter_parents_eq sorted_wrt_map sorted_wrt_rev)
qed

lemma append_str_drop: "is_ancestor_of m name \<Longrightarrow> append_str m (drop (length m + 1) name) = name"
  by (auto simp: is_ancestor_of_iff append_str_def)

lemma enclosing_module_None:
  "enclosing_module name P = None \<longleftrightarrow> \<not> (\<exists>m. P m \<and> is_ancestor_of m name)"
  using iter_parents_entry [of _ _ name]
  by (auto simp: enclosing_module_def find_first_None_iff)

lemma enclosing_module_SomeD:
  assumes "enclosing_module name P = Some (m, l)"
  shows "P m" "name = append_str m l" "\<not> (\<exists>m'. P m' \<and> is_ancestor_of m' name \<and> length m < length m')"
proof -
  obtain p where f: "find_first (\<lambda>(parent, _). P parent) (iter_parents name) = Some (m, p)"
    and l: "l = drop (p + 1) name"
    using assms by (auto simp: enclosing_module_def)
  from find_first_split [OF f] obtain us vs where
    split: "iter_parents name = us @ (m, p) # vs" "P m" "\<forall>u\<in>set us. \<not> (\<lambda>(parent, _). P parent) u"
    by auto
  show "P m" by (rule split(2))
  have mp: "is_ancestor_of m name" "p = length m"
    using split(1) iter_parents_entry [of m p name] by auto
  then show "name = append_str m l" using l append_str_drop by simp
  show "\<not> (\<exists>m'. P m' \<and> is_ancestor_of m' name \<and> length m < length m')"
  proof
    assume "\<exists>m'. P m' \<and> is_ancestor_of m' name \<and> length m < length m'"
    then obtain m' where m': "P m'" "(m', length m') \<in> set (iter_parents name)" "length m < length m'"
      using iter_parents_entry by blast
    then have "(m', length m') \<in> set us \<or> (m', length m') \<in> set vs"
      using split(1) mp by auto
    then show False
    proof
      assume "(m', length m') \<in> set us"
      with split(3) m'(1) show False by auto
    next
      assume "(m', length m') \<in> set vs"
      moreover have "sorted_wrt (\<lambda>(_, p) (_, q). q < p) (us @ (m, p) # vs)"
        using iter_parents_sorted [of name] split(1) by simp
      ultimately show False using m'(3) mp by (auto simp: sorted_wrt_append)
    qed
  qed
qed

text \<open>
  A dotted name is split at its longest proper prefix that is a module, and at nothing when
  no prefix is one. The search that interns no name gives the same split.
\<close>

theorem enclosing_module_iff:
  "enclosing_module_str name P = enclosing_module name P \<and>
   (enclosing_module name P = Some (m, l) \<longleftrightarrow>
      P m \<and> name = append_str m l \<and>
      \<not> (\<exists>m'. P m' \<and> is_ancestor_of m' name \<and> length m < length m'))"
proof -
  have "enclosing_module name P = Some (m, l)"
    if m: "P m" "name = append_str m l"
      "\<not> (\<exists>m'. P m' \<and> is_ancestor_of m' name \<and> length m < length m')"
  proof -
    have anc: "is_ancestor_of m name" using m(2) is_ancestor_of_iff by blast
    then obtain m' l' where s: "enclosing_module name P = Some (m', l')"
      using m(1) enclosing_module_None [of name P] by (cases "enclosing_module name P") auto
    note d = enclosing_module_SomeD [OF s]
    have anc': "is_ancestor_of m' name" using d(2) is_ancestor_of_iff by blast
    have "length m = length m'"
      using d(3) m(3) d(1) m(1) anc anc' by (meson linorder_neqE_nat)
    then have "m = m'" "l = l'"
      using d(2) m(2) by (auto simp: append_str_def)
    with s show ?thesis by simp
  qed
  then show ?thesis
    using enclosing_module_SomeD [of name P m l] enclosing_module_str_eq by blast
qed

end
