(* ===== verification/Exceptions.thy ===== *)
theory Exceptions
  imports Names
begin

text \<open>
  What the enclosing \<open>try\<close> blocks catch (\<open>src/exceptions.rs\<close>): handler matching on
  exception names as written in the source, and the stack of blocks enclosing the node under
  traversal. A \<open>Vec\<close> used as a stack is a list whose last element is the top.
\<close>

section \<open>Handlers\<close>

datatype try_handler =
    Bare
  | Single modname
  | Multiple "modname list"

definition BASE_EXCEPTION_ONLY :: "string list" where
  "BASE_EXCEPTION_ONLY =
     [''BaseException'', ''BaseExceptionGroup'', ''GeneratorExit'', ''KeyboardInterrupt'',
      ''SystemExit'']"

definition strip_builtins :: "string \<Rightarrow> string" where
  "strip_builtins s = (case strip_prefix ''builtins.'' s of None \<Rightarrow> s | Some rest \<Rightarrow> rest)"

definition exception_matches :: "modname \<Rightarrow> modname \<Rightarrow> bool" where
  "exception_matches name exc_name =
     (let n = strip_builtins name in
      if n = ''BaseException'' then True
      else if n = ''Exception'' then strip_builtins exc_name \<notin> set BASE_EXCEPTION_ONLY
      else name = exc_name)"

fun typed :: "modname list \<Rightarrow> try_handler" where
  "typed [single] = Single single"
| "typed names = Multiple names"

fun catches :: "try_handler \<Rightarrow> modname \<Rightarrow> bool" where
  "catches Bare exc_name = True"
| "catches (Single n) exc_name = exception_matches n exc_name"
| "catches (Multiple names) exc_name = list_ex (\<lambda>n. exception_matches n exc_name) names"

fun handler_names :: "try_handler \<Rightarrow> modname \<Rightarrow> bool" where
  "handler_names Bare exc_name = False"
| "handler_names (Single n) exc_name = (n = exc_name)"
| "handler_names (Multiple names) exc_name = (exc_name \<in> set names)"

section \<open>The stack of enclosing blocks\<close>

datatype block = TryBody "try_handler list"

type_synonym block_stack = "block list"

fun is_try_body :: "block \<Rightarrow> bool" where
  "is_try_body (TryBody _) = True"

fun block_handlers :: "block \<Rightarrow> try_handler list" where
  "block_handlers (TryBody handlers) = handlers"

definition in_try_body :: "block_stack \<Rightarrow> bool" where
  "in_try_body stack = list_ex is_try_body stack"

definition catches_exception :: "block_stack \<Rightarrow> modname \<Rightarrow> bool" where
  "catches_exception stack exc_name =
     list_ex (\<lambda>b. list_ex (\<lambda>h. catches h exc_name) (block_handlers b)) (rev stack)"

definition names_exception :: "block_stack \<Rightarrow> modname \<Rightarrow> bool" where
  "names_exception stack exc_name =
     list_ex (\<lambda>b. list_ex (\<lambda>h. handler_names h exc_name) (block_handlers b)) (rev stack)"

definition try_handlers :: "block_stack \<Rightarrow> try_handler list" where
  "try_handlers stack = concat (map block_handlers stack)"

definition push_block :: "block_stack \<Rightarrow> block \<Rightarrow> block_stack" where
  "push_block stack b = stack @ [b]"

definition pop_block :: "block_stack \<Rightarrow> block_stack" where
  "pop_block stack = butlast stack"

section \<open>Facts\<close>

lemma catches_typed: "catches (typed ns) e \<longleftrightarrow> (\<exists>n\<in>set ns. exception_matches n e)"
  by (cases ns rule: typed.cases) (auto simp: list_ex_iff)

lemma handler_names_typed: "handler_names (typed ns) e \<longleftrightarrow> e \<in> set ns"
  by (cases ns rule: typed.cases) auto

lemma exception_matches_refl_iff:
  "exception_matches n n \<longleftrightarrow>
     strip_builtins n \<noteq> ''Exception'' \<or> ''Exception'' \<notin> set BASE_EXCEPTION_ONLY"
  by (simp add: exception_matches_def Let_def)

lemma exception_matches_refl: "exception_matches n n"
  by (simp add: exception_matches_refl_iff BASE_EXCEPTION_ONLY_def)

lemma handler_names_catches: "handler_names h e \<Longrightarrow> catches h e"
  by (cases h) (auto simp: exception_matches_refl list_ex_iff intro!: bexI [of _ e])

lemma catches_exception_iff:
  "catches_exception stack e \<longleftrightarrow> (\<exists>h\<in>set (try_handlers stack). catches h e)"
  by (auto simp: catches_exception_def try_handlers_def list_ex_iff)

lemma names_exception_iff:
  "names_exception stack e \<longleftrightarrow> (\<exists>h\<in>set (try_handlers stack). handler_names h e)"
  by (auto simp: names_exception_def try_handlers_def list_ex_iff)

lemma names_exception_catches: "names_exception stack e \<Longrightarrow> catches_exception stack e"
  by (auto simp: names_exception_iff catches_exception_iff intro: handler_names_catches)

lemma catches_push_block:
  "catches_exception (push_block stack (TryBody hs)) e \<longleftrightarrow>
     catches_exception stack e \<or> (\<exists>h\<in>set hs. catches h e)"
  by (auto simp: catches_exception_iff try_handlers_def push_block_def)

lemma pop_push_block [simp]: "pop_block (push_block stack b) = stack"
  by (simp add: pop_block_def push_block_def)

lemma in_try_body_iff: "in_try_body stack \<longleftrightarrow> stack \<noteq> []"
  by (cases stack) (auto simp: in_try_body_def list_ex_iff intro: is_try_body.elims)

end
