(* ===== verification/Cursor.thy ===== *)
theory Cursor
  imports Exceptions
begin

text \<open>
  The traversal cursor of \<open>src/cursor.rs\<close>: the scopes around the current AST node with their
  qualified names, and the \<open>try\<close> blocks around it. The blocks around a \<open>def\<close> do not
  enclose its body, so entering a function scope saves them and leaving it restores them. The
  panics of the code (\<open>expect\<close>) are \<^const>\<open>None\<close>.
\<close>

datatype scope_kind = Module | Class | Function

definition is_eager :: "scope_kind \<Rightarrow> bool" where
  "is_eager k \<longleftrightarrow> k = Module \<or> k = Class"

record cursor =
  block_stack :: block_stack
  outer_block_stacks :: "block_stack list"
  scopes :: "scope_kind list"
  qualified_scopes :: "modname list"

definition new_cursor :: cursor where
  "new_cursor =
     \<lparr>block_stack = [], outer_block_stacks = [], scopes = [], qualified_scopes = []\<rparr>"

section \<open>Operations\<close>

definition enter_block :: "block \<Rightarrow> cursor \<Rightarrow> cursor" where
  "enter_block b c = c\<lparr>block_stack := push_block (block_stack c) b\<rparr>"

definition leave_block :: "cursor \<Rightarrow> cursor" where
  "leave_block c = c\<lparr>block_stack := pop_block (block_stack c)\<rparr>"

definition enter_module_scope :: "modname \<Rightarrow> cursor \<Rightarrow> cursor" where
  "enter_module_scope mod_name c =
     c\<lparr>scopes := scopes c @ [Module], qualified_scopes := qualified_scopes c @ [mod_name]\<rparr>"

definition push_scope :: "scope_kind \<Rightarrow> string \<Rightarrow> cursor \<Rightarrow> cursor" where
  "push_scope kind name c =
     (let cached_name =
        (if qualified_scopes c = [] then name
         else append_str (last (qualified_scopes c)) name)
      in c\<lparr>scopes := scopes c @ [kind],
           qualified_scopes := qualified_scopes c @ [cached_name]\<rparr>)"

definition enter_function_scope :: "string \<Rightarrow> cursor \<Rightarrow> cursor" where
  "enter_function_scope name c =
     push_scope Function name
       (c\<lparr>block_stack := [], outer_block_stacks := outer_block_stacks c @ [block_stack c]\<rparr>)"

definition enter_class_scope :: "string \<Rightarrow> cursor \<Rightarrow> cursor" where
  "enter_class_scope name c = push_scope Class name c"

text \<open>
  \<open>Vec::pop\<close> on an empty vector returns \<open>None\<close> and changes nothing; popping a function
  scope whose saved blocks are missing is the panic.
\<close>

definition exit_scope :: "cursor \<Rightarrow> cursor option" where
  "exit_scope c =
     (let popped = (if scopes c = [] then None else Some (last (scopes c)));
          c1 = c\<lparr>scopes := butlast (scopes c)\<rparr>
      in if popped = Some Function then
           (if outer_block_stacks c1 = [] then None
            else Some (c1\<lparr>block_stack := last (outer_block_stacks c1),
                          outer_block_stacks := butlast (outer_block_stacks c1),
                          qualified_scopes := butlast (qualified_scopes c1)\<rparr>))
         else Some (c1\<lparr>qualified_scopes := butlast (qualified_scopes c1)\<rparr>))"

section \<open>Queries\<close>

definition ascending_scope_names :: "cursor \<Rightarrow> modname list" where
  "ascending_scope_names c = rev (qualified_scopes c)"

text \<open>The stateful filter of \<open>legb_scopes_iter\<close>, with its captured \<open>in_function\<close>.\<close>

fun legb_filter :: "bool \<Rightarrow> (scope_kind \<times> modname) list \<Rightarrow> (modname \<times> scope_kind) list" where
  "legb_filter in_function [] = []"
| "legb_filter in_function ((kind, qualified) # rest) =
     (let keep = (kind \<noteq> Class \<or> \<not> in_function);
          tail = legb_filter (in_function \<or> kind = Function) rest
      in if keep then (qualified, kind) # tail else tail)"

definition legb_scopes :: "cursor \<Rightarrow> (modname \<times> scope_kind) list" where
  "legb_scopes c = legb_filter False (rev (zip (scopes c) (qualified_scopes c)))"

definition scope :: "cursor \<Rightarrow> modname option" where
  "scope c = (if qualified_scopes c = [] then None else Some (last (qualified_scopes c)))"

definition in_eager_scope :: "cursor \<Rightarrow> bool" where
  "in_eager_scope c = list_all is_eager (scopes c)"

definition scope_at_kind :: "scope_kind \<Rightarrow> nat list \<Rightarrow> cursor \<Rightarrow> modname option" where
  "scope_at_kind kind indices c =
     map_option (\<lambda>i. qualified_scopes c ! i) (find_first (\<lambda>i. scopes c ! i = kind) indices)"

definition function_scope :: "nat list \<Rightarrow> cursor \<Rightarrow> modname option" where
  "function_scope indices c = scope_at_kind Function indices c"

definition enclosing_function_scope :: "cursor \<Rightarrow> modname option" where
  "enclosing_function_scope c = function_scope [0..<length (scopes c)] c"

definition nearest_function_scope :: "cursor \<Rightarrow> modname option" where
  "nearest_function_scope c = function_scope (rev [0..<length (scopes c) - 1]) c"

definition current_function_scope :: "cursor \<Rightarrow> modname option" where
  "current_function_scope c = function_scope (rev [0..<length (scopes c)]) c"

definition enclosing_class_scope :: "cursor \<Rightarrow> modname option" where
  "enclosing_class_scope c = scope_at_kind Class (rev [0..<length (scopes c)]) c"

section \<open>The traversal as a state machine\<close>

datatype cursor_op =
    EnterModule modname
  | EnterFunction string
  | EnterClass string
  | EnterBlock block
  | LeaveBlock
  | ExitScope

fun cursor_step :: "cursor_op \<Rightarrow> cursor \<Rightarrow> cursor option" where
  "cursor_step (EnterModule m) c = Some (enter_module_scope m c)"
| "cursor_step (EnterFunction f) c = Some (enter_function_scope f c)"
| "cursor_step (EnterClass k) c = Some (enter_class_scope k c)"
| "cursor_step (EnterBlock b) c = Some (enter_block b c)"
| "cursor_step LeaveBlock c = Some (leave_block c)"
| "cursor_step ExitScope c = exit_scope c"

inductive cursor_reachable :: "cursor \<Rightarrow> bool" where
  new: "cursor_reachable new_cursor"
| step: "cursor_reachable c \<Longrightarrow> cursor_step op c = Some c' \<Longrightarrow> cursor_reachable c'"

fun function_count :: "scope_kind list \<Rightarrow> nat" where
  "function_count [] = 0"
| "function_count (k # ks) = (if k = Function then 1 else 0) + function_count ks"

definition cursor_inv :: "cursor \<Rightarrow> bool" where
  "cursor_inv c \<longleftrightarrow>
     length (qualified_scopes c) = length (scopes c) \<and>
     length (outer_block_stacks c) = function_count (scopes c)"

lemmas cursor_defs =
  new_cursor_def enter_block_def leave_block_def enter_module_scope_def push_scope_def
  enter_function_scope_def enter_class_scope_def exit_scope_def cursor_inv_def Let_def

lemma function_count_append [simp]:
  "function_count (xs @ ys) = function_count xs + function_count ys"
  by (induction xs) auto

lemma function_count_butlast:
  "ks \<noteq> [] \<Longrightarrow>
     function_count (butlast ks) = function_count ks - (if last ks = Function then 1 else 0)"
  by (induction ks rule: rev_induct) auto

lemma function_count_last: "ks \<noteq> [] \<Longrightarrow> last ks = Function \<Longrightarrow> 0 < function_count ks"
  by (induction ks rule: rev_induct) auto

lemma cursor_step_inv: "cursor_inv c \<Longrightarrow> cursor_step op c = Some c' \<Longrightarrow> cursor_inv c'"
  by (cases op)
    (auto simp: cursor_defs function_count_butlast split: if_splits)

lemma reachable_cursor_inv: "cursor_reachable c \<Longrightarrow> cursor_inv c"
proof (induction rule: cursor_reachable.induct)
  case new
  show ?case by (simp add: cursor_defs)
next
  case (step c op c')
  then show ?case by (blast intro: cursor_step_inv)
qed

lemma exit_scope_total: "cursor_inv c \<Longrightarrow> \<exists>c'. exit_scope c = Some c'"
  by (auto simp: cursor_defs dest: function_count_last)

lemma exit_enter_function: "exit_scope (enter_function_scope f c) = Some c"
  by (simp add: cursor_defs)

lemma exit_enter_class: "exit_scope (enter_class_scope k c) = Some c"
  by (simp add: cursor_defs)

lemma exit_enter_module: "exit_scope (enter_module_scope m c) = Some c"
  by (simp add: cursor_defs)

lemma leave_enter_block: "leave_block (enter_block b c) = c"
  by (simp add: cursor_defs)

lemma scope_enter_function [simp]:
  "scope (enter_function_scope f c) =
     Some (case scope c of None \<Rightarrow> f | Some s \<Rightarrow> append_str s f)"
  by (simp add: scope_def cursor_defs)

lemma scope_enter_class [simp]:
  "scope (enter_class_scope k c) =
     Some (case scope c of None \<Rightarrow> k | Some s \<Rightarrow> append_str s k)"
  by (simp add: scope_def cursor_defs)

lemma scope_enter_module [simp]: "scope (enter_module_scope m c) = Some m"
  by (simp add: scope_def cursor_defs)

section \<open>Well-bracketed traversals\<close>

fun cursor_run :: "cursor_op list \<Rightarrow> cursor \<Rightarrow> cursor option" where
  "cursor_run [] c = Some c"
| "cursor_run (op # ops) c =
     (case cursor_step op c of None \<Rightarrow> None | Some c' \<Rightarrow> cursor_run ops c')"

text \<open>
  The traversals the analyzers make: they leave every scope and block they enter, innermost
  first.
\<close>

inductive bracketed :: "cursor_op list \<Rightarrow> bool" where
  bracketed_Nil: "bracketed []"
| bracketed_append: "bracketed xs \<Longrightarrow> bracketed ys \<Longrightarrow> bracketed (xs @ ys)"
| bracketed_module: "bracketed xs \<Longrightarrow> bracketed (EnterModule m # xs @ [ExitScope])"
| bracketed_function: "bracketed xs \<Longrightarrow> bracketed (EnterFunction f # xs @ [ExitScope])"
| bracketed_class: "bracketed xs \<Longrightarrow> bracketed (EnterClass k # xs @ [ExitScope])"
| bracketed_block: "bracketed xs \<Longrightarrow> bracketed (EnterBlock b # xs @ [LeaveBlock])"

lemma cursor_run_append:
  "cursor_run (xs @ ys) c =
     (case cursor_run xs c of None \<Rightarrow> None | Some c' \<Rightarrow> cursor_run ys c')"
  by (induction xs arbitrary: c) (auto split: option.splits)

lemma bracketed_run: "bracketed ops \<Longrightarrow> cursor_run ops c = Some c"
  by (induction ops arbitrary: c rule: bracketed.induct)
    (auto simp: cursor_run_append exit_enter_function exit_enter_class exit_enter_module
      leave_enter_block)

section \<open>Python's LEGB order\<close>

lemma legb_filter_eq:
  "legb_filter b ks =
     map (\<lambda>i. (snd (ks ! i), fst (ks ! i)))
       (filter (\<lambda>i. fst (ks ! i) \<noteq> Class \<or>
                 (\<not> b \<and> Function \<notin> set (map fst (take i ks)))) [0..<length ks])"
proof (induction b ks rule: legb_filter.induct)
  case (2 b kind qual rest)
  have split: "[0..<length ((kind, qual) # rest)] = 0 # map Suc [0..<length rest]"
    by (simp add: upt_conv_Cons map_Suc_upt del: upt_Suc)
  have IH: "legb_filter (b \<or> kind = Function) rest =
      map (\<lambda>i. (snd (rest ! i), fst (rest ! i)))
       (filter (\<lambda>i. fst (rest ! i) \<noteq> Class \<or>
         (\<not> (b \<or> kind = Function) \<and> Function \<notin> set (map fst (take i rest)))) [0..<length rest])"
    by (rule "2.IH") simp_all
  show ?case
    unfolding split
    by (simp add: IH Let_def filter_map comp_def eq_commute [of Function kind])
qed simp

section \<open>What the traversal may rely on\<close>

text \<open>
  C39: From any cursor that the traversal can reach, no step panics, the three stacks agree in
  length, and a visit that leaves every scope and block it entered returns to the same cursor.
\<close>
theorem cursor_never_panics:
  assumes "cursor_reachable c" "bracketed ops"
  shows "cursor_inv c \<and> cursor_step op c \<noteq> None \<and> cursor_run ops c = Some c"
proof -
  have "cursor_inv c" using assms(1) by (rule reachable_cursor_inv)
  moreover from this obtain c' where "exit_scope c = Some c'" using exit_scope_total by blast
  then have "cursor_step op c \<noteq> None" by (cases op) simp_all
  ultimately show ?thesis using bracketed_run [OF assms(2)] by blast
qed

lemma cursor_never_panics_witness:
  "cursor_step ExitScope (enter_function_scope ''f'' (enter_module_scope ''m'' new_cursor)) \<noteq> None \<and>
   cursor_run [EnterClass ''K'', EnterFunction ''g'', ExitScope, ExitScope]
     (enter_function_scope ''f'' (enter_module_scope ''m'' new_cursor)) =
     Some (enter_function_scope ''f'' (enter_module_scope ''m'' new_cursor))"
proof -
  let ?c = "enter_function_scope ''f'' (enter_module_scope ''m'' new_cursor)"
  have "cursor_reachable (enter_module_scope ''m'' new_cursor)"
    by (rule cursor_reachable.step [OF cursor_reachable.new, of "EnterModule ''m''"]) simp
  then have reach: "cursor_reachable ?c"
    by (rule cursor_reachable.step [of _ "EnterFunction ''f''"]) simp
  have "bracketed [EnterClass ''K'', EnterFunction ''g'', ExitScope, ExitScope]"
    using bracketed_class [OF bracketed_function [OF bracketed_Nil, of "''g''"], of "''K''"] by simp
  from cursor_never_panics [OF reach this, of ExitScope] show ?thesis by blast
qed

end
