(* ===== verification/Function_Safety.thy ===== *)
theory Function_Safety
  imports Prelude "HOL-Library.Word"
begin

text \<open>
  The safety concerns of a function and how they are combined (\<open>FunctionSafety\<close>,
  \<open>MutatedParam\<close> and \<open>FunctionSafetyInfo\<close> of \<open>src/module_safety.rs\<close>). The
  bitset is kept at its width, an 8-bit word. The locale \<open>concern_set\<close> states what the
  resolution code relies on; it is interpreted on the bitset.
\<close>

unbundle bit_operations_syntax

section \<open>The bitset of concerns\<close>

type_synonym function_safety = "8 word"

definition Safe :: function_safety where "Safe = 0"
definition UnsafeIfImported :: function_safety where "UnsafeIfImported = 1"
definition UnsafeMissingDep :: function_safety where "UnsafeMissingDep = 2"
definition Unsafe :: function_safety where "Unsafe = 4"

definition has :: "function_safety \<Rightarrow> function_safety \<Rightarrow> bool" where
  "has self other \<longleftrightarrow> self AND other \<noteq> 0"

definition insert_concern :: "function_safety \<Rightarrow> function_safety \<Rightarrow> function_safety" where
  "insert_concern self other = self OR other"

definition remove_concern :: "function_safety \<Rightarrow> function_safety \<Rightarrow> function_safety" where
  "remove_concern self other = self AND NOT other"

definition without :: "function_safety \<Rightarrow> function_safety \<Rightarrow> function_safety" where
  "without self other = self AND NOT other"

definition is_safe :: "function_safety \<Rightarrow> bool" where
  "is_safe self \<longleftrightarrow> self = 0"

definition bitor :: "function_safety \<Rightarrow> function_safety \<Rightarrow> function_safety" where
  "bitor self rhs = self OR rhs"

lemmas concern_defs =
  Safe_def UnsafeIfImported_def UnsafeMissingDep_def Unsafe_def has_def insert_concern_def
  remove_concern_def without_def is_safe_def bitor_def

text \<open>
  The interface: \<open>flags\<close> are the single concerns, \<open>wf\<close> holds of the values the code
  can build from them.
\<close>

locale concern_set =
  fixes flags :: "'f set"
    and present :: "'s \<Rightarrow> 'f \<Rightarrow> bool"
    and none :: 's
    and add :: "'s \<Rightarrow> 's \<Rightarrow> 's"
    and drop_all :: "'s \<Rightarrow> 's \<Rightarrow> 's"
    and wf :: "'s \<Rightarrow> bool"
  assumes present_none: "f \<in> flags \<Longrightarrow> \<not> present none f"
    and present_add: "f \<in> flags \<Longrightarrow> present (add s t) f \<longleftrightarrow> present s f \<or> present t f"
    and present_drop: "f \<in> flags \<Longrightarrow> present (drop_all s t) f \<longleftrightarrow> present s f \<and> \<not> present t f"
    and wf_none: "wf none"
    and wf_add: "wf s \<Longrightarrow> wf t \<Longrightarrow> wf (add s t)"
    and wf_drop: "wf s \<Longrightarrow> wf (drop_all s t)"
    and ext: "wf s \<Longrightarrow> wf t \<Longrightarrow> (\<And>f. f \<in> flags \<Longrightarrow> present s f = present t f) \<Longrightarrow> s = t"
begin

definition concerns :: "'s \<Rightarrow> 'f set" where
  "concerns s = {f \<in> flags. present s f}"

lemma concerns_add: "concerns (add s t) = concerns s \<union> concerns t"
  by (auto simp: concerns_def present_add)

lemma concerns_drop: "concerns (drop_all s t) = concerns s - concerns t"
  by (auto simp: concerns_def present_drop)

lemma concerns_none: "concerns none = {}"
  by (auto simp: concerns_def present_none)

lemma concerns_inject: "wf s \<Longrightarrow> wf t \<Longrightarrow> concerns s = concerns t \<longleftrightarrow> s = t"
  by (auto simp: concerns_def intro: ext)

lemma none_iff: "wf s \<Longrightarrow> s = none \<longleftrightarrow> concerns s = {}"
  using concerns_inject [OF _ wf_none] by (simp add: concerns_none)

lemma add_none: "wf s \<Longrightarrow> add s none = s"
  by (subst concerns_inject [symmetric])
    (auto simp: wf_add wf_none concerns_add concerns_none)

lemma add_commute: "wf s \<Longrightarrow> wf t \<Longrightarrow> add s t = add t s"
  by (subst concerns_inject [symmetric]) (auto simp: wf_add concerns_add)

lemma add_absorb: "wf s \<Longrightarrow> wf t \<Longrightarrow> add (add s t) t = add s t"
  by (subst concerns_inject [symmetric]) (auto simp: wf_add concerns_add)

lemma add_unchanged_iff: "wf s \<Longrightarrow> wf t \<Longrightarrow> add s t = s \<longleftrightarrow> concerns t \<subseteq> concerns s"
  by (subst concerns_inject [symmetric]) (auto simp: wf_add concerns_add)

lemma drop_add_cancel:
  "wf s \<Longrightarrow> wf t \<Longrightarrow> concerns s \<inter> concerns t = {} \<Longrightarrow> drop_all (add s t) t = s"
  by (subst concerns_inject [symmetric]) (auto simp: wf_add wf_drop concerns_add concerns_drop)

lemma none_after_drop_iff: "wf s \<Longrightarrow> drop_all s t = none \<longleftrightarrow> concerns s \<subseteq> concerns t"
  by (auto simp: none_iff wf_drop concerns_drop)

end

definition concern_flags :: "function_safety set" where
  "concern_flags = {UnsafeIfImported, UnsafeMissingDep, Unsafe}"

definition wf_safety :: "function_safety \<Rightarrow> bool" where
  "wf_safety s \<longleftrightarrow> drop_bit 3 s = 0"

lemma has_flag_iff [simp]:
  "has s UnsafeIfImported = bit s 0"
  "has s UnsafeMissingDep = bit s 1"
  "has s Unsafe = bit s 2"
  using and_exp_eq_0_iff_not_bit [of s 0] and_exp_eq_0_iff_not_bit [of s 1]
    and_exp_eq_0_iff_not_bit [of s 2]
  by (auto simp: concern_defs)

lemma wf_safety_iff: "wf_safety s \<longleftrightarrow> (\<forall>n<8. 3 \<le> n \<longrightarrow> \<not> bit s n)"
proof
  assume "wf_safety s"
  then have drop: "drop_bit 3 s = 0" by (simp add: wf_safety_def)
  have "bit s n \<longleftrightarrow> bit (drop_bit 3 s) (n - 3)" if "3 \<le> n" for n
    using that by (simp add: bit_drop_bit_eq)
  with drop show "\<forall>n<8. 3 \<le> n \<longrightarrow> \<not> bit s n" by simp
next
  assume none: "\<forall>n<8. 3 \<le> n \<longrightarrow> \<not> bit s n"
  have "\<not> bit s (3 + n)" for n
    using none bit_imp_le_length [of s "3 + n"] by (cases "3 + n < 8") auto
  then show "wf_safety s"
    unfolding wf_safety_def by (intro bit_word_eqI) (simp add: bit_drop_bit_eq)
qed

interpretation concern: concern_set concern_flags has Safe bitor without wf_safety
proof unfold_locales
  fix s t :: function_safety
  assume wf: "wf_safety s" "wf_safety t"
    and eq: "\<And>f. f \<in> concern_flags \<Longrightarrow> has s f = has t f"
  have bits: "bit s 0 = bit t 0" "bit s 1 = bit t 1" "bit s 2 = bit t 2"
    using eq [of UnsafeIfImported] eq [of UnsafeMissingDep] eq [of Unsafe]
    by (simp_all add: concern_flags_def)
  show "s = t"
  proof (rule bit_word_eqI)
    fix n
    assume "n < LENGTH(8)"
    then consider "n = 0" | "n = 1" | "n = 2" | "3 \<le> n" "n < 8" by fastforce
    then show "bit s n = bit t n"
      using bits wf by cases (auto simp: wf_safety_iff)
  qed
qed (auto simp: concern_flags_def wf_safety_iff Safe_def bitor_def without_def bit_simps)

section \<open>Mutated parameters\<close>

datatype param_position = Positional nat | KeywordOnly | Unresolved

record mutated_param =
  mp_name :: modname
  mp_position :: param_position

record function_safety_info =
  verdict :: function_safety
  missing_dep_callees :: "modname list"
  mutated_params :: "mutated_param list"

definition new_info :: "function_safety \<Rightarrow> function_safety_info" where
  "new_info v = \<lparr>verdict = v, missing_dep_callees = [], mutated_params = []\<rparr>"

definition unsafe_missing_dep :: "modname \<Rightarrow> function_safety_info" where
  "unsafe_missing_dep callee =
     \<lparr>verdict = UnsafeMissingDep, missing_dep_callees = [callee], mutated_params = []\<rparr>"

fun extend_mutated_params :: "mutated_param list \<Rightarrow> mutated_param list \<Rightarrow> mutated_param list" where
  "extend_mutated_params existing [] = existing"
| "extend_mutated_params existing (param # params) =
     extend_mutated_params
       (if list_ex (\<lambda>e. mp_name e = mp_name param) existing then existing
        else existing @ [param]) params"

text \<open>
  \<open>merge_ref\<close> returns the new value of \<open>self\<close> and whether it changed, judged as the code
  judges it: by the verdict and by the sizes of the two collections before and after.
\<close>

definition merge_ref ::
  "function_safety_info \<Rightarrow> function_safety_info \<Rightarrow> function_safety_info \<times> bool" where
  "merge_ref self other =
     (let self' = self\<lparr>verdict := insert_concern (verdict self) (verdict other),
                       missing_dep_callees :=
                         small_extend (missing_dep_callees self) (missing_dep_callees other),
                       mutated_params :=
                         extend_mutated_params (mutated_params self) (mutated_params other)\<rparr>
      in (self', verdict self' \<noteq> verdict self \<or>
                 length (missing_dep_callees self') \<noteq> length (missing_dep_callees self) \<or>
                 length (mutated_params self') \<noteq> length (mutated_params self)))"

definition merge_info ::
  "function_safety_info \<Rightarrow> function_safety_info \<Rightarrow> function_safety_info \<times> bool" where
  "merge_info self other = merge_ref self other"

lemma extend_mutated_params_prefix:
  "\<exists>new. extend_mutated_params ps qs = ps @ new \<and> set new \<subseteq> set qs"
proof (induction ps qs rule: extend_mutated_params.induct)
  case (2 existing param params)
  let ?e = "if list_ex (\<lambda>e. mp_name e = mp_name param) existing then existing
    else existing @ [param]"
  obtain new where "extend_mutated_params ?e params = ?e @ new" "set new \<subseteq> set params"
    using "2.IH" by blast
  then show ?case by (cases "list_ex (\<lambda>e. mp_name e = mp_name param) existing") auto
qed simp

lemma extend_mutated_params_names:
  "mp_name ` set (extend_mutated_params ps qs) = mp_name ` set ps \<union> mp_name ` set qs"
proof (induction ps qs rule: extend_mutated_params.induct)
  case (2 existing param params)
  show ?case
    by (simp only: extend_mutated_params.simps "2.IH") (auto simp: list_ex_iff rev_image_eqI)
qed simp

lemma extend_mutated_params_distinct:
  "distinct (map mp_name ps) \<Longrightarrow> distinct (map mp_name (extend_mutated_params ps qs))"
proof (induction ps qs rule: extend_mutated_params.induct)
  case (2 existing param params)
  show ?case
    unfolding extend_mutated_params.simps
    by (rule "2.IH") (use "2.prems" in \<open>auto simp: list_ex_iff\<close>)
qed simp

lemma extend_mutated_params_absorb:
  "mp_name ` set qs \<subseteq> mp_name ` set ps \<Longrightarrow> extend_mutated_params ps qs = ps"
proof (induction ps qs rule: extend_mutated_params.induct)
  case (2 existing param params)
  then have "list_ex (\<lambda>e. mp_name e = mp_name param) existing"
    by (auto simp: list_ex_iff)
  with 2 show ?case by simp
qed simp

lemmas merge_ref_simps =
  merge_ref_def Let_def insert_concern_def

text \<open>What one record says at least as much as another: concerns, waiting callees, mutated names.\<close>

definition info_below :: "function_safety_info \<Rightarrow> function_safety_info \<Rightarrow> bool" where
  "info_below a b \<longleftrightarrow>
     verdict b OR verdict a = verdict b \<and>
     set (missing_dep_callees a) \<subseteq> set (missing_dep_callees b) \<and>
     mp_name ` set (mutated_params a) \<subseteq> mp_name ` set (mutated_params b)"

lemma merge_ref_parts:
  "verdict (fst (merge_ref a b)) = verdict a OR verdict b"
  "missing_dep_callees (fst (merge_ref a b)) =
     small_extend (missing_dep_callees a) (missing_dep_callees b)"
  "mutated_params (fst (merge_ref a b)) =
     extend_mutated_params (mutated_params a) (mutated_params b)"
  by (simp_all add: merge_ref_simps)

lemma merge_ref_eq_iff: "fst (merge_ref a b) = a \<longleftrightarrow> info_below b a"
proof
  assume eq: "fst (merge_ref a b) = a"
  have "set (missing_dep_callees b) \<subseteq> set (missing_dep_callees a)"
    using merge_ref_parts(2) [of a b] unfolding eq by (metis set_small_extend Un_upper2)
  moreover have "mp_name ` set (mutated_params b) \<subseteq> mp_name ` set (mutated_params a)"
    using merge_ref_parts(3) [of a b] unfolding eq by (metis extend_mutated_params_names Un_upper2)
  ultimately show "info_below b a"
    using merge_ref_parts(1) [of a b] unfolding eq info_below_def by metis
next
  assume "info_below b a"
  then have "verdict a OR verdict b = verdict a"
    "small_extend (missing_dep_callees a) (missing_dep_callees b) = missing_dep_callees a"
    "extend_mutated_params (mutated_params a) (mutated_params b) = mutated_params a"
    by (auto simp: info_below_def small_extend_absorb extend_mutated_params_absorb)
  with merge_ref_parts [of a b] show "fst (merge_ref a b) = a" by simp
qed

lemma merge_ref_changed: "snd (merge_ref a b) \<longleftrightarrow> fst (merge_ref a b) \<noteq> a"
proof -
  obtain ps where ps: "extend_mutated_params (mutated_params a) (mutated_params b) = mutated_params a @ ps"
    using extend_mutated_params_prefix by blast
  obtain cs where cs: "small_extend (missing_dep_callees a) (missing_dep_callees b) = missing_dep_callees a @ cs"
    using small_extend_prefix by blast
  show ?thesis
    by (cases a) (use ps cs in \<open>auto simp: merge_ref_simps\<close>)
qed

lemma info_below_refl [simp]: "info_below a a"
  by (simp add: info_below_def)

lemma info_below_trans: "info_below a b \<Longrightarrow> info_below b c \<Longrightarrow> info_below a c"
  unfolding info_below_def by (metis or.assoc or.commute subset_trans)

lemma merge_ref_upper:
  "info_below a (fst (merge_ref a b))" "info_below b (fst (merge_ref a b))"
  by (auto simp: info_below_def merge_ref_parts extend_mutated_params_names or.assoc or.left_commute
      or.commute [of _ "verdict a"])

lemma merge_ref_least:
  "info_below a c \<Longrightarrow> info_below b c \<Longrightarrow> info_below (fst (merge_ref a b)) c"
  unfolding info_below_def merge_ref_parts set_small_extend extend_mutated_params_names
  by (auto simp: or.assoc [symmetric])

text \<open>
  Merging one function's record into another gives their least upper bound in what they say,
  and the flag that drives the worklists is set exactly when the other record said something new.
\<close>
theorem merge_ref_exact:
  "(info_below (fst (merge_ref a b)) c \<longleftrightarrow> info_below a c \<and> info_below b c) \<and>
   (snd (merge_ref a b) \<longleftrightarrow> \<not> info_below b a)"
  using merge_ref_upper merge_ref_least info_below_trans merge_ref_changed merge_ref_eq_iff by metis

end
