(* ===== verification/Effects.thy ===== *)
theory Effects
  imports Cursor Function_Safety
begin

text \<open>
  The effects of \<open>src/effects.rs\<close>: the kinds with their wire names, the arguments of a call
  that carry imported variables (positions in a 64-bit mask, as in the code), the data of a call,
  and the table of effects per scope. The hash map of the table is a partial function from scope
  names; the vector of a scope keeps its order.
\<close>

section \<open>Kinds\<close>

datatype effect_kind =
    GlobalVarAssign | ClassVarAssign | GlobalVarMutation | DecoratorCall
  | ImportedDecoratorCall | ImplicitImport | ImportedVarMutation | ImportedFunctionCall
  | ImportedTypeAttr | UnconfirmedTypeAttr | MethodCall | UnboundMethodCall
  | SuperMethodCall | ParamMethodCall | FunctionCall | ClassCreation
  | ProhibitedFunctionCall | UnknownDecoratorCall | UnknownFunctionCall | UnknownMethodCall
  | UnknownValueBinaryOp | UnknownObject | Raise | SetAttr | SetSubscript
  | CustomFinalizer | ExecCall | SysModulesAccess | SubclassesAccess
  | BuiltinsImportOverride | ImportedVarArgument | ImportedVarReassignment
  | NoEffects | UnknownEffects | UnsafeEffect | Mutation | Dunder | TooManyArgs

text \<open>
  The names under \<open>serde(rename_all = "kebab-case")\<close>, in the order of the variants. The
  variant \<open>Unsafe\<close> is called \<^const>\<open>UnsafeEffect\<close> here, because \<open>Unsafe\<close> is the
  concern of the same name.
\<close>

definition kind_names :: "(effect_kind \<times> string) list" where
  "kind_names =
    [(GlobalVarAssign, ''global-var-assign''),
     (ClassVarAssign, ''class-var-assign''),
     (GlobalVarMutation, ''global-var-mutation''),
     (DecoratorCall, ''decorator-call''),
     (ImportedDecoratorCall, ''imported-decorator-call''),
     (ImplicitImport, ''implicit-import''),
     (ImportedVarMutation, ''imported-var-mutation''),
     (ImportedFunctionCall, ''imported-function-call''),
     (ImportedTypeAttr, ''imported-type-attr''),
     (UnconfirmedTypeAttr, ''unconfirmed-type-attr''),
     (MethodCall, ''method-call''),
     (UnboundMethodCall, ''unbound-method-call''),
     (SuperMethodCall, ''super-method-call''),
     (ParamMethodCall, ''param-method-call''),
     (FunctionCall, ''function-call''),
     (ClassCreation, ''class-creation''),
     (ProhibitedFunctionCall, ''prohibited-function-call''),
     (UnknownDecoratorCall, ''unknown-decorator-call''),
     (UnknownFunctionCall, ''unknown-function-call''),
     (UnknownMethodCall, ''unknown-method-call''),
     (UnknownValueBinaryOp, ''unknown-value-binary-op''),
     (UnknownObject, ''unknown-object''),
     (Raise, ''raise''),
     (SetAttr, ''set-attr''),
     (SetSubscript, ''set-subscript''),
     (CustomFinalizer, ''custom-finalizer''),
     (ExecCall, ''exec-call''),
     (SysModulesAccess, ''sys-modules-access''),
     (SubclassesAccess, ''subclasses-access''),
     (BuiltinsImportOverride, ''builtins-import-override''),
     (ImportedVarArgument, ''imported-var-argument''),
     (ImportedVarReassignment, ''imported-var-reassignment''),
     (NoEffects, ''no-effects''),
     (UnknownEffects, ''unknown-effects''),
     (UnsafeEffect, ''unsafe''),
     (Mutation, ''mutation''),
     (Dunder, ''dunder''),
     (TooManyArgs, ''too-many-args'')]"

definition kind_string :: "effect_kind \<Rightarrow> string" where
  "kind_string k = the (map_of kind_names k)"

definition kind_from_str :: "string \<Rightarrow> effect_kind option" where
  "kind_from_str s = map_option fst (find_first (\<lambda>(k, n). n = s) kind_names)"

definition is_runnable :: "effect_kind \<Rightarrow> bool" where
  "is_runnable k \<longleftrightarrow>
     k = FunctionCall \<or> k = ImportedFunctionCall \<or> k = ClassCreation \<or> k = DecoratorCall \<or>
     k = ImportedDecoratorCall \<or> k = MethodCall \<or> k = UnboundMethodCall \<or> k = SuperMethodCall"

definition is_unsafe_stub_effect :: "effect_kind \<Rightarrow> bool" where
  "is_unsafe_stub_effect k \<longleftrightarrow> k = UnknownEffects \<or> k = UnsafeEffect \<or> k = Mutation"

datatype call_kind = CallFunction | CallMethod | CallDecorator

fun unknown_call_effect :: "call_kind \<Rightarrow> effect_kind" where
  "unknown_call_effect CallFunction = UnknownFunctionCall"
| "unknown_call_effect CallMethod = UnknownMethodCall"
| "unknown_call_effect CallDecorator = UnknownDecoratorCall"

lemma kind_names_total: "k \<in> set (map fst kind_names)"
  by (cases k) (simp_all add: kind_names_def)

lemma distinct_kinds: "distinct (map fst kind_names)"
  by code_simp

lemma distinct_kind_strings: "distinct (map snd kind_names)"
  by code_simp

lemma find_first_snd:
  "distinct (map snd xs) \<Longrightarrow> (k, n) \<in> set xs \<Longrightarrow>
     find_first (\<lambda>(k, m). m = n) xs = Some (k, n)"
  by (induction xs) (auto simp: rev_image_eqI)

lemma kind_string_in: "(k, kind_string k) \<in> set kind_names"
proof -
  obtain n where "(k, n) \<in> set kind_names" using kind_names_total [of k] by auto
  with distinct_kinds show ?thesis by (simp add: kind_string_def)
qed

lemma kind_from_kind_string: "kind_from_str (kind_string k) = Some k"
  by (simp add: kind_from_str_def find_first_snd [OF distinct_kind_strings kind_string_in])

lemma kind_string_from_str: "kind_from_str s = Some k \<Longrightarrow> kind_string k = s"
  using distinct_kinds
  by (auto simp: kind_from_str_def kind_string_def dest!: find_first_SomeD)

section \<open>Imported arguments of a call\<close>

datatype arg_slot =
    SlotPositional nat
  | SlotKeyword modname
  | SlotStarExpansion nat

definition MAX_ARGS :: nat where
  "MAX_ARGS = 64"

record imported_args =
  unsafe_arg_indices :: "64 word"
  unsafe_keyword_names :: "modname list"
  has_unsafe_kwargs_expansion :: bool
  unsafe_args_expansion_min :: "nat option"

definition default_imported_args :: imported_args where
  "default_imported_args =
     \<lparr>unsafe_arg_indices = 0, unsafe_keyword_names = [],
      has_unsafe_kwargs_expansion = False, unsafe_args_expansion_min = None\<rparr>"

definition has_unsafe_arg_index :: "imported_args \<Rightarrow> nat \<Rightarrow> bool" where
  "has_unsafe_arg_index a idx \<longleftrightarrow>
     (case unsafe_args_expansion_min a of None \<Rightarrow> False | Some m \<Rightarrow> m \<le> idx) \<or>
     (idx < MAX_ARGS \<and> unsafe_arg_indices a AND push_bit idx 1 \<noteq> 0)"

definition has_unsafe_keywords :: "imported_args \<Rightarrow> bool" where
  "has_unsafe_keywords a \<longleftrightarrow> unsafe_keyword_names a \<noteq> [] \<or> has_unsafe_kwargs_expansion a"

definition has_unsafe_keyword :: "imported_args \<Rightarrow> string \<Rightarrow> bool" where
  "has_unsafe_keyword a name \<longleftrightarrow>
     has_unsafe_kwargs_expansion a \<or> list_ex (\<lambda>kw. kw = name) (unsafe_keyword_names a)"

definition has_precise_keyword_tracking :: "imported_args \<Rightarrow> bool" where
  "has_precise_keyword_tracking a \<longleftrightarrow> \<not> has_unsafe_kwargs_expansion a"

definition has_precise_arg_tracking :: "imported_args \<Rightarrow> bool" where
  "has_precise_arg_tracking a \<longleftrightarrow> unsafe_args_expansion_min a = None"

definition has_any_tracked_args :: "imported_args \<Rightarrow> bool" where
  "has_any_tracked_args a \<longleftrightarrow>
     unsafe_arg_indices a \<noteq> 0 \<or> unsafe_keyword_names a \<noteq> [] \<or>
     has_unsafe_kwargs_expansion a \<or> unsafe_args_expansion_min a \<noteq> None"

definition checked_sub :: "nat \<Rightarrow> nat \<Rightarrow> nat option" where
  "checked_sub m n = (if n \<le> m then Some (m - n) else None)"

definition hits_param :: "imported_args \<Rightarrow> string \<Rightarrow> param_position \<Rightarrow> nat \<Rightarrow> bool" where
  "hits_param a param_name pos arg_offset =
     (if pos = Unresolved then has_any_tracked_args a
      else
        let resolved_idx =
              (case pos of Positional idx \<Rightarrow> checked_sub idx arg_offset | _ \<Rightarrow> None) in
        if (case resolved_idx of Some arg_idx \<Rightarrow> has_unsafe_arg_index a arg_idx | None \<Rightarrow> False)
        then True
        else if has_unsafe_keyword a param_name then True
        else if has_unsafe_keywords a \<and> has_precise_keyword_tracking a \<and>
                has_precise_arg_tracking a
        then False
        else (resolved_idx = None \<and> \<not> has_precise_arg_tracking a) \<or>
             \<not> has_any_tracked_args a)"

definition hits_any_param :: "imported_args \<Rightarrow> (string \<times> param_position) list \<Rightarrow> nat \<Rightarrow> bool" where
  "hits_any_param a params arg_offset =
     list_ex (\<lambda>(name, pos). hits_param a name pos arg_offset) params"

section \<open>Call data and effects\<close>

record call_data =
  has_unsafe_args :: bool
  imported_args :: imported_args
  forwarded_params :: "(arg_slot \<times> modname) list"

definition new_call_data :: "bool \<Rightarrow> 64 word \<Rightarrow> modname list \<Rightarrow> bool \<Rightarrow> call_data" where
  "new_call_data unsafe_args indices keyword_names kwargs_expansion =
     \<lparr>has_unsafe_args = unsafe_args,
      imported_args =
        \<lparr>unsafe_arg_indices = indices, unsafe_keyword_names = keyword_names,
         has_unsafe_kwargs_expansion = kwargs_expansion, unsafe_args_expansion_min = None\<rparr>,
      forwarded_params = []\<rparr>"

definition with_args_expansion :: "nat option \<Rightarrow> call_data \<Rightarrow> call_data" where
  "with_args_expansion m d =
     d\<lparr>imported_args := (imported_args d)\<lparr>unsafe_args_expansion_min := m\<rparr>\<rparr>"

definition with_forwarded_params :: "(arg_slot \<times> modname) list \<Rightarrow> call_data \<Rightarrow> call_data" where
  "with_forwarded_params ps d = d\<lparr>forwarded_params := ps\<rparr>"

definition empty_call_data :: call_data where
  "empty_call_data =
     \<lparr>has_unsafe_args = False, imported_args = default_imported_args, forwarded_params = []\<rparr>"

definition has_forwarded_params :: "call_data \<Rightarrow> bool" where
  "has_forwarded_params d \<longleftrightarrow> forwarded_params d \<noteq> []"

datatype effect_data = NoData | CallData call_data

definition into_effect_data :: "call_data \<Rightarrow> effect_data" where
  "into_effect_data d =
     (if has_unsafe_args d \<or> has_forwarded_params d then CallData d else NoData)"

record effect =
  eff_kind :: effect_kind
  eff_name :: modname
  eff_range :: text_range
  eff_data :: effect_data
  eff_try_handlers :: "try_handler list option"
  eff_from_main_guard :: bool

definition new_effect :: "effect_kind \<Rightarrow> modname \<Rightarrow> text_range \<Rightarrow> effect" where
  "new_effect k n r =
     \<lparr>eff_kind = k, eff_name = n, eff_range = r, eff_data = NoData, eff_try_handlers = None,
      eff_from_main_guard = False\<rparr>"

definition effect_with_data ::
  "effect_kind \<Rightarrow> modname \<Rightarrow> text_range \<Rightarrow> effect_data \<Rightarrow> effect" where
  "effect_with_data k n r d =
     \<lparr>eff_kind = k, eff_name = n, eff_range = r, eff_data = d, eff_try_handlers = None,
      eff_from_main_guard = False\<rparr>"

definition with_try_handlers :: "try_handler list \<Rightarrow> effect \<Rightarrow> effect" where
  "with_try_handlers handlers e =
     (if handlers \<noteq> [] then e\<lparr>eff_try_handlers := Some handlers\<rparr> else e)"

definition has_try_context :: "effect \<Rightarrow> bool" where
  "has_try_context e \<longleftrightarrow> eff_try_handlers e \<noteq> None"

definition effect_call_data :: "effect \<Rightarrow> call_data option" where
  "effect_call_data e = (case eff_data e of CallData d \<Rightarrow> Some d | NoData \<Rightarrow> None)"

definition try_context_catches :: "effect \<Rightarrow> modname \<Rightarrow> bool" where
  "try_context_catches e exc_name =
     (case eff_try_handlers e of
        None \<Rightarrow> False
      | Some handlers \<Rightarrow> list_ex (\<lambda>h. catches h exc_name) handlers)"

section \<open>The effect table\<close>

type_synonym effect_table = "(modname \<times> effect list) list"

definition empty_table :: effect_table where
  "empty_table = []"

definition table_is_empty :: "effect_table \<Rightarrow> bool" where
  "table_is_empty t \<longleftrightarrow> t = []"

definition table_insert :: "modname \<Rightarrow> effect \<Rightarrow> effect_table \<Rightarrow> effect_table" where
  "table_insert name e t = amap_push name e t"

definition table_get :: "effect_table \<Rightarrow> modname \<Rightarrow> effect list option" where
  "table_get t name = map_of t name"

definition table_keys :: "effect_table \<Rightarrow> modname list" where
  "table_keys t = map fst t"

text \<open>\<open>retain\<close> drops the entries the predicate refuses; \<open>merge\<close> appends entry by entry.\<close>

definition table_retain :: "(modname \<Rightarrow> effect list \<Rightarrow> bool) \<Rightarrow> effect_table \<Rightarrow> effect_table" where
  "table_retain f t = filter (\<lambda>(name, es). f name es) t"

definition table_merge :: "effect_table \<Rightarrow> effect_table \<Rightarrow> effect_table" where
  "table_merge t other = foldl (\<lambda>acc (name, es). amap_extend name es acc) t other"

text \<open>The in-place rewrite of every entry (\<open>for (_, effs) in iter_mut()\<close>).\<close>

definition table_map :: "(effect list \<Rightarrow> effect list) \<Rightarrow> effect_table \<Rightarrow> effect_table" where
  "table_map f t = map (\<lambda>(name, es). (name, f es)) t"

lemmas table_defs =
  empty_table_def table_is_empty_def table_insert_def table_get_def table_keys_def
  table_retain_def table_merge_def table_map_def amap_push_def

lemma table_merge_Nil [simp]: "table_merge t [] = t"
  by (simp add: table_defs)

lemma table_merge_Cons:
  "table_merge t ((name, es) # u) = table_merge (amap_extend name es t) u"
  by (simp add: table_defs)

lemma amap_get_merge [simp, multi_map_simps]:
  "distinct (map fst u) \<Longrightarrow> amap_get (table_merge t u) k = amap_get t k @ amap_get u k"
proof (induction u arbitrary: t)
  case (Cons e u)
  obtain name es where e: "e = (name, es)" by (cases e)
  with Cons.prems have "map_of u name = None" by (simp add: map_of_eq_None_iff)
  with Cons e show ?case by (auto simp: table_merge_Cons amap_get_def map_of_amap_extend)
qed simp

lemma keys_table_merge [simp, multi_map_simps]:
  "fst ` set (table_merge t u) = fst ` set t \<union> fst ` set u"
proof (induction u arbitrary: t)
  case (Cons e u)
  show ?case by (cases e) (simp add: table_merge_Cons Cons.IH)
qed simp

lemma distinct_table_merge [simp, multi_map_simps]:
  "distinct (map fst t) \<Longrightarrow> distinct (map fst (table_merge t u))"
  by (induction u arbitrary: t) (auto simp: table_merge_Cons)

lemma table_insert_facts [simp, multi_map_simps]:
  "amap_get (table_insert name e t) k = (if k = name then amap_get t name @ [e] else amap_get t k)"
  "fst ` set (table_insert name e t) = insert name (fst ` set t)"
  "distinct (map fst t) \<Longrightarrow> distinct (map fst (table_insert name e t))"
  by (simp_all add: table_insert_def amap_push_def)

section \<open>Facts about imported arguments\<close>

lemma has_unsafe_arg_index_bit:
  "has_unsafe_arg_index a idx \<longleftrightarrow>
     (case unsafe_args_expansion_min a of None \<Rightarrow> False | Some m \<Rightarrow> m \<le> idx) \<or>
     bit (unsafe_arg_indices a) idx"
proof -
  have "unsafe_arg_indices a AND push_bit idx 1 = 0 \<longleftrightarrow> \<not> bit (unsafe_arg_indices a) idx"
    by (simp add: push_bit_eq_mult and_exp_eq_0_iff_not_bit)
  moreover have "bit (unsafe_arg_indices a) idx \<Longrightarrow> idx < 64"
    using bit_imp_le_length [of "unsafe_arg_indices a" idx] by simp
  ultimately show ?thesis by (auto simp: has_unsafe_arg_index_def MAX_ARGS_def)
qed

lemma arg_index_tracked: "has_unsafe_arg_index a idx \<Longrightarrow> has_any_tracked_args a"
  by (auto simp: has_unsafe_arg_index_bit has_any_tracked_args_def split: option.splits)

lemma keyword_tracked: "has_unsafe_keyword a n \<Longrightarrow> has_any_tracked_args a"
  by (auto simp: has_unsafe_keyword_def has_any_tracked_args_def list_ex_iff)

text \<open>
  What an imported argument of the call can reach: the slot of the parameter once the receiver
  is taken off, the parameter's keyword, or, where the slot is not known, a star expansion.
\<close>

definition reaches_param :: "imported_args \<Rightarrow> string \<Rightarrow> param_position \<Rightarrow> nat \<Rightarrow> bool" where
  "reaches_param a param_name pos arg_offset =
     (case pos of
        Unresolved \<Rightarrow> has_any_tracked_args a
      | KeywordOnly \<Rightarrow> has_unsafe_keyword a param_name \<or> \<not> has_precise_arg_tracking a
      | Positional idx \<Rightarrow> has_unsafe_keyword a param_name \<or>
          (if arg_offset \<le> idx then has_unsafe_arg_index a (idx - arg_offset)
           else \<not> has_precise_arg_tracking a))"

lemma hits_param_tracked:
  "has_any_tracked_args a \<Longrightarrow> hits_param a n pos off = reaches_param a n pos off"
  by (cases pos)
    (auto simp: hits_param_def reaches_param_def checked_sub_def Let_def
      has_precise_arg_tracking_def has_unsafe_keywords_def has_unsafe_keyword_def
      has_precise_keyword_tracking_def)

lemma hits_param_untracked:
  "\<not> has_any_tracked_args a \<Longrightarrow> hits_param a n pos off \<longleftrightarrow> pos \<noteq> Unresolved"
  using arg_index_tracked [of a] keyword_tracked [of a]
  by (cases pos)
    (auto simp: hits_param_def checked_sub_def Let_def has_unsafe_keywords_def
      has_any_tracked_args_def split: option.splits)

text \<open>
  An imported argument of a call reaches a parameter exactly when it lands in the parameter's
  slot after the receiver is taken off, is passed by the parameter's keyword, or may land there by
  a star expansion; when the call tracked no argument, it may reach any parameter whose position
  is known. A position below the receiver never underflows.
\<close>
theorem hits_param_exact:
  "hits_param a n pos off =
     (if has_any_tracked_args a then reaches_param a n pos off else pos \<noteq> Unresolved)"
  by (simp add: hits_param_tracked hits_param_untracked)

text \<open>
  The name of an effect kind in a stub is read back as that kind, and no other text is.
\<close>
theorem kind_from_str_roundtrip: "kind_from_str s = Some k \<longleftrightarrow> s = kind_string k"
  using kind_from_kind_string kind_string_from_str by metis

end
