(* ===== verification/Ordering.thy ===== *)
theory Ordering
  imports Prelude "HOL-Library.Multiset" "HOL-Library.List_Lexorder" "HOL-Library.Char_ord"
begin

text \<open>
  Rust's \<open>Ordering\<close>, the comparison combinators the hand-written \<open>Ord\<close> instances of
  \<open>src/errors.rs\<close> and \<open>src/module_safety.rs\<close> are built from, and the stable sort. The
  locale \<open>lawful_cmp\<close> states what a sort relies on: a total preorder whose ties are the
  equality of a key. In the cache code the key is what the wire carries, and the client lemma
  \<open>sort_by_canonical\<close> says that sorting erases the order of the input from the keys.
\<close>

datatype ordering = Less | Equal | Greater

fun then_with :: "ordering \<Rightarrow> ordering \<Rightarrow> ordering" where
  "then_with Equal o2 = o2"
| "then_with o1 o2 = o1"

fun reverse_ordering :: "ordering \<Rightarrow> ordering" where
  "reverse_ordering Less = Greater"
| "reverse_ordering Equal = Equal"
| "reverse_ordering Greater = Less"

definition cmp_of :: "'a::linorder \<Rightarrow> 'a \<Rightarrow> ordering" where
  "cmp_of a b = (if a < b then Less else if a = b then Equal else Greater)"

fun cmp_list :: "('a \<Rightarrow> 'a \<Rightarrow> ordering) \<Rightarrow> 'a list \<Rightarrow> 'a list \<Rightarrow> ordering" where
  "cmp_list c [] [] = Equal"
| "cmp_list c [] (y # ys) = Less"
| "cmp_list c (x # xs) [] = Greater"
| "cmp_list c (x # xs) (y # ys) = then_with (c x y) (cmp_list c xs ys)"

fun cmp_option :: "('a \<Rightarrow> 'a \<Rightarrow> ordering) \<Rightarrow> 'a option \<Rightarrow> 'a option \<Rightarrow> ordering" where
  "cmp_option c None None = Equal"
| "cmp_option c None (Some y) = Less"
| "cmp_option c (Some x) None = Greater"
| "cmp_option c (Some x) (Some y) = c x y"

text \<open>\<open>slice::sort\<close>: stable, so an element goes before the equal ones that came after it.\<close>

fun insert_by :: "('a \<Rightarrow> 'a \<Rightarrow> ordering) \<Rightarrow> 'a \<Rightarrow> 'a list \<Rightarrow> 'a list" where
  "insert_by c x [] = [x]"
| "insert_by c x (y # ys) = (if c x y = Greater then y # insert_by c x ys else x # y # ys)"

definition sort_by :: "('a \<Rightarrow> 'a \<Rightarrow> ordering) \<Rightarrow> 'a list \<Rightarrow> 'a list" where
  "sort_by c xs = foldr (insert_by c) xs []"

lemma mset_insert_by [simp]: "mset (insert_by c x ys) = add_mset x (mset ys)"
  by (induction ys) auto

lemma mset_sort_by [simp]: "mset (sort_by c xs) = mset xs"
  by (induction xs) (auto simp: sort_by_def)

lemma set_sort_by [simp]: "set (sort_by c xs) = set xs"
  by (metis mset_sort_by set_mset_mset)

section \<open>The contract of a comparison\<close>

locale lawful_cmp =
  fixes cmp :: "'a \<Rightarrow> 'a \<Rightarrow> ordering"
    and key :: "'a \<Rightarrow> 'k"
  assumes equal_iff: "cmp a b = Equal \<longleftrightarrow> key a = key b"
    and swap: "cmp b a = reverse_ordering (cmp a b)"
    and less_trans: "cmp a b = Less \<Longrightarrow> cmp b c = Less \<Longrightarrow> cmp a c = Less"
begin

lemma cmp_refl: "cmp a a = Equal"
  by (simp add: equal_iff)

lemma greater_iff: "cmp a b = Greater \<longleftrightarrow> cmp b a = Less"
  by (subst swap) (cases "cmp b a"; simp)

lemma equal_sym: "cmp a b = Equal \<longleftrightarrow> cmp b a = Equal"
  by (auto simp: equal_iff)

lemma equal_less:
  assumes "cmp a b = Equal" "cmp b c = Less"
  shows "cmp a c = Less"
proof (cases "cmp a c")
  case Equal
  with assms have "cmp b c = Equal" by (metis equal_iff)
  with assms show ?thesis by simp
next
  case Greater
  then have "cmp b a = Less" using assms(2) less_trans by (simp add: greater_iff)
  with assms(1) equal_sym [of a b] show ?thesis by simp
qed simp

lemma less_equal:
  assumes "cmp a b = Less" "cmp b c = Equal"
  shows "cmp a c = Less"
proof (cases "cmp a c")
  case Equal
  with assms have "cmp a b = Equal" by (metis equal_iff)
  with assms show ?thesis by simp
next
  case Greater
  then have "cmp c b = Less" using assms(1) less_trans by (simp add: greater_iff)
  with assms(2) equal_sym [of b c] show ?thesis by simp
qed simp

lemma le_trans:
  assumes "cmp a b \<noteq> Greater" "cmp b c \<noteq> Greater"
  shows "cmp a c \<noteq> Greater"
proof
  assume "cmp a c = Greater"
  then have ca: "cmp c a = Less" by (simp add: greater_iff)
  show False
  proof (cases "cmp b c")
    case Less
    then have "cmp b a = Less" using ca by (rule less_trans)
    with assms(1) show False by (simp add: greater_iff)
  next
    case Equal
    then have "cmp b a = Less" using ca by (rule equal_less)
    with assms(1) show False by (simp add: greater_iff)
  next
    case Greater
    with assms(2) show False by simp
  qed
qed

definition ascending :: "'a list \<Rightarrow> bool" where
  "ascending xs \<longleftrightarrow> sorted_wrt (\<lambda>x y. cmp x y \<noteq> Greater) xs"

lemma ascending_insert_by: "ascending ys \<Longrightarrow> ascending (insert_by cmp x ys)"
proof (induction ys)
  case (Cons y ys)
  have set_ins: "set (insert_by cmp x ys) = insert x (set ys)"
    by (metis mset_insert_by set_mset_add_mset_insert set_mset_mset)
  show ?case
  proof (cases "cmp x y = Greater")
    case True
    then have "cmp y x \<noteq> Greater" by (simp add: greater_iff)
    with Cons True set_ins show ?thesis by (auto simp: ascending_def)
  next
    case False
    with Cons.prems show ?thesis by (auto simp: ascending_def dest: le_trans [OF False])
  qed
qed (simp add: ascending_def)

lemma ascending_sort_by: "ascending (sort_by cmp xs)"
  by (induction xs)
    (auto simp: sort_by_def ascending_insert_by, simp add: ascending_def)

lemma ascending_keys_unique:
  "ascending xs \<Longrightarrow> ascending ys \<Longrightarrow> image_mset key (mset xs) = image_mset key (mset ys) \<Longrightarrow>
     map key xs = map key ys"
proof (induction xs arbitrary: ys)
  case (Cons x xs)
  then obtain y ys' where ys: "ys = y # ys'" by (cases ys) auto
  have "key x \<in> key ` set ys"
    using Cons.prems(3) by (metis list.set_intros(1) image_eqI set_image_mset set_mset_mset)
  then obtain y' where y': "y' \<in> set ys" "key y' = key x" by auto
  have "key y \<in> key ` set (x # xs)"
    using Cons.prems(3) ys by (metis list.set_intros(1) image_eqI set_image_mset set_mset_mset)
  then obtain x' where x': "x' \<in> set (x # xs)" "key x' = key y" by (metis imageE)
  have "cmp y y' \<noteq> Greater"
    using Cons.prems(2) ys y' by (auto simp: ascending_def cmp_refl)
  moreover have "cmp x x' \<noteq> Greater"
    using Cons.prems(1) x' by (auto simp: ascending_def cmp_refl)
  moreover have "cmp y' x = Equal" "cmp x' y = Equal"
    using x' y' by (simp_all add: equal_iff)
  ultimately have "cmp y x \<noteq> Greater" "cmp x y \<noteq> Greater"
    using le_trans by (metis ordering.distinct(5))+
  then have "cmp x y = Equal"
    by (metis greater_iff ordering.exhaust)
  then have eq: "key x = key y" by (simp add: equal_iff)
  have "map key xs = map key ys'"
    using Cons.prems ys eq by (intro Cons.IH) (auto simp: ascending_def)
  with ys eq show ?case by simp
qed simp

lemma sort_by_canonical:
  "image_mset key (mset xs) = image_mset key (mset ys) \<Longrightarrow>
     map key (sort_by cmp xs) = map key (sort_by cmp ys)"
  by (rule ascending_keys_unique) (simp_all add: ascending_sort_by)

end

section \<open>Lawful comparisons\<close>

text \<open>The provider side: the combinators keep the contract.\<close>

interpretation cmp_of: lawful_cmp "cmp_of :: 'a::linorder \<Rightarrow> 'a \<Rightarrow> ordering" "\<lambda>a. a"
  by unfold_locales (auto simp: cmp_of_def split: if_splits)

lemma lawful_comap:
  assumes "lawful_cmp c k"
  shows "lawful_cmp (\<lambda>a b. c (f a) (f b)) (\<lambda>a. k (f a))"
  using assms unfolding lawful_cmp_def by blast

lemma then_with_Equal [simp]: "then_with o1 o2 = Equal \<longleftrightarrow> o1 = Equal \<and> o2 = Equal"
  by (cases o1) auto

lemma then_with_Less: "then_with o1 o2 = Less \<longleftrightarrow> o1 = Less \<or> o1 = Equal \<and> o2 = Less"
  by (cases o1) auto

lemma reverse_then_with:
  "reverse_ordering (then_with o1 o2) = then_with (reverse_ordering o1) (reverse_ordering o2)"
  by (cases o1) auto

lemma lawful_then_with:
  assumes "lawful_cmp c k" "lawful_cmp d l"
  shows "lawful_cmp (\<lambda>a b. then_with (c a b) (d a b)) (\<lambda>a. (k a, l a))"
proof
  note c = assms(1) and d = assms(2)
  fix a b e
  show "then_with (c a b) (d a b) = Equal \<longleftrightarrow> (k a, l a) = (k b, l b)"
    by (simp add: lawful_cmp.equal_iff [OF c] lawful_cmp.equal_iff [OF d])
  show "then_with (c b a) (d b a) = reverse_ordering (then_with (c a b) (d a b))"
    by (simp add: reverse_then_with lawful_cmp.swap [OF c, of b a] lawful_cmp.swap [OF d, of b a])
  assume "then_with (c a b) (d a b) = Less" "then_with (c b e) (d b e) = Less"
  then show "then_with (c a e) (d a e) = Less"
    by (auto simp: then_with_Less intro: lawful_cmp.less_trans [OF c] lawful_cmp.less_trans [OF d]
        lawful_cmp.equal_less [OF c] lawful_cmp.less_equal [OF c])
      (auto simp: lawful_cmp.equal_iff [OF c])
qed

end
