(* ===== verification/Errors.thy ===== *)
theory Errors
  imports Effects Ordering
begin

text \<open>
  Safety errors (\<open>src/errors.rs\<close>): the kinds in their derived order, the conversion of an
  effect into an error, and the wire form a cache carries. The metadata of an error is an
  interned string, modelled by its text; the order of two interned strings is a parameter
  (\<open>mcmp\<close>), because the interner is not part of the repository.
\<close>

section \<open>Kinds\<close>

datatype error_kind =
    UnsafeDecoratorCall | UnsafeFunctionCall | UnsafeMethodCall | ProhibitedCall
  | UnknownDecoratorCallError | UnknownFunctionCallError | UnknownMethodCallError
  | UnknownObjectError | UnhandledException | CustomFinalizerError | ExecCallError
  | SysModulesAccessError | SubclassesAccessError | ImportedModuleAssignment
  | ImportedVarArgumentError | UnknownEffectsError | TooManyArgsError
  | BuiltinsImportOverrideError | NamesOnlyInStub | SubclassRegistration

text \<open>
  Variants that share their name with an effect kind carry the suffix \<open>Error\<close>. The derived
  \<open>Ord\<close> compares the positions of the variants.
\<close>

definition error_kinds :: "error_kind list" where
  "error_kinds =
    [UnsafeDecoratorCall, UnsafeFunctionCall, UnsafeMethodCall, ProhibitedCall,
     UnknownDecoratorCallError, UnknownFunctionCallError, UnknownMethodCallError,
     UnknownObjectError, UnhandledException, CustomFinalizerError, ExecCallError,
     SysModulesAccessError, SubclassesAccessError, ImportedModuleAssignment,
     ImportedVarArgumentError, UnknownEffectsError, TooManyArgsError,
     BuiltinsImportOverrideError, NamesOnlyInStub, SubclassRegistration]"

fun index_of :: "'a \<Rightarrow> 'a list \<Rightarrow> nat" where
  "index_of x [] = 0"
| "index_of x (y # ys) = (if x = y then 0 else Suc (index_of x ys))"

lemma nth_index_of: "x \<in> set xs \<Longrightarrow> xs ! index_of x xs = x"
  by (induction xs) auto

lemma error_kinds_total: "k \<in> set error_kinds"
  by (cases k) (simp_all add: error_kinds_def)

definition error_index :: "error_kind \<Rightarrow> nat" where
  "error_index k = index_of k error_kinds"

lemma error_index_inject: "error_index k = error_index l \<longleftrightarrow> k = l"
  by (metis error_index_def error_kinds_total nth_index_of)

instantiation error_kind :: linorder
begin

definition less_eq_error_kind :: "error_kind \<Rightarrow> error_kind \<Rightarrow> bool" where
  "less_eq_error_kind k l \<longleftrightarrow> error_index k \<le> error_index l"

definition less_error_kind :: "error_kind \<Rightarrow> error_kind \<Rightarrow> bool" where
  "less_error_kind k l \<longleftrightarrow> error_index k < error_index l"

instance
  by standard
    (auto simp: less_eq_error_kind_def less_error_kind_def error_index_inject
      simp flip: error_index_inject)

end

definition requires_eager_loading_imports :: "error_kind \<Rightarrow> bool" where
  "requires_eager_loading_imports k \<longleftrightarrow>
     k = CustomFinalizerError \<or> k = ExecCallError \<or> k = SysModulesAccessError \<or>
     k = SubclassesAccessError \<or> k = BuiltinsImportOverrideError \<or> k = NamesOnlyInStub"

definition could_be_caused_by_missing_import :: "error_kind \<Rightarrow> bool" where
  "could_be_caused_by_missing_import k \<longleftrightarrow>
     k = UnknownFunctionCallError \<or> k = UnknownMethodCallError \<or> k = UnknownDecoratorCallError \<or>
     k = UnknownObjectError \<or> k = UnsafeFunctionCall \<or> k = UnsafeMethodCall \<or>
     k = UnsafeDecoratorCall"

section \<open>Errors and their construction\<close>

record safety_error =
  err_kind :: error_kind
  err_metadata :: string
  err_range :: text_range
  parameterized_decorator :: bool
  err_from_main_guard :: bool

definition is_decorator_call :: "safety_error \<Rightarrow> bool" where
  "is_decorator_call e \<longleftrightarrow>
     err_kind e = UnsafeDecoratorCall \<or> err_kind e = UnknownDecoratorCallError"

definition new_error :: "error_kind \<Rightarrow> string \<Rightarrow> text_range \<Rightarrow> safety_error" where
  "new_error k metadata r =
     \<lparr>err_kind = k, err_metadata = metadata, err_range = r, parameterized_decorator = False,
      err_from_main_guard = False\<rparr>"

definition from_main_guard :: "safety_error \<Rightarrow> safety_error" where
  "from_main_guard e = e\<lparr>err_from_main_guard := True\<rparr>"

definition is_parameterized_decorator_effect :: "effect \<Rightarrow> bool" where
  "is_parameterized_decorator_effect e \<longleftrightarrow>
     (eff_kind e = DecoratorCall \<or> eff_kind e = ImportedDecoratorCall) \<and>
     (case eff_data e of CallData _ \<Rightarrow> True | NoData \<Rightarrow> False)"

definition new_from_effect :: "error_kind \<Rightarrow> effect \<Rightarrow> safety_error" where
  "new_from_effect k e =
     \<lparr>err_kind = k, err_metadata = eff_name e, err_range = eff_range e,
      parameterized_decorator = is_parameterized_decorator_effect e,
      err_from_main_guard = eff_from_main_guard e\<rparr>"

fun error_kind_for :: "effect_kind \<Rightarrow> error_kind option" where
  "error_kind_for ProhibitedFunctionCall = Some ProhibitedCall"
| "error_kind_for UnknownFunctionCall = Some UnknownFunctionCallError"
| "error_kind_for Raise = Some UnhandledException"
| "error_kind_for CustomFinalizer = Some CustomFinalizerError"
| "error_kind_for ExecCall = Some ExecCallError"
| "error_kind_for SysModulesAccess = Some SysModulesAccessError"
| "error_kind_for SubclassesAccess = Some SubclassesAccessError"
| "error_kind_for BuiltinsImportOverride = Some BuiltinsImportOverrideError"
| "error_kind_for UnknownDecoratorCall = Some UnknownDecoratorCallError"
| "error_kind_for UnknownEffects = Some UnknownEffectsError"
| "error_kind_for UnknownObject = Some UnknownObjectError"
| "error_kind_for UnsafeEffect = Some UnsafeFunctionCall"
| "error_kind_for TooManyArgs = Some TooManyArgsError"
| "error_kind_for _ = None"

definition from_effect :: "effect \<Rightarrow> safety_error option" where
  "from_effect e = map_option (\<lambda>k. new_from_effect k e) (error_kind_for (eff_kind e))"

datatype call_error = UnexpectedCallEffect effect

definition from_unsafe_call :: "effect \<Rightarrow> call_error + safety_error" where
  "from_unsafe_call e =
     (if eff_kind e = DecoratorCall \<or> eff_kind e = ImportedDecoratorCall
        then Inr (new_from_effect UnsafeDecoratorCall e)
      else if eff_kind e = FunctionCall \<or> eff_kind e = ImportedFunctionCall \<or>
              eff_kind e = ClassCreation
        then Inr (new_from_effect UnsafeFunctionCall e)
      else if eff_kind e = MethodCall \<or> eff_kind e = UnboundMethodCall \<or>
              eff_kind e = SuperMethodCall \<or> eff_kind e = ImportedTypeAttr
        then Inr (new_from_effect UnsafeMethodCall e)
      else Inl (UnexpectedCallEffect e))"

section \<open>The wire form and the order\<close>

record serialized_safety_error =
  ser_kind :: error_kind
  ser_metadata :: string
  ser_parameterized_decorator :: bool
  ser_from_main_guard :: bool

definition default_range :: text_range where
  "default_range = (0, 0)"

definition serialize_error :: "safety_error \<Rightarrow> serialized_safety_error" where
  "serialize_error e =
     \<lparr>ser_kind = err_kind e, ser_metadata = err_metadata e,
      ser_parameterized_decorator = parameterized_decorator e,
      ser_from_main_guard = err_from_main_guard e\<rparr>"

definition deserialize_error :: "serialized_safety_error \<Rightarrow> safety_error" where
  "deserialize_error w =
     \<lparr>err_kind = ser_kind w, err_metadata = ser_metadata w, err_range = default_range,
      parameterized_decorator = ser_parameterized_decorator w,
      err_from_main_guard = ser_from_main_guard w\<rparr>"

definition error_cmp ::
  "(string \<Rightarrow> string \<Rightarrow> ordering) \<Rightarrow> safety_error \<Rightarrow> safety_error \<Rightarrow> ordering" where
  "error_cmp mcmp a b =
     then_with (then_with (then_with
       (cmp_of (err_kind a) (err_kind b))
       (mcmp (err_metadata a) (err_metadata b)))
       (cmp_of (parameterized_decorator a) (parameterized_decorator b)))
       (cmp_of (err_from_main_guard a) (err_from_main_guard b))"

definition error_eq :: "(string \<Rightarrow> string \<Rightarrow> ordering) \<Rightarrow> safety_error \<Rightarrow> safety_error \<Rightarrow> bool" where
  "error_eq mcmp a b \<longleftrightarrow> error_cmp mcmp a b = Equal"

section \<open>Facts\<close>

lemma error_kind_for_runnable: "is_runnable k \<Longrightarrow> error_kind_for k = None"
  by (cases k) (simp_all add: is_runnable_def)

lemma from_unsafe_call_defined:
  "(\<exists>s. from_unsafe_call e = Inr s) \<longleftrightarrow> is_runnable (eff_kind e) \<or> eff_kind e = ImportedTypeAttr"
  by (auto simp: from_unsafe_call_def is_runnable_def)

lemma serialize_deserialize: "serialize_error (deserialize_error w) = w"
  by (simp add: serialize_error_def deserialize_error_def)

lemma deserialize_serialize:
  "deserialize_error (serialize_error e) = e\<lparr>err_range := default_range\<rparr>"
  by (simp add: serialize_error_def deserialize_error_def)

lemma error_cmp_range:
  "error_cmp mcmp (a\<lparr>err_range := r\<rparr>) (b\<lparr>err_range := s\<rparr>) = error_cmp mcmp a b"
  by (simp add: error_cmp_def)

lemma lawful_error_cmp:
  assumes "lawful_cmp mcmp (\<lambda>s. s)"
  shows "lawful_cmp (error_cmp mcmp)
    (\<lambda>e. (((err_kind e, err_metadata e), parameterized_decorator e), err_from_main_guard e))"
proof -
  note c = lawful_comap [OF cmp_of.lawful_cmp_axioms, where f = err_kind]
    and m = lawful_comap [OF assms, where f = err_metadata]
    and p = lawful_comap [OF cmp_of.lawful_cmp_axioms, where f = parameterized_decorator]
    and g = lawful_comap [OF cmp_of.lawful_cmp_axioms, where f = err_from_main_guard]
  show ?thesis
    using lawful_then_with [OF lawful_then_with [OF lawful_then_with [OF c m] p] g]
    by (simp add: error_cmp_def [abs_def])
qed

text \<open>
  What a cache writes of a list of errors does not depend on the order they were found in, nor
  on their source ranges: lists with the same wire records sort to the same wire records, and
  reading a record back and writing it again changes nothing.
\<close>
theorem wire_errors_canonical:
  assumes "lawful_cmp mcmp (\<lambda>s. s)" "mset (map serialize_error xs) = mset (map serialize_error ys)"
  shows "map serialize_error (sort_by (error_cmp mcmp) xs) = map serialize_error (sort_by (error_cmp mcmp) ys) \<and>
    map serialize_error (map deserialize_error ws) = ws"
proof -
  let ?key = "\<lambda>e. (((err_kind e, err_metadata e), parameterized_decorator e), err_from_main_guard e)"
  let ?wire = "\<lambda>(((k, m), p), g). \<lparr>ser_kind = k, ser_metadata = m, ser_parameterized_decorator = p, ser_from_main_guard = g\<rparr>"
  let ?unwire = "\<lambda>w. (((ser_kind w, ser_metadata w), ser_parameterized_decorator w), ser_from_main_guard w)"
  have wire: "serialize_error = ?wire \<circ> ?key" "?key = ?unwire \<circ> serialize_error"
    by (auto simp: serialize_error_def)
  have "image_mset ?key (mset zs) = image_mset ?unwire (mset (map serialize_error zs))" for zs
    unfolding wire(2) mset_map image_mset.compositionality ..
  then have "map ?key (sort_by (error_cmp mcmp) xs) = map ?key (sort_by (error_cmp mcmp) ys)"
    using assms(2) by (intro lawful_cmp.sort_by_canonical [OF lawful_error_cmp [OF assms(1)]]) simp
  from arg_cong [OF this, of "map ?wire"]
  have "map serialize_error (sort_by (error_cmp mcmp) xs) = map serialize_error (sort_by (error_cmp mcmp) ys)"
    unfolding map_map wire(1) .
  then show ?thesis by (simp add: comp_def serialize_deserialize)
qed

lemma wire_errors_canonical_witness:
  "map serialize_error (sort_by (error_cmp cmp_of) [new_error UnsafeFunctionCall ''m.f'' (7, 9), new_error ProhibitedCall ''g'' (1, 2)]) =
   map serialize_error (sort_by (error_cmp cmp_of) [new_error ProhibitedCall ''g'' (4, 5), new_error UnsafeFunctionCall ''m.f'' (0, 1)])"
proof (rule conjunct1 [OF wire_errors_canonical [OF cmp_of.lawful_cmp_axioms, of _ _ "[]"]])
  show "mset (map serialize_error [new_error UnsafeFunctionCall ''m.f'' (7, 9), new_error ProhibitedCall ''g'' (1, 2)]) =
      mset (map serialize_error [new_error ProhibitedCall ''g'' (4, 5), new_error UnsafeFunctionCall ''m.f'' (0, 1)])"
    by (simp add: new_error_def serialize_error_def add_mset_commute)
qed

end
