(* ===== verification/Module_Safety.thy ===== *)
theory Module_Safety
  imports Errors
begin

text \<open>
  The verdict of one module (\<open>ModuleSafety\<close>, \<open>SafetyResult\<close> and the candidate records of
  \<open>src/module_safety.rs\<close>) and the accumulator of its effects
  (\<open>src/module_effects.rs\<close>). The hash maps and hash sets of the accumulator are association
  lists with distinct keys and lists, in any order.
\<close>

section \<open>Candidates for the reduce\<close>

datatype mutation_candidate_site = SiteModuleScope modname | SiteFunction modname

record mutation_candidate =
  mc_callee :: modname
  mc_site :: mutation_candidate_site
  mc_arg_offset :: nat
  mc_imported_args :: imported_args
  mc_range :: text_range
  mc_from_main_guard :: bool

record property_candidate =
  pc_attribute :: modname
  pc_range :: text_range
  pc_from_main_guard :: bool

record subclass_candidate =
  sc_class :: modname
  sc_range :: text_range
  sc_from_main_guard :: bool

text \<open>The derived orders of a site and of the imported arguments compare field by field.\<close>

fun site_cmp ::
  "(string \<Rightarrow> string \<Rightarrow> ordering) \<Rightarrow> mutation_candidate_site \<Rightarrow> mutation_candidate_site \<Rightarrow> ordering"
where
  "site_cmp mcmp (SiteModuleScope a) (SiteModuleScope b) = mcmp a b"
| "site_cmp mcmp (SiteModuleScope a) (SiteFunction b) = Less"
| "site_cmp mcmp (SiteFunction a) (SiteModuleScope b) = Greater"
| "site_cmp mcmp (SiteFunction a) (SiteFunction b) = mcmp a b"

definition imported_args_cmp ::
  "(string \<Rightarrow> string \<Rightarrow> ordering) \<Rightarrow> imported_args \<Rightarrow> imported_args \<Rightarrow> ordering" where
  "imported_args_cmp mcmp a b =
     then_with (then_with (then_with
       (cmp_of (unsafe_arg_indices a) (unsafe_arg_indices b))
       (cmp_list mcmp (unsafe_keyword_names a) (unsafe_keyword_names b)))
       (cmp_of (has_unsafe_kwargs_expansion a) (has_unsafe_kwargs_expansion b)))
       (cmp_option cmp_of (unsafe_args_expansion_min a) (unsafe_args_expansion_min b))"

definition mutation_candidate_cmp ::
  "(string \<Rightarrow> string \<Rightarrow> ordering) \<Rightarrow> mutation_candidate \<Rightarrow> mutation_candidate \<Rightarrow> ordering" where
  "mutation_candidate_cmp mcmp a b =
     then_with (then_with (then_with (then_with
       (mcmp (mc_callee a) (mc_callee b))
       (site_cmp mcmp (mc_site a) (mc_site b)))
       (cmp_of (mc_arg_offset a) (mc_arg_offset b)))
       (imported_args_cmp mcmp (mc_imported_args a) (mc_imported_args b)))
       (cmp_of (mc_from_main_guard a) (mc_from_main_guard b))"

definition property_candidate_cmp ::
  "(string \<Rightarrow> string \<Rightarrow> ordering) \<Rightarrow> property_candidate \<Rightarrow> property_candidate \<Rightarrow> ordering" where
  "property_candidate_cmp mcmp a b =
     then_with (mcmp (pc_attribute a) (pc_attribute b))
       (cmp_of (pc_from_main_guard a) (pc_from_main_guard b))"

definition subclass_candidate_cmp ::
  "(string \<Rightarrow> string \<Rightarrow> ordering) \<Rightarrow> subclass_candidate \<Rightarrow> subclass_candidate \<Rightarrow> ordering" where
  "subclass_candidate_cmp mcmp a b =
     then_with (mcmp (sc_class a) (sc_class b))
       (cmp_of (sc_from_main_guard a) (sc_from_main_guard b))"

section \<open>Module verdicts\<close>

record module_safety =
  errors :: "safety_error list"
  force_imports_eager_overrides :: "safety_error list"
  implicit_imports :: "modname list"
  function_safety :: "(string \<times> function_safety_info) list"
  mutation_candidates :: "mutation_candidate list"
  property_candidates :: "property_candidate list"
  subclass_candidates :: "subclass_candidate list"

definition new_module_safety :: module_safety where
  "new_module_safety =
     \<lparr>errors = [], force_imports_eager_overrides = [], implicit_imports = [],
      function_safety = [], mutation_candidates = [], property_candidates = [],
      subclass_candidates = []\<rparr>"

definition module_is_safe :: "module_safety \<Rightarrow> bool" where
  "module_is_safe s \<longleftrightarrow> errors s = []"

definition has_implicit_imports :: "module_safety \<Rightarrow> bool" where
  "has_implicit_imports s \<longleftrightarrow> implicit_imports s \<noteq> []"

definition should_load_imports_eagerly :: "module_safety \<Rightarrow> bool" where
  "should_load_imports_eagerly s \<longleftrightarrow> force_imports_eager_overrides s \<noteq> []"

definition add_error :: "safety_error \<Rightarrow> module_safety \<Rightarrow> module_safety" where
  "add_error e s = s\<lparr>errors := errors s @ [e]\<rparr>"

text \<open>The assertion on the kind is the panic.\<close>

definition add_force_import_override :: "safety_error \<Rightarrow> module_safety \<Rightarrow> module_safety option" where
  "add_force_import_override e s =
     (if requires_eager_loading_imports (err_kind e)
      then Some (s\<lparr>force_imports_eager_overrides := force_imports_eager_overrides s @ [e]\<rparr>)
      else None)"

text \<open>Extending from a hash set: the set comes as the list of its elements, in any order.\<close>

definition add_implicit_imports :: "modname list \<Rightarrow> module_safety \<Rightarrow> module_safety" where
  "add_implicit_imports ms s = s\<lparr>implicit_imports := implicit_imports s @ ms\<rparr>"

datatype safety_result = SafetyOk module_safety | AnalysisError string

fun as_safety :: "safety_result \<Rightarrow> module_safety option" where
  "as_safety (SafetyOk s) = Some s"
| "as_safety (AnalysisError _) = None"

text \<open>The updates of a verdict, as the steps the analysis takes on it.\<close>

datatype safety_op =
    AddError safety_error
  | AddOverride safety_error
  | AddImplicit "modname list"

fun safety_step :: "module_safety \<Rightarrow> safety_op \<Rightarrow> module_safety option" where
  "safety_step s (AddError e) = Some (add_error e s)"
| "safety_step s (AddOverride e) = add_force_import_override e s"
| "safety_step s (AddImplicit ms) = Some (add_implicit_imports ms s)"

fun safety_run :: "module_safety \<Rightarrow> safety_op list \<Rightarrow> module_safety option" where
  "safety_run s [] = Some s"
| "safety_run s (op # ops) =
     (case safety_step s op of None \<Rightarrow> None | Some s' \<Rightarrow> safety_run s' ops)"

definition overrides_ok :: "module_safety \<Rightarrow> bool" where
  "overrides_ok s \<longleftrightarrow>
     list_all (\<lambda>e. requires_eager_loading_imports (err_kind e)) (force_imports_eager_overrides s)"

lemma safety_step_overrides_ok:
  "overrides_ok s \<Longrightarrow> safety_step s op = Some s' \<Longrightarrow> overrides_ok s'"
  by (cases op)
    (auto simp: overrides_ok_def add_error_def add_force_import_override_def
      add_implicit_imports_def split: if_splits)

lemma safety_run_overrides_ok:
  "overrides_ok s \<Longrightarrow> safety_run s ops = Some s' \<Longrightarrow> overrides_ok s'"
  by (induction ops arbitrary: s) (auto split: option.splits dest: safety_step_overrides_ok)

section \<open>Effects of a module\<close>

type_synonym module_imports_map = "(modname \<times> modname list) list"

record file_error =
  fe_error :: string
  fe_range :: text_range

record module_effects =
  effects :: effect_table
  file_errors :: "file_error list"
  in_main_guard :: bool
  called_imports :: module_imports_map
  pending_imports :: module_imports_map
  aliased_imports :: module_imports_map
  all_pending_import_names :: "modname list"
  all_called_import_names :: "modname list"
  called_functions :: "modname list"
  indirectly_called_methods :: "(modname \<times> modname) list"
  eager_imports :: "modname list"
  names_only_in_stub :: "(string list \<times> text_range) option"

definition new_module_effects :: module_effects where
  "new_module_effects =
     \<lparr>effects = empty_table, file_errors = [], in_main_guard = False,
      called_imports = [], pending_imports = [], aliased_imports = [],
      all_pending_import_names = [], all_called_import_names = [], called_functions = [],
      indirectly_called_methods = [], eager_imports = [], names_only_in_stub = None\<rparr>"

definition add_effect :: "modname \<Rightarrow> effect \<Rightarrow> module_effects \<Rightarrow> module_effects" where
  "add_effect sc e m =
     m\<lparr>effects := table_insert sc (e\<lparr>eff_from_main_guard := in_main_guard m\<rparr>) (effects m)\<rparr>"

definition enter_main_guard :: "bool \<Rightarrow> module_effects \<Rightarrow> bool \<times> module_effects" where
  "enter_main_guard guarded m =
     (in_main_guard m, m\<lparr>in_main_guard := in_main_guard m \<or> guarded\<rparr>)"

definition leave_main_guard :: "bool \<Rightarrow> module_effects \<Rightarrow> module_effects" where
  "leave_main_guard outer m = m\<lparr>in_main_guard := outer\<rparr>"

definition add_file_error :: "string \<Rightarrow> text_range \<Rightarrow> module_effects \<Rightarrow> module_effects" where
  "add_file_error err r m =
     m\<lparr>file_errors := file_errors m @ [\<lparr>fe_error = err, fe_range = r\<rparr>]\<rparr>"

definition add_pending_import :: "modname \<Rightarrow> modname \<Rightarrow> module_effects \<Rightarrow> module_effects" where
  "add_pending_import i sc m =
     m\<lparr>pending_imports := smap_insert sc i (pending_imports m),
       all_pending_import_names := small_insert i (all_pending_import_names m)\<rparr>"

definition add_called_import :: "modname \<Rightarrow> modname \<Rightarrow> module_effects \<Rightarrow> module_effects" where
  "add_called_import i sc m =
     m\<lparr>called_imports := smap_insert sc i (called_imports m),
       all_called_import_names := small_insert i (all_called_import_names m)\<rparr>"

definition scope_has_effect :: "modname \<Rightarrow> effect_kind \<Rightarrow> module_effects \<Rightarrow> bool" where
  "scope_has_effect sc k m =
     (case table_get (effects m) sc of
        None \<Rightarrow> False
      | Some es \<Rightarrow> list_ex (\<lambda>e. eff_kind e = k) es)"

text \<open>The two indexes of imports stay in step with the maps they speed up.\<close>

definition import_names_ok :: "module_effects \<Rightarrow> bool" where
  "import_names_ok m \<longleftrightarrow>
     set (all_pending_import_names m) = (\<Union>sc. set (amap_get (pending_imports m) sc)) \<and>
     set (all_called_import_names m) = (\<Union>sc. set (amap_get (called_imports m) sc))"

lemma import_names_ok_new: "import_names_ok new_module_effects"
  by (simp add: import_names_ok_def new_module_effects_def)

lemma Union_smap_insert:
  "(\<Union>sc'. set (amap_get (smap_insert sc i m) sc')) = insert i (\<Union>sc'. set (amap_get m sc'))"
  by (auto split: if_splits)

lemma import_names_ok_step:
  "import_names_ok m \<Longrightarrow> import_names_ok (add_pending_import i sc m)"
  "import_names_ok m \<Longrightarrow> import_names_ok (add_called_import i sc m)"
  "import_names_ok m \<Longrightarrow> import_names_ok (add_effect sc e m)"
  "import_names_ok m \<Longrightarrow> import_names_ok (add_file_error err r m)"
  by (simp_all add: import_names_ok_def add_pending_import_def add_called_import_def
      add_effect_def add_file_error_def Union_smap_insert del: amap_get_smap_insert)

lemma leave_enter_main_guard:
  "leave_main_guard (fst (enter_main_guard g m)) (snd (enter_main_guard g m)) = m"
  by (simp add: leave_main_guard_def enter_main_guard_def)

end
