(* ===== verification/Stub_Syntax.thy ===== *)
theory Stub_Syntax
  imports Prelude
begin

text \<open>
  The abstract syntax of a \<open>.pyi\<close> stub file, as far as the two programs that read stubs look
  at it: the overload merger (\<open>resources/scripts/merge_overload_effects.py\<close>, on the syntax tree
  of \<open>libcst\<close>) and the stub analyzer (\<open>src/stub_analyzer.rs\<close>, on the syntax tree of
  \<open>ruff\<close>). The constructors carry the names of the node classes of \<open>libcst\<close> that the script
  tests for. Parameter lists keep the parameter names; annotations and default values are read by
  neither program and are not kept. The layout a node owns (comments, blank lines) is its text.
\<close>

datatype cmp_op = Eq | NotEq | OtherCmp

datatype expr =
    Name string
  | Attribute expr string
  | Call text_range expr "expr list"
  | SimpleString string
  | ConcatenatedString expr expr
  | Ellipsis
  | Compare expr "cmp_op list" "expr list"
  | OtherExpr string

datatype small_stmt =
    Expr expr
  | OtherSmall string

text \<open>
  A suite is an indented block, with its header and footer, or the statements after the colon on
  the same line. \<open>Compound\<close> is any other compound statement (\<open>if\<close>, \<open>try\<close>, \<open>with\<close>,
  loops): its branches with the test of each, where it has one.
\<close>

datatype stmt =
    FunctionDef text_range string "expr list" "string list" suite
  | ClassDef string "expr list" suite
  | Compound string "(expr option \<times> suite) list"
  | SimpleStatementLine "small_stmt list" string
and suite =
    IndentedBlock "stmt list" string "string list"
  | SimpleStatementSuite "small_stmt list" string

text \<open>
  \<open>FunctionDef range name decorators params body\<close>; the last field of a line and of an inline
  suite is the trailing whitespace with its comment.
\<close>

fun fun_name :: "stmt \<Rightarrow> string option" where
  "fun_name (FunctionDef r n ds ps b) = Some n"
| "fun_name _ = None"

text \<open>
  What a suite says apart from its layout: the statements of a block, or one line per
  statement of an inline suite.
\<close>

fun suite_stmts :: "suite \<Rightarrow> stmt list" where
  "suite_stmts (IndentedBlock body header footer) = body"
| "suite_stmts (SimpleStatementSuite body ws) = map (\<lambda>s. SimpleStatementLine [s] ws) body"

end
