(* ===== verification/Config.thy ===== *)
theory Config
  imports Stub_Syntax
begin

text \<open>
  The pruning of \<open>if\<close> branches (\<open>src/config.rs\<close>). The evaluation of version and platform
  tests (\<open>SysInfo::pruned_if_branches\<close> of \<open>pyrefly\<close>) is not part of the repository: it is
  the parameter \<open>sys_pruned\<close>, which selects branches by position and may drop a test it
  knows to hold. What the repository adds is the treatment of \<open>__main__\<close> guards.
\<close>

fun string_value :: "expr \<Rightarrow> string option" where
  "string_value (SimpleString s) = Some s"
| "string_value (ConcatenatedString l r) =
     (case (string_value l, string_value r) of (Some a, Some b) \<Rightarrow> Some (a @ b) | _ \<Rightarrow> None)"
| "string_value _ = None"

definition is_name_eq_main :: "expr \<Rightarrow> expr \<Rightarrow> bool" where
  "is_name_eq_main name_side main_side \<longleftrightarrow>
     name_side = Name ''__name__'' \<and> string_value main_side = Some ''__main__''"

fun is_name_main_guard :: "expr \<Rightarrow> bool" where
  "is_name_main_guard (Compare left ops rights) =
     (if length ops \<noteq> 1 \<or> ops ! 0 \<noteq> Eq then False
      else (case rights of
              [] \<Rightarrow> False
            | right # _ \<Rightarrow> is_name_eq_main left right \<or> is_name_eq_main right left))"
| "is_name_main_guard _ = False"

text \<open>
  The \<open>filter_map\<close> over the branches, with its captured variable \<open>done\<close>. The third
  component stands for the branch itself.
\<close>

fun lg_prune_loop ::
  "modname option \<Rightarrow> modname \<Rightarrow> bool \<Rightarrow> (expr option \<times> 'b) list \<Rightarrow> (expr option \<times> 'b) list"
where
  "lg_prune_loop main_module current_module done' [] = []"
| "lg_prune_loop main_module current_module done' ((test, body) # rest) =
     (if done' then lg_prune_loop main_module current_module done' rest
      else case (test, main_module) of
        (Some t, Some main) \<Rightarrow>
          if is_name_main_guard t then
            (if main = current_module
             then (None, body) # lg_prune_loop main_module current_module True rest
             else lg_prune_loop main_module current_module done' rest)
          else (test, body) # lg_prune_loop main_module current_module done' rest
      | _ \<Rightarrow> (test, body) # lg_prune_loop main_module current_module done' rest)"

definition lg_pruned_if_branches ::
  "(expr option list \<Rightarrow> (expr option \<times> nat) list) \<Rightarrow> modname option \<Rightarrow> modname \<Rightarrow>
     expr option list \<Rightarrow> (expr option \<times> nat) list" where
  "lg_pruned_if_branches sys_pruned main_module current_module tests =
     lg_prune_loop main_module current_module False (sys_pruned tests)"

lemma lg_prune_loop_done [simp]: "lg_prune_loop mm cm True bs = []"
  by (induction bs) auto

lemma lg_prune_no_main [simp]: "lg_prune_loop None cm False bs = bs"
  by (induction bs) (auto split: option.splits)

lemma lg_prune_loop_subset:
  "snd ` set (lg_prune_loop mm cm d bs) \<subseteq> snd ` set bs"
proof (induction bs arbitrary: d)
  case (Cons b bs)
  obtain test body where b: "b = (test, body)" by (cases b)
  have keep: "snd ` set (lg_prune_loop mm cm d' bs) \<subseteq> insert body (snd ` set bs)" for d'
    using Cons.IH [of d'] by (rule subset_insertI2)
  then show ?case
    by (cases d; cases test; cases mm) (simp_all add: b)
qed simp

text \<open>Which guard bodies survive: with a main module given, only those of that module.\<close>

lemma lg_prune_other_module:
  assumes "main \<noteq> cm"
  shows "lg_prune_loop (Some main) cm False bs =
    filter (\<lambda>(t, b). case t of None \<Rightarrow> True | Some e \<Rightarrow> \<not> is_name_main_guard e) bs"
  by (induction bs) (use assms in \<open>auto split: option.splits\<close>)

end
