(* ===== verification/Stub_Analyzer.thy ===== *)
theory Stub_Analyzer
  imports Module_Safety Config
begin

text \<open>
  The analyzer of stub files (\<open>src/stub_analyzer.rs\<close>): it reads the effects declared in the
  bodies of a stub into the effect table. The mutable cursor and the output are threaded through
  the traversal; a panic of the code is \<^const>\<open>None\<close>.
\<close>

record stub_config =
  sys_pruned :: "expr option list \<Rightarrow> (expr option \<times> nat) list"
  main_module :: "modname option"
  stub_module :: modname
  is_thrift_generated :: bool
  debug_call :: "expr \<Rightarrow> string"

section \<open>Declared effects\<close>

definition dashes :: "string \<Rightarrow> string" where
  "dashes s = map (\<lambda>c. if c = CHR ''_'' then CHR ''-'' else c) s"

fun as_var_name :: "expr \<Rightarrow> string option" where
  "as_var_name (Name n) = Some n"
| "as_var_name _ = None"

fun get_call_effect :: "expr \<Rightarrow> effect option" where
  "get_call_effect (Call r f args) =
     (case as_var_name f of
        None \<Rightarrow> None
      | Some name \<Rightarrow>
          (case kind_from_str (dashes name) of
             None \<Rightarrow> None
           | Some kind \<Rightarrow>
               (case args of
                  [] \<Rightarrow> Some (new_effect kind '''' r)
                | e # _ \<Rightarrow> map_option (\<lambda>v. new_effect kind v r) (string_value e))))"
| "get_call_effect _ = None"

type_synonym stub_state = "cursor \<times> module_effects"

fun parse_call :: "stub_config \<Rightarrow> expr \<Rightarrow> stub_state \<Rightarrow> stub_state option" where
  "parse_call cfg (Call r f args) (c, out) =
     (case get_call_effect (Call r f args) of
        Some eff \<Rightarrow> (case scope c of None \<Rightarrow> None | Some sc \<Rightarrow> Some (c, add_effect sc eff out))
      | None \<Rightarrow>
          Some (c, add_file_error (''Could not parse effect '' @ debug_call cfg (Call r f args)) r out))"
| "parse_call cfg e st = Some st"

fun expr_effects :: "stub_config \<Rightarrow> expr \<Rightarrow> stub_state \<Rightarrow> stub_state option" where
  "expr_effects cfg (Call r f args) st = parse_call cfg (Call r f args) st"
| "expr_effects cfg e st = Some st"

section \<open>Statements\<close>

fun small_effects :: "stub_config \<Rightarrow> small_stmt \<Rightarrow> stub_state \<Rightarrow> stub_state option" where
  "small_effects cfg (Expr e) st = expr_effects cfg e st"
| "small_effects cfg (OtherSmall t) st = Some st"

fun seq_all :: "('s \<Rightarrow> 's option) list \<Rightarrow> 's \<Rightarrow> 's option" where
  "seq_all [] st = Some st"
| "seq_all (f # fs) st = (case f st of None \<Rightarrow> None | Some st' \<Rightarrow> seq_all fs st')"

text \<open>\<open>run_body\<close>, after the statements of the body ran in a fresh output.\<close>

definition finish_body ::
  "stub_config \<Rightarrow> text_range \<Rightarrow> stub_state \<Rightarrow> (cursor \<times> module_effects) option" where
  "finish_body cfg func_range st =
     (case st of (c, out) \<Rightarrow>
        let with_unknown =
              (if table_is_empty (effects out) \<and> \<not> is_thrift_generated cfg then
                 (case scope c of
                    None \<Rightarrow> None
                  | Some sc \<Rightarrow> Some (add_effect sc (new_effect UnknownEffects '''' func_range) out))
               else Some out)
        in (case with_unknown of
              None \<Rightarrow> None
            | Some out' \<Rightarrow> map_option (\<lambda>c'. (c', out')) (exit_scope c)))"

definition merge_effects :: "module_effects \<Rightarrow> module_effects \<Rightarrow> module_effects" where
  "merge_effects out body_out = out\<lparr>effects := table_merge (effects out) (effects body_out)\<rparr>"

text \<open>
  The branch statement: \<open>run\<close> holds the traversal of each branch; the selection of branches
  names them by position. Only an \<open>if\<close> is traversed, no other compound statement.
\<close>

definition if_effects ::
  "stub_config \<Rightarrow> string \<Rightarrow> expr option list \<Rightarrow> (stub_state \<Rightarrow> stub_state option) list \<Rightarrow>
     stub_state \<Rightarrow> stub_state option" where
  "if_effects cfg h tests run st =
     (if h = ''if'' then
        seq_all
          (map (\<lambda>(t, i). if i < length run then run ! i else Some)
            (lg_pruned_if_branches (sys_pruned cfg) (main_module cfg) (stub_module cfg) tests)) st
      else Some st)"

fun stmt_effects :: "stub_config \<Rightarrow> stmt \<Rightarrow> stub_state \<Rightarrow> stub_state option"
and suite_effects :: "stub_config \<Rightarrow> suite \<Rightarrow> stub_state \<Rightarrow> stub_state option" where
  "stmt_effects cfg (SimpleStatementLine body ws) st = seq_all (map (small_effects cfg) body) st"
| "stmt_effects cfg (ClassDef name bases body) (c, out) =
     (case suite_effects cfg body (enter_class_scope name c, out) of
        None \<Rightarrow> None
      | Some (c1, out1) \<Rightarrow> map_option (\<lambda>c2. (c2, out1)) (exit_scope c1))"
| "stmt_effects cfg (FunctionDef r name ds ps body) (c, out) =
     (case suite_effects cfg body (enter_function_scope name c, new_module_effects) of
        None \<Rightarrow> None
      | Some st \<Rightarrow>
          map_option (\<lambda>(c2, body_out). (c2, merge_effects out body_out)) (finish_body cfg r st))"
| "stmt_effects cfg (Compound h branches) st =
     if_effects cfg h (map fst branches) (map (\<lambda>(t, b). suite_effects cfg b) branches) st"
| "suite_effects cfg (IndentedBlock body header footer) st = seq_all (map (stmt_effects cfg) body) st"
| "suite_effects cfg (SimpleStatementSuite body ws) st = seq_all (map (small_effects cfg) body) st"

definition stmts_effects :: "stub_config \<Rightarrow> stmt list \<Rightarrow> stub_state \<Rightarrow> stub_state option" where
  "stmts_effects cfg body st = seq_all (map (stmt_effects cfg) body) st"

section \<open>The module\<close>

definition remove_unknown_effects :: "effect_table \<Rightarrow> effect_table" where
  "remove_unknown_effects t =
     table_map (\<lambda>es.
       if list_ex (\<lambda>e. eff_kind e \<noteq> UnknownEffects) es
       then filter (\<lambda>e. eff_kind e \<noteq> UnknownEffects) es else es) t"

text \<open>\<open>has_noeffects\<close> panics when \<open>no-effects\<close> is mixed with another declared kind.\<close>

definition has_noeffects :: "effect list \<Rightarrow> bool option" where
  "has_noeffects es =
     (if list_ex (\<lambda>e. eff_kind e = NoEffects) es then
        (if list_all (\<lambda>e. eff_kind e = NoEffects \<or> eff_kind e = UnknownEffects) es
         then Some True else None)
      else Some False)"

definition remove_noeffects :: "effect_table \<Rightarrow> effect_table option" where
  "remove_noeffects t =
     (if list_ex (\<lambda>(name, es). has_noeffects es = None) t then None
      else Some (table_retain (\<lambda>name es. has_noeffects es = Some False) t))"

definition analyze_stub :: "stub_config \<Rightarrow> stmt list \<Rightarrow> module_effects option" where
  "analyze_stub cfg body =
     (case stmts_effects cfg body
             (enter_module_scope (stub_module cfg) new_cursor, new_module_effects) of
        None \<Rightarrow> None
      | Some (c, out) \<Rightarrow>
          map_option (\<lambda>t. out\<lparr>effects := t\<rparr>)
            (remove_noeffects (remove_unknown_effects (effects out))))"

end
