(* ===== verification/Stub_Semantics.thy ===== *)
theory Stub_Semantics
  imports Stub_Analyzer
begin

text \<open>
  The meaning of a stub as a list of declarations, and the proof that the traversal of
  \<^theory_text>\<open>Stub_Analyzer\<close> computes it. The specification knows neither the cursor nor
  the tables that every function body is read into: it gives each declared effect to the
  qualified name of its scope, in source order.
\<close>

section \<open>Declarations\<close>

fun small_decls :: "modname \<Rightarrow> small_stmt \<Rightarrow> (modname \<times> effect) list" where
  "small_decls sc (Expr e) =
     (case get_call_effect e of None \<Rightarrow> [] | Some eff \<Rightarrow> [(sc, eff)])"
| "small_decls sc (OtherSmall t) = []"

definition body_decls ::
  "stub_config \<Rightarrow> modname \<Rightarrow> text_range \<Rightarrow> (modname \<times> effect) list \<Rightarrow> (modname \<times> effect) list" where
  "body_decls cfg sc r ds =
     (if ds = [] \<and> \<not> is_thrift_generated cfg then [(sc, new_effect UnknownEffects '''' r)] else ds)"

definition branch_decls ::
  "stub_config \<Rightarrow> string \<Rightarrow> expr option list \<Rightarrow> 'd list list \<Rightarrow> 'd list" where
  "branch_decls cfg h tests dss =
     (if h = ''if'' then
        concat (map (\<lambda>(t, i). if i < length dss then dss ! i else [])
          (lg_pruned_if_branches (sys_pruned cfg) (main_module cfg) (stub_module cfg) tests))
      else [])"

fun stmt_decls :: "stub_config \<Rightarrow> modname \<Rightarrow> stmt \<Rightarrow> (modname \<times> effect) list"
and suite_decls :: "stub_config \<Rightarrow> modname \<Rightarrow> suite \<Rightarrow> (modname \<times> effect) list" where
  "stmt_decls cfg sc (SimpleStatementLine body ws) = concat (map (small_decls sc) body)"
| "stmt_decls cfg sc (ClassDef name bases body) = suite_decls cfg (append_str sc name) body"
| "stmt_decls cfg sc (FunctionDef r name ds ps body) =
     body_decls cfg (append_str sc name) r (suite_decls cfg (append_str sc name) body)"
| "stmt_decls cfg sc (Compound h branches) =
     branch_decls cfg h (map fst branches) (map (\<lambda>(t, b). suite_decls cfg sc b) branches)"
| "suite_decls cfg sc (IndentedBlock body header footer) = concat (map (stmt_decls cfg sc) body)"
| "suite_decls cfg sc (SimpleStatementSuite body ws) = concat (map (small_decls sc) body)"

definition decls_at :: "('k \<times> 'e) list \<Rightarrow> 'k \<Rightarrow> 'e list" where
  "decls_at ds k = map snd (filter (\<lambda>p. fst p = k) ds)"

lemma decls_at_simps [simp]:
  "decls_at [] k = []"
  "decls_at (p # ds) k = (if fst p = k then snd p # decls_at ds k else decls_at ds k)"
  "decls_at (ds @ es) k = decls_at ds k @ decls_at es k"
  by (simp_all add: decls_at_def)

lemma decls_at_Nil_iff: "decls_at ds k = [] \<longleftrightarrow> k \<notin> fst ` set ds"
  by (induction ds) auto

lemma set_decls_at: "set (decls_at ds k) = {e. (k, e) \<in> set ds}"
proof -
  have "e \<in> set (decls_at ds k) \<longleftrightarrow> (k, e) \<in> set ds" for e
    by (induction ds) (auto simp: prod_eq_iff)
  then show ?thesis by blast
qed

section \<open>The traversal computes the declarations\<close>

definition ok_out :: "module_effects \<Rightarrow> bool" where
  "ok_out out \<longleftrightarrow> \<not> in_main_guard out \<and> distinct (map fst (effects out))"

definition extends ::
  "(modname \<times> effect) list \<Rightarrow> module_effects \<Rightarrow> module_effects \<Rightarrow> bool" where
  "extends ds out out' \<longleftrightarrow> ok_out out' \<and>
     fst ` set (effects out') = fst ` set (effects out) \<union> fst ` set ds \<and>
     (\<forall>k. amap_get (effects out') k = amap_get (effects out) k @ decls_at ds k)"

definition implements ::
  "(stub_state \<Rightarrow> stub_state option) \<Rightarrow> cursor \<Rightarrow> (modname \<times> effect) list \<Rightarrow> bool" where
  "implements f c ds \<longleftrightarrow>
     (\<forall>out. ok_out out \<longrightarrow> (\<exists>out'. f (c, out) = Some (c, out') \<and> extends ds out out'))"

lemma implementsI:
  "(\<And>out. ok_out out \<Longrightarrow> \<exists>out'. f (c, out) = Some (c, out') \<and> extends ds out out') \<Longrightarrow>
     implements f c ds"
  by (simp add: implements_def)

lemma implementsE:
  assumes "implements f c ds" "ok_out out"
  obtains out' where "f (c, out) = Some (c, out')" "extends ds out out'"
  using assms by (auto simp: implements_def)

lemma extends_refl: "ok_out out \<Longrightarrow> extends [] out out"
  by (simp add: extends_def)

lemma extends_trans:
  "extends ds out1 out2 \<Longrightarrow> extends es out2 out3 \<Longrightarrow> extends (ds @ es) out1 out3"
  by (auto simp: extends_def)

lemma implements_skip: "implements Some c []"
  by (auto intro!: implementsI extends_refl)

lemma implements_seq_all:
  "list_all2 (\<lambda>f ds. implements f c ds) fs dss \<Longrightarrow> implements (seq_all fs) c (concat dss)"
proof (induction fs dss rule: list_all2_induct)
  case Nil
  then show ?case using implements_skip by (simp add: implements_def)
next
  case (Cons f fs ds dss)
  show ?case
  proof (rule implementsI)
    fix out assume "ok_out out"
    with Cons.hyps obtain out1 where 1: "f (c, out) = Some (c, out1)" "extends ds out out1"
      by (auto elim: implementsE)
    then have "ok_out out1" by (simp add: extends_def)
    with Cons.IH obtain out2 where "seq_all fs (c, out1) = Some (c, out2)"
        "extends (concat dss) out1 out2" by (auto elim: implementsE)
    with 1 show "\<exists>out'. seq_all (f # fs) (c, out) = Some (c, out') \<and>
        extends (concat (ds # dss)) out out'"
      by (auto intro: extends_trans)
  qed
qed

lemma implements_map:
  "(\<And>x. x \<in> set xs \<Longrightarrow> implements (f x) c (d x)) \<Longrightarrow>
     implements (seq_all (map f xs)) c (concat (map d xs))"
  by (rule implements_seq_all) (simp add: list_all2_map1 list_all2_map2 list_all2_same)

lemma ok_add_effect:
  "ok_out out \<Longrightarrow> \<not> eff_from_main_guard e \<Longrightarrow> extends [(sc, e)] out (add_effect sc e out)"
  by (simp add: ok_out_def extends_def add_effect_def)

lemma ok_add_file_error: "ok_out out \<Longrightarrow> extends [] out (add_file_error err r out)"
  by (simp add: ok_out_def extends_def add_file_error_def)

lemma new_effect_not_guarded [simp]: "\<not> eff_from_main_guard (new_effect k n r)"
  by (simp add: new_effect_def)

lemma get_call_effect_not_guarded:
  "get_call_effect e = Some eff \<Longrightarrow> \<not> eff_from_main_guard eff"
  by (cases e) (auto split: option.splits list.splits)

lemma implements_small:
  assumes "scope c = Some sc" shows "implements (small_effects cfg s) c (small_decls sc s)"
proof (rule implementsI)
  fix out assume ok: "ok_out out"
  show "\<exists>out'. small_effects cfg s (c, out) = Some (c, out') \<and> extends (small_decls sc s) out out'"
  proof (cases s)
    case (Expr e)
    show ?thesis
    proof (cases "get_call_effect e")
      case None
      with Expr ok show ?thesis
        by (cases e) (auto intro: extends_refl ok_add_file_error simp del: get_call_effect.simps)
    next
      case (Some eff)
      then obtain r f args where "e = Call r f args" by (cases e) auto
      moreover have "extends [(sc, eff)] out (add_effect sc eff out)"
        using ok get_call_effect_not_guarded [OF Some] by (rule ok_add_effect)
      ultimately show ?thesis
        using Expr Some assms by (simp del: get_call_effect.simps)
    qed
  qed (simp add: ok extends_refl)
qed

lemma implements_function:
  assumes body: "implements (suite_effects cfg body) (enter_function_scope name c) ds"
    and sc: "scope c = Some sc"
  shows "implements (stmt_effects cfg (FunctionDef r name decs ps body)) c
           (body_decls cfg (append_str sc name) r ds)"
proof (rule implementsI)
  fix out assume ok: "ok_out out"
  let ?c = "enter_function_scope name c" and ?sc = "append_str sc name"
  have "ok_out new_module_effects"
    by (simp add: ok_out_def new_module_effects_def empty_table_def)
  with body obtain o1 where o1: "suite_effects cfg body (?c, new_module_effects) = Some (?c, o1)"
      "extends ds new_module_effects o1"
    by (auto elim: implementsE)
  then have empty: "table_is_empty (effects o1) \<longleftrightarrow> ds = []"
    by (auto simp: extends_def new_module_effects_def table_defs)
  have new: "extends es new_module_effects o2 \<Longrightarrow> extends es out (merge_effects out o2)" for es o2
    using ok
    by (auto simp: extends_def ok_out_def merge_effects_def new_module_effects_def empty_table_def)
  define o2 where "o2 = (if ds = [] \<and> \<not> is_thrift_generated cfg
      then add_effect ?sc (new_effect UnknownEffects '''' r) o1 else o1)"
  have o2: "extends (body_decls cfg ?sc r ds) new_module_effects o2"
  proof (cases "ds = [] \<and> \<not> is_thrift_generated cfg")
    case True
    have "extends [(?sc, new_effect UnknownEffects '''' r)] o1 o2"
      using True o1(2) ok_add_effect [of o1 "new_effect UnknownEffects '''' r" ?sc]
      by (simp add: o2_def extends_def [of "[]"])
    with True o1(2) show ?thesis
      using extends_trans [of "[]" _ o1] by (simp add: body_decls_def)
  next
    case False
    then show ?thesis using o1(2) by (auto simp: body_decls_def o2_def)
  qed
  have "finish_body cfg r (?c, o1) = Some (c, o2)"
    by (simp add: finish_body_def empty sc exit_enter_function o2_def)
  then show "\<exists>out'. stmt_effects cfg (FunctionDef r name decs ps body) (c, out) = Some (c, out') \<and>
      extends (body_decls cfg ?sc r ds) out out'"
    using o1(1) new [OF o2] by (intro exI [of _ "merge_effects out o2"]) simp
qed

lemma implements_class:
  assumes "implements (suite_effects cfg body) (enter_class_scope name c) ds"
  shows "implements (stmt_effects cfg (ClassDef name bases body)) c ds"
proof (rule implementsI)
  fix out assume "ok_out out"
  with assms obtain o1 where
    "suite_effects cfg body (enter_class_scope name c, out) = Some (enter_class_scope name c, o1)"
    "extends ds out o1" by (rule implementsE)
  then show "\<exists>out'. stmt_effects cfg (ClassDef name bases body) (c, out) = Some (c, out') \<and>
      extends ds out out'"
    by (simp add: exit_enter_class)
qed

lemma implements_if:
  assumes "list_all2 (\<lambda>f ds. implements f c ds) run dss"
  shows "implements (if_effects cfg h tests run) c (branch_decls cfg h tests dss)"
proof (cases "h = ''if''")
  case True
  have nth: "implements (if i < length run then run ! i else Some) c
      (if i < length dss then dss ! i else [])" for i
    using assms implements_skip [of c] by (auto simp: list_all2_conv_all_nth)
  let ?bs = "lg_pruned_if_branches (sys_pruned cfg) (main_module cfg) (stub_module cfg) tests"
  have "implements (seq_all (map (\<lambda>(t, i). if i < length run then run ! i else Some) ?bs)) c
      (concat (map (\<lambda>(t, i). if i < length dss then dss ! i else []) ?bs))"
    by (rule implements_map) (use nth in \<open>simp add: case_prod_unfold\<close>)
  with True show ?thesis by (simp add: implements_def if_effects_def branch_decls_def)
next
  case False
  then show ?thesis using implements_skip [of c] by (simp add: implements_def if_effects_def branch_decls_def)
qed

lemma implements_stmt:
  "scope c = Some sc \<Longrightarrow> implements (stmt_effects cfg s) c (stmt_decls cfg sc s)"
  "scope c = Some sc \<Longrightarrow> implements (suite_effects cfg b) c (suite_decls cfg sc b)"
proof (induction cfg sc s and cfg sc b arbitrary: c and c rule: stmt_decls_suite_decls.induct)
  case (1 cfg sc body ws)
  then have "implements (seq_all (map (small_effects cfg) body)) c (concat (map (small_decls sc) body))"
    by (intro implements_map implements_small)
  then show ?case by (simp add: implements_def)
next
  case (2 cfg sc name bases body)
  then show ?case by (auto intro!: implements_class simp del: stmt_effects.simps)
next
  case (3 cfg sc r name ds ps body)
  then show ?case by (auto intro!: implements_function simp del: stmt_effects.simps)
next
  case (4 cfg sc h branches)
  have "list_all2 (\<lambda>f ds. implements f c ds)
      (map (\<lambda>(t, b). suite_effects cfg b) branches) (map (\<lambda>(t, b). suite_decls cfg sc b) branches)"
    using 4 by (auto simp: list_all2_map1 list_all2_map2 intro!: list_all2_refl list.rel_refl_strong)
  from implements_if [OF this] show ?case by (simp add: implements_def)
next
  case (5 cfg sc body header footer)
  then have "implements (seq_all (map (stmt_effects cfg) body)) c (concat (map (stmt_decls cfg sc) body))"
    by (intro implements_map)
  then show ?case by (simp add: implements_def)
next
  case (6 cfg sc body ws)
  then have "implements (seq_all (map (small_effects cfg) body)) c (concat (map (small_decls sc) body))"
    by (intro implements_map implements_small)
  then show ?case by (simp add: implements_def)
qed

section \<open>The analyzed module\<close>

text \<open>The effects left for one name once the whole stub is read.\<close>

definition settled :: "effect list \<Rightarrow> effect list" where
  "settled es =
     (if list_ex (\<lambda>e. eff_kind e \<noteq> UnknownEffects) es
      then filter (\<lambda>e. eff_kind e \<noteq> UnknownEffects) es else es)"

definition declares_safe :: "effect list \<Rightarrow> bool" where
  "declares_safe es \<longleftrightarrow> list_ex (\<lambda>e. eff_kind e = NoEffects) es"

text \<open>\<open>no-effects\<close> next to a declared effect, which the code refuses with a panic.\<close>

definition conflicting :: "effect list \<Rightarrow> bool" where
  "conflicting es \<longleftrightarrow>
     declares_safe es \<and> list_ex (\<lambda>e. eff_kind e \<noteq> NoEffects \<and> eff_kind e \<noteq> UnknownEffects) es"

definition module_decls :: "stub_config \<Rightarrow> stmt list \<Rightarrow> (modname \<times> effect) list" where
  "module_decls cfg body = concat (map (stmt_decls cfg (stub_module cfg)) body)"

definition stub_spec :: "(modname \<times> effect) list \<Rightarrow> (modname \<Rightarrow> effect list option) option" where
  "stub_spec ds =
     (if list_ex (\<lambda>k. conflicting (decls_at ds k)) (map fst ds) then None
      else Some (\<lambda>k. if k \<in> set (map fst ds) \<and> \<not> declares_safe (decls_at ds k)
                     then Some (settled (decls_at ds k)) else None))"

lemma remove_unknown_settled: "remove_unknown_effects t = table_map settled t"
  by (simp add: remove_unknown_effects_def settled_def [abs_def])

lemma table_map_facts [simp]:
  "fst ` set (table_map f t) = fst ` set t"
  "map fst (table_map f t) = map fst t"
  "map_of (table_map f t) k = map_option f (map_of t k)"
  by (induction t) (auto simp: table_defs)

lemma map_of_table_retain:
  "distinct (map fst t) \<Longrightarrow>
     map_of (table_retain P t) k =
       (case map_of t k of None \<Rightarrow> None | Some es \<Rightarrow> if P k es then Some es else None)"
  by (induction t) (auto simp: table_defs map_of_eq_None_iff split: option.splits)

lemma has_noeffects_settled:
  "has_noeffects (settled es) =
     (if conflicting es then None else Some (declares_safe es))"
  by (auto simp: has_noeffects_def settled_def conflicting_def declares_safe_def list_ex_iff
      list_all_iff)

lemma module_implements:
  obtains out where
    "stmts_effects cfg body (enter_module_scope (stub_module cfg) new_cursor, new_module_effects) =
       Some (enter_module_scope (stub_module cfg) new_cursor, out)"
    "extends (module_decls cfg body) new_module_effects out"
proof -
  let ?c = "enter_module_scope (stub_module cfg) new_cursor"
  have "implements (seq_all (map (stmt_effects cfg) body)) ?c (module_decls cfg body)"
    unfolding module_decls_def by (rule implements_map) (simp add: implements_stmt)
  moreover have "ok_out new_module_effects"
    by (simp add: ok_out_def new_module_effects_def empty_table_def)
  ultimately show ?thesis
    using that by (auto simp: stmts_effects_def elim: implementsE)
qed

lemma extends_new:
  assumes "extends ds new_module_effects out"
  shows "map_of (effects out) k = (if k \<in> fst ` set ds then Some (decls_at ds k) else None)"
    and "fst ` set (effects out) = fst ` set ds"
    and "distinct (map fst (effects out))"
proof -
  have keys: "fst ` set (effects out) = fst ` set ds"
    using assms by (simp add: extends_def new_module_effects_def empty_table_def)
  have get: "amap_get (effects out) k = decls_at ds k"
    using assms by (simp add: extends_def new_module_effects_def empty_table_def)
  show "map_of (effects out) k = (if k \<in> fst ` set ds then Some (decls_at ds k) else None)"
    using get keys domIff [of k "map_of (effects out)"]
    by (auto simp: amap_get_def dom_map_of_conv_image_fst simp del: domIff split: option.splits)
  show "fst ` set (effects out) = fst ` set ds" by (fact keys)
  show "distinct (map fst (effects out))"
    using assms by (simp add: extends_def ok_out_def)
qed

lemma extends_new_set:
  assumes "extends ds new_module_effects out"
  shows "set (effects out) = (\<lambda>k. (k, decls_at ds k)) ` fst ` set ds"
proof -
  have "p \<in> set (effects out) \<longleftrightarrow> p \<in> (\<lambda>k. (k, decls_at ds k)) ` fst ` set ds" for p
  proof (cases p)
    case (Pair k es)
    have "(k, es) \<in> set (effects out) \<longleftrightarrow> map_of (effects out) k = Some es"
      using extends_new(3) [OF assms] by simp
    also have "\<dots> \<longleftrightarrow> k \<in> fst ` set ds \<and> es = decls_at ds k"
      unfolding extends_new(1) [OF assms] by (cases "k \<in> fst ` set ds") auto
    finally show ?thesis unfolding Pair by (simp add: image_iff)
  qed
  then show ?thesis by blast
qed

lemma remove_noeffects_spec:
  assumes "extends ds new_module_effects out"
  shows "map_option table_get (remove_noeffects (remove_unknown_effects (effects out))) = stub_spec ds"
proof -
  let ?t = "effects out"
  note facts = extends_new [OF assms]
  have conflict: "list_ex (\<lambda>(name, es). has_noeffects es = None) (table_map settled ?t) \<longleftrightarrow>
      list_ex (\<lambda>k. conflicting (decls_at ds k)) (map fst ds)" (is "?l \<longleftrightarrow> ?r")
  proof -
    have "?l \<longleftrightarrow> (\<exists>(name, es) \<in> set ?t. conflicting es)"
      by (auto simp add: list_ex_iff table_map_def has_noeffects_settled case_prod_unfold split: if_splits)
    also have "set ?t = (\<lambda>k. (k, decls_at ds k)) ` fst ` set ds"
      by (rule extends_new_set [OF assms])
    finally show ?thesis by (auto simp: list_ex_iff)
  qed
  have get: "table_get (table_retain (\<lambda>name es. has_noeffects es = Some False) (table_map settled ?t)) k =
      (if k \<in> set (map fst ds) \<and> \<not> declares_safe (decls_at ds k)
       then Some (settled (decls_at ds k)) else None)"
    if "\<not> ?r" for k
    using that facts
    by (auto simp: table_get_def map_of_table_retain has_noeffects_settled list_ex_iff
        split: option.splits)
  show ?thesis
    using get by (auto simp: remove_noeffects_def remove_unknown_settled conflict stub_spec_def
        intro!: ext)
qed

lemma analyze_stub_decls:
  "map_option (\<lambda>out. table_get (effects out)) (analyze_stub cfg body) =
     stub_spec (module_decls cfg body)"
proof -
  obtain out where
    out: "stmts_effects cfg body (enter_module_scope (stub_module cfg) new_cursor, new_module_effects) =
       Some (enter_module_scope (stub_module cfg) new_cursor, out)"
    "extends (module_decls cfg body) new_module_effects out"
    by (rule module_implements)
  show ?thesis
    using remove_noeffects_spec [OF out(2)]
    by (simp add: analyze_stub_def out(1) option.map_comp comp_def)
qed

text \<open>
  C4: The stub analyzer computes its specification. For every stub and configuration, the
  analysis panics exactly when some name is declared both \<open>no-effects\<close> and some other effect;
  otherwise the name's entry holds its declared effects in source order, without the unknown
  effects where anything else is declared, and names declared safe have no entry.
\<close>

theorem analyze_stub_spec:
  "map_option (\<lambda>out. table_get (effects out)) (analyze_stub cfg body) =
     stub_spec (module_decls cfg body)"
  by (rule analyze_stub_decls)

end
