(* ===== verification/Overload_Merger.thy ===== *)
theory Overload_Merger
  imports Stub_Syntax
begin

text \<open>
  The stub normalizer \<open>resources/scripts/merge_overload_effects.py\<close>: the transformer that moves
  the effects of a run of overloads into the first one. \<open>code_for\<close> stands for
  \<open>cst.Module([]).code_for_node\<close>, the printer of \<open>libcst\<close>, which is not part of the
  repository; its results are only compared, so their type is left open.
\<close>

section \<open>Tests on nodes\<close>

fun is_overload :: "stmt \<Rightarrow> bool" where
  "is_overload (FunctionDef r n ds ps b) = list_ex (\<lambda>d. d = Name ''overload'') ds"
| "is_overload _ = False"

definition is_ellipsis_expr :: "small_stmt \<Rightarrow> bool" where
  "is_ellipsis_expr s \<longleftrightarrow> s = Expr Ellipsis"

fun get_trailing_whitespace :: "suite \<Rightarrow> string option" where
  "get_trailing_whitespace (SimpleStatementSuite body ws) = Some ws"
| "get_trailing_whitespace (IndentedBlock body header footer) = None"

fun get_header :: "suite \<Rightarrow> string" where
  "get_header (IndentedBlock body header footer) = header"
| "get_header (SimpleStatementSuite body ws) = ''''"

fun get_footer :: "suite \<Rightarrow> string list" where
  "get_footer (IndentedBlock body header footer) = footer"
| "get_footer (SimpleStatementSuite body ws) = []"

fun is_string_expr :: "expr \<Rightarrow> bool" where
  "is_string_expr (SimpleString s) = True"
| "is_string_expr (ConcatenatedString l r) = True"
| "is_string_expr _ = False"

fun is_docstring_line :: "stmt \<Rightarrow> bool" where
  "is_docstring_line (SimpleStatementLine [Expr e] ws) = is_string_expr e"
| "is_docstring_line _ = False"

fun extract_docstring :: "suite \<Rightarrow> stmt option" where
  "extract_docstring (IndentedBlock (first # rest) header footer) =
     (if is_docstring_line first then Some first else None)"
| "extract_docstring _ = None"

section \<open>Effects of a body\<close>

fun is_ellipsis_line :: "stmt \<Rightarrow> bool" where
  "is_ellipsis_line (SimpleStatementLine body ws) = list_ex is_ellipsis_expr body"
| "is_ellipsis_line _ = False"

fun extract_effects :: "suite \<Rightarrow> stmt list" where
  "extract_effects (SimpleStatementSuite body ws) =
     map (\<lambda>s. SimpleStatementLine [s] ws) (filter (\<lambda>s. \<not> is_ellipsis_expr s) body)"
| "extract_effects (IndentedBlock body header footer) =
     (let skip_first = extract_docstring (IndentedBlock body header footer) \<noteq> None in
      filter (\<lambda>s. \<not> is_ellipsis_line s) (if skip_first then drop 1 body else body))"

section \<open>New bodies\<close>

definition create_inline_ellipsis :: "string option \<Rightarrow> suite" where
  "create_inline_ellipsis trailing_ws =
     SimpleStatementSuite [Expr Ellipsis] (case trailing_ws of None \<Rightarrow> '''' | Some ws \<Rightarrow> ws)"

definition ellipsis_line :: stmt where
  "ellipsis_line = SimpleStatementLine [Expr Ellipsis] ''''"

definition create_merged_body ::
  "stmt list \<Rightarrow> stmt option \<Rightarrow> string \<Rightarrow> string list \<Rightarrow> string option \<Rightarrow> suite" where
  "create_merged_body effects docstring header footer trailing_ws =
     (if effects = [] \<and> docstring = None then create_inline_ellipsis trailing_ws
      else
        let doc = (case docstring of None \<Rightarrow> [] | Some d \<Rightarrow> [d]);
            body_stmts = doc @ (if effects \<noteq> [] then effects
                                else if docstring \<noteq> None then [ellipsis_line] else []);
            block = IndentedBlock body_stmts header footer in
        if length effects = 1 \<and> docstring = None then
          (case hd effects of
             SimpleStatementLine body ws \<Rightarrow> SimpleStatementSuite body ws
           | _ \<Rightarrow> block)
        else block)"

definition create_ellipsis_body ::
  "stmt option \<Rightarrow> string \<Rightarrow> string list \<Rightarrow> string option \<Rightarrow> suite" where
  "create_ellipsis_body docstring header footer trailing_ws =
     (case docstring of
        None \<Rightarrow> create_inline_ellipsis trailing_ws
      | Some d \<Rightarrow> IndentedBlock [d, ellipsis_line] header footer)"

section \<open>Merging a group\<close>

text \<open>The loop that collects the effects, with \<open>seen_effects\<close> and \<open>all_effects\<close>.\<close>

fun collect_effects :: "(stmt \<Rightarrow> 'c) \<Rightarrow> 'c set \<Rightarrow> stmt list \<Rightarrow> stmt list \<Rightarrow> stmt list" where
  "collect_effects code_for seen acc [] = acc"
| "collect_effects code_for seen acc (e # es) =
     (if code_for e \<in> seen then collect_effects code_for seen acc es
      else collect_effects code_for (insert (code_for e) seen) (acc @ [e]) es)"

fun fun_body :: "stmt \<Rightarrow> suite" where
  "fun_body (FunctionDef r n ds ps b) = b"
| "fun_body _ = SimpleStatementSuite [] ''''"

fun with_body :: "suite \<Rightarrow> stmt \<Rightarrow> stmt" where
  "with_body b' (FunctionDef r n ds ps b) = FunctionDef r n ds ps b'"
| "with_body b' s = s"

definition merged_first :: "(stmt \<Rightarrow> 'c) \<Rightarrow> stmt list \<Rightarrow> stmt \<Rightarrow> stmt" where
  "merged_first code_for overloads first =
     (let body = fun_body first;
          all_effects =
            collect_effects code_for {} [] (concat (map (\<lambda>o'. extract_effects (fun_body o')) overloads))
      in with_body
           (create_merged_body all_effects (extract_docstring body) (get_header body)
             (get_footer body) (get_trailing_whitespace body)) first)"

definition emptied_overload :: "stmt \<Rightarrow> stmt" where
  "emptied_overload overload =
     (let body = fun_body overload in
      with_body
        (create_ellipsis_body (extract_docstring body) (get_header body) (get_footer body)
          (get_trailing_whitespace body)) overload)"

definition merge_overload_group :: "(stmt \<Rightarrow> 'c) \<Rightarrow> stmt list \<Rightarrow> stmt list" where
  "merge_overload_group code_for overloads =
     (if length overloads < 2 then overloads
      else merged_first code_for overloads (hd overloads)
             # map emptied_overload (tl overloads))"

text \<open>
  The loop over the statements: \<open>same_group\<close> is the test of the inner loop, which runs over
  the statements after an overload.
\<close>

definition same_group :: "string option \<Rightarrow> stmt \<Rightarrow> bool" where
  "same_group func_name s \<longleftrightarrow> is_overload s \<and> fun_name s = func_name"

function process_statements :: "(stmt \<Rightarrow> 'c) \<Rightarrow> stmt list \<Rightarrow> stmt list" where
  "process_statements code_for [] = []"
| "process_statements code_for (s # ss) =
     (if is_overload s then
        merge_overload_group code_for (s # takeWhile (same_group (fun_name s)) ss)
          @ process_statements code_for (dropWhile (same_group (fun_name s)) ss)
      else s # process_statements code_for ss)"
  by pat_completeness auto
termination
  by (relation "measure (\<lambda>(_, ss). length ss)") (auto simp: less_Suc_eq_le length_dropWhile_le)

section \<open>The traversal\<close>

text \<open>
  \<open>leave_Module\<close> and \<open>leave_ClassDef\<close> run after the children were visited. A class body that
  is an inline suite holds small statements only, which \<open>_process_statements\<close> leaves alone.
\<close>

fun process_suite :: "(stmt \<Rightarrow> 'c) \<Rightarrow> suite \<Rightarrow> suite" where
  "process_suite code_for (IndentedBlock body header footer) =
     IndentedBlock (process_statements code_for body) header footer"
| "process_suite code_for (SimpleStatementSuite body ws) = SimpleStatementSuite body ws"

fun visit_stmt :: "(stmt \<Rightarrow> 'c) \<Rightarrow> stmt \<Rightarrow> stmt"
and visit_suite :: "(stmt \<Rightarrow> 'c) \<Rightarrow> suite \<Rightarrow> suite" where
  "visit_stmt code_for (FunctionDef r n ds ps b) = FunctionDef r n ds ps (visit_suite code_for b)"
| "visit_stmt code_for (ClassDef n bs b) =
     ClassDef n bs (process_suite code_for (visit_suite code_for b))"
| "visit_stmt code_for (Compound h branches) =
     Compound h (map (\<lambda>(t, b). (t, visit_suite code_for b)) branches)"
| "visit_stmt code_for (SimpleStatementLine body ws) = SimpleStatementLine body ws"
| "visit_suite code_for (IndentedBlock body header footer) =
     IndentedBlock (map (visit_stmt code_for) body) header footer"
| "visit_suite code_for (SimpleStatementSuite body ws) = SimpleStatementSuite body ws"

definition transform_module :: "(stmt \<Rightarrow> 'c) \<Rightarrow> stmt list \<Rightarrow> stmt list" where
  "transform_module code_for body = process_statements code_for (map (visit_stmt code_for) body)"

text \<open>
  \<open>merge_overload_effects(content)\<close>: parse, transform, print; a parse error is printed and
  raised again. The parser and the printer belong to \<open>libcst\<close>.
\<close>

definition merge_overload_effects ::
  "('s \<Rightarrow> 'e + stmt list) \<Rightarrow> (stmt list \<Rightarrow> 's) \<Rightarrow> (stmt \<Rightarrow> 'c) \<Rightarrow> 's \<Rightarrow> 'e + 's" where
  "merge_overload_effects parse_module code code_for content =
     (case parse_module content of
        Inl e \<Rightarrow> Inl e
      | Inr body \<Rightarrow> Inr (code (transform_module code_for body)))"

section \<open>What the merge leaves alone\<close>

text \<open>A stub without the bodies of its functions.\<close>

fun skeleton :: "stmt \<Rightarrow> stmt"
and skeleton_suite :: "suite \<Rightarrow> suite" where
  "skeleton (FunctionDef r n ds ps b) = FunctionDef r n ds ps (SimpleStatementSuite [] '''')"
| "skeleton (ClassDef n bs b) = ClassDef n bs (skeleton_suite b)"
| "skeleton (Compound h branches) = Compound h (map (\<lambda>(t, b). (t, skeleton_suite b)) branches)"
| "skeleton (SimpleStatementLine body ws) = SimpleStatementLine body ws"
| "skeleton_suite (IndentedBlock body header footer) = IndentedBlock (map skeleton body) header footer"
| "skeleton_suite (SimpleStatementSuite body ws) = SimpleStatementSuite body ws"

lemma is_overload_cases:
  assumes "is_overload s"
  obtains r n ds ps b where "s = FunctionDef r n ds ps b"
  using assms by (cases s) simp_all

lemma with_body_facts [simp]:
  "is_overload s \<Longrightarrow> fun_body (with_body b s) = b"
  "fun_name (with_body b s) = fun_name s"
  "is_overload (with_body b s) = is_overload s"
  "skeleton (with_body b s) = skeleton s"
  by (cases s; simp)+

lemma skeleton_merged [simp]:
  "skeleton (merged_first cf g s) = skeleton s" "skeleton (emptied_overload s) = skeleton s"
  by (simp_all add: merged_first_def emptied_overload_def Let_def)

lemma skeleton_merge_group [simp]:
  "map skeleton (merge_overload_group cf g) = map skeleton g"
  by (cases g) (simp_all add: merge_overload_group_def comp_def)

lemma skeleton_process: "map skeleton (process_statements cf ss) = map skeleton ss"
proof (induction cf ss rule: process_statements.induct)
  case (2 cf s ss)
  show ?case
    using 2 by (cases "is_overload s") (simp_all, metis map_append takeWhile_dropWhile_id)
qed simp

lemma skeleton_visit:
  "skeleton (visit_stmt cf s) = skeleton s"
  "skeleton_suite (process_suite cf (visit_suite cf b)) = skeleton_suite b \<and>
   skeleton_suite (visit_suite cf b) = skeleton_suite b"
proof (induction s and b rule: skeleton_skeleton_suite.induct)
  case (3 h branches)
  then show ?case by (auto simp: comp_def)
next
  case (5 body header footer)
  then have "map skeleton (map (visit_stmt cf) body) = map skeleton body" by simp
  then show ?case by (simp add: skeleton_process del: map_map)
qed simp_all

section \<open>What the merge establishes\<close>

fun bare_body :: "suite \<Rightarrow> bool" where
  "bare_body (SimpleStatementSuite body ws) = (body = [Expr Ellipsis])"
| "bare_body (IndentedBlock body header footer) =
     (case body of [d, e] \<Rightarrow> is_docstring_line d \<and> e = ellipsis_line | _ \<Rightarrow> False)"

text \<open>Next to each other, only the first of several overloads of one name has effects.\<close>

fun merged_list :: "stmt list \<Rightarrow> bool" where
  "merged_list (s # t # ss) =
     ((is_overload s \<and> is_overload t \<and> fun_name s = fun_name t \<longrightarrow> bare_body (fun_body t)) \<and>
      merged_list (t # ss))"
| "merged_list _ = True"

fun merged_stmt :: "stmt \<Rightarrow> bool"
and merged_class_body :: "suite \<Rightarrow> bool"
and merged_body :: "suite \<Rightarrow> bool" where
  "merged_stmt (FunctionDef r n ds ps b) = merged_body b"
| "merged_stmt (ClassDef n bs b) = merged_class_body b"
| "merged_stmt (Compound h branches) = (\<forall>(t, b)\<in>set branches. merged_body b)"
| "merged_stmt (SimpleStatementLine body ws) = True"
| "merged_class_body (IndentedBlock body header footer) =
     (merged_list body \<and> (\<forall>s\<in>set body. merged_stmt s))"
| "merged_class_body (SimpleStatementSuite body ws) = True"
| "merged_body (IndentedBlock body header footer) = (\<forall>s\<in>set body. merged_stmt s)"
| "merged_body (SimpleStatementSuite body ws) = True"

definition merged_module :: "stmt list \<Rightarrow> bool" where
  "merged_module body \<longleftrightarrow> merged_list body \<and> (\<forall>s\<in>set body. merged_stmt s)"

lemma extract_docstring_line: "extract_docstring b = Some d \<Longrightarrow> is_docstring_line d"
  by (induction b rule: extract_docstring.induct) (auto split: if_splits)

lemma bare_emptied: "is_overload s \<Longrightarrow> bare_body (fun_body (emptied_overload s))"
  by (auto simp: emptied_overload_def Let_def create_ellipsis_body_def create_inline_ellipsis_def
      split: option.splits dest: extract_docstring_line)

lemma merged_list_append:
  "merged_list (xs @ ys) \<longleftrightarrow> merged_list xs \<and> merged_list ys \<and>
     (xs \<noteq> [] \<and> ys \<noteq> [] \<and> is_overload (last xs) \<and> is_overload (hd ys) \<and>
        fun_name (last xs) = fun_name (hd ys) \<longrightarrow> bare_body (fun_body (hd ys)))"
proof (induction xs)
  case (Cons x xs)
  then show ?case by (cases xs; cases ys) auto
qed simp

lemma merged_list_group:
  assumes "\<forall>s\<in>set g. is_overload s"
  shows "merged_list (merge_overload_group cf g)"
proof (cases "length g < 2")
  case True
  then show ?thesis by (cases g; cases "tl g") (auto simp: merge_overload_group_def)
next
  case False
  have "merged_list (x # map emptied_overload ss)" if "\<forall>s\<in>set ss. is_overload s" for x ss
    using that by (induction ss arbitrary: x) (auto simp: bare_emptied)
  with False assms show ?thesis
    by (cases g) (auto simp: merge_overload_group_def)
qed

lemma merge_group_ends:
  assumes "g \<noteq> []"
  shows "merge_overload_group cf g \<noteq> []"
    and "fun_name (hd (merge_overload_group cf g)) = fun_name (hd g)"
    and "fun_name (last (merge_overload_group cf g)) = fun_name (last g)"
    and "is_overload (hd (merge_overload_group cf g)) = is_overload (hd g)"
proof -
  have name: "fun_name (emptied_overload s) = fun_name s" "fun_name (merged_first cf g s) = fun_name s"
    "is_overload (merged_first cf g s) = is_overload s" for s
    by (simp_all add: emptied_overload_def merged_first_def Let_def)
  obtain s ss where g: "g = s # ss" using assms by (cases g) simp_all
  have out: "merge_overload_group cf g =
      (if ss = [] then g else merged_first cf g s # map emptied_overload ss)"
    by (cases ss) (simp_all add: g merge_overload_group_def)
  show "merge_overload_group cf g \<noteq> []" by (simp add: out assms)
  show "fun_name (hd (merge_overload_group cf g)) = fun_name (hd g)"
    using name by (simp add: out) (simp add: g)
  show "fun_name (last (merge_overload_group cf g)) = fun_name (last g)"
    using name by (simp add: out last_map) (simp add: g)
  show "is_overload (hd (merge_overload_group cf g)) = is_overload (hd g)"
    using name by (simp add: out) (simp add: g)
qed

lemma process_statements_hd:
  assumes "ss \<noteq> []"
  shows "process_statements cf ss \<noteq> []"
    and "fun_name (hd (process_statements cf ss)) = fun_name (hd ss)"
    and "is_overload (hd (process_statements cf ss)) = is_overload (hd ss)"
  using assms by (cases ss; auto simp: merge_group_ends)+

lemma merged_list_process: "merged_list (process_statements cf ss)"
proof (induction cf ss rule: process_statements.induct)
  case (2 cf s ss)
  show ?case
  proof (cases "is_overload s")
    case True
    define g where "g = s # takeWhile (same_group (fun_name s)) ss"
    define rest where "rest = dropWhile (same_group (fun_name s)) ss"
    have g: "g \<noteq> []" "\<forall>t\<in>set g. is_overload t \<and> fun_name t = fun_name s"
      using True by (auto simp: g_def same_group_def dest: set_takeWhileD)
    then have "merged_list (merge_overload_group cf g)"
        "fun_name (last (merge_overload_group cf g)) = fun_name s"
      by (simp_all add: merged_list_group merge_group_ends)
    moreover have "merged_list (process_statements cf rest)"
      using 2(1) [OF True] by (simp add: rest_def)
    moreover have "\<not> (is_overload (hd (process_statements cf rest)) \<and>
        fun_name (hd (process_statements cf rest)) = fun_name s)" if "process_statements cf rest \<noteq> []"
    proof -
      from that have "rest \<noteq> []" by (cases rest) simp_all
      moreover from this have "\<not> same_group (fun_name s) (hd rest)"
        unfolding rest_def by (rule hd_dropWhile)
      ultimately show ?thesis
        by (simp add: process_statements_hd same_group_def)
    qed
    ultimately have "merged_list (merge_overload_group cf g @ process_statements cf rest)"
      unfolding merged_list_append by metis
    then show ?thesis by (simp add: True g_def rest_def)
  next
    case False
    with 2 show ?thesis by (cases "process_statements cf ss") auto
  qed
qed simp

lemma merged_with_body: "is_overload s \<Longrightarrow> merged_stmt (with_body b s) = merged_body b"
  by (cases s) simp_all

lemma docstring_line_merged: "is_docstring_line s \<Longrightarrow> merged_stmt s"
  by (cases s) simp_all

lemma merged_create_merged_body:
  assumes "\<forall>e\<in>set es. merged_stmt e" "\<forall>d. doc = Some d \<longrightarrow> merged_stmt d"
  shows "merged_body (create_merged_body es doc h f ws)"
  using assms
  by (auto simp: create_merged_body_def create_inline_ellipsis_def ellipsis_line_def Let_def
      split: option.splits stmt.splits)

lemma merged_create_ellipsis_body:
  "\<forall>d. doc = Some d \<longrightarrow> merged_stmt d \<Longrightarrow> merged_body (create_ellipsis_body doc h f ws)"
  by (auto simp: create_ellipsis_body_def create_inline_ellipsis_def ellipsis_line_def
      split: option.splits)

lemma merged_extract_docstring: "\<forall>d. extract_docstring b = Some d \<longrightarrow> merged_stmt d"
  by (auto dest: extract_docstring_line docstring_line_merged)

lemma merged_extract_effects:
  "merged_body b \<Longrightarrow> e \<in> set (extract_effects b) \<Longrightarrow> merged_stmt e"
  by (cases b) (auto split: if_splits dest: in_set_dropD)

lemma set_collect_effects: "set (collect_effects cf seen acc es) \<subseteq> set acc \<union> set es"
  by (induction cf seen acc es rule: collect_effects.induct) auto

lemma merged_merge_group:
  assumes "\<forall>s\<in>set g. is_overload s \<and> merged_stmt s"
  shows "list_all merged_stmt (merge_overload_group cf g)"
proof -
  have body: "merged_body (fun_body s)" if "s \<in> set g" for s
    using assms that by (auto elim!: is_overload_cases dest!: bspec)
  let ?es = "concat (map (\<lambda>o'. extract_effects (fun_body o')) g)"
  have "\<forall>e\<in>set (collect_effects cf {} [] ?es). merged_stmt e"
    using set_collect_effects [of cf "{}" "[]" ?es] body
    by (fastforce dest: merged_extract_effects)
  then have "merged_stmt (merged_first cf g s)" if "s \<in> set g" for s
    using assms that
    by (simp add: merged_first_def Let_def merged_with_body merged_create_merged_body
        merged_extract_docstring)
  moreover have "merged_stmt (emptied_overload s)" if "s \<in> set g" for s
    using assms that
    by (simp add: emptied_overload_def Let_def merged_with_body merged_create_ellipsis_body
        merged_extract_docstring)
  ultimately show ?thesis
    using assms by (cases g) (auto simp: merge_overload_group_def list_all_iff)
qed

lemma merged_process:
  "list_all merged_stmt ss \<Longrightarrow> list_all merged_stmt (process_statements cf ss)"
proof (induction cf ss rule: process_statements.induct)
  case (2 cf s ss)
  show ?case
  proof (cases "is_overload s")
    case True
    let ?g = "s # takeWhile (same_group (fun_name s)) ss"
    have "\<forall>s\<in>set ?g. is_overload s \<and> merged_stmt s"
      using 2(3) True by (auto simp: same_group_def list_all_iff dest: set_takeWhileD)
    then have "list_all merged_stmt (merge_overload_group cf ?g)"
      by (rule merged_merge_group)
    moreover have "list_all merged_stmt (dropWhile (same_group (fun_name s)) ss)"
      using 2(3) by (auto simp: list_all_iff dest: set_dropWhileD)
    ultimately show ?thesis
      using 2(1) [OF True] by (simp add: True)
  next
    case False
    with 2 show ?thesis by auto
  qed
qed simp

lemma merged_visit:
  "merged_stmt (visit_stmt cf s)"
  "merged_body (visit_suite cf b) \<and> merged_class_body (process_suite cf (visit_suite cf b))"
proof (induction cf s and cf b rule: visit_stmt_visit_suite.induct)
  case (3 cf h branches)
  then show ?case by auto
next
  case (5 cf body header footer)
  then have "list_all merged_stmt (map (visit_stmt cf) body)" by (auto simp: list_all_iff)
  then have "list_all merged_stmt (process_statements cf (map (visit_stmt cf) body))"
    by (rule merged_process)
  with 5 show ?case by (auto simp: merged_list_process list_all_iff)
qed simp_all

text \<open>
  The merger changes nothing but bodies of functions. Every statement, class, branch and
  function keeps its place, name, decorators and parameters.
\<close>

theorem transform_module_skeleton:
  "map skeleton (transform_module code_for body) = map skeleton body"
  by (simp add: transform_module_def skeleton_process skeleton_visit comp_def)

text \<open>
  After the merge, in the module and in every class body at any depth, no overload that
  directly follows an overload of its name keeps an effect: its body is \<open>...\<close>, or its docstring
  and \<open>...\<close>.
\<close>

theorem transform_module_merged:
  "merged_module (transform_module code_for body)"
proof -
  have "list_all merged_stmt (map (visit_stmt code_for) body)"
    by (simp add: list_all_iff merged_visit)
  then have "list_all merged_stmt (transform_module code_for body)"
    unfolding transform_module_def by (rule merged_process)
  then show ?thesis
    by (simp add: merged_module_def transform_module_def merged_list_process list_all_iff)
qed

end
