(* ===== verification/Stub_Normalization.thy ===== *)
theory Stub_Normalization
  imports Stub_Semantics Overload_Merger
begin

text \<open>
  Where the two readers of stubs meet: the overload merger rewrites the files that the stub
  analyzer reads, so merging must not change what the analyzer finds. The theory relates the
  declarations of a stub before and after the merge.
\<close>

section \<open>Effects of simple statements\<close>

fun small_effs :: "small_stmt \<Rightarrow> effect list" where
  "small_effs (Expr e) = (case get_call_effect e of None \<Rightarrow> [] | Some eff \<Rightarrow> [eff])"
| "small_effs (OtherSmall t) = []"

fun line_effs :: "stmt \<Rightarrow> effect list" where
  "line_effs (SimpleStatementLine body ws) = concat (map small_effs body)"
| "line_effs _ = []"

definition suite_effs :: "suite \<Rightarrow> effect list" where
  "suite_effs b = concat (map line_effs (suite_stmts b))"

text \<open>What an effect says, apart from its position in the file.\<close>

definition facts :: "effect list \<Rightarrow> (effect_kind \<times> string) set" where
  "facts es = (\<lambda>e. (eff_kind e, eff_name e)) ` set es"

lemma facts_simps [simp]:
  "facts [] = {}" "facts (es @ fs) = facts es \<union> facts fs"
  "facts es = {} \<longleftrightarrow> es = []"
  by (auto simp: facts_def)

lemma facts_concat: "facts (concat ess) = \<Union> (facts ` set ess)"
  by (auto simp: facts_def)

lemma small_decls_effs: "small_decls sc = (\<lambda>s. map (Pair sc) (small_effs s))"
proof
  show "small_decls sc s = map (Pair sc) (small_effs s)" for s
    by (cases s) (simp_all split: option.splits)
qed

text \<open>
  Suites of simple lines only, with no line that mixes \<open>...\<close> and a declared effect: the merger
  drops such a line with its effect.
\<close>

fun plain_line :: "stmt \<Rightarrow> bool" where
  "plain_line (SimpleStatementLine body ws) =
     (\<not> is_ellipsis_line (SimpleStatementLine body ws) \<or> line_effs (SimpleStatementLine body ws) = [])"
| "plain_line _ = False"

fun plain_suite :: "suite \<Rightarrow> bool" where
  "plain_suite (IndentedBlock body header footer) = list_all plain_line body"
| "plain_suite (SimpleStatementSuite body ws) = True"

lemma plain_line_decls: "plain_line s \<Longrightarrow> stmt_decls cfg sc s = map (Pair sc) (line_effs s)"
  by (cases s) (simp_all add: map_concat comp_def small_decls_effs)

lemma plain_ellipsis_line: "plain_line s \<Longrightarrow> is_ellipsis_line s \<Longrightarrow> line_effs s = []"
  by (cases s) simp_all

lemma plain_suite_decls:
  assumes "plain_suite b" shows "suite_decls cfg sc b = map (Pair sc) (suite_effs b)"
proof (cases b)
  case (IndentedBlock body header footer)
  with assms have "map (stmt_decls cfg sc) body = map (map (Pair sc) \<circ> line_effs) body"
    by (auto simp: list_all_iff plain_line_decls)
  with IndentedBlock show ?thesis
    by (simp add: suite_effs_def map_concat comp_def del: map_eq_conv)
next
  case (SimpleStatementSuite body ws)
  then show ?thesis by (simp add: suite_effs_def map_concat comp_def small_decls_effs)
qed

lemma docstring_line_effs: "is_docstring_line s \<Longrightarrow> line_effs s = []"
  by (induction s rule: is_docstring_line.induct) (auto elim!: is_string_expr.elims)

lemma extract_docstring_facts:
  "extract_docstring b = Some d \<Longrightarrow> line_effs d = [] \<and> (\<exists>body ws. d = SimpleStatementLine body ws)"
  by (induction b rule: extract_docstring.induct)
    (auto split: if_splits dest: docstring_line_effs elim: is_docstring_line.elims)

lemma extract_effects_facts:
  assumes "plain_suite b"
  shows "facts (concat (map line_effs (extract_effects b))) = facts (suite_effs b)"
proof (cases b)
  case (SimpleStatementSuite body ws)
  have "small_effs s = []" if "is_ellipsis_expr s" for s
    using that by (simp add: is_ellipsis_expr_def)
  then show ?thesis
    by (auto simp: SimpleStatementSuite suite_effs_def facts_concat)
next
  case (IndentedBlock body header footer)
  have skip: "facts (concat (map line_effs (filter (\<lambda>s. \<not> is_ellipsis_line s) xs))) =
      facts (concat (map line_effs xs))" if "list_all plain_line xs" for xs
    using that by (induction xs) (simp_all add: plain_ellipsis_line del: plain_line.simps)
  show ?thesis
  proof (cases "extract_docstring b")
    case None
    with IndentedBlock assms show ?thesis by (simp add: suite_effs_def skip)
  next
    case (Some d)
    with IndentedBlock obtain rest where "body = d # rest"
      by (cases body) (auto split: if_splits)
    with IndentedBlock Some assms show ?thesis
      using extract_docstring_facts [OF Some] by (simp add: suite_effs_def skip)
  qed
qed

section \<open>Collecting the effects of a group\<close>

text \<open>
  What the merger relies on in the printer of \<open>libcst\<close>: nodes with the same code declare the
  same effects.
\<close>

definition code_determines_effects :: "(stmt \<Rightarrow> 'c) \<Rightarrow> bool" where
  "code_determines_effects code_for \<longleftrightarrow>
     (\<forall>s t. code_for s = code_for t \<longrightarrow> facts (line_effs s) = facts (line_effs t))"

lemma collect_effects_append:
  "collect_effects cf seen acc es = acc @ collect_effects cf seen [] es"
proof (induction es arbitrary: seen acc)
  case (Cons e es)
  show ?case
    using Cons.IH [of "insert (cf e) seen" "acc @ [e]"] Cons.IH [of "insert (cf e) seen" "[e]"]
      Cons.IH [of seen acc] by simp
qed simp

lemma code_collect_effects:
  "cf ` set acc = seen \<Longrightarrow> cf ` set (collect_effects cf seen acc es) = seen \<union> cf ` set es"
  by (induction cf seen acc es rule: collect_effects.induct) auto

lemma distinct_collect_effects:
  "distinct (map cf acc) \<Longrightarrow> cf ` set acc = seen \<Longrightarrow>
     distinct (map cf (collect_effects cf seen acc es))"
  by (induction cf seen acc es rule: collect_effects.induct) auto

lemma collect_effects_facts:
  assumes "code_determines_effects cf"
  shows "facts (concat (map line_effs (collect_effects cf {} [] es))) = facts (concat (map line_effs es))"
proof -
  have codes: "cf ` set (collect_effects cf {} [] es) = cf ` set es"
    using code_collect_effects [of cf "[]" "{}" es] by simp
  have "(\<Union>s\<in>A. facts (line_effs s)) \<subseteq> (\<Union>s\<in>B. facts (line_effs s))" if "cf ` A \<subseteq> cf ` B" for A B
  proof (rule UN_least)
    fix s assume "s \<in> A"
    with that obtain t where "t \<in> B" "cf s = cf t" by auto
    with assms show "facts (line_effs s) \<subseteq> (\<Union>s\<in>B. facts (line_effs s))"
      unfolding code_determines_effects_def by blast
  qed
  then show ?thesis using codes by (simp add: facts_concat image_image set_eq_subset)
qed

lemma suite_effs_merged_body:
  assumes "\<forall>d. doc = Some d \<longrightarrow> line_effs d = []"
  shows "suite_effs (create_merged_body es doc h f ws) = concat (map line_effs es)"
proof -
  have one: "\<exists>e. es = [e]" if "length es = 1" using that by (cases es) auto
  show ?thesis
    using assms one
    by (auto simp: create_merged_body_def create_inline_ellipsis_def ellipsis_line_def
        suite_effs_def Let_def comp_def split: option.splits stmt.splits)
qed

lemma suite_effs_ellipsis_body:
  assumes "\<forall>d. doc = Some d \<longrightarrow> line_effs d = []"
  shows "suite_effs (create_ellipsis_body doc h f ws) = []"
  using assms
  by (auto simp: create_ellipsis_body_def create_inline_ellipsis_def ellipsis_line_def
      suite_effs_def split: option.splits)

section \<open>Declarations up to position, order and unknown effects\<close>

definition essence :: "(modname \<times> effect) list \<Rightarrow> (modname \<times> effect_kind \<times> string) set" where
  "essence ds =
     (\<lambda>(k, e). (k, eff_kind e, eff_name e)) ` {p \<in> set ds. eff_kind (snd p) \<noteq> UnknownEffects}"

definition same_decls :: "(modname \<times> effect) list \<Rightarrow> (modname \<times> effect) list \<Rightarrow> bool" where
  "same_decls ds ds' \<longleftrightarrow> fst ` set ds = fst ` set ds' \<and> essence ds = essence ds'"

lemma essence_simps [simp]:
  "essence [] = {}" "essence (ds @ es) = essence ds \<union> essence es"
  by (auto simp: essence_def)

lemma same_decls_refl: "same_decls ds ds"
  by (simp add: same_decls_def)

lemma same_decls_trans: "same_decls ds es \<Longrightarrow> same_decls es fs \<Longrightarrow> same_decls ds fs"
  by (simp add: same_decls_def)

lemma same_decls_append:
  "same_decls ds ds' \<Longrightarrow> same_decls es es' \<Longrightarrow> same_decls (ds @ es) (ds' @ es')"
  by (simp add: same_decls_def image_Un)

lemma same_decls_Nil: "same_decls ds ds' \<Longrightarrow> ds = [] \<longleftrightarrow> ds' = []"
  by (auto simp: same_decls_def)

lemma same_decls_concat:
  "list_all2 same_decls dss dss' \<Longrightarrow> same_decls (concat dss) (concat dss')"
  by (induction rule: list_all2_induct) (auto intro: same_decls_refl same_decls_append)

lemma same_decls_map:
  "(\<And>x. x \<in> set xs \<Longrightarrow> same_decls (f x) (g x)) \<Longrightarrow>
     same_decls (concat (map f xs)) (concat (map g xs))"
  by (rule same_decls_concat) (simp add: list_all2_map1 list_all2_map2 list_all2_same)

lemma same_decls_branch:
  assumes "list_all2 same_decls dss dss'"
  shows "same_decls (branch_decls cfg h ts dss) (branch_decls cfg h ts dss')"
  unfolding branch_decls_def
  using assms
  by (auto simp: list_all2_conv_all_nth case_prod_unfold
      intro!: same_decls_map same_decls_refl)

lemma essence_body_decls: "essence (body_decls cfg sc r ds) = essence ds"
  by (simp add: body_decls_def essence_def new_effect_def)

lemma same_decls_body:
  "same_decls ds ds' \<Longrightarrow> same_decls (body_decls cfg sc r ds) (body_decls cfg sc r ds')"
  using same_decls_Nil [of ds ds'] by (auto simp: body_decls_def same_decls_refl)

lemma essence_map_Pair:
  "essence (map (Pair sc) es) = Pair sc ` {f \<in> facts es. fst f \<noteq> UnknownEffects}"
  by (auto simp: essence_def facts_def image_iff)

section \<open>Merging a group keeps its declarations\<close>

text \<open>The declarations of an overload whose body is plain.\<close>

lemma plain_function_decls:
  assumes "plain_suite b"
  shows "stmt_decls cfg sc (FunctionDef r n ds ps b) =
    body_decls cfg (append_str sc n) r (map (Pair (append_str sc n)) (suite_effs b))"
  using assms by (simp add: plain_suite_decls)

definition group_facts :: "stmt list \<Rightarrow> (effect_kind \<times> string) set" where
  "group_facts g = (\<Union>s\<in>set g. facts (suite_effs (fun_body s)))"

lemma group_decls:
  assumes "\<forall>s\<in>set g. (\<exists>r ds ps b. s = FunctionDef r n ds ps b) \<and> plain_suite (fun_body s)"
    and "g \<noteq> []"
  shows "essence (concat (map (stmt_decls cfg sc) g)) =
      Pair (append_str sc n) ` {f \<in> group_facts g. fst f \<noteq> UnknownEffects}" (is ?e)
    and "fst ` set (concat (map (stmt_decls cfg sc) g)) =
      (if is_thrift_generated cfg \<and> group_facts g = {} then {} else {append_str sc n})" (is ?k)
proof -
  let ?sc = "append_str sc n"
  have one: "essence (stmt_decls cfg sc s) =
        Pair ?sc ` {f \<in> facts (suite_effs (fun_body s)). fst f \<noteq> UnknownEffects} \<and>
      fst ` set (stmt_decls cfg sc s) =
        (if is_thrift_generated cfg \<and> facts (suite_effs (fun_body s)) = {} then {} else {?sc})"
    if "s \<in> set g" for s
  proof -
    obtain r ds ps b where s: "s = FunctionDef r n ds ps b" and "plain_suite b"
      using assms(1) \<open>s \<in> set g\<close> by fastforce
    then have "stmt_decls cfg sc s = body_decls cfg ?sc r (map (Pair ?sc) (suite_effs b))"
      by (simp only: plain_function_decls)
    moreover have "fst ` set (body_decls cfg ?sc r (map (Pair ?sc) es)) =
        (if is_thrift_generated cfg \<and> es = [] then {} else {?sc})" for es
      by (cases es) (auto simp: body_decls_def)
    ultimately show ?thesis
      by (simp add: s essence_body_decls essence_map_Pair del: stmt_decls.simps)
  qed
  have "essence (concat (map (stmt_decls cfg sc) g)) = (\<Union>s\<in>set g. essence (stmt_decls cfg sc s))"
    by (induction g) simp_all
  also have "\<dots> = (\<Union>s\<in>set g. Pair ?sc ` {f \<in> facts (suite_effs (fun_body s)). fst f \<noteq> UnknownEffects})"
    using one by simp
  also have "\<dots> = Pair ?sc ` {f \<in> group_facts g. fst f \<noteq> UnknownEffects}"
    by (auto simp: group_facts_def)
  finally show ?e .
  have "fst ` set (concat (map (stmt_decls cfg sc) g)) = (\<Union>s\<in>set g. fst ` set (stmt_decls cfg sc s))"
    by auto
  also have "\<dots> = (\<Union>s\<in>set g. if is_thrift_generated cfg \<and> facts (suite_effs (fun_body s)) = {}
      then {} else {?sc})"
    using one by simp
  also have "\<dots> = (if is_thrift_generated cfg \<and> group_facts g = {} then {} else {?sc})"
    using assms(2) by (auto simp: group_facts_def)
  finally show ?k .
qed

lemma extract_docstring_effs: "\<forall>d. extract_docstring b = Some d \<longrightarrow> line_effs d = []"
  by (auto dest: extract_docstring_facts)

lemma plain_line_extract:
  "plain_suite b \<Longrightarrow> s \<in> set (extract_effects b) \<Longrightarrow>
     plain_line s \<and> \<not> is_ellipsis_line s"
  by (cases b) (auto simp: is_ellipsis_expr_def list_all_iff split: if_splits dest: in_set_dropD)

lemma plain_docstring_line: "is_docstring_line s \<Longrightarrow> plain_line s"
  by (induction s rule: is_docstring_line.induct) (auto elim!: is_string_expr.elims)

lemma extract_docstring_plain: "extract_docstring b = Some d \<Longrightarrow> plain_line d"
  by (induction b rule: extract_docstring.induct)
    (auto split: if_splits intro: plain_docstring_line)

lemma plain_merged_body:
  assumes "\<forall>s\<in>set es. plain_line s" "\<forall>d. doc = Some d \<longrightarrow> plain_line d"
  shows "plain_suite (create_merged_body es doc h f ws)"
  using assms
  by (auto simp: create_merged_body_def create_inline_ellipsis_def ellipsis_line_def Let_def
      list_all_iff split: option.splits stmt.splits)

lemma plain_ellipsis_body:
  assumes "\<forall>d. doc = Some d \<longrightarrow> plain_line d"
  shows "plain_suite (create_ellipsis_body doc h f ws)"
  using assms
  by (auto simp: create_ellipsis_body_def create_inline_ellipsis_def ellipsis_line_def
      split: option.splits)

text \<open>A group: overloads of one name with plain bodies.\<close>

definition plain_overload :: "string option \<Rightarrow> stmt \<Rightarrow> bool" where
  "plain_overload n s \<longleftrightarrow> is_overload s \<and> fun_name s = n \<and> plain_suite (fun_body s)"

definition plain_group :: "string option \<Rightarrow> stmt list \<Rightarrow> bool" where
  "plain_group n g \<longleftrightarrow> (\<forall>s\<in>set g. plain_overload n s)"

lemma plain_group_functions:
  assumes "plain_group (Some n) g"
  shows "\<forall>s\<in>set g. (\<exists>r ds ps b. s = FunctionDef r n ds ps b) \<and> plain_suite (fun_body s)"
  using assms by (auto simp: plain_group_def plain_overload_def elim!: is_overload_cases)

lemma plain_overload_emptied:
  "plain_overload n s \<Longrightarrow> plain_overload n (emptied_overload s)"
  by (simp add: plain_overload_def emptied_overload_def Let_def plain_ellipsis_body
      extract_docstring_plain)

lemma merged_group_facts:
  assumes cf: "code_determines_effects cf" and g: "plain_group n (s # t # g)"
  shows "group_facts (merge_overload_group cf (s # t # g)) = group_facts (s # t # g)"
    and "plain_group n (merge_overload_group cf (s # t # g))"
proof -
  let ?g = "s # t # g"
  let ?es = "concat (map (\<lambda>o'. extract_effects (fun_body o')) ?g)"
  have plain: "plain_suite (fun_body o')" if "o' \<in> set ?g" for o'
    using g that by (auto simp: plain_group_def plain_overload_def)
  have first: "facts (suite_effs (fun_body (merged_first cf ?g s))) = group_facts ?g"
  proof -
    have "facts (suite_effs (fun_body (merged_first cf ?g s))) =
        facts (concat (map line_effs ?es))"
      using g cf
      by (simp add: merged_first_def Let_def suite_effs_merged_body extract_docstring_effs
          collect_effects_facts plain_group_def plain_overload_def del: concat.simps list.map)
    also have "\<dots> = (\<Union>o'\<in>set ?g. facts (concat (map line_effs (extract_effects (fun_body o')))))"
      by (auto simp: facts_concat)
    also have "\<dots> = group_facts ?g"
      using plain by (simp add: group_facts_def extract_effects_facts)
    finally show ?thesis .
  qed
  have later: "facts (suite_effs (fun_body (emptied_overload o'))) = {}" if "o' \<in> set (t # g)" for o'
    using g that
    by (auto simp: emptied_overload_def Let_def suite_effs_ellipsis_body extract_docstring_effs
        plain_group_def plain_overload_def)
  show "group_facts (merge_overload_group cf ?g) = group_facts ?g"
    using first later by (simp add: merge_overload_group_def group_facts_def)
  have "\<forall>e\<in>set (collect_effects cf {} [] ?es). plain_line e"
    using set_collect_effects [of cf "{}" "[]" ?es] plain by (auto dest!: plain_line_extract)
  then have "plain_overload n (merged_first cf ?g s)"
    using g
    by (simp add: merged_first_def Let_def plain_merged_body extract_docstring_plain plain_group_def plain_overload_def del: concat.simps list.map)
  moreover have "plain_overload n (emptied_overload o')" if "o' \<in> set (t # g)" for o'
    using g that by (auto simp: plain_group_def plain_overload_emptied)
  ultimately show "plain_group n (merge_overload_group cf ?g)"
    by (auto simp: merge_overload_group_def plain_group_def)
qed

lemma same_decls_merge_group:
  assumes cf: "code_determines_effects cf" and g: "plain_group (Some n) g"
  shows "same_decls (concat (map (stmt_decls cfg sc) g))
    (concat (map (stmt_decls cfg sc) (merge_overload_group cf g)))"
proof (cases "length g < 2")
  case True
  then show ?thesis by (simp add: merge_overload_group_def same_decls_refl)
next
  case False
  then obtain s t g' where g': "g = s # t # g'"
    by (cases g; cases "tl g") auto
  note merged = merged_group_facts [OF cf, of "Some n" s t g', folded g', OF g]
  have "merge_overload_group cf g \<noteq> []" "g \<noteq> []"
    by (simp_all add: g' merge_overload_group_def)
  then show ?thesis
    using group_decls [OF plain_group_functions [OF g], of cfg sc]
      group_decls [OF plain_group_functions [OF merged(2)], of cfg sc] merged(1)
    by (simp add: same_decls_def)
qed

lemma same_decls_process:
  assumes "code_determines_effects cf"
    and "\<forall>s\<in>set ss. is_overload s \<longrightarrow> plain_suite (fun_body s)"
  shows "same_decls (concat (map (stmt_decls cfg sc) ss))
    (concat (map (stmt_decls cfg sc) (process_statements cf ss)))"
  using assms
proof (induction cf ss rule: process_statements.induct)
  case (1 cf)
  then show ?case by (simp add: same_decls_refl)
next
  case (2 cf s ss)
  show ?case
  proof (cases "is_overload s")
    case True
    then obtain n where n: "fun_name s = Some n"
      by (auto elim: is_overload_cases)
    define g where "g = s # takeWhile (same_group (Some n)) ss"
    define rest where "rest = dropWhile (same_group (Some n)) ss"
    have "s # ss = g @ rest" by (simp add: g_def rest_def)
    have "plain_group (Some n) g"
      using 2(4) True n
      by (auto simp: g_def plain_group_def plain_overload_def same_group_def dest: set_takeWhileD)
    then have "same_decls (concat (map (stmt_decls cfg sc) g))
        (concat (map (stmt_decls cfg sc) (merge_overload_group cf g)))"
      by (rule same_decls_merge_group [OF 2(3)])
    moreover have "same_decls (concat (map (stmt_decls cfg sc) rest))
        (concat (map (stmt_decls cfg sc) (process_statements cf rest)))"
      using 2 True n by (auto simp: rest_def dest: set_dropWhileD)
    ultimately have "same_decls (concat (map (stmt_decls cfg sc) (g @ rest)))
        (concat (map (stmt_decls cfg sc) (merge_overload_group cf g @ process_statements cf rest)))"
      by (simp add: same_decls_append)
    moreover have "process_statements cf (s # ss) =
        merge_overload_group cf g @ process_statements cf rest"
      by (simp add: True n g_def rest_def)
    ultimately show ?thesis by (simp only: \<open>s # ss = g @ rest\<close>)
  next
    case False
    then show ?thesis
      using 2 by (auto intro: same_decls_append same_decls_refl)
  qed
qed

section \<open>Merging a module keeps its declarations\<close>

text \<open>Every overload of the stub, at any depth, has a plain body.\<close>

fun plain_overloads :: "stmt \<Rightarrow> bool"
and plain_overloads_in :: "suite \<Rightarrow> bool" where
  "plain_overloads (FunctionDef r n ds ps b) =
     ((is_overload (FunctionDef r n ds ps b) \<longrightarrow> plain_suite b) \<and> plain_overloads_in b)"
| "plain_overloads (ClassDef n bs b) = plain_overloads_in b"
| "plain_overloads (Compound h branches) = (\<forall>(t, b)\<in>set branches. plain_overloads_in b)"
| "plain_overloads (SimpleStatementLine body ws) = True"
| "plain_overloads_in (IndentedBlock body header footer) = (\<forall>s\<in>set body. plain_overloads s)"
| "plain_overloads_in (SimpleStatementSuite body ws) = True"

lemma visit_plain_suite: "plain_suite b \<Longrightarrow> visit_suite cf b = b"
proof (cases b)
  case (IndentedBlock body header footer)
  assume "plain_suite b"
  with IndentedBlock have "\<forall>s\<in>set body. visit_stmt cf s = s"
    by (auto simp: list_all_iff elim!: plain_line.elims)
  with IndentedBlock show ?thesis by (simp add: map_idI)
qed simp

lemma visit_overload:
  "is_overload (visit_stmt cf s) = is_overload s"
  "is_overload s \<Longrightarrow> plain_overloads s \<Longrightarrow> plain_suite (fun_body (visit_stmt cf s))"
  by (cases s; simp add: visit_plain_suite)+

lemma same_decls_visited_list:
  assumes "code_determines_effects cf" and "\<forall>s\<in>set body. plain_overloads s"
    and "\<And>s. s \<in> set body \<Longrightarrow> same_decls (stmt_decls cfg sc s) (stmt_decls cfg sc (visit_stmt cf s))"
  shows "same_decls (concat (map (stmt_decls cfg sc) body))
    (concat (map (stmt_decls cfg sc) (process_statements cf (map (visit_stmt cf) body))))"
proof (rule same_decls_trans)
  show "same_decls (concat (map (stmt_decls cfg sc) body))
      (concat (map (stmt_decls cfg sc) (map (visit_stmt cf) body)))"
    using assms(3) by (simp add: same_decls_map comp_def)
  show "same_decls (concat (map (stmt_decls cfg sc) (map (visit_stmt cf) body)))
    (concat (map (stmt_decls cfg sc) (process_statements cf (map (visit_stmt cf) body))))"
    using assms(1,2) by (intro same_decls_process) (auto simp: visit_overload)
qed

lemma same_decls_visit:
  assumes cf: "code_determines_effects cf"
  shows "plain_overloads s \<Longrightarrow> same_decls (stmt_decls cfg sc s) (stmt_decls cfg sc (visit_stmt cf s))"
    and "plain_overloads_in b \<Longrightarrow>
      same_decls (suite_decls cfg sc b) (suite_decls cfg sc (visit_suite cf b)) \<and>
      same_decls (suite_decls cfg sc b) (suite_decls cfg sc (process_suite cf (visit_suite cf b)))"
proof (induction s and b arbitrary: sc and sc rule: plain_overloads_plain_overloads_in.induct)
  case (1 r n ds ps b)
  then show ?case by (simp add: same_decls_body)
next
  case (2 n bs b)
  then show ?case by simp
next
  case (3 h branches)
  then have "list_all2 same_decls (map (\<lambda>(t, b). suite_decls cfg sc b) branches)
      (map (\<lambda>(t, b). suite_decls cfg sc (visit_suite cf b)) branches)"
    by (fastforce simp: list_all2_map1 list_all2_map2 list_all2_same)
  moreover have "map fst (map (\<lambda>(t, b). (t, visit_suite cf b)) branches) = map fst branches"
    "map (\<lambda>(t, b). suite_decls cfg sc b) (map (\<lambda>(t, b). (t, visit_suite cf b)) branches) =
     map (\<lambda>(t, b). suite_decls cfg sc (visit_suite cf b)) branches"
    by (simp_all add: case_prod_unfold comp_def)
  ultimately show ?case
    by (simp only: stmt_decls.simps visit_stmt.simps same_decls_branch)
next
  case (4 body ws)
  then show ?case by (simp add: same_decls_refl)
next
  case (5 body header footer)
  then have each: "same_decls (stmt_decls cfg sc s) (stmt_decls cfg sc (visit_stmt cf s))"
    if "s \<in> set body" for s using that by simp
  then have "same_decls (concat (map (stmt_decls cfg sc) body))
      (concat (map (\<lambda>s. stmt_decls cfg sc (visit_stmt cf s)) body))"
    by (rule same_decls_map)
  moreover have "\<forall>s\<in>set body. plain_overloads s" using 5 by simp
  ultimately show ?case
    using same_decls_visited_list [OF cf _ each] by (simp add: comp_def)
next
  case (6 body ws)
  then show ?case by (simp add: same_decls_refl)
qed

lemma same_decls_transform:
  assumes "code_determines_effects cf" "\<forall>s\<in>set body. plain_overloads s"
  shows "same_decls (module_decls cfg body) (module_decls cfg (transform_module cf body))"
  unfolding module_decls_def transform_module_def
  using assms by (intro same_decls_visited_list) (auto intro: same_decls_visit)

section \<open>The analysis of a merged stub\<close>

text \<open>The outcomes of the analysis that say the same: the names with effects, and their effects.\<close>

definition summary :: "effect list \<Rightarrow> (effect_kind \<times> string) set" where
  "summary es =
     (\<lambda>e. if eff_kind e = UnknownEffects then (UnknownEffects, '''') else (eff_kind e, eff_name e)) ` set es"

definition same_outcome :: "module_effects option \<Rightarrow> module_effects option \<Rightarrow> bool" where
  "same_outcome a b \<longleftrightarrow>
     map_option (\<lambda>out k. map_option summary (table_get (effects out) k)) a =
     map_option (\<lambda>out k. map_option summary (table_get (effects out) k)) b"

definition settled_summary :: "(effect_kind \<times> string) set \<Rightarrow> (effect_kind \<times> string) set" where
  "settled_summary F = (if F = {} then {(UnknownEffects, '''')} else F)"

lemma summary_settled:
  assumes "es \<noteq> []"
  shows "summary (settled es) = settled_summary {f \<in> facts es. fst f \<noteq> UnknownEffects}"
proof (cases "list_ex (\<lambda>e. eff_kind e \<noteq> UnknownEffects) es")
  case True
  then have "{f \<in> facts es. fst f \<noteq> UnknownEffects} \<noteq> {}" by (auto simp: list_ex_iff facts_def)
  moreover have "summary (settled es) = {f \<in> facts es. fst f \<noteq> UnknownEffects}"
    using True by (auto simp: settled_def summary_def facts_def image_iff)
  ultimately show ?thesis by (simp only: settled_summary_def if_False)
next
  case False
  then have "\<forall>e\<in>set es. eff_kind e = UnknownEffects" by (auto simp: list_ex_iff)
  moreover from this have "{f \<in> facts es. fst f \<noteq> UnknownEffects} = {}" by (auto simp: facts_def)
  ultimately show ?thesis
    using False assms by (cases es) (auto simp: settled_def summary_def settled_summary_def)
qed

lemma facts_decls_at:
  "{f \<in> facts (decls_at ds k). fst f \<noteq> UnknownEffects} = {f. (k, f) \<in> essence ds}"
  by (force simp: facts_def set_decls_at essence_def image_iff)

lemma same_stub_spec:
  assumes "same_decls ds ds'"
  shows "map_option (\<lambda>f k. map_option summary (f k)) (stub_spec ds) =
    map_option (\<lambda>f k. map_option summary (f k)) (stub_spec ds')"
proof -
  let ?F = "\<lambda>ds k. {f \<in> facts (decls_at ds k). fst f \<noteq> UnknownEffects}"
  have F: "?F ds k = ?F ds' k" for k
    using assms by (simp add: facts_decls_at same_decls_def)
  have keys: "set (map fst ds) = set (map fst ds')"
    using assms by (simp add: same_decls_def)
  have safe: "declares_safe (decls_at ds k) \<longleftrightarrow> (\<exists>n. (NoEffects, n) \<in> ?F ds k)" for ds k
    by (force simp: declares_safe_def list_ex_iff facts_def)
  have conflict: "conflicting (decls_at ds k) \<longleftrightarrow>
      declares_safe (decls_at ds k) \<and> (\<exists>f \<in> ?F ds k. fst f \<noteq> NoEffects)" for ds k
    by (force simp: conflicting_def list_ex_iff facts_def)
  have "map_option summary (Some (settled (decls_at ds k))) = Some (settled_summary (?F ds k))"
    if "k \<in> set (map fst ds)" for ds k
    using that summary_settled [of "decls_at ds k"] by (simp add: decls_at_Nil_iff)
  note settled = this [unfolded option.map]
  have "list_ex (\<lambda>k. conflicting (decls_at ds k)) (map fst ds) =
      list_ex (\<lambda>k. conflicting (decls_at ds' k)) (map fst ds')"
    unfolding list_ex_iff keys conflict safe F ..
  moreover have "map_option summary (if k \<in> set (map fst ds) \<and> \<not> declares_safe (decls_at ds k)
       then Some (settled (decls_at ds k)) else None) =
     map_option summary (if k \<in> set (map fst ds') \<and> \<not> declares_safe (decls_at ds' k)
       then Some (settled (decls_at ds' k)) else None)" for k
    using settled [of k ds] settled [of k ds'] unfolding keys safe F by simp
  ultimately show ?thesis unfolding stub_spec_def by simp
qed

text \<open>
  C5: Merging overload effects keeps what the analysis of a stub finds. For a stub whose overload
  bodies are plain lines, the analysis of the stub and of its merged text both panic or both
  leave the same names with the same kinds and names of effects, whatever the printer of
  \<open>libcst\<close>, provided equal printed text means equal declared effects.
\<close>

theorem merged_stub_same_outcome:
  assumes "code_determines_effects code_for" "list_all plain_overloads body"
  shows "same_outcome (analyze_stub cfg body) (analyze_stub cfg (transform_module code_for body))"
proof -
  have "map_option (\<lambda>out k. map_option summary (table_get (effects out) k)) (analyze_stub cfg b) =
      map_option (\<lambda>f k. map_option summary (f k)) (stub_spec (module_decls cfg b))" for b
    by (simp add: analyze_stub_decls [symmetric] option.map_comp comp_def)
  then show ?thesis
    using assms same_decls_transform [of code_for body cfg]
    by (simp add: same_outcome_def list_all_iff same_stub_spec)
qed

text \<open>Two overloads with one effect each; the merge moves both effects into the first.\<close>

definition sample_cfg :: stub_config where
  "sample_cfg =
     \<lparr>sys_pruned = (\<lambda>tests. zip tests [0..<length tests]), main_module = None, stub_module = ''m'',
      is_thrift_generated = False, debug_call = (\<lambda>e. ''call'')\<rparr>"

definition sample_overloads :: "stmt list" where
  "sample_overloads =
     [FunctionDef (1, 2) ''f'' [Name ''overload''] [''x'']
        (SimpleStatementSuite [Expr (Call (3, 4) (Name ''mutation'') [])] ''''),
      FunctionDef (5, 6) ''f'' [Name ''overload''] [''x'', ''y'']
        (SimpleStatementSuite [Expr (Call (7, 8) (Name ''raise'') [SimpleString ''x''])] '''')]"

lemma merged_stub_same_outcome_witness:
  "same_outcome (analyze_stub sample_cfg sample_overloads)
     (analyze_stub sample_cfg (transform_module (\<lambda>s. s) sample_overloads)) \<and>
   transform_module (\<lambda>s. s) sample_overloads \<noteq> sample_overloads"
proof
  show "same_outcome (analyze_stub sample_cfg sample_overloads)
     (analyze_stub sample_cfg (transform_module (\<lambda>s. s) sample_overloads))"
    by (rule merged_stub_same_outcome)
      (simp_all add: sample_overloads_def code_determines_effects_def)
  show "transform_module (\<lambda>s. s) sample_overloads \<noteq> sample_overloads"
    by code_simp
qed

end
