(* ===== verification/Scripts.thy ===== *)
theory Scripts
  imports Overload_Merger Ordering
begin

text \<open>
  The command lines of the Python parts: \<open>resources/scripts/normalize_stubs.py\<close>, \<open>main\<close> of
  \<open>resources/scripts/merge_overload_effects.py\<close>, and the launcher
  \<open>python/lifeguard_lazy_imports/__main__.py\<close>. The file system is explicit state: directories,
  and files with their content and permissions. A \<open>Path\<close> is the list of its parts, which is
  also how \<open>Path\<close> objects compare. \<open>merge\<close> stands for the merger on texts, whose parser and
  printer belong to \<open>libcst\<close>; a raised exception is a left value.
\<close>

type_synonym path = "string list"

record 's stub_file =
  file_content :: 's
  file_readable :: bool
  file_writable :: bool

record 's world =
  dirs :: "path list"
  files :: "(path \<times> 's stub_file) list"

datatype os_error = FileNotFound | PermissionDenied | IsADirectory

definition path_exists :: "'s world \<Rightarrow> path \<Rightarrow> bool" where
  "path_exists w p \<longleftrightarrow> p \<in> set (dirs w) \<or> p \<in> set (map fst (files w))"

definition read_file :: "'s world \<Rightarrow> path \<Rightarrow> os_error + 's" where
  "read_file w p =
     (case map_of (files w) p of
        Some f \<Rightarrow> if file_readable f then Inr (file_content f) else Inl PermissionDenied
      | None \<Rightarrow> if p \<in> set (dirs w) then Inl IsADirectory else Inl FileNotFound)"

text \<open>\<open>open(p, "w")\<close> on an existing file, and the write.\<close>

definition write_file :: "'s world \<Rightarrow> path \<Rightarrow> 's \<Rightarrow> os_error + 's world" where
  "write_file w p content =
     (case map_of (files w) p of
        None \<Rightarrow> if p \<in> set (dirs w) then Inl IsADirectory
                else Inr (w\<lparr>files := files w @ [(p, \<lparr>file_content = content, file_readable = True,
                                                      file_writable = True\<rparr>)]\<rparr>)
      | Some f \<Rightarrow>
          if file_writable f
          then Inr (w\<lparr>files := map (\<lambda>(q, g). (q, if q = p then g\<lparr>file_content := content\<rparr> else g))
                                 (files w)\<rparr>)
          else Inl PermissionDenied)"

section \<open>normalize\_stubs.py\<close>

text \<open>\<open>Path.parent\<close>; the root is its own parent.\<close>

definition parent_dir :: "path \<Rightarrow> path" where
  "parent_dir p = (if length p \<le> 1 then p else butlast p)"

text \<open>The directory, or the exit status 1.\<close>

definition get_stubs_dir :: "'s world \<Rightarrow> path \<Rightarrow> path list \<Rightarrow> nat + path" where
  "get_stubs_dir w script_path argv =
     (let stubs_dir = (if length argv > 1 then argv ! 1
                       else parent_dir (parent_dir script_path) @ [''stubs''])
      in if \<not> path_exists w stubs_dir then Inl 1 else Inr stubs_dir)"

definition ends_with :: "string \<Rightarrow> string \<Rightarrow> bool" where
  "ends_with suffix s \<longleftrightarrow> length suffix \<le> length s \<and> drop (length s - length suffix) s = suffix"

definition rglob_pyi :: "'s world \<Rightarrow> path \<Rightarrow> path list" where
  "rglob_pyi w dir =
     filter (\<lambda>p. length dir < length p \<and> take (length dir) p = dir \<and> ends_with ''.pyi'' (last p))
       (map fst (files w) @ dirs w)"

definition normalize_file :: "('s \<Rightarrow> 'e + 's) \<Rightarrow> 's world \<Rightarrow> path \<Rightarrow> 's world option" where
  "normalize_file merge w pyi_file =
     (case read_file w pyi_file of
        Inl e \<Rightarrow> None
      | Inr content \<Rightarrow>
          (case merge content of
             Inl e \<Rightarrow> None
           | Inr result \<Rightarrow>
               (case write_file w pyi_file result of Inl e \<Rightarrow> None | Inr w' \<Rightarrow> Some w')))"

fun normalize_loop ::
  "('s \<Rightarrow> 'e + 's) \<Rightarrow> path list \<Rightarrow> 's world \<Rightarrow> nat \<Rightarrow> nat \<Rightarrow> 's world \<times> nat \<times> nat" where
  "normalize_loop merge [] w success_count error_count = (w, success_count, error_count)"
| "normalize_loop merge (p # ps) w success_count error_count =
     (case normalize_file merge w p of
        Some w' \<Rightarrow> normalize_loop merge ps w' (success_count + 1) error_count
      | None \<Rightarrow> normalize_loop merge ps w success_count (error_count + 1))"

text \<open>The exit status and the file system after the run.\<close>

definition normalize_main ::
  "('s \<Rightarrow> 'e + 's) \<Rightarrow> path \<Rightarrow> path list \<Rightarrow> 's world \<Rightarrow> nat \<times> 's world" where
  "normalize_main merge script_path argv w =
     (case get_stubs_dir w script_path argv of
        Inl status \<Rightarrow> (status, w)
      | Inr stubs_dir \<Rightarrow>
          (let pyi_files = rglob_pyi w stubs_dir in
           if pyi_files = [] then (0, w)
           else
             (case normalize_loop merge (sort_by cmp_of pyi_files) w 0 0 of
                (w', success_count, error_count) \<Rightarrow>
                  (if error_count > 0 then 1 else 0, w'))))"

section \<open>merge\_overload\_effects.py as a command\<close>

fun merge_loop :: "('s \<Rightarrow> 'e + 's) \<Rightarrow> path list \<Rightarrow> 's world \<Rightarrow> 's world" where
  "merge_loop merge [] w = w"
| "merge_loop merge (p # ps) w =
     merge_loop merge ps (case normalize_file merge w p of Some w' \<Rightarrow> w' | None \<Rightarrow> w)"

definition merge_main :: "('s \<Rightarrow> 'e + 's) \<Rightarrow> path list \<Rightarrow> 's world \<Rightarrow> nat \<times> 's world" where
  "merge_main merge argv w =
     (if length argv < 2 then (1, w) else (0, merge_loop merge (tl argv) w))"

section \<open>The launcher\<close>

text \<open>\<open>os.path.join\<close> of two parts.\<close>

definition path_join :: "string \<Rightarrow> string \<Rightarrow> string" where
  "path_join a b =
     (if b \<noteq> [] \<and> hd b = CHR ''/'' then b
      else if a = [] \<or> last a = CHR ''/'' then a @ b else a @ ''/'' @ b)"

text \<open>
  The build configuration: \<open>sysconfig.get_config_var("EXE")\<close>, which may be absent (adding it to
  a string raises then), and the script directories of the default and the user scheme.
\<close>

record sys_config =
  exe_suffix :: "string option"
  scripts_path :: string
  user_scripts_path :: string

definition get_lifeguard_bin :: "sys_config \<Rightarrow> (string \<Rightarrow> bool) \<Rightarrow> string option" where
  "get_lifeguard_bin cfg isfile =
     (case exe_suffix cfg of
        None \<Rightarrow> None
      | Some exe \<Rightarrow>
          (let lifeguard_exe = ''lifeguard'' @ exe;
               lifeguard_bin = path_join (scripts_path cfg) lifeguard_exe
           in if isfile lifeguard_bin then Some lifeguard_bin
              else
                (let user_bin = path_join (user_scripts_path cfg) lifeguard_exe
                 in if isfile user_bin then Some user_bin else Some ''lifeguard'')))"

text \<open>\<open>run\<close> is \<open>subprocess.run\<close>, returning the return code; an uncaught exception exits with 1.\<close>

definition launcher_main ::
  "sys_config \<Rightarrow> (string \<Rightarrow> bool) \<Rightarrow> (string list \<Rightarrow> int) \<Rightarrow> string list \<Rightarrow> int" where
  "launcher_main cfg isfile run argv =
     (case get_lifeguard_bin cfg isfile of
        None \<Rightarrow> 1
      | Some bin \<Rightarrow> run (bin # drop 1 argv) mod 256)"

section \<open>A run normalizes every stub on its own\<close>

text \<open>What one stub looks like afterwards, and whether it counts as an error.\<close>

definition stub_fails :: "('s \<Rightarrow> 'e + 's) \<Rightarrow> 's stub_file \<Rightarrow> bool" where
  "stub_fails merge f \<longleftrightarrow>
     \<not> file_readable f \<or> (\<exists>e. merge (file_content f) = Inl e) \<or> \<not> file_writable f"

definition normalized_file :: "('s \<Rightarrow> 'e + 's) \<Rightarrow> 's stub_file \<Rightarrow> 's stub_file" where
  "normalized_file merge f =
     (case merge (file_content f) of
        Inl e \<Rightarrow> f
      | Inr r \<Rightarrow> if file_readable f \<and> file_writable f then f\<lparr>file_content := r\<rparr> else f)"

text \<open>The world after the stubs of \<open>ps\<close> were normalized.\<close>

definition normalized_world :: "('s \<Rightarrow> 'e + 's) \<Rightarrow> path set \<Rightarrow> 's world \<Rightarrow> 's world" where
  "normalized_world merge ps w =
     w\<lparr>files := map (\<lambda>(p, f). (p, if p \<in> ps then normalized_file merge f else f)) (files w)\<rparr>"

definition failing :: "('s \<Rightarrow> 'e + 's) \<Rightarrow> 's world \<Rightarrow> path \<Rightarrow> bool" where
  "failing merge w p \<longleftrightarrow>
     (case map_of (files w) p of None \<Rightarrow> True | Some f \<Rightarrow> stub_fails merge f)"

lemma map_of_map_keyed:
  "map_of (map (\<lambda>(p, f). (p, g p f)) xs) p = map_option (g p) (map_of xs p)"
  by (induction xs) auto

lemma map_keyed_cong:
  assumes "distinct (map fst xs)"
    and "\<And>p f. map_of xs p = Some f \<Longrightarrow> g p f = h p f"
  shows "map (\<lambda>(p, f). (p, g p f)) xs = map (\<lambda>(p, f). (p, h p f)) xs"
  using assms by (auto intro!: map_cong)

lemma normalize_file_eq:
  assumes "distinct (map fst (files w))" "\<forall>d\<in>set (dirs w). d \<notin> set (map fst (files w))"
    and "path_exists w p"
  shows "normalize_file merge w p =
    (if failing merge w p then None else Some (normalized_world merge {p} w))"
proof (cases "map_of (files w) p")
  case None
  then show ?thesis by (simp add: normalize_file_def read_file_def failing_def)
next
  case (Some f)
  show ?thesis
  proof (cases "stub_fails merge f")
    case True
    with Some show ?thesis
      by (auto simp: normalize_file_def read_file_def write_file_def failing_def stub_fails_def
          split: sum.splits)
  next
    case False
    then obtain r where r: "merge (file_content f) = Inr r" "file_readable f" "file_writable f"
      by (cases "merge (file_content f)") (auto simp: stub_fails_def)
    have "map (\<lambda>(q, g). (q, if q = p then g\<lparr>file_content := r\<rparr> else g)) (files w) =
        map (\<lambda>(q, g). (q, if q \<in> {p} then normalized_file merge g else g)) (files w)"
      by (rule map_keyed_cong [OF assms(1)]) (use Some r in \<open>auto simp: normalized_file_def\<close>)
    with Some False r show ?thesis
      by (simp add: normalize_file_def read_file_def write_file_def failing_def normalized_world_def)
  qed
qed

lemma normalized_world_facts:
  "map fst (files (normalized_world merge ps w)) = map fst (files w)"
  "dirs (normalized_world merge ps w) = dirs w"
  "path_exists (normalized_world merge ps w) p = path_exists w p"
  by (simp_all add: normalized_world_def path_exists_def comp_def case_prod_unfold)

lemma failing_other:
  "p \<notin> ps \<Longrightarrow> failing merge (normalized_world merge ps w) p = failing merge w p"
  by (simp add: failing_def normalized_world_def map_of_map_keyed split: option.splits)

lemma normalized_world_failing:
  assumes "distinct (map fst (files w))" "failing merge w p"
  shows "normalized_world merge (insert p ps) w = normalized_world merge ps w"
proof -
  have "normalized_file merge f = f" if "map_of (files w) p = Some f" for f
    using assms(2) that
    by (auto simp: failing_def stub_fails_def normalized_file_def split: sum.splits)
  then have "map (\<lambda>(q, f). (q, if q \<in> insert p ps then normalized_file merge f else f)) (files w) =
      map (\<lambda>(q, f). (q, if q \<in> ps then normalized_file merge f else f)) (files w)"
    by (intro map_keyed_cong [OF assms(1)]) auto
  then show ?thesis by (simp add: normalized_world_def)
qed

lemma normalized_world_union:
  assumes "p \<notin> ps"
  shows "normalized_world merge ps (normalized_world merge {p} w) = normalized_world merge (insert p ps) w"
proof -
  have "map (\<lambda>(q, f). (q, if q \<in> ps then normalized_file merge f else f))
       (map (\<lambda>(q, f). (q, if q \<in> {p} then normalized_file merge f else f)) (files w)) =
     map (\<lambda>(q, f). (q, if q \<in> insert p ps then normalized_file merge f else f)) (files w)"
    unfolding map_map by (rule map_cong) (use assms in auto)
  then show ?thesis by (simp add: normalized_world_def)
qed

lemma normalize_loop_eq:
  assumes "distinct (map fst (files w))" "\<forall>d\<in>set (dirs w). d \<notin> set (map fst (files w))"
    and "distinct ps" "\<forall>p\<in>set ps. path_exists w p"
  shows "normalize_loop merge ps w n k =
    (normalized_world merge (set ps) w,
     n + length (filter (\<lambda>p. \<not> failing merge w p) ps), k + length (filter (failing merge w) ps))"
  using assms
proof (induction ps arbitrary: w n k)
  case Nil
  show ?case by (simp add: normalized_world_def)
next
  case (Cons p ps)
  let ?w = "normalized_world merge {p} w"
  note one = normalize_file_eq [of w p merge]
  show ?case
  proof (cases "failing merge w p")
    case True
    then show ?thesis
      using Cons one by (simp add: normalized_world_failing)
  next
    case False
    have "normalize_loop merge ps ?w (n + 1) k =
        (normalized_world merge (set ps) ?w,
         n + 1 + length (filter (\<lambda>p. \<not> failing merge ?w p) ps),
         k + length (filter (failing merge ?w) ps))"
      by (rule Cons.IH) (use Cons.prems in \<open>simp_all add: normalized_world_facts\<close>)
    moreover have "failing merge ?w q = failing merge w q" if "q \<in> set ps" for q
      by (rule failing_other) (use that Cons.prems(3) in auto)
    then have "filter (failing merge ?w) ps = filter (failing merge w) ps"
      "filter (\<lambda>p. \<not> failing merge ?w p) ps = filter (\<lambda>p. \<not> failing merge w p) ps"
      by (auto intro!: filter_cong)
    ultimately show ?thesis
      using Cons.prems one False by (simp add: normalized_world_union)
  qed
qed

text \<open>
  A file system: no path twice, and no directory that is also a file. The stubs of a directory
  are its \<open>.pyi\<close> entries at any depth.
\<close>

definition wf_world :: "'s world \<Rightarrow> bool" where
  "wf_world w \<longleftrightarrow> distinct (map fst (files w) @ dirs w)"

text \<open>
  C35: A run of the normalizer over a directory that exists rewrites each stub below it with the
  merge of its own text, whatever the order of the directory listing and the errors of the other
  stubs. A stub that cannot be read, merged or written is left as it was, nothing else is
  touched, and the exit status is 1 exactly when some stub failed.
\<close>

theorem normalize_main_result:
  assumes "wf_world w" "get_stubs_dir w script_path argv = Inr stubs_dir"
  shows "normalize_main merge script_path argv w =
    (if list_ex (failing merge w) (rglob_pyi w stubs_dir) then 1 else 0,
     normalized_world merge (set (rglob_pyi w stubs_dir)) w)"
proof -
  let ?ps = "rglob_pyi w stubs_dir"
  have "distinct ?ps" "\<forall>p\<in>set ?ps. path_exists w p"
    using assms(1) by (auto simp: wf_world_def rglob_pyi_def path_exists_def)
  then have sorted: "distinct (sort_by cmp_of ?ps)"
    by (metis mset_sort_by mset_eq_imp_distinct_iff)
  have "normalize_loop merge (sort_by cmp_of ?ps) w 0 0 =
      (normalized_world merge (set ?ps) w,
       0 + length (filter (\<lambda>p. \<not> failing merge w p) (sort_by cmp_of ?ps)),
       0 + length (filter (failing merge w) (sort_by cmp_of ?ps)))"
    using normalize_loop_eq [of w "sort_by cmp_of ?ps" merge 0 0] assms(1) sorted
      \<open>\<forall>p\<in>set ?ps. path_exists w p\<close>
    by (auto simp: wf_world_def)
  moreover have "0 < length (filter (failing merge w) (sort_by cmp_of ?ps)) \<longleftrightarrow>
      list_ex (failing merge w) ?ps"
    by (auto simp: filter_empty_conv list_ex_iff)
  moreover have "normalized_world merge {} w = w" by (simp add: normalized_world_def)
  ultimately show ?thesis
    using assms(2) by (auto simp: normalize_main_def Let_def)
qed

definition sample_world :: "string world" where
  "sample_world =
     \<lparr>dirs = [[''s'']],
      files = [([''s'', ''b.pyi''], \<lparr>file_content = ''b'', file_readable = True, file_writable = True\<rparr>),
               ([''s'', ''a.pyi''], \<lparr>file_content = ''a'', file_readable = True, file_writable = False\<rparr>),
               ([''s'', ''c.md''], \<lparr>file_content = ''c'', file_readable = True, file_writable = True\<rparr>)]\<rparr>"

definition sample_merge :: "string \<Rightarrow> nat + string" where
  "sample_merge s = (if s = ''bad'' then Inl 0 else Inr (s @ ''!''))"

lemma normalize_main_result_witness:
  "normalize_main sample_merge [] [''n''#[], [''s'']] sample_world =
    (1, normalized_world sample_merge {[''s'', ''b.pyi''], [''s'', ''a.pyi'']} sample_world)"
proof -
  have dir: "get_stubs_dir sample_world [] [[''n''], [''s'']] = Inr [''s'']" by code_simp
  have stubs: "rglob_pyi sample_world [''s''] = [[''s'', ''b.pyi''], [''s'', ''a.pyi'']]" by code_simp
  have "wf_world sample_world" by code_simp
  from normalize_main_result [OF this dir, of sample_merge] show ?thesis
    by (simp add: stubs) (simp add: failing_def stub_fails_def sample_world_def)
qed

text \<open>
  The launcher runs the script directory's binary if it is a file, else the user scheme's,
  else whatever \<open>lifeguard\<close> the search path has. It passes its arguments on and exits with the
  status of the binary.
\<close>

theorem launcher_main_status:
  "launcher_main \<lparr>exe_suffix = Some exe, scripts_path = s, user_scripts_path = u\<rparr> isfile run (prog # args) =
    (let candidates = [path_join s (''lifeguard'' @ exe), path_join u (''lifeguard'' @ exe)] in
     run ((case find_first isfile candidates of None \<Rightarrow> ''lifeguard'' | Some bin \<Rightarrow> bin) # args)
       mod 256)"
  by (simp add: launcher_main_def get_lifeguard_bin_def Let_def)

end
