(* ===== verification/Import_Graph.thy ===== *)
theory Import_Graph
  imports Names
begin

text \<open>
  The import graph of \<open>src/imports.rs\<close> as its clients query it. Nodes and edges are held by
  \<open>petgraph\<close>, which is not part of the repository, so the queries are fields of the model, in
  the order the code iterates them; what the clients rely on is \<open>graph_ok\<close>. The queries that
  the repository computes itself are functions of these.
\<close>

record import_graph =
  ig_modules :: "modname list"
  ig_imports :: "modname \<Rightarrow> modname list"
  ig_importers :: "modname \<Rightarrow> modname list"
  ig_missing :: "modname \<Rightarrow> modname list option"
  ig_ambiguous :: "modname \<Rightarrow> modname list option"

text \<open>Edges join nodes, and the reverse neighbors are those of the reversed edges.\<close>

definition graph_ok :: "import_graph \<Rightarrow> bool" where
  "graph_ok g \<longleftrightarrow>
     (\<forall>m n. n \<in> set (ig_imports g m) \<longleftrightarrow> m \<in> set (ig_importers g n)) \<and>
     (\<forall>m n. n \<in> set (ig_imports g m) \<longrightarrow> m \<in> set (ig_modules g) \<and> n \<in> set (ig_modules g))"

definition ig_contains :: "import_graph \<Rightarrow> modname \<Rightarrow> bool" where
  "ig_contains g name \<longleftrightarrow> name \<in> set (ig_modules g)"

definition has_missing_import :: "import_graph \<Rightarrow> modname \<Rightarrow> modname \<Rightarrow> bool" where
  "has_missing_import g from name =
     (case ig_missing g from of None \<Rightarrow> False | Some mods \<Rightarrow> name \<in> set mods)"

section \<open>Nearest known module\<close>

definition resolve_to_known_module :: "modname \<Rightarrow> modname set \<Rightarrow> modname option" where
  "resolve_to_known_module name known =
     (if name \<in> known then Some name
      else map_option fst (find_first (\<lambda>(p, _). p \<in> known) (iter_parents name)))"

section \<open>Packages that imports run first\<close>

text \<open>The loop over the parents of one target, with its \<open>break\<close>.\<close>

fun parents_of_target ::
  "import_graph \<Rightarrow> modname \<Rightarrow> (modname \<times> nat) list \<Rightarrow> modname set \<times> modname list \<Rightarrow>
     modname set \<times> modname list" where
  "parents_of_target g from [] st = st"
| "parents_of_target g from ((parent, _) # ps) (seen, parents) =
     (if parent \<in> seen then (seen, parents)
      else parents_of_target g from ps
        (insert parent seen,
         if ig_contains g parent \<and> parent \<noteq> from \<and> \<not> is_ancestor_of parent from
         then parents @ [parent] else parents))"

definition implicit_parents_of :: "import_graph \<Rightarrow> modname \<Rightarrow> modname list" where
  "implicit_parents_of g from =
     snd (foldl (\<lambda>st target. parents_of_target g from (iter_parents target) st) ({}, [])
       (ig_imports g from))"

definition implicit_parent_imports :: "import_graph \<Rightarrow> (modname \<times> modname list) list" where
  "implicit_parent_imports g =
     filter (\<lambda>(from, parents). parents \<noteq> [])
       (map (\<lambda>from. (from, implicit_parents_of g from)) (ig_modules g))"

section \<open>Nearest first\<close>

lemma is_ancestor_take:
  assumes "p < q" "q \<le> length m" "m ! p = dot"
  shows "is_ancestor_of (take p m) (take q m)"
proof -
  have "take (p + Suc (q - Suc p)) m = take p m @ take (Suc (q - Suc p)) (drop p m)"
    by (rule take_add)
  also have "drop p m = dot # drop (Suc p) m"
    using assms by (metis Cons_nth_drop_Suc order_less_le_trans)
  finally have "take q m = take p m @ dot # take (q - Suc p) (drop (Suc p) m)"
    using assms(1) by simp
  then show ?thesis by (auto simp: is_ancestor_of_iff append_str_def)
qed

lemma iter_parents_nearest_first:
  "sorted_wrt (\<lambda>a b. is_ancestor_of (fst b) (fst a)) (iter_parents m)"
proof -
  have "sorted_wrt (<) (filter (\<lambda>p. m ! p = dot) [0..<length m])"
    by (rule sorted_wrt_filter) (rule sorted_wrt_upt)
  then have "sorted_wrt (\<lambda>a b. b < a) (rev (filter (\<lambda>p. m ! p = dot) [0..<length m]))"
    by (simp add: sorted_wrt_rev)
  then have "sorted_wrt (\<lambda>a b. is_ancestor_of (take b m) (take a m))
      (rev (filter (\<lambda>p. m ! p = dot) [0..<length m]))"
    by (rule sorted_wrt_mono_rel [rotated]) (auto intro: is_ancestor_take)
  then show ?thesis by (simp add: iter_parents_eq sorted_wrt_map comp_def)
qed

lemma iter_parents_distinct: "distinct (map fst (iter_parents m))"
  using iter_parents_nearest_first [of m]
  by (auto simp: distinct_conv_nth sorted_wrt_iff_nth_less) (metis is_ancestor_of_irrefl linorder_neqE_nat)

lemma ancestor_in_parents: "is_ancestor_of p name \<longleftrightarrow> p \<in> fst ` set (iter_parents name)"
  by (simp add: iter_parents_ancestors)

definition nearest_known :: "modname \<Rightarrow> modname set \<Rightarrow> modname \<Rightarrow> bool" where
  "nearest_known name known r \<longleftrightarrow>
     r \<in> known \<and> (r = name \<or> is_ancestor_of r name) \<and>
     (\<forall>p\<in>known. p = name \<or> is_ancestor_of p name \<longrightarrow> p = r \<or> is_ancestor_of p r)"

lemma nearest_known_unique: "nearest_known name known r \<Longrightarrow> nearest_known name known r' \<Longrightarrow> r = r'"
  unfolding nearest_known_def using is_ancestor_of_trans is_ancestor_of_irrefl by metis

lemma resolve_to_known_nearest:
  assumes "resolve_to_known_module name known = Some r"
  shows "nearest_known name known r"
proof (cases "name \<in> known")
  case True
  with assms show ?thesis by (auto simp: resolve_to_known_module_def nearest_known_def)
next
  case False
  with assms obtain n where f: "find_first (\<lambda>(p, _). p \<in> known) (iter_parents name) = Some (r, n)"
    by (auto simp: resolve_to_known_module_def)
  from find_first_split [OF f] obtain us vs where split: "iter_parents name = us @ (r, n) # vs"
      "r \<in> known" "\<forall>u\<in>set us. fst u \<notin> known"
    by (auto simp: case_prod_unfold)
  have "p = r \<or> is_ancestor_of p r" if known: "p \<in> known" and anc: "is_ancestor_of p name" for p
  proof -
    have "p \<in> fst ` set (us @ (r, n) # vs)"
      using anc by (simp only: ancestor_in_parents split(1))
    then obtain k where k: "(p, k) \<in> set (us @ (r, n) # vs)" by force
    have "sorted_wrt (\<lambda>a b. is_ancestor_of (fst b) (fst a)) (us @ (r, n) # vs)"
      using iter_parents_nearest_first [of name] by (simp only: split(1))
    with k known split(3) show ?thesis by (auto simp: sorted_wrt_append)
  qed
  moreover have "is_ancestor_of r name" unfolding ancestor_in_parents split(1) by simp
  ultimately show ?thesis using False split(2) by (auto simp: nearest_known_def)
qed

lemma resolve_to_known_total:
  assumes "nearest_known name known r"
  shows "resolve_to_known_module name known \<noteq> None"
proof (cases "name \<in> known")
  case False
  with assms have "r \<in> known" "r \<in> fst ` set (iter_parents name)"
    by (auto simp: nearest_known_def ancestor_in_parents)
  then have "find_first (\<lambda>(p, _). p \<in> known) (iter_parents name) \<noteq> None"
    unfolding find_first_None_iff by auto
  with False show ?thesis by (simp add: resolve_to_known_module_def)
qed (simp add: resolve_to_known_module_def)

text \<open>
  A missing import is re-resolved to the nearest module of the graph, and to nothing
  exactly when neither the module nor any of its packages is in the graph.
\<close>

theorem resolve_to_known_module_iff:
  "resolve_to_known_module name known = Some r \<longleftrightarrow> nearest_known name known r"
  using resolve_to_known_nearest resolve_to_known_total nearest_known_unique by fastforce

section \<open>The packages of the imports\<close>

text \<open>
  The loop keeps \<open>seen\<close> closed under ancestors, so that a parent seen before can end it.
\<close>

definition wanted_parent :: "import_graph \<Rightarrow> modname \<Rightarrow> modname \<Rightarrow> bool" where
  "wanted_parent g from p \<longleftrightarrow> ig_contains g p \<and> p \<noteq> from \<and> \<not> is_ancestor_of p from"

definition parents_inv :: "import_graph \<Rightarrow> modname \<Rightarrow> modname set \<times> modname list \<Rightarrow> bool" where
  "parents_inv g from st \<longleftrightarrow> distinct (snd st) \<and> set (snd st) = {p \<in> fst st. wanted_parent g from p}"

lemma parents_of_target_ok:
  assumes "parents_inv g from (S \<union> B, parents)"
    and "sorted_wrt (\<lambda>a b. is_ancestor_of (fst b) (fst a)) ps"
    and "\<forall>p\<in>S. \<forall>q. is_ancestor_of q p \<longrightarrow> q \<in> S" "\<forall>b\<in>B. \<forall>p\<in>set ps. is_ancestor_of (fst p) b"
  shows "parents_inv g from (parents_of_target g from ps (S \<union> B, parents)) \<and>
    fst (parents_of_target g from ps (S \<union> B, parents)) = S \<union> B \<union> fst ` set ps"
  using assms
proof (induction ps arbitrary: B parents)
  case (Cons e ps)
  obtain p k where e: "e = (p, k)" by (cases e)
  have "p \<notin> B" using Cons.prems(4) by (auto simp: e)
  show ?case
  proof (cases "p \<in> S")
    case True
    then have "fst ` set ps \<subseteq> S" using Cons.prems(2,3) by (auto simp: e)
    with True Cons.prems(1) show ?thesis by (auto simp: e)
  next
    case False
    define parents' where "parents' = (if wanted_parent g from p then parents @ [p] else parents)"
    have "parents_inv g from (S \<union> insert p B, parents')"
      using Cons.prems(1) False \<open>p \<notin> B\<close> by (auto simp: parents_inv_def parents'_def)
    moreover have "\<forall>b\<in>insert p B. \<forall>q\<in>set ps. is_ancestor_of (fst q) b"
      using Cons.prems(2,4) by (auto simp: e)
    moreover have "parents_of_target g from (e # ps) (S \<union> B, parents) =
        parents_of_target g from ps (S \<union> insert p B, parents')"
      using False \<open>p \<notin> B\<close> by (simp add: e parents'_def wanted_parent_def)
    ultimately show ?thesis
      using Cons.IH [of "insert p B" parents'] Cons.prems(2,3) by (simp add: e)
  qed
qed simp

lemma implicit_parents_fold:
  "parents_inv g from (S, parents) \<Longrightarrow> \<forall>p\<in>S. \<forall>q. is_ancestor_of q p \<longrightarrow> q \<in> S \<Longrightarrow>
   parents_inv g from (foldl (\<lambda>st t. parents_of_target g from (iter_parents t) st) (S, parents) ts) \<and>
   fst (foldl (\<lambda>st t. parents_of_target g from (iter_parents t) st) (S, parents) ts) =
     S \<union> {p. \<exists>t\<in>set ts. is_ancestor_of p t}"
proof (induction ts arbitrary: S parents)
  case (Cons t ts)
  obtain S' parents' where step: "parents_of_target g from (iter_parents t) (S, parents) = (S', parents')"
    by (cases "parents_of_target g from (iter_parents t) (S, parents)")
  have start: "parents_inv g from (S \<union> {}, parents)" using Cons.prems(1) by simp
  have "parents_inv g from (S', parents') \<and> S' = S \<union> {p. is_ancestor_of p t}"
    using parents_of_target_ok [OF start iter_parents_nearest_first Cons.prems(2), of t] step
    by (auto simp: iter_parents_ancestors)
  moreover from this have "\<forall>p\<in>S'. \<forall>q. is_ancestor_of q p \<longrightarrow> q \<in> S'"
    using Cons.prems(2) by (auto intro: is_ancestor_of_trans)
  moreover have "foldl (\<lambda>st t. parents_of_target g from (iter_parents t) st) (S, parents) (t # ts) =
      foldl (\<lambda>st t. parents_of_target g from (iter_parents t) st) (S', parents') ts"
    by (simp add: step)
  ultimately show ?case
    using Cons.IH [of S' parents'] by auto
qed simp

text \<open>
  The implicit parent imports of a module are, without duplicates, exactly the packages of
  its imports that are modules of the graph and are neither the module itself nor one of its own
  packages. Stopping at a package that was seen before loses none.
\<close>

theorem implicit_parents_of_exact:
  "distinct (implicit_parents_of g m) \<and>
   set (implicit_parents_of g m) =
     {p. (\<exists>t\<in>set (ig_imports g m). is_ancestor_of p t) \<and> ig_contains g p \<and> p \<noteq> m \<and>
         \<not> is_ancestor_of p m}"
  using implicit_parents_fold [of g m "{}" "[]" "ig_imports g m"]
  by (auto simp: implicit_parents_of_def parents_inv_def wanted_parent_def)

end
