(* ===== verification/Import_Chains.thy ===== *)
theory Import_Chains
  imports Import_Graph Ordering
begin

text \<open>
  Guards along import chains (\<open>hops_to_target\<close>, \<open>guard_shortest_chain\<close> and
  \<open>propagate_implicit_imports_along_chains\<close> of \<open>src/output/policy.rs\<close>). The concurrent map of
  guards is a partial function into sets, since the order in which the tasks insert is not
  determined; an entry may be present and empty. The loops are partial functions with result
  \<^const>\<open>None\<close> where they would run forever, and are proved not to.
\<close>

type_synonym guards = "modname \<rightharpoonup> modname set"

section \<open>Breadth-first search backwards from a target\<close>

text \<open>The loop over one frontier, with \<open>hops\<close>, \<open>unreached\<close> and \<open>next\<close>.\<close>

fun hops_round ::
  "(modname \<Rightarrow> modname list) \<Rightarrow> nat \<Rightarrow> modname list \<Rightarrow>
     (modname \<rightharpoonup> nat) \<times> modname set \<times> modname list \<Rightarrow> (modname \<rightharpoonup> nat) \<times> modname set \<times> modname list" where
  "hops_round importers depth [] st = st"
| "hops_round importers depth (m # ms) (hops, unreached, next') =
     (if hops m \<noteq> None then hops_round importers depth ms (hops, unreached, next')
      else
        let hops' = hops(m \<mapsto> depth) in
        hops_round importers depth ms
          (hops', unreached - {m}, next' @ filter (\<lambda>n. hops' n = None) (importers m)))"

partial_function (option) hops_loop ::
  "(modname \<Rightarrow> modname list) \<Rightarrow> modname list \<Rightarrow> modname set \<Rightarrow> (modname \<rightharpoonup> nat) \<Rightarrow> nat \<Rightarrow>
     (modname \<rightharpoonup> nat) option" where
  "hops_loop importers frontier unreached hops depth =
     (if frontier = [] \<or> unreached = {} then Some hops
      else
        (case hops_round importers depth frontier (hops, unreached, []) of
           (hops', unreached', next') \<Rightarrow> hops_loop importers next' unreached' hops' (depth + 1)))"

definition hops_to_target :: "import_graph \<Rightarrow> modname \<Rightarrow> modname list \<Rightarrow> (modname \<rightharpoonup> nat) option" where
  "hops_to_target g target consumers =
     hops_loop (ig_importers g) (ig_importers g target) (set consumers) Map.empty 0"

section \<open>Guarding one chain\<close>

definition hop_less :: "nat \<times> modname \<Rightarrow> nat \<times> modname \<Rightarrow> bool" where
  "hop_less a b \<longleftrightarrow> fst a < fst b \<or> fst a = fst b \<and> snd a < snd b"

fun min_hop :: "(nat \<times> modname) list \<Rightarrow> (nat \<times> modname) option" where
  "min_hop [] = None"
| "min_hop (x # xs) =
     (case min_hop xs of None \<Rightarrow> Some x | Some y \<Rightarrow> Some (if hop_less y x then y else x))"

definition next_hop :: "import_graph \<Rightarrow> (modname \<rightharpoonup> nat) \<Rightarrow> modname \<Rightarrow> (nat \<times> modname) option" where
  "next_hop g hops current =
     min_hop (concat (map (\<lambda>m. case hops m of None \<Rightarrow> [] | Some h \<Rightarrow> [(h, m)]) (ig_imports g current)))"

partial_function (option) guard_shortest_chain ::
  "import_graph \<Rightarrow> (modname \<rightharpoonup> nat) \<Rightarrow> modname list \<Rightarrow> modname \<Rightarrow> modname \<Rightarrow> guards \<Rightarrow> guards option" where
  "guard_shortest_chain g hops passing target current le =
     (case next_hop g hops current of
        None \<Rightarrow> Some le
      | Some (h, next') \<Rightarrow>
          (let le' = (if next' \<in> set passing then add_entry next' target le else le) in
           if h = 0 then Some le' else guard_shortest_chain g hops passing target next' le'))"

section \<open>All targets\<close>

definition consumers_by_target :: "(modname \<times> modname list) list \<Rightarrow> (modname \<times> modname list) list" where
  "consumers_by_target implicit_imports =
     foldl (\<lambda>acc (consumer, targets). foldl (\<lambda>acc target. amap_push target consumer acc) acc targets)
       [] implicit_imports"

fun guard_consumers ::
  "import_graph \<Rightarrow> (modname \<rightharpoonup> nat) \<Rightarrow> modname list \<Rightarrow> modname \<Rightarrow> modname list \<Rightarrow> guards \<Rightarrow> guards option" where
  "guard_consumers g hops passing target [] le = Some le"
| "guard_consumers g hops passing target (c # cs) le =
     (case guard_shortest_chain g hops passing target c le of
        None \<Rightarrow> None
      | Some le' \<Rightarrow> guard_consumers g hops passing target cs le')"

definition guard_target ::
  "import_graph \<Rightarrow> modname list \<Rightarrow> modname \<Rightarrow> modname list \<Rightarrow> guards \<Rightarrow> guards option" where
  "guard_target g passing target consumers le =
     (let le1 = (if target \<in> set passing then add_entry target target le else le);
          needs_chain = filter (\<lambda>c. target \<notin> set (ig_imports g c)) consumers
      in (case hops_to_target g target needs_chain of
            None \<Rightarrow> None
          | Some hops \<Rightarrow> guard_consumers g hops passing target needs_chain le1))"

fun guard_targets ::
  "import_graph \<Rightarrow> modname list \<Rightarrow> (modname \<times> modname list) list \<Rightarrow> guards \<Rightarrow> guards option" where
  "guard_targets g passing [] le = Some le"
| "guard_targets g passing ((target, consumers) # rest) le =
     (case guard_target g passing target consumers le of
        None \<Rightarrow> None
      | Some le' \<Rightarrow> guard_targets g passing rest le')"

definition propagate_implicit_imports_along_chains ::
  "import_graph \<Rightarrow> modname list \<Rightarrow> (modname \<times> modname list) list \<Rightarrow> guards \<Rightarrow> guards option" where
  "propagate_implicit_imports_along_chains g passing implicit_imports le =
     guard_targets g passing (consumers_by_target implicit_imports) le"

section \<open>Distances\<close>

fun reach_at :: "import_graph \<Rightarrow> modname \<Rightarrow> nat \<Rightarrow> modname set" where
  "reach_at g target 0 = set (ig_importers g target)"
| "reach_at g target (Suc n) = {m. \<exists>x\<in>reach_at g target n. m \<in> set (ig_importers g x)}"

definition dist_is :: "import_graph \<Rightarrow> modname \<Rightarrow> modname \<Rightarrow> nat \<Rightarrow> bool" where
  "dist_is g target m n \<longleftrightarrow> m \<in> reach_at g target n \<and> (\<forall>k<n. m \<notin> reach_at g target k)"

lemma dist_exists: "m \<in> reach_at g target n \<Longrightarrow> \<exists>k\<le>n. dist_is g target m k"
proof -
  assume m: "m \<in> reach_at g target n"
  let ?k = "LEAST k. m \<in> reach_at g target k"
  have "m \<in> reach_at g target ?k" using m by (rule LeastI)
  moreover have "?k \<le> n" using m by (rule Least_le)
  moreover have "\<forall>k<?k. m \<notin> reach_at g target k" using not_less_Least by blast
  ultimately show ?thesis unfolding dist_is_def by blast
qed

lemma dist_unique: "dist_is g target m n \<Longrightarrow> dist_is g target m k \<Longrightarrow> n = k"
  unfolding dist_is_def by (metis linorder_neqE_nat)

lemma dist_step:
  assumes "dist_is g target m (Suc n)"
  obtains x where "dist_is g target x n" "m \<in> set (ig_importers g x)"
proof -
  obtain x where x: "x \<in> reach_at g target n" "m \<in> set (ig_importers g x)"
    using assms by (auto simp: dist_is_def)
  obtain k where k: "k \<le> n" "dist_is g target x k" using dist_exists [OF x(1)] by blast
  then have "m \<in> reach_at g target (Suc k)" using x(2) by (auto simp: dist_is_def)
  then have "\<not> Suc k < Suc n" using assms unfolding dist_is_def by blast
  with k(1) have "k = n" by simp
  with k x that show ?thesis by blast
qed

lemma dist_below: "dist_is g target m n \<Longrightarrow> k \<le> n \<Longrightarrow> \<exists>x. dist_is g target x k"
proof (induction n arbitrary: m)
  case (Suc n)
  then show ?case by (metis dist_step le_Suc_eq)
qed auto

section \<open>The search computes the distances\<close>

lemma hops_round_eq:
  assumes "hops_round importers d ms (hops, unreached, next') = (hops1, unreached1, next1)"
  shows "hops1 = (\<lambda>m. if m \<in> set ms \<and> hops m = None then Some d else hops m)"
    and "unreached1 = unreached - {m \<in> set ms. hops m = None}"
    and "set next1 \<subseteq> set next' \<union> {n. \<exists>x\<in>set ms. hops x = None \<and> n \<in> set (importers x)}"
    and "set next' \<union> {n. hops1 n = None \<and> (\<exists>x\<in>set ms. hops x = None \<and> n \<in> set (importers x))} \<subseteq> set next1"
proof -
  have "hops1 = (\<lambda>m. if m \<in> set ms \<and> hops m = None then Some d else hops m) \<and>
      unreached1 = unreached - {m \<in> set ms. hops m = None} \<and>
      set next1 \<subseteq> set next' \<union> {n. \<exists>x\<in>set ms. hops x = None \<and> n \<in> set (importers x)} \<and>
      set next' \<union> {n. hops1 n = None \<and> (\<exists>x\<in>set ms. hops x = None \<and> n \<in> set (importers x))} \<subseteq> set next1"
    using assms
  proof (induction ms arbitrary: hops unreached next')
    case (Cons m ms)
    show ?case
    proof (cases "hops m")
      case (Some h)
      have "hops_round importers d ms (hops, unreached, next') = (hops1, unreached1, next1)"
        using Cons.prems Some by simp
      note IH = Cons.IH [OF this]
      have same: "{x \<in> set (m # ms). hops x = None} = {x \<in> set ms. hops x = None}"
        "(\<exists>x\<in>set (m # ms). hops x = None \<and> n \<in> set (importers x)) \<longleftrightarrow>
         (\<exists>x\<in>set ms. hops x = None \<and> n \<in> set (importers x))"
        "x \<in> set (m # ms) \<and> hops x = None \<longleftrightarrow> x \<in> set ms \<and> hops x = None" for n x
        using Some by auto
      show ?thesis unfolding same by (rule IH)
    next
      case None
      let ?hops = "hops(m \<mapsto> d)"
      have "hops_round importers d ms
          (?hops, unreached - {m}, next' @ filter (\<lambda>n. ?hops n = None) (importers m)) =
          (hops1, unreached1, next1)"
        using Cons.prems None by (simp add: Let_def)
      note IH = Cons.IH [OF this]
      have h1: "hops1 = (\<lambda>x. if x \<in> set (m # ms) \<and> hops x = None then Some d else hops x)"
        using IH None by (auto simp: fun_eq_iff)
      moreover have "unreached1 = unreached - {x \<in> set (m # ms). hops x = None}"
        using IH None by auto
      moreover have "set next1 \<subseteq> set next' \<union> {n. \<exists>x\<in>set (m # ms). hops x = None \<and> n \<in> set (importers x)}"
        using IH None by (auto split: if_splits)
      moreover have "set next' \<union> {n. hops1 n = None \<and> (\<exists>x\<in>set (m # ms). hops x = None \<and> n \<in> set (importers x))}
          \<subseteq> set next1"
      proof -
        have start: "set next' \<subseteq> set next1" "\<forall>n\<in>set (importers m). ?hops n = None \<longrightarrow> n \<in> set next1"
          using IH by auto
        have later: "n \<in> set next1"
          if "hops1 n = None" "x \<in> set ms" "?hops x = None" "n \<in> set (importers x)" for n x
          using IH that by blast
        have "?hops n = None" if "hops1 n = None" for n
          using that unfolding h1 by (simp split: if_splits)
        then have "n \<in> set next1"
          if "hops1 n = None" "x \<in> set (m # ms)" "hops x = None" "n \<in> set (importers x)" for n x
          using that start(2) later [of n x] by (cases "x = m") simp_all
        with start(1) show ?thesis by blast
      qed
      ultimately show ?thesis by blast
    qed
  qed auto
  then show "hops1 = (\<lambda>m. if m \<in> set ms \<and> hops m = None then Some d else hops m)"
    and "unreached1 = unreached - {m \<in> set ms. hops m = None}"
    and "set next1 \<subseteq> set next' \<union> {n. \<exists>x\<in>set ms. hops x = None \<and> n \<in> set (importers x)}"
    and "set next' \<union> {n. hops1 n = None \<and> (\<exists>x\<in>set ms. hops x = None \<and> n \<in> set (importers x))} \<subseteq> set next1"
    by blast+
qed

definition hops_exact :: "import_graph \<Rightarrow> modname \<Rightarrow> (modname \<rightharpoonup> nat) \<Rightarrow> nat \<Rightarrow> bool" where
  "hops_exact g target hops d \<longleftrightarrow> (\<forall>m k. hops m = Some k \<longleftrightarrow> dist_is g target m k \<and> k < d)"

definition search_inv ::
  "import_graph \<Rightarrow> modname \<Rightarrow> modname set \<Rightarrow> modname list \<Rightarrow> modname set \<Rightarrow> (modname \<rightharpoonup> nat) \<Rightarrow> nat \<Rightarrow> bool"
where
  "search_inv g target consumers frontier unreached hops d \<longleftrightarrow>
     hops_exact g target hops d \<and>
     set frontier \<subseteq> reach_at g target d \<and> {m. dist_is g target m d} \<subseteq> set frontier \<and>
     unreached = consumers - dom hops"

lemma frontier_new:
  assumes "search_inv g target consumers frontier unreached hops d" "m \<in> set frontier"
  shows "hops m = None \<longleftrightarrow> dist_is g target m d"
proof -
  have "m \<in> reach_at g target d" using assms by (auto simp: search_inv_def)
  then obtain k where k: "k \<le> d" "dist_is g target m k" using dist_exists by blast
  have hops: "hops m = Some j \<longleftrightarrow> dist_is g target m j \<and> j < d" for j
    using assms(1) by (simp add: search_inv_def hops_exact_def)
  show ?thesis
  proof (cases "k = d")
    case True
    have "hops m \<noteq> Some j" for j
      using hops [of j] dist_unique [OF k(2), of j] True by auto
    then have "hops m = None" by (cases "hops m") blast+
    with True k(2) show ?thesis by simp
  next
    case False
    with k hops have "hops m = Some k" by simp
    moreover have "\<not> dist_is g target m d" using dist_unique [OF k(2), of d] False by blast
    ultimately show ?thesis by simp
  qed
qed

lemma search_inv_round:
  assumes inv: "search_inv g target consumers frontier unreached hops d"
    and round: "hops_round (ig_importers g) d frontier (hops, unreached, []) = (hops1, unreached1, next1)"
  shows "search_inv g target consumers next1 unreached1 hops1 (Suc d)"
proof -
  note r = hops_round_eq [OF round]
  have new: "m \<in> set frontier \<and> hops m = None \<longleftrightarrow> dist_is g target m d" for m
    using frontier_new [OF inv] inv by (auto simp: search_inv_def)
  have h: "hops1 m = (if dist_is g target m d then Some d else hops m)" for m
    unfolding r(1) new by simp
  have exact: "hops_exact g target hops1 (Suc d)"
    unfolding hops_exact_def
  proof (intro allI)
    fix m k
    have "hops m = Some k \<longleftrightarrow> dist_is g target m k \<and> k < d"
      using inv by (simp add: search_inv_def hops_exact_def)
    then show "hops1 m = Some k \<longleftrightarrow> dist_is g target m k \<and> k < Suc d"
      unfolding h less_Suc_eq using dist_unique [of g target m k d] by auto
  qed
  have "set next1 \<subseteq> reach_at g target (Suc d)"
    using r(3) new by (fastforce simp: dist_is_def)
  moreover have "m \<in> set next1" if m: "dist_is g target m (Suc d)" for m
  proof -
    obtain x where x: "dist_is g target x d" "m \<in> set (ig_importers g x)"
      using dist_step [OF m] by blast
    have "hops1 m = None"
    proof (rule ccontr)
      assume "hops1 m \<noteq> None"
      then obtain k where "dist_is g target m k" "k < Suc d"
        using exact by (auto simp: hops_exact_def)
      with dist_unique [OF m] show False by blast
    qed
    then show ?thesis using r(4) new [of x] x by blast
  qed
  moreover have "unreached1 = consumers - dom hops1"
  proof -
    have "dom hops1 = dom hops \<union> {m. dist_is g target m d}" using h by (auto simp: dom_def)
    moreover have "{m \<in> set frontier. hops m = None} = {m. dist_is g target m d}" using new by blast
    ultimately show ?thesis using inv r(2) by (auto simp: search_inv_def)
  qed
  ultimately show ?thesis using exact by (auto simp: search_inv_def)
qed

lemma graph_ok_reach: "graph_ok g \<Longrightarrow> m \<in> reach_at g target n \<Longrightarrow> m \<in> set (ig_modules g)"
  by (cases n) (auto simp: graph_ok_def)

definition search_done :: "import_graph \<Rightarrow> modname \<Rightarrow> modname set \<Rightarrow> (modname \<rightharpoonup> nat) \<Rightarrow> bool" where
  "search_done g target consumers hops \<longleftrightarrow>
     (\<exists>d. hops_exact g target hops d) \<and> (\<forall>c\<in>consumers. \<forall>k. dist_is g target c k \<longrightarrow> hops c = Some k)"

lemma hops_loop_ok:
  assumes ok: "graph_ok g"
  shows "search_inv g target consumers frontier unreached hops d \<Longrightarrow>
    \<exists>hops'. hops_loop (ig_importers g) frontier unreached hops d = Some hops' \<and>
      search_done g target consumers hops'"
proof (induction "(card (set (ig_modules g) - dom hops), length frontier)"
    arbitrary: frontier unreached hops d rule: wf_induct_rule [OF wf_lex_prod [OF wf_less_than wf_less_than]])
  case 1
  show ?case
  proof (cases "frontier = [] \<or> unreached = {}")
    case True
    have "search_done g target consumers hops"
      unfolding search_done_def
    proof (intro conjI ballI allI impI)
      show "\<exists>d. hops_exact g target hops d" using 1(2) by (auto simp: search_inv_def)
      fix c k assume c: "c \<in> consumers" "dist_is g target c k"
      have exact: "hops c = Some j \<longleftrightarrow> dist_is g target c j \<and> j < d" for j
        using 1(2) by (simp add: search_inv_def hops_exact_def)
      show "hops c = Some k"
      proof (cases "frontier = []")
        case True
        then have "\<not> dist_is g target x d" for x using 1(2) by (auto simp: search_inv_def)
        with dist_below [OF c(2), of d] have "k < d" by (meson not_le)
        with exact c(2) show ?thesis by simp
      next
        case False
        with \<open>frontier = [] \<or> unreached = {}\<close> 1(2) c(1) obtain j where "hops c = Some j"
          by (auto simp: search_inv_def)
        with exact dist_unique c(2) show ?thesis by blast
      qed
    qed
    moreover have "hops_loop (ig_importers g) frontier unreached hops d = Some hops"
      using True by (subst hops_loop.simps) auto
    ultimately show ?thesis by blast
  next
    case False
    obtain hops1 unreached1 next1 where
      round: "hops_round (ig_importers g) d frontier (hops, unreached, []) = (hops1, unreached1, next1)"
      by (cases "hops_round (ig_importers g) d frontier (hops, unreached, [])")
    note r = hops_round_eq [OF round]
    note inv1 = search_inv_round [OF 1(2) round]
    have dom1: "dom hops1 = dom hops \<union> {m \<in> set frontier. hops m = None}"
      unfolding r(1) by (auto simp: dom_def)
    have smaller: "((card (set (ig_modules g) - dom hops1), length next1),
        (card (set (ig_modules g) - dom hops), length frontier)) \<in> less_than <*lex*> less_than"
    proof (cases "\<exists>m\<in>set frontier. hops m = None")
      case True
      then obtain m where m: "m \<in> set frontier" "hops m = None" by blast
      then have "m \<in> set (ig_modules g) - dom hops"
        using graph_ok_reach [OF ok] 1(2) by (auto simp: search_inv_def)
      moreover have "set (ig_modules g) - dom hops1 \<subseteq> set (ig_modules g) - dom hops - {m}"
        using dom1 m by auto
      ultimately have "card (set (ig_modules g) - dom hops1) < card (set (ig_modules g) - dom hops)"
        by (meson List.finite_set card_Diff1_less card_mono finite_Diff order_le_less_trans)
      then show ?thesis by simp
    next
      case none: False
      then have empty: "{n. \<exists>x\<in>set frontier. hops x = None \<and> n \<in> set (ig_importers g x)} = {}" by auto
      have "set next1 = {}" using r(3) unfolding empty by simp
      moreover have "dom hops1 = dom hops" using dom1 none by auto
      ultimately show ?thesis using False by simp
    qed
    have "hops_loop (ig_importers g) frontier unreached hops d =
        hops_loop (ig_importers g) next1 unreached1 hops1 (Suc d)"
      using False round by (subst hops_loop.simps) simp
    with 1(1) [OF smaller inv1] show ?thesis by simp
  qed
qed

lemma hops_to_target_ok:
  assumes "graph_ok g"
  obtains hops where "hops_to_target g target consumers = Some hops"
    "search_done g target (set consumers) hops"
proof -
  have "search_inv g target (set consumers) (ig_importers g target) (set consumers) Map.empty 0"
    by (auto simp: search_inv_def hops_exact_def dist_is_def)
  from hops_loop_ok [OF assms this] that show ?thesis by (auto simp: hops_to_target_def)
qed

section \<open>The walk along a shortest chain\<close>

lemma min_hop_None [simp]: "min_hop xs = None \<longleftrightarrow> xs = []"
  by (cases xs) (auto split: option.splits)

lemma min_hop_in: "min_hop xs = Some x \<Longrightarrow> x \<in> set xs"
  by (induction xs arbitrary: x) (auto split: option.splits if_splits)

lemma hop_less_linear: "\<not> hop_less a b \<Longrightarrow> fst b \<le> fst a"
  by (auto simp: hop_less_def)

lemma min_hop_least: "min_hop xs = Some x \<Longrightarrow> y \<in> set xs \<Longrightarrow> fst x \<le> fst y"
proof (induction xs arbitrary: x y)
  case (Cons z zs)
  show ?case
  proof (cases "min_hop zs")
    case None
    with Cons.prems show ?thesis by simp
  next
    case (Some w)
    then have w: "\<forall>y\<in>set zs. fst w \<le> fst y" using Cons.IH by blast
    show ?thesis
    proof (cases "hop_less w z")
      case True
      then have "x = w" "fst w \<le> fst z" using Some Cons.prems(1) by (auto simp: hop_less_def)
      with w Cons.prems(2) show ?thesis by auto
    next
      case False
      then have "x = z" "fst z \<le> fst w" using Some Cons.prems(1) by (auto dest: hop_less_linear)
      with w Cons.prems(2) show ?thesis by (auto intro: order_trans)
    qed
  qed
qed simp

lemma set_hop_list:
  "set (concat (map (\<lambda>m. case hops m of None \<Rightarrow> [] | Some h \<Rightarrow> [(h, m)]) ms)) =
     {(h, m). m \<in> set ms \<and> hops m = Some h}"
  by (auto split: option.splits)

lemma next_hop_cases:
  "next_hop g hops c = Some (h, m) \<Longrightarrow> m \<in> set (ig_imports g c) \<and> hops m = Some h \<and>
     (\<forall>m'\<in>set (ig_imports g c). \<forall>h'. hops m' = Some h' \<longrightarrow> h \<le> h')"
proof -
  assume m: "next_hop g hops c = Some (h, m)"
  let ?xs = "concat (map (\<lambda>m. case hops m of None \<Rightarrow> [] | Some h \<Rightarrow> [(h, m)]) (ig_imports g c))"
  have x: "min_hop ?xs = Some (h, m)" using m by (simp add: next_hop_def)
  have "(h, m) \<in> set ?xs" using min_hop_in [OF x] .
  then have "m \<in> set (ig_imports g c) \<and> hops m = Some h" unfolding set_hop_list by simp
  moreover have "h \<le> h'" if "m' \<in> set (ig_imports g c)" "hops m' = Some h'" for m' h'
  proof -
    have "(h', m') \<in> set ?xs" unfolding set_hop_list using that by simp
    from min_hop_least [OF x this] show ?thesis by simp
  qed
  ultimately show ?thesis by blast
qed

lemma next_hop_None: "next_hop g hops c = None \<longleftrightarrow> (\<forall>m\<in>set (ig_imports g c). hops m = None)"
proof -
  have "next_hop g hops c = None \<longleftrightarrow>
      set (concat (map (\<lambda>m. case hops m of None \<Rightarrow> [] | Some h \<Rightarrow> [(h, m)]) (ig_imports g c))) = {}"
    unfolding next_hop_def min_hop_None set_empty ..
  also have "\<dots> \<longleftrightarrow> (\<forall>m\<in>set (ig_imports g c). hops m = None)"
    unfolding set_hop_list by (simp, metis option.distinct(1) option.exhaust)
  finally show ?thesis .
qed

text \<open>\<open>Each step lands exactly one hop lower\<close>.\<close>

lemma next_hop_lower:
  assumes ok: "graph_ok g" and exact: "hops_exact g target hops d" and c: "dist_is g target c (Suc n)" "n < d"
  obtains m where "next_hop g hops c = Some (n, m)" "m \<in> set (ig_imports g c)" "dist_is g target m n"
proof -
  have hops: "hops m = Some k \<longleftrightarrow> dist_is g target m k \<and> k < d" for m k
    using exact by (simp add: hops_exact_def)
  obtain x where x: "dist_is g target x n" "c \<in> set (ig_importers g x)"
    using c(1) dist_step by blast
  then have x': "x \<in> set (ig_imports g c)" "hops x = Some n"
    using ok c(2) hops by (auto simp: graph_ok_def)
  then obtain h m where m: "next_hop g hops c = Some (h, m)"
    using next_hop_None [of g hops c] by (cases "next_hop g hops c") auto
  note nh = next_hop_cases [OF m]
  have "dist_is g target m h" using nh hops by blast
  then have "c \<in> reach_at g target (Suc h)"
    using nh ok by (auto simp: graph_ok_def dist_is_def)
  then have "n \<le> h" using c(1) unfolding dist_is_def by (meson not_le Suc_less_eq)
  moreover have "h \<le> n" using nh x' by blast
  ultimately show ?thesis using that m nh \<open>dist_is g target m h\<close> by simp
qed

text \<open>A chain of imports from a consumer to a module that imports the target itself.\<close>

definition import_chain :: "import_graph \<Rightarrow> modname \<Rightarrow> modname \<Rightarrow> modname list \<Rightarrow> bool" where
  "import_chain g target c ns \<longleftrightarrow>
     ns \<noteq> [] \<and> successively (\<lambda>a b. b \<in> set (ig_imports g a)) (c # ns) \<and>
     target \<in> set (ig_imports g (last ns))"

definition guard_all :: "modname list \<Rightarrow> modname \<Rightarrow> modname list \<Rightarrow> guards \<Rightarrow> guards" where
  "guard_all passing target ns le =
     foldl (\<lambda>le n. if n \<in> set passing then add_entry n target le else le) le ns"

lemma guard_shortest_chain_walk:
  assumes ok: "graph_ok g" and exact: "hops_exact g target hops d"
  shows "dist_is g target c (Suc n) \<Longrightarrow> n < d \<Longrightarrow>
    \<exists>ns. guard_shortest_chain g hops passing target c le = Some (guard_all passing target ns le) \<and>
      import_chain g target c ns \<and> length ns = Suc n"
proof (induction n arbitrary: c le)
  case 0
  obtain m where m: "next_hop g hops c = Some (0, m)" "m \<in> set (ig_imports g c)" "dist_is g target m 0"
    using next_hop_lower [OF ok exact 0] by blast
  then have "target \<in> set (ig_imports g m)" using ok by (auto simp: graph_ok_def dist_is_def)
  with m have "import_chain g target c [m]" by (simp add: import_chain_def)
  moreover have "guard_shortest_chain g hops passing target c le = Some (guard_all passing target [m] le)"
    using m by (subst guard_shortest_chain.simps) (simp add: guard_all_def)
  ultimately show ?case by (intro exI [of _ "[m]"]) simp
next
  case (Suc n)
  obtain m where m: "next_hop g hops c = Some (Suc n, m)" "m \<in> set (ig_imports g c)"
      "dist_is g target m (Suc n)"
    using next_hop_lower [OF ok exact Suc.prems] by blast
  let ?le = "if m \<in> set passing then add_entry m target le else le"
  obtain ns where ns: "guard_shortest_chain g hops passing target m ?le = Some (guard_all passing target ns ?le)"
      "import_chain g target m ns" "length ns = Suc n"
    using Suc.IH [OF m(3), of ?le] Suc.prems(2) by auto
  have "guard_shortest_chain g hops passing target c le = Some (guard_all passing target (m # ns) le)"
    using m(1) ns(1) by (subst guard_shortest_chain.simps) (simp add: guard_all_def Let_def)
  moreover have "import_chain g target c (m # ns)"
    using ns(2) m(2) by (auto simp: import_chain_def)
  ultimately show ?case using ns(3) by (intro exI [of _ "m # ns"]) simp
qed

lemma chain_reaches:
  assumes ok: "graph_ok g" and "import_chain g target c ns"
  shows "c \<in> reach_at g target (length ns)"
proof -
  have "successively (\<lambda>a b. b \<in> set (ig_imports g a)) (c # ns) \<Longrightarrow> ns \<noteq> [] \<Longrightarrow>
      target \<in> set (ig_imports g (last ns)) \<Longrightarrow> c \<in> reach_at g target (length ns)" for c ns
  proof (induction ns arbitrary: c)
    case (Cons m ns)
    have mc: "c \<in> set (ig_importers g m)" using Cons.prems(1) ok by (auto simp: graph_ok_def)
    show ?case
    proof (cases "ns = []")
      case True
      then have "m \<in> set (ig_importers g target)" using Cons.prems(3) ok by (auto simp: graph_ok_def)
      with mc True show ?thesis by auto
    next
      case False
      then have "m \<in> reach_at g target (length ns)" using Cons.IH [of m] Cons.prems by simp
      with mc show ?thesis by auto
    qed
  qed simp
  with assms(2) show ?thesis by (auto simp: import_chain_def)
qed

section \<open>What the propagation guarantees\<close>

definition only_adds :: "modname list \<Rightarrow> guards \<Rightarrow> guards \<Rightarrow> bool" where
  "only_adds passing le le' \<longleftrightarrow>
     dom le \<subseteq> dom le' \<and> dom le' \<subseteq> dom le \<union> set passing \<and> (\<forall>k. members le k \<subseteq> members le' k)"

lemma only_adds_refl [simp]: "only_adds passing le le"
  by (simp add: only_adds_def)

lemma only_adds_trans: "only_adds p a b \<Longrightarrow> only_adds p b c \<Longrightarrow> only_adds p a c"
  unfolding only_adds_def by blast

lemma only_adds_entry: "n \<in> set passing \<Longrightarrow> only_adds passing le (add_entry n t le)"
  by (auto simp: only_adds_def)

lemma guard_all_adds:
  "only_adds passing le (guard_all passing target ns le) \<and>
   (\<forall>n\<in>set ns \<inter> set passing. target \<in> members (guard_all passing target ns le) n)"
proof (induction ns rule: rev_induct)
  case Nil
  show ?case by (simp add: guard_all_def)
next
  case (snoc n ns)
  let ?le = "guard_all passing target ns le"
  have step: "guard_all passing target (ns @ [n]) le =
      (if n \<in> set passing then add_entry n target ?le else ?le)"
    by (simp add: guard_all_def)
  have "only_adds passing ?le (guard_all passing target (ns @ [n]) le)"
    unfolding step by (simp add: only_adds_entry)
  moreover from this have "\<forall>m\<in>set ns \<inter> set passing. target \<in> members (guard_all passing target (ns @ [n]) le) m"
    using snoc unfolding only_adds_def by blast
  moreover have "n \<in> set passing \<longrightarrow> target \<in> members (guard_all passing target (ns @ [n]) le) n"
    unfolding step by simp
  ultimately show ?case using snoc only_adds_trans by auto
qed

definition chain_guarded :: "import_graph \<Rightarrow> modname list \<Rightarrow> guards \<Rightarrow> modname \<Rightarrow> modname \<Rightarrow> bool" where
  "chain_guarded g passing le target c \<longleftrightarrow>
     target \<in> set (ig_imports g c) \<or>
     (\<forall>ns. \<not> import_chain g target c ns) \<or>
     (\<exists>ns. import_chain g target c ns \<and>
        (\<forall>ms. import_chain g target c ms \<longrightarrow> length ns \<le> length ms) \<and>
        (\<forall>n\<in>set ns \<inter> set passing. target \<in> members le n))"

lemma chain_guarded_mono: "only_adds p le le' \<Longrightarrow> chain_guarded g p le t c \<Longrightarrow> chain_guarded g p le' t c"
  unfolding chain_guarded_def only_adds_def by blast

lemma guard_chain_ok:
  assumes ok: "graph_ok g" and search: "search_done g target cs hops" and c: "c \<in> cs"
    and not_direct: "target \<notin> set (ig_imports g c)"
  shows "\<exists>le'. guard_shortest_chain g hops passing target c le = Some le' \<and>
    only_adds passing le le' \<and> chain_guarded g passing le' target c"
proof -
  obtain d where exact: "hops_exact g target hops d" using search by (auto simp: search_done_def)
  show ?thesis
  proof (cases "\<exists>k. c \<in> reach_at g target k")
    case True
    then obtain k where k: "dist_is g target c k" using dist_exists by blast
    have "c \<notin> reach_at g target 0" using not_direct ok by (auto simp: graph_ok_def)
    then obtain n where n: "k = Suc n" using k by (cases k) (auto simp: dist_is_def)
    have "hops c = Some k" using search c k by (auto simp: search_done_def)
    then have "n < d" using exact n by (auto simp: hops_exact_def)
    with guard_shortest_chain_walk [OF ok exact, of c n passing le] k n
    obtain ns where ns: "guard_shortest_chain g hops passing target c le = Some (guard_all passing target ns le)"
        "import_chain g target c ns" "length ns = Suc n" by auto
    have "length ns \<le> length ms" if ms: "import_chain g target c ms" for ms
    proof -
      obtain m where m: "length ms = Suc m" using ms by (cases ms) (auto simp: import_chain_def)
      have "c \<in> reach_at g target (Suc m)" using chain_reaches [OF ok ms] m by simp
      then have "\<not> Suc m < k" using k unfolding dist_is_def by blast
      then show ?thesis using ns(3) n m by simp
    qed
    with ns guard_all_adds [of passing le target ns] show ?thesis
      unfolding chain_guarded_def by blast
  next
    case False
    have "hops m = None" if "m \<in> set (ig_imports g c)" for m
    proof (rule ccontr)
      assume "hops m \<noteq> None"
      then obtain h where "dist_is g target m h" using exact by (auto simp: hops_exact_def)
      then have "c \<in> reach_at g target (Suc h)" using that ok by (auto simp: graph_ok_def dist_is_def)
      with False show False by blast
    qed
    then have "guard_shortest_chain g hops passing target c le = Some le"
      by (subst guard_shortest_chain.simps) (simp add: next_hop_None [THEN iffD2])
    moreover have "\<not> import_chain g target c ns" for ns using False chain_reaches [OF ok] by blast
    ultimately show ?thesis by (simp add: chain_guarded_def)
  qed
qed

lemma guard_consumers_ok:
  assumes ok: "graph_ok g" and search: "search_done g target cs hops"
  shows "set consumers \<subseteq> cs \<Longrightarrow> \<forall>c\<in>set consumers. target \<notin> set (ig_imports g c) \<Longrightarrow>
    \<exists>le'. guard_consumers g hops passing target consumers le = Some le' \<and>
      only_adds passing le le' \<and> (\<forall>c\<in>set consumers. chain_guarded g passing le' target c)"
proof (induction consumers arbitrary: le)
  case (Cons c consumers)
  obtain le1 where 1: "guard_shortest_chain g hops passing target c le = Some le1"
      "only_adds passing le le1" "chain_guarded g passing le1 target c"
    using guard_chain_ok [OF ok search, of c passing le] Cons.prems by auto
  obtain le2 where 2: "guard_consumers g hops passing target consumers le1 = Some le2"
      "only_adds passing le1 le2" "\<forall>c\<in>set consumers. chain_guarded g passing le2 target c"
    using Cons.IH [of le1] Cons.prems by auto
  have "only_adds passing le le2" using 1(2) 2(2) by (rule only_adds_trans)
  moreover have "chain_guarded g passing le2 target c" using 2(2) 1(3) by (rule chain_guarded_mono)
  ultimately show ?case using 1(1) 2 by simp
qed simp

lemma guard_target_ok:
  assumes ok: "graph_ok g"
  shows "\<exists>le'. guard_target g passing target consumers le = Some le' \<and> only_adds passing le le' \<and>
    (\<forall>c\<in>set consumers. chain_guarded g passing le' target c) \<and>
    (target \<in> set passing \<longrightarrow> target \<in> members le' target)"
proof -
  let ?le1 = "if target \<in> set passing then add_entry target target le else le"
  let ?needs = "filter (\<lambda>c. target \<notin> set (ig_imports g c)) consumers"
  obtain hops where hops: "hops_to_target g target ?needs = Some hops"
      "search_done g target (set ?needs) hops"
    using hops_to_target_ok [OF ok] by blast
  obtain le' where le': "guard_consumers g hops passing target ?needs ?le1 = Some le'"
      "only_adds passing ?le1 le'" "\<forall>c\<in>set ?needs. chain_guarded g passing le' target c"
  proof -
    have "\<forall>c\<in>set ?needs. target \<notin> set (ig_imports g c)" by simp
    from guard_consumers_ok [OF ok hops(2) order_refl this, of passing ?le1] that
    show ?thesis by blast
  qed
  have "only_adds passing le ?le1" by (simp add: only_adds_entry)
  then have "only_adds passing le le'" using le'(2) by (rule only_adds_trans)
  moreover have "chain_guarded g passing le' target c" if "c \<in> set consumers" for c
    using le'(3) that by (cases "target \<in> set (ig_imports g c)") (auto simp: chain_guarded_def)
  moreover have "target \<in> set passing \<longrightarrow> target \<in> members le' target"
    using le'(2) by (auto simp: only_adds_def split: if_splits)
  ultimately show ?thesis using hops(1) le'(1) by (simp add: guard_target_def Let_def)
qed

lemma guard_targets_ok:
  assumes ok: "graph_ok g"
  shows "\<exists>le'. guard_targets g passing targets le = Some le' \<and> only_adds passing le le' \<and>
    (\<forall>(t, cs)\<in>set targets. (\<forall>c\<in>set cs. chain_guarded g passing le' t c) \<and>
       (t \<in> set passing \<longrightarrow> t \<in> members le' t))"
proof (induction targets arbitrary: le)
  case (Cons e targets)
  obtain t cs where e: "e = (t, cs)" by (cases e)
  obtain le1 where 1: "guard_target g passing t cs le = Some le1" "only_adds passing le le1"
      "\<forall>c\<in>set cs. chain_guarded g passing le1 t c" "t \<in> set passing \<longrightarrow> t \<in> members le1 t"
    using guard_target_ok [OF ok, of passing t cs le] by blast
  obtain le2 where 2: "guard_targets g passing targets le1 = Some le2" "only_adds passing le1 le2"
      "\<forall>(t, cs)\<in>set targets. (\<forall>c\<in>set cs. chain_guarded g passing le2 t c) \<and>
         (t \<in> set passing \<longrightarrow> t \<in> members le2 t)"
    using Cons.IH by blast
  have "\<forall>c\<in>set cs. chain_guarded g passing le2 t c"
    using chain_guarded_mono [OF 2(2), of g t] 1(3) by simp
  moreover have "t \<in> set passing \<longrightarrow> t \<in> members le2 t"
    using 1(4) 2(2) unfolding only_adds_def by blast
  moreover have "only_adds passing le le2" using 1(2) 2(2) by (rule only_adds_trans)
  ultimately show ?case using 1(1) 2(1,3) by (simp add: e)
qed simp

lemma consumers_by_target_complete:
  assumes "(c, ts) \<in> set implicit_imports" "t \<in> set ts"
  shows "\<exists>cs. (t, cs) \<in> set (consumers_by_target implicit_imports) \<and> c \<in> set cs"
proof -
  let ?push = "\<lambda>acc (c, ts). foldl (\<lambda>acc t. amap_push t c acc) acc ts"
  have one: "amap_get (foldl (\<lambda>acc t. amap_push t c acc) acc ts) t =
      amap_get acc t @ map (\<lambda>_. c) (filter (\<lambda>t'. t' = t) ts)" for acc c ts t
    by (induction ts arbitrary: acc) (auto simp: amap_push_def)
  have all: "set (amap_get (foldl ?push acc is) t) =
      set (amap_get acc t) \<union> {c. \<exists>ts. (c, ts) \<in> set is \<and> t \<in> set ts}" for acc "is" t
  proof (induction "is" arbitrary: acc)
    case (Cons i "is")
    obtain c ts where i: "i = (c, ts)" by (cases i)
    show ?case unfolding foldl_Cons Cons.IH i prod.case one by auto
  qed simp
  have "c \<in> set (amap_get (consumers_by_target implicit_imports) t)"
    unfolding consumers_by_target_def all using assms by auto
  then show ?thesis
    by (cases "map_of (consumers_by_target implicit_imports) t")
      (auto simp: amap_get_def dest: map_of_SomeD)
qed

text \<open>
  C17: Implicit imports are propagated along shortest chains. The propagation terminates, adds
  guards to passing modules only, and loses none. Afterwards, for every consumer and each of its
  implicit imports: a passing target guards itself, and either the consumer imports the target
  itself, or no chain of imports leads to it, or every passing module on one shortest chain is
  guarded by the target.
\<close>

theorem propagate_implicit_imports_ok:
  assumes "graph_ok g"
  shows "\<exists>le'. propagate_implicit_imports_along_chains g passing implicit_imports le = Some le' \<and>
    only_adds passing le le' \<and>
    (\<forall>(consumer, targets)\<in>set implicit_imports. \<forall>target\<in>set targets.
       chain_guarded g passing le' target consumer \<and>
       (target \<in> set passing \<longrightarrow> target \<in> members le' target))"
proof -
  obtain le' where le': "propagate_implicit_imports_along_chains g passing implicit_imports le = Some le'"
      "only_adds passing le le'"
      "\<forall>(t, cs)\<in>set (consumers_by_target implicit_imports).
         (\<forall>c\<in>set cs. chain_guarded g passing le' t c) \<and> (t \<in> set passing \<longrightarrow> t \<in> members le' t)"
    using guard_targets_ok [OF assms] unfolding propagate_implicit_imports_along_chains_def by blast
  have "chain_guarded g passing le' t c \<and> (t \<in> set passing \<longrightarrow> t \<in> members le' t)"
    if "(c, ts) \<in> set implicit_imports" "t \<in> set ts" for c ts t
    using consumers_by_target_complete [OF that] le'(3) by blast
  with le' show ?thesis by blast
qed

definition sample_imports :: import_graph where
  "sample_imports =
     \<lparr>ig_modules = [''a'', ''b'', ''c''],
      ig_imports = (\<lambda>m. if m = ''a'' then [''b''] else if m = ''b'' then [''c''] else []),
      ig_importers = (\<lambda>m. if m = ''b'' then [''a''] else if m = ''c'' then [''b''] else []),
      ig_missing = Map.empty, ig_ambiguous = Map.empty\<rparr>"

lemma propagate_implicit_imports_ok_witness:
  "\<exists>le'. propagate_implicit_imports_along_chains sample_imports [''a'', ''b'', ''c'']
      [(''a'', [''c''])] Map.empty = Some le' \<and> ''c'' \<in> members le' ''b'' \<and> ''c'' \<in> members le' ''c''"
proof -
  have "graph_ok sample_imports" by (auto simp: graph_ok_def sample_imports_def split: if_splits)
  from propagate_implicit_imports_ok [OF this, of "[''a'', ''b'', ''c'']" "[(''a'', [''c''])]" Map.empty]
  obtain le' where le': "propagate_implicit_imports_along_chains sample_imports [''a'', ''b'', ''c'']
      [(''a'', [''c''])] Map.empty = Some le'"
      "chain_guarded sample_imports [''a'', ''b'', ''c''] le' ''c'' ''a''" "''c'' \<in> members le' ''c''"
    by auto
  have chain: "import_chain sample_imports ''c'' ''a'' [''b'']"
    by (simp add: import_chain_def sample_imports_def)
  then obtain ns where ns: "import_chain sample_imports ''c'' ''a'' ns"
      "\<forall>n\<in>set ns \<inter> set [''a'', ''b'', ''c'']. ''c'' \<in> members le' n"
    using le'(2) by (auto simp: chain_guarded_def sample_imports_def)
  then have "hd ns = ''b''" "ns \<noteq> []"
    by (cases ns; auto simp: import_chain_def sample_imports_def)+
  then have "''b'' \<in> set ns" using hd_in_set by metis
  with ns(2) have "''c'' \<in> members le' ''b''" by auto
  with le' show ?thesis by blast
qed

end
