(* ===== verification/Reexports.thy ===== *)
theory Reexports
  imports Prelude
begin

text \<open>
  Re-exports in the reduce step (\<open>src/output/policy.rs\<close>): a name that a module re-exports is
  traced through the cached re-exports of the other modules to the module that defines it, and
  the re-exports that end in a failing module are collected. The chains are resolved by parallel
  tasks, each with its own memo table; the tasks are lists of indices.
\<close>

record cached_re_export =
  exported_module :: modname
  exported_attr :: string
  imported_module :: modname
  imported_attr :: string

section \<open>Resolving a chain\<close>

text \<open>The \<open>chain\<close> table: the later of two entries with the same key stays.\<close>

definition chain_index :: "cached_re_export list \<Rightarrow> modname \<times> string \<Rightarrow> nat option" where
  "chain_index re_exports key =
     map_of (rev (zip (map (\<lambda>r. (exported_module r, exported_attr r)) re_exports)
                      [0..<length re_exports])) key"

lemma chain_index_SomeD:
  "chain_index re_exports key = Some i \<Longrightarrow>
     i < length re_exports \<and> key = (exported_module (re_exports ! i), exported_attr (re_exports ! i))"
  by (auto simp: chain_index_def set_zip dest!: map_of_SomeD)

definition import_key :: "cached_re_export list \<Rightarrow> nat \<Rightarrow> modname \<times> string" where
  "import_key re_exports i = (imported_module (re_exports ! i), imported_attr (re_exports ! i))"

type_synonym chain_memo = "(nat \<times> modname option) list"

text \<open>The loop returns its result and the path, whose elements are also the visited set.\<close>

function chain_loop ::
  "cached_re_export list \<Rightarrow> chain_memo \<Rightarrow> nat list \<Rightarrow> modname \<times> string \<Rightarrow> modname option \<times> nat list"
where
  "chain_loop re_exports memo path cur =
     (case chain_index re_exports cur of
        None \<Rightarrow> (Some (fst cur), path)
      | Some idx \<Rightarrow>
          (case map_of memo idx of
             Some cached \<Rightarrow> (cached, path)
           | None \<Rightarrow>
               if idx \<in> set path then (None, path)
               else chain_loop re_exports memo (path @ [idx]) (import_key re_exports idx)))"
  by pat_completeness auto
termination
proof (relation "measure (\<lambda>(res, memo, path, cur). card ({0..<length res} - set path))", goal_cases)
  case (2 res memo path cur idx)
  have "idx < length res" using chain_index_SomeD [OF 2(1)] by (rule conjunct1)
  with 2(3) have "idx \<in> {0..<length res} - set path" by simp
  moreover have "{0..<length res} - set (path @ [idx]) = ({0..<length res} - set path) - {idx}"
    unfolding set_append by fastforce
  ultimately have "card ({0..<length res} - set (path @ [idx])) < card ({0..<length res} - set path)"
    by (simp only: finite_Diff finite_atLeastLessThan card_Diff1_less)
  then show ?case by simp
qed simp

declare chain_loop.simps [simp del]

definition resolve_reexport_chain ::
  "cached_re_export list \<Rightarrow> nat \<Rightarrow> chain_memo \<Rightarrow> modname option \<times> chain_memo" where
  "resolve_reexport_chain re_exports start memo =
     (case map_of memo start of
        Some cached \<Rightarrow> (cached, memo)
      | None \<Rightarrow>
          (case chain_loop re_exports memo [] (import_key re_exports start) of
             (result, path) \<Rightarrow>
               (result, foldl (\<lambda>m i. (i, result) # m) ((start, result) # memo) path)))"

section \<open>Collecting the failing sources\<close>

type_synonym re_map = "(modname \<times> modname list) list"

fun re_map_insert :: "modname \<Rightarrow> modname \<Rightarrow> re_map \<Rightarrow> re_map" where
  "re_map_insert m s [] = [(m, [s])]"
| "re_map_insert m s ((m', ss) # rest) =
     (if m' = m then (m', small_insert s ss) # rest else (m', ss) # re_map_insert m s rest)"

text \<open>One task: its scratch is the map and the memo.\<close>

definition re_export_task :: "cached_re_export list \<Rightarrow> modname list \<Rightarrow> nat list \<Rightarrow> re_map" where
  "re_export_task re_exports failing task =
     fst (foldl (\<lambda>(m, memo) i.
            case resolve_reexport_chain re_exports i memo of
              (Some source, memo') \<Rightarrow>
                (if source \<in> set failing then re_map_insert (exported_module (re_exports ! i)) source m
                 else m, memo')
            | (None, memo') \<Rightarrow> (m, memo'))
          ([], []) task)"

definition re_map_union :: "re_map \<Rightarrow> re_map \<Rightarrow> re_map" where
  "re_map_union a b =
     (let (large, small) = (if length a \<ge> length b then (a, b) else (b, a)) in
      foldl (\<lambda>acc (m, ss). foldl (\<lambda>acc s. re_map_insert m s acc) acc ss) large small)"

definition build_re_export_map_from_cache ::
  "cached_re_export list \<Rightarrow> modname list \<Rightarrow> nat list list \<Rightarrow> re_map" where
  "build_re_export_map_from_cache re_exports failing tasks =
     foldl re_map_union [] (map (re_export_task re_exports failing) tasks)"

section \<open>Where a chain ends\<close>

definition link :: "cached_re_export list \<Rightarrow> (nat \<times> nat) set" where
  "link re_exports = {(i, j). chain_index re_exports (import_key re_exports i) = Some j}"

inductive chain_target :: "cached_re_export list \<Rightarrow> nat \<Rightarrow> modname \<Rightarrow> bool" for re_exports where
  last: "chain_index re_exports (import_key re_exports i) = None \<Longrightarrow>
    chain_target re_exports i (imported_module (re_exports ! i))"
| step: "chain_index re_exports (import_key re_exports i) = Some j \<Longrightarrow>
    chain_target re_exports j m \<Longrightarrow> chain_target re_exports i m"

inductive_simps chain_target_iff: "chain_target re_exports i m"

lemma chain_target_unique: "chain_target res i m \<Longrightarrow> chain_target res i m' \<Longrightarrow> m = m'"
proof (induction arbitrary: m' rule: chain_target.induct)
  case (last i)
  from last(2,1) show ?case by cases auto
next
  case (step i j m)
  from step(4) show ?case using step(1,3) by cases auto
qed

lemma link_target: "(i, j) \<in> link res \<Longrightarrow> chain_target res i m \<longleftrightarrow> chain_target res j m"
  by (subst chain_target_iff) (auto simp: link_def)

lemma links_target: "(i, j) \<in> (link res)\<^sup>* \<Longrightarrow> chain_target res i m \<longleftrightarrow> chain_target res j m"
  by (induction rule: rtrancl_induct) (auto simp: link_target)

lemma link_fun: "(i, j) \<in> link res \<Longrightarrow> (i, k) \<in> link res \<Longrightarrow> j = k"
  by (simp add: link_def)

lemma cycle_no_target: "chain_target res i m \<Longrightarrow> (i, i) \<notin> (link res)\<^sup>+"
proof (induction rule: chain_target.induct)
  case (last i)
  then show ?case by (auto simp: link_def dest: tranclD)
next
  case (step i j m)
  show ?case
  proof
    assume "(i, i) \<in> (link res)\<^sup>+"
    then obtain k where "(i, k) \<in> link res" "(k, i) \<in> (link res)\<^sup>*" by (auto dest: tranclD)
    moreover have "(i, j) \<in> link res" using step(1) by (simp add: link_def)
    ultimately have "(j, i) \<in> (link res)\<^sup>*" "(i, j) \<in> link res" using link_fun by blast+
    then have "(j, j) \<in> (link res)\<^sup>+" by (rule rtrancl_into_trancl1)
    with step(3) show False by simp
  qed
qed

definition target_is :: "cached_re_export list \<Rightarrow> nat \<Rightarrow> modname option \<Rightarrow> bool" where
  "target_is res i r \<longleftrightarrow> (\<forall>m. r = Some m \<longleftrightarrow> chain_target res i m)"

lemma target_is_links: "(i, j) \<in> (link res)\<^sup>* \<Longrightarrow> target_is res j r \<Longrightarrow> target_is res i r"
  by (simp add: target_is_def links_target)

definition memo_correct :: "cached_re_export list \<Rightarrow> chain_memo \<Rightarrow> bool" where
  "memo_correct res memo \<longleftrightarrow> (\<forall>(i, r)\<in>set memo. target_is res i r)"

lemma chain_loop_correct:
  assumes "memo_correct res memo" "chain_loop res memo path cur = (r, path')"
    and "cur = import_key res i" "\<forall>j\<in>insert start (set path). (j, i) \<in> (link res)\<^sup>*"
    and "\<forall>j\<in>set path. (start, j) \<in> (link res)\<^sup>+"
  shows "\<forall>j\<in>insert start (set path'). target_is res j r"
  using assms
proof (induction res memo path cur arbitrary: i rule: chain_loop.induct)
  case (1 res memo path cur)
  show ?case
  proof (cases "chain_index res cur")
    case None
    then have "r = Some (fst cur)" "path' = path" using 1(3) by (simp_all add: chain_loop.simps)
    moreover have "chain_target res i (fst cur)"
      using None 1(4) chain_target.last [of res i] by (simp add: import_key_def)
    then have "target_is res i (Some (fst cur))"
      by (auto simp: target_is_def dest: chain_target_unique)
    ultimately show ?thesis using 1(5) target_is_links by blast
  next
    case (Some idx)
    have link: "(i, idx) \<in> link res" using Some 1(4) by (simp add: link_def)
    then have reach: "\<forall>j\<in>insert start (set path). (j, idx) \<in> (link res)\<^sup>*"
      using 1(5) by (meson rtrancl_into_rtrancl)
    show ?thesis
    proof (cases "map_of memo idx")
      case cached: (Some c)
      then have "r = c" "path' = path" using Some 1(3) by (simp_all add: chain_loop.simps)
      moreover have "target_is res idx c"
        using 1(2) map_of_SomeD [OF cached] by (auto simp: memo_correct_def)
      ultimately show ?thesis using reach target_is_links by blast
    next
      case None
      show ?thesis
      proof (cases "idx \<in> set path")
        case True
        then have "r = None" "path' = path" using Some None 1(3) by (simp_all add: chain_loop.simps)
        moreover have "(idx, idx) \<in> (link res)\<^sup>+"
          using True 1(5) link by (meson insertCI rtrancl_into_trancl1)
        then have "target_is res idx None" by (auto simp: target_is_def dest: cycle_no_target)
        ultimately show ?thesis using reach target_is_links by blast
      next
        case False
        have loop: "chain_loop res memo (path @ [idx]) (import_key res idx) = (r, path')"
          using 1(3) Some None False by (subst (asm) chain_loop.simps) simp
        have "(start, idx) \<in> (link res)\<^sup>+"
          using 1(5) link by (meson insertCI rtrancl_into_trancl1)
        then show ?thesis
          using 1(1) [OF Some None False 1(2) loop refl] reach 1(6) by auto
      qed
    qed
  qed
qed

lemma resolve_correct:
  assumes "memo_correct res memo" "resolve_reexport_chain res i memo = (r, memo')"
  shows "target_is res i r" and "memo_correct res memo'"
proof -
  have "target_is res i r \<and> memo_correct res memo'"
  proof (cases "map_of memo i")
    case (Some c)
    with assms show ?thesis
      by (auto simp: resolve_reexport_chain_def memo_correct_def dest!: map_of_SomeD)
  next
    case None
    obtain r' path where loop: "chain_loop res memo [] (import_key res i) = (r', path)"
      by (cases "chain_loop res memo [] (import_key res i)")
    have all: "\<forall>j\<in>insert i (set path). target_is res j r'"
      by (rule chain_loop_correct [OF assms(1) loop refl]) simp_all
    have "set (foldl (\<lambda>m i. (i, r') # m) m0 path) = set m0 \<union> (\<lambda>i. (i, r')) ` set path" for m0
      by (induction path arbitrary: m0) auto
    moreover have "r = r'" "memo' = foldl (\<lambda>m i. (i, r') # m) ((i, r') # memo) path"
      using assms(2) None loop by (auto simp: resolve_reexport_chain_def)
    ultimately show ?thesis
      using all assms(1) by (auto simp: memo_correct_def)
  qed
  then show "target_is res i r" "memo_correct res memo'" by blast+
qed

section \<open>The collected map\<close>

definition re_sources :: "re_map \<Rightarrow> modname \<Rightarrow> modname set" where
  "re_sources m k = (case map_of m k of None \<Rightarrow> {} | Some ss \<Rightarrow> set ss)"

lemma re_sources_Nil [simp]: "re_sources [] k = {}"
  by (simp add: re_sources_def)

lemma map_of_re_map_insert:
  "map_of (re_map_insert m s r) k =
     (if k = m then Some (case map_of r m of None \<Rightarrow> [s] | Some ss \<Rightarrow> small_insert s ss)
      else map_of r k)"
proof (induction r)
  case (Cons e r)
  then show ?case by (cases e; cases "k = m") simp_all
qed simp

lemma re_sources_insert [simp]:
  "re_sources (re_map_insert m s r) k = (if k = m then insert s (re_sources r k) else re_sources r k)"
  by (simp add: re_sources_def map_of_re_map_insert split: option.split)

lemma keys_re_map_insert [simp]: "fst ` set (re_map_insert m s r) = insert m (fst ` set r)"
  by (induction m s r rule: re_map_insert.induct) auto

lemma distinct_re_map_insert [simp]:
  "distinct (map fst r) \<Longrightarrow> distinct (map fst (re_map_insert m s r))"
  by (induction m s r rule: re_map_insert.induct) auto

lemma re_map_insert_all:
  "distinct (map fst r) \<Longrightarrow> distinct (map fst (foldl (\<lambda>acc s. re_map_insert m s acc) r ss)) \<and>
     re_sources (foldl (\<lambda>acc s. re_map_insert m s acc) r ss) k =
       (if k = m then set ss \<union> re_sources r k else re_sources r k)"
  by (induction ss arbitrary: r) auto

lemma re_map_union_sources:
  assumes "distinct (map fst a)" "distinct (map fst b)"
  shows "distinct (map fst (re_map_union a b)) \<and>
    re_sources (re_map_union a b) k = re_sources a k \<union> re_sources b k"
proof -
  let ?f = "\<lambda>acc (m, ss). foldl (\<lambda>acc s. re_map_insert m s acc) acc ss"
  have into: "distinct (map fst (foldl ?f l s)) \<and>
      re_sources (foldl ?f l s) k = re_sources l k \<union> re_sources s k"
    if "distinct (map fst l)" "distinct (map fst s)" for l s :: re_map
    using that
  proof (induction s arbitrary: l)
    case (Cons e s)
    obtain m ss where e: "e = (m, ss)" by (cases e)
    have "m \<notin> fst ` set s" using Cons.prems(2) e by auto
    then have "re_sources s m = {}" by (simp add: re_sources_def map_of_eq_None_iff [THEN iffD2])
    with Cons e re_map_insert_all [OF Cons.prems(1), of m ss k] show ?case
      by (auto simp: re_sources_def)
  qed simp
  show ?thesis
    using into [of a b] into [of b a] assms by (auto simp: re_map_union_def Let_def)
qed

lemma re_export_task_sources:
  "distinct (map fst (re_export_task res failing task)) \<and>
   re_sources (re_export_task res failing task) k =
     {s. s \<in> set failing \<and> (\<exists>i\<in>set task. exported_module (res ! i) = k \<and> chain_target res i s)}"
proof -
  let ?f = "\<lambda>(m, memo) i.
      case resolve_reexport_chain res i memo of
        (Some source, memo') \<Rightarrow>
          (if source \<in> set failing then re_map_insert (exported_module (res ! i)) source m else m, memo')
      | (None, memo') \<Rightarrow> (m, memo')"
  have "distinct (map fst (fst (foldl ?f (m, memo) task))) \<and>
      re_sources (fst (foldl ?f (m, memo) task)) k = re_sources m k \<union>
       {s. s \<in> set failing \<and> (\<exists>i\<in>set task. exported_module (res ! i) = k \<and> chain_target res i s)}"
    if "memo_correct res memo" "distinct (map fst m)" for m memo
    using that
  proof (induction task arbitrary: m memo)
    case (Cons i task)
    obtain r memo' where r: "resolve_reexport_chain res i memo = (r, memo')"
      by (cases "resolve_reexport_chain res i memo")
    note ok = resolve_correct [OF Cons.prems(1) r]
    let ?m = "case r of Some source \<Rightarrow>
        if source \<in> set failing then re_map_insert (exported_module (res ! i)) source m else m
      | None \<Rightarrow> m"
    have step: "?f (m, memo) i = (?m, memo')" using r by (simp split: option.split)
    have "re_sources ?m k = re_sources m k \<union>
        {s. s \<in> set failing \<and> exported_module (res ! i) = k \<and> chain_target res i s}"
    proof (cases r)
      case None
      with ok(1) show ?thesis by (auto simp: target_is_def)
    next
      case (Some source)
      with ok(1) have "\<forall>s. source = s \<longleftrightarrow> chain_target res i s" by (simp add: target_is_def)
      then have "chain_target res i s \<longleftrightarrow> s = source" for s by metis
      then show ?thesis using Some by auto
    qed
    moreover have "distinct (map fst ?m)" using Cons.prems(2) by (simp split: option.split)
    ultimately show ?case
      using Cons.IH [OF ok(2), of ?m] unfolding foldl_Cons step by auto
  qed simp
  from this [of "[]" "[]"] show ?thesis
    by (simp add: re_export_task_def memo_correct_def)
qed

text \<open>
  Parallel resolution of re-exports is exact. However the re-exports are split into tasks,
  and although each task reuses the results of its memo table, a module is mapped to exactly the
  failing modules in which one of its re-export chains ends. A chain that runs into a cycle ends
  nowhere.
\<close>

theorem build_re_export_map_from_cache_exact:
  assumes "set (concat tasks) = {0..<length res}"
  shows "re_sources (build_re_export_map_from_cache res failing tasks) k =
    {s. s \<in> set failing \<and>
      (\<exists>i<length res. exported_module (res ! i) = k \<and> chain_target res i s)}"
proof -
  have "distinct (map fst (foldl re_map_union m (map (re_export_task res failing) ts))) \<and>
      re_sources (foldl re_map_union m (map (re_export_task res failing) ts)) k =
        re_sources m k \<union> {s. s \<in> set failing \<and>
          (\<exists>i\<in>set (concat ts). exported_module (res ! i) = k \<and> chain_target res i s)}"
    if "distinct (map fst m)" for m ts
    using that
  proof (induction ts arbitrary: m)
    case (Cons t ts)
    note union = re_map_union_sources [OF Cons.prems, of "re_export_task res failing t" k]
    show ?case
      using Cons.IH [of "re_map_union m (re_export_task res failing t)"] union
        re_export_task_sources [of res failing t k]
      by auto
  qed simp
  from this [of "[]" tasks] show ?thesis
    unfolding build_re_export_map_from_cache_def assms by auto
qed

definition sample_re_exports :: "cached_re_export list" where
  "sample_re_exports =
     [\<lparr>exported_module = ''a'', exported_attr = ''x'', imported_module = ''b'', imported_attr = ''y''\<rparr>,
      \<lparr>exported_module = ''b'', exported_attr = ''y'', imported_module = ''c'', imported_attr = ''z''\<rparr>]"

lemma build_re_export_map_from_cache_exact_witness:
  "''c'' \<in> re_sources (build_re_export_map_from_cache sample_re_exports [''c''] [[1], [0]]) ''a''"
proof -
  have tasks: "set (concat [[1], [0]]) = {0..<length sample_re_exports}"
    by (auto simp: sample_re_exports_def)
  have "chain_target sample_re_exports 1 ''c''"
    by (subst chain_target_iff) (simp add: sample_re_exports_def chain_index_def import_key_def)
  then have "chain_target sample_re_exports 0 ''c''"
    by (rule chain_target.step [rotated]) (simp add: sample_re_exports_def chain_index_def import_key_def)
  moreover have "exported_module (sample_re_exports ! 0) = ''a''" "0 < length sample_re_exports"
    by (simp_all add: sample_re_exports_def)
  ultimately show ?thesis
    unfolding build_re_export_map_from_cache_exact [OF tasks] by auto
qed

end
