(* ===== verification/Policy.thy ===== *)
theory Policy
  imports Module_Safety Import_Chains Reexports
begin

text \<open>
  The lazy-eligibility policy (\<open>src/output/policy.rs\<close>): modules are classified as passing or
  failing, and every passing module gets the set of modules that must be loaded before it may be
  imported lazily, its guards. Hash maps and sets are iterated in an unspecified order, so the
  model takes them as lists in any order; guard sets are sets. \<open>parent\<close> and \<open>find_cycles\<close> stand
  for \<open>ModuleName::parent\<close> of \<open>pyrefly\<close> and the strongly connected components that
  \<open>petgraph\<close> computes.
\<close>

section \<open>Classification\<close>

record classified =
  cl_failing :: "modname list"
  cl_passing :: "modname list"
  cl_load_eagerly :: "modname list"
  cl_implicit :: "(modname \<times> modname list) list"
  cl_errors :: "(error_kind \<times> string) \<Rightarrow> nat"

definition new_classified :: classified where
  "new_classified =
     \<lparr>cl_failing = [], cl_passing = [], cl_load_eagerly = [], cl_implicit = [], cl_errors = (\<lambda>_. 0)\<rparr>"

definition record_status :: "modname \<Rightarrow> bool \<Rightarrow> bool \<Rightarrow> classified \<Rightarrow> classified" where
  "record_status m safe load_eagerly c =
     (let c1 = (if safe then c\<lparr>cl_passing := small_insert m (cl_passing c)\<rparr>
                else c\<lparr>cl_failing := small_insert m (cl_failing c)\<rparr>)
      in if load_eagerly then c1\<lparr>cl_load_eagerly := small_insert m (cl_load_eagerly c1)\<rparr> else c1)"

definition record_implicit_imports :: "modname \<Rightarrow> modname list \<Rightarrow> classified \<Rightarrow> classified" where
  "record_implicit_imports m imports c =
     (if imports \<noteq> []
      then c\<lparr>cl_implicit := (m, imports) # filter (\<lambda>e. fst e \<noteq> m) (cl_implicit c)\<rparr> else c)"

text \<open>Each distinct pair of a module counts once.\<close>

definition record_errors :: "(error_kind \<times> string) list \<Rightarrow> classified \<Rightarrow> classified" where
  "record_errors es c =
     c\<lparr>cl_errors := (\<lambda>e. if e \<in> set es then cl_errors c e + 1 else cl_errors c e)\<rparr>"

definition error_key :: "safety_error \<Rightarrow> error_kind \<times> string" where
  "error_key e = (err_kind e, err_metadata e)"

definition classify_module :: "modname \<Rightarrow> safety_result \<Rightarrow> classified \<Rightarrow> classified" where
  "classify_module m result c =
     (case result of
        AnalysisError msg \<Rightarrow> c\<lparr>cl_failing := small_insert m (cl_failing c)\<rparr>
      | SafetyOk s \<Rightarrow>
          record_errors (map error_key (errors s @ force_imports_eager_overrides s))
            (record_implicit_imports m (implicit_imports s)
              (record_status m (module_is_safe s) (should_load_imports_eagerly s) c)))"

definition classify_modules :: "(modname \<times> safety_result) list \<Rightarrow> classified" where
  "classify_modules safety_map = foldl (\<lambda>c (m, r). classify_module m r c) new_classified safety_map"

section \<open>Guards\<close>

definition extend_guards :: "modname \<Rightarrow> modname set \<Rightarrow> guards \<Rightarrow> guards" where
  "extend_guards m vs le = le(m \<mapsto> members le m \<union> vs)"

text \<open>The guards of a passing module that the scan finds.\<close>

definition failing_imported_modules ::
  "import_graph \<Rightarrow> classified \<Rightarrow> re_map \<Rightarrow> modname set \<Rightarrow> modname \<Rightarrow> modname set" where
  "failing_imported_modules g c re_export_map cycle_modules m =
     set (filter (\<lambda>i. i \<in> set (cl_failing c)) (ig_imports g m)) \<union>
     (\<Union>i\<in>set (ig_imports g m). re_sources re_export_map i) \<union>
     (case ig_missing g m of None \<Rightarrow> {} | Some missing \<Rightarrow> set missing) \<union>
     set (filter (\<lambda>a. a \<in> cycle_modules) (map fst (drop 1 (iter_parents m))))"

fun scan_modules ::
  "import_graph \<Rightarrow> classified \<Rightarrow> re_map \<Rightarrow> modname set \<Rightarrow> modname list \<Rightarrow> guards \<Rightarrow> guards" where
  "scan_modules g c re_export_map cycle_modules [] le = le"
| "scan_modules g c re_export_map cycle_modules (m # ms) le =
     scan_modules g c re_export_map cycle_modules ms
       (if m \<in> set (cl_passing c)
        then le(m \<mapsto> failing_imported_modules g c re_export_map cycle_modules m) else le)"

definition collect_cycle_children ::
  "(modname \<Rightarrow> modname option) \<Rightarrow> modname set \<Rightarrow> modname list \<Rightarrow> (modname \<times> modname list) list" where
  "collect_cycle_children parent cycle_modules ms =
     foldl (\<lambda>acc m.
         case parent m of
           None \<Rightarrow> acc
         | Some p \<Rightarrow> if p \<in> cycle_modules then amap_push p m acc else acc)
       [] ms"

section \<open>Cycles\<close>

record cycle_ctx =
  cx_graph :: import_graph
  cx_implicit_parents :: "(modname \<times> modname list) list"
  cx_passing :: "modname list"
  cx_children :: "(modname \<times> modname list) list"

definition propagate_to_children :: "cycle_ctx \<Rightarrow> modname \<Rightarrow> modname set \<Rightarrow> guards \<Rightarrow> guards" where
  "propagate_to_children cx m deps le =
     foldl (\<lambda>le child.
         if child \<in> set (cx_passing cx)
         then extend_guards child ((\<lambda>dep. if dep = child then m else dep) ` deps) le else le)
       le (amap_get (cx_children cx) m)"

definition cycle_imports :: "cycle_ctx \<Rightarrow> modname list \<Rightarrow> modname \<Rightarrow> modname set" where
  "cycle_imports cx cycle m =
     set (filter (\<lambda>i. i \<noteq> m \<and> i \<in> set cycle)
       (ig_imports (cx_graph cx) m @ amap_get (cx_implicit_parents cx) m))"

definition add_member_deps :: "cycle_ctx \<Rightarrow> modname list \<Rightarrow> modname \<Rightarrow> guards \<Rightarrow> guards" where
  "add_member_deps cx cycle m le =
     (if m \<notin> set (cx_passing cx) then propagate_to_children cx m {m} le
      else
        let deps = cycle_imports cx cycle m in
        if deps \<noteq> {} then propagate_to_children cx m deps (extend_guards m deps le) else le)"

definition add_cycle_deps :: "cycle_ctx \<Rightarrow> modname list list \<Rightarrow> guards \<Rightarrow> guards" where
  "add_cycle_deps cx all_cycles le =
     foldl (\<lambda>le cycle. foldl (\<lambda>le m. add_member_deps cx cycle m le) le cycle) le all_cycles"

definition outermost_member_ancestor :: "modname \<Rightarrow> modname list \<Rightarrow> modname option" where
  "outermost_member_ancestor m member_names =
     map_option (\<lambda>i. take i m)
       (find_first (\<lambda>i. m ! i = dot \<and> take i m \<in> set member_names) [0..<length m])"

definition record_importer ::
  "modname list \<Rightarrow> modname \<Rightarrow> modname \<Rightarrow> re_map \<Rightarrow> re_map" where
  "record_importer cycle entry importer ents =
     (if importer \<in> set (map fst ents) then re_map_insert importer entry ents
      else if importer \<notin> set cycle \<and> outermost_member_ancestor importer cycle = None
      then re_map_insert importer entry ents
      else ents)"

definition implicit_importers :: "(modname \<times> modname list) list \<Rightarrow> (modname \<times> modname list) list" where
  "implicit_importers implicit_parents =
     foldl (\<lambda>acc (from, parents). foldl (\<lambda>acc p. amap_push p from acc) acc parents) [] implicit_parents"

definition cycle_entry :: "modname list \<Rightarrow> modname \<Rightarrow> modname" where
  "cycle_entry cycle member =
     (case outermost_member_ancestor member cycle of None \<Rightarrow> member | Some a \<Rightarrow> a)"

definition cycle_entries :: "cycle_ctx \<Rightarrow> modname list \<Rightarrow> re_map" where
  "cycle_entries cx cycle =
     foldl (\<lambda>ents member.
         foldl (\<lambda>ents importer. record_importer cycle (cycle_entry cycle member) importer ents)
           ents
           (ig_importers (cx_graph cx) member @
            amap_get (implicit_importers (cx_implicit_parents cx)) member))
       [] cycle"

definition all_equal :: "'a list \<Rightarrow> bool" where
  "all_equal xs = (case xs of [] \<Rightarrow> True | x # ys \<Rightarrow> list_all (\<lambda>y. y = x) ys)"

definition add_entry_guards_of_cycle :: "cycle_ctx \<Rightarrow> modname list \<Rightarrow> guards \<Rightarrow> guards" where
  "add_entry_guards_of_cycle cx cycle le =
     (let ents = cycle_entries cx cycle in
      if all_equal (concat (map snd ents)) then le
      else
        foldl (\<lambda>le (importer, entry_members).
            if importer \<in> set (cx_passing cx) then extend_guards importer (set entry_members) le
            else le)
          le ents)"

definition add_cycle_entry_guards :: "cycle_ctx \<Rightarrow> modname list list \<Rightarrow> guards \<Rightarrow> guards" where
  "add_cycle_entry_guards cx all_cycles le =
     foldl (\<lambda>le cycle. add_entry_guards_of_cycle cx cycle le) le all_cycles"

section \<open>The whole policy\<close>

definition guard_implicit_consumers :: "classified \<Rightarrow> guards \<Rightarrow> guards" where
  "guard_implicit_consumers c le =
     foldl (\<lambda>le (m, imports). if m \<in> set (cl_passing c) then extend_guards m (set imports) le else le)
       le (cl_implicit c)"

definition build_lazy_eligible ::
  "(modname \<Rightarrow> modname option) \<Rightarrow> import_graph \<Rightarrow> (modname \<times> modname list) list \<Rightarrow> classified \<Rightarrow>
     re_map \<Rightarrow> modname list list \<Rightarrow> guards option" where
  "build_lazy_eligible parent g implicit_parents c re_export_map all_cycles =
     (let cycle_modules = set (concat all_cycles);
          scanned = scan_modules g c re_export_map cycle_modules (ig_modules g) Map.empty;
          cx = \<lparr>cx_graph = g, cx_implicit_parents = implicit_parents, cx_passing = cl_passing c,
                cx_children = collect_cycle_children parent cycle_modules (ig_modules g)\<rparr>;
          guarded = guard_implicit_consumers c
            (add_cycle_entry_guards cx all_cycles (add_cycle_deps cx all_cycles scanned))
      in propagate_implicit_imports_along_chains g (cl_passing c) (cl_implicit c) guarded)"

definition collect_cycles ::
  "(import_graph \<Rightarrow> (modname \<times> modname list) list \<Rightarrow> modname list list) \<Rightarrow> import_graph \<Rightarrow>
     (modname \<times> modname list) list \<Rightarrow> modname list \<Rightarrow> modname list list" where
  "collect_cycles find_cycles g implicit_parents source_modules =
     filter (\<lambda>members. members \<noteq> [])
       (map (filter (\<lambda>m. m \<in> set source_modules)) (find_cycles g implicit_parents))"

definition modules_with_failing_deps :: "guards \<Rightarrow> modname set" where
  "modules_with_failing_deps le = {m. members le m \<noteq> {}}"

definition propagate_side_effect_entry ::
  "modname list \<Rightarrow> modname set \<Rightarrow> modname \<times> modname list \<Rightarrow> guards \<Rightarrow> guards" where
  "propagate_side_effect_entry passing has_failing_deps e le =
     (case e of (m, imports) \<Rightarrow>
        if imports = [] \<or> m \<notin> set passing then le
        else extend_guards m {i \<in> set imports. i \<in> has_failing_deps} le)"

definition propagate_side_effect_imports ::
  "modname list \<Rightarrow> (modname \<times> modname list) list \<Rightarrow> guards \<Rightarrow> guards" where
  "propagate_side_effect_imports passing side_effect_imports le =
     foldl (\<lambda>acc e. propagate_side_effect_entry passing (modules_with_failing_deps le) e acc)
       le side_effect_imports"

definition lazy_eligibility ::
  "(modname \<Rightarrow> modname option) \<Rightarrow> (import_graph \<Rightarrow> (modname \<times> modname list) list \<Rightarrow> modname list list) \<Rightarrow>
     import_graph \<Rightarrow> classified \<Rightarrow> re_map \<Rightarrow> (modname \<times> modname list) list \<Rightarrow> guards option" where
  "lazy_eligibility parent find_cycles g c re_export_map side_effects =
     (let implicit_parents = implicit_parent_imports g;
          all_cycles = collect_cycles find_cycles g implicit_parents (cl_passing c @ cl_failing c)
      in map_option (propagate_side_effect_imports (cl_passing c) side_effects)
           (build_lazy_eligible parent g implicit_parents c re_export_map all_cycles))"

section \<open>The classification is exact\<close>

lemma classify_modules_facts:
  "set (cl_failing (classify_modules sm)) =
     {m. \<exists>r. (m, r) \<in> set sm \<and> (case r of AnalysisError e \<Rightarrow> True | SafetyOk s \<Rightarrow> errors s \<noteq> [])} \<and>
   set (cl_passing (classify_modules sm)) = {m. \<exists>s. (m, SafetyOk s) \<in> set sm \<and> errors s = []} \<and>
   set (cl_load_eagerly (classify_modules sm)) =
     {m. \<exists>s. (m, SafetyOk s) \<in> set sm \<and> force_imports_eager_overrides s \<noteq> []}"
proof (induction sm rule: rev_induct)
  case Nil
  show ?case by (simp add: classify_modules_def new_classified_def)
next
  case (snoc e sm)
  obtain m r where e: "e = (m, r)" by (cases e)
  have step: "classify_modules (sm @ [(m, r)]) = classify_module m r (classify_modules sm)"
    by (simp add: classify_modules_def)
  show ?case
    unfolding e step using snoc
    by (cases r)
      (auto simp: classify_module_def record_errors_def record_implicit_imports_def record_status_def
        module_is_safe_def should_load_imports_eagerly_def Let_def)
qed

text \<open>How many modules report an error, errors of both lists of a module together.\<close>

definition reports :: "error_kind \<times> string \<Rightarrow> safety_result \<Rightarrow> bool" where
  "reports k r \<longleftrightarrow>
     (case r of AnalysisError e \<Rightarrow> False
      | SafetyOk s \<Rightarrow> k \<in> error_key ` set (errors s @ force_imports_eager_overrides s))"

lemma classify_modules_errors:
  "cl_errors (classify_modules sm) k = length (filter (\<lambda>(m, r). reports k r) sm)"
proof (induction sm rule: rev_induct)
  case Nil
  show ?case by (simp add: classify_modules_def new_classified_def)
next
  case (snoc e sm)
  obtain m r where e: "e = (m, r)" by (cases e)
  have step: "classify_modules (sm @ [(m, r)]) = classify_module m r (classify_modules sm)"
    by (simp add: classify_modules_def)
  have same: "cl_errors (record_implicit_imports m is (record_status m a b c)) = cl_errors c" for "is" a b c
    by (simp add: record_implicit_imports_def record_status_def Let_def)
  show ?case
    unfolding e step using snoc
    by (cases r) (auto simp: classify_module_def record_errors_def reports_def same image_Un)
qed

section \<open>Every step only adds guards of passing modules\<close>

lemma members_extend [simp]:
  "members (extend_guards m vs le) k = (if k = m then members le k \<union> vs else members le k)"
  by (simp add: members_def extend_guards_def)

lemma dom_extend [simp]: "dom (extend_guards m vs le) = insert m (dom le)"
  by (auto simp: extend_guards_def)

lemma only_adds_extend: "m \<in> set passing \<Longrightarrow> only_adds passing le (extend_guards m vs le)"
  by (auto simp: only_adds_def)

lemma only_adds_foldl:
  assumes "\<And>le x. x \<in> set xs \<Longrightarrow> only_adds passing le (f le x)"
  shows "only_adds passing le (foldl f le xs)"
  using assms
proof (induction xs arbitrary: le)
  case (Cons x xs)
  have "only_adds passing le (f le x)" using Cons.prems by simp
  moreover have "only_adds passing (f le x) (foldl f (f le x) xs)" using Cons by simp
  ultimately show ?case unfolding foldl_Cons by (rule only_adds_trans)
qed simp

lemma propagate_to_children_adds: "only_adds (cx_passing cx) le (propagate_to_children cx m deps le)"
  unfolding propagate_to_children_def
  by (rule only_adds_foldl) (simp add: only_adds_extend)

lemma add_member_deps_adds: "only_adds (cx_passing cx) le (add_member_deps cx cycle m le)"
proof -
  have "only_adds (cx_passing cx) le (propagate_to_children cx m deps (extend_guards m deps le))"
    if "m \<in> set (cx_passing cx)" for deps
    using only_adds_extend [OF that] propagate_to_children_adds by (rule only_adds_trans)
  then show ?thesis by (simp add: add_member_deps_def Let_def propagate_to_children_adds)
qed

lemma add_cycle_deps_adds: "only_adds (cx_passing cx) le (add_cycle_deps cx cycles le)"
  unfolding add_cycle_deps_def
  by (intro only_adds_foldl) (rule add_member_deps_adds)

lemma add_cycle_entry_guards_adds: "only_adds (cx_passing cx) le (add_cycle_entry_guards cx cycles le)"
  unfolding add_cycle_entry_guards_def
proof (rule only_adds_foldl)
  fix le cycle
  show "only_adds (cx_passing cx) le (add_entry_guards_of_cycle cx cycle le)"
    by (auto simp: add_entry_guards_of_cycle_def Let_def only_adds_extend intro!: only_adds_foldl)
qed

lemma guard_implicit_consumers_adds: "only_adds (cl_passing c) le (guard_implicit_consumers c le)"
  unfolding guard_implicit_consumers_def
  by (rule only_adds_foldl) (auto simp: only_adds_extend)

lemma propagate_side_effect_imports_adds: "only_adds passing le (propagate_side_effect_imports passing ses le)"
  unfolding propagate_side_effect_imports_def
  by (rule only_adds_foldl) (auto simp: propagate_side_effect_entry_def only_adds_extend)

lemma scan_modules_facts:
  "distinct ms \<Longrightarrow>
   dom (scan_modules g c re cm ms le) = dom le \<union> (set ms \<inter> set (cl_passing c)) \<and>
   (\<forall>m. members (scan_modules g c re cm ms le) m =
      (if m \<in> set ms \<inter> set (cl_passing c) then failing_imported_modules g c re cm m else members le m))"
proof (induction ms arbitrary: le)
  case (Cons m ms)
  define le1 where
    "le1 = (if m \<in> set (cl_passing c) then le(m \<mapsto> failing_imported_modules g c re cm m) else le)"
  have "members le1 k = (if k = m \<and> m \<in> set (cl_passing c) then failing_imported_modules g c re cm m
      else members le k)" for k
    by (simp add: members_def le1_def)
  moreover have "dom le1 = dom le \<union> ({m} \<inter> set (cl_passing c))" by (auto simp: le1_def)
  moreover have "scan_modules g c re cm (m # ms) le = scan_modules g c re cm ms le1"
    by (simp add: le1_def)
  ultimately show ?case using Cons.IH [of le1] Cons.prems by auto
qed simp

lemma build_lazy_eligible_ok:
  assumes "graph_ok g" "distinct (ig_modules g)"
  shows "\<exists>le. build_lazy_eligible parent g ip c re cycles = Some le \<and>
    only_adds (cl_passing c)
      (scan_modules g c re (set (concat cycles)) (ig_modules g) Map.empty) le"
proof -
  let ?scanned = "scan_modules g c re (set (concat cycles)) (ig_modules g) Map.empty"
  let ?cx = "\<lparr>cx_graph = g, cx_implicit_parents = ip, cx_passing = cl_passing c,
    cx_children = collect_cycle_children parent (set (concat cycles)) (ig_modules g)\<rparr>"
  let ?guarded = "guard_implicit_consumers c
    (add_cycle_entry_guards ?cx cycles (add_cycle_deps ?cx cycles ?scanned))"
  have "only_adds (cl_passing c) ?scanned (add_cycle_deps ?cx cycles ?scanned)"
    using add_cycle_deps_adds [of ?cx] by simp
  moreover have "only_adds (cl_passing c) (add_cycle_deps ?cx cycles ?scanned)
      (add_cycle_entry_guards ?cx cycles (add_cycle_deps ?cx cycles ?scanned))"
    using add_cycle_entry_guards_adds [of ?cx] by simp
  ultimately have "only_adds (cl_passing c) ?scanned ?guarded"
    using guard_implicit_consumers_adds only_adds_trans by meson
  moreover obtain le where
    "propagate_implicit_imports_along_chains g (cl_passing c) (cl_implicit c) ?guarded = Some le"
    "only_adds (cl_passing c) ?guarded le"
    using guard_targets_ok [OF assms(1)] unfolding propagate_implicit_imports_along_chains_def by blast
  ultimately show ?thesis
    unfolding build_lazy_eligible_def Let_def using only_adds_trans by blast
qed

section \<open>What the passes add\<close>

lemma members_extend_all:
  "members (foldl (\<lambda>le (m, vs). if m \<in> P then extend_guards m (set vs) le else le) le xs) k =
     members le k \<union> {v. k \<in> P \<and> (\<exists>vs. (k, vs) \<in> set xs \<and> v \<in> set vs)}"
proof (induction xs arbitrary: le)
  case (Cons x xs)
  then show ?case by (cases x) auto
qed simp

text \<open>
  Implicit imports are guards of the modules that rely on them, and of no others: this pass
  gives every passing module exactly the implicit imports recorded for it.
\<close>

theorem guard_implicit_consumers_exact:
  "members (guard_implicit_consumers c le) m =
     members le m \<union> {i. m \<in> set (cl_passing c) \<and> (\<exists>is. (m, is) \<in> set (cl_implicit c) \<and> i \<in> set is)}"
  by (simp add: guard_implicit_consumers_def members_extend_all)

text \<open>
  Side-effect imports are propagated one level: a passing module gains exactly those of its
  unused imports that have a guard before the pass, whatever the order of the entries, so a guard
  added by the pass itself is not seen by the importers of the module that gains it.
\<close>

theorem propagate_side_effect_imports_exact:
  "members (propagate_side_effect_imports passing side_effects le) m =
     members le m \<union> {i. m \<in> set passing \<and> members le i \<noteq> {} \<and>
       (\<exists>is. (m, is) \<in> set side_effects \<and> i \<in> set is)}"
proof -
  have "members (foldl (\<lambda>acc e. propagate_side_effect_entry passing F e acc) acc es) m =
     members acc m \<union> {i. m \<in> set passing \<and> i \<in> F \<and> (\<exists>is. (m, is) \<in> set es \<and> i \<in> set is)}" for F acc es
  proof (induction es arbitrary: acc)
    case (Cons e es)
    obtain n is' where e: "e = (n, is')" by (cases e)
    have "members (propagate_side_effect_entry passing F (n, is') acc) m =
        members acc m \<union> {i. m = n \<and> m \<in> set passing \<and> i \<in> F \<and> i \<in> set is'}"
      by (auto simp: propagate_side_effect_entry_def)
    with Cons show ?case unfolding e by auto
  qed simp
  then show ?thesis by (simp add: propagate_side_effect_imports_def modules_with_failing_deps_def)
qed

text \<open>
  The classification is exact: a module fails when its analysis failed or it has an error, it
  passes when it has none, its imports are loaded eagerly when it has an eager override, and an
  error of a kind and text is counted once for each module that reports it.
\<close>

theorem classify_modules_exact:
  "set (cl_failing (classify_modules sm)) =
     {m. \<exists>r. (m, r) \<in> set sm \<and> (case r of AnalysisError e \<Rightarrow> True | SafetyOk s \<Rightarrow> errors s \<noteq> [])} \<and>
   set (cl_passing (classify_modules sm)) = {m. \<exists>s. (m, SafetyOk s) \<in> set sm \<and> errors s = []} \<and>
   set (cl_load_eagerly (classify_modules sm)) =
     {m. \<exists>s. (m, SafetyOk s) \<in> set sm \<and> force_imports_eager_overrides s \<noteq> []} \<and>
   cl_errors (classify_modules sm) k = length (filter (\<lambda>(m, r). reports k r) sm)"
  using classify_modules_facts [of sm] classify_modules_errors [of sm k] by blast

end
