(* ===== verification/Cycle_Guards.thy ===== *)
theory Cycle_Guards
  imports Policy
begin

text \<open>
  What the import-cycle passes of the policy (\<open>add_cycle_deps\<close>, \<open>propagate_to_children\<close> and
  \<open>add_cycle_entry_guards\<close> of \<open>src/output/policy.rs\<close>) add to the guards: a specification
  of each pass as a set of guards, and the proofs that the folds over hash maps compute it.
\<close>

section \<open>The outermost member above a module\<close>

lemma take_dot_ancestor:
  "(i < length m \<and> m ! i = dot) \<longleftrightarrow> (i = length (take i m) \<and> is_ancestor_of (take i m) m)"
proof
  assume "i < length m \<and> m ! i = dot"
  then have "m = take i m @ dot # drop (Suc i) m" by (metis id_take_nth_drop)
  moreover have "i = length (take i m)" using \<open>i < length m \<and> _\<close> by simp
  ultimately show "i = length (take i m) \<and> is_ancestor_of (take i m) m"
    unfolding is_ancestor_of_iff append_str_def by (metis append_Cons append_Nil)
next
  assume "i = length (take i m) \<and> is_ancestor_of (take i m) m"
  then obtain a where a: "take i m = a" "length a = i" "is_ancestor_of a m" by metis
  then obtain rest where "m = a @ dot # rest" by (auto simp: is_ancestor_of_iff append_str_def)
  with a(2) show "i < length m \<and> m ! i = dot" by (auto simp: nth_append)
qed

lemma ancestor_is_take: "is_ancestor_of a m \<Longrightarrow> a = take (length a) m \<and> length a < length m"
  by (auto simp: name_simps append_str_def)

lemma outermost_None:
  "outermost_member_ancestor m ms = None \<longleftrightarrow> (\<forall>a\<in>set ms. \<not> is_ancestor_of a m)"
proof -
  have "(\<exists>i\<in>set [0..<length m]. m ! i = dot \<and> take i m \<in> set ms) \<longleftrightarrow> (\<exists>a\<in>set ms. is_ancestor_of a m)"
    using take_dot_ancestor ancestor_is_take by (metis atLeastLessThan_iff le0 set_upt)
  then show ?thesis by (auto simp: outermost_member_ancestor_def find_first_None_iff)
qed

lemma find_first_upt:
  "find_first P [0..<n] = Some i \<longleftrightarrow> i < n \<and> P i \<and> (\<forall>j<i. \<not> P j)"
proof
  assume f: "find_first P [0..<n] = Some i"
  then obtain us vs where split: "[0..<n] = us @ i # vs" "P i" "\<forall>u\<in>set us. \<not> P u"
    using find_first_split by metis
  have "i < n" using find_first_SomeD [OF f] by simp
  moreover have "us = [0..<i]"
  proof -
    have "i = length us"
      using split(1) by (metis length_append length_upt less_add_same_cancel1 length_Cons nth_append_length
          nth_upt add_0 minus_nat.diff_0 zero_less_Suc)
    then show ?thesis using split(1) \<open>i < n\<close>
      by (metis append_eq_conv_conj take_upt add_0 less_imp_le)
  qed
  ultimately show "i < n \<and> P i \<and> (\<forall>j<i. \<not> P j)" using split by auto
next
  assume i: "i < n \<and> P i \<and> (\<forall>j<i. \<not> P j)"
  have "find_first P (xs @ P' # ys) = Some P'" if "\<forall>x\<in>set xs. \<not> P x" "P P'" for xs P' ys
    using that by (induction xs) auto
  from this [of "[0..<i]" i "[Suc i..<n]"] i show "find_first P [0..<n] = Some i"
    by (metis atLeastLessThan_iff le0 less_imp_le_nat set_upt upt_add_eq_append upt_conv_Cons
        le_add_diff_inverse add_0)
qed

text \<open>
  The outermost member above a module is the shortest of the members among the packages of
  the module, the one an import of the module runs first.
\<close>

theorem outermost_member_ancestor_iff:
  "outermost_member_ancestor m ms = Some a \<longleftrightarrow>
     a \<in> set ms \<and> is_ancestor_of a m \<and>
     \<not> (\<exists>b. b \<in> set ms \<and> is_ancestor_of b m \<and> length b < length a)"
proof -
  let ?P = "\<lambda>i. m ! i = dot \<and> take i m \<in> set ms"
  have "outermost_member_ancestor m ms = Some a \<longleftrightarrow>
      (\<exists>i. a = take i m \<and> i < length m \<and> ?P i \<and> (\<forall>j<i. \<not> ?P j))"
    by (auto simp: outermost_member_ancestor_def find_first_upt)
  also have "\<dots> \<longleftrightarrow> a \<in> set ms \<and> is_ancestor_of a m \<and>
      \<not> (\<exists>b. b \<in> set ms \<and> is_ancestor_of b m \<and> length b < length a)"
    (is "?L \<longleftrightarrow> ?R")
  proof
    assume ?L
    then obtain i where i: "a = take i m" "i < length m" "?P i" "\<forall>j<i. \<not> ?P j" by blast
    moreover from i have "length a = i" by simp
    ultimately show ?R
      using take_dot_ancestor [of i m] take_dot_ancestor [of _ m] ancestor_is_take [of _ m] by metis
  next
    assume r: ?R
    then have a: "a = take (length a) m" "length a < length m" "m ! length a = dot"
      using ancestor_is_take [of a m] take_dot_ancestor [of "length a" m] by metis+
    moreover have "\<not> ?P j" if "j < length a" for j
      using take_dot_ancestor [of j m] that a(2) r by (metis order.strict_trans length_take min.absorb4)
    ultimately show ?L using r by metis
  qed
  finally show ?thesis .
qed

section \<open>Entries of a cycle\<close>

text \<open>
  An import of \<open>m\<close> runs the packages of \<open>m\<close> from the outside in and \<open>m\<close> last. The member that it
  runs first: it is \<open>m\<close> or above it, and every other such member lies below it.
\<close>

definition runs_first :: "modname list \<Rightarrow> modname \<Rightarrow> modname \<Rightarrow> bool" where
  "runs_first cycle m e \<longleftrightarrow>
     e \<in> set cycle \<and> (e = m \<or> is_ancestor_of e m) \<and>
     (\<forall>b\<in>set cycle. b = m \<or> is_ancestor_of b m \<longrightarrow> b = e \<or> is_ancestor_of e b)"

lemma ancestors_nested:
  assumes "is_ancestor_of a m" "is_ancestor_of b m" "length a \<le> length b"
  shows "a = b \<or> is_ancestor_of a b"
proof -
  have a: "a = take (length a) m" "length a < length m" "m ! length a = dot"
    using ancestor_is_take [OF assms(1)] take_dot_ancestor [of "length a" m] assms(1) by metis+
  have b: "b = take (length b) m" "length b < length m" using ancestor_is_take [OF assms(2)] by blast+
  show ?thesis
  proof (cases "length a = length b")
    case True
    then show ?thesis using a(1) b(1) by metis
  next
    case False
    then have "is_ancestor_of (take (length a) m) (take (length b) m)"
      using assms(3) a(3) b(2) by (intro is_ancestor_take) simp_all
    then show ?thesis using a(1) b(1) by metis
  qed
qed

lemma runs_first_cycle_entry:
  assumes "m \<in> set cycle"
  shows "runs_first cycle m e \<longleftrightarrow> e = cycle_entry cycle m"
proof -
  have unique: "e = e'" if "runs_first cycle m e" "runs_first cycle m e'" for e e'
    using that is_ancestor_of_trans is_ancestor_of_irrefl unfolding runs_first_def by metis
  have "runs_first cycle m (cycle_entry cycle m)"
  proof (cases "outermost_member_ancestor m cycle")
    case None
    then have "cycle_entry cycle m = m" by (simp add: cycle_entry_def)
    then show ?thesis using None assms by (auto simp: outermost_None runs_first_def)
  next
    case (Some a)
    then have a: "a \<in> set cycle" "is_ancestor_of a m"
        "\<And>b. b \<in> set cycle \<Longrightarrow> is_ancestor_of b m \<Longrightarrow> length a \<le> length b"
      unfolding outermost_member_ancestor_iff using not_le by blast+
    then have "b = a \<or> is_ancestor_of a b" if "b \<in> set cycle" "is_ancestor_of b m" for b
      using ancestors_nested [OF a(2) that(2)] that by blast
    with a Some show ?thesis by (auto simp: runs_first_def cycle_entry_def)
  qed
  with unique show ?thesis by blast
qed

lemma set_amap_get_foldl_push:
  "set (amap_get (foldl (\<lambda>acc p. amap_push p x acc) m ps) k) =
     set (amap_get m k) \<union> (if k \<in> set ps then {x} else {})"
  by (induction ps arbitrary: m) (auto simp: amap_push_def)

lemma implicit_importers_iff:
  "i \<in> set (amap_get (implicit_importers ips) m) \<longleftrightarrow> (\<exists>ps. (i, ps) \<in> set ips \<and> m \<in> set ps)"
proof -
  have "i \<in> set (amap_get (foldl (\<lambda>acc (from, parents). foldl (\<lambda>acc p. amap_push p from acc) acc parents) a ips) m)
      \<longleftrightarrow> i \<in> set (amap_get a m) \<or> (\<exists>ps. (i, ps) \<in> set ips \<and> m \<in> set ps)" for a
  proof (induction ips arbitrary: a)
    case (Cons e ips)
    obtain f ps where e: "e = (f, ps)" by (cases e)
    show ?case unfolding e foldl_Cons prod.case Cons.IH set_amap_get_foldl_push by auto
  qed simp
  from this [of "[]"] show ?thesis by (simp add: implicit_importers_def)
qed

text \<open>Who imports a member, explicitly or as a package above an import.\<close>

definition imports_member :: "cycle_ctx \<Rightarrow> modname \<Rightarrow> modname \<Rightarrow> bool" where
  "imports_member cx importer member \<longleftrightarrow>
     importer \<in> set (ig_importers (cx_graph cx) member) \<or>
     (\<exists>ps. (importer, ps) \<in> set (cx_implicit_parents cx) \<and> member \<in> set ps)"

text \<open>An importer from outside: no member, and below none, so it may run before all of them.\<close>

definition outside_cycle :: "modname list \<Rightarrow> modname \<Rightarrow> bool" where
  "outside_cycle cycle importer \<longleftrightarrow>
     importer \<notin> set cycle \<and> (\<forall>a\<in>set cycle. \<not> is_ancestor_of a importer)"

definition entries_from :: "cycle_ctx \<Rightarrow> modname list \<Rightarrow> modname \<Rightarrow> modname set" where
  "entries_from cx cycle importer =
     {e. outside_cycle cycle importer \<and> (\<exists>m\<in>set cycle. imports_member cx importer m \<and> runs_first cycle m e)}"

lemma entries_from_eq:
  "entries_from cx cycle importer =
     {cycle_entry cycle m |m. outside_cycle cycle importer \<and> m \<in> set cycle \<and> imports_member cx importer m}"
  unfolding entries_from_def by (auto simp: runs_first_cycle_entry)

definition well_entered :: "modname list \<Rightarrow> re_map \<Rightarrow> bool" where
  "well_entered cycle ents \<longleftrightarrow>
     distinct (map fst ents) \<and> fst ` set ents \<subseteq> {i. outside_cycle cycle i}"

lemma record_importer_step:
  assumes "well_entered cycle ents"
  shows "well_entered cycle (record_importer cycle e i ents)"
    "re_sources (record_importer cycle e i ents) k =
       re_sources ents k \<union> (if k = i \<and> outside_cycle cycle i then {e} else {})"
proof -
  have "record_importer cycle e i ents = (if outside_cycle cycle i then re_map_insert i e ents else ents)"
    using assms by (auto simp: record_importer_def outside_cycle_def outermost_None well_entered_def)
  with assms show "well_entered cycle (record_importer cycle e i ents)"
    "re_sources (record_importer cycle e i ents) k =
       re_sources ents k \<union> (if k = i \<and> outside_cycle cycle i then {e} else {})"
    unfolding well_entered_def by (auto simp del: distinct_map)
qed

lemma record_importers:
  assumes "well_entered cycle ents"
  shows "well_entered cycle (foldl (\<lambda>ents i. record_importer cycle e i ents) ents is) \<and>
    re_sources (foldl (\<lambda>ents i. record_importer cycle e i ents) ents is) k =
      re_sources ents k \<union> (if k \<in> set is \<and> outside_cycle cycle k then {e} else {})"
  using assms
proof (induction "is" arbitrary: ents)
  case (Cons i "is")
  note step = record_importer_step [OF Cons.prems, of e i]
  show ?case using Cons.IH [OF step(1)] by (auto simp: step(2))
qed simp

lemma cycle_entries_facts:
  "well_entered cycle (cycle_entries cx cycle) \<and>
   re_sources (cycle_entries cx cycle) k = entries_from cx cycle k"
proof -
  let ?importers = "\<lambda>m. ig_importers (cx_graph cx) m @
    amap_get (implicit_importers (cx_implicit_parents cx)) m"
  let ?f = "\<lambda>ents m. foldl (\<lambda>ents i. record_importer cycle (cycle_entry cycle m) i ents) ents (?importers m)"
  have importers: "k \<in> set (?importers m) \<longleftrightarrow> imports_member cx k m" for m
    by (simp add: imports_member_def implicit_importers_iff)
  have "well_entered cycle (foldl ?f ents ms) \<and>
    re_sources (foldl ?f ents ms) k = re_sources ents k \<union>
      {cycle_entry cycle m |m. outside_cycle cycle k \<and> m \<in> set ms \<and> imports_member cx k m}"
    if "well_entered cycle ents" for ents ms
    using that
  proof (induction ms arbitrary: ents)
    case (Cons m ms)
    note step = record_importers [OF Cons.prems, of "cycle_entry cycle m" "?importers m" k,
        unfolded importers]
    show ?case
      unfolding foldl_Cons using Cons.IH [OF conjunct1 [OF step]] conjunct2 [OF step] by auto
  qed simp
  from this [of "[]" cycle] show ?thesis
    by (simp add: well_entered_def cycle_entries_def entries_from_eq)
qed

text \<open>More than one way in.\<close>

definition several_entries :: "cycle_ctx \<Rightarrow> modname list \<Rightarrow> bool" where
  "several_entries cx cycle \<longleftrightarrow>
     (\<exists>i j a b. a \<in> entries_from cx cycle i \<and> b \<in> entries_from cx cycle j \<and> a \<noteq> b)"

lemma all_equal_iff: "all_equal xs \<longleftrightarrow> (\<forall>a\<in>set xs. \<forall>b\<in>set xs. a = b)"
  by (cases xs) (auto simp: all_equal_def list_all_iff, metis)

lemma set_concat_re_map:
  assumes "distinct (map fst m)"
  shows "a \<in> set (concat (map snd m)) \<longleftrightarrow> (\<exists>k. a \<in> re_sources m k)"
proof -
  have "a \<in> set (concat (map snd m)) \<longleftrightarrow> (\<exists>k ss. (k, ss) \<in> set m \<and> a \<in> set ss)" by force
  also have "\<dots> \<longleftrightarrow> (\<exists>k ss. map_of m k = Some ss \<and> a \<in> set ss)"
    by (simp only: map_of_eq_Some_iff [OF assms])
  also have "\<dots> \<longleftrightarrow> (\<exists>k. a \<in> re_sources m k)"
  proof -
    have "(\<exists>ss. map_of m k = Some ss \<and> a \<in> set ss) \<longleftrightarrow> a \<in> re_sources m k" for k
      by (cases "map_of m k") (auto simp: re_sources_def)
    then show ?thesis by simp
  qed
  finally show ?thesis .
qed

lemma re_sources_entry:
  assumes "distinct (map fst m)"
  shows "(\<exists>vs. (k, vs) \<in> set m \<and> v \<in> set vs) \<longleftrightarrow> v \<in> re_sources m k"
  by (cases "map_of m k") (auto simp: re_sources_def map_of_eq_Some_iff [OF assms, symmetric])

lemma add_cycle_entry_guards_members:
  "members (add_cycle_entry_guards cx cycles le) k = members le k \<union>
     {e. k \<in> set (cx_passing cx) \<and>
       (\<exists>cycle. cycle \<in> set cycles \<and> several_entries cx cycle \<and> e \<in> entries_from cx cycle k)}"
proof -
  have one: "members (add_entry_guards_of_cycle cx cycle le) k = members le k \<union>
      {e. k \<in> set (cx_passing cx) \<and> several_entries cx cycle \<and> e \<in> entries_from cx cycle k}" for cycle le
  proof -
    note facts = cycle_entries_facts [of cycle cx]
    have d: "distinct (map fst (cycle_entries cx cycle))" using facts well_entered_def by blast
    have "all_equal (concat (map snd (cycle_entries cx cycle))) \<longleftrightarrow> \<not> several_entries cx cycle"
      unfolding all_equal_iff several_entries_def using set_concat_re_map [OF d] facts by metis
    then show ?thesis
      using facts by (auto simp: add_entry_guards_of_cycle_def Let_def members_extend_all
          re_sources_entry [OF d] simp del: set_concat)
  qed
  show ?thesis
    unfolding add_cycle_entry_guards_def
  proof (induction cycles arbitrary: le)
    case (Cons c cs)
    show ?case unfolding foldl_Cons Cons.IH one by auto
  qed simp
qed

text \<open>
  C36: Only ambiguous cycles are guarded, and exactly where they are entered: a passing module
  outside a cycle that is entered through two or more of its members gains, for each member it
  imports, the member that the import runs first (the member itself or the outermost member among
  its packages), and no other guard changes.
\<close>

theorem add_cycle_entry_guards_exact:
  "members (add_cycle_entry_guards cx cycles le) k = members le k \<union>
     {e. k \<in> set (cx_passing cx) \<and>
       (\<exists>cycle. cycle \<in> set cycles \<and> several_entries cx cycle \<and> e \<in> entries_from cx cycle k)}"
  by (rule add_cycle_entry_guards_members)

section \<open>Guards within a cycle\<close>

text \<open>
  The other members of the cycle that an import statement of \<open>m\<close> runs: the imported modules, and
  the packages above them.
\<close>

definition runs_in_cycle :: "cycle_ctx \<Rightarrow> modname list \<Rightarrow> modname \<Rightarrow> modname \<Rightarrow> bool" where
  "runs_in_cycle cx cycle m d \<longleftrightarrow>
     d \<in> set cycle \<and> d \<noteq> m \<and>
     (d \<in> set (ig_imports (cx_graph cx) m) \<or>
      (\<exists>ps. map_of (cx_implicit_parents cx) m = Some ps \<and> d \<in> set ps))"

lemma cycle_imports_iff: "d \<in> cycle_imports cx cycle m \<longleftrightarrow> runs_in_cycle cx cycle m d"
  by (auto simp: cycle_imports_def runs_in_cycle_def amap_get_def split: option.splits)

text \<open>The guards that a member of a cycle hands to a child.\<close>

definition handed_down :: "cycle_ctx \<Rightarrow> modname list \<Rightarrow> modname \<Rightarrow> modname \<Rightarrow> modname set" where
  "handed_down cx cycle m child =
     (if child \<in> set (amap_get (cx_children cx) m) \<and> child \<in> set (cx_passing cx)
      then (\<lambda>dep. if dep = child then m else dep) `
             (if m \<in> set (cx_passing cx) then {d. runs_in_cycle cx cycle m d} else {m})
      else {})"

definition own_cycle_guards :: "cycle_ctx \<Rightarrow> modname list \<Rightarrow> modname \<Rightarrow> modname set" where
  "own_cycle_guards cx cycle m =
     (if m \<in> set cycle \<inter> set (cx_passing cx) then {d. runs_in_cycle cx cycle m d} else {})"

lemma cycle_imports_eq: "cycle_imports cx cycle m = {d. runs_in_cycle cx cycle m d}"
  by (auto simp: cycle_imports_iff)

lemma members_propagate:
  "members (propagate_to_children cx m deps le) k = members le k \<union>
     (if k \<in> set (amap_get (cx_children cx) m) \<and> k \<in> set (cx_passing cx)
      then (\<lambda>dep. if dep = k then m else dep) ` deps else {})"
proof -
  have "members (foldl (\<lambda>le c. if c \<in> P then extend_guards c (f c) le else le) le cs) k =
      members le k \<union> (if k \<in> set cs \<and> k \<in> P then f k else {})" for f :: "modname \<Rightarrow> modname set" and P cs
    by (induction cs arbitrary: le) auto
  then show ?thesis by (simp add: propagate_to_children_def)
qed

lemma members_add_member_deps:
  assumes "m \<in> set cycle"
  shows "members (add_member_deps cx cycle m le) k = members le k \<union>
    handed_down cx cycle m k \<union> (if k = m then own_cycle_guards cx cycle m else {})"
  using assms
  by (auto simp: add_member_deps_def Let_def members_propagate handed_down_def own_cycle_guards_def cycle_imports_eq)

lemma add_cycle_deps_members:
  "members (add_cycle_deps cx cycles le) k = members le k \<union>
     {d. \<exists>cycle. cycle \<in> set cycles \<and>
       (d \<in> own_cycle_guards cx cycle k \<or> (\<exists>m. m \<in> set cycle \<and> d \<in> handed_down cx cycle m k))}"
proof -
  have one: "members (foldl (\<lambda>le m. add_member_deps cx cycle m le) le ms) k = members le k \<union>
      {d. \<exists>m. m \<in> set ms \<and> (d \<in> handed_down cx cycle m k \<or> (k = m \<and> d \<in> own_cycle_guards cx cycle k))}"
    if "set ms \<subseteq> set cycle" for cycle ms le
    using that
  proof (induction ms arbitrary: le)
    case (Cons m ms)
    then have m: "m \<in> set cycle" and ms: "set ms \<subseteq> set cycle" by auto
    show ?case unfolding foldl_Cons Cons.IH [OF ms] members_add_member_deps [OF m] by auto
  qed simp
  have own: "own_cycle_guards cx cycle k = {}" if "k \<notin> set cycle" for cycle
    using that by (simp add: own_cycle_guards_def)
  show ?thesis
    unfolding add_cycle_deps_def
  proof (induction cycles arbitrary: le)
    case (Cons c cs)
    have step: "{d. \<exists>m. m \<in> set c \<and> (d \<in> handed_down cx c m k \<or> k = m \<and> d \<in> own_cycle_guards cx c k)} =
        {d. d \<in> own_cycle_guards cx c k \<or> (\<exists>m. m \<in> set c \<and> d \<in> handed_down cx c m k)}"
      using own [of c] by blast
    show ?case unfolding foldl_Cons Cons.IH one [OF order_refl] step list.set by blast
  qed simp
qed

text \<open>
  C37: Within a cycle, a passing member is guarded by exactly those of its imports, explicit or of
  packages above them, that are other members of the cycle. A passing direct child of a member
  inherits the member's guards, or the member itself when that fails, with the member standing
  in for the child. Nothing else is guarded by this pass.
\<close>

theorem add_cycle_deps_exact:
  "members (add_cycle_deps cx cycles le) k = members le k \<union>
     {d. \<exists>cycle. cycle \<in> set cycles \<and>
       (d \<in> own_cycle_guards cx cycle k \<or> (\<exists>m. m \<in> set cycle \<and> d \<in> handed_down cx cycle m k))}"
  by (rule add_cycle_deps_members)

end
