(* ===== verification/Policy_Guards.thy ===== *)
theory Policy_Guards
  imports Cycle_Guards
begin

text \<open>
  Every reason for which the lazy-eligibility policy of \<open>src/output/policy.rs\<close> guards a module, and
  the proof that the policy gives a passing module exactly the guards with a reason. The reasons are
  stated over the imports, the names and the cycles alone; none of the passes is quoted.
\<close>

section \<open>The chain that the walk takes\<close>

text \<open>
  The next module on the way to the target: of the imports the nearest to the target, and of those
  the least name.
\<close>

definition nearest_hop :: "import_graph \<Rightarrow> modname \<Rightarrow> modname \<Rightarrow> modname \<Rightarrow> bool" where
  "nearest_hop g target c n \<longleftrightarrow>
     n \<in> set (ig_imports g c) \<and>
     (\<exists>d. dist_is g target n d \<and>
        (\<forall>n'\<in>set (ig_imports g c). \<forall>d'. dist_is g target n' d' \<longrightarrow> d < d' \<or> d = d' \<and> n \<le> n'))"

text \<open>The chain goes on until a module imports the target itself.\<close>

inductive on_chain :: "import_graph \<Rightarrow> modname \<Rightarrow> modname \<Rightarrow> modname \<Rightarrow> bool" for g target where
  here: "nearest_hop g target c n \<Longrightarrow> on_chain g target c n"
| further: "nearest_hop g target c m \<Longrightarrow> target \<notin> set (ig_imports g m) \<Longrightarrow> on_chain g target m n \<Longrightarrow>
    on_chain g target c n"

lemma nearest_hop_unique: "nearest_hop g t c n \<Longrightarrow> nearest_hop g t c n' \<Longrightarrow> n = n'"
  unfolding nearest_hop_def by (metis dist_unique less_asym order_antisym)

lemma min_hop_minimal: "min_hop xs = Some x \<Longrightarrow> y \<in> set xs \<Longrightarrow> \<not> hop_less y x"
proof (induction xs arbitrary: x y)
  case (Cons z zs)
  have irrefl: "\<not> hop_less a a" for a by (simp add: hop_less_def)
  have trans: "\<not> hop_less b a \<Longrightarrow> \<not> hop_less a c \<Longrightarrow> \<not> hop_less b c" for a b c
    by (auto simp: hop_less_def)
  have asym: "hop_less a b \<Longrightarrow> \<not> hop_less b a" for a b
    by (auto simp: hop_less_def)
  show ?case
  proof (cases "min_hop zs")
    case None
    with Cons.prems irrefl show ?thesis by simp
  next
    case (Some w)
    then have w: "\<forall>y\<in>set zs. \<not> hop_less y w" using Cons.IH by blast
    have x: "x = (if hop_less w z then w else z)" using Some Cons.prems(1) by simp
    show ?thesis
    proof (cases "hop_less w z")
      case True
      then have "x = w" "\<not> hop_less z w" using x asym by simp_all
      with w Cons.prems(2) show ?thesis by auto
    next
      case False
      then have x: "x = z" using x by simp
      have "\<not> hop_less y' z" if "y' \<in> set zs" for y'
        using trans [of y' w z] w that False by blast
      with x Cons.prems(2) irrefl show ?thesis by (metis set_ConsD)
    qed
  qed
qed simp

lemma next_hop_nearest:
  assumes exact: "hops_exact g t hops d" and hop: "next_hop g hops c = Some (n, m)"
  shows "nearest_hop g t c m"
proof -
  have hops: "hops x = Some k \<longleftrightarrow> dist_is g t x k \<and> k < d" for x k
    using exact by (simp add: hops_exact_def)
  let ?xs = "concat (map (\<lambda>x. case hops x of None \<Rightarrow> [] | Some h \<Rightarrow> [(h, x)]) (ig_imports g c))"
  have x: "min_hop ?xs = Some (n, m)" using hop by (simp add: next_hop_def)
  have m: "m \<in> set (ig_imports g c)" "dist_is g t m n" "n < d"
    using next_hop_cases [OF hop] hops by auto
  have "n < d' \<or> n = d' \<and> m \<le> m'" if "m' \<in> set (ig_imports g c)" "dist_is g t m' d'" for m' d'
  proof (cases "d' < d")
    case True
    then have "(d', m') \<in> set ?xs" unfolding set_hop_list using that hops by simp
    from min_hop_minimal [OF x this] show ?thesis by (auto simp: hop_less_def)
  next
    case False
    with m(3) show ?thesis by simp
  qed
  with m(1,2) show ?thesis unfolding nearest_hop_def by blast
qed

definition chain_target :: "import_graph \<Rightarrow> modname list \<Rightarrow> modname \<Rightarrow> modname \<Rightarrow> modname \<Rightarrow> modname set" where
  "chain_target g passing t c k = (if k \<in> set passing \<and> on_chain g t c k then {t} else {})"

lemma on_chain_step:
  assumes "nearest_hop g t c m"
  shows "on_chain g t c k \<longleftrightarrow> k = m \<or> t \<notin> set (ig_imports g m) \<and> on_chain g t m k"
proof
  assume "on_chain g t c k"
  then show "k = m \<or> t \<notin> set (ig_imports g m) \<and> on_chain g t m k"
    by cases (use nearest_hop_unique [OF assms] in blast)+
qed (use assms in \<open>auto intro: on_chain.intros\<close>)

lemma imports_target: "graph_ok g \<Longrightarrow> dist_is g t m d \<Longrightarrow> t \<in> set (ig_imports g m) \<longleftrightarrow> d = 0"
proof -
  assume ok: "graph_ok g" and d: "dist_is g t m d"
  have "t \<in> set (ig_imports g m) \<longleftrightarrow> m \<in> reach_at g t 0" using ok by (auto simp: graph_ok_def)
  also have "\<dots> \<longleftrightarrow> d = 0" using d unfolding dist_is_def by (metis gr0I)
  finally show ?thesis .
qed

lemma guard_chain_members:
  assumes ok: "graph_ok g" and exact: "hops_exact g t hops d"
  shows "dist_is g t c (Suc n) \<Longrightarrow> n < d \<Longrightarrow> guard_shortest_chain g hops passing t c le = Some le' \<Longrightarrow>
    members le' k = members le k \<union> chain_target g passing t c k"
proof (induction n arbitrary: c le)
  case (0 c)
  obtain m where m: "next_hop g hops c = Some (0, m)" "dist_is g t m 0"
    using next_hop_lower [OF ok exact 0(1,2)] by blast
  have "on_chain g t c k \<longleftrightarrow> k = m"
    using on_chain_step [OF next_hop_nearest [OF exact m(1)], of k] imports_target [OF ok m(2)] by simp
  moreover have "le' = (if m \<in> set passing then add_entry m t le else le)"
    using 0(3) m(1) by (subst (asm) guard_shortest_chain.simps) (simp add: Let_def)
  ultimately show ?case by (auto simp: chain_target_def)
next
  case (Suc n c)
  obtain m where m: "next_hop g hops c = Some (Suc n, m)" "dist_is g t m (Suc n)"
    using next_hop_lower [OF ok exact Suc.prems(1,2)] by blast
  let ?le = "if m \<in> set passing then add_entry m t le else le"
  have "guard_shortest_chain g hops passing t m ?le = Some le'"
    using Suc.prems(3) m(1) by (subst (asm) guard_shortest_chain.simps) (simp add: Let_def)
  then have "members le' k = members ?le k \<union> chain_target g passing t m k"
    using Suc.IH [OF m(2)] Suc.prems(2) by simp
  moreover have "on_chain g t c k \<longleftrightarrow> k = m \<or> on_chain g t m k"
    using on_chain_step [OF next_hop_nearest [OF exact m(1)], of k] imports_target [OF ok m(2)] by simp
  ultimately show ?case by (auto simp: chain_target_def)
qed

lemma unreached_no_chain:
  assumes ok: "graph_ok g" and none: "\<And>k. c \<notin> reach_at g t k"
  shows "\<not> on_chain g t c n"
proof -
  have "\<not> nearest_hop g t c m" for m
  proof
    assume "nearest_hop g t c m"
    then obtain d where "m \<in> set (ig_imports g c)" "m \<in> reach_at g t d"
      unfolding nearest_hop_def dist_is_def by blast
    then have "c \<in> reach_at g t (Suc d)" using ok by (auto simp: graph_ok_def)
    with none show False by blast
  qed
  then show ?thesis by (auto elim: on_chain.cases)
qed

lemma guard_one_members:
  assumes ok: "graph_ok g" and search: "search_done g t cs hops" and c: "c \<in> cs" "t \<notin> set (ig_imports g c)"
    and run: "guard_shortest_chain g hops passing t c le = Some le'"
  shows "members le' k = members le k \<union> chain_target g passing t c k"
proof -
  obtain d where exact: "hops_exact g t hops d" using search by (auto simp: search_done_def)
  show ?thesis
  proof (cases "\<exists>k. c \<in> reach_at g t k")
    case True
    then obtain j where j: "dist_is g t c j" using dist_exists by blast
    then obtain n where n: "j = Suc n" using imports_target [OF ok j] c(2) by (cases j) auto
    have "hops c = Some j" using search c(1) j by (auto simp: search_done_def)
    then have "n < d" using exact n by (auto simp: hops_exact_def)
    with guard_chain_members [OF ok exact _ _ run, of n] j n show ?thesis by simp
  next
    case False
    have "next_hop g hops c = None"
    proof (cases "next_hop g hops c")
      case (Some h)
      then have "nearest_hop g t c (snd h)" using next_hop_nearest [OF exact, of c "fst h" "snd h"] by simp
      then have "on_chain g t c (snd h)" by (rule on_chain.here)
      with unreached_no_chain [OF ok] False show ?thesis by blast
    qed
    then have "le' = le" using run by (subst (asm) guard_shortest_chain.simps) simp
    with unreached_no_chain [OF ok, of c t] False show ?thesis by (auto simp: chain_target_def)
  qed
qed

lemma guard_consumers_members:
  assumes ok: "graph_ok g" and search: "search_done g t cs hops"
  shows "set consumers \<subseteq> cs \<Longrightarrow> \<forall>c\<in>set consumers. t \<notin> set (ig_imports g c) \<Longrightarrow>
    guard_consumers g hops passing t consumers le = Some le' \<Longrightarrow>
    members le' k = members le k \<union> (\<Union>c\<in>set consumers. chain_target g passing t c k)"
proof (induction consumers arbitrary: le)
  case (Cons c consumers)
  from Cons.prems(3) obtain le1 where le1: "guard_shortest_chain g hops passing t c le = Some le1"
      "guard_consumers g hops passing t consumers le1 = Some le'"
    by (auto split: option.splits)
  have "members le1 k = members le k \<union> chain_target g passing t c k"
    by (rule guard_one_members [OF ok search _ _ le1(1)]) (use Cons.prems in simp_all)
  then show ?case using Cons.IH [OF _ _ le1(2)] Cons.prems by auto
qed simp

text \<open>The guards that a target gives its consumers and itself.\<close>

definition target_guards :: "import_graph \<Rightarrow> modname list \<Rightarrow> modname \<Rightarrow> modname list \<Rightarrow> modname \<Rightarrow> modname set" where
  "target_guards g passing t consumers k =
     (if k = t \<and> t \<in> set passing then {t} else {}) \<union>
     (\<Union>c\<in>{c \<in> set consumers. t \<notin> set (ig_imports g c)}. chain_target g passing t c k)"

lemma guard_target_members:
  assumes ok: "graph_ok g" and run: "guard_target g passing t consumers le = Some le'"
  shows "members le' k = members le k \<union> target_guards g passing t consumers k"
proof -
  let ?le1 = "if t \<in> set passing then add_entry t t le else le"
  let ?needs = "filter (\<lambda>c. t \<notin> set (ig_imports g c)) consumers"
  obtain hops where hops: "hops_to_target g t ?needs = Some hops" "search_done g t (set ?needs) hops"
    using hops_to_target_ok [OF ok] by blast
  have "guard_consumers g hops passing t ?needs ?le1 = Some le'"
    using run hops(1) by (simp add: guard_target_def Let_def)
  from guard_consumers_members [OF ok hops(2) order_refl _ this, of k]
  show ?thesis by (auto simp: target_guards_def)
qed

lemma guard_targets_members:
  assumes ok: "graph_ok g"
  shows "guard_targets g passing targets le = Some le' \<Longrightarrow>
    members le' k = members le k \<union> (\<Union>(t, cs)\<in>set targets. target_guards g passing t cs k)"
proof (induction targets arbitrary: le)
  case (Cons e targets)
  obtain t cs where e: "e = (t, cs)" by (cases e)
  from Cons.prems obtain le1 where le1: "guard_target g passing t cs le = Some le1"
      "guard_targets g passing targets le1 = Some le'"
    by (auto simp: e split: option.splits)
  show ?case using Cons.IH [OF le1(2)] guard_target_members [OF ok le1(1)] by (auto simp: e)
qed simp

section \<open>Consumers by target\<close>

definition by_target :: "(modname \<times> modname list) list \<Rightarrow> modname \<Rightarrow> modname \<Rightarrow> bool" where
  "by_target imps t c \<longleftrightarrow> (\<exists>ts. (c, ts) \<in> set imps \<and> t \<in> set ts)"

lemma consumers_by_target_entries:
  "set (amap_get (consumers_by_target imps) t) = {c. by_target imps t c} \<and>
   distinct (map fst (consumers_by_target imps)) \<and>
   [] \<notin> snd ` set (consumers_by_target imps)"
proof (induction imps rule: rev_induct)
  case Nil
  show ?case by (simp add: consumers_by_target_def by_target_def)
next
  case (snoc e es)
  obtain c ts where e: "e = (c, ts)" by (cases e)
  have keys: "distinct (map fst m) \<Longrightarrow> distinct (map fst (foldl (\<lambda>acc t. amap_push t c acc) m ts))" for m
    by (induction ts arbitrary: m) (auto simp: amap_push_def simp del: distinct_map)
  have push: "[] \<notin> snd ` set (amap_extend t [c] m)" if "[] \<notin> snd ` set m" for t m
    using that by (induction t "[c]" m rule: amap_extend.induct) auto
  have full: "[] \<notin> snd ` set m \<Longrightarrow> [] \<notin> snd ` set (foldl (\<lambda>acc t. amap_push t c acc) m ts)" for m
  proof (induction ts arbitrary: m)
    case (Cons t ts)
    show ?case unfolding foldl_Cons by (rule Cons.IH) (use push [OF Cons.prems] in \<open>simp add: amap_push_def\<close>)
  qed simp
  have "consumers_by_target (es @ [e]) = foldl (\<lambda>acc t. amap_push t c acc) (consumers_by_target es) ts"
    by (simp add: consumers_by_target_def e)
  with snoc keys full show ?case by (auto simp: set_amap_get_foldl_push by_target_def e simp del: distinct_map)
qed

lemma consumers_by_target_iff:
  "(\<Union>(t, cs)\<in>set (consumers_by_target imps). target_guards g passing t cs k) =
     {t. k \<in> set passing \<and> (\<exists>c. by_target imps t c \<and>
        (k = t \<or> t \<notin> set (ig_imports g c) \<and> on_chain g t c k))}"
proof -
  note facts = consumers_by_target_entries [of imps]
  have entry: "(t, cs) \<in> set (consumers_by_target imps) \<Longrightarrow> set cs = {c. by_target imps t c} \<and> cs \<noteq> []" for t cs
  proof -
    assume tcs: "(t, cs) \<in> set (consumers_by_target imps)"
    then have "amap_get (consumers_by_target imps) t = cs"
      using facts by (simp add: amap_get_def map_of_is_SomeI)
    with facts [of t] tcs show ?thesis by force
  qed
  have found: "\<exists>cs. (t, cs) \<in> set (consumers_by_target imps)" if "by_target imps t c" for t c
    using that facts [of t] by (cases "map_of (consumers_by_target imps) t") (auto simp: amap_get_def dest: map_of_SomeD)
  show ?thesis
  proof (intro set_eqI iffI)
    fix t assume "t \<in> (\<Union>(t, cs)\<in>set (consumers_by_target imps). target_guards g passing t cs k)"
    then obtain t' cs where t: "(t', cs) \<in> set (consumers_by_target imps)" "t \<in> target_guards g passing t' cs k"
      by blast
    from t(2) have "t' = t" by (auto simp: target_guards_def chain_target_def split: if_splits)
    with t entry [OF t(1)] show "t \<in> {t. k \<in> set passing \<and> (\<exists>c. by_target imps t c \<and>
        (k = t \<or> t \<notin> set (ig_imports g c) \<and> on_chain g t c k))}"
      by (cases cs) (auto simp: target_guards_def chain_target_def split: if_splits)
  next
    fix t assume "t \<in> {t. k \<in> set passing \<and> (\<exists>c. by_target imps t c \<and>
        (k = t \<or> t \<notin> set (ig_imports g c) \<and> on_chain g t c k))}"
    then obtain c where c: "k \<in> set passing" "by_target imps t c"
        "k = t \<or> t \<notin> set (ig_imports g c) \<and> on_chain g t c k" by blast
    obtain cs where cs: "(t, cs) \<in> set (consumers_by_target imps)" using found [OF c(2)] by blast
    moreover have "t \<in> target_guards g passing t cs k"
      using c entry [OF cs] by (auto simp: target_guards_def chain_target_def)
    ultimately show "t \<in> (\<Union>(t, cs)\<in>set (consumers_by_target imps). target_guards g passing t cs k)" by blast
  qed
qed

section \<open>The reasons\<close>

text \<open>A package that an import of \<open>m\<close> runs before the imported module.\<close>

definition runs_package :: "import_graph \<Rightarrow> modname \<Rightarrow> modname \<Rightarrow> bool" where
  "runs_package g m p \<longleftrightarrow>
     p \<in> set (ig_modules g) \<and> (\<exists>i\<in>set (ig_imports g m). is_ancestor_of p i) \<and> p \<noteq> m \<and> \<not> is_ancestor_of p m"

definition runs :: "import_graph \<Rightarrow> modname \<Rightarrow> modname \<Rightarrow> bool" where
  "runs g m d \<longleftrightarrow> d \<in> set (ig_imports g m) \<or> runs_package g m d"

text \<open>A module outside a cycle enters it through the member that its import runs first.\<close>

definition enters :: "import_graph \<Rightarrow> modname list \<Rightarrow> modname \<Rightarrow> modname \<Rightarrow> bool" where
  "enters g cycle m e \<longleftrightarrow>
     outside_cycle cycle m \<and> (\<exists>member\<in>set cycle. runs g m member \<and> runs_first cycle member e)"

text \<open>What a direct child \<open>m\<close> of a member takes over: the member's own guards within the cycle, with the
  member in place of the child itself, or the member when that fails.\<close>

definition inherits ::
  "(modname \<Rightarrow> modname option) \<Rightarrow> import_graph \<Rightarrow> classified \<Rightarrow> modname list \<Rightarrow> modname \<Rightarrow> modname \<Rightarrow> bool" where
  "inherits parent g c cycle m d \<longleftrightarrow>
     m \<in> set (ig_modules g) \<and>
     (\<exists>p\<in>set cycle. parent m = Some p \<and>
        (if p \<in> set (cl_passing c)
         then \<exists>d'. d' \<in> set cycle \<and> d' \<noteq> p \<and> runs g p d' \<and> d = (if d' = m then p else d')
         else d = p))"

text \<open>Why the passing module \<open>m\<close> has the guard \<open>d\<close>.\<close>

inductive guard_reason ::
  "(modname \<Rightarrow> modname option) \<Rightarrow> import_graph \<Rightarrow> classified \<Rightarrow> re_map \<Rightarrow> modname list set \<Rightarrow>
     modname \<Rightarrow> modname \<Rightarrow> bool" for parent g c re_export_map cycles where
  failing_import: "d \<in> set (ig_imports g m) \<Longrightarrow> d \<in> set (cl_failing c) \<Longrightarrow>
    guard_reason parent g c re_export_map cycles m d"
| failing_source: "i \<in> set (ig_imports g m) \<Longrightarrow> map_of re_export_map i = Some sources \<Longrightarrow> d \<in> set sources \<Longrightarrow>
    guard_reason parent g c re_export_map cycles m d"
| no_source: "m \<in> set (ig_modules g) \<Longrightarrow> ig_missing g m = Some missing \<Longrightarrow> d \<in> set missing \<Longrightarrow>
    guard_reason parent g c re_export_map cycles m d"
| outer_package: "m \<in> set (ig_modules g) \<Longrightarrow> cycle \<in> cycles \<Longrightarrow> d \<in> set cycle \<Longrightarrow>
    is_ancestor_of d p \<Longrightarrow> is_ancestor_of p m \<Longrightarrow> guard_reason parent g c re_export_map cycles m d"
| cycle_member: "cycle \<in> cycles \<Longrightarrow> m \<in> set cycle \<Longrightarrow> d \<in> set cycle \<Longrightarrow> d \<noteq> m \<Longrightarrow> runs g m d \<Longrightarrow>
    guard_reason parent g c re_export_map cycles m d"
| child_of_member: "cycle \<in> cycles \<Longrightarrow> inherits parent g c cycle m d \<Longrightarrow>
    guard_reason parent g c re_export_map cycles m d"
| ambiguous_entry: "cycle \<in> cycles \<Longrightarrow> enters g cycle m d \<Longrightarrow>
    enters g cycle m1 d1 \<Longrightarrow> enters g cycle m2 d2 \<Longrightarrow> d1 \<noteq> d2 \<Longrightarrow>
    guard_reason parent g c re_export_map cycles m d"
| implicit_import: "by_target (cl_implicit c) d m \<Longrightarrow> guard_reason parent g c re_export_map cycles m d"
| own_target: "by_target (cl_implicit c) m consumer \<Longrightarrow> guard_reason parent g c re_export_map cycles m m"
| import_chain: "by_target (cl_implicit c) d consumer \<Longrightarrow> d \<notin> set (ig_imports g consumer) \<Longrightarrow>
    on_chain g d consumer m \<Longrightarrow> guard_reason parent g c re_export_map cycles m d"

inductive_simps guard_reason_iff: "guard_reason parent g c re_export_map cycles m d"

text \<open>The import cycles: the members of a component that have a source.\<close>

definition source_cycles :: "classified \<Rightarrow> modname list list \<Rightarrow> modname list set" where
  "source_cycles c components =
     {cycle. cycle \<noteq> [] \<and> (\<exists>component\<in>set components.
        cycle = filter (\<lambda>m. m \<in> set (cl_passing c) \<union> set (cl_failing c)) component)}"

section \<open>Each pass and its reasons\<close>

lemma further_parents: "fst ` set (drop 1 (iter_parents m)) = {d. \<exists>p. is_ancestor_of d p \<and> is_ancestor_of p m}"
proof (cases "iter_parents m")
  case Nil
  then show ?thesis using iter_parents_ancestors [of m] by auto
next
  case (Cons x xs)
  have all: "is_ancestor_of p m \<longleftrightarrow> p = fst x \<or> p \<in> fst ` set xs" for p
    unfolding ancestor_in_parents Cons by auto
  have below: "is_ancestor_of (fst y) (fst x)" if "y \<in> set xs" for y
    using iter_parents_nearest_first [of m] that by (simp add: Cons)
  have "d \<in> fst ` set xs \<longleftrightarrow> (\<exists>p. is_ancestor_of d p \<and> is_ancestor_of p m)" for d
  proof
    assume "d \<in> fst ` set xs"
    then show "\<exists>p. is_ancestor_of d p \<and> is_ancestor_of p m" using below all by blast
  next
    assume "\<exists>p. is_ancestor_of d p \<and> is_ancestor_of p m"
    then obtain p where p: "is_ancestor_of d p" "is_ancestor_of p m" by blast
    then have "is_ancestor_of d m" by (rule is_ancestor_of_trans)
    moreover have "d \<noteq> fst x"
      using p below all is_ancestor_of_trans is_ancestor_of_irrefl by (metis imageE)
    ultimately show "d \<in> fst ` set xs" using all by blast
  qed
  then show ?thesis by (auto simp: Cons)
qed

lemma re_sources_iff: "d \<in> re_sources m i \<longleftrightarrow> (\<exists>sources. map_of m i = Some sources \<and> d \<in> set sources)"
  by (cases "map_of m i") (auto simp: re_sources_def)

lemma scan_guards:
  "d \<in> failing_imported_modules g c re cycle_modules m \<longleftrightarrow>
     d \<in> set (ig_imports g m) \<and> d \<in> set (cl_failing c) \<or>
     (\<exists>i\<in>set (ig_imports g m). \<exists>sources. map_of re i = Some sources \<and> d \<in> set sources) \<or>
     (\<exists>missing. ig_missing g m = Some missing \<and> d \<in> set missing) \<or>
     d \<in> cycle_modules \<and> (\<exists>p. is_ancestor_of d p \<and> is_ancestor_of p m)"
proof -
  have "d \<in> set (map fst (drop 1 (iter_parents m))) \<longleftrightarrow> (\<exists>p. is_ancestor_of d p \<and> is_ancestor_of p m)"
    using further_parents [of m] by auto
  then show ?thesis
    unfolding failing_imported_modules_def by (auto simp: re_sources_iff split: option.splits)
qed

lemma cycle_children_iff:
  "k \<in> set (amap_get (collect_cycle_children parent S ms) p) \<longleftrightarrow> k \<in> set ms \<and> parent k = Some p \<and> p \<in> S"
proof (induction ms rule: rev_induct)
  case (snoc m ms)
  have "collect_cycle_children parent S (ms @ [m]) =
      (case parent m of None \<Rightarrow> collect_cycle_children parent S ms
       | Some p \<Rightarrow> if p \<in> S then amap_push p m (collect_cycle_children parent S ms)
           else collect_cycle_children parent S ms)"
    unfolding collect_cycle_children_def by simp
  with snoc show ?case by (auto simp: amap_push_def split: option.splits)
qed (simp add: collect_cycle_children_def)

lemma implicit_parents_entry:
  assumes "(m, ps) \<in> set (implicit_parent_imports g)"
  shows "m \<in> set (ig_modules g)" "set ps = {p. runs_package g m p}"
  using assms implicit_parents_of_exact [of g m]
  by (auto simp: implicit_parent_imports_def runs_package_def ig_contains_def)

lemma implicit_parents_iff:
  assumes "graph_ok g"
  shows "(\<exists>ps. (m, ps) \<in> set (implicit_parent_imports g) \<and> p \<in> set ps) \<longleftrightarrow> runs_package g m p"
proof
  assume r: "runs_package g m p"
  then have p: "p \<in> set (implicit_parents_of g m)"
    using implicit_parents_of_exact [of g m] by (auto simp: runs_package_def ig_contains_def)
  moreover have "m \<in> set (ig_modules g)" using r assms by (auto simp: runs_package_def graph_ok_def)
  ultimately have "(m, implicit_parents_of g m) \<in> set (implicit_parent_imports g)"
    by (auto simp: implicit_parent_imports_def)
  with p show "\<exists>ps. (m, ps) \<in> set (implicit_parent_imports g) \<and> p \<in> set ps" by blast
qed (use implicit_parents_entry in blast)

lemma implicit_parents_lookup:
  assumes "graph_ok g" "distinct (ig_modules g)"
  shows "(\<exists>ps. map_of (implicit_parent_imports g) m = Some ps \<and> p \<in> set ps) \<longleftrightarrow> runs_package g m p"
proof -
  have "map fst (filter (\<lambda>(m, ps). ps \<noteq> []) (map (\<lambda>m. (m, f m)) ms)) = filter (\<lambda>m. f m \<noteq> []) ms"
    for f :: "modname \<Rightarrow> modname list" and ms
    by (induction ms) auto
  then have "map fst (implicit_parent_imports g) = filter (\<lambda>m. implicit_parents_of g m \<noteq> []) (ig_modules g)"
    unfolding implicit_parent_imports_def .
  then have "distinct (map fst (implicit_parent_imports g))" using assms(2) by simp
  then show ?thesis using implicit_parents_iff [OF assms(1), of m p] by (simp add: map_of_eq_Some_iff)
qed

lemma set_collect_cycles:
  "set (collect_cycles find_cycles g ips (cl_passing c @ cl_failing c)) = source_cycles c (find_cycles g ips)"
  by (auto simp: collect_cycles_def source_cycles_def)

section \<open>The whole policy\<close>

definition policy_ctx :: "(modname \<Rightarrow> modname option) \<Rightarrow> import_graph \<Rightarrow> classified \<Rightarrow> modname list list \<Rightarrow> cycle_ctx" where
  "policy_ctx parent g c cycles =
     \<lparr>cx_graph = g, cx_implicit_parents = implicit_parent_imports g, cx_passing = cl_passing c,
      cx_children = collect_cycle_children parent (set (concat cycles)) (ig_modules g)\<rparr>"

lemma policy_ctx_passing [simp]: "cx_passing (policy_ctx parent g c cycles) = cl_passing c"
  by (simp add: policy_ctx_def)

lemma runs_in_cycle_iff:
  assumes "graph_ok g" "distinct (ig_modules g)"
  shows "runs_in_cycle (policy_ctx parent g c cycles) cycle m d \<longleftrightarrow> d \<in> set cycle \<and> d \<noteq> m \<and> runs g m d"
  using implicit_parents_lookup [OF assms, of m d] by (auto simp: runs_in_cycle_def policy_ctx_def runs_def)

lemma entries_iff:
  assumes "graph_ok g"
  shows "e \<in> entries_from (policy_ctx parent g c cycles) cycle m \<longleftrightarrow> enters g cycle m e"
proof -
  have "imports_member (policy_ctx parent g c cycles) m member \<longleftrightarrow> runs g m member" for member
    using implicit_parents_iff [OF assms, of m member] assms
    by (auto simp: imports_member_def policy_ctx_def runs_def graph_ok_def)
  then show ?thesis by (simp add: entries_from_def enters_def)
qed

lemma handed_down_iff:
  assumes "graph_ok g" "distinct (ig_modules g)" "cycle \<in> set cycles" "m \<in> set (cl_passing c)"
  shows "(\<exists>p. p \<in> set cycle \<and> d \<in> handed_down (policy_ctx parent g c cycles) cycle p m) \<longleftrightarrow>
    inherits parent g c cycle m d"
proof -
  have "d \<in> handed_down (policy_ctx parent g c cycles) cycle p m \<longleftrightarrow>
    m \<in> set (ig_modules g) \<and> parent m = Some p \<and>
    (if p \<in> set (cl_passing c)
     then \<exists>d'. d' \<in> set cycle \<and> d' \<noteq> p \<and> runs g p d' \<and> d = (if d' = m then p else d')
     else d = p)" if "p \<in> set cycle" for p
  proof -
    have "p \<in> set (concat cycles)" using assms(3) that by auto
    then have child: "m \<in> set (amap_get (cx_children (policy_ctx parent g c cycles)) p) \<longleftrightarrow>
        m \<in> set (ig_modules g) \<and> parent m = Some p"
      unfolding policy_ctx_def cycle_ctx.simps cycle_children_iff by simp
    show ?thesis
      unfolding handed_down_def child policy_ctx_passing runs_in_cycle_iff [OF assms(1,2)]
      using assms(4) by auto
  qed
  then show ?thesis unfolding inherits_def by blast
qed

lemma cycle_passes:
  assumes "graph_ok g" "distinct (ig_modules g)" "m \<in> set (cl_passing c)"
  shows "d \<in> members (add_cycle_entry_guards (policy_ctx parent g c cycles) cycles
      (add_cycle_deps (policy_ctx parent g c cycles) cycles le)) m \<longleftrightarrow>
    d \<in> members le m \<or>
    (\<exists>cycle\<in>set cycles. m \<in> set cycle \<and> d \<in> set cycle \<and> d \<noteq> m \<and> runs g m d) \<or>
    (\<exists>cycle\<in>set cycles. inherits parent g c cycle m d) \<or>
    (\<exists>cycle\<in>set cycles. enters g cycle m d \<and>
       (\<exists>m1 d1 m2 d2. enters g cycle m1 d1 \<and> enters g cycle m2 d2 \<and> d1 \<noteq> d2))"
proof -
  let ?cx = "policy_ctx parent g c cycles"
  have own: "d \<in> own_cycle_guards ?cx cycle m \<longleftrightarrow> m \<in> set cycle \<and> d \<in> set cycle \<and> d \<noteq> m \<and> runs g m d" for cycle
    using assms(3) by (simp add: own_cycle_guards_def runs_in_cycle_iff [OF assms(1,2)])
  have handed: "(\<exists>p. p \<in> set cycle \<and> d \<in> handed_down ?cx cycle p m) \<longleftrightarrow> inherits parent g c cycle m d"
    if "cycle \<in> set cycles" for cycle
    by (rule handed_down_iff [OF assms(1,2) that assms(3)])
  have several: "several_entries ?cx cycle \<longleftrightarrow>
      (\<exists>m1 d1 m2 d2. enters g cycle m1 d1 \<and> enters g cycle m2 d2 \<and> d1 \<noteq> d2)" for cycle
    unfolding several_entries_def entries_iff [OF assms(1)] by blast
  have "d \<in> members (add_cycle_deps ?cx cycles le) m \<longleftrightarrow> d \<in> members le m \<or>
    (\<exists>cycle\<in>set cycles. m \<in> set cycle \<and> d \<in> set cycle \<and> d \<noteq> m \<and> runs g m d) \<or>
    (\<exists>cycle\<in>set cycles. inherits parent g c cycle m d)"
    unfolding add_cycle_deps_members Un_iff mem_Collect_eq own using handed by blast
  then show ?thesis
    unfolding add_cycle_entry_guards_members Un_iff mem_Collect_eq several entries_iff [OF assms(1)] policy_ctx_passing
    using assms(3) by blast
qed

lemma members_guard_implicit:
  "members (guard_implicit_consumers c le) m =
     members le m \<union> (if m \<in> set (cl_passing c) then {d. by_target (cl_implicit c) d m} else {})"
  unfolding guard_implicit_consumers_exact by (auto simp: by_target_def)

lemma build_lazy_eligible_members:
  assumes ok: "graph_ok g" "distinct (ig_modules g)" and m: "m \<in> set (cl_passing c)"
    and run: "build_lazy_eligible parent g (implicit_parent_imports g) c re cycles = Some le"
  shows "d \<in> members le m \<longleftrightarrow> guard_reason parent g c re (set cycles) m d"
proof -
  let ?cm = "set (concat cycles)"
  let ?cx = "policy_ctx parent g c cycles"
  let ?scanned = "scan_modules g c re ?cm (ig_modules g) Map.empty"
  let ?cycled = "add_cycle_entry_guards ?cx cycles (add_cycle_deps ?cx cycles ?scanned)"
  have chains: "guard_targets g (cl_passing c) (consumers_by_target (cl_implicit c))
      (guard_implicit_consumers c ?cycled) = Some le"
    using run by (simp only: build_lazy_eligible_def propagate_implicit_imports_along_chains_def Let_def policy_ctx_def)
  have scanned: "d \<in> members ?scanned m \<longleftrightarrow> m \<in> set (ig_modules g) \<and> d \<in> failing_imported_modules g c re ?cm m"
    using conjunct2 [OF scan_modules_facts [OF ok(2), of g c re ?cm Map.empty]] m by simp
  have cm: "d \<in> ?cm \<longleftrightarrow> (\<exists>cycle\<in>set cycles. d \<in> set cycle)" by auto
  have known: "i \<in> set (ig_imports g m) \<Longrightarrow> m \<in> set (ig_modules g)" for i
    using ok(1) by (auto simp: graph_ok_def)
  have "d \<in> members le m \<longleftrightarrow>
      (d \<in> members ?cycled m \<or> by_target (cl_implicit c) d m) \<or>
      (\<exists>consumer. by_target (cl_implicit c) d consumer \<and>
         (m = d \<or> d \<notin> set (ig_imports g consumer) \<and> on_chain g d consumer m))"
    unfolding guard_targets_members [OF ok(1) chains] consumers_by_target_iff members_guard_implicit
    using m by simp
  also have "\<dots> \<longleftrightarrow> guard_reason parent g c re (set cycles) m d"
    unfolding guard_reason_iff cycle_passes [OF ok m] scanned scan_guards cm
    using known by blast
  finally show ?thesis .
qed

text \<open>
  C1: The policy always yields guards, and it yields exactly the right ones. Only passing modules are
  lazily eligible, every passing module of the graph is, and a module is guarded by another exactly
  when there is one of ten reasons: a failing import, a failing source of a re-export it imports, an
  import without source, a package further out than its own that is in an import cycle, another
  member of its cycle that its imports run, what its package hands down, the entry of a cycle that is
  entered through several members, an implicit import, being an implicit import itself, and lying on
  the shortest chain to one. On top come the unused imports that have a guard for such a reason.
\<close>

theorem lazy_eligibility_guards:
  assumes "graph_ok g" "distinct (ig_modules g)"
  shows "\<exists>le. lazy_eligibility parent find_cycles g c re_export_map side_effects = Some le \<and>
    dom le \<subseteq> set (cl_passing c) \<and> set (ig_modules g) \<inter> set (cl_passing c) \<subseteq> dom le \<and>
    (\<forall>m p. (\<exists>ps. (m, ps) \<in> set (implicit_parent_imports g) \<and> p \<in> set ps) \<longleftrightarrow> runs_package g m p) \<and>
    (let reason = guard_reason parent g c re_export_map
           (source_cycles c (find_cycles g (implicit_parent_imports g)))
     in \<forall>m d. d \<in> members le m \<longleftrightarrow> m \<in> set (cl_passing c) \<and>
          (reason m d \<or>
           (\<exists>unused. (m, unused) \<in> set side_effects \<and> d \<in> set unused \<and>
              d \<in> set (cl_passing c) \<and> (\<exists>d'. reason d d'))))"
proof -
  let ?ips = "implicit_parent_imports g"
  let ?cycles = "collect_cycles find_cycles g ?ips (cl_passing c @ cl_failing c)"
  let ?scanned = "scan_modules g c re_export_map (set (concat ?cycles)) (ig_modules g) Map.empty"
  let ?reason = "guard_reason parent g c re_export_map (source_cycles c (find_cycles g ?ips))"
  obtain le where le: "build_lazy_eligible parent g ?ips c re_export_map ?cycles = Some le"
      "only_adds (cl_passing c) ?scanned le"
    using build_lazy_eligible_ok [OF assms] by blast
  let ?final = "propagate_side_effect_imports (cl_passing c) side_effects le"
  have scanned: "dom ?scanned = set (ig_modules g) \<inter> set (cl_passing c)"
    using conjunct1 [OF scan_modules_facts [OF assms(2)]] by (simp only: dom_empty Un_empty_left)
  have doms: "dom ?scanned \<subseteq> dom le" "dom le \<subseteq> dom ?scanned \<union> set (cl_passing c)"
      "dom le \<subseteq> dom ?final" "dom ?final \<subseteq> dom le \<union> set (cl_passing c)"
    using le(2) propagate_side_effect_imports_adds [of "cl_passing c" le side_effects] unfolding only_adds_def by blast+
  have outside: "members le m = {}" if "m \<notin> set (cl_passing c)" for m
    using that doms(2) scanned by (cases "le m") (auto simp: members_def dom_def)
  have build: "d \<in> members le m \<longleftrightarrow> m \<in> set (cl_passing c) \<and> ?reason m d" for m d
    using build_lazy_eligible_members [OF assms _ le(1), of m d] outside [of m]
    unfolding set_collect_cycles by blast
  have exact: "d \<in> members ?final m \<longleftrightarrow> m \<in> set (cl_passing c) \<and>
      (?reason m d \<or> (\<exists>unused. (m, unused) \<in> set side_effects \<and> d \<in> set unused \<and>
         d \<in> set (cl_passing c) \<and> (\<exists>d'. ?reason d d')))" for m d
    unfolding propagate_side_effect_imports_exact using build by blast
  show ?thesis
    unfolding Let_def
  proof (intro exI conjI allI)
    show "lazy_eligibility parent find_cycles g c re_export_map side_effects = Some ?final"
      using le(1) by (simp add: lazy_eligibility_def Let_def del: set_concat)
    show "dom ?final \<subseteq> set (cl_passing c)" "set (ig_modules g) \<inter> set (cl_passing c) \<subseteq> dom ?final"
      using doms unfolding scanned by blast+
  qed (rule implicit_parents_iff [OF assms(1)], rule exact)
qed

text \<open>
  \<open>a\<close> imports \<open>b\<close>, which fails, and \<open>b\<close> imports \<open>c\<close>; \<open>c\<close> keeps an unused import of \<open>a\<close>.
\<close>

definition sample_classified :: classified where
  "sample_classified = classify_modules
     [(''a'', SafetyOk new_module_safety), (''b'', AnalysisError ''syntax error''), (''c'', SafetyOk new_module_safety)]"

lemma lazy_eligibility_guards_witness:
  "\<exists>le. lazy_eligibility (\<lambda>_. None) (\<lambda>_ _. []) sample_imports sample_classified [] [(''c'', [''a''])] = Some le \<and>
     dom le = {''a'', ''c''} \<and> members le ''a'' = {''b''} \<and> members le ''c'' = {''a''}"
proof -
  have sets: "set (cl_passing sample_classified) = {''a'', ''c''}"
      "set (cl_failing sample_classified) = {''b''}" "cl_implicit sample_classified = []"
    by (simp_all add: sample_classified_def classify_modules_def classify_module_def new_classified_def
        record_status_def record_errors_def record_implicit_imports_def new_module_safety_def module_is_safe_def
        small_insert_def should_load_imports_eagerly_def Let_def)
  have ok: "graph_ok sample_imports" "distinct (ig_modules sample_imports)"
    by (auto simp: graph_ok_def sample_imports_def split: if_splits)
  have modules: "set (ig_modules sample_imports) = {''a'', ''b'', ''c''}"
      "ig_imports sample_imports ''a'' = [''b'']" "ig_imports sample_imports ''c'' = []"
      "ig_missing sample_imports m = None" for m
    by (simp_all add: sample_imports_def)
  let ?reason = "guard_reason (\<lambda>_. None) sample_imports sample_classified []
    (source_cycles sample_classified [])"
  have reasons: "?reason ''a'' d \<longleftrightarrow> d = ''b''" "\<not> ?reason ''c'' d" for d
    by (auto simp: guard_reason_iff sets modules source_cycles_def by_target_def)
  obtain le where le: "lazy_eligibility (\<lambda>_. None) (\<lambda>_ _. []) sample_imports sample_classified [] [(''c'', [''a''])] = Some le"
      "dom le \<subseteq> set (cl_passing sample_classified)"
      "set (ig_modules sample_imports) \<inter> set (cl_passing sample_classified) \<subseteq> dom le"
      "d \<in> members le m \<longleftrightarrow> m \<in> set (cl_passing sample_classified) \<and> (?reason m d \<or>
         (\<exists>unused. (m, unused) \<in> set [(''c'', [''a''])] \<and> d \<in> set unused \<and>
            d \<in> set (cl_passing sample_classified) \<and> (\<exists>d'. ?reason d d')))" for m d
    using lazy_eligibility_guards [OF ok, of "\<lambda>_. None" "\<lambda>_ _. []" sample_classified "[]" "[(''c'', [''a''])]"]
    unfolding Let_def by blast
  have "dom le = {''a'', ''c''}" using le(2,3) unfolding sets modules by auto
  moreover have "members le ''a'' = {''b''}" "members le ''c'' = {''a''}"
    unfolding set_eq_iff le(4) sets using reasons by auto
  ultimately show ?thesis using le(1) by blast
qed

end
