(* ===== verification/Cache_Model.thy ===== *)
theory Cache_Model
  imports Module_Safety Reexports
begin

text \<open>
  The library caches of the map phase (\<open>src/cache/artifact.rs\<close>) and what a \<open>__main__\<close> guard
  contributed to them (\<open>src/cache/main_guard.rs\<close>). Hash sets and hash maps are lists without
  duplicate keys, in any order. \<open>mcmp\<close> is the order of module names, which \<open>pyrefly\<close> interns.
\<close>

type_synonym func_table = "(string \<times> function_safety_info) list"
type_synonym verdict_map = "(modname \<times> func_table) list"
type_synonym base_map = "(modname \<times> modname list) list"

section \<open>Constructor callees\<close>

definition CONSTRUCTOR_METHODS :: "string list" where
  "CONSTRUCTOR_METHODS = [''__new__'', ''__init__'', ''__post_init__'']"

record constructor_callees =
  metaclass :: "modname option"
  mask :: "8 word"
  extra :: "modname list"

definition default_callees :: constructor_callees where
  "default_callees = \<lparr>metaclass = None, mask = 0, extra = []\<rparr>"

definition OWN_BITS :: "8 word" where
  "OWN_BITS = push_bit (length CONSTRUCTOR_METHODS) (push_bit (length CONSTRUCTOR_METHODS) 1 - 1)"

definition callees_empty :: "constructor_callees \<Rightarrow> bool" where
  "callees_empty r \<longleftrightarrow> mask r = 0 \<and> extra r = []"

definition merged_with :: "constructor_callees \<Rightarrow> constructor_callees \<Rightarrow> constructor_callees" where
  "merged_with a b =
     (let mc = (case (metaclass a, metaclass b) of
                  (Some x, Some y) \<Rightarrow> if x \<noteq> y then None else Some x
                | (None, y) \<Rightarrow> y
                | (x, None) \<Rightarrow> x);
          m = mask a OR mask b
      in \<lparr>metaclass = mc, mask = (if mc = None then m AND OWN_BITS else m),
          extra = small_extend (extra a) (extra b)\<rparr>)"

definition selected :: "8 word \<Rightarrow> nat \<Rightarrow> string list \<Rightarrow> string list" where
  "selected msk base_bit methods =
     map snd (filter (\<lambda>(i, _). msk AND push_bit (base_bit + i) 1 \<noteq> 0)
       (zip [0..<length methods] methods))"

definition callees_iter :: "constructor_callees \<Rightarrow> modname \<Rightarrow> (modname \<times> string) list" where
  "callees_iter r class_fqn =
     (case metaclass r of
        None \<Rightarrow> []
      | Some mc \<Rightarrow> map (\<lambda>m. (mc, m)) (selected (mask r) 0 CONSTRUCTOR_METHODS)) @
     map (\<lambda>m. (class_fqn, m)) (selected (mask r) (length CONSTRUCTOR_METHODS) CONSTRUCTOR_METHODS)"

text \<open>The \<open>expect\<close> is the panic.\<close>

definition own_constructor_bit :: "string \<Rightarrow> 8 word option" where
  "own_constructor_bit method =
     map_option (\<lambda>i. push_bit (length CONSTRUCTOR_METHODS + i) 1)
       (find_first (\<lambda>i. CONSTRUCTOR_METHODS ! i = method) [0..<length CONSTRUCTOR_METHODS])"

definition constructor_mask_bits ::
  "modname \<Rightarrow> nat \<Rightarrow> string list \<Rightarrow> (modname \<Rightarrow> bool) \<Rightarrow> 8 word" where
  "constructor_mask_bits owner base_bit methods resolves =
     foldl (\<lambda>m b. m OR b) 0
       (map (\<lambda>(i, _). push_bit (base_bit + i) 1)
         (filter (\<lambda>(_, method). resolves (append_str owner method))
           (zip [0..<length methods] methods)))"

section \<open>Cached modules\<close>

record cached_module_safety =
  c_errors :: "safety_error list"
  c_overrides :: "safety_error list"
  c_implicit :: "modname list"

datatype cached_safety = CachedOk cached_module_safety | CachedAnalysisError string

record cached_module =
  cm_name :: modname
  cm_safety :: cached_safety
  cm_imports :: "modname list"
  cm_missing :: "modname list"
  cm_ambiguous :: "modname list"
  cm_side_effects :: "modname list"
  cm_functions :: func_table
  cm_mutations :: "mutation_candidate list"
  cm_properties :: "property_candidate list"
  cm_subclasses :: "subclass_candidate list"
  cm_guard_imports :: "modname list"

record cached_return_type =
  rt_function :: modname
  rt_class :: modname

record library_cache =
  lc_modules :: "cached_module list"
  lc_re_exports :: "cached_re_export list"
  lc_return_types :: "cached_return_type list"
  lc_class_bases :: base_map
  lc_class_properties :: "(modname \<times> string list) list"
  lc_constructor_callees :: "(modname \<times> constructor_callees) list"

definition empty_cached_module :: "modname \<Rightarrow> cached_module" where
  "empty_cached_module n =
     \<lparr>cm_name = n, cm_safety = CachedOk \<lparr>c_errors = [], c_overrides = [], c_implicit = []\<rparr>,
      cm_imports = [], cm_missing = [], cm_ambiguous = [], cm_side_effects = [],
      cm_functions = [], cm_mutations = [], cm_properties = [], cm_subclasses = [],
      cm_guard_imports = []\<rparr>"

definition from_safety_result ::
  "(modname \<Rightarrow> modname \<Rightarrow> ordering) \<Rightarrow> safety_result \<Rightarrow> cached_safety" where
  "from_safety_result mcmp r =
     (case r of
        SafetyOk s \<Rightarrow>
          CachedOk \<lparr>c_errors = errors s, c_overrides = force_imports_eager_overrides s,
                    c_implicit = sort_by mcmp (implicit_imports s)\<rparr>
      | AnalysisError e \<Rightarrow> CachedAnalysisError e)"

section \<open>Dropping what a guard produced\<close>

definition retain_unguarded :: "('a \<Rightarrow> bool) \<Rightarrow> 'a list \<Rightarrow> 'a list \<times> nat" where
  "retain_unguarded guarded items =
     (let kept = filter (\<lambda>x. \<not> guarded x) items in (kept, length items - length kept))"

definition drop_guarded_edges :: "cached_module \<Rightarrow> cached_module \<times> nat" where
  "drop_guarded_edges m =
     (if cm_guard_imports m = [] then (m, 0)
      else
        let keep = filter (\<lambda>i. i \<notin> set (cm_guard_imports m));
            edges = (\<lambda>m. length (cm_imports m) + length (cm_missing m) +
                        length (cm_side_effects m) + length (cm_ambiguous m));
            m' = m\<lparr>cm_imports := keep (cm_imports m), cm_missing := keep (cm_missing m),
                   cm_side_effects := keep (cm_side_effects m), cm_ambiguous := keep (cm_ambiguous m)\<rparr>
        in (m', edges m - edges m'))"

definition drop_main_guarded :: "cached_module \<Rightarrow> cached_module \<times> nat" where
  "drop_main_guarded m =
     (let (m1, n1) = drop_guarded_edges m;
          (mutations, n2) = retain_unguarded mc_from_main_guard (cm_mutations m1);
          (properties, n3) = retain_unguarded pc_from_main_guard (cm_properties m1);
          (subclasses, n4) = retain_unguarded sc_from_main_guard (cm_subclasses m1);
          m2 = m1\<lparr>cm_mutations := mutations, cm_properties := properties, cm_subclasses := subclasses\<rparr>;
          dropped = n1 + n2 + n3 + n4
      in case cm_safety m2 of
           CachedAnalysisError e \<Rightarrow> (m2, dropped)
         | CachedOk s \<Rightarrow>
             (let (es, n5) = retain_unguarded err_from_main_guard (c_errors s);
                  (os, n6) = retain_unguarded err_from_main_guard (c_overrides s)
              in (m2\<lparr>cm_safety := CachedOk (s\<lparr>c_errors := es, c_overrides := os\<rparr>)\<rparr>,
                  dropped + n5 + n6)))"

definition apply_main_module :: "modname option \<Rightarrow> cached_module list \<Rightarrow> cached_module list" where
  "apply_main_module main_module ms =
     (case main_module of
        None \<Rightarrow> ms
      | Some main \<Rightarrow> map (\<lambda>m. if cm_name m \<noteq> main then fst (drop_main_guarded m) else m) ms)"

section \<open>Facts\<close>

lemma mask_bit: "msk AND push_bit n 1 \<noteq> 0 \<longleftrightarrow> bit msk n" for msk :: "8 word"
  by (simp add: push_bit_eq_mult and_exp_eq_0_iff_not_bit)

lemma OWN_BITS_bit: "bit OWN_BITS n \<longleftrightarrow> 3 \<le> n \<and> n < 6"
proof -

  have own: "OWN_BITS = push_bit 3 (Bit_Operations.mask 3)"
    by (simp add: OWN_BITS_def CONSTRUCTOR_METHODS_def mask_eq_exp_minus_1)
  show ?thesis unfolding own bit_push_bit_iff bit_mask_iff by auto
qed

lemma set_selected:
  "set (selected msk b methods) = {methods ! i |i. i < length methods \<and> bit msk (b + i)}"
  unfolding selected_def mask_bit by (force simp: set_zip)

lemma set_callees_iter:
  "set (callees_iter r c) =
     {(mc, CONSTRUCTOR_METHODS ! i) |mc i. metaclass r = Some mc \<and> i < 3 \<and> bit (mask r) i} \<union>
     {(c, CONSTRUCTOR_METHODS ! i) |i. i < 3 \<and> bit (mask r) (3 + i)}"
proof -
  have "length CONSTRUCTOR_METHODS = 3" by (simp add: CONSTRUCTOR_METHODS_def)
  then show ?thesis
    by (cases "metaclass r") (auto simp: callees_iter_def set_selected)
qed

text \<open>What the map phase promises of a record: metaclass bits only with a metaclass.\<close>

definition wf_callees :: "constructor_callees \<Rightarrow> bool" where
  "wf_callees r \<longleftrightarrow> metaclass r = None \<longrightarrow> mask r AND 7 = 0"

lemma wf_callees_bits: "wf_callees r \<longleftrightarrow> metaclass r = None \<longrightarrow> (\<forall>i<3. \<not> bit (mask r) i)"
proof -
  have seven: "(7 :: 8 word) = Bit_Operations.mask 3" by (simp add: mask_eq_exp_minus_1)
  have small: "i < 8" if "i < 3" for i :: nat using that by linarith
  have "mask r AND 7 = 0 \<longleftrightarrow> (\<forall>i. \<not> (bit (mask r) i \<and> i < 3))"
    unfolding seven by (simp add: bit_eq_iff bit_and_iff bit_mask_iff) (metis small)
  then show ?thesis by (auto simp: wf_callees_def)
qed

definition metaclass_conflict :: "constructor_callees \<Rightarrow> constructor_callees \<Rightarrow> bool" where
  "metaclass_conflict a b \<longleftrightarrow>
     metaclass a \<noteq> None \<and> metaclass b \<noteq> None \<and> metaclass a \<noteq> metaclass b"

definition own_callees :: "constructor_callees \<Rightarrow> modname \<Rightarrow> (modname \<times> string) set" where
  "own_callees r c = set (callees_iter (r\<lparr>metaclass := None\<rparr>) c)"

lemma merged_metaclass:
  "metaclass (merged_with a b) =
     (if metaclass_conflict a b then None
      else case metaclass a of None \<Rightarrow> metaclass b | Some x \<Rightarrow> Some x)"
  by (auto simp: merged_with_def metaclass_conflict_def Let_def split: option.split)

lemma merged_bits:
  "bit (mask (merged_with a b)) i \<longleftrightarrow>
     (bit (mask a) i \<or> bit (mask b) i) \<and> (metaclass (merged_with a b) = None \<longrightarrow> 3 \<le> i \<and> i < 6)"
  by (auto simp: merged_with_def Let_def bit_or_iff bit_and_iff OWN_BITS_bit)

text \<open>
  Merging what two libraries recorded of a class's constructor invents no callee and loses
  none. The merged record names the callees of both, unless they disagree on the metaclass: then
  it names exactly the class's own methods that either of them records. It keeps the promise that
  metaclass bits come with a metaclass.
\<close>

theorem merged_with_callees:
  assumes "wf_callees a" "wf_callees b"
  shows "wf_callees (merged_with a b) \<and>
    set (extra (merged_with a b)) = set (extra a) \<union> set (extra b) \<and>
    set (callees_iter (merged_with a b) c) =
      (if metaclass_conflict a b then own_callees a c \<union> own_callees b c
       else set (callees_iter a c) \<union> set (callees_iter b c))"
proof (intro conjI)
  show "wf_callees (merged_with a b)" by (auto simp: wf_callees_bits merged_bits)
  show "set (extra (merged_with a b)) = set (extra a) \<union> set (extra b)"
    by (simp add: merged_with_def Let_def)
  have own: "own_callees r c = {(c, CONSTRUCTOR_METHODS ! i) |i. i < 3 \<and> bit (mask r) (3 + i)}" for r
    by (simp add: own_callees_def set_callees_iter)
  show "set (callees_iter (merged_with a b) c) =
      (if metaclass_conflict a b then own_callees a c \<union> own_callees b c
       else set (callees_iter a c) \<union> set (callees_iter b c))"
  proof (cases "metaclass_conflict a b")
    case True
    then show ?thesis
      unfolding set_callees_iter [of "merged_with a b"] merged_bits merged_metaclass own by auto
  next
    case False
    then have m: "metaclass (merged_with a b) = (case metaclass a of None \<Rightarrow> metaclass b | Some x \<Rightarrow> Some x)"
      by (simp add: merged_metaclass)
    show ?thesis
    proof (cases "metaclass a")
      case None
      with assms(1) have "\<forall>i<3. \<not> bit (mask a) i" by (simp add: wf_callees_bits)
      with None False m show ?thesis unfolding set_callees_iter merged_bits by auto
    next
      case (Some x)
      have "metaclass b = Some x \<or> (metaclass b = None \<and> (\<forall>i<3. \<not> bit (mask b) i))"
        using False Some assms(2) by (auto simp: metaclass_conflict_def wf_callees_bits)
      with Some False m show ?thesis unfolding set_callees_iter merged_bits by auto
    qed
  qed
qed

definition sample_callees :: "modname option \<Rightarrow> 8 word \<Rightarrow> constructor_callees" where
  "sample_callees mc m = \<lparr>metaclass = mc, mask = m, extra = []\<rparr>"

lemma merged_with_callees_witness:
  "(''M'', ''__new__'') \<notin> set (callees_iter
     (merged_with (sample_callees (Some ''M'') 17) (sample_callees (Some ''N'') 0)) ''C'') \<and>
   (''C'', ''__init__'') \<in> set (callees_iter
     (merged_with (sample_callees (Some ''M'') 17) (sample_callees (Some ''N'') 0)) ''C'')"
proof -
  have "set (callees_iter (merged_with (sample_callees (Some ''M'') 17) (sample_callees (Some ''N'') 0)) ''C'') =
      own_callees (sample_callees (Some ''M'') 17) ''C'' \<union> own_callees (sample_callees (Some ''N'') 0) ''C''"
    using merged_with_callees [of "sample_callees (Some ''M'') 17" "sample_callees (Some ''N'') 0" "''C''"]
    by (simp add: wf_callees_def sample_callees_def metaclass_conflict_def)
  moreover have "own_callees (sample_callees (Some ''M'') 17) ''C'' = {(''C'', ''__init__'')}"
    by code_simp
  moreover have "own_callees (sample_callees (Some ''N'') 0) ''C'' = {}" by code_simp
  ultimately show ?thesis by simp
qed

text \<open>What a module still holds that only a guard produced.\<close>

definition guard_free :: "cached_module \<Rightarrow> bool" where
  "guard_free m \<longleftrightarrow>
     (\<forall>i\<in>set (cm_guard_imports m). i \<notin> set (cm_imports m @ cm_missing m @ cm_side_effects m @ cm_ambiguous m)) \<and>
     list_all (\<lambda>c. \<not> mc_from_main_guard c) (cm_mutations m) \<and>
     list_all (\<lambda>c. \<not> pc_from_main_guard c) (cm_properties m) \<and>
     list_all (\<lambda>c. \<not> sc_from_main_guard c) (cm_subclasses m) \<and>
     (case cm_safety m of CachedAnalysisError e \<Rightarrow> True
      | CachedOk s \<Rightarrow> list_all (\<lambda>e. \<not> err_from_main_guard e) (c_errors s @ c_overrides s))"

lemma retain_unguarded_simps [simp]:
  "fst (retain_unguarded g xs) = filter (\<lambda>x. \<not> g x) xs"
  "snd (retain_unguarded g xs) = length xs - length (filter (\<lambda>x. \<not> g x) xs)"
  by (simp_all add: retain_unguarded_def Let_def)

lemma drop_guarded_edges_simps:
  "fst (drop_guarded_edges m) =
     (let keep = filter (\<lambda>i. i \<notin> set (cm_guard_imports m)) in
      m\<lparr>cm_imports := keep (cm_imports m), cm_missing := keep (cm_missing m),
        cm_side_effects := keep (cm_side_effects m), cm_ambiguous := keep (cm_ambiguous m)\<rparr>)"
  by (simp add: drop_guarded_edges_def Let_def)

text \<open>Everything outside a guard is kept: on a module without guarded facts nothing goes.\<close>

lemma drop_main_guarded_fixed:
  assumes "guard_free m"
  shows "drop_main_guarded m = (m, 0)"
proof -
  have keep: "filter (\<lambda>i. i \<notin> set (cm_guard_imports m)) xs = xs"
    if "set xs \<subseteq> set (cm_imports m @ cm_missing m @ cm_side_effects m @ cm_ambiguous m)" for xs
    using assms that by (auto simp: guard_free_def filter_id_conv)
  have "filter (\<lambda>i. i \<notin> set (cm_guard_imports m)) (cm_imports m) = cm_imports m"
    "filter (\<lambda>i. i \<notin> set (cm_guard_imports m)) (cm_missing m) = cm_missing m"
    "filter (\<lambda>i. i \<notin> set (cm_guard_imports m)) (cm_side_effects m) = cm_side_effects m"
    "filter (\<lambda>i. i \<notin> set (cm_guard_imports m)) (cm_ambiguous m) = cm_ambiguous m"
    by (rule keep, auto)+
  then have edges: "drop_guarded_edges m = (m, 0)"
    by (simp add: drop_guarded_edges_def Let_def)
  have none: "retain_unguarded g xs = (xs, 0)" if "list_all (\<lambda>x. \<not> g x) xs" for g :: "'b \<Rightarrow> bool" and xs
    using that by (simp add: retain_unguarded_def Let_def list_all_iff filter_id_conv)
  show ?thesis
    using assms
    by (cases "cm_safety m") (simp_all add: drop_main_guarded_def edges guard_free_def none)
qed

lemma drop_main_guarded_free: "guard_free (fst (drop_main_guarded m))"
proof -
  have edges: "\<forall>i\<in>set (cm_guard_imports m'). i \<notin> set (cm_imports m' @ cm_missing m' @ cm_side_effects m' @ cm_ambiguous m')"
    if "m' = fst (drop_guarded_edges m)" for m'
    unfolding that drop_guarded_edges_simps Let_def by simp
  show ?thesis
    using edges [OF refl]
    by (cases "cm_safety m")
      (simp_all add: drop_main_guarded_def split_def Let_def guard_free_def drop_guarded_edges_simps list_all_iff ball_Un)
qed

text \<open>
  For a module that does not run as \<open>__main__\<close>, dropping leaves no edge, candidate or error
  that only a guard produced, a second pass finds nothing more, and a module is left alone exactly
  when it had nothing of the kind.
\<close>

theorem drop_main_guarded_exact:
  "guard_free (fst (drop_main_guarded m)) \<and>
   drop_main_guarded (fst (drop_main_guarded m)) = (fst (drop_main_guarded m), 0) \<and>
   (drop_main_guarded m = (m, 0) \<longleftrightarrow> guard_free m)"
  by (metis drop_main_guarded_fixed drop_main_guarded_free fst_conv)

end
