(* ===== verification/Mro.thy ===== *)
theory Mro
  imports Prelude "HOL-Library.Sublist"
begin

text \<open>
  The method resolution order of \<open>src/mro.rs\<close>: the C3 merge, and the linearization of a class
  with its memo table and its guard against inheritance cycles. The hash map of direct bases is
  an association list; the memo is a partial function threaded through the recursion.
\<close>

type_synonym class_bases = "(modname \<times> modname list) list"
type_synonym mro_memo = "modname \<rightharpoonup> modname list"

section \<open>The C3 merge\<close>

text \<open>The head that the merge takes next: the first head that is in no tail, or the first head.\<close>

definition merge_head :: "modname list list \<Rightarrow> modname" where
  "merge_head sequences =
     (case find_first (\<lambda>head. \<not> list_ex (\<lambda>seq. head \<in> set (tl seq)) sequences) (map hd sequences) of
        Some head \<Rightarrow> head
      | None \<Rightarrow> hd (hd sequences))"

definition remove_front :: "modname \<Rightarrow> modname list \<Rightarrow> modname list" where
  "remove_front head seq = (if seq \<noteq> [] \<and> hd seq = head then tl seq else seq)"

lemma merge_head_in_heads:
  assumes "sequences \<noteq> []"
  shows "merge_head sequences \<in> set (map hd sequences)"
proof (cases "find_first (\<lambda>head. \<not> list_ex (\<lambda>seq. head \<in> set (tl seq)) sequences) (map hd sequences)")
  case None
  with assms show ?thesis by (simp add: merge_head_def)
next
  case (Some h)
  then show ?thesis using find_first_SomeD [OF Some] by (simp add: merge_head_def)
qed

lemma length_remove_front: "length (remove_front h seq) \<le> length seq"
  by (simp add: remove_front_def)

lemma remove_front_decreases:
  assumes "sequences \<noteq> []" "[] \<notin> set sequences"
  shows "sum_list (map (length \<circ> remove_front (merge_head sequences)) sequences) <
    sum_list (map length sequences)"
proof -
  obtain seq where "seq \<in> set sequences" "hd seq = merge_head sequences"
    using merge_head_in_heads [OF assms(1)] by auto
  moreover from this assms have "length (remove_front (merge_head sequences) seq) < length seq"
    by (cases seq) (auto simp: remove_front_def)
  moreover have "sum_list (map g xs) < sum_list (map f xs)"
    if "x \<in> set xs" "g x < f x" "\<And>y. g y \<le> f y" for x and xs :: "modname list list" and f g :: "_ \<Rightarrow> nat"
    using that(1)
  proof (induction xs)
    case (Cons y ys)
    have "sum_list (map g ys) \<le> sum_list (map f ys)" by (rule sum_list_mono) (rule that(3))
    with Cons that show ?case by (auto intro: add_less_le_mono add_le_less_mono)
  qed simp
  ultimately show ?thesis by (simp add: length_remove_front)
qed

function c3_merge :: "modname list list \<Rightarrow> modname list" where
  "c3_merge sequences =
     (let live = filter (\<lambda>seq. seq \<noteq> []) sequences in
      if live = [] then []
      else merge_head live # c3_merge (map (remove_front (merge_head live)) live))"
  by pat_completeness auto
termination
proof (relation "measure (\<lambda>ss. sum_list (map length ss))", goal_cases)
  case (2 sequences live)
  then have "[] \<notin> set live" by simp
  with 2 have "sum_list (map length (map (remove_front (merge_head live)) live)) <
      sum_list (map length live)"
    using remove_front_decreases by (simp add: comp_def)
  also have "sum_list (map length live) \<le> sum_list (map length sequences)"
    using 2(1) by (induction sequences arbitrary: live) auto
  finally show ?case by simp
qed simp

declare c3_merge.simps [simp del]

section \<open>Linearization\<close>

definition add_candidates :: "modname list \<Rightarrow> modname list \<Rightarrow> modname list" where
  "add_candidates result candidates =
     foldl (\<lambda>acc c. if c \<in> set acc then acc else acc @ [c]) result candidates"

definition class_keys :: "class_bases \<Rightarrow> modname set" where
  "class_keys cb = set (map fst cb)"

function linearize ::
  "class_bases \<Rightarrow> modname \<Rightarrow> mro_memo \<Rightarrow> modname list \<Rightarrow> modname list \<times> mro_memo"
and linearize_all ::
  "class_bases \<Rightarrow> modname list \<Rightarrow> mro_memo \<Rightarrow> modname list \<Rightarrow> modname list list \<times> mro_memo" where
  "linearize cb cls memo on_path =
     (case memo cls of
        Some cached \<Rightarrow> (cached, memo)
      | None \<Rightarrow>
          if cls \<in> set on_path then ([cls], memo)
          else
            (case map_of cb cls of
               None \<Rightarrow> ([cls], memo)
             | Some bases \<Rightarrow>
                 if bases = [] then ([cls], memo)
                 else
                   (case linearize_all cb bases memo (on_path @ [cls]) of
                      (sequences, memo') \<Rightarrow>
                        (let result = add_candidates [cls] (c3_merge (sequences @ [bases]))
                         in (result, memo'(cls \<mapsto> result))))))"
| "linearize_all cb [] memo on_path = ([], memo)"
| "linearize_all cb (base # bases) memo on_path =
     (case linearize cb base memo on_path of
        (s, memo') \<Rightarrow>
          (case linearize_all cb bases memo' on_path of (ss, memo'') \<Rightarrow> (s # ss, memo'')))"
  by pat_completeness auto
termination
proof (relation "measures
    [case_sum (\<lambda>(cb, cls, memo, path). card (class_keys cb - set path))
              (\<lambda>(cb, bases, memo, path). card (class_keys cb - set path)),
     case_sum (\<lambda>_. 0) (\<lambda>(cb, bases, memo, path). Suc (length bases))]", goal_cases)
  case (2 cb cls memo on_path bases)
  then have "cls \<in> class_keys cb" by (auto simp: class_keys_def dest: map_of_SomeD intro: rev_image_eqI)
  then have "class_keys cb - set (on_path @ [cls]) \<subset> class_keys cb - set on_path"
    using 2 by auto
  then have "card (class_keys cb - set (on_path @ [cls])) < card (class_keys cb - set on_path)"
    by (rule psubset_card_mono [rotated]) (simp add: class_keys_def)
  then show ?case by simp
qed simp_all

declare linearize.simps [simp del]

definition c3_linearize :: "class_bases \<Rightarrow> modname \<Rightarrow> modname list" where
  "c3_linearize cb cls = fst (linearize cb cls Map.empty [])"

section \<open>What every merge gives\<close>

lemma c3_merge_Nil [simp]: "c3_merge [] = []"
  by (simp add: c3_merge.simps)

lemma set_remove_front: "set seq \<subseteq> insert h (set (remove_front h seq))"
  "set (remove_front h seq) \<subseteq> set seq"
  by (cases seq; auto simp: remove_front_def)+

lemma set_c3_merge: "set (c3_merge sequences) = \<Union> (set ` set sequences)"
proof (induction sequences rule: c3_merge.induct)
  case (1 sequences)
  define live where "live = filter (\<lambda>seq. seq \<noteq> []) sequences"
  have live: "\<Union> (set ` set sequences) = \<Union> (set ` set live)" by (auto simp: live_def)
  show ?case
  proof (cases "live = []")
    case True
    then show ?thesis by (simp add: c3_merge.simps [of sequences] live flip: live_def)
  next
    case False
    let ?h = "merge_head live"
    have IH: "set (c3_merge (map (remove_front ?h) live)) = \<Union> (set ` set (map (remove_front ?h) live))"
      using 1 [of live] False by (simp add: live_def)
    obtain seq where seq: "seq \<in> set live" "?h = hd seq"
      using merge_head_in_heads [OF False] by auto
    then have "seq \<noteq> []" by (simp add: live_def)
    then have "?h \<in> set seq" using seq(2) by simp
    then have "?h \<in> \<Union> (set ` set live)" using seq(1) by auto
    then have "insert ?h (\<Union> (set ` set (map (remove_front ?h) live))) = \<Union> (set ` set live)"
      using set_remove_front(1) [where h = ?h] set_remove_front(2) [where h = ?h] by fastforce
    then show ?thesis
      using IH False by (simp add: c3_merge.simps [of sequences] live Let_def flip: live_def)
  qed
qed

section \<open>Merging consistent sequences\<close>

text \<open>
  Sequences are consistent when their orders do not contradict each other: some rank of the
  classes increases along every one of them.
\<close>

definition ordered_by :: "(modname \<Rightarrow> nat) \<Rightarrow> modname list list \<Rightarrow> bool" where
  "ordered_by rank sequences \<longleftrightarrow> list_all (sorted_wrt (\<lambda>a b. rank a < rank b)) sequences"

lemma good_head:
  assumes "ordered_by rank live" "[] \<notin> set live" "live \<noteq> []"
  shows "\<forall>seq\<in>set live. merge_head live \<notin> set (tl seq)"
proof -
  let ?P = "\<lambda>head. \<not> list_ex (\<lambda>seq. head \<in> set (tl seq)) live"
  let ?m = "Min (rank ` set (map hd live))"
  have "?m \<in> rank ` set (map hd live)" using assms(3) by (intro Min_in) auto
  then obtain seq where m: "seq \<in> set live" "rank (hd seq) = ?m" by auto
  have "?P (hd seq)"
  proof -
    have "hd seq \<notin> set (tl seq')" if "seq' \<in> set live" for seq'
    proof
      assume "hd seq \<in> set (tl seq')"
      moreover have "seq' \<noteq> []" using assms(2) that by metis
      moreover from this obtain x xs where "seq' = x # xs" by (cases seq') auto
      moreover from this have "?m \<le> rank x" using that by (intro Min_le) force+
      moreover have "sorted_wrt (\<lambda>a b. rank a < rank b) seq'"
        using assms(1) that by (simp add: ordered_by_def list_all_iff)
      ultimately have "?m \<le> rank x" "rank x < rank (hd seq)" by auto
      then show False by (simp only: m(2) not_less)
    qed
    then show ?thesis by (auto simp: list_ex_iff)
  qed
  then have "find_first ?P (map hd live) \<noteq> None"
    using m(1) unfolding find_first_None_iff by auto
  then obtain h where "find_first ?P (map hd live) = Some h" by auto
  moreover from find_first_SomeD [OF this] have "?P h" by blast
  ultimately show ?thesis by (auto simp: merge_head_def list_ex_iff)
qed

lemma ordered_remove_front:
  assumes "ordered_by rank sequences"
  shows "ordered_by rank (map (remove_front h) sequences)"
proof -
  have "sorted_wrt R (remove_front h seq)" if "sorted_wrt R seq" for R :: "modname \<Rightarrow> modname \<Rightarrow> bool" and seq
    using that by (cases seq) (simp_all add: remove_front_def)
  with assms show ?thesis by (simp add: ordered_by_def list_all_iff)
qed

lemma ordered_distinct: "ordered_by rank sequences \<Longrightarrow> seq \<in> set sequences \<Longrightarrow> distinct seq"
  by (auto simp: ordered_by_def list_all_iff sorted_wrt_iff_nth_less distinct_conv_nth)
     (metis linorder_neqE_nat order_less_irrefl)

lemma c3_merge_ordered:
  assumes "ordered_by rank sequences"
  shows "(\<forall>seq\<in>set sequences. subseq seq (c3_merge sequences)) \<and> distinct (c3_merge sequences)"
  using assms
proof (induction sequences rule: c3_merge.induct)
  case (1 sequences)
  define live where "live = filter (\<lambda>seq. seq \<noteq> []) sequences"
  have live: "ordered_by rank live" "[] \<notin> set live"
    using 1(2) by (auto simp: live_def ordered_by_def list_all_iff)
  show ?case
  proof (cases "live = []")
    case True
    then have "\<forall>seq\<in>set sequences. seq = []" by (simp add: live_def filter_empty_conv)
    with True show ?thesis by (auto simp: c3_merge.simps [of sequences] simp flip: live_def)
  next
    case False
    let ?h = "merge_head live"
    let ?rest = "map (remove_front ?h) live"
    have result: "c3_merge sequences = ?h # c3_merge ?rest"
      using False by (simp add: c3_merge.simps [of sequences] Let_def flip: live_def)
    have IH: "\<forall>seq\<in>set ?rest. subseq seq (c3_merge ?rest)" "distinct (c3_merge ?rest)"
      using 1(1) [OF live_def] False ordered_remove_front [OF live(1)] by auto
    have good: "?h \<notin> set (tl seq)" if "seq \<in> set live" for seq
      using good_head [OF live False] that by blast
    then have "?h \<notin> set seq" if "seq \<in> set ?rest" for seq
      using that live(2) by (auto simp: remove_front_def) (metis list.set_sel(1) set_ConsD list.collapse)
    then have "?h \<notin> set (c3_merge ?rest)" by (auto simp: set_c3_merge)
    moreover have "subseq seq (?h # c3_merge ?rest)" if "seq \<in> set live" for seq
    proof -
      have sub: "subseq (remove_front ?h seq) (c3_merge ?rest)" using IH(1) that by simp
      have "seq \<noteq> []" using that live(2) by metis
      then obtain x xs where "seq = x # xs" by (cases seq) auto
      with sub show ?thesis by (cases "x = ?h") (simp_all add: remove_front_def)
    qed
    moreover have "seq \<in> set live \<or> seq = []" if "seq \<in> set sequences" for seq
      using that by (auto simp: live_def)
    ultimately show ?thesis
      using IH(2) unfolding result by (auto intro: list_emb_Nil)
  qed
qed

section \<open>Every linearization\<close>

lemma add_candidates_eq: "add_candidates = small_extend"
  by (intro ext) (simp add: add_candidates_def small_extend_def small_insert_def)

definition base_rel :: "class_bases \<Rightarrow> (modname \<times> modname) set" where
  "base_rel cb = {(c, b). \<exists>bases. map_of cb c = Some bases \<and> b \<in> set bases}"

definition mro_ok :: "class_bases \<Rightarrow> modname \<Rightarrow> modname list \<Rightarrow> bool" where
  "mro_ok cb cls mro \<longleftrightarrow>
     mro \<noteq> [] \<and> hd mro = cls \<and> distinct mro \<and> (\<forall>b\<in>set mro. (cls, b) \<in> (base_rel cb)\<^sup>*)"

definition memo_ok :: "class_bases \<Rightarrow> mro_memo \<Rightarrow> bool" where
  "memo_ok cb memo \<longleftrightarrow> (\<forall>c L. memo c = Some L \<longrightarrow> mro_ok cb c L)"

lemma mro_ok_leaf: "mro_ok cb cls [cls]"
  by (simp add: mro_ok_def)

lemma hd_small_extend: "xs \<noteq> [] \<Longrightarrow> hd (small_extend xs ys) = hd xs"
  by (induction ys arbitrary: xs) (auto simp: small_extend_Cons small_insert_def)

lemma list_all2_right: "list_all2 P xs ys \<Longrightarrow> y \<in> set ys \<Longrightarrow> \<exists>x\<in>set xs. P x y"
  by (induction rule: list_all2_induct) auto

lemma mro_ok_node:
  assumes "map_of cb cls = Some bases" "list_all2 (mro_ok cb) bases seqs"
  shows "mro_ok cb cls (add_candidates [cls] (c3_merge (seqs @ [bases])))"
proof -
  have base: "(cls, b) \<in> base_rel cb" if "b \<in> set bases" for b
    using assms(1) that by (auto simp: base_rel_def)
  have "(cls, b) \<in> (base_rel cb)\<^sup>*" if seq: "seq \<in> set seqs" and b: "b \<in> set seq" for seq b
  proof -
    obtain c where "c \<in> set bases" "mro_ok cb c seq"
      using list_all2_right [OF assms(2) seq] by blast
    then show ?thesis using base b by (auto simp: mro_ok_def intro: converse_rtrancl_into_rtrancl)
  qed
  then have "\<forall>b\<in>set (c3_merge (seqs @ [bases])). (cls, b) \<in> (base_rel cb)\<^sup>*"
    using base by (auto simp: set_c3_merge)
  moreover have "small_extend [cls] ys \<noteq> []" for ys by (simp add: small_extend_eq_Nil)
  ultimately show ?thesis
    by (simp add: mro_ok_def add_candidates_eq hd_small_extend)
qed

lemma linearize_ok:
  "memo_ok cb memo \<Longrightarrow> linearize cb cls memo path = (mro, memo') \<Longrightarrow>
     mro_ok cb cls mro \<and> memo_ok cb memo'"
  "memo_ok cb memo \<Longrightarrow> linearize_all cb bases memo path = (seqs, memo') \<Longrightarrow>
     list_all2 (mro_ok cb) bases seqs \<and> memo_ok cb memo'"
proof (induction cb cls memo path and cb bases memo path arbitrary: mro memo' and seqs memo'
    rule: linearize_linearize_all.induct)
  case (1 cb cls memo path)
  show ?case
  proof (cases "memo cls = None \<and> cls \<notin> set path \<and> (\<exists>bases. map_of cb cls = Some bases \<and> bases \<noteq> [])")
    case True
    then obtain bases where bases: "map_of cb cls = Some bases" "bases \<noteq> []" by blast
    obtain seqs memo1 where all: "linearize_all cb bases memo (path @ [cls]) = (seqs, memo1)"
      by (cases "linearize_all cb bases memo (path @ [cls])")
    have "list_all2 (mro_ok cb) bases seqs \<and> memo_ok cb memo1"
      using 1(1) [OF _ _ bases] True 1(2) all by simp
    moreover from this have "mro_ok cb cls (add_candidates [cls] (c3_merge (seqs @ [bases])))"
      by (intro mro_ok_node [OF bases(1)]) simp
    ultimately show ?thesis
      using 1(3) True bases all
      by (auto simp: linearize.simps Let_def memo_ok_def split: if_splits)
  next
    case False
    with 1(2,3) show ?thesis
      by (auto simp: linearize.simps mro_ok_leaf memo_ok_def split: option.splits if_splits)
  qed
next
  case (2 cb memo path)
  then show ?case by simp
next
  case (3 cb base bases memo path)
  obtain s memo1 where s: "linearize cb base memo path = (s, memo1)"
    by (cases "linearize cb base memo path")
  obtain ss memo2 where ss: "linearize_all cb bases memo1 path = (ss, memo2)"
    by (cases "linearize_all cb bases memo1 path")
  have "mro_ok cb base s \<and> memo_ok cb memo1" using 3(1) [OF 3(3) s] .
  moreover from this have "list_all2 (mro_ok cb) bases ss \<and> memo_ok cb memo2"
    using 3(2) [OF s [symmetric] _ ss] by blast
  ultimately show ?case using 3(4) s ss by auto
qed

section \<open>The C3 rule\<close>

text \<open>
  The rule as Python documents it, stated on its own. The heads of the sequences, and the classes
  that still have to wait because some sequence has them behind its head.
\<close>

definition heads :: "modname list list \<Rightarrow> modname list" where
  "heads seqs = concat (map (take 1) seqs)"

definition waits :: "modname list list \<Rightarrow> modname \<Rightarrow> bool" where
  "waits seqs c \<longleftrightarrow> (\<exists>x xs. x # xs \<in> set seqs \<and> c \<in> set xs)"

text \<open>
  The next class is the first head that need not wait. When all wait the hierarchy has no C3 order,
  which Python refuses; the code then takes the first head.
\<close>

inductive c3_next :: "modname list list \<Rightarrow> modname \<Rightarrow> bool" for seqs where
  free: "heads seqs = us @ h # vs \<Longrightarrow> \<not> waits seqs h \<Longrightarrow> \<forall>u\<in>set us. waits seqs u \<Longrightarrow> c3_next seqs h"
| forced: "heads seqs = h # vs \<Longrightarrow> \<forall>u\<in>set (heads seqs). waits seqs u \<Longrightarrow> c3_next seqs h"

fun behind :: "modname \<Rightarrow> modname list \<Rightarrow> modname list" where
  "behind h [] = []"
| "behind h (x # xs) = (if x = h then xs else x # xs)"

inductive c3_merged :: "modname list list \<Rightarrow> modname list \<Rightarrow> bool" where
  finished: "heads seqs = [] \<Longrightarrow> c3_merged seqs []"
| taken: "c3_next seqs h \<Longrightarrow> c3_merged (map (behind h) seqs) out \<Longrightarrow> c3_merged seqs (h # out)"

inductive_cases c3_next_E: "c3_next seqs h"

text \<open>Each class where it occurs first.\<close>

definition first_occurrences :: "modname list \<Rightarrow> modname list" where
  "first_occurrences cs = rev (remdups (rev cs))"

text \<open>The linearization of a class: the class, then the merge of those of its bases and of the bases.\<close>

inductive is_mro :: "class_bases \<Rightarrow> modname \<Rightarrow> modname list \<Rightarrow> bool" for cb where
  leaf: "map_of cb cls = None \<or> map_of cb cls = Some [] \<Longrightarrow> is_mro cb cls [cls]"
| node: "map_of cb cls = Some bases \<Longrightarrow> bases \<noteq> [] \<Longrightarrow> list_all2 (is_mro cb) bases seqs \<Longrightarrow>
    c3_merged (seqs @ [bases]) merged \<Longrightarrow> is_mro cb cls (first_occurrences (cls # merged))"

subsection \<open>The merge follows the rule\<close>

lemma heads_live: "heads seqs = map hd (filter (\<lambda>seq. seq \<noteq> []) seqs)"
  unfolding heads_def
proof (induction seqs)
  case (Cons s seqs)
  then show ?case by (cases s) simp_all
qed simp

lemma waits_live: "waits seqs c \<longleftrightarrow> list_ex (\<lambda>seq. c \<in> set (tl seq)) (filter (\<lambda>seq. seq \<noteq> []) seqs)"
proof
  assume "waits seqs c"
  then obtain x xs where "x # xs \<in> set seqs" "c \<in> set xs" by (auto simp: waits_def)
  then show "list_ex (\<lambda>seq. c \<in> set (tl seq)) (filter (\<lambda>seq. seq \<noteq> []) seqs)"
    by (auto simp: list_ex_iff intro!: bexI [of _ "x # xs"])
next
  assume "list_ex (\<lambda>seq. c \<in> set (tl seq)) (filter (\<lambda>seq. seq \<noteq> []) seqs)"
  then obtain seq where seq: "seq \<in> set seqs" "seq \<noteq> []" "c \<in> set (tl seq)" by (auto simp: list_ex_iff)
  then have "hd seq # tl seq \<in> set seqs" by simp
  with seq(3) show "waits seqs c" unfolding waits_def by blast
qed

lemma behind_remove_front: "behind h seq = remove_front h seq"
  by (cases seq) (simp_all add: remove_front_def)

lemma next_unique: "c3_next seqs h \<Longrightarrow> c3_next seqs h' \<Longrightarrow> h = h'"
proof -
  have first: "find_first (\<lambda>c. \<not> waits seqs c) (us @ x # vs) = Some x"
    if "\<not> waits seqs x" "\<forall>u\<in>set us. waits seqs u" for us x vs
    using that by (induction us) auto
  have "c3_next seqs h \<Longrightarrow> h = (case find_first (\<lambda>c. \<not> waits seqs c) (heads seqs) of Some x \<Rightarrow> x | None \<Rightarrow> hd (heads seqs))" for h
    by (erule c3_next_E) (auto simp: first find_first_None_iff split: option.split dest!: find_first_SomeD)
  then show "c3_next seqs h \<Longrightarrow> c3_next seqs h' \<Longrightarrow> h = h'" by blast
qed

lemma c3_merged_unique: "c3_merged seqs out \<Longrightarrow> c3_merged seqs out' \<Longrightarrow> out = out'"
proof (induction arbitrary: out' rule: c3_merged.induct)
  case (finished seqs)
  from finished(2) show ?case using finished(1) by cases (auto elim: c3_next_E)
next
  case (taken seqs h out)
  from taken(4) show ?case
  proof cases
    case finished
    with taken(1) show ?thesis by (auto elim: c3_next_E)
  next
    case (taken h' rest)
    then show ?thesis using next_unique \<open>c3_next seqs h\<close> taken.IH by blast
  qed
qed

lemma merge_head_next:
  assumes "live = filter (\<lambda>seq. seq \<noteq> []) seqs" "live \<noteq> []"
  shows "c3_next seqs (merge_head live)"
proof -
  have heads: "heads seqs = map hd live" and waits: "waits seqs c \<longleftrightarrow> list_ex (\<lambda>seq. c \<in> set (tl seq)) live" for c
    using assms(1) by (simp_all add: heads_live waits_live)
  show ?thesis
  proof (cases "find_first (\<lambda>c. \<not> waits seqs c) (heads seqs)")
    case None
    then have "merge_head live = hd (heads seqs)"
      using assms(2) by (simp add: merge_head_def heads waits hd_map)
    moreover have "heads seqs \<noteq> []" using assms(2) by (simp add: heads)
    ultimately show ?thesis
      using None by (auto simp: find_first_None_iff intro!: c3_next.forced [of _ _ "tl (heads seqs)"])
  next
    case (Some h)
    then have "merge_head live = h" by (simp add: merge_head_def heads waits)
    with find_first_split [OF Some] show ?thesis by (auto intro: c3_next.free)
  qed
qed

lemma c3_merged_same_live:
  "c3_merged seqs out \<Longrightarrow> filter (\<lambda>s. s \<noteq> []) seqs = filter (\<lambda>s. s \<noteq> []) seqs' \<Longrightarrow> c3_merged seqs' out"
proof (induction arbitrary: seqs' rule: c3_merged.induct)
  case (finished seqs)
  then show ?case by (intro c3_merged.finished) (simp add: heads_live)
next
  case (taken seqs h out)
  have same: "heads seqs = heads seqs'" "waits seqs c \<longleftrightarrow> waits seqs' c" for c
    using taken(4) by (simp_all add: heads_live waits_live)
  have "c3_next seqs' h"
    using taken(1)
  proof cases
    case free
    then show ?thesis unfolding same by (rule c3_next.free)
  next
    case forced
    then show ?thesis unfolding same by (rule c3_next.forced)
  qed
  moreover have live: "filter (\<lambda>s. s \<noteq> []) (map (behind h) ss) =
      filter (\<lambda>s. s \<noteq> []) (map (behind h) (filter (\<lambda>s. s \<noteq> []) ss))" for ss
    by (induction ss) auto
  have "c3_merged (map (behind h) seqs') out"
    by (rule taken.IH) (use taken(4) live in metis)
  ultimately show ?case by (rule c3_merged.taken)
qed

lemma c3_merge_merged: "c3_merged seqs (c3_merge seqs)"
proof (induction seqs rule: c3_merge.induct)
  case (1 seqs)
  define live where "live = filter (\<lambda>seq. seq \<noteq> []) seqs"
  show ?case
  proof (cases "live = []")
    case True
    then have "heads seqs = []" by (simp add: heads_live flip: live_def)
    with True show ?thesis
      by (simp add: c3_merge.simps [of seqs] c3_merged.finished flip: live_def)
  next
    case False
    let ?h = "merge_head live"
    have "c3_merged (map (remove_front ?h) live) (c3_merge (map (remove_front ?h) live))"
      using 1 [OF live_def] False by simp
    then have "c3_merged (map (behind ?h) live) (c3_merge (map (remove_front ?h) live))"
      by (simp add: behind_remove_front [abs_def])
    moreover have "filter (\<lambda>s. s \<noteq> []) (map (behind h) (filter (\<lambda>s. s \<noteq> []) ss)) =
        filter (\<lambda>s. s \<noteq> []) (map (behind h) ss)" for h ss
      by (induction ss) auto
    ultimately have "c3_merged (map (behind ?h) seqs) (c3_merge (map (remove_front ?h) live))"
      using c3_merged_same_live unfolding live_def by blast
    with merge_head_next [OF live_def False] show ?thesis
      using False by (simp add: c3_merge.simps [of seqs] Let_def c3_merged.taken flip: live_def)
  qed
qed

lemma c3_merged_iff: "c3_merged seqs out \<longleftrightarrow> out = c3_merge seqs"
  using c3_merge_merged c3_merged_unique by blast

lemma add_candidates_first: "add_candidates [cls] cs = first_occurrences (cls # cs)"
proof (induction cs rule: rev_induct)
  case Nil
  show ?case by (simp add: add_candidates_def first_occurrences_def)
next
  case (snoc c cs)
  have "add_candidates [cls] (cs @ [c]) = small_insert c (first_occurrences (cls # cs))"
    using snoc by (simp add: add_candidates_def small_insert_def)
  then show ?case by (simp add: first_occurrences_def small_insert_def)
qed

lemma is_mro_node:
  "map_of cb cls = Some bases \<Longrightarrow> bases \<noteq> [] \<Longrightarrow> list_all2 (is_mro cb) bases seqs \<Longrightarrow>
    is_mro cb cls (add_candidates [cls] (c3_merge (seqs @ [bases])))"
  unfolding add_candidates_first by (rule is_mro.node [OF _ _ _ c3_merge_merged])

section \<open>Acyclic hierarchies\<close>

lemma is_mro_unique: "is_mro cb cls mro \<Longrightarrow> is_mro cb cls mro' \<Longrightarrow> mro = mro'"
proof (induction arbitrary: mro' rule: is_mro.induct)
  case (leaf cls)
  from leaf(2) leaf(1) show ?case by cases auto
next
  case (node cls bases seqs merged)
  from node(5) show ?case
  proof cases
    case leaf
    with node show ?thesis by auto
  next
    case (node bases' seqs' merged')
    have same: "bases' = bases" using node(2) \<open>map_of cb cls = Some bases\<close> by simp
    have len: "length seqs = length bases" "length seqs' = length bases"
      using list_all2_lengthD [OF \<open>list_all2 _ bases seqs\<close>] list_all2_lengthD [OF node(4)] same
      by simp_all
    have "seqs ! i = seqs' ! i" if "i < length bases" for i
      using list_all2_nthD [OF \<open>list_all2 _ bases seqs\<close> that] list_all2_nthD [OF node(4), of i]
        same that by blast
    then have "seqs = seqs'" using len by (intro nth_equalityI) simp_all
    with node(1,5) \<open>c3_merged (seqs @ [bases]) merged\<close> same show ?thesis
      using c3_merged_unique by blast
  qed
qed

text \<open>A rank that falls from a class to its bases: the hierarchy has no cycle.\<close>

definition ranked :: "(modname \<Rightarrow> nat) \<Rightarrow> class_bases \<Rightarrow> bool" where
  "ranked rank cb \<longleftrightarrow> list_all (\<lambda>(cls, bases). list_all (\<lambda>b. rank b < rank cls) bases) cb"

lemma rankedD: "ranked rank cb \<Longrightarrow> map_of cb cls = Some bases \<Longrightarrow> b \<in> set bases \<Longrightarrow> rank b < rank cls"
  by (auto simp: ranked_def list_all_iff dest!: map_of_SomeD)

lemma linearize_is_mro:
  "ranked rank cb \<Longrightarrow> \<forall>c L. memo c = Some L \<longrightarrow> is_mro cb c L \<Longrightarrow>
     \<forall>p\<in>set path. rank cls < rank p \<Longrightarrow> linearize cb cls memo path = (mro, memo') \<Longrightarrow>
     is_mro cb cls mro \<and> (\<forall>c L. memo' c = Some L \<longrightarrow> is_mro cb c L)"
  "ranked rank cb \<Longrightarrow> \<forall>c L. memo c = Some L \<longrightarrow> is_mro cb c L \<Longrightarrow>
     \<forall>p\<in>set path. \<forall>b\<in>set bases. rank b < rank p \<Longrightarrow> linearize_all cb bases memo path = (seqs, memo') \<Longrightarrow>
     list_all2 (is_mro cb) bases seqs \<and> (\<forall>c L. memo' c = Some L \<longrightarrow> is_mro cb c L)"
proof (induction cb cls memo path and cb bases memo path arbitrary: mro memo' and seqs memo'
    rule: linearize_linearize_all.induct)
  case (1 cb cls memo path)
  have path: "cls \<notin> set path" using 1(4) by auto
  show ?case
  proof (cases "memo cls = None \<and> (\<exists>bases. map_of cb cls = Some bases \<and> bases \<noteq> [])")
    case True
    then obtain bases where bases: "map_of cb cls = Some bases" "bases \<noteq> []" by blast
    obtain seqs memo1 where all: "linearize_all cb bases memo (path @ [cls]) = (seqs, memo1)"
      by (cases "linearize_all cb bases memo (path @ [cls])")
    have "\<forall>p\<in>set (path @ [cls]). \<forall>b\<in>set bases. rank b < rank p"
      using rankedD [OF 1(2) bases(1)] 1(4) by fastforce
    then have "list_all2 (is_mro cb) bases seqs \<and> (\<forall>c L. memo1 c = Some L \<longrightarrow> is_mro cb c L)"
      using 1(1) [OF _ path bases] True 1(2,3) all by simp
    moreover from this have "is_mro cb cls (add_candidates [cls] (c3_merge (seqs @ [bases])))"
      by (intro is_mro_node [OF bases]) simp
    ultimately show ?thesis
      using 1(5) True bases all path by (auto simp: linearize.simps Let_def split: if_splits)
  next
    case False
    with 1(3,5) path show ?thesis
      by (auto simp: linearize.simps intro: is_mro.leaf split: option.splits if_splits)
  qed
next
  case (2 cb memo path)
  then show ?case by simp
next
  case (3 cb base bases memo path)
  obtain s memo1 where s: "linearize cb base memo path = (s, memo1)"
    by (cases "linearize cb base memo path")
  obtain ss memo2 where ss: "linearize_all cb bases memo1 path = (ss, memo2)"
    by (cases "linearize_all cb bases memo1 path")
  have below: "\<forall>p\<in>set path. rank base < rank p" "\<forall>p\<in>set path. \<forall>b\<in>set bases. rank b < rank p"
    using 3(5) by simp_all
  have "is_mro cb base s \<and> (\<forall>c L. memo1 c = Some L \<longrightarrow> is_mro cb c L)"
    using 3(1) [OF 3(3,4) below(1) s] .
  moreover from this have "list_all2 (is_mro cb) bases ss \<and> (\<forall>c L. memo2 c = Some L \<longrightarrow> is_mro cb c L)"
    using 3(2) [OF s [symmetric] 3(3) _ below(2) ss] by blast
  ultimately show ?case using 3(6) s ss by auto
qed

lemma c3_linearize_is_mro:
  assumes "ranked rank cb" shows "is_mro cb cls (c3_linearize cb cls)"
  using linearize_is_mro(1) [OF assms, of Map.empty "[]" cls]
  by (simp add: c3_linearize_def split: prod.splits) (metis fst_conv surj_pair)

lemma c3_linearize_node:
  assumes "ranked rank cb" "map_of cb cls = Some bases" "bases \<noteq> []"
  shows "c3_linearize cb cls =
    add_candidates [cls] (c3_merge (map (c3_linearize cb) bases @ [bases]))"
proof -
  have "is_mro cb cls (add_candidates [cls] (c3_merge (map (c3_linearize cb) bases @ [bases])))"
    by (rule is_mro_node [OF assms(2,3)])
      (simp add: list_all2_map2 list_all2_same c3_linearize_is_mro [OF assms(1)])
  then show ?thesis
    using c3_linearize_is_mro [OF assms(1)] is_mro_unique by blast
qed

section \<open>Properties\<close>

text \<open>
  Whatever the hierarchy, cyclic and inconsistent ones included, the linearization of a class
  terminates and starts with the class, lists no class twice and lists only the class and its
  ancestors.
\<close>

theorem c3_linearize_ok: "mro_ok cb cls (c3_linearize cb cls)"
  using linearize_ok(1) [of cb Map.empty cls "[]"]
  by (simp add: c3_linearize_def memo_ok_def) (metis surjective_pairing)

text \<open>
  C34: In a hierarchy without cycles the linearization is the one that the C3 rule gives, of which
  there is only one: the class, then the merge of the linearizations of its bases and of the list of
  bases, which repeatedly takes the first head that no sequence has behind its head (and the first
  of all when every head has to wait, where Python refuses the class). The memo table and the guard
  against cycles do not show.
\<close>

theorem c3_linearize_iff:
  assumes "ranked rank cb"
  shows "c3_linearize cb cls = mro \<longleftrightarrow> is_mro cb cls mro"
  using c3_linearize_is_mro [OF assms] is_mro_unique by blast

definition diamond :: class_bases where
  "diamond = [(''D'', [''B'', ''C'']), (''B'', [''A'']), (''C'', [''A''])]"

definition diamond_rank :: "modname \<Rightarrow> nat" where
  "diamond_rank c = (if c = ''D'' then 2 else if c = ''A'' then 0 else 1)"

lemma c3_linearize_iff_witness:
  "is_mro diamond ''D'' [''D'', ''B'', ''C'', ''A'']"
proof -
  have "ranked diamond_rank diamond" by code_simp
  moreover have "c3_linearize diamond ''D'' = [''D'', ''B'', ''C'', ''A'']" by code_simp
  ultimately show ?thesis using c3_linearize_iff by blast
qed

text \<open>
  The linearization respects the orders it is made from. For a class of an acyclic hierarchy
  whose bases and their linearizations do not contradict each other, and which is ranked apart
  from them, the result is the class followed by a merge in which the list of bases and the
  linearization of every base keep their order; so no inherited method is attributed to a class
  that another base shadows.
\<close>

theorem c3_linearize_order:
  assumes "ranked rank cb" "map_of cb cls = Some bases" "bases \<noteq> []"
    and "ordered_by order (map (c3_linearize cb) bases @ [bases])"
  shows "list_all (\<lambda>seq. subseq seq (tl (c3_linearize cb cls)))
    (map (c3_linearize cb) bases @ [bases])"
proof -
  let ?seqs = "map (c3_linearize cb) bases @ [bases]"
  have merged: "\<forall>seq\<in>set ?seqs. subseq seq (c3_merge ?seqs)" "distinct (c3_merge ?seqs)"
    using c3_merge_ordered [OF assms(4)] by blast+
  have desc: "rank b < rank cls" if "(c, b) \<in> (base_rel cb)\<^sup>*" "c \<in> set bases" for c b
    using that
  proof (induction rule: rtrancl_induct)
    case base
    then show ?case using rankedD [OF assms(1,2)] by simp
  next
    case (step y z)
    then show ?case using rankedD [OF assms(1), of y _ z] by (auto simp: base_rel_def)
  qed
  have "cls \<notin> set seq" if "seq \<in> set ?seqs" for seq
  proof
    assume "cls \<in> set seq"
    moreover have "mro_ok cb c (c3_linearize cb c)" for c
      using linearize_ok(1) [of cb Map.empty c "[]"]
      by (simp add: c3_linearize_def memo_ok_def) (metis surjective_pairing)
    ultimately have "rank cls < rank cls"
      using that desc by (auto simp: mro_ok_def)
    then show False by simp
  qed
  then have "cls \<notin> set (c3_merge ?seqs)" by (auto simp: set_c3_merge)
  moreover have "small_extend xs ys = xs @ ys" if "distinct ys" "set xs \<inter> set ys = {}" for xs ys :: "modname list"
    using that by (induction ys arbitrary: xs) (auto simp: small_extend_Cons small_insert_def)
  ultimately have "c3_linearize cb cls = cls # c3_merge ?seqs"
    using merged(2) c3_linearize_node [OF assms(1-3)] by (simp add: add_candidates_eq)
  with merged(1) show ?thesis by (simp add: list_all_iff)
qed

lemma c3_linearize_order_witness:
  "subseq [''B'', ''C''] (tl (c3_linearize diamond ''D'')) \<and>
   subseq (c3_linearize diamond ''C'') (tl (c3_linearize diamond ''D''))"
proof -
  have "ranked diamond_rank diamond" by code_simp
  moreover have "map_of diamond ''D'' = Some [''B'', ''C'']" by code_simp
  moreover have "ordered_by (\<lambda>c. if c = ''B'' then 0 else if c = ''C'' then 1 else 2)
      (map (c3_linearize diamond) [''B'', ''C''] @ [[''B'', ''C'']])" by code_simp
  ultimately show ?thesis
    using c3_linearize_order [of diamond_rank diamond "''D''" "[''B'', ''C'']"]
    by (auto simp del: c3_merge.simps)
qed

end
