(* ===== verification/Exports.thy ===== *)
theory Exports
  imports Import_Graph "HOL-Library.AList"
begin

text \<open>
  The exports of a project (\<open>src/exports.rs\<close>) and the nested maps they are kept in
  (\<open>src/hasher.rs\<close>): what a module defines, what it re-exports, and the chains of re-exports to
  the definition of a name. Hash maps are association lists; a query reads the first entry of a
  key, and an update keeps the keys distinct. Star imports are expanded in \<open>Star_Exports\<close>.
\<close>

section \<open>Nested maps\<close>

definition nested_get :: "('a \<times> ('b \<times> 'c) list) list \<Rightarrow> 'a \<Rightarrow> 'b \<Rightarrow> 'c option" where
  "nested_get m a b = (case map_of m a of None \<Rightarrow> None | Some inner \<Rightarrow> map_of inner b)"

text \<open>\<open>entry(a).or_default().insert(b, c)\<close>\<close>

definition nested_insert ::
  "'a \<Rightarrow> 'b \<Rightarrow> 'c \<Rightarrow> ('a \<times> ('b \<times> 'c) list) list \<Rightarrow> ('a \<times> ('b \<times> 'c) list) list" where
  "nested_insert a b c m =
     AList.update a (AList.update b c (case map_of m a of None \<Rightarrow> [] | Some inner \<Rightarrow> inner)) m"

text \<open>\<open>extend\<close> of a hash map: the later entry of a key stays.\<close>

definition map_extend :: "('k \<times> 'v) list \<Rightarrow> ('k \<times> 'v) list \<Rightarrow> ('k \<times> 'v) list" where
  "map_extend m new = foldl (\<lambda>m (k, v). AList.update k v m) m new"

definition extend_nested ::
  "('a \<times> ('b \<times> 'c) list) list \<Rightarrow> ('a \<times> ('b \<times> 'c) list) list \<Rightarrow> ('a \<times> ('b \<times> 'c) list) list" where
  "extend_nested dst src =
     foldl (\<lambda>m (k, inner).
        case map_of m k of
          Some slot \<Rightarrow> AList.update k (map_extend slot inner) m
        | None \<Rightarrow> AList.update k inner m) dst src"

definition merge_nested_larger ::
  "('a \<times> ('b \<times> 'c) list) list \<Rightarrow> ('a \<times> ('b \<times> 'c) list) list \<Rightarrow> ('a \<times> ('b \<times> 'c) list) list" where
  "merge_nested_larger a b =
     (let (large, small) = (if length a \<ge> length b then (a, b) else (b, a))
      in extend_nested large small)"

named_theorems nested_simps \<open>facts about nested maps\<close>

lemma nested_get_Nil [simp, nested_simps]: "nested_get [] a b = None"
  by (simp add: nested_get_def)

lemma nested_get_insert [simp, nested_simps]:
  "nested_get (nested_insert a b c m) a' b' =
     (if a' = a \<and> b' = b then Some c else nested_get m a' b')"
  by (auto simp: nested_get_def nested_insert_def update_conv' split: option.splits)

lemma map_of_map_extend [simp, nested_simps]:
  "map_of (map_extend m new) k =
     (case map_of (rev new) k of Some v \<Rightarrow> Some v | None \<Rightarrow> map_of m k)"
  by (induction new arbitrary: m) (auto simp: map_extend_def update_conv' map_add_def split: option.splits)

lemma keys_map_extend [simp, nested_simps]:
  "fst ` set (map_extend m new) = fst ` set m \<union> fst ` set new"
  by (induction new arbitrary: m) (simp_all add: map_extend_def dom_update case_prod_unfold)

lemma distinct_map_extend: "distinct (map fst m) \<Longrightarrow> distinct (map fst (map_extend m new))"
  by (induction new arbitrary: m) (auto simp: map_extend_def distinct_update)

lemma distinct_nested_insert: "distinct (map fst m) \<Longrightarrow> distinct (map fst (nested_insert a b c m))"
  by (simp add: nested_insert_def distinct_update)

text \<open>What an extended map holds: the entries of the right side first.\<close>

lemma nested_get_extend [nested_simps]:
  assumes "distinct (map fst src)" "\<And>k inner. (k, inner) \<in> set src \<Longrightarrow> distinct (map fst inner)"
  shows "nested_get (extend_nested dst src) a b =
    (case nested_get src a b of Some v \<Rightarrow> Some v | None \<Rightarrow> nested_get dst a b)"
  using assms
proof (induction src arbitrary: dst)
  case Nil
  then show ?case by (simp add: extend_nested_def)
next
  case (Cons x src)
  obtain k inner where x: "x = (k, inner)" by fastforce
  have inner: "map_of (rev inner) = map_of inner"
    using Cons.prems(2) x by (intro map_of_inject_set [THEN iffD2]) (auto simp flip: rev_map)
  have k: "map_of src k = None" using Cons.prems(1) x by (auto simp: map_of_eq_None_iff)
  have split: "extend_nested dst (x # src) =
      extend_nested (case map_of dst k of Some slot \<Rightarrow> AList.update k (map_extend slot inner) dst
         | None \<Rightarrow> AList.update k inner dst) src"
    by (simp add: extend_nested_def x)
  show ?case
    unfolding split using Cons.prems
    by (subst Cons.IH) (auto simp: x nested_get_def update_conv' k inner split: option.splits)
qed

section \<open>Attributes and the tables of exports\<close>

datatype attribute = Attribute (att_module: modname) (att_name: string)

definition from_module_name :: "modname \<Rightarrow> attribute" where
  "from_module_name name =
     (case split_attr name of
        Some (module, attr) \<Rightarrow> Attribute module attr
      | None \<Rightarrow> Attribute [] name)"

definition as_module_name :: "attribute \<Rightarrow> modname" where
  "as_module_name a =
     (if att_module a = [] then att_name a else append_str (att_module a) (att_name a))"

datatype export_type = ExportClass | ExportFunction | ExportGlobal

record star_import =
  star_source :: modname
  star_range :: text_range
  is_fallback :: bool

type_synonym re_export_table = "(modname \<times> (string \<times> (attribute \<times> text_range)) list) list"

record exports =
  export_types :: "(modname \<times> export_type) list"
  re_export_table :: re_export_table
  dunder_all_of :: "(modname \<times> string list) list"
  return_types :: "(modname \<times> modname) list"
  star_imports :: "(modname \<times> star_import list) list"

definition empty_exports :: exports where
  "empty_exports =
     \<lparr>export_types = [], re_export_table = [], dunder_all_of = [], return_types = [], star_imports = []\<rparr>"

definition get_re_export :: "exports \<Rightarrow> attribute \<Rightarrow> (attribute \<times> text_range) option" where
  "get_re_export e a = nested_get (re_export_table e) (att_module a) (att_name a)"

definition is_re_export :: "exports \<Rightarrow> attribute \<Rightarrow> bool" where
  "is_re_export e a \<longleftrightarrow> get_re_export e a \<noteq> None"

definition resolve_imported_name :: "exports \<Rightarrow> attribute \<Rightarrow> attribute option" where
  "resolve_imported_name e a = map_option fst (get_re_export e a)"

text \<open>\<open>get_re_exports\<close>: module, attribute and resolution of every entry.\<close>

definition get_re_exports :: "exports \<Rightarrow> (modname \<times> string \<times> attribute \<times> text_range) list" where
  "get_re_exports e =
     concat (map (\<lambda>(module, names). map (\<lambda>(attr, resolved). (module, attr, resolved)) names)
       (re_export_table e))"

definition insert_re_export_entry ::
  "modname \<Rightarrow> string \<Rightarrow> attribute \<Rightarrow> text_range \<Rightarrow> exports \<Rightarrow> exports" where
  "insert_re_export_entry module attr imported rng e =
     e\<lparr>re_export_table := nested_insert module attr (imported, rng) (re_export_table e)\<rparr>"

section \<open>Chains of re-exports\<close>

lemma finite_re_exports: "finite {a. resolve_imported_name e a \<noteq> None}"
proof -
  let ?keys = "(\<lambda>(m, n). Attribute m n) `
    (fst ` set (re_export_table e) \<times> (\<Union>(m, names) \<in> set (re_export_table e). fst ` set names))"
  have "{a. resolve_imported_name e a \<noteq> None} \<subseteq> ?keys"
  proof
    fix a assume "a \<in> {a. resolve_imported_name e a \<noteq> None}"
    then obtain names v where *: "map_of (re_export_table e) (att_module a) = Some names"
      "map_of names (att_name a) = Some v"
      by (auto simp: resolve_imported_name_def get_re_export_def nested_get_def split: option.splits)
    then have "(att_module a, names) \<in> set (re_export_table e)" "(att_name a, v) \<in> set names"
      by (auto dest: map_of_SomeD)
    then have "(att_module a, att_name a) \<in> fst ` set (re_export_table e) \<times>
        (\<Union>(m, names) \<in> set (re_export_table e). fst ` set names)"
      by force
    then show "a \<in> ?keys" by (intro image_eqI [where x = "(att_module a, att_name a)"]) simp_all
  qed
  then show ?thesis by (rule finite_subset) (auto intro!: finite_imageI finite_cartesian_product)
qed

text \<open>
  \<open>resolve_chain\<close> with the lookup its only callers hand it, \<open>resolve_imported_name\<close>. The set of seen
  attributes is a list. A self-loop is entered once more before it is seen, which the second summand
  of the measure counts.
\<close>

function resolve_chain :: "exports \<Rightarrow> attribute \<Rightarrow> attribute list \<Rightarrow> attribute option" where
  "resolve_chain e current seen =
     (case resolve_imported_name e current of
        None \<Rightarrow> Some current
      | Some next \<Rightarrow> if next \<in> set seen then None else resolve_chain e next (current # seen))"
  by pat_completeness auto
termination
proof (relation "measure (\<lambda>(e, current, seen).
    2 * card ({a. resolve_imported_name e a \<noteq> None} - set seen) + (if current \<in> set seen then 1 else 0))",
    goal_cases)
  case (2 e current seen nxt)
  let ?D = "{a. resolve_imported_name e a \<noteq> None}"
  show ?case
  proof (cases "current \<in> set seen")
    case True
    then have "insert current (set seen) = set seen" by blast
    with True 2 show ?thesis by simp
  next
    case False
    with 2(1) have "current \<in> ?D - set seen" by simp
    then have "card (?D - insert current (set seen)) < card (?D - set seen)"
      by (intro psubset_card_mono finite_Diff finite_re_exports) auto
    with False show ?thesis by simp
  qed
qed simp

declare resolve_chain.simps [simp del]

definition resolve_transitive :: "exports \<Rightarrow> attribute \<Rightarrow> attribute option" where
  "resolve_transitive e name = resolve_chain e name []"

text \<open>Where the chain from an attribute ends.\<close>

inductive ends_at :: "exports \<Rightarrow> attribute \<Rightarrow> attribute \<Rightarrow> bool" for e where
  here: "resolve_imported_name e a = None \<Longrightarrow> ends_at e a a"
| hop: "resolve_imported_name e a = Some b \<Longrightarrow> ends_at e b c \<Longrightarrow> ends_at e a c"

inductive_simps ends_at_iff: "ends_at e a c"

definition re_export_hops :: "exports \<Rightarrow> (attribute \<times> attribute) set" where
  "re_export_hops e = {(a, b). resolve_imported_name e a = Some b}"

lemma ends_no_cycle: "ends_at e a c \<Longrightarrow> (a, a) \<notin> (re_export_hops e)\<^sup>+"
proof (induction rule: ends_at.induct)
  case (here a)
  then show ?case by (auto simp: re_export_hops_def dest: tranclD)
next
  case (hop a b c)
  show ?case
  proof
    assume "(a, a) \<in> (re_export_hops e)\<^sup>+"
    then obtain k where "(a, k) \<in> re_export_hops e" "(k, a) \<in> (re_export_hops e)\<^sup>*" by (auto dest: tranclD)
    with hop(1) have "(b, a) \<in> (re_export_hops e)\<^sup>*" by (simp add: re_export_hops_def)
    moreover have "(a, b) \<in> re_export_hops e" using hop(1) by (simp add: re_export_hops_def)
    ultimately have "(b, b) \<in> (re_export_hops e)\<^sup>+" by (rule rtrancl_into_trancl1)
    with hop(3) show False ..
  qed
qed

lemma resolve_chain_sound: "resolve_chain e a seen = Some c \<Longrightarrow> ends_at e a c"
proof (induction e a seen rule: resolve_chain.induct)
  case (1 e current seen)
  show ?case using 1(2)
    by (subst (asm) resolve_chain.simps)
      (auto split: option.splits if_splits intro: ends_at.intros 1(1))
qed

lemma resolve_chain_complete:
  "ends_at e a c \<Longrightarrow> \<forall>x\<in>set seen. (x, a) \<in> (re_export_hops e)\<^sup>+ \<Longrightarrow> resolve_chain e a seen = Some c"
proof (induction arbitrary: seen rule: ends_at.induct)
  case (here a)
  then show ?case by (simp add: resolve_chain.simps)
next
  case (hop a b c)
  have ab: "(a, b) \<in> re_export_hops e" using hop(1) by (simp add: re_export_hops_def)
  have "b \<notin> set seen"
  proof
    assume "b \<in> set seen"
    with hop.prems have "(b, a) \<in> (re_export_hops e)\<^sup>+" by blast
    then have "(b, b) \<in> (re_export_hops e)\<^sup>+" using ab by (rule trancl_into_trancl)
    with ends_no_cycle [OF hop(2)] show False ..
  qed
  moreover have "\<forall>x\<in>set (a # seen). (x, b) \<in> (re_export_hops e)\<^sup>+"
    using ab hop.prems by (auto intro: trancl_into_trancl)
  ultimately show ?case using hop(1) hop(3) by (subst resolve_chain.simps) simp
qed

lemma resolve_transitive_iff: "resolve_transitive e a = Some c \<longleftrightarrow> ends_at e a c"
  unfolding resolve_transitive_def by (auto intro: resolve_chain_sound resolve_chain_complete)

section \<open>Queries\<close>

definition is_class_export :: "exports \<Rightarrow> modname \<Rightarrow> bool" where
  "is_class_export e name \<longleftrightarrow> map_of (export_types e) name = Some ExportClass"

definition is_class :: "exports \<Rightarrow> modname \<Rightarrow> bool" where
  "is_class e name =
     (if is_class_export e name then True
      else (case resolve_transitive e (from_module_name name) of
              Some resolved \<Rightarrow> is_class_export e (as_module_name resolved)
            | None \<Rightarrow> False))"

definition is_known_symbol :: "exports \<Rightarrow> modname \<Rightarrow> bool" where
  "is_known_symbol e name =
     (if map_of (export_types e) name \<noteq> None then True
      else (case resolve_transitive e (from_module_name name) of
              Some resolved \<Rightarrow> map_of (export_types e) (as_module_name resolved) \<noteq> None
            | None \<Rightarrow> False))"

definition is_global :: "exports \<Rightarrow> modname \<Rightarrow> bool" where
  "is_global e name \<longleftrightarrow> map_of (export_types e) name = Some ExportGlobal"

definition is_function :: "exports \<Rightarrow> modname \<Rightarrow> bool" where
  "is_function e name \<longleftrightarrow> map_of (export_types e) name = Some ExportFunction"

definition get_return_type :: "exports \<Rightarrow> modname \<Rightarrow> modname option" where
  "get_return_type e f = map_of (return_types e) f"

definition resolve_return_class :: "exports \<Rightarrow> modname \<Rightarrow> modname option" where
  "resolve_return_class e f =
     (case (case get_return_type e f of
              Some rt \<Rightarrow> Some rt
            | None \<Rightarrow>
                (case resolve_transitive e (from_module_name f) of
                   None \<Rightarrow> None
                 | Some source \<Rightarrow> get_return_type e (as_module_name source))) of
        None \<Rightarrow> None
      | Some rt \<Rightarrow> if is_class e rt then Some rt else None)"

section \<open>Merging the modules\<close>

definition merge_exports :: "exports \<Rightarrow> exports \<Rightarrow> exports" where
  "merge_exports self other =
     \<lparr>export_types = map_extend (export_types self) (export_types other),
      re_export_table = extend_nested (re_export_table self) (re_export_table other),
      dunder_all_of = map_extend (dunder_all_of self) (dunder_all_of other),
      return_types = map_extend (return_types self) (return_types other),
      star_imports = map_extend (star_imports self) (star_imports other)\<rparr>"

definition merge_all_exports :: "exports list \<Rightarrow> exports" where
  "merge_all_exports all_exports = foldl merge_exports empty_exports all_exports"

definition filter_module_re_exports :: "import_graph \<Rightarrow> exports \<Rightarrow> exports" where
  "filter_module_re_exports g e =
     e\<lparr>re_export_table :=
         filter (\<lambda>(_, names). names \<noteq> [])
           (map (\<lambda>(m, names).
               (m, filter (\<lambda>(_, imported, _). \<not> ig_contains g (as_module_name imported)) names))
             (re_export_table e))\<rparr>"

section \<open>What holds of the operations\<close>

text \<open>The keys of the tables are distinct, as in the hash maps they stand for.\<close>

definition exports_ok :: "exports \<Rightarrow> bool" where
  "exports_ok e \<longleftrightarrow>
     distinct (map fst (export_types e)) \<and> distinct (map fst (re_export_table e)) \<and>
     (\<forall>(m, names) \<in> set (re_export_table e). distinct (map fst names)) \<and>
     distinct (map fst (dunder_all_of e)) \<and> distinct (map fst (return_types e)) \<and>
     distinct (map fst (star_imports e))"

lemma exports_ok_empty [simp]: "exports_ok empty_exports"
  by (simp add: exports_ok_def empty_exports_def)

lemma update_values: "(k', v') \<in> set (AList.update k v m) \<Longrightarrow> k' = k \<and> v' = v \<or> (k', v') \<in> set m"
  by (induction m) (auto split: if_splits)

lemma extend_nested_ok:
  "distinct (map fst dst) \<Longrightarrow> \<forall>(m, names) \<in> set dst. distinct (map fst names) \<Longrightarrow>
   \<forall>(m, names) \<in> set src. distinct (map fst names) \<Longrightarrow>
     distinct (map fst (extend_nested dst src)) \<and>
     (\<forall>(m, names) \<in> set (extend_nested dst src). distinct (map fst names))"
proof (induction src arbitrary: dst)
  case Nil
  then show ?case by (simp add: extend_nested_def)
next
  case (Cons x src)
  obtain k inner where x: "x = (k, inner)" by fastforce
  let ?dst = "case map_of dst k of Some slot \<Rightarrow> AList.update k (map_extend slot inner) dst
         | None \<Rightarrow> AList.update k inner dst"
  have split: "extend_nested dst (x # src) = extend_nested ?dst src"
    by (simp add: extend_nested_def x)
  have "distinct (map fst ?dst)"
    using Cons.prems(1) by (simp add: distinct_update split: option.split)
  moreover have "\<forall>(m, names) \<in> set ?dst. distinct (map fst names)"
    using Cons.prems by (auto simp: x distinct_map_extend dest!: update_values map_of_SomeD split: option.splits)
  ultimately show ?case unfolding split using Cons.prems(3) by (intro Cons.IH) auto
qed

lemma merge_exports_ok: "exports_ok a \<Longrightarrow> exports_ok b \<Longrightarrow> exports_ok (merge_exports a b)"
  using extend_nested_ok [of "re_export_table a" "re_export_table b"]
  by (auto simp: exports_ok_def merge_exports_def distinct_map_extend)

lemma merge_exports_foldl_ok:
  "exports_ok acc \<Longrightarrow> \<forall>e\<in>set es. exports_ok e \<Longrightarrow> exports_ok (foldl merge_exports acc es)"
  by (induction es arbitrary: acc) (simp_all add: merge_exports_ok)

lemma merge_all_exports_ok: "\<forall>e\<in>set es. exports_ok e \<Longrightarrow> exports_ok (merge_all_exports es)"
  unfolding merge_all_exports_def by (rule merge_exports_foldl_ok) simp_all

lemma get_re_export_merge:
  assumes "exports_ok b"
  shows "get_re_export (merge_exports a b) n =
    (case get_re_export b n of Some v \<Rightarrow> Some v | None \<Rightarrow> get_re_export a n)"
  unfolding get_re_export_def merge_exports_def exports.simps
  using assms by (intro nested_get_extend) (auto simp: exports_ok_def)

lemma get_re_export_filter:
  assumes "exports_ok e"
  shows "get_re_export (filter_module_re_exports g e) n =
    (case get_re_export e n of
       Some (imported, r) \<Rightarrow> if ig_contains g (as_module_name imported) then None else Some (imported, r)
     | None \<Rightarrow> None)"
proof -
  have inner: "map_of (filter (\<lambda>(_, imported, _). P imported) names) k =
      (case map_of names k of Some (imported, r) \<Rightarrow> if P imported then Some (imported, r) else None | None \<Rightarrow> None)"
    if "distinct (map fst names)" for names :: "(string \<times> attribute \<times> text_range) list" and P k
    using that by (induction names) (auto simp: map_of_eq_None_iff image_iff split: option.splits)
  have outer: "map_of (filter (\<lambda>(_, names). names \<noteq> []) (map (\<lambda>(m, names). (m, f names)) t)) k =
      (case map_of t k of Some names \<Rightarrow> if f names \<noteq> [] then Some (f names) else None | None \<Rightarrow> None)"
    if "distinct (map fst t)" for t :: re_export_table and f k
    using that by (induction t) (auto simp: map_of_eq_None_iff image_iff split: option.splits)
  show ?thesis
  proof (cases "map_of (re_export_table e) (att_module n)")
    case None
    then show ?thesis
      using assms by (simp add: get_re_export_def filter_module_re_exports_def nested_get_def outer exports_ok_def)
  next
    case (Some names)
    then have d: "distinct (map fst names)" "distinct (map fst (re_export_table e))"
      using assms by (auto simp: exports_ok_def dest!: map_of_SomeD)
    have "get_re_export (filter_module_re_exports g e) n =
        map_of (filter (\<lambda>(_, imported, _). \<not> ig_contains g (as_module_name imported)) names) (att_name n)"
      using Some d(2)
      by (simp add: get_re_export_def filter_module_re_exports_def nested_get_def outer)
    also have "\<dots> = (case get_re_export e n of
       Some (imported, r) \<Rightarrow> if ig_contains g (as_module_name imported) then None else Some (imported, r)
     | None \<Rightarrow> None)"
      unfolding inner [OF d(1), where P = "\<lambda>i. \<not> ig_contains g (as_module_name i)"]
      by (auto simp: get_re_export_def nested_get_def Some split: option.splits)
    finally show ?thesis .
  qed
qed

text \<open>\<open>is_class\<close> and \<open>is_known_symbol\<close> are read as a pair: a class is a known symbol.\<close>

lemma is_class_known: "is_class e name \<Longrightarrow> is_known_symbol e name"
  by (auto simp: is_class_def is_known_symbol_def is_class_export_def split: if_splits option.splits)

lemma resolve_return_class_is_class: "resolve_return_class e f = Some c \<Longrightarrow> is_class e c"
  by (auto simp: resolve_return_class_def split: option.splits if_splits)

end
