(* ===== verification/Project_Info.thy ===== *)
theory Project_Info
  imports Cache_Model Mro Exports
begin

text \<open>
  The immutable facts of a project (\<open>src/class.rs\<close>, the tables of \<open>src/module_info.rs\<close> the project
  reads, \<open>src/project/info.rs\<close> and \<open>src/project/builder.rs\<close>). Hash maps are association lists with
  distinct keys and hash sets are lists, in any order; a map collected from pairs keeps the last
  pair of a key. The re-exports are those of \<open>Exports\<close>.
\<close>

section \<open>Classes and definitions\<close>

datatype field_kind =
    InstanceVar | ClassVar | InstanceMethod | ClassMethod | StaticMethod | Property | PropertySetter

record class_info =
  cls_bases :: "modname list"
  cls_metaclass :: "modname option"
  cls_fields :: "(field_kind \<times> string) list"

type_synonym class_table = "(modname \<times> class_info) list"

text \<open>\<open>HashMap::contains_key\<close>, and collecting pairs into a map: the last pair of a key stays.\<close>

definition contains_key :: "('k \<times> 'v) list \<Rightarrow> 'k \<Rightarrow> bool" where
  "contains_key m k \<longleftrightarrow> map_of m k \<noteq> None"

definition collect_map :: "('k \<times> 'v) list \<Rightarrow> ('k \<times> 'v) list" where
  "collect_map ps = foldl (\<lambda>m (k, v). AList.update k v m) [] ps"

definition get_field :: "class_info \<Rightarrow> string \<Rightarrow> field_kind option" where
  "get_field c name = map_option fst (find_first (\<lambda>(_, n). n = name) (cls_fields c))"

definition base_edges :: "class_table \<Rightarrow> class_bases" where
  "base_edges t = map (\<lambda>(name, c). (name, cls_bases c)) (filter (\<lambda>(_, c). cls_bases c \<noteq> []) t)"

definition property_edges :: "class_table \<Rightarrow> (modname \<times> string list) list" where
  "property_edges t =
     filter (\<lambda>(_, properties). properties \<noteq> [])
       (map (\<lambda>(name, c). (name, map snd (filter (\<lambda>(k, _). k = Property) (cls_fields c)))) t)"

text \<open>The keys of \<open>param_names\<close> are the function scopes.\<close>

record definition_table =
  eager_scopes :: "modname list"
  enclosing_functions :: "(modname \<times> modname) list"
  param_names :: "(modname \<times> string list) list"

definition is_function_scope :: "definition_table \<Rightarrow> modname \<Rightarrow> bool" where
  "is_function_scope d sc \<longleftrightarrow> contains_key (param_names d) sc"

definition function_scopes :: "definition_table \<Rightarrow> modname list" where
  "function_scopes d = map fst (param_names d)"

definition position_of :: "'a \<Rightarrow> 'a list \<Rightarrow> nat option" where
  "position_of x xs = find_first (\<lambda>i. xs ! i = x) [0..<length xs]"

definition classify_param :: "definition_table \<Rightarrow> modname \<Rightarrow> string \<Rightarrow> param_position" where
  "classify_param d func_scope param =
     (case map_of (param_names d) func_scope of
        None \<Rightarrow> Unresolved
      | Some names \<Rightarrow>
          (case position_of param names of Some idx \<Rightarrow> Positional idx | None \<Rightarrow> KeywordOnly))"

record analyzed_module =
  module_effects :: module_effects
  definitions :: definition_table
  classes :: class_table
  implicit_import_set :: "modname list"

type_synonym analysis_map = "(modname \<times> analyzed_module) list"

definition resolve_enclosing_module ::
  "modname \<Rightarrow> (modname \<Rightarrow> bool) \<Rightarrow> (modname \<times> string) option" where
  "resolve_enclosing_module sc is_module = enclosing_module sc is_module"

record project_info =
  analysis_map :: analysis_map
  pi_effect_table :: effect_table
  pi_classes :: class_table
  class_bases :: class_bases
  pi_functions :: "(modname \<times> modname) list"
  re_exports :: "(modname \<times> modname) list"
  methods :: "(modname \<times> modname) list"
  nested_functions :: "(modname \<times> modname list) list"
  pi_mutated_params :: "(modname \<times> modname list) list"

section \<open>Merging the modules\<close>

text \<open>
  One module's contribution to the merged effect table: its own scopes, then the effects of each
  eager scope inside a function, bubbled to that function.
\<close>

definition merge_module_effects :: "analyzed_module \<Rightarrow> effect_table \<Rightarrow> effect_table" where
  "merge_module_effects v t =
     (let own = table_merge t (effects (module_effects v));
          defs = definitions v
      in foldl (\<lambda>acc (sc, es).
            case map_of (enclosing_functions defs) sc of
              None \<Rightarrow> acc
            | Some parent \<Rightarrow> if is_function_scope defs sc then acc else amap_extend parent es acc)
          own (effects (module_effects v)))"

definition merge_all_effects :: "analysis_map \<Rightarrow> effect_table" where
  "merge_all_effects am = foldl (\<lambda>t (_, v). merge_module_effects v t) [] am"

definition merge_all_classes :: "analysis_map \<Rightarrow> class_table" where
  "merge_all_classes am = collect_map (concat (map (\<lambda>(_, v). classes v) am))"

text \<open>\<open>parent\<close> is \<open>ModuleName::parent\<close> of \<open>pyrefly\<close>: the name without its last part.\<close>

definition build_nested_functions_map ::
  "(modname \<Rightarrow> modname option) \<Rightarrow> analysis_map \<Rightarrow> (modname \<times> modname list) list" where
  "build_nested_functions_map parent_name am =
     foldl (\<lambda>m (child, parent). amap_push parent child m) []
       (concat (map (\<lambda>(_, v).
          filter (\<lambda>(child, parent). is_function_scope (definitions v) child \<and> parent_name child = Some parent)
            (enclosing_functions (definitions v))) am))"

definition merge_all_functions :: "analysis_map \<Rightarrow> (modname \<times> modname) list" where
  "merge_all_functions am =
     collect_map (concat (map (\<lambda>(m, v). map (\<lambda>f. (f, m)) (function_scopes (definitions v))) am))"

definition merge_all_methods :: "analysis_map \<Rightarrow> (modname \<times> modname) list" where
  "merge_all_methods am =
     collect_map (concat (map (\<lambda>(_, v). indirectly_called_methods (module_effects v)) am))"

text \<open>The re-exports under their own names, and the callables their chains end in.\<close>

definition remove_unsafe_re_exports ::
  "effect_table \<Rightarrow> (modname \<times> modname) list \<Rightarrow> (modname \<times> modname) list" where
  "remove_unsafe_re_exports t names =
     foldl (\<lambda>m e. AList.delete (eff_name e) m) names
       (filter (\<lambda>e. eff_kind e = ImportedVarReassignment) (concat (map snd t)))"

definition collect_re_exports ::
  "exports \<Rightarrow> effect_table \<Rightarrow> (modname \<times> modname) list \<Rightarrow> class_table \<Rightarrow>
     (modname \<times> modname) list" where
  "collect_re_exports exports t funs cls =
     remove_unsafe_re_exports t
       (collect_map (map (\<lambda>(module, attr, imported, _).
          let name = append_str module attr in
          (name, case map_option as_module_name (resolve_transitive exports imported) of
             Some s \<Rightarrow> if contains_key funs s \<or> contains_key cls s then s else name
           | None \<Rightarrow> name)) (get_re_exports exports)))"

end
