(* ===== verification/Dispatch.thy ===== *)
theory Dispatch
  imports Project_Info
begin

text \<open>
  Which functions a call may run (\<open>src/project/dispatch.rs\<close>): the syntactic candidates of a
  constructor call, the callees a call effect binds its arguments to, and the resolution of a
  name through re-exports and up the method resolution order. The iterators are lists.
\<close>

section \<open>Syntactic candidates\<close>

definition METACLASS_CREATION_METHODS :: "string list" where
  "METACLASS_CREATION_METHODS = [''__new__'', ''__init__'']"

definition metaclass_of :: "class_table \<Rightarrow> modname \<Rightarrow> modname option" where
  "metaclass_of cs cls = (case map_of cs cls of None \<Rightarrow> None | Some c \<Rightarrow> cls_metaclass c)"

definition constructor_method_names :: "modname \<Rightarrow> class_table \<Rightarrow> modname list" where
  "constructor_method_names cls_name cs =
     (case metaclass_of cs cls_name of
        None \<Rightarrow> []
      | Some mcls \<Rightarrow> map (append_str mcls) CONSTRUCTOR_METHODS) @
     map (append_str cls_name) CONSTRUCTOR_METHODS"

definition method_receiver_offset :: "modname \<Rightarrow> class_table \<Rightarrow> bool \<Rightarrow> nat option" where
  "method_receiver_offset method cs bound =
     (case split_attr method of
        None \<Rightarrow> None
      | Some (cls, leaf) \<Rightarrow>
          (case map_of cs cls of
             None \<Rightarrow> None
           | Some c \<Rightarrow>
               (case get_field c leaf of
                  Some StaticMethod \<Rightarrow> Some 0
                | Some ClassMethod \<Rightarrow> Some 1
                | Some InstanceMethod \<Rightarrow> Some (if bound then 1 else 0)
                | _ \<Rightarrow> None)))"

text \<open>Each callee with the number of implicit leading parameters.\<close>

definition iter_callees :: "effect \<Rightarrow> class_table \<Rightarrow> (modname \<times> nat) list" where
  "iter_callees eff cs =
     (let name = eff_name eff; k = eff_kind eff;
          is_method = (k = MethodCall \<or> k = UnboundMethodCall \<or> k = SuperMethodCall);
          is_constructor = (\<not> is_method \<and> contains_key cs name)
      in if is_constructor then map (\<lambda>m. (m, 1)) (constructor_method_names name cs)
         else if k = MethodCall \<or> k = SuperMethodCall then
           [(name, case method_receiver_offset name cs True of Some offset \<Rightarrow> offset | None \<Rightarrow> 1)]
         else if k = UnboundMethodCall then
           (case method_receiver_offset name cs False of
              Some offset \<Rightarrow> [(name, offset)]
            | None \<Rightarrow> [(name, 0), (name, 1)])
         else [(name, 0)])"

section \<open>Resolution\<close>

definition is_definition :: "project_info \<Rightarrow> modname \<Rightarrow> bool" where
  "is_definition p name \<longleftrightarrow> contains_key (pi_functions p) name \<or> contains_key (pi_classes p) name"

definition call_name :: "project_info \<Rightarrow> modname \<Rightarrow> modname" where
  "call_name p name = (case map_of (methods p) name of None \<Rightarrow> name | Some n \<Rightarrow> n)"

definition contains_callable :: "project_info \<Rightarrow> modname \<Rightarrow> bool" where
  "contains_callable p name \<longleftrightarrow>
     (if is_definition p name then True
      else if is_definition p (call_name p name) then True
      else contains_key (re_exports p) (call_name p name))"

definition resolve_inherited :: "project_info \<Rightarrow> modname \<Rightarrow> string \<Rightarrow> modname option" where
  "resolve_inherited p cls method =
     (if \<not> contains_key (class_bases p) cls then None
      else find_first (contains_callable p)
             (map (\<lambda>base. append_str base method) (drop 1 (c3_linearize (class_bases p) cls))))"

definition resolve_callable :: "project_info \<Rightarrow> modname \<Rightarrow> modname option" where
  "resolve_callable p name =
     (if is_definition p name then Some name
      else if is_definition p (call_name p name) then Some (call_name p name)
      else
        (case map_of (re_exports p) (call_name p name) of
           Some target \<Rightarrow> Some target
         | None \<Rightarrow>
             (case split_attr name of
                None \<Rightarrow> None
              | Some (cls, method) \<Rightarrow>
                  if contains_key (pi_classes p) cls then resolve_inherited p cls method else None)))"

definition resolve_dispatch_above :: "project_info \<Rightarrow> modname \<Rightarrow> modname option" where
  "resolve_dispatch_above p name =
     (case split_attr name of None \<Rightarrow> None | Some (cls, method) \<Rightarrow> resolve_inherited p cls method)"

fun find_map_first :: "('a \<Rightarrow> 'b option) \<Rightarrow> 'a list \<Rightarrow> 'b option" where
  "find_map_first f [] = None"
| "find_map_first f (x # xs) = (case f x of Some y \<Rightarrow> Some y | None \<Rightarrow> find_map_first f xs)"

definition creation_metaclass :: "project_info \<Rightarrow> modname \<Rightarrow> modname option" where
  "creation_metaclass p cls =
     (if \<not> contains_key (class_bases p) cls then metaclass_of (pi_classes p) cls
      else find_map_first (metaclass_of (pi_classes p)) (c3_linearize (class_bases p) cls))"

definition metaclass_creation_callees :: "project_info \<Rightarrow> modname \<Rightarrow> modname list" where
  "metaclass_creation_callees p name =
     (case split_attr name of
        None \<Rightarrow> []
      | Some (cls, _) \<Rightarrow>
          (case creation_metaclass p cls of
             None \<Rightarrow> []
           | Some mcls \<Rightarrow>
               List.map_filter (\<lambda>method. resolve_callable p (append_str mcls method))
                 METACLASS_CREATION_METHODS))"

definition constructor_methods :: "project_info \<Rightarrow> modname \<Rightarrow> modname list" where
  "constructor_methods p cls_name = constructor_method_names cls_name (pi_classes p)"

definition call_graph_target :: "project_info \<Rightarrow> effect \<Rightarrow> (modname \<Rightarrow> bool) \<Rightarrow> modname option" where
  "call_graph_target p eff is_node =
     (if eff_kind eff = SuperMethodCall \<or> eff_kind eff = ClassCreation
        then resolve_dispatch_above p (eff_name eff)
      else if is_node (eff_name eff) then Some (eff_name eff)
      else resolve_callable p (eff_name eff))"

section \<open>Constructor callees for the cache\<close>

definition inherited_constructor_callees :: "project_info \<Rightarrow> modname \<Rightarrow> modname list" where
  "inherited_constructor_callees p cls_name =
     List.map_filter (\<lambda>method.
        case resolve_callable p (append_str cls_name method) of
          None \<Rightarrow> None
        | Some resolved \<Rightarrow> if resolved \<noteq> append_str cls_name method then Some resolved else None)
       CONSTRUCTOR_METHODS"

definition resolve_constructor_callees :: "project_info \<Rightarrow> modname \<Rightarrow> constructor_callees" where
  "resolve_constructor_callees p cls_name =
     (let mcls = metaclass_of (pi_classes p) cls_name;
          metaclass_mask = (case mcls of
             None \<Rightarrow> 0
           | Some m \<Rightarrow> constructor_mask_bits m 0 CONSTRUCTOR_METHODS (contains_callable p));
          own_mask = constructor_mask_bits cls_name (length CONSTRUCTOR_METHODS) CONSTRUCTOR_METHODS
                       (contains_callable p)
      in \<lparr>metaclass = (if metaclass_mask \<noteq> 0 then mcls else None),
          mask = metaclass_mask OR own_mask,
          extra = inherited_constructor_callees p cls_name\<rparr>)"

definition resolved_constructor_callees :: "project_info \<Rightarrow> (modname \<times> constructor_callees) list" where
  "resolved_constructor_callees p =
     filter (\<lambda>(_, r). \<not> callees_empty r)
       (map (\<lambda>(cls, _). (cls, resolve_constructor_callees p cls)) (pi_classes p))"

end
