(* ===== verification/Mutated_Params.thy ===== *)
theory Mutated_Params
  imports Dispatch Import_Graph
begin

text \<open>
  Mutated parameters (\<open>src/project/mutations.rs\<close>): the fixpoint that carries a method call on a
  parameter back to every parameter forwarded to it, the queries on it, and the candidates that are
  deferred to the reduce. The worklist is popped at the head of its list; the parallel folds are
  concatenations in table order.
\<close>

section \<open>Seeds and edges\<close>

type_synonym func_param = "modname \<times> modname"

definition scope_seeds :: "modname \<times> effect list \<Rightarrow> func_param list" where
  "scope_seeds entry =
     (case entry of (sc, effs) \<Rightarrow>
        map (\<lambda>e. (sc, eff_name e)) (filter (\<lambda>e. eff_kind e = ParamMethodCall) effs))"

definition owner_param_names ::
  "(modname \<times> modname) list \<Rightarrow> analysis_map \<Rightarrow> modname \<Rightarrow> string list option" where
  "owner_param_names funs am owner =
     (case map_of funs owner of
        None \<Rightarrow> None
      | Some module \<Rightarrow>
          (case map_of am module of
             None \<Rightarrow> None
           | Some m \<Rightarrow> map_of (param_names (definitions m)) owner))"

text \<open>The parameters of the owner that one forwarded argument may reach.\<close>

fun slot_targets :: "string list option \<Rightarrow> nat \<Rightarrow> arg_slot \<Rightarrow> string list" where
  "slot_targets names arg_offset (SlotKeyword name) = [name]"
| "slot_targets names arg_offset (SlotPositional idx) =
     (case names of
        None \<Rightarrow> []
      | Some ns \<Rightarrow> if idx + arg_offset < length ns then [ns ! (idx + arg_offset)] else [])"
| "slot_targets names arg_offset (SlotStarExpansion start) =
     (case names of None \<Rightarrow> [] | Some ns \<Rightarrow> drop (start + arg_offset) ns)"

definition effect_edges ::
  "(modname \<times> modname) list \<Rightarrow> class_table \<Rightarrow> analysis_map \<Rightarrow> modname \<Rightarrow> effect \<Rightarrow>
     (func_param \<times> func_param) list" where
  "effect_edges funs cs am sc eff =
     (if eff_kind eff = ParamMethodCall then []
      else
        (case effect_call_data eff of
           None \<Rightarrow> []
         | Some call_data \<Rightarrow>
             if forwarded_params call_data = [] then []
             else concat (map (\<lambda>(owner, arg_offset).
                concat (map (\<lambda>(slot, param).
                   map (\<lambda>target. ((owner, target), (sc, param)))
                     (slot_targets (owner_param_names funs am owner) arg_offset slot))
                  (forwarded_params call_data)))
               (iter_callees eff cs))))"

definition all_seeds :: "effect_table \<Rightarrow> func_param list" where
  "all_seeds t = concat (map scope_seeds t)"

definition all_edges ::
  "effect_table \<Rightarrow> (modname \<times> modname) list \<Rightarrow> class_table \<Rightarrow> analysis_map \<Rightarrow>
     (func_param \<times> func_param) list" where
  "all_edges t funs cs am =
     concat (map (\<lambda>(sc, effs). concat (map (effect_edges funs cs am sc) effs)) t)"

section \<open>The fixpoint\<close>

type_synonym mutation_map = "(modname \<times> modname list) list"

definition mark :: "mutation_map \<times> func_param list \<Rightarrow> func_param \<Rightarrow> mutation_map \<times> func_param list" where
  "mark st fp =
     (case (st, fp) of ((mutated, worklist), (f, param)) \<Rightarrow>
        if param \<in> set (amap_get mutated f) then (mutated, worklist)
        else (smap_insert f param mutated, (f, param) # worklist))"

definition dependents_of :: "(func_param \<times> func_param) list \<Rightarrow> func_param \<Rightarrow> func_param list" where
  "dependents_of edges key = map snd (filter (\<lambda>(k, _). k = key) edges)"

definition marked :: "mutation_map \<Rightarrow> func_param set" where
  "marked m = {(f, param). param \<in> set (amap_get m f)}"

lemma mark_facts:
  "marked (fst (mark st fp)) = insert fp (marked (fst st))"
  "set (snd (mark st fp)) = (if fp \<in> marked (fst st) then set (snd st) else insert fp (set (snd st)))"
  "fp \<in> marked (fst st) \<Longrightarrow> mark st fp = st"
  by (cases st; cases fp; auto simp: mark_def marked_def split: if_splits)+

lemma mark_all_facts:
  "marked (fst (foldl mark st fps)) = marked (fst st) \<union> set fps"
  "set (snd (foldl mark st fps)) = set (snd st) \<union> (set fps - marked (fst st))"
  "set fps \<subseteq> marked (fst st) \<Longrightarrow> foldl mark st fps = st"
  by (induction fps arbitrary: st) (auto simp: mark_facts)

function mutation_loop ::
  "(func_param \<times> func_param) list \<Rightarrow> mutation_map \<Rightarrow> func_param list \<Rightarrow> mutation_map" where
  "mutation_loop edges mutated [] = mutated"
| "mutation_loop edges mutated (gq # worklist) =
     (case foldl mark (mutated, worklist) (dependents_of edges gq) of
        (mutated', worklist') \<Rightarrow> mutation_loop edges mutated' worklist')"
  by pat_completeness auto
termination
proof (relation "measures [\<lambda>(edges, m, w). card (set (map snd edges) - marked m), \<lambda>(edges, m, w). length w]",
    goal_cases)
  case (2 edges m gq w m' w')
  let ?T = "set (map snd edges)" and ?D = "set (dependents_of edges gq)"
  have marks: "marked m' = marked m \<union> ?D"
    using mark_all_facts(1) [of "(m, w)" "dependents_of edges gq"] by (simp add: 2 [symmetric])
  have D: "?D \<subseteq> ?T" by (auto simp: dependents_of_def)
  show ?case
  proof (cases "?D \<subseteq> marked m")
    case True
    with mark_all_facts(3) [of "dependents_of edges gq" "(m, w)"] 2 show ?thesis by simp
  next
    case False
    with D marks have "?T - marked m' \<subset> ?T - marked m" by blast
    then have "card (?T - marked m') < card (?T - marked m)" by (rule psubset_card_mono [rotated]) simp
    then show ?thesis by simp
  qed
qed simp

definition compute_mutated_params ::
  "effect_table \<Rightarrow> (modname \<times> modname) list \<Rightarrow> class_table \<Rightarrow> analysis_map \<Rightarrow> mutation_map" where
  "compute_mutated_params t funs cs am =
     (case foldl mark ([], []) (all_seeds t) of
        (mutated, worklist) \<Rightarrow> mutation_loop (all_edges t funs cs am) mutated worklist)"

section \<open>Queries\<close>

definition param_position_of :: "project_info \<Rightarrow> modname \<Rightarrow> modname \<Rightarrow> param_position" where
  "param_position_of p func param =
     (case map_of (analysis_map p) (case map_of (pi_functions p) func of Some m \<Rightarrow> m | None \<Rightarrow> func) of
        Some m \<Rightarrow> classify_param (definitions m) func param
      | None \<Rightarrow> Unresolved)"

definition resolve_cached_mutated_params_for :: "project_info \<Rightarrow> modname \<Rightarrow> mutated_param list option" where
  "resolve_cached_mutated_params_for p func =
     map_option (map (\<lambda>param. \<lparr>mp_name = param, mp_position = param_position_of p func param\<rparr>))
       (map_of (pi_mutated_params p) func)"

definition callee_mutates_imported_arg :: "project_info \<Rightarrow> call_data \<Rightarrow> modname \<Rightarrow> nat \<Rightarrow> bool" where
  "callee_mutates_imported_arg p call_data callee arg_offset =
     (case map_of (pi_mutated_params p) callee of
        None \<Rightarrow> False
      | Some mutated \<Rightarrow>
          hits_any_param (imported_args call_data)
            (map (\<lambda>param. (param, param_position_of p callee param)) mutated) arg_offset)"

definition call_mutates_imported_arg :: "project_info \<Rightarrow> effect \<Rightarrow> bool" where
  "call_mutates_imported_arg p eff =
     (case effect_call_data eff of
        None \<Rightarrow> False
      | Some call_data \<Rightarrow>
          has_unsafe_args call_data \<and>
          list_ex (\<lambda>(callee, offset). callee_mutates_imported_arg p call_data callee offset)
            (iter_callees eff (pi_classes p)))"

definition defers_cross_library_mutation :: "effect \<Rightarrow> bool" where
  "defers_cross_library_mutation eff =
     (case effect_call_data eff of None \<Rightarrow> False | Some d \<Rightarrow> has_unsafe_args d)"

section \<open>Deferred candidates\<close>

definition listed :: "modname list option \<Rightarrow> modname \<Rightarrow> bool" where
  "listed names name = (case names of None \<Rightarrow> False | Some ns \<Rightarrow> name \<in> set ns)"

definition callee_is_unresolved :: "modname \<Rightarrow> modname list option \<Rightarrow> modname list option \<Rightarrow> bool" where
  "callee_is_unresolved callee missing ambiguous =
     (let is_unresolved = (\<lambda>name. listed missing name \<or> listed ambiguous name)
      in is_unresolved callee \<or> list_ex (\<lambda>(parent, _). is_unresolved parent) (iter_parents callee))"

record mutation_candidate_scope =
  ms_module :: modname
  ms_caller :: "modname option"
  ms_missing :: "modname list option"
  ms_ambiguous :: "modname list option"

definition mutation_candidate_scope ::
  "project_info \<Rightarrow> import_graph \<Rightarrow> modname \<Rightarrow> mutation_candidate_scope option" where
  "mutation_candidate_scope p g sc =
     (case (if contains_key (analysis_map p) sc then Some (sc, None)
            else map_option (\<lambda>(module, local). (module, Some local))
                   (resolve_enclosing_module sc (contains_key (analysis_map p)))) of
        None \<Rightarrow> None
      | Some (module, caller) \<Rightarrow>
          if ig_missing g module = None \<and> ig_ambiguous g module = None then None
          else Some \<lparr>ms_module = module, ms_caller = caller, ms_missing = ig_missing g module,
                 ms_ambiguous = ig_ambiguous g module\<rparr>)"

definition effect_candidates ::
  "project_info \<Rightarrow> import_graph \<Rightarrow> modname \<Rightarrow> effect \<Rightarrow> (modname \<times> mutation_candidate) list" where
  "effect_candidates p g sc eff =
     (case eff_data eff of
        NoData \<Rightarrow> []
      | CallData call_data \<Rightarrow>
          if \<not> has_unsafe_args call_data then []
          else List.map_filter (\<lambda>(callee, arg_offset).
            if contains_key (pi_functions p) callee \<or> contains_key (pi_mutated_params p) callee then None
            else
              (case mutation_candidate_scope p g sc of
                 None \<Rightarrow> None
               | Some s \<Rightarrow>
                   if \<not> callee_is_unresolved callee (ms_missing s) (ms_ambiguous s) then None
                   else Some (ms_module s,
                     \<lparr>mc_callee = callee,
                      mc_site = (case ms_caller s of
                         Some name \<Rightarrow> SiteFunction name
                       | None \<Rightarrow> SiteModuleScope (eff_name eff)),
                      mc_arg_offset = arg_offset, mc_imported_args = imported_args call_data,
                      mc_range = eff_range eff, mc_from_main_guard = eff_from_main_guard eff\<rparr>)))
            (iter_callees eff (pi_classes p)))"

definition collect_mutation_candidates ::
  "(string \<Rightarrow> string \<Rightarrow> ordering) \<Rightarrow> project_info \<Rightarrow> import_graph \<Rightarrow>
     (modname \<times> mutation_candidate list) list" where
  "collect_mutation_candidates mcmp p g =
     (let flat = concat (map (\<lambda>(sc, effs). concat (map (effect_candidates p g sc) effs)) (pi_effect_table p));
          sorted = sort_by (\<lambda>(m, c) (m', c'). then_with (mcmp m m') (mutation_candidate_cmp mcmp c c')) flat
      in foldl (\<lambda>acc (m, c). amap_push m c acc) [] sorted)"

section \<open>The project\<close>

definition new_project_info ::
  "(modname \<Rightarrow> modname option) \<Rightarrow> exports \<Rightarrow> analysis_map \<Rightarrow> project_info" where
  "new_project_info parent exports am =
     (let t = merge_all_effects am; funs = merge_all_functions am; cs = merge_all_classes am;
          am' = map (\<lambda>(m, v). (m, v\<lparr>classes := []\<rparr>)) am
      in \<lparr>analysis_map = am', pi_effect_table = t, pi_classes = cs,
          class_bases = collect_map (base_edges cs), pi_functions = funs,
          re_exports = collect_re_exports exports t funs cs, methods = merge_all_methods am,
          nested_functions = build_nested_functions_map parent am,
          pi_mutated_params = compute_mutated_params t funs cs am'\<rparr>)"

section \<open>The fixpoint is the least one\<close>

text \<open>
  \<open>binds\<close> says that a call effect of \<open>f\<close> forwards the parameter \<open>param\<close> of \<open>f\<close> to the parameter
  \<open>q\<close> of \<open>g\<close>; \<open>mutates\<close> is the property the code computes.
\<close>

fun slot_binds :: "string list option \<Rightarrow> nat \<Rightarrow> arg_slot \<Rightarrow> string \<Rightarrow> bool" where
  "slot_binds names off (SlotKeyword name) q \<longleftrightarrow> q = name"
| "slot_binds names off (SlotPositional idx) q \<longleftrightarrow>
     (\<exists>ns. names = Some ns \<and> idx + off < length ns \<and> q = ns ! (idx + off))"
| "slot_binds names off (SlotStarExpansion start) q \<longleftrightarrow>
     (\<exists>ns i. names = Some ns \<and> start + off \<le> i \<and> i < length ns \<and> q = ns ! i)"

definition binds ::
  "(modname \<times> modname) list \<Rightarrow> class_table \<Rightarrow> analysis_map \<Rightarrow> effect \<Rightarrow> modname \<Rightarrow> func_param \<Rightarrow> bool" where
  "binds funs cs am eff param gq \<longleftrightarrow> eff_kind eff \<noteq> ParamMethodCall \<and>
     (\<exists>d off slot. effect_call_data eff = Some d \<and> (fst gq, off) \<in> set (iter_callees eff cs) \<and>
        (slot, param) \<in> set (forwarded_params d) \<and>
        slot_binds (owner_param_names funs am (fst gq)) off slot (snd gq))"

inductive mutates ::
  "effect_table \<Rightarrow> (modname \<times> modname) list \<Rightarrow> class_table \<Rightarrow> analysis_map \<Rightarrow> func_param \<Rightarrow> bool"
  for t funs cs am where
  direct: "(f, effs) \<in> set t \<Longrightarrow> e \<in> set effs \<Longrightarrow> eff_kind e = ParamMethodCall \<Longrightarrow>
     mutates t funs cs am (f, eff_name e)"
| forwarded: "(f, effs) \<in> set t \<Longrightarrow> e \<in> set effs \<Longrightarrow> binds funs cs am e param gq \<Longrightarrow>
     mutates t funs cs am gq \<Longrightarrow> mutates t funs cs am (f, param)"

lemma set_slot_targets: "q \<in> set (slot_targets names off slot) \<longleftrightarrow> slot_binds names off slot q"
proof (cases slot)
  case (SlotStarExpansion start)
  have "q \<in> set (drop n ns) \<longleftrightarrow> (\<exists>i. n \<le> i \<and> i < length ns \<and> q = ns ! i)" for n and ns :: "string list"
  proof
    assume "q \<in> set (drop n ns)"
    then obtain j where "j < length ns - n" "q = ns ! (n + j)" by (auto simp: in_set_conv_nth)
    then show "\<exists>i. n \<le> i \<and> i < length ns \<and> q = ns ! i" by (intro exI [of _ "n + j"]) simp
  next
    assume "\<exists>i. n \<le> i \<and> i < length ns \<and> q = ns ! i"
    then obtain i where "n \<le> i" "i < length ns" "q = ns ! i" by blast
    then show "q \<in> set (drop n ns)"
      by (auto simp: in_set_conv_nth intro!: exI [of _ "i - n"])
  qed
  with SlotStarExpansion show ?thesis by (auto split: option.split)
qed (auto split: option.split)

lemma set_effect_edges:
  "(gq, sp) \<in> set (effect_edges funs cs am sc eff) \<longleftrightarrow> fst sp = sc \<and> binds funs cs am eff (snd sp) gq"
proof -
  obtain g q f param where x: "gq = (g, q)" "sp = (f, param)" by (cases gq; cases sp) simp
  show ?thesis
  proof (cases "effect_call_data eff")
    case None
    then show ?thesis by (simp add: effect_edges_def binds_def)
  next
    case (Some d)
    let ?t = "\<lambda>g off slot. set (slot_targets (owner_param_names funs am g) off slot)"
    have "((g, q), (f, param)) \<in> set (effect_edges funs cs am sc eff) \<longleftrightarrow>
        f = sc \<and> eff_kind eff \<noteq> ParamMethodCall \<and>
        (\<exists>(g', off)\<in>set (iter_callees eff cs). \<exists>(slot, param')\<in>set (forwarded_params d).
           g' = g \<and> param' = param \<and> q \<in> ?t g' off slot)"
      unfolding effect_edges_def using Some by (auto simp: case_prod_unfold)
    also have "\<dots> \<longleftrightarrow> f = sc \<and> eff_kind eff \<noteq> ParamMethodCall \<and>
        (\<exists>off slot. (g, off) \<in> set (iter_callees eff cs) \<and> (slot, param) \<in> set (forwarded_params d) \<and>
           q \<in> ?t g off slot)"
      by (simp add: case_prod_unfold) force
    finally show ?thesis using Some x by (simp add: binds_def set_slot_targets)
  qed
qed

lemma mutation_loop_closed:
  assumes "\<And>a b. (a, b) \<in> set edges \<Longrightarrow> a \<in> marked m \<Longrightarrow> a \<in> set w \<or> b \<in> marked m"
    and "(a, b) \<in> set edges" "a \<in> marked (mutation_loop edges m w)"
  shows "b \<in> marked (mutation_loop edges m w)"
  using assms
proof (induction edges m w rule: mutation_loop.induct)
  case (1 edges m)
  then show ?case by auto
next
  case (2 edges m gq w)
  let ?st = "foldl mark (m, w) (dependents_of edges gq)"
  have marks: "marked (fst ?st) = marked m \<union> set (dependents_of edges gq)"
    "set (snd ?st) = set w \<union> (set (dependents_of edges gq) - marked m)"
    by (simp_all add: mark_all_facts)
  have dep: "b \<in> set (dependents_of edges gq) \<longleftrightarrow> (gq, b) \<in> set edges" for b
    by (force simp: dependents_of_def)
  have "a \<in> set (snd ?st) \<or> b \<in> marked (fst ?st)" if "(a, b) \<in> set edges" "a \<in> marked (fst ?st)" for a b
    using that "2.prems"(1) [of a b] marks dep by auto
  with "2.IH" [OF surjective_pairing [of ?st, symmetric]] "2.prems"(2,3) show ?case by (simp add: case_prod_beta)
qed

lemma mutation_loop_mono: "marked m \<subseteq> marked (mutation_loop edges m w)"
proof (induction edges m w rule: mutation_loop.induct)
  case (2 edges m gq w)
  let ?st = "foldl mark (m, w) (dependents_of edges gq)"
  have "marked m \<subseteq> marked (fst ?st)" by (simp add: mark_all_facts)
  also have "\<dots> \<subseteq> marked (mutation_loop edges (fst ?st) (snd ?st))"
    by (rule "2.IH" [OF surjective_pairing [of ?st, symmetric]])
  finally show ?case by (simp add: case_prod_beta)
qed simp

lemma mutation_loop_sound:
  assumes "x \<in> marked (mutation_loop edges m w)" "\<And>x. x \<in> marked m \<union> set w \<Longrightarrow> P x"
    and "\<And>a b. (a, b) \<in> set edges \<Longrightarrow> P a \<Longrightarrow> P b"
  shows "P x"
  using assms
proof (induction edges m w rule: mutation_loop.induct)
  case (1 edges m)
  then show ?case by simp
next
  case (2 edges m gq w)
  let ?st = "foldl mark (m, w) (dependents_of edges gq)"
  have dep: "(gq, b) \<in> set edges" if "b \<in> set (dependents_of edges gq)" for b
    using that by (auto simp: dependents_of_def)
  have "P y" if y: "y \<in> marked (fst ?st) \<union> set (snd ?st)" for y
  proof (cases "y \<in> set (dependents_of edges gq)")
    case True
    then show ?thesis using "2.prems"(3) [OF dep] "2.prems"(2) [of gq] by simp
  next
    case False
    with y have "y \<in> marked m \<union> set w" by (auto simp: mark_all_facts)
    then show ?thesis using "2.prems"(2) by simp
  qed
  with "2.IH" [OF surjective_pairing [of ?st, symmetric]] "2.prems"(1,3)
  show ?case by (simp add: case_prod_beta)
qed

text \<open>
  C14: The fixpoint of mutated parameters is exact and always ends. A parameter is recorded for a
  function if and only if the function calls a method on it, or forwards it, by keyword, position or
  star expansion, to a recorded parameter of a callee the call binds to.
\<close>

theorem compute_mutated_params_exact:
  "param \<in> set (amap_get (compute_mutated_params t funs cs am) f) \<longleftrightarrow> mutates t funs cs am (f, param)"
proof -
  let ?E = "all_edges t funs cs am"
  obtain m w where mw: "foldl mark ([], []) (all_seeds t) = (m, w)"
    by (cases "foldl mark ([], []) (all_seeds t)") simp
  have start: "marked m = set (all_seeds t)" "set w = set (all_seeds t)"
    using mark_all_facts(1,2) [of "([], [])" "all_seeds t"] mw by (simp_all add: marked_def)
  let ?r = "mutation_loop ?E m w"
  have E: "(gq, (f, param)) \<in> set ?E \<longleftrightarrow> (\<exists>effs e. (f, effs) \<in> set t \<and> e \<in> set effs \<and>
      binds funs cs am e param gq)" for gq f param
    unfolding all_edges_def by (auto simp: set_effect_edges)
  have seed: "(f, param) \<in> set (all_seeds t) \<longleftrightarrow> (\<exists>effs e. (f, effs) \<in> set t \<and> e \<in> set effs \<and>
      eff_kind e = ParamMethodCall \<and> param = eff_name e)" for f param
    by (auto simp: all_seeds_def scope_seeds_def)
  have "mutates t funs cs am fp" if "fp \<in> marked ?r" for fp
  proof -
    have "mutates t funs cs am x" if "x \<in> marked m \<union> set w" for x
      using that start seed by (cases x) (auto intro: mutates.direct)
    moreover have "mutates t funs cs am b" if "(a, b) \<in> set ?E" "mutates t funs cs am a" for a b
      using that E by (cases b) (auto intro: mutates.forwarded)
    ultimately show ?thesis using mutation_loop_sound [OF that, of "mutates t funs cs am"] by blast
  qed
  moreover have "fp \<in> marked ?r" if "mutates t funs cs am fp" for fp
    using that
  proof induction
    case (direct f effs e)
    then have "(f, eff_name e) \<in> marked m" using start seed by blast
    then show ?case using mutation_loop_mono by blast
  next
    case (forwarded f effs e param gq)
    then have "(gq, (f, param)) \<in> set ?E" using E by blast
    then show ?case using mutation_loop_closed [of ?E m w] start forwarded.IH by blast
  qed
  ultimately show ?thesis using mw by (auto simp: compute_mutated_params_def marked_def)
qed

end
