(* ===== verification/Project_State.thy ===== *)
theory Project_State
  imports Mutated_Params
begin

text \<open>
  The records the analysis shares (\<open>GlobalAnalysisState\<close> of \<open>src/project/state.rs\<close>): the verdict
  of each module and of each callable. The concurrent maps are association lists with distinct
  keys; an update is atomic, as it is under the map's lock.
\<close>

type_synonym safety_map = "(modname \<times> safety_result) list"

record analysis_state =
  safety_map :: safety_map
  verdicts :: "(modname \<times> function_safety_info) list"

definition new_analysis_state :: "analysis_map \<Rightarrow> analysis_state" where
  "new_analysis_state am =
     \<lparr>safety_map = map (\<lambda>(m, _). (m, SafetyOk new_module_safety)) am, verdicts = []\<rparr>"

definition set_analysis_error :: "modname \<Rightarrow> string \<Rightarrow> analysis_state \<Rightarrow> analysis_state" where
  "set_analysis_error m e st = st\<lparr>safety_map := AList.update m (AnalysisError e) (safety_map st)\<rparr>"

definition update_module_safety ::
  "modname \<Rightarrow> (module_safety \<Rightarrow> module_safety) \<Rightarrow> analysis_state \<Rightarrow> analysis_state" where
  "update_module_safety m f st =
     (let entry = (case map_of (safety_map st) m of None \<Rightarrow> SafetyOk new_module_safety | Some r \<Rightarrow> r)
      in st\<lparr>safety_map := AList.update m
           (case entry of SafetyOk s \<Rightarrow> SafetyOk (f s) | AnalysisError e \<Rightarrow> AnalysisError e)
           (safety_map st)\<rparr>)"

definition add_error_to_module :: "modname \<Rightarrow> safety_error \<Rightarrow> analysis_state \<Rightarrow> analysis_state" where
  "add_error_to_module m err = update_module_safety m (add_error err)"

definition add_property_candidate_to_module ::
  "modname \<Rightarrow> property_candidate \<Rightarrow> analysis_state \<Rightarrow> analysis_state" where
  "add_property_candidate_to_module m c =
     update_module_safety m (\<lambda>s. s\<lparr>property_candidates := property_candidates s @ [c]\<rparr>)"

definition add_subclass_candidate_to_module ::
  "modname \<Rightarrow> subclass_candidate \<Rightarrow> analysis_state \<Rightarrow> analysis_state" where
  "add_subclass_candidate_to_module m c =
     update_module_safety m (\<lambda>s. s\<lparr>subclass_candidates := subclass_candidates s @ [c]\<rparr>)"

text \<open>The assertion of \<open>add_force_import_override\<close> is the panic; it fires on a module without error.\<close>

definition add_force_imports_eager_override_to_module ::
  "modname \<Rightarrow> safety_error \<Rightarrow> analysis_state \<Rightarrow> analysis_state option" where
  "add_force_imports_eager_override_to_module m err st =
     (case (case map_of (safety_map st) m of None \<Rightarrow> SafetyOk new_module_safety | Some r \<Rightarrow> r) of
        AnalysisError e \<Rightarrow> Some (update_module_safety m id st)
      | SafetyOk s \<Rightarrow>
          map_option (\<lambda>s'. update_module_safety m (\<lambda>_. s') st) (add_force_import_override err s))"

definition add_implicit_imports_to_module ::
  "modname \<Rightarrow> modname list \<Rightarrow> analysis_state \<Rightarrow> analysis_state" where
  "add_implicit_imports_to_module m imports = update_module_safety m (add_implicit_imports imports)"

section \<open>Verdicts of callables\<close>

abbreviation verdict_of :: "analysis_state \<Rightarrow> modname \<Rightarrow> function_safety_info option" where
  "verdict_of st \<equiv> map_of (verdicts st)"

definition set_function_safety ::
  "modname \<Rightarrow> function_safety_info \<Rightarrow> analysis_state \<Rightarrow> analysis_state" where
  "set_function_safety f info st = st\<lparr>verdicts := AList.update f info (verdicts st)\<rparr>"

definition mark_safe :: "modname \<Rightarrow> analysis_state \<Rightarrow> analysis_state" where
  "mark_safe f = set_function_safety f (new_info Safe)"

definition mark_unsafe :: "modname \<Rightarrow> analysis_state \<Rightarrow> analysis_state" where
  "mark_unsafe f = set_function_safety f (new_info Unsafe)"

definition mark_unsafe_missing_dep :: "modname \<Rightarrow> modname \<Rightarrow> analysis_state \<Rightarrow> analysis_state" where
  "mark_unsafe_missing_dep f callee st =
     set_function_safety f
       (case verdict_of st f of
          Some info \<Rightarrow> info\<lparr>verdict := insert_concern (verdict info) UnsafeMissingDep,
            missing_dep_callees := small_insert callee (missing_dep_callees info)\<rparr>
        | None \<Rightarrow> unsafe_missing_dep callee) st"

definition state_is_unsafe :: "modname \<Rightarrow> analysis_state \<Rightarrow> bool" where
  "state_is_unsafe f st =
     (case verdict_of st f of None \<Rightarrow> False | Some info \<Rightarrow> has (verdict info) Unsafe)"

definition mark_unsafe_if_imported :: "modname \<Rightarrow> analysis_state \<Rightarrow> analysis_state" where
  "mark_unsafe_if_imported f st =
     set_function_safety f
       (case verdict_of st f of
          Some info \<Rightarrow> info\<lparr>verdict := insert_concern (verdict info) UnsafeIfImported\<rparr>
        | None \<Rightarrow> new_info UnsafeIfImported) st"

lemma verdict_of_set [simp]:
  "verdict_of (set_function_safety f info st) = (verdict_of st)(f \<mapsto> info)"
  "safety_map (set_function_safety f info st) = safety_map st"
  by (simp_all add: set_function_safety_def update_conv')

lemma verdict_of_update_module [simp]:
  "verdicts (update_module_safety m f st) = verdicts st"
  by (simp add: update_module_safety_def Let_def)

section \<open>What is recorded of a callable\<close>

text \<open>
  The records the map phase writes, one per callable: a well-formed set of concerns, callees to wait
  for exactly when a dependency is missing, and no mutated parameters, which are added last.
\<close>

definition info_ok :: "function_safety_info \<Rightarrow> bool" where
  "info_ok info \<longleftrightarrow> wf_safety (verdict info) \<and>
     (has (verdict info) UnsafeMissingDep \<longleftrightarrow> missing_dep_callees info \<noteq> []) \<and>
     distinct (missing_dep_callees info) \<and> mutated_params info = []"

definition verdicts_ok :: "analysis_state \<Rightarrow> bool" where
  "verdicts_ok st \<longleftrightarrow> distinct (map fst (verdicts st)) \<and>
     (\<forall>f info. verdict_of st f = Some info \<longrightarrow> info_ok info)"

lemma bits_of_concerns [simp]:
  "bit Safe n = False" "bit UnsafeIfImported 0" "\<not> bit UnsafeIfImported (Suc n)"
  "bit UnsafeMissingDep (Suc 0)" "\<not> bit UnsafeMissingDep 0" "\<not> bit UnsafeMissingDep (Suc (Suc n))"
  "bit Unsafe 2" "\<not> bit Unsafe 0" "\<not> bit Unsafe (Suc 0)"
  by (simp_all add: concern_defs bit_simps bit_1_iff flip: exp_eq_0_imp_not_bit)

end
