(* ===== verification/Manual_Override.thy ===== *)
theory Manual_Override
  imports Prelude
begin

text \<open>
  The functions that are declared safe by hand (\<open>src/manual_override.rs\<close>). The lazily built hash
  set of the code is the array it is built from.
\<close>

definition SAFE_FUNCTIONS_ARRAY :: "string list" where
  "SAFE_FUNCTIONS_ARRAY =
    [''_plotly_utils.importers.relative_import'',
     ''libfb.py.lazy_import.lazy_import'',
     ''f3.utils.decorators.cache'',
     ''libfb.py.decorators.lazy_property'',
     ''libfb.py.decorators.memoize_fast'',
     ''libfb.py.decorators.memoize_fast_0'',
     ''libfb.py.decorators.memoize_forever'',
     ''libfb.py.decorators.memoize_timed'',
     ''libfb.py.memoize.memoize_fast'',
     ''libfb.py.memoize.memoize_fast_0'',
     ''libfb.py.memoize.memoize_timed'',
     ''psutil._common.memoize'',
     ''psutil._common.memoize_when_activated'',
     ''collections.abc.Mapping.register'',
     ''collections.abc.Sequence.register'',
     ''collections.abc.Set.register'',
     ''bigcode.bcf.transformers.src.transformers.utils.logging.get_logger'',
     ''f3.logging.basic_logger.F3Logger'',
     ''os.environ.get'',
     ''oci.decorators.init_model_state_from_kwargs'',
     ''pytest.mark.parametrize'',
     ''transformers.utils.logging.get_logger'',
     ''libfb.py.asyncio.decorators.retryable'',
     ''libfb.py.asyncio.decorators.memoize_timed'',
     ''libfb.py.asyncio.decorators.concurrent_memoize'',
     ''tracing.span'',
     ''async_lru.alru_cache'',
     ''confucius.analects.base.agentic_function.agent_function'',
     ''langchain_core.callbacks.manager.shielded'',
     ''langchain_core._api.deprecation.deprecated'',
     ''langchain_core._api.beta_decorator.beta'',
     ''langchain_core.prompts.ChatPromptTemplate.from_messages'',
     ''langchain_core.prompts.ChatPromptTemplate.from_template'',
     ''langchain_core.prompts.PromptTemplate.from_template'',
     ''langchain_core.prompts.PromptTemplate.from_file'',
     ''langchain_core.prompts.prompt.PromptTemplate.from_template'',
     ''langchain_core.prompts.prompt.PromptTemplate.from_file'',
     ''langchain_core.prompts.chat.ChatPromptTemplate.from_messages'',
     ''langchain_core.prompts.chat.HumanMessagePromptTemplate.from_template'',
     ''langchain_core.prompts.chat.SystemMessagePromptTemplate.from_template'',
     ''attr.s'',
     ''attr.attrs'',
     ''_pytest.config.hookimpl'',
     ''decorator.decorator'',
     ''dns._features.have'',
     ''dns.name.from_text'',
     ''dns.name.IDNA2003Codec'',
     ''dns.name.IDNA2008Codec'',
     ''dns.name.Name'',
     ''google.auth._helpers.copy_docstring'',
     ''markdown.util.deprecated'',
     ''model_context_protocol.common.decorators.mcp_client_connect_decorator.mcp_client_connect'',
     ''nltk.internals.deprecated'',
     ''sympy.utilities.decorator.deprecated'',
     ''torch.testing._internal.common_utils.skip_but_pass_in_sandcastle_if'',
     ''transformers.models.auto.configuration_auto.replace_list_option_in_docstrings'',
     ''artillery.artillery2.api.cython.agent_tracing.devmate.decorators.devmate_trace_action'',
     ''artillery.artillery2.api.cython.agent_tracing.devmate.decorators.devmate_trace_step'',
     ''libfb.py.asyncio.await_utils.await_sync_decorator'',
     ''fblearner.flow.util.python_utils.call_with_retries'',
     ''devai.src.core.model.experimental.base.reclassify_class_errors'',
     ''tenacity.retry'',
     ''tenacity.stop.stop_after_attempt'',
     ''tenacity.stop.stop_after_delay'',
     ''tenacity.wait.wait_exponential'',
     ''tenacity.wait.wait_none'',
     ''tenacity.wait.wait_random'',
     ''later.task.TaskSentinel'',
     ''cinder.cached_property'',
     ''cinder.cached_classproperty'',
     ''libfb.py.decorators.thread_safe_lazy_property'',
     ''artillery2.api.decorators.trace_block'',
     ''datainfra.spark.common.logger.get_logger'',
     ''feed_ranking_infra.vanguard.logtools.log_return_value'']"

definition declared_safe :: "modname \<Rightarrow> bool" where
  "declared_safe func \<longleftrightarrow> func \<in> set SAFE_FUNCTIONS_ARRAY"

end
