(* ===== verification/Project_Calls.thy ===== *)
theory Project_Calls
  imports Project_State Manual_Override
begin

text \<open>
  Checking one call (\<open>src/project/calls.rs\<close>). A check updates the shared state and returns whether
  the call is safe, or an error: the result is \<^typ>\<open>call_error + bool\<close>. The call stack is handed
  down: every operation of the code gives it back as it took it, and an entry is only pushed when it
  is not on the stack, so the stack and the code's set of seen names are one list. The checks call
  each other through \<open>check_call_body\<close>, the argument \<open>body\<close> of the others; the recursion itself
  runs on fuel, and \<open>Call_Checks\<close> shows that \<open>body_fuel\<close> is enough.
\<close>

record call =
  caller_module :: modname
  call_effect :: effect
  func :: modname
  stack :: "modname list"
  is_module_scope :: bool

type_synonym 'a run = "((call_error + 'a) \<times> analysis_state) option"
type_synonym body = "call \<Rightarrow> analysis_state \<Rightarrow> bool run"

section \<open>Queries and verdict updates\<close>

definition check_call_params :: "project_info \<Rightarrow> call \<Rightarrow> analysis_state \<Rightarrow> analysis_state" where
  "check_call_params p c st =
     (if call_mutates_imported_arg p (call_effect c)
      then add_error_to_module (caller_module c) (new_from_effect ImportedVarArgumentError (call_effect c)) st
      else st)"

definition can_resolve_call :: "project_info \<Rightarrow> modname \<Rightarrow> analysis_state \<Rightarrow> bool" where
  "can_resolve_call p f st \<longleftrightarrow> contains_callable p f \<or> contains_key (verdicts st) f"

definition mark_caller_unsafe_for_failed_callee ::
  "project_info \<Rightarrow> modname \<Rightarrow> modname \<Rightarrow> analysis_state \<Rightarrow> analysis_state" where
  "mark_caller_unsafe_for_failed_callee p f callee st =
     (let callee_recoverable =
        (case verdict_of st callee of
           None \<Rightarrow> False
         | Some info \<Rightarrow> has (verdict info) UnsafeMissingDep \<and> \<not> has (verdict info) Unsafe)
      in if callee_recoverable
           then (if state_is_unsafe f st then st else mark_unsafe_missing_dep f callee st)
         else if can_resolve_call p callee st then mark_unsafe f st
         else if state_is_unsafe f st then st
         else mark_unsafe_missing_dep f callee st)"

definition check_unknown_call :: "effect \<Rightarrow> call_error + safety_error" where
  "check_unknown_call e =
     (if eff_kind e = ImportedFunctionCall \<or> eff_kind e = FunctionCall
        then Inr (new_from_effect UnknownFunctionCallError e)
      else if eff_kind e = MethodCall \<or> eff_kind e = UnboundMethodCall \<or> eff_kind e = ParamMethodCall
        then Inr (new_from_effect UnknownMethodCallError e)
      else if eff_kind e = ImportedDecoratorCall \<or> eff_kind e = DecoratorCall
        then Inr (new_from_effect UnknownDecoratorCallError e)
      else Inl (UnexpectedCallEffect e))"

section \<open>The checks around a body\<close>

text \<open>A loop of checks whose results are anded; an error leaves it.\<close>

fun all_checks ::
  "('x \<Rightarrow> analysis_state \<Rightarrow> bool run) \<Rightarrow> 'x list \<Rightarrow> bool \<Rightarrow> analysis_state \<Rightarrow> bool run" where
  "all_checks check [] ret st = Some (Inr ret, st)"
| "all_checks check (x # xs) ret st =
     (case check x st of
        None \<Rightarrow> None
      | Some (Inl e, st') \<Rightarrow> Some (Inl e, st')
      | Some (Inr ok, st') \<Rightarrow> all_checks check xs (ret \<and> ok) st')"

definition check_constructor_call :: "project_info \<Rightarrow> body \<Rightarrow> body" where
  "check_constructor_call p body c =
     all_checks (\<lambda>m. body (c\<lparr>func := m\<rparr>)) (constructor_methods p (func c)) True"

definition check_decorator_nested_functions :: "project_info \<Rightarrow> body \<Rightarrow> body" where
  "check_decorator_nested_functions p body c =
     (case map_of (nested_functions p) (func c) of
        None \<Rightarrow> (\<lambda>st. Some (Inr True, st))
      | Some children \<Rightarrow>
          all_checks (\<lambda>child. body (c\<lparr>call_effect := new_effect FunctionCall child (eff_range (call_effect c)),
              func := child\<rparr>)) children True)"

definition check_call :: "project_info \<Rightarrow> body \<Rightarrow> body" where
  "check_call p body c st =
     (if declared_safe (func c) then Some (Inr True, st)
      else
        (case (if contains_key (pi_classes p) (func c) then check_constructor_call p body c st
               else body c st) of
           None \<Rightarrow> None
         | Some (Inl e, st') \<Rightarrow> Some (Inl e, st')
         | Some (Inr ret, st') \<Rightarrow>
             if is_parameterized_decorator_effect (call_effect c) then
               (case check_decorator_nested_functions p body c st' of
                  None \<Rightarrow> None
                | Some (Inl e, st'') \<Rightarrow> Some (Inl e, st'')
                | Some (Inr nested, st'') \<Rightarrow> Some (Inr (ret \<and> nested), st''))
             else Some (Inr ret, st')))"

definition check_resolved_call :: "project_info \<Rightarrow> body \<Rightarrow> bool \<Rightarrow> bool \<Rightarrow> body" where
  "check_resolved_call p body publish name_callee c st =
     (if \<not> can_resolve_call p (func c) st then
        (if \<not> publish then Some (Inr False, st)
         else
           (case check_unknown_call (call_effect c) of
              Inl e \<Rightarrow> Some (Inl e, st)
            | Inr err \<Rightarrow> Some (Inr False, add_error_to_module (caller_module c) err st)))
      else
        (case check_call p body c st of
           None \<Rightarrow> None
         | Some (Inl e, st') \<Rightarrow> Some (Inl e, st')
         | Some (Inr True, st') \<Rightarrow> Some (Inr True, st')
         | Some (Inr False, st') \<Rightarrow>
             if \<not> publish then Some (Inr False, st')
             else
               (case from_unsafe_call (call_effect c) of
                  Inl e \<Rightarrow> Some (Inl e, st')
                | Inr err \<Rightarrow>
                    Some (Inr False, add_error_to_module (caller_module c)
                      (if name_callee then err\<lparr>err_metadata := func c\<rparr> else err) st'))))"

text \<open>The name the code leaves in \<open>call.func\<close>, which its callers read afterwards.\<close>

definition resolved_func :: "project_info \<Rightarrow> effect_kind \<Rightarrow> modname \<Rightarrow> modname" where
  "resolved_func p k f =
     (if k = ClassCreation then f
      else if k = SuperMethodCall then
        (case resolve_dispatch_above p f of Some resolved \<Rightarrow> resolved | None \<Rightarrow> f)
      else (case resolve_callable p f of Some resolved \<Rightarrow> resolved | None \<Rightarrow> f))"

definition check_call_safety :: "project_info \<Rightarrow> body \<Rightarrow> bool \<Rightarrow> body" where
  "check_call_safety p body publish c st =
     (let k = eff_kind (call_effect c); resolved = resolved_func p k (func c) in
      if k = ClassCreation then
        all_checks (\<lambda>callee. check_resolved_call p body publish True (c\<lparr>func := callee\<rparr>))
          (metaclass_creation_callees p (func c) @
           (case resolve_dispatch_above p (func c) of None \<Rightarrow> [] | Some f \<Rightarrow> [f])) True st
      else if k = SuperMethodCall \<and> resolve_dispatch_above p (func c) = None then Some (Inr True, st)
      else check_resolved_call p body publish (contains_key (re_exports p) (func c))
             (c\<lparr>func := resolved\<rparr>) st)"

section \<open>A body\<close>

definition verdict_allows :: "function_safety \<Rightarrow> bool \<Rightarrow> bool" where
  "verdict_allows v is_cross_module \<longleftrightarrow>
     (if has v (bitor Unsafe UnsafeMissingDep) then False
      else if has v UnsafeIfImported then \<not> is_cross_module
      else True)"

text \<open>What a runnable effect does before its callee is looked at: \<open>(still safe, state)\<close>.\<close>

definition check_argument_mutation ::
  "project_info \<Rightarrow> call \<Rightarrow> effect \<Rightarrow> bool \<times> analysis_state \<Rightarrow> bool \<times> analysis_state" where
  "check_argument_mutation p c eff rs =
     (case rs of (ret, st) \<Rightarrow>
        if call_mutates_imported_arg p eff then (False, mark_unsafe (func c) st)
        else if \<not> is_module_scope c \<and> defers_cross_library_mutation eff then
          foldl (\<lambda>(ret, st) (callee, _).
              if \<not> contains_key (pi_functions p) callee \<and> \<not> contains_key (pi_mutated_params p) callee
              then (False, mark_unsafe_missing_dep (func c) callee st) else (ret, st))
            (ret, st) (iter_callees eff (pi_classes p))
        else (ret, st))"

definition has_verdict :: "analysis_state \<Rightarrow> modname \<Rightarrow> function_safety \<Rightarrow> bool" where
  "has_verdict st f flag \<longleftrightarrow>
     (case verdict_of st f of None \<Rightarrow> False | Some info \<Rightarrow> has (verdict info) flag)"

text \<open>A runnable effect of a function of module \<open>m\<close>; the result is the new \<open>ret\<close>.\<close>

definition check_runnable ::
  "project_info \<Rightarrow> body \<Rightarrow> call \<Rightarrow> modname \<Rightarrow> effect \<Rightarrow> bool \<Rightarrow> analysis_state \<Rightarrow> bool run" where
  "check_runnable p body c m eff ret0 st0 =
     (case check_argument_mutation p c eff (ret0, st0) of (ret, st) \<Rightarrow>
        if eff_name eff \<in> set (stack c) then Some (Inr False, mark_unsafe (func c) st)
        else
          (let child = \<lparr>caller_module = (if \<not> is_module_scope c then m else caller_module c),
                 call_effect = eff, func = eff_name eff, stack = eff_name eff # stack c,
                 is_module_scope = is_module_scope c\<rparr>;
               callee = resolved_func p (eff_kind eff) (eff_name eff)
           in (case check_call_safety p body False child st of
                 None \<Rightarrow> None
               | Some (Inl e, st') \<Rightarrow> Some (Inl e, st')
               | Some (Inr False, st') \<Rightarrow>
                   Some (Inr False, mark_caller_unsafe_for_failed_callee p (func c) callee st')
               | Some (Inr True, st') \<Rightarrow>
                   if has_verdict st' callee UnsafeIfImported \<and> map_of (pi_functions p) callee = Some m
                   then Some (Inr (ret \<and> caller_module c = m), mark_unsafe_if_imported (func c) st')
                   else Some (Inr ret, st'))))"

definition check_effect ::
  "project_info \<Rightarrow> body \<Rightarrow> call \<Rightarrow> modname \<Rightarrow> effect \<Rightarrow> bool \<Rightarrow> analysis_state \<Rightarrow> bool run" where
  "check_effect p body c m eff ret st =
     (if from_effect eff \<noteq> None then Some (Inr False, mark_unsafe (func c) st)
      else if is_runnable (eff_kind eff) then check_runnable p body c m eff ret st
      else if eff_kind eff = ImportedVarMutation then Some (Inr False, mark_unsafe (func c) st)
      else if eff_kind eff = GlobalVarAssign \<or> eff_kind eff = GlobalVarMutation then
        (let no_missing_dep_or_unsafe = \<not> has_verdict st (func c) (bitor UnsafeMissingDep Unsafe)
         in Some (Inr (ret \<and> \<not> (no_missing_dep_or_unsafe \<and> caller_module c \<noteq> m)),
                  mark_unsafe_if_imported (func c) st))
      else Some (Inr ret, st))"

fun check_effects ::
  "project_info \<Rightarrow> body \<Rightarrow> call \<Rightarrow> modname \<Rightarrow> effect list \<Rightarrow> bool \<Rightarrow> analysis_state \<Rightarrow> bool run" where
  "check_effects p body c m [] ret st = Some (Inr ret, st)"
| "check_effects p body c m (eff # effs) ret st =
     (case check_effect p body c m eff ret st of
        None \<Rightarrow> None
      | Some (Inl e, st') \<Rightarrow> Some (Inl e, st')
      | Some (Inr ret', st') \<Rightarrow> check_effects p body c m effs ret' st')"

definition body_step :: "project_info \<Rightarrow> body \<Rightarrow> body" where
  "body_step p body c st0 =
     (case map_of (pi_functions p) (func c) of
        None \<Rightarrow> Some (Inr True, st0)
      | Some m \<Rightarrow>
          (let st = (if is_module_scope c then check_call_params p c st0 else st0) in
           case verdict_of st (func c) of
             Some info \<Rightarrow> Some (Inr (verdict_allows (verdict info) (caller_module c \<noteq> m)), st)
           | None \<Rightarrow>
               (case check_effects p body c m
                       (case table_get (pi_effect_table p) (func c) of None \<Rightarrow> [] | Some effs \<Rightarrow> effs)
                       True st of
                  None \<Rightarrow> None
                | Some (Inl e, st') \<Rightarrow> Some (Inl e, st')
                | Some (Inr ret, st') \<Rightarrow>
                    Some (Inr ret, if verdict_of st' (func c) = None then mark_safe (func c) st' else st'))))"

fun check_call_body :: "nat \<Rightarrow> project_info \<Rightarrow> body" where
  "check_call_body 0 p = (\<lambda>c st. None)"
| "check_call_body (Suc n) p = body_step p (check_call_body n p)"

text \<open>The names the effects can push on the stack bound the depth of the recursion.\<close>

definition call_names :: "project_info \<Rightarrow> modname set" where
  "call_names p = set (map eff_name (concat (map snd (pi_effect_table p))))"

definition body_fuel :: "project_info \<Rightarrow> nat" where
  "body_fuel p = length (concat (map snd (pi_effect_table p))) + 1"

end
