(* ===== verification/Call_Checks.thy ===== *)
theory Call_Checks
  imports Project_Calls
begin

text \<open>
  What holds of every call check. The checks of an unpublished call never fail; two bodies that
  return the same on a stack give checks that return the same on it, which is why more fuel than the
  bound changes nothing; and an invariant of the verdict updates is an invariant of the checks. The
  three are one induction, done once in the locale \<open>update_invariant\<close>.
\<close>

section \<open>Two runs that return the same\<close>

definition same_run :: "(analysis_state \<Rightarrow> bool) \<Rightarrow> bool run \<Rightarrow> bool run \<Rightarrow> bool" where
  "same_run Q r r' \<longleftrightarrow> (\<exists>ok st'. r = Some (Inr ok, st') \<and> r' = r \<and> Q st')"

lemma same_run_ret [simp]: "same_run Q (Some (Inr ok, st)) (Some (Inr ok, st)) \<longleftrightarrow> Q st"
  by (auto simp: same_run_def)

lemma same_run_bind:
  assumes "same_run Q r r'" and "\<And>ok st'. Q st' \<Longrightarrow> same_run Q (k ok st') (k' ok st')"
  shows "same_run Q
    (case r of None \<Rightarrow> None | Some (Inl e, st') \<Rightarrow> Some (Inl e, st') | Some (Inr ok, st') \<Rightarrow> k ok st')
    (case r' of None \<Rightarrow> None | Some (Inl e, st') \<Rightarrow> Some (Inl e, st') | Some (Inr ok, st') \<Rightarrow> k' ok st')"
  using assms by (auto simp: same_run_def)

lemma same_run_all:
  assumes "\<And>x st. x \<in> set xs \<Longrightarrow> Q st \<Longrightarrow> same_run Q (f x st) (g x st)" and "Q st"
  shows "same_run Q (all_checks f xs ret st) (all_checks g xs ret st)"
  using assms by (induction xs arbitrary: ret st) (auto intro!: same_run_bind)

section \<open>Invariants of the verdict updates\<close>

locale update_invariant =
  fixes p :: project_info and published :: bool and Q :: "analysis_state \<Rightarrow> bool"
  assumes keeps_safe: "contains_key (pi_functions p) f \<Longrightarrow> Q st \<Longrightarrow> verdict_of st f = None \<Longrightarrow> Q (mark_safe f st)"
    and keeps_unsafe: "contains_key (pi_functions p) f \<Longrightarrow> Q st \<Longrightarrow> Q (mark_unsafe f st)"
    and keeps_missing: "contains_key (pi_functions p) f \<Longrightarrow> Q st \<Longrightarrow> Q (mark_unsafe_missing_dep f g st)"
    and keeps_if_imported: "contains_key (pi_functions p) f \<Longrightarrow> Q st \<Longrightarrow> Q (mark_unsafe_if_imported f st)"
    and keeps_error: "published \<Longrightarrow> Q st \<Longrightarrow> Q (add_error_to_module m err st)"
begin

definition agree :: "modname list \<Rightarrow> body \<Rightarrow> body \<Rightarrow> bool" where
  "agree S b b' \<longleftrightarrow>
     (\<forall>c st. stack c = S \<and> (is_module_scope c \<longrightarrow> published) \<and> Q st \<longrightarrow> same_run Q (b c st) (b' c st))"

lemma agreeD:
  "agree S b b' \<Longrightarrow> stack c = S \<Longrightarrow> (is_module_scope c \<Longrightarrow> published) \<Longrightarrow> Q st \<Longrightarrow>
     same_run Q (b c st) (b' c st)"
  by (simp add: agree_def)

lemma agreeI:
  "(\<And>c st. stack c = S \<Longrightarrow> (is_module_scope c \<Longrightarrow> published) \<Longrightarrow> Q st \<Longrightarrow> same_run Q (b c st) (b' c st)) \<Longrightarrow>
     agree S b b'"
  by (simp add: agree_def)

lemma agree_constructor:
  "agree S b b' \<Longrightarrow> agree S (check_constructor_call p b) (check_constructor_call p b')"
  unfolding check_constructor_call_def by (intro agreeI same_run_all) (auto elim: agreeD)

lemma agree_nested:
  "agree S b b' \<Longrightarrow>
     agree S (check_decorator_nested_functions p b) (check_decorator_nested_functions p b')"
  unfolding check_decorator_nested_functions_def
  by (intro agreeI) (auto split: option.split intro!: same_run_all elim: agreeD)

lemma agree_check_call: "agree S b b' \<Longrightarrow> agree S (check_call p b) (check_call p b')"
  unfolding check_call_def
  by (intro agreeI)
    (auto intro!: same_run_bind agreeD [OF agree_constructor] agreeD [OF agree_nested] elim: agreeD)

lemma agree_resolved:
  "agree S b b' \<Longrightarrow>
     agree S (check_resolved_call p b False nc) (check_resolved_call p b' False nc)"
  unfolding check_resolved_call_def
  by (intro agreeI)
    (auto intro!: same_run_bind agreeD [OF agree_check_call] split: bool.split)

lemma agree_call_safety:
  "agree S b b' \<Longrightarrow> agree S (check_call_safety p b False) (check_call_safety p b' False)"
  unfolding check_call_safety_def Let_def
  by (intro agreeI) (auto intro!: same_run_all agreeD [OF agree_resolved])

lemma keeps_failed_callee:
  "contains_key (pi_functions p) f \<Longrightarrow> Q st \<Longrightarrow> Q (mark_caller_unsafe_for_failed_callee p f g st)"
  by (auto simp: mark_caller_unsafe_for_failed_callee_def Let_def split: option.split
      intro: keeps_unsafe keeps_missing)

lemma keeps_argument_mutation:
  assumes "contains_key (pi_functions p) (func c)" and "Q (snd rs)"
  shows "Q (snd (check_argument_mutation p c e rs))"
proof -
  have "Q (snd (foldl (\<lambda>(ret, st) (callee, y).
            if \<not> contains_key (pi_functions p) callee \<and> \<not> contains_key (pi_mutated_params p) callee
            then (False, mark_unsafe_missing_dep (func c) callee st) else (ret, st)) rs xs))" for xs
    using assms
  proof (induction xs arbitrary: rs)
    case (Cons x xs)
    then show ?case
      by (cases rs; cases x) (auto intro!: Cons.IH keeps_missing)
  qed simp
  with assms show ?thesis
    by (auto simp: check_argument_mutation_def split: prod.split intro: keeps_unsafe)
qed

lemma agree_runnable:
  assumes b: "eff_name e \<notin> set S \<Longrightarrow> agree (eff_name e # S) b b'" and c: "stack c = S" "is_module_scope c \<Longrightarrow> published"
    and f: "contains_key (pi_functions p) (func c)" and q: "Q st"
  shows "same_run Q (check_runnable p b c m e ret st) (check_runnable p b' c m e ret st)"
proof -
  obtain ret1 st1 where s: "check_argument_mutation p c e (ret, st) = (ret1, st1)" by fastforce
  have q1: "Q st1" using keeps_argument_mutation [OF f, of "(ret, st)" e] q s by simp
  show ?thesis
    using q1 b f c
    by (auto simp: check_runnable_def s Let_def split: bool.split
        intro!: same_run_bind agreeD [OF agree_call_safety] keeps_unsafe keeps_failed_callee keeps_if_imported)
qed

lemma agree_effects:
  assumes b: "\<And>e. e \<in> set effs \<Longrightarrow> eff_name e \<notin> set S \<Longrightarrow> agree (eff_name e # S) b b'"
    and c: "stack c = S" "is_module_scope c \<Longrightarrow> published"
    and f: "contains_key (pi_functions p) (func c)" and q: "Q st"
  shows "same_run Q (check_effects p b c m effs ret st) (check_effects p b' c m effs ret st)"
  using b q
proof (induction effs arbitrary: ret st)
  case (Cons e effs)
  have "same_run Q (check_effect p b c m e ret st) (check_effect p b' c m e ret st)"
    using Cons.prems f
    by (auto simp: check_effect_def Let_def intro: keeps_unsafe keeps_if_imported
        intro!: agree_runnable [OF _ c(1) c(2) f])
  with Cons show ?case by (auto intro!: same_run_bind)
qed simp

lemma agree_body_step:
  assumes b: "\<And>e. e \<in> set (concat (map snd (pi_effect_table p))) \<Longrightarrow> eff_name e \<notin> set S \<Longrightarrow>
      agree (eff_name e # S) b b'"
  shows "agree S (body_step p b) (body_step p b')"
proof (rule agreeI)
  fix c :: call and st0
  assume c: "stack c = S" "is_module_scope c \<Longrightarrow> published" and q: "Q st0"
  show "same_run Q (body_step p b c st0) (body_step p b' c st0)"
  proof (cases "map_of (pi_functions p) (func c)")
    case (Some m)
    then have f: "contains_key (pi_functions p) (func c)" by (simp add: contains_key_def)
    define effs where "effs =
      (case table_get (pi_effect_table p) (func c) of None \<Rightarrow> [] | Some effs \<Rightarrow> effs)"
    have effs: "set effs \<subseteq> set (concat (map snd (pi_effect_table p)))"
      by (auto simp: effs_def table_get_def dest!: sym [of "Some _"] map_of_SomeD split: option.splits)
    define st where "st = (if is_module_scope c then check_call_params p c st0 else st0)"
    have q': "Q st" using q c by (auto simp: st_def check_call_params_def intro: keeps_error)
    have e: "same_run Q (check_effects p b c m effs True st) (check_effects p b' c m effs True st)"
      by (rule agree_effects [OF _ c(1) c(2) f q']) (use b effs in blast)
    have "same_run Q (body_step p b c st0) (body_step p b' c st0)" if u: "verdict_of st (func c) = None"
      unfolding body_step_def Some effs_def [symmetric] st_def [symmetric] Let_def u
      by (simp, rule same_run_bind [OF e]) (auto intro: keeps_safe f)
    moreover have ?thesis if "verdict_of st (func c) = Some info" for info
      using that Some q' by (simp add: body_step_def st_def [symmetric] Let_def)
    ultimately show ?thesis by blast
  qed (simp add: body_step_def q)
qed

theorem check_call_body_agrees:
  "card (call_names p - set S) < n \<Longrightarrow> agree S (check_call_body n p) (check_call_body (Suc n) p)"
proof (induction n arbitrary: S)
  case (Suc n)
  have "agree (eff_name e # S) (check_call_body n p) (check_call_body (Suc n) p)"
    if e: "e \<in> set (concat (map snd (pi_effect_table p)))" "eff_name e \<notin> set S" for e
  proof (rule Suc.IH)
    have "eff_name e \<in> call_names p - set S"
      using e by (auto simp: call_names_def)
    then have "card (call_names p - set (eff_name e # S)) < card (call_names p - set S)"
      by (intro psubset_card_mono) (auto simp: call_names_def)
    with Suc.prems show "card (call_names p - set (eff_name e # S)) < n" by simp
  qed
  then show ?case by (simp only: check_call_body.simps) (rule agree_body_step)
qed simp

end

lemma body_fuel_suffices: "card (call_names p - S) < body_fuel p"
proof -
  have "card (call_names p - S) \<le> card (call_names p)"
    by (intro card_mono) (auto simp: call_names_def)
  also have "\<dots> \<le> length (concat (map snd (pi_effect_table p)))"
    by (metis call_names_def card_length length_map)
  finally show ?thesis by (simp add: body_fuel_def)
qed

interpretation returns: update_invariant p True "\<lambda>_. True" for p
  by unfold_locales simp_all

lemma body_agrees:
  "returns.agree S (check_call_body (body_fuel p + k) p) (check_call_body (Suc (body_fuel p + k)) p)"
  using returns.check_call_body_agrees [of p S "body_fuel p + k"] body_fuel_suffices [of p "set S"] by simp

text \<open>The recursion returns, never with an error, and \<open>body_fuel\<close> is as good as any larger fuel.\<close>

lemma body_returns:
  "\<exists>ok st'. check_call_body (body_fuel p) p c st = Some (Inr ok, st') \<and>
     check_call_body (body_fuel p + k) p c st = Some (Inr ok, st')"
proof (induction k)
  case 0
  show ?case
    using returns.agreeD [OF body_agrees [of "stack c" p 0], of c st] by (auto simp: same_run_def)
next
  case (Suc k)
  have "check_call_body (Suc (body_fuel p + k)) p c st = check_call_body (body_fuel p + k) p c st"
    using returns.agreeD [OF body_agrees [of "stack c" p k], of c st]
    by (auto simp: same_run_def simp del: check_call_body.simps)
  with Suc show ?case by (simp del: check_call_body.simps)
qed

context update_invariant begin

lemma check_call_body_keeps:
  assumes "check_call_body (body_fuel p) p c st = Some (r, st')"
    and "is_module_scope c \<Longrightarrow> published" and "Q st"
  shows "Q st'"
  using agreeD [OF check_call_body_agrees [OF body_fuel_suffices, of "stack c"], of c st] assms
  by (auto simp: same_run_def simp del: check_call_body.simps)

lemma constructor_agrees:
  "agree S (check_constructor_call p (check_call_body (body_fuel p) p))
     (check_constructor_call p (check_call_body (Suc (body_fuel p)) p))"
  by (rule agree_constructor [OF check_call_body_agrees [OF body_fuel_suffices]])

lemma check_constructor_keeps:
  assumes "check_constructor_call p (check_call_body (body_fuel p) p) c st = Some (r, st')"
    and "is_module_scope c \<Longrightarrow> published" and "Q st"
  shows "Q st'"
  using agreeD [OF constructor_agrees [of "stack c"], of c st] assms
  by (auto simp: same_run_def simp del: check_call_body.simps)

end

lemma constructor_returns:
  "\<exists>ok st'. check_constructor_call p (check_call_body (body_fuel p) p) c st = Some (Inr ok, st')"
  using returns.agreeD [OF returns.constructor_agrees [of "stack c" p], of c st]
  by (auto simp: same_run_def simp del: check_call_body.simps)

section \<open>The invariants of the code\<close>

lemmas mark_defs = mark_safe_def mark_unsafe_def mark_unsafe_missing_dep_def mark_unsafe_if_imported_def

text \<open>Every record stays well formed.\<close>

lemma wf_safety_simps [simp]:
  "wf_safety Safe" "wf_safety Unsafe" "wf_safety UnsafeIfImported" "wf_safety UnsafeMissingDep"
  "wf_safety (insert_concern v w) \<longleftrightarrow> wf_safety v \<and> wf_safety w"
  by (simp_all add: wf_safety_def Safe_def Unsafe_def UnsafeIfImported_def UnsafeMissingDep_def
      insert_concern_def or_eq_0_iff)

lemma bit_insert_concern [simp]: "bit (insert_concern v w) n \<longleftrightarrow> bit v n \<or> bit w n"
  by (simp add: insert_concern_def bit_simps)

lemma info_ok_new [simp]:
  "info_ok (new_info Safe)" "info_ok (new_info Unsafe)" "info_ok (new_info UnsafeIfImported)"
  "info_ok (unsafe_missing_dep callee)"
  by (simp_all add: info_ok_def new_info_def unsafe_missing_dep_def)

lemma info_ok_insert:
  "info_ok info \<Longrightarrow> info_ok (info\<lparr>verdict := insert_concern (verdict info) UnsafeIfImported\<rparr>)"
  "info_ok info \<Longrightarrow> info_ok (info\<lparr>verdict := insert_concern (verdict info) UnsafeMissingDep,
     missing_dep_callees := small_insert callee (missing_dep_callees info)\<rparr>)"
  by (auto simp: info_ok_def small_insert_def)

lemma verdicts_ok_set:
  "verdicts_ok st \<Longrightarrow> info_ok info \<Longrightarrow> verdicts_ok (set_function_safety f info st)"
  by (auto simp: verdicts_ok_def set_function_safety_def update_conv' distinct_update)

interpretation frame: update_invariant p False "\<lambda>st. safety_map st = sm" for p sm
  by unfold_locales (simp_all add: mark_defs)

interpretation keys: update_invariant p True
    "\<lambda>st. \<forall>f. verdict_of st f \<noteq> None \<longrightarrow> contains_key (pi_functions p) f \<or> f \<in> N" for p N
  by unfold_locales (auto simp: mark_defs add_error_to_module_def)

text \<open>A verdict is never withdrawn and only worsens: what it once refused it refuses ever after.\<close>

definition worsens :: "analysis_state \<Rightarrow> analysis_state \<Rightarrow> bool" where
  "worsens st st' \<longleftrightarrow> (\<forall>f info. verdict_of st f = Some info \<longrightarrow>
     (\<exists>info'. verdict_of st' f = Some info' \<and>
        (\<forall>x. verdict_allows (verdict info') x \<longrightarrow> verdict_allows (verdict info) x)))"

lemma has_any: "has v (bitor Unsafe UnsafeMissingDep) \<longleftrightarrow> bit v 2 \<or> bit v 1"
proof -
  have "has v (bitor s t) \<longleftrightarrow> has v s \<or> has v t" for s t
    by (simp add: has_def bitor_def bit.conj_disj_distrib or_eq_0_iff)
  then show ?thesis by simp
qed

lemma verdict_allows_iff:
  "verdict_allows v x \<longleftrightarrow> \<not> bit v 2 \<and> \<not> bit v 1 \<and> (bit v 0 \<longrightarrow> \<not> x)"
  by (simp add: verdict_allows_def has_any)

lemma worsens_set:
  assumes "worsens st0 st"
    and "\<And>old x. verdict_of st f = Some old \<Longrightarrow> verdict_allows (verdict info) x \<Longrightarrow> verdict_allows (verdict old) x"
  shows "worsens st0 (set_function_safety f info st)"
  using assms by (fastforce simp: worsens_def)

interpretation worse: update_invariant p True "worsens st0" for p st0
  by unfold_locales
    (auto simp: mark_defs intro!: worsens_set split: option.splits,
     auto simp: verdict_allows_iff new_info_def unsafe_missing_dep_def worsens_def add_error_to_module_def)

section \<open>Properties\<close>

text \<open>C28: Checking a call always returns a yes or a no: the recursion of check_call_body ends
  within body_fuel calls, whatever the functions of the project call and however they call each
  other, it never fails with an error, and more fuel changes neither the answer nor the state. A
  bound on the call stack is not assumed: the stack of names is what cuts every cycle.\<close>

theorem check_call_body_total:
  "\<exists>ok st'. check_call_body (body_fuel p) p c st = Some (Inr ok, st') \<and>
     check_call_body (body_fuel p + k) p c st = Some (Inr ok, st')"
  by (rule body_returns)

text \<open>C29: A check of a call never withdraws or improves a verdict already recorded: a callable
  that had a verdict still has one, and whatever caller it was refused to is still refused. The
  check records verdicts of functions only, and when it is not made for module scope it publishes
  no error: the results of the modules are as they were.\<close>

theorem check_call_body_worsens:
  "case check_call_body (body_fuel p) p c st of
     Some (Inr ok, st') \<Rightarrow>
       worsens st st' \<and>
       dom (verdict_of st') \<subseteq> dom (verdict_of st) \<union> fst ` set (pi_functions p) \<and>
       (is_module_scope c \<or> safety_map st' = safety_map st)
   | _ \<Rightarrow> False"
proof -
  obtain ok st' where run: "check_call_body (body_fuel p) p c st = Some (Inr ok, st')"
    using body_returns [of p c st] by blast
  have "worsens st st" by (auto simp: worsens_def)
  then have "worsens st st'" using worse.check_call_body_keeps [OF run] by simp
  moreover have "dom (verdict_of st') \<subseteq> dom (verdict_of st) \<union> fst ` set (pi_functions p)"
    using keys.check_call_body_keeps [OF run, of "dom (verdict_of st)"]
    by (auto simp: contains_key_def) (force dest: map_of_SomeD)
  moreover have "safety_map st' = safety_map st" if "\<not> is_module_scope c"
    using frame.check_call_body_keeps [OF run, of "safety_map st"] that by simp
  ultimately show ?thesis using run by auto
qed

end
