(* ===== verification/Csr_Graph.thy ===== *)
theory Csr_Graph
  imports Prelude
begin

text \<open>
  The compact call graph of \<open>src/csr_graph.rs\<close>: adjacency in compressed sparse row form, and the
  grouping of nodes into dependency levels. Node and edge indices are natural numbers: the code
  keeps them in \<open>u32\<close>, so the model is about graphs with fewer than \<open>2 ^ 32\<close> nodes and edges,
  and the code's \<open>u32::MAX\<close> sentinel is \<^const>\<open>None\<close>. An index out of bounds and a failed
  assertion are \<^const>\<open>None\<close> of the whole operation.
\<close>

record csr_graph =
  offsets :: "nat list"
  adj :: "nat list"

type_synonym edge = "nat \<times> nat"

section \<open>Building the graph\<close>

definition count_edges :: "nat \<Rightarrow> edge list \<Rightarrow> nat list" where
  "count_edges num_nodes edges =
     foldl (\<lambda>off (u, v). off[u + 1 := off ! (u + 1) + 1]) (replicate (num_nodes + 1) 0) edges"

definition prefix_sums :: "nat \<Rightarrow> nat list \<Rightarrow> nat list" where
  "prefix_sums num_nodes off = foldl (\<lambda>off i. off[i + 1 := off ! (i + 1) + off ! i]) off [0..<num_nodes]"

definition fill_adj :: "nat list \<Rightarrow> edge list \<Rightarrow> nat list \<times> nat list" where
  "fill_adj off edges =
     foldl (\<lambda>(adj', cursor) (u, v). (adj'[cursor ! u := v], cursor[u := cursor ! u + 1]))
       (replicate (length edges) 0, off) edges"

definition from_edges :: "nat \<Rightarrow> edge list \<Rightarrow> csr_graph option" where
  "from_edges num_nodes edges =
     (if list_ex (\<lambda>(u, v). num_nodes \<le> u) edges then None
      else
        let off = prefix_sums num_nodes (count_edges num_nodes edges)
        in Some \<lparr>offsets = off, adj = fst (fill_adj off edges)\<rparr>)"

definition num_nodes :: "csr_graph \<Rightarrow> nat" where
  "num_nodes g = length (offsets g) - 1"

definition neighbors :: "csr_graph \<Rightarrow> nat \<Rightarrow> nat list" where
  "neighbors g node =
     (let start = offsets g ! node; end' = offsets g ! (node + 1)
      in take (end' - start) (drop start (adj g)))"

section \<open>Dependency levels\<close>

record level_state =
  level :: "nat option list"
  expanding :: "bool list"
  work :: "(nat \<times> nat) list"

text \<open>One round of the inner loop. The top of the work stack is the head of the list.\<close>

definition max_list :: "nat list \<Rightarrow> nat option" where
  "max_list xs = (if xs = [] then None else Some (foldr max xs 0))"

definition node_level :: "csr_graph \<Rightarrow> bool list \<Rightarrow> nat option list \<Rightarrow> nat \<Rightarrow> nat" where
  "node_level g settled lev v =
     (case max_list (map (\<lambda>w. the (lev ! w) + 1)
             (filter (\<lambda>w. \<not> settled ! w \<and> lev ! w \<noteq> None) (neighbors g v))) of
        None \<Rightarrow> 0
      | Some l \<Rightarrow> l)"

definition level_step :: "csr_graph \<Rightarrow> bool list \<Rightarrow> level_state \<Rightarrow> level_state" where
  "level_step g settled s =
     (case work s of
        [] \<Rightarrow> s
      | (v, cursor) # rest \<Rightarrow>
          if cursor < offsets g ! (v + 1) then
            (let w = adj g ! cursor;
                 skip = (settled ! w \<or> level s ! w \<noteq> None \<or> expanding s ! w);
                 work' = (v, cursor + 1) # rest
             in if skip then s\<lparr>work := work'\<rparr>
                else s\<lparr>expanding := (expanding s)[w := True], work := (w, offsets g ! w) # work'\<rparr>)
          else
            s\<lparr>level := (level s)[v := Some (node_level g settled (level s) v)],
              expanding := (expanding s)[v := False], work := rest\<rparr>)"

partial_function (option) level_loop ::
  "csr_graph \<Rightarrow> bool list \<Rightarrow> level_state \<Rightarrow> level_state option" where
  "level_loop g settled s =
     (if work s = [] then Some s else level_loop g settled (level_step g settled s))"

declare level_loop.simps [code]

fun level_starts ::
  "csr_graph \<Rightarrow> bool list \<Rightarrow> nat list \<Rightarrow> level_state \<Rightarrow> level_state option" where
  "level_starts g settled [] s = Some s"
| "level_starts g settled (start # starts) s =
     (if settled ! start \<or> level s ! start \<noteq> None then level_starts g settled starts s
      else
        (case level_loop g settled
                (s\<lparr>work := (start, offsets g ! start) # work s,
                   expanding := (expanding s)[start := True]\<rparr>) of
           None \<Rightarrow> None
         | Some s' \<Rightarrow> level_starts g settled starts s'))"

definition group_levels :: "nat option list \<Rightarrow> nat list list" where
  "group_levels lev =
     (case max_list (map the (filter (\<lambda>l. l \<noteq> None) lev)) of
        None \<Rightarrow> []
      | Some deepest \<Rightarrow>
          foldl (\<lambda>levels (node, l).
              case l of None \<Rightarrow> levels | Some k \<Rightarrow> levels[k := levels ! k @ [node]])
            (replicate (deepest + 1) []) (zip [0..<length lev] lev))"

definition dependency_levels :: "csr_graph \<Rightarrow> bool list \<Rightarrow> nat list list option" where
  "dependency_levels g settled =
     (if length settled \<noteq> num_nodes g then None
      else
        let n = num_nodes g in
        map_option (\<lambda>s. group_levels (level s))
          (level_starts g settled [0..<n]
            \<lparr>level = replicate n None, expanding = replicate n False, work = []\<rparr>))"

section \<open>The edges of a built graph\<close>

definition out_edges :: "edge list \<Rightarrow> nat \<Rightarrow> nat list" where
  "out_edges edges u = map snd (filter (\<lambda>e. fst e = u) edges)"

definition block_start :: "edge list \<Rightarrow> nat \<Rightarrow> nat" where
  "block_start edges u = length (filter (\<lambda>e. fst e < u) edges)"

lemma out_edges_simps [simp]:
  "out_edges [] u = []"
  "out_edges (es @ [(x, y)]) u = (if x = u then out_edges es u @ [y] else out_edges es u)"
  by (simp_all add: out_edges_def)

lemma block_start_0 [simp]: "block_start edges 0 = 0"
  by (simp add: block_start_def)

lemma block_start_Suc: "block_start edges (Suc u) = block_start edges u + length (out_edges edges u)"
  unfolding block_start_def out_edges_def by (induction edges) auto

lemma block_start_mono: "u \<le> v \<Longrightarrow> block_start edges u \<le> block_start edges v"
  by (induction rule: dec_induct) (auto simp: block_start_Suc)

lemma block_start_total:
  "\<forall>(u, v)\<in>set edges. u < n \<Longrightarrow> block_start edges n = length edges"
  by (simp add: block_start_def case_prod_unfold)

lemma count_edges_eq:
  assumes "\<forall>(u, v)\<in>set edges. u < n"
  shows "length (count_edges n edges) = n + 1 \<and> count_edges n edges ! 0 = 0 \<and>
    (\<forall>u<n. count_edges n edges ! (u + 1) = length (out_edges edges u))"
  using assms
proof (induction edges rule: rev_induct)
  case Nil
  show ?case by (simp add: count_edges_def)
next
  case (snoc e es)
  obtain u v where e: "e = (u, v)" by (cases e)
  have "count_edges n (es @ [e]) = (count_edges n es)[u + 1 := count_edges n es ! (u + 1) + 1]"
    by (simp add: count_edges_def e)
  with snoc e show ?case by (auto simp: nth_list_update)
qed

lemma prefix_sums_step:
  fixes off :: "nat list"
  assumes "i \<le> n" "length off = n + 1"
  shows "length (foldl (\<lambda>off i. off[i + 1 := off ! (i + 1) + off ! i]) off [0..<i]) = n + 1 \<and>
    (\<forall>j\<le>n. foldl (\<lambda>off i. off[i + 1 := off ! (i + 1) + off ! i]) off [0..<i] ! j =
       (if j \<le> i then sum_list (take (j + 1) off) else off ! j))"
  using assms(1)
proof (induction i)
  case 0
  with assms(2) show ?case by (auto simp: take_Suc_conv_app_nth)
next
  case (Suc i)
  with assms(2) show ?case
    by (auto simp: nth_list_update take_Suc_conv_app_nth le_Suc_eq
        add.commute [of "off ! Suc i"])
qed

lemma prefix_sums_eq:
  assumes "\<forall>(u, v)\<in>set edges. u < n"
  shows "length (prefix_sums n (count_edges n edges)) = n + 1"
    and "\<forall>j\<le>n. prefix_sums n (count_edges n edges) ! j = block_start edges j"
proof -
  let ?off = "count_edges n edges"
  note counts = count_edges_eq [OF assms]
  note step = prefix_sums_step [of n n ?off, OF order_refl]
  show "length (prefix_sums n ?off) = n + 1"
    using step counts by (simp add: prefix_sums_def)
  have "sum_list (take (j + 1) ?off) = block_start edges j" if "j \<le> n" for j
    using that
  proof (induction j)
    case 0
    then show ?case using counts by (cases ?off) auto
  next
    case (Suc j)
    then have "take (Suc j + 1) ?off = take (j + 1) ?off @ [?off ! (j + 1)]"
      using counts by (simp add: take_Suc_conv_app_nth)
    with Suc show ?case
      using counts by (simp add: block_start_Suc)
  qed
  then show "\<forall>j\<le>n. prefix_sums n ?off ! j = block_start edges j"
    using step counts by (simp add: prefix_sums_def)
qed

text \<open>
  After some edges were placed, each node's block holds its targets so far, and its cursor points
  behind them.
\<close>

lemma fill_adj_prefix:
  assumes all: "\<forall>(u, v)\<in>set edges. u < n" and off: "length off = n + 1"
    "\<forall>j\<le>n. off ! j = block_start edges j" and pre: "edges = es @ rest"
  shows "case foldl (\<lambda>(adj', cursor) (u, v). (adj'[cursor ! u := v], cursor[u := cursor ! u + 1]))
       (replicate (length edges) 0, off) es of (adj', cursor) \<Rightarrow>
     length adj' = length edges \<and> length cursor = n + 1 \<and>
     (\<forall>u<n. cursor ! u = block_start edges u + length (out_edges es u) \<and>
        (\<forall>k<length (out_edges es u). adj' ! (block_start edges u + k) = out_edges es u ! k))"
  using pre
proof (induction es arbitrary: rest rule: rev_induct)
  case Nil
  then show ?case using off by simp
next
  case (snoc e es)
  obtain x y where e: "e = (x, y)" by (cases e)
  let ?f = "\<lambda>(adj', cursor) (u, v). (adj'[cursor ! u := v], cursor[u := cursor ! u + 1])"
  obtain a c where ac: "foldl ?f (replicate (length edges) 0, off) es = (a, c)"
    by (cases "foldl ?f (replicate (length edges) 0, off) es") simp
  have IH: "length a = length edges" "length c = n + 1"
    "\<And>u. u < n \<Longrightarrow> c ! u = block_start edges u + length (out_edges es u)"
    "\<And>u k. u < n \<Longrightarrow> k < length (out_edges es u) \<Longrightarrow> a ! (block_start edges u + k) = out_edges es u ! k"
    using snoc.IH [of "e # rest", unfolded ac prod.case] snoc.prems by simp_all
  have x: "x < n" using all snoc.prems e by auto
  have fits: "length (out_edges es u) + (if u = x then 1 else 0) \<le> length (out_edges edges u)" for u
    using snoc.prems e by (auto simp: out_edges_def)
  let ?i = "block_start edges x + length (out_edges es x)"
  have "?i < block_start edges (Suc x)"
    using fits [of x] by (simp add: block_start_Suc)
  also have "\<dots> \<le> block_start edges n" using x by (intro block_start_mono) simp
  finally have i: "?i < length a" using IH(1) block_start_total [OF all] by simp
  have apart: "?i \<noteq> block_start edges u + k" if "u < n" "k < length (out_edges es u)" "u \<noteq> x" for u k
  proof (cases "u < x")
    case True
    then have "block_start edges (Suc u) \<le> block_start edges x" by (intro block_start_mono) simp
    with that fits [of u] show ?thesis by (simp add: block_start_Suc)
  next
    case False
    with that have "block_start edges (Suc x) \<le> block_start edges u" by (intro block_start_mono) simp
    with fits [of x] show ?thesis by (simp add: block_start_Suc)
  qed
  have "foldl ?f (replicate (length edges) 0, off) (es @ [e]) = (a[c ! x := y], c[x := c ! x + 1])"
    by (simp only: foldl_append foldl_Cons foldl_Nil ac e prod.case)
  moreover have "c ! x = ?i" using IH(3) x by simp
  ultimately show ?case
    using IH x i apart
    by (auto simp: e nth_list_update nth_append less_Suc_eq)
qed

lemma from_edges_neighbors:
  assumes "from_edges n edges = Some g" "v < n"
  shows "neighbors g v = out_edges edges v"
proof -
  have all: "\<forall>(u, v)\<in>set edges. u < n"
    using assms(1) by (auto simp: from_edges_def list_ex_iff split: if_splits)
  let ?off = "prefix_sums n (count_edges n edges)"
  note off = prefix_sums_eq [OF all]
  obtain a c where ac: "fill_adj ?off edges = (a, c)" by (cases "fill_adj ?off edges")
  have g: "g = \<lparr>offsets = ?off, adj = a\<rparr>"
    using assms(1) ac by (auto simp: from_edges_def Let_def split: if_splits)
  have adj: "length a = length edges"
    "\<And>k. k < length (out_edges edges v) \<Longrightarrow> a ! (block_start edges v + k) = out_edges edges v ! k"
    using fill_adj_prefix [OF all off, of edges "[]"] ac assms(2) by (auto simp: fill_adj_def)
  have "block_start edges (Suc v) \<le> block_start edges n"
    using assms(2) by (intro block_start_mono) simp
  then have "block_start edges v + length (out_edges edges v) \<le> length a"
    using adj(1) block_start_total [OF all] by (simp add: block_start_Suc)
  then show ?thesis
    using off(2) assms(2) adj(2)
    by (intro nth_equalityI) (auto simp: neighbors_def g Let_def block_start_Suc)
qed

section \<open>Well-formed graphs\<close>

definition wf_csr :: "csr_graph \<Rightarrow> bool" where
  "wf_csr g \<longleftrightarrow> offsets g \<noteq> [] \<and>
     list_all (\<lambda>v. offsets g ! v \<le> offsets g ! (v + 1)) [0..<num_nodes g] \<and>
     offsets g ! num_nodes g = length (adj g) \<and> list_all (\<lambda>w. w < num_nodes g) (adj g)"

lemma wf_csr_offsets_le:
  assumes "wf_csr g" "u \<le> v" "v \<le> num_nodes g"
  shows "offsets g ! u \<le> offsets g ! v"
  using assms(2,3)
proof (induction rule: dec_induct)
  case (step k)
  then have "offsets g ! k \<le> offsets g ! (k + 1)"
    using assms(1) by (simp add: wf_csr_def list_all_iff)
  with step show ?case by simp
qed simp

lemma wf_csr_end: "wf_csr g \<Longrightarrow> v < num_nodes g \<Longrightarrow> offsets g ! (v + 1) \<le> length (adj g)"
  using wf_csr_offsets_le [of g "v + 1" "num_nodes g"] by (simp add: wf_csr_def)

lemma wf_csr_adj: "wf_csr g \<Longrightarrow> v < num_nodes g \<Longrightarrow> c < offsets g ! (v + 1) \<Longrightarrow> adj g ! c < num_nodes g"
  using wf_csr_end [of g v] by (auto simp: wf_csr_def list_all_length)

lemma set_neighbors:
  assumes "wf_csr g" "v < num_nodes g"
  shows "set (neighbors g v) = {adj g ! c | c. offsets g ! v \<le> c \<and> c < offsets g ! (v + 1)}"
proof -
  let ?s = "offsets g ! v" and ?e = "offsets g ! (v + 1)"
  have le: "?s \<le> ?e" "?e \<le> length (adj g)"
    using assms wf_csr_end [OF assms] by (auto simp: wf_csr_def list_all_iff)
  have "w \<in> set (neighbors g v) \<longleftrightarrow> (\<exists>c. w = adj g ! c \<and> ?s \<le> c \<and> c < ?e)" for w
  proof
    assume "w \<in> set (neighbors g v)"
    then obtain i where "i < ?e - ?s" "w = adj g ! (?s + i)"
      using le by (auto simp: neighbors_def Let_def in_set_conv_nth)
    then show "\<exists>c. w = adj g ! c \<and> ?s \<le> c \<and> c < ?e"
      by (intro exI [of _ "?s + i"]) auto
  next
    assume "\<exists>c. w = adj g ! c \<and> ?s \<le> c \<and> c < ?e"
    then obtain c where "w = adj g ! c" "?s \<le> c" "c < ?e" by blast
    then show "w \<in> set (neighbors g v)"
      using le by (auto simp: neighbors_def Let_def in_set_conv_nth intro!: exI [of _ "c - ?s"])
  qed
  then show ?thesis by blast
qed

lemma neighbors_bound: "wf_csr g \<Longrightarrow> v < num_nodes g \<Longrightarrow> w \<in> set (neighbors g v) \<Longrightarrow> w < num_nodes g"
  by (auto simp: set_neighbors wf_csr_adj)

lemma num_nodes_from_edges: "from_edges n edges = Some g \<Longrightarrow> num_nodes g = n"
proof -
  assume g: "from_edges n edges = Some g"
  then have "\<forall>(u, v)\<in>set edges. u < n"
    by (auto simp: from_edges_def list_ex_iff split: if_splits)
  from prefix_sums_eq(1) [OF this] g show ?thesis
    by (auto simp: from_edges_def Let_def num_nodes_def split: if_splits)
qed

section \<open>The invariant of the leveling\<close>

definition live_edges :: "csr_graph \<Rightarrow> bool list \<Rightarrow> (nat \<times> nat) set" where
  "live_edges g settled =
     {(v, w). v < num_nodes g \<and> \<not> settled ! v \<and> w \<in> set (neighbors g v) \<and> \<not> settled ! w}"

text \<open>What is left of a node's neighbors once it is leveled: settled, lower, or a way back.\<close>

definition leveled_ok ::
  "csr_graph \<Rightarrow> bool list \<Rightarrow> nat option list \<Rightarrow> nat \<Rightarrow> nat \<Rightarrow> bool" where
  "leveled_ok g settled lev v l \<longleftrightarrow> \<not> settled ! v \<and>
     (\<forall>w\<in>set (neighbors g v). settled ! w \<or> (\<exists>k<l. lev ! w = Some k) \<or>
        (w, v) \<in> (live_edges g settled)\<^sup>*)"

definition frame_ok :: "csr_graph \<Rightarrow> bool list \<Rightarrow> level_state \<Rightarrow> nat \<times> nat \<Rightarrow> bool" where
  "frame_ok g settled s f \<longleftrightarrow> (case f of (v, c) \<Rightarrow>
     v < num_nodes g \<and> \<not> settled ! v \<and> level s ! v = None \<and>
     offsets g ! v \<le> c \<and> c \<le> offsets g ! (v + 1) \<and>
     (\<forall>i. offsets g ! v \<le> i \<and> i < c \<longrightarrow>
        settled ! (adj g ! i) \<or> level s ! (adj g ! i) \<noteq> None \<or> expanding s ! (adj g ! i)))"

definition level_inv :: "csr_graph \<Rightarrow> bool list \<Rightarrow> level_state \<Rightarrow> bool" where
  "level_inv g settled s \<longleftrightarrow>
     length (level s) = num_nodes g \<and> length (expanding s) = num_nodes g \<and>
     distinct (map fst (work s)) \<and>
     (\<forall>v<num_nodes g. expanding s ! v \<longleftrightarrow> v \<in> set (map fst (work s))) \<and>
     (\<forall>f\<in>set (work s). frame_ok g settled s f) \<and>
     successively (\<lambda>f f'. (fst f', fst f) \<in> live_edges g settled) (work s) \<and>
     (\<forall>v<num_nodes g. \<forall>l. level s ! v = Some l \<longrightarrow> leveled_ok g settled (level s) v l)"

definition touched :: "csr_graph \<Rightarrow> level_state \<Rightarrow> nat set" where
  "touched g s = {v. v < num_nodes g \<and> (level s ! v \<noteq> None \<or> expanding s ! v)}"

lemma stack_reaches_top:
  assumes "successively (\<lambda>f f'. (fst f', fst f) \<in> R) (x # xs)" "f \<in> set (x # xs)"
  shows "(fst f, fst x) \<in> R\<^sup>*"
  using assms
proof (induction xs arbitrary: x)
  case (Cons y ys)
  show ?case
  proof (cases "f = x")
    case False
    with Cons have "(fst f, fst y) \<in> R\<^sup>*" by auto
    with Cons.prems(1) show ?thesis by (auto intro: rtrancl_into_rtrancl)
  qed simp
qed simp

lemma max_list_ge: "x \<in> set xs \<Longrightarrow> \<exists>m. max_list xs = Some m \<and> x \<le> m"
proof -
  have "y \<in> set ys \<Longrightarrow> y \<le> foldr max ys 0" for y :: nat and ys
    by (induction ys) (auto simp: le_max_iff_disj)
  then show "x \<in> set xs \<Longrightarrow> \<exists>m. max_list xs = Some m \<and> x \<le> m"
    by (auto simp: max_list_def)
qed

lemma node_level_above:
  assumes "w \<in> set (neighbors g v)" "\<not> settled ! w" "lev ! w = Some k"
  shows "k < node_level g settled lev v"
proof -
  let ?xs = "map (\<lambda>w. the (lev ! w) + 1) (filter (\<lambda>w. \<not> settled ! w \<and> lev ! w \<noteq> None) (neighbors g v))"
  have "k + 1 \<in> set ?xs" using assms by (force simp: image_iff)
  from max_list_ge [OF this] show ?thesis by (auto simp: node_level_def)
qed

text \<open>The three kinds of rounds: an edge that is skipped, an edge that is followed, a finished node.\<close>

lemma level_inv_skip:
  assumes inv: "level_inv g settled s" and w: "work s = (v, c) # rest" "c < offsets g ! (v + 1)"
    "settled ! (adj g ! c) \<or> level s ! (adj g ! c) \<noteq> None \<or> expanding s ! (adj g ! c)"
  shows "level_inv g settled (s\<lparr>work := (v, c + 1) # rest\<rparr>)"
proof -
  have "frame_ok g settled s (v, c)" using inv w by (simp add: level_inv_def)
  then have "frame_ok g settled (s\<lparr>work := (v, c + 1) # rest\<rparr>) (v, c + 1)"
    using w by (auto simp: frame_ok_def less_Suc_eq)
  moreover have "frame_ok g settled (s\<lparr>work := (v, c + 1) # rest\<rparr>) f = frame_ok g settled s f" for f
    by (simp add: frame_ok_def)
  moreover have "successively R ((v, c + 1) # rest) = successively R ((v, c) # rest)"
    if "\<And>f c c'. R (v, c) f = R (v, c') f" for R
    using that by (cases rest) auto
  ultimately show ?thesis using inv w by (simp add: level_inv_def)
qed

lemma level_inv_push:
  assumes wf: "wf_csr g" and inv: "level_inv g settled s"
    and w: "w < num_nodes g" "\<not> settled ! w" "level s ! w = None" "\<not> expanding s ! w"
    and edge: "work s = [] \<or> (fst (hd (work s)), w) \<in> live_edges g settled"
  shows "level_inv g settled (s\<lparr>expanding := (expanding s)[w := True], work := (w, offsets g ! w) # work s\<rparr>)"
    (is "level_inv g settled ?s")
proof -
  have "frame_ok g settled ?s (w, offsets g ! w)"
    using w wf by (auto simp: frame_ok_def wf_csr_def list_all_iff)
  moreover have "frame_ok g settled ?s f" if "f \<in> set (work s)" for f
  proof -
    have "expanding ?s ! x" if "expanding s ! x" for x
      using that inv w(1) by (cases "x = w") (simp_all add: level_inv_def)
    moreover have "frame_ok g settled s f" using inv that by (simp add: level_inv_def)
    ultimately show ?thesis by (cases f) (auto simp: frame_ok_def)
  qed
  moreover have "w \<notin> fst ` set (work s)" using inv w by (auto simp: level_inv_def)
  moreover have "successively (\<lambda>f f'. (fst f', fst f) \<in> live_edges g settled) ((w, offsets g ! w) # work s)"
    using inv edge by (cases "work s") (auto simp: level_inv_def)
  ultimately show ?thesis using inv w(1) by (auto simp: level_inv_def nth_list_update)
qed

lemma level_inv_finish:
  assumes wf: "wf_csr g" and inv: "level_inv g settled s"
    and w: "work s = (v, c) # rest" "\<not> c < offsets g ! (v + 1)"
  shows "level_inv g settled (s\<lparr>level := (level s)[v := Some (node_level g settled (level s) v)],
    expanding := (expanding s)[v := False], work := rest\<rparr>)" (is "level_inv g settled ?s")
proof -
  let ?l = "node_level g settled (level s) v"
  have frame: "v < num_nodes g" "\<not> settled ! v" "level s ! v = None"
    "\<forall>w\<in>set (neighbors g v). settled ! w \<or> level s ! w \<noteq> None \<or> expanding s ! w"
    using inv w wf by (auto simp: level_inv_def frame_ok_def set_neighbors)
  have len: "length (level s) = num_nodes g" "length (expanding s) = num_nodes g"
    using inv by (simp_all add: level_inv_def)
  have v: "v \<notin> fst ` set rest" "distinct (map fst rest)" using inv w by (auto simp: level_inv_def)
  have keep: "level ?s ! u = level s ! u" if "level s ! u \<noteq> None" for u
    using that frame(3) by (cases "u = v") auto
  have new: "leveled_ok g settled (level ?s) v ?l"
    unfolding leveled_ok_def
  proof (intro conjI ballI)
    fix u assume u: "u \<in> set (neighbors g v)"
    show "settled ! u \<or> (\<exists>k<?l. level ?s ! u = Some k) \<or> (u, v) \<in> (live_edges g settled)\<^sup>*"
    proof (cases "settled ! u \<or> level s ! u \<noteq> None")
      case True
      then show ?thesis
        using node_level_above [OF u] keep [of u] by (cases "settled ! u") auto
    next
      case False
      with frame(4) u have "expanding s ! u" by blast
      moreover have "u < num_nodes g" using neighbors_bound [OF wf frame(1) u] .
      ultimately obtain cu where "(u, cu) \<in> set (work s)"
        using inv by (auto simp: level_inv_def)
      moreover have "successively (\<lambda>f f'. (fst f', fst f) \<in> live_edges g settled) ((v, c) # rest)"
        using inv w by (simp add: level_inv_def)
      ultimately show ?thesis using stack_reaches_top [of _ "(v, c)" rest "(u, cu)"] w by simp
    qed
  qed (use frame in simp)
  have old: "leveled_ok g settled (level ?s) u k" if "leveled_ok g settled (level s) u k" for u k
    using that keep unfolding leveled_ok_def by (metis option.distinct(1))
  have "frame_ok g settled ?s f" if f: "f \<in> set rest" for f
  proof -
    obtain u cu where fu: "f = (u, cu)" by (cases f)
    have "frame_ok g settled s f" using inv w f by (simp add: level_inv_def)
    moreover have "u \<noteq> v" using v f fu by force
    ultimately show ?thesis
      using frame(1) len by (auto simp: frame_ok_def fu nth_list_update)
  qed
  moreover have "successively (\<lambda>f f'. (fst f', fst f) \<in> live_edges g settled) rest"
    using inv w by (cases rest) (auto simp: level_inv_def)
  moreover have "leveled_ok g settled (level ?s) u k" if "u < num_nodes g" "level ?s ! u = Some k" for u k
  proof (cases "u = v")
    case True
    with that(2) frame(1) len have "k = ?l" by simp
    with new True show ?thesis by simp
  next
    case False
    with that inv show ?thesis by (intro old) (simp add: level_inv_def)
  qed
  moreover have "expanding ?s ! u \<longleftrightarrow> u \<in> set (map fst rest)" if "u < num_nodes g" for u
    using that inv w v len by (cases "u = v") (simp_all add: level_inv_def)
  ultimately show ?thesis
    using len v by (simp add: level_inv_def)
qed

section \<open>The loop ends and levels every node it touches\<close>

definition white :: "csr_graph \<Rightarrow> level_state \<Rightarrow> nat set" where
  "white g s = {v. v < num_nodes g \<and> level s ! v = None \<and> \<not> expanding s ! v}"

definition level_measure :: "csr_graph \<Rightarrow> (level_state \<times> level_state) set" where
  "level_measure g = measures [\<lambda>s. card (white g s),
     \<lambda>s. sum_list (map (\<lambda>(v, c). offsets g ! (v + 1) - c) (work s)), \<lambda>s. length (work s)]"

definition grows :: "csr_graph \<Rightarrow> level_state \<Rightarrow> level_state \<Rightarrow> bool" where
  "grows g s s' \<longleftrightarrow> touched g s \<subseteq> touched g s' \<and>
     (\<forall>v<num_nodes g. \<forall>l. level s ! v = Some l \<longrightarrow> level s' ! v = Some l)"

lemma grows_refl: "grows g s s"
  by (simp add: grows_def)

lemma grows_trans: "grows g s s' \<Longrightarrow> grows g s' s'' \<Longrightarrow> grows g s s''"
  by (auto simp: grows_def)

lemma level_step_ok:
  assumes wf: "wf_csr g" and inv: "level_inv g settled s" and "work s \<noteq> []"
  shows "level_inv g settled (level_step g settled s)"
    and "(level_step g settled s, s) \<in> level_measure g"
    and "grows g s (level_step g settled s)"
proof -
  obtain v c rest where w: "work s = (v, c) # rest" using assms(3) by (cases "work s") auto
  have frame: "v < num_nodes g" "\<not> settled ! v" "level s ! v = None" "offsets g ! v \<le> c" "expanding s ! v"
    using inv w by (auto simp: level_inv_def frame_ok_def)
  have len: "length (level s) = num_nodes g" "length (expanding s) = num_nodes g"
    using inv by (simp_all add: level_inv_def)
  have "level_inv g settled (level_step g settled s) \<and>
      (level_step g settled s, s) \<in> level_measure g \<and> grows g s (level_step g settled s)"
  proof (cases "c < offsets g ! (v + 1)")
    case True
    let ?w = "adj g ! c"
    have bound: "?w < num_nodes g" using wf_csr_adj [OF wf frame(1) True] .
    show ?thesis
    proof (cases "settled ! ?w \<or> level s ! ?w \<noteq> None \<or> expanding s ! ?w")
      case skip: True
      then have step: "level_step g settled s = s\<lparr>work := (v, c + 1) # rest\<rparr>"
        using w True by (auto simp: level_step_def Let_def)
      have "white g (s\<lparr>work := (v, c + 1) # rest\<rparr>) = white g s" by (simp add: white_def)
      then have "(s\<lparr>work := (v, c + 1) # rest\<rparr>, s) \<in> level_measure g"
        using True w by (simp add: level_measure_def)
      then show ?thesis
        using level_inv_skip [OF inv w True skip] step
        by (simp add: grows_def touched_def)
    next
      case False
      let ?s1 = "s\<lparr>work := (v, c + 1) # rest\<rparr>"
      let ?s2 = "?s1\<lparr>expanding := (expanding ?s1)[?w := True], work := (?w, offsets g ! ?w) # work ?s1\<rparr>"
      have step: "level_step g settled s = ?s2"
        using w True False by (simp add: level_step_def Let_def)
      have "frame_ok g settled ?s2 (v, c + 1)"
      proof -
        have "frame_ok g settled s (v, c)" using inv w by (simp add: level_inv_def)
        moreover have "expanding ?s2 ! x" if "expanding s ! x" for x
          using that bound len by (cases "x = ?w") simp_all
        moreover have "expanding ?s2 ! ?w" using bound len by simp
        ultimately show ?thesis using True by (auto simp: frame_ok_def less_Suc_eq)
      qed
      have edge: "(v, ?w) \<in> live_edges g settled"
        using frame True False wf by (auto simp: live_edges_def set_neighbors)
      have inv2: "level_inv g settled ?s2"
      proof -
        let ?t = "s\<lparr>expanding := (expanding s)[?w := True], work := (?w, offsets g ! ?w) # work s\<rparr>"
        have t: "level_inv g settled ?t"
          using level_inv_push [OF wf inv bound] False edge w by simp
        have same: "frame_ok g settled ?s2 f = frame_ok g settled ?t f" for f
          by (simp add: frame_ok_def)
        have "successively (\<lambda>f f'. (fst f', fst f) \<in> live_edges g settled) (work ?s2)"
          using t w by (cases rest) (simp_all add: level_inv_def)
        with t w \<open>frame_ok g settled ?s2 (v, c + 1)\<close> show ?thesis
          unfolding level_inv_def same by simp
      qed
      have "white g ?s2 = white g s - {?w}"
        using bound len by (auto simp: white_def nth_list_update split: if_splits)
      moreover have "?w \<in> white g s" using bound False by (simp add: white_def)
      ultimately have "card (white g ?s2) < card (white g s)"
        by (metis card_Diff1_less finite_Collect_conjI finite_Collect_less_nat white_def)
      then have "(?s2, s) \<in> level_measure g" by (simp add: level_measure_def)
      moreover have "grows g s ?s2"
        using bound len by (auto simp: grows_def touched_def nth_list_update)
      ultimately show ?thesis using inv2 step by simp
    qed
  next
    case False
    let ?s = "s\<lparr>level := (level s)[v := Some (node_level g settled (level s) v)],
        expanding := (expanding s)[v := False], work := rest\<rparr>"
    have step: "level_step g settled s = ?s"
      using w False by (simp add: level_step_def)
    have "level ?s ! u = None \<and> \<not> expanding ?s ! u \<longleftrightarrow> level s ! u = None \<and> \<not> expanding s ! u"
      if "u < num_nodes g" for u
      using that frame len by (cases "u = v") simp_all
    then have "white g ?s = white g s" by (auto simp: white_def)
    then have "(?s, s) \<in> level_measure g"
      using False w by (simp add: level_measure_def)
    moreover have "grows g s ?s"
    proof -
      have "level ?s ! u = Some l" if "u < num_nodes g" "level s ! u = Some l" for u l
        using that frame(3) by (cases "u = v") simp_all
      moreover have "level ?s ! u \<noteq> None \<or> expanding ?s ! u"
        if "u < num_nodes g" "level s ! u \<noteq> None \<or> expanding s ! u" for u
        using that frame len by (cases "u = v") simp_all
      ultimately show ?thesis by (simp add: grows_def touched_def Collect_mono_iff)
    qed
    ultimately show ?thesis using level_inv_finish [OF wf inv w False] step by simp
  qed
  then show "level_inv g settled (level_step g settled s)"
    "(level_step g settled s, s) \<in> level_measure g" "grows g s (level_step g settled s)" by blast+
qed

lemma level_loop_ok:
  assumes wf: "wf_csr g"
  shows "level_inv g settled s \<Longrightarrow> \<exists>s'. level_loop g settled s = Some s' \<and>
    level_inv g settled s' \<and> work s' = [] \<and> grows g s s'"
proof (induction s rule: wf_induct [of "level_measure g"])
  case 1
  show ?case by (simp add: level_measure_def)
next
  case (2 s)
  show ?case
  proof (cases "work s = []")
    case True
    then have "level_loop g settled s = Some s" by (subst level_loop.simps) simp
    with True 2(2) show ?thesis by (auto intro: grows_refl)
  next
    case False
    note step = level_step_ok [OF wf 2(2) False]
    then obtain s' where s': "level_loop g settled (level_step g settled s) = Some s'"
        "level_inv g settled s'" "work s' = []" "grows g (level_step g settled s) s'"
      using 2(1) by blast
    have "level_loop g settled s = Some s'" using s'(1) False by (subst level_loop.simps) simp
    with s' step(3) show ?thesis by (blast intro: grows_trans)
  qed
qed

lemma level_starts_ok:
  assumes wf: "wf_csr g"
  shows "level_inv g settled s \<Longrightarrow> work s = [] \<Longrightarrow> \<forall>v\<in>set starts. v < num_nodes g \<Longrightarrow>
    \<exists>s'. level_starts g settled starts s = Some s' \<and> level_inv g settled s' \<and> work s' = [] \<and>
      grows g s s' \<and> (\<forall>v\<in>set starts. settled ! v \<or> level s' ! v \<noteq> None)"
proof (induction starts arbitrary: s)
  case Nil
  then show ?case by (auto intro: grows_refl)
next
  case (Cons v vs)
  show ?case
  proof (cases "settled ! v \<or> level s ! v \<noteq> None")
    case True
    with Cons.IH [OF Cons.prems(1,2)] Cons.prems(3) obtain s' where
      "level_starts g settled vs s = Some s'" "level_inv g settled s'" "work s' = []"
      "grows g s s'" "\<forall>v\<in>set vs. settled ! v \<or> level s' ! v \<noteq> None" by auto
    with True Cons.prems(3) show ?thesis by (auto simp: grows_def)
  next
    case False
    let ?s = "s\<lparr>expanding := (expanding s)[v := True], work := (v, offsets g ! v) # work s\<rparr>"
    have "\<not> expanding s ! v" using Cons.prems by (simp add: level_inv_def)
    then have inv: "level_inv g settled ?s"
      using level_inv_push [OF wf Cons.prems(1)] Cons.prems(2,3) False by simp
    from level_loop_ok [OF wf inv] obtain s1 where s1: "level_loop g settled ?s = Some s1"
      "level_inv g settled s1" "work s1 = []" "grows g ?s s1" by blast
    then obtain s' where s': "level_starts g settled vs s1 = Some s'" "level_inv g settled s'"
      "work s' = []" "grows g s1 s'" "\<forall>v\<in>set vs. settled ! v \<or> level s' ! v \<noteq> None"
      using Cons.IH [of s1] Cons.prems(3) by auto
    have v: "v < num_nodes g" "length (expanding s) = num_nodes g"
      using Cons.prems by (simp_all add: level_inv_def)
    have "v \<in> touched g ?s" using v by (simp add: touched_def)
    then have "v \<in> touched g s1" using s1(4) by (auto simp: grows_def)
    then have "level s1 ! v \<noteq> None" using s1(2,3) by (auto simp: touched_def level_inv_def)
    then have "level s' ! v \<noteq> None" using s'(4) v(1) by (auto simp: grows_def)
    moreover have "touched g s \<subseteq> touched g ?s"
      using v by (auto simp: touched_def nth_list_update)
    then have "grows g s ?s" by (simp add: grows_def)
    then have "grows g s s'" using s1(4) s'(4) by (blast intro: grows_trans)
    moreover have "s\<lparr>work := (v, offsets g ! v) # work s, expanding := (expanding s)[v := True]\<rparr> = ?s"
      by simp
    ultimately show ?thesis
      using s' s1(1) False by (simp only: level_starts.simps) auto
  qed
qed

section \<open>The levels\<close>

lemma foldl_group:
  assumes "\<forall>(node, l)\<in>set xs. \<forall>k. l = Some k \<longrightarrow> k < length levels"
  shows "foldl (\<lambda>levels (node, l). case l of None \<Rightarrow> levels | Some k \<Rightarrow> levels[k := levels ! k @ [node]])
      levels xs =
    map (\<lambda>k. levels ! k @ map fst (filter (\<lambda>(node, l). l = Some k) xs)) [0..<length levels]"
  using assms
proof (induction xs arbitrary: levels)
  case Nil
  show ?case by (simp add: map_nth)
next
  case (Cons x xs)
  obtain node l where x: "x = (node, l)" by (cases x)
  show ?case
  proof (cases l)
    case None
    with Cons x show ?thesis by auto
  next
    case (Some k)
    let ?levels = "levels[k := levels ! k @ [node]]"
    have "\<forall>(node, l)\<in>set xs. \<forall>k. l = Some k \<longrightarrow> k < length ?levels"
      using Cons.prems by auto
    from Cons.IH [OF this] show ?thesis
      using Cons.prems x Some by (auto intro!: nth_equalityI simp: nth_list_update)
  qed
qed

lemma filter_zip_nodes:
  "map fst (filter (\<lambda>(node, l). l = Some k) (zip [0..<length lev] lev)) =
     filter (\<lambda>v. lev ! v = Some k) [0..<length lev]"
proof -
  have "zip [0..<length lev] lev = map (\<lambda>v. (v, lev ! v)) [0..<length lev]"
    by (rule nth_equalityI) simp_all
  then show ?thesis by (simp add: filter_map comp_def)
qed

lemma group_levels_nth:
  "(\<forall>k<length (group_levels lev). group_levels lev ! k = filter (\<lambda>v. lev ! v = Some k) [0..<length lev]) \<and>
   (\<forall>v<length lev. \<forall>k. lev ! v = Some k \<longrightarrow> k < length (group_levels lev))"
proof (cases "max_list (map the (filter (\<lambda>l. l \<noteq> None) lev))")
  case None
  then have "\<forall>l\<in>set lev. l = None" by (auto simp: max_list_def filter_empty_conv split: if_splits)
  with None show ?thesis by (auto simp: group_levels_def dest: nth_mem)
next
  case (Some deepest)
  have top: "k \<le> deepest" if "Some k \<in> set lev" for k
  proof -
    have "k \<in> set (map the (filter (\<lambda>l. l \<noteq> None) lev))" using that by force
    from max_list_ge [OF this] Some show ?thesis by simp
  qed
  have "\<forall>(node, l)\<in>set (zip [0..<length lev] lev). \<forall>k. l = Some k \<longrightarrow>
      k < length (replicate (deepest + 1) ([] :: nat list))"
    using top by (auto dest!: set_zip_rightD simp: less_Suc_eq_le)
  note grouped = foldl_group [OF this]
  have "group_levels lev = map (\<lambda>k. filter (\<lambda>v. lev ! v = Some k) [0..<length lev]) [0..<deepest + 1]"
    unfolding group_levels_def Some option.case grouped
    by (rule map_cong) (auto simp add: filter_zip_nodes simp del: upt_Suc replicate_Suc)
  with top show ?thesis by (auto simp: less_Suc_eq_le nth_mem simp del: upt_Suc dest!: nth_mem)
qed

definition good_levels :: "csr_graph \<Rightarrow> bool list \<Rightarrow> (nat \<times> nat) set \<Rightarrow> nat list list \<Rightarrow> bool" where
  "good_levels g settled back levels \<longleftrightarrow>
     distinct (concat levels) \<and> set (concat levels) = {v. v < num_nodes g \<and> \<not> settled ! v} \<and>
     (\<forall>i<length levels. \<forall>v\<in>set (levels ! i). \<forall>w\<in>set (neighbors g v).
        settled ! w \<or> (\<exists>j<i. w \<in> set (levels ! j)) \<or> (w, v) \<in> back)"

lemma distinct_concat_map:
  assumes "\<And>i. distinct (f i)" "\<And>i j. i \<noteq> j \<Longrightarrow> set (f i) \<inter> set (f j) = {}"
  shows "distinct (concat (map f [0..<m]))"
proof (induction m)
  case (Suc m)
  have "\<forall>i\<in>{0..<m}. set (f i) \<inter> set (f m) = {}" using assms(2) by auto
  then have "(\<Union>i\<in>{0..<m}. set (f i)) \<inter> set (f m) = {}" by blast
  with Suc assms(1) show ?case by simp
qed simp

lemma dependency_levels_ok:
  assumes wf: "wf_csr g" and len: "length settled = num_nodes g"
  shows "\<exists>levels. dependency_levels g settled = Some levels \<and>
    good_levels g settled ((live_edges g settled)\<^sup>*) levels"
proof -
  let ?n = "num_nodes g"
  let ?s = "\<lparr>level = replicate ?n None, expanding = replicate ?n False, work = []\<rparr>"
  have "level_inv g settled ?s" by (simp add: level_inv_def)
  then obtain s' where s': "level_starts g settled [0..<?n] ?s = Some s'" "level_inv g settled s'"
    "\<forall>v\<in>set [0..<?n]. settled ! v \<or> level s' ! v \<noteq> None"
    using level_starts_ok [OF wf, of settled ?s "[0..<?n]"] by auto
  let ?lev = "level s'"
  let ?levels = "group_levels ?lev"
  have n: "length ?lev = ?n" using s'(2) by (simp add: level_inv_def)
  note nth = group_levels_nth [of ?lev]
  define f where "f k = filter (\<lambda>v. ?lev ! v = Some k) [0..<?n]" for k
  have levels: "?levels = map f [0..<length ?levels]"
    using nth by (intro nth_equalityI) (simp_all add: f_def n)
  have mem: "w \<in> set (?levels ! k)" if "w < ?n" "?lev ! w = Some k" for w k
    using nth that n by (auto simp: f_def)
  have "distinct (concat (map f [0..<length ?levels]))"
    by (rule distinct_concat_map) (auto simp: f_def)
  then have "distinct (concat ?levels)" using levels by simp
  moreover have "set (concat ?levels) = {v. v < ?n \<and> \<not> settled ! v}"
  proof (intro set_eqI iffI)
    fix v assume "v \<in> set (concat ?levels)"
    then have "v \<in> set (concat (map f [0..<length ?levels]))" using levels by simp
    then obtain k where "v < ?n" "?lev ! v = Some k" by (auto simp: f_def)
    with s'(2) show "v \<in> {v. v < ?n \<and> \<not> settled ! v}" by (auto simp: level_inv_def leveled_ok_def)
  next
    fix v assume "v \<in> {v. v < ?n \<and> \<not> settled ! v}"
    then obtain k where "v < ?n" "?lev ! v = Some k" using s'(3) by auto
    then have "v \<in> set (?levels ! k)" "k < length ?levels" using mem nth n by auto
    then show "v \<in> set (concat ?levels)" by (auto intro: nth_mem)
  qed
  moreover have "settled ! w \<or> (\<exists>j<i. w \<in> set (?levels ! j)) \<or> (w, v) \<in> (live_edges g settled)\<^sup>*"
    if "i < length ?levels" "v \<in> set (?levels ! i)" "w \<in> set (neighbors g v)" for i v w
  proof -
    have v: "v < ?n" "?lev ! v = Some i" using that(1,2) nth n by auto
    then have "leveled_ok g settled ?lev v i" using s'(2) by (simp add: level_inv_def)
    with that(3) have "settled ! w \<or> (\<exists>k<i. ?lev ! w = Some k) \<or> (w, v) \<in> (live_edges g settled)\<^sup>*"
      by (simp add: leveled_ok_def)
    then show ?thesis using mem [OF neighbors_bound [OF wf v(1) that(3)]] by blast
  qed
  ultimately have "good_levels g settled ((live_edges g settled)\<^sup>*) ?levels"
    by (simp add: good_levels_def)
  moreover have "dependency_levels g settled = Some ?levels"
    using s'(1) len by (simp add: dependency_levels_def)
  ultimately show ?thesis by blast
qed

text \<open>
  The compressed adjacency is the edge list. Building the graph succeeds for every edge list
  whose endpoints are nodes, and the neighbors of a node are the targets of its edges, duplicates
  and self-loops included, in the order the edges were given.
\<close>

theorem from_edges_correct:
  assumes "\<forall>(u, v)\<in>set edges. u < n \<and> v < n"
  shows "\<exists>g. from_edges n edges = Some g \<and> wf_csr g \<and> num_nodes g = n \<and>
    (\<forall>v<n. neighbors g v = map snd (filter (\<lambda>e. fst e = v) edges))"
proof -
  have u: "\<forall>(u, v)\<in>set edges. u < n" using assms by auto
  let ?off = "prefix_sums n (count_edges n edges)"
  obtain a c where ac: "fill_adj ?off edges = (a, c)" by (cases "fill_adj ?off edges")
  define g where "g = \<lparr>offsets = ?off, adj = a\<rparr>"
  have some: "from_edges n edges = Some g"
    using u by (auto simp: from_edges_def list_ex_iff g_def ac Let_def)
  note off = prefix_sums_eq [OF u]
  have len: "length a = length edges"
    using fill_adj_prefix [OF u off, of edges "[]"] ac by (simp add: fill_adj_def)
  have n: "num_nodes g = n" using num_nodes_from_edges [OF some] .
  have "a ! i < n" if "i < length a" for i
  proof -
    define v where "v = (GREATEST v. v \<le> n \<and> block_start edges v \<le> i)"
    have "0 \<le> n \<and> block_start edges 0 \<le> i" by simp
    then have v: "v \<le> n \<and> block_start edges v \<le> i"
      unfolding v_def by (rule GreatestI_nat) blast
    have "v < n"
      using v that len block_start_total [OF u] by (cases "v = n") auto
    moreover have "i < block_start edges (Suc v)"
    proof (rule ccontr)
      assume "\<not> i < block_start edges (Suc v)"
      with \<open>v < n\<close> have "Suc v \<le> v"
        unfolding v_def by (intro Greatest_le_nat [where b = n]) auto
      then show False by simp
    qed
    ultimately have "v < n" "i - block_start edges v < length (out_edges edges v)"
        "block_start edges v + (i - block_start edges v) = i"
      using v by (auto simp: block_start_Suc)
    moreover have "out_edges edges v ! k < n" if "k < length (out_edges edges v)" for k
      using nth_mem [OF that] assms by (auto simp: out_edges_def)
    ultimately show ?thesis
      using fill_adj_prefix [OF u off, of edges "[]"] ac by (fastforce simp: fill_adj_def)
  qed
  then have "wf_csr g"
    using off n len block_start_total [OF u] block_start_mono [of _ "Suc _" edges]
    by (auto simp: wf_csr_def list_all_iff g_def in_set_conv_nth)
  with some n show ?thesis
    using from_edges_neighbors [OF some] by (auto simp: out_edges_def)
qed

lemma from_edges_correct_witness:
  "\<exists>g. from_edges 3 [(2, 0), (0, 1), (2, 2), (0, 1)] = Some g \<and> wf_csr g \<and> num_nodes g = 3 \<and>
    (\<forall>v<3. neighbors g v = map snd (filter (\<lambda>e. fst e = v) [(2, 0), (0, 1), (2, 2), (0, 1)]))"
  by (rule from_edges_correct) simp

text \<open>
  The dependency levels of a well-formed graph always exist and hold every unsettled node
  once. When the callers settled the cycles beforehand, that is when the edges between unsettled
  nodes have no cycle, every unsettled neighbor of a node is in an earlier level than the node.
\<close>

theorem dependency_levels_correct:
  assumes "wf_csr g" "length settled = num_nodes g" "acyclic (live_edges g settled)"
  shows "\<exists>levels. dependency_levels g settled = Some levels \<and> good_levels g settled {} levels"
proof -
  obtain levels where levels: "dependency_levels g settled = Some levels"
      "good_levels g settled ((live_edges g settled)\<^sup>*) levels"
    using dependency_levels_ok [OF assms(1,2)] by blast
  have "(w, v) \<notin> (live_edges g settled)\<^sup>*"
    if "i < length levels" "v \<in> set (levels ! i)" "w \<in> set (neighbors g v)" "\<not> settled ! w" for i v w
  proof
    assume way: "(w, v) \<in> (live_edges g settled)\<^sup>*"
    have "v \<in> set (concat levels)" using that(2) nth_mem [OF that(1)] by auto
    then have "(v, w) \<in> live_edges g settled"
      using levels(2) that(3,4) by (auto simp: good_levels_def live_edges_def)
    from rtrancl_into_trancl2 [OF this way] assms(3) show False by (auto simp: acyclic_def)
  qed
  with levels(2) have "good_levels g settled {} levels"
    unfolding good_levels_def by blast
  with levels(1) show ?thesis by blast
qed

definition sample_graph :: csr_graph where
  "sample_graph = \<lparr>offsets = [0, 2, 3, 3], adj = [1, 2, 2]\<rparr>"

lemma dependency_levels_correct_witness:
  "\<exists>levels. dependency_levels sample_graph [False, False, False] = Some levels \<and>
     good_levels sample_graph [False, False, False] {} levels"
proof (rule dependency_levels_correct)
  show "wf_csr sample_graph" by code_simp
  show "length [False, False, False] = num_nodes sample_graph" by code_simp
  have "live_edges sample_graph [False, False, False] \<subseteq> less_than"
    by (auto simp: live_edges_def sample_graph_def num_nodes_def neighbors_def Let_def less_Suc_eq
        numeral_eq_Suc)
  then show "acyclic (live_edges sample_graph [False, False, False])"
    using acyclic_subset wf_acyclic wf_less_than by blast
qed

end
