(* ===== verification/Csr_Cycles.thy ===== *)
theory Csr_Cycles
  imports Csr_Graph
begin

text \<open>
  The cycle members of the compact call graph (\<open>nodes_in_cycles\<close> of \<open>src/csr_graph.rs\<close>): Tarjan's
  search with an explicit work stack. The top of a stack is the head of its list, the sentinel
  \<open>UNVISITED\<close> is \<^const>\<open>None\<close>, and popping an empty component stack, which the code would panic
  on, is \<^const>\<open>None\<close> of the whole operation.
\<close>

record scc_state =
  index :: "nat option list"
  low :: "nat list"
  on_stack :: "bool list"
  scc_stack :: "nat list"
  dfs :: "(nat \<times> nat) list"
  next_index :: nat
  in_cycle :: "bool list"

section \<open>The search\<close>

definition discover :: "csr_graph \<Rightarrow> nat \<Rightarrow> scc_state \<Rightarrow> scc_state" where
  "discover g w s =
     s\<lparr>index := (index s)[w := Some (next_index s)], low := (low s)[w := next_index s],
       next_index := next_index s + 1, scc_stack := w # scc_stack s,
       on_stack := (on_stack s)[w := True], dfs := (w, offsets g ! w) # dfs s\<rparr>"

text \<open>The loop that pops a component of several nodes, down to and including its root.\<close>

fun pop_component ::
  "nat \<Rightarrow> nat list \<Rightarrow> bool list \<Rightarrow> bool list \<Rightarrow> (nat list \<times> bool list \<times> bool list) option" where
  "pop_component v [] on cyc = None"
| "pop_component v (w # ws) on cyc =
     (if w = v then Some (ws, on[w := False], cyc[w := True])
      else pop_component v ws (on[w := False]) (cyc[w := True]))"

definition pop_root :: "nat \<Rightarrow> scc_state \<Rightarrow> scc_state option" where
  "pop_root v s =
     (if low s ! v \<noteq> the (index s ! v) then Some s
      else if scc_stack s \<noteq> [] \<and> hd (scc_stack s) = v
        then Some (s\<lparr>scc_stack := tl (scc_stack s), on_stack := (on_stack s)[v := False]\<rparr>)
      else
        (case pop_component v (scc_stack s) (on_stack s) (in_cycle s) of
           None \<Rightarrow> None
         | Some (stack, on, cyc) \<Rightarrow>
             Some (s\<lparr>scc_stack := stack, on_stack := on, in_cycle := cyc\<rparr>)))"

text \<open>Leaving a finished node passes its low link to the node below on the work stack.\<close>

definition leave_node :: "nat \<Rightarrow> scc_state \<Rightarrow> scc_state" where
  "leave_node v s =
     (case tl (dfs s) of
        [] \<Rightarrow> s\<lparr>dfs := []\<rparr>
      | (parent, c) # rest \<Rightarrow>
          s\<lparr>dfs := (parent, c) # rest, low := (low s)[parent := min (low s ! parent) (low s ! v)]\<rparr>)"

definition scc_step :: "csr_graph \<Rightarrow> scc_state \<Rightarrow> scc_state option" where
  "scc_step g s =
     (case dfs s of
        [] \<Rightarrow> Some s
      | (v, cursor) # rest \<Rightarrow>
          if cursor < offsets g ! (v + 1) then
            (let s1 = s\<lparr>dfs := (v, cursor + 1) # rest\<rparr>; w = adj g ! cursor in
             Some
               (case index s ! w of
                  None \<Rightarrow> discover g w s1
                | Some i \<Rightarrow>
                    if on_stack s ! w then s1\<lparr>low := (low s)[v := min (low s ! v) i]\<rparr> else s1))
          else map_option (leave_node v) (pop_root v s))"

partial_function (option) scc_loop :: "csr_graph \<Rightarrow> scc_state \<Rightarrow> scc_state option" where
  "scc_loop g s =
     (if dfs s = [] then Some s
      else (case scc_step g s of None \<Rightarrow> None | Some s' \<Rightarrow> scc_loop g s'))"

declare scc_loop.simps [code]

fun scc_starts :: "csr_graph \<Rightarrow> nat list \<Rightarrow> scc_state \<Rightarrow> scc_state option" where
  "scc_starts g [] s = Some s"
| "scc_starts g (start # starts) s =
     (if index s ! start \<noteq> None then scc_starts g starts s
      else (case scc_loop g (discover g start s) of
          None \<Rightarrow> None
        | Some s' \<Rightarrow> scc_starts g starts s'))"

definition self_loops :: "csr_graph \<Rightarrow> bool list" where
  "self_loops g = map (\<lambda>v. v \<in> set (neighbors g v)) [0..<num_nodes g]"

definition nodes_in_cycles :: "csr_graph \<Rightarrow> bool list option" where
  "nodes_in_cycles g =
     (let n = num_nodes g in
      map_option in_cycle
        (scc_starts g [0..<n]
          \<lparr>index = replicate n None, low = replicate n 0, on_stack = replicate n False,
            scc_stack = [], dfs = [], next_index = 0, in_cycle = self_loops g\<rparr>))"

section \<open>The invariant of the search\<close>

text \<open>
  \<open>ix\<close> is the discovery index of a visited node, \<open>grey\<close> the nodes on the work stack, \<open>closed_off\<close>
  the nodes whose component was popped, and \<open>seen\<close> the targets of the edges that were followed.
\<close>

abbreviation ix :: "scc_state \<Rightarrow> nat \<Rightarrow> nat" where
  "ix s v \<equiv> the (index s ! v)"

abbreviation grey :: "scc_state \<Rightarrow> nat list" where
  "grey s \<equiv> map fst (dfs s)"

definition edges_of :: "csr_graph \<Rightarrow> (nat \<times> nat) set" where
  "edges_of g = {(v, w). v < num_nodes g \<and> w \<in> set (neighbors g v)}"

definition closed_off :: "csr_graph \<Rightarrow> scc_state \<Rightarrow> nat set" where
  "closed_off g s = {v. v < num_nodes g \<and> index s ! v \<noteq> None \<and> \<not> on_stack s ! v}"

definition seen :: "csr_graph \<Rightarrow> scc_state \<Rightarrow> nat \<Rightarrow> nat set" where
  "seen g s v =
     (case map_of (dfs s) v of
        None \<Rightarrow> set (neighbors g v)
      | Some c \<Rightarrow> {adj g ! i | i. offsets g ! v \<le> i \<and> i < c})"

definition shape_ok :: "csr_graph \<Rightarrow> scc_state \<Rightarrow> bool" where
  "shape_ok g s \<longleftrightarrow>
     length (index s) = num_nodes g \<and> length (low s) = num_nodes g \<and>
     length (on_stack s) = num_nodes g \<and> length (in_cycle s) = num_nodes g \<and>
     (\<forall>v<num_nodes g. \<forall>i. index s ! v = Some i \<longrightarrow> i < next_index s) \<and>
     (\<forall>v<num_nodes g. on_stack s ! v \<longleftrightarrow> v \<in> set (scc_stack s)) \<and>
     (\<forall>v\<in>set (scc_stack s). v < num_nodes g \<and> index s ! v \<noteq> None) \<and>
     sorted_wrt (\<lambda>x y. ix s y < ix s x) (scc_stack s)"

definition frames_ok :: "csr_graph \<Rightarrow> scc_state \<Rightarrow> bool" where
  "frames_ok g s \<longleftrightarrow>
     set (grey s) \<subseteq> set (scc_stack s) \<and> sorted_wrt (\<lambda>x y. ix s y < ix s x) (grey s) \<and>
     (\<forall>(v, c)\<in>set (dfs s). offsets g ! v \<le> c \<and> c \<le> offsets g ! (v + 1))"

definition closed_ok :: "csr_graph \<Rightarrow> scc_state \<Rightarrow> bool" where
  "closed_ok g s \<longleftrightarrow> edges_of g `` closed_off g s \<subseteq> closed_off g s \<and>
     (\<forall>v\<in>set (scc_stack s). \<forall>w\<in>seen g s v. index s ! w \<noteq> None)"

definition reach_ok :: "csr_graph \<Rightarrow> scc_state \<Rightarrow> bool" where
  "reach_ok g s \<longleftrightarrow>
     (\<forall>x\<in>set (scc_stack s). \<forall>y\<in>set (scc_stack s). ix s x \<le> ix s y \<longrightarrow> (x, y) \<in> (edges_of g)\<^sup>*) \<and>
     (\<forall>y\<in>set (scc_stack s). \<exists>x\<in>set (grey s). ix s x \<le> ix s y \<and> (y, x) \<in> (edges_of g)\<^sup>*)"

text \<open>
  The low link of a grey node is the index of a node it reaches, and bounds the edges that were
  followed from its stretch of the component stack, up to the next grey node.
\<close>

definition stretch :: "scc_state \<Rightarrow> nat \<Rightarrow> nat \<Rightarrow> bool" where
  "stretch s v u \<longleftrightarrow> u \<in> set (scc_stack s) \<and> ix s v \<le> ix s u \<and>
     (\<forall>x\<in>set (grey s). ix s u < ix s x \<or> ix s x \<le> ix s v)"

definition low_ok :: "csr_graph \<Rightarrow> scc_state \<Rightarrow> bool" where
  "low_ok g s \<longleftrightarrow>
     (\<forall>v\<in>set (grey s). low s ! v \<le> ix s v \<and>
        (\<exists>x\<in>set (scc_stack s). ix s x = low s ! v \<and> (v, x) \<in> (edges_of g)\<^sup>*)) \<and>
     (\<forall>v\<in>set (grey s). \<forall>u. stretch s v u \<longrightarrow>
        (\<forall>w\<in>seen g s u. w \<in> set (scc_stack s) \<longrightarrow> low s ! v \<le> ix s w))"

definition marked_ok :: "csr_graph \<Rightarrow> scc_state \<Rightarrow> bool" where
  "marked_ok g s \<longleftrightarrow> (\<forall>v<num_nodes g. in_cycle s ! v \<longleftrightarrow>
     (if v \<in> closed_off g s then (v, v) \<in> (edges_of g)\<^sup>+ else (v, v) \<in> edges_of g))"

definition scc_inv :: "csr_graph \<Rightarrow> scc_state \<Rightarrow> bool" where
  "scc_inv g s \<longleftrightarrow> shape_ok g s \<and> frames_ok g s \<and> closed_ok g s \<and> reach_ok g s \<and>
     low_ok g s \<and> marked_ok g s"

lemmas scc_inv_defs = scc_inv_def shape_ok_def frames_ok_def

lemma scc_invD:
  assumes "scc_inv g s"
  shows "v \<in> set (grey s) \<Longrightarrow> v \<in> set (scc_stack s)"
    and "v \<in> set (scc_stack s) \<Longrightarrow> v < num_nodes g"
    and "v \<in> set (scc_stack s) \<Longrightarrow> w \<in> seen g s v \<Longrightarrow> index s ! w \<noteq> None"
    and "x \<in> set (scc_stack s) \<Longrightarrow> y \<in> set (scc_stack s) \<Longrightarrow> ix s x \<le> ix s y \<Longrightarrow> (x, y) \<in> (edges_of g)\<^sup>*"
    and "y \<in> set (scc_stack s) \<Longrightarrow> \<exists>x\<in>set (grey s). ix s x \<le> ix s y \<and> (y, x) \<in> (edges_of g)\<^sup>*"
    and "v \<in> set (grey s) \<Longrightarrow> low s ! v \<le> ix s v"
    and "v \<in> set (grey s) \<Longrightarrow>
      \<exists>x\<in>set (scc_stack s). ix s x = low s ! v \<and> (v, x) \<in> (edges_of g)\<^sup>*"
    and "v \<in> set (grey s) \<Longrightarrow> stretch s v u \<Longrightarrow> w \<in> seen g s u \<Longrightarrow> w \<in> set (scc_stack s) \<Longrightarrow>
      low s ! v \<le> ix s w"
    and "(v, w) \<in> edges_of g \<Longrightarrow> v \<in> closed_off g s \<Longrightarrow> w \<in> closed_off g s"
  using assms unfolding scc_inv_def shape_ok_def frames_ok_def closed_ok_def reach_ok_def low_ok_def
  by (blast+)

lemma stack_index_inj:
  assumes "shape_ok g s" "x \<in> set (scc_stack s)" "y \<in> set (scc_stack s)" "ix s x = ix s y"
  shows "x = y"
proof -
  have *: "x = y" if "sorted_wrt (\<lambda>x y. ix s y < ix s x) xs" "x \<in> set xs" "y \<in> set xs" for xs
    using that assms(4) by (induction xs) fastforce+
  have "sorted_wrt (\<lambda>x y. ix s y < ix s x) (scc_stack s)" using assms(1) by (simp only: shape_ok_def)
  from * [OF this assms(2,3)] show ?thesis .
qed

lemma distinct_decreasing: "sorted_wrt (\<lambda>x y. f y < (f x :: nat)) xs \<Longrightarrow> distinct xs"
  by (induction xs) auto

lemma top_grey:
  "frames_ok g s \<Longrightarrow> dfs s = (v, c) # rest \<Longrightarrow> x \<in> set (grey s) \<Longrightarrow> ix s x \<le> ix s v"
  by (auto simp: frames_ok_def intro: less_imp_le)

lemma top_reached:
  assumes inv: "scc_inv g s" and w: "dfs s = (v, c) # rest" and x: "x \<in> set (scc_stack s)"
  shows "(x, v) \<in> (edges_of g)\<^sup>*"
proof -
  obtain y where y: "y \<in> set (grey s)" "(x, y) \<in> (edges_of g)\<^sup>*"
    using inv x unfolding scc_inv_def reach_ok_def by meson
  moreover have "ix s y \<le> ix s v" using top_grey [OF _ w y(1)] inv by (auto simp only: scc_inv_def)
  moreover have "v \<in> set (scc_stack s)" "y \<in> set (scc_stack s)"
    using inv w y(1) by (auto simp: scc_inv_def frames_ok_def)
  ultimately have "(y, v) \<in> (edges_of g)\<^sup>*" using inv by (simp add: scc_inv_def reach_ok_def)
  with y(2) show ?thesis by (rule rtrancl_trans)
qed

text \<open>The first kind of round: a node is discovered.\<close>

lemma scc_inv_discover:
  assumes wf: "wf_csr g" and inv: "scc_inv g s" and w: "w < num_nodes g" "index s ! w = None"
    and reach: "\<forall>x\<in>set (scc_stack s). (x, w) \<in> (edges_of g)\<^sup>*"
  shows "scc_inv g (discover g w s)"
proof -
  let ?s = "discover g w s" and ?S = "set (scc_stack s)"
  have wS: "w \<notin> ?S" using inv w by (auto simp: scc_inv_def shape_ok_def)
  have grey: "set (grey s) \<subseteq> ?S" using inv by (simp add: scc_inv_def frames_ok_def)
  have len: "length (index s) = num_nodes g" "length (low s) = num_nodes g"
    "length (on_stack s) = num_nodes g" using inv by (simp_all add: scc_inv_def shape_ok_def)
  have S: "x < num_nodes g" "x \<noteq> w" "index s ! x \<noteq> None" "ix s x < next_index s" if "x \<in> ?S" for x
    using that inv wS by (auto simp: scc_inv_def shape_ok_def)
  have ixw: "ix ?s w = next_index s" using len w by (simp add: discover_def)
  have ixo: "index ?s ! x = index s ! x" "low ?s ! x = low s ! x" "on_stack ?s ! x = on_stack s ! x"
    if "x \<noteq> w" for x using that by (simp_all add: discover_def)
  have ixS: "ix ?s x = ix s x" if "x \<in> ?S" for x using S(2) [OF that] ixo by simp
  have simps: "scc_stack ?s = w # scc_stack s" "dfs ?s = (w, offsets g ! w) # dfs s"
    "grey ?s = w # grey s" "on_stack ?s ! w" "low ?s ! w = next_index s"
    using len w by (simp_all add: discover_def)
  have seen: "seen g ?s x = seen g s x" if "x \<in> ?S" for x
    using S(2) [OF that] by (simp add: seen_def simps)
  have seenw: "seen g ?s w = {}" by (simp add: seen_def simps)
  have closed: "closed_off g ?s = closed_off g s"
    using w ixo simps(4) unfolding closed_off_def by (metis (mono_tags))
  have same: "sorted_wrt (\<lambda>x y. ix ?s y < ix ?s x) xs = sorted_wrt (\<lambda>x y. ix s y < ix s x) xs"
    if "set xs \<subseteq> ?S" for xs
    using that ixS by (induction xs) (auto simp: subset_iff)
  have "shape_ok g ?s"
  proof -
    have "index ?s ! v = Some i \<Longrightarrow> v < num_nodes g \<Longrightarrow> i < next_index ?s" for v i
      using inv ixo ixw by (cases "v = w") (auto simp: discover_def scc_inv_def shape_ok_def less_Suc_eq)
    moreover have "on_stack ?s ! v \<longleftrightarrow> v \<in> set (scc_stack ?s)" if "v < num_nodes g" for v
      using inv that ixo simps by (cases "v = w") (auto simp: scc_inv_def shape_ok_def)
    moreover have "length (index ?s) = num_nodes g \<and> length (low ?s) = num_nodes g \<and>
        length (on_stack ?s) = num_nodes g \<and> length (in_cycle ?s) = num_nodes g"
      using inv by (simp add: discover_def scc_inv_def shape_ok_def)
    moreover have "sorted_wrt (\<lambda>x y. ix ?s y < ix ?s x) (scc_stack ?s)"
      using inv same [of "scc_stack s"] ixw ixS S(4) by (simp add: simps scc_inv_def shape_ok_def)
    moreover have "\<forall>v\<in>set (scc_stack ?s). v < num_nodes g \<and> index ?s ! v \<noteq> None"
      using S ixo w len by (auto simp: simps) (simp_all add: discover_def)
    ultimately show ?thesis by (simp only: shape_ok_def) blast
  qed
  moreover have "frames_ok g ?s"
  proof -
    have "sorted_wrt (\<lambda>x y. ix ?s y < ix ?s x) (grey ?s)"
      using inv same [OF grey] ixw ixS S(4) grey by (auto simp: simps scc_inv_def frames_ok_def)
    moreover have "offsets g ! w \<le> offsets g ! (w + 1)"
      using wf_csr_offsets_le [OF wf, of w "w + 1"] w by simp
    ultimately show ?thesis using inv grey by (auto simp: frames_ok_def scc_inv_def simps)
  qed
  moreover have "closed_ok g ?s"
  proof -
    have "index ?s ! y \<noteq> None" if "x \<in> ?S" "y \<in> seen g s x" for x y
      using scc_invD(3) [OF inv that] ixo by (cases "y = w") (simp_all add: w)
    with inv show ?thesis
      by (auto simp: closed_ok_def scc_inv_def closed simps seenw seen)
  qed
  moreover have "reach_ok g ?s"
  proof -
    have "(x, y) \<in> (edges_of g)\<^sup>*"
      if "x \<in> insert w ?S" "y \<in> insert w ?S" "ix ?s x \<le> ix ?s y" for x y
    proof (cases "x = w \<or> y = w")
      case True
      with that S(4) ixw ixS reach show ?thesis by fastforce
    next
      case False
      with that inv ixS show ?thesis by (auto simp: scc_inv_def reach_ok_def)
    qed
    moreover have "\<exists>x\<in>insert w (set (grey s)). ix ?s x \<le> ix ?s y \<and> (y, x) \<in> (edges_of g)\<^sup>*"
      if "y \<in> insert w ?S" for y
    proof (cases "y = w")
      case False
      then have "y \<in> ?S" using that by simp
      from scc_invD(5) [OF inv this] obtain x where
        "x \<in> set (grey s)" "ix s x \<le> ix s y" "(y, x) \<in> (edges_of g)\<^sup>*" by blast
      with grey ixS that False show ?thesis by (intro bexI [of _ x]) auto
    qed auto
    ultimately show ?thesis by (simp add: reach_ok_def simps)
  qed
  moreover have "low_ok g ?s"
  proof -
    have "low ?s ! v \<le> ix ?s v \<and> (\<exists>x\<in>insert w ?S. ix ?s x = low ?s ! v \<and> (v, x) \<in> (edges_of g)\<^sup>*)"
      if "v \<in> insert w (set (grey s))" for v
    proof (cases "v = w")
      case True
      with simps ixw show ?thesis by auto
    next
      case False
      then have "v \<in> ?S" using that grey by auto
      with False that inv obtain x where "x \<in> ?S" "ix s x = low s ! v" "(v, x) \<in> (edges_of g)\<^sup>*"
          "low s ! v \<le> ix s v" by (auto simp: scc_inv_def low_ok_def)
      with ixS ixo False \<open>v \<in> ?S\<close> show ?thesis by auto
    qed
    moreover have "low ?s ! v \<le> ix ?s y"
      if v: "v \<in> insert w (set (grey s))" and u: "stretch ?s v u" and y: "y \<in> seen g ?s u" "y \<in> insert w ?S"
      for v u y
    proof -
      have "u \<noteq> w" using y seenw by auto
      then have uS: "u \<in> ?S" using u by (simp add: stretch_def simps)
      have "v \<noteq> w" using u S(4) [OF uS] ixS [OF uS] ixw by (auto simp: stretch_def)
      then have vS: "v \<in> ?S" "v \<in> set (grey s)" using v grey by auto
      have "ix ?s x = ix s x" if "x \<in> set (grey s)" for x using that grey ixS by blast
      then have "stretch s v u"
        using u uS vS ixS unfolding stretch_def simps by (simp del: set_map)
      moreover have "y \<in> seen g s u" using y(1) seen [OF uS] by simp
      ultimately have "y \<in> ?S \<Longrightarrow> low s ! v \<le> ix s y"
        using inv vS by (auto simp: scc_inv_def low_ok_def)
      moreover have "low s ! v \<le> next_index s"
        using inv vS S(4) [OF vS(1)] by (fastforce simp: scc_inv_def low_ok_def)
      ultimately show ?thesis using y(2) ixS ixw ixo \<open>v \<noteq> w\<close> by auto
    qed
    ultimately show ?thesis by (simp add: low_ok_def simps)
  qed
  moreover have "marked_ok g ?s"
    using inv by (simp add: marked_ok_def scc_inv_def closed) (simp add: discover_def)
  ultimately show ?thesis by (simp add: scc_inv_def)
qed

text \<open>The second kind: an edge back to a node of the component stack lowers the low link.\<close>

lemma scc_inv_low:
  assumes inv: "scc_inv g s" and v: "v \<in> set (grey s)" and w: "w \<in> set (scc_stack s)"
    "(v, w) \<in> edges_of g"
  shows "scc_inv g (s\<lparr>low := (low s)[v := min (low s ! v) (ix s w)]\<rparr>)" (is "scc_inv g ?s")
proof -
  have "v < length (low s)"
    using inv v by (auto simp: scc_inv_def shape_ok_def frames_ok_def)
  then have low: "low ?s ! x = (if x = v then min (low s ! v) (ix s w) else low s ! x)" for x by simp
  have "seen g ?s = seen g s" "stretch ?s = stretch s"
    by (simp_all add: seen_def stretch_def fun_eq_iff)
  note same = this
  have "\<exists>x\<in>set (scc_stack s). ix s x = low ?s ! u \<and> (u, x) \<in> (edges_of g)\<^sup>*"
    "low ?s ! u \<le> ix s u" if u: "u \<in> set (grey s)" for u
  proof -
    obtain x where x: "x \<in> set (scc_stack s)" "ix s x = low s ! u" "(u, x) \<in> (edges_of g)\<^sup>*"
        "low s ! u \<le> ix s u"
      using scc_invD(6,7) [OF inv u] by blast
    then show "low ?s ! u \<le> ix s u" unfolding low by auto
    show "\<exists>x\<in>set (scc_stack s). ix s x = low ?s ! u \<and> (u, x) \<in> (edges_of g)\<^sup>*"
      using x w unfolding low by (cases "u = v \<and> ix s w < low s ! v") (force simp: min_def)+
  qed
  moreover have "low ?s ! u \<le> low s ! u" for u unfolding low by simp
  ultimately have "low_ok g ?s"
    using inv unfolding scc_inv_def low_ok_def same by (simp del: set_map) (meson order_trans)
  with inv show ?thesis
    by (simp add: scc_inv_def shape_ok_def frames_ok_def closed_ok_def reach_ok_def marked_ok_def
        closed_off_def same)
qed

text \<open>The cursor of a grey node moves over an edge to a visited node.\<close>

lemma scc_inv_advance:
  assumes inv: "scc_inv g s" and d: "dfs s = pre @ (v, c) # rest" "c < offsets g ! (v + 1)"
    and w: "index s ! (adj g ! c) \<noteq> None"
      "adj g ! c \<in> set (scc_stack s) \<Longrightarrow> low s ! v \<le> ix s (adj g ! c)"
  shows "scc_inv g (s\<lparr>dfs := pre @ (v, Suc c) # rest\<rparr>)" (is "scc_inv g ?s")
proof -
  have grey: "grey ?s = grey s" using d by simp
  have "distinct (grey s)"
    using inv distinct_decreasing [of "ix s"] by (auto simp: scc_inv_def frames_ok_def)
  then have v: "v \<notin> fst ` set pre" "v \<notin> fst ` set rest" using d by auto
  have bounds: "offsets g ! v \<le> c" using inv d by (auto simp: scc_inv_def frames_ok_def)
  have mv: "map_of pre v = None" using v(1) by (simp add: map_of_eq_None_iff)
  have seen: "seen g ?s u = (if u = v then insert (adj g ! c) (seen g s v) else seen g s u)" for u
  proof (cases "u = v")
    case True
    with bounds mv d show ?thesis
      by (auto simp: seen_def map_add_def less_Suc_eq)
  next
    case False
    then show ?thesis using d by (simp add: seen_def map_add_def split: option.split)
  qed
  have same: "stretch ?s = stretch s" unfolding stretch_def fun_eq_iff grey by simp
  have own: "u = v" if "u \<in> set (grey s)" "stretch s u v" for u
  proof (rule ccontr)
    assume "u \<noteq> v"
    have "v \<in> set (grey s)" using d by simp
    then have "ix s v \<le> ix s u" "ix s u \<le> ix s v" "v \<in> set (scc_stack s)" "u \<in> set (scc_stack s)"
      using that inv by (auto simp: stretch_def scc_inv_def frames_ok_def)
    with \<open>u \<noteq> v\<close> stack_index_inj [of g s u v] inv show False by (auto simp: scc_inv_def)
  qed
  have "frames_ok g ?s"
    using inv d bounds unfolding scc_inv_def frames_ok_def grey by auto
  moreover have "closed_ok g ?s"
    using inv w(1) unfolding scc_inv_def closed_ok_def
    by (auto simp: seen closed_off_def split: if_splits)
  moreover have "reach_ok g ?s" using inv unfolding scc_inv_def reach_ok_def grey by simp
  moreover have "low_ok g ?s"
  proof -
    have "low s ! u \<le> ix s y"
      if "u \<in> set (grey s)" "stretch s u x" "y \<in> seen g ?s x" "y \<in> set (scc_stack s)" for u x y
    proof (cases "x = v \<and> y = adj g ! c")
      case True
      with own that w(2) show ?thesis by auto
    next
      case False
      then have "y \<in> seen g s x" using that(3) by (auto simp: seen split: if_splits)
      with that inv show ?thesis unfolding scc_inv_def low_ok_def by blast
    qed
    with inv show ?thesis unfolding scc_inv_def low_ok_def grey same by simp
  qed
  ultimately show ?thesis
    using inv by (simp add: scc_inv_def shape_ok_def marked_ok_def closed_off_def)
qed

text \<open>
  The third and fourth kind: the top node is finished. All edges of its stretch were followed, so
  with the component of a root the closed nodes stay closed, and otherwise the node reaches one
  further down.
\<close>

lemma finished_seen:
  assumes wf: "wf_csr g" and inv: "scc_inv g s" and d: "dfs s = (v, c) # rest" "\<not> c < offsets g ! (v + 1)"
    and u: "u \<in> set (scc_stack s)" "ix s v \<le> ix s u"
  shows "seen g s u = set (neighbors g u)" "stretch s v u"
proof -
  have top: "ix s x \<le> ix s v" if "x \<in> set (grey s)" for x
    using top_grey [OF _ d(1) that] inv by (auto simp only: scc_inv_def)
  have v: "v \<in> set (scc_stack s)" "v < num_nodes g"
    using scc_invD(1,2) [OF inv] d(1) by auto
  show "stretch s v u"
    using u top inv by (auto simp: stretch_def scc_inv_def simp del: set_map)
  show "seen g s u = set (neighbors g u)"
  proof (cases "u = v")
    case True
    have "c = offsets g ! (v + 1)" using inv d by (auto simp: scc_inv_def frames_ok_def)
    with True d show ?thesis using set_neighbors [OF wf v(2)] by (auto simp: seen_def)
  next
    case False
    have "u \<notin> set (grey s)"
    proof
      assume "u \<in> set (grey s)"
      then have "ix s u = ix s v" using top u(2) by (simp add: le_antisym del: set_map)
      with False stack_index_inj [of g s u v] u(1) v(1) inv show False by (simp add: scc_inv_def)
    qed
    then have "map_of (dfs s) u = None" by (simp add: map_of_eq_None_iff)
    then show ?thesis by (simp add: seen_def)
  qed
qed

lemma scc_inv_leave:
  assumes wf: "wf_csr g" and inv: "scc_inv g s" and d: "dfs s = (v, c) # rest" "\<not> c < offsets g ! (v + 1)"
    and root: "low s ! v \<noteq> ix s v"
  shows "scc_inv g (leave_node v s) \<and> rest \<noteq> []"
proof -
  let ?S = "set (scc_stack s)" and ?R = "(edges_of g)\<^sup>*"
  note fin = finished_seen [OF wf inv d]
  have v: "v \<in> ?S" "v \<in> set (grey s)" using scc_invD(1) [OF inv, of v] d(1) by simp_all
  have below: "ix s x < ix s v" if "x \<in> set (map fst rest)" for x
    using inv d that by (auto simp: scc_inv_def frames_ok_def)
  obtain x where x: "x \<in> ?S" "ix s x = low s ! v" "(v, x) \<in> ?R" "ix s x < ix s v"
    using scc_invD(6,7) [OF inv v(2)] root by fastforce
  obtain z where z: "z \<in> set (grey s)" "ix s z \<le> ix s x" "(x, z) \<in> ?R"
    using scc_invD(5) [OF inv x(1)] by blast
  then have zr: "z \<in> set (map fst rest)" using d(1) x(4) by auto
  then obtain p cp rest' where rest: "rest = (p, cp) # rest'" by (cases rest) auto
  let ?s = "s\<lparr>dfs := rest, low := (low s)[p := min (low s ! p) (low s ! v)]\<rparr>"
  have s': "leave_node v s = ?s" using d(1) rest by (simp add: leave_node_def)
  have p: "p \<in> set (grey s)" "p \<in> ?S" "ix s p < ix s v"
    using d(1) rest below scc_invD(1) [OF inv, of p] by auto
  have len: "length (low s) = num_nodes g" "p < num_nodes g"
    using inv scc_invD(2) [OF inv p(2)] by (simp_all add: scc_inv_def shape_ok_def)
  then have low: "low ?s ! u = (if u = p then min (low s ! p) (low s ! v) else low s ! u)" for u
    by simp
  have sub: "set (map fst rest) \<subseteq> set (grey s)" using d(1) by auto
  have seen: "seen g ?s u = seen g s u" if "u \<in> ?S" for u
  proof (cases "u = v")
    case True
    have "v \<notin> fst ` set rest" using below by force
    with fin(1) [OF v(1)] show ?thesis by (simp add: True seen_def map_of_eq_None_iff [THEN iffD2])
  qed (simp add: seen_def d(1))
  have closed: "closed_off g ?s = closed_off g s" by (simp add: closed_off_def)
  have "frames_ok g ?s" using inv d(1) by (auto simp: scc_inv_def frames_ok_def)
  moreover have "closed_ok g ?s"
    using inv unfolding scc_inv_def closed_ok_def closed by (simp add: seen)
  moreover have "reach_ok g ?s"
  proof -
    have "\<exists>u\<in>set (map fst rest). ix s u \<le> ix s y \<and> (y, u) \<in> ?R" if y: "y \<in> ?S" for y
    proof -
      obtain u where u: "u \<in> set (grey s)" "ix s u \<le> ix s y" "(y, u) \<in> ?R"
        using scc_invD(5) [OF inv y] by blast
      show ?thesis
      proof (cases "u = v")
        case True
        with u x z have "ix s z \<le> ix s y" "(y, z) \<in> ?R" by (auto intro: rtrancl_trans)
        with zr show ?thesis by blast
      next
        case False
        with u d(1) have "u \<in> set (map fst rest)" by auto
        with u(2,3) show ?thesis by blast
      qed
    qed
    with inv show ?thesis by (simp add: scc_inv_def reach_ok_def)
  qed
  moreover have "low_ok g ?s"
  proof -
    have "low ?s ! u \<le> ix s u" "\<exists>y\<in>?S. ix s y = low ?s ! u \<and> (u, y) \<in> ?R"
      if "u \<in> set (map fst rest)" for u
    proof -
      have u: "u \<in> set (grey s)" using that sub by blast
      note old = scc_invD(6,7) [OF inv u]
      then show "low ?s ! u \<le> ix s u" unfolding low by auto
      show "\<exists>y\<in>?S. ix s y = low ?s ! u \<and> (u, y) \<in> ?R"
      proof (cases "u = p \<and> low s ! v < low s ! p")
        case True
        have "(p, v) \<in> ?R" using scc_invD(4) [OF inv p(2) v(1)] p(3) by simp
        from rtrancl_trans [OF this x(3)] have "(p, x) \<in> ?R" .
        with True x show ?thesis unfolding low by auto
      next
        case False
        then have "low ?s ! u = low s ! u" unfolding low by auto
        with old(2) show ?thesis by simp
      qed
    qed
    moreover have "low ?s ! u \<le> ix s w"
      if u: "u \<in> set (map fst rest)" and y: "stretch ?s u y" and w: "w \<in> seen g s y" "w \<in> ?S" for u y w
    proof -
      have yS: "y \<in> ?S" "ix s u \<le> ix s y" using y by (simp_all add: stretch_def)
      have cut: "ix s y < ix s x \<or> ix s x \<le> ix s u" if "x \<in> set (map fst rest)" for x
        using y that by (simp add: stretch_def del: set_map)
      show ?thesis
      proof (cases "ix s y < ix s v")
        case True
        then have "stretch s u y" using yS cut d(1) by (auto simp: stretch_def)
        then have "low s ! u \<le> ix s w" using scc_invD(8) [OF inv _ _ w] u sub by blast
        then show ?thesis unfolding low by auto
      next
        case False
        then have "low s ! v \<le> ix s w" using scc_invD(8) [OF inv v(2) fin(2) w] yS(1) by simp
        moreover have "u = p"
        proof (rule ccontr)
          assume "u \<noteq> p"
          then have "u \<in> set (map fst rest')" using u rest by auto
          then have "ix s u < ix s p" using inv d(1) rest by (auto simp: scc_inv_def frames_ok_def)
          moreover have "ix s y < ix s p \<or> ix s p \<le> ix s u" using cut rest by simp
          ultimately show False using False p(3) by simp
        qed
        ultimately show ?thesis unfolding low by auto
      qed
    qed
    ultimately show ?thesis using seen
      by (simp add: low_ok_def stretch_def del: set_map)
  qed
  ultimately have "scc_inv g ?s"
    using inv len by (simp add: scc_inv_def shape_ok_def marked_ok_def closed)
  with s' rest show ?thesis by simp
qed

lemma nth_update: "x < length xs \<Longrightarrow> xs[i := y] ! x = (if x = i then y else xs ! x)"
  by (cases "x = i") simp_all

lemma pop_component_split:
  assumes "v \<notin> set us"
  shows "\<exists>on' cyc'. pop_component v (us @ v # ws) on cyc = Some (ws, on', cyc') \<and>
    length on' = length on \<and> length cyc' = length cyc \<and>
    (\<forall>x<length on. on' ! x \<longleftrightarrow> on ! x \<and> x \<notin> set (us @ [v])) \<and>
    (\<forall>x<length cyc. cyc' ! x \<longleftrightarrow> cyc ! x \<or> x \<in> set (us @ [v]))"
  using assms
proof (induction us arbitrary: on cyc)
  case Nil
  then show ?case by (auto simp: nth_update)
next
  case (Cons u us)
  from Cons.IH [of "on[u := False]" "cyc[u := True]"] Cons.prems obtain on' cyc' where
    p: "pop_component v (us @ v # ws) (on[u := False]) (cyc[u := True]) = Some (ws, on', cyc')"
    "length on' = length on" "length cyc' = length cyc"
    "\<forall>x<length on. on' ! x \<longleftrightarrow> on[u := False] ! x \<and> x \<notin> set (us @ [v])"
    "\<forall>x<length cyc. cyc' ! x \<longleftrightarrow> cyc[u := True] ! x \<or> x \<in> set (us @ [v])" by auto
  have "pop_component v ((u # us) @ v # ws) on cyc = Some (ws, on', cyc')"
    using p(1) Cons.prems by simp
  moreover have "on' ! x \<longleftrightarrow> on ! x \<and> x \<notin> set ((u # us) @ [v])" if "x < length on" for x
    using p(4) that by (cases "x = u") auto
  moreover have "cyc' ! x \<longleftrightarrow> cyc ! x \<or> x \<in> set ((u # us) @ [v])" if "x < length cyc" for x
    using p(5) that by (cases "x = u") auto
  ultimately show ?case using p(2,3) by blast
qed

text \<open>The state after popping a component \<open>us @ [v]\<close>, however the code pops it.\<close>

definition popped :: "scc_state \<Rightarrow> nat \<Rightarrow> nat list \<Rightarrow> nat list \<Rightarrow> scc_state \<Rightarrow> bool" where
  "popped s v us ws s' \<longleftrightarrow>
     scc_stack s = us @ v # ws \<and> v \<notin> set us \<and> index s' = index s \<and> low s' = low s \<and>
     next_index s' = next_index s \<and> scc_stack s' = ws \<and> dfs s' = dfs s \<and>
     length (on_stack s') = length (on_stack s) \<and> length (in_cycle s') = length (in_cycle s) \<and>
     (\<forall>x<length (on_stack s). on_stack s' ! x \<longleftrightarrow> on_stack s ! x \<and> x \<notin> set (us @ [v])) \<and>
     (\<forall>x<length (in_cycle s). in_cycle s' ! x \<longleftrightarrow>
        in_cycle s ! x \<or> us \<noteq> [] \<and> x \<in> set (us @ [v]))"

lemma pop_root_popped:
  assumes "v \<in> set (scc_stack s)" "low s ! v = ix s v"
  shows "\<exists>us ws s'. pop_root v s = Some s' \<and> popped s v us ws s'"
proof -
  obtain us ws where S: "scc_stack s = us @ v # ws" "v \<notin> set us"
    using split_list_first [OF assms(1)] by blast
  show ?thesis
  proof (cases us)
    case Nil
    let ?s = "s\<lparr>scc_stack := ws, on_stack := (on_stack s)[v := False]\<rparr>"
    have "pop_root v s = Some ?s" using assms(2) S Nil by (simp add: pop_root_def)
    moreover have "popped s v us ws ?s"
      using S Nil by (auto simp: popped_def nth_update)
    ultimately show ?thesis by blast
  next
    case (Cons u us')
    obtain on' cyc' where p: "pop_component v (us @ v # ws) (on_stack s) (in_cycle s) = Some (ws, on', cyc')"
      "length on' = length (on_stack s)" "length cyc' = length (in_cycle s)"
      "\<forall>x<length (on_stack s). on' ! x \<longleftrightarrow> on_stack s ! x \<and> x \<notin> set (us @ [v])"
      "\<forall>x<length (in_cycle s). cyc' ! x \<longleftrightarrow> in_cycle s ! x \<or> x \<in> set (us @ [v])"
      using pop_component_split [OF S(2), of ws "on_stack s" "in_cycle s"] by blast
    have "u \<noteq> v" using S Cons by auto
    then have "pop_root v s = Some (s\<lparr>scc_stack := ws, on_stack := on', in_cycle := cyc'\<rparr>)"
      using assms(2) S p(1) Cons by (simp add: pop_root_def)
    moreover have "popped s v us ws (s\<lparr>scc_stack := ws, on_stack := on', in_cycle := cyc'\<rparr>)"
      using S Cons p(2-5) by (simp add: popped_def)
    ultimately show ?thesis by blast
  qed
qed

lemma scc_inv_root:
  assumes wf: "wf_csr g" and inv: "scc_inv g s" and d: "dfs s = (v, c) # rest" "\<not> c < offsets g ! (v + 1)"
    and root: "low s ! v = ix s v" and pop: "popped s v us ws s'"
  shows "scc_inv g (leave_node v s') \<and> dfs (leave_node v s') = rest"
proof -
  let ?S = "set (scc_stack s)" and ?E = "edges_of g" and ?C = "set (us @ [v])"
  let ?s = "s'\<lparr>dfs := rest\<rparr>"
  note fin = finished_seen [OF wf inv d]
  have S: "scc_stack s = us @ v # ws" and fields: "index s' = index s" "low s' = low s"
    "next_index s' = next_index s" "scc_stack s' = ws" "dfs s' = dfs s"
    using pop by (simp_all add: popped_def)
  have v: "v \<in> ?S" "v \<in> set (grey s)" using scc_invD(1) [OF inv, of v] d(1) by simp_all
  have sorted: "sorted_wrt (\<lambda>x y. ix s y < ix s x) (us @ v # ws)"
    using inv S by (simp add: scc_inv_def shape_ok_def)
  have C: "u \<in> ?C \<longleftrightarrow> ix s v \<le> ix s u" if "u \<in> ?S" for u
    using that sorted unfolding S by (fastforce simp: sorted_wrt_append)
  have W: "u \<in> set ws \<longleftrightarrow> ix s u < ix s v" if "u \<in> ?S" for u
    using that sorted unfolding S by (fastforce simp: sorted_wrt_append)
  have WS: "set ws \<subseteq> ?S" "?C \<subseteq> ?S" unfolding S by auto
  have below: "ix s x < ix s v" "x \<in> set ws" if "x \<in> set (map fst rest)" for x
  proof -
    show "ix s x < ix s v" using inv d that by (auto simp: scc_inv_def frames_ok_def)
    moreover have "x \<in> ?S" using scc_invD(1) [OF inv, of x] d(1) that by auto
    ultimately show "x \<in> set ws" using W by blast
  qed
  have n: "length (index s) = num_nodes g" "length (on_stack s) = num_nodes g"
    "length (in_cycle s) = num_nodes g" using inv by (simp_all add: scc_inv_def shape_ok_def)
  have vis: "x < num_nodes g" "index s ! x \<noteq> None" "on_stack s ! x" if "x \<in> ?S" for x
    using that inv by (auto simp: scc_inv_def shape_ok_def)
  have on: "on_stack s' ! x \<longleftrightarrow> on_stack s ! x \<and> x \<notin> ?C" if "x < num_nodes g" for x
    using pop that n by (simp add: popped_def)
  have closed: "closed_off g ?s = closed_off g s \<union> ?C"
    using on vis WS(2) fields by (auto simp: closed_off_def)
  have out: "w \<in> closed_off g s \<union> ?C" if "(u, w) \<in> ?E" "u \<in> ?C" for u w
  proof (cases "w \<in> closed_off g s")
    case False
    have uS: "u \<in> ?S" "ix s v \<le> ix s u" using that(2) WS(2) C by blast+
    have w: "w \<in> seen g s u" using that(1) fin(1) [OF uS] by (simp add: edges_of_def)
    have "w < num_nodes g" using that(1) neighbors_bound [OF wf] by (auto simp: edges_of_def)
    then have wS: "w \<in> ?S" using False scc_invD(3) [OF inv uS(1) w] inv
      by (auto simp: closed_off_def scc_inv_def shape_ok_def)
    moreover have "ix s v \<le> ix s w"
      using scc_invD(8) [OF inv v(2) fin(2) [OF uS] w wS] root by simp
    ultimately show ?thesis using C by blast
  qed simp
  have leave: "leave_node v s' = ?s"
  proof (cases rest)
    case Nil
    with d(1) fields show ?thesis by (simp add: leave_node_def)
  next
    case (Cons f rest')
    obtain p cp where f: "f = (p, cp)" by (cases f)
    have "low s ! p \<le> ix s p" "ix s p < ix s v"
      using scc_invD(6) [OF inv, of p] d(1) below(1) [of p] Cons f by simp_all
    then have "min (low s' ! p) (low s' ! v) = low s' ! p" using root fields by simp
    then show ?thesis using d(1) fields Cons f by (simp add: leave_node_def)
  qed
  have "shape_ok g ?s"
  proof -
    have "x \<in> set ws \<longleftrightarrow> x \<notin> ?C" if "x \<in> ?S" for x
      using C [OF that] W [OF that] by (simp only: not_le)
    moreover have "on_stack s ! x \<longleftrightarrow> x \<in> ?S" if "x < num_nodes g" for x
      using inv that by (simp add: scc_inv_def shape_ok_def)
    ultimately have "on_stack s' ! x \<longleftrightarrow> x \<in> set ws" if "x < num_nodes g" for x
      using on [OF that] that WS by blast
    moreover have "\<forall>x\<in>set ws. x < num_nodes g \<and> index s ! x \<noteq> None" using vis WS by blast
    moreover have "length (on_stack s') = num_nodes g" "length (in_cycle s') = num_nodes g"
      "length (low s) = num_nodes g" "\<forall>v<num_nodes g. \<forall>i. index s ! v = Some i \<longrightarrow> i < next_index s"
      using pop n inv by (simp_all add: popped_def scc_inv_def shape_ok_def)
    moreover have "sorted_wrt (\<lambda>x y. ix s y < ix s x) ws" using sorted by (simp add: sorted_wrt_append)
    ultimately show ?thesis using n fields by (simp add: shape_ok_def)
  qed
  moreover have "frames_ok g ?s"
    using inv d(1) below(2) fields by (auto simp: scc_inv_def frames_ok_def)
  moreover have seen: "seen g ?s u = seen g s u" if "u \<in> set ws" for u
  proof -
    have "u \<noteq> v" using W [of u] that WS by auto
    then show ?thesis by (simp add: seen_def d(1))
  qed
  moreover have "closed_ok g ?s"
  proof -
    have "?E `` closed_off g ?s \<subseteq> closed_off g ?s"
      using out scc_invD(9) [OF inv] unfolding closed by blast
    moreover have "\<forall>x\<in>set ws. \<forall>w\<in>seen g s x. index s ! w \<noteq> None"
      using scc_invD(3) [OF inv] WS(1) by blast
    ultimately show ?thesis using fields seen by (simp add: closed_ok_def)
  qed
  moreover have "reach_ok g ?s"
  proof -
    have "\<exists>x\<in>set (map fst rest). ix s x \<le> ix s y \<and> (y, x) \<in> ?E\<^sup>*" if y: "y \<in> set ws" for y
    proof -
      have yS: "y \<in> ?S" "ix s y < ix s v" using y WS W by blast+
      then obtain x where "x \<in> set (grey s)" "ix s x \<le> ix s y" "(y, x) \<in> ?E\<^sup>*"
        using scc_invD(5) [OF inv] by blast
      with yS(2) d(1) show ?thesis by (intro bexI [of _ x]) auto
    qed
    then show ?thesis
      using scc_invD(4) [OF inv] WS(1) fields unfolding reach_ok_def by (simp add: subset_iff)
  qed
  moreover have "low_ok g ?s"
  proof -
    have "\<exists>x\<in>set ws. ix s x = low s ! u \<and> (u, x) \<in> ?E\<^sup>*" "low s ! u \<le> ix s u"
      if u: "u \<in> set (map fst rest)" for u
    proof -
      have ug: "u \<in> set (grey s)" using u d(1) by auto
      show "low s ! u \<le> ix s u" using scc_invD(6) [OF inv ug] .
      obtain x where "x \<in> ?S" "ix s x = low s ! u" "(u, x) \<in> ?E\<^sup>*"
        using scc_invD(7) [OF inv ug] by blast
      moreover have "ix s x < ix s v"
        using calculation(2) scc_invD(6) [OF inv ug] below(1) [OF u] by simp
      ultimately show "\<exists>x\<in>set ws. ix s x = low s ! u \<and> (u, x) \<in> ?E\<^sup>*" using W by blast
    qed
    moreover have "low s ! u \<le> ix s w"
      if u: "u \<in> set (map fst rest)" and y: "stretch ?s u y" and w: "w \<in> seen g ?s y" "w \<in> set ws" for u y w
    proof -
      have yw: "y \<in> set ws" using y fields by (simp add: stretch_def)
      then have "stretch s u y"
        using y fields d(1) W [of y] WS by (auto simp: stretch_def)
      moreover have "w \<in> seen g s y" using w(1) seen [OF yw] by simp
      moreover have "u \<in> set (grey s)" "w \<in> ?S" using u d(1) w(2) WS by auto
      ultimately show ?thesis using scc_invD(8) [OF inv] by blast
    qed
    ultimately show ?thesis using fields by (simp add: low_ok_def del: set_map)
  qed
  moreover have "marked_ok g ?s"
  proof -
    have C_new: "x \<notin> closed_off g s" if "x \<in> ?C" for x
      using that vis(3) WS(2) by (auto simp: closed_off_def)
    have "in_cycle s' ! x \<longleftrightarrow> (if x \<in> closed_off g s \<union> ?C then (x, x) \<in> ?E\<^sup>+ else (x, x) \<in> ?E)"
      if x: "x < num_nodes g" for x
    proof (cases "x \<in> ?C")
      case False
      then have "in_cycle s' ! x = in_cycle s ! x" using pop x n by (simp add: popped_def)
      with False inv x show ?thesis by (simp add: scc_inv_def marked_ok_def)
    next
      case inC: True
      have "in_cycle s' ! x \<longleftrightarrow> (x, x) \<in> ?E\<^sup>+"
      proof (cases us)
        case Nil
        then have xv: "x = v" using inC by simp
        have "(v, v) \<in> ?E\<^sup>+ \<Longrightarrow> (v, v) \<in> ?E"
        proof -
          assume "(v, v) \<in> ?E\<^sup>+"
          then obtain w where w: "(v, w) \<in> ?E" "(w, v) \<in> ?E\<^sup>*" by (blast dest: tranclD)
          have "w \<notin> closed_off g s"
          proof
            have "(a, b) \<in> ?E\<^sup>* \<Longrightarrow> a \<in> closed_off g s \<Longrightarrow> b \<in> closed_off g s" for a b
              by (induction rule: rtrancl_induct) (auto intro: scc_invD(9) [OF inv])
            moreover assume "w \<in> closed_off g s"
            ultimately have "v \<in> closed_off g s" using w(2) by blast
            then show False using C_new [of v] by simp
          qed
          with out [OF w(1)] Nil have "w = v" by auto
          with w(1) show "(v, v) \<in> ?E" by simp
        qed
        then have "(v, v) \<in> ?E\<^sup>+ \<longleftrightarrow> (v, v) \<in> ?E" by blast
        moreover have "in_cycle s' ! v = in_cycle s ! v" using pop x xv n Nil by (simp add: popped_def)
        ultimately show ?thesis using inv C_new [OF inC] x xv by (simp add: scc_inv_def marked_ok_def)
      next
        case (Cons u us')
        then have marked: "in_cycle s' ! x" using pop x n inC by (simp add: popped_def)
        obtain y where y: "y \<in> ?C" "y \<noteq> x"
          using Cons pop by (cases "x = v") (auto simp: popped_def)
        have "(a, b) \<in> ?E\<^sup>*" if "a \<in> ?C" "b \<in> ?C" for a b
        proof -
          have "(a, v) \<in> ?E\<^sup>*" using top_reached [OF inv d(1)] that(1) WS by blast
          moreover have "(v, b) \<in> ?E\<^sup>*" using scc_invD(4) [OF inv v(1)] that(2) WS C by blast
          ultimately show ?thesis by (rule rtrancl_trans)
        qed
        then have "(x, y) \<in> ?E\<^sup>+" "(y, x) \<in> ?E\<^sup>*" using y inC by (auto simp: rtrancl_eq_or_trancl)
        with marked show ?thesis by (auto intro: trancl_rtrancl_trancl)
      qed
      with inC show ?thesis by auto
    qed
    then show ?thesis unfolding marked_ok_def closed by simp
  qed
  ultimately show ?thesis using leave by (simp add: scc_inv_def)
qed

section \<open>The rounds and the loops\<close>

definition unvisited :: "csr_graph \<Rightarrow> scc_state \<Rightarrow> nat set" where
  "unvisited g s = {v. v < num_nodes g \<and> index s ! v = None}"

definition scc_measure :: "csr_graph \<Rightarrow> (scc_state \<times> scc_state) set" where
  "scc_measure g = measures [\<lambda>s. card (unvisited g s), \<lambda>s. length (dfs s),
     \<lambda>s. case dfs s of [] \<Rightarrow> 0 | (v, c) # rest \<Rightarrow> offsets g ! (v + 1) - c]"

lemma finite_unvisited [simp]: "finite (unvisited g s)"
  by (simp add: unvisited_def)

lemma scc_step_ok:
  assumes wf: "wf_csr g" and inv: "scc_inv g s" and d: "dfs s \<noteq> []"
  shows "\<exists>s'. scc_step g s = Some s' \<and> scc_inv g s' \<and> (s', s) \<in> scc_measure g \<and>
    unvisited g s' \<subseteq> unvisited g s"
proof -
  obtain v c rest where d: "dfs s = (v, c) # rest" using d by (cases "dfs s") auto
  have v: "v \<in> set (grey s)" "v < num_nodes g" "offsets g ! v \<le> c"
    using scc_invD(1,2) [OF inv, of v] inv d by (auto simp: scc_inv_def frames_ok_def)
  show ?thesis
  proof (cases "c < offsets g ! (v + 1)")
    case True
    let ?w = "adj g ! c" and ?s1 = "s\<lparr>dfs := (v, c + 1) # rest\<rparr>"
    have w: "?w < num_nodes g" using wf_csr_adj [OF wf v(2) True] .
    have edge: "(v, ?w) \<in> edges_of g"
      using set_neighbors [OF wf v(2)] v True by (auto simp: edges_of_def)
    note adv = scc_inv_advance [OF _ _ True]
    consider (fresh) "index s ! ?w = None" | (onstack) "index s ! ?w \<noteq> None" "on_stack s ! ?w"
      | (cross) "index s ! ?w \<noteq> None" "\<not> on_stack s ! ?w" by blast
    then show ?thesis
    proof cases
      case fresh
      let ?d = "discover g ?w s"
      have len: "length (index s) = num_nodes g" using inv by (simp add: scc_inv_def shape_ok_def)
      have "\<forall>x\<in>set (scc_stack s). (x, ?w) \<in> (edges_of g)\<^sup>*"
        using top_reached [OF inv d] edge by (auto intro: rtrancl_into_rtrancl)
      from scc_inv_discover [OF wf inv w fresh this] have inv': "scc_inv g ?d" .
      have dd: "dfs ?d = [(?w, offsets g ! ?w)] @ (v, c) # rest" "index ?d ! ?w = Some (next_index s)"
        using d w len by (simp_all add: discover_def)
      have "v \<noteq> ?w" using scc_invD(1) [OF inv v(1)] fresh inv by (auto simp: scc_inv_def shape_ok_def)
      then have "low ?d ! v = low s ! v" by (simp add: discover_def)
      moreover have "low s ! v \<le> ix s v" using scc_invD(6) [OF inv v(1)] .
      moreover have "ix s v < next_index s"
        using scc_invD(1) [OF inv v(1)] inv by (auto simp: scc_inv_def shape_ok_def)
      ultimately have "scc_inv g (?d\<lparr>dfs := [(?w, offsets g ! ?w)] @ (v, Suc c) # rest\<rparr>)"
        using adv [OF inv' dd(1)] dd(2) by simp
      moreover have "scc_step g s = Some (?d\<lparr>dfs := [(?w, offsets g ! ?w)] @ (v, Suc c) # rest\<rparr>)"
        using d True fresh by (simp add: scc_step_def Let_def discover_def)
      moreover have "unvisited g (?d\<lparr>dfs := [(?w, offsets g ! ?w)] @ (v, Suc c) # rest\<rparr>) = unvisited g s - {?w}"
        using w len by (auto simp: unvisited_def discover_def nth_update split: if_splits)
      moreover have "card (unvisited g s - {?w}) < card (unvisited g s)"
        using w fresh by (intro card_Diff1_less) (auto simp: unvisited_def)
      ultimately show ?thesis by (auto simp: scc_measure_def)
    next
      case onstack
      let ?l = "s\<lparr>low := (low s)[v := min (low s ! v) (ix s ?w)]\<rparr>"
      have wS: "?w \<in> set (scc_stack s)" using onstack w inv by (simp add: scc_inv_def shape_ok_def)
      have inv': "scc_inv g ?l" using scc_inv_low [OF inv v(1) wS edge] .
      have "v < length (low s)" using inv v by (simp add: scc_inv_def shape_ok_def)
      then have "scc_inv g (?l\<lparr>dfs := [] @ (v, Suc c) # rest\<rparr>)"
        using d onstack by (intro adv [OF inv']) simp_all
      moreover have "scc_step g s = Some (?l\<lparr>dfs := [] @ (v, Suc c) # rest\<rparr>)"
        using d True onstack by (auto simp add: scc_step_def Let_def)
      ultimately show ?thesis using d True by (auto simp: scc_measure_def unvisited_def)
    next
      case cross
      have wS: "?w \<notin> set (scc_stack s)" using cross w inv by (simp add: scc_inv_def shape_ok_def)
      then have "scc_inv g (s\<lparr>dfs := [] @ (v, Suc c) # rest\<rparr>)"
        using d cross by (intro adv [OF inv]) simp_all
      moreover have "scc_step g s = Some (s\<lparr>dfs := [] @ (v, Suc c) # rest\<rparr>)"
        using d True cross by (auto simp add: scc_step_def Let_def)
      ultimately show ?thesis using d True by (auto simp: scc_measure_def unvisited_def)
    qed
  next
    case False
    have step: "scc_step g s = map_option (leave_node v) (pop_root v s)"
      using d False by (simp add: scc_step_def)
    show ?thesis
    proof (cases "low s ! v = ix s v")
      case True
      obtain us ws s' where s': "pop_root v s = Some s'" "popped s v us ws s'"
        using pop_root_popped [OF scc_invD(1) [OF inv v(1)] True] by blast
      have "index (leave_node v s') = index s"
        using s'(2) by (auto simp: leave_node_def popped_def split: list.split)
      then have "unvisited g (leave_node v s') = unvisited g s" by (simp add: unvisited_def)
      with scc_inv_root [OF wf inv d False True s'(2)] s'(1) step d show ?thesis
        by (auto simp: scc_measure_def)
    next
      case nonroot: False
      have "index (leave_node v s) = index s" "dfs (leave_node v s) = rest"
        using d by (auto simp: leave_node_def split: list.split)
      moreover have "pop_root v s = Some s" using nonroot by (simp add: pop_root_def)
      ultimately show ?thesis
        using scc_inv_leave [OF wf inv d False nonroot] step d
        by (auto simp: scc_measure_def unvisited_def)
    qed
  qed
qed

lemma scc_loop_ok:
  assumes wf: "wf_csr g"
  shows "scc_inv g s \<Longrightarrow> \<exists>s'. scc_loop g s = Some s' \<and> scc_inv g s' \<and> dfs s' = [] \<and>
    unvisited g s' \<subseteq> unvisited g s"
proof (induction s rule: wf_induct [of "scc_measure g"])
  case 1
  show ?case by (simp add: scc_measure_def)
next
  case (2 s)
  show ?case
  proof (cases "dfs s = []")
    case True
    then have "scc_loop g s = Some s" by (subst scc_loop.simps) simp
    with True 2(2) show ?thesis by blast
  next
    case False
    from scc_step_ok [OF wf 2(2) False] obtain s1 where s1: "scc_step g s = Some s1" "scc_inv g s1"
      "(s1, s) \<in> scc_measure g" "unvisited g s1 \<subseteq> unvisited g s" by blast
    then obtain s' where s': "scc_loop g s1 = Some s'" "scc_inv g s'" "dfs s' = []"
      "unvisited g s' \<subseteq> unvisited g s1" using 2(1) by blast
    have "scc_loop g s = Some s'" using s1(1) s'(1) False by (subst scc_loop.simps) simp
    with s' s1(4) show ?thesis by blast
  qed
qed

lemma scc_starts_ok:
  assumes wf: "wf_csr g"
  shows "scc_inv g s \<Longrightarrow> dfs s = [] \<Longrightarrow> list_all (\<lambda>v. v < num_nodes g) starts \<Longrightarrow>
    \<exists>s'. scc_starts g starts s = Some s' \<and> scc_inv g s' \<and> dfs s' = [] \<and>
      unvisited g s' \<subseteq> unvisited g s - set starts"
proof (induction starts arbitrary: s)
  case (Cons v vs)
  have v: "v < num_nodes g" and vs: "list_all (\<lambda>v. v < num_nodes g) vs" using Cons.prems by simp_all
  show ?case
  proof (cases "index s ! v = None")
    case False
    then have "v \<notin> unvisited g s" by (simp add: unvisited_def)
    with Cons.IH [OF Cons.prems(1,2) vs] False show ?thesis by auto
  next
    case True
    let ?d = "discover g v s"
    have "scc_stack s = []" using scc_invD(5) [OF Cons.prems(1)] Cons.prems(2) by (cases "scc_stack s") auto
    then have inv: "scc_inv g ?d" using scc_inv_discover [OF wf Cons.prems(1) v True] by simp
    from scc_loop_ok [OF wf inv] obtain s1 where s1: "scc_loop g ?d = Some s1" "scc_inv g s1"
      "dfs s1 = []" "unvisited g s1 \<subseteq> unvisited g ?d" by blast
    have "length (index s) = num_nodes g" using Cons.prems(1) by (simp add: scc_inv_def shape_ok_def)
    then have "unvisited g ?d = unvisited g s - {v}"
      using v by (auto simp: unvisited_def discover_def nth_update split: if_splits)
    with s1 Cons.IH [OF s1(2,3) vs] True show ?thesis by auto
  qed
qed auto

lemma nodes_in_cycles_ok:
  assumes "wf_csr g"
  shows "\<exists>flags. nodes_in_cycles g = Some flags \<and> length flags = num_nodes g \<and>
    (\<forall>v<num_nodes g. flags ! v \<longleftrightarrow> (v, v) \<in> (edges_of g)\<^sup>+)"
proof -
  let ?n = "num_nodes g"
  let ?s = "\<lparr>index = replicate ?n None, low = replicate ?n 0, on_stack = replicate ?n False,
    scc_stack = [], dfs = [], next_index = 0, in_cycle = self_loops g\<rparr>"
  have "scc_inv g ?s"
    by (auto simp: scc_inv_def shape_ok_def frames_ok_def closed_ok_def reach_ok_def low_ok_def
        marked_ok_def closed_off_def self_loops_def edges_of_def)
  from scc_starts_ok [OF assms this, of "[0..<?n]"] obtain s' where
    s': "scc_starts g [0..<?n] ?s = Some s'" "scc_inv g s'" "dfs s' = []"
    "unvisited g s' \<subseteq> unvisited g ?s - set [0..<?n]" by (auto simp: list_all_iff)
  have S: "scc_stack s' = []" using scc_invD(5) [OF s'(2)] s'(3) by (cases "scc_stack s'") auto
  have "v \<in> closed_off g s'" if "v < ?n" for v
    using that s'(2,4) S by (auto simp: closed_off_def unvisited_def scc_inv_def shape_ok_def)
  then have "\<forall>v<?n. in_cycle s' ! v \<longleftrightarrow> (v, v) \<in> (edges_of g)\<^sup>+"
    using s'(2) by (simp add: scc_inv_def marked_ok_def)
  moreover have "length (in_cycle s') = ?n" using s'(2) by (simp add: scc_inv_def shape_ok_def)
  ultimately show ?thesis using s'(1) by (simp add: nodes_in_cycles_def Let_def)
qed

text \<open>
  C15: The search for cycles is exact and always ends. On a well-formed graph it never pops an empty
  stack, and it flags exactly the nodes that lie on a cycle, a self-loop being one.
\<close>

theorem nodes_in_cycles_exact:
  assumes "wf_csr g"
  shows "\<exists>flags. nodes_in_cycles g = Some flags \<and> length flags = num_nodes g \<and>
    (\<forall>v<num_nodes g. flags ! v \<longleftrightarrow> (v, v) \<in> (edges_of g)\<^sup>+)"
  using assms by (rule nodes_in_cycles_ok)

lemma nodes_in_cycles_exact_witness:
  "(\<exists>flags. nodes_in_cycles \<lparr>offsets = [0, 1, 2, 4, 4], adj = [1, 0, 2, 3]\<rparr> = Some flags \<and>
      length flags = num_nodes \<lparr>offsets = [0, 1, 2, 4, 4], adj = [1, 0, 2, 3]\<rparr> \<and>
      (\<forall>v<num_nodes \<lparr>offsets = [0, 1, 2, 4, 4], adj = [1, 0, 2, 3]\<rparr>. flags ! v \<longleftrightarrow>
         (v, v) \<in> (edges_of \<lparr>offsets = [0, 1, 2, 4, 4], adj = [1, 0, 2, 3]\<rparr>)\<^sup>+))"
  by (rule nodes_in_cycles_exact) code_simp

section \<open>Leveling after the cycles\<close>

lemma acyclic_unflagged:
  assumes "\<forall>v<num_nodes g. flags ! v \<longleftrightarrow> (v, v) \<in> (edges_of g)\<^sup>+"
  shows "acyclic (live_edges g flags)"
proof (rule acyclicI, intro allI notI)
  fix v assume v: "(v, v) \<in> (live_edges g flags)\<^sup>+"
  have "live_edges g flags \<subseteq> edges_of g" by (auto simp: live_edges_def edges_of_def)
  then have "(v, v) \<in> (edges_of g)\<^sup>+" using v by (rule trancl_mono_subset [THEN subsetD])
  moreover have "v < num_nodes g \<and> \<not> flags ! v" using tranclD [OF v] by (auto simp: live_edges_def)
  ultimately show False using assms by blast
qed

lemma cycles_then_levels:
  assumes "\<forall>(u, v)\<in>set edges. u < n \<and> v < n"
  shows "\<exists>g flags levels. from_edges n edges = Some g \<and> nodes_in_cycles g = Some flags \<and>
    length flags = n \<and> (\<forall>v<n. flags ! v \<longleftrightarrow> (v, v) \<in> (set edges)\<^sup>+) \<and>
    dependency_levels g flags = Some levels \<and> distinct (concat levels) \<and>
    set (concat levels) = {v. v < n \<and> (v, v) \<notin> (set edges)\<^sup>+} \<and>
    (\<forall>i<length levels. \<forall>v\<in>set (levels ! i). \<forall>w. (v, w) \<in> set edges \<longrightarrow>
       (w, w) \<in> (set edges)\<^sup>+ \<or> (\<exists>j<i. w \<in> set (levels ! j)))"
proof -
  obtain g where g: "from_edges n edges = Some g" "wf_csr g" "num_nodes g = n"
      "\<forall>v<n. neighbors g v = map snd (filter (\<lambda>e. fst e = v) edges)"
    using from_edges_correct [OF assms] by blast
  have E: "edges_of g = set edges"
    using assms g(3,4) by (auto simp: edges_of_def) (force simp: image_iff)
  obtain flags where flags: "nodes_in_cycles g = Some flags" "length flags = n"
      "\<forall>v<n. flags ! v \<longleftrightarrow> (v, v) \<in> (set edges)\<^sup>+"
    using nodes_in_cycles_ok [OF g(2)] g(3) E by auto
  have "acyclic (live_edges g flags)" using acyclic_unflagged flags(3) g(3) E by simp
  then obtain levels where levels: "dependency_levels g flags = Some levels" "good_levels g flags {} levels"
    using dependency_levels_correct [OF g(2)] flags(2) g(3) by auto
  have mem: "set (concat levels) = {v. v < n \<and> (v, v) \<notin> (set edges)\<^sup>+}"
    using levels(2) flags(3) g(3) by (auto simp: good_levels_def)
  show ?thesis
  proof (intro exI conjI)
    show "from_edges n edges = Some g" "nodes_in_cycles g = Some flags"
      "dependency_levels g flags = Some levels" "length flags = n"
      "\<forall>v<n. flags ! v \<longleftrightarrow> (v, v) \<in> (set edges)\<^sup>+"
      by (fact g(1), fact flags(1), fact levels(1), fact flags(2), fact flags(3))
    show "distinct (concat levels)" using levels(2) by (simp only: good_levels_def)
    show "set (concat levels) = {v. v < n \<and> (v, v) \<notin> (set edges)\<^sup>+}" by (fact mem)
    show "\<forall>i<length levels. \<forall>v\<in>set (levels ! i). \<forall>w. (v, w) \<in> set edges \<longrightarrow>
        (w, w) \<in> (set edges)\<^sup>+ \<or> (\<exists>j<i. w \<in> set (levels ! j))"
    proof (intro allI ballI impI)
      fix i v w
      assume i: "i < length levels" "v \<in> set (levels ! i)" and e: "(v, w) \<in> set edges"
      have n: "v < n" "w < n" using e assms by auto
      with e g(4) have "w \<in> set (neighbors g v)" by force
      with levels(2) i have "flags ! w \<or> (\<exists>j<i. w \<in> set (levels ! j))"
        unfolding good_levels_def by blast
      with flags(3) n(2) show "(w, w) \<in> (set edges)\<^sup>+ \<or> (\<exists>j<i. w \<in> set (levels ! j))" by blast
    qed
  qed
qed

text \<open>
  C16: The order of the precompute. For every list of call edges between nodes, building the graph,
  flagging its cycles and leveling what is left succeed. The levels hold every node outside the
  cycles once, and each of its callees is on a cycle or in an earlier level.
\<close>

theorem levels_after_cycles:
  assumes "\<forall>(u, v)\<in>set edges. u < n \<and> v < n"
  shows "\<exists>g flags levels. from_edges n edges = Some g \<and> nodes_in_cycles g = Some flags \<and>
    length flags = n \<and> (\<forall>v<n. flags ! v \<longleftrightarrow> (v, v) \<in> (set edges)\<^sup>+) \<and>
    dependency_levels g flags = Some levels \<and> distinct (concat levels) \<and>
    set (concat levels) = {v. v < n \<and> (v, v) \<notin> (set edges)\<^sup>+} \<and>
    (\<forall>i<length levels. \<forall>v\<in>set (levels ! i). \<forall>w. (v, w) \<in> set edges \<longrightarrow>
       (w, w) \<in> (set edges)\<^sup>+ \<or> (\<exists>j<i. w \<in> set (levels ! j)))"
  using assms by (rule cycles_then_levels)

lemma levels_after_cycles_witness:
  "\<exists>g flags levels. from_edges 3 [(0, 1), (1, 1), (0, 2)] = Some g \<and> nodes_in_cycles g = Some flags \<and>
    length flags = 3 \<and> (\<forall>v<3. flags ! v \<longleftrightarrow> (v, v) \<in> (set [(0, 1), (1, 1), (0, 2)])\<^sup>+) \<and>
    dependency_levels g flags = Some levels \<and> distinct (concat levels) \<and>
    set (concat levels) = {v. v < 3 \<and> (v, v) \<notin> (set [(0, 1), (1, 1), (0, 2)])\<^sup>+} \<and>
    (\<forall>i<length levels. \<forall>v\<in>set (levels ! i). \<forall>w. (v, w) \<in> set [(0, 1), (1, 1), (0, 2)] \<longrightarrow>
       (w, w) \<in> (set [(0, 1), (1, 1), (0, 2)])\<^sup>+ \<or> (\<exists>j<i. w \<in> set (levels ! j)))"
  by (rule levels_after_cycles) simp

end
