(* ===== verification/Call_Graph.thy ===== *)
theory Call_Graph
  imports Call_Checks Csr_Cycles
begin

text \<open>
  The call graph and the verdicts computed along it (\<open>src/project/call_graph.rs\<close>). The nodes are the
  indices of \<open>graph_names\<close>; the graph itself is the one of \<open>Csr_Graph\<close>. The nodes of a level run in
  parallel in the code; the model runs them one after another, in any order it is given, and
  \<open>Call_Order\<close> shows when the order does not matter.
\<close>

record call_graph =
  csr :: csr_graph
  graph_names :: "modname list"
  in_cycle :: "bool list"

section \<open>Building the graph\<close>

definition call_graph_names :: "project_info \<Rightarrow> modname list" where
  "call_graph_names p = small_extend [] (map fst (pi_functions p) @ map fst (pi_classes p))"

text \<open>The names one runnable effect of a function leads to: the callee, the nested functions of a
  parameterized decorator, the metaclass methods of a class statement.\<close>

definition effect_callees :: "project_info \<Rightarrow> modname list \<Rightarrow> effect \<Rightarrow> modname list" where
  "effect_callees p names e =
     (let target = call_graph_target p e (\<lambda>name. name \<in> set names)
      in (case target of None \<Rightarrow> [] | Some t \<Rightarrow> [t]) @
         (if is_parameterized_decorator_effect e then
            (case target of
               None \<Rightarrow> []
             | Some t \<Rightarrow> (case map_of (nested_functions p) t of None \<Rightarrow> [] | Some children \<Rightarrow> children))
          else []) @
         (if eff_kind e = ClassCreation then metaclass_creation_callees p (eff_name e) else []))"

definition function_callees :: "project_info \<Rightarrow> modname list \<Rightarrow> modname \<Rightarrow> modname list" where
  "function_callees p names f =
     concat (map (effect_callees p names)
       (filter (\<lambda>e. is_runnable (eff_kind e))
          (case table_get (pi_effect_table p) f of None \<Rightarrow> [] | Some effs \<Rightarrow> effs)))"

definition constructor_targets :: "project_info \<Rightarrow> modname list \<Rightarrow> modname \<Rightarrow> modname list" where
  "constructor_targets p names cls =
     List.map_filter (\<lambda>m. if m \<in> set names then Some m else resolve_callable p m)
       (constructor_methods p cls)"

text \<open>The edges from a node to the callees that are nodes.\<close>

definition edges_from :: "modname list \<Rightarrow> modname \<Rightarrow> modname list \<Rightarrow> edge list" where
  "edges_from names from callees =
     (case position_of from names of
        None \<Rightarrow> []
      | Some i \<Rightarrow> List.map_filter (\<lambda>callee. map_option (Pair i) (position_of callee names)) callees)"

definition call_edges :: "project_info \<Rightarrow> modname list \<Rightarrow> edge list" where
  "call_edges p names =
     concat (map (\<lambda>(f, _). edges_from names f (function_callees p names f)) (pi_functions p)) @
     concat (map (\<lambda>(cls, _). edges_from names cls (constructor_targets p names cls)) (pi_classes p))"

definition build_call_graph :: "project_info \<Rightarrow> call_graph option" where
  "build_call_graph p =
     (let names = call_graph_names p
      in case from_edges (length names) (call_edges p names) of
           None \<Rightarrow> None
         | Some g \<Rightarrow>
             map_option (\<lambda>cyclic. \<lparr>csr = g, graph_names = names, in_cycle = cyclic\<rparr>) (nodes_in_cycles g))"

section \<open>Verdicts before the levels\<close>

definition mark_recursive_functions_unsafe :: "call_graph \<Rightarrow> analysis_state \<Rightarrow> analysis_state" where
  "mark_recursive_functions_unsafe g st =
     foldl (\<lambda>st (i, is_cyclic). if is_cyclic then mark_unsafe (graph_names g ! i) st else st) st
       (zip [0..<length (in_cycle g)] (in_cycle g))"

definition mark_declared_safe :: "call_graph \<Rightarrow> analysis_state \<Rightarrow> analysis_state" where
  "mark_declared_safe g st = foldl (\<lambda>st n. mark_safe n st) st (filter declared_safe (graph_names g))"

section \<open>Verdicts in dependency order\<close>

definition fresh_call :: "modname \<Rightarrow> modname \<Rightarrow> call" where
  "fresh_call m name =
     \<lparr>caller_module = m, call_effect = new_effect FunctionCall name default_range, func = name,
      stack = [], is_module_scope = False\<rparr>"

text \<open>What a class keeps of the verdicts of its constructor methods.\<close>

definition fold_constructor_verdicts ::
  "analysis_state \<Rightarrow> modname list \<Rightarrow> function_safety_info \<Rightarrow> function_safety_info" where
  "fold_constructor_verdicts st ms combined =
     foldl (\<lambda>combined m.
        case verdict_of st m of
          None \<Rightarrow> combined
        | Some info \<Rightarrow>
            combined\<lparr>verdict := insert_concern (verdict combined) (verdict info),
              missing_dep_callees :=
                (if has (verdict info) UnsafeMissingDep then small_insert m (missing_dep_callees combined)
                 else missing_dep_callees combined)\<rparr>)
       combined ms"

definition precompute_constructor_verdict ::
  "project_info \<Rightarrow> modname \<Rightarrow> analysis_state \<Rightarrow> analysis_state option" where
  "precompute_constructor_verdict p cls st =
     (if contains_key (verdicts st) cls then Some st
      else
        (case check_constructor_call p (check_call_body (body_fuel p) p) (fresh_call cls cls) st of
           None \<Rightarrow> None
         | Some (Inr True, st') \<Rightarrow> Some (mark_safe cls st')
         | Some (Inr False, st') \<Rightarrow>
             (let combined = fold_constructor_verdicts st' (constructor_methods p cls) (new_info Safe)
              in Some (if \<not> is_safe (verdict combined) \<and> \<not> has (verdict combined) Unsafe
                       then set_function_safety cls combined st' else mark_unsafe cls st'))
         | Some (Inl e, st') \<Rightarrow> Some (mark_unsafe cls st')))"

definition precompute_function_verdict ::
  "project_info \<Rightarrow> modname \<Rightarrow> modname \<Rightarrow> analysis_state \<Rightarrow> analysis_state option" where
  "precompute_function_verdict p f m st =
     (if contains_key (verdicts st) f then Some st
      else
        (case check_call_body (body_fuel p) p (fresh_call m f) st of
           None \<Rightarrow> None
         | Some (r, st') \<Rightarrow>
             (let st'' = (case r of Inl e \<Rightarrow> mark_unsafe f st' | Inr ok \<Rightarrow> st')
              in Some (if contains_key (verdicts st'') f then st'' else mark_safe f st''))))"

definition precompute_node :: "project_info \<Rightarrow> modname \<Rightarrow> analysis_state \<Rightarrow> analysis_state option" where
  "precompute_node p name st =
     (if contains_key (pi_classes p) name then precompute_constructor_verdict p name st
      else
        (case map_of (pi_functions p) name of
           Some m \<Rightarrow> precompute_function_verdict p name m st
         | None \<Rightarrow> Some st))"

fun precompute_nodes :: "project_info \<Rightarrow> modname list \<Rightarrow> analysis_state \<Rightarrow> analysis_state option" where
  "precompute_nodes p [] st = Some st"
| "precompute_nodes p (n # ns) st =
     (case precompute_node p n st of None \<Rightarrow> None | Some st' \<Rightarrow> precompute_nodes p ns st')"

definition precompute_safety_in_dependency_order ::
  "project_info \<Rightarrow> call_graph \<Rightarrow> analysis_state \<Rightarrow> analysis_state option" where
  "precompute_safety_in_dependency_order p g st =
     (case dependency_levels (csr g) (in_cycle g) of
        None \<Rightarrow> None
      | Some levels \<Rightarrow> precompute_nodes p (map (\<lambda>n. graph_names g ! n) (concat levels)) st)"

text \<open>The three steps, as \<open>collect_errors_from_project\<close> runs them.\<close>

definition compute_verdicts :: "project_info \<Rightarrow> analysis_state \<Rightarrow> analysis_state option" where
  "compute_verdicts p st =
     (case build_call_graph p of
        None \<Rightarrow> None
      | Some g \<Rightarrow>
          precompute_safety_in_dependency_order p g
            (mark_declared_safe g (mark_recursive_functions_unsafe g st)))"

section \<open>The graph is built\<close>

lemma position_of_SomeD: "position_of x xs = Some i \<Longrightarrow> i < length xs \<and> xs ! i = x"
  by (auto simp: position_of_def dest: find_first_SomeD)

lemma position_of_mem: "x \<in> set xs \<Longrightarrow> \<exists>i. position_of x xs = Some i"
  by (auto simp: position_of_def in_set_conv_nth find_first_None_iff simp flip: not_None_eq)

lemma position_of_nth: "distinct xs \<Longrightarrow> i < length xs \<Longrightarrow> position_of (xs ! i) xs = Some i"
  using position_of_mem [of "xs ! i" xs] position_of_SomeD [of "xs ! i" xs]
  by (metis nth_eq_iff_index_eq nth_mem)

lemma call_graph_names_props:
  "distinct (call_graph_names p)"
  "n \<in> set (call_graph_names p) \<longleftrightarrow> is_definition p n"
  by (auto simp: call_graph_names_def distinct_small_extend is_definition_def contains_key_def
      map_of_eq_None_iff image_iff)

lemma edges_from_iff:
  "(i, j) \<in> set (edges_from names f callees) \<longleftrightarrow>
     position_of f names = Some i \<and> (\<exists>c\<in>set callees. position_of c names = Some j)"
  by (auto simp: edges_from_def set_map_filter split: option.split)

text \<open>The callees of a name, in the roles it has: a function and a class have both.\<close>

definition callees_of :: "project_info \<Rightarrow> modname \<Rightarrow> modname set" where
  "callees_of p n =
     (if contains_key (pi_functions p) n then set (function_callees p (call_graph_names p) n) else {}) \<union>
     (if contains_key (pi_classes p) n then set (constructor_targets p (call_graph_names p) n) else {})"

lemma call_edges_iff:
  "(i, j) \<in> set (call_edges p names) \<longleftrightarrow>
     (\<exists>n c. position_of n names = Some i \<and> position_of c names = Some j \<and>
        (contains_key (pi_functions p) n \<and> c \<in> set (function_callees p names n) \<or>
         contains_key (pi_classes p) n \<and> c \<in> set (constructor_targets p names n)))"
  by (auto simp: call_edges_def edges_from_iff contains_key_def map_of_eq_None_iff) force+

lemma call_edges_bound: "\<forall>(u, v)\<in>set (call_edges p names). u < length names \<and> v < length names"
  by (auto simp: call_edges_iff dest: position_of_SomeD)

text \<open>The relation between names the edges stand for.\<close>

definition calls :: "project_info \<Rightarrow> (modname \<times> modname) set" where
  "calls p = {(n, c). is_definition p n \<and> is_definition p c \<and> c \<in> callees_of p n}"

lemma call_edges_calls:
  assumes "i < length (call_graph_names p)" "j < length (call_graph_names p)"
  shows "(i, j) \<in> set (call_edges p (call_graph_names p)) \<longleftrightarrow>
    (call_graph_names p ! i, call_graph_names p ! j) \<in> calls p"
  using assms nth_mem [OF assms(1)] nth_mem [OF assms(2)]
  by (auto simp: call_edges_iff calls_def callees_of_def call_graph_names_props
      dest!: position_of_SomeD intro: position_of_nth [OF call_graph_names_props(1)] split: if_splits)

lemma call_edges_trancl:
  assumes "i < length (call_graph_names p)" "j < length (call_graph_names p)"
  shows "(i, j) \<in> (set (call_edges p (call_graph_names p)))\<^sup>+ \<longleftrightarrow>
    (call_graph_names p ! i, call_graph_names p ! j) \<in> (calls p)\<^sup>+"
    (is "_ \<in> ?E\<^sup>+ \<longleftrightarrow> (?n i, ?n j) \<in> _")
proof
  assume "(i, j) \<in> ?E\<^sup>+"
  then show "(?n i, ?n j) \<in> (calls p)\<^sup>+"
  proof induction
    case (base j)
    then show ?case using call_edges_bound call_edges_calls by blast
  next
    case (step j k)
    then have "(?n j, ?n k) \<in> calls p" using call_edges_bound call_edges_calls by blast
    with step.IH show ?case by simp
  qed
next
  have "\<exists>j<length (call_graph_names p). ?n j = b \<and> (i, j) \<in> ?E\<^sup>+" if "(?n i, b) \<in> (calls p)\<^sup>+" for b
    using that
  proof induction
    case (base b)
    then have "b \<in> set (call_graph_names p)" by (simp add: calls_def call_graph_names_props)
    then obtain j where "j < length (call_graph_names p)" "?n j = b" by (auto simp: in_set_conv_nth)
    with base assms(1) show ?case using call_edges_calls by blast
  next
    case (step b c)
    then obtain j where j: "j < length (call_graph_names p)" "?n j = b" "(i, j) \<in> ?E\<^sup>+" by blast
    from step have "c \<in> set (call_graph_names p)" by (simp add: calls_def call_graph_names_props)
    then obtain k where "k < length (call_graph_names p)" "?n k = c" by (auto simp: in_set_conv_nth)
    moreover from this j step.hyps(2) have "(j, k) \<in> ?E" by (simp add: call_edges_calls)
    ultimately show ?case using trancl_into_trancl [OF j(3)] by blast
  qed
  moreover assume "(?n i, ?n j) \<in> (calls p)\<^sup>+"
  ultimately show "(i, j) \<in> ?E\<^sup>+"
    using assms(2) call_graph_names_props(1) by (metis nth_eq_iff_index_eq)
qed

text \<open>The graph in terms of names: what is on a cycle, and the levels of the rest.\<close>

lemma build_call_graph_ok:
  "\<exists>g levels. build_call_graph p = Some g \<and> graph_names g = call_graph_names p \<and>
     length (in_cycle g) = length (call_graph_names p) \<and>
     (\<forall>i<length (call_graph_names p).
        in_cycle g ! i \<longleftrightarrow> (call_graph_names p ! i, call_graph_names p ! i) \<in> (calls p)\<^sup>+) \<and>
     dependency_levels (csr g) (in_cycle g) = Some levels \<and>
     distinct (concat levels) \<and> (\<forall>v\<in>set (concat levels). v < length (call_graph_names p)) \<and>
     (\<forall>n. n \<in> (!) (call_graph_names p) ` set (concat levels) \<longleftrightarrow> is_definition p n \<and> (n, n) \<notin> (calls p)\<^sup>+) \<and>
     (\<forall>i<length levels. \<forall>v\<in>set (levels ! i). \<forall>c. (call_graph_names p ! v, c) \<in> calls p \<longrightarrow>
        (c, c) \<in> (calls p)\<^sup>+ \<or> (\<exists>j<i. c \<in> (!) (call_graph_names p) ` set (levels ! j)))"
proof -
  let ?ns = "call_graph_names p"
  let ?E = "call_edges p ?ns"
  obtain g flags levels where g: "from_edges (length ?ns) ?E = Some g" "nodes_in_cycles g = Some flags"
    and flags: "length flags = length ?ns" "\<forall>v<length ?ns. flags ! v \<longleftrightarrow> (v, v) \<in> (set ?E)\<^sup>+"
    and lev: "dependency_levels g flags = Some levels" "distinct (concat levels)"
      "set (concat levels) = {v. v < length ?ns \<and> (v, v) \<notin> (set ?E)\<^sup>+}"
      "\<forall>i<length levels. \<forall>v\<in>set (levels ! i). \<forall>w. (v, w) \<in> set ?E \<longrightarrow>
         (w, w) \<in> (set ?E)\<^sup>+ \<or> (\<exists>j<i. w \<in> set (levels ! j))"
    using cycles_then_levels [OF call_edges_bound [of p ?ns]] by blast
  show ?thesis
  proof (intro exI conjI)
    show "build_call_graph p = Some \<lparr>csr = g, graph_names = ?ns, in_cycle = flags\<rparr>"
      by (simp add: build_call_graph_def g Let_def)
    show "\<forall>n. n \<in> (!) ?ns ` set (concat levels) \<longleftrightarrow> is_definition p n \<and> (n, n) \<notin> (calls p)\<^sup>+"
    proof
      fix n
      have "n \<in> (!) ?ns ` set (concat levels) \<longleftrightarrow>
          (\<exists>v<length ?ns. n = ?ns ! v \<and> (?ns ! v, ?ns ! v) \<notin> (calls p)\<^sup>+)"
        unfolding lev(3) using call_edges_trancl by auto
      also have "\<dots> \<longleftrightarrow> n \<in> set ?ns \<and> (n, n) \<notin> (calls p)\<^sup>+" by (auto simp: in_set_conv_nth)
      finally show "n \<in> (!) ?ns ` set (concat levels) \<longleftrightarrow> is_definition p n \<and> (n, n) \<notin> (calls p)\<^sup>+"
        by (simp add: call_graph_names_props)
    qed
    show "\<forall>i<length levels. \<forall>v\<in>set (levels ! i). \<forall>c. (?ns ! v, c) \<in> calls p \<longrightarrow>
        (c, c) \<in> (calls p)\<^sup>+ \<or> (\<exists>j<i. c \<in> (!) ?ns ` set (levels ! j))"
    proof (intro allI ballI impI)
      fix i v c
      assume i: "i < length levels" "v \<in> set (levels ! i)" and c: "(?ns ! v, c) \<in> calls p"
      have v: "v < length ?ns" using lev(3) i nth_mem [OF i(1)] by auto
      from c have "c \<in> set ?ns" by (simp add: calls_def call_graph_names_props)
      then obtain w where w: "w < length ?ns" "?ns ! w = c" by (auto simp: in_set_conv_nth)
      with c v have "(v, w) \<in> set ?E" by (simp add: call_edges_calls)
      with lev(4) i have "(w, w) \<in> (set ?E)\<^sup>+ \<or> (\<exists>j<i. w \<in> set (levels ! j))" by blast
      then show "(c, c) \<in> (calls p)\<^sup>+ \<or> (\<exists>j<i. c \<in> (!) ?ns ` set (levels ! j))"
        using w call_edges_trancl by blast
    qed
  qed (use flags lev call_edges_trancl in auto)
qed

section \<open>Every definition gets a verdict\<close>

text \<open>What a step of the computation may do to the state.\<close>

definition step_ok :: "project_info \<Rightarrow> analysis_state \<Rightarrow> analysis_state \<Rightarrow> bool" where
  "step_ok p st st' \<longleftrightarrow>
     (verdicts_ok st \<longrightarrow> verdicts_ok st') \<and> dom (verdict_of st) \<subseteq> dom (verdict_of st') \<and>
     dom (verdict_of st') \<subseteq> dom (verdict_of st) \<union> {n. is_definition p n} \<and>
     safety_map st' = safety_map st"

lemma step_ok_refl [simp]: "step_ok p st st"
  by (simp add: step_ok_def)

lemma step_ok_trans [trans]: "step_ok p a b \<Longrightarrow> step_ok p b c \<Longrightarrow> step_ok p a c"
proof -
  have sets: "A \<subseteq> B \<Longrightarrow> B \<subseteq> A \<union> N \<Longrightarrow> B \<subseteq> C \<Longrightarrow> C \<subseteq> B \<union> N \<Longrightarrow> A \<subseteq> C \<and> C \<subseteq> A \<union> N"
    for A B C N :: "modname set"
    by blast
  assume "step_ok p a b" "step_ok p b c"
  with sets [of "dom (verdict_of a)" "dom (verdict_of b)" "{n. is_definition p n}" "dom (verdict_of c)"]
  show "step_ok p a c"
    unfolding step_ok_def by simp
qed

lemma step_ok_known: "step_ok p a b \<Longrightarrow> verdict_of a n \<noteq> None \<Longrightarrow> verdict_of b n \<noteq> None"
  by (auto simp: step_ok_def)

lemma step_ok_set:
  "is_definition p n \<Longrightarrow> (verdicts_ok st \<Longrightarrow> info_ok info) \<Longrightarrow> step_ok p st (set_function_safety n info st)"
  by (auto simp: step_ok_def intro: verdicts_ok_set)

lemma step_ok_marks:
  assumes "is_definition p n"
  shows "step_ok p st (mark_safe n st)" "step_ok p st (mark_unsafe n st)"
  using assms by (simp_all add: mark_defs step_ok_set)

interpretation steps: update_invariant p False "step_ok p st0" for p st0
proof unfold_locales
  fix f g st
  assume f: "contains_key (pi_functions p) f" and st: "step_ok p st0 st"
  have d: "is_definition p f" using f by (simp add: is_definition_def)
  note set = step_ok_trans [OF st step_ok_set [OF d]]
  show "step_ok p st0 (mark_safe f st)" "step_ok p st0 (mark_unsafe f st)"
    by (simp_all add: mark_defs set)
  show "step_ok p st0 (mark_unsafe_missing_dep f g st)" "step_ok p st0 (mark_unsafe_if_imported f st)"
    unfolding mark_defs
    by (rule set; auto simp: verdicts_ok_def intro!: info_ok_insert split: option.split)+
qed simp_all

lemma step_ok_check:
  assumes "check_call_body (body_fuel p) p c st = Some (r, st')" and "\<not> is_module_scope c"
  shows "step_ok p st st'"
  using steps.check_call_body_keeps [OF assms(1), of st] assms(2) by simp

lemma step_ok_constructor:
  assumes "check_constructor_call p (check_call_body (body_fuel p) p) c st = Some (r, st')"
    and "\<not> is_module_scope c"
  shows "step_ok p st st'"
  using steps.check_constructor_keeps [OF assms(1), of st] assms(2) by simp

lemma fold_constructor_verdicts_ok:
  "verdicts_ok st \<Longrightarrow> info_ok combined \<Longrightarrow> info_ok (fold_constructor_verdicts st ms combined)"
proof (induction ms arbitrary: combined)
  case (Cons m ms)
  show ?case
  proof (cases "verdict_of st m")
    case (Some info)
    with Cons.prems have "info_ok info" by (simp add: verdicts_ok_def)
    let ?c = "combined\<lparr>verdict := insert_concern (verdict combined) (verdict info),
      missing_dep_callees := (if has (verdict info) UnsafeMissingDep
        then small_insert m (missing_dep_callees combined) else missing_dep_callees combined)\<rparr>"
    have "info_ok ?c" using \<open>info_ok info\<close> Cons.prems(2) by (auto simp: info_ok_def small_insert_def)
    from Cons.IH [OF Cons.prems(1) this] Some show ?thesis
      by (simp add: fold_constructor_verdicts_def)
  qed (use Cons in \<open>simp add: fold_constructor_verdicts_def\<close>)
qed (simp add: fold_constructor_verdicts_def)

lemma precompute_constructor_ok:
  assumes cls: "contains_key (pi_classes p) cls"
  shows "\<exists>st'. precompute_constructor_verdict p cls st = Some st' \<and> step_ok p st st' \<and>
    verdict_of st' cls \<noteq> None"
proof (cases "contains_key (verdicts st) cls")
  case False
  obtain ok st' where run: "check_constructor_call p (check_call_body (body_fuel p) p) (fresh_call cls cls) st =
      Some (Inr ok, st')"
    using constructor_returns by blast
  have s: "step_ok p st st'" by (rule step_ok_constructor [OF run]) (simp add: fresh_call_def)
  have d: "is_definition p cls" using cls by (simp add: is_definition_def)
  let ?i = "fold_constructor_verdicts st' (constructor_methods p cls) (new_info Safe)"
  have i: "step_ok p st' (set_function_safety cls ?i st')"
    by (rule step_ok_set [OF d]) (simp add: fold_constructor_verdicts_ok)
  show ?thesis
    using False run s i step_ok_marks [OF d, of st'] step_ok_trans [OF s]
    by (cases ok) (auto simp: precompute_constructor_verdict_def Let_def mark_defs)
qed (simp add: precompute_constructor_verdict_def contains_key_def)

lemma precompute_function_ok:
  assumes f: "map_of (pi_functions p) f = Some m"
  shows "\<exists>st'. precompute_function_verdict p f m st = Some st' \<and> step_ok p st st' \<and>
    verdict_of st' f \<noteq> None"
proof (cases "contains_key (verdicts st) f")
  case False
  obtain ok st' where run: "check_call_body (body_fuel p) p (fresh_call m f) st = Some (Inr ok, st')"
    using body_returns [of p "fresh_call m f" st] by blast
  have s: "step_ok p st st'" by (rule step_ok_check [OF run]) (simp add: fresh_call_def)
  have d: "is_definition p f" using f by (simp add: is_definition_def contains_key_def)
  show ?thesis
    using False run s step_ok_marks [OF d, of st'] step_ok_trans [OF s]
    by (auto simp: precompute_function_verdict_def Let_def contains_key_def mark_defs)
qed (simp add: precompute_function_verdict_def contains_key_def)

lemma precompute_node_ok:
  assumes "is_definition p n"
  shows "\<exists>st'. precompute_node p n st = Some st' \<and> step_ok p st st' \<and> verdict_of st' n \<noteq> None"
  using assms precompute_constructor_ok [of p n st] precompute_function_ok [of p n _ st]
  by (auto simp: precompute_node_def is_definition_def contains_key_def [of "pi_functions p"])

lemma precompute_nodes_ok:
  "\<forall>n\<in>set ns. is_definition p n \<Longrightarrow>
     \<exists>st'. precompute_nodes p ns st = Some st' \<and> step_ok p st st' \<and> set ns \<subseteq> dom (verdict_of st')"
proof (induction ns arbitrary: st)
  case (Cons n ns)
  obtain st1 where n: "precompute_node p n st = Some st1" "step_ok p st st1" "verdict_of st1 n \<noteq> None"
    using precompute_node_ok [of p n st] Cons.prems by auto
  obtain st2 where ns: "precompute_nodes p ns st1 = Some st2" "step_ok p st1 st2"
      "set ns \<subseteq> dom (verdict_of st2)"
    using Cons.IH [of st1] Cons.prems by auto
  have "n \<in> dom (verdict_of st2)" using n(3) ns(2) by (auto simp: step_ok_def)
  with n ns step_ok_trans [OF n(2) ns(2)] show ?case by auto
qed simp

lemma mark_recursive_ok:
  assumes "graph_names g = call_graph_names p" "length (in_cycle g) = length (call_graph_names p)"
  shows "step_ok p st (mark_recursive_functions_unsafe g st) \<and>
    (\<forall>i<length (in_cycle g). in_cycle g ! i \<longrightarrow>
       verdict_of (mark_recursive_functions_unsafe g st) (graph_names g ! i) \<noteq> None)"
proof -
  let ?f = "\<lambda>st (i, is_cyclic). if is_cyclic then mark_unsafe (graph_names g ! i) st else st"
  have "step_ok p st (foldl ?f st xs) \<and> (\<forall>(i, b)\<in>set xs. b \<longrightarrow> verdict_of (foldl ?f st xs) (graph_names g ! i) \<noteq> None)"
    if "\<forall>(i, b)\<in>set xs. i < length (call_graph_names p)" for xs
    using that
  proof (induction xs rule: rev_induct)
    case (snoc x xs)
    obtain i b where x: "x = (i, b)" by fastforce
    have "is_definition p (graph_names g ! i)"
      using snoc.prems x assms(1) call_graph_names_props(2) [of "graph_names g ! i" p] by auto
    then have step: "step_ok p (foldl ?f st xs) (foldl ?f st (xs @ [x]))"
      by (simp add: x step_ok_marks)
    have "\<forall>(i, b)\<in>set xs. b \<longrightarrow> verdict_of (foldl ?f st (xs @ [x])) (graph_names g ! i) \<noteq> None"
      using snoc.IH snoc.prems step_ok_known [OF step] by fastforce
    moreover have "b \<longrightarrow> verdict_of (foldl ?f st (xs @ [x])) (graph_names g ! i) \<noteq> None"
      by (simp add: x mark_defs)
    moreover have "step_ok p st (foldl ?f st (xs @ [x]))"
      using snoc.IH snoc.prems step_ok_trans [OF _ step] by simp
    ultimately show ?case by (simp add: x)
  qed simp
  moreover have "\<forall>(i, b)\<in>set (zip [0..<length (in_cycle g)] (in_cycle g)). i < length (call_graph_names p)"
    using assms(2) by (auto dest: set_zip_leftD)
  moreover have "(i, in_cycle g ! i) \<in> set (zip [0..<length (in_cycle g)] (in_cycle g))"
    if "i < length (in_cycle g)" for i
    using that by (simp add: set_zip) (rule exI [of _ i], simp)
  ultimately show ?thesis
    unfolding mark_recursive_functions_unsafe_def by blast
qed

lemma mark_declared_ok:
  assumes "\<forall>n\<in>set (graph_names g). is_definition p n"
  shows "step_ok p st (mark_declared_safe g st)"
proof -
  have "step_ok p st (foldl (\<lambda>st n. mark_safe n st) st ns)" if "\<forall>n\<in>set ns. is_definition p n" for ns
    using that
  proof (induction ns rule: rev_induct)
    case (snoc n ns)
    then have "step_ok p (foldl (\<lambda>st n. mark_safe n st) st ns) (mark_safe n (foldl (\<lambda>st n. mark_safe n st) st ns))"
      by (simp add: step_ok_marks)
    from step_ok_trans [OF _ this] snoc show ?case by simp
  qed simp
  from this [of "filter declared_safe (graph_names g)"] assms show ?thesis
    by (simp add: mark_declared_safe_def)
qed

lemma compute_verdicts_ok:
  "\<exists>st'. compute_verdicts p st = Some st' \<and> step_ok p st st' \<and> {n. is_definition p n} \<subseteq> dom (verdict_of st')"
proof -
  obtain g levels where g: "build_call_graph p = Some g" "graph_names g = call_graph_names p"
      "length (in_cycle g) = length (call_graph_names p)"
    and cyc: "\<forall>i<length (call_graph_names p).
        in_cycle g ! i \<longleftrightarrow> (call_graph_names p ! i, call_graph_names p ! i) \<in> (calls p)\<^sup>+"
    and lev: "dependency_levels (csr g) (in_cycle g) = Some levels"
      "\<forall>n. n \<in> (!) (call_graph_names p) ` set (concat levels) \<longleftrightarrow>
         is_definition p n \<and> (n, n) \<notin> (calls p)\<^sup>+"
    using build_call_graph_ok [of p] by (elim exE conjE) (rule that; assumption)
  let ?st1 = "mark_recursive_functions_unsafe g st"
  let ?st2 = "mark_declared_safe g ?st1"
  let ?ns = "map ((!) (graph_names g)) (concat levels)"
  note rec = mark_recursive_ok [OF g(2,3), of st]
  have decl: "step_ok p ?st1 ?st2"
    by (rule mark_declared_ok) (simp add: g call_graph_names_props)
  have ns: "set ?ns = {n. is_definition p n \<and> (n, n) \<notin> (calls p)\<^sup>+}" using lev(2) g(2) by auto
  then obtain st' where st': "precompute_nodes p ?ns ?st2 = Some st'" "step_ok p ?st2 st'"
      "set ?ns \<subseteq> dom (verdict_of st')"
    using precompute_nodes_ok [of ?ns p ?st2] by auto
  have "n \<in> dom (verdict_of st')" if n: "is_definition p n" for n
  proof (cases "(n, n) \<in> (calls p)\<^sup>+")
    case True
    obtain i where "i < length (call_graph_names p)" "call_graph_names p ! i = n"
      using n call_graph_names_props(2) by (metis in_set_conv_nth)
    with True cyc rec g have "n \<in> dom (verdict_of ?st1)" by auto
    with decl st'(2) show ?thesis by (auto simp: step_ok_def)
  qed (use n ns st'(3) in auto)
  moreover have "step_ok p st st'"
    using rec decl st'(2) by (blast intro: step_ok_trans)
  ultimately show ?thesis
    using st'(1) by (auto simp: compute_verdicts_def g precompute_safety_in_dependency_order_def lev(1))
qed

section \<open>Properties\<close>

text \<open>C11: The verdicts are computed for every project: the call graph is built, its cycles and
  levels are found, and after the pass exactly the functions and classes of the project have a
  verdict. Every recorded verdict is well formed (a set of the three concerns, naming callees to
  wait for exactly when a dependency is missing, each once), and the results of the modules are
  untouched.\<close>

theorem compute_verdicts_complete:
  "\<exists>st. compute_verdicts p (new_analysis_state am) = Some st \<and>
     dom (verdict_of st) = {n. is_definition p n} \<and> verdicts_ok st \<and>
     safety_map st = safety_map (new_analysis_state am)"
proof -
  obtain st where st: "compute_verdicts p (new_analysis_state am) = Some st"
      "step_ok p (new_analysis_state am) st" "{n. is_definition p n} \<subseteq> dom (verdict_of st)"
    using compute_verdicts_ok by blast
  then show ?thesis by (auto simp: step_ok_def verdicts_ok_def new_analysis_state_def)
qed

end
