(* ===== verification/Call_Order.thy ===== *)
theory Call_Order
  imports Call_Graph
begin

text \<open>
  When the order inside a level does not matter. The check of a node reads the verdicts of a set of
  names, its footprint, and writes its own only; when the footprint is settled before the level
  starts, the nodes of the level can run in any order. The edges of the call graph settle it except
  for two reads they do not describe, which \<open>reads_ordered\<close> excludes.
\<close>

section \<open>What a check reads\<close>

definition call_reads :: "project_info \<Rightarrow> effect \<Rightarrow> modname \<Rightarrow> modname set" where
  "call_reads p e f =
     {n. contains_key (pi_functions p) n \<and>
        ((if contains_key (pi_classes p) f then n \<in> set (constructor_methods p f) else n = f) \<or>
         is_parameterized_decorator_effect e \<and>
           (\<exists>children. map_of (nested_functions p) f = Some children \<and> n \<in> set children))}"

text \<open>The callables \<open>check_call_safety\<close> checks for an effect.\<close>

definition checked_callees :: "project_info \<Rightarrow> effect_kind \<Rightarrow> modname \<Rightarrow> modname list" where
  "checked_callees p k name =
     (if k = ClassCreation then
        metaclass_creation_callees p name @
        (case resolve_dispatch_above p name of None \<Rightarrow> [] | Some f \<Rightarrow> [f])
      else if k = SuperMethodCall then
        (case resolve_dispatch_above p name of None \<Rightarrow> [] | Some f \<Rightarrow> [f])
      else [resolved_func p k name])"

definition safety_reads :: "project_info \<Rightarrow> effect \<Rightarrow> modname \<Rightarrow> modname set" where
  "safety_reads p e name =
     (\<Union>f\<in>{f \<in> set (checked_callees p (eff_kind e) name). contains_callable p f}. call_reads p e f)"

definition effect_reads :: "project_info \<Rightarrow> modname \<Rightarrow> effect \<Rightarrow> modname set" where
  "effect_reads p u e =
     safety_reads p e (eff_name e) \<union>
     {n. n = resolved_func p (eff_kind e) (eff_name e) \<and> n \<noteq> u \<and> is_definition p n}"

definition effects_of :: "project_info \<Rightarrow> modname \<Rightarrow> effect list" where
  "effects_of p f = (case table_get (pi_effect_table p) f of None \<Rightarrow> [] | Some effs \<Rightarrow> effs)"

definition footprint :: "project_info \<Rightarrow> modname \<Rightarrow> modname set" where
  "footprint p u =
     (if contains_key (pi_classes p) u then {n \<in> set (constructor_methods p u). is_definition p n}
      else (\<Union>e\<in>{e \<in> set (effects_of p u). is_runnable (eff_kind e)}. effect_reads p u e))"

section \<open>Checks of settled callables\<close>

definition agree_on :: "project_info \<Rightarrow> modname set \<Rightarrow> analysis_state \<Rightarrow> analysis_state \<Rightarrow> bool" where
  "agree_on p R st st' \<longleftrightarrow>
     (\<forall>n\<in>R. verdict_of st' n = verdict_of st n \<and> verdict_of st n \<noteq> None) \<and>
     (\<forall>n. verdict_of st n \<noteq> None \<or> verdict_of st' n \<noteq> None \<longrightarrow> is_definition p n)"

lemma agree_onD:
  "agree_on p R st st' \<Longrightarrow> n \<in> R \<Longrightarrow> verdict_of st' n = verdict_of st n \<and> verdict_of st n \<noteq> None"
  unfolding agree_on_def by metis

lemma agree_on_resolves:
  assumes "agree_on p R st st'"
  shows "can_resolve_call p f st \<longleftrightarrow> contains_callable p f" "can_resolve_call p f st' \<longleftrightarrow> contains_callable p f"
  using assms by (auto simp: agree_on_def can_resolve_call_def contains_callable_def contains_key_def)

definition pure2 :: "analysis_state \<Rightarrow> analysis_state \<Rightarrow> bool run \<Rightarrow> bool run \<Rightarrow> bool" where
  "pure2 st st' r r' \<longleftrightarrow> (\<exists>ok. r = Some (Inr ok, st) \<and> r' = Some (Inr ok, st'))"

lemma pure2_ret [simp]: "pure2 st st' (Some (Inr ok, st)) (Some (Inr ok, st'))"
  by (simp add: pure2_def)

lemma pure2_bind:
  assumes "pure2 st st' r r'" and "\<And>ok. P (k ok st) (k' ok st')"
  shows "P
    (case r of None \<Rightarrow> None | Some (Inl e, s) \<Rightarrow> Some (Inl e, s) | Some (Inr ok, s) \<Rightarrow> k ok s)
    (case r' of None \<Rightarrow> None | Some (Inl e, s) \<Rightarrow> Some (Inl e, s) | Some (Inr ok, s) \<Rightarrow> k' ok s)"
  using assms by (auto simp: pure2_def)

lemma pure2_all:
  "(\<And>x. x \<in> set xs \<Longrightarrow> pure2 st st' (f x st) (f x st')) \<Longrightarrow>
     pure2 st st' (all_checks f xs ret st) (all_checks f xs ret st')"
proof (induction xs arbitrary: ret)
  case (Cons x xs)
  show ?case
    unfolding all_checks.simps
    by (rule pure2_bind [of st st' "f x st" "f x st'"]) (use Cons in auto)
qed simp

text \<open>A body whose verdict is recorded is that verdict.\<close>

lemma settled_body:
  assumes "agree_on p R st st'" "\<not> is_module_scope c" "contains_key (pi_functions p) (func c) \<Longrightarrow> func c \<in> R"
  shows "pure2 st st' (body_step p b c st) (body_step p b c st')"
proof (cases "map_of (pi_functions p) (func c)")
  case (Some m)
  then have "func c \<in> R" using assms(3) by (simp add: contains_key_def)
  with agree_onD [OF assms(1)] obtain info where
    "verdict_of st (func c) = Some info" "verdict_of st' (func c) = Some info" by fastforce
  with Some assms(2) show ?thesis by (simp add: body_step_def Let_def)
qed (simp add: body_step_def)

lemma settled_constructor:
  assumes "agree_on p R st st'" "\<not> is_module_scope c"
    "\<And>n. n \<in> set (constructor_methods p (func c)) \<Longrightarrow> contains_key (pi_functions p) n \<Longrightarrow> n \<in> R"
  shows "pure2 st st' (check_constructor_call p (body_step p b) c st) (check_constructor_call p (body_step p b) c st')"
  unfolding check_constructor_call_def
  by (rule pure2_all, rule settled_body [OF assms(1)]) (use assms(2,3) in auto)

lemma settled_nested:
  assumes "agree_on p R st st'" "\<not> is_module_scope c"
    "\<And>n children. map_of (nested_functions p) (func c) = Some children \<Longrightarrow> n \<in> set children \<Longrightarrow>
       contains_key (pi_functions p) n \<Longrightarrow> n \<in> R"
  shows "pure2 st st' (check_decorator_nested_functions p (body_step p b) c st)
    (check_decorator_nested_functions p (body_step p b) c st')"
proof (cases "map_of (nested_functions p) (func c)")
  case (Some children)
  then show ?thesis
    unfolding check_decorator_nested_functions_def Some option.case
    by (intro pure2_all settled_body [OF assms(1)]) (use assms(2) assms(3) [OF Some] in auto)
qed (simp add: check_decorator_nested_functions_def)

lemma settled_call:
  assumes st: "agree_on p R st st'" and c: "\<not> is_module_scope c"
    and R: "call_reads p (call_effect c) (func c) \<subseteq> R"
  shows "pure2 st st' (check_call p (body_step p b) c st) (check_call p (body_step p b) c st')"
proof -
  have head: "pure2 st st'
      (if contains_key (pi_classes p) (func c) then check_constructor_call p (body_step p b) c st else body_step p b c st)
      (if contains_key (pi_classes p) (func c) then check_constructor_call p (body_step p b) c st' else body_step p b c st')"
  proof (cases "contains_key (pi_classes p) (func c)")
    case True
    with R show ?thesis by (auto simp: call_reads_def intro!: settled_constructor [OF st c])
  next
    case False
    with R show ?thesis by (auto simp: call_reads_def intro!: settled_body [OF st c])
  qed
  have nested: "pure2 st st' (check_decorator_nested_functions p (body_step p b) c st)
      (check_decorator_nested_functions p (body_step p b) c st')"
    if "is_parameterized_decorator_effect (call_effect c)"
    by (rule settled_nested [OF st c]) (use R that in \<open>auto simp: call_reads_def\<close>)
  show ?thesis
  proof (cases "declared_safe (func c)")
    case False
    show ?thesis
      unfolding check_call_def if_not_P [OF False]
      by (rule pure2_bind [OF head]) (auto intro!: pure2_bind [OF nested, where P = "pure2 st st'"])
  qed (simp add: check_call_def)
qed

lemma settled_resolved:
  assumes st: "agree_on p R st st'" and c: "\<not> is_module_scope c"
    and R: "contains_callable p (func c) \<Longrightarrow> call_reads p (call_effect c) (func c) \<subseteq> R"
  shows "pure2 st st' (check_resolved_call p (body_step p b) False nc c st)
    (check_resolved_call p (body_step p b) False nc c st')"
  unfolding check_resolved_call_def agree_on_resolves [OF st]
  by (auto intro!: pure2_bind [OF settled_call [OF st c R], where P = "pure2 st st'"] split: bool.split)

lemma settled_safety:
  assumes st: "agree_on p R st st'" and c: "\<not> is_module_scope c"
    and R: "safety_reads p (call_effect c) (func c) \<subseteq> R"
  shows "pure2 st st' (check_call_safety p (body_step p b) False c st)
    (check_call_safety p (body_step p b) False c st')"
proof (cases "eff_kind (call_effect c) = ClassCreation")
  case True
  have "call_reads p (call_effect c) f \<subseteq> R"
    if "f \<in> set (checked_callees p (eff_kind (call_effect c)) (func c))" "contains_callable p f" for f
    using that R unfolding safety_reads_def by blast
  then have all: "pure2 st st'
      (all_checks (\<lambda>f. check_resolved_call p (body_step p b) False True (c\<lparr>func := f\<rparr>))
        (checked_callees p (eff_kind (call_effect c)) (func c)) True st)
      (all_checks (\<lambda>f. check_resolved_call p (body_step p b) False True (c\<lparr>func := f\<rparr>))
        (checked_callees p (eff_kind (call_effect c)) (func c)) True st')"
    using c by (intro pure2_all settled_resolved [OF st]) simp_all
  have "check_call_safety p (body_step p b) False c s =
      all_checks (\<lambda>f. check_resolved_call p (body_step p b) False True (c\<lparr>func := f\<rparr>))
        (checked_callees p (eff_kind (call_effect c)) (func c)) True s" for s
    using True by (simp add: check_call_safety_def Let_def checked_callees_def)
  with all show ?thesis by simp
next
  case False
  show ?thesis
  proof (cases "eff_kind (call_effect c) = SuperMethodCall \<and> resolve_dispatch_above p (func c) = None")
    case none: False
    have "resolved_func p (eff_kind (call_effect c)) (func c) \<in> set (checked_callees p (eff_kind (call_effect c)) (func c))"
      using False none by (auto simp: checked_callees_def resolved_func_def split: option.splits)
    with R have "call_reads p (call_effect c) (resolved_func p (eff_kind (call_effect c)) (func c)) \<subseteq> R"
      if "contains_callable p (resolved_func p (eff_kind (call_effect c)) (func c))"
      using that by (auto simp: safety_reads_def)
    with False none c show ?thesis
      unfolding check_call_safety_def Let_def by (auto intro!: settled_resolved [OF st])
  qed (simp add: check_call_safety_def)
qed

section \<open>A check of a function writes its own verdict\<close>

text \<open>Two states that agree on what the check reads and differ from where they started only at \<open>u\<close>.\<close>

definition near ::
  "project_info \<Rightarrow> modname set \<Rightarrow> modname \<Rightarrow> analysis_state \<Rightarrow> analysis_state \<Rightarrow>
   analysis_state \<Rightarrow> analysis_state \<Rightarrow> bool" where
  "near p R u a a' st st' \<longleftrightarrow>
     agree_on p R st st' \<and> verdict_of st u = verdict_of st' u \<and>
     (\<forall>n. n \<noteq> u \<longrightarrow> verdict_of st n = verdict_of a n \<and> verdict_of st' n = verdict_of a' n)"

definition near_run ::
  "(analysis_state \<Rightarrow> analysis_state \<Rightarrow> bool) \<Rightarrow> bool run \<Rightarrow> bool run \<Rightarrow> bool" where
  "near_run N r r' \<longleftrightarrow> (\<exists>ok st st'. r = Some (Inr ok, st) \<and> r' = Some (Inr ok, st') \<and> N st st')"

lemma near_run_ret [simp]: "N st st' \<Longrightarrow> near_run N (Some (Inr ok, st)) (Some (Inr ok, st'))"
  by (auto simp: near_run_def)

lemma near_run_bind:
  assumes "near_run N r r'" and "\<And>ok st st'. N st st' \<Longrightarrow> near_run N (k ok st) (k' ok st')"
  shows "near_run N
    (case r of None \<Rightarrow> None | Some (Inl e, s) \<Rightarrow> Some (Inl e, s) | Some (Inr ok, s) \<Rightarrow> k ok s)
    (case r' of None \<Rightarrow> None | Some (Inl e, s) \<Rightarrow> Some (Inl e, s) | Some (Inr ok, s) \<Rightarrow> k' ok s)"
  using assms by (auto simp: near_run_def)

lemma near_refl:
  "agree_on p R a a' \<Longrightarrow> verdict_of a u = verdict_of a' u \<Longrightarrow> near p R u a a' a a'"
  by (simp add: near_def)

lemma near_set:
  assumes "near p R u a a' st st'" "u \<notin> R" "is_definition p u"
  shows "near p R u a a' (set_function_safety u info st) (set_function_safety u info st')"
proof -
  have "agree_on p R (set_function_safety u info st) (set_function_safety u info st')"
  proof -
    have "agree_on p R st st'" using assms(1) by (simp add: near_def)
    with assms(2,3) show ?thesis by (auto simp: agree_on_def)
  qed
  then show ?thesis
    using assms(1) by (simp add: near_def)
qed

lemma near_marks:
  assumes "near p R u a a' st st'" "u \<notin> R" "is_definition p u"
  shows "near p R u a a' (mark_unsafe u st) (mark_unsafe u st')"
    "near p R u a a' (mark_safe u st) (mark_safe u st')"
    "near p R u a a' (mark_unsafe_missing_dep u g st) (mark_unsafe_missing_dep u g st')"
    "near p R u a a' (mark_unsafe_if_imported u st) (mark_unsafe_if_imported u st')"
proof -
  have eq: "verdict_of st' u = verdict_of st u" using assms(1) by (simp add: near_def)
  show "near p R u a a' (mark_unsafe u st) (mark_unsafe u st')"
    "near p R u a a' (mark_safe u st) (mark_safe u st')"
    "near p R u a a' (mark_unsafe_missing_dep u g st) (mark_unsafe_missing_dep u g st')"
    "near p R u a a' (mark_unsafe_if_imported u st) (mark_unsafe_if_imported u st')"
    unfolding mark_defs eq by (rule near_set [OF assms])+
qed

lemma near_reads:
  assumes "near p R u a a' st st'" "n \<in> R \<or> n = u \<or> \<not> is_definition p n"
  shows "verdict_of st' n = verdict_of st n"
  using assms unfolding near_def agree_on_def by metis

lemma near_argument_mutation:
  assumes "near p R (func c) a a' st st'" "func c \<notin> R" "is_definition p (func c)"
  shows "\<exists>ret1 st1 st1'. check_argument_mutation p c e (ret, st) = (ret1, st1) \<and>
    check_argument_mutation p c e (ret, st') = (ret1, st1') \<and> near p R (func c) a a' st1 st1'"
proof -
  let ?g = "\<lambda>(ret, st) (callee, y).
            if \<not> contains_key (pi_functions p) callee \<and> \<not> contains_key (pi_mutated_params p) callee
            then (False, mark_unsafe_missing_dep (func c) callee st) else (ret, st)"
  have "\<exists>ret1 st1 st1'. foldl ?g (ret, st) (xs :: (modname \<times> nat) list) = (ret1, st1) \<and>
      foldl ?g (ret, st') xs = (ret1, st1') \<and> near p R (func c) a a' st1 st1'" for xs
    using assms(1)
  proof (induction xs arbitrary: ret st st')
    case (Cons x xs)
    obtain callee y where x: "x = (callee, y)" by fastforce
    show ?case
      using Cons.IH [OF near_marks(3) [OF Cons.prems assms(2,3), of callee], of False]
        Cons.IH [OF Cons.prems, of ret]
      by (auto simp: x)
  qed simp
  then show ?thesis
    using assms near_marks(1) [OF assms] by (auto simp: check_argument_mutation_def)
qed

lemma near_failed_callee:
  assumes near: "near p R u a a' st st'" and u: "u \<notin> R" "is_definition p u"
    and g: "g \<in> R \<or> g = u \<or> \<not> is_definition p g"
  shows "near p R u a a' (mark_caller_unsafe_for_failed_callee p u g st)
    (mark_caller_unsafe_for_failed_callee p u g st')"
proof -
  have agree: "agree_on p R st st'" using near by (simp add: near_def)
  have eq: "verdict_of st' g = verdict_of st g" by (rule near_reads [OF near g])
  have own: "verdict_of st' u = verdict_of st u" by (rule near_reads [OF near]) simp
  show ?thesis
    unfolding mark_caller_unsafe_for_failed_callee_def state_is_unsafe_def Let_def eq own
      agree_on_resolves [OF agree]
    by (auto intro: near near_marks [OF near u])
qed

lemma pure2_near:
  "near p R u a a' st st' \<Longrightarrow> pure2 st st' r r' \<Longrightarrow> near_run (near p R u a a') r r'"
  by (auto simp: pure2_def)

lemma near_runnable:
  assumes near: "near p R (func c) a a' st st'" and u: "func c \<notin> R" "is_definition p (func c)"
    and c: "\<not> is_module_scope c" and R: "effect_reads p (func c) e \<subseteq> R"
  shows "near_run (near p R (func c) a a') (check_runnable p (body_step p b) c m e ret st)
    (check_runnable p (body_step p b) c m e ret st')"
proof -
  obtain ret1 st1 st1' where mut: "check_argument_mutation p c e (ret, st) = (ret1, st1)"
      "check_argument_mutation p c e (ret, st') = (ret1, st1')" and near1: "near p R (func c) a a' st1 st1'"
    using near_argument_mutation [OF near u] by blast
  let ?callee = "resolved_func p (eff_kind e) (eff_name e)"
  have callee: "?callee \<in> R \<or> ?callee = func c \<or> \<not> is_definition p ?callee"
    using R by (auto simp: effect_reads_def)
  let ?child = "\<lparr>caller_module = m, call_effect = e, func = eff_name e, stack = eff_name e # stack c,
                 is_module_scope = False\<rparr>"
  have safety: "pure2 st1 st1' (check_call_safety p (body_step p b) False ?child st1)
      (check_call_safety p (body_step p b) False ?child st1')"
    by (rule settled_safety [where R = R]) (use near1 R in \<open>auto simp: near_def effect_reads_def\<close>)
  have peek: "has_verdict st1' ?callee k = has_verdict st1 ?callee k" for k
    using near_reads [OF near1 callee] by (simp add: has_verdict_def)
  show ?thesis
  proof (cases "eff_name e \<in> set (stack c)")
    case True
    then show ?thesis by (simp add: check_runnable_def mut near_marks(1) [OF near1 u])
  next
    case False
    show ?thesis
      unfolding check_runnable_def mut prod.case Let_def if_not_P [OF False] using c
      by simp (rule pure2_bind [OF safety],
        auto simp: peek near1 near_marks(4) [OF near1 u] near_failed_callee [OF near1 u callee] split: bool.split)
  qed
qed

lemma near_effects:
  assumes u: "func c \<notin> R" "is_definition p (func c)" and c: "\<not> is_module_scope c"
    and R: "\<forall>e\<in>set effs. is_runnable (eff_kind e) \<longrightarrow> effect_reads p (func c) e \<subseteq> R"
    and near: "near p R (func c) a a' st st'"
  shows "near_run (near p R (func c) a a') (check_effects p (body_step p b) c m effs ret st)
    (check_effects p (body_step p b) c m effs ret st')"
  using R near
proof (induction effs arbitrary: ret st st')
  case (Cons e effs)
  have own: "has_verdict st' (func c) k = has_verdict st (func c) k" for k
    using near_reads [OF Cons.prems(2), of "func c"] by (simp add: has_verdict_def)
  have "near_run (near p R (func c) a a') (check_effect p (body_step p b) c m e ret st)
      (check_effect p (body_step p b) c m e ret st')"
    unfolding check_effect_def Let_def own
    using near_runnable [OF Cons.prems(2) u c, of e b m ret] Cons.prems
    by (auto simp: near_marks [OF Cons.prems(2) u])
  then show ?case
    unfolding check_effects.simps
    by (rule near_run_bind) (use Cons in auto)
qed simp

section \<open>A node reads its footprint\<close>

lemma body_unfold:
  "check_call_body (body_fuel p) p =
     body_step p (body_step p (check_call_body (length (concat (map snd (pi_effect_table p)))) p))"
proof (intro ext)
  fix c st
  show "check_call_body (body_fuel p) p c st =
     body_step p (body_step p (check_call_body (length (concat (map snd (pi_effect_table p)))) p)) c st"
    using body_returns [of p c st 1] by (auto simp: body_fuel_def)
qed

lemma fold_constructor_cong:
  "(\<And>m. m \<in> set ms \<Longrightarrow> verdict_of st' m = verdict_of st m) \<Longrightarrow>
     fold_constructor_verdicts st' ms combined = fold_constructor_verdicts st ms combined"
proof (induction ms arbitrary: combined)
  case (Cons m ms)
  then have "verdict_of st' m = verdict_of st m" by simp
  with Cons show ?case
    by (cases "verdict_of st m") (simp_all add: fold_constructor_verdicts_def)
qed (simp add: fold_constructor_verdicts_def)

lemma near_constructor_node:
  assumes a: "agree_on p (footprint p u) a a'" "verdict_of a' u = verdict_of a u"
    and u: "u \<notin> footprint p u" "contains_key (pi_classes p) u"
  shows "\<exists>s s'. precompute_constructor_verdict p u a = Some s \<and>
    precompute_constructor_verdict p u a' = Some s' \<and> near p (footprint p u) u a a' s s'"
proof -
  let ?R = "footprint p u"
  have d: "is_definition p u" using u(2) by (simp add: is_definition_def)
  have near: "near p ?R u a a' a a'" by (rule near_refl) (use a in auto)
  have FP: "?R = {n \<in> set (constructor_methods p u). is_definition p n}" using u(2) by (simp add: footprint_def)
  have run: "pure2 a a' (check_constructor_call p (check_call_body (body_fuel p) p) (fresh_call u u) a)
      (check_constructor_call p (check_call_body (body_fuel p) p) (fresh_call u u) a')"
    unfolding body_unfold
    by (rule settled_constructor [OF a(1)]) (simp_all add: fresh_call_def FP is_definition_def)
  have "m \<in> ?R \<or> \<not> is_definition p m" if "m \<in> set (constructor_methods p u)" for m
    using that by (simp add: FP)
  then have fold: "fold_constructor_verdicts a' (constructor_methods p u) (new_info Safe) =
      fold_constructor_verdicts a (constructor_methods p u) (new_info Safe)"
    by (intro fold_constructor_cong near_reads [OF near]) blast
  show ?thesis
  proof (cases "verdict_of a u")
    case None
    with a(2) have no: "\<not> contains_key (verdicts a) u" "\<not> contains_key (verdicts a') u"
      by (simp_all add: contains_key_def)
    from run obtain ok where
      "check_constructor_call p (check_call_body (body_fuel p) p) (fresh_call u u) a = Some (Inr ok, a)"
      "check_constructor_call p (check_call_body (body_fuel p) p) (fresh_call u u) a' = Some (Inr ok, a')"
      by (auto simp: pure2_def)
    with no fold show ?thesis
      by (cases ok) (simp_all add: precompute_constructor_verdict_def Let_def near_marks [OF near u(1) d]
          near_set [OF near u(1) d])
  next
    case (Some info)
    with a(2) near show ?thesis by (simp add: precompute_constructor_verdict_def contains_key_def)
  qed
qed

lemma near_function_node:
  assumes a: "agree_on p (footprint p u) a a'" "verdict_of a' u = verdict_of a u"
    and u: "u \<notin> footprint p u" "\<not> contains_key (pi_classes p) u" "map_of (pi_functions p) u = Some m"
  shows "\<exists>s s'. precompute_function_verdict p u m a = Some s \<and>
    precompute_function_verdict p u m a' = Some s' \<and> near p (footprint p u) u a a' s s'"
proof -
  let ?R = "footprint p u" and ?c = "fresh_call m u"
  have d: "is_definition p u" using u(3) by (simp add: is_definition_def contains_key_def)
  have near: "near p ?R u a a' a a'" by (rule near_refl) (use a in auto)
  have R: "\<forall>e\<in>set (effects_of p u). is_runnable (eff_kind e) \<longrightarrow> effect_reads p (func ?c) e \<subseteq> ?R"
    using u(2) by (auto simp: footprint_def fresh_call_def)
  have c: "func ?c = u" "\<not> is_module_scope ?c" by (simp_all add: fresh_call_def)
  define b where "b = body_step p (check_call_body (length (concat (map snd (pi_effect_table p)))) p)"
  have effs: "near_run (near p ?R u a a') (check_effects p b ?c m (effects_of p u) True a)
      (check_effects p b ?c m (effects_of p u) True a')"
    unfolding b_def using near_effects [of ?c ?R p "effects_of p u" a a' a a'] u(1) d c R near by simp
  show ?thesis
  proof (cases "verdict_of a u")
    case None
    with a(2) have no: "verdict_of a u = None" "verdict_of a' u = None" by simp_all
    from effs obtain ok s s' where e:
      "check_effects p b ?c m (effects_of p u) True a = Some (Inr ok, s)"
      "check_effects p b ?c m (effects_of p u) True a' = Some (Inr ok, s')" "near p ?R u a a' s s'"
      by (auto simp: near_run_def)
    have own: "verdict_of s' u = verdict_of s u" by (rule near_reads [OF e(3)]) simp
    have "check_call_body (body_fuel p) p ?c a =
        Some (Inr ok, if verdict_of s u = None then mark_safe u s else s)"
      "check_call_body (body_fuel p) p ?c a' =
        Some (Inr ok, if verdict_of s' u = None then mark_safe u s' else s')"
      unfolding body_unfold b_def [symmetric]
      by (simp_all add: body_step_def [of p b] c u(3) Let_def no e(1,2) [unfolded effects_of_def])
    with no own near_marks(2) [OF e(3) u(1) d] e(3) show ?thesis
      by (auto simp: precompute_function_verdict_def contains_key_def mark_defs)
  next
    case (Some info)
    with a(2) near show ?thesis by (simp add: precompute_function_verdict_def contains_key_def)
  qed
qed

lemma near_node:
  assumes "agree_on p (footprint p u) a a'" "verdict_of a' u = verdict_of a u"
    and "u \<notin> footprint p u" "is_definition p u"
  shows "\<exists>s s'. precompute_node p u a = Some s \<and> precompute_node p u a' = Some s' \<and>
    near p (footprint p u) u a a' s s'"
proof (cases "contains_key (pi_classes p) u")
  case True
  then show ?thesis using near_constructor_node [OF assms(1-3)] by (simp add: precompute_node_def)
next
  case False
  then obtain m where "map_of (pi_functions p) u = Some m"
    using assms(4) by (auto simp: is_definition_def contains_key_def)
  with False show ?thesis using near_function_node [OF assms(1-3)] by (simp add: precompute_node_def)
qed

section \<open>A level in any order\<close>

definition node_verdict :: "project_info \<Rightarrow> analysis_state \<Rightarrow> modname \<Rightarrow> function_safety_info option" where
  "node_verdict p st u = verdict_of (the (precompute_node p u st)) u"

definition known_defs :: "project_info \<Rightarrow> analysis_state \<Rightarrow> bool" where
  "known_defs p st \<longleftrightarrow> (\<forall>n. verdict_of st n \<noteq> None \<longrightarrow> is_definition p n)"

lemma agree_onI:
  "known_defs p st \<Longrightarrow> known_defs p st' \<Longrightarrow>
     (\<And>n. n \<in> R \<Longrightarrow> verdict_of st' n = verdict_of st n \<and> verdict_of st n \<noteq> None) \<Longrightarrow> agree_on p R st st'"
  by (auto simp: agree_on_def known_defs_def)

lemma run_level:
  assumes "distinct l" "known_defs p st"
    and "\<And>u. u \<in> set l \<Longrightarrow> is_definition p u \<and> footprint p u \<inter> set l = {} \<and> footprint p u \<subseteq> dom (verdict_of st)"
  shows "\<exists>s. precompute_nodes p l st = Some s \<and> known_defs p s \<and>
    (\<forall>n. verdict_of s n = (if n \<in> set l then node_verdict p st n else verdict_of st n))"
  using assms
proof (induction l arbitrary: st)
  case (Cons u l)
  have self: "agree_on p (footprint p u) st st"
    using Cons.prems(2) Cons.prems(3) [of u] by (intro agree_onI) auto
  obtain s where s: "precompute_node p u st = Some s" "near p (footprint p u) u st st s s"
    using near_node [OF self refl] Cons.prems(3) [of u] by auto
  have upd: "verdict_of s n = (if n = u then node_verdict p st u else verdict_of st n)" for n
    using s by (simp add: near_def node_verdict_def)
  have defs: "known_defs p s" using s(2) by (auto simp: near_def agree_on_def known_defs_def)
  have sub: "footprint p v \<subseteq> dom (verdict_of s)" if "v \<in> set l" for v
    using Cons.prems(3) [of v] Cons.prems(1) that by (fastforce simp: dom_def upd)
  obtain s' where s': "precompute_nodes p l s = Some s'" "known_defs p s'"
      "\<forall>n. verdict_of s' n = (if n \<in> set l then node_verdict p s n else verdict_of s n)"
    using Cons.IH [of s] Cons.prems defs sub by auto
  have "node_verdict p s v = node_verdict p st v" if v: "v \<in> set l" for v
  proof -
    have fp: "u \<notin> footprint p v" "v \<notin> footprint p v" "footprint p v \<subseteq> dom (verdict_of st)"
      "is_definition p v" "v \<noteq> u"
      using Cons.prems(1) Cons.prems(3) [of v] v by auto
    have "agree_on p (footprint p v) st s"
      by (rule agree_onI [OF Cons.prems(2) defs]) (use fp in \<open>auto simp: upd\<close>)
    from near_node [OF this _ fp(2,4)] fp(5) show ?thesis
      by (auto simp: upd node_verdict_def near_def)
  qed
  with s(1) s' upd Cons.prems(1) show ?case by auto
qed simp

lemma precompute_nodes_append:
  "precompute_nodes p (xs @ ys) st =
     (case precompute_nodes p xs st of None \<Rightarrow> None | Some s \<Rightarrow> precompute_nodes p ys s)"
  by (induction xs arbitrary: st) (auto split: option.split)

fun level_order :: "project_info \<Rightarrow> modname set \<Rightarrow> modname list list \<Rightarrow> bool" where
  "level_order p S [] = True"
| "level_order p S (l # ls) =
     (distinct l \<and> (\<forall>u\<in>set l. is_definition p u \<and> footprint p u \<subseteq> S \<and> u \<notin> S) \<and>
      level_order p (S \<union> set l) ls)"

lemma run_levels:
  assumes "level_order p S ls" "list_all2 (\<lambda>l l'. mset l = mset l') ls ls'"
    and "known_defs p st" "known_defs p st'" "verdict_of st' = verdict_of st" "S \<subseteq> dom (verdict_of st)"
  shows "\<exists>s s'. precompute_nodes p (concat ls) st = Some s \<and> precompute_nodes p (concat ls') st' = Some s' \<and>
    verdict_of s' = verdict_of s"
  using assms(2,1,3-6)
proof (induction arbitrary: S st st' rule: list_all2_induct)
  case (Cons l ls l' ls')
  have l': "set l' = set l" "distinct l'"
    using Cons.hyps(1) Cons.prems(1) by (auto dest: mset_eq_setD mset_eq_imp_distinct_iff)
  have fp: "is_definition p u \<and> footprint p u \<inter> set l = {} \<and> footprint p u \<subseteq> dom (verdict_of st)"
    if "u \<in> set l" for u
  proof -
    have "is_definition p u" "footprint p u \<subseteq> S" "\<forall>v\<in>set l. v \<notin> S"
      using Cons.prems(1) that by simp_all
    with Cons.prems(5) show ?thesis by blast
  qed
  obtain s where s: "precompute_nodes p l st = Some s" "known_defs p s"
      "\<forall>n. verdict_of s n = (if n \<in> set l then node_verdict p st n else verdict_of st n)"
    using run_level [OF _ Cons.prems(2) fp] Cons.prems(1) by auto
  obtain s' where s': "precompute_nodes p l' st' = Some s'" "known_defs p s'"
      "\<forall>n. verdict_of s' n = (if n \<in> set l then node_verdict p st' n else verdict_of st' n)"
    using run_level [OF l'(2) Cons.prems(3)] fp Cons.prems(4) l'(1) by auto
  have "node_verdict p st' u = node_verdict p st u" if "u \<in> set l" for u
  proof -
    have "agree_on p (footprint p u) st st'"
      by (rule agree_onI) (use Cons.prems fp [OF that] in auto)
    moreover have "u \<notin> footprint p u" using fp [OF that] that by blast
    ultimately show ?thesis
      using near_node [of p u st st'] fp [OF that] Cons.prems(4) by (auto simp: node_verdict_def near_def)
  qed
  then have eq: "verdict_of s' = verdict_of s"
    using s(3) s'(3) Cons.prems(4) by (auto intro!: ext)
  have "u \<in> dom (verdict_of s)" if "u \<in> set l" for u
    using precompute_nodes_ok [of l p st] Cons.prems(1) s(1) that by auto
  then have "S \<union> set l \<subseteq> dom (verdict_of s)"
    using Cons.prems(1,5) s(3) by (auto simp: dom_def)
  from Cons.IH [OF _ s(2) s'(2) eq this] Cons.prems(1) s(1) s'(1) show ?case
    by (simp add: precompute_nodes_append)
qed simp

section \<open>The edges settle the footprint\<close>

text \<open>
  What the edges do not describe. A class statement, and a super call that resolves to nothing, also
  read the verdict of the name the effect carries; and a class on a cycle is settled before the
  levels, but its constructor methods only if they are on cycles too.
\<close>

definition reads_ordered :: "project_info \<Rightarrow> call_graph \<Rightarrow> bool" where
  "reads_ordered p g \<longleftrightarrow>
     list_all (\<lambda>f. contains_key (pi_classes p) f \<or>
         list_all (\<lambda>e. let callee = resolved_func p (eff_kind e) (eff_name e) in
             \<not> is_runnable (eff_kind e) \<or> \<not> is_definition p callee \<or> callee = f \<or>
             callee \<in> set (function_callees p (graph_names g) f))
           (effects_of p f))
       (map fst (pi_functions p)) \<and>
     list_all (\<lambda>(cls, cyclic). \<not> cyclic \<or> \<not> contains_key (pi_classes p) cls \<or>
         list_all (\<lambda>m. \<not> contains_key (pi_functions p) m \<or>
             list_ex (\<lambda>(n, b). n = m \<and> b) (zip (graph_names g) (in_cycle g)))
           (constructor_methods p cls))
       (zip (graph_names g) (in_cycle g))"

text \<open>The target of an edge is the callable the check looks at.\<close>

lemma resolve_callable_None: "resolve_callable p name = None \<Longrightarrow> \<not> contains_callable p name"
  by (auto simp: resolve_callable_def contains_callable_def contains_key_def split: if_splits option.splits)

lemma target_resolved:
  assumes "k = eff_kind e" "k \<noteq> ClassCreation" "k \<noteq> SuperMethodCall"
    and "contains_callable p (resolved_func p k (eff_name e))"
  shows "call_graph_target p e (\<lambda>name. name \<in> set (call_graph_names p)) = Some (resolved_func p k (eff_name e))"
proof (cases "is_definition p (eff_name e)")
  case True
  then have "resolve_callable p (eff_name e) = Some (eff_name e)" by (simp add: resolve_callable_def)
  with True assms show ?thesis
    by (simp add: call_graph_target_def resolved_func_def call_graph_names_props)
next
  case False
  with assms show ?thesis
    by (auto simp: call_graph_target_def resolved_func_def call_graph_names_props
        dest: resolve_callable_None split: option.splits)
qed

lemma checked_callee_called:
  assumes u: "contains_key (pi_functions p) u" and e: "e \<in> set (effects_of p u)" "is_runnable (eff_kind e)"
    and f: "f \<in> set (checked_callees p (eff_kind e) (eff_name e))" "contains_callable p f"
    and n: "n = f \<or> is_parameterized_decorator_effect e \<and>
      (\<exists>children. map_of (nested_functions p) f = Some children \<and> n \<in> set children)" "is_definition p n"
  shows "(u, n) \<in> calls p"
proof -
  let ?ns = "call_graph_names p" and ?k = "eff_kind e"
  consider "?k = ClassCreation" | "?k = SuperMethodCall" | "?k \<noteq> ClassCreation" "?k \<noteq> SuperMethodCall" by blast
  then have "n \<in> set (effect_callees p ?ns e)"
  proof cases
    case 3
    then have "f = resolved_func p ?k (eff_name e)" using f(1) by (simp add: checked_callees_def)
    with target_resolved [OF refl 3, of p] f(2)
    have t: "call_graph_target p e (\<lambda>name. name \<in> set ?ns) = Some f" by simp
    show ?thesis
    proof (cases "n = f")
      case True
      then show ?thesis unfolding effect_callees_def Let_def t option.case set_append by (intro UnI1) simp
    next
      case False
      with n(1) obtain children where "is_parameterized_decorator_effect e"
        "map_of (nested_functions p) f = Some children" "n \<in> set children" by blast
      then show ?thesis
        unfolding effect_callees_def Let_def t option.case set_append by (intro UnI2 UnI1) simp
    qed
  qed (use f(1) n(1) in \<open>auto simp: checked_callees_def effect_callees_def call_graph_target_def
      is_parameterized_decorator_effect_def split: option.splits\<close>)
  then have "n \<in> set (function_callees p ?ns u)"
    using e by (auto simp: function_callees_def effects_of_def)
  with u n(2) show ?thesis by (auto simp: calls_def callees_of_def is_definition_def)
qed

lemma constructor_method_called:
  assumes "contains_key (pi_classes p) D" "n \<in> set (constructor_methods p D)" "is_definition p n"
  shows "(D, n) \<in> calls p"
  using assms
  by (auto simp: calls_def callees_of_def constructor_targets_def set_map_filter call_graph_names_props
      is_definition_def)

text \<open>A name in the footprint is a callee, or a constructor method of a class that is one.\<close>

lemma footprint_calls:
  assumes r: "reads_ordered p g" "graph_names g = call_graph_names p"
    and u: "is_definition p u" and n: "n \<in> footprint p u"
  shows "is_definition p n \<and> ((u, n) \<in> calls p \<or>
    (\<exists>D. contains_key (pi_classes p) D \<and> (u, D) \<in> calls p \<and> n \<in> set (constructor_methods p D) \<and>
         contains_key (pi_functions p) n))"
proof (cases "contains_key (pi_classes p) u")
  case True
  with n constructor_method_called [OF True, of n] show ?thesis by (simp add: footprint_def)
next
  case False
  with u have fn: "contains_key (pi_functions p) u" by (simp add: is_definition_def)
  from n False obtain e where e: "e \<in> set (effects_of p u)" "is_runnable (eff_kind e)" "n \<in> effect_reads p u e"
    by (auto simp: footprint_def)
  let ?callee = "resolved_func p (eff_kind e) (eff_name e)"
  from e(3) consider
      "n = ?callee" "n \<noteq> u" "is_definition p n"
    | f where "f \<in> set (checked_callees p (eff_kind e) (eff_name e))" "contains_callable p f" "n \<in> call_reads p e f"
    by (auto simp: effect_reads_def safety_reads_def)
  then show ?thesis
  proof cases
    case 1
    have "u \<in> fst ` set (pi_functions p)" using fn by (auto simp: contains_key_def map_of_eq_None_iff)
    with r False e(1,2) 1 have "n \<in> set (function_callees p (call_graph_names p) u)"
      by (fastforce simp: reads_ordered_def list_all_iff Let_def)
    with fn 1(3) u show ?thesis by (auto simp: calls_def callees_of_def)
  next
    case 2
    then have nf: "contains_key (pi_functions p) n" by (simp add: call_reads_def)
    then have nd: "is_definition p n" by (simp add: is_definition_def)
    show ?thesis
    proof (cases "contains_key (pi_classes p) f \<and> n \<in> set (constructor_methods p f)")
      case True
      then have "is_definition p f" by (simp add: is_definition_def)
      with checked_callee_called [OF fn e(1,2) 2(1,2), of f] True nf nd show ?thesis by blast
    next
      case False
      with 2(3) have "n = f \<or> is_parameterized_decorator_effect e \<and>
          (\<exists>children. map_of (nested_functions p) f = Some children \<and> n \<in> set children)"
        by (auto simp: call_reads_def split: if_splits)
      with checked_callee_called [OF fn e(1,2) 2(1,2) _ nd] nd show ?thesis by blast
    qed
  qed
qed

text \<open>What the graph knows of its cycles and its levels.\<close>

definition on_cycle :: "project_info \<Rightarrow> modname set" where
  "on_cycle p = {n. is_definition p n \<and> (n, n) \<in> (calls p)\<^sup>+}"

definition call_graph_ok :: "project_info \<Rightarrow> call_graph \<Rightarrow> modname list list \<Rightarrow> bool" where
  "call_graph_ok p g ls \<longleftrightarrow>
     graph_names g = call_graph_names p \<and> length (in_cycle g) = length (call_graph_names p) \<and>
     (\<forall>n. (n, True) \<in> set (zip (graph_names g) (in_cycle g)) \<longleftrightarrow> n \<in> on_cycle p) \<and>
     distinct (concat ls) \<and> set (concat ls) = {n. is_definition p n} - on_cycle p \<and>
     (\<forall>i<length ls. \<forall>n\<in>set (ls ! i). \<forall>c. (n, c) \<in> calls p \<longrightarrow>
        c \<in> on_cycle p \<or> (\<exists>j<i. c \<in> set (ls ! j)))"

lemma build_call_graph_levels:
  assumes "build_call_graph p = Some g" "dependency_levels (csr g) (in_cycle g) = Some levels"
  shows "call_graph_ok p g (map (map ((!) (graph_names g))) levels)"
proof -
  let ?ns = "call_graph_names p"
  have g: "graph_names g = ?ns" "length (in_cycle g) = length ?ns"
    and cyc: "\<forall>i<length ?ns. in_cycle g ! i \<longleftrightarrow> (?ns ! i, ?ns ! i) \<in> (calls p)\<^sup>+"
    and lev: "distinct (concat levels)"
      "\<forall>n. n \<in> (!) ?ns ` set (concat levels) \<longleftrightarrow> is_definition p n \<and> (n, n) \<notin> (calls p)\<^sup>+"
      "\<forall>i<length levels. \<forall>v\<in>set (levels ! i). \<forall>c. (?ns ! v, c) \<in> calls p \<longrightarrow>
         (c, c) \<in> (calls p)\<^sup>+ \<or> (\<exists>j<i. c \<in> (!) ?ns ` set (levels ! j))"
    and bound: "\<forall>v\<in>set (concat levels). v < length ?ns"
    using build_call_graph_ok [of p] assms by (auto simp del: set_concat)
  have names: "concat (map (map ((!) ?ns)) levels) = map ((!) ?ns) (concat levels)" by (simp add: map_concat)
  have "inj_on ((!) ?ns) (set (concat levels))"
    using bound call_graph_names_props(1) [of p] by (auto simp: inj_on_def nth_eq_iff_index_eq)
  then have dist: "distinct (map ((!) ?ns) (concat levels))" using lev(1) by (simp only: distinct_map)
  have all: "set (map ((!) ?ns) (concat levels)) = {n. is_definition p n} - on_cycle p"
    using lev(2) by (auto simp: on_cycle_def simp del: set_concat)
  have flags: "(n, True) \<in> set (zip ?ns (in_cycle g)) \<longleftrightarrow> n \<in> on_cycle p" for n
  proof -
    have "(n, True) \<in> set (zip ?ns (in_cycle g)) \<longleftrightarrow> (\<exists>i<length ?ns. ?ns ! i = n \<and> in_cycle g ! i)"
      using g(2) by (auto simp: set_zip)
    also have "\<dots> \<longleftrightarrow> n \<in> set ?ns \<and> (n, n) \<in> (calls p)\<^sup>+"
      using cyc by (auto simp: in_set_conv_nth)
    finally show ?thesis by (simp add: on_cycle_def call_graph_names_props)
  qed
  have order: "c \<in> on_cycle p \<or> (\<exists>j<i. c \<in> set (map (map ((!) ?ns)) levels ! j))"
    if i: "i < length levels" "n \<in> set (map (map ((!) ?ns)) levels ! i)" "(n, c) \<in> calls p" for i n c
  proof -
    obtain v where v: "v \<in> set (levels ! i)" "n = ?ns ! v" using i by auto
    with lev(3) i have "(c, c) \<in> (calls p)\<^sup>+ \<or> (\<exists>j<i. c \<in> (!) ?ns ` set (levels ! j))" by blast
    moreover have "is_definition p c" using i(3) by (simp add: calls_def)
    ultimately show ?thesis using i(1) by (auto simp: on_cycle_def)
  qed
  show ?thesis
    unfolding call_graph_ok_def g(1) names
    using g(2) dist all flags order by (simp del: set_map set_concat)
qed

lemma call_graph_cycle:
  "call_graph_ok p g ls \<Longrightarrow> (n, True) \<in> set (zip (graph_names g) (in_cycle g)) \<longleftrightarrow> n \<in> on_cycle p"
  unfolding call_graph_ok_def by blast

lemma footprint_settled:
  assumes g: "call_graph_ok p g ls" and r: "reads_ordered p g"
    and i: "i < length ls" "u \<in> set (ls ! i)" and n: "n \<in> footprint p u"
  shows "n \<in> on_cycle p \<or> (\<exists>j<i. n \<in> set (ls ! j))"
proof -
  have order: "\<And>i n c. i < length ls \<Longrightarrow> n \<in> set (ls ! i) \<Longrightarrow> (n, c) \<in> calls p \<Longrightarrow>
      c \<in> on_cycle p \<or> (\<exists>j<i. c \<in> set (ls ! j))"
    using g unfolding call_graph_ok_def by blast
  have "u \<in> set (concat ls)" using i by auto
  then have u: "is_definition p u" using g by (auto simp: call_graph_ok_def)
  have names: "graph_names g = call_graph_names p" using g by (simp add: call_graph_ok_def)
  from footprint_calls [OF r names u n] consider "(u, n) \<in> calls p"
    | D where "contains_key (pi_classes p) D" "(u, D) \<in> calls p" "n \<in> set (constructor_methods p D)"
        "contains_key (pi_functions p) n"
    by blast
  then show ?thesis
  proof cases
    case 1
    then show ?thesis using order [OF i] by blast
  next
    case 2
    have Dn: "(D, n) \<in> calls p"
      by (rule constructor_method_called [OF 2(1,3)]) (use 2(4) in \<open>simp add: is_definition_def\<close>)
    from order [OF i 2(2)] show ?thesis
    proof
      assume "D \<in> on_cycle p"
      then have "(D, True) \<in> set (zip (graph_names g) (in_cycle g))" by (simp only: call_graph_cycle [OF g])
      with r 2 have "(n, True) \<in> set (zip (graph_names g) (in_cycle g))"
        by (fastforce simp: reads_ordered_def list_all_iff list_ex_iff)
      then show ?thesis by (simp only: call_graph_cycle [OF g] simp_thms)
    next
      assume "\<exists>j<i. D \<in> set (ls ! j)"
      then obtain j where "j < i" "D \<in> set (ls ! j)" by blast
      with order [of j D n] Dn i(1) show ?thesis by (meson less_trans)
    qed
  qed
qed

lemma levels_ordered:
  assumes g: "call_graph_ok p g ls" and r: "reads_ordered p g" and k: "k \<le> length ls"
  shows "level_order p (on_cycle p \<union> set (concat (take k ls))) (drop k ls)"
  using k
proof (induction rule: inc_induct)
  case (step k)
  let ?S = "on_cycle p \<union> set (concat (take k ls))"
  have split: "drop k ls = ls ! k # drop (Suc k) ls" "take (Suc k) ls = take k ls @ [ls ! k]"
    using step.hyps by (simp_all add: Cons_nth_drop_Suc take_Suc_conv_app_nth)
  have d: "distinct (concat ls)" and all: "set (concat ls) = {n. is_definition p n} - on_cycle p"
    using g by (simp_all add: call_graph_ok_def)
  have parts: "concat ls = concat (take k ls) @ ls ! k @ concat (drop (Suc k) ls)"
    using append_take_drop_id [of k ls] split(1) by (metis concat.simps(2) concat_append)
  have lk: "distinct (ls ! k)" "set (ls ! k) \<inter> set (concat (take k ls)) = {}"
    using d unfolding parts by auto
  have mem: "is_definition p u \<and> u \<notin> on_cycle p" if "u \<in> set (ls ! k)" for u
    using all that unfolding parts by auto
  have "footprint p u \<subseteq> ?S" if u: "u \<in> set (ls ! k)" for u
  proof
    fix n assume n: "n \<in> footprint p u"
    have "ls ! j \<in> set (take k ls)" if "j < k" for j
      using that step.hyps by (auto simp: in_set_conv_nth)
    with footprint_settled [OF g r step.hyps(2) u n] show "n \<in> ?S" by auto
  qed
  moreover have "level_order p (?S \<union> set (ls ! k)) (drop (Suc k) ls)"
    using step.IH by (simp add: split(2) Un_assoc)
  ultimately show ?case
    unfolding split(1) level_order.simps using lk mem by blast
qed simp

section \<open>Properties\<close>

text \<open>C2: The verdicts do not depend on the order in which the nodes of a level run. When the edges
  of the call graph describe every verdict a check reads (reads_ordered, which a project can be
  tested for), any order of the nodes inside the levels of dependency_levels gives every function
  and class the verdict the code's own pass gives it.\<close>

theorem verdicts_order_free:
  assumes "build_call_graph p = Some g" "dependency_levels (csr g) (in_cycle g) = Some levels"
    and "reads_ordered p g" "list_all2 (\<lambda>l l'. mset l = mset l') levels levels'"
  shows "\<exists>st st'. compute_verdicts p (new_analysis_state am) = Some st \<and>
    precompute_nodes p (map ((!) (graph_names g)) (concat levels'))
      (mark_declared_safe g (mark_recursive_functions_unsafe g (new_analysis_state am))) = Some st' \<and>
    verdict_of st' = verdict_of st"
proof -
  let ?nm = "(!) (graph_names g)"
  let ?ls = "map (map ?nm) levels" and ?ls' = "map (map ?nm) levels'"
  let ?st1 = "mark_recursive_functions_unsafe g (new_analysis_state am)"
  let ?st = "mark_declared_safe g ?st1"
  have g: "call_graph_ok p g ?ls" by (rule build_call_graph_levels [OF assms(1,2)])
  have names: "graph_names g = call_graph_names p" "length (in_cycle g) = length (call_graph_names p)"
    using g by (simp_all add: call_graph_ok_def)
  have "list_all2 (\<lambda>l l'. mset (map ?nm l) = mset (map ?nm l')) levels levels'"
    using assms(4) by (rule list_all2_mono) simp
  then have perm: "list_all2 (\<lambda>l l'. mset l = mset l') ?ls ?ls'" by (simp add: list.rel_map)
  have lo: "level_order p (on_cycle p) ?ls" using levels_ordered [OF g assms(3), of 0] by simp
  note rec = mark_recursive_ok [OF names, of "new_analysis_state am"]
  have decl: "step_ok p ?st1 ?st"
    by (rule mark_declared_ok) (simp add: names call_graph_names_props)
  have defs: "known_defs p ?st"
    using step_ok_trans [OF conjunct1 [OF rec] decl]
    by (auto simp: known_defs_def step_ok_def new_analysis_state_def)
  have "on_cycle p \<subseteq> dom (verdict_of ?st)"
  proof
    fix n assume "n \<in> on_cycle p"
    then have "(n, True) \<in> set (zip (graph_names g) (in_cycle g))" by (simp only: call_graph_cycle [OF g])
    then obtain i where "i < length (in_cycle g)" "in_cycle g ! i" "graph_names g ! i = n"
      using names by (auto simp: set_zip)
    with rec step_ok_known [OF decl] show "n \<in> dom (verdict_of ?st)" by blast
  qed
  from run_levels [OF lo perm defs defs refl this] show ?thesis
    by (auto simp: compute_verdicts_def assms(1,2) precompute_safety_in_dependency_order_def map_concat)
qed

text \<open>A small project: a leaf, a caller of it, and a class with a constructor.\<close>

definition order_sample :: project_info where
  "order_sample =
     \<lparr>analysis_map = [],
      pi_effect_table =
        [(''m.leaf'', [new_effect GlobalVarMutation ''m.x'' default_range]),
         (''m.user'', [new_effect FunctionCall ''m.leaf'' default_range,
            new_effect FunctionCall ''m.C'' default_range])],
      pi_classes = [(''m.C'', \<lparr>cls_bases = [], cls_metaclass = None, cls_fields = []\<rparr>)],
      class_bases = [],
      pi_functions = [(''m.leaf'', ''m''), (''m.user'', ''m''), (''m.C.__init__'', ''m'')],
      re_exports = [], methods = [], nested_functions = [], pi_mutated_params = []\<rparr>"

definition order_graph :: "project_info \<Rightarrow> call_graph" where
  "order_graph p = the (build_call_graph p)"

lemma verdicts_order_free_witness:
  "\<exists>st st'. compute_verdicts order_sample (new_analysis_state []) = Some st \<and>
    precompute_nodes order_sample (map ((!) (graph_names (order_graph order_sample))) (concat [[2, 0], [3], [1]]))
      (mark_declared_safe (order_graph order_sample)
         (mark_recursive_functions_unsafe (order_graph order_sample) (new_analysis_state []))) = Some st' \<and>
    verdict_of st' = verdict_of st"
proof (rule verdicts_order_free)
  show "build_call_graph order_sample = Some (order_graph order_sample)" by code_simp
  show "dependency_levels (csr (order_graph order_sample)) (in_cycle (order_graph order_sample)) =
      Some [[0, 2], [3], [1]]" by code_simp
  show "reads_ordered order_sample (order_graph order_sample)" by code_simp
  show "list_all2 (\<lambda>l l'. mset l = mset l') [[0, 2], [3], [1]] [[2, 0], [3], [1 :: nat]]" by simp
qed

text \<open>
  Without \<open>reads_ordered\<close> the order shows. A function whose body creates a class with a hook of its
  own reads the verdict of that hook (\<open>mark_caller_unsafe_for_failed_callee\<close> and the test that
  follows it use the name on the effect, not the callables that were checked); the graph has no edge
  for it, so the two share a level, and what the function gets depends on which runs first.
\<close>

definition hook_sample :: project_info where
  "hook_sample = order_sample
     \<lparr>pi_effect_table :=
        [(''m.user'', [new_effect ClassCreation ''m.C.__init_subclass__'' default_range]),
         (''m.C.__init_subclass__'', [new_effect GlobalVarMutation ''m.x'' default_range])],
      pi_functions := [(''m.user'', ''m''), (''m.C.__init_subclass__'', ''m'')]\<rparr>"

definition user_verdict :: "nat list \<Rightarrow> function_safety option" where
  "user_verdict ns =
     (case precompute_nodes hook_sample (map ((!) (graph_names (order_graph hook_sample))) ns)
             (new_analysis_state []) of
        None \<Rightarrow> None
      | Some st \<Rightarrow> map_option verdict (verdict_of st ''m.user''))"

theorem class_statement_order_dependent:
  "dependency_levels (csr (order_graph hook_sample)) (in_cycle (order_graph hook_sample)) = Some [[0, 1, 2]] \<and>
   graph_names (order_graph hook_sample) = [''m.user'', ''m.C.__init_subclass__'', ''m.C''] \<and>
   \<not> reads_ordered hook_sample (order_graph hook_sample) \<and>
   user_verdict [0, 1, 2] = Some Safe \<and> user_verdict [1, 0, 2] = Some UnsafeIfImported"
  by code_simp

text \<open>
  The comments of the call graph say that the check of a constructor resolves each method through
  the method resolution order, and the graph has the edge to the inherited method; the check itself
  looks the syntactic name up only, so a class that inherits an unsafe constructor gets Safe.
\<close>

definition inherited_sample :: project_info where
  "inherited_sample = order_sample
     \<lparr>pi_effect_table := [(''m.Base.__init__'', [new_effect ExecCall ''exec'' default_range])],
      pi_classes := [(''m.Base'', \<lparr>cls_bases = [], cls_metaclass = None, cls_fields = []\<rparr>),
        (''m.Sub'', \<lparr>cls_bases = [''m.Base''], cls_metaclass = None, cls_fields = []\<rparr>)],
      class_bases := [(''m.Sub'', [''m.Base''])],
      pi_functions := [(''m.Base.__init__'', ''m'')]\<rparr>"

theorem inherited_constructor_not_checked:
  "''m.Base.__init__'' \<in> set (constructor_targets inherited_sample (call_graph_names inherited_sample) ''m.Sub'') \<and>
   (case compute_verdicts inherited_sample (new_analysis_state []) of
      None \<Rightarrow> False
    | Some st \<Rightarrow>
        map (\<lambda>n. map_option verdict (verdict_of st n)) [''m.Base.__init__'', ''m.Base'', ''m.Sub''] =
        [Some Unsafe, Some Unsafe, Some Safe])"
  by code_simp

end
