(* ===== verification/Safety_Resolver.thy ===== *)
theory Safety_Resolver
  imports Cache_Model Mro
begin

text \<open>
  Whether a callee is safe, answered against merged facts (\<open>src/safety_resolver.rs\<close>): which module
  a qualified name belongs to, when an unqualified name may fall back to a same-named function,
  and when a method may be inherited. The memo table of the decorator check is explicit state.
\<close>

section \<open>The resolver\<close>

record safety_resolver =
  sr_modules :: "modname list"
  sr_by_module :: verdict_map
  sr_globally_safe :: "string set option"
  sr_class_bases :: "base_map option"
  sr_constructor_callees :: "(modname \<times> constructor_callees) list option"
  sr_mro_modules :: "modname list option"

definition new_resolver :: "modname list \<Rightarrow> verdict_map \<Rightarrow> safety_resolver" where
  "new_resolver ms fs =
     \<lparr>sr_modules = ms, sr_by_module = fs, sr_globally_safe = None, sr_class_bases = None,
      sr_constructor_callees = None, sr_mro_modules = None\<rparr>"

definition with_safe_index :: "modname list \<Rightarrow> verdict_map \<Rightarrow> string set \<Rightarrow> safety_resolver" where
  "with_safe_index ms fs safe = new_resolver ms fs \<lparr>sr_globally_safe := Some safe\<rparr>"

definition with_class_bases :: "base_map \<Rightarrow> safety_resolver \<Rightarrow> safety_resolver" where
  "with_class_bases cb r = r\<lparr>sr_class_bases := Some cb\<rparr>"

definition with_constructor_callees ::
  "(modname \<times> constructor_callees) list \<Rightarrow> safety_resolver \<Rightarrow> safety_resolver" where
  "with_constructor_callees cc r = r\<lparr>sr_constructor_callees := Some cc\<rparr>"

definition with_mro_modules :: "modname list \<Rightarrow> safety_resolver \<Rightarrow> safety_resolver" where
  "with_mro_modules ms r = r\<lparr>sr_mro_modules := Some ms\<rparr>"

definition split_at_module_in :: "modname list \<Rightarrow> string \<Rightarrow> (modname \<times> string) option" where
  "split_at_module_in modules func_name = enclosing_module func_name (\<lambda>m. m \<in> set modules)"

definition split_at_module :: "safety_resolver \<Rightarrow> string \<Rightarrow> (modname \<times> string) option" where
  "split_at_module r func_name = split_at_module_in (sr_modules r) func_name"

definition lookup_in_safety_map :: "string \<Rightarrow> func_table \<Rightarrow> bool" where
  "lookup_in_safety_map local fs =
     (case map_of fs local of None \<Rightarrow> False | Some info \<Rightarrow> is_safe (verdict info))"

definition own_verdict :: "safety_resolver \<Rightarrow> modname \<Rightarrow> string \<Rightarrow> function_safety option" where
  "own_verdict r module local =
     (case map_of (sr_by_module r) module of
        None \<Rightarrow> None
      | Some fs \<Rightarrow> map_option verdict (map_of fs local))"

text \<open>The loop over the ancestors: the first with an exact entry answers.\<close>

fun first_inherited ::
  "modname list \<Rightarrow> verdict_map \<Rightarrow> string \<Rightarrow> modname list \<Rightarrow> function_safety option" where
  "first_inherited modules by_module meth [] = None"
| "first_inherited modules by_module meth (ancestor # rest) =
     (case split_at_module_in modules (append_str ancestor meth) of
        None \<Rightarrow> first_inherited modules by_module meth rest
      | Some (bmod, blocal) \<Rightarrow>
          (case map_of by_module bmod of
             None \<Rightarrow> first_inherited modules by_module meth rest
           | Some fs \<Rightarrow>
               (case map_of fs blocal of
                  None \<Rightarrow> first_inherited modules by_module meth rest
                | Some info \<Rightarrow> Some (verdict info))))"

definition mro_method_verdict ::
  "safety_resolver \<Rightarrow> modname \<Rightarrow> string \<Rightarrow> function_safety option" where
  "mro_method_verdict r module local =
     (case sr_class_bases r of
        None \<Rightarrow> None
      | Some class_bases \<Rightarrow>
          (case split_attr local of
             None \<Rightarrow> None
           | Some (class_local, meth) \<Rightarrow>
               first_inherited
                 (case sr_mro_modules r of None \<Rightarrow> sr_modules r | Some ms \<Rightarrow> ms)
                 (sr_by_module r) meth
                 (drop 1 (c3_linearize class_bases (append_str module class_local)))))"

definition unqualified_safe :: "safety_resolver \<Rightarrow> string \<Rightarrow> bool" where
  "unqualified_safe r func_name =
     (case sr_globally_safe r of
        Some index \<Rightarrow> func_name \<in> index
      | None \<Rightarrow>
          list_ex (\<lambda>m. case map_of (sr_by_module r) m of
              None \<Rightarrow> False
            | Some fs \<Rightarrow> lookup_in_safety_map func_name fs)
            (sr_modules r))"

definition qualified_safe :: "safety_resolver \<Rightarrow> modname \<Rightarrow> string \<Rightarrow> bool" where
  "qualified_safe r module local =
     (case own_verdict r module local of
        Some v \<Rightarrow> is_safe v
      | None \<Rightarrow> (case mro_method_verdict r module local of None \<Rightarrow> False | Some v \<Rightarrow> is_safe v))"

definition is_call_verified_safe :: "safety_resolver \<Rightarrow> string \<Rightarrow> bool" where
  "is_call_verified_safe r func_name =
     (case split_at_module r func_name of
        Some (module, local) \<Rightarrow> qualified_safe r module local
      | None \<Rightarrow> unqualified_safe r func_name)"

definition is_call_verified_safe_no_unqualified :: "safety_resolver \<Rightarrow> string \<Rightarrow> bool" where
  "is_call_verified_safe_no_unqualified r func_name =
     (case split_at_module r func_name of
        Some (module, local) \<Rightarrow> qualified_safe r module local
      | None \<Rightarrow> False)"

section \<open>Decorators\<close>

definition constructors :: "string \<Rightarrow> string list" where
  "constructors local = map (\<lambda>m. local @ [dot] @ m) CONSTRUCTOR_METHODS"

definition is_class_like_entry :: "string \<Rightarrow> func_table \<Rightarrow> bool" where
  "is_class_like_entry local fs = list_ex (\<lambda>m. map_of fs m \<noteq> None) (constructors local)"

definition is_immediate_child :: "string \<Rightarrow> string \<Rightarrow> bool" where
  "is_immediate_child local name =
     (case strip_prefix local name of
        None \<Rightarrow> False
      | Some rest \<Rightarrow> (case strip_prefix [dot] rest of None \<Rightarrow> False | Some child \<Rightarrow> dot \<notin> set child))"

definition lookup_decorator_in_safety_map :: "string \<Rightarrow> func_table \<Rightarrow> bool" where
  "lookup_decorator_in_safety_map local fs =
     (if \<not> lookup_in_safety_map local fs then False
      else if is_class_like_entry local fs then True
      else list_all (\<lambda>(name, info). \<not> is_immediate_child local name \<or> verdict info = Safe) fs)"

definition decorator_safe_in :: "safety_resolver \<Rightarrow> modname \<Rightarrow> string \<Rightarrow> bool" where
  "decorator_safe_in r module local =
     (case map_of (sr_by_module r) module of
        None \<Rightarrow> False
      | Some fs \<Rightarrow> lookup_decorator_in_safety_map local fs)"

definition is_decorator_call_verified_safe_no_unqualified :: "safety_resolver \<Rightarrow> string \<Rightarrow> bool" where
  "is_decorator_call_verified_safe_no_unqualified r func_name =
     (case split_at_module r func_name of
        Some (module, local) \<Rightarrow> decorator_safe_in r module local
      | None \<Rightarrow> False)"

definition scan_unqualified_decorator_safe :: "safety_resolver \<Rightarrow> string \<Rightarrow> bool" where
  "scan_unqualified_decorator_safe r func_name =
     list_ex (\<lambda>m. decorator_safe_in r m func_name) (sr_modules r)"

text \<open>
  With the memo table of \<open>DecoratorVerdictMap\<close>, if one is attached: the answer and the table
  afterwards.
\<close>

definition is_decorator_call_verified_safe ::
  "safety_resolver \<Rightarrow> string \<Rightarrow> (string \<rightharpoonup> bool) option \<Rightarrow> bool \<times> (string \<rightharpoonup> bool) option" where
  "is_decorator_call_verified_safe r func_name cache =
     (case split_at_module r func_name of
        Some (module, local) \<Rightarrow> (decorator_safe_in r module local, cache)
      | None \<Rightarrow>
          (case cache of
             None \<Rightarrow> (scan_unqualified_decorator_safe r func_name, None)
           | Some memo \<Rightarrow>
               (case memo func_name of
                  Some cached \<Rightarrow> (cached, cache)
                | None \<Rightarrow>
                    (let result = scan_unqualified_decorator_safe r func_name
                     in (result, Some (memo(func_name \<mapsto> result)))))))"

section \<open>Recorded constructors\<close>

definition recorded_callee_verdict :: "safety_resolver \<Rightarrow> modname \<Rightarrow> function_safety" where
  "recorded_callee_verdict r callee =
     (case split_at_module r callee of
        None \<Rightarrow> Unsafe
      | Some (module, local) \<Rightarrow>
          (case own_verdict r module local of None \<Rightarrow> Unsafe | Some v \<Rightarrow> v))"

definition callee_verdict :: "safety_resolver \<Rightarrow> modname \<Rightarrow> string \<Rightarrow> function_safety" where
  "callee_verdict r owner meth =
     (case split_at_module r owner of
        None \<Rightarrow> Unsafe
      | Some (module, local) \<Rightarrow>
          (case own_verdict r module (local @ [dot] @ meth) of None \<Rightarrow> Unsafe | Some v \<Rightarrow> v))"

definition callee_verdict_clears ::
  "safety_resolver \<Rightarrow> function_safety \<Rightarrow> modname \<Rightarrow> modname \<Rightarrow> bool" where
  "callee_verdict_clears r v caller_module callee_owner =
     (if v = Safe then True
      else v = UnsafeIfImported \<and>
        (case split_at_module r callee_owner of
           None \<Rightarrow> False
         | Some (defining, _) \<Rightarrow> defining = caller_module))"

definition recorded_constructor_clears_all ::
  "safety_resolver \<Rightarrow> modname \<Rightarrow> modname \<Rightarrow> bool option" where
  "recorded_constructor_clears_all r class_fqn caller_module =
     (case sr_constructor_callees r of
        None \<Rightarrow> None
      | Some recs \<Rightarrow>
          (case map_of recs class_fqn of
             None \<Rightarrow> None
           | Some rec \<Rightarrow>
               if callees_empty rec then None
               else Some (list_all (\<lambda>(owner, v). callee_verdict_clears r v caller_module owner)
                 (map (\<lambda>(owner, meth). (owner, callee_verdict r owner meth)) (callees_iter rec class_fqn) @
                  map (\<lambda>callee. (callee, recorded_callee_verdict r callee)) (extra rec)))))"

section \<open>Errors\<close>

text \<open>\<open>trim_end_matches("()")\<close>, on the reversed string.\<close>

fun drop_calls :: "string \<Rightarrow> string" where
  "drop_calls (a # b # s) =
     (if a = CHR '')'' \<and> b = CHR ''('' then drop_calls s else a # b # s)"
| "drop_calls s = s"

definition trim_calls :: "string \<Rightarrow> string" where
  "trim_calls s = rev (drop_calls (rev s))"

definition is_error_verified_safe ::
  "safety_resolver \<Rightarrow> safety_error \<Rightarrow> (string \<rightharpoonup> bool) option \<Rightarrow> bool \<times> (string \<rightharpoonup> bool) option" where
  "is_error_verified_safe r e cache =
     (let func_name = trim_calls (err_metadata e);
          parameterized = parameterized_decorator e \<and> is_decorator_call e
      in if parameterized then
           (if err_kind e = UnknownDecoratorCallError
            then (is_decorator_call_verified_safe_no_unqualified r func_name, cache)
            else is_decorator_call_verified_safe r func_name cache)
         else if err_kind e \<in> {UnknownFunctionCallError, UnknownMethodCallError,
             UnknownDecoratorCallError, UnknownObjectError}
           then (is_call_verified_safe_no_unqualified r func_name, cache)
           else (is_call_verified_safe r func_name, cache))"

definition recorded_constructor_clears ::
  "safety_resolver \<Rightarrow> modname \<Rightarrow> safety_error \<Rightarrow> bool option" where
  "recorded_constructor_clears r caller e =
     (if err_kind e \<in> {UnsafeFunctionCall, UnknownFunctionCallError, UnsafeDecoratorCall, UnknownDecoratorCallError}
      then recorded_constructor_clears_all r (trim_calls (err_metadata e)) caller
      else None)"

section \<open>The memo table does not show\<close>

text \<open>Checking errors one after the other, the table handed on.\<close>

fun verify_all ::
  "safety_resolver \<Rightarrow> safety_error list \<Rightarrow> (string \<rightharpoonup> bool) option \<Rightarrow> bool list" where
  "verify_all r [] cache = []"
| "verify_all r (e # es) cache =
     (case is_error_verified_safe r e cache of (ok, cache') \<Rightarrow> ok # verify_all r es cache')"

definition decorator_memo_ok :: "safety_resolver \<Rightarrow> (string \<rightharpoonup> bool) option \<Rightarrow> bool" where
  "decorator_memo_ok r cache \<longleftrightarrow>
     (\<forall>memo n b. cache = Some memo \<and> memo n = Some b \<longrightarrow> b = scan_unqualified_decorator_safe r n)"

lemma decorator_memo:
  assumes "decorator_memo_ok r cache"
  shows "fst (is_decorator_call_verified_safe r n cache) = fst (is_decorator_call_verified_safe r n None)"
    "decorator_memo_ok r (snd (is_decorator_call_verified_safe r n cache))"
  using assms
  by (auto simp: is_decorator_call_verified_safe_def decorator_memo_ok_def Let_def split: option.split)

lemma error_memo:
  assumes "decorator_memo_ok r cache"
  shows "fst (is_error_verified_safe r e cache) = fst (is_error_verified_safe r e None)"
    "decorator_memo_ok r (snd (is_error_verified_safe r e cache))"
  using assms decorator_memo [OF assms]
  by (simp_all add: is_error_verified_safe_def Let_def)

text \<open>
  The memo table of unqualified decorators is transparent: checking any sequence of errors
  with a table that starts empty gives each the answer it gets on its own without a table.
\<close>

theorem decorator_memo_transparent:
  "verify_all r es (Some Map.empty) = map (\<lambda>e. fst (is_error_verified_safe r e None)) es"
proof -
  have "verify_all r es cache = map (\<lambda>e. fst (is_error_verified_safe r e None)) es"
    if "decorator_memo_ok r cache" for cache
    using that
  proof (induction es arbitrary: cache)
    case (Cons e es)
    then show ?case
      using error_memo [OF Cons.prems, of e] by (simp add: split_def)
  qed simp
  then show ?thesis by (simp add: decorator_memo_ok_def)
qed

section \<open>Why an error is cleared\<close>

definition safe_entry :: "safety_resolver \<Rightarrow> modname \<Rightarrow> string \<Rightarrow> bool" where
  "safe_entry r m l \<longleftrightarrow> own_verdict r m l = Some Safe"

lemma is_safe_iff: "is_safe v \<longleftrightarrow> v = Safe"
  by (simp add: is_safe_def Safe_def)

lemma lookup_safe: "lookup_in_safety_map l fs \<longleftrightarrow> (\<exists>info. map_of fs l = Some info \<and> verdict info = Safe)"
  by (auto simp: lookup_in_safety_map_def is_safe_iff split: option.split)

lemma decorator_safe_in_entry: "decorator_safe_in r m l \<Longrightarrow> safe_entry r m l"
  by (auto simp: decorator_safe_in_def lookup_decorator_in_safety_map_def safe_entry_def own_verdict_def
      lookup_safe split: option.splits if_splits)

text \<open>
  An inherited method: the first ancestor in resolution order that defines it, the class itself
  left out.
\<close>

definition ancestors_of :: "safety_resolver \<Rightarrow> modname \<Rightarrow> modname list" where
  "ancestors_of r class_fqn =
     (case sr_class_bases r of None \<Rightarrow> [] | Some cb \<Rightarrow> drop 1 (c3_linearize cb class_fqn))"

definition resolves_to :: "safety_resolver \<Rightarrow> modname \<Rightarrow> modname \<Rightarrow> string \<Rightarrow> bool" where
  "resolves_to r fqn m l \<longleftrightarrow>
     split_at_module_in (case sr_mro_modules r of None \<Rightarrow> sr_modules r | Some ms \<Rightarrow> ms) fqn = Some (m, l) \<and>
     own_verdict r m l \<noteq> None"

definition inherited_from :: "safety_resolver \<Rightarrow> modname \<Rightarrow> string \<Rightarrow> modname \<Rightarrow> string \<Rightarrow> bool" where
  "inherited_from r class_fqn meth m l \<longleftrightarrow>
     (\<exists>before a after. ancestors_of r class_fqn = before @ a # after \<and>
        resolves_to r (append_str a meth) m l \<and>
        list_all (\<lambda>b. \<not> (\<exists>m' l'. resolves_to r (append_str b meth) m' l')) before)"

lemma first_inherited_SomeD:
  assumes "first_inherited ms (sr_by_module r) meth as = Some v"
    and ms: "ms = (case sr_mro_modules r of None \<Rightarrow> sr_modules r | Some ms \<Rightarrow> ms)"
  shows "\<exists>before a after m l. as = before @ a # after \<and> resolves_to r (append_str a meth) m l \<and>
    own_verdict r m l = Some v \<and>
    list_all (\<lambda>b. \<not> (\<exists>m' l'. resolves_to r (append_str b meth) m' l')) before"
  using assms(1)
proof (induction "as")
  case (Cons a as)
  show ?case
  proof (cases "\<exists>m l. resolves_to r (append_str a meth) m l")
    case True
    then obtain m l where ml: "resolves_to r (append_str a meth) m l" by blast
    then have "split_at_module_in ms (append_str a meth) = Some (m, l)" "own_verdict r m l \<noteq> None"
      using ms by (auto simp: resolves_to_def)
    with Cons.prems have "own_verdict r m l = Some v"
      by (auto simp: own_verdict_def split: option.splits)
    with ml have "a # as = [] @ a # as \<and> resolves_to r (append_str a meth) m l \<and>
        own_verdict r m l = Some v \<and> list_all (\<lambda>b. \<not> (\<exists>m' l'. resolves_to r (append_str b meth) m' l')) []"
      by simp
    then show ?thesis by blast
  next
    case False
    then have "first_inherited ms (sr_by_module r) meth as = Some v"
      using Cons.prems ms by (auto simp: resolves_to_def own_verdict_def split: option.splits)
    from Cons.IH [OF this] obtain before b after m l where
      "as = before @ b # after" "resolves_to r (append_str b meth) m l" "own_verdict r m l = Some v"
      "list_all (\<lambda>b. \<not> (\<exists>m' l'. resolves_to r (append_str b meth) m' l')) before"
      by blast
    with False have "a # as = (a # before) @ b # after \<and> resolves_to r (append_str b meth) m l \<and>
        own_verdict r m l = Some v \<and>
        list_all (\<lambda>b. \<not> (\<exists>m' l'. resolves_to r (append_str b meth) m' l')) (a # before)"
      by simp
    then show ?thesis by blast
  qed
qed simp

lemma mro_method_verdict_SomeD:
  assumes "mro_method_verdict r m local = Some v"
  shows "\<exists>cls meth m' l'. local = append_str cls meth \<and>
    inherited_from r (append_str m cls) meth m' l' \<and> own_verdict r m' l' = Some v"
proof -
  obtain cb cls meth where
    cb: "sr_class_bases r = Some cb" and split: "split_attr local = Some (cls, meth)" and
    first: "first_inherited (case sr_mro_modules r of None \<Rightarrow> sr_modules r | Some ms \<Rightarrow> ms)
      (sr_by_module r) meth (drop 1 (c3_linearize cb (append_str m cls))) = Some v"
    using assms by (auto simp: mro_method_verdict_def split: option.splits)
  have "local = append_str cls meth" using split_attr_SomeD [OF split] by simp
  moreover have "ancestors_of r (append_str m cls) = drop 1 (c3_linearize cb (append_str m cls))"
    by (simp add: ancestors_of_def cb)
  ultimately show ?thesis
    using first_inherited_SomeD [OF first refl] unfolding inherited_from_def by metis
qed

text \<open>What may clear an error: an entry, found by one of the three rules.\<close>

definition evidence :: "safety_resolver \<Rightarrow> safety_error \<Rightarrow> modname \<Rightarrow> string \<Rightarrow> bool" where
  "evidence r e m l \<longleftrightarrow>
     (let name = trim_calls (err_metadata e) in
      split_at_module r name = Some (m, l) \<or>
      (\<exists>mc lc cls meth. split_at_module r name = Some (mc, lc) \<and> own_verdict r mc lc = None \<and>
         lc = append_str cls meth \<and> inherited_from r (append_str mc cls) meth m l) \<or>
      (split_at_module r name = None \<and> l = name \<and>
         err_kind e \<notin> {UnknownFunctionCallError, UnknownMethodCallError,
           UnknownDecoratorCallError, UnknownObjectError}))"

text \<open>What the index of globally safe names promises.\<close>

definition index_sound :: "safety_resolver \<Rightarrow> bool" where
  "index_sound r \<longleftrightarrow>
     (\<forall>index n. sr_globally_safe r = Some index \<and> n \<in> index \<longrightarrow> (\<exists>m. safe_entry r m n))"

lemma qualified_safe_evidence:
  assumes "qualified_safe r m l"
  shows "safe_entry r m l \<or> (own_verdict r m l = None \<and>
    (\<exists>cls meth m' l'. l = append_str cls meth \<and> inherited_from r (append_str m cls) meth m' l' \<and>
       safe_entry r m' l'))"
proof (cases "own_verdict r m l")
  case None
  then obtain v where v: "mro_method_verdict r m l = Some v" "v = Safe"
    using assms by (auto simp: qualified_safe_def is_safe_iff split: option.splits)
  then show ?thesis
    using mro_method_verdict_SomeD [OF v(1)] None by (auto simp: safe_entry_def)
next
  case (Some v)
  with assms show ?thesis by (simp add: qualified_safe_def safe_entry_def is_safe_iff)
qed

lemma unqualified_safe_evidence:
  assumes "unqualified_safe r n" "index_sound r"
  shows "\<exists>m. safe_entry r m n"
proof (cases "sr_globally_safe r")
  case None
  with assms(1) obtain m fs where "map_of (sr_by_module r) m = Some fs" "lookup_in_safety_map n fs"
    by (auto simp: unqualified_safe_def list_ex_iff split: option.splits)
  then have "safe_entry r m n" by (auto simp: safe_entry_def own_verdict_def lookup_safe)
  then show ?thesis ..
next
  case (Some index)
  with assms show ?thesis by (auto simp: unqualified_safe_def index_sound_def)
qed

text \<open>
  C32: An error is cleared only on the evidence of a function whose own verdict is safe: the callee
  that the error names; failing a verdict of its own, the nearest ancestor's method in resolution
  order; or, where the name belongs to no module and the map phase had bound it, a function of
  that very name. An unsafe override is never cleared by the method it overrides.
\<close>

theorem is_error_verified_safe_evidence:
  assumes "fst (is_error_verified_safe r e None)" "index_sound r"
  shows "\<exists>m l. safe_entry r m l \<and> evidence r e m l"
proof -
  let ?name = "trim_calls (err_metadata e)"
  let ?unbound = "err_kind e \<in> {UnknownFunctionCallError, UnknownMethodCallError,
    UnknownDecoratorCallError, UnknownObjectError}"
  have deco: "is_decorator_call e \<Longrightarrow> err_kind e \<noteq> UnknownDecoratorCallError \<Longrightarrow> \<not> ?unbound"
    by (auto simp: is_decorator_call_def)
  have "(\<exists>m l. split_at_module r ?name = Some (m, l) \<and> (qualified_safe r m l \<or> safe_entry r m l)) \<or>
      (split_at_module r ?name = None \<and> \<not> ?unbound \<and> (\<exists>m. safe_entry r m ?name))"
    using assms(1) unqualified_safe_evidence [OF _ assms(2)] deco
    by (fastforce simp: is_error_verified_safe_def Let_def is_decorator_call_verified_safe_def
        is_decorator_call_verified_safe_no_unqualified_def is_call_verified_safe_def
        is_call_verified_safe_no_unqualified_def scan_unqualified_decorator_safe_def list_ex_iff
        dest: decorator_safe_in_entry split: if_splits option.splits)
  then show ?thesis
  proof (elim disjE exE conjE)
    fix m l
    assume split: "split_at_module r ?name = Some (m, l)" and "qualified_safe r m l"
    from qualified_safe_evidence [OF this(2)] show ?thesis
      using split unfolding evidence_def Let_def by blast
  qed (auto simp: evidence_def Let_def)
qed

text \<open>A class without the method, whose base defines it.\<close>

definition sample_resolver :: safety_resolver where
  "sample_resolver =
     with_class_bases [(''m.B'', [''m.A'']), (''m.A'', [])]
       (new_resolver [''m''] [(''m'', [(''A.f'', new_info Safe)])])"

lemma is_error_verified_safe_evidence_witness:
  "\<exists>m l. safe_entry sample_resolver m l \<and>
     evidence sample_resolver (new_error UnsafeMethodCall ''m.B.f()'' (0, 0)) m l"
proof (rule is_error_verified_safe_evidence)
  show "fst (is_error_verified_safe sample_resolver (new_error UnsafeMethodCall ''m.B.f()'' (0, 0)) None)"
    by code_simp
  show "index_sound sample_resolver"
    by (simp add: index_sound_def sample_resolver_def with_class_bases_def new_resolver_def)
qed

end
