(* ===== verification/Resolution.thy ===== *)
theory Resolution
  imports Safety_Resolver "HOL-Library.AList"
begin

text \<open>
  Cross-library resolution (\<open>src/resolution.rs\<close>): candidate calls that may mutate an imported
  argument are confirmed or discharged, and functions that only wait for callees of other
  libraries are promoted in synchronous rounds until a round promotes none.
\<close>

section \<open>Verdict tables\<close>

definition get_function_safety ::
  "verdict_map \<Rightarrow> modname \<Rightarrow> string \<Rightarrow> function_safety_info option" where
  "get_function_safety fm module name =
     (case map_of fm module of None \<Rightarrow> None | Some fs \<Rightarrow> map_of fs name)"

text \<open>An update through \<open>get_function_safety_mut\<close>, which does nothing when there is no entry.\<close>

definition modify_function ::
  "modname \<Rightarrow> string \<Rightarrow> (function_safety_info \<Rightarrow> function_safety_info) \<Rightarrow> verdict_map \<Rightarrow> verdict_map" where
  "modify_function module name f fm = AList.map_entry module (AList.map_entry name f) fm"

lemma get_modify [simp]:
  "get_function_safety (modify_function m n f fm) m' n' =
     (if m' = m \<and> n' = n then map_option f (get_function_safety fm m n) else get_function_safety fm m' n')"
  by (auto simp: get_function_safety_def modify_function_def AList.map_of_map_entry split: option.split)

definition unqualified_index_key :: "string \<Rightarrow> string option" where
  "unqualified_index_key metadata =
     (let name = trim_calls metadata in if dot \<notin> set name then Some name else None)"

section \<open>Walked bases\<close>

definition strip_suffix :: "string \<Rightarrow> string \<Rightarrow> string option" where
  "strip_suffix suf s =
     (if length suf \<le> length s \<and> drop (length s - length suf) s = suf
      then Some (take (length s - length suf) s) else None)"

definition walked_base :: "safety_error \<Rightarrow> modname option" where
  "walked_base e =
     (if err_kind e \<noteq> SubclassesAccessError then None
      else strip_suffix ''.__subclasses__'' (err_metadata e))"

text \<open>\<open>WalkedBases::record\<close>: the map afterwards, and whether there were any bases.\<close>

definition record_walks :: "modname \<Rightarrow> safety_error list \<Rightarrow> re_map \<Rightarrow> re_map \<times> bool" where
  "record_walks module overrides walked =
     foldl (\<lambda>(w, walks) e.
         case walked_base e of None \<Rightarrow> (w, walks) | Some base \<Rightarrow> (re_map_insert base module w, True))
       (walked, False) overrides"

text \<open>The loop with its set \<open>seen\<close> and its stack, whose top is at the end.\<close>

function inherits_loop ::
  "base_map \<Rightarrow> (modname \<Rightarrow> bool) \<Rightarrow> modname set \<Rightarrow> modname list \<Rightarrow> bool" where
  "inherits_loop cb is_target seen stack =
     (if stack = [] then False
      else
        let base = last stack in
        if is_target base then True
        else if base \<in> seen then inherits_loop cb is_target seen (butlast stack)
        else inherits_loop cb is_target (insert base seen)
          (case map_of cb base of None \<Rightarrow> butlast stack | Some bases \<Rightarrow> butlast stack @ bases))"
  by pat_completeness auto
termination
proof (relation "measures [\<lambda>(cb, t, seen, stack). card (fst ` set cb - seen), \<lambda>(cb, t, seen, stack). length stack]",
    goal_cases)
  case (3 cb is_target seen stack base)
  show ?case
  proof (cases "map_of cb base")
    case None
    then have "fst ` set cb - insert base seen = fst ` set cb - seen"
      using map_of_eq_None_iff [of cb base] by auto
    with None 3 show ?thesis by simp
  next
    case (Some bases)
    then have "base \<in> fst ` set cb - seen" using 3 by (force dest: map_of_SomeD)
    moreover have "fst ` set cb - insert base seen = (fst ` set cb - seen) - {base}" by auto
    ultimately have "card (fst ` set cb - insert base seen) < card (fst ` set cb - seen)"
      by (metis List.finite_set card_Diff1_less finite_Diff finite_imageI)
    then show ?thesis by simp
  qed
qed auto

declare inherits_loop.simps [simp del]

definition inherits_from :: "base_map \<Rightarrow> modname \<Rightarrow> (modname \<Rightarrow> bool) \<Rightarrow> bool" where
  "inherits_from cb class is_target =
     inherits_loop cb is_target {} (case map_of cb class of None \<Rightarrow> [] | Some bases \<Rightarrow> bases)"

definition registration_errors ::
  "re_map \<Rightarrow> modname \<Rightarrow> subclass_candidate list \<Rightarrow> base_map \<Rightarrow> (modname \<Rightarrow> modname \<Rightarrow> bool) \<Rightarrow>
     safety_error list" where
  "registration_errors walked module candidates cb imports =
     (let walked_elsewhere = (\<lambda>base. case map_of walked base of
            None \<Rightarrow> False
          | Some walkers \<Rightarrow> list_ex (\<lambda>walker. walker \<noteq> module \<and> \<not> imports walker module) walkers)
      in map (\<lambda>c.
           let e = new_error SubclassRegistration (sc_class c) (sc_range c) in
           if sc_from_main_guard c then from_main_guard e else e)
         (filter (\<lambda>c. inherits_from cb (sc_class c) walked_elsewhere) candidates))"

section \<open>The view of the merged modules\<close>

definition view_get :: "modname list \<Rightarrow> verdict_map \<Rightarrow> modname \<Rightarrow> func_table option option" where
  "view_get names fm name = (if name \<in> set names then Some (map_of fm name) else None)"

text \<open>\<open>ModuleView::split\<close>, with its variable \<open>end\<close> as the last argument.\<close>

function view_split_loop ::
  "modname list \<Rightarrow> verdict_map \<Rightarrow> string \<Rightarrow> nat \<Rightarrow> (func_table option \<times> string) option" where
  "view_split_loop names fm name e =
     (case rfind_dot (take e name) of
        None \<Rightarrow> None
      | Some pos \<Rightarrow>
          (case view_get names fm (take pos name) of
             Some verdicts \<Rightarrow> Some (verdicts, drop (pos + 1) name)
           | None \<Rightarrow> view_split_loop names fm name pos))"
  by pat_completeness auto
termination
  by (relation "measure (\<lambda>(_, _, _, e). e)") (auto dest: rfind_dot_SomeD)

declare view_split_loop.simps [simp del]

definition view_split ::
  "modname list \<Rightarrow> verdict_map \<Rightarrow> string \<Rightarrow> (func_table option \<times> string) option" where
  "view_split names fm name = view_split_loop names fm name (length name)"

definition lookup_callee :: "modname list \<Rightarrow> verdict_map \<Rightarrow> string \<Rightarrow> function_safety_info option" where
  "lookup_callee names fm name =
     (case view_split names fm name of
        None \<Rightarrow> None
      | Some (verdicts, local) \<Rightarrow> (case verdicts of None \<Rightarrow> None | Some fs \<Rightarrow> map_of fs local))"

section \<open>Mutation candidates\<close>

definition apply_confirmed_candidate ::
  "modname \<times> mutation_candidate \<Rightarrow> verdict_map \<times> (modname \<times> string \<times> text_range) list \<Rightarrow>
     verdict_map \<times> (modname \<times> string \<times> text_range) list" where
  "apply_confirmed_candidate p st =
     (case (p, st) of ((module, c), (fm, errs)) \<Rightarrow>
        (case mc_site c of
           SiteModuleScope call \<Rightarrow> (fm, errs @ [(module, call, mc_range c)])
         | SiteFunction name \<Rightarrow>
             (modify_function module name (\<lambda>info.
                let v = insert_concern (verdict info) Unsafe;
                    callees = filter (\<lambda>x. x \<noteq> mc_callee c) (missing_dep_callees info)
                in info\<lparr>verdict := (if callees = [] then remove_concern v UnsafeMissingDep else v),
                        missing_dep_callees := callees\<rparr>) fm, errs)))"

definition discharge_candidate ::
  "modname \<times> mutation_candidate \<Rightarrow> verdict_map \<Rightarrow> verdict_map" where
  "discharge_candidate p fm =
     (case p of (module, c) \<Rightarrow>
        (case mc_site c of
           SiteModuleScope call \<Rightarrow> fm
         | SiteFunction name \<Rightarrow>
             modify_function module name (\<lambda>info.
               let info' = info\<lparr>missing_dep_callees :=
                     filter (\<lambda>x. x \<noteq> mc_callee c) (missing_dep_callees info)\<rparr>
               in if \<not> has (verdict info') UnsafeMissingDep \<or> missing_dep_callees info' \<noteq> []
                  then info'
                  else info'\<lparr>verdict := remove_concern (verdict info') UnsafeMissingDep\<rparr>) fm))"

definition info_hit ::
  "imported_args \<Rightarrow> function_safety_info option \<Rightarrow> nat \<Rightarrow> bool" where
  "info_hit args info arg_offset =
     (case info of
        None \<Rightarrow> False
      | Some i \<Rightarrow>
          hits_any_param args (map (\<lambda>p. (mp_name p, mp_position p)) (mutated_params i)) arg_offset)"

definition mutated_arg_reaches ::
  "modname \<Rightarrow> nat \<Rightarrow> imported_args \<Rightarrow> modname list \<Rightarrow> verdict_map \<Rightarrow> bool" where
  "mutated_arg_reaches callee arg_offset args names fm =
     (let own = view_split names fm callee;
          as_module = view_get names fm callee
      in if own = None \<and> as_module = None then False
         else if (case own of
                    None \<Rightarrow> False
                  | Some (verdicts, local) \<Rightarrow>
                      info_hit args (case verdicts of None \<Rightarrow> None | Some fs \<Rightarrow> map_of fs local) arg_offset)
         then True
         else
           (case (case as_module of
                    Some verdicts \<Rightarrow> (verdicts, '''')
                  | None \<Rightarrow> (case own of Some (verdicts, local) \<Rightarrow> (verdicts, local) | None \<Rightarrow> (None, ''''))) of
              (ctor_map, ctor_prefix) \<Rightarrow>
                list_ex (\<lambda>meth.
                    info_hit args
                      (case ctor_map of
                         None \<Rightarrow> None
                       | Some fs \<Rightarrow> map_of fs (if ctor_prefix \<noteq> '''' then ctor_prefix @ [dot] @ meth else meth))
                      (arg_offset + 1))
                  CONSTRUCTOR_METHODS))"

definition candidate_mutates :: "mutation_candidate \<Rightarrow> modname list \<Rightarrow> verdict_map \<Rightarrow> bool" where
  "candidate_mutates c names fm =
     mutated_arg_reaches (mc_callee c) (mc_arg_offset c) (mc_imported_args c) names fm"

definition callee_resolves_unsafe :: "modname \<Rightarrow> modname list \<Rightarrow> verdict_map \<Rightarrow> bool" where
  "callee_resolves_unsafe callee names fm =
     (case lookup_callee names fm callee of None \<Rightarrow> False | Some info \<Rightarrow> \<not> is_safe (verdict info))"

fun is_function_site :: "mutation_candidate_site \<Rightarrow> bool" where
  "is_function_site (SiteFunction name) = True"
| "is_function_site (SiteModuleScope call) = False"

text \<open>The two phases; the errors at module scope come in the order of the candidates.\<close>

definition apply_mutation_candidates ::
  "(modname \<times> mutation_candidate list) list \<Rightarrow> modname list \<Rightarrow> verdict_map \<Rightarrow>
     verdict_map \<times> (modname \<times> string \<times> text_range) list" where
  "apply_mutation_candidates modules names fm =
     (let pairs = concat (map (\<lambda>(module, cs). map (\<lambda>c. (module, c)) cs) modules);
          confirmed = map (\<lambda>(_, c). candidate_mutates c names fm) pairs;
          (fm1, errs) = foldl (\<lambda>st (p, _). apply_confirmed_candidate p st) (fm, [])
                          (filter snd (zip pairs confirmed));
          discharges = map (\<lambda>((_, c), conf). \<not> conf \<and> is_function_site (mc_site c) \<and>
                               \<not> callee_resolves_unsafe (mc_callee c) names fm1) (zip pairs confirmed);
          fm2 = foldl (\<lambda>fm (p, _). discharge_candidate p fm) fm1 (filter snd (zip pairs discharges))
      in (fm2, errs))"

section \<open>Promotion\<close>

datatype resolved_callee = Qualified modname string | Unqualified string

record promotion_candidate =
  pr_module :: modname
  pr_name :: string
  pr_base_verdict :: function_safety
  pr_callees :: "resolved_callee list"

datatype name_search = Intern | ProbeStr

definition resolve_callee :: "string \<Rightarrow> (modname \<times> string) option \<Rightarrow> resolved_callee" where
  "resolve_callee func_name split =
     (case split of
        Some (module, local) \<Rightarrow> Qualified module local
      | None \<Rightarrow> Unqualified func_name)"

definition collect_promotion_candidates ::
  "modname list \<Rightarrow> verdict_map \<Rightarrow> (string \<Rightarrow> resolved_callee) \<Rightarrow> promotion_candidate list" where
  "collect_promotion_candidates names fm split =
     concat (map (\<lambda>(module, functions).
         map (\<lambda>(name, info).
             \<lparr>pr_module = module, pr_name = name,
              pr_base_verdict = without (verdict info) UnsafeMissingDep,
              pr_callees = map split (missing_dep_callees info)\<rparr>)
           (filter (\<lambda>(name, info). has (verdict info) UnsafeMissingDep \<and>
                \<not> has (verdict info) Unsafe \<and> missing_dep_callees info \<noteq> []) functions))
       (filter (\<lambda>(module, _). module \<in> set names) fm))"

definition maybe_non_blocking_verdict :: "function_safety \<Rightarrow> function_safety option" where
  "maybe_non_blocking_verdict v = (if v = Safe \<or> v = UnsafeIfImported then Some v else None)"

definition resolve_callee_verdict ::
  "resolved_callee \<Rightarrow> verdict_map \<Rightarrow> string set \<Rightarrow> string set \<Rightarrow> function_safety option" where
  "resolve_callee_verdict callee fm globally_safe globally_if_imported =
     (case callee of
        Qualified module local \<Rightarrow>
          (case get_function_safety fm module local of
             None \<Rightarrow> None
           | Some info \<Rightarrow> maybe_non_blocking_verdict (verdict info))
      | Unqualified name \<Rightarrow>
          if name \<in> globally_safe then Some Safe
          else if name \<in> globally_if_imported then Some UnsafeIfImported
          else None)"

text \<open>The loop over the callees, left with \<open>None\<close> at the first one that blocks.\<close>

fun target_verdict ::
  "verdict_map \<Rightarrow> string set \<Rightarrow> string set \<Rightarrow> function_safety \<Rightarrow> resolved_callee list \<Rightarrow>
     function_safety option" where
  "target_verdict fm gs gi target [] = Some target"
| "target_verdict fm gs gi target (c # cs) =
     (case resolve_callee_verdict c fm gs gi of
        None \<Rightarrow> None
      | Some v \<Rightarrow> target_verdict fm gs gi (insert_concern target v) cs)"

record promotion_state =
  ps_functions :: verdict_map
  ps_globally_safe :: "string set"
  ps_globally_if_imported :: "string set"
  ps_promoted :: "(modname \<times> string) list"

text \<open>The functions of the merged modules with a demanded name and a given verdict.\<close>

definition name_index ::
  "modname list \<Rightarrow> verdict_map \<Rightarrow> string set \<Rightarrow> function_safety \<Rightarrow> string set" where
  "name_index names fm needed v =
     set (concat (map (\<lambda>(module, functions).
         if module \<in> set names
         then map fst (filter (\<lambda>(name, info). name \<in> needed \<and> verdict info = v) functions)
         else []) fm))"

text \<open>The frozen phase of a round; a candidate is paired with its flag in \<open>promoted_flags\<close>.\<close>

definition round_target ::
  "promotion_state \<Rightarrow> bool \<times> promotion_candidate \<Rightarrow> function_safety option" where
  "round_target st p =
     (case p of (flag, c) \<Rightarrow>
        if flag then None
        else target_verdict (ps_functions st) (ps_globally_safe st) (ps_globally_if_imported st)
               (pr_base_verdict c) (pr_callees c))"

definition to_promote ::
  "promotion_state \<Rightarrow> (bool \<times> promotion_candidate) list \<Rightarrow> (promotion_candidate \<times> function_safety) list" where
  "to_promote st ps =
     concat (map (\<lambda>p. case round_target st p of None \<Rightarrow> [] | Some t \<Rightarrow> [(snd p, t)]) ps)"

definition mark_promoted ::
  "promotion_state \<Rightarrow> (bool \<times> promotion_candidate) list \<Rightarrow> (bool \<times> promotion_candidate) list" where
  "mark_promoted st ps = map (\<lambda>p. (fst p \<or> round_target st p \<noteq> None, snd p)) ps"

text \<open>The apply phase, for one candidate.\<close>

definition apply_promotion ::
  "string set \<Rightarrow> promotion_state \<Rightarrow> promotion_candidate \<times> function_safety \<Rightarrow> promotion_state" where
  "apply_promotion needed st ct =
     (case ct of (c, target) \<Rightarrow>
        (case get_function_safety (ps_functions st) (pr_module c) (pr_name c) of
           None \<Rightarrow> st
         | Some info \<Rightarrow>
             (let st1 = st\<lparr>ps_functions :=
                    modify_function (pr_module c) (pr_name c) (\<lambda>i. i\<lparr>verdict := target\<rparr>) (ps_functions st)\<rparr>;
                  st2 = (if pr_name c \<notin> needed then st1
                         else if is_safe target
                           then st1\<lparr>ps_globally_safe := insert (pr_name c) (ps_globally_safe st1)\<rparr>
                         else if target = UnsafeIfImported
                           then st1\<lparr>ps_globally_if_imported :=
                                  insert (pr_name c) (ps_globally_if_imported st1)\<rparr>
                         else st1)
              in st2\<lparr>ps_promoted := ps_promoted st2 @ [(pr_module c, pr_name c)]\<rparr>)))"

lemma to_promote_marks:
  assumes "to_promote st ps \<noteq> []"
  shows "length (filter (\<lambda>p. \<not> fst p) (mark_promoted st ps)) < length (filter (\<lambda>p. \<not> fst p) ps)"
proof -
  have le: "length (filter (\<lambda>p. \<not> fst p) (mark_promoted st qs)) \<le> length (filter (\<lambda>p. \<not> fst p) qs)" for qs
    by (induction qs) (auto simp: mark_promoted_def)
  show ?thesis
    using assms
  proof (induction ps)
    case (Cons p ps)
    show ?case
    proof (cases "round_target st p")
      case None
      with Cons show ?thesis by (simp add: to_promote_def mark_promoted_def)
    next
      case (Some t)
      then have "\<not> fst p" by (auto simp: round_target_def split: prod.splits if_splits)
      with Some le [of ps] show ?thesis by (simp add: mark_promoted_def)
    qed
  qed (simp add: to_promote_def)
qed

function promote_loop ::
  "string set \<Rightarrow> (bool \<times> promotion_candidate) list \<Rightarrow> promotion_state \<Rightarrow> promotion_state" where
  "promote_loop needed ps st =
     (if to_promote st ps = [] then st
      else promote_loop needed (mark_promoted st ps)
             (foldl (apply_promotion needed) st (to_promote st ps)))"
  by pat_completeness auto
termination
  by (relation "measure (\<lambda>(_, ps, _). length (filter (\<lambda>p. \<not> fst p) ps))") (auto simp: to_promote_marks)

declare promote_loop.simps [simp del]

definition promote_fixpoint ::
  "modname list \<Rightarrow> verdict_map \<Rightarrow> string set \<Rightarrow> name_search \<Rightarrow> promotion_state" where
  "promote_fixpoint names fm needed_unqualified search =
     (let candidates = collect_promotion_candidates names fm (\<lambda>name.
            resolve_callee name (case search of
              Intern \<Rightarrow> enclosing_module name (\<lambda>m. m \<in> set names)
            | ProbeStr \<Rightarrow> enclosing_module_str name (\<lambda>m. m \<in> set names)));
          needed = needed_unqualified \<union>
            set (concat (map (\<lambda>callee. case callee of Unqualified name \<Rightarrow> [name] | Qualified _ _ \<Rightarrow> [])
              (concat (map pr_callees candidates))))
      in promote_loop needed (map (\<lambda>c. (False, c)) candidates)
           \<lparr>ps_functions = fm, ps_globally_safe = name_index names fm needed Safe,
            ps_globally_if_imported = name_index names fm needed UnsafeIfImported,
            ps_promoted = []\<rparr>)"

text \<open>All phases: the verdicts, the outcome, and the errors at module scope.\<close>

definition resolve_program ::
  "modname list \<Rightarrow> verdict_map \<Rightarrow> (modname \<times> mutation_candidate list) list \<Rightarrow> string set \<Rightarrow>
     name_search \<Rightarrow> promotion_state \<times> (modname \<times> string \<times> text_range) list" where
  "resolve_program names fm candidates needed_unqualified search =
     (let (fm1, errs) = apply_mutation_candidates candidates names fm;
          needed = needed_unqualified \<union>
            set (concat (map (\<lambda>(_, metadata, _).
               case unqualified_index_key metadata of None \<Rightarrow> [] | Some name \<Rightarrow> [name]) errs))
      in (promote_fixpoint names fm1 needed search, errs))"

end
