(* ===== verification/Implicit_Imports.thy ===== *)
theory Implicit_Imports
  imports Project_Info Import_Graph Resolution
begin

text \<open>
  Imports that code relies on without an import statement of its own, and imports kept for their
  side effects (\<open>src/project/implicit_imports.rs\<close>). Hash sets are lists in any order; \<open>amap_get\<close> is
  empty for a scope without an entry, as the code's defaults are.
\<close>

section \<open>Side-effect imports\<close>

definition compute_side_effect_imports :: "analysis_map \<Rightarrow> (modname \<times> modname list) list" where
  "compute_side_effect_imports am =
     map (\<lambda>(m, v). (m, filter (\<lambda>i. i \<notin> set (all_called_import_names (module_effects v)) \<and>
         i \<in> set (eager_imports (module_effects v))) (amap_get (pending_imports (module_effects v)) m))) am"

section \<open>What a name loads\<close>

definition collect_parent_module_imports :: "analysis_map \<Rightarrow> modname \<Rightarrow> modname list" where
  "collect_parent_module_imports am cur =
     (case map_of am cur of
        None \<Rightarrow> []
      | Some v \<Rightarrow> filter (\<lambda>i. i \<in> set (amap_get (called_imports (module_effects v)) cur))
          (amap_get (pending_imports (module_effects v)) cur))"

definition collect_imports_in_function_module :: "analysis_map \<Rightarrow> modname \<Rightarrow> modname list" where
  "collect_imports_in_function_module am cur =
     (case find_first (\<lambda>(parent, _). contains_key am parent) (iter_parents cur) of
        None \<Rightarrow> []
      | Some (parent, _) \<Rightarrow>
          (let e = module_effects (the (map_of am parent));
               module_level = amap_get (pending_imports e) parent;
               fun_pending = amap_get (pending_imports e) cur
           in filter (\<lambda>i. i \<in> set fun_pending \<or> i \<in> set module_level) (amap_get (called_imports e) cur) @
              fun_pending))"

definition is_called_attribute_loaded :: "import_graph \<Rightarrow> modname list \<Rightarrow> modname \<Rightarrow> bool" where
  "is_called_attribute_loaded g all_pending cur =
     (if ig_contains g cur then False
      else list_ex (\<lambda>(parent, _). parent \<in> set all_pending) (iter_parents cur))"

definition fill_import_as_map ::
  "modname \<Rightarrow> modname list \<Rightarrow> module_imports_map \<Rightarrow> module_imports_map \<Rightarrow> module_imports_map" where
  "fill_import_as_map pending_module top_level pending import_as =
     foldl (\<lambda>acc i.
        let key = append_str pending_module i;
            acc' = smap_insert key key acc
        in case amap_get pending i of
             [] \<Rightarrow> acc'
           | loaded # _ \<Rightarrow> smap_insert key loaded acc') import_as top_level"

definition collect_called_function_imports :: "analysis_map \<Rightarrow> modname \<Rightarrow> modname list" where
  "collect_called_function_imports am m =
     (case map_of am m of
        None \<Rightarrow> []
      | Some v \<Rightarrow>
          (let e = module_effects v in
           snd (foldl (\<lambda>(pending, loaded) f.
               let pending' = pending @ amap_get (pending_imports e) f
               in (pending', loaded @ filter (\<lambda>i. i \<in> set pending') (amap_get (called_imports e) f)))
             (amap_get (pending_imports e) m, []) (called_functions e))))"

text \<open>Per module, what the functions its own scope calls load.\<close>

definition additional_for :: "analysis_map \<Rightarrow> modname \<Rightarrow> analyzed_module \<Rightarrow> modname list" where
  "additional_for am m v =
     (let e = module_effects v in
      concat (map (collect_imports_in_function_module am)
        (filter (\<lambda>i. i \<notin> set (amap_get (pending_imports e) m) \<and> i \<in> set (called_functions e))
          (amap_get (called_imports e) m))))"

definition compute_additional_called_imports :: "analysis_map \<Rightarrow> module_imports_map" where
  "compute_additional_called_imports am =
     filter (\<lambda>(_, additional). additional \<noteq> []) (map (\<lambda>(m, v). (m, additional_for am m v)) am)"

definition build_init_module_map :: "analysis_map \<Rightarrow> (modname \<times> modname) list" where
  "build_init_module_map am =
     collect_map (List.map_filter (\<lambda>(m, _). map_option (\<lambda>base. (base, m)) (strip_suffix ''/__init__'' m)) am)"

definition PYTHON_STARTUP_SUBMODULES :: "modname list" where
  "PYTHON_STARTUP_SUBMODULES = [''encodings.aliases'', ''encodings.utf_8'', ''os.path'']"

definition scope_imports_module :: "module_effects \<Rightarrow> modname \<Rightarrow> modname \<Rightarrow> bool" where
  "scope_imports_module e sc m \<longleftrightarrow>
     list_ex (\<lambda>imports. m \<in> set (amap_get imports sc)) [pending_imports e, aliased_imports e]"

section \<open>Implicit imports of a module\<close>

record import_context =
  ic_analysis_map :: analysis_map
  ic_additional :: module_imports_map
  ic_init_module_map :: "(modname \<times> modname) list"
  ic_import_graph :: import_graph

definition source_module :: "import_context \<Rightarrow> modname \<Rightarrow> modname" where
  "source_module ctx m = (case map_of (ic_init_module_map ctx) m of Some m' \<Rightarrow> m' | None \<Rightarrow> m)"

definition pending_of :: "import_context \<Rightarrow> modname \<Rightarrow> module_imports_map" where
  "pending_of ctx m =
     (case map_of (ic_analysis_map ctx) m of None \<Rightarrow> [] | Some v \<Rightarrow> pending_imports (module_effects v))"

text \<open>One import of a scope: what it makes non-implicit, and whether it is unresolved.\<close>

definition resolve_called_import ::
  "import_context \<Rightarrow> modname \<Rightarrow> module_effects \<Rightarrow> modname list \<Rightarrow> module_imports_map \<Rightarrow>
     modname \<Rightarrow> modname \<Rightarrow> modname list \<times> bool \<Rightarrow> modname list \<times> bool" where
  "resolve_called_import ctx m e called_in_imported import_as sc i st =
     (case st of (non_implicit, unresolved) \<Rightarrow>
        if scope_imports_module e m i \<or> scope_imports_module e sc i then
          (non_implicit @ i # collect_parent_module_imports (ic_analysis_map ctx) i, unresolved)
        else if i \<in> set (called_functions e) then
          (non_implicit @ i # collect_imports_in_function_module (ic_analysis_map ctx) i, unresolved)
        else if i \<in> set called_in_imported then (non_implicit @ [i], True)
        else
          (non_implicit @
             (if is_called_attribute_loaded (ic_import_graph ctx) (all_pending_import_names e) i
              then [i] else []) @ amap_get import_as i, True))"

definition compute_implicit_imports_for_module :: "import_context \<Rightarrow> modname \<Rightarrow> modname list option" where
  "compute_implicit_imports_for_module ctx m =
     (case map_of (ic_analysis_map ctx) m of
        None \<Rightarrow> None
      | Some v \<Rightarrow>
          (let e = module_effects v; all_pending = all_pending_import_names e;
               called_in_imported = concat (map (\<lambda>q. amap_get (ic_additional ctx) (source_module ctx q)) all_pending);
               import_as = foldl (\<lambda>acc q. fill_import_as_map q
                   (amap_get (pending_of ctx (source_module ctx q)) (source_module ctx q))
                   (pending_of ctx (source_module ctx q)) acc) [] all_pending;
               all_called_fn = concat (map (\<lambda>q.
                   collect_called_function_imports (ic_analysis_map ctx) (source_module ctx q)) all_pending);
               (non_implicit, unresolved) =
                 foldl (\<lambda>st (sc, i). resolve_called_import ctx m e called_in_imported import_as sc i st) ([], False)
                   (concat (map (\<lambda>(sc, imps). map (Pair sc) imps) (called_imports e)));
               non_implicit' = (if unresolved then non_implicit @ all_called_fn else non_implicit)
           in Some (filter (\<lambda>i. i \<notin> set non_implicit' \<and> i \<notin> set PYTHON_STARTUP_SUBMODULES)
                (concat (map snd (called_imports e))))))"

definition new_import_context :: "analysis_map \<Rightarrow> import_graph \<Rightarrow> import_context" where
  "new_import_context am g =
     \<lparr>ic_analysis_map = am, ic_additional = compute_additional_called_imports am,
      ic_init_module_map = build_init_module_map am, ic_import_graph = g\<rparr>"

text \<open>The map with the imports added; a panic of the \<open>unwrap\<close> would be \<open>None\<close>.\<close>

definition compute_implicit_imports :: "analysis_map \<Rightarrow> import_graph \<Rightarrow> analysis_map option" where
  "compute_implicit_imports am g =
     (let ctx = new_import_context am g;
          found = map (\<lambda>(m, _). (m, compute_implicit_imports_for_module ctx m)) am
      in if list_ex (\<lambda>(_, r). r = None) found then None
         else Some (map (\<lambda>(m, v). (m, v\<lparr>implicit_import_set :=
                small_extend (implicit_import_set v)
                  (case map_of found m of Some (Some imps) \<Rightarrow> imps | _ \<Rightarrow> [])\<rparr>)) am))"

section \<open>What the loops compute\<close>

text \<open>
  \<open>loaded\<close> says why an import counts as loaded: a statement for it in the module's or the using
  scope, a call of an imported function, an import called inside an imported module, an attribute of
  an imported package, an alias of an imported module, and, once any use is unresolved, whatever the
  functions the imported modules call load. The reasons are stated over the tables of the modules, none
  by a helper of the code.
\<close>

definition used_in :: "module_effects \<Rightarrow> modname \<Rightarrow> modname \<Rightarrow> bool" where
  "used_in e sc i \<longleftrightarrow> (\<exists>imps. (sc, imps) \<in> set (called_imports e) \<and> i \<in> set imps)"

text \<open>A table of imports lists a name under a scope.\<close>

definition listed :: "module_imports_map \<Rightarrow> modname \<Rightarrow> modname \<Rightarrow> bool" where
  "listed table sc i \<longleftrightarrow> (\<exists>imps. map_of table sc = Some imps \<and> i \<in> set imps)"

text \<open>An import statement in the scope names the module, directly or through an alias.\<close>

definition stated :: "module_effects \<Rightarrow> modname \<Rightarrow> modname \<Rightarrow> bool" where
  "stated e sc i \<longleftrightarrow> listed (pending_imports e) sc i \<or> listed (aliased_imports e) sc i"

definition has_statement :: "module_effects \<Rightarrow> modname \<Rightarrow> modname \<Rightarrow> modname \<Rightarrow> bool" where
  "has_statement e m sc i \<longleftrightarrow> stated e m i \<or> stated e sc i"

text \<open>What running a module loads: its own imports that its own scope uses.\<close>

definition module_loads :: "analysis_map \<Rightarrow> modname \<Rightarrow> modname \<Rightarrow> bool" where
  "module_loads am m x \<longleftrightarrow>
     (\<exists>v. map_of am m = Some v \<and> listed (pending_imports (module_effects v)) m x \<and>
        listed (called_imports (module_effects v)) m x)"

text \<open>The analyzed module that holds a function: the deepest that its name lies in.\<close>

definition home_of :: "analysis_map \<Rightarrow> modname \<Rightarrow> modname \<Rightarrow> analyzed_module \<Rightarrow> bool" where
  "home_of am f p v \<longleftrightarrow>
     is_ancestor_of p f \<and> map_of am p = Some v \<and>
     (\<forall>p'. is_ancestor_of p' f \<and> map_of am p' \<noteq> None \<longrightarrow> p' = p \<or> is_ancestor_of p' p)"

text \<open>What calling a function loads: its own imports, and those of its module that it uses.\<close>

definition function_loads :: "analysis_map \<Rightarrow> modname \<Rightarrow> modname \<Rightarrow> bool" where
  "function_loads am f x \<longleftrightarrow>
     (\<exists>p v. home_of am f p v \<and>
        (listed (pending_imports (module_effects v)) f x \<or>
         listed (called_imports (module_effects v)) f x \<and> listed (pending_imports (module_effects v)) p x))"

text \<open>The record of an imported package may be under the name of its \<open>__init__\<close>.\<close>

definition record_of :: "analysis_map \<Rightarrow> modname \<Rightarrow> modname" where
  "record_of am q = (if q @ ''/__init__'' \<in> fst ` set am then q @ ''/__init__'' else q)"

text \<open>What the functions that a module's own scope calls without an import statement load.\<close>

definition calls_load :: "analysis_map \<Rightarrow> modname \<Rightarrow> modname \<Rightarrow> bool" where
  "calls_load am s x \<longleftrightarrow>
     (\<exists>v f. map_of am s = Some v \<and> listed (called_imports (module_effects v)) s f \<and>
        \<not> listed (pending_imports (module_effects v)) s f \<and> f \<in> set (called_functions (module_effects v)) \<and>
        function_loads am f x)"

text \<open>
  What the called functions of a module load: the imports they use, as far as the module or a function
  that comes no later imports them. This one reason depends on the order of a hash set, as the code does.
\<close>

definition functions_load :: "analysis_map \<Rightarrow> modname \<Rightarrow> modname \<Rightarrow> bool" where
  "functions_load am s x \<longleftrightarrow>
     (\<exists>v fs f fs'. map_of am s = Some v \<and> called_functions (module_effects v) = fs @ f # fs' \<and>
        listed (called_imports (module_effects v)) f x \<and>
        (listed (pending_imports (module_effects v)) s x \<or>
         (\<exists>f'\<in>set (fs @ [f]). listed (pending_imports (module_effects v)) f' x)))"

definition unresolved_use :: "module_effects \<Rightarrow> modname \<Rightarrow> modname \<Rightarrow> bool" where
  "unresolved_use e m i \<longleftrightarrow>
     (\<exists>sc. used_in e sc i \<and> \<not> has_statement e m sc i) \<and> i \<notin> set (called_functions e)"

definition called_by_imported :: "analysis_map \<Rightarrow> module_effects \<Rightarrow> modname \<Rightarrow> bool" where
  "called_by_imported am e i \<longleftrightarrow> (\<exists>q\<in>set (all_pending_import_names e). calls_load am (record_of am q) i)"

text \<open>A name that is no module, below an imported module, is an attribute of it.\<close>

definition attribute_of_import :: "import_graph \<Rightarrow> module_effects \<Rightarrow> modname \<Rightarrow> bool" where
  "attribute_of_import g e i \<longleftrightarrow>
     i \<notin> set (ig_modules g) \<and> (\<exists>q\<in>set (all_pending_import_names e). is_ancestor_of q i)"

text \<open>
  \<open>q.j\<close> for an import \<open>j\<close> of an imported module \<open>q\<close>; where \<open>j\<close> is the name of an \<open>import as\<close>, its
  table has the one module behind it.
\<close>

definition alias_of :: "analysis_map \<Rightarrow> module_effects \<Rightarrow> modname \<Rightarrow> modname \<Rightarrow> bool" where
  "alias_of am e i x \<longleftrightarrow>
     (\<exists>q\<in>set (all_pending_import_names e). \<exists>v j. map_of am (record_of am q) = Some v \<and>
        listed (pending_imports (module_effects v)) (record_of am q) j \<and> i = append_str q j \<and>
        (x = i \<or> (\<exists>rest. map_of (pending_imports (module_effects v)) j = Some (x # rest))))"

inductive loaded :: "analysis_map \<Rightarrow> import_graph \<Rightarrow> modname \<Rightarrow> module_effects \<Rightarrow> modname \<Rightarrow> bool" for am g m e where
  by_statement: "used_in e sc i \<Longrightarrow> has_statement e m sc i \<Longrightarrow> x = i \<or> module_loads am i x \<Longrightarrow>
    loaded am g m e x"
| by_call: "used_in e sc i \<Longrightarrow> \<not> has_statement e m sc i \<Longrightarrow> i \<in> set (called_functions e) \<Longrightarrow>
    x = i \<or> function_loads am i x \<Longrightarrow> loaded am g m e x"
| by_imported: "unresolved_use e m i \<Longrightarrow> called_by_imported am e i \<Longrightarrow> loaded am g m e i"
| by_attribute: "unresolved_use e m i \<Longrightarrow> \<not> called_by_imported am e i \<Longrightarrow> attribute_of_import g e i \<Longrightarrow>
    loaded am g m e i"
| by_alias: "unresolved_use e m i \<Longrightarrow> \<not> called_by_imported am e i \<Longrightarrow> alias_of am e i x \<Longrightarrow> loaded am g m e x"
| by_functions: "unresolved_use e m i \<Longrightarrow> q \<in> set (all_pending_import_names e) \<Longrightarrow>
    functions_load am (record_of am q) x \<Longrightarrow> loaded am g m e x"

subsection \<open>The helpers compute the reasons\<close>

lemma listed_iff: "listed table sc i \<longleftrightarrow> i \<in> set (amap_get table sc)"
  by (cases "map_of table sc") (auto simp: listed_def amap_get_def)

lemma scope_imports_iff: "scope_imports_module e sc i \<longleftrightarrow> stated e sc i"
  by (simp add: scope_imports_module_def stated_def listed_iff)

lemma collect_parent_iff: "x \<in> set (collect_parent_module_imports am m) \<longleftrightarrow> module_loads am m x"
  by (cases "map_of am m") (auto simp: collect_parent_module_imports_def module_loads_def listed_iff)

lemma home_of_unique: "home_of am f p v \<Longrightarrow> home_of am f p' v' \<Longrightarrow> p = p' \<and> v = v'"
  unfolding home_of_def using is_ancestor_of_trans is_ancestor_of_irrefl
  by (metis option.distinct(1) option.inject)

lemma home_found:
  assumes "find_first (\<lambda>(parent, _). contains_key am parent) (iter_parents f) = Some (p, n)"
  shows "home_of am f p (the (map_of am p))"
proof -
  obtain us vs where split: "iter_parents f = us @ (p, n) # vs" "contains_key am p"
      "\<forall>u\<in>set us. \<not> contains_key am (fst u)"
    using find_first_split [OF assms] by (auto simp: case_prod_unfold)
  have "p' = p \<or> is_ancestor_of p' p" if p': "is_ancestor_of p' f" "map_of am p' \<noteq> None" for p'
  proof -
    have "p' \<in> fst ` set (us @ (p, n) # vs)" using p'(1) by (simp only: ancestor_in_parents split(1))
    moreover have "p' \<notin> fst ` set us" using p'(2) split(3) by (auto simp: contains_key_def)
    ultimately have "p' = p \<or> p' \<in> fst ` set vs" by auto
    moreover have "sorted_wrt (\<lambda>a b. is_ancestor_of (fst b) (fst a)) (us @ (p, n) # vs)"
      using iter_parents_nearest_first [of f] by (simp only: split(1))
    ultimately show ?thesis by (auto simp: sorted_wrt_append)
  qed
  moreover have "is_ancestor_of p f" unfolding ancestor_in_parents split(1) by simp
  ultimately show ?thesis using split(2) by (auto simp: home_of_def contains_key_def)
qed

lemma function_module_iff: "x \<in> set (collect_imports_in_function_module am f) \<longleftrightarrow> function_loads am f x"
proof (cases "find_first (\<lambda>(parent, _). contains_key am parent) (iter_parents f)")
  case None
  then have "\<not> home_of am f p v" for p v
    unfolding find_first_None_iff home_of_def ancestor_in_parents by (auto simp: contains_key_def)
  with None show ?thesis by (simp add: collect_imports_in_function_module_def function_loads_def)
next
  case (Some pn)
  obtain p n where pn: "pn = (p, n)" by (cases pn)
  have home: "home_of am f p (the (map_of am p))" using home_found Some unfolding pn by blast
  have "function_loads am f x \<longleftrightarrow>
      (let e = module_effects (the (map_of am p)) in
       listed (pending_imports e) f x \<or> listed (called_imports e) f x \<and> listed (pending_imports e) p x)"
    unfolding function_loads_def Let_def using home home_of_unique by blast
  with Some show ?thesis
    by (auto simp: collect_imports_in_function_module_def pn Let_def listed_iff)
qed

lemma attribute_iff:
  "is_called_attribute_loaded g (all_pending_import_names e) i \<longleftrightarrow> attribute_of_import g e i"
proof -
  have "list_ex (\<lambda>(parent, _). parent \<in> S) (iter_parents i) \<longleftrightarrow> (\<exists>q\<in>S. is_ancestor_of q i)" for S
    unfolding ancestor_in_parents by (force simp: list_ex_iff)
  then show ?thesis by (simp add: is_called_attribute_loaded_def attribute_of_import_def ig_contains_def)
qed



lemma map_of_collect_map: "map_of (collect_map ps) = map_of (rev ps)"
proof -
  have "map_of (foldl (\<lambda>m (k, v). AList.update k v m) m ps) = map_of m ++ map_of (rev ps)" for m
    by (induction ps arbitrary: m) (auto simp: update_conv')
  from this [of "[]"] show ?thesis by (simp add: collect_map_def)
qed

lemma strip_suffix_iff: "strip_suffix suf s = Some b \<longleftrightarrow> s = b @ suf"
  by (auto simp: strip_suffix_def) (metis append_take_drop_id)

lemma source_module_iff:
  assumes "ic_init_module_map ctx = build_init_module_map am"
  shows "source_module ctx q = record_of am q"
proof -
  let ?ps = "List.map_filter (\<lambda>(m, _). map_option (\<lambda>base. (base, m)) (strip_suffix ''/__init__'' m)) am"
  have "(b, m) \<in> set ?ps \<longleftrightarrow> m = b @ ''/__init__'' \<and> m \<in> fst ` set am" for b m
    unfolding set_map_filter by (force simp: strip_suffix_iff)
  then have pairs: "(b, m) \<in> set (rev ?ps) \<longleftrightarrow> m = b @ ''/__init__'' \<and> m \<in> fst ` set am" for b m
    by simp
  have lookup: "map_of (build_init_module_map am) q = map_of (rev ?ps) q"
    by (simp add: build_init_module_map_def map_of_collect_map)
  show ?thesis
  proof (cases "map_of (rev ?ps) q")
    case None
    then have "q @ ''/__init__'' \<notin> fst ` set am"
      using pairs [of q "q @ ''/__init__''"] by (force simp: map_of_eq_None_iff)
    with None show ?thesis by (simp add: source_module_def assms lookup record_of_def)
  next
    case (Some m)
    from map_of_SomeD [OF this] have "m = q @ ''/__init__''" "m \<in> fst ` set am" unfolding pairs by blast+
    with Some show ?thesis by (simp add: source_module_def assms lookup record_of_def)
  qed
qed

lemma additional_iff:
  assumes "distinct (map fst am)"
  shows "x \<in> set (amap_get (compute_additional_called_imports am) s) \<longleftrightarrow> calls_load am s x"
proof -
  let ?add = "map (\<lambda>(m, v). (m, additional_for am m v)) am"
  have keys: "map fst ?add = map fst am" by (simp add: comp_def case_prod_unfold)
  have "distinct (map fst (filter (\<lambda>(_, additional). additional \<noteq> []) ?add))"
    by (rule distinct_map_filter) (simp only: keys assms)
  note entry = map_of_eq_Some_iff [OF this]
  have "x \<in> set (amap_get (compute_additional_called_imports am) s) \<longleftrightarrow>
      (\<exists>xs. (s, xs) \<in> set (filter (\<lambda>(_, additional). additional \<noteq> []) ?add) \<and> x \<in> set xs)"
    unfolding compute_additional_called_imports_def listed_iff [symmetric] listed_def entry ..
  also have "\<dots> \<longleftrightarrow> (\<exists>v. (s, v) \<in> set am \<and> x \<in> set (additional_for am s v))"
    by fastforce
  also have "\<dots> \<longleftrightarrow> (\<exists>v. map_of am s = Some v \<and> x \<in> set (additional_for am s v))"
    by (simp only: map_of_eq_Some_iff [OF assms])
  also have "\<dots> \<longleftrightarrow> calls_load am s x"
    by (auto simp: calls_load_def additional_for_def Let_def listed_iff function_module_iff)
  finally show ?thesis .
qed

text \<open>The loop over the called functions, with the imports pending so far.\<close>

lemma called_functions_loop:
  "x \<in> set (snd (foldl (\<lambda>(pending, loaded) f.
        let pending' = pending @ P f in (pending', loaded @ filter (\<lambda>i. i \<in> set pending') (C f))) (pend, acc) fs)) \<longleftrightarrow>
     x \<in> set acc \<or> (\<exists>us f vs. fs = us @ f # vs \<and> x \<in> set (C f) \<and>
       (x \<in> set pend \<or> (\<exists>f'\<in>set (us @ [f]). x \<in> set (P f'))))"
proof (induction fs arbitrary: pend acc)
  case (Cons g fs)
  have split: "(\<exists>us f vs. g # fs = us @ f # vs \<and> Q us f) \<longleftrightarrow>
      Q [] g \<or> (\<exists>us f vs. fs = us @ f # vs \<and> Q (g # us) f)" for Q
    by (auto simp: Cons_eq_append_conv)
  show ?case
    unfolding foldl_Cons prod.case Let_def Cons.IH [unfolded Let_def] split by auto
qed simp

lemma called_function_iff: "x \<in> set (collect_called_function_imports am s) \<longleftrightarrow> functions_load am s x"
proof (cases "map_of am s")
  case None
  then show ?thesis by (simp add: collect_called_function_imports_def functions_load_def)
next
  case (Some v)
  have "x \<in> set (collect_called_function_imports am s) \<longleftrightarrow>
      (\<exists>us f vs. called_functions (module_effects v) = us @ f # vs \<and>
         x \<in> set (amap_get (called_imports (module_effects v)) f) \<and>
         (x \<in> set (amap_get (pending_imports (module_effects v)) s) \<or>
          (\<exists>f'\<in>set (us @ [f]). x \<in> set (amap_get (pending_imports (module_effects v)) f'))))"
    unfolding collect_called_function_imports_def Some option.case Let_def
    using called_functions_loop [unfolded Let_def, where acc = "[]"] by simp
  then show ?thesis unfolding functions_load_def listed_iff Some by blast
qed

lemma alias_iff:
  assumes "ic_init_module_map ctx = build_init_module_map am" "ic_analysis_map ctx = am"
  shows "(\<exists>q\<in>set (all_pending_import_names e). \<exists>j.
        j \<in> set (amap_get (pending_of ctx (source_module ctx q)) (source_module ctx q)) \<and>
        i = append_str q j \<and>
        (x = i \<or> (\<exists>rest. amap_get (pending_of ctx (source_module ctx q)) j = x # rest))) \<longleftrightarrow>
    alias_of am e i x"
  unfolding alias_of_def source_module_iff [OF assms(1)]
proof (intro bex_cong refl)
  fix q
  have head: "amap_get table j = x # rest \<longleftrightarrow> map_of table j = Some (x # rest)" for table :: module_imports_map and j rest
    by (cases "map_of table j") (auto simp: amap_get_def)
  show "(\<exists>j. j \<in> set (amap_get (pending_of ctx (record_of am q)) (record_of am q)) \<and> i = append_str q j \<and>
        (x = i \<or> (\<exists>rest. amap_get (pending_of ctx (record_of am q)) j = x # rest))) \<longleftrightarrow>
      (\<exists>v j. map_of am (record_of am q) = Some v \<and>
        listed (pending_imports (module_effects v)) (record_of am q) j \<and> i = append_str q j \<and>
        (x = i \<or> (\<exists>rest. map_of (pending_imports (module_effects v)) j = Some (x # rest))))"
    by (cases "map_of am (record_of am q)") (auto simp: pending_of_def assms(2) listed_iff head)
qed

subsection \<open>The loops compute the set\<close>

lemma fill_import_as_get:
  "x \<in> set (amap_get (fill_import_as_map q top_level pending acc) i) \<longleftrightarrow>
     x \<in> set (amap_get acc i) \<or>
     (\<exists>j\<in>set top_level. i = append_str q j \<and> (x = i \<or> (\<exists>rest. amap_get pending j = x # rest)))"
proof (induction top_level arbitrary: acc)
  case (Cons j top_level)
  have "fill_import_as_map q (j # top_level) pending acc =
      fill_import_as_map q top_level pending
        (case amap_get pending j of [] \<Rightarrow> smap_insert (append_str q j) (append_str q j) acc
         | l # _ \<Rightarrow> smap_insert (append_str q j) l (smap_insert (append_str q j) (append_str q j) acc))"
    by (simp add: fill_import_as_map_def Let_def)
  then show ?case by (auto simp: Cons.IH split: list.splits if_splits)
qed (simp add: fill_import_as_map_def)

lemma import_as_get:
  "x \<in> set (amap_get (foldl (\<lambda>acc q. fill_import_as_map q (tops q) (pend q) acc) acc qs) i) \<longleftrightarrow>
     x \<in> set (amap_get acc i) \<or>
     (\<exists>q\<in>set qs. \<exists>j\<in>set (tops q). i = append_str q j \<and> (x = i \<or> (\<exists>rest. amap_get (pend q) j = x # rest)))"
  by (induction qs arbitrary: acc) (auto simp: fill_import_as_get)

text \<open>The loop over the uses: each adds what it adds alone, and the flag is a disjunction.\<close>

lemma resolve_uses:
  fixes uses :: "(modname \<times> modname) list" and ctx :: import_context and m :: modname
    and e :: module_effects and cii :: "modname list" and ias :: module_imports_map
  defines "f \<equiv> \<lambda>st (sc, i). resolve_called_import ctx m e cii ias sc i st"
  shows "set (fst (foldl f st uses)) = set (fst st) \<union> (\<Union>u\<in>set uses. set (fst (f ([], False) u)))"
    and "snd (foldl f st uses) \<longleftrightarrow> snd st \<or> (\<exists>u\<in>set uses. snd (f ([], False) u))"
proof -
  have step: "set (fst (f st u)) = set (fst st) \<union> set (fst (f ([], False) u))"
    "snd (f st u) \<longleftrightarrow> snd st \<or> snd (f ([], False) u)" for st u
    by (auto simp: f_def resolve_called_import_def split: prod.split)
  show "set (fst (foldl f st uses)) = set (fst st) \<union> (\<Union>u\<in>set uses. set (fst (f ([], False) u)))"
  proof (induction uses arbitrary: st)
    case (Cons u uses)
    show ?case using step(1) [of st u] by (simp add: Cons.IH Un_assoc)
  qed simp
  show "snd (foldl f st uses) \<longleftrightarrow> snd st \<or> (\<exists>u\<in>set uses. snd (f ([], False) u))"
  proof (induction uses arbitrary: st)
    case (Cons u uses)
    show ?case using step(2) [of st u] by (simp add: Cons.IH disj_assoc)
  qed simp
qed

lemma implicit_for_module:
  assumes ctx: "ctx = new_import_context am g" and distinct: "distinct (map fst am)" and m: "map_of am m = Some v"
  shows "\<exists>imps. compute_implicit_imports_for_module ctx m = Some imps \<and>
    set imps = {x. (\<exists>sc. used_in (module_effects v) sc x) \<and> x \<notin> set PYTHON_STARTUP_SUBMODULES \<and>
       \<not> loaded am g m (module_effects v) x}"
proof -
  have fields: "ic_analysis_map ctx = am" "ic_import_graph ctx = g"
      "ic_additional ctx = compute_additional_called_imports am"
      "ic_init_module_map ctx = build_init_module_map am"
    by (simp_all add: ctx new_import_context_def)
  note source = source_module_iff [OF fields(4)]
  define e where "e = module_effects v"
  define cii where "cii = concat (map (\<lambda>q. amap_get (ic_additional ctx) (source_module ctx q)) (all_pending_import_names e))"
  define ias where "ias = foldl (\<lambda>acc q. fill_import_as_map q
                   (amap_get (pending_of ctx (source_module ctx q)) (source_module ctx q))
                   (pending_of ctx (source_module ctx q)) acc) [] (all_pending_import_names e)"
  define fns where "fns = concat (map (\<lambda>q.
       collect_called_function_imports am (source_module ctx q)) (all_pending_import_names e))"
  define f where "f = (\<lambda>st (sc, i). resolve_called_import ctx m e cii ias sc i st)"
  define uses where "uses = concat (map (\<lambda>(sc, imps). map (Pair sc) imps) (called_imports e))"
  define r where "r = foldl f ([], False) uses"
  let ?imps = "filter (\<lambda>i. i \<notin> set (if snd r then fst r @ fns else fst r) \<and> i \<notin> set PYTHON_STARTUP_SUBMODULES)
      (concat (map snd (called_imports e)))"
  have run: "compute_implicit_imports_for_module ctx m = Some ?imps"
    unfolding compute_implicit_imports_for_module_def fields(1) m option.case Let_def e_def [symmetric]
      cii_def [symmetric] ias_def [symmetric] fns_def [symmetric] f_def [symmetric] uses_def [symmetric]
      r_def [symmetric]
    by (simp add: case_prod_beta)
  have uses: "(sc, i) \<in> set uses \<longleftrightarrow> used_in e sc i" for sc i
    by (auto simp: uses_def used_in_def)
  have cii: "i \<in> set cii \<longleftrightarrow> called_by_imported am e i" for i
    by (auto simp: cii_def called_by_imported_def fields source additional_iff [OF distinct])
  have ias: "x \<in> set (amap_get ias i) \<longleftrightarrow> alias_of am e i x" for x i
    unfolding ias_def import_as_get alias_iff [OF fields(4,1), symmetric] by (auto simp: amap_get_def)
  have one: "x \<in> set (fst (f ([], False) (sc, i))) \<longleftrightarrow>
      (if has_statement e m sc i then x = i \<or> module_loads am i x
       else if i \<in> set (called_functions e) then x = i \<or> function_loads am i x
       else if called_by_imported am e i then x = i
       else x = i \<and> attribute_of_import g e i \<or> alias_of am e i x)" for x sc i
    by (simp add: f_def resolve_called_import_def has_statement_def cii ias fields scope_imports_iff
        collect_parent_iff function_module_iff attribute_iff)
  have flag: "snd (f ([], False) (sc, i)) \<longleftrightarrow> \<not> has_statement e m sc i \<and> i \<notin> set (called_functions e)" for sc i
    by (simp add: f_def resolve_called_import_def has_statement_def scope_imports_iff)
  have loop: "set (fst r) = (\<Union>u\<in>set uses. set (fst (f ([], False) u)))"
    "snd r \<longleftrightarrow> (\<exists>u\<in>set uses. snd (f ([], False) u))"
    using resolve_uses [of ctx m e cii ias "([], False)" uses] by (simp_all add: r_def f_def)
  have ex: "(\<exists>u\<in>set uses. P u) \<longleftrightarrow> (\<exists>sc i. used_in e sc i \<and> P (sc, i))" for P
    using uses by fast
  have snd_r: "snd r \<longleftrightarrow> (\<exists>i. unresolved_use e m i)"
    unfolding loop(2) ex flag unresolved_use_def by auto
  have fst_r: "x \<in> set (fst r) \<longleftrightarrow> (\<exists>sc i. used_in e sc i \<and> x \<in> set (fst (f ([], False) (sc, i))))" for x
    unfolding loop(1) using ex [of "\<lambda>u. x \<in> set (fst (f ([], False) u))"] by simp
  have fns: "x \<in> set fns \<longleftrightarrow> (\<exists>q\<in>set (all_pending_import_names e).
      functions_load am (record_of am q) x)" for x
    by (auto simp: fns_def fields source called_function_iff)
  have loaded: "x \<in> set (if snd r then fst r @ fns else fst r) \<longleftrightarrow> loaded am g m e x" for x
  proof -
    have "x \<in> set (if snd r then fst r @ fns else fst r) \<longleftrightarrow>
        x \<in> set (fst r) \<or> (\<exists>i. unresolved_use e m i) \<and> x \<in> set fns"
      using snd_r by auto
    also have "\<dots> \<longleftrightarrow> loaded am g m e x"
    proof
      assume "x \<in> set (fst r) \<or> (\<exists>i. unresolved_use e m i) \<and> x \<in> set fns"
      then show "loaded am g m e x"
      proof
        assume "x \<in> set (fst r)"
        then obtain sc i where u: "used_in e sc i" and x: "x \<in> set (fst (f ([], False) (sc, i)))"
          unfolding fst_r by blast
        consider "has_statement e m sc i" | "\<not> has_statement e m sc i" "i \<in> set (called_functions e)"
          | "unresolved_use e m i" "\<not> has_statement e m sc i" "i \<notin> set (called_functions e)"
          using u unfolding unresolved_use_def by blast
        then show ?thesis
        proof cases
          case 1
          with x show ?thesis unfolding one by (auto intro: by_statement [OF u])
        next
          case 2
          with x show ?thesis unfolding one by (auto intro: by_call [OF u])
        next
          case 3
          with x show ?thesis
            unfolding one by (cases "called_by_imported am e i")
              (auto intro: by_imported [OF 3(1)] by_attribute [OF 3(1)] by_alias [OF 3(1)])
        qed
      qed (auto simp: fns intro: by_functions)
    next
      assume "loaded am g m e x"
      then show "x \<in> set (fst r) \<or> (\<exists>i. unresolved_use e m i) \<and> x \<in> set fns"
      proof cases
        case (by_statement sc i)
        then show ?thesis unfolding fst_r one by auto
      next
        case (by_call sc i)
        then show ?thesis unfolding fst_r one by auto
      next
        case (by_functions i q)
        then show ?thesis unfolding fns by blast
      qed (auto simp: fst_r one unresolved_use_def)
    qed
    finally show ?thesis .
  qed
  have called: "x \<in> set (concat (map snd (called_imports e))) \<longleftrightarrow> (\<exists>sc. used_in e sc x)" for x
    by (force simp: used_in_def)
  show ?thesis
    using run loaded called by (auto simp: e_def [symmetric])
qed

text \<open>C30: The implicit imports of a module are exactly the imports its scopes use that nothing loads:
  not a name Python loads at startup, and none of the six reasons of loaded applies. The loops with
  their accumulators compute that set whatever the order of the hash maps, and every module of the
  analysis map gets its own, next to what it had.\<close>

theorem compute_implicit_imports_exact:
  assumes "distinct (map fst am)"
  shows "\<exists>am'. compute_implicit_imports am g = Some am' \<and> map fst am' = map fst am \<and>
    (\<forall>(m, v)\<in>set am. \<exists>v'. map_of am' m = Some v' \<and>
       module_effects v' = module_effects v \<and>
       set (implicit_import_set v') = set (implicit_import_set v) \<union>
         {x. (\<exists>sc. used_in (module_effects v) sc x) \<and> x \<notin> set PYTHON_STARTUP_SUBMODULES \<and>
            \<not> loaded am g m (module_effects v) x})"
proof -
  let ?ctx = "new_import_context am g"
  have each: "\<exists>imps. compute_implicit_imports_for_module ?ctx m = Some imps \<and>
      set imps = {x. (\<exists>sc. used_in (module_effects v) sc x) \<and> x \<notin> set PYTHON_STARTUP_SUBMODULES \<and>
            \<not> loaded am g m (module_effects v) x}" if "(m, v) \<in> set am" for m v
    using implicit_for_module [OF refl assms map_of_is_SomeI [OF assms that]] by simp
  let ?found = "map (\<lambda>(m, _). (m, compute_implicit_imports_for_module ?ctx m)) am"
  let ?imps = "\<lambda>m. case map_of ?found m of Some (Some imps) \<Rightarrow> imps | _ \<Rightarrow> []"
  let ?am' = "map (\<lambda>(m, v). (m, v\<lparr>implicit_import_set := small_extend (implicit_import_set v) (?imps m)\<rparr>)) am"
  have "\<not> list_ex (\<lambda>(_, r). r = None) ?found" using each by (fastforce simp: list_ex_iff)
  then have run: "compute_implicit_imports am g = Some ?am'" by (simp add: compute_implicit_imports_def Let_def)
  have found: "map_of ?found m = Some (compute_implicit_imports_for_module ?ctx m)" if "(m, v) \<in> set am" for m v
    by (rule map_of_is_SomeI) (use assms that in \<open>auto simp: comp_def case_prod_unfold intro!: image_eqI\<close>)
  have fst': "map fst ?am' = map fst am" by (simp add: comp_def case_prod_unfold)
  have "\<exists>v'. map_of ?am' m = Some v' \<and> module_effects v' = module_effects v \<and>
       set (implicit_import_set v') = set (implicit_import_set v) \<union>
         {x. (\<exists>sc. used_in (module_effects v) sc x) \<and> x \<notin> set PYTHON_STARTUP_SUBMODULES \<and>
            \<not> loaded am g m (module_effects v) x}" if mv: "(m, v) \<in> set am" for m v
  proof -
    have "map_of ?am' m = Some (v\<lparr>implicit_import_set := small_extend (implicit_import_set v) (?imps m)\<rparr>)"
    proof (rule map_of_is_SomeI)
      show "distinct (map fst ?am')" unfolding fst' by (rule assms)
    qed (use mv in \<open>auto intro!: image_eqI [of _ _ "(m, v)"]\<close>)
    with each [OF mv] found [OF mv] show ?thesis by auto
  qed
  with run fst' show ?thesis by blast
qed

definition implicit_sample :: analysis_map where
  "implicit_sample =
     [(''m'', \<lparr>module_effects = new_module_effects
         \<lparr>called_imports := [(''m.f'', [''a.b'', ''c'', ''os.path''])],
          pending_imports := [(''m'', [''a'', ''c''])], all_pending_import_names := [''a'', ''c'']\<rparr>,
        definitions = \<lparr>eager_scopes = [''m''], enclosing_functions = [], param_names = []\<rparr>,
        classes = [], implicit_import_set = []\<rparr>)]"

definition implicit_sample_graph :: import_graph where
  "implicit_sample_graph =
     \<lparr>ig_modules = [''m'', ''a'', ''a.b'', ''c''], ig_imports = \<lambda>_. [], ig_importers = \<lambda>_. [],
      ig_missing = \<lambda>_. None, ig_ambiguous = \<lambda>_. None\<rparr>"

lemma compute_implicit_imports_exact_witness:
  "(\<exists>am'. compute_implicit_imports implicit_sample implicit_sample_graph = Some am' \<and>
     map fst am' = map fst implicit_sample \<and>
     (\<forall>(m, v)\<in>set implicit_sample. \<exists>v'. map_of am' m = Some v' \<and>
        module_effects v' = module_effects v \<and>
        set (implicit_import_set v') = set (implicit_import_set v) \<union>
          {x. (\<exists>sc. used_in (module_effects v) sc x) \<and> x \<notin> set PYTHON_STARTUP_SUBMODULES \<and>
             \<not> loaded implicit_sample implicit_sample_graph m (module_effects v) x})) \<and>
   map_option (map (\<lambda>(m, v). (m, implicit_import_set v)))
     (compute_implicit_imports implicit_sample implicit_sample_graph) = Some [(''m'', [''a.b''])]"
proof
  show "map_option (map (\<lambda>(m, v). (m, implicit_import_set v)))
     (compute_implicit_imports implicit_sample implicit_sample_graph) = Some [(''m'', [''a.b''])]"
    by code_simp
qed (rule compute_implicit_imports_exact, simp add: implicit_sample_def)

end
