(* ===== verification/Project_Safety.thy ===== *)
theory Project_Safety
  imports Call_Order Implicit_Imports
begin

text \<open>
  From the verdicts of callables to the results of modules (\<open>src/project/safety.rs\<close> and the
  orchestration of \<open>src/project/analysis.rs\<close>): the diagnostics of the eager scopes, the resolution
  of a whole program, the projection of the verdicts into the modules and the output. The analyzed
  modules come from the source analyzer, which is not modelled: the analysis map is the input. The
  modules run in parallel in the code; the model takes them in the order of a list.
\<close>

datatype execution_mode = Incremental | WholeProgram

section \<open>Diagnostics of an eager scope\<close>

text \<open>The call of an effect at module scope.\<close>

definition scope_call :: "modname \<Rightarrow> modname \<Rightarrow> effect \<Rightarrow> call" where
  "scope_call m scope_name eff =
     \<lparr>caller_module = m, call_effect = eff, func = eff_name eff, stack = [scope_name], is_module_scope = True\<rparr>"

definition is_property_access :: "project_info \<Rightarrow> effect \<Rightarrow> bool" where
  "is_property_access p eff =
     (case split_attr (eff_name eff) of
        None \<Rightarrow> False
      | Some (typ, attr) \<Rightarrow>
          (case map_of (pi_classes p) typ of
             None \<Rightarrow> False
           | Some cls \<Rightarrow> get_field cls attr = Some Property))"

definition check_scope_effect ::
  "project_info \<Rightarrow> execution_mode \<Rightarrow> modname \<Rightarrow> modname \<Rightarrow> effect \<Rightarrow> analysis_state \<Rightarrow> bool run" where
  "check_scope_effect p mode m scope_name eff st =
     (let check = check_call_safety p (check_call_body (body_fuel p) p) True (scope_call m scope_name eff) in
      case from_effect eff of
        Some err \<Rightarrow> Some (Inr True, add_error_to_module m err st)
      | None \<Rightarrow>
          if is_runnable (eff_kind eff) then
            check (case split_attr (eff_name eff) of
                     None \<Rightarrow> st
                   | Some (class, _) \<Rightarrow>
                       if eff_kind eff = ClassCreation
                       then add_subclass_candidate_to_module m
                              \<lparr>sc_class = class, sc_range = eff_range eff,
                               sc_from_main_guard = eff_from_main_guard eff\<rparr> st
                       else st)
          else if eff_kind eff = ImportedTypeAttr then
            (if is_property_access p eff then check st else Some (Inr True, st))
          else if eff_kind eff = UnconfirmedTypeAttr then
            Some (Inr True,
              if mode = Incremental
              then add_property_candidate_to_module m
                     \<lparr>pc_attribute = eff_name eff, pc_range = eff_range eff,
                      pc_from_main_guard = eff_from_main_guard eff\<rparr> st
              else st)
          else if eff_kind eff = ImportedVarMutation then
            Some (Inr True, add_error_to_module m (new_from_effect ImportedModuleAssignment eff) st)
          else Some (Inr True, st))"

text \<open>The booleans of the checks are dropped; an error leaves the scope, and the module's scopes.\<close>

definition collect_errors_from_scope ::
  "project_info \<Rightarrow> execution_mode \<Rightarrow> modname \<Rightarrow> modname \<Rightarrow> analysis_state \<Rightarrow> bool run" where
  "collect_errors_from_scope p mode m scope_name st =
     (case table_get (pi_effect_table p) scope_name of
        None \<Rightarrow> Some (Inr True, st)
      | Some effs \<Rightarrow> all_checks (check_scope_effect p mode m scope_name) effs True st)"

section \<open>A module\<close>

fun join_with :: "string \<Rightarrow> string list \<Rightarrow> string" where
  "join_with sep [] = []"
| "join_with sep [x] = x"
| "join_with sep (x # y # xs) = x @ sep @ join_with sep (y # xs)"

fun add_overrides :: "modname \<Rightarrow> safety_error list \<Rightarrow> analysis_state \<Rightarrow> analysis_state option" where
  "add_overrides m [] st = Some st"
| "add_overrides m (e # es) st =
     (case add_force_imports_eager_override_to_module m e st of
        None \<Rightarrow> None
      | Some st' \<Rightarrow> add_overrides m es st')"

definition eager_loading_errors :: "analyzed_module \<Rightarrow> safety_error list" where
  "eager_loading_errors result =
     concat (map (\<lambda>(_, effs). List.map_filter (\<lambda>e.
         case error_kind_for (eff_kind e) of
           None \<Rightarrow> None
         | Some kind \<Rightarrow> if requires_eager_loading_imports kind then Some (new_from_effect kind e) else None)
       effs) (effects (module_effects result))) @
     (case names_only_in_stub (module_effects result) of
        None \<Rightarrow> []
      | Some (names, r) \<Rightarrow> [new_error NamesOnlyInStub (join_with '', '' names) r])"

definition check_load_imports_eagerly ::
  "modname \<Rightarrow> analyzed_module \<Rightarrow> analysis_state \<Rightarrow> analysis_state option" where
  "check_load_imports_eagerly m result st = add_overrides m (eager_loading_errors result) st"

definition collect_implicit_imports :: "modname \<Rightarrow> analyzed_module \<Rightarrow> analysis_state \<Rightarrow> analysis_state" where
  "collect_implicit_imports m result st = add_implicit_imports_to_module m (implicit_import_set result) st"

text \<open>One turn of the parallel loop; \<open>render\<close> is the text of an error.\<close>

definition collect_errors_from_module ::
  "project_info \<Rightarrow> (call_error \<Rightarrow> string) \<Rightarrow> execution_mode \<Rightarrow> modname \<times> analyzed_module \<Rightarrow>
     analysis_state \<Rightarrow> analysis_state option" where
  "collect_errors_from_module p render mode mv st =
     (case mv of (m, result) \<Rightarrow>
        case all_checks (collect_errors_from_scope p mode m) (eager_scopes (definitions result)) True st of
          None \<Rightarrow> None
        | Some (Inl e, st') \<Rightarrow> Some (set_analysis_error m (render e) st')
        | Some (Inr _, st') \<Rightarrow>
            map_option (collect_implicit_imports m result) (check_load_imports_eagerly m result st'))"

fun collect_errors_from_modules ::
  "project_info \<Rightarrow> (call_error \<Rightarrow> string) \<Rightarrow> execution_mode \<Rightarrow> (modname \<times> analyzed_module) list \<Rightarrow>
     analysis_state \<Rightarrow> analysis_state option" where
  "collect_errors_from_modules p render mode [] st = Some st"
| "collect_errors_from_modules p render mode (mv # mvs) st =
     (case collect_errors_from_module p render mode mv st of
        None \<Rightarrow> None
      | Some st' \<Rightarrow> collect_errors_from_modules p render mode mvs st')"

section \<open>Whole-program resolution\<close>

definition add_to_view :: "modname \<Rightarrow> string \<Rightarrow> function_safety_info \<Rightarrow> verdict_map \<Rightarrow> verdict_map" where
  "add_to_view module local info fm =
     AList.update module
       (AList.update local info (case map_of fm module of None \<Rightarrow> [] | Some fs \<Rightarrow> fs)) fm"

definition verdict_view :: "project_info \<Rightarrow> analysis_state \<Rightarrow> verdict_map" where
  "verdict_view p st =
     foldl (\<lambda>fm (fqn, info).
        case resolve_enclosing_module fqn (contains_key (analysis_map p)) of
          None \<Rightarrow> fm
        | Some (module, local) \<Rightarrow> add_to_view module local info fm) [] (verdicts st)"

definition candidate_sites :: "(modname \<times> mutation_candidate list) list \<Rightarrow> (modname \<times> string) list" where
  "candidate_sites candidates =
     concat (map (\<lambda>(module, cs). List.map_filter (\<lambda>c.
         case mc_site c of SiteFunction name \<Rightarrow> Some (module, name) | SiteModuleScope _ \<Rightarrow> None) cs)
       candidates)"

definition write_back :: "verdict_map \<Rightarrow> modname \<times> string \<Rightarrow> analysis_state \<Rightarrow> analysis_state" where
  "write_back view change st =
     (case change of (module, local) \<Rightarrow>
        let fqn = append_str module local in
        case (verdict_of st fqn, get_function_safety view module local) of
          (Some entry, Some info) \<Rightarrow> set_function_safety fqn (entry\<lparr>verdict := verdict info\<rparr>) st
        | _ \<Rightarrow> st)"

text \<open>The assertion that no module-scope mutation is confirmed here is the panic.\<close>

definition resolve_whole_program ::
  "(string \<Rightarrow> string \<Rightarrow> ordering) \<Rightarrow> project_info \<Rightarrow> import_graph \<Rightarrow> analysis_state \<Rightarrow>
     analysis_state option" where
  "resolve_whole_program mcmp p g st =
     (let candidates = collect_mutation_candidates mcmp p g;
          (outcome, confirmed) =
            resolve_program (map fst (analysis_map p)) (verdict_view p st) candidates {} Intern;
          changed = remdups (candidate_sites candidates @ ps_promoted outcome)
      in if confirmed \<noteq> [] then None
         else Some (foldl (\<lambda>st c. write_back (ps_functions outcome) c st) st changed))"

section \<open>The results of the modules\<close>

definition finalize_entry ::
  "project_info \<Rightarrow> (modname \<Rightarrow> bool) \<Rightarrow> safety_map \<Rightarrow> modname \<times> function_safety_info \<Rightarrow> safety_map" where
  "finalize_entry p is_module sm fv =
     (case fv of (fqn, info) \<Rightarrow>
        case enclosing_module_str fqn is_module of
          None \<Rightarrow> sm
        | Some (module, local) \<Rightarrow>
            (case map_of sm module of
               Some (SafetyOk ms) \<Rightarrow>
                 AList.update module
                   (SafetyOk (ms\<lparr>function_safety := AList.update local
                      (case resolve_cached_mutated_params_for p fqn of
                         Some mutated \<Rightarrow> info\<lparr>mutated_params := mutated\<rparr>
                       | None \<Rightarrow> info) (function_safety ms)\<rparr>)) sm
             | _ \<Rightarrow> sm))"

definition finalize_safety_map :: "project_info \<Rightarrow> execution_mode \<Rightarrow> analysis_state \<Rightarrow> safety_map" where
  "finalize_safety_map p mode st =
     (if mode = Incremental
      then foldl (finalize_entry p (contains_key (safety_map st))) (safety_map st) (verdicts st)
      else safety_map st)"

definition apply_subclass_registrations ::
  "project_info \<Rightarrow> import_graph \<Rightarrow> safety_map \<Rightarrow> safety_map" where
  "apply_subclass_registrations p g sm =
     (let walked = foldl (\<lambda>w (m, r). case as_safety r of
              None \<Rightarrow> w
            | Some s \<Rightarrow> fst (record_walks m (force_imports_eager_overrides s) w)) [] sm
      in if walked = [] then sm
         else map (\<lambda>(m, r). (m, case r of
              AnalysisError e \<Rightarrow> AnalysisError e
            | SafetyOk s \<Rightarrow> SafetyOk (s\<lparr>subclass_candidates := [],
                errors := errors s @ registration_errors walked m (subclass_candidates s) (class_bases p)
                  (\<lambda>walker imported. imported \<in> set (ig_imports g walker))\<rparr>))) sm)"

definition set_mutation_candidates ::
  "(modname \<times> mutation_candidate list) list \<Rightarrow> safety_map \<Rightarrow> safety_map" where
  "set_mutation_candidates candidates sm =
     foldl (\<lambda>sm (m, cs).
        case map_of sm m of
          Some (SafetyOk s) \<Rightarrow> AList.update m (SafetyOk (s\<lparr>mutation_candidates := cs\<rparr>)) sm
        | _ \<Rightarrow> sm) sm candidates"

definition collect_errors_from_project ::
  "(string \<Rightarrow> string \<Rightarrow> ordering) \<Rightarrow> (call_error \<Rightarrow> string) \<Rightarrow> project_info \<Rightarrow> execution_mode \<Rightarrow>
     import_graph \<Rightarrow> safety_map option" where
  "collect_errors_from_project mcmp render p mode g =
     (case compute_verdicts p (new_analysis_state (analysis_map p)) of
        None \<Rightarrow> None
      | Some st \<Rightarrow>
          (case (if mode = WholeProgram then resolve_whole_program mcmp p g st else Some st) of
             None \<Rightarrow> None
           | Some st1 \<Rightarrow>
               (case collect_errors_from_modules p render mode (analysis_map p) st1 of
                  None \<Rightarrow> None
                | Some st2 \<Rightarrow>
                    (let sm = finalize_safety_map p mode st2
                     in Some (if mode = WholeProgram then apply_subclass_registrations p g sm
                              else set_mutation_candidates (collect_mutation_candidates mcmp p g) sm)))))"

section \<open>The output\<close>

definition filter_out_stubs :: "(modname \<Rightarrow> bool) \<Rightarrow> (modname \<Rightarrow> bool) \<Rightarrow> modname list \<Rightarrow> safety_map \<Rightarrow> safety_map" where
  "filter_out_stubs is_stub overrides_source names sm =
     foldl (\<lambda>sm name. if is_stub name \<and> \<not> overrides_source name then AList.delete name sm else sm) sm names"

record analysis_output =
  out_safety_map :: safety_map
  out_side_effect_imports :: "(modname \<times> modname list) list"
  out_class_bases :: "(modname \<times> modname list) list"
  out_constructor_callees :: "(modname \<times> constructor_callees) list"
  out_class_properties :: "(modname \<times> string list) list"

text \<open>What \<open>run_analysis\<close> does with the analyzed modules, once their implicit imports are found.\<close>

definition run_analysis ::
  "(string \<Rightarrow> string \<Rightarrow> ordering) \<Rightarrow> (call_error \<Rightarrow> string) \<Rightarrow> (modname \<Rightarrow> modname option) \<Rightarrow>
     exports \<Rightarrow> import_graph \<Rightarrow> execution_mode \<Rightarrow> (modname \<Rightarrow> bool) \<Rightarrow>
     (modname \<Rightarrow> bool) \<Rightarrow> modname list \<Rightarrow> analysis_map \<Rightarrow> analysis_output option" where
  "run_analysis mcmp render parent exports g mode is_stub overrides_source names am =
     (let info = new_project_info parent exports am in
      case collect_errors_from_project mcmp render info mode g of
        None \<Rightarrow> None
      | Some sm0 \<Rightarrow>
          (let sm = filter_out_stubs is_stub overrides_source names sm0;
               owned = (\<lambda>class. resolve_enclosing_module class (contains_key sm) \<noteq> None)
           in Some \<lparr>out_safety_map = sm, out_side_effect_imports = compute_side_effect_imports am,
                out_class_bases = filter (\<lambda>(class, _). owned class) (base_edges (pi_classes info)),
                out_constructor_callees =
                  filter (\<lambda>(class, _). owned class) (resolved_constructor_callees info),
                out_class_properties = filter (\<lambda>(class, _). owned class) (property_edges (pi_classes info))\<rparr>))"

end
