(* ===== verification/Module_Pass.thy ===== *)
theory Module_Pass
  imports Project_Safety
begin

text \<open>
  The pass over the modules, after the verdicts are complete: it reads verdicts and never writes
  one, and what it records of a module depends on that module only, so the modules can run in any
  order. The pass always returns, and the output has an entry for every module.
\<close>

section \<open>A check at module scope\<close>

definition full :: "project_info \<Rightarrow> analysis_state \<Rightarrow> bool" where
  "full p st \<longleftrightarrow> dom (verdict_of st) = {n. is_definition p n}"

lemma full_resolves: "full p st \<Longrightarrow> can_resolve_call p f st \<longleftrightarrow> contains_callable p f"
  by (auto simp: full_def can_resolve_call_def contains_callable_def contains_key_def)

text \<open>
  Two states with the same verdicts and the same entry for \<open>m\<close>, which differ from where they
  started in that entry only.
\<close>

definition same_at :: "modname \<Rightarrow> analysis_state \<Rightarrow> analysis_state \<Rightarrow> analysis_state \<Rightarrow> analysis_state \<Rightarrow> bool" where
  "same_at m a a' st st' \<longleftrightarrow>
     verdicts st = verdicts a \<and> verdicts st' = verdicts a' \<and> verdict_of a' = verdict_of a \<and>
     map_of (safety_map st') m = map_of (safety_map st) m \<and>
     (\<forall>n. n \<noteq> m \<longrightarrow> map_of (safety_map st) n = map_of (safety_map a) n \<and>
        map_of (safety_map st') n = map_of (safety_map a') n)"

definition same_result :: "modname \<Rightarrow> analysis_state \<Rightarrow> analysis_state \<Rightarrow> bool run \<Rightarrow> bool run \<Rightarrow> bool" where
  "same_result m a a' r r' \<longleftrightarrow> (\<exists>res st st'. r = Some (res, st) \<and> r' = Some (res, st') \<and> same_at m a a' st st')"

lemma same_result_ret [simp]: "same_at m a a' st st' \<Longrightarrow> same_result m a a' (Some (res, st)) (Some (res, st'))"
  by (auto simp: same_result_def)

lemma same_result_bind:
  assumes "same_result m a a' r r'"
    and "\<And>ok st st'. same_at m a a' st st' \<Longrightarrow> same_result m a a' (k ok st) (k' ok st')"
  shows "same_result m a a'
    (case r of None \<Rightarrow> None | Some (Inl e, s) \<Rightarrow> Some (Inl e, s) | Some (Inr ok, s) \<Rightarrow> k ok s)
    (case r' of None \<Rightarrow> None | Some (Inl e, s) \<Rightarrow> Some (Inl e, s) | Some (Inr ok, s) \<Rightarrow> k' ok s)"
  using assms by (auto simp: same_result_def split: sum.split)

lemma same_result_all:
  assumes "\<And>x st st'. same_at m a a' st st' \<Longrightarrow> same_result m a a' (f x st) (f x st')"
  shows "same_at m a a' st st' \<Longrightarrow> same_result m a a' (all_checks f xs ret st) (all_checks f xs ret st')"
proof (induction xs arbitrary: ret st st')
  case (Cons x xs)
  show ?case
    unfolding all_checks.simps
    by (rule same_result_bind [OF assms [OF Cons.prems]]) (rule Cons.IH)
qed simp

lemma same_at_update:
  "same_at m a a' st st' \<Longrightarrow> same_at m a a' (update_module_safety m f st) (update_module_safety m f st')"
  by (simp add: same_at_def update_module_safety_def Let_def update_conv')

lemma same_at_error:
  "same_at m a a' st st' \<Longrightarrow> same_at m a a' (set_analysis_error m e st) (set_analysis_error m e st')"
  by (simp add: same_at_def set_analysis_error_def update_conv')

lemma same_at_full: "full p a \<Longrightarrow> same_at m a a' st st' \<Longrightarrow> full p st \<and> full p st'"
  by (simp add: same_at_def full_def)

lemma same_at_verdict: "same_at m a a' st st' \<Longrightarrow> verdict_of st' f = verdict_of st f"
  by (simp add: same_at_def)

text \<open>A call made for module scope, with every verdict recorded.\<close>

locale module_scope =
  fixes p :: project_info and m :: modname and a a' :: analysis_state
  assumes full: "full p a"
begin

abbreviation same :: "analysis_state \<Rightarrow> analysis_state \<Rightarrow> bool" where
  "same \<equiv> same_at m a a'"

definition for_module :: "call \<Rightarrow> bool" where
  "for_module c \<longleftrightarrow> is_module_scope c \<and> caller_module c = m"

lemma for_module_simps [simp]:
  "for_module (c\<lparr>func := f\<rparr>) = for_module c" "for_module (c\<lparr>call_effect := e\<rparr>) = for_module c"
  by (simp_all add: for_module_def)

lemma body_same:
  assumes c: "for_module c" and st: "same st st'"
  shows "same_result m a a' (body_step p b c st) (body_step p b c st')"
proof (cases "map_of (pi_functions p) (func c)")
  case (Some m')
  let ?s = "\<lambda>st. check_call_params p c st"
  have s: "same (?s st) (?s st')"
    using st c by (simp add: check_call_params_def add_error_to_module_def same_at_update for_module_def)
  have "is_definition p (func c)" using Some by (simp add: is_definition_def contains_key_def)
  then obtain info where "verdict_of (?s st) (func c) = Some info"
    using same_at_full [OF full s] by (auto simp: full_def dom_def)
  with Some s c same_at_verdict [OF s, of "func c"] show ?thesis
    by (simp add: body_step_def Let_def for_module_def)
qed (use st in \<open>simp add: body_step_def\<close>)

lemma constructor_same:
  "for_module c \<Longrightarrow> same st st' \<Longrightarrow>
     same_result m a a' (check_constructor_call p (body_step p b) c st) (check_constructor_call p (body_step p b) c st')"
  unfolding check_constructor_call_def by (rule same_result_all) (simp_all add: body_same)

lemma nested_same:
  "for_module c \<Longrightarrow> same st st' \<Longrightarrow>
     same_result m a a' (check_decorator_nested_functions p (body_step p b) c st)
       (check_decorator_nested_functions p (body_step p b) c st')"
  unfolding check_decorator_nested_functions_def
  by (auto split: option.split intro!: same_result_all body_same)

lemma call_same:
  assumes "for_module c" "same st st'"
  shows "same_result m a a' (check_call p (body_step p b) c st) (check_call p (body_step p b) c st')"
proof (cases "declared_safe (func c)")
  case False
  have head: "same_result m a a'
      (if contains_key (pi_classes p) (func c) then check_constructor_call p (body_step p b) c st else body_step p b c st)
      (if contains_key (pi_classes p) (func c) then check_constructor_call p (body_step p b) c st' else body_step p b c st')"
    using assms by (simp add: constructor_same body_same)
  show ?thesis
    unfolding check_call_def if_not_P [OF False]
    by (rule same_result_bind [OF head]) (auto intro!: same_result_bind nested_same assms(1))
qed (use assms in \<open>simp add: check_call_def\<close>)

lemma resolved_same:
  assumes c: "for_module c" and st: "same st st'"
  shows "same_result m a a' (check_resolved_call p (body_step p b) True nc c st)
    (check_resolved_call p (body_step p b) True nc c st')"
proof -
  have caller: "caller_module c = m" using c by (simp add: for_module_def)
  have res: "can_resolve_call p (func c) st = contains_callable p (func c)"
    "can_resolve_call p (func c) st' = contains_callable p (func c)"
    using same_at_full [OF full st] by (simp_all add: full_resolves)
  show ?thesis
    unfolding check_resolved_call_def res caller
    by (auto intro!: same_result_bind [OF call_same [OF c st]]
        simp: st add_error_to_module_def same_at_update split: sum.split bool.split)
qed

lemma safety_same:
  assumes c: "for_module c" and st: "same st st'"
  shows "same_result m a a' (check_call_safety p (body_step p b) True c st)
    (check_call_safety p (body_step p b) True c st')"
  unfolding check_call_safety_def Let_def
  using c st by (auto intro!: same_result_all resolved_same)

lemma scope_effect_same:
  assumes st: "same st st'"
  shows "same_result m a a' (check_scope_effect p mode m sc e st) (check_scope_effect p mode m sc e st')"
proof -
  have c: "for_module (scope_call m sc e)" by (simp add: for_module_def scope_call_def)
  note updates = add_error_to_module_def add_subclass_candidate_to_module_def add_property_candidate_to_module_def
  show ?thesis
    unfolding check_scope_effect_def Let_def body_unfold
    using st
    by (auto simp: updates same_at_update safety_same [OF c] split: option.split)
qed

lemma scope_same:
  "same st st' \<Longrightarrow>
     same_result m a a' (collect_errors_from_scope p mode m sc st) (collect_errors_from_scope p mode m sc st')"
  unfolding collect_errors_from_scope_def
  by (auto split: option.split intro!: same_result_all scope_effect_same)

lemma overrides_same:
  assumes "list_all (\<lambda>e. requires_eager_loading_imports (err_kind e)) es" "same st st'"
  shows "\<exists>s s'. add_overrides m es st = Some s \<and> add_overrides m es st' = Some s' \<and> same s s'"
  using assms
proof (induction es arbitrary: st st')
  case (Cons e es)
  have e: "map_of (safety_map st') m = map_of (safety_map st) m" using Cons.prems(2) by (simp add: same_at_def)
  have "\<exists>f. \<forall>s. map_of (safety_map s) m = map_of (safety_map st) m \<longrightarrow>
      add_force_imports_eager_override_to_module m e s = Some (update_module_safety m f s)"
    using Cons.prems(1)
    by (cases "case map_of (safety_map st) m of None \<Rightarrow> SafetyOk new_module_safety | Some r \<Rightarrow> r")
      (auto simp: add_force_imports_eager_override_to_module_def add_force_import_override_def)
  then obtain f where "add_force_imports_eager_override_to_module m e st = Some (update_module_safety m f st)"
      "add_force_imports_eager_override_to_module m e st' = Some (update_module_safety m f st')"
    using e by blast
  with Cons.IH [OF _ same_at_update [OF Cons.prems(2), of f]] Cons.prems(1) show ?case by simp
qed simp

lemma eager_loading_kinds:
  "list_all (\<lambda>e. requires_eager_loading_imports (err_kind e)) (eager_loading_errors v)"
proof -
  let ?F = "\<lambda>e. case error_kind_for (eff_kind e) of
           None \<Rightarrow> None
         | Some kind \<Rightarrow> if requires_eager_loading_imports kind then Some (new_from_effect kind e) else None"
  have effs: "requires_eager_loading_imports (err_kind err)" if "?F e = Some err" for e err
    using that by (cases "error_kind_for (eff_kind e)") (auto simp: new_from_effect_def split: if_splits)
  have all: "list_all (\<lambda>e. requires_eager_loading_imports (err_kind e))
      (concat (map (\<lambda>(_, effs). List.map_filter ?F effs) xs))" for xs :: "(modname \<times> effect list) list"
    unfolding list_all_iff
  proof
    fix err assume "err \<in> set (concat (map (\<lambda>(_, effs). List.map_filter ?F effs) xs))"
    then obtain e where "?F e = Some err" by (force simp: set_map_filter)
    then show "requires_eager_loading_imports (err_kind err)" by (rule effs)
  qed
  have stub: "requires_eager_loading_imports (err_kind (new_error NamesOnlyInStub names r))" for names r
    by (simp add: new_error_def requires_eager_loading_imports_def)
  show ?thesis
    unfolding eager_loading_errors_def list_all_append
    by (intro conjI all) (auto simp: stub split: option.split)
qed

lemma module_same:
  assumes st: "same st st'"
  shows "\<exists>s s'. collect_errors_from_module p render mode (m, v) st = Some s \<and>
    collect_errors_from_module p render mode (m, v) st' = Some s' \<and> same s s'"
proof -
  have "same_result m a a'
      (all_checks (collect_errors_from_scope p mode m) (eager_scopes (definitions v)) True st)
      (all_checks (collect_errors_from_scope p mode m) (eager_scopes (definitions v)) True st')"
    by (rule same_result_all [OF scope_same st])
  then obtain r s s' where r:
      "all_checks (collect_errors_from_scope p mode m) (eager_scopes (definitions v)) True st = Some (r, s)"
      "all_checks (collect_errors_from_scope p mode m) (eager_scopes (definitions v)) True st' = Some (r, s')"
      "same s s'"
    by (auto simp: same_result_def)
  from overrides_same [OF eager_loading_kinds r(3), of v] obtain t t' where
    t: "add_overrides m (eager_loading_errors v) s = Some t" "add_overrides m (eager_loading_errors v) s' = Some t'" "same t t'"
    by blast
  show ?thesis
    using r t by (cases r)
      (auto simp: collect_errors_from_module_def check_load_imports_eagerly_def collect_implicit_imports_def
        add_implicit_imports_to_module_def intro: same_at_error same_at_update)
qed

end

text \<open>The state the computation of the verdicts leaves is such a state.\<close>

definition verdict_state :: "project_info \<Rightarrow> analysis_map \<Rightarrow> analysis_state" where
  "verdict_state p am = the (compute_verdicts p (new_analysis_state am))"

lemma verdict_state:
  "compute_verdicts p (new_analysis_state am) = Some (verdict_state p am) \<and> full p (verdict_state p am) \<and>
     verdicts_ok (verdict_state p am) \<and> safety_map (verdict_state p am) = safety_map (new_analysis_state am)"
proof -
  obtain st where st: "compute_verdicts p (new_analysis_state am) = Some st"
      "step_ok p (new_analysis_state am) st" "{n. is_definition p n} \<subseteq> dom (verdict_of st)"
    using compute_verdicts_ok by blast
  have "full p st \<and> verdicts_ok st \<and> safety_map st = safety_map (new_analysis_state am)"
    using st(2,3) by (auto simp: step_ok_def verdicts_ok_def new_analysis_state_def full_def)
  with st(1) show ?thesis by (simp add: verdict_state_def)
qed

interpretation computed: module_scope p m "verdict_state p am" a' for p m am a'
  by unfold_locales (simp add: verdict_state)

section \<open>The modules in any order\<close>

definition module_entry ::
  "project_info \<Rightarrow> (call_error \<Rightarrow> string) \<Rightarrow> execution_mode \<Rightarrow> analysis_state \<Rightarrow>
     modname \<times> analyzed_module \<Rightarrow> safety_result option" where
  "module_entry p render mode st mv =
     map_of (safety_map (the (collect_errors_from_module p render mode mv st))) (fst mv)"

lemma module_step:
  assumes "full p st"
  shows "\<exists>s. collect_errors_from_module p render mode (m, v) st = Some s \<and> verdicts s = verdicts st \<and>
    (\<forall>n. map_of (safety_map s) n =
       (if n = m then module_entry p render mode st (m, v) else map_of (safety_map st) n))"
  using module_scope.module_same [OF module_scope.intro [OF assms], of m st st st render mode v]
  by (auto simp: same_at_def module_entry_def)

lemma module_entry_cong:
  assumes "full p st" "verdict_of st' = verdict_of st" "map_of (safety_map st') m = map_of (safety_map st) m"
  shows "module_entry p render mode st' (m, v) = module_entry p render mode st (m, v)"
  using module_scope.module_same [OF module_scope.intro [OF assms(1)], of m st' st st' render mode v] assms(2,3)
  by (auto simp: same_at_def module_entry_def)

lemma modules_run:
  assumes "full p st" "distinct (map fst mvs)"
  shows "\<exists>s. collect_errors_from_modules p render mode mvs st = Some s \<and> verdicts s = verdicts st \<and>
    (\<forall>n. map_of (safety_map s) n =
       (case map_of mvs n of
          None \<Rightarrow> map_of (safety_map st) n
        | Some v \<Rightarrow> module_entry p render mode st (n, v)))"
  using assms
proof (induction mvs arbitrary: st)
  case (Cons mv mvs)
  obtain m v where mv: "mv = (m, v)" by fastforce
  obtain s where s: "collect_errors_from_module p render mode (m, v) st = Some s" "verdicts s = verdicts st"
      "\<forall>n. map_of (safety_map s) n =
         (if n = m then module_entry p render mode st (m, v) else map_of (safety_map st) n)"
    using module_step [OF Cons.prems(1)] by blast
  have "full p s" using Cons.prems(1) s(2) by (simp add: full_def)
  moreover have "distinct (map fst mvs)" using Cons.prems(2) by simp
  ultimately obtain s' where s': "collect_errors_from_modules p render mode mvs s = Some s'"
      "verdicts s' = verdicts s"
      "\<forall>n. map_of (safety_map s') n = (case map_of mvs n of None \<Rightarrow> map_of (safety_map s) n
          | Some v \<Rightarrow> module_entry p render mode s (n, v))"
    using Cons.IH by blast
  have m: "map_of mvs m = None" using Cons.prems(2) by (simp add: mv map_of_eq_None_iff)
  have "module_entry p render mode s (n, w) = module_entry p render mode st (n, w)" if "n \<noteq> m" for n w
    using module_entry_cong [OF Cons.prems(1), of s n] s(2,3) that by simp
  with s s' m show ?case by (auto simp: mv split: option.split)
qed simp

text \<open>Every module that is run has an entry.\<close>

lemma module_entry_Some:
  assumes "full p st"
  shows "module_entry p render mode st (m, v) \<noteq> None"
proof -
  obtain s where s: "collect_errors_from_module p render mode (m, v) st = Some s"
    using module_step [OF assms] by blast
  then have "map_of (safety_map s) m \<noteq> None"
    by (auto simp: collect_errors_from_module_def set_analysis_error_def collect_implicit_imports_def
        add_implicit_imports_to_module_def update_module_safety_def Let_def update_conv'
        split: option.splits sum.splits)
  with s show ?thesis by (simp add: module_entry_def)
qed

lemma keys_modules:
  assumes "full p st"
  shows "\<exists>s. collect_errors_from_modules p render mode mvs st = Some s \<and> verdicts s = verdicts st \<and>
    dom (map_of (safety_map s)) = dom (map_of (safety_map st)) \<union> fst ` set mvs"
  using assms
proof (induction mvs arbitrary: st)
  case (Cons mv mvs)
  obtain m v where mv: "mv = (m, v)" by fastforce
  obtain s where s: "collect_errors_from_module p render mode (m, v) st = Some s" "verdicts s = verdicts st"
      "\<forall>n. map_of (safety_map s) n =
         (if n = m then module_entry p render mode st (m, v) else map_of (safety_map st) n)"
    using module_step [OF Cons.prems] by blast
  have "full p s" using Cons.prems s(2) by (simp add: full_def)
  with Cons.IH obtain s' where s': "collect_errors_from_modules p render mode mvs s = Some s'"
      "verdicts s' = verdicts s" "dom (map_of (safety_map s')) = dom (map_of (safety_map s)) \<union> fst ` set mvs"
    by blast
  have "dom (map_of (safety_map s)) = insert m (dom (map_of (safety_map st)))"
    using s(3) module_entry_Some [OF Cons.prems, of render mode m v]
    by (simp add: dom_def set_eq_iff del: not_None_eq)
  with s s' show ?case by (simp add: mv)
qed simp

section \<open>The whole program\<close>

text \<open>
  The recorded verdicts carry no mutated parameters, so no candidate is confirmed and the assertion
  of the pass holds.
\<close>

definition unmutated :: "verdict_map \<Rightarrow> bool" where
  "unmutated fm \<longleftrightarrow> (\<forall>m fs n i. map_of fm m = Some fs \<longrightarrow> map_of fs n = Some i \<longrightarrow> mutated_params i = [])"

lemma unmutated_view:
  assumes "verdicts_ok st"
  shows "unmutated (verdict_view p st)"
proof -
  let ?f = "\<lambda>fm (fqn, info). case resolve_enclosing_module fqn (contains_key (analysis_map p)) of
          None \<Rightarrow> fm
        | Some (module, local) \<Rightarrow> add_to_view module local info fm"
  have add: "unmutated (add_to_view module local info fm)" if "unmutated fm" "mutated_params info = []"
    for module local info fm
    using that unfolding unmutated_def add_to_view_def update_conv'
    by (auto simp: update_conv' split: if_splits option.splits)
  have "unmutated (foldl ?f fm fvs)" if "unmutated fm" "\<forall>(f, info)\<in>set fvs. mutated_params info = []" for fm fvs
    using that
  proof (induction fvs arbitrary: fm)
    case (Cons fv fvs)
    have "unmutated (?f fm fv)" using Cons.prems by (cases fv) (auto intro: add split: option.split)
    with Cons show ?case by simp
  qed simp
  moreover have "\<forall>(f, info)\<in>set (verdicts st). mutated_params info = []"
    using assms by (auto simp: verdicts_ok_def info_ok_def)
  moreover have "unmutated []" by (simp add: unmutated_def)
  ultimately show ?thesis unfolding verdict_view_def by blast
qed

lemma view_split_loop_table:
  "view_split_loop names fm name e = Some (Some fs, l) \<Longrightarrow> \<exists>m. map_of fm m = Some fs"
proof (induction names fm name e rule: view_split_loop.induct)
  case (1 names fm name e)
  then show ?case
    by (auto simp: view_split_loop.simps [of names fm name e] view_get_def split: option.splits if_splits)
qed

lemma unmutated_hit:
  "unmutated fm \<Longrightarrow> map_of fm m = Some fs \<Longrightarrow> \<not> info_hit args (map_of fs n) off"
  by (auto simp: unmutated_def info_hit_def hits_any_param_def split: option.split)

lemma unmutated_unreached:
  assumes "unmutated fm"
  shows "\<not> candidate_mutates c names fm"
proof -
  have own: "\<not> info_hit args (map_of fs n) off" if "view_split names fm callee = Some (Some fs, l)"
    for callee fs l args n off
    using that view_split_loop_table unmutated_hit [OF assms] unfolding view_split_def by blast
  have as_module: "\<not> info_hit args (map_of fs n) off" if "view_get names fm callee = Some (Some fs)"
    for callee fs args n off
    using that unmutated_hit [OF assms] by (auto simp: view_get_def split: if_splits)
  have none: "\<not> info_hit args None off" for args off by (simp add: info_hit_def)
  show ?thesis
    unfolding candidate_mutates_def mutated_arg_reaches_def Let_def
    by (auto simp: none own as_module list_ex_iff split: option.split)
qed

lemma whole_program_confirms_none:
  assumes "verdicts_ok st"
  shows "snd (resolve_program names (verdict_view p st) candidates needed search) = []"
proof -
  have "filter snd (zip pairs (map (\<lambda>(_, c). candidate_mutates c names (verdict_view p st)) pairs)) = []"
    for pairs :: "(modname \<times> mutation_candidate) list"
    using unmutated_unreached [OF unmutated_view [OF assms]]
    by (auto simp: filter_empty_conv set_zip case_prod_unfold)
  then show ?thesis
    by (simp add: resolve_program_def apply_mutation_candidates_def Let_def case_prod_unfold)
qed

lemma resolve_whole_program_ok:
  assumes "verdicts_ok st"
  shows "\<exists>st'. resolve_whole_program mcmp p g st = Some st' \<and> dom (verdict_of st') = dom (verdict_of st) \<and>
    safety_map st' = safety_map st"
proof -
  have one: "dom (verdict_of (write_back view c st)) = dom (verdict_of st)"
    "safety_map (write_back view c st) = safety_map st" for view c st
    by (auto simp: write_back_def Let_def split: option.split prod.split)
  have "dom (verdict_of (foldl (\<lambda>st c. write_back view c st) st cs)) = dom (verdict_of st) \<and>
      safety_map (foldl (\<lambda>st c. write_back view c st) st cs) = safety_map st" for view cs st
    by (induction cs arbitrary: st) (simp_all add: one)
  then show ?thesis
    using whole_program_confirms_none [OF assms]
    by (simp add: resolve_whole_program_def Let_def case_prod_unfold)
qed

abbreviation keys :: "safety_map \<Rightarrow> modname set" where
  "keys sm \<equiv> dom (map_of sm)"

lemma finalize_entry_keys: "keys (finalize_entry p P sm fv) = keys sm"
  by (auto simp: finalize_entry_def update_conv' split: prod.split option.split safety_result.split)

lemma finalize_keys: "keys (finalize_safety_map p mode st) = keys (safety_map st)"
proof -
  have "keys (foldl (finalize_entry p P) sm fvs) = keys sm" for P sm fvs
    by (induction fvs arbitrary: sm) (simp_all add: finalize_entry_keys)
  then show ?thesis by (simp add: finalize_safety_map_def)
qed

lemma set_candidates_keys: "keys (set_mutation_candidates cs sm) = keys sm"
proof -
  let ?f = "\<lambda>sm (m, cs). case map_of sm m of
      Some (SafetyOk s) \<Rightarrow> AList.update m (SafetyOk (s\<lparr>mutation_candidates := cs\<rparr>)) sm
    | _ \<Rightarrow> sm"
  have one: "keys (?f sm c) = keys sm" for sm c
    by (auto simp: update_conv' split: prod.split option.split safety_result.split)
  have "keys (foldl ?f sm cs) = keys sm"
  proof (induction cs arbitrary: sm)
    case (Cons c cs)
    show ?case unfolding foldl_Cons Cons.IH one ..
  qed simp
  then show ?thesis unfolding set_mutation_candidates_def .
qed

lemma registrations_keys: "keys (apply_subclass_registrations p g sm) = keys sm"
  by (simp add: apply_subclass_registrations_def Let_def dom_map_of_conv_image_fst image_image case_prod_unfold)

section \<open>Properties\<close>

text \<open>C8: The pass over the modules does not depend on their order. Once every function and class has
  a verdict, running the modules of a project in two orders returns both times, leaves every verdict
  as it was, and records the same result for every module.\<close>

theorem module_pass_order_free:
  assumes "dom (verdict_of st) = {n. is_definition p n}"
    and "distinct (map fst mvs)" "mset mvs' = mset mvs"
  shows "\<exists>s s'. collect_errors_from_modules p render mode mvs st = Some s \<and>
    collect_errors_from_modules p render mode mvs' st = Some s' \<and>
    verdicts s = verdicts st \<and> verdicts s' = verdicts st \<and>
    map_of (safety_map s') = map_of (safety_map s)"
proof -
  have full: "full p st" using assms(1) by (simp add: full_def)
  have "mset (map fst mvs') = mset (map fst mvs)" using assms(3) by (metis mset_map)
  then have dist: "distinct (map fst mvs')" using assms(2) by (metis mset_eq_imp_distinct_iff)
  have same: "map_of mvs' = map_of mvs"
    by (rule map_of_inject_set [THEN iffD2, OF dist assms(2)]) (use assms(3) in \<open>metis set_mset_mset\<close>)
  from modules_run [OF full assms(2), of render mode] modules_run [OF full dist, of render mode]
  show ?thesis by (auto simp: same intro!: ext)
qed

text \<open>C10: The analysis of a project always returns, in both modes: no assertion fires (an override is
  always of a kind that forces eager imports, and the whole-program pass confirms no mutation at
  module scope), no lookup fails and no recursion runs out, and the map that comes back has an entry for every analyzed module and
  for no other.\<close>

theorem collect_errors_returns:
  "\<exists>sm. collect_errors_from_project mcmp render p mode g = Some sm \<and>
     fst ` set sm = fst ` set (analysis_map p)"
proof -
  let ?st = "verdict_state p (analysis_map p)"
  have new: "compute_verdicts p (new_analysis_state (analysis_map p)) = Some ?st" "full p ?st"
    "verdicts_ok ?st" "safety_map ?st = safety_map (new_analysis_state (analysis_map p))"
    using verdict_state [of p "analysis_map p"] by blast+
  have "\<exists>st1. (if mode = WholeProgram then resolve_whole_program mcmp p g ?st else Some ?st) = Some st1 \<and>
      full p st1 \<and> safety_map st1 = safety_map (new_analysis_state (analysis_map p))"
    using new resolve_whole_program_ok [OF new(3), of mcmp p g] by (cases mode) (auto simp: full_def)
  then obtain st1 where st1:
      "(if mode = WholeProgram then resolve_whole_program mcmp p g ?st else Some ?st) = Some st1"
      "full p st1" "safety_map st1 = safety_map (new_analysis_state (analysis_map p))"
    by blast
  obtain s where s: "collect_errors_from_modules p render mode (analysis_map p) st1 = Some s"
      "keys (safety_map s) = keys (safety_map st1) \<union> fst ` set (analysis_map p)"
    using keys_modules [OF st1(2)] by blast
  have "keys (safety_map (new_analysis_state (analysis_map p))) = fst ` set (analysis_map p)"
    by (simp add: new_analysis_state_def dom_map_of_conv_image_fst image_image case_prod_unfold)
  with s(2) st1(3) have "keys (safety_map s) = fst ` set (analysis_map p)" by simp
  then show ?thesis
    using s(1) new(1) st1(1)
    by (simp add: collect_errors_from_project_def Let_def registrations_keys set_candidates_keys finalize_keys
        flip: dom_map_of_conv_image_fst)
qed





section \<open>Witnesses\<close>

definition pass_sample :: analysis_map where
  "pass_sample =
     map (\<lambda>m. (m, \<lparr>module_effects = new_module_effects,
         definitions = \<lparr>eager_scopes = [m], enclosing_functions = [], param_names = []\<rparr>,
         classes = [], implicit_import_set = []\<rparr>)) [''m'', ''n'']"

lemma module_pass_order_free_witness:
  "\<exists>s s'. collect_errors_from_modules order_sample (\<lambda>_. ''error'') Incremental pass_sample
      (verdict_state order_sample []) = Some s \<and>
    collect_errors_from_modules order_sample (\<lambda>_. ''error'') Incremental (rev pass_sample)
      (verdict_state order_sample []) = Some s' \<and>
    verdicts s = verdicts (verdict_state order_sample []) \<and>
    verdicts s' = verdicts (verdict_state order_sample []) \<and>
    map_of (safety_map s') = map_of (safety_map s)"
proof (rule module_pass_order_free)
  show "dom (verdict_of (verdict_state order_sample [])) = {n. is_definition order_sample n}"
    using verdict_state [of order_sample "[]"] by (simp add: full_def)
qed (simp_all add: pass_sample_def)



end
