(* ===== verification/Star_Exports.thy ===== *)
theory Star_Exports
  imports Exports Ordering
begin

text \<open>
  The expansion of \<open>from S import *\<close> into re-exports (\<open>expand_star_re_exports\<close> of \<open>src/exports.rs\<close>):
  passes over the star imports are repeated until nothing changes, since a star can expose names
  that another star bound. A name is bound by the star of highest rank that exposes it, unless the
  module binds it without a star. The parallel scans that index the names of the modules get the
  chunks they work on as arguments.
\<close>

section \<open>Ranks\<close>

datatype star_rank = StarRank (is_primary: bool) (offset: nat)

instantiation star_rank :: linorder
begin

definition less_star_rank :: "star_rank \<Rightarrow> star_rank \<Rightarrow> bool" where
  "less_star_rank a b \<longleftrightarrow>
     is_primary a < is_primary b \<or> is_primary a = is_primary b \<and> offset a < offset b"

definition less_eq_star_rank :: "star_rank \<Rightarrow> star_rank \<Rightarrow> bool" where
  "less_eq_star_rank a b \<longleftrightarrow>
     is_primary a < is_primary b \<or> is_primary a = is_primary b \<and> offset a \<le> offset b"

instance
  by standard (auto simp: less_star_rank_def less_eq_star_rank_def intro: star_rank.expand)

end

definition star_rank_of :: "star_import \<Rightarrow> star_rank" where
  "star_rank_of star = StarRank (\<not> is_fallback star) (fst (star_range star))"

type_synonym star_members = "(modname \<times> (string \<times> star_rank option) list) list"

definition star_bound_names :: "modname \<Rightarrow> (modname \<times> string list) list \<Rightarrow> star_members \<Rightarrow> string list" where
  "star_bound_names source all ms =
     (case map_of all source of
        Some names \<Rightarrow> names
      | None \<Rightarrow>
          (case map_of ms source of
             None \<Rightarrow> []
           | Some names \<Rightarrow> filter (\<lambda>n. take 1 n \<noteq> ''_'') (map fst names)))"

fun star_can_replace :: "star_rank option option \<Rightarrow> star_rank \<Rightarrow> bool" where
  "star_can_replace (Some None) rank \<longleftrightarrow> False"
| "star_can_replace (Some (Some bound)) rank \<longleftrightarrow> bound < rank"
| "star_can_replace None rank \<longleftrightarrow> True"

section \<open>The names a module binds without a star\<close>

definition seed_export_task :: "modname list \<Rightarrow> (modname \<times> export_type) list \<Rightarrow> star_members" where
  "seed_export_task relevant chunk =
     foldl (\<lambda>acc (name, _).
        case split_attr name of
          None \<Rightarrow> acc
        | Some (parent, attr) \<Rightarrow>
            if parent \<in> set relevant then nested_insert parent attr None acc else acc) [] chunk"

definition seed_re_export_task :: "modname list \<Rightarrow> re_export_table \<Rightarrow> star_members" where
  "seed_re_export_task relevant chunk =
     foldl (\<lambda>acc (module, names).
        AList.update module
          (map_extend (case map_of acc module of None \<Rightarrow> [] | Some inner \<Rightarrow> inner)
             (map (\<lambda>(attr, _). (attr, None)) names)) acc)
       [] (filter (\<lambda>(module, _). module \<in> set relevant) chunk)"

definition seed_star_members ::
  "(modname \<times> export_type) list list \<Rightarrow> re_export_table list \<Rightarrow> modname list \<Rightarrow> star_members" where
  "seed_star_members export_chunks re_export_chunks relevant =
     merge_nested_larger
       (foldl merge_nested_larger [] (map (seed_export_task relevant) export_chunks))
       (foldl merge_nested_larger [] (map (seed_re_export_task relevant) re_export_chunks))"

section \<open>The passes\<close>

type_synonym star_state = "re_export_table \<times> star_members \<times> bool"

definition bind_star_name :: "import_graph \<Rightarrow> modname \<times> star_import \<Rightarrow> star_state \<Rightarrow> string \<Rightarrow> star_state" where
  "bind_star_name g edge st n =
     (case (edge, st) of ((m, star), (res, ms, changed)) \<Rightarrow>
        let rank = star_rank_of star; imported = Attribute (star_source star) n in
        if \<not> star_can_replace (nested_get ms m n) rank then (res, ms, changed)
        else if ig_contains g (as_module_name imported) then (res, ms, changed)
        else (nested_insert m n (imported, star_range star) res, nested_insert m n (Some rank) ms, True))"

definition star_edge ::
  "import_graph \<Rightarrow> (modname \<times> string list) list \<Rightarrow> star_state \<Rightarrow> modname \<times> star_import \<Rightarrow> star_state" where
  "star_edge g all st edge =
     foldl (bind_star_name g edge) st (star_bound_names (star_source (snd edge)) all (fst (snd st)))"

definition star_pass ::
  "import_graph \<Rightarrow> (modname \<times> string list) list \<Rightarrow> (modname \<times> star_import) list \<Rightarrow> star_state \<Rightarrow> star_state" where
  "star_pass g all edges st = foldl (star_edge g all) st edges"

partial_function (option) star_loop ::
  "import_graph \<Rightarrow> (modname \<times> string list) list \<Rightarrow> (modname \<times> star_import) list \<Rightarrow>
     re_export_table \<Rightarrow> star_members \<Rightarrow> re_export_table option" where
  "star_loop g all edges res ms =
     (case star_pass g all edges (res, ms, False) of
        (res', ms', changed) \<Rightarrow> if changed then star_loop g all edges res' ms' else Some res')"

declare star_loop.simps [code]

definition star_edge_cmp :: "modname \<times> star_import \<Rightarrow> modname \<times> star_import \<Rightarrow> ordering" where
  "star_edge_cmp a b =
     then_with (then_with (cmp_of (fst a) (fst b))
         (cmp_of (fst (star_range (snd a))) (fst (star_range (snd b)))))
       (cmp_of (star_source (snd a)) (star_source (snd b)))"

definition star_edges :: "exports \<Rightarrow> (modname \<times> star_import) list" where
  "star_edges e = sort_by star_edge_cmp
     (concat (map (\<lambda>(m, stars). map (\<lambda>star. (m, star)) stars) (star_imports e)))"

definition relevant_modules :: "(modname \<times> star_import) list \<Rightarrow> modname list" where
  "relevant_modules edges = concat (map (\<lambda>(m, star). [m, star_source star]) edges)"

definition expand_star_re_exports ::
  "(modname \<times> export_type) list list \<Rightarrow> re_export_table list \<Rightarrow> import_graph \<Rightarrow> exports \<Rightarrow> exports option" where
  "expand_star_re_exports export_chunks re_export_chunks g e =
     (if star_imports e = [] then Some e
      else
        (let edges = star_edges e;
             ms = seed_star_members export_chunks re_export_chunks (relevant_modules edges)
         in map_option (\<lambda>res. e\<lparr>re_export_table := res\<rparr>)
              (star_loop g (dunder_all_of e) edges (re_export_table e) ms)))"

section \<open>Which names are visible\<close>

definition own_name :: "exports \<Rightarrow> modname \<Rightarrow> string \<Rightarrow> bool" where
  "own_name e m n \<longleftrightarrow>
     (\<exists>name \<in> fst ` set (export_types e). split_attr name = Some (m, n)) \<or> is_re_export e (Attribute m n)"

definition is_submodule :: "import_graph \<Rightarrow> star_import \<Rightarrow> string \<Rightarrow> bool" where
  "is_submodule g star n \<longleftrightarrow> ig_contains g (as_module_name (Attribute (star_source star) n))"

definition star_pairs :: "exports \<Rightarrow> (modname \<times> star_import) set" where
  "star_pairs e = {(m, star). \<exists>stars. (m, stars) \<in> set (star_imports e) \<and> star \<in> set stars}"

text \<open>
  A module shows the names it binds itself, and those its stars bind: the names in \<open>__all__\<close> of the
  source, or without that list every name the source shows that has no leading underscore.
\<close>

inductive visible :: "import_graph \<Rightarrow> exports \<Rightarrow> modname \<Rightarrow> string \<Rightarrow> bool" for g e where
  own: "own_name e m n \<Longrightarrow> visible g e m n"
| listed: "(m, star) \<in> star_pairs e \<Longrightarrow> map_of (dunder_all_of e) (star_source star) = Some names \<Longrightarrow>
    n \<in> set names \<Longrightarrow> \<not> is_submodule g star n \<Longrightarrow> visible g e m n"
| public: "(m, star) \<in> star_pairs e \<Longrightarrow> map_of (dunder_all_of e) (star_source star) = None \<Longrightarrow>
    visible g e (star_source star) n \<Longrightarrow> take 1 n \<noteq> ''_'' \<Longrightarrow> \<not> is_submodule g star n \<Longrightarrow> visible g e m n"

definition exposes :: "import_graph \<Rightarrow> exports \<Rightarrow> star_import \<Rightarrow> string \<Rightarrow> bool" where
  "exposes g e star n \<longleftrightarrow>
     \<not> is_submodule g star n \<and>
     (case map_of (dunder_all_of e) (star_source star) of
        Some names \<Rightarrow> n \<in> set names
      | None \<Rightarrow> visible g e (star_source star) n \<and> take 1 n \<noteq> ''_'')"

lemma visible_star: "(m, star) \<in> star_pairs e \<Longrightarrow> exposes g e star n \<Longrightarrow> visible g e m n"
  by (auto simp: exposes_def intro: visible.listed visible.public split: option.splits)

text \<open>The entry of a name that a module does not bind itself: one of its best stars.\<close>

definition best_star :: "import_graph \<Rightarrow> exports \<Rightarrow> modname \<Rightarrow> string \<Rightarrow> star_import \<Rightarrow> bool" where
  "best_star g e m n star \<longleftrightarrow>
     (m, star) \<in> star_pairs e \<and> exposes g e star n \<and>
     (\<forall>star'. (m, star') \<in> star_pairs e \<longrightarrow> exposes g e star' n \<longrightarrow> star_rank_of star' \<le> star_rank_of star)"

definition star_entry :: "star_import \<Rightarrow> string \<Rightarrow> attribute \<times> text_range" where
  "star_entry star n = (Attribute (star_source star) n, star_range star)"

section \<open>The seed\<close>

lemma nested_keys_seed_export_task:
  "nested_get (foldl (\<lambda>acc (name, _).
        case split_attr name of
          None \<Rightarrow> acc
        | Some (parent, attr) \<Rightarrow>
            if parent \<in> set relevant then nested_insert parent attr None acc else acc) acc chunk) m n =
   (if m \<in> set relevant \<and> (\<exists>name \<in> fst ` set chunk. split_attr name = Some (m, n)) then Some None
    else nested_get acc m n)"
  by (induction chunk arbitrary: acc) (auto split: option.splits)

lemma seed_export_task_iff:
  "nested_get (seed_export_task relevant chunk) m n =
     (if m \<in> set relevant \<and> (\<exists>name \<in> fst ` set chunk. split_attr name = Some (m, n)) then Some None else None)"
  unfolding seed_export_task_def nested_keys_seed_export_task by simp

text \<open>An index of names that no star has bound: every name of a relation, with no rank.\<close>

definition nested_ok :: "('a \<times> ('b \<times> 'c) list) list \<Rightarrow> bool" where
  "nested_ok m \<longleftrightarrow> distinct (map fst m) \<and> (\<forall>(k, inner) \<in> set m. distinct (map fst inner))"

definition unranked :: "(modname \<Rightarrow> string \<Rightarrow> bool) \<Rightarrow> star_members \<Rightarrow> bool" where
  "unranked R ms \<longleftrightarrow> nested_ok ms \<and> (\<forall>m n. nested_get ms m n = (if R m n then Some None else None))"

lemma nested_ok_Nil [simp]: "nested_ok []"
  by (simp add: nested_ok_def)

lemma nested_ok_update: "nested_ok m \<Longrightarrow> distinct (map fst inner) \<Longrightarrow> nested_ok (AList.update k inner m)"
  by (auto simp: nested_ok_def distinct_update dest!: update_values)

lemma nested_ok_lookup: "nested_ok m \<Longrightarrow> distinct (map fst (case map_of m k of None \<Rightarrow> [] | Some inner \<Rightarrow> inner))"
  by (auto simp: nested_ok_def dest!: map_of_SomeD split: option.splits)

lemma nested_ok_insert: "nested_ok m \<Longrightarrow> nested_ok (nested_insert a b c m)"
  unfolding nested_insert_def by (intro nested_ok_update distinct_update nested_ok_lookup)

lemma unranked_merge:
  assumes "unranked R a" "unranked S b"
  shows "unranked (\<lambda>m n. R m n \<or> S m n) (merge_nested_larger a b)"
proof -
  have "nested_ok (extend_nested x y)" if "nested_ok x" "nested_ok y" for x y :: star_members
    using that extend_nested_ok [of x y] by (simp add: nested_ok_def)
  moreover have "nested_get (extend_nested x y) m n =
      (case nested_get y m n of Some v \<Rightarrow> Some v | None \<Rightarrow> nested_get x m n)"
    if "nested_ok y" for x y :: star_members and m n
    using that by (intro nested_get_extend) (auto simp: nested_ok_def)
  ultimately show ?thesis
    using assms by (auto simp: unranked_def merge_nested_larger_def)
qed

lemma unranked_foldl_merge:
  "unranked R acc \<Longrightarrow> \<forall>t\<in>set ts. unranked (S t) (f t) \<Longrightarrow>
     unranked (\<lambda>m n. R m n \<or> (\<exists>t\<in>set ts. S t m n)) (foldl merge_nested_larger acc (map f ts))"
proof (induction ts arbitrary: acc R)
  case (Cons t ts)
  have "unranked (\<lambda>m n. R m n \<or> S t m n) (merge_nested_larger acc (f t))"
    using Cons.prems by (intro unranked_merge) auto
  then have "unranked (\<lambda>m n. (R m n \<or> S t m n) \<or> (\<exists>t\<in>set ts. S t m n))
      (foldl merge_nested_larger (merge_nested_larger acc (f t)) (map f ts))"
    using Cons.prems(2) by (intro Cons.IH) simp_all
  then show ?case by (simp add: disj_assoc)
qed simp

lemma unranked_seed_export_task:
  "unranked (\<lambda>m n. m \<in> set relevant \<and> (\<exists>name \<in> fst ` set chunk. split_attr name = Some (m, n)))
     (seed_export_task relevant chunk)"
proof -
  have "nested_ok acc \<Longrightarrow> nested_ok (foldl (\<lambda>acc (name, _).
        case split_attr name of
          None \<Rightarrow> acc
        | Some (parent, attr) \<Rightarrow>
            if parent \<in> set relevant then nested_insert parent attr None acc else acc) acc chunk)"
    for acc :: star_members
    by (induction chunk arbitrary: acc) (auto simp: nested_ok_insert split: option.splits)
  then have "nested_ok (seed_export_task relevant chunk)" by (simp add: seed_export_task_def)
  then show ?thesis by (simp add: unranked_def seed_export_task_iff)
qed

lemma map_of_const:
  "map_of (rev (map (\<lambda>(a, _). (a, c)) names)) k = (if k \<in> fst ` set names then Some c else None)"
  by (induction names rule: rev_induct) auto

lemma unranked_seed_re_export_task:
  "unranked (\<lambda>m n. m \<in> set relevant \<and> (\<exists>names. (m, names) \<in> set chunk \<and> n \<in> fst ` set names))
     (seed_re_export_task relevant chunk)"
proof -
  let ?step = "\<lambda>acc (module, names).
        AList.update module
          (map_extend (case map_of acc module of None \<Rightarrow> [] | Some inner \<Rightarrow> inner)
             (map (\<lambda>(attr, _). (attr, None)) names)) acc"
  have "nested_ok acc \<Longrightarrow> nested_ok (foldl ?step acc ch) \<and>
      (\<forall>m n. nested_get (foldl ?step acc ch) m n =
        (if \<exists>names. (m, names) \<in> set ch \<and> n \<in> fst ` set names then Some None else nested_get acc m n))"
    for ch :: re_export_table and acc :: star_members
  proof (induction ch arbitrary: acc)
    case (Cons x ch)
    obtain module names where x: "x = (module, names)" by fastforce
    have ok: "nested_ok (?step acc x)"
      using Cons.prems by (simp add: x nested_ok_update distinct_map_extend nested_ok_lookup)
    have get: "nested_get (?step acc x) m n =
        (if m = module \<and> n \<in> fst ` set names then Some None else nested_get acc m n)" for m n
      by (simp add: x nested_get_def update_conv' map_of_const split: option.splits)
    show ?case using Cons.IH [OF ok] unfolding get foldl.simps(2) by (simp add: x) blast
  qed simp
  from this [of "[]" "filter (\<lambda>(module, _). module \<in> set relevant) chunk"] show ?thesis
    by (auto simp: unranked_def seed_re_export_task_def)
qed

lemma is_re_export_iff:
  assumes "exports_ok e"
  shows "is_re_export e (Attribute m n) \<longleftrightarrow>
    (\<exists>names. (m, names) \<in> set (re_export_table e) \<and> n \<in> fst ` set names)"
proof -
  have "(m, names) \<in> set (re_export_table e) \<longleftrightarrow> map_of (re_export_table e) m = Some names" for names
    using assms by (simp add: exports_ok_def)
  moreover have "map_of names n \<noteq> None \<longleftrightarrow> n \<in> fst ` set names"
    for names :: "(string \<times> attribute \<times> text_range) list"
    by (simp add: map_of_eq_None_iff)
  ultimately show ?thesis
    by (cases "map_of (re_export_table e) m")
      (simp_all add: is_re_export_def get_re_export_def nested_get_def del: not_None_eq not_Some_eq)
qed

lemma unranked_seed:
  assumes "exports_ok e" "set (concat export_chunks) = set (export_types e)"
    "set (concat re_export_chunks) = set (re_export_table e)"
  shows "unranked (\<lambda>m n. m \<in> set relevant \<and> own_name e m n)
    (seed_star_members export_chunks re_export_chunks relevant)"
proof -
  have "unranked (\<lambda>_ _. False) []" by (simp add: unranked_def)
  note start = unranked_foldl_merge [OF this]
  have 1: "unranked (\<lambda>m n. m \<in> set relevant \<and> (\<exists>name \<in> fst ` set (export_types e). split_attr name = Some (m, n)))
      (foldl merge_nested_larger [] (map (seed_export_task relevant) export_chunks))"
    using start [where f = "seed_export_task relevant" and ts = export_chunks,
      OF ballI, OF unranked_seed_export_task]
    unfolding assms(2) [symmetric] by (rule back_subst [where P = "\<lambda>R. unranked R _"]) (auto intro!: ext)
  have 2: "unranked (\<lambda>m n. m \<in> set relevant \<and> is_re_export e (Attribute m n))
      (foldl merge_nested_larger [] (map (seed_re_export_task relevant) re_export_chunks))"
    using start [where f = "seed_re_export_task relevant" and ts = re_export_chunks,
      OF ballI, OF unranked_seed_re_export_task]
    unfolding is_re_export_iff [OF assms(1)] assms(3) [symmetric]
    by (rule back_subst [where P = "\<lambda>R. unranked R _"]) (auto intro!: ext)
  show ?thesis
    using unranked_merge [OF 1 2] unfolding seed_star_members_def own_name_def
    by (rule back_subst [where P = "\<lambda>R. unranked R _"]) (auto intro!: ext)
qed

section \<open>A pass\<close>

text \<open>What the passes keep: names of the module itself stay, the others hold a star that exposes them.\<close>

definition star_inv :: "import_graph \<Rightarrow> exports \<Rightarrow> modname set \<Rightarrow> re_export_table \<Rightarrow> star_members \<Rightarrow> bool" where
  "star_inv g e rel res ms \<longleftrightarrow>
     (\<forall>m n. nested_get ms m n = Some None \<longleftrightarrow> m \<in> rel \<and> own_name e m n) \<and>
     (\<forall>m n r. nested_get ms m n = Some (Some r) \<longrightarrow>
        (\<exists>star. (m, star) \<in> star_pairs e \<and> exposes g e star n \<and> r = star_rank_of star \<and>
           nested_get res m n = Some (star_entry star n))) \<and>
     (\<forall>m n. (\<forall>r. nested_get ms m n \<noteq> Some (Some r)) \<longrightarrow>
        nested_get res m n = nested_get (re_export_table e) m n)"

definition name_universe :: "exports \<Rightarrow> star_members \<Rightarrow> string set" where
  "name_universe e ms =
     (\<Union>(_, names) \<in> set (dunder_all_of e). set names) \<union> {n. \<exists>m. nested_get ms m n \<noteq> None}"

text \<open>How far the binding of a name is from the best rank.\<close>

fun rank_room :: "star_rank set \<Rightarrow> star_rank option option \<Rightarrow> nat" where
  "rank_room R None = Suc (card R)"
| "rank_room R (Some None) = 0"
| "rank_room R (Some (Some r)) = card {r' \<in> R. r < r'}"

definition star_measure :: "star_rank set \<Rightarrow> (modname \<times> string) set \<Rightarrow> star_members \<Rightarrow> nat" where
  "star_measure R U ms = (\<Sum>(m, n) \<in> U. rank_room R (nested_get ms m n))"

lemma rank_room_less:
  assumes "finite R" "r \<in> R" "star_can_replace b r"
  shows "rank_room R (Some (Some r)) < rank_room R b"
proof (cases "(R, b)" rule: rank_room.cases)
  case (1 R')
  then show ?thesis using assms by (auto intro!: le_imp_less_Suc card_mono)
next
  case (3 R' r0)
  with assms have "r0 < r" by simp
  then have "{r' \<in> R. r < r'} \<subset> {r' \<in> R. r0 < r'}" using assms(2) by (auto intro: less_trans)
  with 3 assms(1) show ?thesis by (auto intro: psubset_card_mono)
qed (use assms in auto)

lemma star_measure_less:
  assumes "finite R" "finite U" "(m, n) \<in> U" "r \<in> R" "star_can_replace (nested_get ms m n) r"
  shows "star_measure R U (nested_insert m n (Some r) ms) < star_measure R U ms"
  unfolding star_measure_def
proof (rule sum_strict_mono_ex1 [OF assms(2)])
  show "\<forall>x\<in>U. (case x of (a, b) \<Rightarrow> rank_room R (nested_get (nested_insert m n (Some r) ms) a b))
      \<le> (case x of (a, b) \<Rightarrow> rank_room R (nested_get ms a b))"
    using rank_room_less [OF assms(1,4,5)] by (auto simp del: rank_room.simps)
  show "\<exists>x\<in>U. (case x of (a, b) \<Rightarrow> rank_room R (nested_get (nested_insert m n (Some r) ms) a b))
      < (case x of (a, b) \<Rightarrow> rank_room R (nested_get ms a b))"
    using rank_room_less [OF assms(1,4,5)] assms(3)
    by (intro bexI [of _ "(m, n)"]) (simp_all del: rank_room.simps)
qed

text \<open>One step either leaves the state alone, or it sets the flag and comes closer.\<close>

definition advances :: "star_rank set \<Rightarrow> (modname \<times> string) set \<Rightarrow> star_state \<Rightarrow> star_state \<Rightarrow> bool" where
  "advances R U st st' \<longleftrightarrow>
     st' = st \<or> snd (snd st') \<and> star_measure R U (fst (snd st')) < star_measure R U (fst (snd st))"

lemma advances_trans: "advances R U a b \<Longrightarrow> advances R U b c \<Longrightarrow> advances R U a c"
  by (auto simp: advances_def)

definition settled :: "import_graph \<Rightarrow> star_members \<Rightarrow> modname \<times> star_import \<Rightarrow> string \<Rightarrow> bool" where
  "settled g ms edge n \<longleftrightarrow>
     \<not> star_can_replace (nested_get ms (fst edge) n) (star_rank_of (snd edge)) \<or> is_submodule g (snd edge) n"

lemma bind_star_name_eq:
  "bind_star_name g (m, star) (res, ms, ch) n =
     (if settled g ms (m, star) n then (res, ms, ch)
      else (nested_insert m n (star_entry star n) res, nested_insert m n (Some (star_rank_of star)) ms, True))"
  by (simp add: bind_star_name_def settled_def is_submodule_def star_entry_def Let_def)

definition star_good :: "import_graph \<Rightarrow> exports \<Rightarrow> modname set \<Rightarrow> string set \<Rightarrow> star_state \<Rightarrow> bool" where
  "star_good g e rel N st \<longleftrightarrow>
     star_inv g e rel (fst st) (fst (snd st)) \<and> (\<forall>m n. nested_get (fst (snd st)) m n \<noteq> None \<longrightarrow> n \<in> N)"

lemma star_good_bind:
  assumes "star_good g e rel N st" "edge \<in> star_pairs e" "n \<in> N"
    "\<not> is_submodule g (snd edge) n \<Longrightarrow> exposes g e (snd edge) n"
  shows "star_good g e rel N (bind_star_name g edge st n)"
proof -
  obtain m star res ms ch where st: "edge = (m, star)" "st = (res, ms, ch)" by (cases edge, cases st) auto
  show ?thesis
  proof (cases "settled g ms (m, star) n")
    case True
    then show ?thesis using assms(1) by (simp add: st bind_star_name_eq)
  next
    case False
    then have "nested_get ms m n \<noteq> Some None" "exposes g e star n"
      using assms(4) by (auto simp: settled_def st)
    then show ?thesis
      using assms(1-3) False by (auto simp: st bind_star_name_eq star_good_def star_inv_def)
  qed
qed

lemma bind_advances:
  assumes "finite R" "finite U" "(fst edge, n) \<in> U" "star_rank_of (snd edge) \<in> R"
  shows "advances R U st (bind_star_name g edge st n)"
  using assms
  by (cases edge; cases st)
    (auto simp: bind_star_name_eq advances_def settled_def intro!: star_measure_less)

lemma bind_flag: "snd (snd st) \<Longrightarrow> snd (snd (bind_star_name g edge st n))"
  by (cases edge; cases st) (simp add: bind_star_name_eq)

lemma bind_unchanged:
  "\<not> snd (snd (bind_star_name g edge st n)) \<Longrightarrow>
     bind_star_name g edge st n = st \<and> settled g (fst (snd st)) edge n"
  by (cases edge; cases st) (auto simp: bind_star_name_eq split: if_splits)

lemma set_star_bound_names:
  assumes "map_of all source = None"
  shows "set (star_bound_names source all ms) = {n. nested_get ms source n \<noteq> None \<and> take 1 n \<noteq> ''_''}"
proof (cases "map_of ms source")
  case (Some inner)
  have "map_of inner n \<noteq> None \<longleftrightarrow> n \<in> set (map fst inner)" for n
    by (simp add: map_of_eq_None_iff)
  with Some assms show ?thesis
    by (simp add: star_bound_names_def nested_get_def conj_commute del: not_None_eq not_Some_eq set_map)
qed (use assms in \<open>simp add: star_bound_names_def nested_get_def\<close>)

lemma star_inv_visible:
  assumes "star_inv g e rel res ms" "nested_get ms m n \<noteq> None"
  shows "visible g e m n"
proof (cases "nested_get ms m n = Some None")
  case True
  with assms(1) have "own_name e m n" unfolding star_inv_def by blast
  then show ?thesis by (rule visible.own)
next
  case False
  with assms(2) obtain r where "nested_get ms m n = Some (Some r)" by force
  with assms(1) obtain star where "(m, star) \<in> star_pairs e" "exposes g e star n"
    unfolding star_inv_def by blast
  then show ?thesis by (rule visible_star)
qed

lemma bound_names_exposed:
  assumes "star_good g e rel N st" "names = star_bound_names (star_source star) (dunder_all_of e) (fst (snd st))"
    "n \<in> set names" "\<not> is_submodule g star n"
  shows "exposes g e star n"
proof (cases "map_of (dunder_all_of e) (star_source star)")
  case None
  with assms(2,3) have n: "nested_get (fst (snd st)) (star_source star) n \<noteq> None" "take 1 n \<noteq> ''_''"
    by (auto simp: set_star_bound_names)
  have "visible g e (star_source star) n"
    using assms(1) n(1) unfolding star_good_def by (blast intro: star_inv_visible)
  with None n(2) assms(4) show ?thesis by (simp add: exposes_def)
qed (use assms in \<open>simp add: star_bound_names_def exposes_def\<close>)

lemma bound_names_universe:
  assumes "star_good g e rel N st" "(\<Union>(_, names) \<in> set (dunder_all_of e). set names) \<subseteq> N"
  shows "set (star_bound_names source (dunder_all_of e) (fst (snd st))) \<subseteq> N"
proof (cases "map_of (dunder_all_of e) source")
  case None
  have "n \<in> N" if "nested_get (fst (snd st)) source n \<noteq> None" for n
    using assms(1) that unfolding star_good_def by blast
  then show ?thesis unfolding set_star_bound_names [OF None] by blast
next
  case (Some names)
  then have "(source, names) \<in> set (dunder_all_of e)" by (rule map_of_SomeD)
  then have "set names \<subseteq> (\<Union>(_, names) \<in> set (dunder_all_of e). set names)"
    by (intro subsetI UN_I [of "(source, names)"]) simp_all
  with assms(2) Some show ?thesis by (simp add: star_bound_names_def)
qed

text \<open>The folds over the names of an edge and over the edges, with what they keep.\<close>

lemma foldl_keeps:
  assumes "\<And>st x. G st \<Longrightarrow> x \<in> set xs \<Longrightarrow> G (f st x) \<and> advances R U st (f st x)" "G st"
  shows "G (foldl f st xs) \<and> advances R U st (foldl f st xs)"
  using assms
proof (induction xs arbitrary: st)
  case Nil
  then show ?case by (simp add: advances_def)
next
  case (Cons x xs)
  then have "G (f st x)" "advances R U st (f st x)" by auto
  moreover from this(1) have "G (foldl f (f st x) xs) \<and> advances R U (f st x) (foldl f (f st x) xs)"
    using Cons.prems(1) by (intro Cons.IH) auto
  ultimately show ?case by (auto intro: advances_trans)
qed

lemma foldl_unchanged:
  assumes "\<And>st x. flag st \<Longrightarrow> flag (f st x)" "\<And>st x. \<not> flag (f st x) \<Longrightarrow> f st x = st \<and> S st x"
    "\<not> flag (foldl f st xs)"
  shows "foldl f st xs = st \<and> (\<forall>x\<in>set xs. S st x)"
proof -
  have mono: "flag st \<Longrightarrow> flag (foldl f st xs)" for st xs
    by (induction xs arbitrary: st) (auto intro: assms(1))
  show ?thesis using assms(3)
  proof (induction xs arbitrary: st)
    case (Cons x xs)
    then have "\<not> flag (f st x)" using mono by auto
    with assms(2) [of st x] Cons show ?case by auto
  qed simp
qed

lemma star_edge_keeps:
  assumes "finite R" "finite U" "star_good g e rel N st" "edge \<in> star_pairs e"
    "(\<Union>(_, names) \<in> set (dunder_all_of e). set names) \<subseteq> N" "{fst edge} \<times> N \<subseteq> U"
    "star_rank_of (snd edge) \<in> R"
  shows "star_good g e rel N (star_edge g (dunder_all_of e) st edge) \<and>
    advances R U st (star_edge g (dunder_all_of e) st edge)"
  unfolding star_edge_def
proof (rule foldl_keeps [where G = "star_good g e rel N"])
  fix st' n
  assume "star_good g e rel N st'"
    and n: "n \<in> set (star_bound_names (star_source (snd edge)) (dunder_all_of e) (fst (snd st)))"
  moreover have "n \<in> N" using n bound_names_universe [OF assms(3,5)] by blast
  moreover have "\<not> is_submodule g (snd edge) n \<Longrightarrow> exposes g e (snd edge) n"
    by (rule bound_names_exposed [OF assms(3) refl n])
  ultimately show "star_good g e rel N (bind_star_name g edge st' n) \<and> advances R U st' (bind_star_name g edge st' n)"
    using assms by (auto intro!: star_good_bind bind_advances)
qed (rule assms(3))

lemma star_pass_keeps:
  assumes "finite R" "finite U" "star_good g e rel N st" "set edges \<subseteq> star_pairs e"
    "(\<Union>(_, names) \<in> set (dunder_all_of e). set names) \<subseteq> N" "fst ` set edges \<times> N \<subseteq> U"
    "star_rank_of ` snd ` set edges \<subseteq> R"
  shows "star_good g e rel N (star_pass g (dunder_all_of e) edges st) \<and>
    advances R U st (star_pass g (dunder_all_of e) edges st)"
  unfolding star_pass_def
proof (rule foldl_keeps [where G = "star_good g e rel N"])
  fix st' edge
  assume "star_good g e rel N st'" "edge \<in> set edges"
  with assms show "star_good g e rel N (star_edge g (dunder_all_of e) st' edge) \<and>
      advances R U st' (star_edge g (dunder_all_of e) st' edge)"
    by (intro star_edge_keeps) auto
qed (rule assms(3))

lemma star_pass_unchanged:
  assumes "\<not> snd (snd (star_pass g all edges st))"
  shows "star_pass g all edges st = st \<and>
    (\<forall>edge \<in> set edges. \<forall>n \<in> set (star_bound_names (star_source (snd edge)) all (fst (snd st))).
       settled g (fst (snd st)) edge n)"
  unfolding star_pass_def
proof (rule foldl_unchanged [where flag = "\<lambda>st. snd (snd st)"])
  fix st :: star_state and edge
  show "snd (snd (star_edge g all st edge))" if "snd (snd st)"
  proof (rule ccontr)
    assume "\<not> snd (snd (star_edge g all st edge))"
    then have "star_edge g all st edge = st"
      unfolding star_edge_def
      by (intro conjunct1 [OF foldl_unchanged [where flag = "\<lambda>st. snd (snd st)" and S = "\<lambda>_ _. True"]])
        (auto intro: bind_flag dest: bind_unchanged)
    with that \<open>\<not> snd (snd (star_edge g all st edge))\<close> show False by simp
  qed
  show "star_edge g all st edge = st \<and>
      (\<forall>n \<in> set (star_bound_names (star_source (snd edge)) all (fst (snd st))). settled g (fst (snd st)) edge n)"
    if "\<not> snd (snd (star_edge g all st edge))"
    using that unfolding star_edge_def
    by (intro foldl_unchanged [where flag = "\<lambda>st. snd (snd st)"]) (auto intro: bind_flag dest: bind_unchanged)
qed (use assms in \<open>simp add: star_pass_def\<close>)

section \<open>The loop returns, and nothing is left to bind\<close>

definition all_settled :: "import_graph \<Rightarrow> exports \<Rightarrow> (modname \<times> star_import) list \<Rightarrow> star_members \<Rightarrow> bool" where
  "all_settled g e edges ms \<longleftrightarrow>
     (\<forall>edge \<in> set edges. \<forall>n \<in> set (star_bound_names (star_source (snd edge)) (dunder_all_of e) ms).
        settled g ms edge n)"

lemma star_loop_returns:
  assumes "finite R" "finite U" "set edges \<subseteq> star_pairs e"
    "(\<Union>(_, names) \<in> set (dunder_all_of e). set names) \<subseteq> N" "fst ` set edges \<times> N \<subseteq> U"
    "star_rank_of ` snd ` set edges \<subseteq> R"
  shows "star_good g e rel N (res, ms, False) \<Longrightarrow>
    \<exists>res' ms'. star_loop g (dunder_all_of e) edges res ms = Some res' \<and>
      star_inv g e rel res' ms' \<and> all_settled g e edges ms'"
proof (induction "star_measure R U ms" arbitrary: res ms rule: less_induct)
  case less
  obtain res1 ms1 ch where pass: "star_pass g (dunder_all_of e) edges (res, ms, False) = (res1, ms1, ch)"
    by (cases "star_pass g (dunder_all_of e) edges (res, ms, False)")
  from star_pass_keeps [OF assms(1,2) less.prems assms(3-6)]
  have keeps: "star_good g e rel N (res1, ms1, ch)" "advances R U (res, ms, False) (res1, ms1, ch)"
    by (simp_all add: pass)
  show ?case
  proof (cases ch)
    case True
    then have "star_measure R U ms1 < star_measure R U ms" using keeps(2) by (auto simp: advances_def)
    moreover have "star_good g e rel N (res1, ms1, False)" using keeps(1) by (simp add: star_good_def)
    ultimately show ?thesis using less.hyps True by (subst star_loop.simps) (simp add: pass)
  next
    case False
    with star_pass_unchanged [of g "dunder_all_of e" edges "(res, ms, False)"]
    have "res1 = res" "ms1 = ms" "all_settled g e edges ms" by (simp_all add: pass all_settled_def)
    with False keeps(1) show ?thesis
      by (subst star_loop.simps) (auto simp: pass star_good_def)
  qed
qed

lemma not_replaceable: "\<not> star_can_replace b r \<Longrightarrow> b \<noteq> None"
  by (cases b) simp_all

lemma set_star_edges: "set (star_edges e) = star_pairs e"
  by (auto simp: star_edges_def star_pairs_def)

lemma relevant_pairs:
  "(m, star) \<in> set edges \<Longrightarrow> m \<in> set (relevant_modules edges) \<and> star_source star \<in> set (relevant_modules edges)"
  by (auto simp: relevant_modules_def)

lemma finite_nested_keys: "finite {n. \<exists>m. nested_get ms m n \<noteq> None}"
proof -
  have "{n. \<exists>m. nested_get ms m n \<noteq> None} \<subseteq> (\<Union>inner \<in> snd ` set ms. fst ` set inner)"
  proof
    fix n assume "n \<in> {n. \<exists>m. nested_get ms m n \<noteq> None}"
    then obtain m inner v where "map_of ms m = Some inner" "map_of inner n = Some v"
      by (auto simp: nested_get_def split: option.splits)
    then have "(m, inner) \<in> set ms" "(n, v) \<in> set inner" by (auto dest: map_of_SomeD)
    then show "n \<in> (\<Union>inner \<in> snd ` set ms. fst ` set inner)" by force
  qed
  then show ?thesis by (rule finite_subset) auto
qed

lemma settled_exposed:
  assumes "star_inv g e rel res ms" "all_settled g e edges ms" "set edges = star_pairs e"
    "\<And>n. visible g e (star_source star) n \<Longrightarrow> nested_get ms (star_source star) n \<noteq> None"
    "(m, star) \<in> star_pairs e" "exposes g e star n"
  shows "\<not> star_can_replace (nested_get ms m n) (star_rank_of star)"
proof -
  have "n \<in> set (star_bound_names (star_source star) (dunder_all_of e) ms)"
    using assms(4,6)
    by (cases "map_of (dunder_all_of e) (star_source star)")
      (simp_all add: exposes_def set_star_bound_names, simp add: star_bound_names_def)
  with assms(2,3,5) have "settled g ms (m, star) n" by (fastforce simp: all_settled_def)
  with assms(6) show ?thesis by (simp add: settled_def exposes_def)
qed

lemma visible_bound:
  assumes "star_inv g e rel res ms" "all_settled g e edges ms" "set edges = star_pairs e"
    "rel = set (relevant_modules edges)"
  shows "visible g e m n \<Longrightarrow> m \<in> rel \<Longrightarrow> nested_get ms m n \<noteq> None"
proof (induction rule: visible.induct)
  case (own m n)
  with assms(1) show ?case unfolding star_inv_def by (metis option.distinct(1))
next
  case (listed m star names n)
  then have "n \<in> set (star_bound_names (star_source star) (dunder_all_of e) ms)"
    by (simp add: star_bound_names_def)
  with listed(1) assms(2,3) have "settled g ms (m, star) n" by (fastforce simp: all_settled_def)
  with listed(4) show ?case by (auto simp: settled_def dest: not_replaceable)
next
  case (public m star n)
  have "star_source star \<in> rel" using relevant_pairs public(1) assms(3,4) by blast
  then have "n \<in> set (star_bound_names (star_source star) (dunder_all_of e) ms)"
    using public by (simp add: set_star_bound_names)
  with public(1) assms(2,3) have "settled g ms (m, star) n" by (fastforce simp: all_settled_def)
  with public(5) show ?case by (auto simp: settled_def dest: not_replaceable)
qed

lemma star_run:
  assumes "exports_ok e" "set (concat export_chunks) = set (export_types e)"
    "set (concat re_export_chunks) = set (re_export_table e)"
  obtains res' ms' where
    "star_loop g (dunder_all_of e) (star_edges e) (re_export_table e)
       (seed_star_members export_chunks re_export_chunks (relevant_modules (star_edges e))) = Some res'"
    "star_inv g e (set (relevant_modules (star_edges e))) res' ms'" "all_settled g e (star_edges e) ms'"
proof -
  let ?edges = "star_edges e" and ?rel = "set (relevant_modules (star_edges e))"
  define ms where "ms = seed_star_members export_chunks re_export_chunks (relevant_modules ?edges)"
  have seed: "nested_get ms m n = (if m \<in> ?rel \<and> own_name e m n then Some None else None)" for m n
    using unranked_seed [OF assms] by (simp add: ms_def unranked_def)
  define N where "N = (\<Union>(_, names) \<in> set (dunder_all_of e). set names) \<union> {n. \<exists>m. nested_get ms m n \<noteq> None}"
  have good: "star_good g e ?rel N (re_export_table e, ms, False)"
    by (auto simp: star_good_def star_inv_def seed N_def)
  have fin: "finite (fst ` set ?edges \<times> N)" using finite_nested_keys [of ms] by (auto simp: N_def)
  have names: "(\<Union>(_, names) \<in> set (dunder_all_of e). set names) \<subseteq> N" by (simp add: N_def)
  from star_loop_returns [OF finite_imageI [OF finite_imageI [OF finite_set]] fin _ names order_refl order_refl good]
  obtain res' ms' where
    "star_loop g (dunder_all_of e) ?edges (re_export_table e) ms = Some res'"
    "star_inv g e ?rel res' ms'" "all_settled g e ?edges ms'"
    by (auto simp: set_star_edges)
  then show thesis using that by (simp add: ms_def)
qed

text \<open>So the expansion never fails.\<close>

lemma expand_star_returns:
  assumes "exports_ok e" "set (concat export_chunks) = set (export_types e)"
    "set (concat re_export_chunks) = set (re_export_table e)"
  shows "\<exists>e'. expand_star_re_exports export_chunks re_export_chunks g e = Some e'"
  by (rule star_run [OF assms, of g]) (simp add: expand_star_re_exports_def Let_def)

text \<open>
  C18: The expansion of star imports always ends, however the scans are shared out: a name that the
  module binds itself, and a name that no star exposes, keep their entry; every other name is bound
  by a star of the highest rank among the stars that expose it.
\<close>

theorem expand_star_re_exports_exact:
  assumes "exports_ok e" "set (concat export_chunks) = set (export_types e)"
    "set (concat re_export_chunks) = set (re_export_table e)"
  shows "\<exists>e'. expand_star_re_exports export_chunks re_export_chunks g e = Some e' \<and>
    (\<forall>m n. if own_name e m n \<or> (\<nexists>star. (m, star) \<in> star_pairs e \<and> exposes g e star n)
       then get_re_export e' (Attribute m n) = get_re_export e (Attribute m n)
       else \<exists>star. best_star g e m n star \<and>
              get_re_export e' (Attribute m n) = Some (star_entry star n))"
proof (cases "star_imports e = []")
  case True
  then show ?thesis by (auto simp: expand_star_re_exports_def star_pairs_def)
next
  case False
  let ?edges = "star_edges e" and ?rel = "set (relevant_modules (star_edges e))"
  obtain res' ms' where loop: "star_loop g (dunder_all_of e) ?edges (re_export_table e)
      (seed_star_members export_chunks re_export_chunks (relevant_modules ?edges)) = Some res'"
    and inv: "star_inv g e ?rel res' ms'" and closed: "all_settled g e ?edges ms'"
    by (rule star_run [OF assms])
  note bound = visible_bound [OF inv closed set_star_edges refl]
  have source: "visible g e (star_source star) n \<Longrightarrow> nested_get ms' (star_source star) n \<noteq> None"
    if "(m, star) \<in> star_pairs e" for m star n
    using bound relevant_pairs that set_star_edges by blast
  note stays = settled_exposed [OF inv closed set_star_edges source]
  have get: "get_re_export (e\<lparr>re_export_table := res'\<rparr>) (Attribute m n) = nested_get res' m n"
    "get_re_export e (Attribute m n) = nested_get (re_export_table e) m n" for m n
    by (simp_all add: get_re_export_def)
  have "if own_name e m n \<or> (\<nexists>star. (m, star) \<in> star_pairs e \<and> exposes g e star n)
       then nested_get res' m n = nested_get (re_export_table e) m n
       else \<exists>star. best_star g e m n star \<and> nested_get res' m n = Some (star_entry star n)" for m n
  proof (cases "\<exists>r. nested_get ms' m n = Some (Some r)")
    case True
    then obtain r star where star: "nested_get ms' m n = Some (Some r)" "(m, star) \<in> star_pairs e"
      "exposes g e star n" "r = star_rank_of star" "nested_get res' m n = Some (star_entry star n)"
      using inv unfolding star_inv_def by blast
    have "best_star g e m n star"
      using star stays unfolding best_star_def by (fastforce simp: not_less)
    moreover have "\<not> own_name e m n"
      using star(1,2) inv relevant_pairs set_star_edges unfolding star_inv_def by (metis option.inject option.distinct(1))
    ultimately show ?thesis using star(2,3,5) by auto
  next
    case False
    then have same: "nested_get res' m n = nested_get (re_export_table e) m n"
      using inv unfolding star_inv_def by blast
    have "own_name e m n" if "(m, star) \<in> star_pairs e" "exposes g e star n" for star
    proof -
      from stays [OF that(1) _ that] that have "nested_get ms' m n \<noteq> None" by (auto dest: not_replaceable)
      with False have "nested_get ms' m n = Some None" by (metis not_None_eq)
      with inv show ?thesis unfolding star_inv_def by blast
    qed
    with same show ?thesis by auto
  qed
  with loop False show ?thesis
    by (intro exI [of _ "e\<lparr>re_export_table := res'\<rparr>"])
      (simp add: expand_star_re_exports_def Let_def get)
qed

text \<open>
  A package takes \<open>f\<close> and \<open>g\<close> from a fast module, with a slow one as the fallback; a third module
  reads the package, so its names arrive in the second pass only.
\<close>

definition star_sample :: exports where
  "star_sample = empty_exports
     \<lparr>export_types := [(''fast.f'', ExportFunction), (''slow.f'', ExportFunction), (''slow.g'', ExportFunction),
        (''slow._h'', ExportFunction)],
      star_imports :=
        [(''app'', [\<lparr>star_source = ''pkg'', star_range = (0, 5), is_fallback = False\<rparr>]),
         (''pkg'', [\<lparr>star_source = ''fast'', star_range = (4, 9), is_fallback = False\<rparr>,
           \<lparr>star_source = ''slow'', star_range = (30, 35), is_fallback = True\<rparr>])]\<rparr>"

definition no_modules :: import_graph where
  "no_modules = \<lparr>ig_modules = [], ig_imports = \<lambda>_. [], ig_importers = \<lambda>_. [], ig_missing = \<lambda>_. None,
     ig_ambiguous = \<lambda>_. None\<rparr>"

theorem expand_star_re_exports_exact_witness:
  "(\<exists>e'. expand_star_re_exports [export_types star_sample] [] no_modules star_sample = Some e' \<and>
    (\<forall>m n. if own_name star_sample m n \<or>
        (\<nexists>star. (m, star) \<in> star_pairs star_sample \<and> exposes no_modules star_sample star n)
       then get_re_export e' (Attribute m n) = get_re_export star_sample (Attribute m n)
       else \<exists>star. best_star no_modules star_sample m n star \<and>
              get_re_export e' (Attribute m n) = Some (star_entry star n))) \<and>
   map_option (\<lambda>e'. map (\<lambda>(m, n). map_option fst (get_re_export e' (Attribute m n)))
       [(''pkg'', ''f''), (''pkg'', ''g''), (''pkg'', ''_h''), (''app'', ''g'')])
     (expand_star_re_exports [export_types star_sample] [] no_modules star_sample) =
   Some [Some (Attribute ''fast'' ''f''), Some (Attribute ''slow'' ''g''), None, Some (Attribute ''pkg'' ''g'')]"
proof
  have "exports_ok star_sample" by (simp add: exports_ok_def star_sample_def empty_exports_def)
  then show "\<exists>e'. expand_star_re_exports [export_types star_sample] [] no_modules star_sample = Some e' \<and>
    (\<forall>m n. if own_name star_sample m n \<or>
        (\<nexists>star. (m, star) \<in> star_pairs star_sample \<and> exposes no_modules star_sample star n)
       then get_re_export e' (Attribute m n) = get_re_export star_sample (Attribute m n)
       else \<exists>star. best_star no_modules star_sample m n star \<and>
              get_re_export e' (Attribute m n) = Some (star_entry star n))"
    by (rule expand_star_re_exports_exact) (simp_all add: star_sample_def empty_exports_def)
qed code_simp

end
