(* ===== verification/Cache_Propagate.thy ===== *)
theory Cache_Propagate
  imports Cache_Model "HOL-Library.AList"
begin

text \<open>
  Verdicts travel along re-exports (\<open>LibraryCache::propagate_re_export_safety\<close> of
  \<open>src/cache/merge.rs\<close>): a worklist of re-export edges, the flags of the queued ones, and the
  verdict tables of the modules. The worklist is a stack whose top is at the end.
\<close>

section \<open>The worklist\<close>

definition merge_function_safety_entry_ref ::
  "func_table \<Rightarrow> string \<Rightarrow> function_safety_info \<Rightarrow> func_table \<times> bool" where
  "merge_function_safety_entry_ref fs attr incoming =
     (case map_of fs attr of
        Some existing \<Rightarrow>
          (let (merged, changed) = merge_ref existing incoming in (AList.update attr merged fs, changed))
      | None \<Rightarrow> (AList.update attr incoming fs, True))"

text \<open>The index by name: the later of two modules of one name stays.\<close>

definition module_index :: "cached_module list \<Rightarrow> modname \<Rightarrow> nat option" where
  "module_index ms name = map_of (rev (zip (map cm_name ms) [0..<length ms])) name"

definition dependents :: "cached_re_export list \<Rightarrow> modname \<times> string \<Rightarrow> nat list" where
  "dependents re_exports key =
     filter (\<lambda>j. (imported_module (re_exports ! j), imported_attr (re_exports ! j)) = key)
       [0..<length re_exports]"

fun enqueue :: "nat list \<Rightarrow> bool list \<times> nat list \<Rightarrow> bool list \<times> nat list" where
  "enqueue [] (queued, worklist) = (queued, worklist)"
| "enqueue (j # js) (queued, worklist) =
     enqueue js (if queued ! j then (queued, worklist) else (queued[j := True], worklist @ [j]))"

text \<open>One edge: the modules afterwards and whether the destination changed.\<close>

definition propagate_edge ::
  "cached_re_export \<Rightarrow> cached_module list \<Rightarrow> cached_module list \<times> bool" where
  "propagate_edge re ms =
     (case module_index ms (imported_module re) of
        None \<Rightarrow> (ms, False)
      | Some src \<Rightarrow>
          (case module_index ms (exported_module re) of
             None \<Rightarrow> (ms, False)
           | Some dst \<Rightarrow>
               (case map_of (cm_functions (ms ! src)) (imported_attr re) of
                  None \<Rightarrow> (ms, False)
                | Some safety \<Rightarrow>
                    (let (fs, changed) =
                       merge_function_safety_entry_ref (cm_functions (ms ! dst)) (exported_attr re) safety
                     in (ms[dst := (ms ! dst)\<lparr>cm_functions := fs\<rparr>], changed)))))"

section \<open>Entries as sets of facts\<close>

datatype safety_fact = Known | Concern nat | Waits modname | Mutates modname

definition entry_facts :: "function_safety_info option \<Rightarrow> safety_fact set" where
  "entry_facts entry =
     (case entry of
        None \<Rightarrow> {}
      | Some i \<Rightarrow> insert Known (Concern ` {n. bit (verdict i) n} \<union> Waits ` set (missing_dep_callees i) \<union>
          Mutates ` (mp_name ` set (mutated_params i))))"

lemma facts_None [simp]: "entry_facts None = {}"
  by (simp add: entry_facts_def)

lemma facts_eq_empty [simp]: "entry_facts x = {} \<longleftrightarrow> x = None"
  by (cases x) (simp_all add: entry_facts_def)

lemma finite_facts [simp]: "finite (entry_facts x)"
proof -
  have "finite {n. bit (verdict i) n}" for i :: function_safety_info
  proof (rule finite_subset)
    show "{n. bit (verdict i) n} \<subseteq> {..<LENGTH(8)}" by (auto dest: bit_imp_le_length)
  qed simp
  then show ?thesis by (simp add: entry_facts_def split: option.split)
qed

lemma mem_facts [simp]:
  "Known \<in> entry_facts (Some i)"
  "Concern n \<in> entry_facts (Some i) \<longleftrightarrow> bit (verdict i) n"
  "Waits c \<in> entry_facts (Some i) \<longleftrightarrow> c \<in> set (missing_dep_callees i)"
  "Mutates p \<in> entry_facts (Some i) \<longleftrightarrow> p \<in> mp_name ` set (mutated_params i)"
  by (auto simp: entry_facts_def)

lemma all_facts:
  "(\<forall>f. P f) \<longleftrightarrow> P Known \<and> (\<forall>n. P (Concern n)) \<and> (\<forall>c. P (Waits c)) \<and> (\<forall>p. P (Mutates p))"
  by (metis safety_fact.exhaust)

lemma facts_subset:
  "entry_facts (Some b) \<subseteq> entry_facts (Some a) \<longleftrightarrow>
     {n. bit (verdict b) n} \<subseteq> {n. bit (verdict a) n} \<and>
     set (missing_dep_callees b) \<subseteq> set (missing_dep_callees a) \<and>
     mp_name ` set (mutated_params b) \<subseteq> mp_name ` set (mutated_params a)"
  unfolding subset_iff all_facts mem_facts by simp

lemma facts_merge: "entry_facts (Some (fst (merge_ref a b))) = entry_facts (Some a) \<union> entry_facts (Some b)"
proof -
  have params: "mp_name ` set (mutated_params (fst (merge_ref a b))) =
      mp_name ` set (mutated_params a) \<union> mp_name ` set (mutated_params b)"
    by (simp add: merge_ref_parts extend_mutated_params_names)
  have bits: "{n. bit (verdict (fst (merge_ref a b))) n} = {n. bit (verdict a) n} \<union> {n. bit (verdict b) n}"
    by (auto simp: merge_ref_parts bit_or_iff)
  have callees: "set (missing_dep_callees (fst (merge_ref a b))) =
      set (missing_dep_callees a) \<union> set (missing_dep_callees b)"
    by (simp add: merge_ref_parts)
  show ?thesis
    unfolding entry_facts_def option.case params bits callees image_Un by blast
qed

lemma facts_below: "entry_facts (Some b) \<subseteq> entry_facts (Some a) \<longleftrightarrow> info_below b a"
proof -
  have "{n. bit (verdict b) n} \<subseteq> {n. bit (verdict a) n} \<longleftrightarrow> verdict a OR verdict b = verdict a"
  proof
    assume sub: "{n. bit (verdict b) n} \<subseteq> {n. bit (verdict a) n}"
    show "verdict a OR verdict b = verdict a" by (rule bit_word_eqI) (use sub in \<open>auto simp: bit_or_iff\<close>)
  next
    assume eq: "verdict a OR verdict b = verdict a"
    show "{n. bit (verdict b) n} \<subseteq> {n. bit (verdict a) n}"
    proof safe
      fix n
      assume "bit (verdict b) n"
      then have "bit (verdict a OR verdict b) n" by (simp add: bit_or_iff)
      then show "bit (verdict a) n" by (simp only: eq)
    qed
  qed
  then show ?thesis
    unfolding facts_subset info_below_def by blast
qed

lemma merge_changed_facts: "snd (merge_ref a b) \<longleftrightarrow> \<not> entry_facts (Some b) \<subseteq> entry_facts (Some a)"
  by (simp add: merge_ref_changed merge_ref_eq_iff facts_below)

section \<open>Reading the modules\<close>

definition entry_of :: "cached_module list \<Rightarrow> modname \<times> string \<Rightarrow> function_safety_info option" where
  "entry_of ms key =
     (case module_index ms (fst key) of
        None \<Rightarrow> None
      | Some i \<Rightarrow> map_of (cm_functions (ms ! i)) (snd key))"

lemma module_index_SomeD:
  "module_index ms name = Some i \<Longrightarrow> i < length ms \<and> cm_name (ms ! i) = name"
  by (auto simp: module_index_def set_zip dest!: map_of_SomeD)

lemma module_index_names: "map cm_name ms = map cm_name ms' \<Longrightarrow> module_index ms = module_index ms'"
  by (auto simp: module_index_def fun_eq_iff dest: map_eq_imp_length_eq)

definition src_key :: "cached_re_export \<Rightarrow> modname \<times> string" where
  "src_key re = (imported_module re, imported_attr re)"

definition dst_key :: "cached_re_export \<Rightarrow> modname \<times> string" where
  "dst_key re = (exported_module re, exported_attr re)"

definition present :: "cached_module list \<Rightarrow> modname \<Rightarrow> bool" where
  "present ms m \<longleftrightarrow> module_index ms m \<noteq> None"

lemma present_iff: "present ms m \<longleftrightarrow> m \<in> cm_name ` set ms"
proof -
  have "fst ` set (rev (zip (map cm_name ms) [0..<length ms])) = cm_name ` set ms"
    by (force simp: set_zip in_set_conv_nth)
  then show ?thesis by (simp add: present_def module_index_def map_of_eq_None_iff)
qed

definition live :: "cached_module list \<Rightarrow> cached_re_export \<Rightarrow> bool" where
  "live ms re \<longleftrightarrow> present ms (imported_module re) \<and> present ms (exported_module re)"

definition bare :: "cached_module \<Rightarrow> cached_module" where
  "bare m = m\<lparr>cm_functions := []\<rparr>"

lemma bare_names: "map bare ms = map bare ms' \<Longrightarrow> map cm_name ms = map cm_name ms'"
proof -
  have "map cm_name ms = map cm_name (map bare ms)" for ms by (simp add: bare_def)
  then show "map bare ms = map bare ms' \<Longrightarrow> ?thesis" by metis
qed

lemma merge_entry_facts:
  assumes "merge_function_safety_entry_ref fs attr incoming = (fs', changed)"
  shows "entry_facts (map_of fs' a) = (if a = attr then entry_facts (map_of fs a) \<union> entry_facts (Some incoming) else entry_facts (map_of fs a))"
    "changed \<longleftrightarrow> \<not> entry_facts (Some incoming) \<subseteq> entry_facts (map_of fs attr)"
  using assms
  by (auto simp: merge_function_safety_entry_ref_def split_def Let_def AList.update_conv' facts_merge
      merge_changed_facts split: option.splits)

lemma propagate_edge_spec:
  assumes "propagate_edge re ms = (ms', changed)"
  shows "map bare ms' = map bare ms"
    "entry_facts (entry_of ms' key) =
      (if key = dst_key re \<and> live ms re
       then entry_facts (entry_of ms key) \<union> entry_facts (entry_of ms (src_key re)) else entry_facts (entry_of ms key))"
    "changed \<longleftrightarrow> live ms re \<and> \<not> entry_facts (entry_of ms (src_key re)) \<subseteq> entry_facts (entry_of ms (dst_key re))"
proof -
  consider (same) "\<not> live ms re \<or> entry_of ms (src_key re) = None" "ms' = ms" "\<not> changed"
    | (merged) src dst safety fs where
      "module_index ms (imported_module re) = Some src" "module_index ms (exported_module re) = Some dst"
      "map_of (cm_functions (ms ! src)) (imported_attr re) = Some safety"
      "merge_function_safety_entry_ref (cm_functions (ms ! dst)) (exported_attr re) safety = (fs, changed)"
      "ms' = ms[dst := (ms ! dst)\<lparr>cm_functions := fs\<rparr>]"
  proof (cases "module_index ms (imported_module re)"; cases "module_index ms (exported_module re)")
    fix src dst
    assume idx: "module_index ms (imported_module re) = Some src" "module_index ms (exported_module re) = Some dst"
    show thesis
    proof (cases "map_of (cm_functions (ms ! src)) (imported_attr re)")
      case None
      then show ?thesis
        using assms idx by (intro same) (simp_all add: propagate_edge_def entry_of_def src_key_def)
    next
      case (Some safety)
      then show ?thesis
        using assms idx by (intro merged [OF idx Some])
          (auto simp: propagate_edge_def split_def Let_def prod_eq_iff)
    qed
  qed (use assms in \<open>auto intro!: same simp: propagate_edge_def live_def present_def\<close>)
  then have "map bare ms' = map bare ms \<and>
      entry_facts (entry_of ms' key) =
      (if key = dst_key re \<and> live ms re
       then entry_facts (entry_of ms key) \<union> entry_facts (entry_of ms (src_key re)) else entry_facts (entry_of ms key)) \<and>
      (changed \<longleftrightarrow> live ms re \<and> \<not> entry_facts (entry_of ms (src_key re)) \<subseteq> entry_facts (entry_of ms (dst_key re)))"
  proof cases
    case same
    then show ?thesis by auto
  next
    case merged
    have dst: "dst < length ms" "cm_name (ms ! dst) = exported_module re"
      using module_index_SomeD [OF merged(2)] by simp_all
    have bare: "map bare ms' = map bare ms"
      using dst(1) by (simp add: merged(5) map_update bare_def list_update_same_conv)
    have index: "module_index (ms[dst := (ms ! dst)\<lparr>cm_functions := fs\<rparr>]) = module_index ms"
      using module_index_names [OF bare_names [OF bare]] by (simp only: merged(5))
    have live: "live ms re" using merged by (simp add: live_def present_def)
    have src: "entry_of ms (src_key re) = Some safety"
      using merged by (simp add: entry_of_def src_key_def)
    have "entry_of ms' key = (if fst key = exported_module re then map_of fs (snd key) else entry_of ms key)"
    proof (cases "fst key = exported_module re")
      case True
      then show ?thesis using merged(2,5) dst by (simp add: entry_of_def index)
    next
      case False
      then have "module_index ms (fst key) \<noteq> Some dst"
        using module_index_SomeD [of ms "fst key" dst] dst(2) by auto
      then show ?thesis using False merged(5) by (auto simp: entry_of_def index split: option.split)
    qed
    moreover have "entry_of ms key = map_of (cm_functions (ms ! dst)) (snd key)" if "fst key = exported_module re"
      using that merged by (simp add: entry_of_def)
    moreover have "entry_of ms (dst_key re) = map_of (cm_functions (ms ! dst)) (exported_attr re)"
      using merged by (simp add: entry_of_def dst_key_def)
    moreover note merge_entry_facts [OF merged(4)]
    ultimately show ?thesis
      using bare live src by (cases key) (auto simp: dst_key_def)
  qed
  then show "map bare ms' = map bare ms"
    "entry_facts (entry_of ms' key) =
      (if key = dst_key re \<and> live ms re
       then entry_facts (entry_of ms key) \<union> entry_facts (entry_of ms (src_key re)) else entry_facts (entry_of ms key))"
    "changed \<longleftrightarrow> live ms re \<and> \<not> entry_facts (entry_of ms (src_key re)) \<subseteq> entry_facts (entry_of ms (dst_key re))"
    by blast+
qed

section \<open>The loop\<close>

text \<open>Everything any module of the cache says of any function.\<close>

definition all_facts_of :: "cached_module list \<Rightarrow> safety_fact set" where
  "all_facts_of ms = (\<Union>key. entry_facts (entry_of ms key))"

lemma finite_all_facts_of: "finite (all_facts_of ms)"
proof -
  have "all_facts_of ms \<subseteq> (\<Union>m\<in>set ms. \<Union>p\<in>set (cm_functions m). entry_facts (Some (snd p)))"
  proof
    fix f
    assume "f \<in> all_facts_of ms"
    then obtain key info where key: "entry_of ms key = Some info" "f \<in> entry_facts (Some info)"
      unfolding all_facts_of_def by (metis UN_E facts_None empty_iff not_None_eq)
    then obtain i where i: "module_index ms (fst key) = Some i" "map_of (cm_functions (ms ! i)) (snd key) = Some info"
      by (auto simp: entry_of_def split: option.splits)
    then have "ms ! i \<in> set ms" "(snd key, info) \<in> set (cm_functions (ms ! i))"
      using module_index_SomeD by (auto dest: map_of_SomeD)
    with key(2) show "f \<in> (\<Union>m\<in>set ms. \<Union>p\<in>set (cm_functions m). entry_facts (Some (snd p)))" by force
  qed
  moreover have "finite (\<Union>m\<in>set ms. \<Union>p\<in>set (cm_functions m). entry_facts (Some (snd p)))" by simp
  ultimately show ?thesis by (rule finite_subset)
qed

lemma propagate_edge_all_facts:
  assumes "propagate_edge re ms = (ms', changed)"
  shows "all_facts_of ms' \<subseteq> all_facts_of ms"
  unfolding all_facts_of_def using propagate_edge_spec(2) [OF assms] by (auto split: if_splits)

text \<open>What the destinations of the edges may still learn.\<close>

definition missing_facts :: "cached_re_export list \<Rightarrow> cached_module list \<Rightarrow> nat" where
  "missing_facts res ms = (\<Sum>re\<leftarrow>res. card (all_facts_of ms - entry_facts (entry_of ms (dst_key re))))"

lemma sum_list_strict:
  fixes f g :: "'a \<Rightarrow> nat"
  assumes "\<And>x. x \<in> set xs \<Longrightarrow> f x \<le> g x" "y \<in> set xs" "f y < g y"
  shows "sum_list (map f xs) < sum_list (map g xs)"
  using assms
proof (induction xs)
  case (Cons x xs)
  have le: "sum_list (map f xs) \<le> sum_list (map g xs)"
    by (rule sum_list_mono) (use Cons.prems(1) in auto)
  show ?case
  proof (cases "y \<in> set xs")
    case True
    have "sum_list (map f xs) < sum_list (map g xs)"
      by (rule Cons.IH) (use Cons.prems True in auto)
    then show ?thesis using Cons.prems(1) [of x] by simp
  next
    case False
    then show ?thesis using Cons.prems le by simp
  qed
qed simp

lemma missing_facts_decrease:
  assumes step: "propagate_edge re ms = (ms', True)" and re: "re \<in> set res"
  shows "missing_facts res ms' < missing_facts res ms"
  unfolding missing_facts_def
proof (rule sum_list_strict [OF _ re])
  have sub: "all_facts_of ms' \<subseteq> all_facts_of ms" by (rule propagate_edge_all_facts [OF step])
  have mono: "entry_facts (entry_of ms key) \<subseteq> entry_facts (entry_of ms' key)" for key
    unfolding propagate_edge_spec(2) [OF step, of key] by auto
  show "card (all_facts_of ms' - entry_facts (entry_of ms' (dst_key e))) \<le>
      card (all_facts_of ms - entry_facts (entry_of ms (dst_key e)))" for e
    using sub mono [of "dst_key e"] by (intro card_mono) (auto simp: finite_all_facts_of)
  have live: "live ms re" "\<not> entry_facts (entry_of ms (src_key re)) \<subseteq> entry_facts (entry_of ms (dst_key re))"
    using propagate_edge_spec(3) [OF step] by simp_all
  then obtain f where f: "f \<in> entry_facts (entry_of ms (src_key re))" "f \<notin> entry_facts (entry_of ms (dst_key re))" by blast
  have "f \<in> entry_facts (entry_of ms' (dst_key re))"
    using propagate_edge_spec(2) [OF step, of "dst_key re"] live(1) f(1) by simp
  moreover have "f \<in> all_facts_of ms" using f(1) unfolding all_facts_of_def by blast
  ultimately have "all_facts_of ms' - entry_facts (entry_of ms' (dst_key re)) \<subset>
      all_facts_of ms - entry_facts (entry_of ms (dst_key re))"
    using sub mono [of "dst_key re"] f(2) by blast
  then show "card (all_facts_of ms' - entry_facts (entry_of ms' (dst_key re))) <
      card (all_facts_of ms - entry_facts (entry_of ms (dst_key re)))"
    by (intro psubset_card_mono) (simp_all add: finite_all_facts_of)
qed

lemma enqueue_spec:
  assumes "enqueue js (queued, wl) = (queued', wl')" "\<forall>j\<in>set js. j < length queued"
    "\<forall>j<length queued. queued ! j \<longrightarrow> j \<in> set wl"
  shows "length queued' = length queued" "set wl' = set wl \<union> {j \<in> set js. \<not> queued ! j}"
    "\<forall>j<length queued. queued' ! j \<longrightarrow> j \<in> set wl'"
proof -
  have "length queued' = length queued \<and> set wl' = set wl \<union> {j \<in> set js. \<not> queued ! j} \<and>
      (\<forall>j<length queued. queued' ! j \<longrightarrow> j \<in> set wl')"
    using assms
  proof (induction js arbitrary: queued wl)
    case (Cons j js)
    show ?case
    proof (cases "queued ! j")
      case True
      then show ?thesis using Cons.IH [of queued wl] Cons.prems by auto
    next
      case False
      let ?q = "queued[j := True]"
      have ih: "length queued' = length ?q \<and> set wl' = set (wl @ [j]) \<union> {i \<in> set js. \<not> ?q ! i} \<and>
          (\<forall>i<length ?q. queued' ! i \<longrightarrow> i \<in> set wl')"
        by (rule Cons.IH) (use Cons.prems False in \<open>auto simp: nth_list_update\<close>)
      have "{i \<in> set js. \<not> ?q ! i} = {i \<in> set js. \<not> queued ! i} - {j}"
        using Cons.prems(2) by (auto simp: nth_list_update)
      then show ?thesis using ih False by auto
    qed
  qed auto
  then show "length queued' = length queued" "set wl' = set wl \<union> {j \<in> set js. \<not> queued ! j}"
    "\<forall>j<length queued. queued' ! j \<longrightarrow> j \<in> set wl'" by blast+
qed

text \<open>The second argument is \<open>queued\<close>. An index outside the edges would be a panic; none is queued.\<close>

function propagate_loop ::
  "cached_re_export list \<Rightarrow> bool list \<Rightarrow> nat list \<Rightarrow> cached_module list \<Rightarrow> cached_module list" where
  "propagate_loop res queued worklist ms =
     (if worklist = [] \<or> \<not> last worklist < length res then ms
      else
        let i = last worklist;
            (ms', changed) = propagate_edge (res ! i) ms;
            (queued', worklist') =
              (if changed then enqueue (dependents res (dst_key (res ! i))) (queued[i := False], butlast worklist)
               else (queued[i := False], butlast worklist))
        in propagate_loop res queued' worklist' ms')"
  by pat_completeness auto
termination
proof (relation "measures [\<lambda>(res, queued, worklist, ms). missing_facts res ms,
      \<lambda>(res, queued, worklist, ms). length worklist]", goal_cases)
  case (2 res queued worklist ms i p ms' changed q queued' worklist')
  show ?case
  proof (cases changed)
    case True
    then have "missing_facts res ms' < missing_facts res ms"
      using 2 by (intro missing_facts_decrease [of "res ! i"]) auto
    then show ?thesis by simp
  next
    case False
    have step: "propagate_edge (res ! i) ms = (ms', False)" using 2 False by simp
    have entries: "entry_facts (entry_of ms' key) = entry_facts (entry_of ms key)" for key
      using propagate_edge_spec(2,3) [OF step] by auto
    have "missing_facts res ms' = missing_facts res ms"
      by (simp add: missing_facts_def all_facts_of_def entries)
    moreover have "length worklist' < length worklist" using 2 False by auto
    ultimately show ?thesis by simp
  qed
qed simp

declare propagate_loop.simps [simp del]

definition propagate_re_export_safety :: "library_cache \<Rightarrow> library_cache" where
  "propagate_re_export_safety c =
     c\<lparr>lc_modules := propagate_loop (lc_re_exports c) (replicate (length (lc_re_exports c)) True)
        [0..<length (lc_re_exports c)] (lc_modules c)\<rparr>"

section \<open>What every name ends up knowing\<close>

definition re_edges ::
  "cached_re_export list \<Rightarrow> cached_module list \<Rightarrow> ((modname \<times> string) \<times> (modname \<times> string)) set" where
  "re_edges res ms = {(src_key re, dst_key re) | re. re \<in> set res \<and> live ms re}"

text \<open>The facts at a name and at the names it re-exports, directly or not.\<close>

definition learned ::
  "cached_re_export list \<Rightarrow> cached_module list \<Rightarrow> modname \<times> string \<Rightarrow> safety_fact set" where
  "learned res ms key = (\<Union>key' \<in> {key'. (key', key) \<in> (re_edges res ms)\<^sup>*}. entry_facts (entry_of ms key'))"

lemma learned_self: "entry_facts (entry_of ms key) \<subseteq> learned res ms key"
  unfolding learned_def by blast

lemma learned_step: "(a, b) \<in> re_edges res ms \<Longrightarrow> learned res ms a \<subseteq> learned res ms b"
  unfolding learned_def by (blast intro: rtrancl_into_rtrancl)

definition edge_done :: "cached_module list \<Rightarrow> cached_module list \<Rightarrow> cached_re_export \<Rightarrow> bool" where
  "edge_done ms0 ms re \<longleftrightarrow>
     (live ms0 re \<longrightarrow> entry_facts (entry_of ms (src_key re)) \<subseteq> entry_facts (entry_of ms (dst_key re)))"

definition loop_ok ::
  "cached_re_export list \<Rightarrow> cached_module list \<Rightarrow> bool list \<Rightarrow> nat list \<Rightarrow> cached_module list \<Rightarrow> bool" where
  "loop_ok res ms0 queued wl ms \<longleftrightarrow>
     map bare ms = map bare ms0 \<and>
     (\<forall>key. entry_facts (entry_of ms0 key) \<subseteq> entry_facts (entry_of ms key) \<and>
        entry_facts (entry_of ms key) \<subseteq> learned res ms0 key) \<and>
     length queued = length res \<and> (\<forall>j<length res. queued ! j \<longrightarrow> j \<in> set wl) \<and> (\<forall>j\<in>set wl. j < length res) \<and>
     (\<forall>j<length res. j \<notin> set wl \<longrightarrow> edge_done ms0 ms (res ! j))"

lemma live_bare: "map bare ms = map bare ms0 \<Longrightarrow> live ms = live ms0"
proof -
  assume "map bare ms = map bare ms0"
  then have "module_index ms = module_index ms0" by (rule module_index_names [OF bare_names])
  then show ?thesis by (simp add: live_def present_def fun_eq_iff)
qed

lemma loop_ok_step:
  assumes ok: "loop_ok res ms0 queued wl ms" and wl: "wl \<noteq> []" and i: "i = last wl"
    and step: "propagate_edge (res ! i) ms = (ms', changed)"
    and queue: "(queued', wl') =
      (if changed then enqueue (dependents res (dst_key (res ! i))) (queued[i := False], butlast wl)
       else (queued[i := False], butlast wl))"
  shows "loop_ok res ms0 queued' wl' ms'"
proof -
  let ?re = "res ! i" and ?deps = "dependents res (dst_key (res ! i))"
  have bare: "map bare ms = map bare ms0" and len: "length queued = length res"
    and flags: "\<forall>j<length res. queued ! j \<longrightarrow> j \<in> set wl" and bound: "\<forall>j\<in>set wl. j < length res"
    and waiting: "\<forall>j<length res. j \<notin> set wl \<longrightarrow> edge_done ms0 ms (res ! j)"
    using ok by (simp_all add: loop_ok_def)
  have range: "entry_facts (entry_of ms0 key) \<subseteq> entry_facts (entry_of ms key)"
    "entry_facts (entry_of ms key) \<subseteq> learned res ms0 key" for key
    using ok unfolding loop_ok_def by blast+
  have live: "live ms = live ms0" by (rule live_bare [OF bare])
  have wl_split: "set wl = insert i (set (butlast wl))"
    using wl i by (metis append_butlast_last_id insert_is_Un list.set(1) list.set(2) set_append sup_commute)
  have ilen: "i < length res" using bound wl_split by simp
  note entry = propagate_edge_spec(2) [OF step]
  have bare': "map bare ms' = map bare ms0" using propagate_edge_spec(1) [OF step] bare by simp
  have grow: "entry_facts (entry_of ms key) \<subseteq> entry_facts (entry_of ms' key)" for key
    unfolding entry by simp
  have le: "entry_facts (entry_of ms' key) \<subseteq> learned res ms0 key" for key
  proof (cases "key = dst_key ?re \<and> live ms ?re")
    case True
    then have "(src_key ?re, key) \<in> re_edges res ms0"
      using ilen live by (auto simp: re_edges_def)
    from learned_step [OF this] show ?thesis
      using range(2) [of key] range(2) [of "src_key ?re"] True by (auto simp: entry)
  next
    case False
    show ?thesis unfolding entry if_not_P [OF False] by (rule range(2))
  qed
  have flags0: "\<forall>j<length (queued[i := False]). queued[i := False] ! j \<longrightarrow> j \<in> set (butlast wl)"
    using flags wl_split len ilen by (auto simp: nth_list_update split: if_splits)
  have deps: "set ?deps = {j. j < length res \<and> src_key (res ! j) = dst_key ?re}"
    by (auto simp: dependents_def src_key_def)
  have same: "edge_done ms0 ms' (res ! j)"
    if "edge_done ms0 ms (res ! j)" "src_key (res ! j) \<noteq> dst_key ?re \<or> \<not> changed" for j
  proof -
    have "entry_facts (entry_of ms' (src_key (res ! j))) = entry_facts (entry_of ms (src_key (res ! j)))"
      using that(2) propagate_edge_spec(3) [OF step] by (auto simp: entry)
    then show ?thesis using that(1) grow [of "dst_key (res ! j)"] by (auto simp: edge_done_def)
  qed
  have self: "edge_done ms0 ms' ?re" if "src_key ?re \<noteq> dst_key ?re \<or> \<not> changed"
    using that propagate_edge_spec(3) [OF step] by (auto simp: edge_done_def entry live)
  show ?thesis
  proof (cases changed)
    case True
    then have q: "enqueue ?deps (queued[i := False], butlast wl) = (queued', wl')" using queue by simp
    note spec = enqueue_spec [OF q _ flags0]
    have bnd: "\<forall>j\<in>set ?deps. j < length (queued[i := False])" using len by (auto simp: dependents_def)
    note spec = spec [OF bnd]
    have wl': "set wl' = set (butlast wl) \<union> {j \<in> set ?deps. \<not> queued[i := False] ! j}" by (rule spec(2))
    have "edge_done ms0 ms' (res ! j)" if j: "j < length res" "j \<notin> set wl'" for j
    proof -
      have notin: "j \<notin> set (butlast wl)" using j(2) wl' by blast
      have "src_key (res ! j) \<noteq> dst_key ?re"
      proof
        assume "src_key (res ! j) = dst_key ?re"
        then have "j \<in> set ?deps" using j(1) deps by blast
        then have "queued[i := False] ! j" using j(2) wl' by blast
        then show False using flags0 notin j(1) len by simp
      qed
      then show ?thesis using same [of j] self waiting j(1) notin wl_split by (cases "j = i") auto
    qed
    moreover have "\<forall>j\<in>set wl'. j < length res" using wl' bound wl_split bnd len by auto
    ultimately show ?thesis
      using bare' grow range(1) le spec(1,3) len unfolding loop_ok_def by (simp add: subset_trans) blast
  next
    case False
    then have q: "queued' = queued[i := False]" "wl' = butlast wl" using queue by simp_all
    have "edge_done ms0 ms' (res ! j)" if "j < length res" "j \<notin> set wl'" for j
      using that same [of j] self waiting wl_split False q by (cases "j = i") auto
    then show ?thesis
      using bare' grow range(1) le flags0 len bound wl_split q unfolding loop_ok_def
      by (simp add: subset_trans) blast
  qed
qed

lemma propagate_loop_ok:
  "loop_ok res ms0 queued wl ms \<Longrightarrow> \<exists>queued'. loop_ok res ms0 queued' [] (propagate_loop res queued wl ms)"
proof (induction res queued wl ms rule: propagate_loop.induct)
  case (1 res queued wl ms)
  show ?case
  proof (cases "wl = []")
    case True
    then have "propagate_loop res queued wl ms = ms" by (subst propagate_loop.simps) simp
    then show ?thesis using "1.prems" True by metis
  next
    case False
    then have i: "last wl < length res" using "1.prems" by (auto simp: loop_ok_def)
    obtain ms' changed where step: "propagate_edge (res ! last wl) ms = (ms', changed)" by fastforce
    obtain queued' wl' where queue: "(queued', wl') =
      (if changed then enqueue (dependents res (dst_key (res ! last wl))) (queued[last wl := False], butlast wl)
       else (queued[last wl := False], butlast wl))" by (metis surj_pair)
    have eq: "propagate_loop res queued wl ms = propagate_loop res queued' wl' ms'"
      using False i step queue [symmetric] by (simp add: propagate_loop.simps [of res queued wl ms])
    have nonempty: "\<not> (wl = [] \<or> \<not> last wl < length res)" using False i by simp
    show ?thesis
      unfolding eq
      by (rule "1.IH" [OF nonempty refl step [symmetric] refl queue refl])
        (rule loop_ok_step [OF "1.prems" False refl step queue])
  qed
qed

lemma propagate_done:
  fixes c :: library_cache
  defines "res \<equiv> lc_re_exports c"
  shows "\<exists>queued. loop_ok res (lc_modules c) queued [] (lc_modules (propagate_re_export_safety c))"
proof -
  have "loop_ok res (lc_modules c) (replicate (length res) True) [0..<length res] (lc_modules c)"
    by (simp add: loop_ok_def learned_self)
  from propagate_loop_ok [OF this] show ?thesis
    by (simp add: propagate_re_export_safety_def res_def)
qed

lemma propagate_bare: "map bare (lc_modules (propagate_re_export_safety c)) = map bare (lc_modules c)"
  using propagate_done [of c] unfolding loop_ok_def by blast

text \<open>
  C12: Propagation ends, and when it does the verdict entry at a name holds exactly the facts (its
  existence, each concern, each callee waited for, each mutated parameter) that the entries at the
  names it re-exports through any chain of re-exports held at the start; nothing else of a module
  changes.
\<close>
theorem propagate_re_export_safety_exact:
  fixes c :: library_cache
  defines "ms \<equiv> lc_modules c" and "ms' \<equiv> lc_modules (propagate_re_export_safety c)"
  shows "entry_facts (entry_of ms' key) = learned (lc_re_exports c) ms key \<and> map bare ms' = map bare ms \<and>
    propagate_re_export_safety c = c\<lparr>lc_modules := ms'\<rparr>"
proof -
  let ?res = "lc_re_exports c"
  obtain queued where ok: "loop_ok ?res ms queued [] ms'"
    using propagate_done [of c] unfolding ms_def ms'_def by blast
  have "learned ?res ms key \<subseteq> entry_facts (entry_of ms' key)"
  proof -
    have "entry_facts (entry_of ms' a) \<subseteq> entry_facts (entry_of ms' b)" if "(a, b) \<in> (re_edges ?res ms)\<^sup>*" for a b
      using that
    proof (induction rule: rtrancl_induct)
      case (step b d)
      then obtain re where re: "re \<in> set ?res" "live ms re" "b = src_key re" "d = dst_key re"
        by (auto simp: re_edges_def)
      then have "edge_done ms ms' re" using ok by (auto simp: loop_ok_def in_set_conv_nth)
      then show ?case using step.IH re by (auto simp: edge_done_def)
    qed simp
    then show ?thesis using ok unfolding learned_def loop_ok_def by blast
  qed
  moreover have "entry_facts (entry_of ms' key) \<subseteq> learned ?res ms key" "map bare ms' = map bare ms"
    using ok unfolding loop_ok_def by blast+
  moreover have "propagate_re_export_safety c = c\<lparr>lc_modules := ms'\<rparr>"
    unfolding ms'_def by (simp add: propagate_re_export_safety_def)
  ultimately show ?thesis by blast
qed

end
