(* ===== verification/Cache_Merge.thy ===== *)
theory Cache_Merge
  imports Cache_Propagate
begin

text \<open>
  Combining artifacts (\<open>src/cache/merge.rs\<close>): a module compiled into several libraries has one
  record per library, and the reduce coalesces them. Hash sets are lists and hash maps are
  association lists, in any order. Rust's unstable sort leaves the order of ties open; here ties
  keep their order.
\<close>

section \<open>Lists\<close>

text \<open>Keeping the first of each, given those already seen.\<close>

fun keep_novel :: "'a set \<Rightarrow> 'a list \<Rightarrow> 'a list" where
  "keep_novel seen [] = []"
| "keep_novel seen (x # xs) =
     (if x \<in> seen then keep_novel seen xs else x # keep_novel (insert x seen) xs)"

definition extend_deduped :: "'a list \<Rightarrow> 'a list \<Rightarrow> 'a list" where
  "extend_deduped target other = target @ keep_novel (set target) other"

definition dedupe_implicit_imports :: "modname list \<Rightarrow> modname list" where
  "dedupe_implicit_imports implicit = keep_novel {} implicit"

text \<open>\<open>Vec::dedup_by\<close>: of consecutive elements in one bucket the first stays.\<close>

fun dedup_by :: "('a \<Rightarrow> 'a \<Rightarrow> bool) \<Rightarrow> 'a list \<Rightarrow> 'a list" where
  "dedup_by same (x # y # ys) =
     (if same y x then dedup_by same (x # ys) else x # dedup_by same (y # ys))"
| "dedup_by same xs = xs"

definition retain_in :: "'a list \<Rightarrow> 'a list \<Rightarrow> 'a list" where
  "retain_in xs other = filter (\<lambda>x. x \<in> set other) xs"

section \<open>Two records of one module\<close>

definition merge_errors ::
  "(string \<Rightarrow> string \<Rightarrow> ordering) \<Rightarrow> safety_error list \<Rightarrow> safety_error list \<Rightarrow> safety_error list" where
  "merge_errors mcmp target other =
     dedup_by (error_eq mcmp) (sort_by (error_cmp mcmp) (target @ other))"

definition merge_cached_safety ::
  "(string \<Rightarrow> string \<Rightarrow> ordering) \<Rightarrow> cached_safety \<Rightarrow> cached_safety \<Rightarrow> cached_safety" where
  "merge_cached_safety mcmp self other =
     (case (self, other) of
        (CachedAnalysisError e, _) \<Rightarrow> CachedAnalysisError e
      | (_, CachedAnalysisError e) \<Rightarrow> CachedAnalysisError e
      | (CachedOk this, CachedOk that) \<Rightarrow>
          CachedOk \<lparr>c_errors = merge_errors mcmp (c_errors this) (c_errors that),
            c_overrides = merge_errors mcmp (c_overrides this) (c_overrides that),
            c_implicit = dedup_by (=) (sort_by mcmp (c_implicit this @ c_implicit that))\<rparr>)"

definition merge_function_tables :: "func_table \<Rightarrow> func_table \<Rightarrow> func_table" where
  "merge_function_tables self other =
     foldl (\<lambda>fs (name, info).
         case map_of fs name of
           Some existing \<Rightarrow> AList.update name (fst (merge_info existing info)) fs
         | None \<Rightarrow> AList.update name info fs) self other"

definition merge_cached_module ::
  "(string \<Rightarrow> string \<Rightarrow> ordering) \<Rightarrow> cached_module \<Rightarrow> cached_module \<Rightarrow> cached_module" where
  "merge_cached_module mcmp self other =
     \<lparr>cm_name = cm_name self,
      cm_safety = merge_cached_safety mcmp (cm_safety self) (cm_safety other),
      cm_imports = small_extend (cm_imports self) (cm_imports other),
      cm_missing = retain_in (cm_missing self) (cm_missing other),
      cm_ambiguous = small_extend (cm_ambiguous self) (cm_ambiguous other),
      cm_side_effects = small_extend (cm_side_effects self) (cm_side_effects other),
      cm_functions = merge_function_tables (cm_functions self) (cm_functions other),
      cm_mutations = extend_deduped (cm_mutations self) (cm_mutations other),
      cm_properties = dedup_by (=) (sort_by (property_candidate_cmp mcmp) (cm_properties self @ cm_properties other)),
      cm_subclasses = dedup_by (=) (sort_by (subclass_candidate_cmp mcmp) (cm_subclasses self @ cm_subclasses other)),
      cm_guard_imports = retain_in (cm_guard_imports self) (cm_guard_imports other)\<rparr>"

text \<open>The module at the write position, and the modules still to read.\<close>

fun merge_run ::
  "(string \<Rightarrow> string \<Rightarrow> ordering) \<Rightarrow> cached_module \<Rightarrow> cached_module list \<Rightarrow> cached_module list" where
  "merge_run mcmp write [] = [write]"
| "merge_run mcmp write (read # rest) =
     (if cm_name write = cm_name read then merge_run mcmp (merge_cached_module mcmp write read) rest
      else write # merge_run mcmp read rest)"

fun merge_duplicate_modules ::
  "(string \<Rightarrow> string \<Rightarrow> ordering) \<Rightarrow> cached_module list \<Rightarrow> cached_module list" where
  "merge_duplicate_modules mcmp [] = []"
| "merge_duplicate_modules mcmp (m # ms) = merge_run mcmp m ms"

section \<open>Class facts\<close>

definition fold_fqn_lists :: "base_map \<Rightarrow> base_map \<Rightarrow> base_map" where
  "fold_fqn_lists merged records =
     foldl (\<lambda>m (class_fqn, bases).
         AList.update class_fqn
           (small_extend (case map_of m class_fqn of None \<Rightarrow> [] | Some existing \<Rightarrow> existing) bases) m)
       merged records"

definition fold_constructor_callees ::
  "(modname \<times> constructor_callees) list \<Rightarrow> (modname \<times> constructor_callees) list \<Rightarrow>
     (modname \<times> constructor_callees) list" where
  "fold_constructor_callees merged records =
     foldl (\<lambda>m (class_fqn, recorded).
         case map_of m class_fqn of
           Some existing \<Rightarrow>
             (let combined = merged_with existing recorded
              in if callees_empty combined then AList.delete class_fqn m
                 else AList.update class_fqn combined m)
         | None \<Rightarrow> if callees_empty recorded then m else AList.update class_fqn recorded m)
       merged records"

definition merge_class_properties :: "(modname \<times> string list) list \<Rightarrow> (modname \<times> string list) list" where
  "merge_class_properties records =
     foldl (\<lambda>m (class_fqn, properties).
         AList.update class_fqn
           (small_extend (case map_of m class_fqn of None \<Rightarrow> [] | Some existing \<Rightarrow> existing) properties) m)
       [] records"

section \<open>Dropping verified errors\<close>

definition retain_unverified_errors ::
  "cached_module_safety \<Rightarrow> (safety_error \<Rightarrow> bool) \<Rightarrow> cached_module_safety \<times> bool" where
  "retain_unverified_errors safety is_verified_safe =
     (let kept = filter (\<lambda>e. \<not> could_be_caused_by_missing_import (err_kind e) \<or> \<not> is_verified_safe e)
                   (c_errors safety)
      in (safety\<lparr>c_errors := kept\<rparr>, length kept < length (c_errors safety)))"

section \<open>Re-exports and whole caches\<close>

text \<open>The map of one task, keyed by exported module and attribute, and the union of two maps.\<close>

type_synonym re_export_dedup_map = "((modname \<times> string) \<times> cached_re_export) list"

definition dedup_insert :: "re_export_dedup_map \<Rightarrow> (modname \<times> string) \<times> cached_re_export \<Rightarrow> re_export_dedup_map" where
  "dedup_insert m entry = (if fst entry \<in> fst ` set m then m else m @ [entry])"

definition dedup_task :: "cached_re_export list list \<Rightarrow> re_export_dedup_map" where
  "dedup_task batches =
     foldl (\<lambda>m batch. foldl (\<lambda>m re. dedup_insert m (dst_key re, re)) m batch) [] batches"

definition dedup_union :: "re_export_dedup_map \<Rightarrow> re_export_dedup_map \<Rightarrow> re_export_dedup_map" where
  "dedup_union a b =
     (let (large, small) = (if length a \<ge> length b then (a, b) else (b, a))
      in foldl dedup_insert large small)"

definition re_export_cmp ::
  "(string \<Rightarrow> string \<Rightarrow> ordering) \<Rightarrow> cached_re_export \<Rightarrow> cached_re_export \<Rightarrow> ordering" where
  "re_export_cmp mcmp a b =
     then_with (then_with (then_with
       (mcmp (exported_module a) (exported_module b))
       (cmp_of (exported_attr a) (exported_attr b)))
       (mcmp (imported_module a) (imported_module b)))
       (cmp_of (imported_attr a) (imported_attr b))"

definition return_type_cmp ::
  "(string \<Rightarrow> string \<Rightarrow> ordering) \<Rightarrow> cached_return_type \<Rightarrow> cached_return_type \<Rightarrow> ordering" where
  "return_type_cmp mcmp a b =
     then_with (mcmp (rt_function a) (rt_function b)) (mcmp (rt_class a) (rt_class b))"

text \<open>\<open>CachedExports::sort_and_dedup\<close>, on the two lists.\<close>

definition sort_and_dedup ::
  "(string \<Rightarrow> string \<Rightarrow> ordering) \<Rightarrow> cached_re_export list \<Rightarrow> cached_return_type list \<Rightarrow>
     cached_re_export list \<times> cached_return_type list" where
  "sort_and_dedup mcmp res rts =
     (dedup_by (\<lambda>a b. exported_module a = exported_module b \<and> exported_attr a = exported_attr b)
        (sort_by (re_export_cmp mcmp) res),
      dedup_by (\<lambda>a b. rt_function a = rt_function b) (sort_by (return_type_cmp mcmp) rts))"

definition name_cmp ::
  "(string \<Rightarrow> string \<Rightarrow> ordering) \<Rightarrow> cached_module \<Rightarrow> cached_module \<Rightarrow> ordering" where
  "name_cmp mcmp a b = mcmp (cm_name a) (cm_name b)"

record merged_class_facts =
  mf_class_bases :: base_map
  mf_constructor_callees :: "(modname \<times> constructor_callees) list"

text \<open>\<open>tasks\<close> is how the batches of re-exports were shared out; their concatenation is the batches.\<close>

definition merge_dep_caches ::
  "(string \<Rightarrow> string \<Rightarrow> ordering) \<Rightarrow> (cached_re_export list list \<Rightarrow> cached_re_export list list list) \<Rightarrow>
     library_cache \<Rightarrow> library_cache list \<Rightarrow> library_cache \<times> merged_class_facts" where
  "merge_dep_caches mcmp tasks self deps =
     (let modules = foldl (\<lambda>ms d. ms @ lc_modules d) (lc_modules self) deps;
          batches = lc_re_exports self # map lc_re_exports deps;
          facts = \<lparr>mf_class_bases = foldl (\<lambda>m d. fold_fqn_lists m (lc_class_bases d)) [] deps,
                   mf_constructor_callees =
                     foldl (\<lambda>m d. fold_constructor_callees m (lc_constructor_callees d)) [] deps\<rparr>;
          properties = foldl (\<lambda>ps d. ps @ lc_class_properties d) (lc_class_properties self) deps;
          return_types = foldl (\<lambda>rs d. rs @ lc_return_types d) (lc_return_types self) deps;
          deduped = foldl dedup_union [] (map dedup_task (tasks batches));
          (res, rts) = sort_and_dedup mcmp (map snd deduped) return_types
      in (self\<lparr>lc_modules := merge_duplicate_modules mcmp
                 (sort_by (name_cmp mcmp) modules),
               lc_re_exports := res, lc_return_types := rts, lc_class_properties := properties\<rparr>,
          facts))"

section \<open>What the list operations keep\<close>

lemma set_keep_novel [simp]: "set (keep_novel seen xs) = set xs - seen"
  by (induction seen xs rule: keep_novel.induct) auto

lemma distinct_keep_novel [simp]: "distinct (keep_novel seen xs)"
  by (induction seen xs rule: keep_novel.induct) auto

lemma set_extend_deduped [simp]: "set (extend_deduped xs ys) = set xs \<union> set ys"
  by (auto simp: extend_deduped_def)

lemma set_retain_in [simp]: "set (retain_in xs ys) = set xs \<inter> set ys"
  by (auto simp: retain_in_def)

lemma dedup_by_image:
  "(\<And>x y. same x y \<Longrightarrow> f x = f y) \<Longrightarrow> f ` set (dedup_by same xs) = f ` set xs"
  by (induction same xs rule: dedup_by.induct) auto

lemma set_dedup_eq [simp]: "set (dedup_by (=) xs) = set xs"
  using dedup_by_image [of "(=)" "\<lambda>x. x" xs] by simp

lemma set_dedup_subset: "set (dedup_by same xs) \<subseteq> set xs"
  by (induction same xs rule: dedup_by.induct) auto

lemma error_eq_iff:
  "lawful_cmp mcmp (\<lambda>s. s) \<Longrightarrow> error_eq mcmp a b \<longleftrightarrow> serialize_error a = serialize_error b"
  by (auto simp: error_eq_def serialize_error_def lawful_cmp.equal_iff [OF lawful_error_cmp])

lemma merge_errors_image:
  "lawful_cmp mcmp (\<lambda>s. s) \<Longrightarrow>
     serialize_error ` set (merge_errors mcmp xs ys) = serialize_error ` (set xs \<union> set ys)"
  unfolding merge_errors_def by (subst dedup_by_image) (auto simp: error_eq_iff)

lemma merge_function_tables_facts:
  assumes "distinct (map fst other)"
  shows "entry_facts (map_of (merge_function_tables self other) f) = entry_facts (map_of self f) \<union> entry_facts (map_of other f)"
  using assms
proof (induction other arbitrary: self)
  case Nil
  then show ?case by (simp add: merge_function_tables_def)
next
  case (Cons p other)
  obtain name info where p: "p = (name, info)" by (cases p)
  let ?self = "case map_of self name of
      Some existing \<Rightarrow> AList.update name (fst (merge_info existing info)) self
    | None \<Rightarrow> AList.update name info self"
  have step: "entry_facts (map_of ?self f) = (if f = name then entry_facts (map_of self f) \<union> entry_facts (Some info) else entry_facts (map_of self f))"
    by (auto simp: AList.update_conv' merge_info_def facts_merge split: option.split)
  have "map_of other name = None" using Cons.prems p by (simp add: map_of_eq_None_iff)
  moreover have "entry_facts (map_of (merge_function_tables ?self other) f) = entry_facts (map_of ?self f) \<union> entry_facts (map_of other f)"
    using Cons.prems by (intro Cons.IH) simp
  ultimately show ?case
    unfolding step by (auto simp: merge_function_tables_def p)
qed

section \<open>What a merged module says\<close>

fun safety_ok :: "cached_safety \<Rightarrow> cached_module_safety option" where
  "safety_ok (CachedOk s) = Some s"
| "safety_ok (CachedAnalysisError e) = None"

text \<open>
  The module that \<open>copies\<close> describe together: an error of the analysis wins, else every error of
  a copy stays, up to its source range; an import is missing only if it is so in all copies, and
  written only under a guard only if it is so in all.
\<close>

definition combined_safety :: "cached_safety \<Rightarrow> cached_module set \<Rightarrow> bool" where
  "combined_safety safety copies \<longleftrightarrow>
     (case safety_ok safety of
        None \<Rightarrow> (\<exists>c\<in>copies. safety_ok (cm_safety c) = None)
      | Some s \<Rightarrow>
          (\<forall>c\<in>copies. safety_ok (cm_safety c) \<noteq> None) \<and>
          serialize_error ` set (c_errors s) =
            (\<Union>c\<in>copies. serialize_error ` set (c_errors (the (safety_ok (cm_safety c))))) \<and>
          serialize_error ` set (c_overrides s) =
            (\<Union>c\<in>copies. serialize_error ` set (c_overrides (the (safety_ok (cm_safety c))))) \<and>
          set (c_implicit s) = (\<Union>c\<in>copies. set (c_implicit (the (safety_ok (cm_safety c))))))"

definition combined :: "cached_module \<Rightarrow> cached_module set \<Rightarrow> bool" where
  "combined m copies \<longleftrightarrow>
     (\<forall>c\<in>copies. cm_name c = cm_name m) \<and>
     set (cm_imports m) = (\<Union>c\<in>copies. set (cm_imports c)) \<and>
     set (cm_missing m) = (\<Inter>c\<in>copies. set (cm_missing c)) \<and>
     set (cm_ambiguous m) = (\<Union>c\<in>copies. set (cm_ambiguous c)) \<and>
     set (cm_side_effects m) = (\<Union>c\<in>copies. set (cm_side_effects c)) \<and>
     (\<forall>f. entry_facts (map_of (cm_functions m) f) = (\<Union>c\<in>copies. entry_facts (map_of (cm_functions c) f))) \<and>
     set (cm_mutations m) = (\<Union>c\<in>copies. set (cm_mutations c)) \<and>
     set (cm_properties m) = (\<Union>c\<in>copies. set (cm_properties c)) \<and>
     set (cm_subclasses m) = (\<Union>c\<in>copies. set (cm_subclasses c)) \<and>
     set (cm_guard_imports m) = (\<Inter>c\<in>copies. set (cm_guard_imports c)) \<and>
     combined_safety (cm_safety m) copies"

lemma combined_single: "combined m {m}"
  by (auto simp: combined_def combined_safety_def split: option.split)

lemma merge_safety_ok:
  assumes "lawful_cmp mcmp (\<lambda>s. s)"
  shows "safety_ok (merge_cached_safety mcmp a b) = None \<longleftrightarrow> safety_ok a = None \<or> safety_ok b = None"
    "safety_ok (merge_cached_safety mcmp a b) = Some s \<Longrightarrow>
       \<exists>sa sb. safety_ok a = Some sa \<and> safety_ok b = Some sb \<and>
         serialize_error ` set (c_errors s) =
           serialize_error ` set (c_errors sa) \<union> serialize_error ` set (c_errors sb) \<and>
         serialize_error ` set (c_overrides s) =
           serialize_error ` set (c_overrides sa) \<union> serialize_error ` set (c_overrides sb) \<and>
         set (c_implicit s) = set (c_implicit sa) \<union> set (c_implicit sb)"
proof -
  show "safety_ok (merge_cached_safety mcmp a b) = None \<longleftrightarrow> safety_ok a = None \<or> safety_ok b = None"
    by (cases a; cases b) (simp_all add: merge_cached_safety_def)
  assume s: "safety_ok (merge_cached_safety mcmp a b) = Some s"
  then obtain sa sb where ab: "a = CachedOk sa" "b = CachedOk sb"
    by (cases a; cases b) (simp_all add: merge_cached_safety_def)
  then have "s = \<lparr>c_errors = merge_errors mcmp (c_errors sa) (c_errors sb),
      c_overrides = merge_errors mcmp (c_overrides sa) (c_overrides sb),
      c_implicit = dedup_by (=) (sort_by mcmp (c_implicit sa @ c_implicit sb))\<rparr>"
    using s by (simp add: merge_cached_safety_def)
  then show "\<exists>sa sb. safety_ok a = Some sa \<and> safety_ok b = Some sb \<and>
         serialize_error ` set (c_errors s) =
           serialize_error ` set (c_errors sa) \<union> serialize_error ` set (c_errors sb) \<and>
         serialize_error ` set (c_overrides s) =
           serialize_error ` set (c_overrides sa) \<union> serialize_error ` set (c_overrides sb) \<and>
         set (c_implicit s) = set (c_implicit sa) \<union> set (c_implicit sb)"
    using ab by (intro exI [of _ sa] exI [of _ sb]) (simp add: merge_errors_image [OF assms] image_Un)
qed

lemma combined_safety_merge:
  assumes mcmp: "lawful_cmp mcmp (\<lambda>s. s)" and m: "combined_safety safety copies"
  shows "combined_safety (merge_cached_safety mcmp safety (cm_safety c)) (insert c copies)"
proof (cases "safety_ok (merge_cached_safety mcmp safety (cm_safety c))")
  case None
  then have "safety_ok safety = None \<or> safety_ok (cm_safety c) = None"
    by (simp add: merge_safety_ok(1) [OF mcmp])
  then have "\<exists>c\<in>insert c copies. safety_ok (cm_safety c) = None"
    using m by (auto simp: combined_safety_def)
  then show ?thesis using None by (simp add: combined_safety_def)
next
  case (Some s)
  from merge_safety_ok(2) [OF mcmp Some]
  obtain sa sb where ab: "safety_ok safety = Some sa" "safety_ok (cm_safety c) = Some sb"
    "serialize_error ` set (c_errors s) =
       serialize_error ` set (c_errors sa) \<union> serialize_error ` set (c_errors sb)"
    "serialize_error ` set (c_overrides s) =
       serialize_error ` set (c_overrides sa) \<union> serialize_error ` set (c_overrides sb)"
    "set (c_implicit s) = set (c_implicit sa) \<union> set (c_implicit sb)"
    by (elim exE conjE)
  note parts = m [unfolded combined_safety_def ab(1) option.case]
  show ?thesis
    unfolding combined_safety_def Some option.case UN_insert ab(2-5) option.sel
    using parts ab(2) by (simp add: Un_commute)
qed

lemma combined_merge:
  assumes mcmp: "lawful_cmp mcmp (\<lambda>s. s)" and m: "combined m copies"
    and c: "cm_name c = cm_name m" "distinct (map fst (cm_functions c))"
  shows "combined (merge_cached_module mcmp m c) (insert c copies)"
proof -
  let ?m = "merge_cached_module mcmp m c"
  note parts = m [unfolded combined_def]
  have safety: "combined_safety (cm_safety ?m) (insert c copies)"
    using parts combined_safety_merge [OF mcmp] by (simp add: merge_cached_module_def)
  have fs: "entry_facts (map_of (cm_functions ?m) f) = (\<Union>c\<in>insert c copies. entry_facts (map_of (cm_functions c) f))" for f
    using parts merge_function_tables_facts [OF c(2)]
    by (simp add: merge_cached_module_def Un_commute)
  have sets: "set (cm_imports ?m) = (\<Union>c\<in>insert c copies. set (cm_imports c))"
    "set (cm_missing ?m) = (\<Inter>c\<in>insert c copies. set (cm_missing c))"
    "set (cm_ambiguous ?m) = (\<Union>c\<in>insert c copies. set (cm_ambiguous c))"
    "set (cm_side_effects ?m) = (\<Union>c\<in>insert c copies. set (cm_side_effects c))"
    "set (cm_mutations ?m) = (\<Union>c\<in>insert c copies. set (cm_mutations c))"
    "set (cm_properties ?m) = (\<Union>c\<in>insert c copies. set (cm_properties c))"
    "set (cm_subclasses ?m) = (\<Union>c\<in>insert c copies. set (cm_subclasses c))"
    "set (cm_guard_imports ?m) = (\<Inter>c\<in>insert c copies. set (cm_guard_imports c))"
    using parts by (simp_all add: merge_cached_module_def Un_commute Int_commute)
  have names: "\<forall>d\<in>insert c copies. cm_name d = cm_name ?m"
    using parts c(1) by (simp add: merge_cached_module_def)
  show ?thesis
    unfolding combined_def by (intro conjI names sets safety allI fs)
qed

section \<open>One module per name\<close>

lemma lawful_name_cmp: "lawful_cmp mcmp (\<lambda>s. s) \<Longrightarrow> lawful_cmp (name_cmp mcmp) cm_name"
  using lawful_comap [of mcmp "\<lambda>s. s" cm_name] by (simp add: name_cmp_def [abs_def])

definition copies_of :: "modname \<Rightarrow> cached_module list \<Rightarrow> cached_module set" where
  "copies_of n ms = {c \<in> set ms. cm_name c = n}"

lemma copies_of_Cons: "copies_of n (c # ms) = (if cm_name c = n then insert c (copies_of n ms) else copies_of n ms)"
  by (auto simp: copies_of_def)

lemma merge_run_combined:
  assumes mcmp: "lawful_cmp mcmp (\<lambda>s. s)"
    and "lawful_cmp.ascending (name_cmp mcmp) (cur # rest)" "combined cur copies"
    and "\<And>c. c \<in> set rest \<Longrightarrow> distinct (map fst (cm_functions c))"
  shows "(\<forall>m\<in>set (merge_run mcmp cur rest).
       combined m ((if cm_name m = cm_name cur then copies else {}) \<union> copies_of (cm_name m) rest)) \<and>
    cm_name ` set (merge_run mcmp cur rest) = insert (cm_name cur) (cm_name ` set rest) \<and>
    sorted_wrt (\<lambda>a b. name_cmp mcmp a b = Less) (merge_run mcmp cur rest)"
  using assms(2,3,4)
proof (induction rest arbitrary: cur copies)
  case Nil
  then show ?case by (simp add: copies_of_def)
next
  case (Cons read rest)
  note cmp = lawful_name_cmp [OF mcmp]
  note asc = lawful_cmp.ascending_def [OF cmp]
  have tail: "lawful_cmp.ascending (name_cmp mcmp) (read # rest)" using Cons.prems(1) by (simp add: asc)
  show ?case
  proof (cases "cm_name cur = cm_name read")
    case True
    let ?w = "merge_cached_module mcmp cur read"
    have name: "cm_name ?w = cm_name cur" by (simp add: merge_cached_module_def)
    have comb: "combined ?w (insert read copies)"
      using Cons.prems(2,3) True by (intro combined_merge [OF mcmp]) simp_all
    have "lawful_cmp.ascending (name_cmp mcmp) (?w # rest)"
      using Cons.prems(1) name unfolding asc by (simp add: name_cmp_def)
    note ih = Cons.IH [OF this comb, unfolded name]
    have eq: "(if n = cm_name cur then insert read copies else {}) \<union> copies_of n rest =
        (if n = cm_name cur then copies else {}) \<union> copies_of n (read # rest)" for n
      using True by (auto simp: copies_of_Cons)
    have run: "merge_run mcmp cur (read # rest) = merge_run mcmp ?w rest" using True by simp
    have names: "insert (cm_name cur) (cm_name ` set (read # rest)) = insert (cm_name cur) (cm_name ` set rest)"
      using True by simp
    show ?thesis
      using ih Cons.prems(3) unfolding eq run names by simp
  next
    case False
    note ih = Cons.IH [OF tail combined_single]
    have ih1: "combined m (copies_of (cm_name m) (read # rest))" if "m \<in> set (merge_run mcmp read rest)" for m
    proof -
      have "combined m ((if cm_name m = cm_name read then {read} else {}) \<union> copies_of (cm_name m) rest)"
        using ih Cons.prems(3) that by simp
      moreover have "(if cm_name m = cm_name read then {read} else {}) \<union> copies_of (cm_name m) rest =
          copies_of (cm_name m) (read # rest)" by (auto simp: copies_of_Cons)
      ultimately show ?thesis by (simp only:)
    qed
    have ih2: "cm_name ` set (merge_run mcmp read rest) = insert (cm_name read) (cm_name ` set rest)"
      "sorted_wrt (\<lambda>a b. name_cmp mcmp a b = Less) (merge_run mcmp read rest)"
      using ih Cons.prems(3) by simp_all
    have less_read: "name_cmp mcmp cur read = Less"
      using Cons.prems(1) False lawful_cmp.equal_iff [OF cmp, of cur read]
      by (cases "name_cmp mcmp cur read") (auto simp: asc)
    have less: "name_cmp mcmp cur c = Less" if "c \<in> set (read # rest)" for c
    proof (cases "c = read")
      case False
      then have "name_cmp mcmp read c \<noteq> Greater" using that tail by (auto simp: asc)
      then show ?thesis
        using lawful_cmp.less_trans [OF cmp less_read, of c] lawful_cmp.less_equal [OF cmp less_read, of c]
        by (cases "name_cmp mcmp read c") simp_all
    qed (simp add: less_read)
    have differ: "cm_name c \<noteq> cm_name cur" if "c \<in> set (read # rest)" for c
      using less [OF that] lawful_cmp.equal_iff [OF cmp, of cur c] by auto
    have less_out: "name_cmp mcmp cur m = Less" if "m \<in> set (merge_run mcmp read rest)" for m
    proof -
      have "cm_name m \<in> cm_name ` set (read # rest)"
        using imageI [OF that, of cm_name] unfolding ih2(1) by simp
      then obtain c where "c \<in> set (read # rest)" "cm_name c = cm_name m" by force
      with less [of c] show ?thesis by (simp add: name_cmp_def)
    qed
    then have differ_out: "cm_name m \<noteq> cm_name cur" if "m \<in> set (merge_run mcmp read rest)" for m
      using that lawful_cmp.equal_iff [OF cmp, of cur m] by auto
    have none: "copies_of (cm_name cur) (read # rest) = {}"
      using differ by (auto simp: copies_of_def)
    have run: "merge_run mcmp cur (read # rest) = cur # merge_run mcmp read rest" using False by simp
    show ?thesis
      unfolding run using ih1 ih2 less_out differ_out none Cons.prems(2) by simp
  qed
qed

text \<open>
  C9: Merging libraries leaves one record per module name, in name order, and that record says
  what all records of the name say together: no error, re-exported verdict fact, import edge or
  candidate of any library is lost, a failed analysis wins, and an import counts as missing or as
  guard-only exactly when every library that compiled the module says so.
\<close>
theorem merge_duplicate_modules_exact:
  assumes mcmp: "lawful_cmp mcmp (\<lambda>s. s)"
    and keys: "\<forall>c\<in>set ms. distinct (map fst (cm_functions c))"
  shows "let out = merge_duplicate_modules mcmp (sort_by (name_cmp mcmp) ms)
    in sorted_wrt (\<lambda>a b. mcmp (cm_name a) (cm_name b) = Less) out \<and>
       cm_name ` set out = cm_name ` set ms \<and> (\<forall>m\<in>set out. combined m (copies_of (cm_name m) ms))"
proof (cases "sort_by (name_cmp mcmp) ms")
  case Nil
  then have "ms = []" using set_sort_by [of "name_cmp mcmp" ms] by simp
  then show ?thesis by (simp add: sort_by_def)
next
  case (Cons w rest)
  have asc: "lawful_cmp.ascending (name_cmp mcmp) (w # rest)"
    using lawful_cmp.ascending_sort_by [OF lawful_name_cmp [OF mcmp], of ms] Cons by simp
  have set: "set ms = insert w (set rest)" using set_sort_by [of "name_cmp mcmp" ms] Cons by simp
  have copies: "(if n = cm_name w then {w} else {}) \<union> copies_of n rest = copies_of n ms" for n
    using set by (auto simp: copies_of_def)
  have "\<And>c. c \<in> set rest \<Longrightarrow> distinct (map fst (cm_functions c))" using keys set by simp
  from merge_run_combined [OF mcmp asc combined_single this] show ?thesis
    by (simp add: Cons copies set name_cmp_def)
qed

text \<open>A module that one library compiled against a dependency the other one lacks.\<close>

definition sample_copies :: "cached_module list" where
  "sample_copies =
     [(empty_cached_module ''m'')\<lparr>cm_missing := [''dep'', ''gone''], cm_functions := [(''f'', unsafe_missing_dep ''dep.g'')]\<rparr>,
      empty_cached_module ''a'',
      (empty_cached_module ''m'')\<lparr>cm_imports := [''dep''], cm_missing := [''gone''], cm_functions := [(''f'', new_info Safe)]\<rparr>]"

lemma merge_duplicate_modules_exact_witness:
  "map (\<lambda>m. (cm_name m, cm_missing m)) (merge_duplicate_modules cmp_of (sort_by (name_cmp cmp_of) sample_copies)) =
     [(''a'', []), (''m'', [''gone''])] \<and>
   list_all (\<lambda>m. combined m (copies_of (cm_name m) sample_copies))
     (merge_duplicate_modules cmp_of (sort_by (name_cmp cmp_of) sample_copies))"
proof
  show "map (\<lambda>m. (cm_name m, cm_missing m)) (merge_duplicate_modules cmp_of (sort_by (name_cmp cmp_of) sample_copies)) =
     [(''a'', []), (''m'', [''gone''])]"
    by code_simp
  have "\<forall>c\<in>set sample_copies. distinct (map fst (cm_functions c))"
    by (simp add: sample_copies_def empty_cached_module_def)
  from merge_duplicate_modules_exact [OF cmp_of.lawful_cmp_axioms this]
  show "list_all (\<lambda>m. combined m (copies_of (cm_name m) sample_copies))
      (merge_duplicate_modules cmp_of (sort_by (name_cmp cmp_of) sample_copies))"
    unfolding Let_def list_all_iff by blast
qed

end
