(* ===== verification/Export_Cache.thy ===== *)
theory Export_Cache
  imports Star_Exports Cache_Merge Reexports
begin

text \<open>
  From the exports of a project to its caches and to the policy: \<open>CachedExports::from_exports\<close>
  (\<open>src/cache/artifact.rs\<close>) keeps what a library owns, and \<open>build_re_export_map\<close>
  (\<open>src/output/policy.rs\<close>) finds the failing sources of re-exports without a cache. The two ways to
  that map agree.
\<close>

section \<open>The exports a library owns\<close>

definition cached_re_export_of :: "modname \<times> string \<times> attribute \<times> text_range \<Rightarrow> cached_re_export" where
  "cached_re_export_of r =
     (case r of (module, attr, imported, _) \<Rightarrow>
        \<lparr>exported_module = module, exported_attr = attr, imported_module = att_module imported,
         imported_attr = att_name imported\<rparr>)"

definition owns_function :: "modname list \<Rightarrow> import_graph \<Rightarrow> modname \<Rightarrow> bool" where
  "owns_function own_modules g function =
     (case find_first (\<lambda>(parent, _). ig_contains g parent) (iter_parents function) of
        Some (module, _) \<Rightarrow> module \<in> set own_modules
      | None \<Rightarrow> False)"

definition from_exports ::
  "(string \<Rightarrow> string \<Rightarrow> ordering) \<Rightarrow> exports \<Rightarrow> modname list \<Rightarrow> import_graph \<Rightarrow>
     cached_re_export list \<times> cached_return_type list" where
  "from_exports mcmp e own_modules g =
     sort_and_dedup mcmp
       (map cached_re_export_of (filter (\<lambda>(module, _). module \<in> set own_modules) (get_re_exports e)))
       (map (\<lambda>(function, class). \<lparr>rt_function = function, rt_class = class\<rparr>)
         (filter (\<lambda>(function, _). owns_function own_modules g function) (return_types e)))"

section \<open>The failing sources of re-exports, without a cache\<close>

definition build_re_export_map :: "exports \<Rightarrow> modname list \<Rightarrow> re_map" where
  "build_re_export_map e failing =
     foldl (\<lambda>m (module, _, imported, _).
        case resolve_transitive e imported of
          None \<Rightarrow> m
        | Some resolved \<Rightarrow>
            if att_module resolved \<in> set failing then re_map_insert module (att_module resolved) m else m)
       [] (get_re_exports e)"

lemma build_re_export_map_sources:
  "re_sources (build_re_export_map e failing) k =
     {s. s \<in> set failing \<and> (\<exists>attr imported r c. (k, attr, imported, r) \<in> set (get_re_exports e) \<and>
        ends_at e imported c \<and> att_module c = s)}"
proof -
  let ?f = "\<lambda>m (module, _, imported, _).
        case resolve_transitive e imported of
          None \<Rightarrow> m
        | Some resolved \<Rightarrow>
            if att_module resolved \<in> set failing then re_map_insert module (att_module resolved) m else m"
  have "re_sources (foldl ?f m rs) k = re_sources m k \<union>
      {s. s \<in> set failing \<and> (\<exists>attr imported r c. (k, attr, imported, r) \<in> set rs \<and>
        resolve_transitive e imported = Some c \<and> att_module c = s)}" for m rs
  proof (induction rs arbitrary: m)
    case (Cons x rs)
    obtain module attr imported r where x: "x = (module, attr, imported, r)" by (metis prod.collapse)
    show ?case
      unfolding foldl_Cons Cons.IH x
      by (cases "resolve_transitive e imported") (auto split: if_splits)
  qed simp
  from this [of "[]" "get_re_exports e"] show ?thesis
    by (simp add: build_re_export_map_def resolve_transitive_iff)
qed

section \<open>The cache holds the same chains\<close>

lemma get_re_exports_iff:
  assumes "exports_ok e"
  shows "(m, attr, imported, r) \<in> set (get_re_exports e) \<longleftrightarrow>
    get_re_export e (Attribute m attr) = Some (imported, r)"
proof -
  have "(m, attr, imported, r) \<in> set (get_re_exports e) \<longleftrightarrow>
      (\<exists>names. (m, names) \<in> set (re_export_table e) \<and> (attr, imported, r) \<in> set names)"
    unfolding get_re_exports_def by force
  also have "\<dots> \<longleftrightarrow> (\<exists>names. map_of (re_export_table e) m = Some names \<and> map_of names attr = Some (imported, r))"
  proof (intro ex_cong1 conj_cong)
    fix names
    show "(m, names) \<in> set (re_export_table e) \<longleftrightarrow> map_of (re_export_table e) m = Some names"
      using assms by (simp add: exports_ok_def)
    assume "map_of (re_export_table e) m = Some names"
    then have "distinct (map fst names)" using assms by (auto simp: exports_ok_def dest!: map_of_SomeD)
    then show "(attr, imported, r) \<in> set names \<longleftrightarrow> map_of names attr = Some (imported, r)" by simp
  qed
  finally show ?thesis by (simp add: get_re_export_def nested_get_def split: option.split)
qed

lemma set_from_exports:
  assumes "exports_ok e"
  shows "set (fst (from_exports mcmp e own_modules g)) =
    {cached_re_export_of (m, x) |m x. (m, x) \<in> set (get_re_exports e) \<and> m \<in> set own_modules}"
proof -
  let ?xs = "filter (\<lambda>(module, _). module \<in> set own_modules) (get_re_exports e)"
  let ?key = "\<lambda>r. (exported_module r, exported_attr r)"
  have "inj_on ?key (cached_re_export_of ` set ?xs)"
  proof (rule inj_onI)
    fix a b
    assume "a \<in> cached_re_export_of ` set ?xs" "b \<in> cached_re_export_of ` set ?xs" and key: "?key a = ?key b"
    then obtain m n v m' n' v' where ab: "a = cached_re_export_of (m, n, v)" "b = cached_re_export_of (m', n', v')"
      "(m, n, v) \<in> set (get_re_exports e)" "(m', n', v') \<in> set (get_re_exports e)"
      by auto
    have "m = m'" "n = n'" using key by (simp_all add: ab(1,2) cached_re_export_of_def split: prod.splits)
    moreover from this have "v = v'" using ab(3,4) by (cases v; cases v') (simp add: get_re_exports_iff [OF assms])
    ultimately show "a = b" by (simp add: ab)
  qed
  then have "set (dedup_by (\<lambda>a b. exported_module a = exported_module b \<and> exported_attr a = exported_attr b)
      (sort_by (re_export_cmp mcmp) (map cached_re_export_of ?xs))) = cached_re_export_of ` set ?xs"
  proof -
    assume inj: "inj_on ?key (cached_re_export_of ` set ?xs)"
    let ?ys = "dedup_by (\<lambda>a b. exported_module a = exported_module b \<and> exported_attr a = exported_attr b)
      (sort_by (re_export_cmp mcmp) (map cached_re_export_of ?xs))"
    have "set ?ys \<subseteq> cached_re_export_of ` set ?xs"
      by (rule subset_trans [OF set_dedup_subset]) simp
    moreover have "?key ` set ?ys = ?key ` cached_re_export_of ` set ?xs"
      by (subst dedup_by_image) (simp_all add: image_comp)
    ultimately show ?thesis using inj_on_image_eq_iff [OF inj, of "set ?ys"] by blast
  qed
  moreover have "cached_re_export_of ` set ?xs =
      {cached_re_export_of (m, x) |m x. (m, x) \<in> set (get_re_exports e) \<and> m \<in> set own_modules}"
    by force
  ultimately show ?thesis unfolding from_exports_def sort_and_dedup_def fst_conv by (simp only:)
qed

text \<open>A list of cached re-exports that has an entry for every re-export, and no other entry.\<close>

definition caches :: "exports \<Rightarrow> cached_re_export list \<Rightarrow> bool" where
  "caches e res \<longleftrightarrow> set res = cached_re_export_of ` set (get_re_exports e)"

definition imported_attribute :: "cached_re_export list \<Rightarrow> nat \<Rightarrow> attribute" where
  "imported_attribute res i = (case import_key res i of (m, a) \<Rightarrow> Attribute m a)"

lemma chain_index_resolves:
  assumes "exports_ok e" "caches e res"
  shows "resolve_imported_name e (Attribute m a) = map_option (imported_attribute res) (chain_index res (m, a))"
proof (cases "chain_index res (m, a)")
  case None
  have keys: "map_of (rev (zip ks [0..<length ks])) k = None \<longleftrightarrow> k \<notin> set ks"
    for ks :: "(modname \<times> string) list" and k
    by (simp add: map_of_eq_None_iff flip: set_map)
  have "(m, a) \<notin> (\<lambda>r. (exported_module r, exported_attr r)) ` set res"
    using None keys [of "map (\<lambda>r. (exported_module r, exported_attr r)) res" "(m, a)"]
    by (simp add: chain_index_def)
  moreover have "cached_re_export_of (m, a, v) \<in> set res" if "get_re_export e (Attribute m a) = Some v" for v
    using that assms by (cases v) (simp add: caches_def get_re_exports_iff)
  ultimately have "get_re_export e (Attribute m a) = None"
    by (cases "get_re_export e (Attribute m a)") (force simp: cached_re_export_of_def)+
  with None show ?thesis by (simp add: resolve_imported_name_def)
next
  case (Some i)
  note i = chain_index_SomeD [OF Some]
  then have "res ! i \<in> cached_re_export_of ` set (get_re_exports e)"
    using assms(2) by (auto simp: caches_def)
  then obtain m' a' imported r where "(m', a', imported, r) \<in> set (get_re_exports e)"
    "res ! i = cached_re_export_of (m', a', imported, r)"
    by auto
  with i have "get_re_export e (Attribute m a) = Some (imported, r)" "imported_attribute res i = imported"
    using get_re_exports_iff [OF assms(1)]
    by (auto simp: cached_re_export_of_def imported_attribute_def import_key_def)
  with Some show ?thesis by (simp add: resolve_imported_name_def)
qed

lemma chain_target_ends:
  assumes "exports_ok e" "caches e res"
  shows "chain_target res i s \<longleftrightarrow> (\<exists>c. ends_at e (imported_attribute res i) c \<and> att_module c = s)"
proof
  have key: "resolve_imported_name e (imported_attribute res i) =
      map_option (imported_attribute res) (chain_index res (import_key res i))" for i
    by (cases "import_key res i") (simp add: imported_attribute_def chain_index_resolves [OF assms])
  show "chain_target res i s \<Longrightarrow> \<exists>c. ends_at e (imported_attribute res i) c \<and> att_module c = s"
  proof (induction rule: chain_target.induct)
    case (last i)
    then have "ends_at e (imported_attribute res i) (imported_attribute res i)"
      by (intro ends_at.here) (simp add: key)
    then show ?case by (auto simp: imported_attribute_def import_key_def)
  next
    case (step i j m)
    then obtain c where "ends_at e (imported_attribute res j) c" "att_module c = m" by blast
    moreover have "resolve_imported_name e (imported_attribute res i) = Some (imported_attribute res j)"
      using step(1) by (simp add: key)
    ultimately show ?case by (blast intro: ends_at.hop)
  qed
  have "ends_at e a c \<Longrightarrow> a = imported_attribute res i \<Longrightarrow> att_module c = s \<Longrightarrow> chain_target res i s" for a c
  proof (induction arbitrary: i rule: ends_at.induct)
    case (here a)
    then have "chain_index res (import_key res i) = None" by (simp add: key)
    then have "chain_target res i (imported_module (res ! i))" by (rule chain_target.last)
    with here show ?case by (simp add: imported_attribute_def import_key_def)
  next
    case (hop a b c)
    then show ?case by (auto simp: key intro: chain_target.step)
  qed
  then show "\<exists>c. ends_at e (imported_attribute res i) c \<and> att_module c = s \<Longrightarrow> chain_target res i s" by blast
qed

text \<open>
  C27: The map of failing re-export sources does not depend on the way it is built: the one that follows
  the exports of the project, and the one that follows the re-exports cached for libraries that
  together own every re-exporting module, name the same sources for every module, however the
  cached re-exports are split into tasks.
\<close>

theorem re_export_maps_agree:
  assumes "exports_ok e" "\<forall>r \<in> set (get_re_exports e). \<exists>own \<in> set libraries. fst r \<in> set own"
    "res = concat (map (\<lambda>own. fst (from_exports mcmp e own g)) libraries)"
    "set (concat tasks) = {0..<length res}"
  shows "re_sources (build_re_export_map_from_cache res failing tasks) k =
    re_sources (build_re_export_map e failing) k"
proof -
  have caches: "caches e res"
    unfolding caches_def assms(3) using assms(2) by (fastforce simp: set_from_exports [OF assms(1)])
  have "(\<exists>i<length res. exported_module (res ! i) = k \<and> chain_target res i s) \<longleftrightarrow>
      (\<exists>attr imported r c. (k, attr, imported, r) \<in> set (get_re_exports e) \<and>
        ends_at e imported c \<and> att_module c = s)" (is "?l \<longleftrightarrow> ?r") for s
  proof
    assume ?l
    then obtain i where i: "i < length res" "exported_module (res ! i) = k" "chain_target res i s" by blast
    then obtain m a imported r where "(m, a, imported, r) \<in> set (get_re_exports e)"
      "res ! i = cached_re_export_of (m, a, imported, r)"
      using caches nth_mem [OF i(1)] by (auto simp: caches_def)
    moreover from this have "m = k" "imported_attribute res i = imported" using i(2)
      by (simp_all add: cached_re_export_of_def imported_attribute_def import_key_def)
    ultimately show ?r using i(3) unfolding chain_target_ends [OF assms(1) caches] by blast
  next
    assume ?r
    then obtain attr imported r c where r: "(k, attr, imported, r) \<in> set (get_re_exports e)"
      "ends_at e imported c" "att_module c = s"
      by blast
    then obtain i where "i < length res" "res ! i = cached_re_export_of (k, attr, imported, r)"
      using caches by (metis caches_def imageI in_set_conv_nth)
    moreover from this have "exported_module (res ! i) = k" "imported_attribute res i = imported"
      by (simp_all add: cached_re_export_of_def imported_attribute_def import_key_def)
    ultimately show ?l using r by (auto simp: chain_target_ends [OF assms(1) caches])
  qed
  then show ?thesis
    unfolding build_re_export_map_sources build_re_export_map_from_cache_exact [OF assms(4)] by simp
qed

definition chain_sample :: exports where
  "chain_sample = empty_exports
     \<lparr>re_export_table := [(''a'', [(''x'', (Attribute ''b'' ''y'', (0, 1)))]), (''b'', [(''y'', (Attribute ''c'' ''z'', (2, 3)))])]\<rparr>"

theorem re_export_maps_agree_witness:
  "re_sources (build_re_export_map_from_cache
      (concat (map (\<lambda>own. fst (from_exports cmp_of chain_sample own no_modules)) [[''b''], [''a'']]))
      [''c''] [[1], [0]]) ''a'' =
    re_sources (build_re_export_map chain_sample [''c'']) ''a'' \<and>
   re_sources (build_re_export_map chain_sample [''c'']) ''a'' = {''c''}"
proof
  have len: "length (concat (map (\<lambda>own. fst (from_exports cmp_of chain_sample own no_modules)) [[''b''], [''a'']])) = 2"
    by code_simp
  have tasks: "set (concat [[1], [0]]) =
    {0..<length (concat (map (\<lambda>own. fst (from_exports cmp_of chain_sample own no_modules)) [[''b''], [''a'']]))}"
    unfolding len by auto
  show "re_sources (build_re_export_map_from_cache
      (concat (map (\<lambda>own. fst (from_exports cmp_of chain_sample own no_modules)) [[''b''], [''a'']]))
      [''c''] [[1], [0]]) ''a'' =
    re_sources (build_re_export_map chain_sample [''c'']) ''a''"
    by (rule re_export_maps_agree [OF _ _ refl tasks])
      (simp_all add: chain_sample_def empty_exports_def exports_ok_def get_re_exports_def)
  show "re_sources (build_re_export_map chain_sample [''c'']) ''a'' = {''c''}" by code_simp
qed

end
