(* ===== verification/Graph_Store.thy ===== *)
theory Graph_Store
  imports Import_Graph "HOL-Library.AList"
begin

text \<open>
  The graph of modules keyed by name (\<open>src/graph.rs\<close>). Its nodes and edges live in a \<open>DiGraph\<close> of the
  crate \<open>petgraph\<close>, which is not part of the repository: a record of operations on an abstract type,
  of which \<open>digraph_ok\<close> states the documented behaviour in terms of the vector of node weights and
  the set of edges between indices. What the file adds is the table from names to indices, which
  must follow the indices that \<open>petgraph\<close> moves when a node is removed.
\<close>

section \<open>petgraph\<close>

datatype direction = Outgoing | Incoming

record 'g digraph =
  dg_new :: 'g
  dg_add_node :: "'g \<Rightarrow> modname \<Rightarrow> 'g \<times> nat"
  dg_add_edge :: "'g \<Rightarrow> nat \<Rightarrow> nat \<Rightarrow> 'g"
  dg_remove_node :: "'g \<Rightarrow> nat \<Rightarrow> 'g"
  dg_node_count :: "'g \<Rightarrow> nat"
  dg_node_weight :: "'g \<Rightarrow> nat \<Rightarrow> modname option"
  dg_contains_edge :: "'g \<Rightarrow> nat \<Rightarrow> nat \<Rightarrow> bool"
  dg_neighbors :: "'g \<Rightarrow> direction \<Rightarrow> nat \<Rightarrow> nat list"

text \<open>Removing a node gives its index to the last one (\<open>swap_remove\<close>).\<close>

definition moved :: "nat \<Rightarrow> nat \<Rightarrow> nat \<Rightarrow> nat" where
  "moved ix last_ix i = (if i = last_ix then ix else i)"

definition digraph_ok :: "'g digraph \<Rightarrow> ('g \<Rightarrow> modname list) \<Rightarrow> ('g \<Rightarrow> (nat \<times> nat) set) \<Rightarrow> bool" where
  "digraph_ok d weights edges \<longleftrightarrow>
     weights (dg_new d) = [] \<and> edges (dg_new d) = {} \<and>
     (\<forall>g w. snd (dg_add_node d g w) = length (weights g) \<and>
        weights (fst (dg_add_node d g w)) = weights g @ [w] \<and> edges (fst (dg_add_node d g w)) = edges g) \<and>
     (\<forall>g a b. weights (dg_add_edge d g a b) = weights g \<and> edges (dg_add_edge d g a b) = insert (a, b) (edges g)) \<and>
     (\<forall>g i. i < length (weights g) \<longrightarrow>
        weights (dg_remove_node d g i) = butlast ((weights g)[i := last (weights g)]) \<and>
        edges (dg_remove_node d g i) =
          map_prod (moved i (length (weights g) - 1)) (moved i (length (weights g) - 1)) `
            {(a, b) \<in> edges g. a \<noteq> i \<and> b \<noteq> i}) \<and>
     (\<forall>g. dg_node_count d g = length (weights g)) \<and>
     (\<forall>g i. dg_node_weight d g i = (if i < length (weights g) then Some (weights g ! i) else None)) \<and>
     (\<forall>g a b. dg_contains_edge d g a b \<longleftrightarrow> (a, b) \<in> edges g) \<and>
     (\<forall>g i. set (dg_neighbors d g Outgoing i) = {b. (i, b) \<in> edges g}) \<and>
     (\<forall>g i. set (dg_neighbors d g Incoming i) = {a. (a, i) \<in> edges g})"

section \<open>The graph\<close>

record 'g module_graph =
  mg_graph :: 'g
  mg_nodes :: "(modname \<times> nat) list"

definition new_graph :: "'g digraph \<Rightarrow> 'g module_graph" where
  "new_graph d = \<lparr>mg_graph = dg_new d, mg_nodes = []\<rparr>"

definition add_node :: "'g digraph \<Rightarrow> modname \<Rightarrow> 'g module_graph \<Rightarrow> 'g module_graph" where
  "add_node d node g =
     (case map_of (mg_nodes g) node of
        Some ix \<Rightarrow> g
      | None \<Rightarrow>
          (case dg_add_node d (mg_graph g) node of
             (gr, ix) \<Rightarrow> \<lparr>mg_graph = gr, mg_nodes = AList.update node ix (mg_nodes g)\<rparr>))"

text \<open>Indexing the table by a name it does not have panics.\<close>

definition add_edge :: "'g digraph \<Rightarrow> modname \<Rightarrow> modname \<Rightarrow> 'g module_graph \<Rightarrow> ('g module_graph \<times> bool) option" where
  "add_edge d from to g =
     (case map_of (mg_nodes g) from of
        None \<Rightarrow> None
      | Some p \<Rightarrow>
          (case map_of (mg_nodes g) to of
             Some q \<Rightarrow> Some (g\<lparr>mg_graph := dg_add_edge d (mg_graph g) p q\<rparr>, True)
           | None \<Rightarrow> Some (g, False)))"

definition contains :: "'g module_graph \<Rightarrow> modname \<Rightarrow> bool" where
  "contains g node \<longleftrightarrow> map_of (mg_nodes g) node \<noteq> None"

definition has_edge :: "'g digraph \<Rightarrow> 'g module_graph \<Rightarrow> modname \<Rightarrow> modname \<Rightarrow> bool" where
  "has_edge d g from to \<longleftrightarrow>
     (case map_of (mg_nodes g) from of
        None \<Rightarrow> False
      | Some p \<Rightarrow>
          (case map_of (mg_nodes g) to of
             None \<Rightarrow> False
           | Some q \<Rightarrow> dg_contains_edge d (mg_graph g) p q))"

definition try_add_edge :: "'g digraph \<Rightarrow> modname \<Rightarrow> modname \<Rightarrow> 'g module_graph \<Rightarrow> ('g module_graph \<times> bool) option" where
  "try_add_edge d from to g =
     (if from = to then Some (g, False)
      else if has_edge d g from to then Some (g, False)
      else add_edge d from to g)"

definition find_edges :: "'g digraph \<Rightarrow> 'g module_graph \<Rightarrow> modname \<Rightarrow> direction \<Rightarrow> modname list option" where
  "find_edges d g node dir =
     (case map_of (mg_nodes g) node of
        None \<Rightarrow> Some []
      | Some ix \<Rightarrow> those (map (dg_node_weight d (mg_graph g)) (dg_neighbors d (mg_graph g) dir ix)))"

definition neighbors :: "'g digraph \<Rightarrow> 'g module_graph \<Rightarrow> modname \<Rightarrow> modname list option" where
  "neighbors d g node = find_edges d g node Outgoing"

definition reverse_neighbors :: "'g digraph \<Rightarrow> 'g module_graph \<Rightarrow> modname \<Rightarrow> modname list option" where
  "reverse_neighbors d g node = find_edges d g node Incoming"

definition remove_node :: "'g digraph \<Rightarrow> modname \<Rightarrow> 'g module_graph \<Rightarrow> 'g module_graph option" where
  "remove_node d name g =
     (case map_of (mg_nodes g) name of
        None \<Rightarrow> Some g
      | Some ix \<Rightarrow>
          let nodes = AList.delete name (mg_nodes g);
              last_ix = dg_node_count d (mg_graph g) - 1;
              gr = dg_remove_node d (mg_graph g) ix
          in if ix \<noteq> last_ix then
               (case dg_node_weight d gr ix of
                  None \<Rightarrow> None
                | Some swapped_name \<Rightarrow> Some \<lparr>mg_graph = gr, mg_nodes = AList.update swapped_name ix nodes\<rparr>)
             else Some \<lparr>mg_graph = gr, mg_nodes = nodes\<rparr>)"

text \<open>
  The components come from \<open>petgraph::algo::kosaraju_scc\<close> on the edges a predicate on the two names
  keeps.
\<close>

definition multi_node_sccs ::
  "('g \<Rightarrow> (modname \<Rightarrow> modname \<Rightarrow> bool) \<Rightarrow> nat list list) \<Rightarrow> 'g \<Rightarrow> nat list list" where
  "multi_node_sccs kosaraju g =
     filter (\<lambda>scc. 1 < length scc) (kosaraju g (\<lambda>source target. \<not> is_ancestor_of target source))"

definition add_extra_edges :: "'g digraph \<Rightarrow> 'g module_graph \<Rightarrow> (modname \<times> modname list) list \<Rightarrow> 'g" where
  "add_extra_edges d g extra_edges =
     foldl (\<lambda>gr (from, tos).
        case map_of (mg_nodes g) from of
          None \<Rightarrow> gr
        | Some p \<Rightarrow>
            foldl (\<lambda>gr to. case map_of (mg_nodes g) to of None \<Rightarrow> gr | Some q \<Rightarrow> dg_add_edge d gr p q) gr tos)
       (mg_graph g) extra_edges"

definition find_cycles ::
  "'g digraph \<Rightarrow> ('g \<Rightarrow> (modname \<Rightarrow> modname \<Rightarrow> bool) \<Rightarrow> nat list list) \<Rightarrow> (modname \<times> modname list) list \<Rightarrow>
     'g module_graph \<Rightarrow> nat list list" where
  "find_cycles d kosaraju extra_edges g =
     (if extra_edges = [] then multi_node_sccs kosaraju (mg_graph g)
      else multi_node_sccs kosaraju (add_extra_edges d g extra_edges))"

definition cycle_names :: "'g digraph \<Rightarrow> 'g module_graph \<Rightarrow> nat list \<Rightarrow> modname list option" where
  "cycle_names d g cycle = those (map (dg_node_weight d (mg_graph g)) cycle)"

section \<open>Names and edges\<close>

text \<open>The table is the inverse of the vector of weights, and edges join nodes.\<close>

definition store_ok :: "('g \<Rightarrow> modname list) \<Rightarrow> ('g \<Rightarrow> (nat \<times> nat) set) \<Rightarrow> 'g module_graph \<Rightarrow> bool" where
  "store_ok weights edges g \<longleftrightarrow>
     (\<forall>name ix. map_of (mg_nodes g) name = Some ix \<longleftrightarrow>
        ix < length (weights (mg_graph g)) \<and> weights (mg_graph g) ! ix = name) \<and>
     edges (mg_graph g) \<subseteq> {..<length (weights (mg_graph g))} \<times> {..<length (weights (mg_graph g))}"

definition node_names :: "'g module_graph \<Rightarrow> modname set" where
  "node_names g = fst ` set (mg_nodes g)"

definition name_edges :: "('g \<Rightarrow> modname list) \<Rightarrow> ('g \<Rightarrow> (nat \<times> nat) set) \<Rightarrow> 'g module_graph \<Rightarrow> (modname \<times> modname) set" where
  "name_edges weights edges g =
     map_prod ((!) (weights (mg_graph g))) ((!) (weights (mg_graph g))) ` edges (mg_graph g)"

lemma digraph_okD:
  assumes "digraph_ok d weights edges"
  shows "weights (dg_new d) = []" "edges (dg_new d) = {}"
    "snd (dg_add_node d g w) = length (weights g)" "weights (fst (dg_add_node d g w)) = weights g @ [w]"
    "edges (fst (dg_add_node d g w)) = edges g"
    "weights (dg_add_edge d g a b) = weights g" "edges (dg_add_edge d g a b) = insert (a, b) (edges g)"
    "i < length (weights g) \<Longrightarrow> weights (dg_remove_node d g i) = butlast ((weights g)[i := last (weights g)])"
    "i < length (weights g) \<Longrightarrow> edges (dg_remove_node d g i) =
       map_prod (moved i (length (weights g) - 1)) (moved i (length (weights g) - 1)) `
         {(a, b) \<in> edges g. a \<noteq> i \<and> b \<noteq> i}"
    "dg_node_count d g = length (weights g)"
    "dg_node_weight d g i = (if i < length (weights g) then Some (weights g ! i) else None)"
    "dg_contains_edge d g a b \<longleftrightarrow> (a, b) \<in> edges g"
    "set (dg_neighbors d g Outgoing i) = {b. (i, b) \<in> edges g}"
    "set (dg_neighbors d g Incoming i) = {a. (a, i) \<in> edges g}"
  using assms unfolding digraph_ok_def by simp_all

lemma node_names_iff: "n \<in> node_names g \<longleftrightarrow> (\<exists>ix. map_of (mg_nodes g) n = Some ix)"
proof -
  have "n \<notin> node_names g \<longleftrightarrow> map_of (mg_nodes g) n = None" by (simp add: node_names_def map_of_eq_None_iff)
  then show ?thesis by (cases "map_of (mg_nodes g) n") auto
qed

lemma contains_iff: "contains g n \<longleftrightarrow> n \<in> node_names g"
  by (auto simp: contains_def node_names_iff)

lemma store_okD:
  assumes "store_ok weights edges g"
  shows "map_of (mg_nodes g) name = Some ix \<longleftrightarrow> ix < length (weights (mg_graph g)) \<and> weights (mg_graph g) ! ix = name"
    "(a, b) \<in> edges (mg_graph g) \<Longrightarrow> a < length (weights (mg_graph g)) \<and> b < length (weights (mg_graph g))"
    "node_names g = set (weights (mg_graph g))" "distinct (weights (mg_graph g))"
proof -
  show nodes: "map_of (mg_nodes g) name = Some ix \<longleftrightarrow> ix < length (weights (mg_graph g)) \<and> weights (mg_graph g) ! ix = name"
    for name ix using assms by (simp add: store_ok_def)
  show "(a, b) \<in> edges (mg_graph g) \<Longrightarrow> a < length (weights (mg_graph g)) \<and> b < length (weights (mg_graph g))"
    using assms by (auto simp: store_ok_def)
  show "node_names g = set (weights (mg_graph g))"
    by (auto simp: node_names_iff nodes in_set_conv_nth)
  show "distinct (weights (mg_graph g))"
    unfolding distinct_conv_nth using nodes by (metis option.inject)
qed

lemma name_edges_iff:
  assumes "store_ok weights edges g" "map_of (mg_nodes g) m = Some p" "map_of (mg_nodes g) n = Some q"
  shows "(m, n) \<in> name_edges weights edges g \<longleftrightarrow> (p, q) \<in> edges (mg_graph g)"
proof
  note [simp] = assms(2,3) [unfolded store_okD(1) [OF assms(1)]]
  show "(p, q) \<in> edges (mg_graph g) \<Longrightarrow> (m, n) \<in> name_edges weights edges g"
    by (force simp: name_edges_def)
  assume "(m, n) \<in> name_edges weights edges g"
  then obtain a b where "(a, b) \<in> edges (mg_graph g)" "weights (mg_graph g) ! a = m" "weights (mg_graph g) ! b = n"
    by (auto simp: name_edges_def)
  moreover from this have "a = p" "b = q"
    using store_okD(2,4) [OF assms(1)] by (auto simp: nth_eq_iff_index_eq [symmetric])
  ultimately show "(p, q) \<in> edges (mg_graph g)" by simp
qed

lemma name_edges_nodes:
  "store_ok weights edges g \<Longrightarrow> (m, n) \<in> name_edges weights edges g \<Longrightarrow> m \<in> node_names g \<and> n \<in> node_names g"
  using store_okD(2,3) by (fastforce simp: name_edges_def)

section \<open>The operations on names\<close>

lemma new_graph_ok:
  "digraph_ok d weights edges \<Longrightarrow> store_ok weights edges (new_graph d) \<and> node_names (new_graph d) = {} \<and>
     name_edges weights edges (new_graph d) = {}"
  by (simp add: store_ok_def new_graph_def node_names_def name_edges_def digraph_okD)

lemma add_node_ok:
  assumes "digraph_ok d weights edges" "store_ok weights edges g"
  shows "store_ok weights edges (add_node d n g) \<and> node_names (add_node d n g) = insert n (node_names g) \<and>
    name_edges weights edges (add_node d n g) = name_edges weights edges g"
proof (cases "map_of (mg_nodes g) n")
  case None
  note laws = digraph_okD [OF assms(1)]
  let ?w = "weights (mg_graph g)"
  define g' where "g' = add_node d n g"
  have g': "weights (mg_graph g') = ?w @ [n]" "edges (mg_graph g') = edges (mg_graph g)"
    "mg_nodes g' = AList.update n (length ?w) (mg_nodes g)"
    using laws(3-5) [of "mg_graph g" n] None
    by (cases "dg_add_node d (mg_graph g) n"; simp add: g'_def add_node_def)+
  have new: "n \<notin> set ?w" using None store_okD(3) [OF assms(2)] by (auto simp: node_names_def map_of_eq_None_iff)
  have "store_ok weights edges g'"
    unfolding store_ok_def g'
  proof (intro conjI allI)
    fix name ix
    show "map_of (AList.update n (length ?w) (mg_nodes g)) name = Some ix \<longleftrightarrow>
        ix < length (?w @ [n]) \<and> (?w @ [n]) ! ix = name"
      using new store_okD(1) [OF assms(2), of name ix]
      by (cases "name = n"; cases "ix = length ?w") (auto simp: update_conv' nth_append)
    show "edges (mg_graph g) \<subseteq> {..<length (?w @ [n])} \<times> {..<length (?w @ [n])}"
      using store_okD(2) [OF assms(2)] by (auto intro: less_SucI)
  qed
  moreover have "node_names g' = insert n (node_names g)"
    by (auto simp: node_names_def g'(3) dom_update)
  moreover have "name_edges weights edges g' = name_edges weights edges g"
    unfolding name_edges_def g'(1,2)
    using store_okD(2) [OF assms(2)] by (intro image_cong refl) (auto simp: nth_append)
  ultimately show ?thesis by (simp add: g'_def)
next
  case (Some ix)
  then have "n \<in> node_names g" by (simp add: node_names_iff)
  then show ?thesis using Some assms(2) by (simp add: add_node_def insert_absorb)
qed

lemma add_edge_ok:
  assumes "digraph_ok d weights edges" "store_ok weights edges g" "m \<in> node_names g"
  shows "\<exists>g'. add_edge d m n g = Some (g', n \<in> node_names g) \<and> store_ok weights edges g' \<and>
    node_names g' = node_names g \<and>
    name_edges weights edges g' = name_edges weights edges g \<union> (if n \<in> node_names g then {(m, n)} else {})"
proof -
  note laws = digraph_okD [OF assms(1)]
  obtain p where p: "map_of (mg_nodes g) m = Some p" using assms(3) by (auto simp: node_names_iff)
  show ?thesis
  proof (cases "map_of (mg_nodes g) n")
    case None
    then have "n \<notin> node_names g" by (simp add: node_names_iff)
    then show ?thesis using p None assms(2) by (simp add: add_edge_def)
  next
    case (Some q)
    then have n: "n \<in> node_names g" by (simp add: node_names_iff)
    let ?g = "g\<lparr>mg_graph := dg_add_edge d (mg_graph g) p q\<rparr>"
    note [simp] = p [unfolded store_okD(1) [OF assms(2)]] Some [unfolded store_okD(1) [OF assms(2)]]
    have "store_ok weights edges ?g" using assms(2) by (simp add: store_ok_def laws)
    moreover have "node_names ?g = node_names g" by (simp add: node_names_def)
    moreover have "name_edges weights edges ?g = insert (m, n) (name_edges weights edges g)"
      by (simp add: name_edges_def laws)
    ultimately show ?thesis using p Some n by (simp add: add_edge_def)
  qed
qed

text \<open>The weights after a removal, at the indices the nodes have then.\<close>

lemma nth_moved:
  assumes "i < length w" "ix < length w" "i \<noteq> ix"
  shows "butlast (w[ix := last w]) ! moved ix (length w - 1) i = w ! i" "moved ix (length w - 1) i < length w - 1"
proof -
  have "last w = w ! (length w - 1)" using assms(1) by (intro last_conv_nth) auto
  then show "butlast (w[ix := last w]) ! moved ix (length w - 1) i = w ! i" "moved ix (length w - 1) i < length w - 1"
    using assms by (auto simp: moved_def nth_butlast nth_list_update)
qed

lemma set_removed:
  assumes "distinct w" "ix < length w"
  shows "j < length w - 1 \<Longrightarrow> \<exists>i < length w. i \<noteq> ix \<and> j = moved ix (length w - 1) i"
proof (cases "j = ix")
  case True
  assume "j < length w - 1"
  then have "length w - 1 < length w \<and> length w - 1 \<noteq> ix \<and> j = moved ix (length w - 1) (length w - 1)"
    using True by (simp add: moved_def)
  then show ?thesis by blast
next
  case False
  assume "j < length w - 1"
  then have "j < length w \<and> j \<noteq> ix \<and> j = moved ix (length w - 1) j" using False by (simp add: moved_def)
  then show ?thesis by blast
qed

lemma remove_node_ok:
  assumes "digraph_ok d weights edges" "store_ok weights edges g"
  shows "\<exists>g'. remove_node d n g = Some g' \<and> store_ok weights edges g' \<and> node_names g' = node_names g - {n} \<and>
    name_edges weights edges g' = {(a, b) \<in> name_edges weights edges g. a \<noteq> n \<and> b \<noteq> n}"
proof (cases "map_of (mg_nodes g) n")
  case None
  then have "n \<notin> node_names g" by (simp add: node_names_iff)
  then have "name_edges weights edges g = {(a, b) \<in> name_edges weights edges g. a \<noteq> n \<and> b \<noteq> n}"
    using name_edges_nodes [OF assms(2)] by auto
  then show ?thesis using None assms(2) \<open>n \<notin> node_names g\<close> by (simp add: remove_node_def)
next
  case (Some ix)
  note laws = digraph_okD [OF assms(1)]
  define w where "w = weights (mg_graph g)"
  define w' where "w' = butlast (w[ix := last w])"
  define gr where "gr = dg_remove_node d (mg_graph g) ix"
  define nodes where "nodes = (if ix \<noteq> length w - 1 then AList.update (w ! (length w - 1)) ix (AList.delete n (mg_nodes g))
      else AList.delete n (mg_nodes g))"
  have ix: "ix < length w" "w ! ix = n" using Some store_okD(1) [OF assms(2)] by (simp_all add: w_def)
  have dist: "distinct w" and len: "length w' = length w - 1"
    using store_okD(4) [OF assms(2)] by (simp_all add: w_def w'_def)
  have weights: "weights gr = w'" using laws(8) ix(1) by (simp add: gr_def w_def w'_def)
  have last: "w' ! ix = w ! (length w - 1)" if "ix \<noteq> length w - 1"
    using nth_moved(1) [of "length w - 1" w ix] ix(1) that by (simp add: w'_def moved_def)
  have removed: "remove_node d n g = Some \<lparr>mg_graph = gr, mg_nodes = nodes\<rparr>"
    using Some ix(1) last
    by (auto simp: remove_node_def Let_def laws(10,11) gr_def [symmetric] weights len w_def [symmetric] nodes_def)
  have edges: "edges gr = map_prod (moved ix (length w - 1)) (moved ix (length w - 1)) ` {(a, b) \<in> edges (mg_graph g). a \<noteq> ix \<and> b \<noteq> ix}"
    using laws(9) ix(1) by (simp add: gr_def w_def)
  have bound: "a < length w \<and> b < length w" if "(a, b) \<in> edges (mg_graph g)" for a b
    using store_okD(2) [OF assms(2)] that by (simp add: w_def)
  have old: "map_of (mg_nodes g) name = Some i \<longleftrightarrow> i < length w \<and> w ! i = name" for name i
    using store_okD(1) [OF assms(2)] by (simp add: w_def)
  have look: "map_of nodes name = (if ix \<noteq> length w - 1 \<and> name = w ! (length w - 1) then Some ix
      else if name = n then None else map_of (mg_nodes g) name)" for name
    by (simp add: nodes_def update_conv' delete_conv')
  have neq: "w ! i \<noteq> n" if "i < length w" "i \<noteq> ix" for i
    using that ix dist by (auto simp: nth_eq_iff_index_eq)
  have table: "map_of nodes name = Some i \<longleftrightarrow> i < length w' \<and> w' ! i = name" for name i
  proof
    assume some: "map_of nodes name = Some i"
    show "i < length w' \<and> w' ! i = name"
    proof (cases "ix \<noteq> length w - 1 \<and> name = w ! (length w - 1)")
      case True
      then show ?thesis using some ix(1) last by (auto simp: look len)
    next
      case False
      then have i: "i < length w" "w ! i = name" "i \<noteq> ix" using some ix(2) old by (auto simp: look split: if_splits)
      with False have "i \<noteq> length w - 1" by auto
      then show ?thesis using nth_moved [OF i(1) ix(1) i(3)] i(2) by (simp add: moved_def w'_def)
    qed
  next
    assume i: "i < length w' \<and> w' ! i = name"
    then obtain j where j: "j < length w" "j \<noteq> ix" "i = moved ix (length w - 1) j"
      using set_removed [OF dist ix(1), of i] len by auto
    then have name: "name = w ! j" using i nth_moved(1) [OF j(1) ix(1) j(2)] by (simp add: w'_def)
    show "map_of nodes name = Some i"
    proof (cases "j = length w - 1")
      case True
      then show ?thesis using j name by (simp add: look moved_def)
    next
      case False
      then have "name \<noteq> w ! (length w - 1)" using name j(1) dist by (simp add: nth_eq_iff_index_eq)
      then show ?thesis using False j neq [OF j(1,2)] old by (simp add: look name moved_def)
    qed
  qed
  have ok: "store_ok weights edges \<lparr>mg_graph = gr, mg_nodes = nodes\<rparr>"
    unfolding store_ok_def using table bound nth_moved(2) [of _ w ix] ix(1)
    by (auto simp: weights edges len)
  have "w' ! moved ix (length w - 1) a = w ! a \<and> w ! a \<noteq> n" if "a < length w" "a \<noteq> ix" for a
    using nth_moved(1) [OF that(1) ix(1) that(2)] neq [OF that] by (simp add: w'_def)
  then have "name_edges weights edges \<lparr>mg_graph = gr, mg_nodes = nodes\<rparr> =
      map_prod ((!) w) ((!) w) ` {(a, b) \<in> edges (mg_graph g). a \<noteq> ix \<and> b \<noteq> ix}"
    using bound unfolding name_edges_def module_graph.simps weights edges image_image
    by (intro image_cong refl) (auto simp: map_prod_def)
  also have "\<dots> = {(a, b) \<in> name_edges weights edges g. a \<noteq> n \<and> b \<noteq> n}"
    using bound neq ix(2) unfolding name_edges_def w_def [symmetric] by (auto simp: image_iff Bex_def)
  finally have "name_edges weights edges \<lparr>mg_graph = gr, mg_nodes = nodes\<rparr> =
      {(a, b) \<in> name_edges weights edges g. a \<noteq> n \<and> b \<noteq> n}" .
  moreover have "node_names \<lparr>mg_graph = gr, mg_nodes = nodes\<rparr> = node_names g - {n}"
  proof (intro set_eqI)
    fix x
    have "w ! (length w - 1) \<in> node_names g"
      using old [of "w ! (length w - 1)" "length w - 1"] ix(1) by (auto simp: node_names_iff)
    then show "x \<in> node_names \<lparr>mg_graph = gr, mg_nodes = nodes\<rparr> \<longleftrightarrow> x \<in> node_names g - {n}"
      using neq [of "length w - 1"] ix(1) by (auto simp: node_names_iff look split: if_splits)
  qed
  ultimately show ?thesis using removed ok by blast
qed

lemma those_map_Some: "(\<And>x. x \<in> set xs \<Longrightarrow> f x = Some (g x)) \<Longrightarrow> those (map f xs) = Some (map g xs)"
  by (induction xs) simp_all

lemma find_edges_ok:
  assumes "digraph_ok d weights edges" "store_ok weights edges g"
  shows "\<exists>ns. neighbors d g m = Some ns \<and> set ns = {n. (m, n) \<in> name_edges weights edges g}"
    and "\<exists>ns. reverse_neighbors d g m = Some ns \<and> set ns = {n. (n, m) \<in> name_edges weights edges g}"
proof -
  note laws = digraph_okD [OF assms(1)]
  let ?w = "weights (mg_graph g)"
  have names: "those (map (dg_node_weight d (mg_graph g)) is) = Some (map ((!) ?w) is)"
    if "set is \<subseteq> {..<length ?w}" for "is"
    using that by (intro those_map_Some) (auto simp: laws(11))
  have node: "\<exists>ix. map_of (mg_nodes g) (?w ! i) = Some ix" if "i < length ?w" for i
    using that store_okD(1) [OF assms(2)] by blast
  show "\<exists>ns. neighbors d g m = Some ns \<and> set ns = {n. (m, n) \<in> name_edges weights edges g}"
  proof (cases "map_of (mg_nodes g) m")
    case None
    then show ?thesis
      using name_edges_nodes [OF assms(2), of m] by (auto simp: neighbors_def find_edges_def node_names_iff)
  next
    case (Some ix)
    have "set (dg_neighbors d (mg_graph g) Outgoing ix) \<subseteq> {..<length ?w}"
      using store_okD(2) [OF assms(2)] by (auto simp: laws(13))
    moreover have "(!) ?w ` {b. (ix, b) \<in> edges (mg_graph g)} = {n. (m, n) \<in> name_edges weights edges g}"
      using Some store_okD(2,4) [OF assms(2)]
      by (auto simp: name_edges_def store_okD(1) [OF assms(2)] nth_eq_iff_index_eq image_iff) force
    ultimately show ?thesis by (simp add: neighbors_def find_edges_def Some names laws(13))
  qed
  show "\<exists>ns. reverse_neighbors d g m = Some ns \<and> set ns = {n. (n, m) \<in> name_edges weights edges g}"
  proof (cases "map_of (mg_nodes g) m")
    case None
    then show ?thesis
      using name_edges_nodes [OF assms(2), of _ m] by (auto simp: reverse_neighbors_def find_edges_def node_names_iff)
  next
    case (Some ix)
    have "set (dg_neighbors d (mg_graph g) Incoming ix) \<subseteq> {..<length ?w}"
      using store_okD(2) [OF assms(2)] by (auto simp: laws(14))
    moreover have "(!) ?w ` {a. (a, ix) \<in> edges (mg_graph g)} = {n. (n, m) \<in> name_edges weights edges g}"
      using Some store_okD(2,4) [OF assms(2)]
      by (auto simp: name_edges_def store_okD(1) [OF assms(2)] nth_eq_iff_index_eq image_iff) force
    ultimately show ?thesis by (simp add: reverse_neighbors_def find_edges_def Some names laws(14))
  qed
qed

lemma has_edge_ok:
  assumes "digraph_ok d weights edges" "store_ok weights edges g"
  shows "has_edge d g m n \<longleftrightarrow> (m, n) \<in> name_edges weights edges g"
  using name_edges_nodes [OF assms(2), of m n] name_edges_iff [OF assms(2), of m _ n]
  by (auto simp: has_edge_def node_names_iff digraph_okD(12) [OF assms(1)] split: option.splits)

lemma try_add_edge_ok:
  assumes "digraph_ok d weights edges" "store_ok weights edges g" "m \<in> node_names g"
  shows "\<exists>g' added. try_add_edge d m n g = Some (g', added) \<and> store_ok weights edges g' \<and> node_names g' = node_names g \<and>
    added = (n \<in> node_names g \<and> m \<noteq> n \<and> (m, n) \<notin> name_edges weights edges g) \<and>
    name_edges weights edges g' = name_edges weights edges g \<union> (if added then {(m, n)} else {})"
  using add_edge_ok [OF assms, of n] assms(2) by (auto simp: try_add_edge_def has_edge_ok [OF assms(1,2)])

section \<open>Cycles\<close>

text \<open>The strongly connected components of a relation, over the elements of a set.\<close>

definition components :: "'a set \<Rightarrow> ('a \<times> 'a) set \<Rightarrow> 'a set set" where
  "components A r = (\<lambda>x. {y. (x, y) \<in> r\<^sup>* \<and> (y, x) \<in> r\<^sup>*}) ` A"

text \<open>What is relied on of \<open>kosaraju_scc\<close>: it returns the components, as lists without duplicates.\<close>

definition kosaraju_ok ::
  "('g \<Rightarrow> modname list) \<Rightarrow> ('g \<Rightarrow> (nat \<times> nat) set) \<Rightarrow> ('g \<Rightarrow> (modname \<Rightarrow> modname \<Rightarrow> bool) \<Rightarrow> nat list list) \<Rightarrow> bool" where
  "kosaraju_ok weights edges kosaraju \<longleftrightarrow>
     (\<forall>g keep. edges g \<subseteq> {..<length (weights g)} \<times> {..<length (weights g)} \<longrightarrow>
        set (map set (kosaraju g keep)) =
          components {..<length (weights g)} {(a, b) \<in> edges g. keep (weights g ! a) (weights g ! b)} \<and>
        list_all distinct (kosaraju g keep))"

lemma rtrancl_inj_image:
  assumes "inj_on f A" "r \<subseteq> A \<times> A" "x \<in> A" "y \<in> A"
  shows "(f x, f y) \<in> (map_prod f f ` r)\<^sup>* \<longleftrightarrow> (x, y) \<in> r\<^sup>*"
proof
  assume "(x, y) \<in> r\<^sup>*"
  then show "(f x, f y) \<in> (map_prod f f ` r)\<^sup>*"
  proof (induction rule: rtrancl_induct)
    case (step a b)
    then have "(f a, f b) \<in> map_prod f f ` r" by force
    with step.IH show ?case by (rule rtrancl_into_rtrancl)
  qed simp
next
  assume "(f x, f y) \<in> (map_prod f f ` r)\<^sup>*"
  then have "\<exists>b \<in> A. f y = f b \<and> (x, b) \<in> r\<^sup>*"
  proof (induction rule: rtrancl_induct)
    case base
    then show ?case using assms(3) by blast
  next
    case (step u v)
    then obtain a where a: "a \<in> A" "u = f a" "(x, a) \<in> r\<^sup>*" by blast
    from step.hyps(2) obtain c b where cb: "(c, b) \<in> r" "u = f c" "v = f b" by auto
    then have "c = a" "b \<in> A" using a assms(1,2) by (auto dest: inj_onD)
    with a cb show ?case by (blast intro: rtrancl_into_rtrancl)
  qed
  then show "(x, y) \<in> r\<^sup>*" using assms(1,4) by (blast dest: inj_onD)
qed

lemma components_inj_image:
  assumes "inj_on f A" "r \<subseteq> A \<times> A"
  shows "components (f ` A) (map_prod f f ` r) = (`) f ` components A r"
proof -
  have inside: "y \<in> A" if "x \<in> A" "(x, y) \<in> r\<^sup>*" for x y
    using that(2,1) assms(2) by (induction rule: rtrancl_induct) auto
  have image: "z \<in> f ` A" if "x \<in> A" "(f x, z) \<in> (map_prod f f ` r)\<^sup>*" for x z
    using that(2,1) assms(2) by (induction rule: rtrancl_induct) auto
  have "{z. (f x, z) \<in> (map_prod f f ` r)\<^sup>* \<and> (z, f x) \<in> (map_prod f f ` r)\<^sup>*} =
      f ` {y. (x, y) \<in> r\<^sup>* \<and> (y, x) \<in> r\<^sup>*}" if x: "x \<in> A" for x
  proof (intro equalityI subsetI)
    fix z assume z: "z \<in> {z. (f x, z) \<in> (map_prod f f ` r)\<^sup>* \<and> (z, f x) \<in> (map_prod f f ` r)\<^sup>*}"
    then obtain y where "y \<in> A" "z = f y" using image [OF x] by blast
    with z x show "z \<in> f ` {y. (x, y) \<in> r\<^sup>* \<and> (y, x) \<in> r\<^sup>*}"
      using rtrancl_inj_image [OF assms] by auto
  next
    fix z assume "z \<in> f ` {y. (x, y) \<in> r\<^sup>* \<and> (y, x) \<in> r\<^sup>*}"
    then obtain y where "z = f y" "(x, y) \<in> r\<^sup>*" "(y, x) \<in> r\<^sup>*" by blast
    then show "z \<in> {z. (f x, z) \<in> (map_prod f f ` r)\<^sup>* \<and> (z, f x) \<in> (map_prod f f ` r)\<^sup>*}"
      using rtrancl_inj_image [OF assms] x inside [OF x] by auto
  qed
  then show ?thesis by (auto simp: components_def image_image)
qed

definition extra_pairs :: "'g module_graph \<Rightarrow> (modname \<times> modname list) list \<Rightarrow> (modname \<times> modname) set" where
  "extra_pairs g extra_edges =
     {(m, n). m \<in> node_names g \<and> n \<in> node_names g \<and> (\<exists>tos. (m, tos) \<in> set extra_edges \<and> n \<in> set tos)}"

lemma add_extra_edges_ok:
  assumes "digraph_ok d weights edges" "store_ok weights edges g"
  shows "weights (add_extra_edges d g extra_edges) = weights (mg_graph g)"
    and "edges (add_extra_edges d g extra_edges) = edges (mg_graph g) \<union>
      {(p, q). \<exists>m n tos. (m, tos) \<in> set extra_edges \<and> n \<in> set tos \<and> map_of (mg_nodes g) m = Some p \<and> map_of (mg_nodes g) n = Some q}"
proof -
  note laws = digraph_okD(6,7) [OF assms(1)]
  define inner where "inner p = foldl (\<lambda>gr to. case map_of (mg_nodes g) to of None \<Rightarrow> gr | Some q \<Rightarrow> dg_add_edge d gr p q)" for p
  have inner: "weights (inner p gr tos) = weights gr \<and>
      edges (inner p gr tos) = edges gr \<union> {(p', q). p' = p \<and> (\<exists>n \<in> set tos. map_of (mg_nodes g) n = Some q)}" for p gr tos
    unfolding inner_def by (induction tos arbitrary: gr) (auto simp: laws split: option.split)
  have outer: "weights (foldl (\<lambda>gr (from, tos). case map_of (mg_nodes g) from of None \<Rightarrow> gr | Some p \<Rightarrow> inner p gr tos) gr es) =
        weights gr \<and>
      edges (foldl (\<lambda>gr (from, tos). case map_of (mg_nodes g) from of None \<Rightarrow> gr | Some p \<Rightarrow> inner p gr tos) gr es) =
        edges gr \<union> {(p, q). \<exists>m n tos. (m, tos) \<in> set es \<and> n \<in> set tos \<and> map_of (mg_nodes g) m = Some p \<and> map_of (mg_nodes g) n = Some q}"
    for es gr
  proof (induction es arbitrary: gr)
    case (Cons e es)
    obtain m tos where e: "e = (m, tos)" by fastforce
    show ?case
    proof (cases "map_of (mg_nodes g) m")
      case None
      then show ?thesis using Cons.IH [of gr] by (auto simp: e)
    next
      case (Some p)
      then show ?thesis using Cons.IH [of "inner p gr tos"] inner [of p gr tos] by (auto simp: e)
    qed
  qed simp
  show "weights (add_extra_edges d g extra_edges) = weights (mg_graph g)"
    using outer [of "mg_graph g" extra_edges] unfolding add_extra_edges_def inner_def by (rule conjunct1)
  show "edges (add_extra_edges d g extra_edges) = edges (mg_graph g) \<union>
      {(p, q). \<exists>m n tos. (m, tos) \<in> set extra_edges \<and> n \<in> set tos \<and> map_of (mg_nodes g) m = Some p \<and> map_of (mg_nodes g) n = Some q}"
    using outer [of "mg_graph g" extra_edges] unfolding add_extra_edges_def inner_def by (rule conjunct2)
qed

text \<open>The edges in which cycles are looked for.\<close>

definition cycle_edges ::
  "('g \<Rightarrow> modname list) \<Rightarrow> ('g \<Rightarrow> (nat \<times> nat) set) \<Rightarrow> 'g module_graph \<Rightarrow> (modname \<times> modname list) list \<Rightarrow>
     (modname \<times> modname) set" where
  "cycle_edges weights edges g extra_edges =
     {(m, n) \<in> name_edges weights edges g \<union> extra_pairs g extra_edges. \<not> is_ancestor_of n m}"

lemma kosaraju_indices:
  assumes "kosaraju_ok weights edges kosaraju" "edges gr \<subseteq> {..<length (weights gr)} \<times> {..<length (weights gr)}"
    "scc \<in> set (kosaraju gr keep)" "i \<in> set scc"
  shows "i < length (weights gr)"
proof -
  let ?r = "{(a, b) \<in> edges gr. keep (weights gr ! a) (weights gr ! b)}"
  have "set scc \<in> components {..<length (weights gr)} ?r"
    using assms(1-3) by (auto simp: kosaraju_ok_def)
  then obtain x where "x < length (weights gr)" "(x, i) \<in> ?r\<^sup>*" using assms(4) by (auto simp: components_def)
  from this(2,1) show ?thesis using assms(2) by (induction rule: rtrancl_induct) auto
qed

lemma multi_node_sccs_names:
  assumes "kosaraju_ok weights edges kosaraju" "distinct (weights gr)"
    "edges gr \<subseteq> {..<length (weights gr)} \<times> {..<length (weights gr)}"
  shows "(\<lambda>scc. (!) (weights gr) ` set scc) ` set (multi_node_sccs kosaraju gr) =
    {C \<in> components (set (weights gr))
           {(m, n) \<in> map_prod ((!) (weights gr)) ((!) (weights gr)) ` edges gr. \<not> is_ancestor_of n m}. 1 < card C}"
proof -
  let ?A = "{..<length (weights gr)}" and ?f = "(!) (weights gr)" and ?k = "\<lambda>m n. \<not> is_ancestor_of n m"
  let ?r = "{(a, b) \<in> edges gr. ?k (?f a) (?f b)}"
  have inj: "inj_on ?f ?A" using assms(2) by (auto intro: inj_onI simp: nth_eq_iff_index_eq)
  have r: "?r \<subseteq> ?A \<times> ?A" using assms(3) by auto
  have sccs: "set ` set (kosaraju gr ?k) = components ?A ?r"
    and dist: "\<forall>scc \<in> set (kosaraju gr ?k). distinct scc"
    using assms(1,3) by (simp_all add: kosaraju_ok_def list_all_iff)
  have sub: "C \<subseteq> ?A" if "C \<in> components ?A ?r" for C
  proof -
    have "y \<in> ?A" if "x \<in> ?A" "(x, y) \<in> ?r\<^sup>*" for x y
      using that(2,1) r by (induction rule: rtrancl_induct) auto
    then show ?thesis using that by (auto simp: components_def)
  qed
  have card: "card (?f ` C) = card C" if "C \<in> components ?A ?r" for C
    using inj_on_subset [OF inj sub [OF that]] by (rule card_image)
  have "set ` set (multi_node_sccs kosaraju gr) = {C \<in> components ?A ?r. 1 < card C}"
    unfolding sccs [symmetric] multi_node_sccs_def using dist by (auto simp: distinct_card image_iff Bex_def)
  then have "(\<lambda>scc. ?f ` set scc) ` set (multi_node_sccs kosaraju gr) = (`) ?f ` {C \<in> components ?A ?r. 1 < card C}"
    by (simp add: image_image [symmetric])
  also have "\<dots> = {C \<in> (`) ?f ` components ?A ?r. 1 < card C}"
    using card by auto
  also have "(`) ?f ` components ?A ?r = components (?f ` ?A) (map_prod ?f ?f ` ?r)"
    by (rule components_inj_image [OF inj r, symmetric])
  also have "?f ` ?A = set (weights gr)" by (auto simp: in_set_conv_nth)
  also have "map_prod ?f ?f ` ?r = {(m, n) \<in> map_prod ?f ?f ` edges gr. ?k m n}" by force
  finally show ?thesis .
qed

section \<open>Results\<close>

text \<open>
  C19: The graph keyed by names refines a set of names with a set of edges between them, whatever indices
  the nodes have: adding and removing nodes and edges, also where removing a node moves the last
  one to its index, does to the names and edges what it says and keeps the table of indices true;
  removal, both neighbour queries and the edges added from a known name never panic, and the neighbours
  are the ends of the edges.
\<close>

theorem module_graph_refines:
  assumes "digraph_ok d weights edges" "store_ok weights edges g"
  shows
    "(let g' = add_node d n g
      in store_ok weights edges g' \<and> node_names g' = insert n (node_names g) \<and>
         name_edges weights edges g' = name_edges weights edges g) \<and>
     (\<exists>g'. remove_node d n g = Some g' \<and> store_ok weights edges g' \<and> node_names g' = node_names g - {n} \<and>
         name_edges weights edges g' = {(a, b) \<in> name_edges weights edges g. a \<noteq> n \<and> b \<noteq> n}) \<and>
     (m \<in> node_names g \<longrightarrow>
       (\<exists>g' added. add_edge d m n g = Some (g', added) \<and> store_ok weights edges g' \<and> node_names g' = node_names g \<and>
         added = (n \<in> node_names g) \<and>
         name_edges weights edges g' = name_edges weights edges g \<union> (if added then {(m, n)} else {})) \<and>
       (\<exists>g' added. try_add_edge d m n g = Some (g', added) \<and> store_ok weights edges g' \<and> node_names g' = node_names g \<and>
         added = (n \<in> node_names g \<and> m \<noteq> n \<and> (m, n) \<notin> name_edges weights edges g) \<and>
         name_edges weights edges g' = name_edges weights edges g \<union> (if added then {(m, n)} else {}))) \<and>
     (\<exists>ns. neighbors d g m = Some ns \<and> set ns = {n. (m, n) \<in> name_edges weights edges g}) \<and>
     (\<exists>ns. reverse_neighbors d g m = Some ns \<and> set ns = {n. (n, m) \<in> name_edges weights edges g})"
proof -
  have edge: "\<exists>g' added. add_edge d m n g = Some (g', added) \<and> store_ok weights edges g' \<and> node_names g' = node_names g \<and>
      added = (n \<in> node_names g) \<and>
      name_edges weights edges g' = name_edges weights edges g \<union> (if added then {(m, n)} else {})"
    if "m \<in> node_names g"
    using add_edge_ok [OF assms that, of n] by blast
  show ?thesis
    unfolding Let_def
    by (intro conjI impI edge try_add_edge_ok [OF assms] remove_node_ok [OF assms] find_edges_ok [OF assms])
      (simp_all add: add_node_ok [OF assms])
qed

text \<open>A graph of \<open>petgraph\<close>'s kind: the weights and the edges as lists.\<close>

fun direction_edges :: "direction \<Rightarrow> nat \<Rightarrow> (nat \<times> nat) list \<Rightarrow> nat list" where
  "direction_edges Outgoing i es = map snd (filter (\<lambda>e. fst e = i) es)"
| "direction_edges Incoming i es = map fst (filter (\<lambda>e. snd e = i) es)"

definition list_digraph :: "(modname list \<times> (nat \<times> nat) list) digraph" where
  "list_digraph =
     \<lparr>dg_new = ([], []),
      dg_add_node = (\<lambda>g w. ((fst g @ [w], snd g), length (fst g))),
      dg_add_edge = (\<lambda>g a b. (fst g, (a, b) # snd g)),
      dg_remove_node = (\<lambda>g i. (butlast ((fst g)[i := last (fst g)]),
        map (map_prod (moved i (length (fst g) - 1)) (moved i (length (fst g) - 1)))
          (filter (\<lambda>(a, b). a \<noteq> i \<and> b \<noteq> i) (snd g)))),
      dg_node_count = (\<lambda>g. length (fst g)),
      dg_node_weight = (\<lambda>g i. if i < length (fst g) then Some (fst g ! i) else None),
      dg_contains_edge = (\<lambda>g a b. (a, b) \<in> set (snd g)),
      dg_neighbors = (\<lambda>g dir i. direction_edges dir i (snd g))\<rparr>"

lemma list_digraph_ok: "digraph_ok list_digraph fst (\<lambda>g. set (snd g))"
  by (auto simp: digraph_ok_def list_digraph_def image_iff)

definition list_kosaraju :: "modname list \<times> (nat \<times> nat) list \<Rightarrow> (modname \<Rightarrow> modname \<Rightarrow> bool) \<Rightarrow> nat list list" where
  "list_kosaraju g keep =
     (let r = trancl (set (filter (\<lambda>(a, b). keep (fst g ! a) (fst g ! b)) (snd g))); n = length (fst g)
      in remdups (map (\<lambda>x. filter (\<lambda>y. x = y \<or> (x, y) \<in> r \<and> (y, x) \<in> r) [0..<n]) [0..<n]))"

lemma list_kosaraju_ok: "kosaraju_ok fst (\<lambda>g. set (snd g)) list_kosaraju"
  unfolding kosaraju_ok_def
proof (intro allI impI conjI)
  fix g :: "modname list \<times> (nat \<times> nat) list" and keep
  assume bound: "set (snd g) \<subseteq> {..<length (fst g)} \<times> {..<length (fst g)}"
  let ?n = "length (fst g)" and ?r = "{(a, b) \<in> set (snd g). keep (fst g ! a) (fst g ! b)}"
  have r: "set (filter (\<lambda>(a, b). keep (fst g ! a) (fst g ! b)) (snd g)) = ?r" by auto
  have "y < ?n" if "(x, y) \<in> ?r\<^sup>+" for x y using that bound by (induction rule: trancl_induct) auto
  then have "set (filter (\<lambda>y. x = y \<or> (x, y) \<in> ?r\<^sup>+ \<and> (y, x) \<in> ?r\<^sup>+) [0..<?n]) =
      {y. (x, y) \<in> ?r\<^sup>* \<and> (y, x) \<in> ?r\<^sup>*}" if "x < ?n" for x
    using that by (auto simp: rtrancl_eq_or_trancl)
  then show "set (map set (list_kosaraju g keep)) = components {..<?n} ?r"
    unfolding list_kosaraju_def Let_def r components_def by (auto simp: image_image atLeast0LessThan)
  show "list_all distinct (list_kosaraju g keep)" by (simp add: list_kosaraju_def Let_def list_all_iff)
qed

definition graph_sample :: "(modname list \<times> (nat \<times> nat) list) module_graph" where
  "graph_sample =
     (let g = foldl (\<lambda>g n. add_node list_digraph n g) (new_graph list_digraph) [''p'', ''p.a'', ''b'', ''c''];
          edge = (\<lambda>m n g. fst (the (add_edge list_digraph m n g)))
      in edge ''b'' ''c'' (edge ''c'' ''b'' (edge ''p'' ''p.a'' (edge ''p.a'' ''p'' g))))"

lemma graph_sample_ok: "store_ok fst (\<lambda>g. set (snd g)) graph_sample"
proof -
  have "mg_nodes graph_sample = [(''p'', 0), (''p.a'', 1), (''b'', 2), (''c'', 3)] \<and>
      mg_graph graph_sample = ([''p'', ''p.a'', ''b'', ''c''], [(2, 3), (3, 2), (0, 1), (1, 0)])"
    by code_simp
  then show ?thesis by (auto simp: store_ok_def nth_Cons' split: if_splits)
qed

lemma module_graph_refines_witness:
  "\<exists>g'. remove_node list_digraph ''p'' graph_sample = Some g' \<and> node_names g' = node_names graph_sample - {''p''} \<and>
     name_edges fst (\<lambda>g. set (snd g)) g' =
       {(a, b) \<in> name_edges fst (\<lambda>g. set (snd g)) graph_sample. a \<noteq> ''p'' \<and> b \<noteq> ''p''}"
  using module_graph_refines [OF list_digraph_ok graph_sample_ok, of "''p''" "''b''"] by blast

text \<open>
  C24: The cycles of the graph are, by their names, exactly the strongly connected components with more
  than one module, over the edges of the graph and the additional ones between its modules, without
  those to a module's own package; no name of a cycle is missing.
\<close>

theorem find_cycles_exact:
  assumes "digraph_ok d weights edges" "store_ok weights edges g" "kosaraju_ok weights edges kosaraju"
  shows "\<exists>cycles. map (cycle_names d g) (find_cycles d kosaraju extra_edges g) = map Some cycles \<and>
    set ` set cycles =
      {C \<in> components (node_names g) (cycle_edges weights edges g extra_edges). 1 < card C}"
proof -
  define gr where "gr = (if extra_edges = [] then mg_graph g else add_extra_edges d g extra_edges)"
  define ed where "ed = {(p, q). \<exists>m n tos. (m, tos) \<in> set extra_edges \<and> n \<in> set tos \<and>
      map_of (mg_nodes g) m = Some p \<and> map_of (mg_nodes g) n = Some q}"
  let ?w = "weights (mg_graph g)"
  have w: "weights gr = ?w" and e: "edges gr = edges (mg_graph g) \<union> ed"
    using add_extra_edges_ok [OF assms(1,2), of extra_edges] by (auto simp: gr_def ed_def)
  have found: "find_cycles d kosaraju extra_edges g = multi_node_sccs kosaraju gr"
    by (simp add: find_cycles_def gr_def)
  have bound: "edges gr \<subseteq> {..<length ?w} \<times> {..<length ?w}"
    using store_okD(2) [OF assms(2)] by (auto simp: e ed_def store_okD(1) [OF assms(2)])
  have extra: "map_prod ((!) ?w) ((!) ?w) ` ed = extra_pairs g extra_edges"
  proof (intro equalityI subsetI)
    fix e assume "e \<in> map_prod ((!) ?w) ((!) ?w) ` ed"
    then obtain p q m n tos where "e = (?w ! p, ?w ! q)" "(m, tos) \<in> set extra_edges" "n \<in> set tos"
      "map_of (mg_nodes g) m = Some p" "map_of (mg_nodes g) n = Some q" by (auto simp: ed_def)
    moreover from this(4,5) have "?w ! p = m" "?w ! q = n" by (simp_all add: store_okD(1) [OF assms(2)])
    ultimately show "e \<in> extra_pairs g extra_edges" by (auto simp: extra_pairs_def node_names_iff)
  next
    fix e assume "e \<in> extra_pairs g extra_edges"
    then obtain m n tos p q where e: "e = (m, n)" "(m, tos) \<in> set extra_edges" "n \<in> set tos"
      and pq: "map_of (mg_nodes g) m = Some p" "map_of (mg_nodes g) n = Some q"
      by (auto simp: extra_pairs_def node_names_iff)
    then have "(p, q) \<in> ed" by (auto simp: ed_def)
    moreover have "e = map_prod ((!) ?w) ((!) ?w) (p, q)"
      using pq by (simp add: e(1) store_okD(1) [OF assms(2)])
    ultimately show "e \<in> map_prod ((!) ?w) ((!) ?w) ` ed" by blast
  qed
  have "{(m, n) \<in> map_prod ((!) ?w) ((!) ?w) ` edges gr. \<not> is_ancestor_of n m} = cycle_edges weights edges g extra_edges"
    by (simp add: cycle_edges_def e image_Un extra name_edges_def)
  then have sets: "(\<lambda>scc. (!) ?w ` set scc) ` set (multi_node_sccs kosaraju gr) =
      {C \<in> components (node_names g) (cycle_edges weights edges g extra_edges). 1 < card C}"
    using multi_node_sccs_names [OF assms(3), of gr] store_okD(3,4) [OF assms(2)] bound by (simp add: w)
  have "i < length ?w" if "scc \<in> set (multi_node_sccs kosaraju gr)" "i \<in> set scc" for scc i
  proof -
    have "scc \<in> set (kosaraju gr (\<lambda>source target. \<not> is_ancestor_of target source))"
      using that(1) by (simp add: multi_node_sccs_def)
    from kosaraju_indices [OF assms(3) _ this that(2)] bound show ?thesis by (simp add: w)
  qed
  then have "cycle_names d g scc = Some (map ((!) ?w) scc)" if "scc \<in> set (multi_node_sccs kosaraju gr)" for scc
    using that unfolding cycle_names_def by (intro those_map_Some) (simp add: digraph_okD(11) [OF assms(1)])
  then have "map (cycle_names d g) (find_cycles d kosaraju extra_edges g) =
      map Some (map (map ((!) ?w)) (multi_node_sccs kosaraju gr))"
    by (simp add: found)
  moreover have "set ` set (map (map ((!) ?w)) (multi_node_sccs kosaraju gr)) =
      {C \<in> components (node_names g) (cycle_edges weights edges g extra_edges). 1 < card C}"
    unfolding sets [symmetric] by (simp add: image_image)
  ultimately show ?thesis by blast
qed

lemma find_cycles_exact_witness:
  "\<exists>cycles. map (cycle_names list_digraph graph_sample) (find_cycles list_digraph list_kosaraju [] graph_sample) =
       map Some cycles \<and>
     set ` set cycles =
       {C \<in> components (node_names graph_sample) (cycle_edges fst (\<lambda>g. set (snd g)) graph_sample []). 1 < card C}"
  by (rule find_cycles_exact [OF list_digraph_ok graph_sample_ok list_kosaraju_ok])

text \<open>An edge to a module's own package makes no cycle.\<close>

lemma graph_sample_cycles:
  "map (cycle_names list_digraph graph_sample) (find_cycles list_digraph list_kosaraju [] graph_sample) =
     [Some [''b'', ''c'']]"
  by code_simp

end
