(* ===== verification/Import_Collector.thy ===== *)
theory Import_Collector
  imports Import_Graph Config
begin

text \<open>
  What a module imports, read off its syntax tree (\<open>ModuleImportCollector\<close> and \<open>ImportlibState\<close> of
  \<open>src/imports.rs\<close>). The statements are those of \<open>ruff\<close> as far as the collector looks at them: aliases,
  decorators, targets and loop headers are not kept, and a statement of another kind is
  \<open>Stmt_Other\<close>. The tests of an \<open>if\<close> are the expressions of \<open>Config\<close>. \<open>ModuleName::new_maybe_relative\<close> of
  \<open>pyrefly\<close>, which resolves a relative import, is a parameter.
\<close>

section \<open>Syntax\<close>

datatype py_expr =
    Expr_Name string
  | Expr_Attribute py_expr string
  | Expr_StringLiteral string
  | Expr_Call py_expr "py_expr list" "(string option \<times> py_expr) list"
  | Expr_Other

text \<open>The suites of a compound statement are its bodies, in the order they are visited.\<close>

datatype import_stmt =
    Stmt_Import "string list"
  | Stmt_ImportFrom "string option" nat "string list"
  | Stmt_If "(expr option \<times> import_stmt list) list"
  | Stmt_Try "import_stmt list list"
  | Stmt_With "import_stmt list list"
  | Stmt_For "import_stmt list list"
  | Stmt_While "import_stmt list list"
  | Stmt_Match "import_stmt list list"
  | Stmt_Expr py_expr
  | Stmt_Assign py_expr
  | Stmt_FunctionDef "import_stmt list"
  | Stmt_ClassDef "import_stmt list"
  | Stmt_Other

section \<open>Calls of \<open>importlib.import_module\<close>\<close>

record importlib_state =
  il_has_importlib :: bool
  il_has_import_module :: bool

definition is_import_module_call :: "importlib_state \<Rightarrow> py_expr \<Rightarrow> bool" where
  "is_import_module_call il func \<longleftrightarrow>
     il_has_import_module il \<and> func = Expr_Name ''import_module'' \<or>
     il_has_importlib il \<and> func = Expr_Attribute (Expr_Name ''importlib'') ''import_module''"

type_synonym relative_fn = "modname \<Rightarrow> bool \<Rightarrow> nat \<Rightarrow> string option \<Rightarrow> modname option"

fun string_literal :: "py_expr \<Rightarrow> string option" where
  "string_literal (Expr_StringLiteral s) = Some s"
| "string_literal _ = None"

definition keyword_value :: "string \<Rightarrow> (string option \<times> py_expr) list \<Rightarrow> py_expr option" where
  "keyword_value key keywords = map_option snd (find_first (\<lambda>(arg, _). arg = Some key) keywords)"

definition get_relative_imported_module_name :: "relative_fn \<Rightarrow> string \<Rightarrow> string \<Rightarrow> modname option" where
  "get_relative_imported_module_name relative name package =
     (if take 1 name \<noteq> [dot] then None
      else
        (let dot_count = length (takeWhile (\<lambda>c. c = dot) name) - 1;
             suffix = dropWhile (\<lambda>c. c = dot) name
         in if dot_count = 0 then Some (append_str package suffix)
            else relative package False dot_count (Some suffix)))"

definition get_imported_module_name_mixed_args ::
  "relative_fn \<Rightarrow> py_expr list \<Rightarrow> (string option \<times> py_expr) list \<Rightarrow> modname option" where
  "get_imported_module_name_mixed_args relative args keywords =
     (case (args, keywords) of
        ([arg], [(Some key, v)]) \<Rightarrow>
          if key = ''package'' then
            (case (string_literal v, string_literal arg) of
               (Some package, Some name) \<Rightarrow> get_relative_imported_module_name relative name package
             | _ \<Rightarrow> None)
          else None
      | _ \<Rightarrow> None)"

definition get_imported_module_name_kw_args ::
  "relative_fn \<Rightarrow> (string option \<times> py_expr) list \<Rightarrow> modname option" where
  "get_imported_module_name_kw_args relative keywords =
     (case keyword_value ''name'' keywords of
        None \<Rightarrow> None
      | Some v \<Rightarrow>
          (case string_literal v of
             None \<Rightarrow> None
           | Some name \<Rightarrow>
               (case Option.bind (keyword_value ''package'' keywords) string_literal of
                  Some package \<Rightarrow> get_relative_imported_module_name relative name package
                | None \<Rightarrow> Some name)))"

definition get_imported_module_name_pos_args :: "relative_fn \<Rightarrow> py_expr list \<Rightarrow> modname option" where
  "get_imported_module_name_pos_args relative args =
     (case map string_literal args of
        [Some name, Some package] \<Rightarrow> get_relative_imported_module_name relative name package
      | [Some arg] \<Rightarrow> Some arg
      | _ \<Rightarrow> None)"

text \<open>\<open>a.or_else(|| b)\<close>.\<close>

fun or_else :: "'a option \<Rightarrow> 'a option \<Rightarrow> 'a option" where
  "or_else None b = b"
| "or_else (Some x) b = Some x"

definition get_imported_module_name ::
  "relative_fn \<Rightarrow> py_expr list \<Rightarrow> (string option \<times> py_expr) list \<Rightarrow> modname option" where
  "get_imported_module_name relative args keywords =
     or_else (or_else (get_imported_module_name_mixed_args relative args keywords)
         (get_imported_module_name_kw_args relative keywords))
       (get_imported_module_name_pos_args relative args)"

fun match_call :: "relative_fn \<Rightarrow> importlib_state \<Rightarrow> py_expr \<Rightarrow> modname option" where
  "match_call relative il (Expr_Call func args keywords) =
     (if is_import_module_call il func then get_imported_module_name relative args keywords else None)"
| "match_call relative il _ = None"

text \<open>The chain of an attribute access, from the innermost object outwards.\<close>

fun attribute_parts :: "py_expr \<Rightarrow> string list" where
  "attribute_parts (Expr_Attribute v attr) = attr # attribute_parts v"
| "attribute_parts _ = []"

fun from_parts :: "string list \<Rightarrow> modname" where
  "from_parts [] = ''''"
| "from_parts [p] = p"
| "from_parts (p # q # ps) = append_str p (from_parts (q # ps))"

definition get_import_chain_string :: "py_expr \<Rightarrow> string option \<Rightarrow> string \<Rightarrow> modname" where
  "get_import_chain_string obj attr res_name =
     from_parts (rev ((case attr of None \<Rightarrow> [] | Some ident \<Rightarrow> [ident]) @ attribute_parts obj @ [res_name]))"

section \<open>The collector\<close>

text \<open>What does not change while a module is walked.\<close>

record collect_ctx =
  cx_module :: modname
  cx_is_init :: bool
  cx_contains :: "modname \<Rightarrow> bool"
  cx_relative :: relative_fn
  cx_sys_pruned :: "expr option list \<Rightarrow> (expr option \<times> nat) list"
  cx_main_module :: "modname option"

record collector =
  co_imports :: "modname list"
  co_ambiguous_imports :: "modname list"
  co_unguarded_imports :: "modname list"
  co_unguarded_ambiguous :: "modname list"
  main_guard_depth :: nat
  co_has_importlib :: bool
  co_has_import_module :: bool

definition new_collector :: collector where
  "new_collector =
     \<lparr>co_imports = [], co_ambiguous_imports = [], co_unguarded_imports = [], co_unguarded_ambiguous = [],
      main_guard_depth = 0, co_has_importlib = False, co_has_import_module = False\<rparr>"

definition record_edge :: "modname \<Rightarrow> collector \<Rightarrow> collector" where
  "record_edge m st =
     (let st = st\<lparr>co_imports := List.insert m (co_imports st)\<rparr>
      in if main_guard_depth st = 0 then st\<lparr>co_unguarded_imports := List.insert m (co_unguarded_imports st)\<rparr> else st)"

definition record_ambiguous :: "modname \<Rightarrow> collector \<Rightarrow> collector" where
  "record_ambiguous m st =
     (let st = st\<lparr>co_ambiguous_imports := List.insert m (co_ambiguous_imports st)\<rparr>
      in if main_guard_depth st = 0 then st\<lparr>co_unguarded_ambiguous := List.insert m (co_unguarded_ambiguous st)\<rparr>
         else st)"

definition collect_call :: "collect_ctx \<Rightarrow> py_expr \<Rightarrow> collector \<Rightarrow> collector" where
  "collect_call cx call st =
     (case match_call (cx_relative cx)
             \<lparr>il_has_importlib = co_has_importlib st, il_has_import_module = co_has_import_module st\<rparr> call of
        None \<Rightarrow> st
      | Some m \<Rightarrow> record_edge m st)"

definition is_importlib :: "modname \<Rightarrow> bool" where
  "is_importlib m \<longleftrightarrow> m = ''importlib'' \<or> take 10 m = ''importlib'' @ [dot]"

definition import_name :: "modname \<Rightarrow> collector \<Rightarrow> collector" where
  "import_name m st =
     (let st = (if is_importlib m then st\<lparr>co_has_importlib := True\<rparr> else st);
          st = foldl (\<lambda>st i. if m ! i = dot then record_edge (take i m) st else st) st [0..<length m]
      in record_edge m st)"

definition import_from_single :: "collect_ctx \<Rightarrow> modname \<Rightarrow> string \<Rightarrow> collector \<Rightarrow> collector" where
  "import_from_single cx parent name st =
     (let st = (if parent = ''importlib'' \<and> name = ''import_module'' then st\<lparr>co_has_import_module := True\<rparr> else st)
      in if name = ''*'' then st
         else
           (let maybe_sub = (if parent = '''' then name else append_str parent name)
            in if cx_contains cx maybe_sub \<or> \<not> cx_contains cx parent then record_edge maybe_sub st
               else record_ambiguous maybe_sub st))"

definition import_from :: "collect_ctx \<Rightarrow> string option \<Rightarrow> nat \<Rightarrow> string list \<Rightarrow> collector \<Rightarrow> collector" where
  "import_from cx rel level names st =
     (case cx_relative cx (cx_module cx) (cx_is_init cx) level rel of
        None \<Rightarrow> st
      | Some parent \<Rightarrow>
          foldl (\<lambda>st name. import_from_single cx parent name st)
            (if parent \<noteq> '''' then record_edge parent st else st) names)"

text \<open>One branch of an \<open>if\<close>: a \<open>__main__\<close> guard is counted while its body is walked.\<close>

definition if_branch :: "expr option \<Rightarrow> (collector \<Rightarrow> collector) \<Rightarrow> collector \<Rightarrow> collector" where
  "if_branch test body st =
     (let guard = (case test of None \<Rightarrow> False | Some t \<Rightarrow> is_name_main_guard t);
          st = (if guard then st\<lparr>main_guard_depth := main_guard_depth st + 1\<rparr> else st);
          st = body st
      in if guard then st\<lparr>main_guard_depth := main_guard_depth st - 1\<rparr> else st)"

text \<open>The branches are selected by position; \<open>bodies\<close> holds the walk of each.\<close>

definition collect_if :: "collect_ctx \<Rightarrow> expr option list \<Rightarrow> (collector \<Rightarrow> collector) list \<Rightarrow> collector \<Rightarrow> collector" where
  "collect_if cx tests bodies st =
     foldl (\<lambda>st (t, i). if i < length bodies then if_branch t (bodies ! i) st else st) st
       (lg_pruned_if_branches (cx_sys_pruned cx) (cx_main_module cx) (cx_module cx) tests)"

definition run_all :: "('s \<Rightarrow> 's) list \<Rightarrow> 's \<Rightarrow> 's" where
  "run_all fs st = foldl (\<lambda>st f. f st) st fs"

fun collect_stmt :: "collect_ctx \<Rightarrow> import_stmt \<Rightarrow> collector \<Rightarrow> collector" where
  "collect_stmt cx (Stmt_Import names) st = foldl (\<lambda>st m. import_name m st) st names"
| "collect_stmt cx (Stmt_ImportFrom rel level names) st = import_from cx rel level names st"
| "collect_stmt cx (Stmt_If branches) st =
     collect_if cx (map fst branches) (map (\<lambda>(t, body). run_all (map (collect_stmt cx) body)) branches) st"
| "collect_stmt cx (Stmt_Try suites) st = run_all (map (\<lambda>body. run_all (map (collect_stmt cx) body)) suites) st"
| "collect_stmt cx (Stmt_With suites) st = run_all (map (\<lambda>body. run_all (map (collect_stmt cx) body)) suites) st"
| "collect_stmt cx (Stmt_For suites) st = run_all (map (\<lambda>body. run_all (map (collect_stmt cx) body)) suites) st"
| "collect_stmt cx (Stmt_While suites) st = run_all (map (\<lambda>body. run_all (map (collect_stmt cx) body)) suites) st"
| "collect_stmt cx (Stmt_Match suites) st = run_all (map (\<lambda>body. run_all (map (collect_stmt cx) body)) suites) st"
| "collect_stmt cx (Stmt_Expr e) st = collect_call cx e st"
| "collect_stmt cx (Stmt_Assign e) st = collect_call cx e st"
| "collect_stmt cx (Stmt_FunctionDef body) st = run_all (map (collect_stmt cx) body) st"
| "collect_stmt cx (Stmt_ClassDef body) st = run_all (map (collect_stmt cx) body) st"
| "collect_stmt cx Stmt_Other st = st"

definition collect_stmts :: "collect_ctx \<Rightarrow> import_stmt list \<Rightarrow> collector \<Rightarrow> collector" where
  "collect_stmts cx body = run_all (map (collect_stmt cx) body)"

text \<open>The imports, the ambiguous ones, and those of either kind written under a guard only.\<close>

definition collect :: "collect_ctx \<Rightarrow> import_stmt list \<Rightarrow> modname list \<times> modname list \<times> modname list" where
  "collect cx body =
     (let st = collect_stmts cx body new_collector;
          unguarded = co_unguarded_imports st @ co_unguarded_ambiguous st;
          main_guard_only = filter (\<lambda>m. m \<notin> set unguarded) (List.union (co_imports st) (co_ambiguous_imports st))
      in (co_imports st, co_ambiguous_imports st, main_guard_only))"

section \<open>The statements that are reached\<close>

text \<open>
  The statements without suites that the collector reaches, in order, each with whether it is under a
  guard.
\<close>

definition is_guard_test :: "expr option \<Rightarrow> bool" where
  "is_guard_test test \<longleftrightarrow> (case test of None \<Rightarrow> False | Some t \<Rightarrow> is_name_main_guard t)"

fun reached_stmts :: "collect_ctx \<Rightarrow> bool \<Rightarrow> import_stmt \<Rightarrow> (import_stmt \<times> bool) list" where
  "reached_stmts cx g (Stmt_If branches) =
     (let plain = map (\<lambda>(t, body). concat (map (reached_stmts cx g) body)) branches;
          guarded = map (\<lambda>(t, body). concat (map (reached_stmts cx True) body)) branches
      in concat (map (\<lambda>(t, i). if i < length branches then (if is_guard_test t then guarded ! i else plain ! i) else [])
           (lg_pruned_if_branches (cx_sys_pruned cx) (cx_main_module cx) (cx_module cx) (map fst branches))))"
| "reached_stmts cx g (Stmt_Try suites) = concat (map (\<lambda>body. concat (map (reached_stmts cx g) body)) suites)"
| "reached_stmts cx g (Stmt_With suites) = concat (map (\<lambda>body. concat (map (reached_stmts cx g) body)) suites)"
| "reached_stmts cx g (Stmt_For suites) = concat (map (\<lambda>body. concat (map (reached_stmts cx g) body)) suites)"
| "reached_stmts cx g (Stmt_While suites) = concat (map (\<lambda>body. concat (map (reached_stmts cx g) body)) suites)"
| "reached_stmts cx g (Stmt_Match suites) = concat (map (\<lambda>body. concat (map (reached_stmts cx g) body)) suites)"
| "reached_stmts cx g (Stmt_FunctionDef body) = concat (map (reached_stmts cx g) body)"
| "reached_stmts cx g (Stmt_ClassDef body) = concat (map (reached_stmts cx g) body)"
| "reached_stmts cx g s = [(s, g)]"

definition submodule :: "modname \<Rightarrow> string \<Rightarrow> modname" where
  "submodule parent name = (if parent = '''' then name else append_str parent name)"

definition taken_as_edge :: "collect_ctx \<Rightarrow> modname \<Rightarrow> string \<Rightarrow> bool" where
  "taken_as_edge cx parent name \<longleftrightarrow> cx_contains cx (submodule parent name) \<or> \<not> cx_contains cx parent"

text \<open>The module a \<open>from\<close> import names.\<close>

definition from_parent :: "collect_ctx \<Rightarrow> string option \<Rightarrow> nat \<Rightarrow> modname option" where
  "from_parent cx rel level = cx_relative cx (cx_module cx) (cx_is_init cx) level rel"

fun edges_of :: "collect_ctx \<Rightarrow> importlib_state \<Rightarrow> import_stmt \<Rightarrow> modname set" where
  "edges_of cx il (Stmt_Import names) = {m. \<exists>n \<in> set names. m = n \<or> is_ancestor_of m n}"
| "edges_of cx il (Stmt_ImportFrom rel level names) =
     (case from_parent cx rel level of
        None \<Rightarrow> {}
      | Some parent \<Rightarrow>
          {m. m = parent \<and> parent \<noteq> ''''} \<union>
          submodule parent ` {n \<in> set names. n \<noteq> ''*'' \<and> taken_as_edge cx parent n})"
| "edges_of cx il (Stmt_Expr e) = set_option (match_call (cx_relative cx) il e)"
| "edges_of cx il (Stmt_Assign e) = set_option (match_call (cx_relative cx) il e)"
| "edges_of cx il _ = {}"

fun ambiguous_of :: "collect_ctx \<Rightarrow> import_stmt \<Rightarrow> modname set" where
  "ambiguous_of cx (Stmt_ImportFrom rel level names) =
     (case from_parent cx rel level of
        None \<Rightarrow> {}
      | Some parent \<Rightarrow> submodule parent ` {n \<in> set names. n \<noteq> ''*'' \<and> \<not> taken_as_edge cx parent n})"
| "ambiguous_of cx _ = {}"

fun brings_importlib :: "import_stmt \<Rightarrow> bool" where
  "brings_importlib (Stmt_Import names) \<longleftrightarrow> (\<exists>n \<in> set names. is_importlib n)"
| "brings_importlib _ \<longleftrightarrow> False"

fun brings_import_module :: "collect_ctx \<Rightarrow> import_stmt \<Rightarrow> bool" where
  "brings_import_module cx (Stmt_ImportFrom rel level names) \<longleftrightarrow>
     from_parent cx rel level = Some ''importlib'' \<and> ''import_module'' \<in> set names"
| "brings_import_module cx _ \<longleftrightarrow> False"

text \<open>What is known of \<open>importlib\<close> after some statements.\<close>

definition importlib_after :: "collect_ctx \<Rightarrow> (import_stmt \<times> bool) list \<Rightarrow> importlib_state" where
  "importlib_after cx ss =
     \<lparr>il_has_importlib = (\<exists>s \<in> fst ` set ss. brings_importlib s),
      il_has_import_module = (\<exists>s \<in> fst ` set ss. brings_import_module cx s)\<rparr>"

definition edge_at :: "collect_ctx \<Rightarrow> (import_stmt \<times> bool) list \<Rightarrow> bool \<Rightarrow> modname \<Rightarrow> bool" where
  "edge_at cx ss g m \<longleftrightarrow> (\<exists>us s vs. ss = us @ (s, g) # vs \<and> m \<in> edges_of cx (importlib_after cx us) s)"

definition ambiguous_at :: "collect_ctx \<Rightarrow> (import_stmt \<times> bool) list \<Rightarrow> bool \<Rightarrow> modname \<Rightarrow> bool" where
  "ambiguous_at cx ss g m \<longleftrightarrow> (\<exists>s. (s, g) \<in> set ss \<and> m \<in> ambiguous_of cx s)"

section \<open>The collector as sets\<close>

record collector_view =
  v_imports :: "modname set"
  v_ambiguous :: "modname set"
  v_unguarded :: "modname set"
  v_unguarded_ambiguous :: "modname set"
  v_importlib :: importlib_state

definition view :: "collector \<Rightarrow> collector_view" where
  "view st =
     \<lparr>v_imports = set (co_imports st), v_ambiguous = set (co_ambiguous_imports st),
      v_unguarded = set (co_unguarded_imports st), v_unguarded_ambiguous = set (co_unguarded_ambiguous st),
      v_importlib = \<lparr>il_has_importlib = co_has_importlib st, il_has_import_module = co_has_import_module st\<rparr>\<rparr>"

text \<open>A view that gains edges, ambiguous imports and knowledge of \<open>importlib\<close>.\<close>

definition gains :: "bool \<Rightarrow> modname set \<Rightarrow> modname set \<Rightarrow> bool \<Rightarrow> bool \<Rightarrow> collector_view \<Rightarrow> collector_view" where
  "gains g es as il im v =
     \<lparr>v_imports = v_imports v \<union> es, v_ambiguous = v_ambiguous v \<union> as,
      v_unguarded = v_unguarded v \<union> (if g then {} else es),
      v_unguarded_ambiguous = v_unguarded_ambiguous v \<union> (if g then {} else as),
      v_importlib = \<lparr>il_has_importlib = (il_has_importlib (v_importlib v) \<or> il),
                     il_has_import_module = (il_has_import_module (v_importlib v) \<or> im)\<rparr>\<rparr>"

lemma gains_gains [simp]:
  "gains g es as il im (gains g es' as' il' im' v) = gains g (es' \<union> es) (as' \<union> as) (il' \<or> il) (im' \<or> im) v"
  by (auto simp: gains_def)

definition absorb :: "collect_ctx \<Rightarrow> collector_view \<Rightarrow> import_stmt \<times> bool \<Rightarrow> collector_view" where
  "absorb cx v sg =
     (case sg of (s, g) \<Rightarrow>
        gains g (edges_of cx (v_importlib v) s) (ambiguous_of cx s) (brings_importlib s) (brings_import_module cx s) v)"

text \<open>A step that keeps the depth and whose view gains the given sets.\<close>

definition steps_to :: "modname set \<Rightarrow> modname set \<Rightarrow> bool \<Rightarrow> bool \<Rightarrow> collector \<Rightarrow> collector \<Rightarrow> bool" where
  "steps_to es as il im st st' \<longleftrightarrow>
     main_guard_depth st' = main_guard_depth st \<and> view st' = gains (main_guard_depth st \<noteq> 0) es as il im (view st)"

lemma steps_to_refl: "steps_to {} {} False False st st"
  by (simp add: steps_to_def gains_def view_def)

lemma steps_to_trans:
  "steps_to es as il im st st1 \<Longrightarrow> steps_to es' as' il' im' st1 st2 \<Longrightarrow>
     steps_to (es \<union> es') (as \<union> as') (il \<or> il') (im \<or> im') st st2"
  by (simp add: steps_to_def)

lemma record_edge_steps: "steps_to {m} {} False False st (record_edge m st)"
  by (simp add: steps_to_def record_edge_def gains_def view_def Let_def)

lemma record_ambiguous_steps: "steps_to {} {m} False False st (record_ambiguous m st)"
  by (simp add: steps_to_def record_ambiguous_def gains_def view_def Let_def)

lemma foldl_steps:
  assumes "\<And>x st. x \<in> set xs \<Longrightarrow> steps_to (es x) (as x) (il x) (im x) st (f st x)"
  shows "steps_to (\<Union>x\<in>set xs. es x) (\<Union>x\<in>set xs. as x) (\<exists>x\<in>set xs. il x) (\<exists>x\<in>set xs. im x) st (foldl f st xs)"
  using assms
proof (induction xs arbitrary: st)
  case (Cons x xs)
  have "steps_to (es x \<union> (\<Union>x\<in>set xs. es x)) (as x \<union> (\<Union>x\<in>set xs. as x)) (il x \<or> (\<exists>x\<in>set xs. il x))
      (im x \<or> (\<exists>x\<in>set xs. im x)) st (foldl f (f st x) xs)"
    by (rule steps_to_trans [OF Cons.prems Cons.IH]) (simp_all add: Cons.prems)
  then show ?case by simp
qed (simp add: steps_to_refl)

lemma dotted_prefixes: "(\<Union>i\<in>set [0..<length m]. if m ! i = dot then {take i m} else {}) = {p. is_ancestor_of p m}"
proof -
  have "{p. is_ancestor_of p m} = fst ` set (iter_parents m)" by (simp add: iter_parents_ancestors)
  also have "\<dots> = {take i m |i. i < length m \<and> m ! i = dot}" by (force simp: iter_parents_eq)
  finally show ?thesis by auto
qed

lemma import_name_steps:
  "steps_to {p. p = m \<or> is_ancestor_of p m} {} (is_importlib m) False st (import_name m st)"
proof -
  define st1 where "st1 = (if is_importlib m then st\<lparr>co_has_importlib := True\<rparr> else st)"
  define st2 where "st2 = foldl (\<lambda>st i. if m ! i = dot then record_edge (take i m) st else st) st1 [0..<length m]"
  have "steps_to {} {} (is_importlib m) False st st1"
    by (simp add: st1_def steps_to_def gains_def view_def)
  moreover have "steps_to (\<Union>i\<in>set [0..<length m]. if m ! i = dot then {take i m} else {}) (\<Union>i\<in>set [0..<length m]. {})
      (\<exists>i\<in>set [0..<length m]. False) (\<exists>i\<in>set [0..<length m]. False) st1 st2"
    unfolding st2_def by (rule foldl_steps) (simp add: record_edge_steps steps_to_refl)
  ultimately have "steps_to ({} \<union> {p. is_ancestor_of p m}) ({} \<union> {}) (is_importlib m \<or> False) (False \<or> False) st st2"
    unfolding dotted_prefixes by (intro steps_to_trans [of "{}" "{}"]) simp_all
  from steps_to_trans [OF this record_edge_steps [of m]]
  have "steps_to ({p. is_ancestor_of p m} \<union> {m}) {} (is_importlib m) False st (record_edge m st2)" by simp
  moreover have "{p. is_ancestor_of p m} \<union> {m} = {p. p = m \<or> is_ancestor_of p m}" by auto
  ultimately show ?thesis by (simp add: import_name_def st1_def st2_def)
qed

lemma import_from_single_steps:
  "steps_to (if n \<noteq> ''*'' \<and> taken_as_edge cx parent n then {submodule parent n} else {})
     (if n \<noteq> ''*'' \<and> \<not> taken_as_edge cx parent n then {submodule parent n} else {})
     False (parent = ''importlib'' \<and> n = ''import_module'') st (import_from_single cx parent n st)"
proof -
  define st1 where "st1 = (if parent = ''importlib'' \<and> n = ''import_module'' then st\<lparr>co_has_import_module := True\<rparr> else st)"
  have "steps_to {} {} False (parent = ''importlib'' \<and> n = ''import_module'') st st1"
    by (auto simp: st1_def steps_to_def gains_def view_def)
  from steps_to_trans [OF this record_edge_steps [of "submodule parent n"]]
    steps_to_trans [OF this record_ambiguous_steps [of "submodule parent n"]] this
  show ?thesis
    by (cases "n = ''*''")
      (simp_all add: import_from_single_def st1_def [symmetric] taken_as_edge_def submodule_def [symmetric] Let_def steps_to_refl)
qed

lemma import_from_steps:
  "steps_to (edges_of cx il (Stmt_ImportFrom rel level names)) (ambiguous_of cx (Stmt_ImportFrom rel level names))
     False (brings_import_module cx (Stmt_ImportFrom rel level names)) st (import_from cx rel level names st)"
proof (cases "from_parent cx rel level")
  case None
  then show ?thesis by (simp add: import_from_def from_parent_def steps_to_refl)
next
  case (Some parent)
  define st1 where "st1 = (if parent \<noteq> '''' then record_edge parent st else st)"
  have first: "steps_to {m. m = parent \<and> parent \<noteq> ''''} {} False False st st1"
    using record_edge_steps [of parent st] by (simp add: st1_def steps_to_refl)
  have rest: "steps_to
      (\<Union>n\<in>set names. if n \<noteq> ''*'' \<and> taken_as_edge cx parent n then {submodule parent n} else {})
      (\<Union>n\<in>set names. if n \<noteq> ''*'' \<and> \<not> taken_as_edge cx parent n then {submodule parent n} else {})
      (\<exists>n\<in>set names. False) (\<exists>n\<in>set names. parent = ''importlib'' \<and> n = ''import_module'') st1
      (foldl (\<lambda>st name. import_from_single cx parent name st) st1 names)"
    by (rule foldl_steps) (rule import_from_single_steps)
  have edges: "(\<Union>n\<in>set names. if n \<noteq> ''*'' \<and> taken_as_edge cx parent n then {submodule parent n} else {}) =
      submodule parent ` {n \<in> set names. n \<noteq> ''*'' \<and> taken_as_edge cx parent n}"
    and ambiguous: "(\<Union>n\<in>set names. if n \<noteq> ''*'' \<and> \<not> taken_as_edge cx parent n then {submodule parent n} else {}) =
      submodule parent ` {n \<in> set names. n \<noteq> ''*'' \<and> \<not> taken_as_edge cx parent n}"
    by auto
  have brings: "(\<exists>n\<in>set names. parent = ''importlib'' \<and> n = ''import_module'') =
      brings_import_module cx (Stmt_ImportFrom rel level names)"
    using Some by auto
  have walk: "import_from cx rel level names st = foldl (\<lambda>st name. import_from_single cx parent name st) st1 names"
    using Some by (simp add: import_from_def from_parent_def st1_def)
  from steps_to_trans [OF first rest] show ?thesis
    unfolding walk edges ambiguous brings by (simp add: Some)
qed

lemma collect_call_steps:
  "steps_to (set_option (match_call (cx_relative cx) (v_importlib (view st)) e)) {} False False st (collect_call cx e st)"
  by (cases "match_call (cx_relative cx) (v_importlib (view st)) e")
    (simp_all add: collect_call_def view_def steps_to_refl record_edge_steps)

section \<open>The walk as a fold over the statements it reaches\<close>

definition runs :: "collect_ctx \<Rightarrow> bool \<Rightarrow> (collector \<Rightarrow> collector) \<Rightarrow> (import_stmt \<times> bool) list \<Rightarrow> bool" where
  "runs cx g f ss \<longleftrightarrow>
     (\<forall>st. (main_guard_depth st \<noteq> 0) = g \<longrightarrow>
        main_guard_depth (f st) = main_guard_depth st \<and> view (f st) = foldl (absorb cx) (view st) ss)"

lemma runs_simple:
  assumes "\<And>st. steps_to (edges_of cx (v_importlib (view st)) s) (ambiguous_of cx s) (brings_importlib s)
    (brings_import_module cx s) st (f st)"
  shows "runs cx g f [(s, g)]"
  unfolding runs_def
proof (intro allI impI)
  fix st :: collector assume "(main_guard_depth st \<noteq> 0) = g"
  then show "main_guard_depth (f st) = main_guard_depth st \<and> view (f st) = foldl (absorb cx) (view st) [(s, g)]"
    using assms [of st] by (simp add: steps_to_def absorb_def)
qed

lemma runs_run_all:
  "list_all2 (runs cx g) fs sss \<Longrightarrow> runs cx g (run_all fs) (concat sss)"
proof (induction rule: list_all2_induct)
  case Nil
  then show ?case by (simp add: runs_def run_all_def)
next
  case (Cons f fs ss sss)
  then show ?case by (simp add: runs_def run_all_def)
qed

lemma run_all_map: "run_all (map f xs) st = foldl (\<lambda>st x. f x st) st xs"
  by (simp add: run_all_def foldl_map)

lemma runs_all_map:
  "(\<And>x. x \<in> set xs \<Longrightarrow> runs cx g (f x) (h x)) \<Longrightarrow> runs cx g (run_all (map f xs)) (concat (map h xs))"
  by (rule runs_run_all) (simp add: list_all2_map1 list_all2_map2 list.rel_refl_strong)

lemma runs_if_branch:
  assumes "runs cx g body (plain)" "runs cx True body guarded"
  shows "runs cx g (if_branch t body) (if is_guard_test t then guarded else plain)"
  unfolding runs_def
proof (intro allI impI)
  fix st :: collector assume g: "(main_guard_depth st \<noteq> 0) = g"
  let ?st = "st\<lparr>main_guard_depth := main_guard_depth st + 1\<rparr>"
  have "view ?st = view st" "view (st'\<lparr>main_guard_depth := k\<rparr>) = view st'" for st' :: collector and k
    by (simp_all add: view_def)
  moreover have "main_guard_depth (body ?st) = main_guard_depth st + 1 \<and> view (body ?st) = foldl (absorb cx) (view ?st) guarded"
    using assms(2) by (simp add: runs_def)
  moreover have "main_guard_depth (body st) = main_guard_depth st \<and> view (body st) = foldl (absorb cx) (view st) plain"
    using assms(1) g by (simp add: runs_def)
  ultimately show "main_guard_depth (if_branch t body st) = main_guard_depth st \<and>
      view (if_branch t body st) = foldl (absorb cx) (view st) (if is_guard_test t then guarded else plain)"
    by (simp add: if_branch_def is_guard_test_def [symmetric] Let_def)
qed

lemma import_steps:
  "steps_to (edges_of cx il (Stmt_Import names)) {} (brings_importlib (Stmt_Import names)) False st
     (foldl (\<lambda>st m. import_name m st) st names)"
proof -
  have "steps_to (\<Union>n\<in>set names. {p. p = n \<or> is_ancestor_of p n}) (\<Union>n\<in>set names. {}) (\<exists>n\<in>set names. is_importlib n)
      (\<exists>n\<in>set names. False) st (foldl (\<lambda>st m. import_name m st) st names)"
    by (rule foldl_steps) (rule import_name_steps)
  moreover have "(\<Union>n\<in>set names. {p. p = n \<or> is_ancestor_of p n}) = edges_of cx il (Stmt_Import names)" by auto
  ultimately show ?thesis by simp
qed

lemma simple_stmt_steps:
  "steps_to (edges_of cx (v_importlib (view st)) (Stmt_Import names)) (ambiguous_of cx (Stmt_Import names))
     (brings_importlib (Stmt_Import names)) (brings_import_module cx (Stmt_Import names)) st
     (collect_stmt cx (Stmt_Import names) st)"
  "steps_to (edges_of cx (v_importlib (view st)) (Stmt_ImportFrom rel level names))
     (ambiguous_of cx (Stmt_ImportFrom rel level names)) (brings_importlib (Stmt_ImportFrom rel level names))
     (brings_import_module cx (Stmt_ImportFrom rel level names)) st
     (collect_stmt cx (Stmt_ImportFrom rel level names) st)"
  using import_steps [of cx "v_importlib (view st)" names st]
    import_from_steps [of cx "v_importlib (view st)" rel level names st]
  by simp_all

lemmas collect_stmt_fun = collect_stmt.simps [abs_def]

lemma runs_collect_stmt: "runs cx g (collect_stmt cx s) (reached_stmts cx g s)"
proof (induction s arbitrary: g)
  case (Stmt_If branches)
  have body: "runs cx g (run_all (map (collect_stmt cx) body)) (concat (map (reached_stmts cx g) body))"
    if "(t, body) \<in> set branches" for t body g
    using Stmt_If that by (intro runs_all_map) auto
  have "runs cx g
      (\<lambda>st. foldl (\<lambda>st (t, i). if i < length branches then
           if_branch t (map (\<lambda>(t, body). run_all (map (collect_stmt cx) body)) branches ! i) st else st) st sel)
      (concat (map (\<lambda>(t, i). if i < length branches then
           (if is_guard_test t then map (\<lambda>(t, body). concat (map (reached_stmts cx True) body)) branches ! i
            else map (\<lambda>(t, body). concat (map (reached_stmts cx g) body)) branches ! i) else []) sel))" for sel
  proof -
    have "runs cx g
        (run_all (map (\<lambda>(t, i) st. if i < length branches then
           if_branch t (map (\<lambda>(t, body). run_all (map (collect_stmt cx) body)) branches ! i) st else st) sel))
        (concat (map (\<lambda>(t, i). if i < length branches then
           (if is_guard_test t then map (\<lambda>(t, body). concat (map (reached_stmts cx True) body)) branches ! i
            else map (\<lambda>(t, body). concat (map (reached_stmts cx g) body)) branches ! i) else []) sel))"
    proof (rule runs_all_map)
      fix x assume "x \<in> set sel"
      obtain t i where x: "x = (t, i)" by fastforce
      show "runs cx g (case x of (t, i) \<Rightarrow> \<lambda>st. if i < length branches then
           if_branch t (map (\<lambda>(t, body). run_all (map (collect_stmt cx) body)) branches ! i) st else st)
          (case x of (t, i) \<Rightarrow> if i < length branches then
           (if is_guard_test t then map (\<lambda>(t, body). concat (map (reached_stmts cx True) body)) branches ! i
            else map (\<lambda>(t, body). concat (map (reached_stmts cx g) body)) branches ! i) else [])"
      proof (cases "i < length branches")
        case True
        obtain u body where nth: "branches ! i = (u, body)" by fastforce
        with True have "(u, body) \<in> set branches" by (metis nth_mem)
        then show ?thesis
          using True runs_if_branch [OF body [of u] body [of u], of body g t]
          by (cases "is_guard_test t") (simp_all add: x nth)
      qed (simp add: x runs_def)
    qed
    then show ?thesis unfolding runs_def run_all_map by (simp only: case_prod_unfold)
  qed
  then show ?case unfolding collect_stmt_fun collect_if_def by (simp add: Let_def)
next
  case (Stmt_Import names)
  show ?case by (simp only: reached_stmts.simps, rule runs_simple, rule simple_stmt_steps)
next
  case (Stmt_ImportFrom rel level names)
  show ?case by (simp only: reached_stmts.simps, rule runs_simple, rule simple_stmt_steps)
next
  case (Stmt_Expr e)
  show ?case by (simp add: collect_call_steps runs_simple)
next
  case (Stmt_Assign e)
  show ?case by (simp add: collect_call_steps runs_simple)
next
  case Stmt_Other
  show ?case by (simp add: steps_to_refl runs_simple)
qed (simp_all add: collect_stmt_fun runs_all_map)

section \<open>Result\<close>

lemma edge_at_snoc:
  "edge_at cx (ss @ [(s, g)]) g' m \<longleftrightarrow>
     edge_at cx ss g' m \<or> g' = g \<and> m \<in> edges_of cx (importlib_after cx ss) s"
proof
  assume "edge_at cx (ss @ [(s, g)]) g' m"
  then obtain us s' vs where *: "ss @ [(s, g)] = us @ (s', g') # vs" "m \<in> edges_of cx (importlib_after cx us) s'"
    unfolding edge_at_def by blast
  show "edge_at cx ss g' m \<or> g' = g \<and> m \<in> edges_of cx (importlib_after cx ss) s"
  proof (cases vs rule: rev_cases)
    case Nil
    with * show ?thesis by simp
  next
    case (snoc ys y)
    then have "ss @ [(s, g)] = (us @ (s', g') # ys) @ [y]" using *(1) by simp
    then have "ss = us @ (s', g') # ys" by blast
    with *(2) show ?thesis unfolding edge_at_def by blast
  qed
next
  assume "edge_at cx ss g' m \<or> g' = g \<and> m \<in> edges_of cx (importlib_after cx ss) s"
  then show "edge_at cx (ss @ [(s, g)]) g' m"
  proof
    assume "edge_at cx ss g' m"
    then obtain us s' vs where "ss = us @ (s', g') # vs" "m \<in> edges_of cx (importlib_after cx us) s'"
      unfolding edge_at_def by blast
    then have "ss @ [(s, g)] = us @ (s', g') # (vs @ [(s, g)])" "m \<in> edges_of cx (importlib_after cx us) s'" by simp_all
    then show ?thesis unfolding edge_at_def by blast
  qed (auto simp: edge_at_def)
qed

lemma foldl_absorb:
  assumes "v_importlib v = importlib_after cx []"
  shows "foldl (absorb cx) v ss =
     \<lparr>v_imports = v_imports v \<union> {m. \<exists>g. edge_at cx ss g m},
      v_ambiguous = v_ambiguous v \<union> {m. \<exists>g. ambiguous_at cx ss g m},
      v_unguarded = v_unguarded v \<union> {m. edge_at cx ss False m},
      v_unguarded_ambiguous = v_unguarded_ambiguous v \<union> {m. ambiguous_at cx ss False m},
      v_importlib = importlib_after cx ss\<rparr>"
proof (induction ss rule: rev_induct)
  case Nil
  then show ?case using assms by (simp add: ambiguous_at_def edge_at_def)
next
  case (snoc sg ss)
  obtain s g where sg: "sg = (s, g)" by fastforce
  let ?E = "edges_of cx (importlib_after cx ss) s" and ?A = "ambiguous_of cx s"
  have amb: "ambiguous_at cx (ss @ [(s, g)]) g' m \<longleftrightarrow> ambiguous_at cx ss g' m \<or> g' = g \<and> m \<in> ?A" for g' m
    by (auto simp: ambiguous_at_def)
  have sets: "{m. \<exists>g'. edge_at cx (ss @ [(s, g)]) g' m} = {m. \<exists>g'. edge_at cx ss g' m} \<union> ?E"
    "{m. edge_at cx (ss @ [(s, g)]) False m} = {m. edge_at cx ss False m} \<union> (if g then {} else ?E)"
    "{m. \<exists>g'. ambiguous_at cx (ss @ [(s, g)]) g' m} = {m. \<exists>g'. ambiguous_at cx ss g' m} \<union> ?A"
    "{m. ambiguous_at cx (ss @ [(s, g)]) False m} = {m. ambiguous_at cx ss False m} \<union> (if g then {} else ?A)"
    by (auto simp: edge_at_snoc amb)
  have after: "importlib_after cx (ss @ [(s, g)]) =
      \<lparr>il_has_importlib = il_has_importlib (importlib_after cx ss) \<or> brings_importlib s,
       il_has_import_module = il_has_import_module (importlib_after cx ss) \<or> brings_import_module cx s\<rparr>"
    by (auto simp: importlib_after_def)
  have "foldl (absorb cx) v (ss @ [sg]) = absorb cx (foldl (absorb cx) v ss) (s, g)" by (simp add: sg)
  also have "\<dots> = gains g ?E ?A (brings_importlib s) (brings_import_module cx s)
      \<lparr>v_imports = v_imports v \<union> {m. \<exists>g. edge_at cx ss g m},
       v_ambiguous = v_ambiguous v \<union> {m. \<exists>g. ambiguous_at cx ss g m},
       v_unguarded = v_unguarded v \<union> {m. edge_at cx ss False m},
       v_unguarded_ambiguous = v_unguarded_ambiguous v \<union> {m. ambiguous_at cx ss False m},
       v_importlib = importlib_after cx ss\<rparr>"
    by (simp add: snoc.IH absorb_def)
  finally show ?case
    by (simp add: sg gains_def sets after Un_assoc)
qed

text \<open>
  C20: What the collector finds in a module is exactly what the statements it reaches say: the modules that
  \<open>import\<close> statements name with their packages, the modules of \<open>from\<close> imports and the submodules
  these may name, and those of \<open>importlib.import_module\<close> calls behind an import of it; names that may
  be attributes are kept apart, and a name is tagged as main-guard only when every statement that
  gives it, as an edge or as an ambiguous name, is inside a guard.
\<close>

theorem collect_exact:
  "let ss = concat (map (reached_stmts cx False) body);
       (imports, ambiguous, main_guard_only) = collect cx body
   in set imports = {m. \<exists>g. edge_at cx ss g m} \<and> set ambiguous = {m. \<exists>g. ambiguous_at cx ss g m} \<and>
      set main_guard_only =
        {m \<in> set imports \<union> set ambiguous. \<not> edge_at cx ss False m \<and> \<not> ambiguous_at cx ss False m}"
proof -
  define ss where "ss = concat (map (reached_stmts cx False) body)"
  define st where "st = collect_stmts cx body new_collector"
  have "v_importlib (view new_collector) = importlib_after cx []"
    by (simp add: view_def new_collector_def importlib_after_def)
  note fold = foldl_absorb [OF this]
  have "runs cx False (collect_stmts cx body) ss"
    unfolding collect_stmts_def ss_def by (intro runs_all_map runs_collect_stmt)
  then have "view st = foldl (absorb cx) (view new_collector) ss"
    by (simp add: runs_def st_def new_collector_def)
  then have "set (co_imports st) = {m. \<exists>g. edge_at cx ss g m} \<and> set (co_ambiguous_imports st) = {m. \<exists>g. ambiguous_at cx ss g m} \<and>
      set (co_unguarded_imports st) = {m. edge_at cx ss False m} \<and>
      set (co_unguarded_ambiguous st) = {m. ambiguous_at cx ss False m}"
    unfolding fold by (simp add: view_def new_collector_def)
  then show ?thesis
    by (auto simp: collect_def Let_def ss_def [symmetric] st_def [symmetric])
qed

end
