(* ===== verification/Py_Syntax.thy ===== *)
theory Py_Syntax
  imports Import_Collector
begin

text \<open>
  The syntax of Python as the scanners of definitions and exports look at it: the expressions and
  statements of \<open>ruff\<close> with the names, ranges and suites that they read. A comprehension keeps its
  targets only, a \<open>match\<close> case the names its pattern binds, and a statement without anything to read is
  \<open>S_Other\<close>. Also the names read off expressions (\<open>ExprExt\<close> of \<open>src/traits.rs\<close>), and what remains of a
  statement for the collector of imports.
\<close>

section \<open>Expressions\<close>

type_synonym ident = "string \<times> text_range"

datatype src_expr =
    E_Name string text_range
  | E_Attribute src_expr string
  | E_Subscript src_expr src_expr
  | E_StringLiteral text_range string
  | E_List "src_expr list"
  | E_Tuple "src_expr list"
  | E_Call text_range src_expr "src_expr list" "(string option \<times> src_expr) list"
  | E_Named src_expr src_expr
  | E_ListComp text_range "src_expr list"
  | E_SetComp text_range "src_expr list"
  | E_DictComp text_range "src_expr list"
  | E_Generator text_range "src_expr list"
  | E_Lambda
  | E_Other "src_expr list"

fun base_name :: "src_expr \<Rightarrow> string option" where
  "base_name (E_Name i _) = Some i"
| "base_name (E_Attribute v _) = base_name v"
| "base_name (E_Subscript v _) = base_name v"
| "base_name _ = None"

fun full_name :: "src_expr \<Rightarrow> modname option" where
  "full_name (E_Name i _) = Some i"
| "full_name (E_Attribute v attr) = map_option (\<lambda>x. append_str x attr) (full_name v)"
| "full_name _ = None"

fun as_var_name :: "src_expr \<Rightarrow> string option" where
  "as_var_name (E_Name i _) = Some i"
| "as_var_name _ = None"

fun erase_expr :: "src_expr \<Rightarrow> py_expr" where
  "erase_expr (E_Name i _) = Expr_Name i"
| "erase_expr (E_Attribute v attr) = Expr_Attribute (erase_expr v) attr"
| "erase_expr (E_StringLiteral _ s) = Expr_StringLiteral s"
| "erase_expr (E_Call _ func args keywords) =
     Expr_Call (erase_expr func) (map erase_expr args) (map (\<lambda>(key, v). (key, erase_expr v)) keywords)"
| "erase_expr _ = Expr_Other"

section \<open>Statements\<close>

text \<open>The name of an alias, and the name after \<open>as\<close>.\<close>

type_synonym import_alias = "ident \<times> ident option"

text \<open>
  The first test of an \<open>if\<close> is kept in full, and every test as the pruning of branches sees it. The
  flag of an augmented assignment says that its operator is \<open>+\<close>.
\<close>

datatype src_stmt =
    S_Import "import_alias list"
  | S_ImportFrom text_range "string option" nat "import_alias list"
  | S_ClassDef ident "src_expr list" "src_stmt list"
  | S_FunctionDef ident "src_expr list" "src_expr option" "src_stmt list"
  | S_Nonlocal "ident list"
  | S_Global "ident list"
  | S_Assign "src_expr list" src_expr
  | S_AnnAssign src_expr "src_expr option"
  | S_AugAssign src_expr bool src_expr
  | S_Delete "src_expr list"
  | S_Expr src_expr
  | S_TypeAlias src_expr src_expr
  | S_For src_expr src_expr "src_stmt list" "src_stmt list"
  | S_With "(src_expr \<times> src_expr option) list" "src_stmt list"
  | S_Match src_expr "(ident list \<times> src_stmt list) list"
  | S_Try "src_stmt list" "(ident option \<times> src_stmt list) list" "src_stmt list" "src_stmt list"
  | S_If src_expr "(expr option \<times> src_stmt list) list"
  | S_While src_expr "src_stmt list" "src_stmt list"
  | S_Assert src_expr "src_expr option"
  | S_Raise "src_expr option" "src_expr option"
  | S_Other

text \<open>What the collector of imports reads of a statement.\<close>

fun erase_stmt :: "src_stmt \<Rightarrow> import_stmt" where
  "erase_stmt (S_Import names) = Stmt_Import (map (\<lambda>((name, _), _). name) names)"
| "erase_stmt (S_ImportFrom _ rel level names) = Stmt_ImportFrom rel level (map (\<lambda>((name, _), _). name) names)"
| "erase_stmt (S_ClassDef _ _ body) = Stmt_ClassDef (map erase_stmt body)"
| "erase_stmt (S_FunctionDef _ _ _ body) = Stmt_FunctionDef (map erase_stmt body)"
| "erase_stmt (S_Assign _ v) = Stmt_Assign (erase_expr v)"
| "erase_stmt (S_Expr v) = Stmt_Expr (erase_expr v)"
| "erase_stmt (S_For _ _ body orelse) = Stmt_For [map erase_stmt body, map erase_stmt orelse]"
| "erase_stmt (S_With _ body) = Stmt_With [map erase_stmt body]"
| "erase_stmt (S_Match _ cases) = Stmt_Match (map (\<lambda>(_, body). map erase_stmt body) cases)"
| "erase_stmt (S_Try body handlers orelse finalbody) =
     Stmt_Try ([map erase_stmt body] @ map (\<lambda>(_, body). map erase_stmt body) handlers @
       [map erase_stmt orelse, map erase_stmt finalbody])"
| "erase_stmt (S_If _ branches) = Stmt_If (map (\<lambda>(test, body). (test, map erase_stmt body)) branches)"
| "erase_stmt (S_While _ body orelse) = Stmt_While [map erase_stmt body, map erase_stmt orelse]"
| "erase_stmt _ = Stmt_Other"

text \<open>The suites that \<open>recurse\<close> visits, in order; an \<open>if\<close> has them all.\<close>

fun suites :: "src_stmt \<Rightarrow> src_stmt list list" where
  "suites (S_For _ _ body orelse) = [body, orelse]"
| "suites (S_With _ body) = [body]"
| "suites (S_Match _ cases) = map snd cases"
| "suites (S_Try body handlers orelse finalbody) = [body] @ map snd handlers @ [orelse, finalbody]"
| "suites (S_If _ branches) = map snd branches"
| "suites (S_While _ body orelse) = [body, orelse]"
| "suites (S_ClassDef _ _ body) = [body]"
| "suites (S_FunctionDef _ _ _ body) = [body]"
| "suites _ = []"

lemma size_in_suites:
  assumes "body \<in> set (suites s)" "t \<in> set body"
  shows "size t < size s"
proof -
  have in_list: "size t \<le> size_list size body" using assms(2) by (simp add: size_list_estimation')
  have pairs: "size_list size (snd c) < Suc (size_list (size_prod (\<lambda>_. 0) (size_list size)) cs)" if "c \<in> set cs" for c cs
    by (rule le_imp_less_Suc, rule size_list_estimation' [OF that]) (cases c, simp)
  from assms(1) in_list show ?thesis
    by (cases s) (auto dest!: pairs)
qed

end
