(* ===== verification/Py_Definitions.thy ===== *)
theory Py_Definitions
  imports Py_Syntax Ordering "HOL-Library.AList"
begin

text \<open>
  The names a scope defines (\<open>src/pyrefly/definitions.rs\<close>, with \<open>DefinitionExt\<close> of \<open>src/traits.rs\<close>). A
  \<open>SmallMap\<close> is an association list in the order of insertion. What the file calls in the crate
  \<open>pyrefly_python\<close> is a record of parameters: relative names, the components of names, the names an
  assignment target binds, docstrings, and the derived orders of symbol kinds and identifiers.
\<close>

section \<open>Definitions\<close>

datatype symbol_kind = SK_Class | SK_Function | SK_Method | SK_Variable | SK_Parameter | SK_Other string

datatype mutable_capture_kind = CaptureGlobal | CaptureNonlocal

text \<open>The constructors in the source's order, in which the type is compared.\<close>

datatype definition_style =
    MutableCapture mutable_capture_kind
  | Annotated symbol_kind text_range
  | Unannotated symbol_kind
  | ImplicitGlobal
  | ImportAs modname string
  | ImportAsEq modname
  | Import modname
  | ImportModule modname
  | ImportInvalidRelative
  | Delete

record pyrefly_lib =
  pl_relative :: relative_fn
  pl_components :: "modname \<Rightarrow> string list"
  pl_first_component :: "modname \<Rightarrow> string"
  pl_lvalue :: "src_expr \<Rightarrow> ident list"
  pl_docstring :: "src_stmt list \<Rightarrow> text_range option"
  pl_symbol_cmp :: "symbol_kind \<Rightarrow> symbol_kind \<Rightarrow> ordering"
  pl_identifier_cmp :: "text_range \<Rightarrow> text_range \<Rightarrow> ordering"
  pl_module_cmp :: "modname \<Rightarrow> modname \<Rightarrow> ordering"
  pl_name_cmp :: "string \<Rightarrow> string \<Rightarrow> ordering"

fun style_rank :: "definition_style \<Rightarrow> nat" where
  "style_rank (MutableCapture _) = 0"
| "style_rank (Annotated _ _) = 1"
| "style_rank (Unannotated _) = 2"
| "style_rank ImplicitGlobal = 3"
| "style_rank (ImportAs _ _) = 4"
| "style_rank (ImportAsEq _) = 5"
| "style_rank (Import _) = 6"
| "style_rank (ImportModule _) = 7"
| "style_rank ImportInvalidRelative = 8"
| "style_rank Delete = 9"

fun capture_rank :: "mutable_capture_kind \<Rightarrow> nat" where
  "capture_rank CaptureGlobal = 0"
| "capture_rank CaptureNonlocal = 1"

definition style_cmp :: "pyrefly_lib \<Rightarrow> definition_style \<Rightarrow> definition_style \<Rightarrow> ordering" where
  "style_cmp lib s s' =
     (let by_rank = cmp_of (style_rank s) (style_rank s')
      in case s of
           MutableCapture k \<Rightarrow>
             (case s' of MutableCapture k' \<Rightarrow> cmp_of (capture_rank k) (capture_rank k') | _ \<Rightarrow> by_rank)
         | Annotated k i \<Rightarrow>
             (case s' of
                Annotated k' i' \<Rightarrow> then_with (pl_symbol_cmp lib k k') (pl_identifier_cmp lib i i')
              | _ \<Rightarrow> by_rank)
         | Unannotated k \<Rightarrow> (case s' of Unannotated k' \<Rightarrow> pl_symbol_cmp lib k k' | _ \<Rightarrow> by_rank)
         | ImportAs m n \<Rightarrow>
             (case s' of
                ImportAs m' n' \<Rightarrow> then_with (pl_module_cmp lib m m') (pl_name_cmp lib n n')
              | _ \<Rightarrow> by_rank)
         | ImportAsEq m \<Rightarrow> (case s' of ImportAsEq m' \<Rightarrow> pl_module_cmp lib m m' | _ \<Rightarrow> by_rank)
         | Import m \<Rightarrow> (case s' of Import m' \<Rightarrow> pl_module_cmp lib m m' | _ \<Rightarrow> by_rank)
         | ImportModule m \<Rightarrow> (case s' of ImportModule m' \<Rightarrow> pl_module_cmp lib m m' | _ \<Rightarrow> by_rank)
         | _ \<Rightarrow> by_rank)"

record py_definition =
  df_style :: definition_style
  df_range :: text_range
  df_first_binding :: nat
  df_needs_anywhere :: bool
  df_docstring_range :: "text_range option"

fun get_imported_module_name_of :: "definition_style \<Rightarrow> modname option" where
  "get_imported_module_name_of (ImportAs m _) = Some m"
| "get_imported_module_name_of (ImportAsEq m) = Some m"
| "get_imported_module_name_of (Import m) = Some m"
| "get_imported_module_name_of (ImportModule m) = Some m"
| "get_imported_module_name_of _ = None"

fun is_capture_or_delete :: "definition_style \<Rightarrow> bool" where
  "is_capture_or_delete (MutableCapture _) \<longleftrightarrow> True"
| "is_capture_or_delete Delete \<longleftrightarrow> True"
| "is_capture_or_delete _ \<longleftrightarrow> False"


definition is_import :: "py_definition \<Rightarrow> bool" where
  "is_import d \<longleftrightarrow> get_imported_module_name_of (df_style d) \<noteq> None"

fun is_kind :: "symbol_kind \<Rightarrow> definition_style \<Rightarrow> bool" where
  "is_kind k (Annotated k' _) \<longleftrightarrow> k' = k"
| "is_kind k (Unannotated k') \<longleftrightarrow> k' = k"
| "is_kind k _ \<longleftrightarrow> False"

definition is_param :: "py_definition \<Rightarrow> bool" where
  "is_param d \<longleftrightarrow> is_kind SK_Parameter (df_style d)"

definition is_class_definition :: "py_definition \<Rightarrow> bool" where
  "is_class_definition d \<longleftrightarrow> is_kind SK_Class (df_style d)"

fun annotation :: "py_definition \<Rightarrow> text_range option" where
  "annotation d = (case df_style d of Annotated _ ann \<Rightarrow> Some ann | _ \<Rightarrow> None)"

definition merge_definition :: "pyrefly_lib \<Rightarrow> definition_style \<Rightarrow> text_range \<Rightarrow> py_definition \<Rightarrow> py_definition" where
  "merge_definition lib other rng d =
     (let d = (if style_cmp lib other (df_style d) = Less then d\<lparr>df_style := other, df_range := rng\<rparr> else d);
          d = d\<lparr>df_first_binding := min (df_first_binding d) (fst rng)\<rparr>
      in d\<lparr>df_needs_anywhere := \<not> is_capture_or_delete (df_style d)\<rparr>)"

section \<open>The table of a scope\<close>

datatype visibility = Comprehension text_range | ImportAlias

record scoped_definition =
  sd_definition :: py_definition
  sd_visibility :: visibility

datatype dunder_all_entry =
    AllName text_range string
  | AllModule text_range modname
  | AllRemove text_range string

record definitions =
  ds_definitions :: "(string \<times> py_definition) list"
  ds_scoped_definitions :: "(string \<times> scoped_definition list) list"
  ds_import_all :: "(modname \<times> text_range) list"
  ds_dunder_all :: "dunder_all_entry list"
  ds_implicitly_imported_submodules :: "string list"
  ds_deprecated :: "string list"
  ds_has_importlib :: bool
  ds_has_import_module :: bool

definition empty_definitions :: definitions where
  "empty_definitions =
     \<lparr>ds_definitions = [], ds_scoped_definitions = [], ds_import_all = [], ds_dunder_all = [],
      ds_implicitly_imported_submodules = [], ds_deprecated = [], ds_has_importlib = False, ds_has_import_module = False\<rparr>"

text \<open>\<open>__all__\<close>, and the entries that an expression assigned to it lists.\<close>

definition dunder_all_name :: string where
  "dunder_all_name = ''__all__''"

fun is_all :: "src_expr \<Rightarrow> bool" where
  "is_all (E_Name i _) \<longleftrightarrow> i = dunder_all_name"
| "is_all _ \<longleftrightarrow> False"

fun as_item :: "src_expr \<Rightarrow> dunder_all_entry option" where
  "as_item (E_StringLiteral rng s) = Some (AllName rng s)"
| "as_item _ = None"

fun as_list :: "src_expr \<Rightarrow> dunder_all_entry list" where
  "as_list (E_List elts) = List.map_filter as_item elts"
| "as_list (E_Tuple elts) = List.map_filter as_item elts"
| "as_list (E_Attribute v attr) =
     (if attr = dunder_all_name then (case v of E_Name i rng \<Rightarrow> [AllModule rng i] | _ \<Rightarrow> []) else [])"
| "as_list _ = []"

text \<open>The first component of a submodule of the importing module.\<close>

fun strip_list_prefix :: "'a list \<Rightarrow> 'a list \<Rightarrow> 'a list option" where
  "strip_list_prefix [] xs = Some xs"
| "strip_list_prefix (p # ps) (x # xs) = (if p = x then strip_list_prefix ps xs else None)"
| "strip_list_prefix (p # ps) [] = None"

definition implicitly_imported_submodule :: "pyrefly_lib \<Rightarrow> modname \<Rightarrow> modname \<Rightarrow> string option" where
  "implicitly_imported_submodule lib importing imported =
     (case strip_list_prefix (pl_components lib importing) (pl_components lib imported) of
        Some (c # _) \<Rightarrow> Some c
      | _ \<Rightarrow> None)"

fun is_name_in :: "string list \<Rightarrow> src_expr \<Rightarrow> bool" where
  "is_name_in names (E_Name i _) \<longleftrightarrow> i \<in> set names"
| "is_name_in names _ \<longleftrightarrow> False"

fun is_deprecated_decorator :: "src_expr \<Rightarrow> bool" where
  "is_deprecated_decorator (E_Call _ func _ _) \<longleftrightarrow>
     is_name_in [''deprecated'', ''warnings.deprecated'', ''typing_extensions.deprecated''] func"
| "is_deprecated_decorator _ \<longleftrightarrow> False"

definition is_overload_decorator :: "src_expr \<Rightarrow> bool" where
  "is_overload_decorator d \<longleftrightarrow> is_name_in [''overload'', ''typing.overload''] d"

section \<open>Adding names\<close>

definition add_name_with_body ::
  "pyrefly_lib \<Rightarrow> string \<Rightarrow> text_range \<Rightarrow> definition_style \<Rightarrow> src_stmt list option \<Rightarrow> definitions \<Rightarrow> definitions" where
  "add_name_with_body lib x rng style body ds =
     ds\<lparr>ds_definitions :=
       (case map_of (ds_definitions ds) x of
          Some d \<Rightarrow> AList.update x (merge_definition lib style rng d) (ds_definitions ds)
        | None \<Rightarrow>
            AList.update x
              \<lparr>df_style = style, df_range = rng, df_first_binding = fst rng, df_needs_anywhere = False,
               df_docstring_range = Option.bind body (pl_docstring lib)\<rparr> (ds_definitions ds))\<rparr>"

definition add_name :: "pyrefly_lib \<Rightarrow> string \<Rightarrow> text_range \<Rightarrow> definition_style \<Rightarrow> definitions \<Rightarrow> definitions" where
  "add_name lib x rng style = add_name_with_body lib x rng style None"

definition add_identifier :: "pyrefly_lib \<Rightarrow> ident \<Rightarrow> definition_style \<Rightarrow> definitions \<Rightarrow> definitions" where
  "add_identifier lib i style = add_name lib (fst i) (snd i) style"

definition add_identifier_with_body ::
  "pyrefly_lib \<Rightarrow> ident \<Rightarrow> definition_style \<Rightarrow> src_stmt list option \<Rightarrow> definitions \<Rightarrow> definitions" where
  "add_identifier_with_body lib i style body = add_name_with_body lib (fst i) (snd i) style body"

text \<open>Assignments of a stub that say the same as an import.\<close>

fun match_import_alias :: "(string \<Rightarrow> definition_style option) \<Rightarrow> string \<Rightarrow> src_expr \<Rightarrow> definition_style option" where
  "match_import_alias style_of target (E_Attribute (E_Name base _) attr) =
     (case style_of base of
        Some (ImportModule m) \<Rightarrow> Some (if target = attr then Import m else ImportAs m attr)
      | _ \<Rightarrow> None)"
| "match_import_alias style_of target (E_Name rhs _) =
     (case (case style_of rhs of
              Some (Import m) \<Rightarrow> Some (m, rhs)
            | Some (ImportAs m orig) \<Rightarrow> Some (m, orig)
            | Some (ImportAsEq m) \<Rightarrow> Some (m, rhs)
            | _ \<Rightarrow> None) of
        None \<Rightarrow> None
      | Some (m, original_name) \<Rightarrow>
          Some (if target = original_name then Import m else ImportAs m original_name))"
| "match_import_alias style_of target _ = None"

definition style_of_name :: "definitions \<Rightarrow> string \<Rightarrow> definition_style option" where
  "style_of_name ds x = map_option df_style (map_of (ds_definitions ds) x)"

definition lvalue_names :: "pyrefly_lib \<Rightarrow> src_expr \<Rightarrow> definitions \<Rightarrow> definitions" where
  "lvalue_names lib x ds =
     foldl (\<lambda>ds (i, rng). add_name lib i rng (Unannotated SK_Variable) ds) ds (pl_lvalue lib x)"

definition comp_target_lvalue :: "pyrefly_lib \<Rightarrow> text_range \<Rightarrow> src_expr \<Rightarrow> definitions \<Rightarrow> definitions" where
  "comp_target_lvalue lib comp_range target ds =
     foldl (\<lambda>ds (i, rng).
        let d = \<lparr>df_style = Unannotated SK_Variable, df_range = rng, df_first_binding = fst rng,
                 df_needs_anywhere = False, df_docstring_range = None\<rparr>;
            old = (case map_of (ds_scoped_definitions ds) i of None \<Rightarrow> [] | Some sites \<Rightarrow> sites)
        in ds\<lparr>ds_scoped_definitions :=
             AList.update i (old @ [\<lparr>sd_definition = d, sd_visibility = Comprehension comp_range\<rparr>])
               (ds_scoped_definitions ds)\<rparr>)
       ds (pl_lvalue lib target)"

text \<open>
  The names that the walrus operators of an expression bind. \<open>expr_lvalue\<close> and \<open>named_in_expr\<close> call
  each other in the source; here the first is unfolded.
\<close>

fun named_in_expr :: "pyrefly_lib \<Rightarrow> src_expr \<Rightarrow> definitions \<Rightarrow> definitions" where
  "named_in_expr lib (E_Named target v) ds = named_in_expr lib target (lvalue_names lib target ds)"
| "named_in_expr lib (E_ListComp rng targets) ds = foldl (\<lambda>ds t. comp_target_lvalue lib rng t ds) ds targets"
| "named_in_expr lib (E_SetComp rng targets) ds = foldl (\<lambda>ds t. comp_target_lvalue lib rng t ds) ds targets"
| "named_in_expr lib (E_Generator rng targets) ds = foldl (\<lambda>ds t. comp_target_lvalue lib rng t ds) ds targets"
| "named_in_expr lib (E_DictComp rng targets) ds = foldl (\<lambda>ds t. comp_target_lvalue lib rng t ds) ds targets"
| "named_in_expr lib E_Lambda ds = ds"
| "named_in_expr lib (E_Name _ _) ds = ds"
| "named_in_expr lib (E_StringLiteral _ _) ds = ds"
| "named_in_expr lib (E_Attribute v _) ds = named_in_expr lib v ds"
| "named_in_expr lib (E_Subscript v slice) ds = named_in_expr lib slice (named_in_expr lib v ds)"
| "named_in_expr lib (E_List elts) ds = run_all (map (named_in_expr lib) elts) ds"
| "named_in_expr lib (E_Tuple elts) ds = run_all (map (named_in_expr lib) elts) ds"
| "named_in_expr lib (E_Other children) ds = run_all (map (named_in_expr lib) children) ds"
| "named_in_expr lib (E_Call _ func args keywords) ds =
     run_all (map (\<lambda>(_, v). named_in_expr lib v) keywords)
       (run_all (map (named_in_expr lib) args) (named_in_expr lib func ds))"

definition expr_lvalue :: "pyrefly_lib \<Rightarrow> src_expr \<Rightarrow> definitions \<Rightarrow> definitions" where
  "expr_lvalue lib x ds = named_in_expr lib x (lvalue_names lib x ds)"

section \<open>Statements\<close>

text \<open>What does not change while a scope is scanned.\<close>

record scan_ctx =
  sc_module :: modname
  sc_is_init :: bool
  sc_is_stub :: bool
  sc_sys_pruned :: "expr option list \<Rightarrow> (expr option \<times> nat) list"
  sc_main_module :: "modname option"

definition importlib_of :: "definitions \<Rightarrow> importlib_state" where
  "importlib_of ds =
     \<lparr>il_has_importlib = ds_has_importlib ds, il_has_import_module = ds_has_import_module ds\<rparr>"

text \<open>An \<open>__init__\<close> module records the submodules it imports.\<close>

definition record_submodule :: "pyrefly_lib \<Rightarrow> scan_ctx \<Rightarrow> modname \<Rightarrow> definitions \<Rightarrow> definitions" where
  "record_submodule lib cx imported ds =
     (if sc_is_init cx then
        (case implicitly_imported_submodule lib (sc_module cx) imported of
           Some sub \<Rightarrow>
             ds\<lparr>ds_implicitly_imported_submodules := small_insert sub (ds_implicitly_imported_submodules ds)\<rparr>
         | None \<Rightarrow> ds)
      else ds)"

definition scan_import_alias :: "pyrefly_lib \<Rightarrow> scan_ctx \<Rightarrow> import_alias \<Rightarrow> definitions \<Rightarrow> definitions" where
  "scan_import_alias lib cx a ds =
     (case a of ((name, rng), asname) \<Rightarrow>
        let ds = record_submodule lib cx name ds;
            ds = (if is_importlib name then ds\<lparr>ds_has_importlib := True\<rparr> else ds)
        in case asname of
             None \<Rightarrow> add_name lib (pl_first_component lib name) rng (ImportModule name) ds
           | Some alias \<Rightarrow>
               add_identifier lib alias (if fst alias = name then ImportAsEq name else ImportAs name name) ds)"

definition from_style :: "modname option \<Rightarrow> import_alias \<Rightarrow> definition_style" where
  "from_style parent a =
     (case a of ((name, _), asname) \<Rightarrow>
        (case parent of
           None \<Rightarrow> ImportInvalidRelative
         | Some m \<Rightarrow>
             (if map_option fst asname = Some name then ImportAsEq m
              else if asname \<noteq> None then ImportAs m name
              else Import m)))"

definition scan_from_alias ::
  "pyrefly_lib \<Rightarrow> text_range \<Rightarrow> modname option \<Rightarrow> import_alias \<Rightarrow> definitions \<Rightarrow> definitions" where
  "scan_from_alias lib stmt_range parent a ds =
     (case a of ((name, rng), asname) \<Rightarrow>
        let ds = (if parent = Some ''importlib'' \<and> name = ''import_module''
                  then ds\<lparr>ds_has_import_module := True\<rparr> else ds)
        in if name = ''*'' then
             (case parent of
                Some m \<Rightarrow> ds\<lparr>ds_import_all := AList.update m rng (ds_import_all ds)\<rparr>
              | None \<Rightarrow> ds)
           else
             (let style = from_style parent a;
                  ds = (case (style, parent) of
                          (ImportAsEq _, Some m) \<Rightarrow>
                            (if name = dunder_all_name then ds\<lparr>ds_dunder_all := [AllModule stmt_range m]\<rparr> else ds)
                        | _ \<Rightarrow> ds)
              in add_identifier lib (case asname of Some i \<Rightarrow> i | None \<Rightarrow> (name, rng)) style ds))"

definition scan_import_from ::
  "pyrefly_lib \<Rightarrow> scan_ctx \<Rightarrow> text_range \<Rightarrow> string option \<Rightarrow> nat \<Rightarrow> import_alias list \<Rightarrow> definitions \<Rightarrow> definitions" where
  "scan_import_from lib cx stmt_range rel level names ds =
     (let parent = pl_relative lib (sc_module cx) (sc_is_init cx) level rel;
          ds = (case parent of Some m \<Rightarrow> record_submodule lib cx m ds | None \<Rightarrow> ds)
      in foldl (\<lambda>ds a. scan_from_alias lib stmt_range parent a ds) ds names)"

definition mark_deprecated :: "string \<Rightarrow> definitions \<Rightarrow> definitions" where
  "mark_deprecated name ds = ds\<lparr>ds_deprecated := small_insert name (ds_deprecated ds)\<rparr>"

definition scan_class_def :: "pyrefly_lib \<Rightarrow> ident \<Rightarrow> src_expr list \<Rightarrow> src_stmt list \<Rightarrow> definitions \<Rightarrow> definitions" where
  "scan_class_def lib name decorators body ds =
     (let ds = (if list_ex is_deprecated_decorator decorators then mark_deprecated (fst name) ds else ds)
      in add_identifier_with_body lib name (Unannotated SK_Class) (Some body) ds)"

definition scan_function_def :: "pyrefly_lib \<Rightarrow> ident \<Rightarrow> src_expr list \<Rightarrow> src_stmt list \<Rightarrow> definitions \<Rightarrow> definitions" where
  "scan_function_def lib name decorators body ds =
     (let ds = (if list_ex is_deprecated_decorator decorators \<and> \<not> list_ex is_overload_decorator decorators
                then mark_deprecated (fst name) ds else ds)
      in add_identifier_with_body lib name (Unannotated SK_Function) (Some body) ds)"

definition assign_dunder_all :: "src_expr \<Rightarrow> src_expr \<Rightarrow> definitions \<Rightarrow> definitions" where
  "assign_dunder_all target v ds = (if is_all target then ds\<lparr>ds_dunder_all := as_list v\<rparr> else ds)"

definition scan_assign_target ::
  "pyrefly_lib \<Rightarrow> scan_ctx \<Rightarrow> importlib_state \<Rightarrow> src_expr \<Rightarrow> src_expr \<Rightarrow> definitions \<Rightarrow> definitions" where
  "scan_assign_target lib cx il v t ds =
     (case match_call (pl_relative lib) il (erase_expr v) of
        Some m \<Rightarrow> (case t of E_Name i rng \<Rightarrow> add_name lib i rng (ImportAs m i) ds | _ \<Rightarrow> ds)
      | None \<Rightarrow>
          (case (if sc_is_stub cx then
                   (case t of
                      E_Name i rng \<Rightarrow> map_option (\<lambda>style. (i, rng, style)) (match_import_alias (style_of_name ds) i v)
                    | _ \<Rightarrow> None)
                 else None) of
             Some (i, rng, style) \<Rightarrow> assign_dunder_all t v (add_name lib i rng style ds)
           | None \<Rightarrow> assign_dunder_all t v (expr_lvalue lib t ds)))"

definition scan_assign :: "pyrefly_lib \<Rightarrow> scan_ctx \<Rightarrow> src_expr list \<Rightarrow> src_expr \<Rightarrow> definitions \<Rightarrow> definitions" where
  "scan_assign lib cx targets v ds =
     (let ds = named_in_expr lib v ds; il = importlib_of ds
      in foldl (\<lambda>ds t. scan_assign_target lib cx il v t ds) ds targets)"

text \<open>An expression that may be missing.\<close>

definition named_in_option :: "pyrefly_lib \<Rightarrow> src_expr option \<Rightarrow> definitions \<Rightarrow> definitions" where
  "named_in_option lib e ds = (case e of None \<Rightarrow> ds | Some x \<Rightarrow> named_in_expr lib x ds)"

definition scan_ann_assign :: "pyrefly_lib \<Rightarrow> src_expr \<Rightarrow> src_expr option \<Rightarrow> definitions \<Rightarrow> definitions" where
  "scan_ann_assign lib target v ds =
     (let ds = named_in_option lib v ds;
          ds = (case v of Some x \<Rightarrow> assign_dunder_all target x ds | None \<Rightarrow> ds)
      in case target of
           E_Name i rng \<Rightarrow> add_name lib i rng (Annotated SK_Variable rng) ds
         | _ \<Rightarrow> expr_lvalue lib target ds)"

definition scan_aug_assign :: "pyrefly_lib \<Rightarrow> src_expr \<Rightarrow> bool \<Rightarrow> src_expr \<Rightarrow> definitions \<Rightarrow> definitions" where
  "scan_aug_assign lib target is_add v ds =
     (let ds = named_in_expr lib v ds;
          ds = (if is_all target \<and> is_add then ds\<lparr>ds_dunder_all := ds_dunder_all ds @ as_list v\<rparr> else ds)
      in case target of
           E_Name i rng \<Rightarrow> add_name lib i rng (Unannotated SK_Variable) ds
         | _ \<Rightarrow> ds)"

definition scan_delete_target :: "pyrefly_lib \<Rightarrow> src_expr \<Rightarrow> definitions \<Rightarrow> definitions" where
  "scan_delete_target lib target ds =
     (let ds = named_in_expr lib target ds
      in case target of E_Name i rng \<Rightarrow> add_name lib i rng Delete ds | _ \<Rightarrow> ds)"

text \<open>The methods of \<open>__all__\<close> with one positional argument.\<close>

fun dunder_all_call :: "src_expr \<Rightarrow> (string \<times> src_expr) option" where
  "dunder_all_call (E_Call _ (E_Attribute v attr) [arg] []) = (if is_all v then Some (attr, arg) else None)"
| "dunder_all_call _ = None"

definition update_dunder_all :: "string \<Rightarrow> src_expr \<Rightarrow> dunder_all_entry list \<Rightarrow> dunder_all_entry list" where
  "update_dunder_all attr arg old =
     (if attr = ''extend'' then old @ as_list arg
      else if attr = ''append'' then old @ (case as_item arg of None \<Rightarrow> [] | Some item \<Rightarrow> [item])
      else if attr = ''remove'' then
        old @ (case as_item arg of Some (AllName rng name) \<Rightarrow> [AllRemove rng name] | _ \<Rightarrow> [])
      else old)"

definition handle_import_module :: "pyrefly_lib \<Rightarrow> src_expr \<Rightarrow> definitions \<Rightarrow> definitions option" where
  "handle_import_module lib e ds =
     (case e of
        E_Call rng _ _ _ \<Rightarrow>
          map_option (\<lambda>m. add_name lib (pl_first_component lib m) rng (ImportModule m) ds)
            (match_call (pl_relative lib) (importlib_of ds) (erase_expr e))
      | _ \<Rightarrow> None)"

definition scan_expr :: "pyrefly_lib \<Rightarrow> src_expr \<Rightarrow> definitions \<Rightarrow> definitions" where
  "scan_expr lib v ds =
     (case handle_import_module lib v ds of
        Some ds \<Rightarrow> ds
      | None \<Rightarrow>
          let ds = named_in_expr lib v ds
          in case dunder_all_call v of
               Some (attr, arg) \<Rightarrow> ds\<lparr>ds_dunder_all := update_dunder_all attr arg (ds_dunder_all ds)\<rparr>
             | None \<Rightarrow> ds)"

definition add_identifiers :: "pyrefly_lib \<Rightarrow> definition_style \<Rightarrow> ident list \<Rightarrow> definitions \<Rightarrow> definitions" where
  "add_identifiers lib style names ds = foldl (\<lambda>ds i. add_identifier lib i style ds) ds names"

definition scan_with_item :: "pyrefly_lib \<Rightarrow> src_expr \<times> src_expr option \<Rightarrow> definitions \<Rightarrow> definitions" where
  "scan_with_item lib item ds =
     (case item of (context_expr, target) \<Rightarrow>
        let ds = named_in_expr lib context_expr ds
        in case target of None \<Rightarrow> ds | Some t \<Rightarrow> expr_lvalue lib t ds)"

text \<open>The arm of a statement, before its suites are visited.\<close>

fun scan_arm :: "pyrefly_lib \<Rightarrow> scan_ctx \<Rightarrow> src_stmt \<Rightarrow> definitions \<Rightarrow> definitions" where
  "scan_arm lib cx (S_Import names) ds = foldl (\<lambda>ds a. scan_import_alias lib cx a ds) ds names"
| "scan_arm lib cx (S_ImportFrom rng rel level names) ds = scan_import_from lib cx rng rel level names ds"
| "scan_arm lib cx (S_ClassDef name decorators body) ds = scan_class_def lib name decorators body ds"
| "scan_arm lib cx (S_FunctionDef name decorators _ body) ds = scan_function_def lib name decorators body ds"
| "scan_arm lib cx (S_Nonlocal names) ds = add_identifiers lib (MutableCapture CaptureNonlocal) names ds"
| "scan_arm lib cx (S_Global names) ds = add_identifiers lib (MutableCapture CaptureGlobal) names ds"
| "scan_arm lib cx (S_Assign targets v) ds = scan_assign lib cx targets v ds"
| "scan_arm lib cx (S_AnnAssign target v) ds = scan_ann_assign lib target v ds"
| "scan_arm lib cx (S_AugAssign target is_add v) ds = scan_aug_assign lib target is_add v ds"
| "scan_arm lib cx (S_Delete targets) ds = foldl (\<lambda>ds t. scan_delete_target lib t ds) ds targets"
| "scan_arm lib cx (S_Expr v) ds = scan_expr lib v ds"
| "scan_arm lib cx (S_TypeAlias name v) ds =
     (let ds = named_in_expr lib v ds
      in case name of E_Name _ _ \<Rightarrow> expr_lvalue lib name ds | _ \<Rightarrow> ds)"
| "scan_arm lib cx (S_For target iter _ _) ds = expr_lvalue lib target (named_in_expr lib iter ds)"
| "scan_arm lib cx (S_With items _) ds = foldl (\<lambda>ds item. scan_with_item lib item ds) ds items"
| "scan_arm lib cx (S_Match subject cases) ds =
     foldl (\<lambda>ds (pattern, _). add_identifiers lib (Unannotated SK_Variable) pattern ds)
       (named_in_expr lib subject ds) cases"
| "scan_arm lib cx (S_Try _ handlers _ _) ds =
     foldl (\<lambda>ds (name, _). case name of
        None \<Rightarrow> ds
      | Some i \<Rightarrow> add_identifier lib i (Unannotated SK_Variable) ds) ds handlers"
| "scan_arm lib cx (S_If test _) ds = named_in_expr lib test ds"
| "scan_arm lib cx (S_While test _ _) ds = named_in_expr lib test ds"
| "scan_arm lib cx (S_Assert test msg) ds = named_in_option lib msg (named_in_expr lib test ds)"
| "scan_arm lib cx (S_Raise exc cause) ds = named_in_option lib cause (named_in_option lib exc ds)"
| "scan_arm lib cx S_Other ds = ds"

text \<open>The suites that are visited: all for most statements, none of classes and functions.\<close>

definition scanned_suites :: "scan_ctx \<Rightarrow> src_stmt \<Rightarrow> src_stmt list list" where
  "scanned_suites cx s =
     (case s of
        S_If _ branches \<Rightarrow>
          List.map_filter (\<lambda>(_, i). if i < length branches then Some (snd (branches ! i)) else None)
            (lg_pruned_if_branches (sc_sys_pruned cx) (sc_main_module cx) (sc_module cx) (map fst branches))
      | S_ClassDef _ _ _ \<Rightarrow> []
      | S_FunctionDef _ _ _ _ \<Rightarrow> []
      | _ \<Rightarrow> suites s)"

lemma scanned_suites_subset: "set (scanned_suites cx s) \<subseteq> set (suites s)"
  by (cases s) (auto simp: scanned_suites_def map_filter_def split: if_splits)

function scan_stmt :: "pyrefly_lib \<Rightarrow> scan_ctx \<Rightarrow> src_stmt \<Rightarrow> definitions \<Rightarrow> definitions" where
  "scan_stmt lib cx s ds =
     run_all (map (scan_stmt lib cx) (concat (scanned_suites cx s))) (scan_arm lib cx s ds)"
  by pat_completeness auto
termination
  by (relation "measure (\<lambda>(lib, cx, s, ds). size s)")
    (use scanned_suites_subset in \<open>auto intro: size_in_suites\<close>)

declare scan_stmt.simps [simp del]

definition scan_stmts :: "pyrefly_lib \<Rightarrow> scan_ctx \<Rightarrow> src_stmt list \<Rightarrow> definitions \<Rightarrow> definitions" where
  "scan_stmts lib cx body ds = run_all (map (scan_stmt lib cx) body) ds"

definition new_definitions :: "pyrefly_lib \<Rightarrow> scan_ctx \<Rightarrow> src_stmt list \<Rightarrow> definitions" where
  "new_definitions lib cx body = scan_stmts lib cx body empty_definitions"

section \<open>Operations on a finished table\<close>

definition builtins_name :: modname where
  "builtins_name = ''builtins''"

definition inject_builtins :: "definitions \<Rightarrow> definitions" where
  "inject_builtins ds =
     (case map_of (ds_import_all ds) builtins_name of
        Some _ \<Rightarrow> ds
      | None \<Rightarrow> ds\<lparr>ds_import_all := AList.update builtins_name (0, 0) (ds_import_all ds)\<rparr>)"

definition GLOBALS :: "string list" where
  "GLOBALS = [''__annotations__'', ''__builtins__'', ''__cached__'', ''__debug__'', ''__dict__'', ''__file__'',
     ''__loader__'', ''__name__'', ''__package__'', ''__path__'', ''__spec__'', ''__doc__'']"

definition inject_implicit_globals :: "definitions \<Rightarrow> definitions" where
  "inject_implicit_globals ds =
     foldl (\<lambda>ds g. ds\<lparr>ds_definitions := AList.update g
        \<lparr>df_style = ImplicitGlobal, df_range = (0, 0), df_first_binding = 0, df_needs_anywhere = False,
         df_docstring_range = None\<rparr> (ds_definitions ds)\<rparr>) ds GLOBALS"

definition is_private_name :: "string \<Rightarrow> bool" where
  "is_private_name name \<longleftrightarrow> take 1 name = ''_''"

fun is_own_style :: "definition_style \<Rightarrow> bool" where
  "is_own_style (Annotated _ _) \<longleftrightarrow> True"
| "is_own_style (Unannotated _) \<longleftrightarrow> True"
| "is_own_style _ \<longleftrightarrow> False"

text \<open>The flag says that the module is executable, and not an interface.\<close>

definition ensure_dunder_all :: "bool \<Rightarrow> definitions \<Rightarrow> definitions" where
  "ensure_dunder_all executable ds =
     (if map_of (ds_definitions ds) dunder_all_name \<noteq> None then ds
      else
        ds\<lparr>ds_dunder_all := ds_dunder_all ds @
             (if executable then map (\<lambda>(m, rng). AllModule rng m) (ds_import_all ds) else []) @
             List.map_filter (\<lambda>(name, d).
               if \<not> is_private_name name \<and>
                  (executable \<or> is_own_style (df_style d) \<or> (case df_style d of ImportAsEq _ \<Rightarrow> True | _ \<Rightarrow> False))
               then Some (AllName (df_range d) name) else None) (ds_definitions ds)\<rparr>)"

definition extend_dunder_all :: "string list \<Rightarrow> definitions \<Rightarrow> definitions" where
  "extend_dunder_all extra_names ds =
     ds\<lparr>ds_dunder_all := ds_dunder_all ds @
       List.map_filter (\<lambda>name. map_option (\<lambda>d. AllName (df_range d) name) (map_of (ds_definitions ds) name)) extra_names\<rparr>"

end
