(* ===== verification/Binding_Sites.thy ===== *)
theory Binding_Sites
  imports Py_Definitions
begin

text \<open>
  What the table of a scope means: the statements that are reached, the sites in them that bind a name,
  and the proof that the scan of \<open>Py_Definitions\<close> keeps of them what \<open>summarises\<close> says.
\<close>

section \<open>Binding sites\<close>

text \<open>
  The specification of the table: every site that binds a name, with the style it binds it in, in the
  order of the text.
\<close>

record binding_site =
  bs_name :: string
  bs_range :: text_range
  bs_style :: definition_style
  bs_docstring :: "text_range option"

definition site :: "definition_style \<Rightarrow> ident \<Rightarrow> binding_site" where
  "site style i = \<lparr>bs_name = fst i, bs_range = snd i, bs_style = style, bs_docstring = None\<rparr>"

definition body_site :: "pyrefly_lib \<Rightarrow> definition_style \<Rightarrow> ident \<Rightarrow> src_stmt list \<Rightarrow> binding_site" where
  "body_site lib style i body =
     \<lparr>bs_name = fst i, bs_range = snd i, bs_style = style, bs_docstring = pl_docstring lib body\<rparr>"

text \<open>A definition says what its sites say: the earliest of the least style, and the first position.\<close>

definition summarises :: "pyrefly_lib \<Rightarrow> py_definition \<Rightarrow> binding_site list \<Rightarrow> bool" where
  "summarises lib d bs \<longleftrightarrow>
     (\<exists>us b vs. bs = us @ b # vs \<and> df_style d = bs_style b \<and> df_range d = bs_range b \<and>
        (\<forall>u \<in> set us. style_cmp lib (bs_style b) (bs_style u) = Less) \<and>
        (\<forall>v \<in> set vs. style_cmp lib (bs_style v) (bs_style b) \<noteq> Less)) \<and>
     df_first_binding d = Min (fst ` bs_range ` set bs) \<and>
     df_docstring_range d = bs_docstring (hd bs) \<and>
     (df_needs_anywhere d \<longleftrightarrow> 1 < length bs \<and> \<not> is_capture_or_delete (df_style d))"

definition note_site :: "pyrefly_lib \<Rightarrow> binding_site \<Rightarrow> (string \<times> py_definition) list \<Rightarrow> (string \<times> py_definition) list" where
  "note_site lib b m =
     AList.update (bs_name b)
       (case map_of m (bs_name b) of
          Some d \<Rightarrow> merge_definition lib (bs_style b) (bs_range b) d
        | None \<Rightarrow>
            \<lparr>df_style = bs_style b, df_range = bs_range b, df_first_binding = fst (bs_range b),
             df_needs_anywhere = False, df_docstring_range = bs_docstring b\<rparr>) m"

definition site_table :: "pyrefly_lib \<Rightarrow> binding_site list \<Rightarrow> (string \<times> py_definition) list" where
  "site_table lib bs = foldl (\<lambda>m b. note_site lib b m) [] bs"

definition style_law :: "pyrefly_lib \<Rightarrow> bool" where
  "style_law lib \<longleftrightarrow>
     (\<forall>a b. style_cmp lib b a = reverse_ordering (style_cmp lib a b)) \<and>
     (\<forall>a b c. style_cmp lib a b = Less \<longrightarrow> style_cmp lib b c \<noteq> Greater \<longrightarrow> style_cmp lib a c = Less)"

lemma summarises_merge:
  assumes law: "style_law lib" and "summarises lib d bs"
  shows "summarises lib (merge_definition lib (bs_style b) (bs_range b) d) (bs @ [b])"
proof -
  obtain us e vs where bs: "bs = us @ e # vs" "df_style d = bs_style e" "df_range d = bs_range e"
    and before: "\<And>u. u \<in> set us \<Longrightarrow> style_cmp lib (bs_style e) (bs_style u) = Less"
    and after: "\<And>v. v \<in> set vs \<Longrightarrow> style_cmp lib (bs_style v) (bs_style e) \<noteq> Less"
    using assms(2) unfolding summarises_def by blast
  have rest: "df_first_binding d = Min (fst ` bs_range ` set bs)" "df_docstring_range d = bs_docstring (hd bs)"
    using assms(2) unfolding summarises_def by blast+
  have swap: "style_cmp lib t s = reverse_ordering (style_cmp lib s t)" for s t
    using law unfolding style_law_def by blast
  define d' where "d' = merge_definition lib (bs_style b) (bs_range b) d"
  have "\<exists>us e vs. bs @ [b] = us @ e # vs \<and> df_style d' = bs_style e \<and> df_range d' = bs_range e \<and>
      (\<forall>u \<in> set us. style_cmp lib (bs_style e) (bs_style u) = Less) \<and>
      (\<forall>v \<in> set vs. style_cmp lib (bs_style v) (bs_style e) \<noteq> Less)"
  proof (cases "style_cmp lib (bs_style b) (bs_style e) = Less")
    case True
    have "style_cmp lib (bs_style e) (bs_style u) \<noteq> Greater" if u: "u \<in> set bs" for u
    proof -
      consider "u \<in> set us" | "u = e" | "u \<in> set vs" using u bs(1) by auto
      then show ?thesis
      proof cases
        case 1
        then show ?thesis using before by simp
      next
        case 2
        then show ?thesis using swap [of "bs_style e" "bs_style e"] by auto
      next
        case 3
        then show ?thesis using after [of u] swap [of "bs_style u" "bs_style e"] by auto
      qed
    qed
    with True law have "style_cmp lib (bs_style b) (bs_style u) = Less" if "u \<in> set bs" for u
      using that unfolding style_law_def by blast
    then show ?thesis using True
      by (intro exI [of _ bs] exI [of _ b] exI [of _ "[]"]) (simp add: d'_def merge_definition_def bs(2) Let_def)
  next
    case False
    then show ?thesis using before after
      by (intro exI [of _ us] exI [of _ e] exI [of _ "vs @ [b]"])
        (auto simp: d'_def merge_definition_def bs Let_def)
  qed
  moreover have "df_first_binding d' = Min (fst ` bs_range ` set (bs @ [b]))"
  proof -
    have "bs \<noteq> []" by (simp add: bs(1))
    then have "Min (fst ` bs_range ` set (bs @ [b])) = min (fst (bs_range b)) (Min (fst ` bs_range ` set bs))"
      by simp
    then show ?thesis by (simp add: d'_def merge_definition_def Let_def rest(1) min.commute)
  qed
  moreover have "df_docstring_range d' = bs_docstring (hd (bs @ [b]))"
  proof -
    have "bs \<noteq> []" by (simp add: bs(1))
    then have "hd (bs @ [b]) = hd bs" by simp
    then show ?thesis using rest(2) by (simp add: d'_def merge_definition_def Let_def)
  qed
  moreover have "df_needs_anywhere d' \<longleftrightarrow> 1 < length (bs @ [b]) \<and> \<not> is_capture_or_delete (df_style d')"
    using bs(1) by (simp add: d'_def merge_definition_def Let_def)
  ultimately show ?thesis unfolding summarises_def d'_def [symmetric] by blast
qed

lemma site_table_ok:
  assumes "style_law lib"
  shows "case map_of (site_table lib bs) x of
      None \<Rightarrow> filter (\<lambda>b. bs_name b = x) bs = []
    | Some d \<Rightarrow> summarises lib d (filter (\<lambda>b. bs_name b = x) bs)"
proof (induction bs rule: rev_induct)
  case Nil
  then show ?case by (simp add: site_table_def)
next
  case (snoc b bs)
  have step: "site_table lib (bs @ [b]) = note_site lib b (site_table lib bs)" by (simp add: site_table_def)
  show ?case
  proof (cases "bs_name b = x")
    case False
    then show ?thesis using snoc by (simp add: step note_site_def update_conv' split: option.splits)
  next
    case True
    show ?thesis
    proof (cases "map_of (site_table lib bs) x")
      case None
      with snoc True show ?thesis
        by (auto simp: step note_site_def update_conv' summarises_def intro!: exI [of _ "[]"])
    next
      case (Some d)
      with snoc have "summarises lib d (filter (\<lambda>b. bs_name b = x) bs)" by simp
      from summarises_merge [OF assms this, of b] show ?thesis
        using True Some by (simp add: step note_site_def update_conv')
    qed
  qed
qed

text \<open>The order of the styles is lawful when the orders of their parts are.\<close>

definition orders_lawful :: "pyrefly_lib \<Rightarrow> bool" where
  "orders_lawful lib \<longleftrightarrow>
     lawful_cmp (pl_symbol_cmp lib) (\<lambda>x. x) \<and> lawful_cmp (pl_identifier_cmp lib) (\<lambda>x. x) \<and>
     lawful_cmp (pl_module_cmp lib) (\<lambda>x. x) \<and> lawful_cmp (pl_name_cmp lib) (\<lambda>x. x)"

lemma capture_rank_inject [simp]: "capture_rank k = capture_rank k' \<longleftrightarrow> k = k'"
  by (cases k; cases k'; simp)

lemma style_cmp_rank:
  "style_rank a < style_rank b \<Longrightarrow> style_cmp lib a b = Less"
  "style_cmp lib a b = Less \<Longrightarrow> style_rank a \<le> style_rank b"
  by (cases a; cases b; simp add: style_cmp_def cmp_of_def)+

lemma style_law:
  assumes "orders_lawful lib"
  shows "style_law lib"
proof -
  note laws = assms [unfolded orders_lawful_def]
  have sym: "lawful_cmp (pl_symbol_cmp lib) (\<lambda>x. x)" and idn: "lawful_cmp (pl_identifier_cmp lib) (\<lambda>x. x)"
    and mdl: "lawful_cmp (pl_module_cmp lib) (\<lambda>x. x)" and nam: "lawful_cmp (pl_name_cmp lib) (\<lambda>x. x)"
    using laws by blast+
  note pairs = lawful_then_with [OF lawful_comap [OF sym, of fst] lawful_comap [OF idn, of snd]]
    lawful_then_with [OF lawful_comap [OF mdl, of fst] lawful_comap [OF nam, of snd]]
  have equal: "style_cmp lib a b = Equal \<longleftrightarrow> a = b" for a b
    by (cases a; cases b)
      (simp_all add: style_cmp_def cmp_of_def lawful_cmp.equal_iff [OF sym] lawful_cmp.equal_iff [OF idn]
        lawful_cmp.equal_iff [OF mdl] lawful_cmp.equal_iff [OF nam])
  have swap: "style_cmp lib b a = reverse_ordering (style_cmp lib a b)" for a b
    by (cases a; cases b)
      (simp_all add: style_cmp_def cmp_of_def reverse_then_with
        lawful_cmp.swap [OF sym, symmetric] lawful_cmp.swap [OF idn, symmetric]
        lawful_cmp.swap [OF mdl, symmetric] lawful_cmp.swap [OF nam, symmetric])
  have less: "style_cmp lib a c = Less" if ab: "style_cmp lib a b = Less" and bc: "style_cmp lib b c = Less" for a b c
  proof (cases "style_rank a < style_rank c")
    case True
    then show ?thesis by (rule style_cmp_rank)
  next
    case False
    then have ranks: "style_rank b = style_rank a" "style_rank c = style_rank a"
      using style_cmp_rank(2) [OF ab] style_cmp_rank(2) [OF bc] by simp_all
    show ?thesis
      using ab bc ranks
      by (cases a; cases b; simp add: style_cmp_def; cases c;
        simp add: style_cmp_def cmp_of_def split: if_splits)
        (use pairs [THEN lawful_cmp.less_trans] in \<open>fastforce intro: lawful_cmp.less_trans [OF sym] lawful_cmp.less_trans [OF mdl]\<close>)+
  qed
  show ?thesis unfolding style_law_def
  proof (intro conjI allI impI)
    show "style_cmp lib b a = reverse_ordering (style_cmp lib a b)" for a b by (rule swap)
    fix a b c assume "style_cmp lib a b = Less" "style_cmp lib b c \<noteq> Greater"
    then show "style_cmp lib a c = Less" using less equal by (cases "style_cmp lib b c") auto
  qed
qed


section \<open>The sites of a scope\<close>

text \<open>The statements that are reached, in order.\<close>

function reached_of :: "scan_ctx \<Rightarrow> src_stmt \<Rightarrow> src_stmt list" where
  "reached_of cx s = s # concat (map (reached_of cx) (concat (scanned_suites cx s)))"
  by pat_completeness auto
termination
  by (relation "measure (\<lambda>(cx, s). size s)") (use scanned_suites_subset in \<open>auto intro: size_in_suites\<close>)

declare reached_of.simps [simp del]

definition reached_in :: "scan_ctx \<Rightarrow> src_stmt list \<Rightarrow> src_stmt list" where
  "reached_in cx body = concat (map (reached_of cx) body)"

text \<open>The identifiers of an expression that a walrus binds, or an assignment to it.\<close>

fun walrus_names :: "pyrefly_lib \<Rightarrow> src_expr \<Rightarrow> ident list" where
  "walrus_names lib (E_Named target v) = pl_lvalue lib target @ walrus_names lib target"
| "walrus_names lib (E_Attribute v _) = walrus_names lib v"
| "walrus_names lib (E_Subscript v slice) = walrus_names lib v @ walrus_names lib slice"
| "walrus_names lib (E_List elts) = concat (map (walrus_names lib) elts)"
| "walrus_names lib (E_Tuple elts) = concat (map (walrus_names lib) elts)"
| "walrus_names lib (E_Other children) = concat (map (walrus_names lib) children)"
| "walrus_names lib (E_Call _ func args keywords) =
     walrus_names lib func @ concat (map (walrus_names lib) args) @
       concat (map (\<lambda>(_, v). walrus_names lib v) keywords)"
| "walrus_names lib _ = []"

abbreviation variables :: "ident list \<Rightarrow> binding_site list" where
  "variables \<equiv> map (site (Unannotated SK_Variable))"

definition walrus_sites :: "pyrefly_lib \<Rightarrow> src_expr \<Rightarrow> binding_site list" where
  "walrus_sites lib e = variables (walrus_names lib e)"

definition target_sites :: "pyrefly_lib \<Rightarrow> src_expr \<Rightarrow> binding_site list" where
  "target_sites lib e = variables (pl_lvalue lib e @ walrus_names lib e)"

definition option_sites :: "pyrefly_lib \<Rightarrow> src_expr option \<Rightarrow> binding_site list" where
  "option_sites lib e = (case e of None \<Rightarrow> [] | Some x \<Rightarrow> walrus_sites lib x)"

fun name_sites :: "definition_style \<Rightarrow> src_expr \<Rightarrow> binding_site list" where
  "name_sites style (E_Name i rng) = [site style (i, rng)]"
| "name_sites style _ = []"

text \<open>
  One target of an assignment, after the sites \<open>bs\<close>: a recognised import, an alias of an import in a
  stub, or the names of the target.
\<close>

definition assign_sites ::
  "pyrefly_lib \<Rightarrow> scan_ctx \<Rightarrow> importlib_state \<Rightarrow> src_expr \<Rightarrow> binding_site list \<Rightarrow> src_expr \<Rightarrow> binding_site list" where
  "assign_sites lib cx il v bs t =
     (case match_call (pl_relative lib) il (erase_expr v) of
        Some m \<Rightarrow> (case t of E_Name i rng \<Rightarrow> [site (ImportAs m i) (i, rng)] | _ \<Rightarrow> [])
      | None \<Rightarrow>
          (case (t, sc_is_stub cx) of
             (E_Name i rng, True) \<Rightarrow>
               (case match_import_alias (\<lambda>x. map_option df_style (map_of (site_table lib bs) x)) i v of
                  Some style \<Rightarrow> [site style (i, rng)]
                | None \<Rightarrow> target_sites lib t)
           | _ \<Rightarrow> target_sites lib t))"

fun import_sites :: "pyrefly_lib \<Rightarrow> import_alias \<Rightarrow> binding_site" where
  "import_sites lib ((name, rng), None) = site (ImportModule name) (pl_first_component lib name, rng)"
| "import_sites lib ((name, rng), Some alias) =
     site (if fst alias = name then ImportAsEq name else ImportAs name name) alias"

fun from_sites :: "modname option \<Rightarrow> import_alias \<Rightarrow> binding_site list" where
  "from_sites parent ((name, rng), asname) =
     (if name = ''*'' then []
      else [site (from_style parent ((name, rng), asname)) (case asname of Some i \<Rightarrow> i | None \<Rightarrow> (name, rng))])"

definition expr_sites :: "pyrefly_lib \<Rightarrow> importlib_state \<Rightarrow> src_expr \<Rightarrow> binding_site list" where
  "expr_sites lib il v =
     (case (v, match_call (pl_relative lib) il (erase_expr v)) of
        (E_Call rng _ _ _, Some m) \<Rightarrow> [site (ImportModule m) (pl_first_component lib m, rng)]
      | _ \<Rightarrow> walrus_sites lib v)"

text \<open>All sites of an arm, knowing what of \<open>importlib\<close> is imported and the sites before.\<close>

fun arm_sites :: "pyrefly_lib \<Rightarrow> scan_ctx \<Rightarrow> importlib_state \<Rightarrow> binding_site list \<Rightarrow> src_stmt \<Rightarrow> binding_site list" where
  "arm_sites lib cx il bs (S_Import names) = map (import_sites lib) names"
| "arm_sites lib cx il bs (S_ImportFrom _ rel level names) =
     concat (map (from_sites (pl_relative lib (sc_module cx) (sc_is_init cx) level rel)) names)"
| "arm_sites lib cx il bs (S_ClassDef i _ body) = [body_site lib (Unannotated SK_Class) i body]"
| "arm_sites lib cx il bs (S_FunctionDef i _ _ body) = [body_site lib (Unannotated SK_Function) i body]"
| "arm_sites lib cx il bs (S_Nonlocal names) = map (site (MutableCapture CaptureNonlocal)) names"
| "arm_sites lib cx il bs (S_Global names) = map (site (MutableCapture CaptureGlobal)) names"
| "arm_sites lib cx il bs (S_Assign targets v) =
     drop (length bs) (foldl (\<lambda>bs t. bs @ assign_sites lib cx il v bs t) (bs @ walrus_sites lib v) targets)"
| "arm_sites lib cx il bs (S_AnnAssign target v) =
     option_sites lib v @
     (case target of E_Name i rng \<Rightarrow> [site (Annotated SK_Variable rng) (i, rng)] | _ \<Rightarrow> target_sites lib target)"
| "arm_sites lib cx il bs (S_AugAssign target _ v) = walrus_sites lib v @ name_sites (Unannotated SK_Variable) target"
| "arm_sites lib cx il bs (S_Delete targets) =
     concat (map (\<lambda>t. walrus_sites lib t @ name_sites Delete t) targets)"
| "arm_sites lib cx il bs (S_Expr v) = expr_sites lib il v"
| "arm_sites lib cx il bs (S_TypeAlias name v) =
     walrus_sites lib v @ (case name of E_Name _ _ \<Rightarrow> target_sites lib name | _ \<Rightarrow> [])"
| "arm_sites lib cx il bs (S_For target iter _ _) = walrus_sites lib iter @ target_sites lib target"
| "arm_sites lib cx il bs (S_With items _) =
     concat (map (\<lambda>(e, t). walrus_sites lib e @ (case t of None \<Rightarrow> [] | Some x \<Rightarrow> target_sites lib x)) items)"
| "arm_sites lib cx il bs (S_Match subject cases) =
     walrus_sites lib subject @ concat (map (\<lambda>(pattern, _). variables pattern) cases)"
| "arm_sites lib cx il bs (S_Try _ handlers _ _) =
     concat (map (\<lambda>(name, _). case name of None \<Rightarrow> [] | Some i \<Rightarrow> variables [i]) handlers)"
| "arm_sites lib cx il bs (S_If test _) = walrus_sites lib test"
| "arm_sites lib cx il bs (S_While test _ _) = walrus_sites lib test"
| "arm_sites lib cx il bs (S_Assert test msg) = walrus_sites lib test @ option_sites lib msg"
| "arm_sites lib cx il bs (S_Raise exc cause) = option_sites lib exc @ option_sites lib cause"
| "arm_sites lib cx il bs S_Other = []"

text \<open>What a statement says of \<open>importlib\<close>, and the modules it star-imports.\<close>

fun imports_importlib :: "src_stmt \<Rightarrow> bool" where
  "imports_importlib (S_Import names) \<longleftrightarrow> (\<exists>a \<in> set names. is_importlib (fst (fst a)))"
| "imports_importlib _ \<longleftrightarrow> False"

fun imports_import_module :: "pyrefly_lib \<Rightarrow> scan_ctx \<Rightarrow> src_stmt \<Rightarrow> bool" where
  "imports_import_module lib cx (S_ImportFrom _ rel level names) \<longleftrightarrow>
     pl_relative lib (sc_module cx) (sc_is_init cx) level rel = Some ''importlib'' \<and>
     ''import_module'' \<in> (\<lambda>a. fst (fst a)) ` set names"
| "imports_import_module lib cx _ \<longleftrightarrow> False"

definition importlib_known :: "pyrefly_lib \<Rightarrow> scan_ctx \<Rightarrow> src_stmt list \<Rightarrow> importlib_state" where
  "importlib_known lib cx ss =
     \<lparr>il_has_importlib = list_ex imports_importlib ss, il_has_import_module = list_ex (imports_import_module lib cx) ss\<rparr>"

text \<open>All sites of the statements that are reached; the latest statement comes first.\<close>

fun sites_before :: "pyrefly_lib \<Rightarrow> scan_ctx \<Rightarrow> src_stmt list \<Rightarrow> binding_site list" where
  "sites_before lib cx [] = []"
| "sites_before lib cx (s # ss) =
     sites_before lib cx ss @ arm_sites lib cx (importlib_known lib cx ss) (sites_before lib cx ss) s"

definition sites_of :: "pyrefly_lib \<Rightarrow> scan_ctx \<Rightarrow> src_stmt list \<Rightarrow> binding_site list" where
  "sites_of lib cx body = sites_before lib cx (rev (reached_in cx body))"

fun star_sites :: "pyrefly_lib \<Rightarrow> scan_ctx \<Rightarrow> src_stmt \<Rightarrow> (modname \<times> text_range) list" where
  "star_sites lib cx (S_ImportFrom _ rel level names) =
     (case pl_relative lib (sc_module cx) (sc_is_init cx) level rel of
        None \<Rightarrow> []
      | Some m \<Rightarrow> map (\<lambda>((_, rng), _). (m, rng)) (filter (\<lambda>a. fst (fst a) = ''*'') names))"
| "star_sites lib cx _ = []"

section \<open>Steps of the scan\<close>

text \<open>A step that adds sites and star imports and learns of \<open>importlib\<close>.\<close>

definition adds ::
  "pyrefly_lib \<Rightarrow> binding_site list \<Rightarrow> (modname \<times> text_range) list \<Rightarrow> bool \<Rightarrow> bool \<Rightarrow> definitions \<Rightarrow> definitions \<Rightarrow> bool" where
  "adds lib bs stars il im ds ds' \<longleftrightarrow>
     ds_definitions ds' = foldl (\<lambda>m b. note_site lib b m) (ds_definitions ds) bs \<and>
     ds_import_all ds' = foldl (\<lambda>m (k, v). AList.update k v m) (ds_import_all ds) stars \<and>
     ds_has_importlib ds' = (ds_has_importlib ds \<or> il) \<and> ds_has_import_module ds' = (ds_has_import_module ds \<or> im)"

lemma adds_refl: "adds lib [] [] False False ds ds"
  by (simp add: adds_def)

lemma adds_trans:
  "adds lib bs stars il im ds ds1 \<Longrightarrow> adds lib bs' stars' il' im' ds1 ds2 \<Longrightarrow>
     adds lib (bs @ bs') (stars @ stars') (il \<or> il') (im \<or> im') ds ds2"
  by (auto simp: adds_def)

lemma adds_sites_trans:
  "adds lib bs [] False False ds ds1 \<Longrightarrow> adds lib bs' [] False False ds1 ds2 \<Longrightarrow>
     adds lib (bs @ bs') [] False False ds ds2"
  by (auto simp: adds_def)

lemma concat_map_Nil [simp]: "concat (map (\<lambda>_. []) xs) = []"
  by (induction xs) simp_all

lemma not_list_ex_False [simp]: "\<not> list_ex (\<lambda>_. False) xs"
  by (induction xs) simp_all

lemma adds_foldl:
  assumes "\<And>x st. x \<in> set xs \<Longrightarrow> adds lib (b x) (s x) (il x) (im x) st (f st x)"
  shows "adds lib (concat (map b xs)) (concat (map s xs)) (list_ex il xs) (list_ex im xs) st (foldl f st xs)"
  using assms
proof (induction xs arbitrary: st)
  case (Cons x xs)
  have "adds lib (b x @ concat (map b xs)) (s x @ concat (map s xs)) (il x \<or> list_ex il xs) (im x \<or> list_ex im xs)
      st (foldl f (f st x) xs)"
    by (rule adds_trans [OF Cons.prems Cons.IH]) (simp_all add: Cons.prems)
  then show ?case by simp
qed (simp add: adds_refl)

lemma adds_sites_foldl:
  assumes "\<And>x st. x \<in> set xs \<Longrightarrow> adds lib (b x) [] False False st (f st x)"
  shows "adds lib (concat (map b xs)) [] False False st (foldl f st xs)"
  using adds_foldl [of xs lib b "\<lambda>_. []" "\<lambda>_. False" "\<lambda>_. False" f st, OF assms] by simp

lemma adds_unchanged [simp]:
  "adds lib bs stars il im ds (ds'\<lparr>ds_dunder_all := x\<rparr>) = adds lib bs stars il im ds ds'"
  "adds lib bs stars il im (ds\<lparr>ds_dunder_all := x\<rparr>) ds' = adds lib bs stars il im ds ds'"
  "adds lib bs stars il im ds (ds'\<lparr>ds_deprecated := y\<rparr>) = adds lib bs stars il im ds ds'"
  "adds lib bs stars il im ds (ds'\<lparr>ds_implicitly_imported_submodules := y\<rparr>) = adds lib bs stars il im ds ds'"
  "adds lib bs stars il im (ds\<lparr>ds_deprecated := y\<rparr>) ds' = adds lib bs stars il im ds ds'"
  "adds lib bs stars il im (ds\<lparr>ds_implicitly_imported_submodules := y\<rparr>) ds' = adds lib bs stars il im ds ds'"
  "adds lib bs stars il im (ds\<lparr>ds_scoped_definitions := z\<rparr>) ds' = adds lib bs stars il im ds ds'"
  by (simp_all add: adds_def)

lemma add_name_with_body_adds:
  "adds lib [\<lparr>bs_name = x, bs_range = rng, bs_style = style, bs_docstring = Option.bind body (pl_docstring lib)\<rparr>]
     [] False False ds (add_name_with_body lib x rng style body ds)"
  by (simp add: adds_def add_name_with_body_def note_site_def split: option.split)

lemma add_name_adds: "adds lib [site style (x, rng)] [] False False ds (add_name lib x rng style ds)"
  using add_name_with_body_adds [of lib x rng style None ds] by (simp add: add_name_def site_def)

lemma add_identifier_adds: "adds lib [site style i] [] False False ds (add_identifier lib i style ds)"
  using add_name_adds [of lib style "fst i" "snd i" ds] by (simp add: add_identifier_def)

lemma add_identifiers_adds: "adds lib (map (site style) names) [] False False ds (add_identifiers lib style names ds)"
proof -
  have "concat (map (\<lambda>i. [site style i]) names) = map (site style) names" by (induction names) simp_all
  with adds_sites_foldl [of names lib "\<lambda>i. [site style i]" "\<lambda>ds i. add_identifier lib i style ds" ds,
      OF add_identifier_adds]
  show ?thesis by (simp add: add_identifiers_def)
qed

lemma lvalue_names_adds: "adds lib (variables (pl_lvalue lib x)) [] False False ds (lvalue_names lib x ds)"
  using add_identifiers_adds [of lib "Unannotated SK_Variable" "pl_lvalue lib x" ds]
  by (simp add: add_identifiers_def add_identifier_def lvalue_names_def case_prod_unfold)

lemma comp_target_lvalue_adds: "adds lib [] [] False False ds (comp_target_lvalue lib rng t ds)"
proof -
  have "adds lib (concat (map (\<lambda>_. []) (pl_lvalue lib t))) [] False False ds (comp_target_lvalue lib rng t ds)"
    unfolding comp_target_lvalue_def by (rule adds_sites_foldl) (simp add: adds_def case_prod_unfold Let_def)
  then show ?thesis by simp
qed

lemma comp_targets_adds: "adds lib [] [] False False ds (foldl (\<lambda>ds t. comp_target_lvalue lib rng t ds) ds ts)"
  using adds_sites_foldl [of ts lib "\<lambda>_. []" "\<lambda>ds t. comp_target_lvalue lib rng t ds" ds, OF comp_target_lvalue_adds]
  by simp

lemma run_all_adds:
  assumes "\<And>x st. x \<in> set xs \<Longrightarrow> adds lib (b x) [] False False st (f x st)"
  shows "adds lib (concat (map b xs)) [] False False st (run_all (map f xs) st)"
  unfolding run_all_map by (rule adds_sites_foldl) (rule assms)

lemma walrus_sites_simps [simp]:
  "walrus_sites lib (E_Named target v) = variables (pl_lvalue lib target) @ walrus_sites lib target"
  "walrus_sites lib (E_Attribute w attr) = walrus_sites lib w"
  "walrus_sites lib (E_Subscript w slice) = walrus_sites lib w @ walrus_sites lib slice"
  "walrus_sites lib (E_List elts) = concat (map (walrus_sites lib) elts)"
  "walrus_sites lib (E_Tuple elts) = concat (map (walrus_sites lib) elts)"
  "walrus_sites lib (E_Other elts) = concat (map (walrus_sites lib) elts)"
  "walrus_sites lib (E_Call rng func args keywords) =
     walrus_sites lib func @ concat (map (walrus_sites lib) args) @ concat (map (\<lambda>(_, v). walrus_sites lib v) keywords)"
  "walrus_sites lib (E_Name i r) = []" "walrus_sites lib (E_StringLiteral r s) = []" "walrus_sites lib E_Lambda = []"
  "walrus_sites lib (E_ListComp r ts) = []" "walrus_sites lib (E_SetComp r ts) = []"
  "walrus_sites lib (E_DictComp r ts) = []" "walrus_sites lib (E_Generator r ts) = []"
  by (simp_all add: walrus_sites_def [abs_def] map_concat case_prod_unfold comp_def)

lemma named_in_expr_adds: "adds lib (walrus_sites lib e) [] False False ds (named_in_expr lib e ds)"
proof (induction lib e ds rule: named_in_expr.induct)
  case (1 lib target v ds)
  from adds_sites_trans [OF lvalue_names_adds 1] show ?case by simp
next
  case (10 lib v slice ds)
  from adds_sites_trans [OF this] show ?case by simp
next
  case (14 lib rng func args kws ds)
  have "adds lib (concat (map (\<lambda>(_, v). walrus_sites lib v) kws)) [] False False st
      (run_all (map (\<lambda>(_, v). named_in_expr lib v) kws) st)" for st
  proof (rule run_all_adds)
    fix x st assume "x \<in> set kws"
    with 14(1) [of x "fst x" "snd x" st]
    show "adds lib (case x of (_, v) \<Rightarrow> walrus_sites lib v) [] False False st
        ((case x of (_, v) \<Rightarrow> named_in_expr lib v) st)"
      by (simp add: case_prod_unfold)
  qed
  from adds_sites_trans [OF adds_sites_trans [OF 14(3) run_all_adds [of args, OF 14(2)]] this]
  show ?case by simp
qed (simp_all add: adds_refl comp_targets_adds run_all_adds)

lemma expr_lvalue_adds: "adds lib (target_sites lib e) [] False False ds (expr_lvalue lib e ds)"
  using adds_sites_trans [OF lvalue_names_adds named_in_expr_adds, of lib e e ds]
  by (simp add: expr_lvalue_def target_sites_def walrus_sites_def)

lemma named_in_option_adds: "adds lib (option_sites lib e) [] False False ds (named_in_option lib e ds)"
  by (cases e) (simp_all add: option_sites_def named_in_option_def adds_refl named_in_expr_adds)

lemma record_submodule_adds: "adds lib [] [] False False ds (record_submodule lib cx m ds)"
  by (simp add: record_submodule_def adds_refl split: option.split)

lemma scan_import_alias_adds:
  "adds lib [import_sites lib a] [] (is_importlib (fst (fst a))) False ds (scan_import_alias lib cx a ds)"
proof -
  obtain name rng asname where a: "a = ((name, rng), asname)" by (metis prod.collapse)
  define ds1 where "ds1 = (let ds = record_submodule lib cx name ds
      in if is_importlib name then ds\<lparr>ds_has_importlib := True\<rparr> else ds)"
  have first: "adds lib [] [] (is_importlib name) False ds ds1"
    using record_submodule_adds [of lib ds cx name] by (auto simp: ds1_def adds_def Let_def)
  have "adds lib [import_sites lib a] [] False False ds1 (scan_import_alias lib cx a ds)"
    by (cases asname)
      (simp_all add: a scan_import_alias_def ds1_def [unfolded Let_def, symmetric] Let_def add_name_adds add_identifier_adds)
  from adds_trans [OF first this] show ?thesis by (simp add: a)
qed

lemma scan_from_alias_adds:
  "adds lib (from_sites parent a)
     (case parent of None \<Rightarrow> [] | Some m \<Rightarrow> if fst (fst a) = ''*'' then [(m, snd (fst a))] else []) False
     (parent = Some ''importlib'' \<and> fst (fst a) = ''import_module'') ds (scan_from_alias lib rng parent a ds)"
proof -
  obtain name nrng asname where a: "a = ((name, nrng), asname)" by (metis prod.collapse)
  define ds1 where "ds1 = (if parent = Some ''importlib'' \<and> name = ''import_module''
      then ds\<lparr>ds_has_import_module := True\<rparr> else ds)"
  have first: "adds lib [] [] False (parent = Some ''importlib'' \<and> name = ''import_module'') ds ds1"
    by (auto simp: ds1_def adds_def)
  show ?thesis
  proof (cases "name = ''*''")
    case True
    then show ?thesis
      by (auto simp: a scan_from_alias_def adds_def split: option.split)
  next
    case False
    define ds2 where "ds2 = (case (from_style parent a, parent) of
        (ImportAsEq _, Some m) \<Rightarrow>
          (if name = dunder_all_name then ds1\<lparr>ds_dunder_all := [AllModule rng m]\<rparr> else ds1)
      | _ \<Rightarrow> ds1)"
    have "adds lib [] [] False False ds1 ds2"
      by (simp add: ds2_def adds_refl split: definition_style.split option.split)
    from adds_trans [OF first adds_sites_trans [OF this add_identifier_adds]]
    have "adds lib (from_sites parent a) [] False (parent = Some ''importlib'' \<and> name = ''import_module'') ds
        (add_identifier lib (case asname of Some i \<Rightarrow> i | None \<Rightarrow> (name, nrng)) (from_style parent a) ds2)"
      using False by (simp add: a)
    moreover have "scan_from_alias lib rng parent a ds =
        add_identifier lib (case asname of Some i \<Rightarrow> i | None \<Rightarrow> (name, nrng)) (from_style parent a) ds2"
      using False unfolding scan_from_alias_def ds2_def ds1_def a by (simp add: Let_def)
    moreover have "(case parent of None \<Rightarrow> [] | Some m \<Rightarrow> if fst (fst a) = ''*'' then [(m, snd (fst a))] else []) = []"
      using False by (simp add: a split: option.split)
    ultimately show ?thesis by (simp add: a)
  qed
qed

lemma scan_import_from_adds:
  "adds lib (arm_sites lib cx il bs (S_ImportFrom rng rel level names)) (star_sites lib cx (S_ImportFrom rng rel level names))
     False (imports_import_module lib cx (S_ImportFrom rng rel level names)) ds (scan_import_from lib cx rng rel level names ds)"
proof -
  define parent where "parent = pl_relative lib (sc_module cx) (sc_is_init cx) level rel"
  define ds1 where "ds1 = (case parent of Some m \<Rightarrow> record_submodule lib cx m ds | None \<Rightarrow> ds)"
  have first: "adds lib [] [] False False ds ds1"
    by (simp add: ds1_def adds_refl record_submodule_adds split: option.split)
  have rest: "adds lib (concat (map (from_sites parent) names))
      (concat (map (\<lambda>a. case parent of None \<Rightarrow> [] | Some m \<Rightarrow> if fst (fst a) = ''*'' then [(m, snd (fst a))] else []) names))
      (list_ex (\<lambda>_. False) names) (list_ex (\<lambda>a. parent = Some ''importlib'' \<and> fst (fst a) = ''import_module'') names)
      ds1 (foldl (\<lambda>ds a. scan_from_alias lib rng parent a ds) ds1 names)"
    by (rule adds_foldl) (rule scan_from_alias_adds)
  have "concat (map (\<lambda>a. if fst (fst a) = ''*'' then [(m, snd (fst a))] else []) names) =
      map (\<lambda>((_, rng), _). (m, rng)) (filter (\<lambda>a. fst (fst a) = ''*'') names)" for m
    by (induction names) (auto simp: case_prod_unfold)
  then have stars: "concat (map (\<lambda>a. case parent of None \<Rightarrow> [] | Some m \<Rightarrow> if fst (fst a) = ''*'' then [(m, snd (fst a))] else []) names) =
      star_sites lib cx (S_ImportFrom rng rel level names)"
    by (cases parent) (simp_all add: parent_def [symmetric])
  have modules: "list_ex (\<lambda>a. parent = Some ''importlib'' \<and> fst (fst a) = ''import_module'') names =
      imports_import_module lib cx (S_ImportFrom rng rel level names)"
    by (force simp: parent_def [symmetric] list_ex_iff image_iff)
  from adds_trans [OF first rest] show ?thesis
    unfolding stars modules by (simp add: scan_import_from_def Let_def parent_def [symmetric] ds1_def [symmetric])
qed

lemma scan_class_def_adds:
  "adds lib [body_site lib (Unannotated SK_Class) i body] [] False False ds (scan_class_def lib i decorators body ds)"
  using add_name_with_body_adds [of lib "fst i" "snd i" "Unannotated SK_Class" "Some body"]
  by (simp add: scan_class_def_def add_identifier_with_body_def body_site_def mark_deprecated_def Let_def adds_def)

lemma scan_function_def_adds:
  "adds lib [body_site lib (Unannotated SK_Function) i body] [] False False ds (scan_function_def lib i decorators body ds)"
  using add_name_with_body_adds [of lib "fst i" "snd i" "Unannotated SK_Function" "Some body"]
  by (simp add: scan_function_def_def add_identifier_with_body_def body_site_def mark_deprecated_def Let_def adds_def)

lemma assign_dunder_all_adds [simp]:
  "adds lib bs stars il im ds (assign_dunder_all t v ds') = adds lib bs stars il im ds ds'"
  "adds lib bs stars il im (assign_dunder_all t v ds) ds' = adds lib bs stars il im ds ds'"
  by (simp_all add: assign_dunder_all_def)

lemma site_table_append: "site_table lib (bs @ bs') = foldl (\<lambda>m b. note_site lib b m) (site_table lib bs) bs'"
  by (simp add: site_table_def)

lemma scan_assign_target_adds:
  assumes "ds_definitions ds = site_table lib bs"
  shows "adds lib (assign_sites lib cx il v bs t) [] False False ds (scan_assign_target lib cx il v t ds)"
proof -
  have style: "style_of_name ds = (\<lambda>x. map_option df_style (map_of (site_table lib bs) x))"
    by (simp add: style_of_name_def assms fun_eq_iff)
  show ?thesis
  proof (cases "match_call (pl_relative lib) il (erase_expr v)")
    case (Some m)
    then show ?thesis by (simp add: scan_assign_target_def assign_sites_def add_name_adds adds_refl split: src_expr.split)
  next
    case None
    show ?thesis
    proof (cases "\<exists>i rng. t = E_Name i rng \<and> sc_is_stub cx")
      case True
      then obtain i rng where t: "t = E_Name i rng" "sc_is_stub cx" by blast
      then show ?thesis using None
        by (cases "match_import_alias (style_of_name ds) i v")
          (simp_all add: scan_assign_target_def assign_sites_def style [symmetric] add_name_adds expr_lvalue_adds)
    next
      case False
      then have "(case t of E_Name i rng \<Rightarrow> map_option (\<lambda>style. (i, rng, style)) (match_import_alias (style_of_name ds) i v) | _ \<Rightarrow> None) = None
          \<or> \<not> sc_is_stub cx"
        and "(case (t, sc_is_stub cx) of (E_Name i rng, True) \<Rightarrow> f i rng | _ \<Rightarrow> target_sites lib t) = target_sites lib t" for f
        by (auto split: src_expr.split)
      then show ?thesis using None by (auto simp: scan_assign_target_def assign_sites_def expr_lvalue_adds)
    qed
  qed
qed

lemma scan_assign_adds:
  assumes "ds_definitions ds = site_table lib bs"
  shows "adds lib (arm_sites lib cx (importlib_of ds) bs (S_Assign targets v)) [] False False ds (scan_assign lib cx targets v ds)"
proof -
  define ds1 where "ds1 = named_in_expr lib v ds"
  have first: "adds lib (walrus_sites lib v) [] False False ds ds1"
    by (simp add: ds1_def named_in_expr_adds)
  then have il: "importlib_of ds1 = importlib_of ds" and tab: "ds_definitions ds1 = site_table lib (bs @ walrus_sites lib v)"
    by (simp_all add: adds_def importlib_of_def site_table_append assms)
  have run: "\<exists>es. foldl (\<lambda>bs t. bs @ assign_sites lib cx il v bs t) b0 targets = b0 @ es \<and>
      adds lib es [] False False st (foldl (\<lambda>ds t. scan_assign_target lib cx il v t ds) st targets)"
    if "ds_definitions st = site_table lib b0" for b0 st il
    using that
  proof (induction targets arbitrary: b0 st)
    case Nil
    show ?case by (simp add: adds_refl)
  next
    case (Cons t targets)
    define st1 where "st1 = scan_assign_target lib cx il v t st"
    have step: "adds lib (assign_sites lib cx il v b0 t) [] False False st st1"
      unfolding st1_def by (rule scan_assign_target_adds [OF Cons.prems])
    then have "ds_definitions st1 = site_table lib (b0 @ assign_sites lib cx il v b0 t)"
      by (simp add: adds_def Cons.prems site_table_append)
    from Cons.IH [OF this] obtain es where "foldl (\<lambda>bs t. bs @ assign_sites lib cx il v bs t) (b0 @ assign_sites lib cx il v b0 t) targets =
        (b0 @ assign_sites lib cx il v b0 t) @ es"
      "adds lib es [] False False st1 (foldl (\<lambda>ds t. scan_assign_target lib cx il v t ds) st1 targets)"
      by blast
    with adds_sites_trans [OF step] show ?case
      by (intro exI [of _ "assign_sites lib cx il v b0 t @ es"]) (simp add: st1_def)
  qed
  obtain es where
    "foldl (\<lambda>bs t. bs @ assign_sites lib cx (importlib_of ds) v bs t) (bs @ walrus_sites lib v) targets = (bs @ walrus_sites lib v) @ es"
    "adds lib es [] False False ds1 (foldl (\<lambda>st t. scan_assign_target lib cx (importlib_of ds) v t st) ds1 targets)"
    using run [OF tab, of "importlib_of ds"] by blast
  note found = this
  have "scan_assign lib cx targets v ds = foldl (\<lambda>st t. scan_assign_target lib cx (importlib_of ds1) v t st) ds1 targets"
    by (simp add: scan_assign_def Let_def ds1_def)
  moreover have "arm_sites lib cx (importlib_of ds) bs (S_Assign targets v) = walrus_sites lib v @ es"
    by (simp add: found(1))
  ultimately show ?thesis using adds_sites_trans [OF first found(2)] by (simp only: il)
qed

lemma scan_ann_assign_adds:
  "adds lib (arm_sites lib cx il bs (S_AnnAssign target v)) [] False False ds (scan_ann_assign lib target v ds)"
proof -
  define ds1 where "ds1 = (case v of Some x \<Rightarrow> assign_dunder_all target x (named_in_option lib v ds) | None \<Rightarrow> named_in_option lib v ds)"
  have "adds lib (option_sites lib v) [] False False ds ds1"
    by (simp add: ds1_def named_in_option_adds split: option.split)
  moreover have "adds lib (case target of E_Name i rng \<Rightarrow> [site (Annotated SK_Variable rng) (i, rng)] | _ \<Rightarrow> target_sites lib target)
      [] False False ds1 (scan_ann_assign lib target v ds)"
    by (simp add: scan_ann_assign_def ds1_def [symmetric] Let_def add_name_adds expr_lvalue_adds split: src_expr.split)
  ultimately show ?thesis unfolding arm_sites.simps by (rule adds_sites_trans)
qed

lemma name_adds: "adds lib (name_sites style t) [] False False ds (case t of E_Name i rng \<Rightarrow> add_name lib i rng style ds | _ \<Rightarrow> ds)"
  by (cases t) (simp_all add: add_name_adds adds_refl)

lemma scan_aug_assign_adds:
  "adds lib (arm_sites lib cx il bs (S_AugAssign target is_add v)) [] False False ds (scan_aug_assign lib target is_add v ds)"
proof -
  define ds1 where "ds1 = (let ds = named_in_expr lib v ds
      in if is_all target \<and> is_add then ds\<lparr>ds_dunder_all := ds_dunder_all ds @ as_list v\<rparr> else ds)"
  have "adds lib (walrus_sites lib v) [] False False ds ds1"
    by (simp add: ds1_def named_in_expr_adds Let_def)
  from adds_sites_trans [OF this name_adds]
  have "adds lib (arm_sites lib cx il bs (S_AugAssign target is_add v)) [] False False ds
      (case target of E_Name i rng \<Rightarrow> add_name lib i rng (Unannotated SK_Variable) ds1 | _ \<Rightarrow> ds1)"
    by simp
  moreover have "scan_aug_assign lib target is_add v ds =
      (case target of E_Name i rng \<Rightarrow> add_name lib i rng (Unannotated SK_Variable) ds1 | _ \<Rightarrow> ds1)"
    by (simp only: scan_aug_assign_def ds1_def Let_def)
  ultimately show ?thesis by simp
qed

lemma scan_delete_target_adds:
  "adds lib (walrus_sites lib t @ name_sites Delete t) [] False False ds (scan_delete_target lib t ds)"
  unfolding scan_delete_target_def Let_def by (rule adds_sites_trans [OF named_in_expr_adds name_adds])

lemma scan_expr_adds: "adds lib (expr_sites lib (importlib_of ds) v) [] False False ds (scan_expr lib v ds)"
proof (cases "handle_import_module lib v ds")
  case (Some ds1)
  then show ?thesis
    by (cases v) (auto simp: scan_expr_def expr_sites_def handle_import_module_def add_name_adds)
next
  case None
  then have "expr_sites lib (importlib_of ds) v = walrus_sites lib v"
    by (cases v) (simp_all add: expr_sites_def handle_import_module_def)
  then show ?thesis using None named_in_expr_adds [of lib v ds]
    by (simp add: scan_expr_def Let_def split: option.split)
qed

lemma scan_with_item_adds:
  "adds lib (case item of (e, t) \<Rightarrow> walrus_sites lib e @ (case t of None \<Rightarrow> [] | Some x \<Rightarrow> target_sites lib x))
     [] False False ds (scan_with_item lib item ds)"
proof -
  obtain e t where item: "item = (e, t)" by fastforce
  have "adds lib (case t of None \<Rightarrow> [] | Some x \<Rightarrow> target_sites lib x) [] False False ds1
      (case t of None \<Rightarrow> ds1 | Some t \<Rightarrow> expr_lvalue lib t ds1)" for ds1
    by (simp add: adds_refl expr_lvalue_adds split: option.split)
  from adds_sites_trans [OF named_in_expr_adds this] show ?thesis
    by (simp add: item scan_with_item_def Let_def)
qed

text \<open>Every arm adds its sites.\<close>

lemma scan_arm_adds:
  assumes "ds_definitions ds = site_table lib bs"
  shows "adds lib (arm_sites lib cx (importlib_of ds) bs s) (star_sites lib cx s) (imports_importlib s)
    (imports_import_module lib cx s) ds (scan_arm lib cx s ds)"
proof (cases s)
  case (S_Import names)
  have "adds lib (concat (map (\<lambda>a. [import_sites lib a]) names)) (concat (map (\<lambda>_. []) names))
      (list_ex (\<lambda>a. is_importlib (fst (fst a))) names) (list_ex (\<lambda>_. False) names) ds
      (foldl (\<lambda>ds a. scan_import_alias lib cx a ds) ds names)"
    by (rule adds_foldl) (rule scan_import_alias_adds)
  moreover have "concat (map (\<lambda>a. [import_sites lib a]) names) = map (import_sites lib) names"
    by (induction names) simp_all
  ultimately show ?thesis by (simp add: S_Import list_ex_iff)
next
  case (S_ImportFrom rng rel level names)
  then show ?thesis using scan_import_from_adds [of lib cx "importlib_of ds" bs rng rel level names ds] by simp
next
  case (S_Assign targets v)
  then show ?thesis using scan_assign_adds [OF assms] by simp
next
  case (S_Match subject cases)
  have "adds lib (concat (map (\<lambda>(pattern, _). variables pattern) cases)) [] False False st
      (foldl (\<lambda>ds (pattern, _). add_identifiers lib (Unannotated SK_Variable) pattern ds) st cases)" for st
    by (rule adds_sites_foldl) (simp add: case_prod_unfold add_identifiers_adds)
  from adds_sites_trans [OF named_in_expr_adds this] show ?thesis by (simp add: S_Match)
next
  case (S_Try body handlers orelse finalbody)
  have "adds lib (concat (map (\<lambda>(name, _). case name of None \<Rightarrow> [] | Some i \<Rightarrow> variables [i]) handlers)) [] False False st
      (foldl (\<lambda>ds (name, _). case name of None \<Rightarrow> ds | Some i \<Rightarrow> add_identifier lib i (Unannotated SK_Variable) ds) st handlers)" for st
    by (rule adds_sites_foldl) (simp add: case_prod_unfold add_identifier_adds adds_refl split: option.split)
  then show ?thesis by (simp add: S_Try)
next
  case (S_TypeAlias name v)
  have "adds lib (case name of E_Name _ _ \<Rightarrow> target_sites lib name | _ \<Rightarrow> []) [] False False st
      (case name of E_Name _ _ \<Rightarrow> expr_lvalue lib name st | _ \<Rightarrow> st)" for st
    by (simp add: adds_refl expr_lvalue_adds split: src_expr.split)
  from adds_sites_trans [OF named_in_expr_adds this] show ?thesis by (simp add: S_TypeAlias Let_def)
next
  case (S_AnnAssign target v)
  then show ?thesis using scan_ann_assign_adds by simp
next
  case (S_AugAssign target is_add v)
  then show ?thesis using scan_aug_assign_adds by simp
next
  case (S_Delete targets)
  then show ?thesis by (simp add: adds_sites_foldl scan_delete_target_adds)
next
  case (S_With items body)
  then show ?thesis by (simp add: adds_sites_foldl scan_with_item_adds)
next
  case (S_For target iter body orelse)
  then show ?thesis using adds_sites_trans [OF named_in_expr_adds expr_lvalue_adds] by simp
next
  case (S_Assert test msg)
  then show ?thesis using adds_sites_trans [OF named_in_expr_adds named_in_option_adds] by simp
next
  case (S_Raise exc cause)
  then show ?thesis using adds_sites_trans [OF named_in_option_adds named_in_option_adds] by simp
qed (simp_all add: scan_class_def_adds scan_function_def_adds add_identifiers_adds scan_expr_adds named_in_expr_adds adds_refl)

section \<open>The scan as a whole\<close>

lemma foldl_concat_map:
  assumes "\<And>x st. x \<in> set xs \<Longrightarrow> f x st = foldl g st (r x)"
  shows "foldl (\<lambda>st x. f x st) st xs = foldl g st (concat (map r xs))"
  using assms by (induction xs arbitrary: st) simp_all

lemma scan_stmt_reached: "scan_stmt lib cx s ds = foldl (\<lambda>ds s. scan_arm lib cx s ds) ds (reached_of cx s)"
proof (induction cx s arbitrary: ds rule: reached_of.induct)
  case (1 cx s)
  let ?ts = "concat (scanned_suites cx s)"
  have "foldl (\<lambda>st x. scan_stmt lib cx x st) st ?ts =
      foldl (\<lambda>ds s. scan_arm lib cx s ds) st (concat (map (reached_of cx) ?ts))" for st
    by (rule foldl_concat_map) (rule 1)
  then show ?case
    unfolding scan_stmt.simps [of lib cx s] reached_of.simps [of cx s] run_all_map by simp
qed

lemma new_definitions_reached:
  "new_definitions lib cx body = foldl (\<lambda>ds s. scan_arm lib cx s ds) empty_definitions (reached_in cx body)"
  unfolding new_definitions_def scan_stmts_def run_all_map reached_in_def
  by (rule foldl_concat_map) (rule scan_stmt_reached)

lemma scan_arms_ok:
  fixes lib cx ss
  defines "ds \<equiv> foldl (\<lambda>ds s. scan_arm lib cx s ds) empty_definitions ss"
  shows "ds_definitions ds = site_table lib (sites_before lib cx (rev ss)) \<and>
    importlib_of ds = importlib_known lib cx (rev ss) \<and>
    ds_import_all ds = foldl (\<lambda>m (k, v). AList.update k v m) [] (concat (map (star_sites lib cx) ss))"
  unfolding ds_def
proof (induction ss rule: rev_induct)
  case Nil
  then show ?case by (simp add: empty_definitions_def site_table_def importlib_of_def importlib_known_def)
next
  case (snoc s ss)
  let ?ds = "foldl (\<lambda>ds s. scan_arm lib cx s ds) empty_definitions ss"
  have "adds lib (arm_sites lib cx (importlib_of ?ds) (sites_before lib cx (rev ss)) s) (star_sites lib cx s)
      (imports_importlib s) (imports_import_module lib cx s) ?ds (scan_arm lib cx s ?ds)"
    by (rule scan_arm_adds) (use snoc in blast)
  with snoc show ?case
    by (auto simp: adds_def site_table_append importlib_of_def importlib_known_def)
qed

lemma map_of_foldl_update: "map_of (foldl (\<lambda>m (k, v). AList.update k v m) t kvs) k =
    (case map_of (rev kvs) k of None \<Rightarrow> map_of t k | Some v \<Rightarrow> Some v)"
  by (induction kvs arbitrary: t) (auto simp: update_conv' map_add_def split: option.split)

lemma new_definitions_ok:
  assumes "orders_lawful lib"
  shows "case map_of (ds_definitions (new_definitions lib cx body)) x of
      None \<Rightarrow> \<forall>b \<in> set (sites_of lib cx body). bs_name b \<noteq> x
    | Some d \<Rightarrow> summarises lib d (filter (\<lambda>b. bs_name b = x) (sites_of lib cx body))"
  using site_table_ok [OF style_law [OF assms], where bs = "sites_of lib cx body" and x = x]
    scan_arms_ok [of lib cx "reached_in cx body"]
  by (auto simp: new_definitions_reached sites_of_def filter_empty_conv split: option.splits)

text \<open>
  C21: The table of a scope: a name is defined exactly when some statement that is reached binds it, with
  the style and position of the earliest of its sites of least style, the start of the first site in
  the text, and the flag for several sites; the star imports are those reached, each where it was last
  written; and \<open>importlib\<close> is known exactly when it was imported.
\<close>

theorem new_definitions_exact:
  assumes "orders_lawful lib"
  shows "(case map_of (ds_definitions (new_definitions lib cx body)) x of
      None \<Rightarrow> \<forall>b \<in> set (sites_of lib cx body). bs_name b \<noteq> x
    | Some d \<Rightarrow> summarises lib d (filter (\<lambda>b. bs_name b = x) (sites_of lib cx body))) \<and>
    map_of (ds_import_all (new_definitions lib cx body)) m =
      map_of (rev (concat (map (star_sites lib cx) (reached_in cx body)))) m \<and>
    importlib_of (new_definitions lib cx body) = importlib_known lib cx (reached_in cx body)"
proof (intro conjI)
  show "importlib_of (new_definitions lib cx body) = importlib_known lib cx (reached_in cx body)"
    using scan_arms_ok [of lib cx "reached_in cx body"]
    by (simp add: new_definitions_reached importlib_known_def list_ex_iff)
  show "map_of (ds_import_all (new_definitions lib cx body)) m =
      map_of (rev (concat (map (star_sites lib cx) (reached_in cx body)))) m"
    using scan_arms_ok [of lib cx "reached_in cx body"]
    by (simp add: new_definitions_reached map_of_foldl_update split: option.split)
qed (rule new_definitions_ok [OF assms])

text \<open>A module that imports a name, defines it over and deletes it in the branch of a guard.\<close>

fun plain_lvalue :: "src_expr \<Rightarrow> ident list" where
  "plain_lvalue (E_Name i rng) = [(i, rng)]"
| "plain_lvalue (E_Tuple elts) = concat (map plain_lvalue elts)"
| "plain_lvalue (E_List elts) = concat (map plain_lvalue elts)"
| "plain_lvalue _ = []"

fun kind_code :: "symbol_kind \<Rightarrow> string" where
  "kind_code SK_Class = ''0''"
| "kind_code SK_Function = ''1''"
| "kind_code SK_Method = ''2''"
| "kind_code SK_Variable = ''3''"
| "kind_code SK_Parameter = ''4''"
| "kind_code (SK_Other s) = CHR ''5'' # s"

definition plain_lib :: pyrefly_lib where
  "plain_lib =
     \<lparr>pl_relative = (\<lambda>m is_init level rel. if level = 0 then rel else None), pl_components = (\<lambda>m. [m]),
      pl_first_component = takeWhile (\<lambda>c. c \<noteq> dot), pl_lvalue = plain_lvalue, pl_docstring = (\<lambda>_. None),
      pl_symbol_cmp = (\<lambda>a b. cmp_of (kind_code a) (kind_code b)),
      pl_identifier_cmp = (\<lambda>a b. then_with (cmp_of (fst a) (fst b)) (cmp_of (snd a) (snd b))),
      pl_module_cmp = cmp_of, pl_name_cmp = cmp_of\<rparr>"

lemma kind_code_inject: "kind_code a = kind_code b \<longleftrightarrow> a = b"
  by (cases a; cases b; simp)

lemma plain_orders_lawful: "orders_lawful plain_lib"
proof -
  have inj: "lawful_cmp c (\<lambda>x. x)" if "lawful_cmp c k" "\<And>x y. k x = k y \<longleftrightarrow> x = y"
    for c :: "'a \<Rightarrow> 'a \<Rightarrow> ordering" and k :: "'a \<Rightarrow> 'b"
    using that(1) unfolding lawful_cmp_def that(2) .
  have "lawful_cmp (pl_symbol_cmp plain_lib) (\<lambda>x. x)"
    unfolding plain_lib_def pyrefly_lib.simps
    by (rule inj [OF lawful_comap [OF cmp_of.lawful_cmp_axioms]]) (rule kind_code_inject)
  moreover have "lawful_cmp (pl_identifier_cmp plain_lib) (\<lambda>x. x)"
    unfolding plain_lib_def pyrefly_lib.simps
    by (rule inj [OF lawful_then_with [OF lawful_comap [OF cmp_of.lawful_cmp_axioms, of fst]
          lawful_comap [OF cmp_of.lawful_cmp_axioms, of snd]]]) (simp add: prod_eq_iff)
  moreover have "lawful_cmp (pl_module_cmp plain_lib) (\<lambda>x. x)" "lawful_cmp (pl_name_cmp plain_lib) (\<lambda>x. x)"
    by (simp_all add: plain_lib_def cmp_of.lawful_cmp_axioms)
  ultimately show ?thesis by (simp add: orders_lawful_def)
qed

definition sample_scope :: "src_stmt list" where
  "sample_scope =
     [S_ImportFrom (0, 20) (Some ''lib'') 0 [((''f'', (16, 17)), None), ((''*'', (18, 19)), None)],
      S_Assign [E_Tuple [E_Name ''a'' (21, 22), E_Name ''f'' (24, 25)]] (E_Named (E_Name ''w'' (29, 30)) E_Lambda),
      S_Delete [E_Name ''a'' (40, 41)]]"

definition plain_scope :: scan_ctx where
  "plain_scope =
     \<lparr>sc_module = ''m'', sc_is_init = False, sc_is_stub = False, sc_sys_pruned = (\<lambda>tests. zip tests [0..<length tests]),
      sc_main_module = None\<rparr>"

lemma new_definitions_exact_witness:
  "(\<forall>x m. (case map_of (ds_definitions (new_definitions plain_lib plain_scope sample_scope)) x of
        None \<Rightarrow> \<forall>b \<in> set (sites_of plain_lib plain_scope sample_scope). bs_name b \<noteq> x
      | Some d \<Rightarrow> summarises plain_lib d (filter (\<lambda>b. bs_name b = x) (sites_of plain_lib plain_scope sample_scope))) \<and>
      map_of (ds_import_all (new_definitions plain_lib plain_scope sample_scope)) m =
        map_of (rev (concat (map (star_sites plain_lib plain_scope) (reached_in plain_scope sample_scope)))) m \<and>
      importlib_of (new_definitions plain_lib plain_scope sample_scope) =
        importlib_known plain_lib plain_scope (reached_in plain_scope sample_scope)) \<and>
   map (\<lambda>(x, d). (x, df_style d, df_range d, df_first_binding d, df_needs_anywhere d))
     (ds_definitions (new_definitions plain_lib plain_scope sample_scope)) =
   [(''f'', Unannotated SK_Variable, (24, 25), 16, True), (''w'', Unannotated SK_Variable, (29, 30), 29, False),
    (''a'', Unannotated SK_Variable, (21, 22), 21, True)]"
proof
  show "\<forall>x m. (case map_of (ds_definitions (new_definitions plain_lib plain_scope sample_scope)) x of
        None \<Rightarrow> \<forall>b \<in> set (sites_of plain_lib plain_scope sample_scope). bs_name b \<noteq> x
      | Some d \<Rightarrow> summarises plain_lib d (filter (\<lambda>b. bs_name b = x) (sites_of plain_lib plain_scope sample_scope))) \<and>
      map_of (ds_import_all (new_definitions plain_lib plain_scope sample_scope)) m =
        map_of (rev (concat (map (star_sites plain_lib plain_scope) (reached_in plain_scope sample_scope)))) m \<and>
      importlib_of (new_definitions plain_lib plain_scope sample_scope) =
        importlib_known plain_lib plain_scope (reached_in plain_scope sample_scope)"
    by (intro allI) (rule new_definitions_exact [OF plain_orders_lawful])
qed code_simp

end
