(* ===== verification/Export_Builder.thy ===== *)
theory Export_Builder
  imports Binding_Sites Exports
begin

text \<open>
  The exports of one module, built from its syntax tree (\<open>ExportsBuilder\<close> of \<open>src/exports.rs\<close>), and the
  names a stub declares (\<open>declared_stub_names\<close> of \<open>src/module_parser.rs\<close>). The evaluation of version and
  platform tests is the parameter \<open>sys_pruned\<close> of \<open>Config\<close>; there is no main module here.
\<close>

section \<open>Definitions as exports\<close>

record parsed_module =
  pm_name :: modname
  pm_is_init :: bool
  pm_is_stub :: bool
  pm_body :: "src_stmt list"

type_synonym prune_fn = "expr option list \<Rightarrow> (expr option \<times> nat) list"

definition module_ctx :: "prune_fn \<Rightarrow> parsed_module \<Rightarrow> scan_ctx" where
  "module_ctx sys_pruned m =
     \<lparr>sc_module = pm_name m, sc_is_init = pm_is_init m, sc_is_stub = pm_is_stub m, sc_sys_pruned = sys_pruned,
      sc_main_module = None\<rparr>"

fun symbol_kind_to_export_type :: "symbol_kind \<Rightarrow> export_type" where
  "symbol_kind_to_export_type SK_Class = ExportClass"
| "symbol_kind_to_export_type SK_Function = ExportFunction"
| "symbol_kind_to_export_type SK_Method = ExportFunction"
| "symbol_kind_to_export_type _ = ExportGlobal"

definition add_export :: "modname \<Rightarrow> export_type \<Rightarrow> exports \<Rightarrow> exports" where
  "add_export name typ e = e\<lparr>export_types := AList.update name typ (export_types e)\<rparr>"

definition add_re_export :: "import_graph option \<Rightarrow> attribute \<Rightarrow> attribute \<Rightarrow> text_range \<Rightarrow> exports \<Rightarrow> exports" where
  "add_re_export graph exported imported rng e =
     (let is_module = (case graph of None \<Rightarrow> False | Some g \<Rightarrow> ig_contains g (as_module_name imported))
      in if is_module then e
         else insert_re_export_entry (att_module exported) (att_name exported) imported rng e)"

definition process_definition :: "import_graph option \<Rightarrow> modname \<Rightarrow> string \<Rightarrow> py_definition \<Rightarrow> exports \<Rightarrow> exports" where
  "process_definition graph module name d e =
     (case df_style d of
        Unannotated kind \<Rightarrow> add_export (append_str module name) (symbol_kind_to_export_type kind) e
      | Annotated kind _ \<Rightarrow> add_export (append_str module name) (symbol_kind_to_export_type kind) e
      | Import from_module \<Rightarrow> add_re_export graph (Attribute module name) (Attribute from_module name) (df_range d) e
      | ImportAsEq from_module \<Rightarrow> add_re_export graph (Attribute module name) (Attribute from_module name) (df_range d) e
      | ImportAs from_module original_name \<Rightarrow>
          add_re_export graph (Attribute module name) (Attribute from_module original_name) (df_range d) e
      | _ \<Rightarrow> e)"

fun convert_entry :: "string list \<Rightarrow> dunder_all_entry \<Rightarrow> string list" where
  "convert_entry names (AllName _ name) = names @ [name]"
| "convert_entry names (AllRemove _ name) = filter (\<lambda>n. n \<noteq> name) names"
| "convert_entry names (AllModule _ _) = names"

definition convert_dunder_all :: "dunder_all_entry list \<Rightarrow> string list" where
  "convert_dunder_all dunder_all = foldl convert_entry [] dunder_all"

section \<open>Star imports in exception handlers\<close>

fun star_fallbacks :: "bool \<Rightarrow> src_stmt \<Rightarrow> text_range list" where
  "star_fallbacks in_handler (S_ImportFrom _ _ _ names) =
     (if in_handler then map (\<lambda>((_, rng), _). rng) (filter (\<lambda>((name, _), _). name = ''*'') names) else [])"
| "star_fallbacks in_handler (S_Try body handlers orelse finalbody) =
     concat (map (star_fallbacks in_handler) body) @
     concat (map (\<lambda>(_, handler). concat (map (star_fallbacks True) handler)) handlers) @
     concat (map (star_fallbacks in_handler) orelse) @ concat (map (star_fallbacks in_handler) finalbody)"
| "star_fallbacks in_handler (S_If _ branches) =
     concat (map (\<lambda>(_, body). concat (map (star_fallbacks in_handler) body)) branches)"
| "star_fallbacks in_handler (S_With _ body) = concat (map (star_fallbacks in_handler) body)"
| "star_fallbacks in_handler (S_For _ _ body orelse) =
     concat (map (star_fallbacks in_handler) body) @ concat (map (star_fallbacks in_handler) orelse)"
| "star_fallbacks in_handler (S_While _ body orelse) =
     concat (map (star_fallbacks in_handler) body) @ concat (map (star_fallbacks in_handler) orelse)"
| "star_fallbacks in_handler (S_Match _ cases) =
     concat (map (\<lambda>(_, body). concat (map (star_fallbacks in_handler) body)) cases)"
| "star_fallbacks in_handler _ = []"

definition star_ranges_in_except_handlers :: "src_stmt list \<Rightarrow> text_range list" where
  "star_ranges_in_except_handlers body = concat (map (star_fallbacks False) body)"

section \<open>Return types\<close>

definition alias_target :: "modname \<Rightarrow> string \<Rightarrow> modname" where
  "alias_target module original_name = (if original_name = module then module else append_str module original_name)"

definition resolve_return_type :: "modname \<Rightarrow> (string \<Rightarrow> definition_style option) \<Rightarrow> src_expr \<Rightarrow> modname option" where
  "resolve_return_type module style_of ann =
     (case ann of
        E_Name i _ \<Rightarrow>
          (case style_of i of
             None \<Rightarrow> Some (append_str builtins_name i)
           | Some (Unannotated SK_Class) \<Rightarrow> Some (append_str module i)
           | Some (Annotated SK_Class _) \<Rightarrow> Some (append_str module i)
           | Some (Import from_module) \<Rightarrow> Some (append_str from_module i)
           | Some (ImportAs from_module original_name) \<Rightarrow> Some (append_str from_module original_name)
           | Some (ImportAsEq from_module) \<Rightarrow> Some (append_str from_module i)
           | Some _ \<Rightarrow> None)
      | E_Attribute v attr \<Rightarrow>
          (case as_var_name v of
             None \<Rightarrow> None
           | Some base \<Rightarrow>
               (case style_of base of
                  Some (ImportModule _) \<Rightarrow> full_name ann
                | Some (Import from_module) \<Rightarrow> Some (append_str (append_str from_module base) attr)
                | Some (ImportAs from_module original_name) \<Rightarrow>
                    Some (append_str (alias_target from_module original_name) attr)
                | Some (ImportAsEq from_module) \<Rightarrow> Some (append_str (alias_target from_module base) attr)
                | _ \<Rightarrow> None))
      | _ \<Rightarrow> None)"

definition add_return_type :: "modname \<Rightarrow> modname \<Rightarrow> exports \<Rightarrow> exports" where
  "add_return_type func rt e = e\<lparr>return_types := AList.update func rt (return_types e)\<rparr>"

text \<open>All suites are visited but the bodies of functions, and a class opens a scope.\<close>

fun function_def :: "src_stmt \<Rightarrow> (string \<times> src_expr option) option" where
  "function_def (S_FunctionDef i _ returns _) = Some (fst i, returns)"
| "function_def _ = None"

fun scope_in :: "modname \<Rightarrow> src_stmt \<Rightarrow> modname" where
  "scope_in scope (S_ClassDef i _ _) = append_str scope (fst i)"
| "scope_in scope _ = scope"

function extract_return_type ::
  "modname \<Rightarrow> (string \<Rightarrow> definition_style option) \<Rightarrow> modname \<Rightarrow> src_stmt \<Rightarrow> exports \<Rightarrow> exports" where
  "extract_return_type module style_of scope s e =
     (case function_def s of
        Some (name, returns) \<Rightarrow>
          (case Option.bind returns (resolve_return_type module style_of) of
             None \<Rightarrow> e
           | Some rt \<Rightarrow> add_return_type (append_str scope name) rt e)
      | None \<Rightarrow> run_all (map (extract_return_type module style_of (scope_in scope s)) (concat (suites s))) e)"
  by pat_completeness auto
termination
  by (relation "measure (\<lambda>(module, style_of, scope, s, e). size s)") (auto intro: size_in_suites)

declare extract_return_type.simps [simp del]

definition extract_return_types ::
  "modname \<Rightarrow> (string \<Rightarrow> definition_style option) \<Rightarrow> modname \<Rightarrow> src_stmt list \<Rightarrow> exports \<Rightarrow> exports" where
  "extract_return_types module style_of scope body e =
     run_all (map (extract_return_type module style_of scope) body) e"

section \<open>The builder\<close>

definition build_exports :: "pyrefly_lib \<Rightarrow> prune_fn \<Rightarrow> import_graph option \<Rightarrow> parsed_module \<Rightarrow> exports" where
  "build_exports lib sys_pruned graph m =
     (let ds = new_definitions lib (module_ctx sys_pruned m) (pm_body m);
          e = foldl (\<lambda>e (name, d). process_definition graph (pm_name m) name d e) empty_exports (ds_definitions ds);
          e = (if ds_dunder_all ds \<noteq> []
               then e\<lparr>dunder_all_of := AList.update (pm_name m) (convert_dunder_all (ds_dunder_all ds)) (dunder_all_of e)\<rparr>
               else e);
          e = (if ds_import_all ds \<noteq> []
               then
                 (let fallbacks = star_ranges_in_except_handlers (pm_body m);
                      stars = map (\<lambda>(module, rng).
                        \<lparr>star_source = module, star_range = rng, is_fallback = rng \<in> set fallbacks\<rparr>) (ds_import_all ds)
                  in e\<lparr>star_imports := AList.update (pm_name m) stars (star_imports e)\<rparr>)
               else e)
      in if pm_is_stub m then extract_return_types (pm_name m) (style_of_name ds) (pm_name m) (pm_body m) e else e)"

definition new_exports :: "pyrefly_lib \<Rightarrow> prune_fn \<Rightarrow> import_graph \<Rightarrow> parsed_module \<Rightarrow> exports" where
  "new_exports lib sys_pruned g m = build_exports lib sys_pruned (Some g) m"

definition new_unfiltered :: "pyrefly_lib \<Rightarrow> prune_fn \<Rightarrow> parsed_module \<Rightarrow> exports" where
  "new_unfiltered lib sys_pruned m = build_exports lib sys_pruned None m"

text \<open>The public names a stub defines itself, sorted.\<close>

definition declared_stub_names :: "pyrefly_lib \<Rightarrow> prune_fn \<Rightarrow> modname \<Rightarrow> bool \<Rightarrow> src_stmt list \<Rightarrow> string list" where
  "declared_stub_names lib sys_pruned name is_init body =
     (let m = \<lparr>pm_name = name, pm_is_init = is_init, pm_is_stub = True, pm_body = body\<rparr>;
          ds = new_definitions lib (module_ctx sys_pruned m) body
      in sort_by (pl_name_cmp lib)
           (map fst (filter (\<lambda>(name, d). \<not> is_private_name name \<and> is_own_style (df_style d)) (ds_definitions ds))))"


section \<open>Filtering early or late\<close>

text \<open>What a definition is re-exported from.\<close>

fun import_target :: "string \<Rightarrow> definition_style \<Rightarrow> attribute option" where
  "import_target name (Import m) = Some (Attribute m name)"
| "import_target name (ImportAsEq m) = Some (Attribute m name)"
| "import_target name (ImportAs m original_name) = Some (Attribute m original_name)"
| "import_target name _ = None"

fun own_type :: "definition_style \<Rightarrow> export_type option" where
  "own_type (Unannotated kind) = Some (symbol_kind_to_export_type kind)"
| "own_type (Annotated kind _) = Some (symbol_kind_to_export_type kind)"
| "own_type _ = None"

definition own_entry :: "modname \<Rightarrow> string \<times> py_definition \<Rightarrow> (modname \<times> export_type) option" where
  "own_entry module xd = map_option (Pair (append_str module (fst xd))) (own_type (df_style (snd xd)))"

definition re_entry :: "import_graph option \<Rightarrow> string \<times> py_definition \<Rightarrow> (string \<times> attribute \<times> text_range) option" where
  "re_entry graph xd =
     (case import_target (fst xd) (df_style (snd xd)) of
        None \<Rightarrow> None
      | Some imp \<Rightarrow>
          (if (case graph of None \<Rightarrow> False | Some g \<Rightarrow> ig_contains g (as_module_name imp)) then None
           else Some (fst xd, imp, df_range (snd xd))))"

lemma update_new: "map_of m k = None \<Longrightarrow> AList.update k v m = m @ [(k, v)]"
  by (induction m) (auto split: if_splits)

lemma process_definition_eq:
  "process_definition graph module x d e =
     (case own_type (df_style d) of
        Some typ \<Rightarrow> add_export (append_str module x) typ e
      | None \<Rightarrow>
          (case re_entry graph (x, d) of
             Some (_, imp, rng) \<Rightarrow> insert_re_export_entry module x imp rng e
           | None \<Rightarrow> e))"
  by (cases "df_style d") (simp_all add: process_definition_def re_entry_def add_re_export_def Let_def split: option.split)

lemma map_filter_snoc [simp]:
  "List.map_filter f (xs @ [x]) = List.map_filter f xs @ (case f x of None \<Rightarrow> [] | Some y \<Rightarrow> [y])"
  by (simp add: map_filter_def split: option.split)

lemma own_entry_pair: "own_entry module (x, d) = map_option (Pair (append_str module x)) (own_type (df_style d))"
  by (simp add: own_entry_def)

lemma re_entry_name: "re_entry graph (x, d) = Some (y, v) \<Longrightarrow> y = x"
  by (simp add: re_entry_def split: option.splits if_splits)

lemma own_entry_keys: "fst ` set (List.map_filter (own_entry module) xs) \<subseteq> append_str module ` fst ` set xs"
  by (force simp: map_filter_def own_entry_def)

lemma re_entry_keys: "fst ` set (List.map_filter (re_entry graph) xs) \<subseteq> fst ` set xs"
  by (force simp: map_filter_def re_entry_def split: option.splits if_splits)

lemma own_not_re: "own_type s = Some t \<Longrightarrow> import_target x s = None"
  by (cases s) simp_all

text \<open>The tables of a module after its definitions.\<close>

lemma process_definitions:
  assumes "distinct (map fst xs)"
  shows "foldl (\<lambda>e (x, d). process_definition graph module x d e) empty_exports xs =
    (let inner = List.map_filter (re_entry graph) xs
     in empty_exports\<lparr>export_types := List.map_filter (own_entry module) xs,
          re_export_table := (if inner = [] then [] else [(module, inner)])\<rparr>)"
  using assms
proof (induction xs rule: rev_induct)
  case Nil
  then show ?case by (simp add: map_filter_def empty_exports_def)
next
  case (snoc xd xs)
  obtain x d where xd: "xd = (x, d)" by fastforce
  have fresh: "x \<notin> fst ` set xs" and dist: "distinct (map fst xs)" using snoc.prems by (simp_all add: xd)
  have own: "map_of (List.map_filter (own_entry module) xs) (append_str module x) = None"
    using own_entry_keys [of module xs] fresh by (auto simp: map_of_eq_None_iff append_str_def)
  have re: "map_of (List.map_filter (re_entry graph) xs) x = None"
    using re_entry_keys [of graph xs] fresh by (auto simp: map_of_eq_None_iff)
  let ?e = "foldl (\<lambda>e (x, d). process_definition graph module x d e) empty_exports xs"
  have last: "foldl (\<lambda>e (x, d). process_definition graph module x d e) empty_exports (xs @ [xd]) =
      process_definition graph module x d ?e"
    by (simp add: xd)
  show ?case
  proof (cases "own_type (df_style d)")
    case (Some t)
    then have "re_entry graph (x, d) = None" by (simp add: re_entry_def own_not_re)
    with Some own show ?thesis
      unfolding last snoc.IH [OF dist]
      by (simp add: xd process_definition_eq own_entry_pair Let_def add_export_def update_new)
  next
    case None
    then show ?thesis
      unfolding last snoc.IH [OF dist] using re
      by (cases "re_entry graph (x, d)")
        (auto simp: xd process_definition_eq own_entry_pair Let_def insert_re_export_entry_def nested_insert_def update_new dest: re_entry_name)
  qed
qed

lemma distinct_new_definitions: "distinct (map fst (ds_definitions (new_definitions lib cx body)))"
proof -
  have "distinct (map fst (site_table lib bs))" for bs
  proof (induction bs rule: rev_induct)
    case (snoc b bs)
    then show ?case by (simp add: site_table_def note_site_def distinct_update)
  qed (simp add: site_table_def)
  then show ?thesis using scan_arms_ok [of lib cx "reached_in cx body"] by (simp add: new_definitions_reached)
qed

lemma run_all_commute:
  assumes "\<And>x st. x \<in> set xs \<Longrightarrow> f x (h st) = h (f x st)"
  shows "run_all (map f xs) (h st) = h (run_all (map f xs) st)"
  using assms by (induction xs arbitrary: st) (simp_all add: run_all_def)

lemma extract_return_type_filter:
  "extract_return_type module style_of scope s (filter_module_re_exports g e) =
     filter_module_re_exports g (extract_return_type module style_of scope s e)"
proof (induction module style_of scope s e rule: extract_return_type.induct)
  case (1 module style_of scope s e)
  show ?case
  proof (cases "function_def s")
    case None
    have "run_all (map (extract_return_type module style_of (scope_in scope s)) (concat (suites s))) (filter_module_re_exports g e) =
        filter_module_re_exports g (run_all (map (extract_return_type module style_of (scope_in scope s)) (concat (suites s))) e)"
      by (rule run_all_commute) (rule 1 [OF None])
    then show ?thesis
      unfolding extract_return_type.simps [of module style_of scope s] by (simp add: None)
  next
    case (Some f)
    then show ?thesis
      unfolding extract_return_type.simps [of module style_of scope s]
      by (simp add: add_return_type_def filter_module_re_exports_def split: option.split prod.split)
  qed
qed

lemma extract_return_types_filter:
  "extract_return_types module style_of scope body (filter_module_re_exports g e) =
     filter_module_re_exports g (extract_return_types module style_of scope body e)"
  unfolding extract_return_types_def by (rule run_all_commute) (rule extract_return_type_filter)

lemma filter_other_tables [simp]:
  "filter_module_re_exports g (e\<lparr>dunder_all_of := x\<rparr>) = (filter_module_re_exports g e)\<lparr>dunder_all_of := x\<rparr>"
  "filter_module_re_exports g (e\<lparr>star_imports := y\<rparr>) = (filter_module_re_exports g e)\<lparr>star_imports := y\<rparr>"
  "dunder_all_of (filter_module_re_exports g e) = dunder_all_of e"
  "star_imports (filter_module_re_exports g e) = star_imports e"
  by (simp_all add: filter_module_re_exports_def)

lemma re_entries_filtered:
  "List.map_filter (re_entry (Some g)) xs =
     filter (\<lambda>(_, imp, _). \<not> ig_contains g (as_module_name imp)) (List.map_filter (re_entry None) xs)"
  by (induction xs) (auto simp: re_entry_def split: option.splits)

text \<open>
  C23: Building the exports of a module with the import graph at hand, so that no re-export of a module is
  taken in, gives the very tables that building them without a graph and filtering them later gives.
\<close>

theorem new_exports_filtered:
  "new_exports lib sys_pruned g m = filter_module_re_exports g (new_unfiltered lib sys_pruned m)"
proof -
  define ds where "ds = new_definitions lib (module_ctx sys_pruned m) (pm_body m)"
  define start where "start graph = foldl (\<lambda>e (x, d). process_definition graph (pm_name m) x d e) empty_exports (ds_definitions ds)" for graph
  have "distinct (map fst (ds_definitions ds))" unfolding ds_def by (rule distinct_new_definitions)
  from process_definitions [OF this]
  have "start (Some g) = filter_module_re_exports g (start None)"
    by (auto simp: start_def Let_def re_entries_filtered filter_module_re_exports_def)
  then show ?thesis
    unfolding new_exports_def new_unfiltered_def build_exports_def Let_def ds_def [symmetric] start_def [symmetric]
    by (simp flip: extract_return_types_filter)
qed


section \<open>Well-formed tables\<close>

lemma run_all_invariant:
  assumes "\<And>x st. x \<in> set xs \<Longrightarrow> P st \<Longrightarrow> P (f x st)" "P st"
  shows "P (run_all (map f xs) st)"
  using assms by (induction xs arbitrary: st) (simp_all add: run_all_def)

lemma extract_return_type_ok: "exports_ok e \<Longrightarrow> exports_ok (extract_return_type module style_of scope s e)"
proof (induction module style_of scope s e rule: extract_return_type.induct)
  case (1 module style_of scope s e)
  show ?case
  proof (cases "function_def s")
    case None
    have "exports_ok (run_all (map (extract_return_type module style_of (scope_in scope s)) (concat (suites s))) e)"
      by (rule run_all_invariant [where P = exports_ok, OF 1(1) [OF None] 1(2)])
    then show ?thesis unfolding extract_return_type.simps [of module style_of scope s] by (simp add: None)
  next
    case (Some f)
    obtain name returns where f: "f = (name, returns)" by fastforce
    have "exports_ok (add_return_type func rt e)" for func rt
      using 1(2) by (simp add: add_return_type_def exports_ok_def distinct_update)
    then show ?thesis
      unfolding extract_return_type.simps [of module style_of scope s] using 1(2)
      by (simp add: Some f split: option.split)
  qed
qed

lemma distinct_fst_map_filter:
  assumes "distinct (map fst xs)" "\<And>xd y. xd \<in> set xs \<Longrightarrow> f xd = Some y \<Longrightarrow> fst y = h (fst xd)" "inj h"
  shows "distinct (map fst (List.map_filter f xs))"
  using assms(1,2)
proof (induction xs)
  case (Cons xd xs)
  have keys: "fst ` set (List.map_filter f xs) \<subseteq> h ` fst ` set xs"
    using Cons.prems(2) by (force simp: map_filter_def)
  show ?case
  proof (cases "f xd")
    case (Some y)
    then have "fst y = h (fst xd)" using Cons.prems(2) by simp
    with keys Cons.prems(1) assms(3) have "fst y \<notin> fst ` set (List.map_filter f xs)" by (auto dest: injD)
    with Some Cons show ?thesis by (simp add: map_filter_simps)
  qed (use Cons in \<open>simp add: map_filter_simps\<close>)
qed (simp add: map_filter_def)

lemma build_exports_ok: "exports_ok (build_exports lib sys_pruned graph m)"
proof -
  define ds where "ds = new_definitions lib (module_ctx sys_pruned m) (pm_body m)"
  define start where "start = foldl (\<lambda>e (x, d). process_definition graph (pm_name m) x d e) empty_exports (ds_definitions ds)"
  have dist: "distinct (map fst (ds_definitions ds))" unfolding ds_def by (rule distinct_new_definitions)
  have "inj (append_str (pm_name m))" by (rule injI) (simp add: append_str_def)
  then have "distinct (map fst (List.map_filter (own_entry (pm_name m)) (ds_definitions ds)))"
    by (intro distinct_fst_map_filter [OF dist]) (auto simp: own_entry_def)
  moreover have "distinct (map fst (List.map_filter (re_entry graph) (ds_definitions ds)))"
    by (rule distinct_fst_map_filter [OF dist, where h = "\<lambda>x. x"]) (auto dest: re_entry_name)
  ultimately have start: "exports_ok start"
    using process_definitions [OF dist, of graph "pm_name m"]
    by (simp add: start_def Let_def exports_ok_def empty_exports_def)
  have "exports_ok (if pm_is_stub m then extract_return_types (pm_name m) (style_of_name ds) (pm_name m) (pm_body m) e else e)"
    if "exports_ok e" for e
    using that unfolding extract_return_types_def by (auto intro!: run_all_invariant [where P = exports_ok] extract_return_type_ok)
  moreover have "exports_ok (e\<lparr>dunder_all_of := AList.update k v (dunder_all_of e)\<rparr>)"
    "exports_ok (e\<lparr>star_imports := AList.update k w (star_imports e)\<rparr>)" if "exports_ok e" for e k v w
    using that by (auto simp: exports_ok_def distinct_update)
  ultimately show ?thesis
    using start unfolding build_exports_def Let_def ds_def [symmetric] start_def [symmetric] by simp
qed

end
