(* ===== verification/Import_Builder.thy ===== *)
theory Import_Builder
  imports Graph_Store Star_Exports Export_Builder
begin

text \<open>
  The construction of the import graph and of the merged exports (\<open>ImportGraphBuilder\<close> of
  \<open>src/imports.rs\<close>). The modules and their parser are a \<open>ModuleProvider\<close> (\<open>src/source_map.rs\<close>): a record of
  functions. Imports and exports are both read off the syntax tree the parser gives. Panics are
  \<open>None\<close>.
\<close>

section \<open>What is given\<close>

text \<open>A module that is not known is not parsed; one with a syntax error is an error.\<close>

record module_provider =
  mp_names :: "modname list"
  mp_parse :: "modname \<Rightarrow> (string + parsed_module) option"
  mp_is_stub :: "modname \<Rightarrow> bool"
  mp_overrides_source :: "modname \<Rightarrow> bool"

text \<open>
  The graph library, the configuration of the collector, \<open>ModuleName::parent\<close> of \<open>pyrefly\<close>, and how the
  parallel scans of the star expansion split the tables.
\<close>

record 'g build_env =
  be_digraph :: "'g digraph"
  be_lib :: pyrefly_lib
  be_sys_pruned :: "expr option list \<Rightarrow> (expr option \<times> nat) list"
  be_main_module :: "modname option"
  be_parent :: "modname \<Rightarrow> modname option"
  be_split :: "exports \<Rightarrow> (modname \<times> export_type) list list \<times> re_export_table list"

record collected_imports =
  ci_module :: modname
  ci_imports :: "modname list"
  ci_ambiguous :: "modname list"
  ci_main_guard_only :: "modname list"

record 'g built_graph =
  bg_graph :: "'g module_graph"
  bg_missing :: "(modname \<times> modname list) list"
  bg_ambiguous :: "(modname \<times> modname list) list"
  bg_main_guard_only :: "(modname \<times> modname list) list"

section \<open>The steps\<close>

definition add_nodes :: "'g digraph \<Rightarrow> modname list \<Rightarrow> 'g module_graph \<Rightarrow> 'g module_graph" where
  "add_nodes d names g = foldl (\<lambda>g name. add_node d name g) g names"

definition exports_of :: "'g build_env \<Rightarrow> parsed_module \<Rightarrow> exports" where
  "exports_of env m = new_unfiltered (be_lib env) (be_sys_pruned env) m"

lemma exports_of_ok [simp]: "exports_ok (exports_of env m)"
  by (simp add: exports_of_def new_unfiltered_def build_exports_ok)

definition collect_imports :: "'g build_env \<Rightarrow> 'g module_graph \<Rightarrow> modname \<Rightarrow> parsed_module \<Rightarrow> collected_imports" where
  "collect_imports env g name m =
     (case collect
             \<lparr>cx_module = name, cx_is_init = pm_is_init m, cx_contains = contains g, cx_relative = pl_relative (be_lib env),
              cx_sys_pruned = be_sys_pruned env, cx_main_module = be_main_module env\<rparr> (map erase_stmt (pm_body m)) of
        (imports, ambiguous, main_guard_only) \<Rightarrow>
          \<lparr>ci_module = name, ci_imports = imports, ci_ambiguous = ambiguous, ci_main_guard_only = main_guard_only\<rparr>)"

fun remove_unparseable_nodes :: "'g digraph \<Rightarrow> modname list \<Rightarrow> 'g module_graph \<Rightarrow> 'g module_graph option" where
  "remove_unparseable_nodes d [] g = Some g"
| "remove_unparseable_nodes d (name # names) g =
     Option.bind (remove_node d name g) (remove_unparseable_nodes d names)"

text \<open>\<open>map.entry(key).or_default()\<close>, extended by the given names.\<close>

definition entry_extend :: "modname \<Rightarrow> modname list \<Rightarrow> (modname \<times> modname list) list \<Rightarrow> (modname \<times> modname list) list" where
  "entry_extend key names m =
     AList.update key (List.union names (case map_of m key of None \<Rightarrow> [] | Some old \<Rightarrow> old)) m"

fun add_import_edges :: "'g digraph \<Rightarrow> modname \<Rightarrow> modname list \<Rightarrow> 'g built_graph \<Rightarrow> 'g built_graph option" where
  "add_import_edges d from [] b = Some b"
| "add_import_edges d from (to # tos) b =
     (case add_edge d from to (bg_graph b) of
        None \<Rightarrow> None
      | Some (g, added) \<Rightarrow>
          add_import_edges d from tos
            (if added then b\<lparr>bg_graph := g\<rparr>
             else b\<lparr>bg_graph := g, bg_missing := entry_extend from [to] (bg_missing b)\<rparr>))"

definition add_collected :: "'g digraph \<Rightarrow> collected_imports \<Rightarrow> 'g built_graph \<Rightarrow> 'g built_graph option" where
  "add_collected d c b =
     map_option (\<lambda>b.
       let b = (if ci_ambiguous c \<noteq> [] then b\<lparr>bg_ambiguous := entry_extend (ci_module c) (ci_ambiguous c) (bg_ambiguous b)\<rparr>
                else b)
       in if ci_main_guard_only c \<noteq> []
          then b\<lparr>bg_main_guard_only := entry_extend (ci_module c) (ci_main_guard_only c) (bg_main_guard_only b)\<rparr>
          else b)
       (add_import_edges d (ci_module c) (ci_imports c) b)"

fun add_all_collected :: "'g digraph \<Rightarrow> collected_imports list \<Rightarrow> 'g built_graph \<Rightarrow> 'g built_graph option" where
  "add_all_collected d [] b = Some b"
| "add_all_collected d (c # cs) b = Option.bind (add_collected d c b) (add_all_collected d cs)"

definition add_edges_and_finish :: "'g digraph \<Rightarrow> collected_imports list \<Rightarrow> 'g module_graph \<Rightarrow> 'g built_graph option" where
  "add_edges_and_finish d all_imports g =
     add_all_collected d all_imports \<lparr>bg_graph = g, bg_missing = [], bg_ambiguous = [], bg_main_guard_only = []\<rparr>"

section \<open>The graph of all modules\<close>

text \<open>One module of the parallel pass: not known, unparseable, or its imports.\<close>

definition import_result ::
  "'g build_env \<Rightarrow> module_provider \<Rightarrow> 'g module_graph \<Rightarrow> modname \<Rightarrow> (modname + collected_imports \<times> exports) option" where
  "import_result env sources g name =
     map_option (\<lambda>r. case r of Inl _ \<Rightarrow> Inl name | Inr m \<Rightarrow> Inr (collect_imports env g name m, exports_of env m))
       (mp_parse sources name)"

definition build :: "'g build_env \<Rightarrow> module_provider \<Rightarrow> 'g built_graph option" where
  "build env sources =
     (let d = be_digraph env;
          g = add_nodes d (mp_names sources) (new_graph d);
          results = List.map_filter (import_result env sources g) (mp_names sources);
          all_imports = List.map_filter (\<lambda>r. case r of Inl _ \<Rightarrow> None | Inr (c, _) \<Rightarrow> Some c) results;
          failures = List.map_filter (\<lambda>r. case r of Inl name \<Rightarrow> Some name | Inr _ \<Rightarrow> None) results
      in Option.bind (remove_unparseable_nodes d failures g) (add_edges_and_finish d all_imports))"

section \<open>The graph of the modules that are reached\<close>

definition seed_modules :: "module_provider \<Rightarrow> modname list" where
  "seed_modules sources =
     filter (\<lambda>name. name = ''builtins'' \<or> \<not> mp_is_stub sources name \<or> mp_overrides_source sources name)
       (mp_names sources)"

definition stub_children_of :: "'g build_env \<Rightarrow> module_provider \<Rightarrow> (modname \<times> modname list) list" where
  "stub_children_of env sources =
     foldl (\<lambda>m name.
        if mp_is_stub sources name then
          (case be_parent env name of
             None \<Rightarrow> m
           | Some parent \<Rightarrow>
               AList.update parent ((case map_of m parent of None \<Rightarrow> [] | Some ns \<Rightarrow> ns) @ [name]) m)
        else m) [] (mp_names sources)"

text \<open>A set of names and the next frontier; \<open>reached.insert\<close> says whether the name is new.\<close>

definition reach :: "modname list \<times> modname list \<Rightarrow> modname \<Rightarrow> modname list \<times> modname list" where
  "reach st name = (case st of (reached, frontier) \<Rightarrow>
     if name \<in> set reached then (reached, frontier) else (reached @ [name], frontier @ [name]))"

definition reach_in :: "'g module_graph \<Rightarrow> modname list \<times> modname list \<Rightarrow> modname \<Rightarrow> modname list \<times> modname list" where
  "reach_in g st name = (if contains g name then reach st name else st)"

record frontier_state =
  fr_reached :: "modname list"
  fr_frontier :: "modname list"
  fr_successes :: "(collected_imports \<times> exports) list"
  fr_unparseable :: "modname list"

definition take_result ::
  "'g module_graph \<Rightarrow> (modname \<times> modname list) list \<Rightarrow> frontier_state \<Rightarrow>
     modname + collected_imports \<times> exports \<Rightarrow> frontier_state" where
  "take_result g stub_children st result =
     (case result of
        Inl name \<Rightarrow> st\<lparr>fr_unparseable := fr_unparseable st @ [name]\<rparr>
      | Inr (imports, exports) \<Rightarrow>
          let children = (case map_of stub_children (ci_module imports) of None \<Rightarrow> [] | Some ns \<Rightarrow> ns);
              (reached, frontier) =
                foldl (reach_in g) (fr_reached st, fr_frontier st) (ci_imports imports @ children)
          in st\<lparr>fr_reached := reached, fr_frontier := frontier,
                fr_successes := fr_successes st @ [(imports, exports)]\<rparr>)"

definition frontier_round ::
  "'g build_env \<Rightarrow> module_provider \<Rightarrow> 'g module_graph \<Rightarrow> (modname \<times> modname list) list \<Rightarrow> frontier_state \<Rightarrow> frontier_state" where
  "frontier_round env sources g stub_children st =
     foldl (take_result g stub_children) (st\<lparr>fr_frontier := []\<rparr>)
       (List.map_filter (import_result env sources g) (fr_frontier st))"

section \<open>A round\<close>

definition stub_children :: "'g build_env \<Rightarrow> module_provider \<Rightarrow> modname \<Rightarrow> modname set" where
  "stub_children env sources m = {n \<in> set (mp_names sources). mp_is_stub sources n \<and> be_parent env n = Some m}"

lemma stub_children_of_ok:
  "set (case map_of (stub_children_of env sources) m of None \<Rightarrow> [] | Some ns \<Rightarrow> ns) = stub_children env sources m"
proof -
  define f where "f = (\<lambda>m name.
        if mp_is_stub sources name then
          (case be_parent env name of
             None \<Rightarrow> m
           | Some parent \<Rightarrow>
               AList.update parent ((case map_of m parent of None \<Rightarrow> [] | Some ns \<Rightarrow> ns) @ [name]) m)
        else m)"
  have "set (case map_of (foldl f t names) m of None \<Rightarrow> [] | Some ns \<Rightarrow> ns) =
      set (case map_of t m of None \<Rightarrow> [] | Some ns \<Rightarrow> ns) \<union>
      {n \<in> set names. mp_is_stub sources n \<and> be_parent env n = Some m}" for names t
  proof (induction names arbitrary: t)
    case (Cons name names)
    have "set (case map_of (f t name) m of None \<Rightarrow> [] | Some ns \<Rightarrow> ns) =
        set (case map_of t m of None \<Rightarrow> [] | Some ns \<Rightarrow> ns) \<union>
        (if mp_is_stub sources name \<and> be_parent env name = Some m then {name} else {})"
      by (auto simp: f_def update_conv' split: option.split)
    with Cons.IH [of "f t name"] show ?case by auto
  qed simp
  from this [of "[]" "mp_names sources"] show ?thesis
    by (simp add: stub_children_of_def f_def stub_children_def)
qed

lemma reach_in_fold:
  "\<exists>new. foldl (reach_in g) (r, f) ns = (r @ new, f @ new) \<and> distinct new \<and>
     set new = {n \<in> set ns. contains g n} - set r"
proof (induction ns arbitrary: r f)
  case (Cons n ns)
  show ?case
  proof (cases "contains g n \<and> n \<notin> set r")
    case True
    then have step: "reach_in g (r, f) n = (r @ [n], f @ [n])" by (simp add: reach_in_def reach_def)
    from Cons.IH [of "r @ [n]" "f @ [n]"] obtain new where new: "foldl (reach_in g) (r @ [n], f @ [n]) ns = (r @ [n] @ new, f @ [n] @ new)"
      "distinct new" "set new = {n \<in> set ns. contains g n} - set (r @ [n])" by auto
    show ?thesis using True new step by (intro exI [of _ "n # new"]) auto
  next
    case False
    then have "reach_in g (r, f) n = (r, f)" by (auto simp: reach_in_def reach_def)
    with Cons.IH [of r f] False show ?thesis by auto
  qed
qed simp

text \<open>The modules that a parsed module leads to.\<close>

definition leads_to :: "'g build_env \<Rightarrow> module_provider \<Rightarrow> 'g module_graph \<Rightarrow> modname \<Rightarrow> modname set" where
  "leads_to env sources g m =
     (case mp_parse sources m of
        Some (Inr p) \<Rightarrow>
          {n \<in> node_names g. n \<in> set (ci_imports (collect_imports env g m p)) \<union> stub_children env sources m}
      | _ \<Rightarrow> {})"

definition parsed_result :: "'g build_env \<Rightarrow> module_provider \<Rightarrow> 'g module_graph \<Rightarrow> modname \<Rightarrow> (collected_imports \<times> exports) option" where
  "parsed_result env sources g m =
     (case mp_parse sources m of Some (Inr p) \<Rightarrow> Some (collect_imports env g m p, exports_of env p) | _ \<Rightarrow> None)"

definition unparseable :: "module_provider \<Rightarrow> modname \<Rightarrow> bool" where
  "unparseable sources m \<longleftrightarrow> (\<exists>e. mp_parse sources m = Some (Inl e))"

lemma parsed_result_iff:
  "parsed_result env sources g m = Some r \<longleftrightarrow>
     (\<exists>p. mp_parse sources m = Some (Inr p) \<and> r = (collect_imports env g m p, exports_of env p))"
  by (auto simp: parsed_result_def split: option.splits sum.splits)

lemma ci_module_collect_imports [simp]: "ci_module (collect_imports env g name m) = name"
  by (simp add: collect_imports_def split: prod.split)

lemma take_results:
  "\<exists>new. foldl (take_result g (stub_children_of env sources)) st (List.map_filter (import_result env sources g) names) =
      \<lparr>fr_reached = fr_reached st @ new, fr_frontier = fr_frontier st @ new,
       fr_successes = fr_successes st @ List.map_filter (parsed_result env sources g) names,
       fr_unparseable = fr_unparseable st @ filter (unparseable sources) names\<rparr> \<and>
     distinct new \<and> set new = (\<Union>m\<in>set names. leads_to env sources g m) - set (fr_reached st)"
proof (induction names arbitrary: st)
  case Nil
  then show ?case by simp
next
  case (Cons m names)
  let ?take = "take_result g (stub_children_of env sources)"
  consider "mp_parse sources m = None" | e where "mp_parse sources m = Some (Inl e)"
    | p where "mp_parse sources m = Some (Inr p)"
    by (metis not_Some_eq old.sum.exhaust)
  then show ?case
  proof cases
    case 1
    then have "import_result env sources g m = None" "parsed_result env sources g m = None"
      "\<not> unparseable sources m" "leads_to env sources g m = {}"
      by (simp_all add: import_result_def parsed_result_def unparseable_def leads_to_def)
    then show ?thesis using Cons.IH [of st] by simp
  next
    case 2
    then have "import_result env sources g m = Some (Inl m)" "parsed_result env sources g m = None"
      "unparseable sources m" "leads_to env sources g m = {}"
      by (simp_all add: import_result_def parsed_result_def unparseable_def leads_to_def)
    then show ?thesis using Cons.IH [of "st\<lparr>fr_unparseable := fr_unparseable st @ [m]\<rparr>"]
      by (simp add: take_result_def)
  next
    case 3
    let ?c = "collect_imports env g m p"
    let ?ns = "ci_imports ?c @ (case map_of (stub_children_of env sources) m of None \<Rightarrow> [] | Some ns \<Rightarrow> ns)"
    obtain new1 where new1: "foldl (reach_in g) (fr_reached st, fr_frontier st) ?ns = (fr_reached st @ new1, fr_frontier st @ new1)"
      "distinct new1" "set new1 = {n \<in> set ?ns. contains g n} - set (fr_reached st)"
      using reach_in_fold by blast
    define st1 where "st1 = st\<lparr>fr_reached := fr_reached st @ new1, fr_frontier := fr_frontier st @ new1,
        fr_successes := fr_successes st @ [(?c, exports_of env p)]\<rparr>"
    obtain new2 where new2: "foldl ?take st1 (List.map_filter (import_result env sources g) names) =
      \<lparr>fr_reached = fr_reached st1 @ new2, fr_frontier = fr_frontier st1 @ new2,
       fr_successes = fr_successes st1 @ List.map_filter (parsed_result env sources g) names,
       fr_unparseable = fr_unparseable st1 @ filter (unparseable sources) names\<rparr>"
      "distinct new2" "set new2 = (\<Union>m\<in>set names. leads_to env sources g m) - set (fr_reached st1)"
      using Cons.IH [of st1] by blast
    have one: "import_result env sources g m = Some (Inr (?c, exports_of env p))"
      "parsed_result env sources g m = Some (?c, exports_of env p)" "\<not> unparseable sources m"
      using 3 by (simp_all add: import_result_def parsed_result_def unparseable_def)
    have "?take st (Inr (?c, exports_of env p)) = st1"
      using new1(1) by (simp add: take_result_def st1_def Let_def)
    moreover have "{n \<in> set ?ns. contains g n} = leads_to env sources g m"
      using 3 stub_children_of_ok [of env sources m] by (auto simp: leads_to_def contains_iff)
    ultimately have "foldl ?take st (List.map_filter (import_result env sources g) (m # names)) =
      \<lparr>fr_reached = fr_reached st @ new1 @ new2, fr_frontier = fr_frontier st @ new1 @ new2,
       fr_successes = fr_successes st @ List.map_filter (parsed_result env sources g) (m # names),
       fr_unparseable = fr_unparseable st @ filter (unparseable sources) (m # names)\<rparr>"
      "set new1 = leads_to env sources g m - set (fr_reached st)"
      using one new1(3) new2(1) by (simp_all add: st1_def)
    then show ?thesis
      using new1(2) new2(2,3) by (intro exI [of _ "new1 @ new2"]) (auto simp: st1_def)
  qed
qed

lemma frontier_round_ok:
  "\<exists>new. frontier_round env sources g (stub_children_of env sources) st =
      \<lparr>fr_reached = fr_reached st @ new, fr_frontier = new,
       fr_successes = fr_successes st @ List.map_filter (parsed_result env sources g) (fr_frontier st),
       fr_unparseable = fr_unparseable st @ filter (unparseable sources) (fr_frontier st)\<rparr> \<and>
     distinct new \<and> set new = (\<Union>m\<in>set (fr_frontier st). leads_to env sources g m) - set (fr_reached st)"
  using take_results [of g env sources "st\<lparr>fr_frontier := []\<rparr>" "fr_frontier st"]
  by (simp add: frontier_round_def)

lemma leads_to_nodes: "leads_to env sources g m \<subseteq> node_names g"
  by (auto simp: leads_to_def split: option.split sum.split)

lemma finite_node_names [simp]: "finite (node_names g)"
  by (simp add: node_names_def)

section \<open>The loop over the frontier\<close>

lemma frontier_round_shrinks:
  assumes "fr_frontier st \<noteq> []"
  shows "(frontier_round env sources g (stub_children_of env sources) st, st)
    \<in> measures [\<lambda>st. card (node_names g - set (fr_reached st)), \<lambda>st. if fr_frontier st = [] then 0 else 1]"
proof -
  obtain new where new: "frontier_round env sources g (stub_children_of env sources) st =
      \<lparr>fr_reached = fr_reached st @ new, fr_frontier = new,
       fr_successes = fr_successes st @ List.map_filter (parsed_result env sources g) (fr_frontier st),
       fr_unparseable = fr_unparseable st @ filter (unparseable sources) (fr_frontier st)\<rparr>"
    "set new = (\<Union>m\<in>set (fr_frontier st). leads_to env sources g m) - set (fr_reached st)"
    using frontier_round_ok [of env sources g st] by blast
  show ?thesis
  proof (cases new)
    case Nil
    then show ?thesis using assms by (simp add: new(1))
  next
    case (Cons n ns)
    then have "n \<in> (\<Union>m\<in>set (fr_frontier st). leads_to env sources g m) - set (fr_reached st)"
      unfolding new(2) [symmetric] by simp
    then have "n \<in> node_names g - set (fr_reached st)"
      using leads_to_nodes [of env sources g] by blast
    then have "card (node_names g - set (fr_reached st @ new)) < card (node_names g - set (fr_reached st))"
      using Cons by (intro psubset_card_mono) auto
    then show ?thesis by (simp add: new(1))
  qed
qed

text \<open>The children of the stubs are computed once; they are written out where they are used.\<close>

function frontier_loop :: "'g build_env \<Rightarrow> module_provider \<Rightarrow> 'g module_graph \<Rightarrow> frontier_state \<Rightarrow> frontier_state" where
  "frontier_loop env sources g st =
     (if fr_frontier st = [] then st
      else frontier_loop env sources g (frontier_round env sources g (stub_children_of env sources) st))"
  by pat_completeness auto
termination
proof (relation "measures [\<lambda>(env, sources, g, st). card (node_names g - set (fr_reached st)),
    \<lambda>(env, sources, g, st). if fr_frontier st = [] then 0 else 1]", goal_cases)
  case (2 env sources g st)
  from frontier_round_shrinks [OF this, of env sources g] show ?case by simp
qed simp

declare frontier_loop.simps [simp del]

definition start_frontier :: "module_provider \<Rightarrow> frontier_state" where
  "start_frontier sources =
     (case foldl reach ([], []) (seed_modules sources) of
        (reached, frontier) \<Rightarrow>
          \<lparr>fr_reached = reached, fr_frontier = frontier, fr_successes = [], fr_unparseable = []\<rparr>)"

text \<open>The finished graph, as its clients query it.\<close>

definition to_import_graph :: "'g digraph \<Rightarrow> 'g built_graph \<Rightarrow> import_graph" where
  "to_import_graph d b =
     \<lparr>ig_modules = map fst (mg_nodes (bg_graph b)),
      ig_imports = (\<lambda>m. the (neighbors d (bg_graph b) m)),
      ig_importers = (\<lambda>m. the (reverse_neighbors d (bg_graph b) m)),
      ig_missing = map_of (bg_missing b), ig_ambiguous = map_of (bg_ambiguous b)\<rparr>"

definition build_with_exports ::
  "'g build_env \<Rightarrow> module_provider \<Rightarrow> ('g built_graph \<times> exports \<times> modname list) option" where
  "build_with_exports env sources =
     (let d = be_digraph env;
          g = add_nodes d (mp_names sources) (new_graph d);
          st = frontier_loop env sources g (start_frontier sources)
      in Option.bind (remove_unparseable_nodes d (fr_unparseable st) g) (\<lambda>g.
         Option.bind (add_edges_and_finish d (map fst (fr_successes st)) g) (\<lambda>b.
         let import_graph = to_import_graph d b;
             merged = filter_module_re_exports import_graph (merge_all_exports (map snd (fr_successes st)))
         in map_option (\<lambda>exports. (b, exports, fr_reached st))
              (case be_split env merged of
                 (export_chunks, re_export_chunks) \<Rightarrow>
                   expand_star_re_exports export_chunks re_export_chunks import_graph merged))))"

section \<open>What is reached\<close>

inductive reaches :: "'g build_env \<Rightarrow> module_provider \<Rightarrow> 'g module_graph \<Rightarrow> modname \<Rightarrow> bool"
  for env sources g where
  seed: "m \<in> set (seed_modules sources) \<Longrightarrow> reaches env sources g m"
| follow: "reaches env sources g m \<Longrightarrow> n \<in> leads_to env sources g m \<Longrightarrow> reaches env sources g n"

definition frontier_inv :: "'g build_env \<Rightarrow> module_provider \<Rightarrow> 'g module_graph \<Rightarrow> frontier_state \<Rightarrow> bool" where
  "frontier_inv env sources g st \<longleftrightarrow>
     (\<exists>past. fr_reached st = past @ fr_frontier st \<and>
        fr_successes st = List.map_filter (parsed_result env sources g) past \<and>
        fr_unparseable st = filter (unparseable sources) past \<and>
        (\<forall>m\<in>set past. leads_to env sources g m \<subseteq> set (fr_reached st))) \<and>
     distinct (fr_reached st) \<and> set (seed_modules sources) \<subseteq> set (fr_reached st) \<and>
     (\<forall>m\<in>set (fr_reached st). reaches env sources g m)"

lemma frontier_round_inv:
  assumes "frontier_inv env sources g st"
  shows "frontier_inv env sources g (frontier_round env sources g (stub_children_of env sources) st)"
proof -
  from assms obtain past where past: "fr_reached st = past @ fr_frontier st"
    "fr_successes st = List.map_filter (parsed_result env sources g) past"
    "fr_unparseable st = filter (unparseable sources) past"
    "\<forall>m\<in>set past. leads_to env sources g m \<subseteq> set (fr_reached st)"
    and rest: "distinct (fr_reached st)" "set (seed_modules sources) \<subseteq> set (fr_reached st)"
      "\<forall>m\<in>set (fr_reached st). reaches env sources g m"
    unfolding frontier_inv_def by blast
  obtain new where new: "frontier_round env sources g (stub_children_of env sources) st =
      \<lparr>fr_reached = fr_reached st @ new, fr_frontier = new,
       fr_successes = fr_successes st @ List.map_filter (parsed_result env sources g) (fr_frontier st),
       fr_unparseable = fr_unparseable st @ filter (unparseable sources) (fr_frontier st)\<rparr>"
    "distinct new" "set new = (\<Union>m\<in>set (fr_frontier st). leads_to env sources g m) - set (fr_reached st)"
    using frontier_round_ok [of env sources g st] by blast
  have "reaches env sources g n" if "n \<in> set new" for n
    using that new(3) past(1) rest(3) by (auto intro: reaches.follow)
  then show ?thesis
    unfolding frontier_inv_def new(1) frontier_state.simps
    using past rest new(2,3)
    by (intro conjI exI [of _ "past @ fr_frontier st"]) (auto simp: map_filter_def)
qed

lemma start_frontier_inv: "frontier_inv env sources g (start_frontier sources)"
proof -
  have "\<exists>new. foldl reach (r, f) ns = (r @ new, f @ new) \<and> distinct new \<and> set new = set ns - set r" for r f ns
  proof (induction ns arbitrary: r f)
    case (Cons n ns)
    show ?case
    proof (cases "n \<in> set r")
      case True
      then have "reach (r, f) n = (r, f)" by (simp add: reach_def)
      with Cons.IH [of r f] True show ?thesis by auto
    next
      case False
      then have step: "reach (r, f) n = (r @ [n], f @ [n])" by (simp add: reach_def)
      from Cons.IH [of "r @ [n]" "f @ [n]"] obtain new where
        "foldl reach (r @ [n], f @ [n]) ns = (r @ [n] @ new, f @ [n] @ new)" "distinct new" "set new = set ns - set (r @ [n])"
        by auto
      with False step show ?thesis by (intro exI [of _ "n # new"]) auto
    qed
  qed simp
  from this [of "[]" "[]" "seed_modules sources"] obtain new where
    "foldl reach ([], []) (seed_modules sources) = (new, new)" "distinct new" "set new = set (seed_modules sources)"
    by auto
  then show ?thesis
    by (auto simp: frontier_inv_def start_frontier_def intro: reaches.seed exI [of _ "[]"])
qed

lemma frontier_loop_ok:
  assumes "frontier_inv env sources g st"
  defines "final \<equiv> frontier_loop env sources g st"
  shows "set (fr_reached final) = {m. reaches env sources g m} \<and> distinct (fr_reached final) \<and>
    fr_successes final = List.map_filter (parsed_result env sources g) (fr_reached final) \<and>
    fr_unparseable final = filter (unparseable sources) (fr_reached final)"
proof -
  have inv: "frontier_inv env sources g final \<and> fr_frontier final = []"
    unfolding final_def using assms(1)
  proof (induction env sources g st rule: frontier_loop.induct)
    case (1 env sources g st)
    show ?case
    proof (cases "fr_frontier st = []")
      case True
      then show ?thesis using "1.prems" by (simp add: frontier_loop.simps [of env sources g st])
    next
      case False
      then show ?thesis
        using "1.IH" [OF False frontier_round_inv [OF "1.prems"]] by (simp add: frontier_loop.simps [of env sources g st])
    qed
  qed
  then have closed: "\<forall>m\<in>set (fr_reached final). leads_to env sources g m \<subseteq> set (fr_reached final)"
    and seeds: "set (seed_modules sources) \<subseteq> set (fr_reached final)"
    unfolding frontier_inv_def by auto
  have "m \<in> set (fr_reached final)" if "reaches env sources g m" for m
    using that by (induction rule: reaches.induct) (use closed seeds in blast)+
  then show ?thesis using inv unfolding frontier_inv_def by auto
qed

section \<open>Nodes and edges\<close>

lemma add_nodes_ok:
  assumes "digraph_ok d weights edges" "store_ok weights edges g"
  shows "store_ok weights edges (add_nodes d names g) \<and> node_names (add_nodes d names g) = set names \<union> node_names g \<and>
    name_edges weights edges (add_nodes d names g) = name_edges weights edges g"
  using assms(2)
proof (induction names arbitrary: g)
  case (Cons n names)
  then show ?case
    using add_node_ok [OF assms(1) Cons.prems, of n] Cons.IH [of "add_node d n g"] by (simp add: add_nodes_def)
qed (simp add: add_nodes_def)

lemma remove_unparseable_nodes_ok:
  assumes "digraph_ok d weights edges" "store_ok weights edges g"
  shows "\<exists>g'. remove_unparseable_nodes d names g = Some g' \<and> store_ok weights edges g' \<and>
    node_names g' = node_names g - set names \<and>
    name_edges weights edges g' = {(a, b) \<in> name_edges weights edges g. a \<notin> set names \<and> b \<notin> set names}"
  using assms(2)
proof (induction names arbitrary: g)
  case (Cons n names)
  obtain g1 where g1: "remove_node d n g = Some g1" "store_ok weights edges g1" "node_names g1 = node_names g - {n}"
    "name_edges weights edges g1 = {(a, b) \<in> name_edges weights edges g. a \<noteq> n \<and> b \<noteq> n}"
    using remove_node_ok [OF assms(1) Cons.prems] by blast
  obtain g2 where "remove_unparseable_nodes d names g1 = Some g2" "store_ok weights edges g2"
    "node_names g2 = node_names g1 - set names"
    "name_edges weights edges g2 = {(a, b) \<in> name_edges weights edges g1. a \<notin> set names \<and> b \<notin> set names}"
    using Cons.IH [OF g1(2)] by blast
  with g1 show ?case by auto
qed simp

text \<open>The names a map of sets has for a key.\<close>

definition entry_of :: "(modname \<times> modname list) list \<Rightarrow> modname \<Rightarrow> modname set" where
  "entry_of m key = set (case map_of m key of None \<Rightarrow> [] | Some ns \<Rightarrow> ns)"

lemma entry_of_Nil [simp]: "entry_of [] key = {}"
  by (simp add: entry_of_def)

lemma entry_of_extend [simp]:
  "entry_of (entry_extend key names m) k = entry_of m k \<union> (if k = key then set names else {})"
  by (auto simp: entry_of_def entry_extend_def update_conv')

text \<open>What a graph says, apart from the indices of its nodes.\<close>

record graph_facts =
  gf_nodes :: "modname set"
  gf_edges :: "(modname \<times> modname) set"
  gf_missing :: "modname \<Rightarrow> modname set"
  gf_ambiguous :: "modname \<Rightarrow> modname set"
  gf_main_guard_only :: "modname \<Rightarrow> modname set"

definition facts_of :: "('g \<Rightarrow> modname list) \<Rightarrow> ('g \<Rightarrow> (nat \<times> nat) set) \<Rightarrow> 'g built_graph \<Rightarrow> graph_facts" where
  "facts_of weights edges b =
     \<lparr>gf_nodes = node_names (bg_graph b), gf_edges = name_edges weights edges (bg_graph b),
      gf_missing = entry_of (bg_missing b), gf_ambiguous = entry_of (bg_ambiguous b),
      gf_main_guard_only = entry_of (bg_main_guard_only b)\<rparr>"

lemma add_import_edges_ok:
  assumes "digraph_ok d weights edges" "store_ok weights edges (bg_graph b)" "from \<in> node_names (bg_graph b)"
  shows "\<exists>b'. add_import_edges d from tos b = Some b' \<and> store_ok weights edges (bg_graph b') \<and>
    facts_of weights edges b' = facts_of weights edges b
      \<lparr>gf_edges := name_edges weights edges (bg_graph b) \<union> {from} \<times> (set tos \<inter> node_names (bg_graph b)),
       gf_missing := (\<lambda>k. entry_of (bg_missing b) k \<union> (if k = from then set tos - node_names (bg_graph b) else {}))\<rparr>"
  using assms(2,3)
proof (induction tos arbitrary: b)
  case Nil
  then show ?case by (simp add: facts_of_def fun_eq_iff)
next
  case (Cons to tos)
  obtain g where g: "add_edge d from to (bg_graph b) = Some (g, to \<in> node_names (bg_graph b))" "store_ok weights edges g"
    "node_names g = node_names (bg_graph b)"
    "name_edges weights edges g = name_edges weights edges (bg_graph b) \<union> (if to \<in> node_names (bg_graph b) then {(from, to)} else {})"
    using add_edge_ok [OF assms(1) Cons.prems] by blast
  define b1 where "b1 = (if to \<in> node_names (bg_graph b) then b\<lparr>bg_graph := g\<rparr>
      else b\<lparr>bg_graph := g, bg_missing := entry_extend from [to] (bg_missing b)\<rparr>)"
  have b1: "bg_graph b1 = g" "bg_ambiguous b1 = bg_ambiguous b" "bg_main_guard_only b1 = bg_main_guard_only b"
    "entry_of (bg_missing b1) = (\<lambda>k. entry_of (bg_missing b) k \<union> (if k = from \<and> to \<notin> node_names (bg_graph b) then {to} else {}))"
    by (auto simp: b1_def fun_eq_iff)
  obtain b' where "add_import_edges d from tos b1 = Some b'" "store_ok weights edges (bg_graph b')"
    "facts_of weights edges b' = facts_of weights edges b1
      \<lparr>gf_edges := name_edges weights edges (bg_graph b1) \<union> {from} \<times> (set tos \<inter> node_names (bg_graph b1)),
       gf_missing := (\<lambda>k. entry_of (bg_missing b1) k \<union> (if k = from then set tos - node_names (bg_graph b1) else {}))\<rparr>"
    using Cons.IH [of b1] g(2,3) Cons.prems(2) b1(1) by auto
  moreover have "add_import_edges d from (to # tos) b = add_import_edges d from tos b1"
    by (simp add: g(1) b1_def)
  ultimately show ?case
    by (auto simp: facts_of_def b1 g(3,4) fun_eq_iff)
qed

text \<open>What one module adds.\<close>

definition with_collected :: "collected_imports \<Rightarrow> graph_facts \<Rightarrow> graph_facts" where
  "with_collected c f =
     f\<lparr>gf_edges := gf_edges f \<union> {ci_module c} \<times> (set (ci_imports c) \<inter> gf_nodes f),
       gf_missing := (\<lambda>k. gf_missing f k \<union> (if k = ci_module c then set (ci_imports c) - gf_nodes f else {})),
       gf_ambiguous := (\<lambda>k. gf_ambiguous f k \<union> (if k = ci_module c then set (ci_ambiguous c) else {})),
       gf_main_guard_only := (\<lambda>k. gf_main_guard_only f k \<union> (if k = ci_module c then set (ci_main_guard_only c) else {}))\<rparr>"

lemma add_collected_ok:
  assumes "digraph_ok d weights edges" "store_ok weights edges (bg_graph b)" "ci_module c \<in> node_names (bg_graph b)"
  shows "\<exists>b'. add_collected d c b = Some b' \<and> store_ok weights edges (bg_graph b') \<and>
    facts_of weights edges b' = with_collected c (facts_of weights edges b)"
proof -
  obtain b1 where b1: "add_import_edges d (ci_module c) (ci_imports c) b = Some b1" "store_ok weights edges (bg_graph b1)"
    "facts_of weights edges b1 = facts_of weights edges b
      \<lparr>gf_edges := name_edges weights edges (bg_graph b) \<union> {ci_module c} \<times> (set (ci_imports c) \<inter> node_names (bg_graph b)),
       gf_missing := (\<lambda>k. entry_of (bg_missing b) k \<union> (if k = ci_module c then set (ci_imports c) - node_names (bg_graph b) else {}))\<rparr>"
    using add_import_edges_ok [OF assms] by blast
  then show ?thesis
    by (auto simp: add_collected_def Let_def facts_of_def with_collected_def fun_eq_iff)
qed

lemma add_all_collected_ok:
  assumes "digraph_ok d weights edges" "store_ok weights edges (bg_graph b)" "ci_module ` set cs \<subseteq> node_names (bg_graph b)"
  shows "\<exists>b'. add_all_collected d cs b = Some b' \<and> store_ok weights edges (bg_graph b') \<and>
    facts_of weights edges b' = fold with_collected cs (facts_of weights edges b)"
  using assms(2,3)
proof (induction cs arbitrary: b)
  case (Cons c cs)
  obtain b1 where b1: "add_collected d c b = Some b1" "store_ok weights edges (bg_graph b1)"
    "facts_of weights edges b1 = with_collected c (facts_of weights edges b)"
    using add_collected_ok [OF assms(1) Cons.prems(1), of c] Cons.prems(2) by auto
  have "node_names (bg_graph b1) = node_names (bg_graph b)"
    using arg_cong [OF b1(3), of gf_nodes] by (simp add: with_collected_def facts_of_def)
  then show ?case using Cons.IH [OF b1(2)] Cons.prems(2) b1 by simp
qed simp

text \<open>What is found in a module that is parsed.\<close>

definition found :: "'g build_env \<Rightarrow> module_provider \<Rightarrow> 'g module_graph \<Rightarrow> (collected_imports \<Rightarrow> modname list) \<Rightarrow> modname \<Rightarrow> modname set" where
  "found env sources g part m =
     (case mp_parse sources m of Some (Inr p) \<Rightarrow> set (part (collect_imports env g m p)) | _ \<Rightarrow> {})"

text \<open>The graph that results when the modules of a set are parsed.\<close>

definition graph_of_parsed :: "'g build_env \<Rightarrow> module_provider \<Rightarrow> 'g module_graph \<Rightarrow> modname set \<Rightarrow> graph_facts" where
  "graph_of_parsed env sources g R =
     (let nodes = {m \<in> set (mp_names sources). \<not> (m \<in> R \<and> unparseable sources m)};
          got = (\<lambda>part m. if m \<in> R then found env sources g part m else {})
      in \<lparr>gf_nodes = nodes,
          gf_edges = {(m, n). n \<in> got ci_imports m \<and> n \<in> nodes},
          gf_missing = (\<lambda>m. got ci_imports m - nodes),
          gf_ambiguous = got ci_ambiguous, gf_main_guard_only = got ci_main_guard_only\<rparr>)"

lemma with_collected_sel [simp]:
  "gf_nodes (with_collected c f) = gf_nodes f"
  "gf_edges (with_collected c f) = gf_edges f \<union> {ci_module c} \<times> (set (ci_imports c) \<inter> gf_nodes f)"
  "gf_missing (with_collected c f) k = gf_missing f k \<union> (if k = ci_module c then set (ci_imports c) - gf_nodes f else {})"
  "gf_ambiguous (with_collected c f) k = gf_ambiguous f k \<union> (if k = ci_module c then set (ci_ambiguous c) else {})"
  "gf_main_guard_only (with_collected c f) k =
     gf_main_guard_only f k \<union> (if k = ci_module c then set (ci_main_guard_only c) else {})"
  by (simp_all add: with_collected_def)

lemma fold_with_collected:
  "gf_nodes (fold with_collected cs f) = gf_nodes f"
  "gf_edges (fold with_collected cs f) =
     gf_edges f \<union> {(m, n). n \<in> gf_nodes f \<and> (\<exists>c \<in> set cs. ci_module c = m \<and> n \<in> set (ci_imports c))}"
  "gf_missing (fold with_collected cs f) m =
     gf_missing f m \<union> ({n. \<exists>c \<in> set cs. ci_module c = m \<and> n \<in> set (ci_imports c)} - gf_nodes f)"
  "gf_ambiguous (fold with_collected cs f) m =
     gf_ambiguous f m \<union> {n. \<exists>c \<in> set cs. ci_module c = m \<and> n \<in> set (ci_ambiguous c)}"
  "gf_main_guard_only (fold with_collected cs f) m =
     gf_main_guard_only f m \<union> {n. \<exists>c \<in> set cs. ci_module c = m \<and> n \<in> set (ci_main_guard_only c)}"
proof -
  show nodes: "gf_nodes (fold with_collected cs f) = gf_nodes f" for f
    by (induction cs arbitrary: f) simp_all
  show "gf_edges (fold with_collected cs f) =
     gf_edges f \<union> {(m, n). n \<in> gf_nodes f \<and> (\<exists>c \<in> set cs. ci_module c = m \<and> n \<in> set (ci_imports c))}"
    by (induction cs arbitrary: f) auto
  show "gf_missing (fold with_collected cs f) m =
     gf_missing f m \<union> ({n. \<exists>c \<in> set cs. ci_module c = m \<and> n \<in> set (ci_imports c)} - gf_nodes f)"
    by (induction cs arbitrary: f) auto
  show "gf_ambiguous (fold with_collected cs f) m =
     gf_ambiguous f m \<union> {n. \<exists>c \<in> set cs. ci_module c = m \<and> n \<in> set (ci_ambiguous c)}"
    by (induction cs arbitrary: f) auto
  show "gf_main_guard_only (fold with_collected cs f) m =
     gf_main_guard_only f m \<union> {n. \<exists>c \<in> set cs. ci_module c = m \<and> n \<in> set (ci_main_guard_only c)}"
    by (induction cs arbitrary: f) auto
qed

lemma parsed_result_found:
  "(\<exists>c \<in> set (map fst (List.map_filter (parsed_result env sources g) ms)). ci_module c = m \<and> n \<in> set (part c)) \<longleftrightarrow>
     m \<in> set ms \<and> n \<in> found env sources g part m"
proof
  assume "\<exists>c \<in> set (map fst (List.map_filter (parsed_result env sources g) ms)). ci_module c = m \<and> n \<in> set (part c)"
  then obtain x r where "x \<in> set ms" "parsed_result env sources g x = Some r" "ci_module (fst r) = m" "n \<in> set (part (fst r))"
    by (auto simp: set_map_filter)
  then show "m \<in> set ms \<and> n \<in> found env sources g part m"
    by (auto simp: parsed_result_def found_def split: option.splits sum.splits)
next
  assume *: "m \<in> set ms \<and> n \<in> found env sources g part m"
  then obtain p where "mp_parse sources m = Some (Inr p)" "n \<in> set (part (collect_imports env g m p))"
    by (auto simp: found_def split: option.splits sum.splits)
  with * show "\<exists>c \<in> set (map fst (List.map_filter (parsed_result env sources g) ms)). ci_module c = m \<and> n \<in> set (part c)"
    by (force simp: set_map_filter parsed_result_def)
qed

lemma finish_ok:
  assumes "digraph_ok d weights edges" "set ms \<subseteq> set (mp_names sources)"
  defines "g \<equiv> add_nodes d (mp_names sources) (new_graph d)"
  shows "\<exists>g' b. remove_unparseable_nodes d (filter (unparseable sources) ms) g = Some g' \<and>
    add_edges_and_finish d (map fst (List.map_filter (parsed_result env sources g) ms)) g' = Some b \<and>
    store_ok weights edges (bg_graph b) \<and> facts_of weights edges b = graph_of_parsed env sources g (set ms)"
proof -
  let ?cs = "map fst (List.map_filter (parsed_result env sources g) ms)"
  have g: "store_ok weights edges g" "node_names g = set (mp_names sources)" "name_edges weights edges g = {}"
    using add_nodes_ok [OF assms(1)] new_graph_ok [OF assms(1)] by (auto simp: g_def)
  from remove_unparseable_nodes_ok [OF assms(1) g(1)] obtain g' where
    g': "remove_unparseable_nodes d (filter (unparseable sources) ms) g = Some g'" "store_ok weights edges g'"
      "node_names g' = node_names g - set (filter (unparseable sources) ms)" "name_edges weights edges g' = {}"
    using g(3) by blast
  have nodes: "node_names g' = {m \<in> set (mp_names sources). \<not> (m \<in> set ms \<and> unparseable sources m)}"
    using g'(3) g(2) by auto
  have "ci_module ` set ?cs \<subseteq> node_names g'"
  proof
    fix m assume "m \<in> ci_module ` set ?cs"
    then obtain p where "m \<in> set ms" "mp_parse sources m = Some (Inr p)"
      by (auto simp: set_map_filter parsed_result_iff)
    then show "m \<in> node_names g'" using assms(2) by (auto simp: nodes unparseable_def)
  qed
  with add_all_collected_ok [OF assms(1), of "\<lparr>bg_graph = g', bg_missing = [], bg_ambiguous = [], bg_main_guard_only = []\<rparr>" ?cs]
  obtain b where b: "add_edges_and_finish d ?cs g' = Some b" "store_ok weights edges (bg_graph b)"
    "facts_of weights edges b = fold with_collected ?cs
       (facts_of weights edges \<lparr>bg_graph = g', bg_missing = [], bg_ambiguous = [], bg_main_guard_only = []\<rparr>)"
    using g'(2) by (auto simp: add_edges_and_finish_def)
  have "facts_of weights edges b = graph_of_parsed env sources g (set ms)"
  proof (rule graph_facts.equality)
    note sel = fold_with_collected facts_of_def graph_facts.simps built_graph.simps parsed_result_found nodes g'(4)
      graph_of_parsed_def Let_def
    show "gf_nodes (facts_of weights edges b) = gf_nodes (graph_of_parsed env sources g (set ms))"
      unfolding b(3) unfolding sel by auto
    show "gf_edges (facts_of weights edges b) = gf_edges (graph_of_parsed env sources g (set ms))"
      unfolding b(3) unfolding sel by (auto split: if_splits)
    show "gf_missing (facts_of weights edges b) = gf_missing (graph_of_parsed env sources g (set ms))"
      "gf_ambiguous (facts_of weights edges b) = gf_ambiguous (graph_of_parsed env sources g (set ms))"
      "gf_main_guard_only (facts_of weights edges b) = gf_main_guard_only (graph_of_parsed env sources g (set ms))"
      by (rule ext, unfold b(3), unfold sel, auto simp: fun_eq_iff)+
  qed simp
  with g'(1) b(1,2) show ?thesis by blast
qed

section \<open>Re-resolving what is missing\<close>

fun resolve_targets :: "'g digraph \<Rightarrow> modname set \<Rightarrow> modname \<Rightarrow> modname list \<Rightarrow> 'g built_graph \<Rightarrow> 'g built_graph option" where
  "resolve_targets d known from [] b = Some b"
| "resolve_targets d known from (target # targets) b =
     (case resolve_to_known_module target known of
        Some resolved \<Rightarrow>
          (case try_add_edge d from resolved (bg_graph b) of
             None \<Rightarrow> None
           | Some (g, _) \<Rightarrow> resolve_targets d known from targets (b\<lparr>bg_graph := g\<rparr>))
      | None \<Rightarrow> resolve_targets d known from targets (b\<lparr>bg_missing := entry_extend from [target] (bg_missing b)\<rparr>))"

fun resolve_entries :: "'g digraph \<Rightarrow> modname set \<Rightarrow> (modname \<times> modname list) list \<Rightarrow> 'g built_graph \<Rightarrow> 'g built_graph option" where
  "resolve_entries d known [] b = Some b"
| "resolve_entries d known ((from, targets) # es) b =
     Option.bind (resolve_targets d known from targets b) (resolve_entries d known es)"

definition resolve_missing_to_known :: "'g digraph \<Rightarrow> 'g built_graph \<Rightarrow> 'g built_graph option" where
  "resolve_missing_to_known d b =
     resolve_entries d (node_names (bg_graph b)) (bg_missing b) (b\<lparr>bg_missing := []\<rparr>)"

lemma resolve_targets_ok:
  assumes "digraph_ok d weights edges" "store_ok weights edges (bg_graph b)" "from \<in> node_names (bg_graph b)"
    "known = node_names (bg_graph b)"
  shows "\<exists>b'. resolve_targets d known from targets b = Some b' \<and> store_ok weights edges (bg_graph b') \<and>
    node_names (bg_graph b') = known \<and>
    name_edges weights edges (bg_graph b') = name_edges weights edges (bg_graph b) \<union>
      {(from, r) |r. r \<noteq> from \<and> (\<exists>t \<in> set targets. resolve_to_known_module t known = Some r)} \<and>
    entry_of (bg_missing b') = (\<lambda>k. entry_of (bg_missing b) k \<union>
      (if k = from then {t \<in> set targets. resolve_to_known_module t known = None} else {}))"
  using assms(2-4)
proof (induction targets arbitrary: b)
  case Nil
  then show ?case by (simp add: fun_eq_iff)
next
  case (Cons t targets)
  show ?case
  proof (cases "resolve_to_known_module t known")
    case None
    define b1 where "b1 = b\<lparr>bg_missing := entry_extend from [t] (bg_missing b)\<rparr>"
    have "entry_of (bg_missing b1) = (\<lambda>k. entry_of (bg_missing b) k \<union> (if k = from then {t} else {}))"
      by (auto simp: b1_def fun_eq_iff)
    moreover have "bg_graph b1 = bg_graph b" by (simp add: b1_def)
    ultimately show ?thesis using Cons.IH [of b1] Cons.prems None by (auto simp: b1_def [symmetric] fun_eq_iff)
  next
    case (Some r)
    then have "r \<in> known" unfolding resolve_to_known_module_iff nearest_known_def by blast
    moreover obtain g added where g: "try_add_edge d from r (bg_graph b) = Some (g, added)" "store_ok weights edges g"
      "node_names g = node_names (bg_graph b)"
      "added = (r \<in> node_names (bg_graph b) \<and> from \<noteq> r \<and> (from, r) \<notin> name_edges weights edges (bg_graph b))"
      "name_edges weights edges g = name_edges weights edges (bg_graph b) \<union> (if added then {(from, r)} else {})"
      using try_add_edge_ok [OF assms(1) Cons.prems(1,2)] by blast
    ultimately have "name_edges weights edges g = name_edges weights edges (bg_graph b) \<union> {(from, r) |_::unit. r \<noteq> from}"
      using Cons.prems(3) by auto
    then show ?thesis using Cons.IH [of "b\<lparr>bg_graph := g\<rparr>"] Cons.prems Some g(1-3) by (auto simp: fun_eq_iff)
  qed
qed

text \<open>
  A missing import becomes an edge to its nearest known package, if that is not the importer itself, and
  stays missing where there is none.
\<close>

lemma resolve_missing_to_known_exact:
  assumes "digraph_ok d weights edges" "store_ok weights edges (bg_graph b)"
    "fst ` set (bg_missing b) \<subseteq> node_names (bg_graph b)" "distinct (map fst (bg_missing b))"
  defines "known \<equiv> node_names (bg_graph b)"
  shows "\<exists>b'. resolve_missing_to_known d b = Some b' \<and> store_ok weights edges (bg_graph b') \<and>
    node_names (bg_graph b') = known \<and>
    name_edges weights edges (bg_graph b') = name_edges weights edges (bg_graph b) \<union>
      {(m, r). r \<noteq> m \<and> (\<exists>t \<in> entry_of (bg_missing b) m. nearest_known t known r)} \<and>
    entry_of (bg_missing b') = (\<lambda>m. {t \<in> entry_of (bg_missing b) m. \<nexists>r. nearest_known t known r})"
proof -
  have gen: "\<exists>b'. resolve_entries d known es b = Some b' \<and> store_ok weights edges (bg_graph b') \<and>
      node_names (bg_graph b') = known \<and>
      name_edges weights edges (bg_graph b') = name_edges weights edges (bg_graph b) \<union>
        {(m, r). r \<noteq> m \<and> (\<exists>ts t. (m, ts) \<in> set es \<and> t \<in> set ts \<and> resolve_to_known_module t known = Some r)} \<and>
      entry_of (bg_missing b') = (\<lambda>m. entry_of (bg_missing b) m \<union>
        {t. \<exists>ts. (m, ts) \<in> set es \<and> t \<in> set ts \<and> resolve_to_known_module t known = None})"
    if "store_ok weights edges (bg_graph b)" "node_names (bg_graph b) = known" "fst ` set es \<subseteq> known" for es b
    using that
  proof (induction es arbitrary: b)
    case Nil
    then show ?case by simp
  next
    case (Cons e es)
    obtain m ts where e: "e = (m, ts)" by fastforce
    have m_known: "m \<in> node_names (bg_graph b)" and es_known: "fst ` set es \<subseteq> known"
      using Cons.prems(2,3) by (simp_all add: e)
    obtain b1 where b1: "resolve_targets d known m ts b = Some b1" "store_ok weights edges (bg_graph b1)"
      "node_names (bg_graph b1) = known"
      "name_edges weights edges (bg_graph b1) = name_edges weights edges (bg_graph b) \<union>
        {(m, r) |r. r \<noteq> m \<and> (\<exists>t \<in> set ts. resolve_to_known_module t known = Some r)}"
      "entry_of (bg_missing b1) = (\<lambda>k. entry_of (bg_missing b) k \<union>
        (if k = m then {t \<in> set ts. resolve_to_known_module t known = None} else {}))"
      using resolve_targets_ok [OF assms(1) Cons.prems(1) m_known Cons.prems(2) [symmetric], of ts] by blast
    obtain b2 where b2: "resolve_entries d known es b1 = Some b2" "store_ok weights edges (bg_graph b2)"
      "node_names (bg_graph b2) = known"
      "name_edges weights edges (bg_graph b2) = name_edges weights edges (bg_graph b1) \<union>
        {(m, r). r \<noteq> m \<and> (\<exists>ts t. (m, ts) \<in> set es \<and> t \<in> set ts \<and> resolve_to_known_module t known = Some r)}"
      "entry_of (bg_missing b2) = (\<lambda>m. entry_of (bg_missing b1) m \<union>
        {t. \<exists>ts. (m, ts) \<in> set es \<and> t \<in> set ts \<and> resolve_to_known_module t known = None})"
      using Cons.IH [OF b1(2,3) es_known] by blast
    have "resolve_entries d known (e # es) b = Some b2" by (simp add: e b1(1) b2(1))
    moreover have "name_edges weights edges (bg_graph b2) = name_edges weights edges (bg_graph b) \<union>
        {(m, r). r \<noteq> m \<and> (\<exists>ts t. (m, ts) \<in> set (e # es) \<and> t \<in> set ts \<and> resolve_to_known_module t known = Some r)}"
      unfolding b2(4) b1(4) e by auto
    moreover have "entry_of (bg_missing b2) = (\<lambda>m. entry_of (bg_missing b) m \<union>
        {t. \<exists>ts. (m, ts) \<in> set (e # es) \<and> t \<in> set ts \<and> resolve_to_known_module t known = None})"
      unfolding b2(5) b1(5) e by (rule ext) auto
    ultimately show ?case using b2(2,3) by blast
  qed
  have es_iff: "(\<exists>ts. (m, ts) \<in> set (bg_missing b) \<and> t \<in> set ts \<and> P t) \<longleftrightarrow> t \<in> entry_of (bg_missing b) m \<and> P t" for m t P
    using assms(4) by (auto simp: entry_of_def dest: map_of_SomeD split: option.splits)
  have none: "resolve_to_known_module t known = None \<longleftrightarrow> (\<nexists>r. nearest_known t known r)" for t
    unfolding resolve_to_known_module_iff [symmetric] by simp
  have edges_eq: "{(m, r). r \<noteq> m \<and> (\<exists>ts t. (m, ts) \<in> set (bg_missing b) \<and> t \<in> set ts \<and>
        resolve_to_known_module t known = Some r)} =
      {(m, r). r \<noteq> m \<and> (\<exists>t \<in> entry_of (bg_missing b) m. nearest_known t known r)}"
    using es_iff [of _ _ "\<lambda>t. nearest_known t known _"] by (fastforce simp: resolve_to_known_module_iff)
  have missing_eq: "(\<lambda>m. entry_of (bg_missing (b\<lparr>bg_missing := []\<rparr>)) m \<union>
        {t. \<exists>ts. (m, ts) \<in> set (bg_missing b) \<and> t \<in> set ts \<and> resolve_to_known_module t known = None}) =
      (\<lambda>m. {t \<in> entry_of (bg_missing b) m. \<nexists>r. nearest_known t known r})"
    using es_iff [of _ _ "\<lambda>t. \<nexists>r. nearest_known t known r"] unfolding none
    by (intro ext set_eqI) (simp add: entry_of_def)
  have "store_ok weights edges (bg_graph (b\<lparr>bg_missing := []\<rparr>))" "node_names (bg_graph (b\<lparr>bg_missing := []\<rparr>)) = known"
    "fst ` set (bg_missing b) \<subseteq> known"
    using assms(2,3) by (simp_all add: known_def)
  from gen [OF this] show ?thesis
    unfolding resolve_missing_to_known_def known_def [symmetric] edges_eq missing_eq by simp
qed

section \<open>Results\<close>

text \<open>The graph that is built satisfies what its clients assume of it.\<close>

lemma to_import_graph_ok:
  assumes "digraph_ok d weights edges" "store_ok weights edges (bg_graph b)"
  shows "graph_ok (to_import_graph d b) \<and> set (ig_modules (to_import_graph d b)) = gf_nodes (facts_of weights edges b) \<and>
    (\<forall>m. set (ig_imports (to_import_graph d b) m) = {n. (m, n) \<in> gf_edges (facts_of weights edges b)})"
proof -
  have next_of: "set (the (neighbors d (bg_graph b) m)) = {n. (m, n) \<in> name_edges weights edges (bg_graph b)}"
    "set (the (reverse_neighbors d (bg_graph b) m)) = {n. (n, m) \<in> name_edges weights edges (bg_graph b)}" for m
    using find_edges_ok [OF assms, of m] by auto
  then show ?thesis
    using name_edges_nodes [OF assms(2)]
    by (auto simp: graph_ok_def to_import_graph_def facts_of_def node_names_def)
qed

lemma build_exact:
  assumes "digraph_ok (be_digraph env) weights edges"
  shows "\<exists>b. build env sources = Some b \<and> store_ok weights edges (bg_graph b) \<and>
    facts_of weights edges b =
      graph_of_parsed env sources (add_nodes (be_digraph env) (mp_names sources) (new_graph (be_digraph env))) (set (mp_names sources))"
proof -
  let ?d = "be_digraph env"
  let ?g = "add_nodes ?d (mp_names sources) (new_graph ?d)"
  have results: "List.map_filter (\<lambda>r. case r of Inl _ \<Rightarrow> None | Inr (c, _) \<Rightarrow> Some c) (List.map_filter (import_result env sources ?g) ms) =
        map fst (List.map_filter (parsed_result env sources ?g) ms)"
    "List.map_filter (\<lambda>r. case r of Inl name \<Rightarrow> Some name | Inr _ \<Rightarrow> None) (List.map_filter (import_result env sources ?g) ms) =
        filter (unparseable sources) ms" for ms
    by (induction ms)
      (auto simp: import_result_def parsed_result_def unparseable_def map_filter_def split: option.splits sum.splits)
  from finish_ok [OF assms order_refl, of sources env] obtain g' b where
    "remove_unparseable_nodes ?d (filter (unparseable sources) (mp_names sources)) ?g = Some g'"
    "add_edges_and_finish ?d (map fst (List.map_filter (parsed_result env sources ?g) (mp_names sources))) g' = Some b"
    "store_ok weights edges (bg_graph b) \<and> facts_of weights edges b = graph_of_parsed env sources ?g (set (mp_names sources))"
    by blast
  then show ?thesis unfolding build_def Let_def results by simp
qed

lemma filter_module_re_exports_ok: "exports_ok e \<Longrightarrow> exports_ok (filter_module_re_exports g e)"
  by (auto simp: exports_ok_def filter_module_re_exports_def distinct_map_filter case_prod_unfold comp_def
      intro!: distinct_map_filter)

lemma reaches_provided:
  assumes "reaches env sources g m" "node_names g \<subseteq> set (mp_names sources)"
  shows "m \<in> set (mp_names sources)"
  using assms
proof (induction rule: reaches.induct)
  case (follow m n)
  then show ?case using leads_to_nodes by blast
qed (auto simp: seed_modules_def)

text \<open>
  C7: Building the graph with the exports always ends with a result: the modules that are parsed are
  exactly those reached from the source files and \<open>builtins\<close> along imports and stub submodules; the graph
  has every known module as a node, except those reached that do not parse; the edges of a module
  are its imports that are nodes, the other ones are recorded as missing; and the graph is one its
  clients can rely on.
\<close>

theorem build_with_exports_exact:
  assumes "digraph_ok (be_digraph env) weights edges"
    "\<And>e. set (concat (fst (be_split env e))) = set (export_types e) \<and> set (concat (snd (be_split env e))) = set (re_export_table e)"
  shows "let g = add_nodes (be_digraph env) (mp_names sources) (new_graph (be_digraph env))
    in \<exists>b exports reached. build_with_exports env sources = Some (b, exports, reached) \<and>
         set reached = {m. reaches env sources g m} \<and>
         facts_of weights edges b = graph_of_parsed env sources g (set reached) \<and>
         graph_ok (to_import_graph (be_digraph env) b)"
proof -
  let ?d = "be_digraph env"
  define g where "g = add_nodes ?d (mp_names sources) (new_graph ?d)"
  define st where "st = frontier_loop env sources g (start_frontier sources)"
  have nodes: "node_names g = set (mp_names sources)"
    using add_nodes_ok [OF assms(1)] new_graph_ok [OF assms(1)] by (auto simp: g_def)
  have st: "set (fr_reached st) = {m. reaches env sources g m}"
    "fr_successes st = List.map_filter (parsed_result env sources g) (fr_reached st)"
    "fr_unparseable st = filter (unparseable sources) (fr_reached st)"
    using frontier_loop_ok [OF start_frontier_inv, of env sources g] by (auto simp: st_def)
  have known: "set (fr_reached st) \<subseteq> set (mp_names sources)"
    using st(1) reaches_provided [of env sources g] nodes by auto
  from finish_ok [OF assms(1) known, of env] obtain g' b where
    g': "remove_unparseable_nodes ?d (fr_unparseable st) g = Some g'"
    and b: "add_edges_and_finish ?d (map fst (fr_successes st)) g' = Some b" "store_ok weights edges (bg_graph b)"
      "facts_of weights edges b = graph_of_parsed env sources g (set (fr_reached st))"
    unfolding st(2,3) g_def by blast
  define merged where "merged = filter_module_re_exports (to_import_graph ?d b) (merge_all_exports (map snd (fr_successes st)))"
  have "\<forall>e \<in> set (map snd (fr_successes st)). exports_ok e"
    by (auto simp: st(2) set_map_filter parsed_result_iff)
  then have "exports_ok merged"
    unfolding merged_def by (intro filter_module_re_exports_ok merge_all_exports_ok)
  from expand_star_returns [OF this, of "fst (be_split env merged)" "snd (be_split env merged)" "to_import_graph ?d b"] assms(2)
  obtain exports where "expand_star_re_exports (fst (be_split env merged)) (snd (be_split env merged)) (to_import_graph ?d b) merged = Some exports"
    by blast
  then have "build_with_exports env sources = Some (b, exports, fr_reached st)"
    unfolding build_with_exports_def Let_def g_def [symmetric] st_def [symmetric]
    by (simp add: g' b(1) merged_def [symmetric] case_prod_unfold)
  with st(1) b(3) to_import_graph_ok [OF assms(1) b(2)] show ?thesis
    unfolding g_def [symmetric] Let_def by blast
qed

text \<open>A source file that imports a stub with a submodule and a name nobody provides, and a broken one.\<close>

definition sample_source :: "modname \<Rightarrow> src_stmt list \<Rightarrow> string + parsed_module" where
  "sample_source name body = Inr \<lparr>pm_name = name, pm_is_init = False, pm_is_stub = False, pm_body = body\<rparr>"

definition sample_provider :: module_provider where
  "sample_provider =
     \<lparr>mp_names = [''app'', ''broken'', ''os'', ''os.path'', ''sys'', ''builtins''],
      mp_parse = map_of
        [(''app'', sample_source ''app''
            [S_Import [((''os'', (7, 9)), None)],
             S_If (E_Other []) [(Some (Compare (Name ''__name__'') [Eq] [SimpleString ''__main__'']),
               [S_ImportFrom (40, 60) (Some ''lib'') 0 [((''run'', (56, 59)), None)]])],
             S_ClassDef (''App'', (67, 70)) [] []]),
         (''broken'', Inl ''syntax error''), (''os'', sample_source ''os'' []), (''os.path'', sample_source ''os.path'' []),
         (''sys'', sample_source ''sys'' []), (''builtins'', sample_source ''builtins'' [])],
      mp_is_stub = (\<lambda>m. m \<in> set [''os'', ''os.path'', ''sys'', ''builtins'']),
      mp_overrides_source = (\<lambda>_. False)\<rparr>"

definition sample_env :: "(modname list \<times> (nat \<times> nat) list) build_env" where
  "sample_env =
     \<lparr>be_digraph = list_digraph, be_lib = plain_lib,
      be_sys_pruned = (\<lambda>tests. zip tests [0..<length tests]), be_main_module = None,
      be_parent = (\<lambda>m. map_option fst (split_attr m)),
      be_split = (\<lambda>e. ([export_types e], [re_export_table e]))\<rparr>"

lemma build_with_exports_exact_witness:
  "(let g = add_nodes list_digraph (mp_names sample_provider) (new_graph list_digraph)
    in \<exists>b exports reached. build_with_exports sample_env sample_provider = Some (b, exports, reached) \<and>
         set reached = {m. reaches sample_env sample_provider g m} \<and>
         facts_of fst (\<lambda>g. set (snd g)) b = graph_of_parsed sample_env sample_provider g (set reached) \<and>
         graph_ok (to_import_graph list_digraph b)) \<and>
   map_option (\<lambda>(b, exports, reached). (reached, bg_missing b, bg_main_guard_only b, export_types exports))
     (build_with_exports sample_env sample_provider) =
   Some ([''app'', ''broken'', ''builtins'', ''os'', ''os.path''], [(''app'', [''lib'', ''lib.run''])],
     [(''app'', [''lib.run'', ''lib''])], [(''app.App'', ExportClass)])"
proof
  from build_with_exports_exact [of sample_env fst "\<lambda>g. set (snd g)" sample_provider]
  show "let g = add_nodes list_digraph (mp_names sample_provider) (new_graph list_digraph)
    in \<exists>b exports reached. build_with_exports sample_env sample_provider = Some (b, exports, reached) \<and>
         set reached = {m. reaches sample_env sample_provider g m} \<and>
         facts_of fst (\<lambda>g. set (snd g)) b = graph_of_parsed sample_env sample_provider g (set reached) \<and>
         graph_ok (to_import_graph list_digraph b)"
    using list_digraph_ok by (simp add: sample_env_def)
qed code_simp

end
