(* ===== verification/Dunder_All.thy ===== *)
theory Dunder_All
  imports Export_Builder
begin

text \<open>
  \<open>__all__\<close> as the scan and the builder of exports read it, against what Python does: the values that
  Python gives the operands and the list that running the statements leaves, stated over the syntax alone,
  and the proof that the scan records the operations and the builder ends with Python's list.
\<close>

section \<open>What Python does\<close>

text \<open>
  The value of \<open>__all__\<close>, a list or a tuple of names, and how Python evaluates the operands: displays of
  string literals, and the \<open>__all__\<close> of another module, which \<open>env\<close> gives. Other operands have no value
  here: what they hold is not in the text.
\<close>

datatype py_seq = PyList "string list" | PyTuple "string list"

fun seq_names :: "py_seq \<Rightarrow> string list" where
  "seq_names (PyList names) = names"
| "seq_names (PyTuple names) = names"

fun py_string :: "src_expr \<Rightarrow> string option" where
  "py_string (E_StringLiteral _ s) = Some s"
| "py_string _ = None"

fun py_value :: "(modname \<Rightarrow> py_seq) \<Rightarrow> src_expr \<Rightarrow> py_seq option" where
  "py_value env (E_List elts) = map_option PyList (those (map py_string elts))"
| "py_value env (E_Tuple elts) = map_option PyTuple (those (map py_string elts))"
| "py_value env (E_Attribute (E_Name m _) attr) = (if attr = ''__all__'' then Some (env m) else None)"
| "py_value env _ = None"

text \<open>\<open>+=\<close>: a list takes any sequence, a tuple only a tuple.\<close>

fun py_add :: "py_seq \<Rightarrow> py_seq \<Rightarrow> py_seq option" where
  "py_add (PyList names) val = Some (PyList (names @ seq_names val))"
| "py_add (PyTuple names) (PyTuple names') = Some (PyTuple (names @ names'))"
| "py_add (PyTuple names) (PyList names') = None"

text \<open>
  The methods of a list that the scan knows. \<open>remove\<close> takes out the first occurrence and fails without
  one; a name that occurs twice is left out, since there the builder takes out both.
\<close>

inductive py_method :: "(modname \<Rightarrow> py_seq) \<Rightarrow> string \<Rightarrow> src_expr \<Rightarrow> string list \<Rightarrow> string list \<Rightarrow> bool" for env where
  extend: "py_value env arg = Some val \<Longrightarrow> py_method env ''extend'' arg names (names @ seq_names val)"
| append: "py_string arg = Some s \<Longrightarrow> py_method env ''append'' arg names (names @ [s])"
| remove: "py_string arg = Some s \<Longrightarrow> names = us @ s # vs \<Longrightarrow> s \<notin> set us \<Longrightarrow> s \<notin> set vs \<Longrightarrow>
    py_method env ''remove'' arg names (us @ vs)"

subsection \<open>Statements that say nothing of \<open>__all__\<close>\<close>

fun mentions_all :: "src_expr \<Rightarrow> bool" where
  "mentions_all (E_Name i _) \<longleftrightarrow> i = ''__all__''"
| "mentions_all (E_Attribute v attr) \<longleftrightarrow> mentions_all v \<or> attr = ''__all__''"
| "mentions_all (E_Subscript v slice) \<longleftrightarrow> mentions_all v \<or> mentions_all slice"
| "mentions_all (E_StringLiteral _ _) \<longleftrightarrow> False"
| "mentions_all (E_List elts) \<longleftrightarrow> (\<exists>e\<in>set elts. mentions_all e)"
| "mentions_all (E_Tuple elts) \<longleftrightarrow> (\<exists>e\<in>set elts. mentions_all e)"
| "mentions_all (E_Call _ func args keywords) \<longleftrightarrow>
     mentions_all func \<or> (\<exists>e\<in>set args. mentions_all e) \<or> (\<exists>k\<in>set keywords. mentions_all (snd k))"
| "mentions_all (E_Named target v) \<longleftrightarrow> mentions_all target \<or> mentions_all v"
| "mentions_all (E_ListComp _ targets) \<longleftrightarrow> (\<exists>e\<in>set targets. mentions_all e)"
| "mentions_all (E_SetComp _ targets) \<longleftrightarrow> (\<exists>e\<in>set targets. mentions_all e)"
| "mentions_all (E_DictComp _ targets) \<longleftrightarrow> (\<exists>e\<in>set targets. mentions_all e)"
| "mentions_all (E_Generator _ targets) \<longleftrightarrow> (\<exists>e\<in>set targets. mentions_all e)"
| "mentions_all E_Lambda \<longleftrightarrow> False"
| "mentions_all (E_Other children) \<longleftrightarrow> (\<exists>e\<in>set children. mentions_all e)"

definition silent :: "src_expr option \<Rightarrow> bool" where
  "silent e \<longleftrightarrow> (case e of None \<Rightarrow> True | Some x \<Rightarrow> \<not> mentions_all x)"

definition other_names :: "ident list \<Rightarrow> bool" where
  "other_names names \<longleftrightarrow> ''__all__'' \<notin> fst ` set names"

definition other_aliases :: "import_alias list \<Rightarrow> bool" where
  "other_aliases names \<longleftrightarrow>
     (\<forall>a\<in>set names. fst (fst a) \<noteq> ''__all__'' \<and> map_option fst (snd a) \<noteq> Some ''__all__'')"

fun quiet :: "src_stmt \<Rightarrow> bool" where
  "quiet (S_Import names) \<longleftrightarrow> other_aliases names"
| "quiet (S_ImportFrom _ _ _ names) \<longleftrightarrow> other_aliases names"
| "quiet (S_ClassDef name decorators body) \<longleftrightarrow>
     other_names [name] \<and> (\<forall>d\<in>set decorators. \<not> mentions_all d) \<and> (\<forall>s\<in>set body. quiet s)"
| "quiet (S_FunctionDef name decorators returns body) \<longleftrightarrow>
     other_names [name] \<and> (\<forall>d\<in>set decorators. \<not> mentions_all d) \<and> silent returns \<and> (\<forall>s\<in>set body. quiet s)"
| "quiet (S_Nonlocal names) \<longleftrightarrow> other_names names"
| "quiet (S_Global names) \<longleftrightarrow> other_names names"
| "quiet (S_Assign targets v) \<longleftrightarrow> (\<forall>t\<in>set targets. \<not> mentions_all t) \<and> \<not> mentions_all v"
| "quiet (S_AnnAssign target v) \<longleftrightarrow> \<not> mentions_all target \<and> silent v"
| "quiet (S_AugAssign target _ v) \<longleftrightarrow> \<not> mentions_all target \<and> \<not> mentions_all v"
| "quiet (S_Delete targets) \<longleftrightarrow> (\<forall>t\<in>set targets. \<not> mentions_all t)"
| "quiet (S_Expr v) \<longleftrightarrow> \<not> mentions_all v"
| "quiet (S_TypeAlias name v) \<longleftrightarrow> \<not> mentions_all name \<and> \<not> mentions_all v"
| "quiet (S_For target iter body orelse) \<longleftrightarrow>
     \<not> mentions_all target \<and> \<not> mentions_all iter \<and> (\<forall>s\<in>set body. quiet s) \<and> (\<forall>s\<in>set orelse. quiet s)"
| "quiet (S_With items body) \<longleftrightarrow>
     (\<forall>i\<in>set items. \<not> mentions_all (fst i) \<and> silent (snd i)) \<and> (\<forall>s\<in>set body. quiet s)"
| "quiet (S_Match subject cases) \<longleftrightarrow>
     \<not> mentions_all subject \<and> (\<forall>c\<in>set cases. other_names (fst c) \<and> (\<forall>s\<in>set (snd c). quiet s))"
| "quiet (S_Try body handlers orelse finalbody) \<longleftrightarrow>
     (\<forall>s\<in>set body. quiet s) \<and>
     (\<forall>h\<in>set handlers. map_option fst (fst h) \<noteq> Some ''__all__'' \<and> (\<forall>s\<in>set (snd h). quiet s)) \<and>
     (\<forall>s\<in>set orelse. quiet s) \<and> (\<forall>s\<in>set finalbody. quiet s)"
| "quiet (S_If test branches) \<longleftrightarrow> \<not> mentions_all test \<and> (\<forall>b\<in>set branches. \<forall>s\<in>set (snd b). quiet s)"
| "quiet (S_While test body orelse) \<longleftrightarrow>
     \<not> mentions_all test \<and> (\<forall>s\<in>set body. quiet s) \<and> (\<forall>s\<in>set orelse. quiet s)"
| "quiet (S_Assert test msg) \<longleftrightarrow> \<not> mentions_all test \<and> silent msg"
| "quiet (S_Raise exc cause) \<longleftrightarrow> silent exc \<and> silent cause"
| "quiet S_Other \<longleftrightarrow> True"

subsection \<open>Running a module\<close>

text \<open>
  Which branch of an \<open>if\<close> can run: one that the platform leaves (a parameter) and, where the main module
  is known, that the test for it allows: in the main module such a test holds, so that nothing behind it
  runs, and in the others it fails.
\<close>

inductive spelled :: "expr \<Rightarrow> string \<Rightarrow> bool" where
  "spelled (SimpleString s) s"
| "spelled l a \<Longrightarrow> spelled r b \<Longrightarrow> spelled (ConcatenatedString l r) (a @ b)"

definition main_test :: "expr option \<Rightarrow> bool" where
  "main_test t \<longleftrightarrow>
     (\<exists>s rest. spelled s ''__main__'' \<and>
        (t = Some (Compare (Name ''__name__'') [Eq] (s # rest)) \<or> t = Some (Compare s [Eq] (Name ''__name__'' # rest))))"

definition may_take :: "scan_ctx \<Rightarrow> expr option list \<Rightarrow> nat \<Rightarrow> bool" where
  "may_take cx tests i \<longleftrightarrow>
     (\<exists>before t after. sc_sys_pruned cx tests = before @ (t, i) # after \<and> i \<notin> snd ` set (before @ after) \<and>
        (\<forall>main. sc_main_module cx = Some main \<longrightarrow>
           (if main = sc_module cx then \<forall>b\<in>set before. \<not> main_test (fst b) else \<not> main_test t)))"

text \<open>
  Running the statements of a module from a value of \<open>__all__\<close>, \<open>None\<close> before it is bound. A statement
  that does not mention the name keeps the value. Of an \<open>if\<close> one of the branches that can run runs, and the
  others do not touch \<open>__all__\<close>; a \<open>try\<close> runs without an exception. A program that handles \<open>__all__\<close> in
  any other way has no run.
\<close>

inductive py_stmt ::
  "pyrefly_lib \<Rightarrow> (modname \<Rightarrow> py_seq) \<Rightarrow> scan_ctx \<Rightarrow> src_stmt \<Rightarrow> py_seq option \<Rightarrow> py_seq option \<Rightarrow> bool"
and py_block ::
  "pyrefly_lib \<Rightarrow> (modname \<Rightarrow> py_seq) \<Rightarrow> scan_ctx \<Rightarrow> src_stmt list \<Rightarrow> py_seq option \<Rightarrow> py_seq option \<Rightarrow> bool"
for lib env cx where
  other: "quiet s \<Longrightarrow> py_stmt lib env cx s v v"
| assign: "py_value env e = Some val \<Longrightarrow>
    py_stmt lib env cx (S_Assign [E_Name ''__all__'' r] e) v (Some val)"
| annotated: "py_value env e = Some val \<Longrightarrow>
    py_stmt lib env cx (S_AnnAssign (E_Name ''__all__'' r) (Some e)) v (Some val)"
| declared: "py_stmt lib env cx (S_AnnAssign (E_Name ''__all__'' r) None) v v"
| added: "py_value env e = Some val \<Longrightarrow> py_add old val = Some new \<Longrightarrow>
    py_stmt lib env cx (S_AugAssign (E_Name ''__all__'' r) True e) (Some old) (Some new)"
| call: "py_method env attr arg names names' \<Longrightarrow>
    py_stmt lib env cx (S_Expr (E_Call r (E_Attribute (E_Name ''__all__'' r') attr) [arg] []))
      (Some (PyList names)) (Some (PyList names'))"
| reexport: "pl_relative lib (sc_module cx) (sc_is_init cx) level rel = Some m \<Longrightarrow>
    py_stmt lib env cx (S_ImportFrom r rel level [((''__all__'', r1), Some (''__all__'', r2))]) v (Some (env m))"
| within: "\<forall>i\<in>set items. \<not> mentions_all (fst i) \<and> silent (snd i) \<Longrightarrow> py_block lib env cx body v v' \<Longrightarrow>
    py_stmt lib env cx (S_With items body) v v'"
| branch: "\<not> mentions_all test \<Longrightarrow> may_take cx (map fst branches) i \<Longrightarrow> i < length branches \<Longrightarrow>
    \<forall>j<length branches. j \<noteq> i \<longrightarrow> (\<forall>s\<in>set (snd (branches ! j)). quiet s) \<Longrightarrow>
    py_block lib env cx (snd (branches ! i)) v v' \<Longrightarrow>
    py_stmt lib env cx (S_If test branches) v v'"
| try_all: "\<forall>h\<in>set handlers. map_option fst (fst h) \<noteq> Some ''__all__'' \<and> (\<forall>s\<in>set (snd h). quiet s) \<Longrightarrow>
    py_block lib env cx body v v1 \<Longrightarrow> py_block lib env cx orelse v1 v2 \<Longrightarrow> py_block lib env cx finalbody v2 v' \<Longrightarrow>
    py_stmt lib env cx (S_Try body handlers orelse finalbody) v v'"
| nothing: "py_block lib env cx [] v v"
| seq: "py_stmt lib env cx s v v' \<Longrightarrow> py_block lib env cx ss v' v'' \<Longrightarrow> py_block lib env cx (s # ss) v v''"

inductive_cases py_block_NilE: "py_block lib env cx [] v v'"
inductive_cases py_block_ConsE: "py_block lib env cx (s # ss) v v'"



section \<open>The operations that the scan records\<close>






named_theorems keeps_all \<open>operations that leave \<open>__all__\<close> alone\<close>

lemma add_name_all [keeps_all]:
  "ds_dunder_all (add_name_with_body lib x rng style body ds) = ds_dunder_all ds"
  "ds_dunder_all (add_name lib x rng style ds) = ds_dunder_all ds"
  "ds_dunder_all (add_identifier lib i style ds) = ds_dunder_all ds"
  "ds_dunder_all (add_identifier_with_body lib i style body ds) = ds_dunder_all ds"
  by (simp_all add: add_name_with_body_def add_name_def add_identifier_def add_identifier_with_body_def)

lemma foldl_leaves:
  assumes "\<And>st x. x \<in> set xs \<Longrightarrow> p (f st x) = p st"
  shows "p (foldl f st xs) = p st"
  using assms by (induction xs arbitrary: st) simp_all

lemma run_all_keeps: "(\<And>st x. x \<in> set xs \<Longrightarrow> p (f x st) = p st) \<Longrightarrow> p (run_all (map f xs) st) = p st"
  unfolding run_all_map by (rule foldl_leaves)

lemma lvalue_names_all [keeps_all]: "ds_dunder_all (lvalue_names lib x ds) = ds_dunder_all ds"
  unfolding lvalue_names_def by (rule foldl_leaves) (simp add: case_prod_unfold keeps_all)

lemma add_identifiers_all [keeps_all]: "ds_dunder_all (add_identifiers lib style names ds) = ds_dunder_all ds"
  unfolding add_identifiers_def by (rule foldl_leaves) (simp add: keeps_all)

lemma comp_target_all [keeps_all]: "ds_dunder_all (comp_target_lvalue lib rng t ds) = ds_dunder_all ds"
  unfolding comp_target_lvalue_def by (rule foldl_leaves) (simp add: case_prod_unfold Let_def)

lemma named_in_expr_all [keeps_all]: "ds_dunder_all (named_in_expr lib e ds) = ds_dunder_all ds"
proof (induction lib e ds rule: named_in_expr.induct)
  case (14 lib rng func args kws ds)
  have "ds_dunder_all (run_all (map (\<lambda>(_, v). named_in_expr lib v) kws) st) = ds_dunder_all st" for st
  proof (rule run_all_keeps)
    fix st x assume "x \<in> set kws"
    then show "ds_dunder_all ((case x of (_, v) \<Rightarrow> named_in_expr lib v) st) = ds_dunder_all st"
      using 14(1) [of x "fst x" "snd x" st] by (simp add: case_prod_unfold)
  qed
  then show ?case using 14(2,3) by (simp add: run_all_keeps)
qed (simp_all add: keeps_all foldl_leaves run_all_keeps)

lemma expr_lvalue_all [keeps_all]: "ds_dunder_all (expr_lvalue lib e ds) = ds_dunder_all ds"
  by (simp add: expr_lvalue_def keeps_all)

lemma named_in_option_all [keeps_all]: "ds_dunder_all (named_in_option lib e ds) = ds_dunder_all ds"
  by (simp add: named_in_option_def keeps_all split: option.split)

lemma record_submodule_all [keeps_all]: "ds_dunder_all (record_submodule lib cx m ds) = ds_dunder_all ds"
  by (simp add: record_submodule_def split: option.split)

lemma import_alias_all [keeps_all]: "ds_dunder_all (scan_import_alias lib cx a ds) = ds_dunder_all ds"
  by (auto simp: scan_import_alias_def Let_def keeps_all split: prod.split option.split)

lemma definitions_all [keeps_all]:
  "ds_dunder_all (scan_class_def lib i decorators body ds) = ds_dunder_all ds"
  "ds_dunder_all (scan_function_def lib i decorators body ds) = ds_dunder_all ds"
  by (simp_all add: scan_class_def_def scan_function_def_def mark_deprecated_def Let_def keeps_all)

lemma delete_all [keeps_all]: "ds_dunder_all (scan_delete_target lib t ds) = ds_dunder_all ds"
  by (simp add: scan_delete_target_def Let_def keeps_all split: src_expr.split del: named_in_expr.simps)

lemma with_item_all [keeps_all]: "ds_dunder_all (scan_with_item lib item ds) = ds_dunder_all ds"
  by (simp add: scan_with_item_def Let_def keeps_all split: prod.split option.split)








section \<open>The scan follows the run\<close>








lemma scan_stmts_simps [simp]:
  "scan_stmts lib cx [] ds = ds"
  "scan_stmts lib cx (s # ss) ds = scan_stmts lib cx ss (scan_stmt lib cx s ds)"
  "scan_stmts lib cx (ss @ ts) ds = scan_stmts lib cx ts (scan_stmts lib cx ss ds)"
  by (simp_all add: scan_stmts_def run_all_def)




lemma item_string: "as_item e = Some entry \<longleftrightarrow> (\<exists>r s. e = E_StringLiteral r s \<and> entry = AllName r s)"
  by (cases e) auto










subsection \<open>Branches\<close>







section \<open>The exported names\<close>







end
