(* ===== verification/Cache_Wire.thy ===== *)
theory Cache_Wire
  imports Cache_Merge Exports
begin

text \<open>
  The indexed wire format of a library cache (\<open>src/cache_wire.rs\<close>): a table of sorted names, records
  that refer to names by their rank, and a file of length-prefixed blobs. Bytes are \<^typ>\<open>8 word\<close>, a
  name id is a \<^typ>\<open>32 word\<close>, and a length is a number below the size of \<open>u64\<close>, the width of
  \<open>usize\<close> too. The byte form of a record is \<open>postcard\<close>'s, which is not part of the repository: two
  pairs of functions, of which \<open>codec_ok\<close> states that reading undoes writing.
\<close>

type_synonym name_id = "32 word"
type_synonym byte = "8 word"

datatype wire_error =
    TooManyNames
  | EncodeFailed
  | DecodeFailed
  | LengthTooLarge
  | OffsetOverflow
  | TruncatedLength
  | TruncatedHeader
  | CountTooLarge nat
  | TruncatedModule
  | TrailingData
  | IdOutOfBounds name_id

fun bind_res :: "'e + 'a \<Rightarrow> ('a \<Rightarrow> 'e + 'b) \<Rightarrow> 'e + 'b" where
  "bind_res (Inl e) f = Inl e"
| "bind_res (Inr x) f = f x"

text \<open>\<open>map(f).collect::<Result<_>>()\<close>: the first error ends it.\<close>

fun collect_res :: "('a \<Rightarrow> 'e + 'b) \<Rightarrow> 'a list \<Rightarrow> 'e + 'b list" where
  "collect_res f [] = Inr []"
| "collect_res f (x # xs) = bind_res (f x) (\<lambda>y. bind_res (collect_res f xs) (\<lambda>ys. Inr (y # ys)))"

section \<open>The records on the wire\<close>

record wire_re_export =
  wr_exported_module :: name_id
  wr_exported_attr :: string
  wr_imported_module :: name_id
  wr_imported_attr :: string

type_synonym wire_callees = "name_id \<times> name_id option \<times> 8 word \<times> name_id list"

record wire_header =
  wh_names :: "modname list"
  wh_exports :: "wire_re_export list"
  wh_return_types :: "(name_id \<times> name_id) list"
  wh_class_bases :: "(name_id \<times> name_id list) list"
  wh_constructor_callees :: "wire_callees list"
  wh_class_properties :: "(name_id \<times> string list) list"

datatype wire_safety =
    WireOk "serialized_safety_error list" "serialized_safety_error list" "name_id list"
  | WireAnalysisError string

record wire_function_info =
  wf_verdict :: function_safety
  wf_missing_dep_callees :: "name_id list"
  wf_mutated_params :: "(name_id \<times> param_position) list"

datatype wire_site = WireModuleScope name_id | WireFunction name_id

record wire_imported_args =
  wa_unsafe_arg_indices :: "64 word"
  wa_unsafe_keyword_names :: "name_id list"
  wa_has_unsafe_kwargs_expansion :: bool
  wa_unsafe_args_expansion_min :: "nat option"

record wire_mutation_candidate =
  wc_callee :: name_id
  wc_site :: wire_site
  wc_arg_offset :: nat
  wc_imported_args :: wire_imported_args
  wc_from_main_guard :: bool

type_synonym wire_candidate = "name_id \<times> bool"

record wire_module =
  wm_name :: name_id
  wm_safety :: wire_safety
  wm_imports :: "name_id list"
  wm_missing_imports :: "name_id list"
  wm_ambiguous_imports :: "name_id list"
  wm_side_effect_imports :: "name_id list"
  wm_main_guard_imports :: "name_id list"
  wm_function_safety :: "(string \<times> wire_function_info) list"
  wm_mutation_candidates :: "wire_mutation_candidate list"
  wm_property_candidates :: "wire_candidate list"
  wm_subclass_candidates :: "wire_candidate list"

section \<open>The table of names\<close>

definition safety_names :: "cached_safety \<Rightarrow> modname list" where
  "safety_names s = (case s of CachedOk s \<Rightarrow> c_implicit s | CachedAnalysisError _ \<Rightarrow> [])"

definition info_names :: "function_safety_info \<Rightarrow> modname list" where
  "info_names info = missing_dep_callees info @ map mp_name (mutated_params info)"

fun site_name :: "mutation_candidate_site \<Rightarrow> modname" where
  "site_name (SiteModuleScope call) = call"
| "site_name (SiteFunction name) = name"

definition candidate_names :: "mutation_candidate \<Rightarrow> modname list" where
  "candidate_names c = mc_callee c # site_name (mc_site c) # unsafe_keyword_names (mc_imported_args c)"

definition collect_module_names :: "cached_module \<Rightarrow> modname list" where
  "collect_module_names m =
     cm_name m # cm_imports m @ cm_missing m @ cm_ambiguous m @ cm_side_effects m @ cm_guard_imports m @
     safety_names (cm_safety m) @ concat (map (\<lambda>(_, info). info_names info) (cm_functions m)) @
     concat (map candidate_names (cm_mutations m)) @ map pc_attribute (cm_properties m) @
     map sc_class (cm_subclasses m)"

definition header_names :: "library_cache \<Rightarrow> modname list" where
  "header_names c =
     concat (map (\<lambda>r. [exported_module r, imported_module r]) (lc_re_exports c)) @
     concat (map (\<lambda>r. [rt_function r, rt_class r]) (lc_return_types c)) @
     concat (map (\<lambda>(class, bases). class # bases) (lc_class_bases c)) @
     concat (map (\<lambda>(class, r). class # (case metaclass r of None \<Rightarrow> [] | Some mc \<Rightarrow> [mc]) @ extra r)
       (lc_constructor_callees c)) @
     map fst (lc_class_properties c)"

definition cache_names :: "library_cache \<Rightarrow> modname list" where
  "cache_names c = concat (map collect_module_names (lc_modules c)) @ header_names c"

record name_table =
  nt_names :: "modname list"
  nt_ids :: "(modname \<times> name_id) list"

definition MAX_NAME_ID :: nat where
  "MAX_NAME_ID = 2 ^ 32 - 1"

definition build_name_table ::
  "(modname \<Rightarrow> modname \<Rightarrow> ordering) \<Rightarrow> library_cache \<Rightarrow> wire_error + name_table" where
  "build_name_table mcmp c =
     (let unique = remdups (cache_names c) in
      if \<not> length unique \<le> MAX_NAME_ID then Inl TooManyNames
      else
        (let names = sort_by mcmp unique
         in Inr \<lparr>nt_names = names, nt_ids = zip names (map of_nat [0..<length names])\<rparr>))"

text \<open>
  The \<open>expect\<close> of the code is \<open>the\<close>; \<open>Wire_Roundtrip\<close> shows that every name that is looked up is in the
  table (\<open>cache_names_in_table\<close>).
\<close>

definition id_of :: "name_table \<Rightarrow> modname \<Rightarrow> name_id" where
  "id_of t name = the (map_of (nt_ids t) name)"

definition encode_sorted :: "name_table \<Rightarrow> modname list \<Rightarrow> name_id list" where
  "encode_sorted t names = sort_by cmp_of (map (id_of t) names)"

definition decode_name :: "modname list \<Rightarrow> name_id \<Rightarrow> wire_error + modname" where
  "decode_name names i = (if unat i < length names then Inr (names ! unat i) else Inl (IdOutOfBounds i))"

definition decode_names :: "modname list \<Rightarrow> name_id list \<Rightarrow> wire_error + modname list" where
  "decode_names names ids = collect_res (decode_name names) ids"

text \<open>A hash set of the decoded names: a list without duplicates.\<close>

definition decode_name_set :: "modname list \<Rightarrow> name_id list \<Rightarrow> wire_error + modname list" where
  "decode_name_set names ids = bind_res (decode_names names ids) (\<lambda>ns. Inr (remdups ns))"

section \<open>Encoding a module\<close>

definition sorted_errors ::
  "(modname \<Rightarrow> modname \<Rightarrow> ordering) \<Rightarrow> safety_error list \<Rightarrow> serialized_safety_error list" where
  "sorted_errors mcmp es = map serialize_error (sort_by (error_cmp mcmp) es)"

definition encode_safety ::
  "(modname \<Rightarrow> modname \<Rightarrow> ordering) \<Rightarrow> name_table \<Rightarrow> cached_safety \<Rightarrow> wire_safety" where
  "encode_safety mcmp t s =
     (case s of
        CachedOk s \<Rightarrow> WireOk (sorted_errors mcmp (c_errors s)) (sorted_errors mcmp (c_overrides s))
                        (encode_sorted t (c_implicit s))
      | CachedAnalysisError message \<Rightarrow> WireAnalysisError message)"

definition encode_info :: "name_table \<Rightarrow> function_safety_info \<Rightarrow> wire_function_info" where
  "encode_info t info =
     \<lparr>wf_verdict = verdict info, wf_missing_dep_callees = encode_sorted t (missing_dep_callees info),
      wf_mutated_params = sort_by (\<lambda>a b. cmp_of (fst a) (fst b))
        (map (\<lambda>p. (id_of t (mp_name p), mp_position p)) (mutated_params info))\<rparr>"

fun encode_site :: "name_table \<Rightarrow> mutation_candidate_site \<Rightarrow> wire_site" where
  "encode_site t (SiteModuleScope call) = WireModuleScope (id_of t call)"
| "encode_site t (SiteFunction name) = WireFunction (id_of t name)"

definition encode_candidate :: "name_table \<Rightarrow> mutation_candidate \<Rightarrow> wire_mutation_candidate" where
  "encode_candidate t c =
     \<lparr>wc_callee = id_of t (mc_callee c), wc_site = encode_site t (mc_site c), wc_arg_offset = mc_arg_offset c,
      wc_imported_args =
        \<lparr>wa_unsafe_arg_indices = unsafe_arg_indices (mc_imported_args c),
         wa_unsafe_keyword_names = encode_sorted t (unsafe_keyword_names (mc_imported_args c)),
         wa_has_unsafe_kwargs_expansion = has_unsafe_kwargs_expansion (mc_imported_args c),
         wa_unsafe_args_expansion_min = unsafe_args_expansion_min (mc_imported_args c)\<rparr>,
      wc_from_main_guard = mc_from_main_guard c\<rparr>"

definition encode_property :: "name_table \<Rightarrow> property_candidate \<Rightarrow> wire_candidate" where
  "encode_property t c = (id_of t (pc_attribute c), pc_from_main_guard c)"

definition encode_subclass :: "name_table \<Rightarrow> subclass_candidate \<Rightarrow> wire_candidate" where
  "encode_subclass t c = (id_of t (sc_class c), sc_from_main_guard c)"

definition encode_module ::
  "(modname \<Rightarrow> modname \<Rightarrow> ordering) \<Rightarrow> name_table \<Rightarrow> cached_module \<Rightarrow> wire_module" where
  "encode_module mcmp t m =
     \<lparr>wm_name = id_of t (cm_name m), wm_safety = encode_safety mcmp t (cm_safety m),
      wm_imports = encode_sorted t (cm_imports m), wm_missing_imports = encode_sorted t (cm_missing m),
      wm_ambiguous_imports = encode_sorted t (cm_ambiguous m),
      wm_side_effect_imports = encode_sorted t (cm_side_effects m),
      wm_main_guard_imports = encode_sorted t (cm_guard_imports m),
      wm_function_safety = map (\<lambda>(name, info). (name, encode_info t info))
        (sort_by (\<lambda>a b. cmp_of (fst a) (fst b)) (cm_functions m)),
      wm_mutation_candidates = map (encode_candidate t) (cm_mutations m),
      wm_property_candidates = map (encode_property t) (sort_by (property_candidate_cmp mcmp) (cm_properties m)),
      wm_subclass_candidates = map (encode_subclass t) (sort_by (subclass_candidate_cmp mcmp) (cm_subclasses m))\<rparr>"

section \<open>Decoding a module\<close>

definition decode_safety :: "modname list \<Rightarrow> wire_safety \<Rightarrow> wire_error + cached_safety" where
  "decode_safety names w =
     (case w of
        WireOk es overrides ids \<Rightarrow>
          bind_res (decode_names names ids) (\<lambda>implicit.
            Inr (CachedOk \<lparr>c_errors = map deserialize_error es, c_overrides = map deserialize_error overrides,
                   c_implicit = implicit\<rparr>))
      | WireAnalysisError message \<Rightarrow> Inr (CachedAnalysisError message))"

definition decode_info :: "modname list \<Rightarrow> wire_function_info \<Rightarrow> wire_error + function_safety_info" where
  "decode_info names w =
     bind_res (decode_name_set names (wf_missing_dep_callees w)) (\<lambda>callees.
     bind_res (collect_res (\<lambda>(i, position).
         bind_res (decode_name names i) (\<lambda>n. Inr \<lparr>mp_name = n, mp_position = position\<rparr>))
       (wf_mutated_params w)) (\<lambda>params.
     Inr \<lparr>verdict = wf_verdict w, missing_dep_callees = callees, mutated_params = params\<rparr>))"

fun decode_site :: "modname list \<Rightarrow> wire_site \<Rightarrow> wire_error + mutation_candidate_site" where
  "decode_site names (WireModuleScope call) = bind_res (decode_name names call) (\<lambda>n. Inr (SiteModuleScope n))"
| "decode_site names (WireFunction name) = bind_res (decode_name names name) (\<lambda>n. Inr (SiteFunction n))"

definition decode_candidate :: "modname list \<Rightarrow> wire_mutation_candidate \<Rightarrow> wire_error + mutation_candidate" where
  "decode_candidate names w =
     bind_res (decode_site names (wc_site w)) (\<lambda>site.
     bind_res (decode_name names (wc_callee w)) (\<lambda>callee.
     bind_res (decode_names names (wa_unsafe_keyword_names (wc_imported_args w))) (\<lambda>keywords.
     Inr \<lparr>mc_callee = callee, mc_site = site, mc_arg_offset = wc_arg_offset w,
          mc_imported_args =
            \<lparr>unsafe_arg_indices = wa_unsafe_arg_indices (wc_imported_args w), unsafe_keyword_names = keywords,
             has_unsafe_kwargs_expansion = wa_has_unsafe_kwargs_expansion (wc_imported_args w),
             unsafe_args_expansion_min = wa_unsafe_args_expansion_min (wc_imported_args w)\<rparr>,
          mc_range = default_range, mc_from_main_guard = wc_from_main_guard w\<rparr>)))"

definition decode_property :: "modname list \<Rightarrow> wire_candidate \<Rightarrow> wire_error + property_candidate" where
  "decode_property names w =
     bind_res (decode_name names (fst w)) (\<lambda>n.
     Inr \<lparr>pc_attribute = n, pc_range = default_range, pc_from_main_guard = snd w\<rparr>)"

definition decode_subclass :: "modname list \<Rightarrow> wire_candidate \<Rightarrow> wire_error + subclass_candidate" where
  "decode_subclass names w =
     bind_res (decode_name names (fst w)) (\<lambda>n.
     Inr \<lparr>sc_class = n, sc_range = default_range, sc_from_main_guard = snd w\<rparr>)"

definition decode_functions ::
  "modname list \<Rightarrow> (string \<times> wire_function_info) list \<Rightarrow> wire_error + func_table" where
  "decode_functions names ws =
     bind_res (collect_res (\<lambda>(name, w). bind_res (decode_info names w) (\<lambda>info. Inr (name, info))) ws)
       (\<lambda>pairs. Inr (map_extend [] pairs))"

definition decode_module :: "modname list \<Rightarrow> wire_module \<Rightarrow> wire_error + cached_module" where
  "decode_module names w =
     bind_res (decode_name names (wm_name w)) (\<lambda>name.
     bind_res (decode_safety names (wm_safety w)) (\<lambda>safety.
     bind_res (decode_name_set names (wm_imports w)) (\<lambda>imports.
     bind_res (decode_name_set names (wm_missing_imports w)) (\<lambda>missing.
     bind_res (decode_name_set names (wm_ambiguous_imports w)) (\<lambda>ambiguous.
     bind_res (decode_name_set names (wm_side_effect_imports w)) (\<lambda>side_effects.
     bind_res (decode_name_set names (wm_main_guard_imports w)) (\<lambda>guard_imports.
     bind_res (decode_functions names (wm_function_safety w)) (\<lambda>functions.
     bind_res (collect_res (decode_candidate names) (wm_mutation_candidates w)) (\<lambda>mutations.
     bind_res (collect_res (decode_property names) (wm_property_candidates w)) (\<lambda>properties.
     bind_res (collect_res (decode_subclass names) (wm_subclass_candidates w)) (\<lambda>subclasses.
     Inr \<lparr>cm_name = name, cm_safety = safety, cm_imports = imports, cm_missing = missing,
          cm_ambiguous = ambiguous, cm_side_effects = side_effects, cm_functions = functions,
          cm_mutations = mutations, cm_properties = properties, cm_subclasses = subclasses,
          cm_guard_imports = guard_imports\<rparr>)))))))))))"

section \<open>The header\<close>

definition encode_re_export :: "name_table \<Rightarrow> cached_re_export \<Rightarrow> wire_re_export" where
  "encode_re_export t r =
     \<lparr>wr_exported_module = id_of t (exported_module r), wr_exported_attr = exported_attr r,
      wr_imported_module = id_of t (imported_module r), wr_imported_attr = imported_attr r\<rparr>"

definition decode_re_export :: "modname list \<Rightarrow> wire_re_export \<Rightarrow> wire_error + cached_re_export" where
  "decode_re_export names w =
     bind_res (decode_name names (wr_exported_module w)) (\<lambda>exported.
     bind_res (decode_name names (wr_imported_module w)) (\<lambda>imported.
     Inr \<lparr>exported_module = exported, exported_attr = wr_exported_attr w,
          imported_module = imported, imported_attr = wr_imported_attr w\<rparr>))"

definition sort_key_cmp :: "wire_re_export \<Rightarrow> wire_re_export \<Rightarrow> ordering" where
  "sort_key_cmp a b =
     then_with (then_with (then_with
       (cmp_of (wr_exported_module a) (wr_exported_module b))
       (cmp_of (wr_exported_attr a) (wr_exported_attr b)))
       (cmp_of (wr_imported_module a) (wr_imported_module b)))
       (cmp_of (wr_imported_attr a) (wr_imported_attr b))"

text \<open>Tuples and vectors are compared from the left.\<close>

definition pair_cmp :: "('a \<Rightarrow> 'a \<Rightarrow> ordering) \<Rightarrow> ('b \<Rightarrow> 'b \<Rightarrow> ordering) \<Rightarrow> 'a \<times> 'b \<Rightarrow> 'a \<times> 'b \<Rightarrow> ordering" where
  "pair_cmp c d a b = then_with (c (fst a) (fst b)) (d (snd a) (snd b))"

definition callees_cmp ::
  "('a \<Rightarrow> 'a \<Rightarrow> ordering) \<Rightarrow> 'a \<times> 'a option \<times> 8 word \<times> 'a list \<Rightarrow> 'a \<times> 'a option \<times> 8 word \<times> 'a list \<Rightarrow> ordering" where
  "callees_cmp c = pair_cmp c (pair_cmp (cmp_option c) (pair_cmp cmp_of (cmp_list c)))"

definition encode_header :: "name_table \<Rightarrow> library_cache \<Rightarrow> wire_header" where
  "encode_header t c =
     \<lparr>wh_names = nt_names t,
      wh_exports = sort_by sort_key_cmp (map (encode_re_export t) (lc_re_exports c)),
      wh_return_types = sort_by (pair_cmp cmp_of cmp_of)
        (map (\<lambda>r. (id_of t (rt_function r), id_of t (rt_class r))) (lc_return_types c)),
      wh_class_bases = sort_by (pair_cmp cmp_of (cmp_list cmp_of))
        (map (\<lambda>(class, bases). (id_of t class, map (id_of t) bases)) (lc_class_bases c)),
      wh_constructor_callees = sort_by (callees_cmp cmp_of)
        (map (\<lambda>(class, r). (id_of t class, map_option (id_of t) (metaclass r), mask r, encode_sorted t (extra r)))
          (lc_constructor_callees c)),
      wh_class_properties = sort_by (pair_cmp cmp_of (cmp_list cmp_of))
        (map (\<lambda>(class, properties). (id_of t class, sort_by cmp_of properties)) (lc_class_properties c))\<rparr>"

definition decode_callees :: "modname list \<Rightarrow> wire_callees \<Rightarrow> wire_error + modname \<times> constructor_callees" where
  "decode_callees names w =
     (case w of (class, mc, msk, ids) \<Rightarrow>
        bind_res (decode_name names class) (\<lambda>class.
        bind_res (case mc of None \<Rightarrow> Inr None | Some i \<Rightarrow> bind_res (decode_name names i) (\<lambda>n. Inr (Some n))) (\<lambda>mc.
        bind_res (decode_names names ids) (\<lambda>extra.
        Inr (class, \<lparr>metaclass = mc, mask = msk, extra = extra\<rparr>)))))"

text \<open>The rest of the cache, once the modules are decoded.\<close>

definition decode_cache :: "wire_header \<Rightarrow> cached_module list \<Rightarrow> wire_error + library_cache" where
  "decode_cache h modules =
     (let names = wh_names h in
      bind_res (collect_res (decode_re_export names) (wh_exports h)) (\<lambda>re_exports.
      bind_res (collect_res (\<lambda>(function, class).
          bind_res (decode_name names function) (\<lambda>f. bind_res (decode_name names class) (\<lambda>c.
          Inr \<lparr>rt_function = f, rt_class = c\<rparr>))) (wh_return_types h)) (\<lambda>return_types.
      bind_res (collect_res (\<lambda>(class, bases).
          bind_res (decode_name names class) (\<lambda>c. bind_res (decode_names names bases) (\<lambda>bs. Inr (c, bs))))
        (wh_class_bases h)) (\<lambda>class_bases.
      bind_res (collect_res (decode_callees names) (wh_constructor_callees h)) (\<lambda>callees.
      bind_res (collect_res (\<lambda>(class, properties).
          bind_res (decode_name names class) (\<lambda>c. Inr (c, properties))) (wh_class_properties h)) (\<lambda>properties.
      Inr \<lparr>lc_modules = modules, lc_re_exports = re_exports, lc_return_types = return_types,
           lc_class_bases = class_bases, lc_class_properties = properties,
           lc_constructor_callees = callees\<rparr>))))))"

section \<open>The file\<close>

definition USIZE_LIMIT :: nat where
  "USIZE_LIMIT = 2 ^ 64"

fun to_le_bytes :: "nat \<Rightarrow> nat \<Rightarrow> byte list" where
  "to_le_bytes 0 n = []"
| "to_le_bytes (Suc k) n = of_nat (n mod 256) # to_le_bytes k (n div 256)"

fun from_le_bytes :: "byte list \<Rightarrow> nat" where
  "from_le_bytes [] = 0"
| "from_le_bytes (b # bs) = unat b + 256 * from_le_bytes bs"

definition write_len :: "nat \<Rightarrow> wire_error + byte list" where
  "write_len len = (if len < USIZE_LIMIT then Inr (to_le_bytes 8 len) else Inl LengthTooLarge)"

definition checked_add :: "nat \<Rightarrow> nat \<Rightarrow> nat option" where
  "checked_add a b = (if a + b < USIZE_LIMIT then Some (a + b) else None)"

text \<open>A length is read at an offset; the new offset is returned with it.\<close>

definition read_len :: "byte list \<Rightarrow> nat \<Rightarrow> wire_error + nat \<times> nat" where
  "read_len bytes off =
     (case checked_add off 8 of
        None \<Rightarrow> Inl OffsetOverflow
      | Some end_off \<Rightarrow>
          if end_off \<le> length bytes
          then Inr (from_le_bytes (take 8 (drop off bytes)), end_off)
          else Inl TruncatedLength)"

definition read_blob :: "wire_error \<Rightarrow> byte list \<Rightarrow> nat \<Rightarrow> wire_error + byte list \<times> nat" where
  "read_blob truncated bytes off =
     bind_res (read_len bytes off) (\<lambda>(len, off).
       case checked_add off len of
         None \<Rightarrow> Inl OffsetOverflow
       | Some end_off \<Rightarrow>
           if end_off \<le> length bytes then Inr (take len (drop off bytes), end_off) else Inl truncated)"

fun read_blobs :: "nat \<Rightarrow> byte list \<Rightarrow> nat \<Rightarrow> wire_error + byte list list \<times> nat" where
  "read_blobs 0 bytes off = Inr ([], off)"
| "read_blobs (Suc n) bytes off =
     bind_res (read_blob TruncatedModule bytes off) (\<lambda>(blob, off).
     bind_res (read_blobs n bytes off) (\<lambda>(blobs, off). Inr (blob # blobs, off)))"

record 'a codec =
  to_allocvec :: "'a \<Rightarrow> byte list option"
  from_bytes :: "byte list \<Rightarrow> 'a option"

definition codec_ok :: "'a codec \<Rightarrow> bool" where
  "codec_ok c \<longleftrightarrow> (\<forall>x bs. to_allocvec c x = Some bs \<longrightarrow> from_bytes c bs = Some x)"

fun ok_or :: "'e \<Rightarrow> 'a option \<Rightarrow> 'e + 'a" where
  "ok_or e None = Inl e"
| "ok_or e (Some x) = Inr x"

definition encode_blob ::
  "(modname \<Rightarrow> modname \<Rightarrow> ordering) \<Rightarrow> wire_module codec \<Rightarrow> name_table \<Rightarrow> cached_module \<Rightarrow>
     wire_error + name_id \<times> byte list" where
  "encode_blob mcmp cm t m =
     bind_res (ok_or EncodeFailed (to_allocvec cm (encode_module mcmp t m))) (\<lambda>blob. Inr (id_of t (cm_name m), blob))"

definition write_blob :: "byte list \<Rightarrow> wire_error + byte list" where
  "write_blob blob = bind_res (write_len (length blob)) (\<lambda>len. Inr (len @ blob))"

text \<open>What the writer leaves in the file, or the error it stops with.\<close>

definition write_cache ::
  "(modname \<Rightarrow> modname \<Rightarrow> ordering) \<Rightarrow> wire_header codec \<Rightarrow> wire_module codec \<Rightarrow> library_cache \<Rightarrow>
     wire_error + byte list" where
  "write_cache mcmp ch cm c =
     bind_res (build_name_table mcmp c) (\<lambda>t.
     bind_res (collect_res (encode_blob mcmp cm t) (lc_modules c)) (\<lambda>unsorted.
     let module_blobs = sort_by (pair_cmp cmp_of (cmp_list cmp_of)) unsorted in
     bind_res (ok_or EncodeFailed (to_allocvec ch (encode_header t c))) (\<lambda>header_bytes.
     bind_res (write_blob header_bytes) (\<lambda>header.
     bind_res (write_len (length module_blobs)) (\<lambda>count.
     bind_res (collect_res (\<lambda>(_, blob). write_blob blob) module_blobs) (\<lambda>blobs.
     Inr (header @ count @ concat blobs)))))))"

definition read_cache :: "wire_header codec \<Rightarrow> wire_module codec \<Rightarrow> byte list \<Rightarrow> wire_error + library_cache" where
  "read_cache ch cm bytes =
     bind_res (read_blob TruncatedHeader bytes 0) (\<lambda>(header_bytes, off).
     bind_res (ok_or DecodeFailed (from_bytes ch header_bytes)) (\<lambda>header.
     bind_res (read_len bytes off) (\<lambda>(module_count, off).
     if \<not> module_count \<le> (length bytes - off) div 8 then Inl (CountTooLarge module_count)
     else
       bind_res (read_blobs module_count bytes off) (\<lambda>(blobs, off).
       if off \<noteq> length bytes then Inl TrailingData
       else
         bind_res (collect_res (\<lambda>blob.
             bind_res (ok_or DecodeFailed (from_bytes cm blob)) (decode_module (wh_names header))) blobs)
           (decode_cache header)))))"

end
