(* ===== verification/Wire_Roundtrip.thy ===== *)
theory Wire_Roundtrip
  imports Cache_Wire
begin

text \<open>
  What the wire format promises. Reading a written cache gives its normal form: collections that
  have no order of their own are sorted, source ranges are dropped, and the rest is kept
  (\<open>view_cache\<close>). Caches with the same normal form are the same bytes. The framing is a prefix code:
  a cut or extended file is never read as a cache.
\<close>

section \<open>Results\<close>

lemma collect_res_Inr: "(\<And>x. x \<in> set xs \<Longrightarrow> f x = Inr (g x)) \<Longrightarrow> collect_res f xs = Inr (map g xs)"
  by (induction xs) simp_all

lemma bind_res_Inr: "bind_res r f = Inr y \<longleftrightarrow> (\<exists>x. r = Inr x \<and> f x = Inr y)"
  by (cases r) simp_all

lemma collect_res_map: "collect_res f (map g xs) = collect_res (f \<circ> g) xs"
  by (induction xs) simp_all

lemma collect_res_cong: "(\<And>x. x \<in> set xs \<Longrightarrow> f x = g x) \<Longrightarrow> collect_res f xs = collect_res g xs"
  by (induction xs) simp_all

lemma collect_res_InrD: "collect_res f xs = Inr ys \<Longrightarrow> list_all2 (\<lambda>x y. f x = Inr y) xs ys"
  by (induction xs arbitrary: ys) (auto simp: bind_res_Inr)

section \<open>Sorting\<close>

lemma sort_by_map:
  assumes "\<And>x y. x \<in> set xs \<Longrightarrow> y \<in> set xs \<Longrightarrow> c' (g x) (g y) = c x y"
  shows "sort_by c' (map g xs) = map g (sort_by c xs)"
proof -
  have ins: "insert_by c' (g x) (map g ys) = map g (insert_by c x ys)"
    if "\<And>y. y \<in> set ys \<Longrightarrow> c' (g x) (g y) = c x y" for x ys
    using that by (induction ys) simp_all
  show ?thesis
    using assms
  proof (induction xs)
    case (Cons x xs)
    have "sort_by c' (map g (x # xs)) = insert_by c' (g x) (map g (sort_by c xs))"
      using Cons by (simp add: sort_by_def)
    also have "\<dots> = map g (insert_by c x (sort_by c xs))"
      using Cons.prems by (intro ins) simp
    finally show ?case by (simp add: sort_by_def)
  qed (simp add: sort_by_def)
qed

lemma sort_by_ascending: "lawful_cmp.ascending c xs \<Longrightarrow> lawful_cmp c k \<Longrightarrow> sort_by c xs = xs"
proof (induction xs)
  case (Cons x xs)
  then have "sort_by c xs = xs" "\<forall>y\<in>set xs. c x y \<noteq> Greater"
    by (simp_all add: lawful_cmp.ascending_def)
  then show ?case by (cases xs) (simp_all add: sort_by_def)
qed (simp add: sort_by_def)

lemma sort_by_idem: "lawful_cmp c k \<Longrightarrow> sort_by c (sort_by c xs) = sort_by c xs"
  using sort_by_ascending lawful_cmp.ascending_sort_by by blast

lemma distinct_sort_by [simp]: "distinct (sort_by c xs) \<longleftrightarrow> distinct xs"
  by (rule mset_eq_imp_distinct_iff) simp

lemma sort_by_eq:
  "lawful_cmp c k \<Longrightarrow> inj k \<Longrightarrow> mset xs = mset ys \<Longrightarrow> sort_by c xs = sort_by c ys"
  using lawful_cmp.sort_by_canonical [of c k xs ys] by (simp add: inj_map_eq_map)

lemma lawful_pair_cmp:
  assumes "lawful_cmp c k" "lawful_cmp d l"
  shows "lawful_cmp (pair_cmp c d) (\<lambda>p. (k (fst p), l (snd p)))"
  using lawful_then_with [OF lawful_comap [OF assms(1), where f = fst] lawful_comap [OF assms(2), where f = snd]]
  by (simp add: pair_cmp_def [abs_def])

lemma cmp_list_lawful:
  assumes "lawful_cmp c (\<lambda>x. x)"
  shows "lawful_cmp (cmp_list c) (\<lambda>x. x)"
proof
  note [simp] = lawful_cmp.equal_iff [OF assms]
  show "cmp_list c xs ys = Equal \<longleftrightarrow> xs = ys" for xs ys
  proof (induction xs arbitrary: ys)
    case Nil
    then show ?case by (cases ys) simp_all
  next
    case (Cons x xs)
    then show ?case by (cases ys) auto
  qed
  show "cmp_list c ys xs = reverse_ordering (cmp_list c xs ys)" for xs ys
  proof (induction xs arbitrary: ys)
    case Nil
    then show ?case by (cases ys) simp_all
  next
    case (Cons x xs)
    note IH = Cons.IH
    show ?case
    proof (cases ys)
      case (Cons y ys')
      then show ?thesis using lawful_cmp.swap [OF assms, of y x]
        by (simp add: reverse_then_with IH)
    qed simp
  qed
  show "cmp_list c xs ys = Less \<Longrightarrow> cmp_list c ys zs = Less \<Longrightarrow> cmp_list c xs zs = Less" for xs ys zs
  proof (induction xs arbitrary: ys zs)
    case Nil
    then show ?case by (cases ys; cases zs) auto
  next
    case (Cons x xs)
    obtain y ys' where y: "ys = y # ys'" using Cons.prems by (cases ys) auto
    obtain z zs' where z: "zs = z # zs'" using Cons.prems y by (cases zs) auto
    show ?case
      using Cons.prems lawful_cmp.less_trans [OF assms, of x y z] Cons.IH [of ys' zs']
      by (auto simp: y z then_with_Less)
  qed
qed

lemma cmp_list_map:
  "(\<And>x y. x \<in> set xs \<Longrightarrow> y \<in> set ys \<Longrightarrow> c' (g x) (g y) = c x y) \<Longrightarrow>
     cmp_list c' (map g xs) (map g ys) = cmp_list c xs ys"
  by (induction c xs ys rule: cmp_list.induct) simp_all

lemma cmp_option_map:
  "(\<And>x y. a = Some x \<Longrightarrow> b = Some y \<Longrightarrow> c' (g x) (g y) = c x y) \<Longrightarrow>
     cmp_option c' (map_option g a) (map_option g b) = cmp_option c a b"
  by (cases a; cases b) simp_all

section \<open>The table of names\<close>

text \<open>What the encoders and decoders rely on: ids are ranks, and a rank leads back to its name.\<close>

definition table_ok :: "(modname \<Rightarrow> modname \<Rightarrow> ordering) \<Rightarrow> name_table \<Rightarrow> bool" where
  "table_ok mcmp t \<longleftrightarrow>
     lawful_cmp mcmp (\<lambda>s. s) \<and>
     (\<forall>n \<in> set (nt_names t). decode_name (nt_names t) (id_of t n) = Inr n) \<and>
     (\<forall>a \<in> set (nt_names t). \<forall>b \<in> set (nt_names t). cmp_of (id_of t a) (id_of t b) = mcmp a b)"

lemma build_name_table_ok:
  assumes "lawful_cmp mcmp (\<lambda>s. s)" "build_name_table mcmp c = Inr t"
  shows "table_ok mcmp t" "set (nt_names t) = set (cache_names c)"
proof -
  define names where "names = sort_by mcmp (remdups (cache_names c))"
  have t: "t = \<lparr>nt_names = names, nt_ids = zip names (map of_nat [0..<length names])\<rparr>"
    and len: "length (remdups (cache_names c)) \<le> MAX_NAME_ID"
    using assms(2) by (auto simp: build_name_table_def names_def Let_def split: if_splits)
  show set: "set (nt_names t) = set (cache_names c)" by (simp add: t names_def)
  have length: "length names = length (remdups (cache_names c))"
    unfolding names_def by (metis mset_sort_by size_mset)
  have dist: "distinct names" by (simp add: names_def)
  have id: "id_of t (names ! i) = of_nat i" if "i < length names" for i
  proof -
    have "map_of (zip names (map of_nat [0..<length names])) (names ! i) = Some (of_nat i :: name_id)"
      using that dist by (subst map_of_zip_nth) simp_all
    then show ?thesis by (simp add: id_of_def t)
  qed
  have unat: "unat (of_nat i :: name_id) = i" if "i < length names" for i
    using that len length by (simp add: unsigned_of_nat take_bit_nat_eq_self MAX_NAME_ID_def)
  have asc: "lawful_cmp.ascending mcmp names"
    unfolding names_def by (rule lawful_cmp.ascending_sort_by [OF assms(1)])
  have less: "mcmp (names ! i) (names ! j) = Less" if "i < j" "j < length names" for i j
  proof -
    have "mcmp (names ! i) (names ! j) \<noteq> Greater"
      using asc that unfolding lawful_cmp.ascending_def [OF assms(1)] by (auto simp: sorted_wrt_iff_nth_less)
    moreover have "mcmp (names ! i) (names ! j) \<noteq> Equal"
      using dist that by (simp add: lawful_cmp.equal_iff [OF assms(1)] nth_eq_iff_index_eq)
    ultimately show ?thesis by (cases "mcmp (names ! i) (names ! j)") auto
  qed
  have "decode_name names (id_of t n) = Inr n" if "n \<in> set names" for n
    using that id unat by (auto simp: in_set_conv_nth decode_name_def)
  moreover have "cmp_of (id_of t a) (id_of t b) = mcmp a b" if a: "a \<in> set names" and b: "b \<in> set names" for a b
  proof -
    obtain i where i: "i < length names" "names ! i = a" using a unfolding in_set_conv_nth by blast
    obtain j where j: "j < length names" "names ! j = b" using b unfolding in_set_conv_nth by blast
    note ij = i(1) i(2) [symmetric] j(1) j(2) [symmetric]
    have lt: "(of_nat i :: name_id) < of_nat j \<longleftrightarrow> i < j" "(of_nat i :: name_id) = of_nat j \<longleftrightarrow> i = j"
      using unat ij by (simp_all add: word_less_nat_alt, metis)
    consider "i < j" | "i = j" | "j < i" by linarith
    then show ?thesis
    proof cases
      case 1
      then show ?thesis using ij id lt less by (simp add: cmp_of_def)
    next
      case 2
      then show ?thesis using ij by (simp add: cmp_of_def lawful_cmp.cmp_refl [OF assms(1)])
    next
      case 3
      then have "mcmp b a = Less" using less ij by simp
      then have "mcmp a b = Greater" by (simp add: lawful_cmp.greater_iff [OF assms(1)])
      then show ?thesis using 3 ij id lt by (simp add: cmp_of_def)
    qed
  qed
  ultimately show "table_ok mcmp t" using assms(1) by (simp add: table_ok_def t)
qed

text \<open>The names a cache looks up are the names of its table, so no lookup misses.\<close>

lemma cache_names_in_table:
  assumes "lawful_cmp mcmp (\<lambda>s. s)" "build_name_table mcmp c = Inr t"
  shows "n \<in> set (cache_names c) \<longleftrightarrow> map_of (nt_ids t) n \<noteq> None"
proof -
  have "map fst (nt_ids t) = nt_names t"
    using assms(2) by (auto simp: build_name_table_def Let_def map_fst_zip split: if_splits)
  then have "fst ` set (nt_ids t) = set (nt_names t)" by (metis set_map)
  then show ?thesis
    using build_name_table_ok(2) [OF assms] by (simp add: map_of_eq_None_iff)
qed

section \<open>Normal forms\<close>

definition view_error :: "safety_error \<Rightarrow> safety_error" where
  "view_error e = e\<lparr>err_range := default_range\<rparr>"

definition view_safety :: "(modname \<Rightarrow> modname \<Rightarrow> ordering) \<Rightarrow> cached_safety \<Rightarrow> cached_safety" where
  "view_safety mcmp s =
     (case s of
        CachedOk s \<Rightarrow> CachedOk
          \<lparr>c_errors = map view_error (sort_by (error_cmp mcmp) (c_errors s)),
           c_overrides = map view_error (sort_by (error_cmp mcmp) (c_overrides s)),
           c_implicit = sort_by mcmp (c_implicit s)\<rparr>
      | CachedAnalysisError message \<Rightarrow> CachedAnalysisError message)"

definition view_info :: "(modname \<Rightarrow> modname \<Rightarrow> ordering) \<Rightarrow> function_safety_info \<Rightarrow> function_safety_info" where
  "view_info mcmp info =
     \<lparr>verdict = verdict info, missing_dep_callees = sort_by mcmp (missing_dep_callees info),
      mutated_params = sort_by (\<lambda>a b. mcmp (mp_name a) (mp_name b)) (mutated_params info)\<rparr>"

definition view_candidate :: "(modname \<Rightarrow> modname \<Rightarrow> ordering) \<Rightarrow> mutation_candidate \<Rightarrow> mutation_candidate" where
  "view_candidate mcmp c =
     c\<lparr>mc_range := default_range,
       mc_imported_args := (mc_imported_args c)
         \<lparr>unsafe_keyword_names := sort_by mcmp (unsafe_keyword_names (mc_imported_args c))\<rparr>\<rparr>"

definition view_property :: "property_candidate \<Rightarrow> property_candidate" where
  "view_property c = c\<lparr>pc_range := default_range\<rparr>"

definition view_subclass :: "subclass_candidate \<Rightarrow> subclass_candidate" where
  "view_subclass c = c\<lparr>sc_range := default_range\<rparr>"

definition view_module :: "(modname \<Rightarrow> modname \<Rightarrow> ordering) \<Rightarrow> cached_module \<Rightarrow> cached_module" where
  "view_module mcmp m =
     \<lparr>cm_name = cm_name m, cm_safety = view_safety mcmp (cm_safety m), cm_imports = sort_by mcmp (cm_imports m),
      cm_missing = sort_by mcmp (cm_missing m), cm_ambiguous = sort_by mcmp (cm_ambiguous m),
      cm_side_effects = sort_by mcmp (cm_side_effects m),
      cm_functions = map (\<lambda>(name, info). (name, view_info mcmp info))
        (sort_by (\<lambda>a b. cmp_of (fst a) (fst b)) (cm_functions m)),
      cm_mutations = map (view_candidate mcmp) (cm_mutations m),
      cm_properties = map view_property (sort_by (property_candidate_cmp mcmp) (cm_properties m)),
      cm_subclasses = map view_subclass (sort_by (subclass_candidate_cmp mcmp) (cm_subclasses m)),
      cm_guard_imports = sort_by mcmp (cm_guard_imports m)\<rparr>"

text \<open>The hash sets and hash maps of a module, as lists, have no duplicates.\<close>

definition wire_ok :: "cached_module \<Rightarrow> bool" where
  "wire_ok m \<longleftrightarrow>
     distinct (cm_imports m) \<and> distinct (cm_missing m) \<and> distinct (cm_ambiguous m) \<and>
     distinct (cm_side_effects m) \<and> distinct (cm_guard_imports m) \<and> distinct (map fst (cm_functions m)) \<and>
     (\<forall>(_, info) \<in> set (cm_functions m). distinct (missing_dep_callees info))"

section \<open>One record\<close>

lemma encode_sorted_eq:
  "table_ok mcmp t \<Longrightarrow> set ns \<subseteq> set (nt_names t) \<Longrightarrow> encode_sorted t ns = map (id_of t) (sort_by mcmp ns)"
  unfolding encode_sorted_def by (rule sort_by_map) (auto simp: table_ok_def)

lemma decode_names_ids:
  "table_ok mcmp t \<Longrightarrow> set ns \<subseteq> set (nt_names t) \<Longrightarrow> decode_names (nt_names t) (map (id_of t) ns) = Inr ns"
  unfolding decode_names_def collect_res_map
  by (subst collect_res_Inr [where g = "\<lambda>n. n"]) (auto simp: table_ok_def)

lemma decode_name_id: "table_ok mcmp t \<Longrightarrow> n \<in> set (nt_names t) \<Longrightarrow> decode_name (nt_names t) (id_of t n) = Inr n"
  by (simp add: table_ok_def)

lemma decode_encode_sorted:
  "table_ok mcmp t \<Longrightarrow> set ns \<subseteq> set (nt_names t) \<Longrightarrow>
     decode_names (nt_names t) (encode_sorted t ns) = Inr (sort_by mcmp ns)"
  by (simp add: encode_sorted_eq decode_names_ids)

lemma decode_encode_set:
  "table_ok mcmp t \<Longrightarrow> set ns \<subseteq> set (nt_names t) \<Longrightarrow> distinct ns \<Longrightarrow>
     decode_name_set (nt_names t) (encode_sorted t ns) = Inr (sort_by mcmp ns)"
  by (simp add: decode_name_set_def decode_encode_sorted distinct_remdups_id)

named_theorems wire_simps \<open>decoding an encoded record\<close>

lemmas [wire_simps] = decode_encode_sorted decode_encode_set decode_name_id

lemma decode_encode_safety [wire_simps]:
  "table_ok mcmp t \<Longrightarrow> set (safety_names s) \<subseteq> set (nt_names t) \<Longrightarrow>
     decode_safety (nt_names t) (encode_safety mcmp t s) = Inr (view_safety mcmp s)"
  by (cases s)
    (simp_all add: safety_names_def encode_safety_def decode_safety_def view_safety_def wire_simps sorted_errors_def
      comp_def deserialize_serialize view_error_def [abs_def])

lemma encode_params_eq:
  assumes "table_ok mcmp t" "set (map mp_name ps) \<subseteq> set (nt_names t)"
  shows "sort_by (\<lambda>a b. cmp_of (fst a) (fst b)) (map (\<lambda>p. (id_of t (mp_name p), mp_position p)) ps) =
    map (\<lambda>p. (id_of t (mp_name p), mp_position p)) (sort_by (\<lambda>a b. mcmp (mp_name a) (mp_name b)) ps)"
proof (rule sort_by_map)
  fix x y assume "x \<in> set ps" "y \<in> set ps"
  then have "mp_name x \<in> set (nt_names t)" "mp_name y \<in> set (nt_names t)" using assms(2) by auto
  with assms(1) show "cmp_of (fst (id_of t (mp_name x), mp_position x)) (fst (id_of t (mp_name y), mp_position y)) =
      mcmp (mp_name x) (mp_name y)"
    by (simp add: table_ok_def)
qed

lemma decode_encode_info [wire_simps]:
  assumes "table_ok mcmp t" "set (info_names info) \<subseteq> set (nt_names t)" "distinct (missing_dep_callees info)"
  shows "decode_info (nt_names t) (encode_info t info) = Inr (view_info mcmp info)"
proof -
  have "collect_res ((\<lambda>(i, position).
          bind_res (decode_name (nt_names t) i) (\<lambda>n. Inr \<lparr>mp_name = n, mp_position = position\<rparr>)) \<circ>
        (\<lambda>p. (id_of t (mp_name p), mp_position p))) ps = Inr (map (\<lambda>p. p) ps)"
    if "set (map mp_name ps) \<subseteq> set (nt_names t)" for ps
    using that assms(1) by (intro collect_res_Inr) (auto simp: wire_simps)
  moreover have "set (map mp_name (sort_by (\<lambda>a b. mcmp (mp_name a) (mp_name b)) (mutated_params info))) \<subseteq> set (nt_names t)"
    using assms(2) by (simp add: info_names_def)
  ultimately show ?thesis
    using assms
    by (simp add: encode_info_def decode_info_def view_info_def encode_params_eq info_names_def wire_simps
        collect_res_map)
qed

lemma decode_encode_site [wire_simps]:
  "table_ok mcmp t \<Longrightarrow> site_name s \<in> set (nt_names t) \<Longrightarrow> decode_site (nt_names t) (encode_site t s) = Inr s"
  by (cases s) (simp_all add: wire_simps)

lemma decode_encode_candidate [wire_simps]:
  "table_ok mcmp t \<Longrightarrow> set (candidate_names c) \<subseteq> set (nt_names t) \<Longrightarrow>
     decode_candidate (nt_names t) (encode_candidate t c) = Inr (view_candidate mcmp c)"
  by (simp add: candidate_names_def encode_candidate_def decode_candidate_def view_candidate_def wire_simps)

lemma decode_encode_property [wire_simps]:
  "table_ok mcmp t \<Longrightarrow> pc_attribute c \<in> set (nt_names t) \<Longrightarrow>
     decode_property (nt_names t) (encode_property t c) = Inr (view_property c)"
  by (simp add: encode_property_def decode_property_def view_property_def wire_simps)

lemma decode_encode_subclass [wire_simps]:
  "table_ok mcmp t \<Longrightarrow> sc_class c \<in> set (nt_names t) \<Longrightarrow>
     decode_subclass (nt_names t) (encode_subclass t c) = Inr (view_subclass c)"
  by (simp add: encode_subclass_def decode_subclass_def view_subclass_def wire_simps)

lemma map_extend_distinct: "distinct (map fst (m @ xs)) \<Longrightarrow> map_extend m xs = m @ xs"
proof (induction xs arbitrary: m)
  case (Cons x xs)
  obtain k v where x: "x = (k, v)" by fastforce
  have "k \<notin> fst ` set m" using Cons.prems by (auto simp: x)
  then have "AList.update k v m = m @ [(k, v)]" by (induction m) auto
  then show ?case using Cons.IH [of "m @ [(k, v)]"] Cons.prems by (simp add: map_extend_def x)
qed (simp add: map_extend_def)

lemma decode_encode_functions [wire_simps]:
  assumes "table_ok mcmp t" "\<forall>(_, info) \<in> set fs. set (info_names info) \<subseteq> set (nt_names t)"
    "distinct (map fst fs)" "\<forall>(_, info) \<in> set fs. distinct (missing_dep_callees info)"
  shows "decode_functions (nt_names t)
      (map (\<lambda>(name, info). (name, encode_info t info)) (sort_by (\<lambda>a b. cmp_of (fst a) (fst b)) fs)) =
    Inr (map (\<lambda>(name, info). (name, view_info mcmp info)) (sort_by (\<lambda>a b. cmp_of (fst a) (fst b)) fs))"
proof -
  let ?fs = "sort_by (\<lambda>a b. cmp_of (fst a) (fst b)) fs"
  have "mset (map fst ?fs) = mset (map fst fs)" by simp
  then have "distinct (map fst ?fs)" using assms(3) mset_eq_imp_distinct_iff by blast
  then have "distinct (map fst ([] @ map (\<lambda>(name, info). (name, view_info mcmp info)) ?fs))"
    by (simp add: comp_def case_prod_unfold)
  note distinct = map_extend_distinct [OF this]
  have "collect_res ((\<lambda>(name, w). bind_res (decode_info (nt_names t) w) (\<lambda>info. Inr (name, info))) \<circ>
      (\<lambda>(name, info). (name, encode_info t info))) ?fs = Inr (map (\<lambda>(name, info). (name, view_info mcmp info)) ?fs)"
  proof (rule collect_res_Inr)
    fix x assume "x \<in> set ?fs"
    then have "x \<in> set fs" by simp
    then obtain name info where x: "x = (name, info)" "(name, info) \<in> set fs" by (metis prod.collapse)
    then have "set (info_names info) \<subseteq> set (nt_names t)" "distinct (missing_dep_callees info)"
      using assms(2,4) by blast+
    then show "((\<lambda>(name, w). bind_res (decode_info (nt_names t) w) (\<lambda>info. Inr (name, info))) \<circ>
        (\<lambda>(name, info). (name, encode_info t info))) x = Inr ((\<lambda>(name, info). (name, view_info mcmp info)) x)"
      by (simp add: x(1) decode_encode_info [OF assms(1)])
  qed
  then show ?thesis unfolding decode_functions_def collect_res_map by (simp add: distinct)
qed

lemma decode_encode_module:
  assumes "table_ok mcmp t" "set (collect_module_names m) \<subseteq> set (nt_names t)" "wire_ok m"
  shows "decode_module (nt_names t) (encode_module mcmp t m) = Inr (view_module mcmp m)"
proof -
  have names: "cm_name m \<in> set (nt_names t)" "set (cm_imports m) \<subseteq> set (nt_names t)"
    "set (cm_missing m) \<subseteq> set (nt_names t)" "set (cm_ambiguous m) \<subseteq> set (nt_names t)"
    "set (cm_side_effects m) \<subseteq> set (nt_names t)" "set (cm_guard_imports m) \<subseteq> set (nt_names t)"
    "set (safety_names (cm_safety m)) \<subseteq> set (nt_names t)"
    "\<forall>c \<in> set (cm_mutations m). set (candidate_names c) \<subseteq> set (nt_names t)"
    "\<forall>c \<in> set (cm_properties m). pc_attribute c \<in> set (nt_names t)"
    "\<forall>c \<in> set (cm_subclasses m). sc_class c \<in> set (nt_names t)"
    using assms(2) by (auto simp: collect_module_names_def)
  have "set (concat (map (\<lambda>(_, info). info_names info) (cm_functions m))) \<subseteq> set (nt_names t)"
    using assms(2) by (simp add: collect_module_names_def)
  then have infos: "\<forall>(_, info) \<in> set (cm_functions m). set (info_names info) \<subseteq> set (nt_names t)"
    by fastforce
  have lists:
    "collect_res (decode_candidate (nt_names t) \<circ> encode_candidate t) (cm_mutations m) =
       Inr (map (view_candidate mcmp) (cm_mutations m))"
    "collect_res (decode_property (nt_names t) \<circ> encode_property t) (sort_by (property_candidate_cmp mcmp) (cm_properties m)) =
       Inr (map view_property (sort_by (property_candidate_cmp mcmp) (cm_properties m)))"
    "collect_res (decode_subclass (nt_names t) \<circ> encode_subclass t) (sort_by (subclass_candidate_cmp mcmp) (cm_subclasses m)) =
       Inr (map view_subclass (sort_by (subclass_candidate_cmp mcmp) (cm_subclasses m)))"
    using assms(1) names(8-10) by (auto intro!: collect_res_Inr simp: wire_simps)
  show ?thesis
    using assms(1,3) names(1-7) infos
    by (simp add: encode_module_def decode_module_def view_module_def wire_ok_def wire_simps collect_res_map lists)
qed

section \<open>The header\<close>

definition callees_entry :: "(modname \<Rightarrow> modname \<Rightarrow> ordering) \<Rightarrow> modname \<times> constructor_callees \<Rightarrow>
    modname \<times> modname option \<times> 8 word \<times> modname list" where
  "callees_entry mcmp c = (case c of (class, r) \<Rightarrow> (class, metaclass r, mask r, sort_by mcmp (extra r)))"

definition callees_of_entry :: "modname \<times> modname option \<times> 8 word \<times> modname list \<Rightarrow> modname \<times> constructor_callees" where
  "callees_of_entry w = (case w of (class, mc, msk, ex) \<Rightarrow> (class, \<lparr>metaclass = mc, mask = msk, extra = ex\<rparr>))"

definition view_cache :: "(modname \<Rightarrow> modname \<Rightarrow> ordering) \<Rightarrow> cached_module list \<Rightarrow> library_cache \<Rightarrow> library_cache" where
  "view_cache mcmp modules c =
     \<lparr>lc_modules = modules,
      lc_re_exports = sort_by (re_export_cmp mcmp) (lc_re_exports c),
      lc_return_types = sort_by (return_type_cmp mcmp) (lc_return_types c),
      lc_class_bases = sort_by (pair_cmp mcmp (cmp_list mcmp)) (lc_class_bases c),
      lc_class_properties = sort_by (pair_cmp mcmp (cmp_list cmp_of))
        (map (\<lambda>(class, properties). (class, sort_by cmp_of properties)) (lc_class_properties c)),
      lc_constructor_callees = map callees_of_entry
        (sort_by (callees_cmp mcmp) (map (callees_entry mcmp) (lc_constructor_callees c)))\<rparr>"

definition wire_of_entry :: "name_table \<Rightarrow> modname \<times> modname option \<times> 8 word \<times> modname list \<Rightarrow> wire_callees" where
  "wire_of_entry t w = (case w of (class, mc, msk, ex) \<Rightarrow>
     (id_of t class, map_option (id_of t) mc, msk, map (id_of t) ex))"

definition entry_names :: "modname \<times> modname option \<times> 8 word \<times> modname list \<Rightarrow> modname set" where
  "entry_names w = (case w of (class, mc, msk, ex) \<Rightarrow> insert class (set_option mc \<union> set ex))"

text \<open>Each list of the header is the sorted list of the cache, name for id.\<close>

lemma concat_map_mem: "x \<in> set xs \<Longrightarrow> set (f x) \<subseteq> set (concat (map f xs))"
  by auto

lemma header_names_mem:
  "r \<in> set (lc_re_exports c) \<Longrightarrow> set [exported_module r, imported_module r] \<subseteq> set (header_names c)"
  "rt \<in> set (lc_return_types c) \<Longrightarrow> set [rt_function rt, rt_class rt] \<subseteq> set (header_names c)"
  "(class, bases) \<in> set (lc_class_bases c) \<Longrightarrow> set (class # bases) \<subseteq> set (header_names c)"
  "(class, k) \<in> set (lc_constructor_callees c) \<Longrightarrow>
     set (class # (case metaclass k of None \<Rightarrow> [] | Some mc \<Rightarrow> [mc]) @ extra k) \<subseteq> set (header_names c)"
  "(class, properties) \<in> set (lc_class_properties c) \<Longrightarrow> class \<in> set (header_names c)"
  unfolding header_names_def set_append
  using concat_map_mem [of r "lc_re_exports c" "\<lambda>r. [exported_module r, imported_module r]"]
    concat_map_mem [of rt "lc_return_types c" "\<lambda>r. [rt_function r, rt_class r]"]
    concat_map_mem [of "(class, bases)" "lc_class_bases c" "\<lambda>(class, bases). class # bases"]
    concat_map_mem [of "(class, k)" "lc_constructor_callees c"
      "\<lambda>(class, r). class # (case metaclass r of None \<Rightarrow> [] | Some mc \<Rightarrow> [mc]) @ extra r"]
    imageI [of "(class, properties)" "set (lc_class_properties c)" fst]
  by (simp_all only: prod.case fst_conv set_map) blast+

lemma header_lists:
  assumes "table_ok mcmp t" "set (header_names c) \<subseteq> set (nt_names t)"
  shows "wh_exports (encode_header t c) = map (encode_re_export t) (lc_re_exports (view_cache mcmp ms c))"
    and "wh_return_types (encode_header t c) =
      map (\<lambda>r. (id_of t (rt_function r), id_of t (rt_class r))) (lc_return_types (view_cache mcmp ms c))"
    and "wh_class_bases (encode_header t c) =
      map (\<lambda>(class, bases). (id_of t class, map (id_of t) bases)) (lc_class_bases (view_cache mcmp ms c))"
    and "wh_constructor_callees (encode_header t c) = map (wire_of_entry t)
      (sort_by (callees_cmp mcmp) (map (callees_entry mcmp) (lc_constructor_callees c)))"
    and "wh_class_properties (encode_header t c) =
      map (\<lambda>(class, properties). (id_of t class, properties)) (lc_class_properties (view_cache mcmp ms c))"
proof -
  have ord: "cmp_of (id_of t a) (id_of t b) = mcmp a b" if "a \<in> set (header_names c)" "b \<in> set (header_names c)" for a b
    using assms that unfolding table_ok_def by blast
  have mem: "\<And>r. r \<in> set (lc_re_exports c) \<Longrightarrow> exported_module r \<in> set (header_names c) \<and> imported_module r \<in> set (header_names c)"
    "\<And>r. r \<in> set (lc_return_types c) \<Longrightarrow> rt_function r \<in> set (header_names c) \<and> rt_class r \<in> set (header_names c)"
    "\<And>r. r \<in> set (lc_class_bases c) \<Longrightarrow> fst r \<in> set (header_names c) \<and> set (snd r) \<subseteq> set (header_names c)"
    "\<And>r. r \<in> set (lc_class_properties c) \<Longrightarrow> fst r \<in> set (header_names c)"
  proof -
    show "exported_module r \<in> set (header_names c) \<and> imported_module r \<in> set (header_names c)"
      if "r \<in> set (lc_re_exports c)" for r
      using header_names_mem(1) [OF that] by simp
    show "rt_function r \<in> set (header_names c) \<and> rt_class r \<in> set (header_names c)"
      if "r \<in> set (lc_return_types c)" for r
      using header_names_mem(2) [OF that] by simp
    show "fst r \<in> set (header_names c) \<and> set (snd r) \<subseteq> set (header_names c)"
      if "r \<in> set (lc_class_bases c)" for r
      using that header_names_mem(3) [of "fst r" "snd r" c] by simp
    show "fst r \<in> set (header_names c)" if "r \<in> set (lc_class_properties c)" for r
      using that header_names_mem(5) [of "fst r" "snd r" c] by simp
  qed
  have mem_callees: "entry_names (callees_entry mcmp r) \<subseteq> set (header_names c)" if "r \<in> set (lc_constructor_callees c)" for r
  proof -
    obtain cls k where r: "r = (cls, k)" by fastforce
    have "set (cls # (case metaclass k of None \<Rightarrow> [] | Some mc \<Rightarrow> [mc]) @ extra k) \<subseteq> set (header_names c)"
      using that unfolding r by (rule header_names_mem(4))
    then show ?thesis by (cases "metaclass k") (simp_all add: entry_names_def callees_entry_def r)
  qed
  show "wh_exports (encode_header t c) = map (encode_re_export t) (lc_re_exports (view_cache mcmp ms c))"
    unfolding encode_header_def view_cache_def wire_header.simps library_cache.simps
    by (rule sort_by_map) (simp add: sort_key_cmp_def re_export_cmp_def encode_re_export_def ord mem(1))
  show "wh_return_types (encode_header t c) =
      map (\<lambda>r. (id_of t (rt_function r), id_of t (rt_class r))) (lc_return_types (view_cache mcmp ms c))"
    unfolding encode_header_def view_cache_def wire_header.simps library_cache.simps
    by (rule sort_by_map) (simp add: pair_cmp_def return_type_cmp_def ord mem(2))
  show "wh_class_bases (encode_header t c) =
      map (\<lambda>(class, bases). (id_of t class, map (id_of t) bases)) (lc_class_bases (view_cache mcmp ms c))"
    unfolding encode_header_def view_cache_def wire_header.simps library_cache.simps
  proof (rule sort_by_map)
    fix x y assume xy: "x \<in> set (lc_class_bases c)" "y \<in> set (lc_class_bases c)"
    have "cmp_list cmp_of (map (id_of t) (snd x)) (map (id_of t) (snd y)) = cmp_list mcmp (snd x) (snd y)"
      using mem(3) xy by (intro cmp_list_map ord) blast+
    then show "pair_cmp cmp_of (cmp_list cmp_of) (case x of (class, bases) \<Rightarrow> (id_of t class, map (id_of t) bases))
        (case y of (class, bases) \<Rightarrow> (id_of t class, map (id_of t) bases)) = pair_cmp mcmp (cmp_list mcmp) x y"
      using mem(3) xy by (simp add: pair_cmp_def ord case_prod_unfold)
  qed
  show "wh_constructor_callees (encode_header t c) = map (wire_of_entry t)
      (sort_by (callees_cmp mcmp) (map (callees_entry mcmp) (lc_constructor_callees c)))"
  proof -
    have "map (\<lambda>(class, r). (id_of t class, map_option (id_of t) (metaclass r), mask r, encode_sorted t (extra r)))
        (lc_constructor_callees c) = map (wire_of_entry t) (map (callees_entry mcmp) (lc_constructor_callees c))"
      unfolding map_map
    proof (rule map_cong [OF refl])
      fix x assume "x \<in> set (lc_constructor_callees c)"
      then have "set (extra (snd x)) \<subseteq> set (nt_names t)"
        using mem_callees assms(2) by (fastforce simp: entry_names_def callees_entry_def split: prod.splits)
      then show "(case x of (class, r) \<Rightarrow> (id_of t class, map_option (id_of t) (metaclass r), mask r, encode_sorted t (extra r))) =
          (wire_of_entry t \<circ> callees_entry mcmp) x"
        by (simp add: wire_of_entry_def callees_entry_def encode_sorted_eq [OF assms(1)] case_prod_unfold)
    qed
    moreover have "sort_by (callees_cmp cmp_of) (map (wire_of_entry t) (map (callees_entry mcmp) (lc_constructor_callees c))) =
        map (wire_of_entry t) (sort_by (callees_cmp mcmp) (map (callees_entry mcmp) (lc_constructor_callees c)))"
    proof (rule sort_by_map)
      fix x y assume xy: "x \<in> set (map (callees_entry mcmp) (lc_constructor_callees c))"
        "y \<in> set (map (callees_entry mcmp) (lc_constructor_callees c))"
      obtain a m k es where x: "x = (a, m, k, es)" by (metis prod.collapse)
      obtain b n l fs where y: "y = (b, n, l, fs)" by (metis prod.collapse)
      have sub: "entry_names x \<subseteq> set (header_names c)" "entry_names y \<subseteq> set (header_names c)"
        using xy mem_callees by auto
      have "cmp_option cmp_of (map_option (id_of t) m) (map_option (id_of t) n) = cmp_option mcmp m n"
        using sub by (intro cmp_option_map ord) (auto simp: x y entry_names_def)
      moreover have "cmp_list cmp_of (map (id_of t) es) (map (id_of t) fs) = cmp_list mcmp es fs"
        using sub by (intro cmp_list_map ord) (auto simp: x y entry_names_def)
      ultimately show "callees_cmp cmp_of (wire_of_entry t x) (wire_of_entry t y) = callees_cmp mcmp x y"
        using sub by (simp add: callees_cmp_def pair_cmp_def wire_of_entry_def x y ord entry_names_def)
    qed
    ultimately show ?thesis unfolding encode_header_def wire_header.simps by (simp only:)
  qed
  show "wh_class_properties (encode_header t c) =
      map (\<lambda>(class, properties). (id_of t class, properties)) (lc_class_properties (view_cache mcmp ms c))"
  proof -
    let ?ps = "map (\<lambda>(class, properties). (class, sort_by cmp_of properties)) (lc_class_properties c)"
    have "map (\<lambda>(class, properties). (id_of t class, sort_by cmp_of properties)) (lc_class_properties c) =
        map (\<lambda>(class, properties). (id_of t class, properties)) ?ps"
      by (simp add: comp_def case_prod_unfold)
    moreover have "sort_by (pair_cmp cmp_of (cmp_list cmp_of)) (map (\<lambda>(class, properties). (id_of t class, properties)) ?ps) =
        map (\<lambda>(class, properties). (id_of t class, properties)) (sort_by (pair_cmp mcmp (cmp_list cmp_of)) ?ps)"
    proof (rule sort_by_map)
      fix x y assume "x \<in> set ?ps" "y \<in> set ?ps"
      then have "fst x \<in> set (header_names c)" "fst y \<in> set (header_names c)" using mem(4) by auto
      then show "pair_cmp cmp_of (cmp_list cmp_of) (case x of (class, properties) \<Rightarrow> (id_of t class, properties))
          (case y of (class, properties) \<Rightarrow> (id_of t class, properties)) = pair_cmp mcmp (cmp_list cmp_of) x y"
        by (simp add: pair_cmp_def ord case_prod_unfold)
    qed
    ultimately show ?thesis
      unfolding encode_header_def view_cache_def wire_header.simps library_cache.simps by (simp only:)
  qed
qed

text \<open>Decoding the header gives the normal form of the rest of the cache.\<close>

lemma decode_encode_header:
  assumes "table_ok mcmp t" "set (header_names c) \<subseteq> set (nt_names t)"
  shows "decode_cache (encode_header t c) ms = Inr (view_cache mcmp ms c)"
proof -
  let ?v = "view_cache mcmp ms c"
  have names: "wh_names (encode_header t c) = nt_names t" by (simp add: encode_header_def)

  have "collect_res (decode_re_export (nt_names t) \<circ> encode_re_export t) (lc_re_exports ?v) =
      Inr (map (\<lambda>r. r) (lc_re_exports ?v))"
  proof (rule collect_res_Inr)
    fix x assume "x \<in> set (lc_re_exports ?v)"
    then have "x \<in> set (lc_re_exports c)" by (simp add: view_cache_def)
    from subset_trans [OF header_names_mem(1) [OF this] assms(2)]
    show "(decode_re_export (nt_names t) \<circ> encode_re_export t) x = Inr x"
      by (simp add: decode_re_export_def encode_re_export_def decode_name_id [OF assms(1)])
  qed
  moreover have "collect_res ((\<lambda>(function, class).
          bind_res (decode_name (nt_names t) function) (\<lambda>f. bind_res (decode_name (nt_names t) class) (\<lambda>c.
          Inr \<lparr>rt_function = f, rt_class = c\<rparr>))) \<circ> (\<lambda>r. (id_of t (rt_function r), id_of t (rt_class r))))
        (lc_return_types ?v) = Inr (map (\<lambda>r. r) (lc_return_types ?v))"
  proof (rule collect_res_Inr)
    fix x assume "x \<in> set (lc_return_types ?v)"
    then have "x \<in> set (lc_return_types c)" by (simp add: view_cache_def)
    from subset_trans [OF header_names_mem(2) [OF this] assms(2)]
    show "((\<lambda>(function, class).
          bind_res (decode_name (nt_names t) function) (\<lambda>f. bind_res (decode_name (nt_names t) class) (\<lambda>c.
          Inr \<lparr>rt_function = f, rt_class = c\<rparr>))) \<circ> (\<lambda>r. (id_of t (rt_function r), id_of t (rt_class r)))) x = Inr x"
      by (simp add: decode_name_id [OF assms(1)])
  qed
  moreover have "collect_res ((\<lambda>(class, bases).
          bind_res (decode_name (nt_names t) class) (\<lambda>c. bind_res (decode_names (nt_names t) bases) (\<lambda>bs. Inr (c, bs)))) \<circ>
        (\<lambda>(class, bases). (id_of t class, map (id_of t) bases))) (lc_class_bases ?v) =
      Inr (map (\<lambda>r. r) (lc_class_bases ?v))"
  proof (rule collect_res_Inr)
    fix x assume "x \<in> set (lc_class_bases ?v)"
    then have "(fst x, snd x) \<in> set (lc_class_bases c)" by (simp add: view_cache_def)
    from subset_trans [OF header_names_mem(3) [OF this] assms(2)]
    have "set (fst x # snd x) \<subseteq> set (nt_names t)" .
    then show "((\<lambda>(class, bases).
          bind_res (decode_name (nt_names t) class) (\<lambda>c. bind_res (decode_names (nt_names t) bases) (\<lambda>bs. Inr (c, bs)))) \<circ>
        (\<lambda>(class, bases). (id_of t class, map (id_of t) bases))) x = Inr x"
      using assms(1) by (simp add: case_prod_unfold decode_name_id decode_names_ids)
  qed
  moreover have "collect_res (decode_callees (nt_names t) \<circ> wire_of_entry t)
        (sort_by (callees_cmp mcmp) (map (callees_entry mcmp) (lc_constructor_callees c))) =
      Inr (lc_constructor_callees ?v)"
    unfolding view_cache_def library_cache.simps
  proof (rule collect_res_Inr)
    fix x assume "x \<in> set (sort_by (callees_cmp mcmp) (map (callees_entry mcmp) (lc_constructor_callees c)))"
    then obtain cls k where k: "(cls, k) \<in> set (lc_constructor_callees c)" "x = callees_entry mcmp (cls, k)" by auto
    have "set (cls # (case metaclass k of None \<Rightarrow> [] | Some mc \<Rightarrow> [mc]) @ extra k) \<subseteq> set (nt_names t)"
      using header_names_mem(4) [OF k(1)] assms(2) by (rule subset_trans)
    then show "(decode_callees (nt_names t) \<circ> wire_of_entry t) x = Inr (callees_of_entry x)"
      using assms(1)
      by (cases "metaclass k")
        (simp_all add: k(2) decode_callees_def wire_of_entry_def callees_entry_def callees_of_entry_def
          decode_name_id decode_names_ids)
  qed
  moreover have "collect_res ((\<lambda>(class, properties).
          bind_res (decode_name (nt_names t) class) (\<lambda>c. Inr (c, properties))) \<circ>
        (\<lambda>(class, properties). (id_of t class, properties))) (lc_class_properties ?v) =
      Inr (map (\<lambda>r. r) (lc_class_properties ?v))"
  proof (rule collect_res_Inr)
    fix x assume "x \<in> set (lc_class_properties ?v)"
    then obtain ps where "(fst x, ps) \<in> set (lc_class_properties c)" by (auto simp: view_cache_def)
    from subsetD [OF assms(2) header_names_mem(5) [OF this]]
    have "fst x \<in> set (nt_names t)" .
    then show "((\<lambda>(class, properties).
          bind_res (decode_name (nt_names t) class) (\<lambda>c. Inr (c, properties))) \<circ>
        (\<lambda>(class, properties). (id_of t class, properties))) x = Inr x"
      using assms(1) by (simp add: case_prod_unfold decode_name_id)
  qed
  ultimately show ?thesis
    unfolding decode_cache_def Let_def names header_lists(1-3,5) [OF assms, where ms = ms]
      header_lists(4) [OF assms] collect_res_map
    by (simp add: view_cache_def)
qed

section \<open>The framing\<close>

lemma length_to_le_bytes [simp]: "length (to_le_bytes k n) = k"
  by (induction k arbitrary: n) simp_all

lemma from_to_le_bytes: "n < 256 ^ k \<Longrightarrow> from_le_bytes (to_le_bytes k n) = n"
proof (induction k arbitrary: n)
  case (Suc k)
  have "unat (of_nat (n mod 256) :: byte) = n mod 256"
    by (simp add: unsigned_of_nat take_bit_nat_eq_self)
  moreover have "n div 256 < 256 ^ k" using Suc.prems by (simp add: less_mult_imp_div_less mult.commute)
  ultimately show ?case using Suc.IH by simp
qed simp

definition frame :: "byte list \<Rightarrow> byte list" where
  "frame blob = to_le_bytes 8 (length blob) @ blob"

lemma write_blob_eq: "write_blob blob = (if length blob < USIZE_LIMIT then Inr (frame blob) else Inl LengthTooLarge)"
  by (simp add: write_blob_def write_len_def frame_def)

lemma read_len_at:
  assumes "n < USIZE_LIMIT" "length pre + 8 < USIZE_LIMIT"
  shows "read_len (pre @ to_le_bytes 8 n @ rest) (length pre) = Inr (n, length pre + 8)"
  using assms by (simp add: read_len_def checked_add_def from_to_le_bytes USIZE_LIMIT_def)

lemma read_blob_at:
  assumes "length pre + 8 + length blob < USIZE_LIMIT"
  shows "read_blob trunc (pre @ frame blob @ rest) (length pre) = Inr (blob, length pre + 8 + length blob)"
  using read_len_at [of "length blob" pre "blob @ rest"] assms
  by (simp add: read_blob_def frame_def checked_add_def)

lemma read_blobs_at:
  "length pre + length (concat (map frame blobs)) < USIZE_LIMIT \<Longrightarrow>
     read_blobs (length blobs) (pre @ concat (map frame blobs) @ rest) (length pre) =
       Inr (blobs, length pre + length (concat (map frame blobs)))"
proof (induction blobs arbitrary: pre)
  case (Cons blob blobs)
  have len: "length (frame blob) = 8 + length blob" by (simp add: frame_def)
  have "read_blob TruncatedModule (pre @ frame blob @ concat (map frame blobs) @ rest) (length pre) =
      Inr (blob, length pre + 8 + length blob)"
    using Cons.prems len by (intro read_blob_at) simp
  moreover have "read_blobs (length blobs) ((pre @ frame blob) @ concat (map frame blobs) @ rest) (length (pre @ frame blob)) =
      Inr (blobs, length (pre @ frame blob) + length (concat (map frame blobs)))"
    using Cons.prems by (intro Cons.IH) simp
  ultimately show ?case by (simp add: len add.assoc)
qed simp

lemma frames_length: "8 * length blobs \<le> length (concat (map frame blobs))"
  by (induction blobs) (simp_all add: frame_def)

text \<open>What is read from a prefix is read from the whole.\<close>

lemma read_len_append: "read_len bytes off = Inr r \<Longrightarrow> read_len (bytes @ rest) off = Inr r \<and> snd r \<le> length bytes"
  by (auto simp: read_len_def checked_add_def split: if_splits)

lemma read_blob_append:
  assumes "read_blob e bytes off = Inr r"
  shows "read_blob e (bytes @ rest) off = Inr r \<and> snd r \<le> length bytes"
proof -
  obtain len off' where len: "read_len bytes off = Inr (len, off')"
    using assms by (auto simp: read_blob_def bind_res_Inr)
  from read_len_append [OF len, of rest] assms len show ?thesis
    by (auto simp: read_blob_def checked_add_def split: if_splits)
qed

lemma read_blobs_append:
  "read_blobs n bytes off = Inr r \<Longrightarrow> read_blobs n (bytes @ rest) off = Inr r"
proof (induction n arbitrary: off r)
  case (Suc n)
  then obtain blob off' blobs off'' where "read_blob TruncatedModule bytes off = Inr (blob, off')"
    "read_blobs n bytes off' = Inr (blobs, off'')" "r = (blob # blobs, off'')"
    by (auto simp: bind_res_Inr)
  with Suc.IH read_blob_append show ?case by simp
qed simp

section \<open>A cache on the wire\<close>

text \<open>The limits are compared as binary integers when the writer and the reader are evaluated.\<close>

lemma build_name_table_code [code]:
  "build_name_table mcmp c =
     (let unique = remdups (cache_names c) in
      if 4294967295 < int (length unique) then Inl TooManyNames
      else
        (let names = sort_by mcmp unique
         in Inr \<lparr>nt_names = names, nt_ids = zip names (map of_nat [0..<length names])\<rparr>))"
proof -
  have "\<not> n \<le> MAX_NAME_ID \<longleftrightarrow> 4294967295 < int n" for n
    by (simp add: MAX_NAME_ID_def) linarith
  then show ?thesis by (simp only: build_name_table_def Let_def)
qed

lemma USIZE_LIMIT_int: "n < USIZE_LIMIT \<longleftrightarrow> int n < 18446744073709551616"
  by (simp add: USIZE_LIMIT_def)

lemmas limits_code [code] = write_len_def [unfolded USIZE_LIMIT_int] checked_add_def [unfolded USIZE_LIMIT_int]

text \<open>A codec that knows finitely many records: the number of the record is its byte.\<close>

definition list_codec :: "'a list \<Rightarrow> 'a codec" where
  "list_codec ws =
     \<lparr>to_allocvec = map_of (zip ws (map (\<lambda>i. [of_nat i]) [0..<length ws])),
      from_bytes = (\<lambda>bs. case bs of [b] \<Rightarrow> if unat b < length ws then Some (ws ! unat b) else None | _ \<Rightarrow> None)\<rparr>"

lemma list_codec_ok:
  assumes "length ws \<le> 256"
  shows "codec_ok (list_codec ws)"
  unfolding codec_ok_def
proof (intro allI impI)
  fix w bs assume "to_allocvec (list_codec ws) w = Some bs"
  then have "(w, bs) \<in> set (zip ws (map (\<lambda>i. [of_nat i]) [0..<length ws]))"
    by (simp add: list_codec_def map_of_SomeD)
  then obtain i where i: "i < length ws" "w = ws ! i" "bs = [of_nat i]" by (auto simp: set_zip)
  moreover have "unat (of_nat i :: byte) = i"
    using i(1) assms by (simp add: unsigned_of_nat take_bit_nat_eq_self)
  ultimately show "from_bytes (list_codec ws) bs = Some w" by (simp add: list_codec_def)
qed

definition wire_sample :: library_cache where
  "wire_sample =
     \<lparr>lc_modules = [(empty_cached_module ''b'')\<lparr>cm_imports := [''c'', ''a''],
                      cm_functions := [(''f'', unsafe_missing_dep ''c.g'')]\<rparr>,
                    empty_cached_module ''a''],
      lc_re_exports = [\<lparr>exported_module = ''a'', exported_attr = ''x'', imported_module = ''b'', imported_attr = ''f''\<rparr>],
      lc_return_types = [\<lparr>rt_function = ''b.f'', rt_class = ''b.C''\<rparr>], lc_class_bases = [(''b.C'', [''c.D''])],
      lc_class_properties = [(''b.C'', [''q'', ''p''])],
      lc_constructor_callees = [(''b.C'', \<lparr>metaclass = Some ''c.M'', mask = 3, extra = [''c.D'']\<rparr>)]\<rparr>"

definition wire_sample_table :: name_table where
  "wire_sample_table = projr (build_name_table cmp_of wire_sample)"

definition header_codec :: "wire_header codec" where
  "header_codec = list_codec [encode_header wire_sample_table wire_sample]"

definition module_codec :: "wire_module codec" where
  "module_codec = list_codec (map (encode_module cmp_of wire_sample_table) (lc_modules wire_sample))"

definition wire_sample_bytes :: "byte list" where
  "wire_sample_bytes =
     [1, 0, 0, 0, 0, 0, 0, 0, 0,  2, 0, 0, 0, 0, 0, 0, 0,
      1, 0, 0, 0, 0, 0, 0, 0, 1,  1, 0, 0, 0, 0, 0, 0, 0, 0]"

lemma wire_sample_codecs: "codec_ok header_codec" "codec_ok module_codec"
  unfolding header_codec_def module_codec_def by (rule list_codec_ok; simp add: wire_sample_def)+

lemma wire_sample_written: "write_cache cmp_of header_codec module_codec wire_sample = Inr wire_sample_bytes"
  by code_simp

lemma wire_sample_wire_ok: "\<forall>m \<in> set (lc_modules wire_sample). wire_ok m"
  by (simp add: wire_sample_def wire_ok_def empty_cached_module_def unsafe_missing_dep_def)

lemma wire_sample_length: "length wire_sample_bytes < USIZE_LIMIT"
  by (simp add: wire_sample_bytes_def USIZE_LIMIT_def)

section \<open>Reading back what was written\<close>

lemma collect_res_projr:
  "collect_res f xs = Inr ys \<Longrightarrow> ys = map (\<lambda>x. projr (f x)) xs \<and> (\<forall>x\<in>set xs. f x = Inr (projr (f x)))"
  by (induction xs arbitrary: ys) (auto simp: bind_res_Inr)

lemma write_cache_frames:
  assumes "write_cache mcmp ch cm c = Inr bytes"
  obtains t unsorted header_bytes where
    "build_name_table mcmp c = Inr t" "collect_res (encode_blob mcmp cm t) (lc_modules c) = Inr unsorted"
    "to_allocvec ch (encode_header t c) = Some header_bytes" "length unsorted < USIZE_LIMIT"
    "bytes = frame header_bytes @ to_le_bytes 8 (length unsorted) @
       concat (map frame (map snd (sort_by (pair_cmp cmp_of (cmp_list cmp_of)) unsorted)))"
proof -
  from assms obtain t where t: "build_name_table mcmp c = Inr t"
    by (auto simp: write_cache_def bind_res_Inr)
  from assms t obtain unsorted where unsorted: "collect_res (encode_blob mcmp cm t) (lc_modules c) = Inr unsorted"
    by (auto simp: write_cache_def bind_res_Inr Let_def)
  let ?blobs = "sort_by (pair_cmp cmp_of (cmp_list cmp_of)) unsorted"
  from assms t unsorted obtain hb header count blobs where
    hb: "to_allocvec ch (encode_header t c) = Some hb" and header: "write_blob hb = Inr header"
    and count: "write_len (length ?blobs) = Inr count"
    and blobs: "collect_res (\<lambda>(_, blob). write_blob blob) ?blobs = Inr blobs"
    and bytes: "bytes = header @ count @ concat blobs"
    by (cases "to_allocvec ch (encode_header t c)") (auto simp: write_cache_def bind_res_Inr Let_def)
  have len: "length ?blobs = length unsorted" by (metis mset_sort_by size_mset)
  from blobs have "blobs = map (\<lambda>x. projr (write_blob (snd x))) ?blobs" "\<forall>x\<in>set ?blobs. write_blob (snd x) = Inr (projr (write_blob (snd x)))"
    by (auto dest!: collect_res_projr simp: case_prod_unfold)
  then have "blobs = map frame (map snd ?blobs)"
    by (auto simp: write_blob_eq split: if_splits)
  moreover have "header = frame hb" using header by (simp add: write_blob_eq split: if_splits)
  moreover have "count = to_le_bytes 8 (length unsorted)" "length unsorted < USIZE_LIMIT"
    using count by (auto simp: write_len_def len split: if_splits)
  ultimately show thesis using that t unsorted hb bytes by blast
qed

text \<open>
  C25: A cache that was written reads back as its normal form: nothing is lost but the order of
  collections that have none and the source ranges of errors and candidates. The modules come in
  the order of their names.
\<close>

theorem wire_roundtrip:
  assumes "lawful_cmp mcmp (\<lambda>s. s)" "codec_ok ch" "codec_ok cm" "\<forall>m \<in> set (lc_modules c). wire_ok m"
    "write_cache mcmp ch cm c = Inr bytes" "length bytes < USIZE_LIMIT"
  shows "\<exists>ms. mset ms = image_mset (view_module mcmp) (mset (lc_modules c)) \<and>
    read_cache ch cm bytes = Inr (view_cache mcmp ms c)"
proof -
  obtain t unsorted hb where t: "build_name_table mcmp c = Inr t"
    and unsorted: "collect_res (encode_blob mcmp cm t) (lc_modules c) = Inr unsorted"
    and hb: "to_allocvec ch (encode_header t c) = Some hb" and limit: "length unsorted < USIZE_LIMIT"
    and bytes: "bytes = frame hb @ to_le_bytes 8 (length unsorted) @
       concat (map frame (map snd (sort_by (pair_cmp cmp_of (cmp_list cmp_of)) unsorted)))"
    using write_cache_frames [OF assms(5)] by metis
  note table = build_name_table_ok [OF assms(1) t]
  define blobs where "blobs = map snd (sort_by (pair_cmp cmp_of (cmp_list cmp_of)) unsorted)"
  have n: "length unsorted = length blobs" unfolding blobs_def by (metis length_map mset_sort_by size_mset)
  define D where "D = (\<lambda>blob. bind_res (ok_or DecodeFailed (from_bytes cm blob)) (decode_module (nt_names t)))"
  have each: "D (snd (projr (encode_blob mcmp cm t m))) = Inr (view_module mcmp m)" if "m \<in> set (lc_modules c)" for m
  proof -
    from collect_res_projr [OF unsorted] that obtain blob where
      "to_allocvec cm (encode_module mcmp t m) = Some blob"
      by (cases "to_allocvec cm (encode_module mcmp t m)") (auto simp: encode_blob_def)
    moreover from this assms(3) have "from_bytes cm blob = Some (encode_module mcmp t m)" by (simp add: codec_ok_def)
    moreover have "set (collect_module_names m) \<subseteq> set (nt_names t)"
      using that by (auto simp: table(2) cache_names_def)
    ultimately show ?thesis
      using decode_encode_module [OF table(1)] assms(4) that by (simp add: D_def encode_blob_def)
  qed
  have unsorted_eq: "unsorted = map (\<lambda>m. projr (encode_blob mcmp cm t m)) (lc_modules c)"
    using collect_res_projr [OF unsorted] by blast
  have "D blob = Inr (projr (D blob))" if "blob \<in> set blobs" for blob
    using that each by (auto simp: blobs_def unsorted_eq)
  then have modules: "collect_res D blobs = Inr (map (\<lambda>blob. projr (D blob)) blobs)" by (rule collect_res_Inr)
  have "mset (map (\<lambda>blob. projr (D blob)) blobs) =
      image_mset (\<lambda>m. projr (D (snd (projr (encode_blob mcmp cm t m))))) (mset (lc_modules c))"
    by (simp add: blobs_def unsorted_eq image_mset.compositionality comp_def)
  also have "\<dots> = image_mset (view_module mcmp) (mset (lc_modules c))"
    by (rule image_mset_cong) (simp add: each)
  finally have ms: "mset (map (\<lambda>blob. projr (D blob)) blobs) = image_mset (view_module mcmp) (mset (lc_modules c))" .
  let ?pre = "frame hb @ to_le_bytes 8 (length blobs)"
  have lens: "length (frame hb) = 8 + length hb" "length bytes = length ?pre + length (concat (map frame blobs))"
    by (simp_all add: frame_def bytes n blobs_def)
  have "read_blob TruncatedHeader bytes 0 = Inr (hb, 8 + length hb)"
    using read_blob_at [of "[]" hb TruncatedHeader "to_le_bytes 8 (length blobs) @ concat (map frame blobs)"] lens assms(6)
    by (simp add: bytes n blobs_def)
  moreover have "read_len bytes (8 + length hb) = Inr (length blobs, length ?pre)"
    using read_len_at [of "length blobs" "frame hb" "concat (map frame blobs)"] limit lens assms(6)
    by (simp add: bytes n blobs_def)
  moreover have "length blobs \<le> (length bytes - length ?pre) div 8"
    using frames_length [of blobs] lens by (simp add: less_eq_div_iff_mult_less_eq mult.commute)
  moreover have "read_blobs (length blobs) bytes (length ?pre) = Inr (blobs, length bytes)"
    using read_blobs_at [of ?pre blobs "[]"] lens assms(6) by (simp add: bytes n blobs_def)
  moreover have "from_bytes ch hb = Some (encode_header t c)" using hb assms(2) by (simp add: codec_ok_def)
  moreover have "wh_names (encode_header t c) = nt_names t" by (simp add: encode_header_def)
  moreover have "set (header_names c) \<subseteq> set (nt_names t)" by (auto simp: table(2) cache_names_def)
  ultimately have "read_cache ch cm bytes = Inr (view_cache mcmp (map (\<lambda>blob. projr (D blob)) blobs) c)"
    using decode_encode_header [OF table(1)] modules by (simp add: read_cache_def D_def)
  with ms show ?thesis by blast
qed

lemma wire_roundtrip_witness:
  "\<exists>ms. mset ms = image_mset (view_module cmp_of) (mset (lc_modules wire_sample)) \<and>
     read_cache header_codec module_codec wire_sample_bytes = Inr (view_cache cmp_of ms wire_sample)"
  by (rule wire_roundtrip [OF cmp_of.lawful_cmp_axioms wire_sample_codecs wire_sample_wire_ok wire_sample_written
        wire_sample_length])

section \<open>No file is the beginning of another\<close>

text \<open>
  C40: The framing tells a complete file from a cut one and from one with something behind it: whatever
  follows a readable cache makes it unreadable, and every proper prefix of a readable cache is
  refused with an error.
\<close>

theorem wire_prefix_free:
  assumes "read_cache ch cm bytes = Inr c"
  shows "(rest \<noteq> [] \<longrightarrow> read_cache ch cm (bytes @ rest) = Inl TrailingData) \<and>
    (n < length bytes \<longrightarrow> (\<exists>e. read_cache ch cm (take n bytes) = Inl e))"
proof (intro conjI impI)
  have extended: "read_cache ch cm (bytes @ rest) = Inl TrailingData"
    if "read_cache ch cm bytes = Inr c" "rest \<noteq> []" for bytes rest c
  proof -
    from that(1) obtain hb off header count off' blobs where
      "read_blob TruncatedHeader bytes 0 = Inr (hb, off)" "from_bytes ch hb = Some header"
      "read_len bytes off = Inr (count, off')" "count \<le> (length bytes - off') div 8"
      "read_blobs count bytes off' = Inr (blobs, length bytes)"
      by (auto simp: read_cache_def bind_res_Inr ok_or.simps split: if_splits elim!: ok_or.elims)
    moreover from this(4) have "count \<le> (length (bytes @ rest) - off') div 8"
      by (rule order_trans) (simp add: div_le_mono)
    ultimately show ?thesis
      using that(2) read_blob_append read_len_append read_blobs_append by (simp add: read_cache_def)
  qed
  show "read_cache ch cm (bytes @ rest) = Inl TrailingData" if "rest \<noteq> []" by (rule extended [OF assms that])
  show "\<exists>e. read_cache ch cm (take n bytes) = Inl e" if "n < length bytes"
  proof (cases "read_cache ch cm (take n bytes)")
    case (Inr c')
    then have "read_cache ch cm (take n bytes @ drop n bytes) = Inl TrailingData"
      using that by (intro extended) simp_all
    with assms show ?thesis by simp
  qed blast
qed

lemma wire_prefix_free_witness:
  "read_cache header_codec module_codec (wire_sample_bytes @ [7]) = Inl TrailingData \<and>
   (\<exists>e. read_cache header_codec module_codec (take 20 wire_sample_bytes) = Inl e)"
proof -
  have "case read_cache header_codec module_codec wire_sample_bytes of Inl _ \<Rightarrow> False | Inr _ \<Rightarrow> True" by code_simp
  then obtain c where "read_cache header_codec module_codec wire_sample_bytes = Inr c"
    by (cases "read_cache header_codec module_codec wire_sample_bytes") auto
  from wire_prefix_free [OF this, of "[7]" 20] show ?thesis by (simp add: wire_sample_bytes_def)
qed

end
