(* ===== verification/Wire_Canonical.thy ===== *)
theory Wire_Canonical
  imports Wire_Roundtrip
begin

text \<open>
  The bytes of a cache depend on its normal form only: two runs that build their hash sets, hash maps
  and module lists in different orders write the same file, or stop with the same error.
\<close>

section \<open>Encoding a normal form\<close>

lemma sort_by_map_sorted:
  assumes "lawful_cmp c k" "\<And>x y. c (g x) (g y) = c x y"
  shows "sort_by c (map g (sort_by c xs)) = map g (sort_by c xs)"
  using sort_by_map [of "sort_by c xs" c g c] assms by (simp add: sort_by_idem)

lemma encode_sorted_sorted [simp]: "encode_sorted t (sort_by c ns) = encode_sorted t ns"
  unfolding encode_sorted_def by (rule sort_by_eq [OF cmp_of.lawful_cmp_axioms]) simp_all

lemma lawful_sort_keys:
  assumes "lawful_cmp mcmp (\<lambda>s. s)"
  shows "lawful_cmp (\<lambda>a b. mcmp (mp_name a) (mp_name b)) mp_name"
    and "lawful_cmp (property_candidate_cmp mcmp) (\<lambda>c. (pc_attribute c, pc_from_main_guard c))"
    and "lawful_cmp (subclass_candidate_cmp mcmp) (\<lambda>c. (sc_class c, sc_from_main_guard c))"
    and "lawful_cmp (\<lambda>a b :: 'k::linorder \<times> 'v. cmp_of (fst a) (fst b)) fst"
  using lawful_comap [OF assms, of mp_name]
    lawful_then_with [OF lawful_comap [OF assms, of pc_attribute] lawful_comap [OF cmp_of.lawful_cmp_axioms, of pc_from_main_guard]]
    lawful_then_with [OF lawful_comap [OF assms, of sc_class] lawful_comap [OF cmp_of.lawful_cmp_axioms, of sc_from_main_guard]]
    lawful_comap [OF cmp_of.lawful_cmp_axioms, of fst]
  by (simp_all add: property_candidate_cmp_def [abs_def] subclass_candidate_cmp_def [abs_def])

lemma sorted_errors_view:
  assumes "lawful_cmp mcmp (\<lambda>s. s)"
  shows "sorted_errors mcmp (map view_error (sort_by (error_cmp mcmp) es)) = sorted_errors mcmp es"
proof -
  have "sort_by (error_cmp mcmp) (map view_error (sort_by (error_cmp mcmp) es)) =
      map view_error (sort_by (error_cmp mcmp) es)"
    by (rule sort_by_map_sorted [OF lawful_error_cmp [OF assms]]) (simp add: error_cmp_def view_error_def)
  then show ?thesis by (simp add: sorted_errors_def serialize_error_def view_error_def)
qed

lemma encode_safety_view:
  "lawful_cmp mcmp (\<lambda>s. s) \<Longrightarrow> encode_safety mcmp t (view_safety mcmp s) = encode_safety mcmp t s"
  by (cases s) (simp_all add: encode_safety_def view_safety_def sorted_errors_view)

lemma encode_info_view:
  assumes "table_ok mcmp t" "set (info_names info) \<subseteq> set (nt_names t)"
  shows "encode_info t (view_info mcmp info) = encode_info t info"
proof -
  have "lawful_cmp mcmp (\<lambda>s. s)" using assms(1) by (simp add: table_ok_def)
  note idem = sort_by_idem [OF lawful_sort_keys(1) [OF this]]
  show ?thesis
    using assms(2)
    by (simp add: encode_info_def view_info_def info_names_def encode_params_eq [OF assms(1)] idem)
qed

lemma encode_candidate_view: "encode_candidate t (view_candidate mcmp c) = encode_candidate t c"
  by (simp add: encode_candidate_def view_candidate_def)

lemma encode_site_candidate_views [simp]:
  "encode_property t (view_property p) = encode_property t p"
  "encode_subclass t (view_subclass s) = encode_subclass t s"
  by (simp_all add: encode_property_def view_property_def encode_subclass_def view_subclass_def)

lemma encode_functions_view:
  assumes "table_ok mcmp t" "\<forall>(_, info) \<in> set fs. set (info_names info) \<subseteq> set (nt_names t)"
  shows "map (\<lambda>(name, info). (name, encode_info t info)) (sort_by (\<lambda>a b. cmp_of (fst a) (fst b))
      (map (\<lambda>(name :: string, info). (name, view_info mcmp info)) (sort_by (\<lambda>a b. cmp_of (fst a) (fst b)) fs))) =
    map (\<lambda>(name, info). (name, encode_info t info)) (sort_by (\<lambda>a b. cmp_of (fst a) (fst b)) fs)"
proof -
  have mcmp: "lawful_cmp mcmp (\<lambda>s. s)" using assms(1) by (simp add: table_ok_def)
  have "encode_info t (view_info mcmp info) = encode_info t info" if "(name, info) \<in> set fs" for name info
    using that assms(2) by (intro encode_info_view [OF assms(1)]) blast
  then show ?thesis
    by (subst sort_by_map_sorted [OF lawful_sort_keys(4) [OF mcmp]]) (auto simp: case_prod_unfold)
qed

lemma encode_module_view:
  assumes "table_ok mcmp t" "set (collect_module_names m) \<subseteq> set (nt_names t)"
  shows "encode_module mcmp t (view_module mcmp m) = encode_module mcmp t m"
proof -
  have mcmp: "lawful_cmp mcmp (\<lambda>s. s)" using assms(1) by (simp add: table_ok_def)
  have "set (concat (map (\<lambda>(_, info). info_names info) (cm_functions m))) \<subseteq> set (nt_names t)"
    using assms(2) by (simp add: collect_module_names_def)
  then have infos: "\<forall>(_, info) \<in> set (cm_functions m). set (info_names info) \<subseteq> set (nt_names t)" by fastforce
  have lists:
    "sort_by (property_candidate_cmp mcmp) (map view_property (sort_by (property_candidate_cmp mcmp) (cm_properties m))) =
       map view_property (sort_by (property_candidate_cmp mcmp) (cm_properties m))"
    "sort_by (subclass_candidate_cmp mcmp) (map view_subclass (sort_by (subclass_candidate_cmp mcmp) (cm_subclasses m))) =
       map view_subclass (sort_by (subclass_candidate_cmp mcmp) (cm_subclasses m))"
    by (rule sort_by_map_sorted [OF lawful_sort_keys(2) [OF mcmp]],
        simp add: property_candidate_cmp_def view_property_def)
      (rule sort_by_map_sorted [OF lawful_sort_keys(3) [OF mcmp]],
        simp add: subclass_candidate_cmp_def view_subclass_def)
  show ?thesis
    unfolding encode_module_def view_module_def cached_module.simps lists
    using encode_functions_view [OF assms(1) infos]
    by (simp add: encode_safety_view [OF mcmp] encode_candidate_view)
qed

section \<open>The same names\<close>

lemma safety_names_view [simp]: "set (safety_names (view_safety mcmp s)) = set (safety_names s)"
  by (cases s) (simp_all add: safety_names_def view_safety_def)

lemma info_names_view [simp]: "set (info_names (view_info mcmp info)) = set (info_names info)"
  by (simp add: info_names_def view_info_def)

lemma candidate_names_view [simp]: "set (candidate_names (view_candidate mcmp c)) = set (candidate_names c)"
  by (simp add: candidate_names_def view_candidate_def)

lemma collect_module_names_view: "set (collect_module_names (view_module mcmp m)) = set (collect_module_names m)"
  by (simp add: collect_module_names_def view_module_def case_prod_unfold image_image view_property_def view_subclass_def)

lemma header_names_view: "set (header_names (view_cache mcmp ms c)) = set (header_names c)"
  unfolding header_names_def view_cache_def library_cache.simps
  by (simp add: case_prod_unfold image_image callees_of_entry_def callees_entry_def cong: option.case_cong)

text \<open>The table depends on the set of the names.\<close>

lemma build_name_table_cong:
  assumes "lawful_cmp mcmp (\<lambda>s. s)" "set (cache_names c1) = set (cache_names c2)"
  shows "build_name_table mcmp c1 = build_name_table mcmp c2"
proof -
  have "mset (remdups (cache_names c1)) = mset (remdups (cache_names c2))"
    using assms(2) by (simp add: set_eq_iff_mset_remdups_eq)
  moreover from this have "length (remdups (cache_names c1)) = length (remdups (cache_names c2))"
    by (metis size_mset)
  moreover from calculation(1) have
    "sort_by mcmp (remdups (cache_names c1)) = sort_by mcmp (remdups (cache_names c2))"
    by (intro sort_by_eq [OF assms(1)]) simp_all
  ultimately show ?thesis by (simp only: build_name_table_def Let_def)
qed

section \<open>The same header\<close>

lemma callees_of_entry_inj [simp]: "callees_of_entry x = callees_of_entry y \<longleftrightarrow> x = y"
  by (simp add: callees_of_entry_def split: prod.splits)

lemma encode_header_cong:
  assumes "table_ok mcmp t" "set (header_names c1) \<subseteq> set (nt_names t)" "set (header_names c2) \<subseteq> set (nt_names t)"
    "view_cache mcmp [] c1 = view_cache mcmp [] c2"
  shows "encode_header t c1 = encode_header t c2"
proof -
  have "map callees_of_entry (sort_by (callees_cmp mcmp) (map (callees_entry mcmp) (lc_constructor_callees c1))) =
      map callees_of_entry (sort_by (callees_cmp mcmp) (map (callees_entry mcmp) (lc_constructor_callees c2)))"
    using assms(4) unfolding view_cache_def by (simp only: library_cache.iffs)
  then have "sort_by (callees_cmp mcmp) (map (callees_entry mcmp) (lc_constructor_callees c1)) =
      sort_by (callees_cmp mcmp) (map (callees_entry mcmp) (lc_constructor_callees c2))"
    by (simp only: inj_map_eq_map [OF injI, OF callees_of_entry_inj [THEN iffD1]])
  then have "wh_constructor_callees (encode_header t c1) = wh_constructor_callees (encode_header t c2)"
    by (simp only: header_lists(4) [OF assms(1,2)] header_lists(4) [OF assms(1,3)])
  moreover have "wh_exports (encode_header t c1) = wh_exports (encode_header t c2)"
    "wh_return_types (encode_header t c1) = wh_return_types (encode_header t c2)"
    "wh_class_bases (encode_header t c1) = wh_class_bases (encode_header t c2)"
    "wh_class_properties (encode_header t c1) = wh_class_properties (encode_header t c2)"
    by (simp_all only: header_lists(1-3,5) [OF assms(1,2), where ms = "[]"]
        header_lists(1-3,5) [OF assms(1,3), where ms = "[]"] assms(4))
  moreover have "wh_names (encode_header t c1) = wh_names (encode_header t c2)" by (simp add: encode_header_def)
  ultimately show ?thesis by (intro wire_header.equality) simp_all
qed

section \<open>The same blobs\<close>

text \<open>When one error is the only one, the order of the list shows in the order of the results only.\<close>

lemma collect_res_Inl:
  "(\<And>x. x \<in> set xs \<Longrightarrow> f x = Inl e \<or> (\<exists>y. f x = Inr y)) \<Longrightarrow> x \<in> set xs \<Longrightarrow> f x = Inl e \<Longrightarrow> collect_res f xs = Inl e"
proof (induction xs)
  case (Cons a xs)
  from Cons.prems(1) [of a] consider "f a = Inl e" | y where "f a = Inr y" by auto
  then show ?case
  proof cases
    case 2
    with Cons.prems(2,3) have "x \<in> set xs" by auto
    with 2 Cons show ?thesis by simp
  qed simp
qed simp

lemma collect_res_perm:
  assumes "mset xs = mset ys" "\<And>x. x \<in> set xs \<Longrightarrow> f x = Inl e \<or> (\<exists>y. f x = Inr y)"
  shows "collect_res f xs = Inl e \<and> collect_res f ys = Inl e \<or>
    (\<exists>as bs. collect_res f xs = Inr as \<and> collect_res f ys = Inr bs \<and> mset as = mset bs)"
proof (cases "\<exists>x \<in> set xs. f x = Inl e")
  case True
  have set: "set xs = set ys" using assms(1) by (metis set_mset_mset)
  from True obtain x where "x \<in> set xs" "f x = Inl e" by blast
  then have "collect_res f xs = Inl e" "collect_res f ys = Inl e"
    using collect_res_Inl [of xs f e x, OF assms(2)] collect_res_Inl [of ys f e x, OF assms(2)]
    by (simp_all add: set)
  then show ?thesis by simp
next
  case False
  have set: "set xs = set ys" using assms(1) by (metis set_mset_mset)
  have "f x = Inr (projr (f x))" if "x \<in> set xs" for x
    using that False assms(2) [OF that] by auto
  then have "collect_res f xs = Inr (map (\<lambda>x. projr (f x)) xs)" "collect_res f ys = Inr (map (\<lambda>x. projr (f x)) ys)"
    using set by (auto intro!: collect_res_Inr)
  then show ?thesis using assms(1) by auto
qed

lemma encode_blob_cases: "encode_blob mcmp cm t m = Inl EncodeFailed \<or> (\<exists>y. encode_blob mcmp cm t m = Inr y)"
  by (cases "to_allocvec cm (encode_module mcmp t m)") (simp_all add: encode_blob_def)

text \<open>
  C26: The bytes of a written cache are a function of its normal form: caches whose modules are the
  same up to order and whose collections differ in the order of unordered containers and in source
  ranges only are written byte for byte alike, and where writing fails it fails with the same error.
\<close>

theorem wire_canonical:
  assumes "lawful_cmp mcmp (\<lambda>s. s)"
    "image_mset (view_module mcmp) (mset (lc_modules c1)) = image_mset (view_module mcmp) (mset (lc_modules c2))"
    "view_cache mcmp [] c1 = view_cache mcmp [] c2"
  shows "write_cache mcmp ch cm c1 = write_cache mcmp ch cm c2"
proof -
  have ms: "mset (map (view_module mcmp) (lc_modules c1)) = mset (map (view_module mcmp) (lc_modules c2))"
    using assms(2) by simp
  have names: "set (cache_names c) =
      (\<Union>m \<in> set (map (view_module mcmp) (lc_modules c)). set (collect_module_names m)) \<union> set (header_names c)" for c
    by (simp add: cache_names_def collect_module_names_view)
  have header: "set (header_names c1) = set (header_names c2)"
    using header_names_view [of mcmp "[]" c1] header_names_view [of mcmp "[]" c2] assms(3) by simp
  have "set (map (view_module mcmp) (lc_modules c1)) = set (map (view_module mcmp) (lc_modules c2))"
    using ms by (metis set_mset_mset)
  then have same: "set (cache_names c1) = set (cache_names c2)"
    by (simp only: names header)
  note table_eq = build_name_table_cong [OF assms(1) same]
  show ?thesis
  proof (cases "build_name_table mcmp c2")
    case (Inl e)
    then show ?thesis by (simp add: write_cache_def table_eq)
  next
    case (Inr t)
    note ok = build_name_table_ok [OF assms(1) Inr]
    have view: "collect_res (encode_blob mcmp cm t) (lc_modules c) =
        collect_res (encode_blob mcmp cm t) (map (view_module mcmp) (lc_modules c))"
      if "set (cache_names c) = set (cache_names c2)" for c
      unfolding collect_res_map
    proof (rule collect_res_cong)
      fix m assume "m \<in> set (lc_modules c)"
      then have "set (collect_module_names m) \<subseteq> set (nt_names t)"
        unfolding ok(2) that [symmetric] by (auto simp: cache_names_def)
      from encode_module_view [OF ok(1) this] show "encode_blob mcmp cm t m = (encode_blob mcmp cm t \<circ> view_module mcmp) m"
        by (simp add: encode_blob_def view_module_def)
    qed
    have header_eq: "encode_header t c1 = encode_header t c2"
      using same by (intro encode_header_cong [OF ok(1) _ _ assms(3)]) (auto simp: ok(2) cache_names_def)
    from collect_res_perm [OF ms, of "encode_blob mcmp cm t" EncodeFailed] encode_blob_cases
    consider "collect_res (encode_blob mcmp cm t) (lc_modules c1) = Inl EncodeFailed"
        "collect_res (encode_blob mcmp cm t) (lc_modules c2) = Inl EncodeFailed"
      | as bs where "collect_res (encode_blob mcmp cm t) (lc_modules c1) = Inr as"
        "collect_res (encode_blob mcmp cm t) (lc_modules c2) = Inr bs" "mset as = mset bs"
      using view [OF same] view [OF refl] by metis
    then show ?thesis
    proof cases
      case 1
      then show ?thesis by (simp add: write_cache_def table_eq Inr)
    next
      case (2 as bs)
      note lawful = lawful_pair_cmp [OF cmp_of.lawful_cmp_axioms cmp_list_lawful [OF cmp_of.lawful_cmp_axioms]]
      have "sort_by (pair_cmp cmp_of (cmp_list cmp_of)) as = sort_by (pair_cmp cmp_of (cmp_list cmp_of)) bs"
        by (rule sort_by_eq [OF lawful _ 2(3)]) (simp add: inj_def prod_eq_iff)
      then show ?thesis by (simp only: write_cache_def table_eq Inr bind_res.simps 2 header_eq Let_def)
    qed
  qed
qed

text \<open>The cache of \<open>Wire_Roundtrip\<close>, in another order.\<close>

definition wire_sample_shuffled :: library_cache where
  "wire_sample_shuffled = wire_sample
     \<lparr>lc_modules := [empty_cached_module ''a'',
                     (empty_cached_module ''b'')\<lparr>cm_imports := [''a'', ''c''],
                       cm_functions := [(''f'', unsafe_missing_dep ''c.g'')]\<rparr>],
      lc_class_properties := [(''b.C'', [''p'', ''q''])]\<rparr>"

lemma wire_canonical_witness:
  "wire_sample_shuffled \<noteq> wire_sample \<and>
   write_cache cmp_of header_codec module_codec wire_sample_shuffled =
     write_cache cmp_of header_codec module_codec wire_sample"
proof
  show "wire_sample_shuffled \<noteq> wire_sample" by code_simp
  have "view_cache cmp_of [] wire_sample_shuffled = view_cache cmp_of [] wire_sample" by code_simp
  moreover have "image_mset (view_module cmp_of) (mset (lc_modules wire_sample_shuffled)) =
      image_mset (view_module cmp_of) (mset (lc_modules wire_sample))"
  proof -
    have "map (view_module cmp_of) (lc_modules wire_sample_shuffled) =
        rev (map (view_module cmp_of) (lc_modules wire_sample))"
      by code_simp
    then show ?thesis by (metis mset_map mset_rev)
  qed
  ultimately show "write_cache cmp_of header_codec module_codec wire_sample_shuffled =
      write_cache cmp_of header_codec module_codec wire_sample"
    using cmp_of.lawful_cmp_axioms by (intro wire_canonical) simp_all
qed

end
