(* ===== verification/Resolution_Bases.thy ===== *)
theory Resolution_Bases
  imports Resolution
begin

text \<open>
  The depth-first search over base classes decides proper inheritance, cycles included, and the
  errors for registered subclasses are exactly those of the classes it reaches
  (\<open>inherits_from\<close> and \<open>WalkedBases\<close> of \<open>src/resolution.rs\<close>).
\<close>

definition base_edges :: "base_map \<Rightarrow> (modname \<times> modname) set" where
  "base_edges cb = {(c, b). \<exists>bs. map_of cb c = Some bs \<and> b \<in> set bs}"

lemma leaves_through_stack:
  assumes "(s, a) \<in> (base_edges cb)\<^sup>*" "s \<in> seen" "t a"
    and "\<forall>s\<in>seen. \<not> t s \<and> base_edges cb `` {s} \<subseteq> seen \<union> S"
  shows "\<exists>b\<in>S. (b, a) \<in> (base_edges cb)\<^sup>*"
  using assms(1,2)
proof (induction rule: converse_rtrancl_induct)
  case base
  then show ?case using assms(3,4) by blast
next
  case (step s y)
  then have "y \<in> seen \<union> S" using assms(4) by blast
  with step show ?case by blast
qed

lemma inherits_loop_iff:
  assumes "\<forall>s\<in>seen. \<not> t s \<and> base_edges cb `` {s} \<subseteq> seen \<union> set stack"
  shows "inherits_loop cb t seen stack \<longleftrightarrow>
    (\<exists>b\<in>set stack. \<exists>a. (b, a) \<in> (base_edges cb)\<^sup>* \<and> t a)"
  using assms
proof (induction cb t seen stack rule: inherits_loop.induct)
  case (1 cb t seen stack)
  show ?case
  proof (cases "stack = []")
    case True
    then show ?thesis by (simp add: inherits_loop.simps [of cb t seen])
  next
    case False
    define base where "base = last stack"
    have stack: "set stack = insert base (set (butlast stack))"
      using False append_butlast_last_id [of stack] unfolding base_def
      by (metis Un_insert_right list.simps(15) set_append sup_bot.right_neutral list.set(1))
    show ?thesis
    proof (cases "t base")
      case True
      then have "inherits_loop cb t seen stack"
        using False by (simp add: inherits_loop.simps [of cb t seen stack] base_def Let_def)
      moreover have "base \<in> set stack" unfolding stack by simp
      ultimately show ?thesis using True by blast
    next
      case not_target: False
      show ?thesis
      proof (cases "base \<in> seen")
        case True
        have inv: "\<forall>s\<in>seen. \<not> t s \<and> base_edges cb `` {s} \<subseteq> seen \<union> set (butlast stack)"
          using "1.prems" True unfolding stack by blast
        have "inherits_loop cb t seen stack = inherits_loop cb t seen (butlast stack)"
          using False not_target True by (simp add: inherits_loop.simps [of cb t seen stack] base_def Let_def)
        moreover have "inherits_loop cb t seen (butlast stack) \<longleftrightarrow>
            (\<exists>b\<in>set (butlast stack). \<exists>a. (b, a) \<in> (base_edges cb)\<^sup>* \<and> t a)"
          using "1.IH"(1) False not_target True inv by (simp add: base_def)
        moreover have leave: "\<exists>b\<in>set (butlast stack). (b, a) \<in> (base_edges cb)\<^sup>*"
          if "(base, a) \<in> (base_edges cb)\<^sup>*" "t a" for a
          using leaves_through_stack [OF that(1) True that(2) inv] .
        ultimately have "inherits_loop cb t seen stack \<longleftrightarrow>
            (\<exists>b\<in>set (butlast stack). \<exists>a. (b, a) \<in> (base_edges cb)\<^sup>* \<and> t a)"
          by simp
        then show ?thesis
          using leave unfolding stack by blast
      next
        case new: False
        define stack' where "stack' = (case map_of cb base of None \<Rightarrow> butlast stack
          | Some bases \<Rightarrow> butlast stack @ bases)"
        have succ: "set stack' = set (butlast stack) \<union> base_edges cb `` {base}"
          by (cases "map_of cb base") (auto simp: stack'_def base_edges_def)
        have inv: "\<forall>s\<in>insert base seen. \<not> t s \<and>
            base_edges cb `` {s} \<subseteq> insert base seen \<union> set stack'"
          using "1.prems" not_target unfolding stack succ by blast
        have "inherits_loop cb t seen stack = inherits_loop cb t (insert base seen) stack'"
          using False not_target new
          by (simp add: inherits_loop.simps [of cb t seen stack] base_def stack'_def Let_def)
        moreover have "inherits_loop cb t (insert base seen) stack' \<longleftrightarrow>
            (\<exists>b\<in>set stack'. \<exists>a. (b, a) \<in> (base_edges cb)\<^sup>* \<and> t a)"
          using "1.IH"(2) False not_target new inv by (simp add: base_def stack'_def)
        moreover have "\<exists>b\<in>set stack'. (b, a) \<in> (base_edges cb)\<^sup>*"
          if "(base, a) \<in> (base_edges cb)\<^sup>*" "t a" for a
          using leaves_through_stack [OF that(1) _ that(2) inv] by blast
        moreover have "(base, a) \<in> (base_edges cb)\<^sup>*"
          if "(base, b) \<in> base_edges cb" "(b, a) \<in> (base_edges cb)\<^sup>*" for a b
          using that by (rule converse_rtrancl_into_rtrancl)
        ultimately show ?thesis unfolding stack succ by blast
      qed
    qed
  qed
qed

lemma inherits_from_iff: "inherits_from cb c t \<longleftrightarrow> (\<exists>a. (c, a) \<in> (base_edges cb)\<^sup>+ \<and> t a)"
proof -
  have "inherits_from cb c t \<longleftrightarrow>
      (\<exists>b\<in>base_edges cb `` {c}. \<exists>a. (b, a) \<in> (base_edges cb)\<^sup>* \<and> t a)"
  proof -
    have "set (case map_of cb c of None \<Rightarrow> [] | Some bases \<Rightarrow> bases) = base_edges cb `` {c}"
      by (cases "map_of cb c") (auto simp: base_edges_def)
    then show ?thesis
      unfolding inherits_from_def by (subst inherits_loop_iff) simp_all
  qed
  also have "\<dots> \<longleftrightarrow> (\<exists>a. (c, a) \<in> (base_edges cb)\<^sup>+ \<and> t a)"
    by (metis (no_types, lifting) Image_singleton_iff rtrancl_into_trancl2 tranclD)
  finally show ?thesis .
qed

text \<open>A class's walkers: modules other than its own that do not import it.\<close>

definition walked_from_outside :: "re_map \<Rightarrow> modname \<Rightarrow> (modname \<Rightarrow> modname \<Rightarrow> bool) \<Rightarrow> modname \<Rightarrow> bool" where
  "walked_from_outside walked module imports base \<longleftrightarrow>
     (\<exists>walker. walker \<in> re_sources walked base \<and> walker \<noteq> module \<and> \<not> imports walker module)"

text \<open>
  A module-scope class is reported as registered exactly when it inherits, through any number
  of bases and in spite of inheritance cycles, from a class whose subclasses are walked by another
  module that does not import the class's module; the error names the class and keeps its range
  and its guard.
\<close>

theorem registration_errors_exact:
  "e \<in> set (registration_errors walked module candidates cb imports) \<longleftrightarrow>
     (\<exists>c base. c \<in> set candidates \<and> (sc_class c, base) \<in> (base_edges cb)\<^sup>+ \<and>
        walked_from_outside walked module imports base \<and>
        e = \<lparr>err_kind = SubclassRegistration, err_metadata = sc_class c, err_range = sc_range c,
             parameterized_decorator = False, err_from_main_guard = sc_from_main_guard c\<rparr>)"
proof -
  have walked: "(case map_of walked base of None \<Rightarrow> False
      | Some walkers \<Rightarrow> list_ex (\<lambda>walker. walker \<noteq> module \<and> \<not> imports walker module) walkers)
    \<longleftrightarrow> walked_from_outside walked module imports base" for base
    by (auto simp: walked_from_outside_def re_sources_def list_ex_iff split: option.split)
  have err: "(let e = new_error SubclassRegistration (sc_class c) (sc_range c) in
      if sc_from_main_guard c then from_main_guard e else e) =
    \<lparr>err_kind = SubclassRegistration, err_metadata = sc_class c, err_range = sc_range c,
     parameterized_decorator = False, err_from_main_guard = sc_from_main_guard c\<rparr>" for c
    by (simp add: new_error_def from_main_guard_def Let_def)
  show ?thesis
    unfolding registration_errors_def walked inherits_from_iff Let_def [of "\<lambda>base. walked_from_outside walked module imports base"] err
    by (auto simp: image_iff)
qed

end
