(* ===== verification/Resolution_Promotion.thy ===== *)
theory Resolution_Promotion
  imports Resolution
begin

text \<open>
  The synchronous rounds of promotion compute a least fixed point: a function that waits for
  callees is promoted exactly when all of them clear, where a callee clears when its verdict does
  not block or when it is itself promoted.
\<close>

section \<open>Well-formed tables\<close>

definition wf_table :: "func_table \<Rightarrow> bool" where
  "wf_table fs \<longleftrightarrow> distinct (map fst fs) \<and> list_all (\<lambda>(n, info). wf_safety (verdict info)) fs"

definition wf_verdicts :: "verdict_map \<Rightarrow> bool" where
  "wf_verdicts fm \<longleftrightarrow> distinct (map fst fm) \<and> list_all (\<lambda>(m, fs). wf_table fs) fm"

lemma get_entry:
  assumes "wf_verdicts fm"
  shows "get_function_safety fm m n = Some info \<longleftrightarrow> (\<exists>fs. (m, fs) \<in> set fm \<and> (n, info) \<in> set fs)"
proof
  assume "get_function_safety fm m n = Some info"
  then show "\<exists>fs. (m, fs) \<in> set fm \<and> (n, info) \<in> set fs"
    by (auto simp: get_function_safety_def split: option.splits dest!: map_of_SomeD)
next
  assume "\<exists>fs. (m, fs) \<in> set fm \<and> (n, info) \<in> set fs"
  then obtain fs where fs: "(m, fs) \<in> set fm" "(n, info) \<in> set fs" by blast
  moreover have "wf_table fs" using assms fs(1) by (auto simp: wf_verdicts_def list_all_iff)
  ultimately show "get_function_safety fm m n = Some info"
    using assms by (simp add: get_function_safety_def wf_verdicts_def wf_table_def)
qed

lemma get_wf_safety:
  assumes "wf_verdicts fm" "get_function_safety fm m n = Some info"
  shows "wf_safety (verdict info)"
  using assms get_entry [OF assms(1), of m n info]
  by (force simp: wf_verdicts_def wf_table_def list_all_iff)

section \<open>The specification\<close>

definition nonblocking :: "function_safety \<Rightarrow> bool" where
  "nonblocking v \<longleftrightarrow> v = Safe \<or> v = UnsafeIfImported"

text \<open>A function that is unsafe only because of callees nobody has found yet.\<close>

definition waiting ::
  "modname list \<Rightarrow> verdict_map \<Rightarrow> modname \<Rightarrow> string \<Rightarrow> function_safety_info \<Rightarrow> bool" where
  "waiting names fm m n info \<longleftrightarrow>
     m \<in> set names \<and> get_function_safety fm m n = Some info \<and>
     has (verdict info) UnsafeMissingDep \<and> \<not> has (verdict info) Unsafe \<and> missing_dep_callees info \<noteq> []"

abbreviation split_in :: "modname list \<Rightarrow> string \<Rightarrow> (modname \<times> string) option" where
  "split_in names name \<equiv> enclosing_module name (\<lambda>m. m \<in> set names)"

inductive clears :: "modname list \<Rightarrow> verdict_map \<Rightarrow> modname \<Rightarrow> string \<Rightarrow> bool"
  for names :: "modname list" and fm :: verdict_map where
  clears_now: "get_function_safety fm m n = Some info \<Longrightarrow> nonblocking (verdict info) \<Longrightarrow> clears names fm m n"
| clears_later: "waiting names fm m n info \<Longrightarrow>
    (\<And>c. c \<in> set (missing_dep_callees info) \<Longrightarrow>
       (\<exists>m' l. split_in names c = Some (m', l) \<and> clears names fm m' l) \<or>
       (split_in names c = None \<and> (\<exists>m'. m' \<in> set names \<and> clears names fm m' c))) \<Longrightarrow>
    clears names fm m n"

section \<open>Verdicts\<close>

lemma maybe_non_blocking_iff [simp]:
  "maybe_non_blocking_verdict v = Some w \<longleftrightarrow> nonblocking v \<and> w = v"
  by (auto simp: maybe_non_blocking_verdict_def nonblocking_def)

lemma nonblocking_insert: "nonblocking v \<Longrightarrow> nonblocking w \<Longrightarrow> nonblocking (insert_concern v w)"
  by (auto simp: nonblocking_def insert_concern_def Safe_def UnsafeIfImported_def)

lemma base_verdict_nonblocking:
  assumes "wf_safety v" "\<not> has v Unsafe"
  shows "nonblocking (without v UnsafeMissingDep)"
proof -
  have bits: "bit (without v UnsafeMissingDep) i \<longleftrightarrow> i = 0 \<and> bit v 0" for i
  proof (cases "i < 8")
    case True
    then consider "i = 0" | "i = 1" | "i = 2" | "3 \<le> i" by linarith
    then show ?thesis
      using assms True by cases (auto simp: without_def UnsafeMissingDep_def wf_safety_iff bit_simps)
  next
    case False
    then have "\<not> bit (without v UnsafeMissingDep) i"
      using bit_imp_le_length [of "without v UnsafeMissingDep" i] by auto
    with False show ?thesis by auto
  qed
  have "without v UnsafeMissingDep = (if bit v 0 then UnsafeIfImported else Safe)"
    by (rule bit_word_eqI) (simp add: bits UnsafeIfImported_def Safe_def bit_1_iff)
  then show ?thesis by (simp add: nonblocking_def)
qed

lemma waiting_base:
  "wf_verdicts fm \<Longrightarrow> waiting names fm m n info \<Longrightarrow> nonblocking (without (verdict info) UnsafeMissingDep)"
  by (auto simp: waiting_def intro: base_verdict_nonblocking get_wf_safety)

lemma nonblocking_not_waiting: "nonblocking v \<Longrightarrow> \<not> has v UnsafeMissingDep"
  by (auto simp: nonblocking_def Safe_def UnsafeIfImported_def bit_1_iff)

lemma target_verdict_None_iff:
  "target_verdict fm gs gi v cs \<noteq> None \<longleftrightarrow>
     (\<forall>c\<in>set cs. resolve_callee_verdict c fm gs gi \<noteq> None)"
  by (induction cs arbitrary: v) (auto split: option.splits)

lemma target_verdict_nonblocking:
  assumes "target_verdict fm gs gi v cs = Some t" "nonblocking v"
    and "\<And>c w. c \<in> set cs \<Longrightarrow> resolve_callee_verdict c fm gs gi = Some w \<Longrightarrow> nonblocking w"
  shows "nonblocking t"
  using assms
proof (induction cs arbitrary: v)
  case (Cons c cs)
  then obtain w where w: "resolve_callee_verdict c fm gs gi = Some w"
    "target_verdict fm gs gi (insert_concern v w) cs = Some t"
    by (auto split: option.splits)
  have "nonblocking (insert_concern v w)"
    using Cons.prems(2) Cons.prems(3) [of c w] w(1) by (simp add: nonblocking_insert)
  from Cons.IH [OF w(2) this] show ?case using Cons.prems(3) by (meson list.set_intros(2))
qed simp

section \<open>The state between rounds\<close>

definition pr_key :: "promotion_candidate \<Rightarrow> modname \<times> string" where
  "pr_key c = (pr_module c, pr_name c)"

definition candidate_of ::
  "modname list \<Rightarrow> modname \<Rightarrow> string \<Rightarrow> function_safety_info \<Rightarrow> promotion_candidate" where
  "candidate_of names m n info =
     \<lparr>pr_module = m, pr_name = n, pr_base_verdict = without (verdict info) UnsafeMissingDep,
      pr_callees = map (\<lambda>c. resolve_callee c (split_in names c)) (missing_dep_callees info)\<rparr>"

definition is_candidate :: "modname list \<Rightarrow> verdict_map \<Rightarrow> promotion_candidate \<Rightarrow> bool" where
  "is_candidate names fm c \<longleftrightarrow>
     (\<exists>info. waiting names fm (pr_module c) (pr_name c) info \<and>
        c = candidate_of names (pr_module c) (pr_name c) info)"

definition verdict_names ::
  "modname list \<Rightarrow> string set \<Rightarrow> verdict_map \<Rightarrow> function_safety \<Rightarrow> string set" where
  "verdict_names names needed fm v =
     {n \<in> needed. \<exists>m info. m \<in> set names \<and> get_function_safety fm m n = Some info \<and> verdict info = v}"

definition state_ok ::
  "modname list \<Rightarrow> verdict_map \<Rightarrow> string set \<Rightarrow> promotion_state \<Rightarrow> bool" where
  "state_ok names fm needed st \<longleftrightarrow>
     (\<forall>m n. (m, n) \<notin> set (ps_promoted st) \<longrightarrow>
        get_function_safety (ps_functions st) m n = get_function_safety fm m n) \<and>
     (\<forall>m n. (m, n) \<in> set (ps_promoted st) \<longrightarrow> clears names fm m n \<and>
        (\<exists>info v. waiting names fm m n info \<and> nonblocking v \<and>
           get_function_safety (ps_functions st) m n = Some (info\<lparr>verdict := v\<rparr>))) \<and>
     ps_globally_safe st = verdict_names names needed (ps_functions st) Safe \<and>
     ps_globally_if_imported st = verdict_names names needed (ps_functions st) UnsafeIfImported"

lemma insert_if_set_eqI:
  "(\<And>n. n \<in> A \<longleftrightarrow> n \<in> N \<and> (n = k \<and> P \<or> n \<in> B)) \<Longrightarrow> B \<subseteq> N \<Longrightarrow>
     A = (if k \<in> N \<and> P then insert k B else B)"
  by auto

lemma verdict_names_needed: "n \<in> verdict_names names needed fm v \<Longrightarrow> n \<in> needed"
  by (simp add: verdict_names_def)

lemma state_ok_clears:
  assumes "state_ok names fm needed st"
    and "get_function_safety (ps_functions st) m n = Some info" "nonblocking (verdict info)"
  shows "clears names fm m n"
proof (cases "(m, n) \<in> set (ps_promoted st)")
  case True
  with assms(1) show ?thesis unfolding state_ok_def by blast
next
  case False
  with assms show ?thesis unfolding state_ok_def by (metis clears_now)
qed

text \<open>One promotion.\<close>

lemma apply_promotion_ok:
  assumes ok: "state_ok names fm needed st" and c: "is_candidate names fm c"
    and new: "pr_key c \<notin> set (ps_promoted st)" and t: "nonblocking t"
    and clear: "clears names fm (pr_module c) (pr_name c)"
  shows "state_ok names fm needed (apply_promotion needed st (c, t))"
    "ps_promoted (apply_promotion needed st (c, t)) = ps_promoted st @ [pr_key c]"
proof -
  let ?m = "pr_module c" and ?n = "pr_name c" and ?st = "apply_promotion needed st (c, t)"
  obtain info where w: "waiting names fm ?m ?n info" using c by (auto simp: is_candidate_def)
  then have m: "?m \<in> set names" and old: "get_function_safety (ps_functions st) ?m ?n = Some info"
    using ok new by (auto simp: state_ok_def waiting_def pr_key_def)
  let ?fs = "modify_function ?m ?n (\<lambda>i. i\<lparr>verdict := t\<rparr>) (ps_functions st)"
  have fields: "ps_functions ?st = ?fs" "ps_promoted ?st = ps_promoted st @ [pr_key c]"
    "ps_globally_safe ?st = (if ?n \<in> needed \<and> t = Safe then insert ?n (ps_globally_safe st) else ps_globally_safe st)"
    "ps_globally_if_imported ?st = (if ?n \<in> needed \<and> t = UnsafeIfImported
       then insert ?n (ps_globally_if_imported st) else ps_globally_if_imported st)"
    using old t by (auto simp: apply_promotion_def pr_key_def nonblocking_def is_safe_iff Let_def
        Safe_def UnsafeIfImported_def)
  show "ps_promoted ?st = ps_promoted st @ [pr_key c]" by (rule fields)
  have blocked: "verdict info \<noteq> v" if "nonblocking v" for v
    using w that nonblocking_not_waiting by (auto simp: waiting_def)
  have names: "verdict_names names needed ?fs v =
      (if ?n \<in> needed \<and> t = v then insert ?n (verdict_names names needed (ps_functions st) v)
       else verdict_names names needed (ps_functions st) v)" if "nonblocking v" for v
  proof -
    have found: "(\<exists>m i. m \<in> set names \<and> get_function_safety ?fs m n = Some i \<and> verdict i = v) \<longleftrightarrow>
        (n = ?n \<and> t = v) \<or>
        (\<exists>m i. m \<in> set names \<and> get_function_safety (ps_functions st) m n = Some i \<and> verdict i = v)" for n
    proof -
      have get: "get_function_safety ?fs m n = (if m = ?m \<and> n = ?n then Some (info\<lparr>verdict := t\<rparr>)
          else get_function_safety (ps_functions st) m n)" for m
        using old by simp
      have "\<exists>m i. m \<in> set names \<and> get_function_safety ?fs m n = Some i \<and> verdict i = v"
        if "m' \<in> set names" "get_function_safety (ps_functions st) m' n = Some i'" "verdict i' = v" for m' i'
      proof -
        have "\<not> (m' = ?m \<and> n = ?n)" using that old blocked [OF \<open>nonblocking v\<close>] by auto
        then have "get_function_safety ?fs m' n = Some i'"
          using that(2) get [of m'] by (simp only: if_False)
        with that(1,3) show ?thesis by blast
      qed
      moreover have "\<exists>m i. m \<in> set names \<and> get_function_safety ?fs m n = Some i \<and> verdict i = v"
        if "n = ?n" "t = v"
      proof -
        have "get_function_safety ?fs ?m n = Some (info\<lparr>verdict := t\<rparr>)"
          using get [of ?m] that(1) by (simp only: simp_thms if_True)
        then show ?thesis using m that(2) by (intro exI [of _ ?m]) simp
      qed
      moreover have "(n = ?n \<and> t = v) \<or>
          (\<exists>m i. m \<in> set names \<and> get_function_safety (ps_functions st) m n = Some i \<and> verdict i = v)"
        if "m' \<in> set names" "get_function_safety ?fs m' n = Some i'" "verdict i' = v" for m' i'
      proof (cases "m' = ?m \<and> n = ?n")
        case True
        then have "i' = info\<lparr>verdict := t\<rparr>"
          using that(2) get [of m'] by (simp only: if_True option.inject simp_thms)
        with True that(3) show ?thesis by simp
      next
        case False
        then have "get_function_safety (ps_functions st) m' n = Some i'"
          using that(2) get [of m'] by (simp only: if_False)
        with that show ?thesis by blast
      qed
      ultimately show ?thesis by blast
    qed
    have "n \<in> verdict_names names needed ?fs v \<longleftrightarrow>
        n \<in> needed \<and> (n = ?n \<and> t = v \<or> n \<in> verdict_names names needed (ps_functions st) v)" for n
      unfolding verdict_names_def mem_Collect_eq found by blast
    then show ?thesis
      by (rule insert_if_set_eqI) (auto dest: verdict_names_needed)
  qed
  have "nonblocking Safe" "nonblocking UnsafeIfImported" by (simp_all add: nonblocking_def)
  note names = names [OF this(1)] names [OF this(2)]
  have get: "get_function_safety ?fs m n = (if (m, n) = pr_key c then Some (info\<lparr>verdict := t\<rparr>)
      else get_function_safety (ps_functions st) m n)" for m n
    using old by (auto simp: pr_key_def)
  have "clears names fm m n \<and> (\<exists>info v. waiting names fm m n info \<and> nonblocking v \<and>
      get_function_safety ?fs m n = Some (info\<lparr>verdict := v\<rparr>))"
    if "(m, n) \<in> set (ps_promoted st @ [pr_key c])" for m n
  proof (cases "(m, n) = pr_key c")
    case True
    then have "m = ?m" "n = ?n" by (simp_all add: pr_key_def)
    with get [of m n] True w t clear show ?thesis by auto
  next
    case False
    then have "(m, n) \<in> set (ps_promoted st)" using that by simp
    then show ?thesis using ok get [of m n] False unfolding state_ok_def by presburger
  qed
  moreover have "get_function_safety ?fs m n = get_function_safety fm m n"
    if "(m, n) \<notin> set (ps_promoted st @ [pr_key c])" for m n
    using that ok get [of m n] by (simp add: state_ok_def)
  moreover have "ps_globally_safe st = verdict_names names needed (ps_functions st) Safe"
    "ps_globally_if_imported st = verdict_names names needed (ps_functions st) UnsafeIfImported"
    using ok by (simp_all add: state_ok_def)
  ultimately show "state_ok names fm needed ?st"
    unfolding state_ok_def fields names by simp
qed

lemma apply_promotions_ok:
  assumes "state_ok names fm needed st" "distinct (map (pr_key \<circ> fst) tp)"
    and "\<And>c t. (c, t) \<in> set tp \<Longrightarrow> is_candidate names fm c \<and> pr_key c \<notin> set (ps_promoted st) \<and>
       nonblocking t \<and> clears names fm (pr_module c) (pr_name c)"
  shows "state_ok names fm needed (foldl (apply_promotion needed) st tp) \<and>
    set (ps_promoted (foldl (apply_promotion needed) st tp)) = set (ps_promoted st) \<union> (pr_key \<circ> fst) ` set tp"
  using assms
proof (induction tp arbitrary: st)
  case (Cons ct tp)
  obtain c t where ct: "ct = (c, t)" by (cases ct)
  have c: "is_candidate names fm c" "pr_key c \<notin> set (ps_promoted st)" "nonblocking t"
    "clears names fm (pr_module c) (pr_name c)"
    using Cons.prems(3) [of c t] ct by auto
  let ?st = "apply_promotion needed st (c, t)"
  note step = apply_promotion_ok [OF Cons.prems(1) c]
  have "state_ok names fm needed (foldl (apply_promotion needed) ?st tp) \<and>
      set (ps_promoted (foldl (apply_promotion needed) ?st tp)) = set (ps_promoted ?st) \<union> (pr_key \<circ> fst) ` set tp"
  proof (rule Cons.IH [OF step(1)])
    show "distinct (map (pr_key \<circ> fst) tp)" using Cons.prems(2) by (simp add: comp_def)
    fix c' t'
    assume "(c', t') \<in> set tp"
    moreover from this have "pr_key c' \<noteq> pr_key c" using Cons.prems(2) ct by force
    ultimately show "is_candidate names fm c' \<and> pr_key c' \<notin> set (ps_promoted ?st) \<and>
        nonblocking t' \<and> clears names fm (pr_module c') (pr_name c')"
      using Cons.prems(3) [of c' t'] step(2) by simp
  qed
  then show ?case using step(2) ct by simp
qed simp

section \<open>The rounds\<close>

definition flags_ok ::
  "modname list \<Rightarrow> verdict_map \<Rightarrow> promotion_state \<Rightarrow> (bool \<times> promotion_candidate) list \<Rightarrow> bool" where
  "flags_ok names fm st ps \<longleftrightarrow>
     distinct (map (pr_key \<circ> snd) ps) \<and>
     list_all (\<lambda>(flag, c). is_candidate names fm c \<and> (flag \<longleftrightarrow> pr_key c \<in> set (ps_promoted st))) ps"

text \<open>A callee that clears in the current state.\<close>

definition callee_now ::
  "modname list \<Rightarrow> string set \<Rightarrow> verdict_map \<Rightarrow> string \<Rightarrow> bool" where
  "callee_now names needed fs c \<longleftrightarrow>
     (case split_in names c of
        Some (m, l) \<Rightarrow> \<exists>info. get_function_safety fs m l = Some info \<and> nonblocking (verdict info)
      | None \<Rightarrow> c \<in> needed \<and>
          (\<exists>m info. m \<in> set names \<and> get_function_safety fs m c = Some info \<and> nonblocking (verdict info)))"

lemma resolve_callee_now:
  fixes c :: string
  assumes "state_ok names fm needed st"
  defines "v \<equiv> resolve_callee_verdict (resolve_callee c (split_in names c)) (ps_functions st)
    (ps_globally_safe st) (ps_globally_if_imported st)"
  shows "v \<noteq> None \<longleftrightarrow> callee_now names needed (ps_functions st) c"
    "v = Some w \<Longrightarrow> nonblocking w"
proof -
  have index: "ps_globally_safe st = verdict_names names needed (ps_functions st) Safe"
    "ps_globally_if_imported st = verdict_names names needed (ps_functions st) UnsafeIfImported"
    using assms(1) by (simp_all add: state_ok_def)
  show "v \<noteq> None \<longleftrightarrow> callee_now names needed (ps_functions st) c"
  proof (cases "split_in names c")
    case None
    then show ?thesis
      unfolding v_def index by (auto simp: resolve_callee_def resolve_callee_verdict_def
          verdict_names_def callee_now_def nonblocking_def)
  next
    case (Some ml)
    then show ?thesis
      by (cases ml) (auto simp: v_def resolve_callee_def resolve_callee_verdict_def callee_now_def
          maybe_non_blocking_verdict_def nonblocking_def split: option.split)
  qed
  show "nonblocking w" if "v = Some w"
    using that
    by (cases "split_in names c")
      (auto simp: v_def resolve_callee_def resolve_callee_verdict_def nonblocking_def
        split: option.splits if_splits)
qed

lemma callee_now_clears:
  assumes "state_ok names fm needed st" "callee_now names needed (ps_functions st) c"
  shows "(\<exists>m' l. split_in names c = Some (m', l) \<and> clears names fm m' l) \<or>
    (split_in names c = None \<and> (\<exists>m'. m' \<in> set names \<and> clears names fm m' c))"
  using assms(2) state_ok_clears [OF assms(1)]
  by (cases "split_in names c") (auto simp: callee_now_def)

lemma round_target_iff:
  assumes ok: "state_ok names fm needed st" and wf: "wf_verdicts fm"
    and w: "waiting names fm m n info" and c: "c = candidate_of names m n info"
  shows "round_target st (False, c) \<noteq> None \<longleftrightarrow>
      (\<forall>callee\<in>set (missing_dep_callees info). callee_now names needed (ps_functions st) callee)"
    "round_target st (False, c) = Some t \<Longrightarrow> nonblocking t \<and> clears names fm m n"
proof -
  let ?target = "target_verdict (ps_functions st) (ps_globally_safe st) (ps_globally_if_imported st)
    (without (verdict info) UnsafeMissingDep)
    (map (\<lambda>c. resolve_callee c (split_in names c)) (missing_dep_callees info))"
  have target: "round_target st (False, c) = ?target"
    by (simp add: round_target_def c candidate_of_def)
  show iff: "round_target st (False, c) \<noteq> None \<longleftrightarrow>
      (\<forall>callee\<in>set (missing_dep_callees info). callee_now names needed (ps_functions st) callee)"
    unfolding target target_verdict_None_iff using resolve_callee_now(1) [OF ok] by simp
  assume t: "round_target st (False, c) = Some t"
  have "nonblocking t"
    by (rule target_verdict_nonblocking [OF t [unfolded target] waiting_base [OF wf w]])
      (use resolve_callee_now(2) [OF ok] in auto)
  moreover have "\<forall>callee\<in>set (missing_dep_callees info). callee_now names needed (ps_functions st) callee"
    using iff t by simp
  then have "clears names fm m n"
    using callee_now_clears [OF ok] by (intro clears_later [OF w]) blast
  ultimately show "nonblocking t \<and> clears names fm m n" by blast
qed

lemma to_promote_entry:
  "(c, t) \<in> set (to_promote st ps) \<longleftrightarrow> (\<exists>flag. (flag, c) \<in> set ps \<and> round_target st (flag, c) = Some t)"
  by (force simp: to_promote_def split: option.splits)

lemma distinct_to_promote:
  "distinct (map (pr_key \<circ> snd) ps) \<Longrightarrow> distinct (map (pr_key \<circ> fst) (to_promote st ps))"
proof (induction ps)
  case (Cons p ps)
  have sub: "(pr_key \<circ> fst) ` set (to_promote st ps) \<subseteq> (pr_key \<circ> snd) ` set ps"
    by (force simp: to_promote_def split: option.splits)
  have step: "to_promote st (p # ps) =
      (case round_target st p of None \<Rightarrow> [] | Some t \<Rightarrow> [(snd p, t)]) @ to_promote st ps"
    by (simp add: to_promote_def)
  have IH: "distinct (map (pr_key \<circ> fst) (to_promote st ps))"
    using Cons by (simp add: comp_def)
  have "(pr_key \<circ> snd) p \<notin> (pr_key \<circ> fst) ` set (to_promote st ps)"
    using sub Cons.prems by auto
  with IH show ?case unfolding step by (cases "round_target st p") (simp_all add: comp_def)
qed (simp add: to_promote_def)

lemma round_ok:
  assumes ok: "state_ok names fm needed st" and wf: "wf_verdicts fm" and flags: "flags_ok names fm st ps"
  defines "st' \<equiv> foldl (apply_promotion needed) st (to_promote st ps)"
  shows "state_ok names fm needed st'" "flags_ok names fm st' (mark_promoted st ps)"
proof -
  have dist: "distinct (map (pr_key \<circ> snd) ps)" using flags by (simp add: flags_ok_def)
  have entry: "is_candidate names fm c \<and> (flag \<longleftrightarrow> pr_key c \<in> set (ps_promoted st))"
    if "(flag, c) \<in> set ps" for flag c
    using flags that by (auto simp: flags_ok_def list_all_iff)
  have each: "is_candidate names fm c \<and> pr_key c \<notin> set (ps_promoted st) \<and>
      nonblocking t \<and> clears names fm (pr_module c) (pr_name c)" if prom: "(c, t) \<in> set (to_promote st ps)" for c t
  proof -
    obtain flag where f: "(flag, c) \<in> set ps" "round_target st (flag, c) = Some t"
      using prom unfolding to_promote_entry by blast
    then have not_flag: "\<not> flag" by (auto simp: round_target_def split: if_splits)
    obtain info where info: "waiting names fm (pr_module c) (pr_name c) info"
      "c = candidate_of names (pr_module c) (pr_name c) info"
      using entry [OF f(1)] unfolding is_candidate_def by blast
    from f(2) not_flag have "round_target st (False, c) = Some t" by simp
    from round_target_iff(2) [OF ok wf info this] show ?thesis
      using not_flag entry [OF f(1)] by blast
  qed
  have step: "state_ok names fm needed st' \<and>
      set (ps_promoted st') = set (ps_promoted st) \<union> (pr_key \<circ> fst) ` set (to_promote st ps)"
    unfolding st'_def
    by (rule apply_promotions_ok [OF ok distinct_to_promote [OF dist]]) (rule each)
  show "state_ok names fm needed st'" by (rule conjunct1 [OF step])
  have promoted: "set (ps_promoted st') = set (ps_promoted st) \<union> (pr_key \<circ> fst) ` set (to_promote st ps)"
    by (rule conjunct2 [OF step])
  have inj: "inj_on (pr_key \<circ> snd) (set ps)" using dist by (simp add: distinct_map)
  have flag: "(flag \<or> round_target st (flag, c) \<noteq> None) \<longleftrightarrow> pr_key c \<in> set (ps_promoted st')"
    if mem: "(flag, c) \<in> set ps" for flag c
  proof -
    have "pr_key c \<in> (pr_key \<circ> fst) ` set (to_promote st ps) \<longleftrightarrow> round_target st (flag, c) \<noteq> None"
    proof
      assume "pr_key c \<in> (pr_key \<circ> fst) ` set (to_promote st ps)"
      then obtain c' t where c': "(c', t) \<in> set (to_promote st ps)" "pr_key c' = pr_key c" by auto
      then obtain flag' where f': "(flag', c') \<in> set ps" "round_target st (flag', c') = Some t"
        unfolding to_promote_entry by blast
      then have "(flag', c') = (flag, c)"
        using inj_onD [OF inj _ f'(1) mem] c'(2) by simp
      with f' show "round_target st (flag, c) \<noteq> None" by simp
    next
      assume "round_target st (flag, c) \<noteq> None"
      then obtain t where "(c, t) \<in> set (to_promote st ps)" using mem unfolding to_promote_entry by blast
      then show "pr_key c \<in> (pr_key \<circ> fst) ` set (to_promote st ps)"
        by (intro image_eqI [of _ _ "(c, t)"]) simp_all
    qed
    then show ?thesis using entry [OF mem] unfolding promoted by blast
  qed
  have keys: "map (pr_key \<circ> snd) (mark_promoted st ps) = map (pr_key \<circ> snd) ps"
    by (simp add: mark_promoted_def)
  have marks: "is_candidate names fm c \<and> (marked \<longleftrightarrow> pr_key c \<in> set (ps_promoted st'))"
    if mem: "(marked, c) \<in> set (mark_promoted st ps)" for marked c
  proof -
    from mem obtain p where p: "p \<in> set ps" "(marked, c) = (fst p \<or> round_target st p \<noteq> None, snd p)"
      unfolding mark_promoted_def set_map by blast
    obtain old where "p = (old, c)" using p(2) by (cases p) simp
    then have old: "(old, c) \<in> set ps" "marked \<longleftrightarrow> old \<or> round_target st (old, c) \<noteq> None"
      using p by simp_all
    then show ?thesis using flag [OF old(1)] entry [OF old(1)] by blast
  qed
  have "list_all (\<lambda>(flag, c). is_candidate names fm c \<and> (flag \<longleftrightarrow> pr_key c \<in> set (ps_promoted st')))
      (mark_promoted st ps)"
    unfolding list_all_iff
  proof
    fix p
    assume "p \<in> set (mark_promoted st ps)"
    then show "case p of (flag, c) \<Rightarrow> is_candidate names fm c \<and> (flag \<longleftrightarrow> pr_key c \<in> set (ps_promoted st'))"
      using marks [of "fst p" "snd p"] by (simp only: prod.collapse case_prod_beta)
  qed
  then show "flags_ok names fm st' (mark_promoted st ps)"
    unfolding flags_ok_def keys using dist by (simp only: simp_thms)
qed

lemma promote_loop_ok:
  assumes "state_ok names fm needed st" "wf_verdicts fm" "flags_ok names fm st ps"
  shows "\<exists>ps'. state_ok names fm needed (promote_loop needed ps st) \<and>
    flags_ok names fm (promote_loop needed ps st) ps' \<and> map snd ps' = map snd ps \<and>
    to_promote (promote_loop needed ps st) ps' = []"
  using assms
proof (induction needed ps st rule: promote_loop.induct)
  case (1 needed ps st)
  show ?case
  proof (cases "to_promote st ps = []")
    case True
    then show ?thesis using "1.prems" by (auto simp: promote_loop.simps [of needed ps st])
  next
    case False
    let ?st = "foldl (apply_promotion needed) st (to_promote st ps)" and ?ps = "mark_promoted st ps"
    note step = round_ok [OF "1.prems"]
    have keys: "map snd ?ps = map snd ps" by (simp add: mark_promoted_def)
    have eq: "promote_loop needed ps st = promote_loop needed ?ps ?st"
      using False by (simp only: promote_loop.simps [of needed ps st] if_False)
    show ?thesis
      unfolding eq keys [symmetric] by (rule "1.IH" [OF False step(1) "1.prems"(2) step(2)])
  qed
qed

section \<open>The whole promotion\<close>

lemma candidates_entry:
  "c \<in> set (collect_promotion_candidates names fm split) \<longleftrightarrow>
     (\<exists>m fs n info. (m, fs) \<in> set fm \<and> m \<in> set names \<and> (n, info) \<in> set fs \<and>
        has (verdict info) UnsafeMissingDep \<and> \<not> has (verdict info) Unsafe \<and> missing_dep_callees info \<noteq> [] \<and>
        c = \<lparr>pr_module = m, pr_name = n, pr_base_verdict = without (verdict info) UnsafeMissingDep,
             pr_callees = map split (missing_dep_callees info)\<rparr>)"
  by (force simp: collect_promotion_candidates_def)

abbreviation split_callee :: "modname list \<Rightarrow> string \<Rightarrow> resolved_callee" where
  "split_callee names \<equiv> (\<lambda>c. resolve_callee c (split_in names c))"

lemma candidates_iff:
  assumes "wf_verdicts fm"
  shows "c \<in> set (collect_promotion_candidates names fm (split_callee names)) \<longleftrightarrow>
    (\<exists>m n info. waiting names fm m n info \<and> c = candidate_of names m n info)"
  unfolding candidates_entry waiting_def get_entry [OF assms] candidate_of_def by blast

lemma distinct_concat_pairs:
  assumes "distinct (map fst xs)" "\<And>x ys. (x, ys) \<in> set xs \<Longrightarrow> distinct ys"
  shows "distinct (concat (map (\<lambda>(x, ys). map (Pair x) ys) xs))"
  using assms
proof (induction xs)
  case (Cons p xs)
  obtain x ys where p: "p = (x, ys)" by (cases p)
  have "distinct (concat (map (\<lambda>(x, ys). map (Pair x) ys) xs))"
    using Cons.prems by (intro Cons.IH) auto
  moreover have "distinct ys" using Cons.prems(2) [of x ys] p by simp
  moreover have "x \<notin> fst ` set xs" using Cons.prems(1) p by simp
  ultimately show ?case by (auto simp: p distinct_map inj_on_def image_iff)
qed simp

lemma distinct_candidates:
  assumes "wf_verdicts fm"
  shows "distinct (map pr_key (collect_promotion_candidates names fm split))"
proof -
  let ?ok = "\<lambda>(n, info). has (verdict info) UnsafeMissingDep \<and> \<not> has (verdict info) Unsafe \<and>
    missing_dep_callees info \<noteq> []"
  let ?xs = "map (\<lambda>(m, fs). (m, map fst (filter ?ok fs))) (filter (\<lambda>(m, _). m \<in> set names) fm)"
  have eq: "map pr_key (collect_promotion_candidates names fm split) = concat (map (\<lambda>(x, ys). map (Pair x) ys) ?xs)"
    by (simp add: collect_promotion_candidates_def map_concat comp_def pr_key_def case_prod_beta')
  have keys: "distinct (map fst ?xs)"
    using assms by (simp add: wf_verdicts_def comp_def case_prod_beta' distinct_map_filter)
  have each: "distinct ys" if "(x, ys) \<in> set ?xs" for x ys
    using that assms by (auto simp: wf_verdicts_def list_all_iff wf_table_def distinct_map_filter)
  show ?thesis unfolding eq by (rule distinct_concat_pairs [OF keys]) (rule each)
qed

lemma name_index_entry:
  "n \<in> name_index names fm needed v \<longleftrightarrow>
     n \<in> needed \<and> (\<exists>m fs info. (m, fs) \<in> set fm \<and> m \<in> set names \<and> (n, info) \<in> set fs \<and> verdict info = v)"
proof -
  have "n \<in> name_index names fm needed v \<longleftrightarrow>
      (\<exists>p\<in>set fm. fst p \<in> set names \<and> (\<exists>q\<in>set (snd p). fst q = n \<and> n \<in> needed \<and> verdict (snd q) = v))"
    by (auto simp: name_index_def case_prod_beta')
  then show ?thesis by (auto simp: Bex_def)
qed

lemma name_index_eq:
  "wf_verdicts fm \<Longrightarrow> name_index names fm needed v = verdict_names names needed fm v"
  unfolding verdict_names_def get_entry name_index_entry set_eq_iff mem_Collect_eq by blast

definition promotion_needs :: "modname list \<Rightarrow> verdict_map \<Rightarrow> string set \<Rightarrow> string set" where
  "promotion_needs names fm needed = needed \<union>
     {n. \<exists>c \<in> set (collect_promotion_candidates names fm (split_callee names)). Unqualified n \<in> set (pr_callees c)}"

lemma promote_fixpoint_eq:
  fixes names :: "modname list" and needed :: "string set"
  assumes "wf_verdicts fm"
  defines "cs \<equiv> collect_promotion_candidates names fm (split_callee names)"
    and "N \<equiv> promotion_needs names fm needed"
  shows "promote_fixpoint names fm needed search =
    promote_loop N (map (Pair False) cs)
      \<lparr>ps_functions = fm, ps_globally_safe = verdict_names names N fm Safe,
       ps_globally_if_imported = verdict_names names N fm UnsafeIfImported, ps_promoted = []\<rparr>"
proof -
  have split: "(\<lambda>name. resolve_callee name (case search of
              Intern \<Rightarrow> enclosing_module name (\<lambda>m. m \<in> set names)
            | ProbeStr \<Rightarrow> enclosing_module_str name (\<lambda>m. m \<in> set names))) = split_callee names"
    by (cases search) (simp_all add: enclosing_module_str_eq)
  have N: "needed \<union> set (concat (map (\<lambda>callee. case callee of Unqualified name \<Rightarrow> [name] | Qualified _ _ \<Rightarrow> [])
              (concat (map pr_callees cs)))) = N"
    unfolding N_def promotion_needs_def cs_def by (force split: resolved_callee.splits)
  show ?thesis
    unfolding promote_fixpoint_def split cs_def [symmetric] Let_def N name_index_eq [OF assms(1)] by simp
qed

definition not_blocked :: "verdict_map \<Rightarrow> modname \<Rightarrow> string \<Rightarrow> bool" where
  "not_blocked fm m n \<longleftrightarrow>
     (case get_function_safety fm m n of None \<Rightarrow> False | Some info \<Rightarrow> nonblocking (verdict info))"

lemma not_blocked_iff: "not_blocked fm m n \<longleftrightarrow> (\<exists>info. get_function_safety fm m n = Some info \<and> nonblocking (verdict info))"
  by (simp add: not_blocked_def split: option.split)

lemma initial_ok:
  "state_ok names fm needed
     \<lparr>ps_functions = fm, ps_globally_safe = verdict_names names needed fm Safe,
      ps_globally_if_imported = verdict_names names needed fm UnsafeIfImported, ps_promoted = []\<rparr>"
  by (simp add: state_ok_def)

lemma initial_flags_ok:
  assumes "wf_verdicts fm" "ps_promoted st = []"
  shows "flags_ok names fm st (map (Pair False) (collect_promotion_candidates names fm (split_callee names)))"
proof -
  have "is_candidate names fm c" if mem: "c \<in> set (collect_promotion_candidates names fm (split_callee names))" for c
  proof -
    obtain m n info where w: "waiting names fm m n info" "c = candidate_of names m n info"
      using mem candidates_iff [OF assms(1)] by blast
    have key: "pr_module c = m" "pr_name c = n" using w(2) by (simp_all add: candidate_of_def)
    show ?thesis unfolding is_candidate_def key using w by blast
  qed
  then show ?thesis
    using assms(2) distinct_candidates [OF assms(1), of names "split_callee names"]
    by (auto simp: flags_ok_def list_all_iff comp_def)
qed

text \<open>In a state where no round promotes anything, everything that clears has cleared.\<close>

lemma clears_not_blocked:
  assumes ok: "state_ok names fm needed st" and wf: "wf_verdicts fm"
    and needs: "promotion_needs names fm needed' \<subseteq> needed"
    and ps: "map snd ps = collect_promotion_candidates names fm (split_callee names)"
      "flags_ok names fm st ps" "to_promote st ps = []"
    and clears: "clears names fm m n"
  shows "not_blocked (ps_functions st) m n"
  using clears
proof (induction rule: clears.induct)
  case (clears_now m n info)
  show ?case
  proof (cases "(m, n) \<in> set (ps_promoted st)")
    case True
    then obtain info v where "nonblocking v" "get_function_safety (ps_functions st) m n = Some (info\<lparr>verdict := v\<rparr>)"
      using ok unfolding state_ok_def by blast
    then show ?thesis by (simp add: not_blocked_def)
  next
    case False
    then have "get_function_safety (ps_functions st) m n = get_function_safety fm m n"
      using ok unfolding state_ok_def by blast
    then show ?thesis using clears_now by (simp add: not_blocked_def)
  qed
next
  case (clears_later m n info)
  let ?c = "candidate_of names m n info"
  have "?c \<in> snd ` set ps"
    using candidates_iff [OF wf, of ?c names] clears_later.hyps(1) unfolding ps(1) [symmetric] set_map by blast
  then obtain flag where mem: "(flag, ?c) \<in> set ps" by force
  have key: "pr_key ?c = (m, n)" by (simp add: pr_key_def candidate_of_def)
  have flag: "flag \<longleftrightarrow> (m, n) \<in> set (ps_promoted st)"
    using ps(2) mem by (auto simp: flags_ok_def list_all_iff key)
  have "callee_now names needed (ps_functions st) callee" if callee: "callee \<in> set (missing_dep_callees info)" for callee
  proof (cases "split_in names callee")
    case None
    then have "Unqualified callee \<in> set (pr_callees ?c)"
      using callee by (auto simp: candidate_of_def resolve_callee_def intro!: rev_image_eqI [of callee])
    then have "callee \<in> needed"
      using needs candidates_iff [OF wf, of ?c names] clears_later.hyps(1) unfolding promotion_needs_def by blast
    then show ?thesis using clears_later.IH [OF callee] None by (auto simp: callee_now_def not_blocked_iff)
  next
    case (Some ml)
    then show ?thesis using clears_later.IH [OF callee] by (auto simp: callee_now_def not_blocked_iff)
  qed
  then have "round_target st (False, ?c) \<noteq> None"
    using round_target_iff(1) [OF ok wf clears_later.hyps(1) refl] by blast
  moreover have "round_target st (flag, ?c) = None"
    using ps(3) to_promote_entry [of ?c _ st ps] mem by (cases "round_target st (flag, ?c)") auto
  ultimately have "(m, n) \<in> set (ps_promoted st)" using flag by (cases flag) simp_all
  then obtain info v where "nonblocking v" "get_function_safety (ps_functions st) m n = Some (info\<lparr>verdict := v\<rparr>)"
    using ok unfolding state_ok_def by blast
  then show ?case by (simp add: not_blocked_def)
qed

text \<open>
  C6: \<open>promote_fixpoint\<close> promotes exactly the waiting functions that clear, the least solution of
  the rule that a waiting function clears when all the callees it waits for do; afterwards a
  function does not block exactly when it clears, every other entry is as it was, a promoted one
  has only its verdict changed, and the two name indices describe the resulting table.
\<close>
theorem promote_fixpoint_exact:
  fixes names :: "modname list" and needed :: "string set" and search :: name_search
  assumes wf: "wf_verdicts fm"
  defines "r \<equiv> promote_fixpoint names fm needed search"
  shows "set (ps_promoted r) = {(m, n). (\<exists>info. waiting names fm m n info) \<and> clears names fm m n} \<and>
    (\<forall>m n. not_blocked (ps_functions r) m n \<longleftrightarrow> clears names fm m n) \<and>
    (\<forall>m n. get_function_safety (ps_functions r) m n =
       (if (m, n) \<in> set (ps_promoted r)
        then (case get_function_safety fm m n of None \<Rightarrow> None
              | Some info \<Rightarrow> Some (info\<lparr>verdict := verdict (the (get_function_safety (ps_functions r) m n))\<rparr>))
        else get_function_safety fm m n)) \<and>
    ps_globally_safe r = verdict_names names (promotion_needs names fm needed) (ps_functions r) Safe \<and>
    ps_globally_if_imported r =
      verdict_names names (promotion_needs names fm needed) (ps_functions r) UnsafeIfImported"
proof -
  define N where "N = promotion_needs names fm needed"
  let ?st = "\<lparr>ps_functions = fm, ps_globally_safe = verdict_names names N fm Safe,
     ps_globally_if_imported = verdict_names names N fm UnsafeIfImported, ps_promoted = []\<rparr>"
  let ?cs = "collect_promotion_candidates names fm (split_callee names)"
  have flags: "flags_ok names fm ?st (map (Pair False) ?cs)" by (rule initial_flags_ok [OF wf]) simp
  obtain ps' where loop: "state_ok names fm N r" "flags_ok names fm r ps'" "to_promote r ps' = []"
    and keys: "map snd ps' = collect_promotion_candidates names fm (split_callee names)"
    using promote_loop_ok [OF initial_ok wf flags]
    unfolding r_def promote_fixpoint_eq [OF wf] N_def [symmetric] by (auto simp: comp_def)
  have done_iff: "not_blocked (ps_functions r) m n \<longleftrightarrow> clears names fm m n" for m n
    using clears_not_blocked [OF loop(1) wf _ keys loop(2,3), of needed m n] state_ok_clears [OF loop(1)]
    unfolding N_def not_blocked_iff by blast
  have "(m, n) \<in> set (ps_promoted r) \<longleftrightarrow> (\<exists>info. waiting names fm m n info) \<and> clears names fm m n" for m n
  proof
    show "(\<exists>info. waiting names fm m n info) \<and> clears names fm m n" if "(m, n) \<in> set (ps_promoted r)"
      using loop(1) that unfolding state_ok_def by blast
    assume "(\<exists>info. waiting names fm m n info) \<and> clears names fm m n"
    then obtain info where info: "waiting names fm m n info" "clears names fm m n" by blast
    have "\<not> not_blocked fm m n"
      using info(1) nonblocking_not_waiting by (auto simp: not_blocked_def waiting_def)
    moreover have "not_blocked (ps_functions r) m n" using done_iff info(2) by blast
    ultimately show "(m, n) \<in> set (ps_promoted r)"
      using loop(1) unfolding state_ok_def not_blocked_def by metis
  qed
  moreover have "get_function_safety (ps_functions r) m n =
       (if (m, n) \<in> set (ps_promoted r)
        then (case get_function_safety fm m n of None \<Rightarrow> None
              | Some info \<Rightarrow> Some (info\<lparr>verdict := verdict (the (get_function_safety (ps_functions r) m n))\<rparr>))
        else get_function_safety fm m n)" for m n
  proof (cases "(m, n) \<in> set (ps_promoted r)")
    case True
    then obtain info v where "waiting names fm m n info"
      "get_function_safety (ps_functions r) m n = Some (info\<lparr>verdict := v\<rparr>)"
      using loop(1) unfolding state_ok_def by blast
    then show ?thesis using True by (simp add: waiting_def)
  next
    case False
    then show ?thesis using loop(1) unfolding state_ok_def by simp
  qed
  ultimately show ?thesis using loop(1) done_iff unfolding state_ok_def N_def by auto
qed

text \<open>A chain of three libraries, and a function that waits for itself.\<close>

definition waiting_info :: "modname list \<Rightarrow> function_safety_info" where
  "waiting_info callees = \<lparr>verdict = UnsafeMissingDep, missing_dep_callees = callees, mutated_params = []\<rparr>"

definition sample_verdicts :: verdict_map where
  "sample_verdicts =
     [(''a'', [(''f'', waiting_info [''b.g'']), (''loop'', waiting_info [''a.loop''])]),
      (''b'', [(''g'', waiting_info [''c.h''])]),
      (''c'', [(''h'', new_info UnsafeIfImported)])]"

lemma promote_fixpoint_exact_witness:
  "ps_promoted (promote_fixpoint [''a'', ''b'', ''c''] sample_verdicts {} Intern) = [(''b'', ''g''), (''a'', ''f'')] \<and>
   clears [''a'', ''b'', ''c''] sample_verdicts ''a'' ''f'' \<and>
   \<not> clears [''a'', ''b'', ''c''] sample_verdicts ''a'' ''loop''"
proof -
  have wf: "wf_verdicts sample_verdicts"
    by (simp add: wf_verdicts_def wf_table_def sample_verdicts_def waiting_info_def new_info_def
        wf_safety_def UnsafeMissingDep_def UnsafeIfImported_def)
  have run: "ps_promoted (promote_fixpoint [''a'', ''b'', ''c''] sample_verdicts {} Intern) =
      [(''b'', ''g''), (''a'', ''f'')]"
    by code_simp
  have "waiting [''a'', ''b'', ''c''] sample_verdicts ''a'' ''loop'' (waiting_info [''a.loop''])"
    by (simp add: waiting_def sample_verdicts_def get_function_safety_def waiting_info_def)
      (simp add: UnsafeMissingDep_def bit_simps)
  moreover note main = promote_fixpoint_exact [OF wf, of "[''a'', ''b'', ''c'']" "{}" Intern, THEN conjunct1, unfolded run]
  have "(''a'', ''f'') \<in> set [(''b'', ''g''), (''a'', ''f'')]"
    "(''a'', ''loop'') \<notin> set [(''b'', ''g''), (''a'', ''f'')]" by simp_all
  ultimately show ?thesis unfolding main run mem_Collect_eq split_conv by blast
qed

end
