(* ===== verification/Resolution_Mutations.thy ===== *)
theory Resolution_Mutations
  imports Resolution
begin

text \<open>
  What the mutation phase leaves of the verdict table: it depends only on which callees were
  confirmed and which were discharged for a function, not on the order of the candidates.
\<close>

section \<open>Splitting a callee name\<close>

lemma view_split_loop_eq:
  "view_split_loop names fm name e =
     map_option (\<lambda>(m, l). (map_of fm m, l)) (enclosing_loop name (\<lambda>m. m \<in> set names) e)"
proof (induction names fm name e rule: view_split_loop.induct)
  case (1 names fm name e)
  then show ?case
    by (auto simp: view_split_loop.simps [of names fm name e] enclosing_loop.simps [of name _ e]
        view_get_def split: option.split)
qed

lemma view_split_eq:
  "view_split names fm name =
     map_option (\<lambda>(m, l). (map_of fm m, l)) (enclosing_module name (\<lambda>m. m \<in> set names))"
  by (simp add: view_split_def view_split_loop_eq enclosing_module_str_def flip: enclosing_module_str_eq)

lemma lookup_callee_eq:
  "lookup_callee names fm name =
     (case enclosing_module name (\<lambda>m. m \<in> set names) of
        None \<Rightarrow> None
      | Some (m, l) \<Rightarrow> get_function_safety fm m l)"
  by (auto simp: lookup_callee_def view_split_eq get_function_safety_def split: option.split)

section \<open>The entry of a function\<close>

text \<open>The entry after the callees \<open>K\<close> were confirmed and the callees \<open>D\<close> discharged.\<close>

definition settle :: "modname set \<Rightarrow> modname set \<Rightarrow> function_safety_info \<Rightarrow> function_safety_info" where
  "settle K D info =
     (let callees = filter (\<lambda>c. c \<notin> K \<union> D) (missing_dep_callees info);
          v = (if K = {} then verdict info else insert_concern (verdict info) Unsafe)
      in info\<lparr>verdict := (if K \<union> D \<noteq> {} \<and> callees = [] then remove_concern v UnsafeMissingDep else v),
              missing_dep_callees := callees\<rparr>)"

lemma settle_none [simp]: "settle {} {} = id"
  by (rule ext) (simp add: settle_def)

lemma settle_fields [simp]:
  "missing_dep_callees (settle K D info) = filter (\<lambda>c. c \<notin> K \<union> D) (missing_dep_callees info)"
  "mutated_params (settle K D info) = mutated_params info"
  "function_safety_info.more (settle K D info) = function_safety_info.more info"
  by (simp_all add: settle_def Let_def)

lemma settle_verdict:
  "verdict (settle K D info) =
     (let v = (if K = {} then verdict info else insert_concern (verdict info) Unsafe)
      in if K \<union> D \<noteq> {} \<and> missing_dep_callees (settle K D info) = [] then remove_concern v UnsafeMissingDep
         else v)"
  by (simp add: settle_def Let_def)

lemma concern_updates:
  "insert_concern (remove_concern v UnsafeMissingDep) Unsafe = remove_concern (insert_concern v Unsafe) UnsafeMissingDep"
  "insert_concern (insert_concern v Unsafe) Unsafe = insert_concern v Unsafe"
  "remove_concern (remove_concern v UnsafeMissingDep) UnsafeMissingDep = remove_concern v UnsafeMissingDep"
  by (rule bit_word_eqI, force simp: insert_concern_def remove_concern_def Unsafe_def UnsafeMissingDep_def bit_simps)+

lemma remove_absent: "\<not> bit v 1 \<Longrightarrow> remove_concern v UnsafeMissingDep = v"
  by (rule bit_word_eqI) (auto simp: remove_concern_def UnsafeMissingDep_def bit_simps)

lemma filter_more: "filter (\<lambda>x. x \<noteq> c) (filter (\<lambda>x. x \<notin> U) cs) = filter (\<lambda>x. x \<notin> insert c U) cs"
  by (auto intro: filter_cong)

definition confirm_info :: "modname \<Rightarrow> function_safety_info \<Rightarrow> function_safety_info" where
  "confirm_info c info =
     (let v = insert_concern (verdict info) Unsafe;
          callees = filter (\<lambda>x. x \<noteq> c) (missing_dep_callees info)
      in info\<lparr>verdict := (if callees = [] then remove_concern v UnsafeMissingDep else v),
              missing_dep_callees := callees\<rparr>)"

definition discharge_info :: "modname \<Rightarrow> function_safety_info \<Rightarrow> function_safety_info" where
  "discharge_info c info =
     (let info' = info\<lparr>missing_dep_callees := filter (\<lambda>x. x \<noteq> c) (missing_dep_callees info)\<rparr>
      in if \<not> has (verdict info') UnsafeMissingDep \<or> missing_dep_callees info' \<noteq> [] then info'
         else info'\<lparr>verdict := remove_concern (verdict info') UnsafeMissingDep\<rparr>)"

lemma discharge_info_fields:
  "missing_dep_callees (discharge_info c info) = filter (\<lambda>x. x \<noteq> c) (missing_dep_callees info)"
  "mutated_params (discharge_info c info) = mutated_params info"
  "verdict (discharge_info c info) =
     (if missing_dep_callees (discharge_info c info) = [] then remove_concern (verdict info) UnsafeMissingDep
      else verdict info)"
  using remove_absent [of "verdict info"] by (auto simp: discharge_info_def Let_def)

lemma settle_confirm: "confirm_info c (settle K {} info) = settle (insert c K) {} info"
proof (rule function_safety_info.equality)
  have cs: "missing_dep_callees (confirm_info c (settle K {} info)) = missing_dep_callees (settle (insert c K) {} info)"
    using filter_more [of c K] by (simp add: confirm_info_def Let_def)
  then show "missing_dep_callees (confirm_info c (settle K {} info)) = missing_dep_callees (settle (insert c K) {} info)" .
  have "verdict (confirm_info c (settle K {} info)) =
      (if missing_dep_callees (settle (insert c K) {} info) = []
       then remove_concern (insert_concern (verdict (settle K {} info)) Unsafe) UnsafeMissingDep
       else insert_concern (verdict (settle K {} info)) Unsafe)"
    unfolding cs [symmetric] by (simp add: confirm_info_def Let_def)
  moreover have "insert_concern (verdict (settle K {} info)) Unsafe = insert_concern (verdict info) Unsafe"
    if "missing_dep_callees (settle (insert c K) {} info) \<noteq> []"
    using that concern_updates(2) by (auto simp: settle_verdict Let_def filter_empty_conv)
  moreover have "remove_concern (insert_concern (verdict (settle K {} info)) Unsafe) UnsafeMissingDep =
      remove_concern (insert_concern (verdict info) Unsafe) UnsafeMissingDep"
    by (simp add: settle_verdict Let_def concern_updates)
  ultimately show "verdict (confirm_info c (settle K {} info)) = verdict (settle (insert c K) {} info)"
    by (simp add: settle_verdict [of "insert c K"] Let_def)
qed (simp_all add: confirm_info_def Let_def)

lemma settle_discharge: "discharge_info c (settle K D info) = settle K (insert c D) info"
proof (rule function_safety_info.equality)
  have cs: "missing_dep_callees (discharge_info c (settle K D info)) = missing_dep_callees (settle K (insert c D) info)"
    using filter_more [of c "K \<union> D"] by (simp add: discharge_info_fields)
  then show "missing_dep_callees (discharge_info c (settle K D info)) = missing_dep_callees (settle K (insert c D) info)" .
  have "verdict (discharge_info c (settle K D info)) =
      (if missing_dep_callees (settle K (insert c D) info) = []
       then remove_concern (verdict (settle K D info)) UnsafeMissingDep else verdict (settle K D info))"
    unfolding cs [symmetric] by (rule discharge_info_fields)
  moreover have "verdict (settle K D info) = (if K = {} then verdict info else insert_concern (verdict info) Unsafe)"
    if "missing_dep_callees (settle K (insert c D) info) \<noteq> []"
    using that by (auto simp: settle_verdict Let_def filter_empty_conv)
  moreover have "remove_concern (verdict (settle K D info)) UnsafeMissingDep =
      remove_concern (if K = {} then verdict info else insert_concern (verdict info) Unsafe) UnsafeMissingDep"
    by (simp add: settle_verdict Let_def concern_updates)
  ultimately show "verdict (discharge_info c (settle K D info)) = verdict (settle K (insert c D) info)"
    by (simp add: settle_verdict [of K "insert c D"] Let_def)
qed (simp_all add: discharge_info_def Let_def)

section \<open>The two phases\<close>

type_synonym placed_candidate = "modname \<times> mutation_candidate"

text \<open>The callees that the candidates in a list have at a function.\<close>

definition callees_at :: "placed_candidate list \<Rightarrow> modname \<Rightarrow> string \<Rightarrow> modname set" where
  "callees_at ps m n = {mc_callee c | c. (m, c) \<in> set ps \<and> mc_site c = SiteFunction n}"

lemma callees_at_simps [simp]:
  "callees_at [] m n = {}"
  "callees_at (p # ps) m n =
     (if fst p = m \<and> mc_site (snd p) = SiteFunction n then insert (mc_callee (snd p)) (callees_at ps m n)
      else callees_at ps m n)"
  by (cases p, auto simp: callees_at_def)+

fun module_scope_error :: "placed_candidate \<Rightarrow> (modname \<times> string \<times> text_range) list" where
  "module_scope_error (m, c) =
     (case mc_site c of SiteModuleScope call \<Rightarrow> [(m, call, mc_range c)] | SiteFunction name \<Rightarrow> [])"

lemma apply_confirmed_candidate_eq:
  "apply_confirmed_candidate (m, c) (fm, errs) =
     ((case mc_site c of SiteModuleScope call \<Rightarrow> fm
       | SiteFunction name \<Rightarrow> modify_function m name (confirm_info (mc_callee c)) fm),
      errs @ module_scope_error (m, c))"
  by (simp add: apply_confirmed_candidate_def confirm_info_def [abs_def] split: mutation_candidate_site.split)

lemma discharge_candidate_eq:
  "discharge_candidate (m, c) fm =
     (case mc_site c of SiteModuleScope call \<Rightarrow> fm
      | SiteFunction name \<Rightarrow> modify_function m name (discharge_info (mc_callee c)) fm)"
  by (simp add: discharge_candidate_def discharge_info_def [abs_def] split: mutation_candidate_site.split)

lemma confirm_fold:
  assumes "\<And>m n. get_function_safety fm m n = map_option (settle (K m n) {}) (get_function_safety fm0 m n)"
  shows "get_function_safety (fst (foldl (\<lambda>st p. apply_confirmed_candidate p st) (fm, errs) ps)) m n =
      map_option (settle (K m n \<union> callees_at ps m n) {}) (get_function_safety fm0 m n) \<and>
    snd (foldl (\<lambda>st p. apply_confirmed_candidate p st) (fm, errs) ps) =
      errs @ concat (map module_scope_error ps)"
  using assms
proof (induction ps arbitrary: fm errs K)
  case (Cons p ps)
  obtain m' c where p: "p = (m', c)" by (cases p)
  obtain fm' errs' where st: "apply_confirmed_candidate p (fm, errs) = (fm', errs')" by fastforce
  let ?K = "\<lambda>m n. if m = m' \<and> mc_site c = SiteFunction n then insert (mc_callee c) (K m n) else K m n"
  have fm': "get_function_safety fm' m n = map_option (settle (?K m n) {}) (get_function_safety fm0 m n)" for m n
    using st Cons.prems [of m n] unfolding p apply_confirmed_candidate_eq
    by (auto simp: option.map_comp comp_def settle_confirm split: mutation_candidate_site.splits)
  have errs': "errs' = errs @ module_scope_error p"
    using st unfolding p apply_confirmed_candidate_eq by simp
  have "?K m n \<union> callees_at ps m n = K m n \<union> callees_at (p # ps) m n"
    by (auto simp: p)
  then show ?case using Cons.IH [of fm' ?K errs', OF fm'] st errs' by simp
qed simp

lemma discharge_fold:
  assumes "\<And>m n. get_function_safety fm m n = map_option (settle (K m n) (D m n)) (get_function_safety fm0 m n)"
  shows "get_function_safety (foldl (\<lambda>fm p. discharge_candidate p fm) fm ps) m n =
      map_option (settle (K m n) (D m n \<union> callees_at ps m n)) (get_function_safety fm0 m n)"
  using assms
proof (induction ps arbitrary: fm D)
  case (Cons p ps)
  obtain m' c where p: "p = (m', c)" by (cases p)
  let ?D = "\<lambda>m n. if m = m' \<and> mc_site c = SiteFunction n then insert (mc_callee c) (D m n) else D m n"
  have "get_function_safety (discharge_candidate p fm) m n =
      map_option (settle (K m n) (?D m n)) (get_function_safety fm0 m n)" for m n
    using Cons.prems [of m n] unfolding p discharge_candidate_eq
    by (auto simp: option.map_comp comp_def settle_discharge split: mutation_candidate_site.splits)
  note IH = Cons.IH [of "discharge_candidate p fm" ?D, OF this]
  have "?D m n \<union> callees_at ps m n = D m n \<union> callees_at (p # ps) m n"
    by (auto simp: p)
  with IH show ?case by simp
qed simp

definition placed :: "(modname \<times> mutation_candidate list) list \<Rightarrow> placed_candidate list" where
  "placed modules = concat (map (\<lambda>(module, cs). map (Pair module) cs) modules)"

text \<open>The candidates whose argument the callee mutates.\<close>

definition confirmed_of ::
  "(modname \<times> mutation_candidate list) list \<Rightarrow> modname list \<Rightarrow> verdict_map \<Rightarrow> placed_candidate list" where
  "confirmed_of modules names fm = filter (\<lambda>(_, c). candidate_mutates c names fm) (placed modules)"

text \<open>The verdict a callee has once the candidates are confirmed is not safe.\<close>

definition unsafe_after ::
  "placed_candidate list \<Rightarrow> modname list \<Rightarrow> verdict_map \<Rightarrow> modname \<Rightarrow> bool" where
  "unsafe_after confirmed names fm callee \<longleftrightarrow>
     (\<exists>m l info. enclosing_module callee (\<lambda>m. m \<in> set names) = Some (m, l) \<and>
        get_function_safety fm m l = Some info \<and> \<not> is_safe (verdict (settle (callees_at confirmed m l) {} info)))"

definition discharged_of ::
  "(modname \<times> mutation_candidate list) list \<Rightarrow> modname list \<Rightarrow> verdict_map \<Rightarrow> placed_candidate list" where
  "discharged_of modules names fm =
     filter (\<lambda>(_, c). \<not> candidate_mutates c names fm \<and> is_function_site (mc_site c) \<and>
          \<not> unsafe_after (confirmed_of modules names fm) names fm (mc_callee c)) (placed modules)"

lemma foldl_filter_zip:
  "foldl (\<lambda>st (p, _). f p st) s (filter snd (zip ps (map P ps))) = foldl (\<lambda>st p. f p st) s (filter P ps)"
  by (induction ps arbitrary: s) simp_all

text \<open>
  C13: Confirming and discharging a program's mutation candidates changes the entry of a function
  by what was confirmed and what was discharged for it and nothing else: those callees are no
  longer waited for, a confirmed one makes the function unsafe, and when nothing is left to wait
  for the missing-dependency concern goes. Errors are raised for the confirmed candidates at
  module scope, in their order.
\<close>
theorem apply_mutation_candidates_exact:
  "let (fm', errs) = apply_mutation_candidates modules names fm;
       confirmed = confirmed_of modules names fm;
       discharged = discharged_of modules names fm
   in (\<forall>m n. get_function_safety fm' m n =
         map_option (settle (callees_at confirmed m n) (callees_at discharged m n)) (get_function_safety fm m n)) \<and>
      errs = concat (map module_scope_error confirmed)"
proof -
  let ?ps = "placed modules" and ?mut = "\<lambda>p. candidate_mutates (snd p) names fm"
  let ?c = "confirmed_of modules names fm"
  obtain fm1 errs where run: "foldl (\<lambda>st p. apply_confirmed_candidate p st) (fm, []) ?c = (fm1, errs)"
    by fastforce
  have fm1: "get_function_safety fm1 m n = map_option (settle (callees_at ?c m n) {}) (get_function_safety fm m n)"
    "errs = concat (map module_scope_error ?c)" for m n
    using confirm_fold [where fm = fm and K = "\<lambda>_ _. {}" and ?fm0.0 = fm and m = m and n = n and errs = "[]" and ps = ?c] run by (simp_all add: option.map_id)
  have unsafe: "callee_resolves_unsafe callee names fm1 \<longleftrightarrow> unsafe_after ?c names fm callee" for callee
    unfolding callee_resolves_unsafe_def lookup_callee_eq unsafe_after_def fm1(1)
    by (auto split: option.splits)
  let ?dis = "\<lambda>p. \<not> ?mut p \<and> is_function_site (mc_site (snd p)) \<and> \<not> callee_resolves_unsafe (mc_callee (snd p)) names fm1"
  have confirmed: "?c = filter ?mut ?ps" by (simp add: confirmed_of_def case_prod_beta')
  have discharged: "discharged_of modules names fm = filter ?dis ?ps"
    by (simp add: discharged_of_def case_prod_beta' unsafe)
  have zip: "map (\<lambda>((_, c), conf). \<not> conf \<and> is_function_site (mc_site c) \<and>
        \<not> callee_resolves_unsafe (mc_callee c) names fm1) (zip qs (map ?mut qs)) = map ?dis qs" for qs
    by (induction qs) auto
  have "apply_mutation_candidates modules names fm =
      (foldl (\<lambda>fm p. discharge_candidate p fm) fm1 (filter ?dis ?ps), errs)"
    using run unfolding apply_mutation_candidates_def confirmed placed_def [symmetric] Let_def
      case_prod_beta' [where f = "\<lambda>_ c. candidate_mutates c names fm"]
    by (simp add: foldl_filter_zip zip)
  then show ?thesis
    using discharge_fold [where fm = fm1 and K = "callees_at ?c" and D = "\<lambda>_ _. {}" and ?fm0.0 = fm and
        ps = "filter ?dis ?ps"] fm1
    by (simp add: discharged)
qed

end
