(* ===== verification/Cache_Reduce.thy ===== *)
theory Cache_Reduce
  imports Cache_Merge Resolution Import_Graph
begin

text \<open>
  The reduce (\<open>src/cache/reduce.rs\<close>, \<open>src/cache/bundled_stubs.rs\<close>): import edges are settled against
  the merged modules, errors that the merge has verified are cleared, and what the map phase left
  open is decided. The parallel loops over modules are maps over the list of modules. The memo
  table of decorator verdicts is left out: it does not show (\<open>decorator_memo_transparent\<close>).
\<close>

section \<open>Import edges\<close>

definition resolve_and_add_import_edge ::
  "modname list \<Rightarrow> modname \<Rightarrow> modname \<Rightarrow> modname list \<Rightarrow> modname list \<times> modname option" where
  "resolve_and_add_import_edge imports from name module_names =
     (case resolve_to_known_module name (set module_names) of
        None \<Rightarrow> (imports, None)
      | Some resolved \<Rightarrow> (if resolved \<noteq> from then small_insert resolved imports else imports, Some resolved))"

text \<open>One module: the module afterwards and the targets its ambiguous imports resolved to.\<close>

definition ambiguous_step ::
  "modname list \<Rightarrow> modname \<Rightarrow> modname list \<times> modname list \<Rightarrow> modname \<Rightarrow> modname list \<times> modname list" where
  "ambiguous_step module_names from st ambiguous =
     (case resolve_and_add_import_edge (fst st) from ambiguous module_names of
        (imports, None) \<Rightarrow> (imports, snd st)
      | (imports, Some target) \<Rightarrow> (imports, small_insert target (snd st)))"

definition resolve_ambiguous_module ::
  "modname list \<Rightarrow> cached_module \<Rightarrow> cached_module \<times> modname list" where
  "resolve_ambiguous_module module_names m =
     (let (imports, resolved) =
        foldl (ambiguous_step module_names (cm_name m)) (cm_imports m, []) (cm_ambiguous m)
      in (m\<lparr>cm_imports := imports, cm_ambiguous := []\<rparr>, resolved))"

definition resolve_ambiguous_imports ::
  "modname list \<Rightarrow> cached_module list \<Rightarrow> cached_module list \<times> (modname \<times> modname list) list" where
  "resolve_ambiguous_imports module_names ms =
     (let rs = map (resolve_ambiguous_module module_names) ms
      in (map fst rs, map (\<lambda>(m, resolved). (cm_name m, resolved)) (filter (\<lambda>(m, resolved). resolved \<noteq> []) rs)))"

text \<open>The loop over the missing imports: imports, resolved modules, still missing.\<close>

definition missing_step ::
  "modname list \<Rightarrow> modname \<Rightarrow> modname list \<times> modname list \<times> modname list \<Rightarrow> modname \<Rightarrow>
     modname list \<times> modname list \<times> modname list" where
  "missing_step module_names from st missing =
     (case st of (imports, resolved, still) \<Rightarrow>
        (case resolve_and_add_import_edge imports from missing module_names of
           (imports', None) \<Rightarrow> (imports', resolved, small_insert missing still)
         | (imports', Some target) \<Rightarrow> (imports', small_insert target resolved, still)))"

definition resolve_missing_imports ::
  "modname list \<Rightarrow> cached_module \<Rightarrow> modname list \<Rightarrow> modname list \<times> modname list \<times> modname list" where
  "resolve_missing_imports module_names m resolved =
     foldl (missing_step module_names (cm_name m)) (cm_imports m, resolved, []) (cm_missing m)"

section \<open>Clearing errors\<close>

definition verified_safe :: "safety_resolver \<Rightarrow> safety_error \<Rightarrow> bool" where
  "verified_safe r e = fst (is_error_verified_safe r e None)"

definition map_ok ::
  "(cached_module_safety \<Rightarrow> cached_module_safety) \<Rightarrow> cached_module \<Rightarrow> cached_module" where
  "map_ok f m =
     (case cm_safety m of
        CachedOk s \<Rightarrow> m\<lparr>cm_safety := CachedOk (f s)\<rparr>
      | CachedAnalysisError e \<Rightarrow> m)"

text \<open>A module with a missing import, or with ambiguous imports that were resolved.\<close>

definition settle_module ::
  "modname list \<Rightarrow> verdict_map \<Rightarrow> base_map \<Rightarrow> (modname \<times> constructor_callees) list \<Rightarrow>
     (modname \<times> modname list) list \<Rightarrow> cached_module \<Rightarrow> cached_module \<times> modname list option" where
  "settle_module module_names fs class_bases callees ambiguous_resolved m0 =
     (let m = map_ok (\<lambda>s. s\<lparr>c_implicit := dedupe_implicit_imports (c_implicit s)\<rparr>) m0;
          from_ambiguous = map_of ambiguous_resolved (cm_name m)
      in if cm_missing m = [] \<and> from_ambiguous = None then (m, None)
         else
           let (imports, resolved, still) = resolve_missing_imports module_names m
                 (case from_ambiguous of None \<Rightarrow> [] | Some ms \<Rightarrow> ms);
               resolver = with_mro_modules module_names (with_constructor_callees callees
                 (with_class_bases class_bases (new_resolver resolved fs)))
           in (map_ok (\<lambda>s. fst (retain_unverified_errors s (\<lambda>e.
                   case recorded_constructor_clears resolver (cm_name m) e of
                     Some cleared \<Rightarrow> cleared
                   | None \<Rightarrow> verified_safe resolver e)))
                 (m\<lparr>cm_imports := imports, cm_missing := still\<rparr>),
               Some resolved))"

definition is_resolved_error_verified_safe ::
  "modname \<Rightarrow> safety_error \<Rightarrow> safety_resolver \<Rightarrow> safety_resolver option \<Rightarrow> (modname \<times> string) list \<Rightarrow> bool" where
  "is_resolved_error_verified_safe caller e whole_program scoped promoted =
     (case recorded_constructor_clears whole_program caller e of
        Some cleared \<Rightarrow> cleared
      | None \<Rightarrow>
          if err_kind e = UnsafeDecoratorCall \<or> unqualified_index_key (err_metadata e) \<noteq> None
            then verified_safe whole_program e
          else if err_kind e \<in> {UnsafeFunctionCall, UnsafeMethodCall} \<and>
                  (case split_at_module whole_program (trim_calls (err_metadata e)) of
                     None \<Rightarrow> False
                   | Some (module, local) \<Rightarrow> module = caller \<and> (module, local) \<notin> set promoted)
            then verified_safe whole_program e
          else (case scoped of None \<Rightarrow> False | Some r \<Rightarrow> verified_safe r e))"

text \<open>\<open>ResolutionContext::resolver\<close>.\<close>

definition context_resolver ::
  "modname list \<Rightarrow> verdict_map \<Rightarrow> base_map \<Rightarrow> (modname \<times> constructor_callees) list \<Rightarrow> modname list \<Rightarrow>
     string set \<Rightarrow> safety_resolver" where
  "context_resolver module_names fs class_bases callees modules globally_safe =
     with_mro_modules module_names (with_constructor_callees callees
       (with_class_bases class_bases (with_safe_index modules fs globally_safe)))"

definition finalize_module ::
  "modname list \<Rightarrow> (modname \<times> modname list) list \<Rightarrow> verdict_map \<Rightarrow> base_map \<Rightarrow>
     (modname \<times> constructor_callees) list \<Rightarrow> promotion_state \<Rightarrow> cached_module \<Rightarrow> cached_module" where
  "finalize_module module_names resolved_by_module fs class_bases callees outcome m =
     map_ok (\<lambda>s. fst (retain_unverified_errors s (\<lambda>e.
         is_resolved_error_verified_safe (cm_name m) e
           (with_constructor_callees callees (with_class_bases class_bases
             (with_safe_index module_names fs (ps_globally_safe outcome))))
           (map_option (\<lambda>resolved.
               context_resolver module_names fs class_bases callees resolved (ps_globally_safe outcome))
             (map_of resolved_by_module (cm_name m)))
           (ps_promoted outcome)))) m"

definition finalize_resolution ::
  "modname list \<Rightarrow> (modname \<times> modname list) list \<Rightarrow> verdict_map \<Rightarrow> base_map \<Rightarrow>
     (modname \<times> constructor_callees) list \<Rightarrow> promotion_state \<Rightarrow> cached_module list \<Rightarrow> cached_module list" where
  "finalize_resolution module_names resolved_by_module fs class_bases callees outcome ms =
     map (finalize_module module_names resolved_by_module fs class_bases callees outcome) ms"

section \<open>Properties\<close>

type_synonym alias_map = "((modname \<times> string) \<times> (modname \<times> string)) list"

definition MAX_REEXPORT_HOPS :: nat where
  "MAX_REEXPORT_HOPS = 8"

text \<open>The loop, with the hops that are left.\<close>

fun return_class_hops ::
  "nat \<Rightarrow> modname \<Rightarrow> (modname \<times> modname) list \<Rightarrow> alias_map \<Rightarrow> modname option" where
  "return_class_hops 0 name return_classes targets = None"
| "return_class_hops (Suc hops) name return_classes targets =
     (case map_of return_classes name of
        Some class \<Rightarrow> Some class
      | None \<Rightarrow>
          (case split_attr name of
             None \<Rightarrow> None
           | Some key \<Rightarrow>
               (case map_of targets key of
                  None \<Rightarrow> None
                | Some (next_module, next_attr) \<Rightarrow>
                    (let next_name = append_str next_module next_attr
                     in if next_name = name then None
                        else return_class_hops hops next_name return_classes targets))))"

definition resolve_return_class ::
  "modname \<Rightarrow> (modname \<times> modname) list \<Rightarrow> alias_map \<Rightarrow> modname option" where
  "resolve_return_class receiver return_classes targets =
     return_class_hops MAX_REEXPORT_HOPS receiver return_classes targets"

text \<open>The error a candidate raises, if it does.\<close>

definition property_error ::
  "safety_resolver \<Rightarrow> (modname \<times> modname) list \<Rightarrow> alias_map \<Rightarrow> (modname \<times> string list) list \<Rightarrow>
     property_candidate \<Rightarrow> safety_error list" where
  "property_error resolver return_classes targets class_properties c =
     (case split_attr (pc_attribute c) of
        None \<Rightarrow> []
      | Some (receiver, attr) \<Rightarrow>
          (let class_fqn = (case resolve_return_class receiver return_classes targets of
                 Some class \<Rightarrow> class | None \<Rightarrow> receiver)
           in if \<not> (case map_of class_properties class_fqn of None \<Rightarrow> False | Some ps \<Rightarrow> attr \<in> set ps) then []
              else
                let attribute = append_str class_fqn attr;
                    getter = (case split_at_module resolver attribute of
                        None \<Rightarrow> None | Some (module, local) \<Rightarrow> own_verdict resolver module local)
                in if (case getter of None \<Rightarrow> False | Some v \<Rightarrow> \<not> is_safe v)
                   then [new_error UnsafeMethodCall attribute (pc_range c)] else []))"

definition resolve_property_candidates ::
  "modname list \<Rightarrow> verdict_map \<Rightarrow> promotion_state \<Rightarrow> (modname \<times> string list) list \<Rightarrow>
     cached_re_export list \<Rightarrow> cached_return_type list \<Rightarrow> cached_module list \<Rightarrow> cached_module list" where
  "resolve_property_candidates module_names fs outcome class_properties res rts ms =
     (if class_properties = [] then ms
      else
        let return_classes = rev (map (\<lambda>rt. (rt_function rt, rt_class rt)) rts);
            targets = rev (map (\<lambda>re. (dst_key re, src_key re)) res);
            resolver = with_safe_index module_names fs (ps_globally_safe outcome)
        in map (\<lambda>m. map_ok (\<lambda>s. s\<lparr>c_errors := c_errors s @
              concat (map (property_error resolver return_classes targets class_properties) (cm_properties m))\<rparr>)
             (m\<lparr>cm_properties := []\<rparr>)) ms)"

section \<open>The other errors\<close>

definition unqualified_error_names :: "cached_module list \<Rightarrow> string set" where
  "unqualified_error_names ms =
     set (concat (map (\<lambda>m. case cm_safety m of
         CachedAnalysisError e \<Rightarrow> []
       | CachedOk s \<Rightarrow> concat (map (\<lambda>e. case unqualified_index_key (err_metadata e) of
             None \<Rightarrow> [] | Some name \<Rightarrow> [name]) (c_errors s))) ms))"

definition add_argument_errors ::
  "(modname \<times> string \<times> text_range) list \<Rightarrow> cached_module \<Rightarrow> cached_module" where
  "add_argument_errors found m =
     map_ok (\<lambda>s. s\<lparr>c_errors := c_errors s @
       map (\<lambda>(_, metadata, r). new_error ImportedVarArgumentError metadata r)
         (filter (\<lambda>(name, _). name = cm_name m) found)\<rparr>) m"

text \<open>The walked bases, and the imports of the modules that walk one.\<close>

definition collect_walks ::
  "cached_module list \<Rightarrow> re_map \<times> (modname \<times> modname list) list" where
  "collect_walks ms =
     foldl (\<lambda>(walked, imports) m.
         case cm_safety m of
           CachedAnalysisError e \<Rightarrow> (walked, imports)
         | CachedOk s \<Rightarrow>
             (case record_walks (cm_name m) (c_overrides s) walked of
                (walked', walks) \<Rightarrow>
                  (walked', if walks then AList.update (cm_name m) (cm_imports m) imports else imports)))
       ([], []) ms"

definition apply_subclass_registrations :: "base_map \<Rightarrow> cached_module list \<Rightarrow> cached_module list" where
  "apply_subclass_registrations class_bases ms =
     (case collect_walks ms of
        (walked, walker_imports) \<Rightarrow>
          if walked = [] then ms
          else map (\<lambda>m. map_ok (\<lambda>s. s\<lparr>c_errors := c_errors s @
                registration_errors walked (cm_name m) (cm_subclasses m) class_bases
                  (\<lambda>walker imported. case map_of walker_imports walker of
                     None \<Rightarrow> False | Some imports \<Rightarrow> imported \<in> set imports)\<rparr>)
               (m\<lparr>cm_subclasses := []\<rparr>)) ms)"

section \<open>The whole resolution\<close>

text \<open>
  The phases of \<open>resolve_cross_library_errors\<close>, in their order. The maps \<open>func_safety_by_module\<close>
  and \<open>resolved_by_module\<close> keep one entry per module name.
\<close>

definition module_names_of :: "library_cache \<Rightarrow> modname list" where
  "module_names_of c = map cm_name (lc_modules c)"

text \<open>Ambiguous imports are resolved, class facts taken, and verdicts propagated.\<close>

definition linked :: "library_cache \<Rightarrow> library_cache \<times> (modname \<times> modname list) list" where
  "linked c =
     (let (ms, ambiguous_resolved) = resolve_ambiguous_imports (module_names_of c) (lc_modules c)
      in (propagate_re_export_safety (c\<lparr>lc_modules := ms, lc_class_bases := [],
            lc_constructor_callees := [], lc_class_properties := []\<rparr>), ambiguous_resolved))"

definition all_class_bases :: "merged_class_facts \<Rightarrow> library_cache \<Rightarrow> base_map" where
  "all_class_bases merged c = fold_fqn_lists (mf_class_bases merged) (lc_class_bases c)"

definition all_constructor_callees ::
  "merged_class_facts \<Rightarrow> library_cache \<Rightarrow> (modname \<times> constructor_callees) list" where
  "all_constructor_callees merged c =
     fold_constructor_callees (mf_constructor_callees merged) (lc_constructor_callees c)"

text \<open>\<open>func_safety_by_module\<close>, the tables taken from the modules.\<close>

definition verdict_table :: "cached_module list \<Rightarrow> verdict_map" where
  "verdict_table ms = map (\<lambda>m. (cm_name m, cm_functions m)) ms"

definition settle_all ::
  "merged_class_facts \<Rightarrow> library_cache \<Rightarrow> (cached_module \<times> modname list option) list" where
  "settle_all merged c =
     (let (c1, ambiguous_resolved) = linked c
      in map (settle_module (module_names_of c) (verdict_table (lc_modules c1)) (all_class_bases merged c)
                (all_constructor_callees merged c) ambiguous_resolved)
           (map (\<lambda>m. m\<lparr>cm_functions := []\<rparr>) (lc_modules c1)))"

definition program_outcome ::
  "merged_class_facts \<Rightarrow> library_cache \<Rightarrow> promotion_state \<times> (modname \<times> string \<times> text_range) list" where
  "program_outcome merged c =
     (let ms = map fst (settle_all merged c)
      in resolve_program (module_names_of c) (verdict_table (lc_modules (fst (linked c))))
           (map (\<lambda>m. (cm_name m, cm_mutations m)) ms) (unqualified_error_names ms) ProbeStr)"

definition resolve_cross_library_errors :: "merged_class_facts \<Rightarrow> library_cache \<Rightarrow> library_cache" where
  "resolve_cross_library_errors merged c =
     (let c1 = fst (linked c);
          ms2 = map fst (settle_all merged c);
          resolved_by_module = concat (map (\<lambda>(m, resolved). case resolved of
              None \<Rightarrow> [] | Some r \<Rightarrow> [(cm_name m, r)]) (settle_all merged c));
          (outcome, found) = program_outcome merged c;
          ms3 = map (add_argument_errors found) ms2;
          ms4 = apply_subclass_registrations (all_class_bases merged c) ms3;
          ms5 = finalize_resolution (module_names_of c) resolved_by_module (ps_functions outcome)
                  (all_class_bases merged c) (all_constructor_callees merged c) outcome ms4;
          ms6 = resolve_property_candidates (module_names_of c) (ps_functions outcome) outcome
                  (merge_class_properties (lc_class_properties c)) (lc_re_exports c1) (lc_return_types c1) ms5;
          ms7 = map (\<lambda>m. case map_of (ps_functions outcome) (cm_name m) of
                  None \<Rightarrow> m | Some f \<Rightarrow> m\<lparr>cm_functions := f\<rparr>) ms6
      in c1\<lparr>lc_modules := ms7\<rparr>)"

section \<open>The workspace\<close>

text \<open>The graph of the bundled stubs is a parameter: its nodes with their edge sets.\<close>

record graph_edge_sets =
  ge_imports :: "modname list"
  ge_missing :: "modname list"
  ge_ambiguous :: "modname list"
  ge_guard :: "modname list"

definition inject_bundled_stub_graph ::
  "(modname \<times> graph_edge_sets) list \<Rightarrow> library_cache \<Rightarrow> library_cache \<times> modname list" where
  "inject_bundled_stub_graph stubs c =
     (let existing = map cm_name (lc_modules c);
          new = filter (\<lambda>(name, _). name \<notin> set existing) stubs
      in (c\<lparr>lc_modules := lc_modules c @ map (\<lambda>(name, e). (empty_cached_module name)
              \<lparr>cm_imports := ge_imports e, cm_missing := ge_missing e, cm_ambiguous := ge_ambiguous e,
               cm_guard_imports := ge_guard e\<rparr>) new\<rparr>,
          map fst new))"

record reduce_workspace =
  rw_cache :: library_cache
  rw_graph_only_stubs :: "modname list"
  rw_artifact_module_count :: nat
  rw_merged :: merged_class_facts

text \<open>The \<open>expect\<close> is the panic.\<close>

definition from_merged ::
  "library_cache \<Rightarrow> modname list \<Rightarrow> merged_class_facts \<Rightarrow> reduce_workspace option" where
  "from_merged c stubs merged =
     (if length (lc_modules c) < length stubs then None
      else Some \<lparr>rw_cache = c, rw_graph_only_stubs = stubs,
                 rw_artifact_module_count = length (lc_modules c) - length stubs, rw_merged = merged\<rparr>)"

definition single_with ::
  "(modname \<times> graph_edge_sets) list \<Rightarrow> library_cache \<Rightarrow> merged_class_facts \<Rightarrow> reduce_workspace" where
  "single_with stubs c merged =
     (let (c', added) = inject_bundled_stub_graph stubs c
      in \<lparr>rw_cache = c', rw_graph_only_stubs = added,
          rw_artifact_module_count = length (lc_modules c), rw_merged = merged\<rparr>)"

text \<open>\<open>swap_remove(0)\<close> puts the last element in the place of the first.\<close>

definition swap_remove_first :: "'a list \<Rightarrow> 'a list" where
  "swap_remove_first xs = (if tl xs = [] then [] else last xs # butlast (tl xs))"

datatype reduce_error = EmptyCacheSet

definition merge_caches ::
  "(string \<Rightarrow> string \<Rightarrow> ordering) \<Rightarrow> (cached_re_export list list \<Rightarrow> cached_re_export list list list) \<Rightarrow>
     (modname \<times> graph_edge_sets) list \<Rightarrow> library_cache list \<Rightarrow> reduce_error + reduce_workspace" where
  "merge_caches mcmp tasks stubs caches =
     (if caches = [] then Inl EmptyCacheSet
      else
        let rest = swap_remove_first caches;
            (c, merged) = (if rest = []
               then (hd caches, \<lparr>mf_class_bases = [], mf_constructor_callees = []\<rparr>)
               else merge_dep_caches mcmp tasks (hd caches) rest)
        in Inr (single_with stubs c merged))"

definition resolve_workspace :: "modname option \<Rightarrow> reduce_workspace \<Rightarrow> library_cache \<times> modname list" where
  "resolve_workspace main_module w =
     (let c = rw_cache w
      in (resolve_cross_library_errors (rw_merged w)
            (c\<lparr>lc_modules := apply_main_module main_module (lc_modules c)\<rparr>),
          rw_graph_only_stubs w))"

end
