(* ===== verification/Reduce_Evidence.thy ===== *)
theory Reduce_Evidence
  imports Cache_Reduce Resolution_Promotion Resolution_Mutations
begin

text \<open>
  What clears an error in the reduce, said of the merged program alone: its modules, the verdicts of
  their functions, its classes with their bases and the records of their constructors. The answers of
  a resolver (\<open>src/safety_resolver.rs\<close>) are shown to be exactly these, whatever it was built from.
\<close>

section \<open>Tables stay well formed\<close>

definition wf_modules :: "cached_module list \<Rightarrow> bool" where
  "wf_modules ms \<longleftrightarrow> list_all (\<lambda>m. wf_table (cm_functions m)) ms"

lemma list_all_update: "list_all P al \<Longrightarrow> P (k, v) \<Longrightarrow> list_all P (AList.update k v al)"
  by (induction al) auto

lemma list_all_map_entry:
  "list_all P al \<Longrightarrow> (\<And>v. P (k, v) \<Longrightarrow> P (k, f v)) \<Longrightarrow> list_all P (AList.map_entry k f al)"
  by (induction al) auto

lemma wf_table_update:
  "wf_table fs \<Longrightarrow> wf_safety (verdict info) \<Longrightarrow> wf_table (AList.update n info fs)"
  by (simp add: wf_table_def distinct_update list_all_update)

lemma wf_table_entry: "wf_table fs \<Longrightarrow> map_of fs n = Some info \<Longrightarrow> wf_safety (verdict info)"
  by (auto simp: wf_table_def list_all_iff dest: map_of_SomeD)

lemma wf_safety_or: "wf_safety v \<Longrightarrow> wf_safety w \<Longrightarrow> wf_safety (v OR w)"
  by (simp add: wf_safety_def)

lemma wf_safety_remove: "wf_safety v \<Longrightarrow> wf_safety (remove_concern v w)"
  by (simp add: wf_safety_def remove_concern_def)

lemma wf_merge_entry:
  assumes "wf_table fs" "wf_safety (verdict info)"
  shows "wf_table (fst (merge_function_safety_entry_ref fs n info))"
  using assms wf_table_entry [OF assms(1), of n]
  by (auto simp: merge_function_safety_entry_ref_def split_beta Let_def merge_ref_parts
      intro!: wf_table_update wf_safety_or split: option.split)

lemma wf_propagate_edge:
  assumes "wf_modules ms"
  shows "wf_modules (fst (propagate_edge re ms))"
proof -
  have each: "wf_table (cm_functions (ms ! i))" if "i < length ms" for i
    using assms that by (simp add: wf_modules_def list_all_length)
  show ?thesis
  proof (cases "fst (propagate_edge re ms) = ms")
    case False
    then obtain src dst info where idx: "module_index ms (imported_module re) = Some src"
        "module_index ms (exported_module re) = Some dst"
        "map_of (cm_functions (ms ! src)) (imported_attr re) = Some info"
      by (auto simp: propagate_edge_def split: option.splits)
    let ?fs = "fst (merge_function_safety_entry_ref (cm_functions (ms ! dst)) (exported_attr re) info)"
    have run: "fst (propagate_edge re ms) = ms[dst := (ms ! dst)\<lparr>cm_functions := ?fs\<rparr>]"
      using idx by (simp add: propagate_edge_def split_beta)
    have lt: "src < length ms" "dst < length ms"
      using module_index_SomeD [OF idx(1)] module_index_SomeD [OF idx(2)] by simp_all
    have "wf_table ?fs"
      using each [OF lt(2)] wf_table_entry [OF each [OF lt(1)] idx(3)] by (rule wf_merge_entry)
    then show ?thesis
      unfolding run using assms set_update_subset_insert [of ms dst]
      by (fastforce simp: wf_modules_def list_all_iff)
  qed (use assms in simp)
qed

lemma wf_propagate_loop: "wf_modules ms \<Longrightarrow> wf_modules (propagate_loop res queued wl ms)"
proof (induction res queued wl ms rule: propagate_loop.induct)
  case (1 res queued wl ms)
  show ?case
  proof (cases "wl = [] \<or> \<not> last wl < length res")
    case True
    then show ?thesis using "1.prems" by (simp add: propagate_loop.simps [of res queued wl ms])
  next
    case False
    obtain ms' changed where step: "propagate_edge (res ! last wl) ms = (ms', changed)" by fastforce
    obtain queued' wl' where queue: "(queued', wl') =
      (if changed then enqueue (dependents res (dst_key (res ! last wl))) (queued[last wl := False], butlast wl)
       else (queued[last wl := False], butlast wl))" by (metis surj_pair)
    have eq: "propagate_loop res queued wl ms = propagate_loop res queued' wl' ms'"
      using False step queue [symmetric] by (simp add: propagate_loop.simps [of res queued wl ms] dst_key_def)
    have "wf_modules ms'" using wf_propagate_edge [OF "1.prems", of "res ! last wl"] step by simp
    then show ?thesis
      unfolding eq using "1.IH" [OF False refl step [symmetric] refl _ refl] queue by (simp add: dst_key_def)
  qed
qed

lemma wf_propagate: "wf_modules (lc_modules c) \<Longrightarrow> wf_modules (lc_modules (propagate_re_export_safety c))"
  by (simp add: propagate_re_export_safety_def wf_propagate_loop)

lemma wf_modify:
  assumes "wf_verdicts fm" "\<And>info. wf_safety (verdict info) \<Longrightarrow> wf_safety (verdict (f info))"
  shows "wf_verdicts (modify_function m n f fm)"
proof -
  have "wf_table fs \<Longrightarrow> wf_table (AList.map_entry n f fs)" for fs
    using assms(2) by (auto simp: wf_table_def distinct_map_entry intro!: list_all_map_entry)
  then show ?thesis
    using assms(1) by (auto simp: wf_verdicts_def modify_function_def distinct_map_entry intro!: list_all_map_entry)
qed

lemma wf_confirm: "wf_verdicts (fst st) \<Longrightarrow> wf_verdicts (fst (apply_confirmed_candidate p st))"
proof (cases p; cases st)
  fix m c fm errs
  assume eqs: "p = (m, c)" "st = (fm, errs)" and wf: "wf_verdicts (fst st)"
  have "wf_safety (verdict (confirm_info x info))" if "wf_safety (verdict info)" for x info
  proof -
    have "wf_safety (insert_concern (verdict info) Unsafe)"
      using that wf_safety_or [of "verdict info" Unsafe] by (simp add: insert_concern_def wf_safety_def Unsafe_def)
    then show ?thesis by (simp add: confirm_info_def Let_def wf_safety_remove)
  qed
  then show ?thesis
    using wf by (auto simp: eqs apply_confirmed_candidate_eq intro!: wf_modify split: mutation_candidate_site.split)
qed

lemma wf_discharge: "wf_verdicts fm \<Longrightarrow> wf_verdicts (discharge_candidate p fm)"
  by (cases p) (auto simp: discharge_candidate_eq discharge_info_def Let_def wf_safety_remove
      intro!: wf_modify split: mutation_candidate_site.split)

lemma wf_apply_mutation_candidates:
  assumes "wf_verdicts fm"
  shows "wf_verdicts (fst (apply_mutation_candidates modules names fm))"
proof -
  have confirms: "wf_verdicts (fst (foldl (\<lambda>st (p, _). apply_confirmed_candidate p st) st ps))"
    if "wf_verdicts (fst st)" for st ps
    using that
  proof (induction ps arbitrary: st)
    case (Cons q ps)
    then show ?case using wf_confirm [of st "fst q"] by (simp add: split_beta)
  qed simp
  have confirmed: "wf_verdicts fm1"
    if "foldl (\<lambda>st (p, _). apply_confirmed_candidate p st) (fm, []) ps = (fm1, errs)" for ps fm1 errs
    using that confirms [of "(fm, [])" ps] assms by simp
  have discharges: "wf_verdicts (foldl (\<lambda>fm (p, _). discharge_candidate p fm) fm' ps)"
    if "wf_verdicts fm'" for fm' ps
    using that by (induction ps arbitrary: fm') (auto simp: wf_discharge)
  show ?thesis
    using assms
    by (auto simp: apply_mutation_candidates_def Let_def split: prod.split intro!: discharges
        dest: confirmed)
qed

section \<open>The specification\<close>

record merged_program =
  pg_modules :: "modname set"
  pg_verdicts :: verdict_map
  pg_bases :: base_map
  pg_records :: "(modname \<times> constructor_callees) list"

text \<open>A function with its verdict, and the innermost of some modules that a dotted name lies in.\<close>

definition says :: "merged_program \<Rightarrow> modname \<Rightarrow> string \<Rightarrow> function_safety \<Rightarrow> bool" where
  "says p m l v \<longleftrightarrow>
     (\<exists>fs info. map_of (pg_verdicts p) m = Some fs \<and> map_of fs l = Some info \<and> verdict info = v)"

definition lies_in :: "modname set \<Rightarrow> string \<Rightarrow> modname \<Rightarrow> string \<Rightarrow> bool" where
  "lies_in S n m l \<longleftrightarrow>
     m \<in> S \<and> n = append_str m l \<and> (\<forall>m'\<in>S. is_ancestor_of m' n \<longrightarrow> length m' \<le> length m)"

text \<open>What an error calls: its text without the empty argument lists at the end.\<close>

definition called :: "safety_error \<Rightarrow> string \<Rightarrow> bool" where
  "called e n \<longleftrightarrow>
     (\<exists>k. err_metadata e = n @ concat (replicate k ''()'')) \<and> \<not> (\<exists>before. n = before @ ''()'')"

text \<open>A method along the ancestors of a class: the first that defines it counts.\<close>

inductive inherits :: "merged_program \<Rightarrow> string \<Rightarrow> modname list \<Rightarrow> function_safety \<Rightarrow> bool"
  for p :: merged_program and meth :: string where
  defined: "lies_in (pg_modules p) (append_str a meth) m l \<Longrightarrow> says p m l v \<Longrightarrow> inherits p meth (a # as) v"
| passed: "(\<And>m l w. lies_in (pg_modules p) (append_str a meth) m l \<Longrightarrow> \<not> says p m l w) \<Longrightarrow>
    inherits p meth as v \<Longrightarrow> inherits p meth (a # as) v"

inductive_simps inherits_simps [simp]: "inherits p meth [] v" "inherits p meth (a # as) v"

text \<open>A decorator that takes arguments: what it returns runs too, unless it is a class.\<close>

definition constructor_names :: "string list" where
  "constructor_names = [''__new__'', ''__init__'', ''__post_init__'']"

definition safe_factory :: "merged_program \<Rightarrow> modname \<Rightarrow> string \<Rightarrow> bool" where
  "safe_factory p m l \<longleftrightarrow>
     says p m l Safe \<and>
     ((\<exists>c\<in>set constructor_names. \<exists>v. says p m (append_str l c) v) \<or>
      (\<forall>child v. dot \<notin> set child \<and> says p m (append_str l child) v \<longrightarrow> v = Safe))"

text \<open>
  A call is safe on the word of a function: its own; the one a class inherits, when it has none of
  its own; or, for a name that lies in no module in reach and that the map phase had bound, a
  function of that very name. \<open>S\<close> are the modules in reach and \<open>G\<close> the names of such functions.
\<close>

definition factory_call :: "safety_error \<Rightarrow> bool" where
  "factory_call e \<longleftrightarrow>
     parameterized_decorator e \<and> err_kind e \<in> {UnsafeDecoratorCall, UnknownDecoratorCallError}"

definition bound_name :: "safety_error \<Rightarrow> bool" where
  "bound_name e \<longleftrightarrow> err_kind e \<notin>
     {UnknownFunctionCallError, UnknownMethodCallError, UnknownDecoratorCallError, UnknownObjectError}"

inductive proved_safe ::
  "merged_program \<Rightarrow> modname set \<Rightarrow> string set \<Rightarrow> safety_error \<Rightarrow> string \<Rightarrow> bool"
  for p :: merged_program and S :: "modname set" and G :: "string set" and e :: safety_error and n :: string where
  by_own_verdict: "\<not> factory_call e \<Longrightarrow> lies_in S n m l \<Longrightarrow> says p m l Safe \<Longrightarrow> proved_safe p S G e n"
| by_inherited: "\<not> factory_call e \<Longrightarrow> lies_in S n m (append_str cls meth) \<Longrightarrow> dot \<notin> set meth \<Longrightarrow>
    (\<And>v. \<not> says p m (append_str cls meth) v) \<Longrightarrow>
    inherits p meth (drop 1 (c3_linearize (pg_bases p) (append_str m cls))) Safe \<Longrightarrow> proved_safe p S G e n"
| by_shared_name: "\<not> factory_call e \<Longrightarrow> (\<And>m l. \<not> lies_in S n m l) \<Longrightarrow> bound_name e \<Longrightarrow> n \<in> G \<Longrightarrow>
    proved_safe p S G e n"
| by_factory: "factory_call e \<Longrightarrow> lies_in S n m l \<Longrightarrow> safe_factory p m l \<Longrightarrow> proved_safe p S G e n"
| by_shared_factory: "factory_call e \<Longrightarrow> (\<And>m l. \<not> lies_in S n m l) \<Longrightarrow> bound_name e \<Longrightarrow> m \<in> S \<Longrightarrow>
    safe_factory p m n \<Longrightarrow> proved_safe p S G e n"

text \<open>
  A class with a record: the functions its instantiation runs are those of the metaclass, the own
  constructors (bits 0 to 2 and 3 to 5), and the extra ones.
\<close>

definition constructs :: "merged_program \<Rightarrow> safety_error \<Rightarrow> string \<Rightarrow> constructor_callees \<Rightarrow> bool" where
  "constructs p e n r \<longleftrightarrow>
     err_kind e \<in> {UnsafeFunctionCall, UnknownFunctionCallError, UnsafeDecoratorCall, UnknownDecoratorCallError} \<and>
     map_of (pg_records p) n = Some r \<and> (mask r \<noteq> 0 \<or> extra r \<noteq> [])"



inductive may_run :: "merged_program \<Rightarrow> modname set \<Rightarrow> modname \<Rightarrow> modname \<Rightarrow> string \<Rightarrow> bool"
  for p :: merged_program and S :: "modname set" and caller :: modname where
  anywhere: "says p m l Safe \<Longrightarrow> may_run p S caller m l"
| at_home: "says p m l UnsafeIfImported \<Longrightarrow> m = caller \<Longrightarrow> may_run p S caller m l"

definition instantiable ::
  "merged_program \<Rightarrow> modname set \<Rightarrow> modname \<Rightarrow> string \<Rightarrow> constructor_callees \<Rightarrow> bool" where
  "instantiable p S caller n r \<longleftrightarrow>
     (\<forall>mc i. metaclass r = Some mc \<and> i < 3 \<and> bit (mask r) i \<longrightarrow>
        (\<exists>m l. lies_in S mc m l \<and> may_run p S caller m (append_str l (constructor_names ! i)))) \<and>
     (\<forall>i. i < 3 \<and> bit (mask r) (3 + i) \<longrightarrow>
        (\<exists>m l. lies_in S n m l \<and> may_run p S caller m (append_str l (constructor_names ! i)))) \<and>
     (\<forall>f\<in>set (extra r). \<exists>m l. lies_in S f m l \<and> may_run p S caller m l)"

section \<open>The resolver answers by it\<close>

text \<open>The resolver of a merged program whose reach is \<open>S\<close> and whose index of safe names is \<open>G\<close>.\<close>

definition resolver_of :: "merged_program \<Rightarrow> modname set \<Rightarrow> string set \<Rightarrow> safety_resolver \<Rightarrow> bool" where
  "resolver_of p S G r \<longleftrightarrow>
     set (sr_modules r) = S \<and> sr_by_module r = pg_verdicts p \<and> sr_class_bases r = Some (pg_bases p) \<and>
     sr_constructor_callees r = Some (pg_records p) \<and>
     set (case sr_mro_modules r of None \<Rightarrow> sr_modules r | Some ms \<Rightarrow> ms) = pg_modules p \<and>
     (case sr_globally_safe r of None \<Rightarrow> G = {n. \<exists>m\<in>S. says p m n Safe} | Some index \<Rightarrow> G = index)"

lemma split_lies_in:
  "split_at_module_in ms n = Some (m, l) \<longleftrightarrow> lies_in (set ms) n m l"
  using enclosing_module_iff [of n "\<lambda>m. m \<in> set ms" m l]
  by (auto simp: split_at_module_in_def lies_in_def not_less)

lemma split_lies_nowhere: "split_at_module_in ms n = None \<longleftrightarrow> (\<forall>m l. \<not> lies_in (set ms) n m l)"
  using split_lies_in [of ms n] by (metis not_Some_eq surj_pair)



lemma drop_calls_exact:
  "(\<exists>k. s = concat (replicate k '')('') @ drop_calls s) \<and> \<not> (\<exists>rest. drop_calls s = '')('' @ rest)"
proof (induction s rule: drop_calls.induct)
  case (1 a b s)
  show ?case
  proof (cases "a = CHR '')'' \<and> b = CHR ''(''")
    case True
    with 1 obtain k where "s = concat (replicate k '')('') @ drop_calls s" by auto
    then have "a # b # s = concat (replicate (Suc k) '')('') @ drop_calls s" using True by simp
    with True 1 show ?thesis by (metis drop_calls.simps(1))
  qed (auto intro: exI [of _ 0])
qed (auto intro: exI [of _ 0])

lemma concat_replicate_Suc: "concat (replicate (Suc k) w) = concat (replicate k w) @ w"
  by (induction k) simp_all

lemma rev_calls: "rev (concat (replicate k ''()'')) = concat (replicate k '')('')"
proof (induction k)
  case (Suc k)
  then show ?case using concat_replicate_Suc [of k "'')(''"] by simp
qed simp

lemma trim_calls_called: "called e (trim_calls (err_metadata e))"
proof -
  let ?s = "err_metadata e"
  obtain k where k: "rev ?s = concat (replicate k '')('') @ drop_calls (rev ?s)"
    and no: "\<not> (\<exists>rest. drop_calls (rev ?s) = '')('' @ rest)"
    using drop_calls_exact [of "rev ?s"] by blast
  have "?s = trim_calls ?s @ concat (replicate k ''()'')"
    using k rev_calls [of k] unfolding trim_calls_def by (metis rev_append rev_rev_ident)
  moreover have "trim_calls ?s \<noteq> before @ ''()''" for before
  proof
    assume "trim_calls ?s = before @ ''()''"
    then have "rev (trim_calls ?s) = '')('' @ rev before" by simp
    then have "drop_calls (rev ?s) = '')('' @ rev before" by (simp add: trim_calls_def)
    with no show False by blast
  qed
  ultimately show ?thesis unfolding called_def by blast
qed

lemma called_unique: "called e n \<Longrightarrow> called e n' \<Longrightarrow> n = n'"
proof -
  have shift: "n = n'" if "n @ concat (replicate k ''()'') = n' @ concat (replicate k' ''()'')"
    "\<not> (\<exists>before. n = before @ ''()'')" "\<not> (\<exists>before. n' = before @ ''()'')" for k k' and n n' :: string
    using that
  proof (induction k arbitrary: k')
    case 0
    then show ?case by (cases k') (simp, metis append_Nil2 append_assoc concat.simps(1) concat_replicate_Suc replicate_0)
  next
    case (Suc k)
    show ?case
    proof (cases k')
      case 0
      with Suc.prems(1,3) show ?thesis
        by (metis append.assoc append_Nil2 concat.simps(1) concat_replicate_Suc replicate_0)
    next
      case (Suc j)
      with Suc.prems(1) have "(n @ concat (replicate k ''()'')) @ ''()'' = (n' @ concat (replicate j ''()'')) @ ''()''"
        by (simp only: concat_replicate_Suc append_assoc)
      then have "n @ concat (replicate k ''()'') = n' @ concat (replicate j ''()'')"
        by (simp only: append_same_eq)
      then show ?thesis using Suc.IH Suc.prems(2,3) by blast
    qed
  qed
  show "called e n \<Longrightarrow> called e n' \<Longrightarrow> n = n'"
    unfolding called_def using shift by metis
qed

lemma called_iff: "called e n \<longleftrightarrow> n = trim_calls (err_metadata e)"
  using trim_calls_called called_unique by blast

lemma resolver_says:
  "resolver_of p S G r \<Longrightarrow> own_verdict r m l = Some v \<longleftrightarrow> says p m l v"
  by (auto simp: resolver_of_def own_verdict_def says_def split: option.split)

lemma resolver_silent:
  "resolver_of p S G r \<Longrightarrow> own_verdict r m l = None \<longleftrightarrow> (\<forall>v. \<not> says p m l v)"
  using resolver_says [of p S G r m l] by (metis not_Some_eq)

lemma resolver_lookup:
  "resolver_of p S G r \<Longrightarrow> map_of (sr_by_module r) m = Some fs \<Longrightarrow> lookup_in_safety_map l fs \<longleftrightarrow> says p m l Safe"
  by (auto simp: resolver_of_def says_def lookup_safe)

lemma first_inherited_inherits:
  assumes "pg_modules p = set ms" "fs = pg_verdicts p"
  shows "first_inherited ms fs meth as = Some v \<longleftrightarrow> inherits p meth as v"
proof (induction "as")
  case (Cons a as)
  note lies = split_lies_in [of ms, folded assms(1)]
  show ?case
  proof (cases "split_at_module_in ms (append_str a meth)")
    case None
    then have "\<not> lies_in (pg_modules p) (append_str a meth) m l" for m l using lies by (metis option.distinct(1))
    then show ?thesis using None Cons.IH by simp
  next
    case (Some ml)
    obtain m l where ml: "ml = (m, l)" by (cases ml)
    have at: "lies_in (pg_modules p) (append_str a meth) m' l' \<longleftrightarrow> m' = m \<and> l' = l" for m' l'
      using lies [of "append_str a meth" m' l'] Some ml by auto
    show ?thesis
      unfolding inherits_simps at
      using Cons.IH by (auto simp: Some ml says_def assms(2) split: option.split)
  qed
qed simp

lemma mro_method_inherits:
  assumes "resolver_of p S G r"
  shows "mro_method_verdict r m l = Some v \<longleftrightarrow>
    (\<exists>cls meth. l = append_str cls meth \<and> dot \<notin> set meth \<and>
       inherits p meth (drop 1 (c3_linearize (pg_bases p) (append_str m cls))) v)"
proof -
  have r: "sr_class_bases r = Some (pg_bases p)" "sr_by_module r = pg_verdicts p"
    "pg_modules p = set (case sr_mro_modules r of None \<Rightarrow> sr_modules r | Some ms \<Rightarrow> ms)"
    using assms by (simp_all add: resolver_of_def)
  have split: "split_attr l = Some (cls, meth) \<longleftrightarrow> l = append_str cls meth \<and> dot \<notin> set meth" for cls meth
    using split_attr_SomeD [of l cls meth] split_attr_append [of meth cls] by auto
  have "mro_method_verdict r m l = Some v \<longleftrightarrow>
      (\<exists>cls meth. split_attr l = Some (cls, meth) \<and>
        inherits p meth (drop 1 (c3_linearize (pg_bases p) (append_str m cls))) v)"
    by (auto simp: mro_method_verdict_def r(1,2) first_inherited_inherits [OF r(3) refl] split: option.split)
  then show ?thesis unfolding split by simp
qed

lemma qualified_safe_iff:
  assumes "resolver_of p S G r"
  shows "qualified_safe r m l \<longleftrightarrow> says p m l Safe \<or>
    (\<forall>v. \<not> says p m l v) \<and> (\<exists>cls meth. l = append_str cls meth \<and> dot \<notin> set meth \<and>
       inherits p meth (drop 1 (c3_linearize (pg_bases p) (append_str m cls))) Safe)"
proof -
  have mro: "(case mro_method_verdict r m l of None \<Rightarrow> False | Some v \<Rightarrow> is_safe v) \<longleftrightarrow>
      mro_method_verdict r m l = Some Safe"
    by (simp add: is_safe_iff split: option.split)
  show ?thesis
    unfolding mro_method_inherits [OF assms, symmetric] resolver_silent [OF assms, symmetric]
      resolver_says [OF assms, symmetric] qualified_safe_def mro
    by (auto simp: is_safe_iff split: option.split)
qed

text \<open>One entry for each name, which is what a hash map is.\<close>

definition keyed :: "verdict_map \<Rightarrow> bool" where
  "keyed fm \<longleftrightarrow> distinct (map fst fm) \<and> list_all (\<lambda>(m, fs). distinct (map fst fs)) fm"

lemma wf_keyed: "wf_verdicts fm \<Longrightarrow> keyed fm"
  by (auto simp: wf_verdicts_def keyed_def wf_table_def list_all_iff)

lemma keyed_modify: "keyed fm \<Longrightarrow> keyed (modify_function m n f fm)"
  by (auto simp: keyed_def modify_function_def distinct_map_entry intro!: list_all_map_entry)

lemma keyed_promote_loop: "keyed (ps_functions st) \<Longrightarrow> keyed (ps_functions (promote_loop needed ps st))"
proof (induction needed ps st rule: promote_loop.induct)
  case (1 needed ps st)
  have one: "keyed (ps_functions (apply_promotion needed s ct))" if "keyed (ps_functions s)" for s ct
    using that by (auto simp: apply_promotion_def Let_def keyed_modify split: prod.split option.split)
  have "keyed (ps_functions (foldl (apply_promotion needed) s tp))" if "keyed (ps_functions s)" for s tp
    using that by (induction tp arbitrary: s) (simp_all add: one)
  then show ?case
    using "1.IH" "1.prems" by (cases "to_promote st ps = []") (simp_all add: promote_loop.simps [of needed ps st])
qed

lemma is_immediate_child_iff:
  "is_immediate_child l name \<longleftrightarrow> (\<exists>child. dot \<notin> set child \<and> name = append_str l child)"
proof -
  have strip: "strip_prefix q s = Some rest \<longleftrightarrow> s = q @ rest" for q s rest
    by (auto simp: strip_prefix_def) (metis append_take_drop_id)
  have "is_immediate_child l name \<longleftrightarrow>
      (\<exists>rest child. strip_prefix l name = Some rest \<and> strip_prefix [dot] rest = Some child \<and> dot \<notin> set child)"
    by (auto simp: is_immediate_child_def split: option.split)
  then show ?thesis unfolding strip by (auto simp: append_str_def)
qed

lemma decorator_safe_in_iff:
  assumes r: "resolver_of p S G r" and wf: "keyed (pg_verdicts p)"
  shows "decorator_safe_in r m l \<longleftrightarrow> safe_factory p m l"
proof (cases "map_of (pg_verdicts p) m")
  case None
  then show ?thesis using r by (simp add: decorator_safe_in_def safe_factory_def says_def resolver_of_def)
next
  case (Some fs)
  then have fs: "map_of (sr_by_module r) m = Some fs" "distinct (map fst fs)"
    using r wf by (auto simp: resolver_of_def keyed_def list_all_iff dest!: map_of_SomeD)
  have says: "says p m n v \<longleftrightarrow> (\<exists>info. map_of fs n = Some info \<and> verdict info = v)" for n v
    using Some by (simp add: says_def)
  have "is_class_like_entry l fs \<longleftrightarrow> (\<exists>c\<in>set constructor_names. \<exists>v. says p m (append_str l c) v)"
    by (simp add: is_class_like_entry_def constructors_def list_ex_iff CONSTRUCTOR_METHODS_def
        constructor_names_def says append_str_def)
  moreover have children: "list_all (\<lambda>(name, info). \<not> is_immediate_child l name \<or> verdict info = Safe) fs \<longleftrightarrow>
      (\<forall>child v. dot \<notin> set child \<and> says p m (append_str l child) v \<longrightarrow> v = Safe)"
    using fs(2) by (auto simp: list_all_iff is_immediate_child_iff says map_of_eq_Some_iff)
  ultimately show ?thesis
    unfolding decorator_safe_in_def fs(1) option.case lookup_decorator_in_safety_map_def
      resolver_lookup [OF r fs(1)] safe_factory_def children by auto
qed

lemma unqualified_safe_iff: "resolver_of p S G r \<Longrightarrow> unqualified_safe r n \<longleftrightarrow> n \<in> G"
proof (cases "sr_globally_safe r")
  case None
  assume r: "resolver_of p S G r"
  have "(case map_of (sr_by_module r) m of None \<Rightarrow> False | Some fs \<Rightarrow> lookup_in_safety_map n fs) \<longleftrightarrow> says p m n Safe" for m
    using r resolver_lookup [OF r] by (auto simp: resolver_of_def says_def split: option.split)
  then show ?thesis using r None by (simp add: unqualified_safe_def list_ex_iff resolver_of_def)
qed (simp add: unqualified_safe_def resolver_of_def)

lemma verified_safe_iff:
  assumes r: "resolver_of p S G r" and wf: "keyed (pg_verdicts p)"
  shows "verified_safe r e \<longleftrightarrow> (\<exists>n. called e n \<and> proved_safe p S G e n)"
proof -
  let ?n = "trim_calls (err_metadata e)"
  have S: "set (sr_modules r) = S" using r by (simp add: resolver_of_def)
  note own = qualified_safe_iff [OF r] and factory = decorator_safe_in_iff [OF r wf]
    and shared = unqualified_safe_iff [OF r]
  have "verified_safe r e \<longleftrightarrow> proved_safe p S G e ?n"
  proof (cases "split_at_module r ?n")
    case None
    then have none: "\<not> lies_in S ?n m l" for m l
      by (simp add: split_at_module_def split_lies_nowhere S)
    show ?thesis
      unfolding proved_safe.simps using None none
      by (auto simp: verified_safe_def is_error_verified_safe_def Let_def factory_call_def bound_name_def
          is_decorator_call_def is_decorator_call_verified_safe_def
          is_decorator_call_verified_safe_no_unqualified_def is_call_verified_safe_def
          is_call_verified_safe_no_unqualified_def scan_unqualified_decorator_safe_def list_ex_iff
          factory shared S)
  next
    case (Some ml)
    obtain m l where ml: "ml = (m, l)" by (cases ml)
    have at: "lies_in S ?n m' l' \<longleftrightarrow> m' = m \<and> l' = l" for m' l'
      using split_lies_in [of "sr_modules r" ?n m' l'] Some ml by (auto simp: split_at_module_def S)
    show ?thesis
      unfolding proved_safe.simps at using Some
      by (auto simp: ml verified_safe_def is_error_verified_safe_def Let_def factory_call_def
          is_decorator_call_def is_decorator_call_verified_safe_def
          is_decorator_call_verified_safe_no_unqualified_def is_call_verified_safe_def
          is_call_verified_safe_no_unqualified_def factory own)
  qed
  then show ?thesis by (simp add: called_iff)
qed

lemma recorded_constructor_clears_iff:
  assumes r: "resolver_of p S G r"
  shows "recorded_constructor_clears r caller e = Some b \<longleftrightarrow>
    (\<exists>n rec. called e n \<and> constructs p e n rec \<and> b = instantiable p S caller n rec)"
proof -
  let ?n = "trim_calls (err_metadata e)"
  have S: "set (sr_modules r) = S" using r by (simp add: resolver_of_def)
  note silent = resolver_silent [OF r] and says = resolver_says [OF r]
  have owner: "callee_verdict_clears r (callee_verdict r owner meth) caller owner \<longleftrightarrow>
      (\<exists>m l. lies_in S owner m l \<and> may_run p S caller m (append_str l meth))" for owner meth
  proof (cases "split_at_module r owner")
    case None
    then show ?thesis
      using split_lies_nowhere [of "sr_modules r" owner]
      by (simp add: callee_verdict_clears_def callee_verdict_def split_at_module_def S Unsafe_def Safe_def UnsafeIfImported_def)
  next
    case (Some ml)
    obtain m l where ml: "ml = (m, l)" by (cases ml)
    have at: "lies_in S owner m' l' \<longleftrightarrow> m' = m \<and> l' = l" for m' l'
      using split_lies_in [of "sr_modules r" owner m' l'] Some ml by (auto simp: split_at_module_def S)
    show ?thesis
      unfolding at may_run.simps says [symmetric]
      by (auto simp: callee_verdict_clears_def callee_verdict_def Some ml append_str_def Safe_def Unsafe_def
          UnsafeIfImported_def split: option.split)
  qed
  have extra: "callee_verdict_clears r (recorded_callee_verdict r f) caller f \<longleftrightarrow>
      (\<exists>m l. lies_in S f m l \<and> may_run p S caller m l)" for f
  proof (cases "split_at_module r f")
    case None
    then show ?thesis
      using split_lies_nowhere [of "sr_modules r" f]
      by (simp add: callee_verdict_clears_def recorded_callee_verdict_def split_at_module_def S Unsafe_def Safe_def UnsafeIfImported_def)
  next
    case (Some ml)
    obtain m l where ml: "ml = (m, l)" by (cases ml)
    have at: "lies_in S f m' l' \<longleftrightarrow> m' = m \<and> l' = l" for m' l'
      using split_lies_in [of "sr_modules r" f m' l'] Some ml by (auto simp: split_at_module_def S)
    show ?thesis
      unfolding at may_run.simps says [symmetric]
      by (auto simp: callee_verdict_clears_def recorded_callee_verdict_def Some ml Safe_def Unsafe_def
          UnsafeIfImported_def split: option.split)
  qed
  have names: "CONSTRUCTOR_METHODS = constructor_names" by (simp add: CONSTRUCTOR_METHODS_def constructor_names_def)
  have all: "list_all (\<lambda>(owner, v). callee_verdict_clears r v caller owner)
      (map (\<lambda>(owner, meth). (owner, callee_verdict r owner meth)) (callees_iter rc ?n) @
       map (\<lambda>callee. (callee, recorded_callee_verdict r callee)) (constructor_callees.extra rc)) \<longleftrightarrow>
      instantiable p S caller ?n rc" for rc
    unfolding list_all_iff set_append set_map set_callees_iter instantiable_def names
    using owner extra by (auto simp: ball_Un) blast
  have "recorded_constructor_clears r caller e = Some b \<longleftrightarrow>
      (\<exists>rc. constructs p e ?n rc \<and> b = instantiable p S caller ?n rc)"
    using r all unfolding recorded_constructor_clears_def recorded_constructor_clears_all_def
    by (auto simp: constructs_def resolver_of_def callees_empty_def split: option.split)
  then show ?thesis by (simp add: called_iff)
qed

section \<open>Clearing an error\<close>

text \<open>An error of a module goes when what it calls is proved safe or safely instantiable.\<close>

inductive cleared ::
  "merged_program \<Rightarrow> modname set \<Rightarrow> string set \<Rightarrow> modname \<Rightarrow> safety_error \<Rightarrow> string \<Rightarrow> bool"
  for p :: merged_program and S :: "modname set" and G :: "string set" and caller :: modname
    and e :: safety_error and n :: string where
  by_record: "constructs p e n r \<Longrightarrow> instantiable p S caller n r \<Longrightarrow> cleared p S G caller e n"
| by_proof: "(\<And>r. \<not> constructs p e n r) \<Longrightarrow> proved_safe p S G e n \<Longrightarrow> cleared p S G caller e n"

lemma constructs_unique: "constructs p e n r \<Longrightarrow> constructs p e n r' \<Longrightarrow> r = r'"
  by (simp add: constructs_def)

lemma record_None_iff:
  assumes "resolver_of p S G r"
  shows "recorded_constructor_clears r caller e = None \<longleftrightarrow> (\<forall>n rc. called e n \<longrightarrow> \<not> constructs p e n rc)"
  using recorded_constructor_clears_iff [OF assms, of caller e] by (metis not_Some_eq)

lemma resolver_clears_iff:
  assumes r: "resolver_of p S G r" and wf: "keyed (pg_verdicts p)"
  shows "(case recorded_constructor_clears r caller e of Some b \<Rightarrow> b | None \<Rightarrow> verified_safe r e) \<longleftrightarrow>
    (\<exists>n. called e n \<and> cleared p S G caller e n)"
proof (cases "recorded_constructor_clears r caller e")
  case None
  then show ?thesis
    using record_None_iff [OF r, of caller e] by (auto simp: verified_safe_iff [OF r wf] cleared.simps)
next
  case (Some b)
  then obtain n rc where "called e n" "constructs p e n rc" "b = instantiable p S caller n rc"
    using recorded_constructor_clears_iff [OF r] by blast
  then show ?thesis
    unfolding Some option.case cleared.simps by (metis constructs_unique called_unique)
qed

text \<open>More names to share clear more.\<close>

lemma proved_safe_mono:
  "proved_safe p S G e n \<Longrightarrow> (n \<in> G \<Longrightarrow> n \<in> G') \<Longrightarrow> proved_safe p S G' e n"
  by (auto simp: proved_safe.simps)

section \<open>The last look at an error\<close>

text \<open>
  After the promotion a class record is read against the whole program, and so are decorators,
  names without a module, and calls of the caller's own functions whose verdict the promotion
  (from \<open>q\<close> to \<open>p\<close>) left as it was; every other error is read against the modules that the imports
  of its module were settled to, if there were any to settle.
\<close>

definition unmoved :: "merged_program \<Rightarrow> merged_program \<Rightarrow> modname \<Rightarrow> string \<Rightarrow> bool" where
  "unmoved q p m l \<longleftrightarrow> (\<forall>v. says q m l v \<longleftrightarrow> says p m l v)"

definition read_widely ::
  "merged_program \<Rightarrow> merged_program \<Rightarrow> modname \<Rightarrow> safety_error \<Rightarrow> string \<Rightarrow> bool" where
  "read_widely q p caller e n \<longleftrightarrow>
     err_kind e = UnsafeDecoratorCall \<or> dot \<notin> set n \<or>
     (err_kind e \<in> {UnsafeFunctionCall, UnsafeMethodCall} \<and>
      (\<exists>l. lies_in (pg_modules p) n caller l \<and> unmoved q p caller l))"

inductive cleared_late ::
  "merged_program \<Rightarrow> merged_program \<Rightarrow> modname set option \<Rightarrow> string set \<Rightarrow> modname \<Rightarrow> safety_error \<Rightarrow>
     string \<Rightarrow> bool"
  for q :: merged_program and p :: merged_program and reach :: "modname set option" and G :: "string set"
    and caller :: modname and e :: safety_error and n :: string where
  late_record: "constructs p e n r \<Longrightarrow> instantiable p (pg_modules p) caller n r \<Longrightarrow>
    cleared_late q p reach G caller e n"
| late_wide: "(\<And>r. \<not> constructs p e n r) \<Longrightarrow> read_widely q p caller e n \<Longrightarrow>
    proved_safe p (pg_modules p) G e n \<Longrightarrow> cleared_late q p reach G caller e n"
| late_scoped: "(\<And>r. \<not> constructs p e n r) \<Longrightarrow> \<not> read_widely q p caller e n \<Longrightarrow> reach = Some S \<Longrightarrow>
    proved_safe p S G e n \<Longrightarrow> cleared_late q p reach G caller e n"

lemma cleared_late_mono:
  "cleared_late q p reach G caller e n \<Longrightarrow> (n \<in> G \<Longrightarrow> n \<in> G') \<Longrightarrow> cleared_late q p reach G' caller e n"
  by (erule cleared_late.cases) (blast intro: cleared_late.intros proved_safe_mono)+

definition same_reach :: "merged_program \<Rightarrow> modname set option \<Rightarrow> string set \<Rightarrow> safety_resolver option \<Rightarrow> bool" where
  "same_reach p reach G scoped \<longleftrightarrow>
     (case scoped of None \<Rightarrow> reach = None | Some r \<Rightarrow> (\<exists>S. reach = Some S \<and> resolver_of p S G r))"

lemma resolved_error_iff:
  assumes whole: "resolver_of p (pg_modules p) G whole" and scoped: "same_reach p reach G scoped"
    and wf: "keyed (pg_verdicts p)"
    and promoted: "\<And>m l. (m, l) \<notin> set promoted \<longleftrightarrow> unmoved q p m l"
  shows "is_resolved_error_verified_safe caller e whole scoped promoted \<longleftrightarrow>
    (\<exists>n. called e n \<and> cleared_late q p reach G caller e n)"
proof (cases "recorded_constructor_clears whole caller e")
  case (Some b)
  then obtain n rc where "called e n" "constructs p e n rc" "b = instantiable p (pg_modules p) caller n rc"
    using recorded_constructor_clears_iff [OF whole] by blast
  then show ?thesis
    unfolding is_resolved_error_verified_safe_def Some option.case cleared_late.simps
    by (metis constructs_unique called_unique)
next
  case None
  let ?n = "trim_calls (err_metadata e)"
  have no: "\<not> constructs p e ?n rc" for rc
    using None record_None_iff [OF whole] by (simp add: called_iff)
  have own: "(case split_at_module whole ?n of None \<Rightarrow> False
      | Some (module, local) \<Rightarrow> module = caller \<and> (module, local) \<notin> set promoted) \<longleftrightarrow>
      (\<exists>l. lies_in (pg_modules p) ?n caller l \<and> unmoved q p caller l)"
  proof -
    have at: "lies_in (pg_modules p) ?n m l \<longleftrightarrow> split_at_module whole ?n = Some (m, l)" for m l
      using whole split_lies_in [of "sr_modules whole" ?n m l] by (simp add: split_at_module_def resolver_of_def)
    show ?thesis unfolding at using promoted by (auto split: option.split)
  qed
  have wide: "err_kind e = UnsafeDecoratorCall \<or> unqualified_index_key (err_metadata e) \<noteq> None \<or>
      (err_kind e \<in> {UnsafeFunctionCall, UnsafeMethodCall} \<and>
        (case split_at_module whole ?n of None \<Rightarrow> False
         | Some (module, local) \<Rightarrow> module = caller \<and> (module, local) \<notin> set promoted)) \<longleftrightarrow>
      read_widely q p caller e ?n"
    unfolding own by (simp add: read_widely_def unqualified_index_key_def Let_def)
  show ?thesis
  proof (cases "read_widely q p caller e ?n")
    case True
    then show ?thesis
      using wide None no verified_safe_iff [OF whole wf, of e]
      by (auto simp: is_resolved_error_verified_safe_def called_iff cleared_late.simps)
  next
    case False
    then have "is_resolved_error_verified_safe caller e whole scoped promoted \<longleftrightarrow>
        (\<exists>r. scoped = Some r \<and> verified_safe r e)"
      using wide None by (auto simp: is_resolved_error_verified_safe_def split: option.split)
    also have "\<dots> \<longleftrightarrow> (\<exists>S. reach = Some S \<and> proved_safe p S G e ?n)"
      using scoped verified_safe_iff [OF _ wf] by (auto simp: same_reach_def called_iff split: option.splits)
    also have "\<dots> \<longleftrightarrow> cleared_late q p reach G caller e ?n"
      using no False by (auto simp: cleared_late.simps)
    finally show ?thesis by (simp add: called_iff)
  qed
qed

section \<open>What the promotion leaves\<close>

lemma promotion_outcome:
  fixes names :: "modname list" and needed :: "string set" and search :: name_search
  assumes wf: "wf_verdicts fm"
  defines "out \<equiv> promote_fixpoint names fm needed search"
  shows "keyed (ps_functions out)"
    "(m, l) \<notin> set (ps_promoted out) \<longleftrightarrow>
       map_option verdict (get_function_safety fm m l) = map_option verdict (get_function_safety (ps_functions out) m l)"
    "ps_globally_safe out = verdict_names names (promotion_needs names fm needed) (ps_functions out) Safe"
proof -
  let ?N = "promotion_needs names fm needed"
  have ok: "state_ok names fm ?N out"
    unfolding out_def promote_fixpoint_eq [OF wf]
    using promote_loop_ok [OF initial_ok wf initial_flags_ok [OF wf]] by simp
  then show "ps_globally_safe out = verdict_names names ?N (ps_functions out) Safe"
    by (simp add: state_ok_def)
  show "keyed (ps_functions out)"
    unfolding out_def promote_fixpoint_eq [OF wf] using wf_keyed [OF wf] by (simp add: keyed_promote_loop)
  show "(m, l) \<notin> set (ps_promoted out) \<longleftrightarrow>
      map_option verdict (get_function_safety fm m l) = map_option verdict (get_function_safety (ps_functions out) m l)"
  proof (cases "(m, l) \<in> set (ps_promoted out)")
    case True
    then obtain info v where "waiting names fm m l info" "nonblocking v"
        "get_function_safety (ps_functions out) m l = Some (info\<lparr>verdict := v\<rparr>)"
      using ok unfolding state_ok_def by blast
    then show ?thesis using True nonblocking_not_waiting by (auto simp: waiting_def)
  qed (use ok in \<open>simp add: state_ok_def\<close>)
qed

lemma needed_names: "needed \<subseteq> promotion_needs names fm needed"
  by (simp add: promotion_needs_def)

end
