(* ===== verification/Reduce_Safety.thy ===== *)
theory Reduce_Safety
  imports Reduce_Evidence
begin

text \<open>
  What the reduce does to a module: which import edges it settles, and which errors it drops and
  adds. Each phase keeps a relation between a module before and after it, and the relations
  compose; what the phases clear is then said of the merged program (\<open>Reduce_Evidence\<close>).
\<close>

section \<open>What the phases do to a module\<close>

lemma map_ok_fields [simp]:
  "cm_name (map_ok f m) = cm_name m" "cm_imports (map_ok f m) = cm_imports m"
  "cm_missing (map_ok f m) = cm_missing m" "cm_ambiguous (map_ok f m) = cm_ambiguous m"
  "cm_side_effects (map_ok f m) = cm_side_effects m" "cm_guard_imports (map_ok f m) = cm_guard_imports m"
  by (simp_all add: map_ok_def split: cached_safety.split)

lemma map_ok_safety:
  "cm_safety (map_ok f m) =
     (case cm_safety m of CachedOk s \<Rightarrow> CachedOk (f s) | CachedAnalysisError e \<Rightarrow> CachedAnalysisError e)"
  by (simp add: map_ok_def split: cached_safety.split)

text \<open>The kinds of error that the reduce adds.\<close>

definition raised_kinds :: "error_kind set" where
  "raised_kinds = {ImportedVarArgumentError, SubclassRegistration, UnsafeMethodCall}"

text \<open>
  The errors of a module before and after: those that go may go, those that must go do, the others
  stay in their order, and what is new comes behind them.
\<close>

definition ok_step ::
  "(safety_error \<Rightarrow> bool) \<Rightarrow> (safety_error \<Rightarrow> bool) \<Rightarrow> cached_module_safety \<Rightarrow> cached_module_safety \<Rightarrow> bool" where
  "ok_step may must s s' \<longleftrightarrow>
     c_overrides s' = c_overrides s \<and> set (c_implicit s') = set (c_implicit s) \<and>
     (\<exists>stays added. c_errors s' = filter stays (c_errors s) @ added \<and>
        (\<forall>e\<in>set added. err_kind e \<in> raised_kinds) \<and>
        (\<forall>e\<in>set (c_errors s).
           (\<not> stays e \<longrightarrow> could_be_caused_by_missing_import (err_kind e) \<and> may e) \<and>
           (could_be_caused_by_missing_import (err_kind e) \<and> must e \<longrightarrow> \<not> stays e)))"

text \<open>A failed analysis stays as it is.\<close>

fun safety_step_ok ::
  "(safety_error \<Rightarrow> bool) \<Rightarrow> (safety_error \<Rightarrow> bool) \<Rightarrow> cached_safety \<Rightarrow> cached_safety \<Rightarrow> bool" where
  "safety_step_ok may must (CachedOk s) (CachedOk s') = ok_step may must s s'"
| "safety_step_ok may must (CachedAnalysisError e) b = (b = CachedAnalysisError e)"
| "safety_step_ok may must (CachedOk s) (CachedAnalysisError e) = False"

abbreviation never :: "safety_error \<Rightarrow> bool" where
  "never \<equiv> \<lambda>e. False"

lemma ok_step_add:
  "(\<And>e. e \<in> set es \<Longrightarrow> err_kind e \<in> raised_kinds) \<Longrightarrow> ok_step may never s (s\<lparr>c_errors := c_errors s @ es\<rparr>)"
  unfolding ok_step_def by (simp, rule exI [of _ "\<lambda>e. True"]) simp

lemma ok_step_same:
  "c_errors s' = c_errors s \<Longrightarrow> c_overrides s' = c_overrides s \<Longrightarrow> set (c_implicit s') = set (c_implicit s) \<Longrightarrow>
     ok_step may never s s'"
  unfolding ok_step_def by (simp, rule exI [of _ "\<lambda>e. True"]) simp

lemma ok_step_retain: "ok_step p p s (fst (retain_unverified_errors s p))"
  unfolding ok_step_def retain_unverified_errors_def Let_def
  by (simp, rule exI [of _ "\<lambda>e. \<not> could_be_caused_by_missing_import (err_kind e) \<or> \<not> p e"]) auto

lemma ok_step_trans:
  assumes "ok_step may1 must1 a b" "ok_step may2 must2 b c"
    and may: "\<And>e. e \<in> set (c_errors a) \<Longrightarrow> may1 e \<or> may2 e \<Longrightarrow> may e"
    and must: "\<And>e. e \<in> set (c_errors a) \<Longrightarrow> must e \<Longrightarrow> must1 e \<or> (e \<in> set (c_errors b) \<longrightarrow> must2 e)"
  shows "ok_step may must a c"
proof -
  obtain k1 n1 where one: "c_errors b = filter k1 (c_errors a) @ n1" "\<forall>e\<in>set n1. err_kind e \<in> raised_kinds"
    "\<forall>e\<in>set (c_errors a). (\<not> k1 e \<longrightarrow> could_be_caused_by_missing_import (err_kind e) \<and> may1 e) \<and>
       (could_be_caused_by_missing_import (err_kind e) \<and> must1 e \<longrightarrow> \<not> k1 e)"
    using assms(1) unfolding ok_step_def by blast
  obtain k2 n2 where two: "c_errors c = filter k2 (c_errors b) @ n2" "\<forall>e\<in>set n2. err_kind e \<in> raised_kinds"
    "\<forall>e\<in>set (c_errors b). (\<not> k2 e \<longrightarrow> could_be_caused_by_missing_import (err_kind e) \<and> may2 e) \<and>
       (could_be_caused_by_missing_import (err_kind e) \<and> must2 e \<longrightarrow> \<not> k2 e)"
    using assms(2) unfolding ok_step_def by blast
  let ?k = "\<lambda>e. k1 e \<and> k2 e" and ?n = "filter k2 n1 @ n2"
  have "c_errors c = filter ?k (c_errors a) @ ?n" "\<forall>e\<in>set ?n. err_kind e \<in> raised_kinds"
    using one(1,2) two(1,2) by (auto simp: conj_commute)
  moreover have "(\<not> ?k e \<longrightarrow> could_be_caused_by_missing_import (err_kind e) \<and> may e) \<and>
      (could_be_caused_by_missing_import (err_kind e) \<and> must e \<longrightarrow> \<not> ?k e)" if e: "e \<in> set (c_errors a)" for e
  proof (cases "k1 e")
    case True
    then have "e \<in> set (c_errors b)" using e one(1) by simp
    then show ?thesis using True e one(3) two(3) may must by blast
  qed (use e one(3) may in blast)
  moreover have "c_overrides c = c_overrides a \<and> set (c_implicit c) = set (c_implicit a)"
    using assms(1,2) unfolding ok_step_def by auto
  ultimately show ?thesis
    unfolding ok_step_def by (intro conjI exI [of _ ?k] exI [of _ ?n]) blast+
qed

lemma safety_step_refl [simp]: "safety_step_ok may never a a"
  by (cases a) (simp_all add: ok_step_same)

text \<open>The errors of a module whose analysis did not fail.\<close>

definition errors_of :: "cached_safety \<Rightarrow> safety_error list" where
  "errors_of a = (case a of CachedOk s \<Rightarrow> c_errors s | CachedAnalysisError e \<Rightarrow> [])"

lemma safety_step_trans:
  assumes "safety_step_ok may1 must1 a b" "safety_step_ok may2 must2 b c"
    and "\<And>e. e \<in> set (errors_of a) \<Longrightarrow> may1 e \<or> may2 e \<Longrightarrow> may e"
    and "\<And>e. e \<in> set (errors_of a) \<Longrightarrow> must e \<Longrightarrow> must1 e \<or> (e \<in> set (errors_of b) \<longrightarrow> must2 e)"
  shows "safety_step_ok may must a c"
proof (cases a)
  case (CachedOk s)
  then obtain s1 where b: "b = CachedOk s1" using assms(1) by (cases b) simp_all
  then obtain s2 where c: "c = CachedOk s2" using assms(2) by (cases c) simp_all
  have "ok_step may1 must1 s s1" "ok_step may2 must2 s1 s2" using assms(1,2) CachedOk b c by simp_all
  then have "ok_step may must s s2"
    by (rule ok_step_trans) (use assms(3,4) CachedOk b in \<open>auto simp: errors_of_def\<close>)
  then show ?thesis by (simp add: CachedOk c)
qed (use assms(1,2) in auto)

lemma safety_step_map_ok:
  "(\<And>s. cm_safety m = CachedOk s \<Longrightarrow> ok_step may must s (f s)) \<Longrightarrow>
     safety_step_ok may must (cm_safety m) (cm_safety (map_ok f m))"
  by (simp add: map_ok_safety split: cached_safety.split)

text \<open>The import edges of a module, with its name.\<close>

definition module_edges :: "cached_module \<Rightarrow> modname \<times> modname list \<times> modname list \<times> modname list \<times> modname list \<times> modname list" where
  "module_edges m = (cm_name m, cm_imports m, cm_missing m, cm_ambiguous m, cm_side_effects m, cm_guard_imports m)"

lemma edges_map_ok [simp]: "module_edges (map_ok f m) = module_edges m"
  by (simp add: module_edges_def)

lemma edges_update [simp]:
  "module_edges (m\<lparr>cm_properties := ps\<rparr>) = module_edges m"
  "module_edges (m\<lparr>cm_subclasses := ss\<rparr>) = module_edges m"
  "module_edges (m\<lparr>cm_functions := fs\<rparr>) = module_edges m"
  by (simp_all add: module_edges_def)

text \<open>What a phase that only touches the errors keeps.\<close>

definition phase_ok :: "(modname \<Rightarrow> safety_error \<Rightarrow> bool) \<Rightarrow> (modname \<Rightarrow> safety_error \<Rightarrow> bool) \<Rightarrow>
    cached_module \<Rightarrow> cached_module \<Rightarrow> bool" where
  "phase_ok may must m m' \<longleftrightarrow> module_edges m' = module_edges m \<and>
     safety_step_ok (may (cm_name m)) (must (cm_name m)) (cm_safety m) (cm_safety m')"

abbreviation phase_adds :: "cached_module \<Rightarrow> cached_module \<Rightarrow> bool" where
  "phase_adds \<equiv> phase_ok (\<lambda>_. never) (\<lambda>_. never)"

lemma phase_ok_refl: "phase_adds m m"
  by (simp add: phase_ok_def)

lemma phase_ok_trans:
  assumes "phase_adds a b" "phase_ok p p b c"
  shows "phase_ok p p a c"
proof -
  have "cm_name b = cm_name a" "module_edges c = module_edges a"
    using assms(1,2) by (auto simp: phase_ok_def module_edges_def)
  then show ?thesis
    using assms(1,2) by (auto simp: phase_ok_def intro: safety_step_trans)
qed

lemma phase_adds_trans: "phase_ok p p a b \<Longrightarrow> phase_adds b c \<Longrightarrow> phase_ok p p a c"
  by (auto simp: phase_ok_def module_edges_def intro: safety_step_trans)

lemma phases_then:
  "list_all2 phase_adds as bs \<Longrightarrow> list_all2 (phase_ok p p) bs cs \<Longrightarrow> list_all2 (phase_ok p p) as cs"
  by (rule list_all2_trans [where ?P1.0 = phase_adds and ?P2.0 = "phase_ok p p"]) (rule phase_ok_trans)

lemma phases_and:
  "list_all2 (phase_ok p p) as bs \<Longrightarrow> list_all2 phase_adds bs cs \<Longrightarrow> list_all2 (phase_ok p p) as cs"
  by (rule list_all2_trans [where ?P1.0 = "phase_ok p p" and ?P2.0 = phase_adds]) (rule phase_adds_trans)

lemma phase_map: "(\<And>m. phase_ok may must m (f m)) \<Longrightarrow> list_all2 (phase_ok may must) ms (map f ms)"
  by (simp add: list_all2_conv_all_nth)

lemma phase_append:
  assumes "module_edges m0 = module_edges m" "cm_safety m0 = cm_safety m"
    and "\<And>e. e \<in> set es \<Longrightarrow> err_kind e \<in> raised_kinds"
  shows "phase_adds m (map_ok (\<lambda>s. s\<lparr>c_errors := c_errors s @ es\<rparr>) m0)"
  using safety_step_map_ok [of m0 never never "\<lambda>s. s\<lparr>c_errors := c_errors s @ es\<rparr>"] ok_step_add [OF assms(3)]
  by (simp add: phase_ok_def assms(1,2))

lemma add_argument_errors_ok: "phase_adds m (add_argument_errors found m)"
  unfolding add_argument_errors_def
  by (rule phase_append) (auto simp: new_error_def raised_kinds_def)

text \<open>What the last look clears, as the code asks it.\<close>

definition late_clears ::
  "modname list \<Rightarrow> (modname \<times> modname list) list \<Rightarrow> verdict_map \<Rightarrow> base_map \<Rightarrow>
     (modname \<times> constructor_callees) list \<Rightarrow> promotion_state \<Rightarrow> modname \<Rightarrow> safety_error \<Rightarrow> bool" where
  "late_clears names resolved fs bases callees outcome n e \<longleftrightarrow>
     is_resolved_error_verified_safe n e
      (with_constructor_callees callees (with_class_bases bases (with_safe_index names fs (ps_globally_safe outcome))))
      (map_option (\<lambda>r. context_resolver names fs bases callees r (ps_globally_safe outcome)) (map_of resolved n))
      (ps_promoted outcome)"

lemma finalize_module_ok:
  assumes "p = late_clears names resolved fs bases callees outcome"
  shows "phase_ok p p m (finalize_module names resolved fs bases callees outcome m)"
  unfolding phase_ok_def finalize_module_def assms late_clears_def [symmetric]
  by (intro conjI edges_map_ok safety_step_map_ok ok_step_retain)

lemma registrations_kind:
  "e \<in> set (registration_errors walked n cs cb im) \<Longrightarrow> err_kind e \<in> raised_kinds"
  by (auto simp: registration_errors_def Let_def new_error_def from_main_guard_def raised_kinds_def split: if_splits)

lemma apply_subclass_registrations_ok:
  "list_all2 phase_adds ms (apply_subclass_registrations cb ms)"
proof -
  have "phase_adds m (map_ok (\<lambda>s. s\<lparr>c_errors := c_errors s @ registration_errors w n cs cb im\<rparr>)
      (m\<lparr>cm_subclasses := []\<rparr>))" for m w n cs im
    by (rule phase_append) (simp_all add: registrations_kind)
  then show ?thesis
    by (auto simp: apply_subclass_registrations_def list.rel_refl phase_ok_refl intro!: phase_map split: prod.split)
qed

lemma property_error_kind:
  "e \<in> set (property_error r rc tg cp c) \<Longrightarrow> err_kind e \<in> raised_kinds"
  by (auto simp: property_error_def Let_def new_error_def raised_kinds_def split: option.splits if_splits prod.splits)

lemma resolve_property_candidates_ok:
  "list_all2 phase_adds ms (resolve_property_candidates names fs outcome cp res rts ms)"
proof -
  have "phase_adds m (map_ok (\<lambda>s. s\<lparr>c_errors := c_errors s @ concat (map (property_error r rc tg cp) cs)\<rparr>)
      (m\<lparr>cm_properties := []\<rparr>))" for m r rc tg cs
    by (rule phase_append) (auto dest: property_error_kind)
  then show ?thesis
    by (auto simp: resolve_property_candidates_def Let_def list.rel_refl phase_ok_refl intro!: phase_map)
qed

section \<open>Settling imports\<close>

abbreviation known :: "modname list \<Rightarrow> modname \<Rightarrow> modname option" where
  "known names x \<equiv> resolve_to_known_module x (set names)"

lemma resolve_and_add_sets:
  "set (fst (resolve_and_add_import_edge imports from x names)) =
     set imports \<union> {t. t \<noteq> from \<and> known names x = Some t}"
  "snd (resolve_and_add_import_edge imports from x names) = known names x"
  by (auto simp: resolve_and_add_import_edge_def split: option.split)

text \<open>The nearest modules that some imports settle to.\<close>

definition targets :: "modname list \<Rightarrow> modname list \<Rightarrow> modname set" where
  "targets names xs = {t. \<exists>x\<in>set xs. nearest_known x (set names) t}"

lemma targets_simps [simp]:
  "targets names [] = {}"
  "targets names (x # xs) = set_option (known names x) \<union> targets names xs"
  by (auto simp: targets_def simp flip: resolve_to_known_module_iff)

lemma ambiguous_step_sets:
  "set (fst (ambiguous_step names from st x)) = set (fst st) \<union> (set_option (known names x) - {from})"
  "set (snd (ambiguous_step names from st x)) = set (snd st) \<union> set_option (known names x)"
  by (auto simp: ambiguous_step_def resolve_and_add_import_edge_def split: option.split)

lemma ambiguous_fold:
  "set (fst (foldl (ambiguous_step names from) st xs)) = set (fst st) \<union> (targets names xs - {from})"
  "set (snd (foldl (ambiguous_step names from) st xs)) = set (snd st) \<union> targets names xs"
  by (induction xs arbitrary: st) (auto simp: ambiguous_step_sets)

lemma missing_step_sets:
  "set (fst (missing_step names from st x)) = set (fst st) \<union> (set_option (known names x) - {from})"
  "set (fst (snd (missing_step names from st x))) = set (fst (snd st)) \<union> set_option (known names x)"
  "set (snd (snd (missing_step names from st x))) = set (snd (snd st)) \<union> (if known names x = None then {x} else {})"
  by (auto simp: missing_step_def resolve_and_add_import_edge_def split: option.split prod.split)

lemma missing_fold:
  "set (fst (foldl (missing_step names from) st xs)) = set (fst st) \<union> (targets names xs - {from})"
  "set (fst (snd (foldl (missing_step names from) st xs))) = set (fst (snd st)) \<union> targets names xs"
  "set (snd (snd (foldl (missing_step names from) st xs))) = set (snd (snd st)) \<union> {x \<in> set xs. known names x = None}"
  by (induction xs arbitrary: st) (auto simp: missing_step_sets)

text \<open>The edges after a phase that resolves the imports \<open>xs\<close> to modules of the merge.\<close>

definition edges_linked :: "modname list \<Rightarrow> cached_module \<Rightarrow> cached_module \<Rightarrow> bool" where
  "edges_linked names m m' \<longleftrightarrow>
     cm_name m' = cm_name m \<and>
     set (cm_imports m') = set (cm_imports m) \<union> (targets names (cm_ambiguous m) - {cm_name m}) \<and>
     cm_missing m' = cm_missing m \<and> cm_ambiguous m' = [] \<and>
     cm_side_effects m' = cm_side_effects m \<and> cm_guard_imports m' = cm_guard_imports m \<and>
     cm_safety m' = cm_safety m"

lemma resolve_ambiguous_module_ok: "edges_linked names m (fst (resolve_ambiguous_module names m))"
  using ambiguous_fold(1) [of names "cm_name m" "(cm_imports m, [])" "cm_ambiguous m"]
  by (simp add: edges_linked_def resolve_ambiguous_module_def split_beta Let_def)

lemma edges_linked_bare: "bare m'' = bare m' \<Longrightarrow> edges_linked names m m' \<Longrightarrow> edges_linked names m m''"
  by (cases m''; cases m') (auto simp: edges_linked_def bare_def)

lemma linked_modules:
  "list_all2 (edges_linked (module_names_of c)) (lc_modules c) (lc_modules (fst (linked c)))"
proof -
  let ?ms = "map (fst \<circ> resolve_ambiguous_module (module_names_of c)) (lc_modules c)"
  have "list_all2 (edges_linked (module_names_of c)) (lc_modules c) ?ms"
    by (simp add: list_all2_conv_all_nth resolve_ambiguous_module_ok)
  moreover have "map bare (lc_modules (fst (linked c))) = map bare ?ms"
    by (simp add: linked_def resolve_ambiguous_imports_def Let_def propagate_bare)
  then have "length (lc_modules (fst (linked c))) = length ?ms \<and>
      (\<forall>i<length ?ms. bare (lc_modules (fst (linked c)) ! i) = bare (?ms ! i))"
    by (metis length_map nth_map)
  ultimately show ?thesis
    by (auto simp: list_all2_conv_all_nth intro: edges_linked_bare)
qed

section \<open>Settling a module\<close>

definition edges_settled :: "modname list \<Rightarrow> cached_module \<Rightarrow> cached_module \<Rightarrow> bool" where
  "edges_settled names m m' \<longleftrightarrow>
     cm_name m' = cm_name m \<and>
     set (cm_imports m') = set (cm_imports m) \<union> (targets names (cm_missing m) - {cm_name m}) \<and>
     set (cm_missing m') = {x \<in> set (cm_missing m). known names x = None} \<and>
     cm_ambiguous m' = cm_ambiguous m \<and>
     cm_side_effects m' = cm_side_effects m \<and> cm_guard_imports m' = cm_guard_imports m"

text \<open>The modules that a module's imports were settled to, and what is cleared on their word.\<close>

definition settled_to :: "modname list \<Rightarrow> (modname \<times> modname list) list \<Rightarrow> cached_module \<Rightarrow> modname list option" where
  "settled_to names amb m =
     (if cm_missing m = [] \<and> map_of amb (cm_name m) = None then None
      else Some (fst (snd (resolve_missing_imports names m
             (case map_of amb (cm_name m) of None \<Rightarrow> [] | Some ms \<Rightarrow> ms)))))"

definition early_resolver ::
  "modname list \<Rightarrow> verdict_map \<Rightarrow> base_map \<Rightarrow> (modname \<times> constructor_callees) list \<Rightarrow> modname list \<Rightarrow>
     safety_resolver" where
  "early_resolver names fs cb cc resolved =
     with_mro_modules names (with_constructor_callees cc (with_class_bases cb (new_resolver resolved fs)))"

definition early_clears ::
  "modname list \<Rightarrow> verdict_map \<Rightarrow> base_map \<Rightarrow> (modname \<times> constructor_callees) list \<Rightarrow>
     (modname \<times> modname list) list \<Rightarrow> cached_module \<Rightarrow> safety_error \<Rightarrow> bool" where
  "early_clears names fs cb cc amb m e \<longleftrightarrow>
     (case settled_to names amb m of
        None \<Rightarrow> False
      | Some resolved \<Rightarrow>
          (case recorded_constructor_clears (early_resolver names fs cb cc resolved) (cm_name m) e of
             Some b \<Rightarrow> b
           | None \<Rightarrow> verified_safe (early_resolver names fs cb cc resolved) e))"

lemma settle_module_ok:
  assumes p_def: "p = early_clears names fs cb cc amb m"
  shows "edges_settled names m (fst (settle_module names fs cb cc amb m))"
    "safety_step_ok p p (cm_safety m) (cm_safety (fst (settle_module names fs cb cc amb m)))"
    "snd (settle_module names fs cb cc amb m) = settled_to names amb m"
proof -
  let ?m = "map_ok (\<lambda>s. s\<lparr>c_implicit := dedupe_implicit_imports (c_implicit s)\<rparr>) m"
  let ?from = "map_of amb (cm_name m)"
  let ?fold = "resolve_missing_imports names m (case ?from of None \<Rightarrow> [] | Some ms \<Rightarrow> ms)"
  let ?r = "early_resolver names fs cb cc (fst (snd ?fold))"
  let ?clears = "\<lambda>e. case recorded_constructor_clears ?r (cm_name m) e of
      Some b \<Rightarrow> b | None \<Rightarrow> verified_safe ?r e"
  let ?m' = "map_ok (\<lambda>s. fst (retain_unverified_errors s ?clears))
      (?m\<lparr>cm_imports := fst ?fold, cm_missing := snd (snd ?fold)\<rparr>)"
  have fold: "resolve_missing_imports names ?m xs = resolve_missing_imports names m xs" for xs
    by (simp add: resolve_missing_imports_def)
  have run: "settle_module names fs cb cc amb m =
      (if cm_missing m = [] \<and> ?from = None then (?m, None) else (?m', Some (fst (snd ?fold))))"
    unfolding settle_module_def Let_def split_beta fold early_resolver_def map_ok_fields by simp
  show "snd (settle_module names fs cb cc amb m) = settled_to names amb m"
    by (simp add: run settled_to_def)
  show "edges_settled names m (fst (settle_module names fs cb cc amb m))"
    unfolding run using missing_fold [of names "cm_name m"]
    by (simp add: edges_settled_def resolve_missing_imports_def)
  have first: "safety_step_ok q never (cm_safety m) (cm_safety ?m)" for q
    by (rule safety_step_map_ok) (simp add: ok_step_same dedupe_implicit_imports_def)
  have "safety_step_ok ?clears ?clears (cm_safety (?m\<lparr>cm_imports := fst ?fold, cm_missing := snd (snd ?fold)\<rparr>))
      (cm_safety ?m')"
    by (rule safety_step_map_ok, rule ok_step_retain)
  then have second: "safety_step_ok ?clears ?clears (cm_safety m) (cm_safety ?m')"
    using first [of never] by (auto intro: safety_step_trans)
  show "safety_step_ok p p (cm_safety m) (cm_safety (fst (settle_module names fs cb cc amb m)))"
  proof (cases "cm_missing m = [] \<and> ?from = None")
    case True
    then have "p = never" by (simp add: p_def early_clears_def [abs_def] settled_to_def)
    then show ?thesis using first True by (simp add: run)
  next
    case False
    then have "settled_to names amb m = Some (fst (snd ?fold))" by (simp add: settled_to_def)
    then have "p = ?clears" by (simp add: p_def early_clears_def [abs_def])
    have "settle_module names fs cb cc amb m = (?m', Some (fst (snd ?fold)))"
      unfolding run by (rule if_not_P [OF False])
    then show ?thesis using second \<open>p = ?clears\<close> by (simp only: fst_conv)
  qed
qed

section \<open>The whole reduce\<close>

text \<open>What the phases clear in a whole run.\<close>

definition run_early :: "merged_class_facts \<Rightarrow> library_cache \<Rightarrow> cached_module \<Rightarrow> safety_error \<Rightarrow> bool" where
  "run_early merged c = early_clears (module_names_of c) (verdict_table (lc_modules (fst (linked c))))
     (all_class_bases merged c) (all_constructor_callees merged c) (snd (linked c))"

definition run_resolved :: "merged_class_facts \<Rightarrow> library_cache \<Rightarrow> (modname \<times> modname list) list" where
  "run_resolved merged c = concat (map (\<lambda>(m, resolved). case resolved of
      None \<Rightarrow> [] | Some r \<Rightarrow> [(cm_name m, r)]) (settle_all merged c))"

definition run_late :: "merged_class_facts \<Rightarrow> library_cache \<Rightarrow> modname \<Rightarrow> safety_error \<Rightarrow> bool" where
  "run_late merged c = late_clears (module_names_of c) (run_resolved merged c)
     (ps_functions (fst (program_outcome merged c))) (all_class_bases merged c)
     (all_constructor_callees merged c) (fst (program_outcome merged c))"

lemma early_clears_functions [simp]:
  "early_clears names fs cb cc amb (m\<lparr>cm_functions := f\<rparr>) = early_clears names fs cb cc amb m"
  "settled_to names amb (m\<lparr>cm_functions := f\<rparr>) = settled_to names amb m"
  by (simp_all add: early_clears_def [abs_def] settled_to_def resolve_missing_imports_def)

lemma settled_modules:
  "list_all2 (\<lambda>m m'. edges_settled (module_names_of c) m m' \<and>
       safety_step_ok (run_early merged c m) (run_early merged c m) (cm_safety m) (cm_safety m'))
     (lc_modules (fst (linked c))) (map fst (settle_all merged c))"
proof -
  let ?fs = "verdict_table (lc_modules (fst (linked c)))"
  let ?settle = "\<lambda>m. fst (settle_module (module_names_of c) ?fs (all_class_bases merged c)
    (all_constructor_callees merged c) (snd (linked c)) (m\<lparr>cm_functions := []\<rparr>))"
  have "edges_settled (module_names_of c) m (?settle m) \<and>
      safety_step_ok (run_early merged c m) (run_early merged c m) (cm_safety m) (cm_safety (?settle m))" for m
    using settle_module_ok(1,2) [OF refl, where m = "m\<lparr>cm_functions := []\<rparr>" and names = "module_names_of c"]
    by (simp add: edges_settled_def run_early_def)
  moreover have "map fst (settle_all merged c) = map ?settle (lc_modules (fst (linked c)))"
    by (simp add: settle_all_def split_beta Let_def)
  ultimately show ?thesis by (simp add: list_all2_conv_all_nth)
qed

lemma later_phases:
  "list_all2 (phase_ok (run_late merged c) (run_late merged c)) (map fst (settle_all merged c))
     (lc_modules (resolve_cross_library_errors merged c))"
proof -
  let ?p = "phase_ok (run_late merged c) (run_late merged c)"
  let ?outcome = "fst (program_outcome merged c)" and ?found = "snd (program_outcome merged c)"
  let ?fs = "ps_functions ?outcome" and ?cb = "all_class_bases merged c"
    and ?cc = "all_constructor_callees merged c" and ?names = "module_names_of c"
  let ?ms3 = "map (add_argument_errors ?found) (map fst (settle_all merged c))"
  let ?ms4 = "apply_subclass_registrations ?cb ?ms3"
  let ?ms5 = "finalize_resolution ?names (run_resolved merged c) ?fs ?cb ?cc ?outcome ?ms4"
  let ?ms6 = "resolve_property_candidates ?names ?fs ?outcome (merge_class_properties (lc_class_properties c))
    (lc_re_exports (fst (linked c))) (lc_return_types (fst (linked c))) ?ms5"
  let ?put = "\<lambda>m. case map_of ?fs (cm_name m) of None \<Rightarrow> m | Some f \<Rightarrow> m\<lparr>cm_functions := f\<rparr>"
  have modules: "lc_modules (resolve_cross_library_errors merged c) = map ?put ?ms6"
    by (simp add: resolve_cross_library_errors_def run_resolved_def Let_def split_beta)
  have argument: "list_all2 phase_adds (map fst (settle_all merged c)) ?ms3"
    by (rule phase_map) (rule add_argument_errors_ok)
  have final: "list_all2 ?p ?ms4 ?ms5"
    unfolding finalize_resolution_def run_late_def by (rule phase_map) (rule finalize_module_ok [OF refl])
  have put: "list_all2 phase_adds ?ms6 (map ?put ?ms6)"
    by (rule phase_map) (simp add: phase_ok_def split: option.split)
  have "list_all2 ?p (map fst (settle_all merged c)) ?ms5"
    by (rule phases_then [OF argument phases_then [OF apply_subclass_registrations_ok final]])
  from phases_and [OF this resolve_property_candidates_ok]
  have "list_all2 ?p (map fst (settle_all merged c)) ?ms6" .
  from phases_and [OF this put] show ?thesis unfolding modules .
qed

text \<open>
  C33: The reduce settles every import edge: an import that a library could not resolve becomes an
  edge to the nearest module of the merge, never to the module itself, and stays missing exactly
  when there is none; no ambiguous import is left, and no edge is lost.
\<close>
theorem resolve_imports_exact:
  "list_all2 (\<lambda>m m'. cm_name m' = cm_name m \<and>
      set (cm_imports m') = set (cm_imports m) \<union>
        (targets (module_names_of c) (cm_missing m @ cm_ambiguous m) - {cm_name m}) \<and>
      set (cm_missing m') = {x \<in> set (cm_missing m). known (module_names_of c) x = None} \<and>
      cm_ambiguous m' = [] \<and> cm_side_effects m' = cm_side_effects m)
     (lc_modules c) (lc_modules (resolve_cross_library_errors merged c))"
proof -
  let ?names = "module_names_of c"
  let ?R = "\<lambda>m m'. cm_name m' = cm_name m \<and>
      set (cm_imports m') = set (cm_imports m) \<union> (targets ?names (cm_missing m @ cm_ambiguous m) - {cm_name m}) \<and>
      set (cm_missing m') = {x \<in> set (cm_missing m). known ?names x = None} \<and>
      cm_ambiguous m' = [] \<and> cm_side_effects m' = cm_side_effects m"
  have append: "targets ?names (xs @ ys) = targets ?names xs \<union> targets ?names ys" for xs ys
    by (auto simp: targets_def)
  have one: "?R m m2" if "edges_linked ?names m m1" "edges_settled ?names m1 m2" for m m1 m2
    using that unfolding edges_linked_def edges_settled_def append by auto
  have two: "?R m m'" if "?R m m2" "phase_ok (run_late merged c) (run_late merged c) m2 m'" for m m2 m'
    using that by (auto simp: phase_ok_def module_edges_def)
  have settled: "list_all2 (edges_settled ?names) (lc_modules (fst (linked c))) (map fst (settle_all merged c))"
    by (rule list_all2_mono [OF settled_modules]) blast
  have "list_all2 ?R (lc_modules c) (map fst (settle_all merged c))"
    by (rule list_all2_trans [OF one linked_modules settled])
  from list_all2_trans [OF two this later_phases] show ?thesis .
qed

section \<open>What the reduce clears\<close>

text \<open>One module of each name, and one well-formed verdict for each function of a module.\<close>

definition wf_cache :: "library_cache \<Rightarrow> bool" where
  "wf_cache c \<longleftrightarrow> distinct (module_names_of c) \<and> wf_modules (lc_modules c)"

text \<open>
  The merged program: with the verdicts of the libraries, after the mutation candidates, and after
  the promotion.
\<close>

definition program_before :: "merged_class_facts \<Rightarrow> library_cache \<Rightarrow> merged_program" where
  "program_before merged c =
     \<lparr>pg_modules = set (module_names_of c), pg_verdicts = verdict_table (lc_modules (fst (linked c))),
      pg_bases = all_class_bases merged c, pg_records = all_constructor_callees merged c\<rparr>"

definition program_between :: "merged_class_facts \<Rightarrow> library_cache \<Rightarrow> merged_program" where
  "program_between merged c = program_before merged c
     \<lparr>pg_verdicts := fst (apply_mutation_candidates (map (\<lambda>m. (cm_name m, cm_mutations m)) (lc_modules c))
        (module_names_of c) (verdict_table (lc_modules (fst (linked c)))))\<rparr>"

definition program_after :: "merged_class_facts \<Rightarrow> library_cache \<Rightarrow> merged_program" where
  "program_after merged c = program_before merged c
     \<lparr>pg_verdicts := ps_functions (fst (program_outcome merged c))\<rparr>"

text \<open>The modules that the unresolved imports of a module lead to, if it has any to settle.\<close>

definition reach_of :: "library_cache \<Rightarrow> cached_module \<Rightarrow> modname set option" where
  "reach_of c m =
     (if cm_missing m = [] \<and> targets (module_names_of c) (cm_ambiguous m) = {} then None
      else Some (targets (module_names_of c) (cm_missing m @ cm_ambiguous m)))"

definition safe_in :: "merged_program \<Rightarrow> modname set \<Rightarrow> string set" where
  "safe_in p S = {n. \<exists>m\<in>S. says p m n Safe}"

definition clears_early :: "merged_class_facts \<Rightarrow> library_cache \<Rightarrow> cached_module \<Rightarrow> safety_error \<Rightarrow> bool" where
  "clears_early merged c m e \<longleftrightarrow>
     (\<exists>S n. reach_of c m = Some S \<and> called e n \<and>
        cleared (program_before merged c) S (safe_in (program_before merged c) S) (cm_name m) e n)"

definition clears_late ::
  "merged_class_facts \<Rightarrow> library_cache \<Rightarrow> string set \<Rightarrow> cached_module \<Rightarrow> safety_error \<Rightarrow> bool" where
  "clears_late merged c G m e \<longleftrightarrow>
     (\<exists>n. called e n \<and>
        cleared_late (program_between merged c) (program_after merged c) (reach_of c m) G (cm_name m) e n)"

abbreviation safe_names :: "merged_class_facts \<Rightarrow> library_cache \<Rightarrow> string set" where
  "safe_names merged c \<equiv> safe_in (program_after merged c) (set (module_names_of c))"

lemma map_of_filtered:
  assumes "distinct (map f xs)" "x \<in> set xs"
  shows "map_of (map (\<lambda>x. (f x, g x)) (filter P xs)) (f x) = (if P x then Some (g x) else None)"
  using assms by (induction xs) (auto simp: map_of_eq_None_iff image_iff)

lemma linked_ambiguous:
  assumes "distinct (module_names_of c)" "m \<in> set (lc_modules c)"
  shows "map_of (snd (linked c)) (cm_name m) =
    (let resolved = snd (resolve_ambiguous_module (module_names_of c) m)
     in if resolved = [] then None else Some resolved)"
proof -
  let ?f = "\<lambda>m. snd (resolve_ambiguous_module (module_names_of c) m)"
  have name: "cm_name (fst (resolve_ambiguous_module names m)) = cm_name m" for names m
    using resolve_ambiguous_module_ok [of names m] by (simp add: edges_linked_def)
  have "snd (linked c) = map (\<lambda>m. (cm_name m, ?f m)) (filter (\<lambda>m. ?f m \<noteq> []) (lc_modules c))"
    by (simp add: linked_def resolve_ambiguous_imports_def Let_def split_beta filter_map comp_def name)
  then show ?thesis
    using map_of_filtered [of cm_name "lc_modules c" m ?f "\<lambda>m. ?f m \<noteq> []"] assms
    by (simp add: module_names_of_def Let_def)
qed

lemma ambiguous_resolved_set:
  "set (snd (resolve_ambiguous_module names m)) = targets names (cm_ambiguous m)"
  using ambiguous_fold(2) [of names "cm_name m" "(cm_imports m, [])" "cm_ambiguous m"]
  by (simp add: resolve_ambiguous_module_def split_beta Let_def)

lemma settled_to_reach:
  assumes "distinct (module_names_of c)" "m \<in> set (lc_modules c)"
    and "cm_name m1 = cm_name m" "cm_missing m1 = cm_missing m"
  shows "map_option set (settled_to (module_names_of c) (snd (linked c)) m1) = reach_of c m"
proof -
  let ?names = "module_names_of c" and ?r = "snd (resolve_ambiguous_module (module_names_of c) m)"
  have amb: "map_of (snd (linked c)) (cm_name m1) = (if ?r = [] then None else Some ?r)"
    using linked_ambiguous [OF assms(1,2)] by (simp add: assms(3) Let_def)
  have r: "set ?r = targets ?names (cm_ambiguous m)" by (rule ambiguous_resolved_set)
  have "set (fst (snd (resolve_missing_imports ?names m1 xs))) = set xs \<union> targets ?names (cm_missing m)" for xs
    using missing_fold(2) [of ?names "cm_name m1"] by (simp add: resolve_missing_imports_def assms(4))
  moreover have "targets ?names (xs @ ys) = targets ?names xs \<union> targets ?names ys" for xs ys
    by (auto simp: targets_def)
  ultimately show ?thesis
    using r by (auto simp: settled_to_def reach_of_def amb assms(4))
qed

lemma bare_mutations: "bare m = bare m' \<Longrightarrow> cm_mutations m = cm_mutations m'"
  by (cases m; cases m') (simp add: bare_def)

lemma linked_same_length: "length (lc_modules (fst (linked c))) = length (lc_modules c)"
  using list_all2_lengthD [OF linked_modules [of c]] by simp

lemma linked_nth:
  assumes "i < length (lc_modules c)"
  defines "m \<equiv> lc_modules c ! i" and "m1 \<equiv> lc_modules (fst (linked c)) ! i"
  shows "edges_linked (module_names_of c) m m1" "cm_mutations m1 = cm_mutations m"
    "length (lc_modules (fst (linked c))) = length (lc_modules c)"
proof -
  let ?ms = "map (fst \<circ> resolve_ambiguous_module (module_names_of c)) (lc_modules c)"
  have bare: "map bare (lc_modules (fst (linked c))) = map bare ?ms"
    by (simp add: linked_def resolve_ambiguous_imports_def Let_def split_beta propagate_bare)
  show len: "length (lc_modules (fst (linked c))) = length (lc_modules c)"
    using map_eq_imp_length_eq [OF bare] by simp
  show "edges_linked (module_names_of c) m m1"
    using linked_modules [of c] assms(1) by (simp add: m_def m1_def list_all2_conv_all_nth)
  have "bare m1 = bare (fst (resolve_ambiguous_module (module_names_of c) m))"
    using arg_cong [OF bare, of "\<lambda>xs. xs ! i"] assms(1) len by (simp add: m_def m1_def)
  then have "cm_mutations m1 = cm_mutations (fst (resolve_ambiguous_module (module_names_of c) m))"
    by (metis bare_mutations)
  then show "cm_mutations m1 = cm_mutations m"
    by (simp add: resolve_ambiguous_module_def split_beta Let_def)
qed

lemma settle_all_length: "length (settle_all merged c) = length (lc_modules c)"
  by (simp add: settle_all_def split_beta Let_def linked_same_length)

lemma settle_all_nth:
  fixes merged :: merged_class_facts
  assumes "i < length (lc_modules c)"
  defines "m \<equiv> lc_modules c ! i" and "m2 \<equiv> fst (settle_all merged c ! i)"
  shows "cm_name m2 = cm_name m" "cm_mutations m2 = cm_mutations m"
    "snd (settle_all merged c ! i) = settled_to (module_names_of c) (snd (linked c)) (lc_modules (fst (linked c)) ! i)"
proof -
  let ?m1 = "lc_modules (fst (linked c)) ! i"
  let ?settle = "settle_module (module_names_of c) (verdict_table (lc_modules (fst (linked c))))
    (all_class_bases merged c) (all_constructor_callees merged c) (snd (linked c))"
  note link = linked_nth [OF assms(1)]

  have run: "settle_all merged c ! i = ?settle (?m1\<lparr>cm_functions := []\<rparr>)"
    using assms(1) link(3) by (simp add: settle_all_def split_beta Let_def)
  show "snd (settle_all merged c ! i) = settled_to (module_names_of c) (snd (linked c)) ?m1"
    unfolding run by (simp add: settle_module_ok(3) [OF refl])
  show "cm_name m2 = cm_name m"
    using settle_module_ok(1) [OF refl, of "module_names_of c" "?m1\<lparr>cm_functions := []\<rparr>"] link(1)
    unfolding m2_def run by (simp add: edges_settled_def edges_linked_def m_def)
  have "cm_mutations (fst (?settle x)) = cm_mutations x" for x
    by (simp add: settle_module_def Let_def split_beta map_ok_def split: cached_safety.split)
  then show "cm_mutations m2 = cm_mutations m"
    unfolding m2_def run using link(2) by (simp add: m_def)
qed

lemma map_of_optional:
  assumes "distinct (map f xs)" "x \<in> set xs"
  shows "map_of (concat (map (\<lambda>x. case g x of None \<Rightarrow> [] | Some r \<Rightarrow> [(f x, r)]) xs)) (f x) = g x"
  using assms
proof (induction xs)
  case (Cons y xs)
  have none: "map_of (concat (map (\<lambda>x. case g x of None \<Rightarrow> [] | Some r \<Rightarrow> [(f x, r)]) xs)) k = None"
    if "k \<notin> f ` set xs" for k
    using that by (auto simp: map_of_eq_None_iff split: option.splits)
  have "x \<in> set xs \<Longrightarrow> f x \<noteq> f y" using Cons.prems(1) by (metis distinct.simps(2) image_eqI list.map(2) list.set_map)
  then show ?case using Cons none [of "f y"] by (auto split: option.split)
qed simp

lemma run_resolved_reach:
  assumes "wf_cache c" "i < length (lc_modules c)"
  shows "map_option set (map_of (run_resolved merged c) (cm_name (lc_modules c ! i))) = reach_of c (lc_modules c ! i)"
proof -
  let ?x = "settle_all merged c ! i"
  note at = settle_all_nth [OF assms(2), where merged = merged]
  have names: "map (\<lambda>x. cm_name (fst x)) (settle_all merged c) = module_names_of c"
    unfolding module_names_of_def by (rule nth_equalityI) (simp_all add: settle_all_nth settle_all_length)
  have "?x \<in> set (settle_all merged c)" using assms(2) by (simp add: settle_all_length)
  then have "map_of (run_resolved merged c) (cm_name (fst ?x)) = snd ?x"
    using map_of_optional [of "\<lambda>x. cm_name (fst x)" "settle_all merged c" ?x snd] assms(1)
    by (simp add: names run_resolved_def case_prod_beta' wf_cache_def)
  then have "map_of (run_resolved merged c) (cm_name (lc_modules c ! i)) =
      settled_to (module_names_of c) (snd (linked c)) (lc_modules (fst (linked c)) ! i)"
    using at(1,3) by simp
  moreover have "map_option set (settled_to (module_names_of c) (snd (linked c)) (lc_modules (fst (linked c)) ! i)) =
      reach_of c (lc_modules c ! i)"
    using assms linked_nth(1) [OF assms(2)]
    by (intro settled_to_reach) (simp_all add: wf_cache_def edges_linked_def)
  ultimately show ?thesis by simp
qed

lemma wf_linked:
  assumes "wf_cache c"
  shows "wf_verdicts (verdict_table (lc_modules (fst (linked c))))"
proof -
  have "cm_functions (fst (resolve_ambiguous_module names m)) = cm_functions m" for names m
    by (simp add: resolve_ambiguous_module_def split_beta Let_def)
  then have "wf_modules (map (fst \<circ> resolve_ambiguous_module (module_names_of c)) (lc_modules c))"
    using assms by (simp add: wf_cache_def wf_modules_def list_all_length)
  then have wf: "wf_modules (lc_modules (fst (linked c)))"
    unfolding linked_def resolve_ambiguous_imports_def Let_def split_beta fst_conv
    by (intro wf_propagate) simp
  have "map cm_name (lc_modules (fst (linked c))) = module_names_of c"
    unfolding module_names_of_def
    by (rule nth_equalityI) (use linked_nth in \<open>auto simp: linked_same_length edges_linked_def\<close>)
  then show ?thesis
    using assms wf by (simp add: wf_verdicts_def verdict_table_def wf_cache_def wf_modules_def list_all_length comp_def)
qed

lemma early_clears_exact:
  assumes wf: "wf_cache c" and i: "i < length (lc_modules c)"
  defines "m \<equiv> lc_modules c ! i" and "m1 \<equiv> lc_modules (fst (linked c)) ! i"
  shows "run_early merged c m1 e \<longleftrightarrow> clears_early merged c m e"
proof -
  let ?p = "program_before merged c" and ?names = "module_names_of c"
  have name: "cm_name m1 = cm_name m"
    using linked_nth(1) [OF i] by (simp add: edges_linked_def m_def m1_def)
  have reach: "map_option set (settled_to ?names (snd (linked c)) m1) = reach_of c m"
    using wf i linked_nth(1) [OF i]
    by (intro settled_to_reach) (simp_all add: wf_cache_def edges_linked_def m_def m1_def)
  have resolver: "resolver_of ?p (set r) (safe_in ?p (set r))
      (early_resolver ?names (pg_verdicts ?p) (all_class_bases merged c) (all_constructor_callees merged c) r)" for r
    by (simp add: resolver_of_def program_before_def early_resolver_def with_mro_modules_def safe_in_def
        with_constructor_callees_def with_class_bases_def new_resolver_def)
  have keyed: "keyed (pg_verdicts ?p)"
    using wf_linked [OF wf] by (simp add: program_before_def wf_keyed)
  have table: "verdict_table (lc_modules (fst (linked c))) = pg_verdicts ?p" by (simp add: program_before_def)
  show ?thesis
    unfolding run_early_def early_clears_def clears_early_def reach [symmetric] name table
    using resolver_clears_iff [OF resolver keyed] by (auto split: option.split)
qed

lemma program_outcome_eq:
  "fst (program_outcome merged c) = promote_fixpoint (module_names_of c) (pg_verdicts (program_between merged c))
     (unqualified_error_names (map fst (settle_all merged c)) \<union>
      set (concat (map (\<lambda>(_, metadata, _). case unqualified_index_key metadata of None \<Rightarrow> [] | Some name \<Rightarrow> [name])
        (snd (program_outcome merged c))))) ProbeStr"
proof -
  have "map (\<lambda>m. (cm_name m, cm_mutations m)) (map fst (settle_all merged c)) =
      map (\<lambda>m. (cm_name m, cm_mutations m)) (lc_modules c)"
    by (rule nth_equalityI) (simp_all add: settle_all_length settle_all_nth)
  then show ?thesis
    by (simp add: program_outcome_def resolve_program_def program_between_def split_beta Let_def)
qed

lemma wf_between: "wf_cache c \<Longrightarrow> wf_verdicts (pg_verdicts (program_between merged c))"
  by (simp add: program_between_def wf_apply_mutation_candidates wf_linked)

lemma outcome_facts:
  assumes "wf_cache c"
  shows "keyed (ps_functions (fst (program_outcome merged c)))"
    "(m, l) \<notin> set (ps_promoted (fst (program_outcome merged c))) \<longleftrightarrow>
       map_option verdict (get_function_safety (pg_verdicts (program_between merged c)) m l) =
       map_option verdict (get_function_safety (ps_functions (fst (program_outcome merged c))) m l)"
    "\<exists>N. unqualified_error_names (map fst (settle_all merged c)) \<subseteq> N \<and>
       ps_globally_safe (fst (program_outcome merged c)) =
         verdict_names (module_names_of c) N (ps_functions (fst (program_outcome merged c))) Safe"
proof -
  obtain N where out: "fst (program_outcome merged c) =
      promote_fixpoint (module_names_of c) (pg_verdicts (program_between merged c)) N ProbeStr"
    and N: "unqualified_error_names (map fst (settle_all merged c)) \<subseteq> N"
    using program_outcome_eq [of merged c] Un_upper1 by blast
  note facts = promotion_outcome [where names = "module_names_of c" and needed = N and search = ProbeStr,
      OF wf_between [OF assms, of merged], folded out]
  show "keyed (ps_functions (fst (program_outcome merged c)))" by (rule facts(1))
  show "(m, l) \<notin> set (ps_promoted (fst (program_outcome merged c))) \<longleftrightarrow>
       map_option verdict (get_function_safety (pg_verdicts (program_between merged c)) m l) =
       map_option verdict (get_function_safety (ps_functions (fst (program_outcome merged c))) m l)"
    by (rule facts(2))
  show "\<exists>N. unqualified_error_names (map fst (settle_all merged c)) \<subseteq> N \<and>
       ps_globally_safe (fst (program_outcome merged c)) =
         verdict_names (module_names_of c) N (ps_functions (fst (program_outcome merged c))) Safe"
    using facts(3) needed_names N by (metis subset_trans)
qed

lemma index_exact:
  fixes merged :: merged_class_facts
  assumes "wf_cache c"
  defines "G \<equiv> ps_globally_safe (fst (program_outcome merged c))"
  shows "G \<subseteq> safe_names merged c"
    "unqualified_error_names (map fst (settle_all merged c)) \<inter> safe_names merged c \<subseteq> G"
proof -
  have says: "(\<exists>info. get_function_safety (ps_functions (fst (program_outcome merged c))) m n = Some info \<and>
      verdict info = Safe) \<longleftrightarrow> says (program_after merged c) m n Safe" for m n
    by (auto simp: says_def program_after_def get_function_safety_def split: option.split)
  have "\<exists>N. unqualified_error_names (map fst (settle_all merged c)) \<subseteq> N \<and>
      G = verdict_names (module_names_of c) N (ps_functions (fst (program_outcome merged c))) Safe"
    unfolding G_def by (rule outcome_facts(3) [OF assms(1)])
  then show "G \<subseteq> safe_names merged c"
    "unqualified_error_names (map fst (settle_all merged c)) \<inter> safe_names merged c \<subseteq> G"
    unfolding verdict_names_def safe_in_def using says by auto
qed

lemma late_clears_exact:
  fixes merged :: merged_class_facts
  assumes wf: "wf_cache c" and i: "i < length (lc_modules c)"
  defines "m \<equiv> lc_modules c ! i" and "G \<equiv> ps_globally_safe (fst (program_outcome merged c))"
  shows "run_late merged c (cm_name m) e \<longleftrightarrow> clears_late merged c G m e"
proof -
  let ?p = "program_after merged c" and ?q = "program_between merged c" and ?names = "module_names_of c"
  let ?out = "fst (program_outcome merged c)"
  let ?scoped = "map_option (\<lambda>r. context_resolver ?names (ps_functions ?out) (all_class_bases merged c)
    (all_constructor_callees merged c) r (ps_globally_safe ?out)) (map_of (run_resolved merged c) (cm_name m))"
  have whole: "resolver_of ?p (pg_modules ?p) G
      (with_constructor_callees (all_constructor_callees merged c) (with_class_bases (all_class_bases merged c)
        (with_safe_index ?names (ps_functions ?out) (ps_globally_safe ?out))))"
    by (simp add: resolver_of_def program_after_def program_before_def G_def with_safe_index_def
        with_constructor_callees_def with_class_bases_def new_resolver_def)
  have "resolver_of ?p (set r) G (context_resolver ?names (ps_functions ?out) (all_class_bases merged c)
      (all_constructor_callees merged c) r (ps_globally_safe ?out))" for r
    by (simp add: resolver_of_def program_after_def program_before_def G_def context_resolver_def
        with_mro_modules_def with_safe_index_def with_constructor_callees_def with_class_bases_def new_resolver_def)
  then have scoped: "same_reach ?p (reach_of c m) G ?scoped"
    unfolding run_resolved_reach [OF wf i, of merged, folded m_def, symmetric]
    by (auto simp: same_reach_def split: option.split)
  have keyed: "keyed (pg_verdicts ?p)"
    using outcome_facts(1) [OF wf] by (simp add: program_after_def)
  have says: "says p' k l v \<longleftrightarrow> map_option verdict (get_function_safety (pg_verdicts p') k l) = Some v" for p' k l v
    by (auto simp: says_def get_function_safety_def split: option.split)
  have promoted: "(k, l) \<notin> set (ps_promoted ?out) \<longleftrightarrow> unmoved ?q ?p k l" for k l
  proof -
    have "(k, l) \<notin> set (ps_promoted ?out) \<longleftrightarrow>
        map_option verdict (get_function_safety (pg_verdicts ?q) k l) =
        map_option verdict (get_function_safety (pg_verdicts ?p) k l)"
      using outcome_facts(2) [OF wf] by (simp add: program_after_def)
    then show ?thesis unfolding unmoved_def says by (metis not_Some_eq)
  qed
  show ?thesis
    unfolding run_late_def late_clears_def clears_late_def
    by (rule resolved_error_iff [OF whole scoped keyed promoted])
qed

lemma unqualified_error_needed:
  assumes "m \<in> set ms" "e \<in> set (errors_of (cm_safety m))" "called e n" "dot \<notin> set n"
  shows "n \<in> unqualified_error_names ms"
  using assms
  by (force simp: unqualified_error_names_def errors_of_def called_iff unqualified_index_key_def Let_def
      split: cached_safety.splits)

text \<open>
  C3: The errors that the reduce leaves in a module, in their order, are the module's own without those
  a missing import can cause and the merged program answers: on the verdicts of the libraries, read
  in the modules its unresolved imports lead to, or on the verdicts after the promotion. The answer is
  a class record all of whose constructors may run, a function that is safe itself, the safe method
  a class inherits, or a safe function of the same bare name. New errors are only those for arguments,
  subclass registrations and property getters. Nothing is left that is so answered, but that a
  dotted name that lies in no module need not find a function of the same name. A failed analysis
  stays as it is, and so do the overrides and the set of implicit imports.
\<close>

theorem resolve_errors_sound:
  assumes "wf_cache c"
  shows "list_all2 (\<lambda>m m'. safety_step_ok
       (\<lambda>e. clears_early merged c m e \<or> clears_late merged c (safe_names merged c) m e)
       (\<lambda>e. clears_early merged c m e \<or> clears_late merged c {n \<in> safe_names merged c. dot \<notin> set n} m e)
       (cm_safety m) (cm_safety m'))
     (lc_modules c) (lc_modules (resolve_cross_library_errors merged c))"
proof (rule list_all2_all_nthI)
  have settled: "length (lc_modules (fst (linked c))) = length (map fst (settle_all merged c))"
    using linked_same_length settle_all_length by simp
  have later: "length (map fst (settle_all merged c)) = length (lc_modules (resolve_cross_library_errors merged c))"
    using later_phases by (rule list_all2_lengthD)
  show "length (lc_modules c) = length (lc_modules (resolve_cross_library_errors merged c))"
    using settled later linked_same_length by simp
  fix i
  assume i: "i < length (lc_modules c)"
  let ?m = "lc_modules c ! i" and ?m1 = "lc_modules (fst (linked c)) ! i"
    and ?m2 = "fst (settle_all merged c ! i)" and ?m' = "lc_modules (resolve_cross_library_errors merged c) ! i"
  let ?G = "ps_globally_safe (fst (program_outcome merged c))"
  have names: "cm_name ?m1 = cm_name ?m" "cm_safety ?m1 = cm_safety ?m" "cm_name ?m2 = cm_name ?m"
    using linked_nth(1) [OF i] settle_all_nth(1) [OF i, of merged] by (simp_all add: edges_linked_def)
  have mem: "?m2 \<in> set (map fst (settle_all merged c))" using i by (simp add: settle_all_length)
  have early: "safety_step_ok (clears_early merged c ?m) (clears_early merged c ?m) (cm_safety ?m) (cm_safety ?m2)"
    using list_all2_nthD [OF settled_modules [of c merged], of i] i
    by (simp add: linked_same_length settle_all_length names early_clears_exact [OF assms i, abs_def])
  have late: "safety_step_ok (clears_late merged c ?G ?m) (clears_late merged c ?G ?m) (cm_safety ?m2) (cm_safety ?m')"
    using list_all2_nthD [OF later_phases [of merged c], of i] i
    by (simp add: settle_all_length phase_ok_def names late_clears_exact [OF assms i, abs_def])
  show "safety_step_ok
      (\<lambda>e. clears_early merged c ?m e \<or> clears_late merged c (safe_names merged c) ?m e)
      (\<lambda>e. clears_early merged c ?m e \<or> clears_late merged c {n \<in> safe_names merged c. dot \<notin> set n} ?m e)
      (cm_safety ?m) (cm_safety ?m')"
  proof (rule safety_step_trans [OF early late])
    fix e
    show "clears_early merged c ?m e \<or> clears_late merged c (safe_names merged c) ?m e"
      if "clears_early merged c ?m e \<or> clears_late merged c ?G ?m e"
      using that index_exact(1) [OF assms, of merged] unfolding clears_late_def by (blast intro: cleared_late_mono)
    show "clears_early merged c ?m e \<or> (e \<in> set (errors_of (cm_safety ?m2)) \<longrightarrow> clears_late merged c ?G ?m e)"
      if "clears_early merged c ?m e \<or> clears_late merged c {n \<in> safe_names merged c. dot \<notin> set n} ?m e"
      using that index_exact(2) [OF assms, of merged] unqualified_error_needed [OF mem]
      unfolding clears_late_def by (blast intro: cleared_late_mono)
  qed
qed

text \<open>An application that calls a safe and an unsafe function of a library.\<close>

definition sample_error :: "string \<Rightarrow> safety_error" where
  "sample_error callee = new_error UnknownFunctionCallError (''lib.'' @ callee @ ''()'') (0, 0)"

definition sample_app :: cached_module where
  "sample_app = (empty_cached_module ''app'')
     \<lparr>cm_missing := [''lib.f''],
      cm_safety := CachedOk \<lparr>c_errors = [sample_error ''f'', sample_error ''g''], c_overrides = [], c_implicit = []\<rparr>\<rparr>"

definition sample_reduce :: library_cache where
  "sample_reduce =
     \<lparr>lc_modules = [sample_app, (empty_cached_module ''lib'')
        \<lparr>cm_functions := [(''f'', new_info Safe), (''g'', new_info Unsafe)]\<rparr>],
      lc_re_exports = [], lc_return_types = [], lc_class_bases = [], lc_class_properties = [],
      lc_constructor_callees = []\<rparr>"

abbreviation no_facts :: merged_class_facts where
  "no_facts \<equiv> \<lparr>mf_class_bases = [], mf_constructor_callees = []\<rparr>"

lemma resolve_errors_sound_witness:
  "errors_of (cm_safety (hd (lc_modules (resolve_cross_library_errors no_facts sample_reduce)))) = [sample_error ''g''] \<and>
   (clears_early no_facts sample_reduce sample_app (sample_error ''f'') \<or>
    clears_late no_facts sample_reduce (safe_names no_facts sample_reduce) sample_app (sample_error ''f'')) \<and>
   \<not> clears_early no_facts sample_reduce sample_app (sample_error ''g'')"
proof -
  have wf: "wf_cache sample_reduce" by code_simp
  have run: "errors_of (cm_safety (hd (lc_modules (resolve_cross_library_errors no_facts sample_reduce)))) =
      [sample_error ''g'']"
    by code_simp
  let ?may = "\<lambda>e. clears_early no_facts sample_reduce sample_app e \<or>
    clears_late no_facts sample_reduce (safe_names no_facts sample_reduce) sample_app e"
  let ?must = "\<lambda>e. clears_early no_facts sample_reduce sample_app e \<or>
    clears_late no_facts sample_reduce {n \<in> safe_names no_facts sample_reduce. dot \<notin> set n} sample_app e"
  have "safety_step_ok ?may ?must (cm_safety sample_app)
      (cm_safety (hd (lc_modules (resolve_cross_library_errors no_facts sample_reduce))))"
    using resolve_errors_sound [OF wf, of no_facts]
    by (auto simp: sample_reduce_def list_all2_Cons1)
  moreover obtain s' where s': "cm_safety (hd (lc_modules (resolve_cross_library_errors no_facts sample_reduce))) = CachedOk s'"
    "c_errors s' = [sample_error ''g'']"
    using run by (auto simp: errors_of_def split: cached_safety.splits)
  ultimately have step: "ok_step ?may ?must
      \<lparr>c_errors = [sample_error ''f'', sample_error ''g''], c_overrides = [], c_implicit = []\<rparr> s'"
    by (simp add: sample_app_def)
  have "sample_error ''f'' \<noteq> sample_error ''g''" "could_be_caused_by_missing_import (err_kind (sample_error n))" for n
    by code_simp (simp add: sample_error_def new_error_def could_be_caused_by_missing_import_def)
  with step s'(2) have "?may (sample_error ''f'')" "\<not> ?must (sample_error ''g'')"
    by (auto simp: ok_step_def raised_kinds_def sample_error_def new_error_def split: if_splits)
  then show ?thesis using run by blast
qed

section \<open>Return classes behind re-exports\<close>

text \<open>The name a re-export stands for, and the name after a number of hops.\<close>

definition alias_of :: "alias_map \<Rightarrow> modname \<Rightarrow> modname option" where
  "alias_of aliases name =
     (case split_attr name of
        None \<Rightarrow> None
      | Some key \<Rightarrow> map_option (\<lambda>(m, a). append_str m a) (map_of aliases key))"

fun alias_at :: "alias_map \<Rightarrow> nat \<Rightarrow> modname \<Rightarrow> modname option" where
  "alias_at aliases 0 name = Some name"
| "alias_at aliases (Suc n) name =
     (case alias_of aliases name of None \<Rightarrow> None | Some next_name \<Rightarrow> alias_at aliases n next_name)"

definition class_at ::
  "(modname \<times> modname) list \<Rightarrow> alias_map \<Rightarrow> nat \<Rightarrow> modname \<Rightarrow> modname option" where
  "class_at return_classes aliases n name =
     (case alias_at aliases n name of None \<Rightarrow> None | Some name' \<Rightarrow> map_of return_classes name')"

lemma class_at_0: "class_at rc aliases 0 name = map_of rc name"
  by (simp add: class_at_def)

lemma class_at_Suc:
  "class_at rc aliases (Suc n) name =
     (case alias_of aliases name of None \<Rightarrow> None | Some next_name \<Rightarrow> class_at rc aliases n next_name)"
  by (simp add: class_at_def split: option.split)

lemma alias_loop:
  assumes "alias_of aliases name = Some name" "map_of rc name = None"
  shows "class_at rc aliases n name = None"
  using assms by (induction n) (simp_all add: class_at_0 class_at_Suc)

lemma return_class_hops_step:
  "return_class_hops (Suc hops) name rc aliases =
     (case map_of rc name of
        Some c \<Rightarrow> Some c
      | None \<Rightarrow>
          (case alias_of aliases name of
             None \<Rightarrow> None
           | Some next_name \<Rightarrow> if next_name = name then None else return_class_hops hops next_name rc aliases))"
  by (simp add: alias_of_def Let_def split: option.split prod.split)

lemma return_class_hops_iff:
  "return_class_hops hops name rc aliases = Some c \<longleftrightarrow>
     (\<exists>n<hops. class_at rc aliases n name = Some c \<and> (\<forall>k<n. class_at rc aliases k name = None))"
proof (induction hops arbitrary: name)
  case (Suc hops)
  show ?case
  proof (cases "map_of rc name")
    case None
    show ?thesis
    proof (cases "alias_of aliases name")
      case al: None
      have "class_at rc aliases n name = None" for n
        using None al by (cases n) (simp_all add: class_at_0 class_at_Suc)
      then show ?thesis unfolding return_class_hops_step using None al by simp
    next
      case al: (Some next_name)
      show ?thesis
      proof (cases "next_name = name")
        case True
        have "class_at rc aliases n name = None" for n
          using alias_loop al None unfolding True by blast
        then show ?thesis unfolding return_class_hops_step using None al True by simp
      next
        case False
        have at: "class_at rc aliases n name =
            (case n of 0 \<Rightarrow> None | Suc m \<Rightarrow> class_at rc aliases m next_name)" for n
          using None al by (cases n) (simp_all add: class_at_0 class_at_Suc)
        have "(\<exists>n<Suc hops. class_at rc aliases n name = Some c \<and> (\<forall>k<n. class_at rc aliases k name = None)) \<longleftrightarrow>
            (\<exists>n<hops. class_at rc aliases n next_name = Some c \<and> (\<forall>k<n. class_at rc aliases k next_name = None))"
          unfolding at by (simp add: Ex_less_Suc2 All_less_Suc2)
        then show ?thesis
          unfolding return_class_hops_step using None al False Suc.IH [of next_name] by simp
      qed
    qed
  next
    case (Some c')
    have "(\<exists>n<Suc hops. class_at rc aliases n name = Some c \<and> (\<forall>k<n. class_at rc aliases k name = None)) \<longleftrightarrow> c' = c"
      using Some class_at_0 [of rc aliases name] by (auto simp: Ex_less_Suc2 All_less_Suc2)
    then show ?thesis unfolding return_class_hops_step using Some by simp
  qed
qed simp

text \<open>
  C38: The class of a call is the one recorded for the first name with a record among the called
  name and the names it stands for through fewer than eight re-exports; a chain that is cyclic or
  longer gives none.
\<close>
theorem resolve_return_class_exact:
  "resolve_return_class name rc aliases = Some c \<longleftrightarrow>
     (\<exists>n<8. class_at rc aliases n name = Some c \<and> (\<forall>k<n. class_at rc aliases k name = None))"
  unfolding resolve_return_class_def MAX_REEXPORT_HOPS_def by (rule return_class_hops_iff)

text \<open>A re-export whose imported attribute holds a dot, and one that stands for itself.\<close>

definition sample_aliases :: alias_map where
  "sample_aliases =
     [((''facade'', ''make''), (''factory'', ''sub.make'')), ((''factory.sub'', ''make''), (''real'', ''Thing'')),
      ((''m'', ''loop''), (''m'', ''loop''))]"

lemma resolve_return_class_exact_witness:
  "class_at [(''real.Thing'', ''real.Widget'')] sample_aliases 2 ''facade.make'' = Some ''real.Widget'' \<and>
   resolve_return_class ''facade.make'' [(''real.Thing'', ''real.Widget'')] sample_aliases = Some ''real.Widget'' \<and>
   resolve_return_class ''m.loop'' [(''real.Thing'', ''real.Widget'')] sample_aliases = None"
proof -
  have at: "class_at [(''real.Thing'', ''real.Widget'')] sample_aliases 0 ''facade.make'' = None"
    "class_at [(''real.Thing'', ''real.Widget'')] sample_aliases 1 ''facade.make'' = None"
    "class_at [(''real.Thing'', ''real.Widget'')] sample_aliases 2 ''facade.make'' = Some ''real.Widget''"
    by code_simp+
  moreover have "resolve_return_class ''facade.make'' [(''real.Thing'', ''real.Widget'')] sample_aliases =
      Some ''real.Widget''"
    unfolding resolve_return_class_exact
  proof (intro exI conjI allI impI)
    show "(2 :: nat) < 8" by simp
    show "class_at [(''real.Thing'', ''real.Widget'')] sample_aliases k ''facade.make'' = None" if "k < 2" for k
      using that at(1,2) by (auto simp: less_Suc_eq numeral_2_eq_2)
  qed (rule at)
  moreover have "resolve_return_class ''m.loop'' [(''real.Thing'', ''real.Widget'')] sample_aliases = None"
    by code_simp
  ultimately show ?thesis by blast
qed

end
