(* ===== verification/Spec2Isabelle.thy ===== *)
theory Spec2Isabelle
  imports Stub_Normalization Scripts Policy_Guards Cursor Exceptions Config Module_Pass Export_Cache Import_Builder Dunder_All
    Wire_Canonical Resolution_Bases Resolution_Promotion Resolution_Mutations Reduce_Safety
begin

text \<open>
  A development for Lifeguard, a static analysis that decides which modules of a Python program
  may be imported lazily. Paths are relative to the repository's root.

  \<^bold>\<open>The program.\<close> A map phase analyses each library: it walks the syntax trees of sources and of
  \<open>.pyi\<close> stubs with a scope cursor, records effects, decides along the call graph which callables
  are safe to run at import time, turns the rest into errors of their modules, and writes them to a
  cache. A reduce phase merges the caches of the libraries of a
  binary, propagates verdicts along re-exports, re-resolves imports, confirms or discharges what
  the map phase left open, and clears errors that the merged facts verify. A policy then computes,
  for every passing module, the modules that must be loaded before it (its guards). Two Python
  scripts normalize the stubs the analyzer ships with, and a Python launcher starts the binary.

  \<^bold>\<open>Shared vocabulary.\<close>
  \<^item> \<open>Prelude\<close>: insertion-ordered sets, multi-maps, \<open>Iterator::find\<close>, and the collections of simp rules.
  \<^item> \<open>Names\<close> (\<open>src/traits.rs\<close>, \<open>src/names.rs\<close>): dotted names are strings; a name is split at its
    longest module prefix by two searches that agree.
  \<^item> \<open>Ordering\<close>: Rust's \<open>Ordering\<close>, the stable sort, and the locale \<open>lawful_cmp\<close> with the client
    lemma that a sort by a lawful comparison is canonical in its keys; it is interpreted on
    \<open>cmp_of\<close>, and the error order is shown lawful from it.

  \<^bold>\<open>Analysis.\<close>
  \<^item> \<open>Exceptions\<close>, \<open>Cursor\<close>, \<open>Effects\<close>, \<open>Errors\<close>, \<open>Module_Safety\<close>, \<open>Config\<close> follow the source files
    of these names in \<open>src/\<close>: try handlers, the scope stacks (panics are \<open>None\<close>), effects and the
    imported arguments of calls (a 64-bit word), errors with their order and wire form, module
    verdicts, and the branches an \<open>if __name__\<close> guard prunes.
  \<^item> \<open>Function_Safety\<close> (\<open>src/module_safety.rs\<close>): verdicts as 8-bit sets of concerns. The locale
    \<open>concern_set\<close> states what their clients rely on and is interpreted on the words. Merging two
    records is a least upper bound with an exact changed flag (\<open>merge_ref_exact\<close>).
  \<^item> \<open>Stub_Syntax\<close>, \<open>Stub_Analyzer\<close> (\<open>src/stub_analyzer.rs\<close>) and \<open>Stub_Semantics\<close>: the traversal of a
    stub, and the refinement of a declarative meaning of stubs by it (\<open>analyze_stub_spec\<close>).
  \<^item> \<open>Mro\<close> (\<open>src/mro.rs\<close>): C3 linearization with its memo table and cycle guard, against the C3 rule
    as an \<open>inductive\<close> relation of its own (\<open>c3_next\<close>, \<open>c3_merged\<close>); \<open>Csr_Graph\<close>
    (\<open>src/csr_graph.rs\<close>): compressed adjacency and dependency levels; \<open>Csr_Cycles\<close> (the same file):
    Tarjan's search with an explicit stack flags exactly the nodes that reach themselves, and the
    rest can be leveled (\<open>levels_after_cycles\<close>).

  \<^bold>\<open>The whole-program pass\<close> (\<open>src/project/\<close>).
  \<^item> \<open>Exports\<close> (\<open>src/exports.rs\<close>, \<open>src/hasher.rs\<close>): what the modules export and re-export, chains of
    re-exports, and merging; \<open>Star_Exports\<close>: the passes that expand star imports reach, whatever the
    order and the split of the scans, what the \<open>inductive\<close> relation \<open>visible\<close> and the ranks of the
    stars say (\<open>expand_star_re_exports_exact\<close>).
  \<^item> \<open>Project_Info\<close> (\<open>info.rs\<close>, \<open>builder.rs\<close>, \<open>src/class.rs\<close>, \<open>src/module_info.rs\<close>): the tables of a project and how
    they are merged from the analyzed modules. \<open>Manual_Override\<close>: the functions declared safe.
  \<^item> \<open>Dispatch\<close> (\<open>dispatch.rs\<close>): the functions a call may run, through re-exports, constructors,
    metaclasses and the method resolution order.
  \<^item> \<open>Mutated_Params\<close> (\<open>mutations.rs\<close>): the parameters a function mutates itself or by handing them on;
    the worklist computes the \<open>inductive\<close> relation \<open>mutates\<close>.
  \<^item> \<open>Project_State\<close> (\<open>state.rs\<close>): verdicts and module results. \<open>Project_Calls\<close> (\<open>calls.rs\<close>): the mutually
    recursive check of a call. \<open>Call_Checks\<close>: the locale \<open>update_invariant\<close> states what an invariant of the
    single updates gives for a whole check; it is interpreted on the verdicts' well-formedness, on
    what a check leaves alone, on the keys, and on \<open>worsens\<close>. The recursion runs on fuel;
    \<open>check_call_body_total\<close> shows that \<open>body_fuel\<close>, one more than the names a stack can hold, is enough.
  \<^item> \<open>Call_Graph\<close> (\<open>call_graph.rs\<close>): the graph, the recursive functions, and the verdicts level by level.
    \<open>Call_Order\<close>: a check reads a footprint of names; when the edges cover it, the nodes of a level
    can run in any order (\<open>verdicts_order_free\<close>). Two samples show where the code's edges do not.
  \<^item> \<open>Implicit_Imports\<close> (\<open>implicit_imports.rs\<close>): imports that are used and that nothing loads, against
    the relation \<open>loaded\<close>, whose six reasons speak of the tables of the analysis and of the graph.
  \<^item> \<open>Project_Safety\<close> (\<open>safety.rs\<close>, \<open>analysis.rs\<close>): errors of the eager scopes, the resolution of a whole
    program by the passes of \<open>Resolution\<close>, the projection of the verdicts into the modules, the
    output. \<open>Module_Pass\<close>: by the locale \<open>module_scope\<close> the pass never writes a verdict, so that the
    modules can run in any order; it always returns, with an entry for every module.

  \<^bold>\<open>Caches and the reduce.\<close>
  \<^item> \<open>Cache_Model\<close> (\<open>src/cache/artifact.rs\<close>, \<open>src/cache/main_guard.rs\<close>): the records of a cache,
    constructor callees as bit masks, and dropping what a guard produced.
  \<^item> \<open>Export_Cache\<close> (the same file and \<open>src/output/policy.rs\<close>): the exports a cache keeps, and the
    agreement of the two re-export maps, of a whole program and of its caches.
  \<^item> \<open>Cache_Wire\<close> (\<open>src/cache_wire.rs\<close>): the name table, the wire records and the framing in bytes;
    \<open>Wire_Roundtrip\<close> and \<open>Wire_Canonical\<close>: reading gives the normal form of what was written, the
    bytes are a function of the normal form, and no readable file is the beginning of another.
  \<^item> \<open>Cache_Propagate\<close> and \<open>Cache_Merge\<close> (\<open>src/cache/merge.rs\<close>): the worklist over re-exports, whose
    result is given in closed form by sets of facts, and the coalescing of all records of a module.
  \<^item> \<open>Safety_Resolver\<close> (\<open>src/safety_resolver.rs\<close>): when a callee is verified safe, with the memo table
    of decorators as explicit state.
  \<^item> \<open>Resolution\<close> (\<open>src/resolution.rs\<close>), with \<open>Resolution_Bases\<close> (the search over base classes),
    \<open>Resolution_Mutations\<close> (candidate calls are confirmed or discharged, in any order alike) and
    \<open>Resolution_Promotion\<close> (promotion rounds reach exactly a least fixed point, an \<open>inductive\<close>
    predicate).
  \<^item> \<open>Cache_Reduce\<close> (\<open>src/cache/reduce.rs\<close>, \<open>src/cache/bundled_stubs.rs\<close>) composes them as the code
    does. \<open>Reduce_Evidence\<close> says, without a resolver, what the verdicts of a merged program answer of an
    error (\<open>cleared\<close>, \<open>cleared_late\<close>), and that the resolvers of the reduce answer just that;
    \<open>Reduce_Safety\<close> shows what every phase keeps of a module: which errors go, stay or come
    (\<open>resolve_errors_sound\<close>), and how the import edges are settled.

  \<^bold>\<open>Reading a module.\<close>
  \<^item> \<open>Py_Syntax\<close>: the statements and expressions of \<open>ruff\<close> with what the scanners read of them.
  \<^item> \<open>Py_Definitions\<close> (\<open>src/pyrefly/definitions.rs\<close>): the names a scope defines. \<open>Binding_Sites\<close>: the sites that
    bind a name, as functions of the statements that are reached; the table keeps of them the earliest
    of the least style, which rests on the styles being lawfully ordered (\<open>style_law\<close>).
  \<^item> \<open>Export_Builder\<close> (\<open>src/exports.rs\<close>, \<open>src/module_parser.rs\<close>): the exports of a module, with or without the
    import graph at hand; \<open>Dunder_All\<close>: \<open>__all__\<close> against a semantics of the Python statements that
    bind or change it (\<open>py_stmt\<close>).

  \<^bold>\<open>The import graph.\<close>
  \<^item> \<open>Graph_Store\<close> (\<open>src/graph.rs\<close>): the graph keyed by names over a graph of \<open>petgraph\<close>, whose documented
    behaviour is the predicate \<open>digraph_ok\<close>, shown for a graph of lists; the operations refine those on a
    set of names and a set of edges, and the cycles are the components of several modules.
  \<^item> \<open>Import_Collector\<close> (\<open>src/imports.rs\<close>): the imports read off a syntax tree, with calls of
    \<open>importlib.import_module\<close>, pruned branches and \<open>__main__\<close> guards; \<open>collect_exact\<close> gives them as sets.
  \<^item> \<open>Import_Builder\<close> (the same file): both builders. The rounds over the frontier end, since each round
    reaches new nodes or empties it, and what they parse is the \<open>inductive\<close> predicate \<open>reaches\<close>.
  \<^item> \<open>Import_Graph\<close> (the same file): the finished graph as its clients query it; the builders are shown
    to give one that satisfies \<open>graph_ok\<close>, on which the theorems about the policy rest.

  \<^bold>\<open>Policy.\<close> \<open>Reexports\<close>, \<open>Import_Chains\<close>, \<open>Policy\<close> and \<open>Cycle_Guards\<close>
  (\<open>src/output/policy.rs\<close>): the classification of modules, re-export chains with their memo
  tables, guards along shortest import chains, in cycles and at their entries, and of side-effect
  imports. \<open>Policy_Guards\<close> puts the passes together: a module is guarded by another exactly for one of the
  reasons of the \<open>inductive\<close> relation \<open>guard_reason\<close> (\<open>lazy_eligibility_guards\<close>).

  \<^bold>\<open>Python.\<close> \<open>Overload_Merger\<close> and \<open>Scripts\<close> (\<open>resources/scripts/\<close>,
  \<open>python/lifeguard_lazy_imports/__main__.py\<close>): the concrete-syntax transformer that moves the
  effects of overloads into the first one, the two commands over a model of the file system, and
  the launcher. \<open>Stub_Normalization\<close> joins the two readers of stubs: merging does not change what
  the analyzer finds.

  \<^bold>\<open>Conventions.\<close> Hash maps and hash sets are association lists and lists; theorems about them state
  sets, or hold for every order. Interned module names are their strings, and the order of two
  interned names is a parameter \<open>mcmp\<close>, assumed lawful where it matters. Parallel loops are maps and
  folds; where the sharing out of work could show, it is an argument, and the parallel loops over
  the nodes of a level and over the modules run in the order of an arbitrary list. Loops are
  recursive functions with termination proofs, or partial functions with proofs that they return
  (levels and cycles of a graph). Fuel is used for the checks of calls only, with the bound
  \<open>body_fuel\<close>; the code's own bound is the limit of eight re-export hops. Panics and failures are \<open>None\<close> or \<open>Inl\<close>.

  \<^bold>\<open>Not modelled.\<close> The source analyzer and the bindings (\<open>src/source_analyzer.rs\<close>,
  \<open>src/bindings.rs\<close>, the builders of \<open>src/module_info.rs\<close>) walk the whole syntax of \<open>ruff\<close>; what they
  produce is the input of the whole-program pass. The report of \<open>src/output/\<close>, the walking of
  directories, threads, timing, printed messages and command-line parsing are left out. \<open>libcst\<close>'s
  parser and printer, \<open>postcard\<close>'s byte form of a record, \<open>petgraph\<close>'s graph and components, and the
  graph of the bundled stubs, and the operations of \<open>pyrefly_python\<close> (relative names, binding targets,
  docstrings) are parameters.
\<close>

end
